(* ===== verification/Prelude.thy ===== *)
theory Prelude
  imports Main "HOL-Library.Word"
begin

text \<open>
  Shared vocabulary of the development: the machine integers of the kernel
  (\<^verbatim>\<open>include/internal/phonon_types.h\<close>), byte buffers with the reads and
  writes that C performs on them (\<open>slice\<close> for a read of a window, \<open>patch\<close> for a
  \<^verbatim>\<open>memcpy\<close> into a window), little-endian integer fields, and the lemmas about
  them that every component uses.
\<close>

unbundle bit_operations_syntax

type_synonym u8 = "8 word"
type_synonym u16 = "16 word"
type_synonym u32 = "32 word"
type_synonym u64 = "64 word"
type_synonym bytes = "u8 list"

named_theorems frame \<open>what an operation leaves unchanged\<close>
named_theorems wf_intros \<open>well-formedness of constructed values\<close>

section \<open>Windows of a buffer\<close>

definition slice :: "nat \<Rightarrow> nat \<Rightarrow> 'a list \<Rightarrow> 'a list" where
  "slice off n xs = take n (drop off xs)"

definition patch :: "nat \<Rightarrow> 'a list \<Rightarrow> 'a list \<Rightarrow> 'a list" where
  "patch off ys xs = take off xs @ ys @ drop (off + length ys) xs"

lemma length_slice [simp]: "length (slice off n xs) = min n (length xs - off)"
  by (simp add: slice_def)

lemma length_patch [simp]:
  "off + length ys \<le> length xs \<Longrightarrow> length (patch off ys xs) = length xs"
  by (simp add: patch_def)

lemma slice_patch_same [simp]:
  "off + length ys \<le> length xs \<Longrightarrow> n = length ys \<Longrightarrow> slice off n (patch off ys xs) = ys"
  by (simp add: slice_def patch_def)

lemma slice_0_append [simp]: "n = length xs \<Longrightarrow> slice 0 n (xs @ ys) = xs"
  by (simp add: slice_def)

lemma slice_append2:
  "length xs \<le> off \<Longrightarrow> slice off n (xs @ ys) = slice (off - length xs) n ys"
  by (simp add: slice_def)

lemma slice_append1:
  "off + n \<le> length xs \<Longrightarrow> slice off n (xs @ ys) = slice off n xs"
  by (simp add: slice_def)

lemma slice_all: "length xs \<le> n \<Longrightarrow> slice 0 n xs = xs"
  by (simp add: slice_def)

lemma slice_slice:
  "a + k \<le> n \<Longrightarrow> slice a k (slice off n xs) = slice (off + a) k xs"
  by (simp add: slice_def drop_take add.commute min_def)

lemma slice_take:
  "off + n \<le> m \<Longrightarrow> slice off n (take m xs) = slice off n xs"
  by (simp add: slice_def drop_take min_def)

lemma slice_patch_after:
  "off + length ys \<le> length xs \<Longrightarrow> off + length ys \<le> a \<Longrightarrow>
   slice a n (patch off ys xs) = slice a n xs"
  by (auto simp: slice_def patch_def)

lemma slice_patch_before:
  "off + length ys \<le> length xs \<Longrightarrow> a + n \<le> off \<Longrightarrow> slice a n (patch off ys xs) = slice a n xs"
  unfolding patch_def by (simp add: slice_append1 slice_take)

lemma slice_patch_other:
  "off + length ys \<le> length xs \<Longrightarrow> a + n \<le> off \<or> off + length ys \<le> a \<Longrightarrow>
   slice a n (patch off ys xs) = slice a n xs"
  by (metis slice_patch_after slice_patch_before)

lemma slice_Suc_append:
  "off + n < length xs \<Longrightarrow> slice off (Suc n) xs = slice off n xs @ [xs ! (off + n)]"
  by (simp add: slice_def take_Suc_conv_app_nth)

lemma nth_slice: "i < n \<Longrightarrow> off + i < length xs \<Longrightarrow> slice off n xs ! i = xs ! (off + i)"
  by (simp add: slice_def)

lemma patch_nth:
  "off + length ys \<le> length xs \<Longrightarrow> i < length xs \<Longrightarrow>
   patch off ys xs ! i = (if off \<le> i \<and> i < off + length ys then ys ! (i - off) else xs ! i)"
  by (auto simp: patch_def nth_append min_def)

lemma patch_slice_id: "off + n \<le> length xs \<Longrightarrow> patch off (slice off n xs) xs = xs"
  by (rule nth_equalityI) (auto simp: patch_nth nth_slice)

lemma patch_Nil [simp]: "patch off [] xs = xs"
  by (simp add: patch_def)

lemma slice_join: "b = a + m \<Longrightarrow> slice a m xs @ slice b n xs = slice a (m + n) xs"
  by (simp add: slice_def take_add add.commute)

lemma slice_join_append:
  "b = a + m \<Longrightarrow> slice a m xs @ slice b n xs @ ys = slice a (m + n) xs @ ys"
  by (simp add: slice_join flip: append_assoc)

lemma slice_0: "slice 0 n xs = take n xs"
  by (simp add: slice_def)

section \<open>Little-endian fields\<close>

definition le_bytes :: "nat \<Rightarrow> 'a::len word \<Rightarrow> bytes" where
  "le_bytes n w = map (\<lambda>i. ucast (drop_bit (8 * i) w)) [0..<n]"

fun le_word :: "bytes \<Rightarrow> 'a::len word" where
  "le_word [] = 0"
| "le_word (b # bs) = ucast b OR push_bit 8 (le_word bs)"

lemma length_le_bytes [simp]: "length (le_bytes n w) = n"
  by (simp add: le_bytes_def)

lemma nth_le_bytes: "i < n \<Longrightarrow> le_bytes n w ! i = ucast (drop_bit (8 * i) w)"
  by (simp add: le_bytes_def)

lemma bit_le_word:
  "bit (le_word bs :: 'a::len word) k \<longleftrightarrow>
     k < LENGTH('a) \<and> k < 8 * length bs \<and> bit (bs ! (k div 8)) (k mod 8)"
proof (induction bs arbitrary: k)
  case Nil
  then show ?case by simp
next
  case (Cons b bs)
  show ?case
  proof (cases "k < 8")
    case True
    then show ?thesis
      by (auto simp: bit_or_iff bit_push_bit_iff bit_unsigned_iff)
  next
    case False
    then have "k div 8 = Suc ((k - 8) div 8)" and "k mod 8 = (k - 8) mod 8"
      by (simp_all add: le_div_geq le_mod_geq)
    moreover have "\<not> bit (ucast b :: 'a word) k"
      using False by (simp add: bit_unsigned_iff impossible_bit)
    ultimately show ?thesis
      using False by (auto simp: bit_or_iff bit_push_bit_iff Cons.IH)
  qed
qed

lemma le_word_le_bytes [simp]:
  "8 * n = LENGTH('a) \<Longrightarrow> le_word (le_bytes n w) = (w :: 'a::len word)"
proof (rule bit_word_eqI)
  fix k assume n: "8 * n = LENGTH('a)" and k: "k < LENGTH('a)"
  then have "k div 8 < n" by auto
  with n k show "bit (le_word (le_bytes n w) :: 'a word) k = bit w k"
    by (auto simp: bit_le_word nth_le_bytes bit_unsigned_iff bit_drop_bit_eq)
qed

lemma le_bytes_le_word [simp]:
  "length bs = n \<Longrightarrow> 8 * n = LENGTH('a) \<Longrightarrow> le_bytes n (le_word bs :: 'a::len word) = bs"
proof (rule nth_equalityI)
  fix i assume len: "length bs = n" and n: "8 * n = LENGTH('a)"
    and "i < length (le_bytes n (le_word bs :: 'a word))"
  then have i: "i < n" by simp
  show "le_bytes n (le_word bs :: 'a word) ! i = bs ! i"
  proof (rule bit_word_eqI)
    fix k assume k: "k < LENGTH(8)"
    have "8 * i + k < LENGTH('a)" using i k n by simp
    then show "bit (le_bytes n (le_word bs :: 'a word) ! i) k = bit (bs ! i) k"
      using i k n len by (auto simp: nth_le_bytes bit_unsigned_iff bit_drop_bit_eq bit_le_word)
  qed
qed simp

lemma le_bytes_inj:
  "8 * n = LENGTH('a) \<Longrightarrow> le_bytes n v = le_bytes n (w :: 'a::len word) \<longleftrightarrow> v = w"
  by (metis le_word_le_bytes)

section \<open>Lists and words\<close>

lemma unat_ucast:
  "unat (ucast (w :: 'a::len word) :: 'b::len word) = unat w mod 2 ^ LENGTH('b)"
  by (simp add: unsigned_ucast_eq take_bit_eq_mod)

lemma unat_ucast_up:
  "LENGTH('a) \<le> LENGTH('b) \<Longrightarrow> unat (ucast (w :: 'a::len word) :: 'b::len word) = unat w"
  unfolding unat_ucast
  by (rule mod_less) (metis order_less_le_trans one_le_numeral power_increasing unsigned_less)

lemma unat_ucast_small:
  "unat w < 2 ^ LENGTH('b) \<Longrightarrow> unat (ucast (w :: 'a::len word) :: 'b::len word) = unat w"
  by (simp add: unat_ucast)

lemma unat_of_nat_le: "unat (of_nat n :: 'a::len word) \<le> n"
  by (simp add: unat_of_nat)

lemma unat_of_nat_small: "n < 2 ^ LENGTH('a) \<Longrightarrow> unat (of_nat n :: 'a::len word) = n"
  by (simp add: unat_of_nat)

lemma unat_sub_le: "v \<le> w \<Longrightarrow> unat (w - v) = unat w - unat (v :: 'a::len word)"
  by (rule unat_sub)

lemma unat_add_small:
  "unat v + unat w < 2 ^ LENGTH('a) \<Longrightarrow> unat (v + w :: 'a::len word) = unat v + unat w"
  by (simp add: unat_word_ariths)

lemma list_update_len: "length xs = n \<Longrightarrow> length (xs[i := x]) = n"
  by simp

end
