(* ===== verification/Layout.thy ===== *)
theory Layout
  imports Prelude
begin

text \<open>
  The data model of SmKFS (\<^verbatim>\<open>include/fs/smkfs.h\<close>): its constants and status
  codes, every packed on-disk structure as a record with the encoder and the decoder of its
  exact byte layout, and the in-memory mount context. Each pair of encoder and decoder is
  proved to be a bijection between well-formed records and byte strings of the structure's
  size, so that working on records loses nothing of the bytes that the C code handles.
\<close>

section \<open>Constants and status codes\<close>

abbreviation (input) SMKFS_BLOCK_SIZE :: nat where "SMKFS_BLOCK_SIZE \<equiv> 4096"
abbreviation (input) SMKFS_REGION_BLOCKS :: nat where "SMKFS_REGION_BLOCKS \<equiv> 256"
abbreviation (input) SMKFS_NAME_LEN :: nat where "SMKFS_NAME_LEN \<equiv> 256"
abbreviation (input) SMKFS_PATH_LEN :: nat where "SMKFS_PATH_LEN \<equiv> 4096"
abbreviation (input) SMKFS_BTR_MAX_KEY :: nat where "SMKFS_BTR_MAX_KEY \<equiv> 255"
abbreviation (input) SMKFS_FD_MAX :: nat where "SMKFS_FD_MAX \<equiv> 16"
abbreviation (input) SMKFS_CACHE_SLOTS :: nat where "SMKFS_CACHE_SLOTS \<equiv> 16"

definition SMKFS_MAGIC :: bytes where "SMKFS_MAGIC = [0x53, 0x6D, 0x4B, 0x46]"
abbreviation (input) SMKFS_VERSION :: u16 where "SMKFS_VERSION \<equiv> 2"

abbreviation (input) SMKFS_ST_SUPERBLOCK :: u16 where "SMKFS_ST_SUPERBLOCK \<equiv> 1"
abbreviation (input) SMKFS_ST_RECORD :: u16 where "SMKFS_ST_RECORD \<equiv> 2"
abbreviation (input) SMKFS_ST_BTREE_NODE :: u16 where "SMKFS_ST_BTREE_NODE \<equiv> 3"
abbreviation (input) SMKFS_ST_JOURNAL_ENT :: u16 where "SMKFS_ST_JOURNAL_ENT \<equiv> 5"

abbreviation (input) SMKFS_ROT_FILE :: u16 where "SMKFS_ROT_FILE \<equiv> 1"
abbreviation (input) SMKFS_ROT_DIR :: u16 where "SMKFS_ROT_DIR \<equiv> 2"

abbreviation (input) SMKFS_ATTRT_END :: u16 where "SMKFS_ATTRT_END \<equiv> 0"
abbreviation (input) SMKFS_ATTRT_NAME :: u16 where "SMKFS_ATTRT_NAME \<equiv> 1"
abbreviation (input) SMKFS_ATTRT_DATA :: u16 where "SMKFS_ATTRT_DATA \<equiv> 2"
abbreviation (input) SMKFS_ATTRT_FSIZE :: u16 where "SMKFS_ATTRT_FSIZE \<equiv> 3"
abbreviation (input) SMKFS_ATTRT_PERMISSIONS :: u16 where "SMKFS_ATTRT_PERMISSIONS \<equiv> 4"
abbreviation (input) SMKFS_ATTRT_OWNER :: u16 where "SMKFS_ATTRT_OWNER \<equiv> 5"
abbreviation (input) SMKFS_ATTRT_TIMESTAMPS :: u16 where "SMKFS_ATTRT_TIMESTAMPS \<equiv> 6"
abbreviation (input) SMKFS_ATTRT_PARENT :: u16 where "SMKFS_ATTRT_PARENT \<equiv> 7"
abbreviation (input) SMKFS_ATTRT_EXTENTS :: u16 where "SMKFS_ATTRT_EXTENTS \<equiv> 8"
abbreviation (input) SMKFS_ATTRT_SYMLINK :: u16 where "SMKFS_ATTRT_SYMLINK \<equiv> 9"
abbreviation (input) SMKFS_ATTRT_DEVICE :: u16 where "SMKFS_ATTRT_DEVICE \<equiv> 10"

abbreviation (input) SMKFS_ATTRF_UNIQUE :: u16 where "SMKFS_ATTRF_UNIQUE \<equiv> 1"
abbreviation (input) SMKFS_ATTRF_REQUIRED :: u16 where "SMKFS_ATTRF_REQUIRED \<equiv> 2"
abbreviation (input) SMKFS_FLA_DELETED :: u32 where "SMKFS_FLA_DELETED \<equiv> 2"
abbreviation (input) SMKFS_MRTF_ALLOCATED :: u16 where "SMKFS_MRTF_ALLOCATED \<equiv> 1"
abbreviation (input) UINT64_MAX :: u64 where "UINT64_MAX \<equiv> - 1"

abbreviation (input) SMKFS_BTN_LEAF :: u32 where "SMKFS_BTN_LEAF \<equiv> 1"
abbreviation (input) SMKFS_BTN_ROOT :: u32 where "SMKFS_BTN_ROOT \<equiv> 2"

abbreviation (input) SMKFS_JOP_WRITE :: u32 where "SMKFS_JOP_WRITE \<equiv> 1"
abbreviation (input) SMKFS_JOP_ALLOC :: u32 where "SMKFS_JOP_ALLOC \<equiv> 2"
abbreviation (input) SMKFS_JOP_FREE :: u32 where "SMKFS_JOP_FREE \<equiv> 3"
abbreviation (input) SMKFS_JOP_COMMIT :: u32 where "SMKFS_JOP_COMMIT \<equiv> 4"
abbreviation (input) SMKFS_JOP_MRT_UPDATE :: u32 where "SMKFS_JOP_MRT_UPDATE \<equiv> 5"
abbreviation (input) SMKFS_JOP_CHECKPOINT :: u32 where "SMKFS_JOP_CHECKPOINT \<equiv> 6"

abbreviation (input) SMKFS_SBF_CLEAN :: u32 where "SMKFS_SBF_CLEAN \<equiv> 1"

text \<open>\<open>SMKFS_STATUS\<close> and the integer each code stands for.\<close>

datatype status =
    OK
  | ERR_IO
  | ERR_NOMEM
  | ERR_NOTFOUND
  | ERR_EXISTS
  | ERR_NOSPC
  | ERR_INVAL
  | ERR_CORRUPT
  | ERR_NOTEMPTY
  | ERR_ROFS
  | ERR_JOURNAL
  | ERR_TOO_BIG
  | ERR_NOT_YET_BOUND

fun status_code :: "status \<Rightarrow> int" where
  "status_code OK = 0"
| "status_code ERR_IO = -1"
| "status_code ERR_NOMEM = -2"
| "status_code ERR_NOTFOUND = -3"
| "status_code ERR_EXISTS = -4"
| "status_code ERR_NOSPC = -5"
| "status_code ERR_INVAL = -6"
| "status_code ERR_CORRUPT = -7"
| "status_code ERR_NOTEMPTY = -8"
| "status_code ERR_ROFS = -9"
| "status_code ERR_JOURNAL = -10"
| "status_code ERR_TOO_BIG = -11"
| "status_code ERR_NOT_YET_BOUND = -12"

lemma status_code_inj: "status_code a = status_code b \<Longrightarrow> a = b"
  by (cases a; cases b) simp_all

lemma status_code_le: "status_code s \<le> 0"
  by (cases s) simp_all

section \<open>The canonical 32-byte object header\<close>

record header =
  h_magic :: bytes
  h_version :: u16
  h_type :: u16
  h_length :: u32
  h_flags :: u32
  h_checksum :: u32
  h_reserved :: bytes

definition enc_header :: "header \<Rightarrow> bytes" where
  "enc_header x =
     h_magic x @
     le_bytes 2 (h_version x) @
     le_bytes 2 (h_type x) @
     le_bytes 4 (h_length x) @
     le_bytes 4 (h_flags x) @
     le_bytes 4 (h_checksum x) @
     h_reserved x"

definition dec_header :: "bytes \<Rightarrow> header" where
  "dec_header bs =
     \<lparr> h_magic = slice 0 4 bs,
       h_version = le_word (slice 4 2 bs),
       h_type = le_word (slice 6 2 bs),
       h_length = le_word (slice 8 4 bs),
       h_flags = le_word (slice 12 4 bs),
       h_checksum = le_word (slice 16 4 bs),
       h_reserved = slice 20 12 bs \<rparr>"

definition wf_header :: "header \<Rightarrow> bool" where
  "wf_header x \<longleftrightarrow> length (h_magic x) = 4 \<and> length (h_reserved x) = 12"

lemma length_enc_header [simp]: "wf_header x \<Longrightarrow> length (enc_header x) = 32"
  by (simp add: enc_header_def wf_header_def)

lemma dec_enc_header [simp]: "wf_header x \<Longrightarrow> dec_header (enc_header x @ ys) = x"
  by (simp add: enc_header_def dec_header_def slice_append2 wf_header_def)

lemma dec_enc_header_Nil [simp]: "wf_header x \<Longrightarrow> dec_header (enc_header x) = x"
  using dec_enc_header [of x "[]"] by simp

lemma wf_dec_header [simp]: "32 \<le> length bs \<Longrightarrow> wf_header (dec_header bs)"
  by (simp add: wf_header_def dec_header_def)

lemma enc_dec_header: "32 \<le> length bs \<Longrightarrow> enc_header (dec_header bs) = slice 0 32 bs"
  by (simp add: enc_header_def dec_header_def slice_join slice_join_append)

lemma dec_header_take [simp]: "32 \<le> n \<Longrightarrow> dec_header (take n bs) = dec_header bs"
  by (simp add: dec_header_def slice_take)

section \<open>A 16-byte slot of the Master Record Table\<close>

record mrt_entry =
  m_physical_block :: u64
  m_flags :: u16
  m_reserved :: u16
  m_generation :: u32

definition enc_mrt_entry :: "mrt_entry \<Rightarrow> bytes" where
  "enc_mrt_entry x =
     le_bytes 8 (m_physical_block x) @
     le_bytes 2 (m_flags x) @
     le_bytes 2 (m_reserved x) @
     le_bytes 4 (m_generation x)"

definition dec_mrt_entry :: "bytes \<Rightarrow> mrt_entry" where
  "dec_mrt_entry bs =
     \<lparr> m_physical_block = le_word (slice 0 8 bs),
       m_flags = le_word (slice 8 2 bs),
       m_reserved = le_word (slice 10 2 bs),
       m_generation = le_word (slice 12 4 bs) \<rparr>"

lemma length_enc_mrt_entry [simp]: "length (enc_mrt_entry x) = 16"
  by (simp add: enc_mrt_entry_def)

lemma dec_enc_mrt_entry [simp]: "dec_mrt_entry (enc_mrt_entry x @ ys) = x"
  by (simp add: enc_mrt_entry_def dec_mrt_entry_def slice_append2)

lemma dec_enc_mrt_entry_Nil [simp]: "dec_mrt_entry (enc_mrt_entry x) = x"
  using dec_enc_mrt_entry [of x "[]"] by simp

lemma enc_dec_mrt_entry: "16 \<le> length bs \<Longrightarrow> enc_mrt_entry (dec_mrt_entry bs) = slice 0 16 bs"
  by (simp add: enc_mrt_entry_def dec_mrt_entry_def slice_join slice_join_append)

lemma dec_mrt_entry_take [simp]: "16 \<le> n \<Longrightarrow> dec_mrt_entry (take n bs) = dec_mrt_entry bs"
  by (simp add: dec_mrt_entry_def slice_take)

section \<open>A 20-byte extent\<close>

record extent =
  e_logical_offset :: u64
  e_physical_block :: u64
  e_block_count :: u32

definition enc_extent :: "extent \<Rightarrow> bytes" where
  "enc_extent x =
     le_bytes 8 (e_logical_offset x) @
     le_bytes 8 (e_physical_block x) @
     le_bytes 4 (e_block_count x)"

definition dec_extent :: "bytes \<Rightarrow> extent" where
  "dec_extent bs =
     \<lparr> e_logical_offset = le_word (slice 0 8 bs),
       e_physical_block = le_word (slice 8 8 bs),
       e_block_count = le_word (slice 16 4 bs) \<rparr>"

lemma length_enc_extent [simp]: "length (enc_extent x) = 20"
  by (simp add: enc_extent_def)

lemma dec_enc_extent [simp]: "dec_extent (enc_extent x @ ys) = x"
  by (simp add: enc_extent_def dec_extent_def slice_append2)

lemma dec_enc_extent_Nil [simp]: "dec_extent (enc_extent x) = x"
  using dec_enc_extent [of x "[]"] by simp

lemma enc_dec_extent: "20 \<le> length bs \<Longrightarrow> enc_extent (dec_extent bs) = slice 0 20 bs"
  by (simp add: enc_extent_def dec_extent_def slice_join slice_join_append)

lemma dec_extent_take [simp]: "20 \<le> n \<Longrightarrow> dec_extent (take n bs) = dec_extent bs"
  by (simp add: dec_extent_def slice_take)

section \<open>The 12-byte header of an attribute\<close>

record attr_header =
  a_type :: u16
  a_flags :: u16
  a_id :: u32
  a_length :: u32

definition enc_attr_header :: "attr_header \<Rightarrow> bytes" where
  "enc_attr_header x =
     le_bytes 2 (a_type x) @
     le_bytes 2 (a_flags x) @
     le_bytes 4 (a_id x) @
     le_bytes 4 (a_length x)"

definition dec_attr_header :: "bytes \<Rightarrow> attr_header" where
  "dec_attr_header bs =
     \<lparr> a_type = le_word (slice 0 2 bs),
       a_flags = le_word (slice 2 2 bs),
       a_id = le_word (slice 4 4 bs),
       a_length = le_word (slice 8 4 bs) \<rparr>"

lemma length_enc_attr_header [simp]: "length (enc_attr_header x) = 12"
  by (simp add: enc_attr_header_def)

lemma dec_enc_attr_header [simp]: "dec_attr_header (enc_attr_header x @ ys) = x"
  by (simp add: enc_attr_header_def dec_attr_header_def slice_append2)

lemma dec_enc_attr_header_Nil [simp]: "dec_attr_header (enc_attr_header x) = x"
  using dec_enc_attr_header [of x "[]"] by simp

lemma enc_dec_attr_header: "12 \<le> length bs \<Longrightarrow> enc_attr_header (dec_attr_header bs) = slice 0 12 bs"
  by (simp add: enc_attr_header_def dec_attr_header_def slice_join slice_join_append)

lemma dec_attr_header_take [simp]: "12 \<le> n \<Longrightarrow> dec_attr_header (take n bs) = dec_attr_header bs"
  by (simp add: dec_attr_header_def slice_take)

section \<open>The 56-byte record header\<close>

record smk_record =
  r_header :: header
  r_record_id :: u64
  r_object_type :: u16
  r_attr_count :: u16
  r_link_count :: u32
  r_generation :: u32
  r_reserved :: u32

definition enc_smk_record :: "smk_record \<Rightarrow> bytes" where
  "enc_smk_record x =
     enc_header (r_header x) @
     le_bytes 8 (r_record_id x) @
     le_bytes 2 (r_object_type x) @
     le_bytes 2 (r_attr_count x) @
     le_bytes 4 (r_link_count x) @
     le_bytes 4 (r_generation x) @
     le_bytes 4 (r_reserved x)"

definition dec_smk_record :: "bytes \<Rightarrow> smk_record" where
  "dec_smk_record bs =
     \<lparr> r_header = dec_header bs,
       r_record_id = le_word (slice 32 8 bs),
       r_object_type = le_word (slice 40 2 bs),
       r_attr_count = le_word (slice 42 2 bs),
       r_link_count = le_word (slice 44 4 bs),
       r_generation = le_word (slice 48 4 bs),
       r_reserved = le_word (slice 52 4 bs) \<rparr>"

definition wf_smk_record :: "smk_record \<Rightarrow> bool" where
  "wf_smk_record x \<longleftrightarrow> wf_header (r_header x)"

lemma length_enc_smk_record [simp]: "wf_smk_record x \<Longrightarrow> length (enc_smk_record x) = 56"
  by (simp add: enc_smk_record_def wf_smk_record_def)

lemma dec_enc_smk_record [simp]: "wf_smk_record x \<Longrightarrow> dec_smk_record (enc_smk_record x @ ys) = x"
  by (simp add: enc_smk_record_def dec_smk_record_def slice_append2 wf_smk_record_def)

lemma dec_enc_smk_record_Nil [simp]: "wf_smk_record x \<Longrightarrow> dec_smk_record (enc_smk_record x) = x"
  using dec_enc_smk_record [of x "[]"] by simp

lemma wf_dec_smk_record [simp]: "56 \<le> length bs \<Longrightarrow> wf_smk_record (dec_smk_record bs)"
  by (simp add: wf_smk_record_def dec_smk_record_def)

lemma enc_dec_smk_record: "56 \<le> length bs \<Longrightarrow> enc_smk_record (dec_smk_record bs) = slice 0 56 bs"
  by (simp add: enc_smk_record_def dec_smk_record_def slice_join slice_join_append enc_dec_header)

lemma dec_smk_record_take [simp]: "56 \<le> n \<Longrightarrow> dec_smk_record (take n bs) = dec_smk_record bs"
  by (simp add: dec_smk_record_def slice_take)

section \<open>The 64-byte journal entry\<close>

record journal_entry =
  j_header :: header
  j_sequence :: u64
  j_target_block :: u64
  j_operation :: u32
  j_data_length :: u32
  j_record_id :: u64

definition enc_journal_entry :: "journal_entry \<Rightarrow> bytes" where
  "enc_journal_entry x =
     enc_header (j_header x) @
     le_bytes 8 (j_sequence x) @
     le_bytes 8 (j_target_block x) @
     le_bytes 4 (j_operation x) @
     le_bytes 4 (j_data_length x) @
     le_bytes 8 (j_record_id x)"

definition dec_journal_entry :: "bytes \<Rightarrow> journal_entry" where
  "dec_journal_entry bs =
     \<lparr> j_header = dec_header bs,
       j_sequence = le_word (slice 32 8 bs),
       j_target_block = le_word (slice 40 8 bs),
       j_operation = le_word (slice 48 4 bs),
       j_data_length = le_word (slice 52 4 bs),
       j_record_id = le_word (slice 56 8 bs) \<rparr>"

definition wf_journal_entry :: "journal_entry \<Rightarrow> bool" where
  "wf_journal_entry x \<longleftrightarrow> wf_header (j_header x)"

lemma length_enc_journal_entry [simp]: "wf_journal_entry x \<Longrightarrow> length (enc_journal_entry x) = 64"
  by (simp add: enc_journal_entry_def wf_journal_entry_def)

lemma dec_enc_journal_entry [simp]: "wf_journal_entry x \<Longrightarrow> dec_journal_entry (enc_journal_entry x @ ys) = x"
  by (simp add: enc_journal_entry_def dec_journal_entry_def slice_append2 wf_journal_entry_def)

lemma dec_enc_journal_entry_Nil [simp]: "wf_journal_entry x \<Longrightarrow> dec_journal_entry (enc_journal_entry x) = x"
  using dec_enc_journal_entry [of x "[]"] by simp

lemma wf_dec_journal_entry [simp]: "64 \<le> length bs \<Longrightarrow> wf_journal_entry (dec_journal_entry bs)"
  by (simp add: wf_journal_entry_def dec_journal_entry_def)

lemma enc_dec_journal_entry: "64 \<le> length bs \<Longrightarrow> enc_journal_entry (dec_journal_entry bs) = slice 0 64 bs"
  by (simp add: enc_journal_entry_def dec_journal_entry_def slice_join slice_join_append enc_dec_header)

lemma dec_journal_entry_take [simp]: "64 \<le> n \<Longrightarrow> dec_journal_entry (take n bs) = dec_journal_entry bs"
  by (simp add: dec_journal_entry_def slice_take)

section \<open>The 56-byte B+ tree node header\<close>

record node_header =
  n_header :: header
  n_parent_block :: u64
  n_flags :: u32
  n_key_count :: u32
  n_right_sibling :: u64

definition enc_node_header :: "node_header \<Rightarrow> bytes" where
  "enc_node_header x =
     enc_header (n_header x) @
     le_bytes 8 (n_parent_block x) @
     le_bytes 4 (n_flags x) @
     le_bytes 4 (n_key_count x) @
     le_bytes 8 (n_right_sibling x)"

definition dec_node_header :: "bytes \<Rightarrow> node_header" where
  "dec_node_header bs =
     \<lparr> n_header = dec_header bs,
       n_parent_block = le_word (slice 32 8 bs),
       n_flags = le_word (slice 40 4 bs),
       n_key_count = le_word (slice 44 4 bs),
       n_right_sibling = le_word (slice 48 8 bs) \<rparr>"

definition wf_node_header :: "node_header \<Rightarrow> bool" where
  "wf_node_header x \<longleftrightarrow> wf_header (n_header x)"

lemma length_enc_node_header [simp]: "wf_node_header x \<Longrightarrow> length (enc_node_header x) = 56"
  by (simp add: enc_node_header_def wf_node_header_def)

lemma dec_enc_node_header [simp]: "wf_node_header x \<Longrightarrow> dec_node_header (enc_node_header x @ ys) = x"
  by (simp add: enc_node_header_def dec_node_header_def slice_append2 wf_node_header_def)

lemma dec_enc_node_header_Nil [simp]: "wf_node_header x \<Longrightarrow> dec_node_header (enc_node_header x) = x"
  using dec_enc_node_header [of x "[]"] by simp

lemma wf_dec_node_header [simp]: "56 \<le> length bs \<Longrightarrow> wf_node_header (dec_node_header bs)"
  by (simp add: wf_node_header_def dec_node_header_def)

lemma enc_dec_node_header: "56 \<le> length bs \<Longrightarrow> enc_node_header (dec_node_header bs) = slice 0 56 bs"
  by (simp add: enc_node_header_def dec_node_header_def slice_join slice_join_append enc_dec_header)

lemma dec_node_header_take [simp]: "56 \<le> n \<Longrightarrow> dec_node_header (take n bs) = dec_node_header bs"
  by (simp add: dec_node_header_def slice_take)

section \<open>A 264-byte B+ tree entry: record id or child block, and its key\<close>

record btree_slot =
  s_value :: u64
  s_name :: bytes

definition enc_btree_slot :: "btree_slot \<Rightarrow> bytes" where
  "enc_btree_slot x =
     le_bytes 8 (s_value x) @
     s_name x"

definition dec_btree_slot :: "bytes \<Rightarrow> btree_slot" where
  "dec_btree_slot bs =
     \<lparr> s_value = le_word (slice 0 8 bs),
       s_name = slice 8 256 bs \<rparr>"

definition wf_btree_slot :: "btree_slot \<Rightarrow> bool" where
  "wf_btree_slot x \<longleftrightarrow> length (s_name x) = 256"

lemma length_enc_btree_slot [simp]: "wf_btree_slot x \<Longrightarrow> length (enc_btree_slot x) = 264"
  by (simp add: enc_btree_slot_def wf_btree_slot_def)

lemma dec_enc_btree_slot [simp]: "wf_btree_slot x \<Longrightarrow> dec_btree_slot (enc_btree_slot x @ ys) = x"
  by (simp add: enc_btree_slot_def dec_btree_slot_def slice_append2 wf_btree_slot_def)

lemma dec_enc_btree_slot_Nil [simp]: "wf_btree_slot x \<Longrightarrow> dec_btree_slot (enc_btree_slot x) = x"
  using dec_enc_btree_slot [of x "[]"] by simp

lemma wf_dec_btree_slot [simp]: "264 \<le> length bs \<Longrightarrow> wf_btree_slot (dec_btree_slot bs)"
  by (simp add: wf_btree_slot_def dec_btree_slot_def)

lemma enc_dec_btree_slot: "264 \<le> length bs \<Longrightarrow> enc_btree_slot (dec_btree_slot bs) = slice 0 264 bs"
  by (simp add: enc_btree_slot_def dec_btree_slot_def slice_join slice_join_append)

lemma dec_btree_slot_take [simp]: "264 \<le> n \<Longrightarrow> dec_btree_slot (take n bs) = dec_btree_slot bs"
  by (simp add: dec_btree_slot_def slice_take)

section \<open>The 320-byte superblock\<close>

record superblock =
  sb_header :: header
  sb_total_blocks :: u64
  sb_free_blocks :: u64
  sb_sector_size :: u64
  sb_record_count :: u64
  sb_next_record_id :: u64
  sb_mrt_start :: u64
  sb_mrt_length :: u64
  sb_mrt_capacity :: u64
  sb_mrt_free_count :: u64
  sb_root_record_id :: u64
  sb_journal_start :: u64
  sb_journal_length :: u64
  sb_journal_head :: u64
  sb_journal_tail :: u64
  sb_journal_sequence :: u64
  sb_bitmap_start :: u64
  sb_bitmap_length :: u64
  sb_alloc_meta_start :: u64
  sb_alloc_meta_length :: u64
  sb_data_start :: u64
  sb_block_size :: u32
  sb_flags :: u32
  sb_uuid :: bytes
  sb_volume_name :: bytes
  sb_creation_time :: u64
  sb_last_mount_time :: u64
  sb_mount_count :: u32
  sb_max_mount_count :: u32
  sb_reserved :: bytes

definition enc_superblock :: "superblock \<Rightarrow> bytes" where
  "enc_superblock x =
     enc_header (sb_header x) @
     le_bytes 8 (sb_total_blocks x) @
     le_bytes 8 (sb_free_blocks x) @
     le_bytes 8 (sb_sector_size x) @
     le_bytes 8 (sb_record_count x) @
     le_bytes 8 (sb_next_record_id x) @
     le_bytes 8 (sb_mrt_start x) @
     le_bytes 8 (sb_mrt_length x) @
     le_bytes 8 (sb_mrt_capacity x) @
     le_bytes 8 (sb_mrt_free_count x) @
     le_bytes 8 (sb_root_record_id x) @
     le_bytes 8 (sb_journal_start x) @
     le_bytes 8 (sb_journal_length x) @
     le_bytes 8 (sb_journal_head x) @
     le_bytes 8 (sb_journal_tail x) @
     le_bytes 8 (sb_journal_sequence x) @
     le_bytes 8 (sb_bitmap_start x) @
     le_bytes 8 (sb_bitmap_length x) @
     le_bytes 8 (sb_alloc_meta_start x) @
     le_bytes 8 (sb_alloc_meta_length x) @
     le_bytes 8 (sb_data_start x) @
     le_bytes 4 (sb_block_size x) @
     le_bytes 4 (sb_flags x) @
     sb_uuid x @
     sb_volume_name x @
     le_bytes 8 (sb_creation_time x) @
     le_bytes 8 (sb_last_mount_time x) @
     le_bytes 4 (sb_mount_count x) @
     le_bytes 4 (sb_max_mount_count x) @
     sb_reserved x"

definition dec_superblock :: "bytes \<Rightarrow> superblock" where
  "dec_superblock bs =
     \<lparr> sb_header = dec_header bs,
       sb_total_blocks = le_word (slice 32 8 bs),
       sb_free_blocks = le_word (slice 40 8 bs),
       sb_sector_size = le_word (slice 48 8 bs),
       sb_record_count = le_word (slice 56 8 bs),
       sb_next_record_id = le_word (slice 64 8 bs),
       sb_mrt_start = le_word (slice 72 8 bs),
       sb_mrt_length = le_word (slice 80 8 bs),
       sb_mrt_capacity = le_word (slice 88 8 bs),
       sb_mrt_free_count = le_word (slice 96 8 bs),
       sb_root_record_id = le_word (slice 104 8 bs),
       sb_journal_start = le_word (slice 112 8 bs),
       sb_journal_length = le_word (slice 120 8 bs),
       sb_journal_head = le_word (slice 128 8 bs),
       sb_journal_tail = le_word (slice 136 8 bs),
       sb_journal_sequence = le_word (slice 144 8 bs),
       sb_bitmap_start = le_word (slice 152 8 bs),
       sb_bitmap_length = le_word (slice 160 8 bs),
       sb_alloc_meta_start = le_word (slice 168 8 bs),
       sb_alloc_meta_length = le_word (slice 176 8 bs),
       sb_data_start = le_word (slice 184 8 bs),
       sb_block_size = le_word (slice 192 4 bs),
       sb_flags = le_word (slice 196 4 bs),
       sb_uuid = slice 200 16 bs,
       sb_volume_name = slice 216 64 bs,
       sb_creation_time = le_word (slice 280 8 bs),
       sb_last_mount_time = le_word (slice 288 8 bs),
       sb_mount_count = le_word (slice 296 4 bs),
       sb_max_mount_count = le_word (slice 300 4 bs),
       sb_reserved = slice 304 16 bs \<rparr>"

definition wf_superblock :: "superblock \<Rightarrow> bool" where
  "wf_superblock x \<longleftrightarrow> wf_header (sb_header x) \<and> length (sb_uuid x) = 16 \<and> length (sb_volume_name x) = 64 \<and> length (sb_reserved x) = 16"

lemma length_enc_superblock [simp]: "wf_superblock x \<Longrightarrow> length (enc_superblock x) = 320"
  by (simp add: enc_superblock_def wf_superblock_def)

lemma dec_enc_superblock [simp]: "wf_superblock x \<Longrightarrow> dec_superblock (enc_superblock x @ ys) = x"
  by (simp add: enc_superblock_def dec_superblock_def slice_append2 wf_superblock_def)

lemma dec_enc_superblock_Nil [simp]: "wf_superblock x \<Longrightarrow> dec_superblock (enc_superblock x) = x"
  using dec_enc_superblock [of x "[]"] by simp

lemma wf_dec_superblock [simp]: "320 \<le> length bs \<Longrightarrow> wf_superblock (dec_superblock bs)"
  by (simp add: wf_superblock_def dec_superblock_def)

lemma enc_dec_superblock: "320 \<le> length bs \<Longrightarrow> enc_superblock (dec_superblock bs) = slice 0 320 bs"
  by (simp add: enc_superblock_def dec_superblock_def slice_join slice_join_append enc_dec_header)

lemma dec_superblock_take [simp]: "320 \<le> n \<Longrightarrow> dec_superblock (take n bs) = dec_superblock bs"
  by (simp add: dec_superblock_def slice_take)

section \<open>The mount context\<close>

record fd =
  fd_used :: bool
  fd_record_id :: u64
  fd_offset :: u64
  fd_flags :: u32

record region =
  rg_free_count :: u32
  rg_alloc_hint :: u32

record block_buf =
  bb_block :: u64
  bb_data :: bytes
  bb_dirty :: bool
  bb_valid :: bool

text \<open>
  The drive behind \<open>drive_num\<close>: whether the controller sees it, the 512 bytes of every
  sector, and the sectors that fail to be read or written. It is the environment of the
  mount, as \<open>heap_ok\<close> is: whether the kernel heap can supply the buffers that an operation
  asks \<^verbatim>\<open>malloc\<close> for (every caller here frees its buffers before it returns).
\<close>

record drive =
  connected :: bool
  sector :: "u64 \<Rightarrow> bytes"
  rd_bad :: "u64 \<Rightarrow> bool"
  wr_bad :: "u64 \<Rightarrow> bool"

record mount =
  drive_num :: u8
  mounted :: bool
  sb :: superblock
  journal_next_sequence :: u64
  journal_in_transaction :: bool
  journal_write_pos :: u64
  fd_table :: "fd list"
  regions :: "region list option"
  region_count :: u32
  alloc_hint_region :: u32
  block_cache :: "block_buf list"
  drv :: drive
  heap_ok :: bool

end
