(* ===== verification/Checksum.thy ===== *)
theory Checksum
  imports Layout
begin

text \<open>
  CRC32C and the object-header helpers (\<^verbatim>\<open>fs/smkfs/checksum.c\<close>). The lookup-table
  loop is proved equal to the bit-serial division by the reflected Castagnoli polynomial, the
  checksum is shown to detect every error burst inside four consecutive bytes, and
  \<open>header_checksum_verify\<close> is shown to accept exactly what
  \<open>header_checksum_update\<close> wrote.
\<close>

section \<open>The table-driven checksum\<close>

definition crc32c_table :: "u32 list" where
  "crc32c_table = [
    0x00000000, 0xF26B8303, 0xE13B70F7, 0x1350F3F4, 0xC79A971F, 0x35F1141C, 0x26A1E7E8, 0xD4CA64EB,
    0x8AD958CF, 0x78B2DBCC, 0x6BE22838, 0x9989AB3B, 0x4D43CFD0, 0xBF284CD3, 0xAC78BF27, 0x5E133C24,
    0x105EC76F, 0xE235446C, 0xF165B798, 0x030E349B, 0xD7C45070, 0x25AFD373, 0x36FF2087, 0xC494A384,
    0x9A879FA0, 0x68EC1CA3, 0x7BBCEF57, 0x89D76C54, 0x5D1D08BF, 0xAF768BBC, 0xBC267848, 0x4E4DFB4B,
    0x20BD8EDE, 0xD2D60DDD, 0xC186FE29, 0x33ED7D2A, 0xE72719C1, 0x154C9AC2, 0x061C6936, 0xF477EA35,
    0xAA64D611, 0x580F5512, 0x4B5FA6E6, 0xB93425E5, 0x6DFE410E, 0x9F95C20D, 0x8CC531F9, 0x7EAEB2FA,
    0x30E349B1, 0xC288CAB2, 0xD1D83946, 0x23B3BA45, 0xF779DEAE, 0x05125DAD, 0x1642AE59, 0xE4292D5A,
    0xBA3A117E, 0x4851927D, 0x5B016189, 0xA96AE28A, 0x7DA08661, 0x8FCB0562, 0x9C9BF696, 0x6EF07595,
    0x417B1DBC, 0xB3109EBF, 0xA0406D4B, 0x522BEE48, 0x86E18AA3, 0x748A09A0, 0x67DAFA54, 0x95B17957,
    0xCBA24573, 0x39C9C670, 0x2A993584, 0xD8F2B687, 0x0C38D26C, 0xFE53516F, 0xED03A29B, 0x1F682198,
    0x5125DAD3, 0xA34E59D0, 0xB01EAA24, 0x42752927, 0x96BF4DCC, 0x64D4CECF, 0x77843D3B, 0x85EFBE38,
    0xDBFC821C, 0x2997011F, 0x3AC7F2EB, 0xC8AC71E8, 0x1C661503, 0xEE0D9600, 0xFD5D65F4, 0x0F36E6F7,
    0x61C69362, 0x93AD1061, 0x80FDE395, 0x72966096, 0xA65C047D, 0x5437877E, 0x4767748A, 0xB50CF789,
    0xEB1FCBAD, 0x197448AE, 0x0A24BB5A, 0xF84F3859, 0x2C855CB2, 0xDEEEDFB1, 0xCDBE2C45, 0x3FD5AF46,
    0x7198540D, 0x83F3D70E, 0x90A324FA, 0x62C8A7F9, 0xB602C312, 0x44694011, 0x5739B3E5, 0xA55230E6,
    0xFB410CC2, 0x092A8FC1, 0x1A7A7C35, 0xE811FF36, 0x3CDB9BDD, 0xCEB018DE, 0xDDE0EB2A, 0x2F8B6829,
    0x82F63B78, 0x709DB87B, 0x63CD4B8F, 0x91A6C88C, 0x456CAC67, 0xB7072F64, 0xA457DC90, 0x563C5F93,
    0x082F63B7, 0xFA44E0B4, 0xE9141340, 0x1B7F9043, 0xCFB5F4A8, 0x3DDE77AB, 0x2E8E845F, 0xDCE5075C,
    0x92A8FC17, 0x60C37F14, 0x73938CE0, 0x81F80FE3, 0x55326B08, 0xA759E80B, 0xB4091BFF, 0x466298FC,
    0x1871A4D8, 0xEA1A27DB, 0xF94AD42F, 0x0B21572C, 0xDFEB33C7, 0x2D80B0C4, 0x3ED04330, 0xCCBBC033,
    0xA24BB5A6, 0x502036A5, 0x4370C551, 0xB11B4652, 0x65D122B9, 0x97BAA1BA, 0x84EA524E, 0x7681D14D,
    0x2892ED69, 0xDAF96E6A, 0xC9A99D9E, 0x3BC21E9D, 0xEF087A76, 0x1D63F975, 0x0E330A81, 0xFC588982,
    0xB21572C9, 0x407EF1CA, 0x532E023E, 0xA145813D, 0x758FE5D6, 0x87E466D5, 0x94B49521, 0x66DF1622,
    0x38CC2A06, 0xCAA7A905, 0xD9F75AF1, 0x2B9CD9F2, 0xFF56BD19, 0x0D3D3E1A, 0x1E6DCDEE, 0xEC064EED,
    0xC38D26C4, 0x31E6A5C7, 0x22B65633, 0xD0DDD530, 0x0417B1DB, 0xF67C32D8, 0xE52CC12C, 0x1747422F,
    0x49547E0B, 0xBB3FFD08, 0xA86F0EFC, 0x5A048DFF, 0x8ECEE914, 0x7CA56A17, 0x6FF599E3, 0x9D9E1AE0,
    0xD3D3E1AB, 0x21B862A8, 0x32E8915C, 0xC083125F, 0x144976B4, 0xE622F5B7, 0xF5720643, 0x07198540,
    0x590AB964, 0xAB613A67, 0xB831C993, 0x4A5A4A90, 0x9E902E7B, 0x6CFBAD78, 0x7FAB5E8C, 0x8DC0DD8F,
    0xE330A81A, 0x115B2B19, 0x020BD8ED, 0xF0605BEE, 0x24AA3F05, 0xD6C1BC06, 0xC5914FF2, 0x37FACCF1,
    0x69E9F0D5, 0x9B8273D6, 0x88D28022, 0x7AB90321, 0xAE7367CA, 0x5C18E4C9, 0x4F48173D, 0xBD23943E,
    0xF36E6F75, 0x0105EC76, 0x12551F82, 0xE03E9C81, 0x34F4F86A, 0xC69F7B69, 0xD5CF889D, 0x27A40B9E,
    0x79B737BA, 0x8BDCB4B9, 0x988C474D, 0x6AE7C44E, 0xBE2DA0A5, 0x4C4623A6, 0x5F16D052, 0xAD7D5351
  ]"

definition crc_step :: "u32 \<Rightarrow> u8 \<Rightarrow> u32" where
  "crc_step crc b = drop_bit 8 crc XOR crc32c_table ! unat ((crc XOR ucast b) AND 0xFF)"

fun crc_loop :: "u32 \<Rightarrow> bytes \<Rightarrow> u32" where
  "crc_loop crc [] = crc"
| "crc_loop crc (b # bs) = crc_loop (crc_step crc b) bs"

definition checksum_compute :: "bytes \<Rightarrow> nat \<Rightarrow> u32" where
  "checksum_compute data len = NOT (crc_loop 0xFFFFFFFF (take len data))"

section \<open>Header utilities\<close>

definition header_init :: "header \<Rightarrow> u16 \<Rightarrow> u32 \<Rightarrow> u32 \<Rightarrow> header" where
  "header_init h ty len fl =
     h\<lparr> h_magic := SMKFS_MAGIC, h_version := SMKFS_VERSION, h_type := ty, h_length := len,
        h_flags := fl, h_checksum := 0 \<rparr>"

definition header_validate :: "header \<Rightarrow> u16 \<Rightarrow> status" where
  "header_validate h expected_type =
     (if h_magic h \<noteq> SMKFS_MAGIC then ERR_CORRUPT
      else if h_version h \<noteq> SMKFS_VERSION then ERR_CORRUPT
      else if h_type h \<noteq> expected_type then ERR_CORRUPT
      else OK)"

text \<open>
  In every call of \<open>header_checksum_update\<close> the header is the start of the buffer that is
  summed, so the two stores to \<^verbatim>\<open>h->checksum\<close> are stores at offset 16 of the buffer.
\<close>

definition header_checksum_update :: "bytes \<Rightarrow> nat \<Rightarrow> bytes" where
  "header_checksum_update data len =
     (let data0 = patch 16 (le_bytes 4 (0 :: u32)) data
      in patch 16 (le_bytes 4 (checksum_compute data0 len)) data0)"

text \<open>
  \<open>tmp_buf\<close> is a block-sized stack buffer: the bytes after \<open>len\<close> are never read, and
  they stand here as zeros.
\<close>

definition header_checksum_verify :: "header \<Rightarrow> bytes \<Rightarrow> nat \<Rightarrow> status" where
  "header_checksum_verify h data len =
     (if len > SMKFS_BLOCK_SIZE then ERR_CORRUPT
      else
        let tmp = take len data @ replicate (SMKFS_BLOCK_SIZE - len) 0;
            tmp0 = patch 16 (le_bytes 4 (0 :: u32)) tmp;
            computed = checksum_compute tmp0 len
        in if computed \<noteq> h_checksum h then ERR_CORRUPT else OK)"

section \<open>The built-in test vectors\<close>

definition crc32c_vectors :: "(string \<times> nat \<times> u32) list" where
  "crc32c_vectors =
    [('''', 0, 0x00000000),
     (''a'', 1, 0xC1D04330),
     (''abc'', 3, 0x364B3FB7),
     (''123456789'', 9, 0xE3069283),
     (''Phonon/Shadow'', 13, 0x34861134),
     (''Zhazha'', 6, 0xC568066F),
     (''Amity'', 5, 0x255A2D1A),
     (''ALRW'', 4, 0x3D161DCD),
     (''abcdbcdecdefdefgefghfghighijhijkijkljklmklmnlmnomnopnopq'', 56, 0x071325F5)]"

fun crc32c_check :: "bool \<Rightarrow> (string \<times> nat \<times> u32) list \<Rightarrow> bool" where
  "crc32c_check pass [] = pass"
| "crc32c_check pass ((data, len, expected) # vs) =
     crc32c_check
       (if checksum_compute (map of_char data) len \<noteq> expected then False else pass) vs"

definition crc32c_test_vectors :: bool where
  "crc32c_test_vectors = crc32c_check True crc32c_vectors"

section \<open>The bit-serial reference\<close>

text \<open>
  One bit of the division by the reflected Castagnoli polynomial, and the checksum as the
  textbook computes it.
\<close>

definition crc_bit :: "u32 \<Rightarrow> u32" where
  "crc_bit c = (if bit c 0 then drop_bit 1 c XOR 0x82F63B78 else drop_bit 1 c)"

definition crc_byte :: "u32 \<Rightarrow> u8 \<Rightarrow> u32" where
  "crc_byte c b = (crc_bit ^^ 8) (c XOR ucast b)"

definition crc32c_reference :: "bytes \<Rightarrow> u32" where
  "crc32c_reference bs = NOT (foldl crc_byte 0xFFFFFFFF bs)"

lemma crc_bit_even: "\<not> bit c 0 \<Longrightarrow> crc_bit c = drop_bit 1 c"
  by (simp add: crc_bit_def)

lemma xor_cancel_left: "a XOR b = a XOR c \<longleftrightarrow> b = (c :: 'a::len word)"
  by (metis xor.assoc xor.left_neutral xor_self_eq)

lemma xor_cancel_right: "b XOR a = c XOR a \<longleftrightarrow> b = (c :: 'a::len word)"
  by (metis xor.commute xor_cancel_left)

lemma crc_bit_xor: "crc_bit (a XOR b) = crc_bit a XOR crc_bit b"
  by (rule bit_word_eqI) (auto simp: crc_bit_def bit_xor_iff bit_drop_bit_eq)

lemma crc_bits_xor: "(crc_bit ^^ n) (a XOR b) = (crc_bit ^^ n) a XOR (crc_bit ^^ n) b"
  by (induction n) (simp_all add: crc_bit_xor)

lemma crc_bits_low_zero:
  "(\<And>k. k < n \<Longrightarrow> \<not> bit a k) \<Longrightarrow> (crc_bit ^^ n) a = drop_bit n a"
proof (induction n)
  case 0
  then show ?case by simp
next
  case (Suc n)
  then have "(crc_bit ^^ n) a = drop_bit n a" by simp
  moreover have "\<not> bit (drop_bit n a) 0"
    using Suc.prems [of n] by (simp add: bit_drop_bit_eq)
  ultimately show ?case by (simp add: crc_bit_even)
qed

lemma crc_bit_eq_0: "crc_bit a = 0 \<Longrightarrow> a = 0"
proof (rule bit_word_eqI)
  fix k assume z: "crc_bit a = 0" and "k < LENGTH(32)"
  have "\<not> bit a 0"
  proof
    assume b: "bit a 0"
    have "\<not> bit a 32" by (rule impossible_bit) simp
    then have "bit (crc_bit a) 31"
      using b by (simp add: crc_bit_def bit_xor_iff bit_drop_bit_eq)
    with z show False by simp
  qed
  moreover from this z have "drop_bit 1 a = 0" by (simp add: crc_bit_def)
  then have "\<not> bit (drop_bit 1 a) j" for j by simp
  then have "\<not> bit a (Suc j)" for j by (simp add: bit_drop_bit_eq)
  ultimately show "bit a k = bit 0 k" by (cases k) auto
qed

lemma crc_bits_inj: "(crc_bit ^^ n) a = (crc_bit ^^ n) b \<Longrightarrow> a = b"
proof (induction n)
  case 0
  then show ?case by simp
next
  case (Suc n)
  then have "crc_bit ((crc_bit ^^ n) a XOR (crc_bit ^^ n) b) = 0"
    by (simp add: crc_bit_xor)
  then have "(crc_bit ^^ n) a XOR (crc_bit ^^ n) b = 0" by (rule crc_bit_eq_0)
  then have "(crc_bit ^^ n) a = (crc_bit ^^ n) b"
    by (metis xor_cancel_left xor_self_eq)
  then show ?case by (rule Suc.IH)
qed

section \<open>The table is the bit-serial division\<close>

lemma crc_bits_8:
  "(crc_bit ^^ 8) c =
     crc_bit (crc_bit (crc_bit (crc_bit (crc_bit (crc_bit (crc_bit (crc_bit c)))))))"
  by (simp add: eval_nat_numeral)

lemma upt_256:
  "[0..<256] =
    [0, 1, 2, 3, 4, 5, 6, 7, 8, 9, 10, 11, 12, 13, 14, 15, 16, 17, 18, 19, 20, 21, 22, 23,
     24, 25, 26, 27, 28, 29, 30, 31, 32, 33, 34, 35, 36, 37, 38, 39, 40, 41, 42, 43, 44, 45,
     46, 47, 48, 49, 50, 51, 52, 53, 54, 55, 56, 57, 58, 59, 60, 61, 62, 63, 64, 65, 66, 67,
     68, 69, 70, 71, 72, 73, 74, 75, 76, 77, 78, 79, 80, 81, 82, 83, 84, 85, 86, 87, 88, 89,
     90, 91, 92, 93, 94, 95, 96, 97, 98, 99, 100, 101, 102, 103, 104, 105, 106, 107, 108,
     109, 110, 111, 112, 113, 114, 115, 116, 117, 118, 119, 120, 121, 122, 123, 124, 125,
     126, 127, 128, 129, 130, 131, 132, 133, 134, 135, 136, 137, 138, 139, 140, 141, 142,
     143, 144, 145, 146, 147, 148, 149, 150, 151, 152, 153, 154, 155, 156, 157, 158, 159,
     160, 161, 162, 163, 164, 165, 166, 167, 168, 169, 170, 171, 172, 173, 174, 175, 176,
     177, 178, 179, 180, 181, 182, 183, 184, 185, 186, 187, 188, 189, 190, 191, 192, 193,
     194, 195, 196, 197, 198, 199, 200, 201, 202, 203, 204, 205, 206, 207, 208, 209, 210,
     211, 212, 213, 214, 215, 216, 217, 218, 219, 220, 221, 222, 223, 224, 225, 226, 227,
     228, 229, 230, 231, 232, 233, 234, 235, 236, 237, 238, 239, 240, 241, 242, 243, 244,
     245, 246, 247, 248, 249, 250, 251, 252, 253, 254, 255]"
  by code_simp

lemma crc32c_table_bits:
  "crc32c_table = map (\<lambda>i. (crc_bit ^^ 8) (of_nat i)) [0..<256]"
  unfolding upt_256 list.map crc_bits_8 crc32c_table_def by (simp add: crc_bit_def)

lemma crc32c_table_nth: "i < 256 \<Longrightarrow> crc32c_table ! i = (crc_bit ^^ 8) (of_nat i)"
  unfolding crc32c_table_bits by (subst nth_map) (simp_all del: upt_rec_numeral)

lemma crc_step_byte: "crc_step c b = crc_byte c b"
proof -
  define d where "d = c XOR ucast b"
  have mask: "(0xFF :: u32) = mask 8" by (simp add: mask_eq_decr_exp)
  have split: "d = (d AND 0xFF) XOR push_bit 8 (drop_bit 8 d)"
    by (rule bit_word_eqI)
      (auto simp: mask bit_xor_iff bit_and_iff bit_mask_iff bit_push_bit_iff bit_drop_bit_eq)
  have "unat (d AND 0xFF) < 256"
    using word_and_le1 [of d "0xFF"] by (simp add: word_le_nat_alt)
  then have low: "(crc_bit ^^ 8) (d AND 0xFF) = crc32c_table ! unat (d AND 0xFF)"
    by (simp add: crc32c_table_nth)
  have "(crc_bit ^^ 8) (push_bit 8 (drop_bit 8 d)) = drop_bit 8 (push_bit 8 (drop_bit 8 d))"
    by (rule crc_bits_low_zero) (simp add: bit_push_bit_iff)
  also have "\<dots> = drop_bit 8 c"
    by (rule bit_word_eqI)
      (auto simp: d_def bit_drop_bit_eq bit_push_bit_iff bit_xor_iff bit_unsigned_iff
        impossible_bit dest: bit_imp_le_length)
  finally have high: "(crc_bit ^^ 8) (push_bit 8 (drop_bit 8 d)) = drop_bit 8 c" .
  have "crc_byte c b = (crc_bit ^^ 8) ((d AND 0xFF) XOR push_bit 8 (drop_bit 8 d))"
    using split by (simp add: crc_byte_def d_def)
  also have "\<dots> = crc32c_table ! unat (d AND 0xFF) XOR drop_bit 8 c"
    by (simp only: crc_bits_xor low high)
  finally show ?thesis by (simp add: crc_step_def d_def xor.commute)
qed

lemma crc_loop_foldl: "crc_loop c bs = foldl crc_byte c bs"
  by (induction bs arbitrary: c) (simp_all add: crc_step_byte)

lemma crc_loop_append: "crc_loop c (xs @ ys) = crc_loop (crc_loop c xs) ys"
  by (simp add: crc_loop_foldl)

lemma crc_loop_inj: "crc_loop c bs = crc_loop d bs \<Longrightarrow> c = d"
proof (induction bs arbitrary: c d)
  case Nil
  then show ?case by simp
next
  case (Cons b bs)
  then have "crc_byte c b = crc_byte d b" by (simp add: crc_step_byte)
  then have "c XOR ucast b = d XOR ucast b"
    unfolding crc_byte_def by (rule crc_bits_inj)
  then show ?case by (simp only: xor_cancel_right)
qed

text \<open>Up to four bytes enter the division as one little-endian word.\<close>

lemma crc_loop_le_word:
  "length bs \<le> 4 \<Longrightarrow> crc_loop c bs = (crc_bit ^^ (8 * length bs)) (c XOR le_word bs)"
proof (induction bs arbitrary: c)
  case Nil
  then show ?case by simp
next
  case (Cons b bs)
  define w :: u32 where "w = le_word bs"
  have shifted: "drop_bit 8 (push_bit 8 w) = w"
    using Cons.prems
    by (intro bit_word_eqI) (auto simp: w_def bit_drop_bit_eq bit_push_bit_iff bit_le_word)
  have "(crc_bit ^^ 8) (push_bit 8 w) = w"
    by (subst crc_bits_low_zero) (simp_all add: bit_push_bit_iff shifted)
  then have step: "crc_byte c b XOR w = (crc_bit ^^ 8) (c XOR (ucast b XOR push_bit 8 w))"
    by (simp add: crc_byte_def crc_bits_xor xor.assoc)
  have "ucast b XOR push_bit 8 w = (ucast b OR push_bit 8 w :: u32)"
    by (rule bit_word_eqI)
      (auto simp: bit_xor_iff bit_or_iff bit_push_bit_iff bit_unsigned_iff impossible_bit
        dest: bit_imp_le_length)
  then have "crc_byte c b XOR w = (crc_bit ^^ 8) (c XOR le_word (b # bs))"
    using step by (simp add: w_def)
  moreover have "crc_loop c (b # bs) = (crc_bit ^^ (8 * length bs)) (crc_byte c b XOR w)"
    using Cons by (simp add: crc_step_byte w_def)
  ultimately have "crc_loop c (b # bs) =
      (crc_bit ^^ (8 * length bs + 8)) (c XOR le_word (b # bs))"
    by (simp only: funpow_add comp_apply)
  then show ?case by (simp add: add.commute)
qed

lemma le_word_inj32:
  assumes "length xs = length ys" and "length xs \<le> 4" and "le_word xs = (le_word ys :: u32)"
  shows "xs = ys"
proof (rule nth_equalityI)
  fix i assume i: "i < length xs"
  show "xs ! i = ys ! i"
  proof (rule bit_word_eqI)
    fix k assume k: "k < LENGTH(8)"
    have "bit (le_word xs :: u32) (8 * i + k) = bit (le_word ys :: u32) (8 * i + k)"
      by (simp add: assms(3))
    then show "bit (xs ! i) k = bit (ys ! i) k"
      using i k assms(1,2) by (auto simp: bit_le_word)
  qed
qed (rule assms(1))

lemma crc_loop_burst:
  assumes "length xs = length ys" and "length xs \<le> 4" and "xs \<noteq> ys"
  shows "crc_loop c (pre @ xs @ post) \<noteq> crc_loop c (pre @ ys @ post)"
proof
  assume "crc_loop c (pre @ xs @ post) = crc_loop c (pre @ ys @ post)"
  then have "crc_loop (crc_loop c pre) xs = crc_loop (crc_loop c pre) ys"
    by (auto simp: crc_loop_append dest: crc_loop_inj)
  then have "crc_loop c pre XOR le_word xs = crc_loop c pre XOR le_word ys"
    using assms(1,2) by (simp add: crc_loop_le_word crc_bits_inj)
  then have "le_word xs = (le_word ys :: u32)"
    by (simp only: xor_cancel_left)
  with assms show False using le_word_inj32 by blast
qed

section \<open>Properties\<close>

lemma checksum_is_crc32c_table:
  "checksum_compute data len = crc32c_reference (take len data)"
  by (simp add: checksum_compute_def crc32c_reference_def crc_loop_foldl)

text \<open>
  C1: \<open>checksum_compute\<close> is CRC-32C. The table-driven loop returns, for every buffer and
  length, the checksum that the bit-serial division by the reflected Castagnoli polynomial
  computes.
\<close>

theorem checksum_is_crc32c: "checksum_compute data len = crc32c_reference (take len data)"
  by (rule checksum_is_crc32c_table)

lemma crc32c_vector_0: "checksum_compute (map of_char '''') 0 = 0"
  unfolding checksum_is_crc32c_table crc32c_reference_def
  by (simp add: crc_byte_def crc_bits_8 crc_bit_def)

lemma crc32c_vector_1: "checksum_compute (map of_char ''a'') 1 = 0xC1D04330"
  unfolding checksum_is_crc32c_table crc32c_reference_def
  by (simp add: crc_byte_def crc_bits_8 crc_bit_def)

lemma crc32c_vector_2: "checksum_compute (map of_char ''abc'') 3 = 0x364B3FB7"
  unfolding checksum_is_crc32c_table crc32c_reference_def
  by (simp add: crc_byte_def crc_bits_8 crc_bit_def)

lemma crc32c_vector_3: "checksum_compute (map of_char ''123456789'') 9 = 0xE3069283"
  unfolding checksum_is_crc32c_table crc32c_reference_def
  by (simp add: crc_byte_def crc_bits_8 crc_bit_def)

lemma crc32c_vector_4: "checksum_compute (map of_char ''Phonon/Shadow'') 13 = 0x34861134"
  unfolding checksum_is_crc32c_table crc32c_reference_def
  by (simp add: crc_byte_def crc_bits_8 crc_bit_def)

lemma crc32c_vector_5: "checksum_compute (map of_char ''Zhazha'') 6 = 0xC568066F"
  unfolding checksum_is_crc32c_table crc32c_reference_def
  by (simp add: crc_byte_def crc_bits_8 crc_bit_def)

lemma crc32c_vector_6: "checksum_compute (map of_char ''Amity'') 5 = 0x255A2D1A"
  unfolding checksum_is_crc32c_table crc32c_reference_def
  by (simp add: crc_byte_def crc_bits_8 crc_bit_def)

lemma crc32c_vector_7: "checksum_compute (map of_char ''ALRW'') 4 = 0x3D161DCD"
  unfolding checksum_is_crc32c_table crc32c_reference_def
  by (simp add: crc_byte_def crc_bits_8 crc_bit_def)

lemma crc32c_vector_8: "checksum_compute (map of_char ''abcdbcdecdefdefgefghfghighijhijkijkljklmklmnlmnomnopnopq'') 56 = 0x071325f5"
  unfolding checksum_is_crc32c_table crc32c_reference_def
  by (simp add: crc_byte_def crc_bits_8 crc_bit_def)

lemmas crc32c_vector_sums =
  crc32c_vector_0 crc32c_vector_1 crc32c_vector_2 crc32c_vector_3 crc32c_vector_4
  crc32c_vector_5 crc32c_vector_6 crc32c_vector_7 crc32c_vector_8

lemma crc32c_vectors_pass: "crc32c_test_vectors"
  unfolding crc32c_test_vectors_def crc32c_vectors_def crc32c_check.simps crc32c_vector_sums
    not_True_eq_False simp_thms(6) if_False
  by (rule TrueI)

lemma take_patch_before:
  "off + length ys \<le> n \<Longrightarrow> n \<le> length xs \<Longrightarrow> take n (patch off ys xs) = patch off ys (take n xs)"
  by (rule nth_equalityI) (simp_all add: patch_nth)

lemma patch_append1:
  "off + length ys \<le> length xs \<Longrightarrow> patch off ys (xs @ zs) = patch off ys xs @ zs"
  by (simp add: patch_def)

lemma patch_patch_same:
  "off + length ys \<le> length xs \<Longrightarrow> length zs = length ys \<Longrightarrow>
   patch off zs (patch off ys xs) = patch off zs xs"
  by (simp add: patch_def)

text \<open>What the verifier sums: the buffer with its checksum field zeroed.\<close>

lemma verify_sum:
  assumes "20 \<le> len" and "len \<le> SMKFS_BLOCK_SIZE" and "len \<le> length buf"
  shows "header_checksum_verify h buf len =
     (if checksum_compute (patch 16 (le_bytes 4 (0 :: u32)) (take len buf)) len \<noteq> h_checksum h
      then ERR_CORRUPT else OK)"
  using assms
  by (simp add: header_checksum_verify_def Let_def patch_append1 checksum_compute_def)

lemma h_checksum_update:
  "20 \<le> length buf \<Longrightarrow>
   h_checksum (dec_header (header_checksum_update buf len)) =
     checksum_compute (patch 16 (le_bytes 4 (0 :: u32)) buf) len"
  by (simp add: header_checksum_update_def dec_header_def Let_def)

lemma length_header_checksum_update [simp]:
  "20 \<le> length buf \<Longrightarrow> length (header_checksum_update buf len) = length buf"
  by (simp add: header_checksum_update_def Let_def)

lemma header_update_verify:
  assumes "20 \<le> len" and "len \<le> SMKFS_BLOCK_SIZE" and "len \<le> length buf"
  shows "header_checksum_verify (dec_header (header_checksum_update buf len))
           (header_checksum_update buf len) len = OK"
proof -
  have "patch 16 (le_bytes 4 (0 :: u32)) (take len (header_checksum_update buf len)) =
      take len (patch 16 (le_bytes 4 (0 :: u32)) buf)"
    using assms
    by (simp add: header_checksum_update_def Let_def patch_patch_same flip: take_patch_before)
  then show ?thesis
    using assms by (simp add: verify_sum h_checksum_update checksum_compute_def)
qed

text \<open>
  What \<open>header_checksum_update\<close> writes, \<open>header_checksum_verify\<close> accepts: for every
  object of at least the 20 bytes up to its checksum field and of at most a block, verification
  right after an update succeeds.
\<close>

theorem header_checksum_roundtrip:
  assumes "20 \<le> len" and "len \<le> SMKFS_BLOCK_SIZE" and "len \<le> length buf"
  shows "header_checksum_verify (dec_header (header_checksum_update buf len))
           (header_checksum_update buf len) len = OK"
  using assms by (rule header_update_verify)

theorem header_checksum_roundtrip_witness:
  "header_checksum_verify (dec_header (header_checksum_update (replicate 4096 7) 56))
     (header_checksum_update (replicate 4096 7) 56) 56 = OK"
  by (rule header_checksum_roundtrip) simp_all

lemma checksum_burst:
  assumes "length new = k" and "k \<le> 4" and "off + k \<le> len" and "len \<le> length buf"
    and "new \<noteq> slice off k buf"
  shows "checksum_compute (patch off new buf) len \<noteq> checksum_compute buf len"
proof -
  have buf: "take len buf = take off buf @ slice off k buf @ slice (off + k) (len - off - k) buf"
    using assms(3) by (simp add: slice_join flip: slice_0)
  have patched: "take len (patch off new buf) =
      take off buf @ new @ slice (off + k) (len - off - k) buf"
    using assms by (simp add: patch_def slice_def min_absorb2)
  have "crc_loop 0xFFFFFFFF (take len (patch off new buf)) \<noteq> crc_loop 0xFFFFFFFF (take len buf)"
    unfolding buf patched using assms by (intro crc_loop_burst) simp_all
  then show ?thesis by (simp add: checksum_compute_def)
qed

lemma patch_commute:
  assumes "a + length xs \<le> b \<or> b + length ys \<le> a"
    and "a + length xs \<le> length zs" and "b + length ys \<le> length zs"
  shows "patch a xs (patch b ys zs) = patch b ys (patch a xs zs)"
  using assms by (intro nth_equalityI) (auto simp: patch_nth)

text \<open>
  C2: Corruption is detected. If an object verifies, and a window of at most four consecutive
  bytes inside its summed length that does not touch the checksum field (bytes 16 to 19) is
  overwritten with different bytes, then verification of the damaged object fails. Of a window
  that changes bytes of the field and beside it nothing is said.
\<close>

theorem header_checksum_detects_burst:
  assumes "20 \<le> len" and "len \<le> SMKFS_BLOCK_SIZE" and "len \<le> length buf"
    and "header_checksum_verify (dec_header buf) buf len = OK"
    and "k \<le> 4" and "length new = k" and "off + k \<le> len"
    and "off + k \<le> 16 \<or> 20 \<le> off" and "new \<noteq> slice off k buf"
  shows "header_checksum_verify (dec_header (patch off new buf)) (patch off new buf) len =
    ERR_CORRUPT"
proof -
  let ?z = "patch 16 (le_bytes 4 (0 :: u32))"
  have ck: "h_checksum (dec_header (patch off new buf)) = h_checksum (dec_header buf)"
    using assms slice_patch_other [of off new buf 16 4] by (auto simp: dec_header_def)
  have "?z (take len (patch off new buf)) = patch off new (?z (take len buf))"
    using assms by (subst take_patch_before) (auto intro: patch_commute)
  moreover have "checksum_compute (patch off new (?z (take len buf))) len \<noteq>
      checksum_compute (?z (take len buf)) len"
    using assms by (intro checksum_burst) (auto simp: slice_patch_other slice_take)
  ultimately show ?thesis
    using assms ck by (simp add: verify_sum split: if_splits)
qed

theorem header_checksum_detects_burst_witness:
  "let buf = header_checksum_update (replicate 4096 7) 56
   in header_checksum_verify (dec_header (patch 40 [1, 2, 3] buf)) (patch 40 [1, 2, 3] buf) 56 =
      ERR_CORRUPT"
proof -
  let ?buf = "header_checksum_update (replicate 4096 7) 56"
  have "slice 40 3 ?buf = slice 40 3 (replicate 4096 7)"
    by (simp add: header_checksum_update_def Let_def slice_patch_other)
  then have w: "slice 40 3 ?buf = [7, 7, 7]"
    by (simp add: slice_def eval_nat_numeral)
  have "header_checksum_verify (dec_header (patch 40 [1, 2, 3] ?buf)) (patch 40 [1, 2, 3] ?buf) 56
      = ERR_CORRUPT"
    by (rule header_checksum_detects_burst [where k = 3])
      (simp_all add: header_checksum_roundtrip_witness w)
  then show ?thesis by (simp add: Let_def)
qed

end
