(* ===== verification/Device.thy ===== *)
theory Device
  imports Checksum
begin

text \<open>
  The block layer: the sector transfers of \<^verbatim>\<open>hw/ide.c\<close> as \<^verbatim>\<open>fs/smkfs\<close> uses
  them, the block I/O of \<^verbatim>\<open>fs/smkfs/block.c\<close> and the write-back block cache of
  \<^verbatim>\<open>fs/smkfs/bcache.c\<close>. Above it, every component sees a store of blocks: the locale
  \<open>block_store\<close> states that interface (an abstraction \<open>view\<close> from a state to the content
  of each block, an invariant, and the laws of \<open>read_block\<close> and \<open>write_block\<close>), and the
  cache is shown to implement it, failing sectors included.
\<close>

section \<open>Sector transfers\<close>

text \<open>
  \<^verbatim>\<open>ide_select_drive\<close> refuses drive numbers above 1 and drives that do not answer. Both
  block primitives ask for one sector at a time, so this is the instance \<^verbatim>\<open>count = 1\<close>,
  where the 28-bit and the 48-bit command transfer the same sector. The data of a sector is 256
  16-bit words whatever the sector size that the superblock names. A write whose address does
  not fit 28 bits is carried out by the 48-bit command and then reported as a failure: the
  result of \<^verbatim>\<open>ide_write_sectors_ext\<close> is dropped.
\<close>

definition ide_select_drive :: "u8 \<Rightarrow> drive \<Rightarrow> bool" where
  "ide_select_drive dn d = (if dn > 1 then False else connected d)"

definition ide_read_sectors :: "u8 \<Rightarrow> drive \<Rightarrow> u32 \<Rightarrow> bytes option" where
  "ide_read_sectors dn d lba =
     (if \<not> ide_select_drive dn d then None
      else if rd_bad d (ucast lba) then None
      else Some (sector d (ucast lba)))"

definition ide_write_sectors_ext :: "u8 \<Rightarrow> drive \<Rightarrow> u64 \<Rightarrow> bytes \<Rightarrow> bool \<times> drive" where
  "ide_write_sectors_ext dn d lba buf =
     (if lba > 0x0000FFFFFFFFFFFF then (False, d)
      else if \<not> ide_select_drive dn d then (False, d)
      else if wr_bad d lba then (False, d)
      else (True, d\<lparr> sector := (sector d)(lba := take 512 buf) \<rparr>))"

definition ide_write_sectors :: "u8 \<Rightarrow> drive \<Rightarrow> u32 \<Rightarrow> bytes \<Rightarrow> bool \<times> drive" where
  "ide_write_sectors dn d lba buf =
     (if lba > 0x0FFFFFFF then (False, snd (ide_write_sectors_ext dn d (ucast lba) buf))
      else if \<not> ide_select_drive dn d then (False, d)
      else if wr_bad d (ucast lba) then (False, d)
      else (True, d\<lparr> sector := (sector d)(ucast lba := take 512 buf) \<rparr>))"

section \<open>Block I/O\<close>

text \<open>
  A sector size of 0 makes the C code trap on the division; the model returns
  \<open>ERR_IO\<close> there, because HOL reads \<open>x mod 0\<close> as \<open>x\<close>. The number of sectors is an
  8-bit variable and the address a 32-bit one.
\<close>

definition block_sectors :: "mount \<Rightarrow> u8" where
  "block_sectors m = ucast (of_nat SMKFS_BLOCK_SIZE div sb_sector_size (sb m))"

definition block_lba :: "mount \<Rightarrow> u64 \<Rightarrow> u32" where
  "block_lba m block = ucast (block * ucast (block_sectors m))"

fun disk_read_loop :: "u8 \<Rightarrow> drive \<Rightarrow> u32 \<Rightarrow> nat \<Rightarrow> nat \<Rightarrow> nat \<Rightarrow> bytes \<Rightarrow> status \<times> bytes" where
  "disk_read_loop dn d lba ss i 0 buf = (OK, buf)"
| "disk_read_loop dn d lba ss i (Suc n) buf =
     (case ide_read_sectors dn d (lba + of_nat i) of
        None \<Rightarrow> (ERR_IO, buf)
      | Some s \<Rightarrow> disk_read_loop dn d lba ss (Suc i) n (patch (i * ss) s buf))"

definition disk_read_block :: "mount \<Rightarrow> u64 \<Rightarrow> bytes \<Rightarrow> status \<times> bytes" where
  "disk_read_block m block buf =
     (if of_nat SMKFS_BLOCK_SIZE mod sb_sector_size (sb m) \<noteq> 0 then (ERR_IO, buf)
      else disk_read_loop (drive_num m) (drv m) (block_lba m block)
             (unat (sb_sector_size (sb m))) 0 (unat (block_sectors m)) buf)"

fun disk_write_loop :: "u8 \<Rightarrow> drive \<Rightarrow> u32 \<Rightarrow> nat \<Rightarrow> nat \<Rightarrow> nat \<Rightarrow> bytes \<Rightarrow> status \<times> drive" where
  "disk_write_loop dn d lba ss i 0 buf = (OK, d)"
| "disk_write_loop dn d lba ss i (Suc n) buf =
     (case ide_write_sectors dn d (lba + of_nat i) (drop (i * ss) buf) of
        (False, d1) \<Rightarrow> (ERR_IO, d1)
      | (True, d1) \<Rightarrow> disk_write_loop dn d1 lba ss (Suc i) n buf)"

definition disk_write_block :: "mount \<Rightarrow> u64 \<Rightarrow> bytes \<Rightarrow> status \<times> mount" where
  "disk_write_block m block buf =
     (if of_nat SMKFS_BLOCK_SIZE mod sb_sector_size (sb m) \<noteq> 0 then (ERR_IO, m)
      else case disk_write_loop (drive_num m) (drv m) (block_lba m block)
                  (unat (sb_sector_size (sb m))) 0 (unat (block_sectors m)) buf of
        (st, d1) \<Rightarrow> (st, m\<lparr> drv := d1 \<rparr>))"

section \<open>The block cache\<close>

text \<open>
  \<open>block_cache m\<close> is the array behind \<^verbatim>\<open>mnt->block_cache\<close>, and the empty list stands for
  the null pointer, which the C code follows without a check. A slot is named by its index.
\<close>

fun find_idx :: "('a \<Rightarrow> bool) \<Rightarrow> 'a list \<Rightarrow> nat option" where
  "find_idx P [] = None"
| "find_idx P (x # xs) = (if P x then Some 0 else map_option Suc (find_idx P xs))"

definition block_cache_init :: "mount \<Rightarrow> mount" where
  "block_cache_init m =
     (if block_cache m = [] \<and> \<not> heap_ok m then m
      else
        let slots =
          (if block_cache m = []
           then replicate SMKFS_CACHE_SLOTS
             \<lparr> bb_block = 0, bb_data = replicate SMKFS_BLOCK_SIZE 0, bb_dirty = False,
               bb_valid = False \<rparr>
           else block_cache m)
        in m\<lparr> block_cache :=
             map (\<lambda>s. s\<lparr> bb_valid := False, bb_dirty := False, bb_block := 0 \<rparr>) slots \<rparr>)"

definition block_cache_fill :: "mount \<Rightarrow> nat \<Rightarrow> u64 \<Rightarrow> (status + nat) \<times> mount" where
  "block_cache_fill m i block =
     (case disk_read_block m block (bb_data (block_cache m ! i)) of
        (st, buf) \<Rightarrow>
          if st \<noteq> OK
          then (Inl ERR_IO,
                m\<lparr> block_cache := (block_cache m)
                     [i := (block_cache m ! i)\<lparr> bb_data := buf, bb_valid := False \<rparr>] \<rparr>)
          else (Inr i,
                m\<lparr> block_cache := (block_cache m)
                     [i := (block_cache m ! i)
                        \<lparr> bb_data := buf, bb_block := block, bb_valid := True,
                          bb_dirty := False \<rparr>] \<rparr>))"

definition block_cache_victim :: "mount \<Rightarrow> nat option" where
  "block_cache_victim m =
     (case find_idx (\<lambda>s. \<not> bb_valid s) (block_cache m) of
        Some i \<Rightarrow> Some i
      | None \<Rightarrow> find_idx (\<lambda>s. \<not> bb_dirty s) (block_cache m))"

definition block_cache_hit :: "mount \<Rightarrow> u64 \<Rightarrow> nat option" where
  "block_cache_hit m block = find_idx (\<lambda>s. bb_valid s \<and> bb_block s = block) (block_cache m)"

definition block_cache_read :: "mount \<Rightarrow> u64 \<Rightarrow> (status + nat) \<times> mount" where
  "block_cache_read m block =
     (case block_cache_hit m block of
        Some i \<Rightarrow> (Inr i, m)
      | None \<Rightarrow>
          (case block_cache_victim m of
             Some i \<Rightarrow> block_cache_fill m i block
           | None \<Rightarrow>
               let s = block_cache m ! 0 in
               if bb_valid s \<and> bb_dirty s
               then (case disk_write_block m (bb_block s) (bb_data s) of
                       (st, m1) \<Rightarrow>
                         if st \<noteq> OK then (Inl ERR_IO, m1)
                         else block_cache_fill
                                (m1\<lparr> block_cache :=
                                     (block_cache m1)[0 := s\<lparr> bb_dirty := False \<rparr>] \<rparr>) 0 block)
               else block_cache_fill m 0 block))"

definition block_cache_write :: "mount \<Rightarrow> nat \<Rightarrow> status \<times> mount" where
  "block_cache_write m i =
     (if \<not> bb_valid (block_cache m ! i) then (ERR_INVAL, m)
      else (OK, m\<lparr> block_cache := (block_cache m)
                     [i := (block_cache m ! i)\<lparr> bb_dirty := True \<rparr>] \<rparr>))"

definition flush_slot :: "nat \<Rightarrow> status \<times> mount \<Rightarrow> status \<times> mount" where
  "flush_slot i sm =
     (case sm of (status, m) \<Rightarrow>
        let s = block_cache m ! i in
        if bb_valid s \<and> bb_dirty s
        then (case disk_write_block m (bb_block s) (bb_data s) of
                (st, m1) \<Rightarrow>
                  if st \<noteq> OK then (ERR_IO, m1)
                  else (status, m1\<lparr> block_cache := (block_cache m1)
                                     [i := s\<lparr> bb_dirty := False \<rparr>] \<rparr>))
        else (status, m))"

fun flush_loop :: "nat list \<Rightarrow> status \<times> mount \<Rightarrow> status \<times> mount" where
  "flush_loop [] sm = sm"
| "flush_loop (i # is) sm = flush_loop is (flush_slot i sm)"

definition block_cache_flush :: "mount \<Rightarrow> status \<times> mount" where
  "block_cache_flush m = flush_loop [0..<SMKFS_CACHE_SLOTS] (OK, m)"

definition block_cache_shutdown :: "mount \<Rightarrow> mount" where
  "block_cache_shutdown m = (snd (block_cache_flush m))\<lparr> block_cache := [] \<rparr>"

section \<open>Reading and writing a block\<close>

definition read_block :: "mount \<Rightarrow> u64 \<Rightarrow> (status + bytes) \<times> mount" where
  "read_block m block =
     (case block_cache_read m block of
        (Inl e, m1) \<Rightarrow> (Inl e, m1)
      | (Inr i, m1) \<Rightarrow> (Inr (bb_data (block_cache m1 ! i)), m1))"

definition write_block :: "mount \<Rightarrow> u64 \<Rightarrow> bytes \<Rightarrow> status \<times> mount" where
  "write_block m block buf =
     (case block_cache_read m block of
        (Inl e, m1) \<Rightarrow> (e, m1)
      | (Inr i, m1) \<Rightarrow>
          block_cache_write
            (m1\<lparr> block_cache := (block_cache m1)
                  [i := (block_cache m1 ! i)\<lparr> bb_data := take SMKFS_BLOCK_SIZE buf \<rparr>] \<rparr>) i)"

section \<open>Sector addresses\<close>

text \<open>
  Blocks whose eight 512-byte sectors have 28-bit addresses (the first 128 GiB of the drive).
  Beyond them \<open>ide_write_sectors\<close> reports every write as failed, and from block \<open>2 ^ 29\<close> on
  the 32-bit sector address wraps around.
\<close>

definition blk_ok :: "u64 \<Rightarrow> bool" where
  "blk_ok b \<longleftrightarrow> b < 0x2000000"

definition sector_addr :: "u64 \<Rightarrow> nat \<Rightarrow> u64" where
  "sector_addr b i = ucast (ucast (b * 8) + of_nat i :: u32)"

definition disk_block :: "mount \<Rightarrow> u64 \<Rightarrow> bytes" where
  "disk_block m b = concat (map (\<lambda>i. sector (drv m) (sector_addr b i)) [0..<8])"

lemma blk_ok_unat: "blk_ok b \<longleftrightarrow> unat b < 0x2000000"
  by (simp add: blk_ok_def word_less_nat_alt)

lemma unat_block_times_8: "blk_ok b \<Longrightarrow> unat (b * 8) = unat b * 8"
  by (simp add: blk_ok_unat unat_word_ariths)

lemma unat_lba:
  "blk_ok b \<Longrightarrow> i < 8 \<Longrightarrow> unat (ucast (b * 8) + of_nat i :: u32) = unat b * 8 + i"
  by (simp add: unat_word_ariths unat_ucast unat_block_times_8 unat_of_nat blk_ok_unat)

lemma unat_sector_addr: "blk_ok b \<Longrightarrow> i < 8 \<Longrightarrow> unat (sector_addr b i) = unat b * 8 + i"
  by (simp add: sector_addr_def unat_ucast_up unat_lba)

lemma sector_addr_eq:
  assumes "blk_ok a" "blk_ok b" "i < 8" "j < 8"
  shows "sector_addr a i = sector_addr b j \<longleftrightarrow> a = b \<and> i = j"
proof
  assume "sector_addr a i = sector_addr b j"
  then have "unat a * 8 + i = unat b * 8 + j"
    using assms by (metis unat_sector_addr)
  moreover from this have "unat a = unat b" using assms(3,4) by linarith
  ultimately have "unat a = unat b" and "i = j" by simp_all
  then show "a = b \<and> i = j" by (simp add: unsigned_word_eqI)
qed simp

lemma lba_28: "blk_ok b \<Longrightarrow> i < 8 \<Longrightarrow> \<not> (ucast (b * 8) + of_nat i :: u32) > 0x0FFFFFFF"
  by (auto simp: word_less_nat_alt unat_lba blk_ok_unat)

lemma find_idx_Some: "find_idx P xs = Some i \<Longrightarrow> i < length xs \<and> P (xs ! i)"
  by (induction xs arbitrary: i) (auto split: if_splits)

lemma find_idx_None: "find_idx P xs = None \<longleftrightarrow> (\<forall>x \<in> set xs. \<not> P x)"
  by (induction xs) auto

lemma find_idx_Some_least: "find_idx P xs = Some i \<Longrightarrow> j < i \<Longrightarrow> \<not> P (xs ! j)"
  by (induction xs arbitrary: i j) (auto split: if_splits simp: nth_Cons')

section \<open>Transfers of one block\<close>

lemma block_sectors_512: "sb_sector_size (sb m) = 512 \<Longrightarrow> block_sectors m = 8"
  by (simp add: block_sectors_def)

lemma block_lba_512: "sb_sector_size (sb m) = 512 \<Longrightarrow> block_lba m b = ucast (b * 8)"
  by (simp add: block_lba_def block_sectors_512)

lemma take_patch_after:
  "off \<le> length xs \<Longrightarrow> off + length ys \<le> length xs \<Longrightarrow>
   take (off + length ys) (patch off ys xs) = take off xs @ ys"
  by (simp add: patch_def)

lemma disk_read_loop_spec:
  assumes "disk_read_loop dn d lba 512 i n buf = (st, buf')"
    and "\<And>a. length (sector d a) = 512" and "i + n = 8" and "length buf = 4096"
    and "take (i * 512) buf = concat (map (\<lambda>k. sector d (ucast (lba + of_nat k))) [0..<i])"
  shows "length buf' = 4096 \<and>
    (st = OK \<longrightarrow> buf' = concat (map (\<lambda>k. sector d (ucast (lba + of_nat k))) [0..<8]))"
  using assms
proof (induction n arbitrary: i buf)
  case 0
  then show ?case by simp
next
  case (Suc n)
  show ?case
  proof (cases "ide_read_sectors dn d (lba + of_nat i)")
    case None
    with Suc.prems show ?thesis by auto
  next
    case (Some s)
    then have s: "s = sector d (ucast (lba + of_nat i))"
      by (simp add: ide_read_sectors_def split: if_splits)
    have ls: "length s = 512" using Suc.prems(2) s by simp
    have room: "i * 512 + length s \<le> length buf"
      using Suc.prems(3,4) ls by simp
    have "take (Suc i * 512) (patch (i * 512) s buf) = take (i * 512) buf @ s"
      using take_patch_after [of "i * 512" buf s] room ls by (simp add: add.commute)
    then have "take (Suc i * 512) (patch (i * 512) s buf) =
        concat (map (\<lambda>k. sector d (ucast (lba + of_nat k))) [0..<Suc i])"
      using Suc.prems(5) s by simp
    then show ?thesis
      using Suc.prems Some room by (intro Suc.IH [of "Suc i" "patch (i * 512) s buf"]) simp_all
  qed
qed

lemma disk_read_loop_status:
  "fst (disk_read_loop dn d lba ss i n buf) \<noteq> OK \<Longrightarrow>
   fst (disk_read_loop dn d lba ss i n buf) = ERR_IO"
  by (induction n arbitrary: i buf) (auto split: option.splits)

lemma disk_read_block_spec:
  assumes "sb_sector_size (sb m) = 512" and "\<And>a. length (sector (drv m) a) = 512"
    and "length buf = 4096" and "disk_read_block m b buf = (st, buf')"
  shows "length buf' = 4096" and "st = OK \<Longrightarrow> buf' = disk_block m b"
  using assms disk_read_loop_spec [of "drive_num m" "drv m" "block_lba m b" 0 8 buf st buf']
  by (simp_all add: disk_read_block_def block_sectors_512 block_lba_512 disk_block_def
      sector_addr_def)

lemma disk_write_loop_spec:
  assumes "disk_write_loop dn d (ucast (b * 8)) 512 i n buf = (st, d')"
    and "\<And>a. length (sector d a) = 512" and "i + n = 8" and "length buf = 4096" and "blk_ok b"
  shows "(\<forall>a. length (sector d' a) = 512) \<and> connected d' = connected d \<and>
    rd_bad d' = rd_bad d \<and> wr_bad d' = wr_bad d \<and>
    (\<forall>a. a \<notin> sector_addr b ` {i..<8} \<longrightarrow> sector d' a = sector d a) \<and>
    (st \<noteq> OK \<longrightarrow> st = ERR_IO) \<and>
    (st = OK \<longrightarrow> (\<forall>k. i \<le> k \<and> k < 8 \<longrightarrow> sector d' (sector_addr b k) = slice (k * 512) 512 buf))"
  using assms
proof (induction n arbitrary: i d)
  case 0
  then show ?case by auto
next
  case (Suc n)
  then have i: "i < 8" by simp
  let ?lba = "ucast (b * 8) + of_nat i :: u32"
  have addr: "ucast ?lba = sector_addr b i" by (simp add: sector_addr_def)
  obtain r d1 where w: "ide_write_sectors dn d ?lba (drop (i * 512) buf) = (r, d1)"
    by (cases "ide_write_sectors dn d ?lba (drop (i * 512) buf)")
  have w': "(\<not> r \<and> d1 = d) \<or>
      (r \<and> d1 = d\<lparr> sector := (sector d)(sector_addr b i := slice (i * 512) 512 buf) \<rparr>)"
    using w lba_28 [OF Suc.prems(5) i]
    by (auto simp: ide_write_sectors_def addr slice_def split: if_splits)
  show ?case
  proof (cases r)
    case False
    with Suc.prems w w' show ?thesis by auto
  next
    case True
    with w' have d1: "d1 = d\<lparr> sector := (sector d)(sector_addr b i := slice (i * 512) 512 buf) \<rparr>"
      by simp
    have "length (slice (i * 512) 512 buf) = 512" using Suc.prems(4) i by simp
    then have len1: "length (sector d1 a) = 512" for a using Suc.prems(2) d1 by simp
    have rest: "disk_write_loop dn d1 (ucast (b * 8)) 512 (Suc i) n buf = (st, d')"
      using Suc.prems(1) w True by simp
    have IH: "(\<forall>a. length (sector d' a) = 512) \<and> connected d' = connected d1 \<and>
      rd_bad d' = rd_bad d1 \<and> wr_bad d' = wr_bad d1 \<and>
      (\<forall>a. a \<notin> sector_addr b ` {Suc i..<8} \<longrightarrow> sector d' a = sector d1 a) \<and>
      (st \<noteq> OK \<longrightarrow> st = ERR_IO) \<and>
      (st = OK \<longrightarrow> (\<forall>k. Suc i \<le> k \<and> k < 8 \<longrightarrow> sector d' (sector_addr b k) = slice (k * 512) 512 buf))"
      using Suc.prems len1 by (intro Suc.IH [OF rest]) simp_all
    have "sector_addr b i \<notin> sector_addr b ` {Suc i..<8}"
      using Suc.prems(5) i by (auto simp: sector_addr_eq)
    then have "sector d' (sector_addr b i) = slice (i * 512) 512 buf"
      using IH d1 by simp
    moreover have "sector d' a = sector d a" if "a \<notin> sector_addr b ` {i..<8}" for a
    proof -
      have "a \<notin> sector_addr b ` {Suc i..<8}" and "a \<noteq> sector_addr b i"
        using that i by auto
      then show ?thesis using IH d1 by simp
    qed
    moreover have "sector d' (sector_addr b k) = slice (k * 512) 512 buf"
      if "st = OK" "i \<le> k" "k < 8" for k
      using that IH \<open>sector d' (sector_addr b i) = slice (i * 512) 512 buf\<close>
      by (cases "k = i") simp_all
    ultimately show ?thesis
      using IH d1 by simp
  qed
qed


lemma concat_slices:
  "length buf = n * k \<Longrightarrow> concat (map (\<lambda>i. slice (i * k) k buf) [0..<n]) = buf"
proof -
  assume len: "length buf = n * k"
  have "m \<le> n \<Longrightarrow> concat (map (\<lambda>i. slice (i * k) k buf) [0..<m]) = take (m * k) buf" for m
  proof (induction m)
    case 0
    then show ?case by simp
  next
    case (Suc m)
    have "take (m * k) buf @ slice (m * k) k buf = take (m * k + k) buf"
      by (simp add: slice_def take_add)
    with Suc show ?case by (simp add: add.commute)
  qed
  from this [of n] len show ?thesis by simp
qed

lemma disk_write_block_spec:
  assumes "sb_sector_size (sb m) = 512" and "\<And>a. length (sector (drv m) a) = 512"
    and "length buf = 4096" and "blk_ok b" and "disk_write_block m b buf = (st, m1)"
  obtains d1 where "m1 = m\<lparr> drv := d1 \<rparr>" and "\<And>a. length (sector d1 a) = 512"
    and "connected d1 = connected (drv m)" and "rd_bad d1 = rd_bad (drv m)"
    and "wr_bad d1 = wr_bad (drv m)"
    and "st = OK \<or> st = ERR_IO"
    and "\<And>c. blk_ok c \<Longrightarrow> c \<noteq> b \<Longrightarrow> disk_block m1 c = disk_block m c"
    and "st = OK \<Longrightarrow> disk_block m1 b = buf"
proof -
  obtain st' d1 where w: "disk_write_loop (drive_num m) (drv m) (ucast (b * 8)) 512 0 8 buf = (st', d1)"
    by (cases "disk_write_loop (drive_num m) (drv m) (ucast (b * 8)) 512 0 8 buf")
  then have m1: "st = st'" "m1 = m\<lparr> drv := d1 \<rparr>"
    using assms(1,5) by (simp_all add: disk_write_block_def block_sectors_512 block_lba_512)
  note spec = disk_write_loop_spec [OF w assms(2) _ assms(3,4), simplified]
  have "disk_block m1 c = disk_block m c" if c: "blk_ok c" "c \<noteq> b" for c
  proof -
    have "sector d1 (sector_addr c i) = sector (drv m) (sector_addr c i)" if "i < 8" for i
    proof -
      have "sector_addr c i \<notin> sector_addr b ` {0..<8}"
        using c that assms(4) by (auto simp: sector_addr_eq)
      then show ?thesis using spec by simp
    qed
    then show ?thesis
      unfolding disk_block_def m1 by (intro arg_cong [of _ _ concat] map_cong) simp_all
  qed
  moreover have "disk_block m1 b = buf" if "st = OK"
  proof -
    have "disk_block m1 b = concat (map (\<lambda>i. slice (i * 512) 512 buf) [0..<8])"
      unfolding disk_block_def m1 using spec that m1(1)
      by (intro arg_cong [of _ _ concat] map_cong) simp_all
    then show ?thesis using assms(3) by (simp only: concat_slices)
  qed
  ultimately show thesis
    using that [OF m1(2)] spec m1 by blast
qed

section \<open>The store that the cache implements\<close>

text \<open>
  \<open>block_view\<close> is what the file system sees as the content of a block: the cached copy if there
  is one, the sectors of the drive otherwise. \<open>cache_inv\<close> is the invariant of the cache.
\<close>

definition block_view :: "mount \<Rightarrow> u64 \<Rightarrow> bytes" where
  "block_view m b =
     (case block_cache_hit m b of
        Some i \<Rightarrow> bb_data (block_cache m ! i)
      | None \<Rightarrow> disk_block m b)"

definition slot_valid :: "mount \<Rightarrow> nat \<Rightarrow> bool" where
  "slot_valid m i \<longleftrightarrow> i < SMKFS_CACHE_SLOTS \<and> bb_valid (block_cache m ! i)"

definition cache_inv :: "mount \<Rightarrow> bool" where
  "cache_inv m \<longleftrightarrow>
     sb_sector_size (sb m) = 512 \<and>
     (\<forall>a. length (sector (drv m) a) = 512) \<and>
     length (block_cache m) = SMKFS_CACHE_SLOTS \<and>
     (\<forall>i < SMKFS_CACHE_SLOTS. length (bb_data (block_cache m ! i)) = SMKFS_BLOCK_SIZE) \<and>
     (\<forall>i. slot_valid m i \<longrightarrow> blk_ok (bb_block (block_cache m ! i))) \<and>
     (\<forall>i j. slot_valid m i \<longrightarrow> slot_valid m j \<longrightarrow>
        bb_block (block_cache m ! i) = bb_block (block_cache m ! j) \<longrightarrow> i = j) \<and>
     (\<forall>i. slot_valid m i \<longrightarrow> \<not> bb_dirty (block_cache m ! i) \<longrightarrow>
        bb_data (block_cache m ! i) = disk_block m (bb_block (block_cache m ! i)))"

lemma cache_invD:
  assumes "cache_inv m"
  shows "sb_sector_size (sb m) = 512" and "length (sector (drv m) a) = 512"
    and "length (block_cache m) = 16"
    and "i < 16 \<Longrightarrow> length (bb_data (block_cache m ! i)) = 4096"
    and "slot_valid m i \<Longrightarrow> blk_ok (bb_block (block_cache m ! i))"
    and "slot_valid m i \<Longrightarrow> slot_valid m j \<Longrightarrow>
         bb_block (block_cache m ! i) = bb_block (block_cache m ! j) \<Longrightarrow> i = j"
    and "slot_valid m i \<Longrightarrow> \<not> bb_dirty (block_cache m ! i) \<Longrightarrow>
         bb_data (block_cache m ! i) = disk_block m (bb_block (block_cache m ! i))"
  using assms by (simp_all add: cache_inv_def)

lemma hit_Some:
  assumes "cache_inv m" and "slot_valid m i" and "bb_block (block_cache m ! i) = b"
  shows "block_cache_hit m b = Some i"
proof (cases "block_cache_hit m b")
  case None
  then have "\<not> (bb_valid (block_cache m ! i) \<and> bb_block (block_cache m ! i) = b)"
    using assms cache_invD(3) [OF assms(1)]
    by (auto simp: block_cache_hit_def find_idx_None slot_valid_def)
  with assms show ?thesis by (simp add: slot_valid_def)
next
  case (Some j)
  then have j: "slot_valid m j" "bb_block (block_cache m ! j) = b"
    using assms(1) cache_invD(3) [OF assms(1)]
    by (auto simp: block_cache_hit_def slot_valid_def dest!: find_idx_Some)
  then have "i = j" using assms by (metis cache_invD(6))
  with Some show ?thesis by simp
qed

lemma hit_SomeD:
  assumes "cache_inv m" and "block_cache_hit m b = Some i"
  shows "slot_valid m i" and "bb_block (block_cache m ! i) = b"
  using assms cache_invD(3) [OF assms(1)]
  by (auto simp: block_cache_hit_def slot_valid_def dest!: find_idx_Some)

lemma hit_NoneD:
  assumes "cache_inv m" and "block_cache_hit m b = None" and "slot_valid m i"
  shows "bb_block (block_cache m ! i) \<noteq> b"
  using assms hit_Some by fastforce

lemma view_slot:
  "cache_inv m \<Longrightarrow> slot_valid m i \<Longrightarrow> bb_block (block_cache m ! i) = b \<Longrightarrow>
   block_view m b = bb_data (block_cache m ! i)"
  by (simp add: block_view_def hit_Some)

lemma view_disk:
  "cache_inv m \<Longrightarrow> (\<And>i. slot_valid m i \<Longrightarrow> bb_block (block_cache m ! i) \<noteq> b) \<Longrightarrow>
   block_view m b = disk_block m b"
  by (auto simp: block_view_def split: option.splits dest: hit_SomeD)

lemma length_disk_block: "(\<And>a. length (sector (drv m) a) = 512) \<Longrightarrow> length (disk_block m b) = 4096"
  by (simp add: disk_block_def length_concat o_def sum_list_triv)

lemma length_block_view: "cache_inv m \<Longrightarrow> length (block_view m b) = 4096"
  unfolding block_view_def
  by (auto simp: length_disk_block cache_invD(2) split: option.splits
      intro!: cache_invD(4) dest: hit_SomeD(1) simp: slot_valid_def)

lemma block_cache_upd_fields [simp]:
  "disk_block (m\<lparr> block_cache := c \<rparr>) b = disk_block m b"
  by (simp add: disk_block_def)

text \<open>Replacing one slot of the cache.\<close>

lemma slot_replace:
  assumes inv: "cache_inv m" and i: "i < 16" and len: "length (bb_data s) = 4096"
    and ok: "bb_valid s \<Longrightarrow> blk_ok (bb_block s)"
    and fresh: "\<And>j. bb_valid s \<Longrightarrow> slot_valid m j \<Longrightarrow> j \<noteq> i \<Longrightarrow>
      bb_block (block_cache m ! j) \<noteq> bb_block s"
    and clean: "bb_valid s \<Longrightarrow> \<not> bb_dirty s \<Longrightarrow> bb_data s = disk_block m (bb_block s)"
  shows "cache_inv (m\<lparr> block_cache := (block_cache m)[i := s] \<rparr>)"
proof -
  let ?m = "m\<lparr> block_cache := (block_cache m)[i := s] \<rparr>"
  have nth: "block_cache ?m ! j = (if j = i then s else block_cache m ! j)" for j
    using i cache_invD(3) [OF inv] by (simp add: nth_list_update)
  have valid: "slot_valid ?m j \<longleftrightarrow> (if j = i then bb_valid s else slot_valid m j)" for j
    using i cache_invD(3) [OF inv] by (auto simp: slot_valid_def nth_list_update)
  show ?thesis
    unfolding cache_inv_def valid nth
    using cache_invD [OF inv] len ok fresh clean
    by (simp add: nth) (metis (no_types, opaque_lifting))
qed

lemma slot_replace_view:
  assumes inv: "cache_inv m" and i: "i < 16"
    and inv': "cache_inv (m\<lparr> block_cache := (block_cache m)[i := s] \<rparr>)"
  shows "block_view (m\<lparr> block_cache := (block_cache m)[i := s] \<rparr>) c =
    (if bb_valid s \<and> bb_block s = c then bb_data s
     else if slot_valid m i \<and> bb_block (block_cache m ! i) = c then disk_block m c
     else block_view m c)"
proof -
  let ?m = "m\<lparr> block_cache := (block_cache m)[i := s] \<rparr>"
  have nth: "block_cache ?m ! j = (if j = i then s else block_cache m ! j)" for j
    using i cache_invD(3) [OF inv] by (simp add: nth_list_update)
  have valid: "slot_valid ?m j \<longleftrightarrow> (if j = i then bb_valid s else slot_valid m j)" for j
    using i cache_invD(3) [OF inv] by (auto simp: slot_valid_def nth_list_update)
  consider (new) "bb_valid s" "bb_block s = c"
    | (gone) "\<not> (bb_valid s \<and> bb_block s = c)" "slot_valid m i" "bb_block (block_cache m ! i) = c"
    | (kept) j where "\<not> (bb_valid s \<and> bb_block s = c)"
        "\<not> (slot_valid m i \<and> bb_block (block_cache m ! i) = c)"
        "j \<noteq> i" "slot_valid m j" "bb_block (block_cache m ! j) = c"
    | (none) "\<not> (bb_valid s \<and> bb_block s = c)"
        "\<And>j. slot_valid m j \<Longrightarrow> bb_block (block_cache m ! j) \<noteq> c"
    by metis
  then show ?thesis
  proof cases
    case new
    then show ?thesis
      using view_slot [OF inv', of i c] i cache_invD(3) [OF inv] by (simp add: valid)
  next
    case gone
    have "bb_block (block_cache ?m ! j) \<noteq> c" if "slot_valid ?m j" for j
      using gone that cache_invD(6) [OF inv, of i j] i cache_invD(3) [OF inv]
      by (auto simp: valid nth_list_update split: if_splits)
    then have "block_view ?m c = disk_block ?m c" by (rule view_disk [OF inv'])
    with gone show ?thesis by auto
  next
    case kept
    then have "block_view ?m c = bb_data (block_cache m ! j)"
      using view_slot [OF inv', of j c] by (simp add: valid nth)
    with kept show ?thesis using view_slot [OF inv kept(4,5)] by auto
  next
    case none
    have "bb_block (block_cache ?m ! j) \<noteq> c" if "slot_valid ?m j" for j
      using none that i cache_invD(3) [OF inv]
      by (auto simp: valid nth_list_update split: if_splits)
    then have "block_view ?m c = disk_block ?m c" by (rule view_disk [OF inv'])
    moreover have "block_view m c = disk_block m c" by (rule view_disk [OF inv none(2)])
    ultimately show ?thesis using none by auto
  qed
qed

text \<open>The cache operations change nothing of the mount but the cache and the sectors.\<close>

definition cache_only :: "mount \<Rightarrow> mount \<Rightarrow> bool" where
  "cache_only m m' \<longleftrightarrow>
     drive_num m' = drive_num m \<and> mounted m' = mounted m \<and> sb m' = sb m \<and>
     journal_next_sequence m' = journal_next_sequence m \<and>
     journal_in_transaction m' = journal_in_transaction m \<and>
     journal_write_pos m' = journal_write_pos m \<and> fd_table m' = fd_table m \<and>
     regions m' = regions m \<and> region_count m' = region_count m \<and>
     alloc_hint_region m' = alloc_hint_region m \<and> heap_ok m' = heap_ok m \<and>
     connected (drv m') = connected (drv m) \<and> rd_bad (drv m') = rd_bad (drv m) \<and>
     wr_bad (drv m') = wr_bad (drv m)"

lemma cache_only_refl [simp]: "cache_only m m"
  by (simp add: cache_only_def)

lemma cache_only_trans: "cache_only m m1 \<Longrightarrow> cache_only m1 m2 \<Longrightarrow> cache_only m m2"
  by (simp add: cache_only_def)

lemma cache_only_cache [simp]: "cache_only m (m\<lparr> block_cache := c \<rparr>)"
  by (simp add: cache_only_def)

section \<open>Preservation\<close>

lemma disk_read_cache_frame:
  "disk_read_block m b buf = (st, buf') \<Longrightarrow> st = OK \<or> st = ERR_IO"
  using disk_read_loop_status by (auto simp: disk_read_block_def split: if_splits) (metis fst_conv)

lemma fill_spec:
  assumes inv: "cache_inv m" and i: "i < 16" and ok: "blk_ok b"
    and miss: "block_cache_hit m b = None"
    and victim: "slot_valid m i \<Longrightarrow> \<not> bb_dirty (block_cache m ! i)"
    and fill: "block_cache_fill m i b = (r, m')"
  shows "cache_inv m'" and "block_view m' c = block_view m c" and "cache_only m m'"
    and "r = Inl ERR_IO \<or> (r = Inr i \<and> slot_valid m' i \<and> bb_block (block_cache m' ! i) = b)"
proof -
  let ?s = "block_cache m ! i"
  obtain st buf where rd: "disk_read_block m b (bb_data ?s) = (st, buf)"
    by (cases "disk_read_block m b (bb_data ?s)")
  have len: "length buf = 4096" and data: "st = OK \<Longrightarrow> buf = disk_block m b"
    using disk_read_block_spec [OF cache_invD(1,2) [OF inv] cache_invD(4) [OF inv i] rd] by auto
  define s where "s = (if st \<noteq> OK then ?s\<lparr> bb_data := buf, bb_valid := False \<rparr>
    else ?s\<lparr> bb_data := buf, bb_block := b, bb_valid := True, bb_dirty := False \<rparr>)"
  have m': "m' = m\<lparr> block_cache := (block_cache m)[i := s] \<rparr>"
    and r: "r = (if st \<noteq> OK then Inl ERR_IO else Inr i)"
    using fill rd by (auto simp: block_cache_fill_def s_def split: if_splits)
  have inv': "cache_inv m'"
    unfolding m' using len ok data miss inv i
    by (intro slot_replace) (auto simp: s_def dest: hit_NoneD split: if_splits)
  then show "cache_inv m'" .
  have "block_view m b = disk_block m b"
    using hit_NoneD [OF inv miss] by (intro view_disk [OF inv]) auto
  moreover have "block_view m (bb_block ?s) = disk_block m (bb_block ?s)" if "slot_valid m i"
    using that victim by (simp add: view_slot [OF inv that] cache_invD(7) [OF inv that])
  ultimately show "block_view m' c = block_view m c"
    using slot_replace_view [OF inv i inv' [unfolded m'], of c] data
    unfolding m' by (auto simp: s_def split: if_splits)
  show "cache_only m m'" by (simp add: m')
  show "r = Inl ERR_IO \<or> (r = Inr i \<and> slot_valid m' i \<and> bb_block (block_cache m' ! i) = b)"
    using i cache_invD(3) [OF inv] by (auto simp: r m' s_def slot_valid_def)
qed

lemma disk_write_slot:
  assumes inv: "cache_inv m" and v: "slot_valid m i" and d: "bb_dirty (block_cache m ! i)"
    and w: "disk_write_block m (bb_block (block_cache m ! i)) (bb_data (block_cache m ! i)) = (st, m1)"
  shows "cache_inv m1" and "blk_ok c \<Longrightarrow> block_view m1 c = block_view m c"
    and "cache_only m m1" and "block_cache m1 = block_cache m"
    and "st = OK \<or> st = ERR_IO"
    and "st = OK \<Longrightarrow> disk_block m1 (bb_block (block_cache m ! i)) = bb_data (block_cache m ! i)"
    and "blk_ok c \<Longrightarrow> c \<noteq> bb_block (block_cache m ! i) \<Longrightarrow> disk_block m1 c = disk_block m c"
proof -
  let ?b = "bb_block (block_cache m ! i)"
  have i: "i < 16" using v by (simp add: slot_valid_def)
  obtain d1 where m1: "m1 = m\<lparr> drv := d1 \<rparr>"
    and dev: "\<And>a. length (sector d1 a) = 512" "connected d1 = connected (drv m)"
      "rd_bad d1 = rd_bad (drv m)" "wr_bad d1 = wr_bad (drv m)"
    and st: "st = OK \<or> st = ERR_IO"
    and other: "\<And>c. blk_ok c \<Longrightarrow> c \<noteq> ?b \<Longrightarrow> disk_block m1 c = disk_block m c"
    and stored: "st = OK \<Longrightarrow> disk_block m1 ?b = bb_data (block_cache m ! i)"
    by (rule disk_write_block_spec [OF cache_invD(1,2) [OF inv] cache_invD(4) [OF inv i]
          cache_invD(5) [OF inv v] w]) blast
  have valid: "slot_valid m1 j = slot_valid m j" for j by (simp add: slot_valid_def m1)
  show cache: "block_cache m1 = block_cache m" by (simp add: m1)
  have "bb_data (block_cache m ! j) = disk_block m1 (bb_block (block_cache m ! j))"
    if "slot_valid m j" "\<not> bb_dirty (block_cache m ! j)" for j
  proof -
    have "bb_block (block_cache m ! j) \<noteq> ?b"
      using that d cache_invD(6) [OF inv v, of j] by auto
    then show ?thesis
      using that other cache_invD(5,7) [OF inv] by simp
  qed
  then show "cache_inv m1"
    using inv dev unfolding cache_inv_def valid by (simp add: m1)
  have hit: "block_cache_hit m1 c = block_cache_hit m c"
    by (simp add: block_cache_hit_def cache)
  have "c \<noteq> ?b" if "block_cache_hit m c = None"
    using that hit_NoneD [OF inv _ v] by blast
  then show "blk_ok c \<Longrightarrow> block_view m1 c = block_view m c"
    using other by (simp add: block_view_def hit cache split: option.splits)
  show "cache_only m m1" using dev by (simp add: cache_only_def m1)
  show "st = OK \<or> st = ERR_IO" by (rule st)
  show "st = OK \<Longrightarrow> disk_block m1 ?b = bb_data (block_cache m ! i)" by (rule stored)
  show "blk_ok c \<Longrightarrow> c \<noteq> ?b \<Longrightarrow> disk_block m1 c = disk_block m c" by (rule other)
qed

text \<open>Marking a slot clean once its data is on the drive.\<close>

lemma slot_clean:
  assumes inv: "cache_inv m" and v: "slot_valid m i"
    and data: "disk_block m (bb_block (block_cache m ! i)) = bb_data (block_cache m ! i)"
  defines "m' \<equiv> m\<lparr> block_cache := (block_cache m)[i := (block_cache m ! i)\<lparr> bb_dirty := False \<rparr>] \<rparr>"
  shows "cache_inv m'" and "block_view m' c = block_view m c"
proof -
  have i: "i < 16" using v by (simp add: slot_valid_def)
  show inv': "cache_inv m'"
    unfolding m'_def using i v data cache_invD(5,6) [OF inv]
    by (intro slot_replace [OF inv]) (auto simp: cache_invD(4) [OF inv])
  then show "block_view m' c = block_view m c"
    using slot_replace_view [OF inv i inv' [unfolded m'_def], of c] v view_slot [OF inv v]
    unfolding m'_def by (auto simp: slot_valid_def)
qed

lemma block_cache_read_spec:
  assumes inv: "cache_inv m" and ok: "blk_ok b" and rd: "block_cache_read m b = (r, m')"
  shows "cache_inv m'" and "blk_ok c \<Longrightarrow> block_view m' c = block_view m c" and "cache_only m m'"
    and "r = Inl ERR_IO \<or> (\<exists>i. r = Inr i \<and> slot_valid m' i \<and> bb_block (block_cache m' ! i) = b)"
proof -
  have "cache_inv m' \<and> (\<forall>c. blk_ok c \<longrightarrow> block_view m' c = block_view m c) \<and> cache_only m m' \<and>
    (r = Inl ERR_IO \<or> (\<exists>i. r = Inr i \<and> slot_valid m' i \<and> bb_block (block_cache m' ! i) = b))"
  proof (cases "block_cache_hit m b")
    case (Some i)
    with rd inv show ?thesis
      using hit_SomeD [OF inv Some] by (auto simp: block_cache_read_def)
  next
    case miss: None
    show ?thesis
    proof (cases "block_cache_victim m")
      case (Some i)
      then have "i < 16 \<and> (slot_valid m i \<longrightarrow> \<not> bb_dirty (block_cache m ! i))"
        using cache_invD(3) [OF inv]
        by (auto simp: block_cache_victim_def slot_valid_def split: option.splits
            dest!: find_idx_Some)
      moreover from rd miss Some have "block_cache_fill m i b = (r, m')"
        by (simp add: block_cache_read_def)
      ultimately show ?thesis
        using fill_spec [OF inv _ ok miss, of i r m'] by blast
    next
      case None
      have len0: "0 < length (block_cache m)" using cache_invD(3) [OF inv] by simp
      have v: "slot_valid m 0" and d: "bb_dirty (block_cache m ! 0)"
        using None len0 by (auto simp: block_cache_victim_def slot_valid_def find_idx_None
            split: option.splits)
      let ?s = "block_cache m ! 0"
      obtain st m1 where w: "disk_write_block m (bb_block ?s) (bb_data ?s) = (st, m1)"
        by (cases "disk_write_block m (bb_block ?s) (bb_data ?s)")
      note W = disk_write_slot [OF inv v d w]
      show ?thesis
      proof (cases "st = OK")
        case False
        with rd miss None w v d W show ?thesis
          by (auto simp: block_cache_read_def Let_def slot_valid_def)
      next
        case True
        let ?m2 = "m1\<lparr> block_cache := (block_cache m1)[0 := (block_cache m1 ! 0)\<lparr> bb_dirty := False \<rparr>] \<rparr>"
        have v1: "slot_valid m1 0" using v by (simp add: slot_valid_def W(4))
        have C: "cache_inv ?m2" "\<And>c. block_view ?m2 c = block_view m1 c"
          using slot_clean [OF W(1) v1] W(4,6) True by auto
        have fill: "block_cache_fill ?m2 0 b = (r, m')"
          using rd miss None w v d True by (simp add: block_cache_read_def slot_valid_def W(4))
        have miss2: "block_cache_hit ?m2 b = None"
        proof (rule ccontr)
          assume "block_cache_hit ?m2 b \<noteq> None"
          then obtain j where j: "slot_valid ?m2 j" "bb_block (block_cache ?m2 ! j) = b"
            using hit_SomeD [OF C(1)] by blast
          then have "slot_valid m j" "bb_block (block_cache m ! j) = b"
            using len0 by (auto simp: slot_valid_def W(4) nth_list_update split: if_splits)
          then show False using hit_Some [OF inv] miss by force
        qed
        have dirty2: "\<not> bb_dirty (block_cache ?m2 ! 0)" using len0 by (simp add: W(4))
        note F = fill_spec [OF C(1) _ ok miss2 _ fill]
        have "cache_only m m'"
          using W(3) F(3) dirty2 by (metis cache_only_cache cache_only_trans zero_less_numeral)
        then show ?thesis
          using F(1,2,4) dirty2 C W(2) by auto
      qed
    qed
  qed
  then show "cache_inv m'" and "blk_ok c \<Longrightarrow> block_view m' c = block_view m c" and "cache_only m m'"
    and "r = Inl ERR_IO \<or> (\<exists>i. r = Inr i \<and> slot_valid m' i \<and> bb_block (block_cache m' ! i) = b)"
    by blast+
qed


lemma read_block_spec:
  assumes inv: "cache_inv m" and ok: "blk_ok b" and rd: "read_block m b = (r, m')"
  shows "cache_inv m'" and "blk_ok c \<Longrightarrow> block_view m' c = block_view m c" and "cache_only m m'"
    and "r = Inl ERR_IO \<or> r = Inr (block_view m b)"
proof -
  obtain r1 where rd1: "block_cache_read m b = (r1, m')"
    and r: "r = (case r1 of Inl e \<Rightarrow> Inl e | Inr i \<Rightarrow> Inr (bb_data (block_cache m' ! i)))"
    using rd by (auto simp: read_block_def split: prod.splits sum.splits)
  note B = block_cache_read_spec [OF inv ok rd1]
  show "cache_inv m'" "cache_only m m'" by (rule B)+
  show "blk_ok c \<Longrightarrow> block_view m' c = block_view m c" by (rule B)
  show "r = Inl ERR_IO \<or> r = Inr (block_view m b)"
    using B(4) r view_slot [OF B(1)] B(2) [OF ok] by auto
qed

lemma write_block_spec:
  assumes inv: "cache_inv m" and ok: "blk_ok b" and len: "length v = 4096"
    and wr: "write_block m b v = (st, m')"
  shows "cache_inv m'" and "cache_only m m'" and "st = OK \<or> st = ERR_IO"
    and "blk_ok c \<Longrightarrow> block_view m' c = (if st = OK \<and> c = b then v else block_view m c)"
proof -
  obtain r m1 where rd: "block_cache_read m b = (r, m1)"
    by (cases "block_cache_read m b")
  note B = block_cache_read_spec [OF inv ok rd]
  have "cache_inv m' \<and> cache_only m m' \<and> (st = OK \<or> st = ERR_IO) \<and>
    (\<forall>c. blk_ok c \<longrightarrow> block_view m' c = (if st = OK \<and> c = b then v else block_view m c))"
  proof (cases r)
    case (Inl e)
    with wr rd B show ?thesis by (auto simp: write_block_def)
  next
    case (Inr i)
    with B(4) have v: "slot_valid m1 i" and b: "bb_block (block_cache m1 ! i) = b" by auto
    then have i: "i < 16" by (simp add: slot_valid_def)
    let ?s = "(block_cache m1 ! i)\<lparr> bb_data := v, bb_dirty := True \<rparr>"
    have m': "st = OK" "m' = m1\<lparr> block_cache := (block_cache m1)[i := ?s] \<rparr>"
      using wr rd Inr v i len cache_invD(3) [OF B(1)]
      by (simp_all add: write_block_def block_cache_write_def slot_valid_def)
    have "bb_block (block_cache m1 ! j) \<noteq> b" if "slot_valid m1 j" "j \<noteq> i" for j
      using that b cache_invD(6) [OF B(1) v that(1)] by blast
    then have inv': "cache_inv m'"
      unfolding m' using b len ok by (intro slot_replace [OF B(1) i]) simp_all
    moreover have "block_view m' c = (if c = b then v else block_view m1 c)" for c
      using slot_replace_view [OF B(1) i inv' [unfolded m'], of c] v b
      unfolding m' by (auto simp: slot_valid_def)
    moreover have "cache_only m m'"
      unfolding m' using B(3) by (rule cache_only_trans) simp
    ultimately show ?thesis using B(2) m'(1) by simp
  qed
  then show "cache_inv m'" and "cache_only m m'" and "st = OK \<or> st = ERR_IO"
    and "blk_ok c \<Longrightarrow> block_view m' c = (if st = OK \<and> c = b then v else block_view m c)"
    by blast+
qed

section \<open>The cache flush\<close>

definition slot_dirty :: "mount \<Rightarrow> nat \<Rightarrow> bool" where
  "slot_dirty m i \<longleftrightarrow> slot_valid m i \<and> bb_dirty (block_cache m ! i)"

lemma flush_slot_spec:
  assumes inv: "cache_inv m" and i: "i < 16" and fl: "flush_slot i (st, m) = (st', m')"
    and st: "st = OK \<or> st = ERR_IO"
  shows "cache_inv m'" and "cache_only m m'" and "st' = OK \<or> st' = ERR_IO"
    and "blk_ok c \<Longrightarrow> block_view m' c = block_view m c"
    and "st' = OK \<Longrightarrow> st = OK \<and> (\<forall>j. slot_dirty m' j \<longleftrightarrow> slot_dirty m j \<and> j \<noteq> i)"
proof -
  let ?s = "block_cache m ! i"
  have "cache_inv m' \<and> cache_only m m' \<and> (st' = OK \<or> st' = ERR_IO) \<and>
    (\<forall>c. blk_ok c \<longrightarrow> block_view m' c = block_view m c) \<and>
    (st' = OK \<longrightarrow> st = OK \<and> (\<forall>j. slot_dirty m' j \<longleftrightarrow> slot_dirty m j \<and> j \<noteq> i))"
  proof (cases "slot_dirty m i")
    case False
    then show ?thesis
      using fl inv i st by (auto simp: flush_slot_def Let_def slot_dirty_def slot_valid_def)
  next
    case True
    then have v: "slot_valid m i" and d: "bb_dirty ?s" by (auto simp: slot_dirty_def)
    obtain st1 m1 where w: "disk_write_block m (bb_block ?s) (bb_data ?s) = (st1, m1)"
      by (cases "disk_write_block m (bb_block ?s) (bb_data ?s)")
    note W = disk_write_slot [OF inv v d w]
    show ?thesis
    proof (cases "st1 = OK")
      case False
      with fl w v d W show ?thesis by (auto simp: flush_slot_def Let_def slot_valid_def)
    next
      case True
      have v1: "slot_valid m1 i" using v by (simp add: slot_valid_def W(4))
      have m': "st' = st" "m' = m1\<lparr> block_cache := (block_cache m1)[i := (block_cache m1 ! i)\<lparr> bb_dirty := False \<rparr>] \<rparr>"
        using fl w v d True by (simp_all add: flush_slot_def Let_def slot_valid_def W(4))
      have "cache_inv m'" and "\<And>c. block_view m' c = block_view m1 c"
        using slot_clean [OF W(1) v1] True W(4,6) by (simp_all add: m')
      moreover have "slot_dirty m' j \<longleftrightarrow> slot_dirty m j \<and> j \<noteq> i" for j
        using i cache_invD(3) [OF inv]
        by (auto simp: slot_dirty_def slot_valid_def m' W(4) nth_list_update)
      ultimately show ?thesis
        using W(2,3) st m'(1) cache_only_trans [OF W(3) cache_only_cache] by (simp add: m'(2))
    qed
  qed
  then show "cache_inv m'" and "cache_only m m'" and "st' = OK \<or> st' = ERR_IO"
    and "blk_ok c \<Longrightarrow> block_view m' c = block_view m c"
    and "st' = OK \<Longrightarrow> st = OK \<and> (\<forall>j. slot_dirty m' j \<longleftrightarrow> slot_dirty m j \<and> j \<noteq> i)"
    by blast+
qed

lemma flush_loop_spec:
  assumes "cache_inv m" and "\<forall>i \<in> set is. i < 16" and "flush_loop is (st, m) = (st', m')"
    and "st = OK \<or> st = ERR_IO"
  shows "cache_inv m' \<and> cache_only m m' \<and> (st' = OK \<or> st' = ERR_IO) \<and>
    (\<forall>c. blk_ok c \<longrightarrow> block_view m' c = block_view m c) \<and>
    (st' = OK \<longrightarrow> st = OK \<and> (\<forall>j. slot_dirty m' j \<longleftrightarrow> slot_dirty m j \<and> j \<notin> set is))"
  using assms
proof (induction "is" arbitrary: st m)
  case Nil
  then show ?case by simp
next
  case (Cons i js)
  obtain st1 m1 where f: "flush_slot i (st, m) = (st1, m1)" by (cases "flush_slot i (st, m)")
  have "i < 16" using Cons.prems by simp
  note F = flush_slot_spec [OF Cons.prems(1) this f Cons.prems(4)]
  have rest: "flush_loop js (st1, m1) = (st', m')" using Cons.prems(3) f by simp
  have IH: "cache_inv m' \<and> cache_only m1 m' \<and> (st' = OK \<or> st' = ERR_IO) \<and>
    (\<forall>c. blk_ok c \<longrightarrow> block_view m' c = block_view m1 c) \<and>
    (st' = OK \<longrightarrow> st1 = OK \<and> (\<forall>j. slot_dirty m' j \<longleftrightarrow> slot_dirty m1 j \<and> j \<notin> set js))"
    using Cons.prems(2) by (intro Cons.IH [OF F(1) _ rest F(3)]) simp
  have "cache_only m m'" using F(2) IH cache_only_trans by blast
  moreover have "\<forall>c. blk_ok c \<longrightarrow> block_view m' c = block_view m c" using F(4) IH by simp
  moreover have "st' = OK \<longrightarrow>
      st = OK \<and> (\<forall>j. slot_dirty m' j \<longleftrightarrow> slot_dirty m j \<and> j \<notin> set (i # js))"
    using F(5) IH by auto
  moreover have "cache_inv m'" and "st' = OK \<or> st' = ERR_IO" using IH by simp_all
  ultimately show ?case by - (intro conjI; assumption)
qed

lemma block_cache_flush_spec:
  assumes inv: "cache_inv m" and fl: "block_cache_flush m = (st, m')"
  shows "cache_inv m'" and "cache_only m m'" and "st = OK \<or> st = ERR_IO"
    and "blk_ok c \<Longrightarrow> block_view m' c = block_view m c"
    and "st = OK \<Longrightarrow> blk_ok c \<Longrightarrow> disk_block m' c = block_view m c"
proof -
  have F: "cache_inv m' \<and> cache_only m m' \<and> (st = OK \<or> st = ERR_IO) \<and>
    (\<forall>c. blk_ok c \<longrightarrow> block_view m' c = block_view m c) \<and>
    (st = OK \<longrightarrow> OK = OK \<and> (\<forall>j. slot_dirty m' j \<longleftrightarrow> slot_dirty m j \<and> j \<notin> set [0..<16]))"
    using fl unfolding block_cache_flush_def by (intro flush_loop_spec [OF inv]) simp_all
  then show inv': "cache_inv m'" and "cache_only m m'" and "st = OK \<or> st = ERR_IO"
    and v: "blk_ok c \<Longrightarrow> block_view m' c = block_view m c" by simp_all
  assume st: "st = OK" and c: "blk_ok c"
  have clean: "\<not> slot_dirty m' j" for j
    using F st by (auto simp: slot_dirty_def slot_valid_def)
  show "disk_block m' c = block_view m c"
  proof (cases "block_cache_hit m' c")
    case None
    then show ?thesis using v [OF c] by (simp add: block_view_def)
  next
    case (Some i)
    then have "slot_valid m' i" "bb_block (block_cache m' ! i) = c"
      using hit_SomeD [OF inv'] by auto
    then show ?thesis
      using clean [of i] v [OF c] view_slot [OF inv'] cache_invD(7) [OF inv', of i]
      by (simp add: slot_dirty_def)
  qed
qed

lemma block_view_frame [simp]:
  "block_view (m\<lparr> mounted := x0 \<rparr>) = block_view m"
  "block_view (m\<lparr> sb := x1 \<rparr>) = block_view m"
  "block_view (m\<lparr> journal_next_sequence := x2 \<rparr>) = block_view m"
  "block_view (m\<lparr> journal_in_transaction := x3 \<rparr>) = block_view m"
  "block_view (m\<lparr> journal_write_pos := x4 \<rparr>) = block_view m"
  "block_view (m\<lparr> fd_table := x5 \<rparr>) = block_view m"
  "block_view (m\<lparr> regions := x6 \<rparr>) = block_view m"
  "block_view (m\<lparr> region_count := x7 \<rparr>) = block_view m"
  "block_view (m\<lparr> alloc_hint_region := x8 \<rparr>) = block_view m"
  by (auto simp: fun_eq_iff block_view_def block_cache_hit_def disk_block_def split: option.splits)

lemma cache_inv_frame [simp]:
  "cache_inv (m\<lparr> mounted := x0 \<rparr>) = cache_inv m"
  "cache_inv (m\<lparr> journal_next_sequence := x2 \<rparr>) = cache_inv m"
  "cache_inv (m\<lparr> journal_in_transaction := x3 \<rparr>) = cache_inv m"
  "cache_inv (m\<lparr> journal_write_pos := x4 \<rparr>) = cache_inv m"
  "cache_inv (m\<lparr> fd_table := x5 \<rparr>) = cache_inv m"
  "cache_inv (m\<lparr> regions := x6 \<rparr>) = cache_inv m"
  "cache_inv (m\<lparr> region_count := x7 \<rparr>) = cache_inv m"
  "cache_inv (m\<lparr> alloc_hint_region := x8 \<rparr>) = cache_inv m"
  by (simp_all add: cache_inv_def slot_valid_def disk_block_def)

lemma cache_inv_sb [simp]:
  "sb_sector_size s = sb_sector_size (sb m) \<Longrightarrow> cache_inv (m\<lparr> sb := s \<rparr>) = cache_inv m"
  by (simp add: cache_inv_def slot_valid_def disk_block_def)

text \<open>A drive that answers and has no failing sector.\<close>

definition healthy :: "mount \<Rightarrow> bool" where
  "healthy m \<longleftrightarrow> drive_num m \<le> 1 \<and> connected (drv m) \<and>
     (\<forall>a. \<not> rd_bad (drv m) a) \<and> (\<forall>a. \<not> wr_bad (drv m) a)"

lemma healthy_frame [simp]:
  "healthy (m\<lparr> mounted := x0 \<rparr>) = healthy m"
  "healthy (m\<lparr> sb := x1 \<rparr>) = healthy m"
  "healthy (m\<lparr> journal_next_sequence := x2 \<rparr>) = healthy m"
  "healthy (m\<lparr> journal_in_transaction := x3 \<rparr>) = healthy m"
  "healthy (m\<lparr> journal_write_pos := x4 \<rparr>) = healthy m"
  "healthy (m\<lparr> fd_table := x5 \<rparr>) = healthy m"
  "healthy (m\<lparr> regions := x6 \<rparr>) = healthy m"
  "healthy (m\<lparr> region_count := x7 \<rparr>) = healthy m"
  "healthy (m\<lparr> alloc_hint_region := x8 \<rparr>) = healthy m"
  "healthy (m\<lparr> block_cache := x9 \<rparr>) = healthy m"
  by (simp_all add: healthy_def)

lemma healthy_cache_only: "cache_only m m' \<Longrightarrow> healthy m' = healthy m"
  by (simp add: cache_only_def healthy_def)

lemma disk_write_loop_frame:
  "disk_write_loop dn d lba ss i n buf = (st, d') \<Longrightarrow>
   connected d' = connected d \<and> rd_bad d' = rd_bad d \<and> wr_bad d' = wr_bad d"
  by (induction n arbitrary: i d)
    (auto simp: ide_write_sectors_def ide_write_sectors_ext_def split: prod.splits bool.splits if_splits)

lemma disk_write_block_frame: "cache_only m (snd (disk_write_block m b buf))"
  by (auto simp: disk_write_block_def cache_only_def split: prod.splits dest: disk_write_loop_frame)

lemma block_cache_fill_frame: "cache_only m (snd (block_cache_fill m i b))"
  by (simp add: block_cache_fill_def split: prod.splits)

lemma block_cache_read_frame: "cache_only m (snd (block_cache_read m b))"
proof -
  let ?s = "block_cache m ! 0"
  obtain st m1 where w: "disk_write_block m (bb_block ?s) (bb_data ?s) = (st, m1)"
    by (cases "disk_write_block m (bb_block ?s) (bb_data ?s)")
  have w1: "cache_only m m1" using disk_write_block_frame [of m "bb_block ?s" "bb_data ?s"] w by simp
  let ?m2 = "m1\<lparr> block_cache := (block_cache m1)[0 := ?s\<lparr> bb_dirty := False \<rparr>] \<rparr>"
  have "cache_only m (snd (block_cache_fill ?m2 0 b))"
    using w1 block_cache_fill_frame cache_only_trans cache_only_cache by meson
  with w w1 show ?thesis
    by (auto simp: block_cache_read_def Let_def block_cache_fill_frame split: option.splits)
qed

lemma read_block_frame: "cache_only m (snd (read_block m b))"
proof -
  obtain r m1 where rd: "block_cache_read m b = (r, m1)" by (cases "block_cache_read m b")
  then have "snd (read_block m b) = m1" by (cases r) (simp_all add: read_block_def)
  then show ?thesis using block_cache_read_frame [of m b] rd by simp
qed

lemma block_cache_write_frame: "cache_only m (snd (block_cache_write m i))"
  by (simp add: block_cache_write_def)

lemma write_block_frame: "cache_only m (snd (write_block m b v))"
proof -
  obtain r m1 where rd: "block_cache_read m b = (r, m1)" by (cases "block_cache_read m b")
  then have m1: "cache_only m m1" using block_cache_read_frame [of m b] by simp
  then have "cache_only m (m1\<lparr> block_cache := c \<rparr>)" for c
    using cache_only_trans cache_only_cache by blast
  with m1 rd show ?thesis
    by (cases r) (simp_all add: write_block_def block_cache_write_def)
qed

lemma flush_slot_frame: "cache_only (snd sm) (snd (flush_slot i sm))"
proof (cases sm)
  case (Pair st m)
  let ?s = "block_cache m ! i"
  obtain st1 m1 where w: "disk_write_block m (bb_block ?s) (bb_data ?s) = (st1, m1)"
    by (cases "disk_write_block m (bb_block ?s) (bb_data ?s)")
  have "cache_only m m1" using disk_write_block_frame [of m "bb_block ?s" "bb_data ?s"] w by simp
  then have "cache_only m (m1\<lparr> block_cache := c \<rparr>)" for c
    using cache_only_trans cache_only_cache by blast
  with \<open>cache_only m m1\<close> w Pair show ?thesis by (simp add: flush_slot_def Let_def)
qed

lemma flush_loop_frame: "cache_only (snd sm) (snd (flush_loop is sm))"
proof (induction "is" arbitrary: sm)
  case Nil
  then show ?case by simp
next
  case (Cons i js)
  then show ?case using flush_slot_frame cache_only_trans by (metis flush_loop.simps(2))
qed

lemma block_cache_flush_frame: "cache_only m (snd (block_cache_flush m))"
  using flush_loop_frame [of "(OK, m)"] by (simp add: block_cache_flush_def)

lemma read_block_fields [simp]:
  "drive_num (snd (read_block m b)) = drive_num m"
  "mounted (snd (read_block m b)) = mounted m"
  "sb (snd (read_block m b)) = sb m"
  "journal_next_sequence (snd (read_block m b)) = journal_next_sequence m"
  "journal_in_transaction (snd (read_block m b)) = journal_in_transaction m"
  "journal_write_pos (snd (read_block m b)) = journal_write_pos m"
  "fd_table (snd (read_block m b)) = fd_table m"
  "regions (snd (read_block m b)) = regions m"
  "region_count (snd (read_block m b)) = region_count m"
  "alloc_hint_region (snd (read_block m b)) = alloc_hint_region m"
  "heap_ok (snd (read_block m b)) = heap_ok m"
  using read_block_frame [of m b] by (simp_all add: cache_only_def)

lemma write_block_fields [simp]:
  "drive_num (snd (write_block m b v)) = drive_num m"
  "mounted (snd (write_block m b v)) = mounted m"
  "sb (snd (write_block m b v)) = sb m"
  "journal_next_sequence (snd (write_block m b v)) = journal_next_sequence m"
  "journal_in_transaction (snd (write_block m b v)) = journal_in_transaction m"
  "journal_write_pos (snd (write_block m b v)) = journal_write_pos m"
  "fd_table (snd (write_block m b v)) = fd_table m"
  "regions (snd (write_block m b v)) = regions m"
  "region_count (snd (write_block m b v)) = region_count m"
  "alloc_hint_region (snd (write_block m b v)) = alloc_hint_region m"
  "heap_ok (snd (write_block m b v)) = heap_ok m"
  using write_block_frame [of m b v] by (simp_all add: cache_only_def)

lemma block_cache_flush_fields [simp]:
  "drive_num (snd (block_cache_flush m)) = drive_num m"
  "mounted (snd (block_cache_flush m)) = mounted m"
  "sb (snd (block_cache_flush m)) = sb m"
  "journal_next_sequence (snd (block_cache_flush m)) = journal_next_sequence m"
  "journal_in_transaction (snd (block_cache_flush m)) = journal_in_transaction m"
  "journal_write_pos (snd (block_cache_flush m)) = journal_write_pos m"
  "fd_table (snd (block_cache_flush m)) = fd_table m"
  "regions (snd (block_cache_flush m)) = regions m"
  "region_count (snd (block_cache_flush m)) = region_count m"
  "alloc_hint_region (snd (block_cache_flush m)) = alloc_hint_region m"
  "heap_ok (snd (block_cache_flush m)) = heap_ok m"
  using block_cache_flush_frame [of m] by (simp_all add: cache_only_def)

section \<open>Transfers on a healthy drive\<close>

lemma disk_read_loop_healthy:
  "dn \<le> 1 \<Longrightarrow> connected d \<Longrightarrow> \<forall>a. \<not> rd_bad d a \<Longrightarrow>
   fst (disk_read_loop dn d lba ss i n buf) = OK"
  by (induction n arbitrary: i buf)
    (auto simp: ide_read_sectors_def ide_select_drive_def split: option.splits)

lemma disk_write_loop_healthy:
  "dn \<le> 1 \<Longrightarrow> connected d \<Longrightarrow> \<forall>a. \<not> wr_bad d a \<Longrightarrow> blk_ok b \<Longrightarrow> i + n = 8 \<Longrightarrow>
   fst (disk_write_loop dn d (ucast (b * 8)) ss i n buf) = OK"
proof (induction n arbitrary: i d)
  case 0
  then show ?case by simp
next
  case (Suc n)
  then show ?case
    using lba_28 [of b i] by (simp add: ide_write_sectors_def ide_select_drive_def)
qed

lemma block_cache_fill_healthy:
  assumes "healthy m"
  shows "fst (block_cache_fill m i b) = Inr i \<or> sb_sector_size (sb m) \<noteq> 512"
  using assms disk_read_loop_healthy [of "drive_num m" "drv m"]
  by (auto simp: block_cache_fill_def disk_read_block_def healthy_def split: prod.splits)
    (metis fst_conv)+

lemma disk_write_block_healthy:
  assumes "healthy m" and "cache_inv m" and "blk_ok b"
  shows "fst (disk_write_block m b buf) = OK"
  using assms disk_write_loop_healthy [of "drive_num m" "drv m" b 0 8 512 buf] cache_invD(1)
  by (auto simp: disk_write_block_def healthy_def block_sectors_512 block_lba_512 split: prod.splits)

lemma block_cache_read_healthy:
  assumes "healthy m" and "cache_inv m" and "blk_ok b"
  shows "\<exists>i. fst (block_cache_read m b) = Inr i"
proof -
  let ?s = "block_cache m ! 0"
  obtain st m1 where w: "disk_write_block m (bb_block ?s) (bb_data ?s) = (st, m1)"
    by (cases "disk_write_block m (bb_block ?s) (bb_data ?s)")
  have fillok: "fst (block_cache_fill m' i b) = Inr i"
    if "cache_only m m'" for m' i
    using block_cache_fill_healthy [of m' i b] that assms(1) healthy_cache_only [OF that]
      cache_invD(1) [OF assms(2)]
    by (simp add: cache_only_def)
  have w1: "cache_only m m1" using disk_write_block_frame [of m "bb_block ?s" "bb_data ?s"] w by simp
  then have m2: "cache_only m (m1\<lparr> block_cache := c \<rparr>)" for c
    using cache_only_trans cache_only_cache by blast
  have "st = OK" if "bb_valid ?s"
    using disk_write_block_healthy [OF assms(1,2), of "bb_block ?s" "bb_data ?s"] w that
      cache_invD(5) [OF assms(2), of 0] by (simp add: slot_valid_def)
  then show ?thesis
    using w fillok [OF m2] fillok [OF cache_only_refl]
    by (auto simp: block_cache_read_def Let_def split: option.splits)
qed

lemma read_block_healthy:
  assumes "healthy m" and "cache_inv m" and "blk_ok b"
  shows "fst (read_block m b) = Inr (block_view m b)"
proof -
  obtain r m' where rd: "read_block m b = (r, m')" by (cases "read_block m b")
  have "\<not> isl r"
    using block_cache_read_healthy [OF assms] rd
    by (auto simp: read_block_def split: prod.splits sum.splits)
  then show ?thesis using read_block_spec(4) [OF assms(2,3) rd] rd by auto
qed

lemma write_block_healthy:
  assumes "healthy m" and "cache_inv m" and "blk_ok b"
  shows "fst (write_block m b v) = OK"
proof -
  obtain r m1 where rd: "block_cache_read m b = (r, m1)" by (cases "block_cache_read m b")
  note B = block_cache_read_spec [OF assms(2,3) rd]
  obtain i where i: "r = Inr i" "slot_valid m1 i"
    using block_cache_read_healthy [OF assms] B(4) rd by auto
  then show ?thesis
    using rd cache_invD(3) [OF B(1)]
    by (simp add: write_block_def block_cache_write_def slot_valid_def)
qed

lemma flush_loop_healthy:
  "healthy m \<Longrightarrow> cache_inv m \<Longrightarrow> \<forall>i \<in> set is. i < 16 \<Longrightarrow> fst (flush_loop is (OK, m)) = OK"
proof (induction "is" arbitrary: m)
  case Nil
  then show ?case by simp
next
  case (Cons i js)
  obtain st1 m1 where f: "flush_slot i (OK, m) = (st1, m1)" by (cases "flush_slot i (OK, m)")
  have i: "i < 16" using Cons.prems by simp
  have "st1 = OK"
    using f i Cons.prems disk_write_block_healthy [OF Cons.prems(1,2)] cache_invD(5) [OF Cons.prems(2)]
    by (auto simp: flush_slot_def Let_def slot_valid_def split: prod.splits if_splits)
      (metis fst_conv)
  moreover have "cache_inv m1" using flush_slot_spec(1) [OF Cons.prems(2) i f] by simp
  moreover have "healthy m1"
    using flush_slot_spec(2) [OF Cons.prems(2) i f] Cons.prems(1) healthy_cache_only by blast
  ultimately show ?case using Cons f by simp
qed

lemma block_cache_flush_healthy:
  "healthy m \<Longrightarrow> cache_inv m \<Longrightarrow> fst (block_cache_flush m) = OK"
  by (simp add: block_cache_flush_def flush_loop_healthy del: upt_rec_numeral)

section \<open>The interface of the block layer\<close>

text \<open>
  What the layers above rely on. \<open>view\<close> is the content that a state gives each block, \<open>ok\<close> the
  addresses the contract covers and \<open>inv\<close> the provider's invariant. A failed call reports
  \<open>ERR_IO\<close> and leaves every block's content as it was.
\<close>

locale block_store =
  fixes rd :: "'m \<Rightarrow> 'a \<Rightarrow> (status + bytes) \<times> 'm"
    and wr :: "'m \<Rightarrow> 'a \<Rightarrow> bytes \<Rightarrow> status \<times> 'm"
    and view :: "'m \<Rightarrow> 'a \<Rightarrow> bytes"
    and inv :: "'m \<Rightarrow> bool"
    and ok :: "'a \<Rightarrow> bool"
  assumes rd_inv: "inv m \<Longrightarrow> ok b \<Longrightarrow> inv (snd (rd m b))"
    and rd_view: "inv m \<Longrightarrow> ok b \<Longrightarrow> ok c \<Longrightarrow> view (snd (rd m b)) c = view m c"
    and rd_result: "inv m \<Longrightarrow> ok b \<Longrightarrow> fst (rd m b) = Inl ERR_IO \<or> fst (rd m b) = Inr (view m b)"
    and wr_inv: "inv m \<Longrightarrow> ok b \<Longrightarrow> length v = 4096 \<Longrightarrow> inv (snd (wr m b v))"
    and wr_status: "inv m \<Longrightarrow> ok b \<Longrightarrow> length v = 4096 \<Longrightarrow>
      fst (wr m b v) = OK \<or> fst (wr m b v) = ERR_IO"
    and wr_view: "inv m \<Longrightarrow> ok b \<Longrightarrow> ok c \<Longrightarrow> length v = 4096 \<Longrightarrow>
      view (snd (wr m b v)) c = (if fst (wr m b v) = OK \<and> c = b then v else view m c)"
    and view_length: "inv m \<Longrightarrow> length (view m b) = 4096"
begin

lemma rd_value: "inv m \<Longrightarrow> ok b \<Longrightarrow> rd m b = (Inr v, m') \<Longrightarrow> v = view m b"
  using rd_result [of m b] by auto

lemma rd_error: "inv m \<Longrightarrow> ok b \<Longrightarrow> rd m b = (Inl e, m') \<Longrightarrow> e = ERR_IO"
  using rd_result [of m b] by auto

lemma read_after_write:
  assumes "inv m" "ok b" "length v = 4096" "wr m b v = (OK, m1)" "rd m1 b = (Inr w, m2)"
  shows "w = v"
proof -
  have "inv m1" using wr_inv [OF assms(1-3)] assms(4) by simp
  from rd_value [OF this assms(2,5)] wr_view [OF assms(1,2,2,3)] assms(4)
  show ?thesis by simp
qed

lemma read_after_write_other:
  assumes "inv m" "ok b" "ok c" "c \<noteq> b" "length v = 4096" "rd (snd (wr m b v)) c = (Inr w, m2)"
  shows "w = view m c"
  using rd_value [OF wr_inv [OF assms(1,2,5)] assms(3,6)] wr_view [OF assms(1,2,3,5)] assms(4)
  by simp

text \<open>The read-modify-write of one block that every on-disk structure is updated by.\<close>

lemma read_modify_write:
  assumes "inv m" "ok b" "rd m b = (Inr v, m1)" "length (f v) = 4096" "wr m1 b (f v) = (st, m2)"
  shows "inv m2" and "ok c \<Longrightarrow>
    view m2 c = (if st = OK \<and> c = b then f (view m b) else view m c)"
proof -
  have m1: "inv m1" using rd_inv [OF assms(1,2)] assms(3) by simp
  from wr_inv [OF m1 assms(2,4)] assms(5) show "inv m2" by simp
  assume c: "ok c"
  show "view m2 c = (if st = OK \<and> c = b then f (view m b) else view m c)"
    using wr_view [OF m1 assms(2) c assms(4)] assms(5) rd_value [OF assms(1-3)]
      rd_view [OF assms(1,2) c] assms(3) by simp
qed

end

text \<open>A store on a drive without failures: every call succeeds and the store stays reliable.\<close>

locale reliable_store = block_store +
  fixes good :: "'a \<Rightarrow> bool"
  assumes good_rd: "good m \<Longrightarrow> inv m \<Longrightarrow> ok b \<Longrightarrow> fst (rd m b) = Inr (view m b) \<and> good (snd (rd m b))"
    and good_wr: "good m \<Longrightarrow> inv m \<Longrightarrow> ok b \<Longrightarrow> length v = 4096 \<Longrightarrow>
      fst (wr m b v) = OK \<and> good (snd (wr m b v))"
begin

lemma good_rdE:
  assumes "good m" "inv m" "ok b"
  obtains m' where "rd m b = (Inr (view m b), m')" "good m'" "inv m'"
    "\<And>c. ok c \<Longrightarrow> view m' c = view m c"
  using good_rd [OF assms] rd_inv [OF assms(2,3)] rd_view [OF assms(2,3)]
  by (metis prod.collapse)

lemma good_wrE:
  assumes "good m" "inv m" "ok b" "length v = 4096"
  obtains m' where "wr m b v = (OK, m')" "good m'" "inv m'"
    "\<And>c. ok c \<Longrightarrow> view m' c = (if c = b then v else view m c)"
  using good_wr [OF assms] wr_inv [OF assms(2-4)] wr_view [OF assms(2,3) _ assms(4)]
  by (metis prod.collapse)

end

interpretation cache: block_store read_block write_block block_view cache_inv blk_ok
proof
  fix m b c v
  assume inv: "cache_inv m" and b: "blk_ok b"
  note R = read_block_spec [OF inv b, of "fst (read_block m b)" "snd (read_block m b)", simplified]
  show "cache_inv (snd (read_block m b))" by (rule R)
  show "blk_ok c \<Longrightarrow> block_view (snd (read_block m b)) c = block_view m c" by (rule R)
  show "fst (read_block m b) = Inl ERR_IO \<or> fst (read_block m b) = Inr (block_view m b)" by (rule R)
  assume v: "length (v :: bytes) = 4096"
  note W = write_block_spec [OF inv b v, of "fst (write_block m b v)" "snd (write_block m b v)", simplified]
  show "cache_inv (snd (write_block m b v))" by (rule W)
  show "fst (write_block m b v) = OK \<or> fst (write_block m b v) = ERR_IO" by (rule W)
  show "blk_ok c \<Longrightarrow> block_view (snd (write_block m b v)) c =
    (if fst (write_block m b v) = OK \<and> c = b then v else block_view m c)" by (rule W)
qed (rule length_block_view)

interpretation drive: reliable_store read_block write_block block_view cache_inv blk_ok healthy
  by unfold_locales
    (simp_all add: read_block_healthy write_block_healthy
      healthy_cache_only [OF read_block_frame] healthy_cache_only [OF write_block_frame])


section \<open>Properties\<close>

lemma block_cache_init_inv:
  assumes "sb_sector_size (sb m) = 512" and "\<And>a. length (sector (drv m) a) = 512"
    and "block_cache m = [] \<Longrightarrow> heap_ok m"
    and "block_cache m \<noteq> [] \<Longrightarrow> length (block_cache m) = 16 \<and> (\<forall>s \<in> set (block_cache m). length (bb_data s) = 4096)"
  shows "cache_inv (block_cache_init m)" and "block_view (block_cache_init m) = disk_block m"
proof -
  let ?m = "block_cache_init m"
  have "length (block_cache ?m) = 16 \<and> (\<forall>s \<in> set (block_cache ?m). length (bb_data s) = 4096 \<and> \<not> bb_valid s)"
    using assms(3,4) by (auto simp: block_cache_init_def Let_def)
  then have c: "length (block_cache ?m) = 16" "i < 16 \<Longrightarrow> length (bb_data (block_cache ?m ! i)) = 4096"
    "\<not> slot_valid ?m i" for i
    by (auto simp: slot_valid_def)
  have eq: "drv ?m = drv m" "sb ?m = sb m" by (simp_all add: block_cache_init_def Let_def)
  show inv: "cache_inv ?m" unfolding cache_inv_def using c assms(1,2) eq by simp
  show "block_view ?m = disk_block m"
  proof
    fix b
    show "block_view ?m b = disk_block m b"
      using view_disk [OF inv, of b] c(3) eq by (simp add: disk_block_def)
  qed
qed

text \<open>A drive of zeroed sectors and a mount context on it, for the concrete runs below.\<close>

definition blank_sb :: superblock where
  "blank_sb = (dec_superblock (replicate 320 0))\<lparr> sb_sector_size := 512 \<rparr>"

definition blank_mount :: mount where
  "blank_mount = block_cache_init
     \<lparr> drive_num = 0, mounted = True, sb = blank_sb, journal_next_sequence = 0,
       journal_in_transaction = False, journal_write_pos = 0, fd_table = [], regions = None,
       region_count = 0, alloc_hint_region = 0, block_cache = [],
       drv = \<lparr> connected = True, sector = \<lambda>_. replicate 512 0, rd_bad = \<lambda>_. False,
               wr_bad = \<lambda>_. False \<rparr>,
       heap_ok = True \<rparr>"

lemma blank_mount_ok: "cache_inv blank_mount" "healthy blank_mount"
  unfolding blank_mount_def
  by (rule block_cache_init_inv; simp add: blank_sb_def)
    (simp add: healthy_def block_cache_init_def)

text \<open>
  C3. Coherence of the block layer, failing sectors included: after \<open>write_block\<close> of a full
  buffer to a block, a read of any block that succeeds returns the written content for that
  block if the write succeeded, and what the store held before for every other one (and for
  that one, if the write failed). A failing call reports \<open>ERR_IO\<close>; the cache invariant is kept.
\<close>
theorem read_block_after_write_block:
  assumes "cache_inv m" "blk_ok b" "blk_ok c" "length v = 4096"
    and "write_block m b v = (st, m1)" and "read_block m1 c = (r, m2)"
  shows "(r = Inl ERR_IO \<or> r = Inr (if st = OK \<and> c = b then v else block_view m c)) \<and>
    (st = OK \<or> st = ERR_IO) \<and> cache_inv m2"
proof -
  have m1: "cache_inv m1" using cache.wr_inv [OF assms(1,2,4)] assms(5) by simp
  show ?thesis
    using cache.rd_result [OF m1 assms(3)] cache.rd_inv [OF m1 assms(3)] assms(5,6)
      cache.wr_view [OF assms(1-4)] cache.wr_status [OF assms(1,2,4)] by auto
qed

theorem read_block_after_write_block_witness:
  "\<exists>r m2. read_block (snd (write_block blank_mount 7 (replicate 4096 9))) 7 = (r, m2) \<and>
     (r = Inl ERR_IO \<or> r = Inr (if fst (write_block blank_mount 7 (replicate 4096 9)) = OK \<and> (7::u64) = 7
        then replicate 4096 9 else block_view blank_mount 7)) \<and> cache_inv m2"
  using read_block_after_write_block [OF blank_mount_ok(1), of 7 7 "replicate 4096 9"]
  by (metis (no_types, lifting) length_replicate prod.collapse blk_ok_def [of 7, simplified])

text \<open>
  C4. The write-back of the cache: \<open>block_cache_flush\<close> changes no block as the file system sees
  it, whatever sectors fail, and if it reports success then the sectors of the drive hold
  every block's content. On a drive without failing sectors it does report success.
\<close>
theorem block_cache_flush_durable:
  assumes "cache_inv m" "blk_ok c" "block_cache_flush m = (st, m')"
  shows "cache_inv m' \<and> block_view m' c = block_view m c \<and>
    (st = OK \<longrightarrow> disk_block m' c = block_view m c) \<and> (healthy m \<longrightarrow> st = OK)"
  using block_cache_flush_spec [OF assms(1,3)] assms(2) block_cache_flush_healthy [OF _ assms(1)]
    assms(3) by auto

theorem block_cache_flush_durable_witness:
  "\<exists>m'. block_cache_flush (snd (write_block blank_mount 7 (replicate 4096 9))) = (OK, m') \<and>
     disk_block m' 7 = replicate 4096 9"
proof -
  have ok: "blk_ok 7" by (simp add: blk_ok_def)
  have len: "length (replicate 4096 9 :: bytes) = 4096" by simp
  obtain m1 where w: "write_block blank_mount 7 (replicate 4096 9) = (OK, m1)"
    and m1: "healthy m1" "cache_inv m1" "block_view m1 7 = replicate 4096 9"
    using drive.good_wrE [OF blank_mount_ok(2,1) ok len] ok by metis
  obtain st m' where f: "block_cache_flush m1 = (st, m')" by fastforce
  show ?thesis using block_cache_flush_durable [OF m1(2) ok f] m1 w f by auto
qed

text \<open>
  The address limit of the driver: a write of a sector whose address needs more than 28 bits
  reaches the drive through the 48-bit command and is still reported as failed, so a block from
  number \<open>2 ^ 25\<close> on cannot be written back even by a drive without failing sectors.
\<close>
theorem ide_write_beyond_28_bits:
  assumes "ide_select_drive dn d" "lba > 0x0FFFFFFF" "\<not> wr_bad d (ucast lba)"
  shows "ide_write_sectors dn d lba buf =
    (False, d\<lparr> sector := (sector d)(ucast lba := take 512 buf) \<rparr>)"
proof -
  have "unat (ucast lba :: u64) < 2 ^ 32"
    using unsigned_less [of lba] by (simp add: unat_ucast_up)
  then have "\<not> (ucast lba :: u64) > 0x0000FFFFFFFFFFFF"
    by (simp add: word_less_nat_alt)
  then show ?thesis
    using assms by (simp add: ide_write_sectors_def ide_write_sectors_ext_def)
qed

theorem ide_write_beyond_28_bits_witness:
  "ide_write_sectors 0 (drv blank_mount) 0x10000000 [1] =
     (False, (drv blank_mount)\<lparr> sector := (sector (drv blank_mount))(0x10000000 := [1]) \<rparr>)"
  using ide_write_beyond_28_bits [of 0 "drv blank_mount" "0x10000000" "[1]"]
  by (simp add: blank_mount_def block_cache_init_def ide_select_drive_def)

end
