(* ===== verification/Effects.thy ===== *)
theory Effects
  imports Device
begin

text \<open>
  How the file system's functions are composed: a C function over the mount context becomes a
  function from a mount to its result and the mount it leaves. Functions that return a
  \<^verbatim>\<open>SMKFS_STATUS\<close> alone give a \<open>status\<close>, functions with an out parameter give
  \<open>Inl\<close> of the error or \<open>Inr\<close> of what they store. The combinators are the C idioms
  \<^verbatim>\<open>if (f(mnt) != SMKFS_OK) return ...\<close>, with one rule each for invariants. The last
  section holds the geometry of a volume, the part of the superblock that no operation changes.
\<close>

section \<open>Early returns\<close>

text \<open>\<open>thenS\<close> returns the failing status itself, \<open>orS\<close> replaces it by a fixed one.\<close>

definition thenS :: "status \<times> 'm \<Rightarrow> ('m \<Rightarrow> status \<times> 'm) \<Rightarrow> status \<times> 'm" where
  "thenS r f = (if fst r = OK then f (snd r) else r)"

definition orS :: "status \<times> 'm \<Rightarrow> status \<Rightarrow> status \<times> 'm" where
  "orS r e = (if fst r = OK then r else (e, snd r))"

text \<open>The same for a call with a result, used by a function without one (\<open>bindS\<close>) and with one.\<close>

definition bindS :: "(status + 'a) \<times> 'm \<Rightarrow> ('a \<Rightarrow> 'm \<Rightarrow> status \<times> 'm) \<Rightarrow> status \<times> 'm" where
  "bindS r f = (case fst r of Inl e \<Rightarrow> (e, snd r) | Inr a \<Rightarrow> f a (snd r))"

definition bindE :: "(status + 'a) \<times> 'm \<Rightarrow> ('a \<Rightarrow> 'm \<Rightarrow> (status + 'b) \<times> 'm) \<Rightarrow> (status + 'b) \<times> 'm" where
  "bindE r f = (case fst r of Inl e \<Rightarrow> (Inl e, snd r) | Inr a \<Rightarrow> f a (snd r))"

definition thenE :: "status \<times> 'm \<Rightarrow> ('m \<Rightarrow> (status + 'b) \<times> 'm) \<Rightarrow> (status + 'b) \<times> 'm" where
  "thenE r f = (if fst r = OK then f (snd r) else (Inl (fst r), snd r))"

definition orE :: "(status + 'a) \<times> 'm \<Rightarrow> status \<Rightarrow> (status + 'a) \<times> 'm" where
  "orE r e = (case fst r of Inl _ \<Rightarrow> (Inl e, snd r) | Inr a \<Rightarrow> r)"

lemma early_return [simp]:
  "thenS (OK, m) f = f m"
  "st \<noteq> OK \<Longrightarrow> thenS (st, m) f = (st, m)"
  "orS (OK, m) e = (OK, m)"
  "st \<noteq> OK \<Longrightarrow> orS (st, m) e = (e, m)"
  "bindS (Inl x, m) g = (x, m)"
  "bindS (Inr a, m) g = g a m"
  "bindE (Inl x, m) h = (Inl x, m)"
  "bindE (Inr a, m) h = h a m"
  "thenE (OK, m) k = k m"
  "st \<noteq> OK \<Longrightarrow> thenE (st, m) k = (Inl st, m)"
  "orE (Inl x, m) e = (Inl e, m)"
  "orE (Inr b, m) e = (Inr b, m)"
  by (simp_all add: thenS_def orS_def bindS_def bindE_def thenE_def orE_def)

text \<open>
  The invariant rules: a property of the state that every part keeps is kept by the whole,
  whichever branch is taken.
\<close>

lemma thenS_inv: "P (snd r) \<Longrightarrow> (\<And>m. P m \<Longrightarrow> P (snd (f m))) \<Longrightarrow> P (snd (thenS r f))"
  by (simp add: thenS_def)

lemma orS_inv: "P (snd r) \<Longrightarrow> P (snd (orS r e))"
  by (simp add: orS_def)

lemma bindS_inv: "P (snd r) \<Longrightarrow> (\<And>a m. P m \<Longrightarrow> P (snd (f a m))) \<Longrightarrow> P (snd (bindS r f))"
  by (simp add: bindS_def split: sum.splits)

lemma bindE_inv: "P (snd r) \<Longrightarrow> (\<And>a m. P m \<Longrightarrow> P (snd (f a m))) \<Longrightarrow> P (snd (bindE r f))"
  by (simp add: bindE_def split: sum.splits)

lemma thenE_inv: "P (snd r) \<Longrightarrow> (\<And>m. P m \<Longrightarrow> P (snd (f m))) \<Longrightarrow> P (snd (thenE r f))"
  by (simp add: thenE_def)

lemma orE_inv: "P (snd r) \<Longrightarrow> P (snd (orE r e))"
  by (simp add: orE_def split: sum.splits)

lemma snd_orS [simp]: "snd (orS r e) = snd r"
  by (simp add: orS_def)

lemma snd_orE [simp]: "snd (orE r e) = snd r"
  by (simp add: orE_def split: sum.splits)

lemma fst_orS: "fst (orS r e) = OK \<longleftrightarrow> fst r = OK \<or> e = OK"
  by (simp add: orS_def)

lemmas early_inv = thenS_inv bindS_inv bindE_inv thenE_inv

section \<open>The geometry of a volume\<close>

text \<open>
  The regions that the superblock lays out, in the order \<open>smkfs_mkfs\<close> gives them: superblock,
  journal, bitmap, master record table, data. \<open>geom\<close> states that they do not overlap, that
  the bitmap has a bit for every data block and the table 256 entries per block, and that the
  volume lies within the blocks that the driver can write.
\<close>

definition geom :: "superblock \<Rightarrow> bool" where
  "geom s \<longleftrightarrow>
     0 < unat (sb_journal_start s) \<and>
     unat (sb_journal_start s) + unat (sb_journal_length s) \<le> unat (sb_bitmap_start s) \<and>
     unat (sb_bitmap_start s) + unat (sb_bitmap_length s) \<le> unat (sb_mrt_start s) \<and>
     unat (sb_mrt_start s) + unat (sb_mrt_length s) \<le> unat (sb_data_start s) \<and>
     unat (sb_data_start s) \<le> unat (sb_total_blocks s) \<and>
     unat (sb_total_blocks s) \<le> 0x2000000 \<and>
     unat (sb_total_blocks s) - unat (sb_data_start s) \<le> unat (sb_bitmap_length s) * 32768 \<and>
     unat (sb_mrt_capacity s) = unat (sb_mrt_length s) * 256"

definition ring_ok :: "superblock \<Rightarrow> bool" where
  "ring_ok s \<longleftrightarrow> sb_journal_head s < sb_journal_length s \<and> sb_journal_tail s < sb_journal_length s"

definition vol_ok :: "mount \<Rightarrow> bool" where
  "vol_ok m \<longleftrightarrow> cache_inv m \<and> wf_superblock (sb m) \<and> geom (sb m) \<and> ring_ok (sb m)"

lemma vol_okD:
  assumes "vol_ok m"
  shows "cache_inv m" "wf_superblock (sb m)" "geom (sb m)" "ring_ok (sb m)"
  using assms by (simp_all add: vol_ok_def)

lemma geom_frame [simp]:
  "geom (s\<lparr> sb_header := x0 \<rparr>) = geom s"
  "geom (s\<lparr> sb_free_blocks := x1 \<rparr>) = geom s"
  "geom (s\<lparr> sb_record_count := x1 \<rparr>) = geom s"
  "geom (s\<lparr> sb_next_record_id := x1 \<rparr>) = geom s"
  "geom (s\<lparr> sb_mrt_free_count := x1 \<rparr>) = geom s"
  "geom (s\<lparr> sb_root_record_id := x1 \<rparr>) = geom s"
  "geom (s\<lparr> sb_journal_head := x1 \<rparr>) = geom s"
  "geom (s\<lparr> sb_journal_tail := x1 \<rparr>) = geom s"
  "geom (s\<lparr> sb_journal_sequence := x1 \<rparr>) = geom s"
  "geom (s\<lparr> sb_flags := x2 \<rparr>) = geom s"
  "geom (s\<lparr> sb_last_mount_time := x1 \<rparr>) = geom s"
  "geom (s\<lparr> sb_mount_count := x2 \<rparr>) = geom s"
  by (simp_all add: geom_def)

lemma ring_ok_frame [simp]:
  "ring_ok (s\<lparr> sb_header := x0 \<rparr>) = ring_ok s"
  "ring_ok (s\<lparr> sb_free_blocks := x1 \<rparr>) = ring_ok s"
  "ring_ok (s\<lparr> sb_record_count := x1 \<rparr>) = ring_ok s"
  "ring_ok (s\<lparr> sb_next_record_id := x1 \<rparr>) = ring_ok s"
  "ring_ok (s\<lparr> sb_mrt_free_count := x1 \<rparr>) = ring_ok s"
  "ring_ok (s\<lparr> sb_root_record_id := x1 \<rparr>) = ring_ok s"
  "ring_ok (s\<lparr> sb_journal_sequence := x1 \<rparr>) = ring_ok s"
  "ring_ok (s\<lparr> sb_flags := x2 \<rparr>) = ring_ok s"
  "ring_ok (s\<lparr> sb_last_mount_time := x1 \<rparr>) = ring_ok s"
  "ring_ok (s\<lparr> sb_mount_count := x2 \<rparr>) = ring_ok s"
  by (simp_all add: ring_ok_def)

lemma wf_superblock_frame [simp]:
  "wf_superblock (s\<lparr> sb_free_blocks := x1 \<rparr>) = wf_superblock s"
  "wf_superblock (s\<lparr> sb_record_count := x1 \<rparr>) = wf_superblock s"
  "wf_superblock (s\<lparr> sb_next_record_id := x1 \<rparr>) = wf_superblock s"
  "wf_superblock (s\<lparr> sb_mrt_free_count := x1 \<rparr>) = wf_superblock s"
  "wf_superblock (s\<lparr> sb_root_record_id := x1 \<rparr>) = wf_superblock s"
  "wf_superblock (s\<lparr> sb_journal_head := x1 \<rparr>) = wf_superblock s"
  "wf_superblock (s\<lparr> sb_journal_tail := x1 \<rparr>) = wf_superblock s"
  "wf_superblock (s\<lparr> sb_journal_sequence := x1 \<rparr>) = wf_superblock s"
  "wf_superblock (s\<lparr> sb_flags := x2 \<rparr>) = wf_superblock s"
  "wf_superblock (s\<lparr> sb_last_mount_time := x1 \<rparr>) = wf_superblock s"
  "wf_superblock (s\<lparr> sb_mount_count := x2 \<rparr>) = wf_superblock s"
  by (simp_all add: wf_superblock_def)

lemma vol_ok_frame [simp]:
  "vol_ok (m\<lparr> mounted := x0 \<rparr>) = vol_ok m"
  "vol_ok (m\<lparr> journal_next_sequence := x2 \<rparr>) = vol_ok m"
  "vol_ok (m\<lparr> journal_in_transaction := x3 \<rparr>) = vol_ok m"
  "vol_ok (m\<lparr> journal_write_pos := x4 \<rparr>) = vol_ok m"
  "vol_ok (m\<lparr> fd_table := x5 \<rparr>) = vol_ok m"
  "vol_ok (m\<lparr> regions := x6 \<rparr>) = vol_ok m"
  "vol_ok (m\<lparr> region_count := x7 \<rparr>) = vol_ok m"
  "vol_ok (m\<lparr> alloc_hint_region := x8 \<rparr>) = vol_ok m"
  by (simp_all add: vol_ok_def)

lemma vol_ok_sb:
  "sb_sector_size s = sb_sector_size (sb m) \<Longrightarrow> wf_superblock s \<Longrightarrow> geom s \<Longrightarrow> ring_ok s \<Longrightarrow>
   cache_inv m \<Longrightarrow> vol_ok (m\<lparr> sb := s \<rparr>)"
  by (simp add: vol_ok_def)

text \<open>Every block of a region is one the driver can address, and regions are disjoint.\<close>

lemma geom_total: "geom s \<Longrightarrow> unat b < unat (sb_total_blocks s) \<Longrightarrow> blk_ok b"
  by (auto simp: geom_def blk_ok_unat)

lemma journal_block:
  assumes "geom s" "pos < sb_journal_length s"
  shows "unat (sb_journal_start s + pos) = unat (sb_journal_start s) + unat pos"
    and "blk_ok (sb_journal_start s + pos)"
    and "unat (sb_journal_start s + pos) < unat (sb_bitmap_start s)"
    and "sb_journal_start s + pos \<noteq> 0"
proof -
  have p: "unat pos < unat (sb_journal_length s)" using assms(2) by (simp add: word_less_nat_alt)
  show u: "unat (sb_journal_start s + pos) = unat (sb_journal_start s) + unat pos"
    using assms(1) p by (intro unat_add_small) (simp add: geom_def)
  show "blk_ok (sb_journal_start s + pos)"
    using assms(1) p u by (auto simp: geom_def blk_ok_unat)
  show "unat (sb_journal_start s + pos) < unat (sb_bitmap_start s)"
    using assms(1) p u by (auto simp: geom_def)
  show "sb_journal_start s + pos \<noteq> 0"
    using assms(1) u by (metis add_is_0 geom_def less_nat_zero_code unat_0)
qed

lemma bitmap_block:
  assumes "geom s" "unat i < unat (sb_bitmap_length s)"
  shows "unat (sb_bitmap_start s + i) = unat (sb_bitmap_start s) + unat i"
    and "blk_ok (sb_bitmap_start s + i)"
    and "unat (sb_bitmap_start s + i) < unat (sb_mrt_start s)"
proof -
  show u: "unat (sb_bitmap_start s + i) = unat (sb_bitmap_start s) + unat i"
    using assms by (intro unat_add_small) (simp add: geom_def)
  show "blk_ok (sb_bitmap_start s + i)"
    using assms u by (auto simp: geom_def blk_ok_unat)
  show "unat (sb_bitmap_start s + i) < unat (sb_mrt_start s)"
    using assms u by (auto simp: geom_def)
qed

lemma mrt_block:
  assumes "geom s" "unat i < unat (sb_mrt_length s)"
  shows "unat (sb_mrt_start s + i) = unat (sb_mrt_start s) + unat i"
    and "blk_ok (sb_mrt_start s + i)"
    and "unat (sb_mrt_start s + i) < unat (sb_data_start s)"
proof -
  show u: "unat (sb_mrt_start s + i) = unat (sb_mrt_start s) + unat i"
    using assms by (intro unat_add_small) (simp add: geom_def)
  show "blk_ok (sb_mrt_start s + i)"
    using assms u by (auto simp: geom_def blk_ok_unat)
  show "unat (sb_mrt_start s + i) < unat (sb_data_start s)"
    using assms u by (auto simp: geom_def)
qed

lemma blk_ok_0 [simp]: "blk_ok 0"
  by (simp add: blk_ok_def)

lemma vol_read_block: "vol_ok m \<Longrightarrow> blk_ok b \<Longrightarrow> vol_ok (snd (read_block m b))"
  using cache.rd_inv by (simp add: vol_ok_def)

lemma vol_write_block:
  "vol_ok m \<Longrightarrow> blk_ok b \<Longrightarrow> length v = 4096 \<Longrightarrow> vol_ok (snd (write_block m b v))"
  using cache.wr_inv by (simp add: vol_ok_def)

lemma vol_flush: "vol_ok m \<Longrightarrow> vol_ok (snd (block_cache_flush m))"
  using block_cache_flush_spec(1) [of m "fst (block_cache_flush m)" "snd (block_cache_flush m)"]
  by (simp add: vol_ok_def)

end
