(* ===== verification/Outcome.thy ===== *)
theory Outcome
  imports Effects
begin

text \<open>
  The combinators of \<open>Effects\<close> for operations that may not come back: \<open>None\<close> stands for a
  loop that does not end and for behaviour that C leaves undefined, such as a read behind the
  end of a buffer. Everything above the attribute buffers is of this kind.
\<close>

definition thenO :: "(status \<times> 'm) option \<Rightarrow> ('m \<Rightarrow> (status \<times> 'm) option) \<Rightarrow> (status \<times> 'm) option" where
  "thenO r f = Option.bind r (\<lambda>(st, m). if st = OK then f m else Some (st, m))"

definition bindO :: "((status + 'a) \<times> 'm) option \<Rightarrow> ('a \<Rightarrow> 'm \<Rightarrow> (status \<times> 'm) option) \<Rightarrow> (status \<times> 'm) option" where
  "bindO r f = Option.bind r (\<lambda>(x, m). case x of Inl e \<Rightarrow> Some (e, m) | Inr a \<Rightarrow> f a m)"

definition bindX ::
  "((status + 'a) \<times> 'm) option \<Rightarrow> ('a \<Rightarrow> 'm \<Rightarrow> ((status + 'b) \<times> 'm) option) \<Rightarrow> ((status + 'b) \<times> 'm) option" where
  "bindX r f = Option.bind r (\<lambda>(x, m). case x of Inl e \<Rightarrow> Some (Inl e, m) | Inr a \<Rightarrow> f a m)"

definition thenX ::
  "(status \<times> 'm) option \<Rightarrow> ('m \<Rightarrow> ((status + 'b) \<times> 'm) option) \<Rightarrow> ((status + 'b) \<times> 'm) option" where
  "thenX r f = Option.bind r (\<lambda>(st, m). if st = OK then f m else Some (Inl st, m))"

text \<open>The status replaced (\<open>otherO\<close>, \<open>otherX\<close>), and the status ignored (\<open>alwaysO\<close>).\<close>

definition otherO :: "(status \<times> 'm) option \<Rightarrow> status \<Rightarrow> (status \<times> 'm) option" where
  "otherO r e = map_option (\<lambda>r. orS r e) r"

definition otherX :: "((status + 'a) \<times> 'm) option \<Rightarrow> status \<Rightarrow> ((status + 'a) \<times> 'm) option" where
  "otherX r e = map_option (\<lambda>r. orE r e) r"

definition alwaysO :: "(status \<times> 'm) option \<Rightarrow> ('m \<Rightarrow> 'b option) \<Rightarrow> 'b option" where
  "alwaysO r f = Option.bind r (\<lambda>(st, m). f m)"

lemma outcome_simps [simp]:
  "thenO (Some (OK, m)) f = f m"
  "st \<noteq> OK \<Longrightarrow> thenO (Some (st, m)) f = Some (st, m)"
  "thenO None f = None"
  "bindO (Some (Inl e, m)) g = Some (e, m)"
  "bindO (Some (Inr a, m)) g = g a m"
  "bindO None g = None"
  "bindX (Some (Inl e, m)) h = Some (Inl e, m)"
  "bindX (Some (Inr a, m)) h = h a m"
  "bindX None h = None"
  "thenX (Some (OK, m)) k = k m"
  "st \<noteq> OK \<Longrightarrow> thenX (Some (st, m)) k = Some (Inl st, m)"
  "thenX None k = None"
  "otherO (Some r) e = Some (orS r e)" "otherO None e = None"
  "otherX (Some q) e = Some (orE q e)" "otherX None e = None"
  "alwaysO (Some (st, m)) l = l m" "alwaysO None l = None"
  by (simp_all add: thenO_def bindO_def bindX_def thenX_def otherO_def otherX_def alwaysO_def)

end
