(* ===== verification/Journal.thy ===== *)
theory Journal
  imports Effects
begin

text \<open>
  The journal writer of \<^verbatim>\<open>fs/smkfs/journal.c\<close>: a ring of \<open>sb_journal_length\<close> blocks, one
  entry per block, \<open>sb_journal_head\<close> the next slot to write and \<open>sb_journal_tail\<close> the oldest
  entry that is not reclaimed. Recovery (\<open>journal_replay\<close>) is in the theory that follows
  the bitmap, which it calls.
\<close>

section \<open>The ring\<close>

definition journal_next_pos :: "mount \<Rightarrow> u64 \<Rightarrow> u64" where
  "journal_next_pos m pos = (let p = pos + 1 in if p \<ge> sb_journal_length (sb m) then 0 else p)"

definition journal_is_full :: "mount \<Rightarrow> bool" where
  "journal_is_full m = (journal_next_pos m (sb_journal_head (sb m)) = sb_journal_tail (sb m))"

section \<open>Writing entries\<close>

text \<open>
  The block that \<open>journal_write_entry\<close> builds in its zeroed buffer. \<open>payload\<close> is \<open>None\<close> for
  the null pointer.
\<close>

definition journal_entry_block ::
  "u64 \<Rightarrow> u32 \<Rightarrow> u64 \<Rightarrow> u32 \<Rightarrow> u64 \<Rightarrow> bytes option \<Rightarrow> bytes" where
  "journal_entry_block seq operation target data_length record_id payload =
     (let total_len = 64 + data_length;
          buf = replicate SMKFS_BLOCK_SIZE 0;
          ent = (dec_journal_entry buf)
            \<lparr> j_header := header_init (j_header (dec_journal_entry buf)) SMKFS_ST_JOURNAL_ENT total_len 0,
              j_sequence := seq, j_target_block := target, j_operation := operation,
              j_data_length := data_length, j_record_id := record_id \<rparr>;
          buf1 = patch 0 (enc_journal_entry ent) buf;
          buf2 = (case payload of
                    Some p \<Rightarrow> if data_length > 0 then patch 64 (take (unat data_length) p) buf1 else buf1
                  | None \<Rightarrow> buf1)
      in header_checksum_update buf2 (unat total_len))"

definition journal_write_entry ::
  "mount \<Rightarrow> u32 \<Rightarrow> u64 \<Rightarrow> u32 \<Rightarrow> u64 \<Rightarrow> bytes option \<Rightarrow> status \<times> mount" where
  "journal_write_entry m operation target data_length record_id payload =
     (if \<not> journal_in_transaction m then (ERR_JOURNAL, m)
      else if journal_is_full m then (ERR_NOSPC, m)
      else if unat data_length > SMKFS_BLOCK_SIZE - 64 then (ERR_TOO_BIG, m)
      else if \<not> heap_ok m then (ERR_NOMEM, m)
      else
        let buf = journal_entry_block (journal_next_sequence m) operation target data_length
                    record_id payload;
            m1 = m\<lparr> journal_next_sequence := journal_next_sequence m + 1 \<rparr>
        in thenS (orS (write_block m1 (sb_journal_start (sb m1) + sb_journal_head (sb m1)) buf) ERR_IO)
             (\<lambda>m2.
                let head = journal_next_pos m2 (sb_journal_head (sb m2))
                in (OK, m2\<lparr> sb := (sb m2)\<lparr> sb_journal_head := head \<rparr>, journal_write_pos := head \<rparr>)))"

text \<open>\<open>journal_log_write\<close> truncates its length to 32 bits; \<open>old_data\<close> is ignored.\<close>

definition journal_log_write ::
  "mount \<Rightarrow> u64 \<Rightarrow> bytes option \<Rightarrow> bytes option \<Rightarrow> u64 \<Rightarrow> status \<times> mount" where
  "journal_log_write m block old_data new_data len =
     (if len > 0 \<and> new_data = None then (ERR_INVAL, m)
      else journal_write_entry m SMKFS_JOP_WRITE block (ucast len) 0 new_data)"

definition journal_log_alloc :: "mount \<Rightarrow> u64 \<Rightarrow> u32 \<Rightarrow> status \<times> mount" where
  "journal_log_alloc m block count = journal_write_entry m SMKFS_JOP_ALLOC block count 0 None"

definition journal_log_free :: "mount \<Rightarrow> u64 \<Rightarrow> u32 \<Rightarrow> status \<times> mount" where
  "journal_log_free m block count = journal_write_entry m SMKFS_JOP_FREE block count 0 None"

definition journal_log_mrt_update :: "mount \<Rightarrow> u64 \<Rightarrow> mrt_entry \<Rightarrow> status \<times> mount" where
  "journal_log_mrt_update m record_id entry =
     journal_write_entry m SMKFS_JOP_MRT_UPDATE 0 16 record_id (Some (enc_mrt_entry entry))"

section \<open>Transactions\<close>

text \<open>The block that holds the in-memory superblock, checksum included.\<close>

definition superblock_block :: "superblock \<Rightarrow> bytes" where
  "superblock_block s =
     header_checksum_update (patch 0 (enc_superblock s) (replicate SMKFS_BLOCK_SIZE 0)) 320"

definition journal_persist_superblock :: "mount \<Rightarrow> status \<times> mount" where
  "journal_persist_superblock m =
     thenS (orS (write_block m 0 (superblock_block (sb m))) ERR_IO) block_cache_flush"

definition journal_commit :: "mount \<Rightarrow> status \<times> mount" where
  "journal_commit m =
     (if \<not> journal_in_transaction m then (ERR_JOURNAL, m)
      else thenS (journal_write_entry m SMKFS_JOP_COMMIT 0 0 0 None) (\<lambda>m1.
        thenS (block_cache_flush
                 (m1\<lparr> sb := (sb m1)\<lparr> sb_journal_sequence := journal_next_sequence m1 \<rparr>,
                      journal_in_transaction := False \<rparr>)) (\<lambda>m2.
        thenS (journal_persist_superblock m2) (\<lambda>m3.
        journal_persist_superblock
          (m3\<lparr> sb := (sb m3)\<lparr> sb_journal_tail := sb_journal_head (sb m3) \<rparr>,
               journal_write_pos := sb_journal_head (sb m3) \<rparr>)))))"

definition journal_checkpoint :: "mount \<Rightarrow> status \<times> mount" where
  "journal_checkpoint m =
     (if journal_in_transaction m then (ERR_JOURNAL, m)
      else thenS (block_cache_flush m) (\<lambda>m1.
        let m2 = (if sb_journal_head (sb m1) \<noteq> sb_journal_tail (sb m1)
                  then m1\<lparr> sb := (sb m1)\<lparr> sb_journal_tail := sb_journal_head (sb m1) \<rparr>,
                           journal_write_pos := sb_journal_head (sb m1) \<rparr>
                  else m1);
            w = journal_write_entry (m2\<lparr> journal_in_transaction := True \<rparr>) SMKFS_JOP_CHECKPOINT 0 0 0 None;
            m3 = (snd w)\<lparr> journal_in_transaction := False \<rparr>;
            m4 = (if fst w \<noteq> OK then m3
                  else m3\<lparr> sb := (sb m3)\<lparr> sb_journal_tail := sb_journal_head (sb m3),
                                           sb_journal_sequence := journal_next_sequence m3 \<rparr>,
                           journal_write_pos := sb_journal_head (sb m3) \<rparr>)
        in journal_persist_superblock m4))"

definition journal_start_transaction :: "mount \<Rightarrow> status \<times> mount" where
  "journal_start_transaction m =
     (if journal_in_transaction m then (ERR_JOURNAL, m)
      else
        thenS (if sb_journal_head (sb m) \<noteq> sb_journal_tail (sb m)
               then orS (journal_checkpoint m) ERR_JOURNAL else (OK, m)) (\<lambda>m1.
        thenS (if journal_is_full m1
               then thenS (orS (journal_checkpoint m1) ERR_NOSPC)
                      (\<lambda>m2. if journal_is_full m2 then (ERR_NOSPC, m2) else (OK, m2))
               else (OK, m1)) (\<lambda>m2.
        (OK, m2\<lparr> journal_in_transaction := True \<rparr>))))"

definition journal_abort :: "mount \<Rightarrow> status \<times> mount" where
  "journal_abort m =
     (if \<not> journal_in_transaction m then (OK, m)
      else (OK, m\<lparr> journal_in_transaction := False \<rparr>))"

section \<open>The ring stays a ring\<close>

lemma le_word_zeros [simp]: "le_word (replicate n 0) = (0 :: 'a::len word)"
  by (induction n) simp_all

lemma next_pos_lt: "0 < sb_journal_length (sb m) \<Longrightarrow> journal_next_pos m pos < sb_journal_length (sb m)"
  by (auto simp: journal_next_pos_def Let_def not_le)

lemma unat_next_pos:
  assumes "pos < sb_journal_length (sb m)"
  shows "unat (journal_next_pos m pos) = Suc (unat pos) mod unat (sb_journal_length (sb m))"
proof -
  have p: "unat pos < unat (sb_journal_length (sb m))" using assms by (simp add: word_less_nat_alt)
  moreover have "unat (sb_journal_length (sb m)) < 2 ^ 64"
    using unsigned_less [of "sb_journal_length (sb m)"] by simp
  ultimately have s: "unat (pos + 1) = Suc (unat pos)"
    using unat_add_small [of pos 1] by simp
  show ?thesis
    using p by (auto simp: journal_next_pos_def Let_def word_le_nat_alt s mod_Suc not_le
        intro: le_antisym)
qed

lemma ring_ok_pos: "ring_ok s \<Longrightarrow> 0 < sb_journal_length s"
  by (auto simp: ring_ok_def word_less_nat_alt)

lemma ring_ok_head [simp]:
  "ring_ok s \<Longrightarrow> h < sb_journal_length s \<Longrightarrow> ring_ok (s\<lparr> sb_journal_head := h \<rparr>)"
  "ring_ok s \<Longrightarrow> t < sb_journal_length s \<Longrightarrow> ring_ok (s\<lparr> sb_journal_tail := t \<rparr>)"
  by (simp_all add: ring_ok_def)

lemma vol_ok_head: "vol_ok m \<Longrightarrow> h < sb_journal_length (sb m) \<Longrightarrow> vol_ok (m\<lparr> sb := (sb m)\<lparr> sb_journal_head := h \<rparr> \<rparr>)"
  by (simp add: vol_ok_def)

lemma vol_ok_tail: "vol_ok m \<Longrightarrow> h < sb_journal_length (sb m) \<Longrightarrow> vol_ok (m\<lparr> sb := (sb m)\<lparr> sb_journal_tail := h \<rparr> \<rparr>)"
  by (simp add: vol_ok_def)

lemma vol_ok_seq: "vol_ok (m\<lparr> sb := (sb m)\<lparr> sb_journal_sequence := h \<rparr> \<rparr>) = vol_ok m"
  by (simp add: vol_ok_def)

lemma head_lt: "vol_ok m \<Longrightarrow> sb_journal_head (sb m) < sb_journal_length (sb m)"
  by (simp add: vol_ok_def ring_ok_def)

section \<open>What an entry's block holds\<close>

lemma wf_header_init [simp]: "wf_header h \<Longrightarrow> wf_header (header_init h ty len fl)"
  by (simp add: wf_header_def header_init_def SMKFS_MAGIC_def)

lemma header_validate_init [simp]: "header_validate (header_init h ty len fl) ty = OK"
  by (simp add: header_validate_def header_init_def)

text \<open>The checksum field is the only part of a decoded structure that an update changes.\<close>

lemma slice_update_other:
  "20 \<le> length buf \<Longrightarrow> a + n \<le> 16 \<or> 20 \<le> a \<Longrightarrow> slice a n (header_checksum_update buf len) = slice a n buf"
  by (simp add: header_checksum_update_def Let_def slice_patch_other)

lemma dec_header_update:
  "32 \<le> length buf \<Longrightarrow> dec_header (header_checksum_update buf len) =
     (dec_header buf)\<lparr> h_checksum := checksum_compute (patch 16 (le_bytes 4 (0 :: u32)) buf) len \<rparr>"
  using h_checksum_update [of buf len]
  by (simp add: dec_header_def slice_update_other)

lemma header_validate_checksum [simp]:
  "header_validate (h\<lparr> h_checksum := c \<rparr>) ty = header_validate h ty"
  by (simp add: header_validate_def)

text \<open>What a caller may pass: a count that fits the entry, and a buffer that holds it.\<close>

definition loggable :: "u32 \<Rightarrow> bytes option \<Rightarrow> bool" where
  "loggable dlen payload \<longleftrightarrow> (\<forall>p. payload = Some p \<longrightarrow> unat dlen \<le> length p)"

lemma loggable_simps [simp]:
  "loggable n None" "loggable n (Some p) \<longleftrightarrow> unat n \<le> length p"
  by (simp_all add: loggable_def)

lemma length_journal_entry_block:
  assumes "unat dlen \<le> 4032" "loggable dlen payload"
  shows "length (journal_entry_block seq op target dlen rid payload) = 4096"
proof -
  let ?e = "dec_journal_entry (replicate SMKFS_BLOCK_SIZE 0)"
  have wf: "wf_journal_entry ?e" by simp
  then have "wf_header (j_header ?e)" by (simp add: wf_journal_entry_def)
  then show ?thesis
    using assms by (auto simp: loggable_def journal_entry_block_def Let_def wf_journal_entry_def split: option.splits)
qed

text \<open>
  The entry that a reader finds: its header validates and verifies, its fields are the ones
  that were logged and its payload follows it.
\<close>

lemma journal_entry_block_read:
  fixes dlen op :: u32 and seq target rid :: u64
  assumes "unat dlen \<le> 4032" "loggable dlen payload"
  defines "buf \<equiv> journal_entry_block seq op target dlen rid payload"
  defines "ent \<equiv> dec_journal_entry buf"
  shows "header_validate (j_header ent) SMKFS_ST_JOURNAL_ENT = OK"
    and "header_checksum_verify (j_header ent) buf (unat (h_length (j_header ent))) = OK"
    and "j_sequence ent = seq" "j_target_block ent = target" "j_operation ent = op"
    and "j_data_length ent = dlen" "j_record_id ent = rid"
    and "payload = Some p \<Longrightarrow> slice 64 (unat dlen) buf = take (unat dlen) p"
proof -
  let ?z = "replicate SMKFS_BLOCK_SIZE (0 :: u8)"
  let ?zent = "dec_journal_entry ?z"
  define e where "e = ?zent
            \<lparr> j_header := header_init (j_header ?zent) SMKFS_ST_JOURNAL_ENT (64 + dlen) 0,
              j_sequence := seq, j_target_block := target, j_operation := op,
              j_data_length := dlen, j_record_id := rid \<rparr>"
  have "wf_journal_entry ?zent" by simp
  then have wf: "wf_journal_entry e" by (simp add: e_def wf_journal_entry_def)
  define tail where "tail = (case payload of Some p \<Rightarrow> if dlen > 0 then take (unat dlen) p else [] | None \<Rightarrow> [])"
  have lt: "length tail \<le> 4032" using assms(1,2) by (auto simp: tail_def loggable_def split: option.splits)
  define buf2 where "buf2 = enc_journal_entry e @ patch 0 tail (replicate 4032 0)"
  have l2: "length buf2 = 4096" using wf lt by (simp add: buf2_def)
  have b1: "patch 0 (enc_journal_entry e) ?z = enc_journal_entry e @ replicate 4032 0"
    using wf by (simp add: patch_def)
  have "patch 64 tail (enc_journal_entry e @ replicate 4032 0) = buf2"
    using wf by (simp add: patch_def buf2_def)
  then have buf: "buf = header_checksum_update buf2 (unat (64 + dlen))"
    using wf unfolding buf_def journal_entry_block_def Let_def e_def [symmetric] b1
    by (auto simp: tail_def buf2_def split: option.splits)
  have u: "unat (64 + dlen) = 64 + unat dlen" using assms(1) by (simp add: unat_add_small)
  have e2: "dec_journal_entry buf2 = e" using wf by (simp add: buf2_def)
  have hd2: "dec_header buf2 = j_header e"
    using e2 by (metis dec_journal_entry_def journal_entry.select_convs(1) l2
        dec_header_take slice_0 order_refl)
  have hb: "dec_header buf = (j_header e)\<lparr> h_checksum := checksum_compute (patch 16 (le_bytes 4 (0 :: u32)) buf2) (unat (64 + dlen)) \<rparr>"
    using dec_header_update [of buf2 "unat (64 + dlen)"] l2 hd2 buf by simp
  have ent: "ent = e\<lparr> j_header := dec_header buf \<rparr>"
    unfolding ent_def e2 [symmetric] using l2
    by (simp add: dec_journal_entry_def buf slice_update_other slice_0)
  show "header_validate (j_header ent) SMKFS_ST_JOURNAL_ENT = OK"
    by (simp add: ent hb) (simp add: e_def)
  have len: "h_length (j_header ent) = 64 + dlen"
    by (simp add: ent hb) (simp add: e_def header_init_def)
  show "header_checksum_verify (j_header ent) buf (unat (h_length (j_header ent))) = OK"
    unfolding len using header_update_verify [of "unat (64 + dlen)" buf2] l2 u assms(1)
    by (simp add: ent buf)
  show "j_sequence ent = seq" "j_target_block ent = target" "j_operation ent = op"
    "j_data_length ent = dlen" "j_record_id ent = rid"
    by (simp_all add: ent e_def)
  show "slice 64 (unat dlen) buf = take (unat dlen) p" if p: "payload = Some p"
  proof -
    have "slice 64 (unat dlen) buf = slice 64 (unat dlen) buf2"
      using l2 by (simp add: buf slice_update_other)
    also have "\<dots> = slice 0 (unat dlen) (patch 0 tail (replicate 4032 0))"
      using wf by (simp add: buf2_def slice_append2)
    also have "\<dots> = take (unat dlen) p"
      using assms(1,2) p lt by (auto simp: tail_def loggable_def word_gt_0 unat_eq_zero slice_def patch_def)
    finally show ?thesis .
  qed
qed


section \<open>Writing one entry\<close>

lemma journal_write_entry_fields [simp]:
  "drive_num (snd (journal_write_entry m op t dl r p)) = drive_num m"
  "mounted (snd (journal_write_entry m op t dl r p)) = mounted m"
  "fd_table (snd (journal_write_entry m op t dl r p)) = fd_table m"
  "regions (snd (journal_write_entry m op t dl r p)) = regions m"
  "region_count (snd (journal_write_entry m op t dl r p)) = region_count m"
  "alloc_hint_region (snd (journal_write_entry m op t dl r p)) = alloc_hint_region m"
  "heap_ok (snd (journal_write_entry m op t dl r p)) = heap_ok m"
  "journal_in_transaction (snd (journal_write_entry m op t dl r p)) = journal_in_transaction m"
  by (simp_all add: journal_write_entry_def thenS_def Let_def)

lemma journal_write_entry_sb:
  "sb (snd (journal_write_entry m op t dl r p)) =
     (if fst (journal_write_entry m op t dl r p) = OK
      then (sb m)\<lparr> sb_journal_head := journal_next_pos m (sb_journal_head (sb m)) \<rparr> else sb m)"
  by (simp add: journal_write_entry_def thenS_def orS_def Let_def journal_next_pos_def)

lemma journal_write_entry_spec:
  assumes "vol_ok m" "loggable dl p"
    and "journal_write_entry m op t dl r p = (st, m')"
  shows "vol_ok m'"
    and "blk_ok c \<Longrightarrow> block_view m' c =
      (if st = OK \<and> c = sb_journal_start (sb m) + sb_journal_head (sb m)
       then journal_entry_block (journal_next_sequence m) op t dl r p else block_view m c)"
    and "st = OK \<Longrightarrow> journal_in_transaction m \<and> \<not> journal_is_full m \<and> unat dl \<le> 4032 \<and> heap_ok m"
proof -
  let ?b = "sb_journal_start (sb m) + sb_journal_head (sb m)"
  let ?buf = "journal_entry_block (journal_next_sequence m) op t dl r p"
  let ?m1 = "m\<lparr> journal_next_sequence := journal_next_sequence m + 1 \<rparr>"
  let ?w = "write_block ?m1 ?b ?buf"
  have b: "blk_ok ?b" using journal_block(2) vol_okD(3) head_lt assms(1) by blast
  have v1: "vol_ok ?m1" using assms(1) by simp
  then have i1: "cache_inv ?m1" by (rule vol_okD)
  have "vol_ok m' \<and> (blk_ok c \<longrightarrow> block_view m' c = (if st = OK \<and> c = ?b then ?buf else block_view m c))
     \<and> (st = OK \<longrightarrow> journal_in_transaction m \<and> \<not> journal_is_full m \<and> unat dl \<le> 4032 \<and> heap_ok m)"
    for c
  proof (cases "journal_in_transaction m \<and> \<not> journal_is_full m \<and> unat dl \<le> 4032 \<and> heap_ok m")
    case False
    then show ?thesis using assms(1,3) by (auto simp: journal_write_entry_def split: if_splits)
  next
    case True
    then have len: "length ?buf = 4096"
      using assms(2) by (intro length_journal_entry_block) simp_all
    have W: "vol_ok (snd ?w)" "fst ?w = OK \<or> fst ?w = ERR_IO"
      "blk_ok c \<Longrightarrow> block_view (snd ?w) c = (if fst ?w = OK \<and> c = ?b then ?buf else block_view m c)"
      using vol_write_block [OF v1 b len] cache.wr_status [OF i1 b len] cache.wr_view [OF i1 b _ len, of c]
      by simp_all
    have lt: "journal_next_pos (snd ?w) (sb_journal_head (sb m)) < sb_journal_length (sb m)"
      using next_pos_lt [of "snd ?w"] vol_okD(4) [OF assms(1)] ring_ok_pos by simp
    have "(st, m') = thenS (orS ?w ERR_IO) (\<lambda>m2.
                let head = journal_next_pos m2 (sb_journal_head (sb m2))
                in (OK, m2\<lparr> sb := (sb m2)\<lparr> sb_journal_head := head \<rparr>, journal_write_pos := head \<rparr>))"
      using True assms(3) by (simp add: journal_write_entry_def Let_def)
    then show ?thesis
      using W True lt vol_ok_head [OF W(1), of "journal_next_pos (snd ?w) (sb_journal_head (sb m))"]
      by (auto simp: thenS_def orS_def Let_def)
  qed
  then show "vol_ok m'"
    and "blk_ok c \<Longrightarrow> block_view m' c = (if st = OK \<and> c = ?b then ?buf else block_view m c)"
    and "st = OK \<Longrightarrow> journal_in_transaction m \<and> \<not> journal_is_full m \<and> unat dl \<le> 4032 \<and> heap_ok m"
    by blast+
qed

text \<open>A volume in working order: a drive without failing sectors, and memory to be had.\<close>

definition sound :: "mount \<Rightarrow> bool" where
  "sound m \<longleftrightarrow> vol_ok m \<and> healthy m \<and> heap_ok m"

lemma soundD: assumes "sound m" shows "vol_ok m" "healthy m" "heap_ok m" "cache_inv m"
  using assms by (simp_all add: sound_def vol_ok_def)

lemma sound_frame [simp]:
  "sound (m\<lparr> mounted := x0 \<rparr>) = sound m"
  "sound (m\<lparr> journal_next_sequence := x2 \<rparr>) = sound m"
  "sound (m\<lparr> journal_in_transaction := x3 \<rparr>) = sound m"
  "sound (m\<lparr> journal_write_pos := x4 \<rparr>) = sound m"
  "sound (m\<lparr> fd_table := x5 \<rparr>) = sound m"
  "sound (m\<lparr> regions := x6 \<rparr>) = sound m"
  "sound (m\<lparr> region_count := x7 \<rparr>) = sound m"
  "sound (m\<lparr> alloc_hint_region := x8 \<rparr>) = sound m"
  by (simp_all add: sound_def)

lemma sound_sb: "sound m \<Longrightarrow> vol_ok (m\<lparr> sb := s \<rparr>) \<Longrightarrow> sound (m\<lparr> sb := s \<rparr>)"
  by (simp add: sound_def)

lemma sound_write_block:
  assumes "sound m" "blk_ok b" "length v = 4096"
  shows "fst (write_block m b v) = OK" "sound (snd (write_block m b v))"
  using drive.good_wr [of m b v] vol_write_block [of m b v] assms by (simp_all add: sound_def vol_ok_def)

lemma sound_read_block:
  assumes "sound m" "blk_ok b"
  shows "fst (read_block m b) = Inr (block_view m b)" "sound (snd (read_block m b))"
  using drive.good_rd [of m b] vol_read_block [of m b] assms by (simp_all add: sound_def vol_ok_def)

lemma sound_flush:
  assumes "sound m"
  shows "fst (block_cache_flush m) = OK" "sound (snd (block_cache_flush m))"
  using block_cache_flush_healthy vol_flush [of m] healthy_cache_only [OF block_cache_flush_frame] assms
  by (simp_all add: sound_def vol_ok_def)

lemma journal_write_entry_sound:
  assumes "sound m" "loggable dl p"
  shows "sound (snd (journal_write_entry m op t dl r p))"
    and "fst (journal_write_entry m op t dl r p) =
      (if \<not> journal_in_transaction m then ERR_JOURNAL else if journal_is_full m then ERR_NOSPC
       else if unat dl > 4032 then ERR_TOO_BIG else OK)"
proof -
  let ?b = "sb_journal_start (sb m) + sb_journal_head (sb m)"
  let ?buf = "journal_entry_block (journal_next_sequence m) op t dl r p"
  let ?m1 = "m\<lparr> journal_next_sequence := journal_next_sequence m + 1 \<rparr>"
  have b: "blk_ok ?b" using journal_block(2) vol_okD(3) head_lt soundD(1) [OF assms(1)] by blast
  have m1: "sound ?m1" using assms(1) by simp
  have len: "unat dl \<le> 4032 \<Longrightarrow> length ?buf = 4096"
    using assms(2) by (intro length_journal_entry_block) simp_all
  note W = sound_write_block [OF m1 b len]
  show "fst (journal_write_entry m op t dl r p) =
      (if \<not> journal_in_transaction m then ERR_JOURNAL else if journal_is_full m then ERR_NOSPC
       else if unat dl > 4032 then ERR_TOO_BIG else OK)"
    using W(1) soundD(3) [OF assms(1)] by (simp add: journal_write_entry_def thenS_def orS_def Let_def)
  have "vol_ok (snd (journal_write_entry m op t dl r p))"
    using journal_write_entry_spec(1) [OF soundD(1) [OF assms(1)] assms(2)] by (metis prod.collapse)
  moreover have "healthy (snd (journal_write_entry m op t dl r p))"
    using W soundD [OF assms(1)]
    by (auto simp: journal_write_entry_def thenS_def orS_def Let_def sound_def)
  ultimately show "sound (snd (journal_write_entry m op t dl r p))"
    using soundD(3) [OF assms(1)] by (simp add: sound_def)
qed


section \<open>Publishing the superblock\<close>

lemma sb_header_dec: "sb_header (dec_superblock bs) = dec_header bs"
  by (simp add: dec_superblock_def slice_0)

lemma length_superblock_block [simp]: "wf_superblock s \<Longrightarrow> length (superblock_block s) = 4096"
  by (simp add: superblock_block_def)

text \<open>A reader of the published block gets the superblock back, with a checksum that verifies.\<close>

lemma superblock_block_read:
  assumes "wf_superblock s"
  defines "s' \<equiv> dec_superblock (superblock_block s)"
  shows "s' = s\<lparr> sb_header := (sb_header s)\<lparr> h_checksum := h_checksum (sb_header s') \<rparr> \<rparr>"
    and "header_checksum_verify (sb_header s') (superblock_block s) 320 = OK"
    and "header_validate (sb_header s') ty = header_validate (sb_header s) ty"
proof -
  let ?b = "patch 0 (enc_superblock s) (replicate SMKFS_BLOCK_SIZE 0)"
  have l: "length ?b = 4096" using assms(1) by simp
  have b: "?b = enc_superblock s @ replicate (4096 - 320) 0" using assms(1) by (simp add: patch_def)
  have d: "dec_superblock ?b = s" unfolding b using assms(1) by simp
  then have hd: "dec_header ?b = sb_header s" using sb_header_dec [of ?b] by simp
  have sh: "sb_header s' = (sb_header s)\<lparr> h_checksum := checksum_compute (patch 16 (le_bytes 4 (0 :: u32)) ?b) 320 \<rparr>"
    unfolding s'_def superblock_block_def
    using dec_header_update [of ?b 320] l hd by (simp add: dec_superblock_def slice_0)
  have hs: "sb_header s' = (sb_header s)\<lparr> h_checksum := h_checksum (sb_header s') \<rparr>"
    unfolding sh by simp
  have "s' = (dec_superblock ?b)\<lparr> sb_header := sb_header s' \<rparr>"
    unfolding s'_def superblock_block_def using l by (simp add: dec_superblock_def slice_update_other)
  also have "\<dots> = s\<lparr> sb_header := (sb_header s)\<lparr> h_checksum := h_checksum (sb_header s') \<rparr> \<rparr>"
    unfolding d by (rule arg_cong [OF hs, of "\<lambda>h. s\<lparr> sb_header := h \<rparr>"])
  finally show "s' = s\<lparr> sb_header := (sb_header s)\<lparr> h_checksum := h_checksum (sb_header s') \<rparr> \<rparr>" .
  show "header_validate (sb_header s') ty = header_validate (sb_header s) ty"
    unfolding sh by simp
  show "header_checksum_verify (sb_header s') (superblock_block s) 320 = OK"
    using header_update_verify [of 320 ?b] l
    by (simp add: s'_def superblock_block_def dec_superblock_def slice_0)
qed

lemma journal_persist_fields [simp]:
  "drive_num (snd (journal_persist_superblock m)) = drive_num m"
  "mounted (snd (journal_persist_superblock m)) = mounted m"
  "sb (snd (journal_persist_superblock m)) = sb m"
  "journal_next_sequence (snd (journal_persist_superblock m)) = journal_next_sequence m"
  "journal_in_transaction (snd (journal_persist_superblock m)) = journal_in_transaction m"
  "journal_write_pos (snd (journal_persist_superblock m)) = journal_write_pos m"
  "fd_table (snd (journal_persist_superblock m)) = fd_table m"
  "regions (snd (journal_persist_superblock m)) = regions m"
  "region_count (snd (journal_persist_superblock m)) = region_count m"
  "alloc_hint_region (snd (journal_persist_superblock m)) = alloc_hint_region m"
  "heap_ok (snd (journal_persist_superblock m)) = heap_ok m"
  by (simp_all add: journal_persist_superblock_def thenS_def)

lemma journal_persist_spec:
  assumes "vol_ok m" and "journal_persist_superblock m = (st, m')"
  shows "vol_ok m'" and "blk_ok c \<Longrightarrow> c \<noteq> 0 \<Longrightarrow> block_view m' c = block_view m c"
    and "st = OK \<Longrightarrow> blk_ok c \<Longrightarrow>
      disk_block m' c = (if c = 0 then superblock_block (sb m) else block_view m c) \<and>
      block_view m' c = disk_block m' c"
proof -
  let ?buf = "superblock_block (sb m)"
  let ?w = "write_block m 0 ?buf"
  let ?f = "block_cache_flush (snd ?w)"
  have len: "length ?buf = 4096" using vol_okD(2) [OF assms(1)] by simp
  note i = vol_okD(1) [OF assms(1)]
  have v1: "vol_ok (snd ?w)" using vol_write_block [OF assms(1) _ len] by simp
  note F = block_cache_flush_spec [OF vol_okD(1) [OF v1], of "fst ?f" "snd ?f", simplified]
  have f: "fst ?w \<noteq> OK \<Longrightarrow> (st, m') = (ERR_IO, snd ?w)" "fst ?w = OK \<Longrightarrow> (st, m') = ?f"
    using assms(2) by (auto simp: journal_persist_superblock_def thenS_def orS_def)
  show "vol_ok m'" using v1 vol_flush [OF v1] f by (cases "fst ?w = OK") (metis prod.sel(2))+
  note V = cache.wr_view [OF i blk_ok_0 _ len]
  show "block_view m' c = block_view m c" if "blk_ok c" "c \<noteq> 0"
    using f V [OF that(1)] F(4) [OF that(1)] that by (cases "fst ?w = OK") (metis prod.sel(2))+
  show "disk_block m' c = (if c = 0 then ?buf else block_view m c) \<and> block_view m' c = disk_block m' c"
    if "st = OK" "blk_ok c"
  proof -
    have w: "fst ?w = OK" using f that by (metis status.distinct(1) prod.inject)
    have "fst ?f = OK" "snd ?f = m'" using f(2) [OF w] that by (metis prod.sel)+
    then have fe: "?f = (OK, m')" by (simp add: prod_eq_iff)
    have "disk_block m' c = block_view (snd ?w) c" "block_view m' c = block_view (snd ?w) c"
      using block_cache_flush_spec(4,5) [OF vol_okD(1) [OF v1] fe] that(2) by simp_all
    then show ?thesis using V [OF that(2)] w by simp
  qed
qed

lemma journal_persist_sound:
  assumes "sound m"
  shows "fst (journal_persist_superblock m) = OK" "sound (snd (journal_persist_superblock m))"
proof -
  have len: "length (superblock_block (sb m)) = 4096" using vol_okD(2) [OF soundD(1) [OF assms]] by simp
  note W = sound_write_block [OF assms blk_ok_0 len]
  show "fst (journal_persist_superblock m) = OK" "sound (snd (journal_persist_superblock m))"
    using W sound_flush [OF W(2)] by (simp_all add: journal_persist_superblock_def thenS_def orS_def)
qed

section \<open>Commit\<close>

lemma vol_ok_head_tail:
  "vol_ok m \<Longrightarrow> vol_ok (m\<lparr> sb := (sb m)\<lparr> sb_journal_tail := sb_journal_head (sb m) \<rparr>, journal_write_pos := w \<rparr>)"
  using vol_ok_tail [of m "sb_journal_head (sb m)"] head_lt [of m] by simp

lemma journal_commit_spec:
  assumes "vol_ok m" and "journal_commit m = (st, m')"
  shows "vol_ok m'"
    and "blk_ok c \<Longrightarrow> c \<noteq> 0 \<Longrightarrow> c \<noteq> sb_journal_start (sb m) + sb_journal_head (sb m) \<Longrightarrow>
      block_view m' c = block_view m c"
    and "st = OK \<Longrightarrow> blk_ok c \<Longrightarrow> block_view m' c = disk_block m' c"
    and "st = OK \<Longrightarrow> disk_block m' 0 = superblock_block (sb m')"
    and "st = OK \<Longrightarrow> \<not> journal_in_transaction m' \<and> sb m' = (sb m)
      \<lparr> sb_journal_head := journal_next_pos m (sb_journal_head (sb m)),
        sb_journal_tail := journal_next_pos m (sb_journal_head (sb m)),
        sb_journal_sequence := journal_next_sequence m + 1 \<rparr>"
proof -
  let ?slot = "sb_journal_start (sb m) + sb_journal_head (sb m)"
  let ?w = "journal_write_entry m SMKFS_JOP_COMMIT 0 0 0 None"
  define m1 where "m1 = (snd ?w)\<lparr> sb := (sb (snd ?w))\<lparr> sb_journal_sequence := journal_next_sequence (snd ?w) \<rparr>,
                      journal_in_transaction := False \<rparr>"
  define f where "f = block_cache_flush m1"
  define p where "p = journal_persist_superblock (snd f)"
  define m3 where "m3 = (snd p)\<lparr> sb := (sb (snd p))\<lparr> sb_journal_tail := sb_journal_head (sb (snd p)) \<rparr>,
               journal_write_pos := sb_journal_head (sb (snd p)) \<rparr>"
  define q where "q = journal_persist_superblock m3"
  have eq: "(st, m') = (if \<not> journal_in_transaction m then (ERR_JOURNAL, m) else if fst ?w = OK then
      if fst f = OK then if fst p = OK then q else p else f else ?w)"
    using assms(2) unfolding journal_commit_def thenS_def m1_def f_def p_def m3_def q_def by (rule sym)
  have we: "?w = (fst ?w, snd ?w)" by simp
  note W = journal_write_entry_spec [OF assms(1) loggable_simps(1) we]
  have v1: "vol_ok m1" using W(1) by (simp add: m1_def vol_ok_seq)
  have fe: "block_cache_flush m1 = (fst f, snd f)" by (simp add: f_def)
  note F = block_cache_flush_spec [OF vol_okD(1) [OF v1] fe]
  have vf: "vol_ok (snd f)" using vol_flush [OF v1] by (simp add: f_def)
  have pe: "journal_persist_superblock (snd f) = (fst p, snd p)" by (simp add: p_def)
  note P = journal_persist_spec [OF vf pe]
  have v3: "vol_ok m3" unfolding m3_def by (rule vol_ok_head_tail [OF P(1)])
  have qe: "journal_persist_superblock m3 = (fst q, snd q)" by (simp add: q_def)
  note Q = journal_persist_spec [OF v3 qe]
  have "m' = snd (if \<not> journal_in_transaction m then (ERR_JOURNAL, m) else if fst ?w = OK then
      if fst f = OK then if fst p = OK then q else p else f else ?w)"
    using arg_cong [OF eq, of snd] by simp
  then have one: "m' = m \<or> m' = snd ?w \<or> m' = snd f \<or> m' = snd p \<or> m' = snd q"
    by (simp split: if_splits)
  show "vol_ok m'" using one assms(1) W(1) vf P(1) Q(1) by (elim disjE) simp_all
  have m1v: "block_view m1 = block_view (snd ?w)" by (simp add: m1_def)
  have m3v: "block_view m3 = block_view (snd p)" by (simp add: m3_def)
  show "block_view m' c = block_view m c" if c: "blk_ok c" "c \<noteq> 0" "c \<noteq> ?slot"
  proof -
    have "block_view (snd ?w) c = block_view m c" using W(2) [OF c(1)] c(3) by auto
    moreover have "block_view (snd f) c = block_view (snd ?w) c" using F(4) [OF c(1)] m1v by simp
    moreover have "block_view (snd p) c = block_view (snd f) c" using P(2) c by simp
    moreover have "block_view (snd q) c = block_view (snd p) c" using Q(2) c m3v by simp
    ultimately show ?thesis using one by (elim disjE) simp_all
  qed
  assume st: "st = OK"
  have "OK = fst (if \<not> journal_in_transaction m then (ERR_JOURNAL, m) else if fst ?w = OK then
      if fst f = OK then if fst p = OK then q else p else f else ?w)"
    using arg_cong [OF eq, of fst] st by simp
  then have q0: "journal_in_transaction m" "fst ?w = OK" "fst f = OK" "fst p = OK" "fst q = OK"
    by (simp_all split: if_splits)
  then have q: "journal_in_transaction m" "fst ?w = OK" "fst q = OK" "snd q = m'"
    using arg_cong [OF eq, of snd] by simp_all
  show "block_view m' c = disk_block m' c" if "blk_ok c" using Q(3) [OF q(3) that] q(4) by simp
  have sbq: "sb m' = sb m3" using q(4) by (metis q_def journal_persist_fields(3))
  show "disk_block m' 0 = superblock_block (sb m')" using Q(3) [OF q(3) blk_ok_0] q(4) sbq by simp
  have "sb (snd ?w) = (sb m)\<lparr> sb_journal_head := journal_next_pos m (sb_journal_head (sb m)) \<rparr>"
    using journal_write_entry_sb q(2) by simp
  moreover have "journal_next_sequence (snd ?w) = journal_next_sequence m + 1"
    using q(2) by (auto simp: journal_write_entry_def thenS_def orS_def Let_def split: if_splits)
  ultimately show "\<not> journal_in_transaction m' \<and> sb m' = (sb m)
      \<lparr> sb_journal_head := journal_next_pos m (sb_journal_head (sb m)),
        sb_journal_tail := journal_next_pos m (sb_journal_head (sb m)),
        sb_journal_sequence := journal_next_sequence m + 1 \<rparr>"
    using q(4) sbq by (auto simp: q_def m3_def p_def f_def m1_def)
qed

lemma journal_commit_sound:
  assumes "sound m"
  shows "sound (snd (journal_commit m))"
    and "fst (journal_commit m) = (if \<not> journal_in_transaction m then ERR_JOURNAL
      else if journal_is_full m then ERR_NOSPC else OK)"
proof -
  let ?w = "journal_write_entry m SMKFS_JOP_COMMIT 0 0 0 None"
  note W = journal_write_entry_sound [OF assms, of 0 None, simplified]
  let ?m1 = "(snd ?w)\<lparr> sb := (sb (snd ?w))\<lparr> sb_journal_sequence := journal_next_sequence (snd ?w) \<rparr>,
                      journal_in_transaction := False \<rparr>"
  have "sound ((snd ?w)\<lparr> sb := (sb (snd ?w))\<lparr> sb_journal_sequence := journal_next_sequence (snd ?w) \<rparr> \<rparr>)"
    using W(1) soundD(1) [OF W(1)] by (intro sound_sb) (simp_all add: vol_ok_seq)
  then have m1: "sound ?m1" by simp
  note F = sound_flush [OF m1]
  note P = journal_persist_sound [OF F(2)]
  let ?p = "snd (journal_persist_superblock (snd (block_cache_flush ?m1)))"
  have "sound (?p\<lparr> sb := (sb ?p)\<lparr> sb_journal_tail := sb_journal_head (sb ?p) \<rparr> \<rparr>)"
    using P(2) soundD(1) [OF P(2)] by (intro sound_sb vol_ok_tail head_lt) simp_all
  then have "sound (?p\<lparr> sb := (sb ?p)\<lparr> sb_journal_tail := sb_journal_head (sb ?p) \<rparr>,
      journal_write_pos := sb_journal_head (sb ?p) \<rparr>)" by simp
  note Q = journal_persist_sound [OF this]
  show "sound (snd (journal_commit m))"
    and "fst (journal_commit m) = (if \<not> journal_in_transaction m then ERR_JOURNAL
      else if journal_is_full m then ERR_NOSPC else OK)"
    using assms W F P Q by (simp_all add: journal_commit_def thenS_def)
qed


section \<open>Checkpoints and the start of a transaction\<close>

lemma journal_checkpoint_sound:
  assumes "sound m" "\<not> journal_in_transaction m"
  shows "fst (journal_checkpoint m) = OK" "sound (snd (journal_checkpoint m))"
    and "\<not> journal_in_transaction (snd (journal_checkpoint m))"
    and "sb_journal_head (sb (snd (journal_checkpoint m))) = sb_journal_tail (sb (snd (journal_checkpoint m)))"
    and "sb_journal_length (sb (snd (journal_checkpoint m))) = sb_journal_length (sb m)"
proof -
  define m1 where "m1 = snd (block_cache_flush m)"
  note F = sound_flush [OF assms(1), folded m1_def]
  define m2 where "m2 = (if sb_journal_head (sb m1) \<noteq> sb_journal_tail (sb m1)
                  then m1\<lparr> sb := (sb m1)\<lparr> sb_journal_tail := sb_journal_head (sb m1) \<rparr>,
                           journal_write_pos := sb_journal_head (sb m1) \<rparr>
                  else m1)"
  have "vol_ok (m1\<lparr> sb := (sb m1)\<lparr> sb_journal_tail := sb_journal_head (sb m1) \<rparr> \<rparr>)"
    using soundD(1) [OF F(2)] by (intro vol_ok_tail head_lt)
  then have m2: "sound (m2\<lparr> journal_in_transaction := True \<rparr>)" "sb_journal_head (sb m2) = sb_journal_tail (sb m2)"
    using F(2) sound_sb [OF F(2)] by (auto simp: m2_def)
  have m2len: "sb_journal_length (sb m2) = sb_journal_length (sb m)"
    by (simp add: m2_def m1_def)
  define w where "w = journal_write_entry (m2\<lparr> journal_in_transaction := True \<rparr>) SMKFS_JOP_CHECKPOINT 0 0 0 None"
  note W = journal_write_entry_sound [OF m2(1) loggable_simps(1), of SMKFS_JOP_CHECKPOINT 0 0 0, folded w_def]
  define m3 where "m3 = (snd w)\<lparr> journal_in_transaction := False \<rparr>"
  have m3: "sound m3" using W(1) by (simp add: m3_def)
  define m4 where "m4 = (if fst w \<noteq> OK then m3
                  else m3\<lparr> sb := (sb m3)\<lparr> sb_journal_tail := sb_journal_head (sb m3),
                                           sb_journal_sequence := journal_next_sequence m3 \<rparr>,
                           journal_write_pos := sb_journal_head (sb m3) \<rparr>)"
  have "vol_ok (m3\<lparr> sb := (sb m3)\<lparr> sb_journal_tail := sb_journal_head (sb m3),
                                  sb_journal_sequence := journal_next_sequence m3 \<rparr> \<rparr>)"
    using soundD(1) [OF m3] head_lt [of m3] by (simp add: vol_ok_def)
  then have m4: "sound m4" "\<not> journal_in_transaction m4"
    using m3 sound_sb [OF m3] by (auto simp: m4_def) (auto simp: m3_def)
  have ht: "sb_journal_head (sb m4) = sb_journal_tail (sb m4)"
    using m2(2) by (simp add: m4_def m3_def w_def journal_write_entry_sb)
  have len4: "sb_journal_length (sb m4) = sb_journal_length (sb m)"
    using m2len by (simp add: m4_def m3_def w_def journal_write_entry_sb)
  have eq: "journal_checkpoint m = journal_persist_superblock m4"
    using F(1) assms(2) unfolding journal_checkpoint_def thenS_def Let_def m1_def [symmetric]
      m2_def [symmetric] w_def [symmetric] m3_def [symmetric] m4_def [symmetric] by simp
  show "fst (journal_checkpoint m) = OK" "sound (snd (journal_checkpoint m))"
    "\<not> journal_in_transaction (snd (journal_checkpoint m))"
    "sb_journal_head (sb (snd (journal_checkpoint m))) = sb_journal_tail (sb (snd (journal_checkpoint m)))"
    "sb_journal_length (sb (snd (journal_checkpoint m))) = sb_journal_length (sb m)"
    using journal_persist_sound [OF m4(1)] m4(2) ht len4 by (simp_all add: eq)
qed

text \<open>The number of entries that are not reclaimed; a ring of \<open>L\<close> slots holds \<open>L - 1\<close>.\<close>

definition ring_used :: "superblock \<Rightarrow> nat" where
  "ring_used s = (unat (sb_journal_head s) + unat (sb_journal_length s) - unat (sb_journal_tail s))
     mod unat (sb_journal_length s)"

lemma ring_used_arith:
  fixes h t n :: nat
  assumes "h < n" "t < n"
  shows "(Suc h mod n = t) \<longleftrightarrow> (h + n - t) mod n = n - 1"
    and "Suc h mod n \<noteq> t \<Longrightarrow> (Suc h mod n + n - t) mod n = Suc ((h + n - t) mod n)"
proof -
  have m: "(a + n - t) mod n = (if t \<le> a then a - t else a + n - t)" if "a < n" for a
    using that assms(2) by (auto simp: le_mod_geq not_le)
  have s: "Suc h mod n = (if Suc h = n then 0 else Suc h)" using assms(1) by simp
  show "(Suc h mod n = t) \<longleftrightarrow> (h + n - t) mod n = n - 1"
    using assms by (auto simp: m s)
  show "Suc h mod n \<noteq> t \<Longrightarrow> (Suc h mod n + n - t) mod n = Suc ((h + n - t) mod n)"
    using assms m [of "Suc h mod n"] m [of h] by (auto simp: s)
qed

lemma ring_full_used:
  assumes "ring_ok (sb m)"
  shows "journal_is_full m \<longleftrightarrow> ring_used (sb m) = unat (sb_journal_length (sb m)) - 1"
proof -
  have "unat (sb_journal_head (sb m)) < unat (sb_journal_length (sb m))"
    "unat (sb_journal_tail (sb m)) < unat (sb_journal_length (sb m))"
    using assms by (simp_all add: ring_ok_def word_less_nat_alt)
  note A = ring_used_arith(1) [OF this]
  have "journal_is_full m \<longleftrightarrow>
      unat (journal_next_pos m (sb_journal_head (sb m))) = unat (sb_journal_tail (sb m))"
    by (simp add: journal_is_full_def flip: word_unat_eq_iff)
  also have "\<dots> \<longleftrightarrow> ring_used (sb m) = unat (sb_journal_length (sb m)) - 1"
    using assms A by (simp add: unat_next_pos ring_ok_def ring_used_def)
  finally show ?thesis .
qed

lemma ring_used_next:
  assumes "ring_ok (sb m)" "\<not> journal_is_full m"
  shows "ring_used ((sb m)\<lparr> sb_journal_head := journal_next_pos m (sb_journal_head (sb m)) \<rparr>) =
    Suc (ring_used (sb m))"
proof -
  have h: "unat (sb_journal_head (sb m)) < unat (sb_journal_length (sb m))"
    "unat (sb_journal_tail (sb m)) < unat (sb_journal_length (sb m))"
    using assms by (simp_all add: ring_ok_def word_less_nat_alt)
  have "unat (journal_next_pos m (sb_journal_head (sb m))) \<noteq> unat (sb_journal_tail (sb m))"
    using assms(2) by (simp add: journal_is_full_def flip: word_unat_eq_iff)
  then show ?thesis
    using assms(1) ring_used_arith(2) [OF h] by (simp add: unat_next_pos ring_ok_def ring_used_def)
qed

lemma journal_start_transaction_sound:
  assumes "sound m" "\<not> journal_in_transaction m" "2 \<le> sb_journal_length (sb m)"
  shows "fst (journal_start_transaction m) = OK" "sound (snd (journal_start_transaction m))"
    and "journal_in_transaction (snd (journal_start_transaction m))"
    and "ring_used (sb (snd (journal_start_transaction m))) = 0"
    and "sb_journal_length (sb (snd (journal_start_transaction m))) = sb_journal_length (sb m)"
proof -
  define r where "r = (if sb_journal_head (sb m) \<noteq> sb_journal_tail (sb m)
               then orS (journal_checkpoint m) ERR_JOURNAL else (OK, m))"
  have r: "fst r = OK" "sound (snd r)" "\<not> journal_in_transaction (snd r)"
    "sb_journal_head (sb (snd r)) = sb_journal_tail (sb (snd r))"
    "sb_journal_length (sb (snd r)) = sb_journal_length (sb m)"
    using journal_checkpoint_sound [OF assms(1,2)] assms(1,2) by (simp_all add: r_def orS_def)
  have u0: "ring_used (sb (snd r)) = 0"
    using r(4) by (simp add: ring_used_def)
  have "unat (sb_journal_length (sb (snd r))) \<ge> 2"
    using assms(3) r(5) by (simp add: word_le_nat_alt)
  then have nf: "\<not> journal_is_full (snd r)"
    using ring_full_used [OF vol_okD(4) [OF soundD(1) [OF r(2)]]] u0 by simp
  have "journal_start_transaction m = (OK, (snd r)\<lparr> journal_in_transaction := True \<rparr>)"
    using assms(2) r(1) nf unfolding journal_start_transaction_def r_def [symmetric]
    by (simp add: thenS_def)
  then show "fst (journal_start_transaction m) = OK" "sound (snd (journal_start_transaction m))"
    "journal_in_transaction (snd (journal_start_transaction m))"
    "ring_used (sb (snd (journal_start_transaction m))) = 0"
    "sb_journal_length (sb (snd (journal_start_transaction m))) = sb_journal_length (sb m)"
    using r u0 by simp_all
qed

section \<open>Properties\<close>

text \<open>A formatted volume of 64 blocks with an open transaction, for the concrete runs.\<close>

definition demo_sb :: superblock where
  "demo_sb = blank_sb\<lparr> sb_total_blocks := 64, sb_free_blocks := 53, sb_journal_start := 1,
     sb_journal_length := 8, sb_bitmap_start := 9, sb_bitmap_length := 1, sb_mrt_start := 10,
     sb_mrt_length := 1, sb_mrt_capacity := 256, sb_mrt_free_count := 255, sb_data_start := 11 \<rparr>"

definition demo_mount :: mount where
  "demo_mount = blank_mount\<lparr> sb := demo_sb, journal_in_transaction := True \<rparr>"

lemma demo_sound: "sound demo_mount"
proof -
  have s: "sb blank_mount = blank_sb" "heap_ok blank_mount"
    by (simp_all add: blank_mount_def block_cache_init_def Let_def)
  have "wf_superblock blank_sb" using wf_dec_superblock [of "replicate 320 0"] by (simp add: blank_sb_def wf_superblock_def)
  then have "wf_superblock demo_sb" by (simp add: demo_sb_def wf_superblock_def)
  moreover have "ring_ok demo_sb"
    by (simp add: demo_sb_def blank_sb_def ring_ok_def dec_superblock_def slice_def)
  moreover have "geom demo_sb" by (simp add: demo_sb_def geom_def)
  moreover have "cache_inv (blank_mount\<lparr> sb := demo_sb \<rparr>)"
    using blank_mount_ok(1) s by (simp add: demo_sb_def)
  ultimately show ?thesis
    using blank_mount_ok(2) s by (simp add: demo_mount_def sound_def vol_ok_def)
qed

lemma demo_journal:
  "sb_journal_start (sb demo_mount) = 1" "sb_journal_head (sb demo_mount) = 0"
  "sb_journal_tail (sb demo_mount) = 0" "sb_journal_length (sb demo_mount) = 8"
  "journal_in_transaction demo_mount" "ring_used (sb demo_mount) = 0" "\<not> journal_is_full demo_mount"
  by (simp_all add: demo_mount_def demo_sb_def blank_sb_def dec_superblock_def slice_def
      ring_used_def journal_is_full_def journal_next_pos_def word_le_nat_alt)

text \<open>
  C5. Logging an entry, every outcome. If \<open>journal_write_entry\<close> reports success, the
  transaction was open, the ring had a free slot and the entry fits; the block at the old head
  then holds an entry that validates, verifies and decodes to what was logged, payload
  included, and the ring holds one entry more. Otherwise no block and no superblock field
  changes. No other block changes in either case, and the volume stays well-formed.
\<close>
theorem journal_write_entry_logs:
  assumes "vol_ok m" "loggable dlen payload"
    and "journal_write_entry m op target dlen rid payload = (st, m')"
  defines "slot \<equiv> sb_journal_start (sb m) + sb_journal_head (sb m)"
  defines "buf \<equiv> block_view m' slot"
  defines "ent \<equiv> dec_journal_entry buf"
  shows "vol_ok m' \<and> (\<forall>c. blk_ok c \<and> c \<noteq> slot \<longrightarrow> block_view m' c = block_view m c) \<and>
    (st \<noteq> OK \<longrightarrow> buf = block_view m slot \<and> sb m' = sb m) \<and>
    (st = OK \<longrightarrow>
       journal_in_transaction m \<and> ring_used (sb m') = Suc (ring_used (sb m)) \<and>
       ring_used (sb m') < unat (sb_journal_length (sb m)) \<and>
       header_validate (j_header ent) SMKFS_ST_JOURNAL_ENT = OK \<and>
       header_checksum_verify (j_header ent) buf (unat (h_length (j_header ent))) = OK \<and>
       (j_sequence ent, j_target_block ent, j_operation ent, j_data_length ent, j_record_id ent) =
         (journal_next_sequence m, target, op, dlen, rid) \<and>
       (\<forall>p. payload = Some p \<longrightarrow> slice 64 (unat dlen) buf = take (unat dlen) p))"
proof -
  note S = journal_write_entry_spec [OF assms(1-3)]
  have slot: "blk_ok slot"
    unfolding slot_def using journal_block(2) [OF vol_okD(3) [OF assms(1)] head_lt [OF assms(1)]] .
  have sbm: "sb m' = (if st = OK then (sb m)\<lparr> sb_journal_head := journal_next_pos m (sb_journal_head (sb m)) \<rparr> else sb m)"
    using journal_write_entry_sb [of m op target dlen rid payload] assms(3) by simp
  have "ring_used (sb m') = Suc (ring_used (sb m)) \<and> ring_used (sb m') < unat (sb_journal_length (sb m)) \<and>
       header_validate (j_header ent) SMKFS_ST_JOURNAL_ENT = OK \<and>
       header_checksum_verify (j_header ent) buf (unat (h_length (j_header ent))) = OK \<and>
       (j_sequence ent, j_target_block ent, j_operation ent, j_data_length ent, j_record_id ent) =
         (journal_next_sequence m, target, op, dlen, rid) \<and>
       (\<forall>p. payload = Some p \<longrightarrow> slice 64 (unat dlen) buf = take (unat dlen) p)" if st: "st = OK"
  proof -
    have buf: "buf = journal_entry_block (journal_next_sequence m) op target dlen rid payload"
      using S(2) [OF slot] st by (simp add: buf_def slot_def)
    have dl: "unat dlen \<le> 4032" and nf: "\<not> journal_is_full m" using S(3) st by simp_all
    note R = journal_entry_block_read [where seq = "journal_next_sequence m" and op = op and target = target and rid = rid,
        OF dl assms(2), folded buf, folded ent_def]
    have "ring_used (sb m') = Suc (ring_used (sb m))"
      using ring_used_next [OF vol_okD(4) [OF assms(1)] nf] sbm st by simp
    moreover have "ring_used (sb m') < unat (sb_journal_length (sb m))"
      using vol_okD(4) [OF assms(1)] sbm st by (auto simp: ring_used_def ring_ok_def word_less_nat_alt)
    ultimately show ?thesis using R by simp
  qed
  then show ?thesis using S slot sbm by (auto simp: buf_def slot_def)
qed

theorem journal_write_entry_logs_witness:
  "\<exists>m'. journal_write_entry demo_mount SMKFS_JOP_ALLOC 20 3 0 None = (OK, m') \<and>
     ring_used (sb m') = 1 \<and> j_target_block (dec_journal_entry (block_view m' 1)) = 20"
proof -
  note s = demo_journal
  have "fst (journal_write_entry demo_mount SMKFS_JOP_ALLOC 20 3 0 None) = OK"
    using journal_write_entry_sound(2) [OF demo_sound, of 3 None SMKFS_JOP_ALLOC 20 0] s by simp
  then obtain m' where w: "journal_write_entry demo_mount SMKFS_JOP_ALLOC 20 3 0 None = (OK, m')"
    by (metis prod.collapse)
  show ?thesis
    using journal_write_entry_logs [OF soundD(1) [OF demo_sound] loggable_simps(1) w] s w by auto
qed

text \<open>
  C6. A commit that reports success is durable, whatever sectors fail elsewhere: the drive's
  sectors hold every block as the file system sees it, block 0 holds the in-memory superblock
  (which a reader decodes and verifies), the ring is empty and the transaction closed. On a
  sound volume it succeeds exactly if a transaction is open and the ring has a free slot.
\<close>
theorem journal_commit_durable:
  assumes "vol_ok m" "journal_commit m = (st, m')"
  shows "vol_ok m' \<and>
    (st = OK \<longrightarrow>
       \<not> journal_in_transaction m' \<and> ring_used (sb m') = 0 \<and>
       sb_journal_sequence (sb m') = journal_next_sequence m + 1 \<and>
       (\<forall>c. blk_ok c \<longrightarrow> disk_block m' c = block_view m' c) \<and>
       (\<forall>c. blk_ok c \<and> c \<noteq> 0 \<and> c \<noteq> sb_journal_start (sb m) + sb_journal_head (sb m) \<longrightarrow>
          disk_block m' c = block_view m c) \<and>
       disk_block m' 0 = superblock_block (sb m') \<and>
       (let s = dec_superblock (disk_block m' 0)
        in s\<lparr> sb_header := sb_header (sb m') \<rparr> = sb m' \<and>
           header_checksum_verify (sb_header s) (disk_block m' 0) 320 = OK)) \<and>
    (sound m \<longrightarrow> (st = OK \<longleftrightarrow> journal_in_transaction m \<and> \<not> journal_is_full m))"
proof -
  note S = journal_commit_spec [OF assms]
  have "let s = dec_superblock (disk_block m' 0)
        in s\<lparr> sb_header := sb_header (sb m') \<rparr> = sb m' \<and>
           header_checksum_verify (sb_header s) (disk_block m' 0) 320 = OK" if "st = OK"
    using superblock_block_read(1,2) [OF vol_okD(2) [OF S(1)]] S(4) [OF that]
    by (metis superblock.surjective superblock.update_convs(1))
  moreover have "ring_used (sb m') = 0" if "st = OK" using S(5) [OF that] by (simp add: ring_used_def)
  moreover have "sound m \<longrightarrow> (st = OK \<longleftrightarrow> journal_in_transaction m \<and> \<not> journal_is_full m)"
    using journal_commit_sound(2) [of m] assms(2) by auto
  ultimately show ?thesis using S by auto
qed

theorem journal_commit_durable_witness:
  "\<exists>m'. journal_commit demo_mount = (OK, m') \<and> \<not> journal_in_transaction m' \<and>
     disk_block m' 0 = superblock_block (sb m')"
proof -
  obtain st m' where c: "journal_commit demo_mount = (st, m')" by fastforce
  show ?thesis
    using journal_commit_durable [OF soundD(1) [OF demo_sound] c] demo_sound demo_journal c by auto
qed

text \<open>
  Opening a transaction: on a sound volume with a journal of at least two blocks and no
  open transaction, \<open>journal_start_transaction\<close> succeeds and leaves an empty ring, whatever
  the ring held, so that exactly \<open>length - 1\<close> entries fit before the ring is full.
\<close>
theorem journal_start_transaction_empties:
  assumes "sound m" "\<not> journal_in_transaction m" "2 \<le> sb_journal_length (sb m)"
  shows "\<exists>m'. journal_start_transaction m = (OK, m') \<and> sound m' \<and> journal_in_transaction m' \<and>
    ring_used (sb m') = 0 \<and>
    (\<forall>m''. ring_ok (sb m'') \<and> sb_journal_length (sb m'') = sb_journal_length (sb m) \<longrightarrow>
       journal_is_full m'' = (ring_used (sb m'') = unat (sb_journal_length (sb m)) - 1))"
proof -
  note S = journal_start_transaction_sound [OF assms]
  have "journal_start_transaction m = (OK, snd (journal_start_transaction m))"
    using S(1) by (simp add: prod_eq_iff)
  then show ?thesis using S ring_full_used by fastforce
qed

theorem journal_start_transaction_empties_witness:
  "\<exists>m'. journal_start_transaction (demo_mount\<lparr> journal_in_transaction := False \<rparr>) = (OK, m') \<and>
     journal_in_transaction m'"
  using journal_start_transaction_empties [of "demo_mount\<lparr> journal_in_transaction := False \<rparr>"]
    demo_sound demo_journal by auto

text \<open>
  C7. A transaction that fills the ring cannot be closed by a commit: \<open>journal_commit\<close> fails
  with \<open>ERR_NOSPC\<close>, the transaction stays open, and until someone aborts it every further
  \<open>journal_start_transaction\<close> and \<open>journal_checkpoint\<close> fails with \<open>ERR_JOURNAL\<close>.
\<close>
theorem journal_commit_full_stays_open:
  assumes "journal_in_transaction m" "journal_is_full m"
  shows "journal_commit m = (ERR_NOSPC, m) \<and>
    journal_start_transaction (snd (journal_commit m)) = (ERR_JOURNAL, m) \<and>
    journal_checkpoint (snd (journal_commit m)) = (ERR_JOURNAL, m) \<and>
    journal_abort (snd (journal_commit m)) = (OK, m\<lparr> journal_in_transaction := False \<rparr>)"
  using assms
  by (simp add: journal_commit_def journal_write_entry_def journal_start_transaction_def
      journal_checkpoint_def journal_abort_def)

theorem journal_commit_full_stays_open_witness:
  "let m = demo_mount\<lparr> sb := demo_sb\<lparr> sb_journal_head := 7 \<rparr> \<rparr>
   in journal_commit m = (ERR_NOSPC, m) \<and> journal_start_transaction m = (ERR_JOURNAL, m)"
proof -
  have "journal_in_transaction (demo_mount\<lparr> sb := demo_sb\<lparr> sb_journal_head := 7 \<rparr> \<rparr>)"
    "journal_is_full (demo_mount\<lparr> sb := demo_sb\<lparr> sb_journal_head := 7 \<rparr> \<rparr>)"
    using demo_journal(3,4)
    by (simp_all add: demo_mount_def journal_is_full_def journal_next_pos_def)
  from journal_commit_full_stays_open [OF this] show ?thesis
    unfolding Let_def by (metis prod.sel(2))
qed

end
