(* ===== verification/Runs.thy ===== *)
theory Runs
  imports Prelude
begin

text \<open>
  Bitmaps in byte buffers, and the scan for a run of free bits that the block allocator of
  SmKFS, the frame allocator and the mapping window share.
\<close>

section \<open>Bits in a buffer\<close>

definition set_bit_in :: "nat \<Rightarrow> nat \<Rightarrow> bytes \<Rightarrow> bytes" where
  "set_bit_in off k buf = buf[off := buf ! off OR push_bit k 1]"

definition clear_bit_in :: "nat \<Rightarrow> nat \<Rightarrow> bytes \<Rightarrow> bytes" where
  "clear_bit_in off k buf = buf[off := buf ! off AND NOT (push_bit k 1)]"

lemma bit_set_bit_in:
  assumes "off < length buf" "j < length buf"
  shows "bit (set_bit_in off k buf ! j) l \<longleftrightarrow> (j = off \<and> l = k \<and> l < 8) \<or> bit (buf ! j) l"
  using assms bit_imp_le_length [of "buf ! j" l]
  by (auto simp: set_bit_in_def bit_or_iff nth_list_update bit_exp_iff)

lemma bit_clear_bit_in:
  assumes "off < length buf" "j < length buf"
  shows "bit (clear_bit_in off k buf ! j) l \<longleftrightarrow> \<not> (j = off \<and> l = k) \<and> bit (buf ! j) l"
  using assms bit_imp_le_length [of "buf ! j" l]
  by (auto simp: clear_bit_in_def bit_and_iff bit_not_iff nth_list_update bit_exp_iff)

lemma length_bit_in [simp]:
  "length (set_bit_in off k buf) = length buf" "length (clear_bit_in off k buf) = length buf"
  by (simp_all add: set_bit_in_def clear_bit_in_def)

section \<open>Scanning for a run\<close>

text \<open>
  The scan that the allocators share: \<open>bits\<close> are the bit numbers in order, \<open>used\<close> what the
  bitmap says of each, \<open>run_start\<close> and \<open>run_len\<close> the run of free bits that ends where the
  scan is. The bits behind the end that the C loops visit only break the inner loop.
\<close>

fun find_run :: "(nat \<Rightarrow> bool) \<Rightarrow> nat \<Rightarrow> nat list \<Rightarrow> nat \<Rightarrow> nat \<Rightarrow> (nat \<times> nat) + nat" where
  "find_run used count [] run_start run_len = Inl (run_start, run_len)"
| "find_run used count (b # bs) run_start run_len =
     (if used b then find_run used count bs run_start 0
      else
        let run_start1 = (if run_len = 0 then b else run_start)
        in if run_len + 1 \<ge> count then Inr run_start1
           else find_run used count bs run_start1 (run_len + 1))"

text \<open>
  What the scan knows when it stands before bit \<open>a\<close>: the last \<open>len\<close> bits are free, the one
  before them is not, and no run of \<open>count\<close> free bits lies below \<open>a\<close>.
\<close>

definition scan_inv :: "(nat \<Rightarrow> bool) \<Rightarrow> nat \<Rightarrow> nat \<Rightarrow> nat \<Rightarrow> nat \<Rightarrow> bool" where
  "scan_inv u count a start len \<longleftrightarrow> len \<le> a \<and> len < count \<and> (0 < len \<longrightarrow> start = a - len) \<and>
     (\<forall>j. a - len \<le> j \<and> j < a \<longrightarrow> \<not> u j) \<and> (len < a \<longrightarrow> u (a - len - 1)) \<and>
     (\<forall>s. s + count \<le> a \<longrightarrow> (\<exists>j. s \<le> j \<and> j < s + count \<and> u j))"

lemma scan_inv_start: "0 < count \<Longrightarrow> scan_inv u count 0 start 0"
  by (simp add: scan_inv_def)

lemma scan_step_used: "scan_inv u count a start len \<Longrightarrow> u a \<Longrightarrow> scan_inv u count (Suc a) start 0"
  by (auto simp: scan_inv_def le_Suc_eq)

lemma scan_step_free:
  assumes "scan_inv u count a start len" "\<not> u a" "Suc len < count"
  shows "scan_inv u count (Suc a) (if len = 0 then a else start) (Suc len)"
proof -
  have "\<exists>j. s \<le> j \<and> j < s + count \<and> u j" if s: "s + count \<le> Suc a" for s
  proof (cases "s + count \<le> a")
    case True
    then show ?thesis using assms(1) by (simp add: scan_inv_def)
  next
    case False
    then have "s + count = Suc a" using s by simp
    then have "s \<le> a - len - 1" "a - len - 1 < s + count" "len < a" using assms(3) by auto
    then show ?thesis using assms(1) unfolding scan_inv_def by blast
  qed
  moreover have "\<not> u j" if "a - len \<le> j" "j < Suc a" for j
    using that assms(1,2) by (cases "j = a") (auto simp: scan_inv_def)
  ultimately show ?thesis using assms(1,3) by (auto simp: scan_inv_def)
qed

lemma scan_inv_cong:
  assumes "\<And>j. j < a \<Longrightarrow> u j = v j"
  shows "scan_inv u count a start len = scan_inv v count a start len"
proof -
  have "(\<forall>j. a - len \<le> j \<and> j < a \<longrightarrow> \<not> u j) = (\<forall>j. a - len \<le> j \<and> j < a \<longrightarrow> \<not> v j)"
    using assms by blast
  moreover have "(len < a \<longrightarrow> u (a - len - 1)) = (len < a \<longrightarrow> v (a - len - 1))"
    using assms [of "a - len - 1"] by auto
  moreover have "(\<forall>s. s + count \<le> a \<longrightarrow> (\<exists>j. s \<le> j \<and> j < s + count \<and> u j)) =
      (\<forall>s. s + count \<le> a \<longrightarrow> (\<exists>j. s \<le> j \<and> j < s + count \<and> v j))"
    using assms by (meson less_le_trans)
  ultimately show ?thesis by (simp only: scan_inv_def)
qed

lemma find_run_spec:
  assumes "scan_inv u count a start len" "a \<le> b" "\<And>j. a \<le> j \<Longrightarrow> j < b \<Longrightarrow> v j = u j"
  shows "find_run v count [a..<b] start len = Inr s \<Longrightarrow>
      s + count \<le> b \<and> (\<forall>j. s \<le> j \<and> j < s + count \<longrightarrow> \<not> u j)"
    and "find_run v count [a..<b] start len = Inl (start', len') \<Longrightarrow> scan_inv u count b start' len'"
proof -
  have "(\<forall>s. find_run v count [a..<b] start len = Inr s \<longrightarrow>
      s + count \<le> b \<and> (\<forall>j. s \<le> j \<and> j < s + count \<longrightarrow> \<not> u j)) \<and>
    (\<forall>start' len'. find_run v count [a..<b] start len = Inl (start', len') \<longrightarrow> scan_inv u count b start' len')"
    using assms
  proof (induction "b - a" arbitrary: a start len)
    case 0
    then show ?case by simp
  next
    case (Suc n)
    then have ab: "a < b" by simp
    then have cons: "[a..<b] = a # [Suc a..<b]" by (rule upt_conv_Cons)
    have va: "v a = u a" using Suc.prems(3) ab by simp
    show ?case
    proof (cases "u a")
      case True
      then have "scan_inv u count (Suc a) start 0" using Suc.prems(1) by (rule scan_step_used [rotated])
      then have "(\<forall>s. find_run v count [Suc a..<b] start 0 = Inr s \<longrightarrow>
      s + count \<le> b \<and> (\<forall>j. s \<le> j \<and> j < s + count \<longrightarrow> \<not> u j)) \<and>
    (\<forall>start' len'. find_run v count [Suc a..<b] start 0 = Inl (start', len') \<longrightarrow> scan_inv u count b start' len')"
        using Suc by (intro Suc.hyps(1)) auto
      then show ?thesis using True va by (simp add: cons)
    next
      case free: False
      show ?thesis
      proof (cases "Suc len < count")
        case True
        let ?st = "if len = 0 then a else start"
        have "scan_inv u count (Suc a) ?st (Suc len)" using Suc.prems(1) free True by (rule scan_step_free)
        then have "(\<forall>s. find_run v count [Suc a..<b] ?st (Suc len) = Inr s \<longrightarrow>
      s + count \<le> b \<and> (\<forall>j. s \<le> j \<and> j < s + count \<longrightarrow> \<not> u j)) \<and>
    (\<forall>start' len'. find_run v count [Suc a..<b] ?st (Suc len) = Inl (start', len') \<longrightarrow> scan_inv u count b start' len')"
          using Suc by (intro Suc.hyps(1)) auto
        then show ?thesis using free va True by (simp add: cons Let_def)
      next
        case False
        let ?st = "if len = 0 then a else start"
        have inv: "len \<le> a" "0 < len \<longrightarrow> start = a - len" "\<And>j. a - len \<le> j \<Longrightarrow> j < a \<Longrightarrow> \<not> u j" "len < count"
          using Suc.prems(1) by (simp_all add: scan_inv_def)
        have st: "?st + count = Suc a" using inv False by auto
        have "\<not> u j" if "?st \<le> j" "j < ?st + count" for j
          using that inv st free by (cases "j = a") (auto split: if_splits)
        then show ?thesis using free va False st ab by (auto simp: cons Let_def)
      qed
    qed
  qed
  then show "find_run v count [a..<b] start len = Inr s \<Longrightarrow>
      s + count \<le> b \<and> (\<forall>j. s \<le> j \<and> j < s + count \<longrightarrow> \<not> u j)"
    and "find_run v count [a..<b] start len = Inl (start', len') \<Longrightarrow> scan_inv u count b start' len'"
    by blast+
qed

text \<open>A scan that starts inside the bitmap: the run it finds is free and within the window.\<close>

lemma find_run_window:
  assumes "0 < count" "find_run v count [a..<b] 0 0 = Inr s"
  shows "a \<le> s \<and> s + count \<le> b \<and> (\<forall>j. s \<le> j \<and> j < s + count \<longrightarrow> \<not> v j)"
proof -
  have ab: "a \<le> b" using assms by (cases "a < b") auto
  define u where "u j = (j < a \<or> v j)" for j
  have "scan_inv u count a 0 0"
    using assms(1) by (auto simp: scan_inv_def u_def)
  from find_run_spec(1) [OF this ab _ assms(2)]
  have S: "s + count \<le> b" "\<And>j. s \<le> j \<Longrightarrow> j < s + count \<Longrightarrow> \<not> u j" by (auto simp: u_def)
  moreover have "a \<le> s" using S(2) [of s] assms(1) by (auto simp: u_def)
  ultimately show ?thesis by (auto simp: u_def)
qed

end
