(* ===== verification/Bitmap.thy ===== *)
theory Bitmap
  imports Journal Runs
begin

text \<open>
  The block allocator of \<^verbatim>\<open>fs/smkfs/bitmap.c\<close>: one bit per data block, a cache of free
  counts per region of 256 blocks, allocation region by region with a linear scan of the whole
  bitmap as the fallback, and the journaling of allocations and releases with its undo paths.
  Loop counters are natural numbers; they stand for the C code's 64-bit bit numbers, which stay
  below \<open>2 ^ 64\<close> for every bitmap of fewer than \<open>2 ^ 49\<close> blocks.
\<close>

section \<open>The region cache\<close>

definition data_blocks :: "mount \<Rightarrow> u64" where
  "data_blocks m = sb_total_blocks (sb m) - sb_data_start (sb m)"

definition bitmap_region_size :: "mount \<Rightarrow> u32 \<Rightarrow> u32" where
  "bitmap_region_size m region =
     (let start = ucast region * of_nat SMKFS_REGION_BLOCKS :: u64;
          end1 = start + of_nat SMKFS_REGION_BLOCKS;
          end2 = (if end1 > data_blocks m then data_blocks m else end1)
      in if end2 > start then ucast (end2 - start) else 0)"

text \<open>\<open>if (regions[r].free_count > 0) regions[r].free_count--\<close>, for one region of an array.\<close>

definition region_dec :: "u32 \<Rightarrow> region list \<Rightarrow> region list" where
  "region_dec r rs =
     (if rg_free_count (rs ! unat r) > 0
      then rs[unat r := (rs ! unat r)\<lparr> rg_free_count := rg_free_count (rs ! unat r) - 1 \<rparr>]
      else rs)"

text \<open>
  One bitmap block of \<open>bitmap_init_regions\<close>: \<open>bo\<close> numbers the byte, \<open>base\<close> the block's
  first bit. A zero byte is skipped before the end of the data is looked at.
\<close>

definition bit_region :: "nat \<Rightarrow> u32" where
  "bit_region b = of_nat (b div SMKFS_REGION_BLOCKS)"

fun init_regions_block :: "nat \<Rightarrow> nat \<Rightarrow> bytes \<Rightarrow> region list \<Rightarrow> region list" where
  "init_regions_block db base [] rs = rs"
| "init_regions_block db base (byte # bs) rs =
     (if byte = 0 then init_regions_block db (base + 8) bs rs
      else if base \<ge> db then rs
      else if byte = 0xFF
      then init_regions_block db (base + 8) bs
             (fold (\<lambda>b. region_dec (bit_region b))
                [base..<base + (if base + 8 > db then db - base else 8)] rs)
      else init_regions_block db (base + 8) bs
             (fold (\<lambda>b. region_dec (bit_region b))
                (filter (\<lambda>b. bit byte (b - base)) (takeWhile (\<lambda>b. b < db) [base..<base + 8])) rs))"

fun init_regions_loop :: "nat list \<Rightarrow> mount \<Rightarrow> status \<times> mount" where
  "init_regions_loop [] m = (OK, m\<lparr> alloc_hint_region := 0 \<rparr>)"
| "init_regions_loop (bb # bbs) m =
     bindS (orE (read_block m (sb_bitmap_start (sb m) + of_nat bb)) ERR_IO) (\<lambda>buf m1.
       init_regions_loop bbs
         (m1\<lparr> regions := map_option
                (init_regions_block (unat (data_blocks m)) (bb * SMKFS_BLOCK_SIZE * 8) buf) (regions m1) \<rparr>))"

text \<open>Every failure after the first allocation frees the array again.\<close>

definition bitmap_init_regions :: "mount \<Rightarrow> status \<times> mount" where
  "bitmap_init_regions m =
     (if regions m \<noteq> None then (ERR_INVAL, m)
      else if data_blocks m = 0
      then (OK, m\<lparr> region_count := 0, regions := None, alloc_hint_region := 0 \<rparr>)
      else
        let rc = ucast ((data_blocks m + of_nat SMKFS_REGION_BLOCKS - 1) div of_nat SMKFS_REGION_BLOCKS) :: u32;
            m1 = m\<lparr> region_count := rc \<rparr>
        in if \<not> heap_ok m then (ERR_NOMEM, m1)
           else
             let m2 = m1\<lparr> regions := Some (map (\<lambda>i. \<lparr> rg_free_count = bitmap_region_size m1 (of_nat i),
                                                     rg_alloc_hint = 0 \<rparr>) [0..<unat rc]) \<rparr>;
                 r = init_regions_loop [0..<unat (sb_bitmap_length (sb m))] m2
             in if fst r = OK then r else (fst r, (snd r)\<lparr> regions := None \<rparr>))"

definition bitmap_shutdown :: "mount \<Rightarrow> mount" where
  "bitmap_shutdown m = m\<lparr> regions := None, region_count := 0, alloc_hint_region := 0 \<rparr>"

section \<open>One bit\<close>

text \<open>The block, byte and bit that stand for a data block.\<close>

definition bm_block :: "mount \<Rightarrow> u64 \<Rightarrow> u64" where
  "bm_block m idx = sb_bitmap_start (sb m) + (idx div 8) div of_nat SMKFS_BLOCK_SIZE"

definition bm_byte :: "u64 \<Rightarrow> nat" where
  "bm_byte idx = unat ((idx div 8) mod of_nat SMKFS_BLOCK_SIZE)"

definition bm_bit :: "u64 \<Rightarrow> nat" where
  "bm_bit idx = unat (idx mod 8)"

text \<open>The region counters of a block that is taken, and of one that is released.\<close>

definition region_claim :: "u64 \<Rightarrow> mount \<Rightarrow> mount" where
  "region_claim idx m =
     (case regions m of
        None \<Rightarrow> m
      | Some rs \<Rightarrow>
          let region = ucast (idx div of_nat SMKFS_REGION_BLOCKS) :: u32
          in if region < region_count m then m\<lparr> regions := Some (region_dec region rs) \<rparr> else m)"

definition region_release :: "u64 \<Rightarrow> mount \<Rightarrow> mount" where
  "region_release idx m =
     (case regions m of
        None \<Rightarrow> m
      | Some rs \<Rightarrow>
          let region = ucast (idx div of_nat SMKFS_REGION_BLOCKS) :: u32
          in if region < region_count m \<and> rg_free_count (rs ! unat region) < bitmap_region_size m region
             then m\<lparr> regions := Some (rs[unat region := (rs ! unat region)
                       \<lparr> rg_free_count := rg_free_count (rs ! unat region) + 1 \<rparr>]) \<rparr>
             else m)"

definition add_free_blocks :: "u64 \<Rightarrow> mount \<Rightarrow> mount" where
  "add_free_blocks n m = m\<lparr> sb := (sb m)\<lparr> sb_free_blocks := sb_free_blocks (sb m) + n \<rparr> \<rparr>"

definition bitmap_set :: "mount \<Rightarrow> u64 \<Rightarrow> status \<times> mount" where
  "bitmap_set m block =
     (if block < sb_data_start (sb m) then (ERR_CORRUPT, m)
      else if \<not> heap_ok m then (ERR_NOMEM, m)
      else
        let idx = block - sb_data_start (sb m)
        in bindS (orE (read_block m (bm_block m idx)) ERR_IO) (\<lambda>buf m1.
             let m2 = (if \<not> bit (buf ! bm_byte idx) (bm_bit idx)
                       then region_claim idx (add_free_blocks (- 1) m1) else m1)
             in orS (write_block m2 (bm_block m idx) (set_bit_in (bm_byte idx) (bm_bit idx) buf)) ERR_IO))"

definition bitmap_clear :: "mount \<Rightarrow> u64 \<Rightarrow> status \<times> mount" where
  "bitmap_clear m block =
     (if block < sb_data_start (sb m) then (ERR_CORRUPT, m)
      else if \<not> heap_ok m then (ERR_NOMEM, m)
      else
        let idx = block - sb_data_start (sb m)
        in bindS (orE (read_block m (bm_block m idx)) ERR_IO) (\<lambda>buf m1.
             let m2 = (if bit (buf ! bm_byte idx) (bm_bit idx)
                       then region_release idx (add_free_blocks 1 m1) else m1)
             in orS (write_block m2 (bm_block m idx) (clear_bit_in (bm_byte idx) (bm_bit idx) buf)) ERR_IO))"

definition bitmap_test :: "mount \<Rightarrow> u64 \<Rightarrow> (status + bool) \<times> mount" where
  "bitmap_test m block =
     (if block < sb_data_start (sb m) then (Inl ERR_CORRUPT, m)
      else if \<not> heap_ok m then (Inl ERR_NOMEM, m)
      else
        let idx = block - sb_data_start (sb m)
        in bindE (orE (read_block m (bm_block m idx)) ERR_IO) (\<lambda>buf m1.
             (Inr (bit (buf ! bm_byte idx) (bm_bit idx)), m1)))"

text \<open>\<open>for (j = 0; j < count; j++) bitmap_clear(mnt, first + j)\<close>, statuses dropped.\<close>

definition clear_all :: "u64 \<Rightarrow> nat \<Rightarrow> mount \<Rightarrow> mount" where
  "clear_all first n m = fold (\<lambda>j m. snd (bitmap_clear m (first + of_nat j))) [0..<n] m"

definition set_all :: "u64 \<Rightarrow> nat \<Rightarrow> mount \<Rightarrow> mount" where
  "set_all first n m = fold (\<lambda>j m. snd (bitmap_set m (first + of_nat j))) [0..<n] m"

section \<open>Allocation in a region\<close>

definition bitmap_alloc_in_region :: "mount \<Rightarrow> u32 \<Rightarrow> u32 \<Rightarrow> u64 \<times> mount" where
  "bitmap_alloc_in_region m region count =
     (let rs = the (regions m);
          start_bit = unat region * SMKFS_REGION_BLOCKS;
          end_bit = min (start_bit + SMKFS_REGION_BLOCKS) (unat (data_blocks m));
          start_byte = start_bit div 8;
          block_offset = start_byte mod SMKFS_BLOCK_SIZE;
          bitmap_block = sb_bitmap_start (sb m) + of_nat (start_byte div SMKFS_BLOCK_SIZE)
      in if end_bit \<le> start_bit then (0, m)
         else if rg_free_count (rs ! unat region) < count then (0, m)
         else if \<not> heap_ok m then (0, m)
         else case read_block m bitmap_block of
           (Inl e, m1) \<Rightarrow> (0, m1)
         | (Inr buf, m1) \<Rightarrow>
             (case find_run (\<lambda>b. bit (buf ! (block_offset + (b div 8 - start_byte))) (b mod 8))
                     (unat count) [start_bit..<end_bit] 0 0 of
                Inl _ \<Rightarrow> (0, m1)
              | Inr run_start \<Rightarrow>
                  let result = sb_data_start (sb m1) + of_nat run_start
                  in if result = 0 then (0, m1)
                     else
                       let buf1 = fold (\<lambda>b. set_bit_in (block_offset + (b div 8 - start_byte)) (b mod 8))
                                    [run_start..<run_start + unat count] buf
                       in case write_block m1 bitmap_block buf1 of
                         (st, m2) \<Rightarrow>
                           if st \<noteq> OK then (0, m2)
                           else
                             let l = journal_log_alloc (add_free_blocks (- ucast count) m2) result count;
                                 m3 = (if fst l \<noteq> OK then clear_all result (unat count) (snd l) else snd l);
                                 rs3 = the (regions m3);
                                 g = rs3 ! unat region
                             in (if fst l \<noteq> OK then 0 else result,
                                 m3\<lparr> regions := Some (rs3[unat region :=
                                       \<lparr> rg_free_count = rg_free_count g - count,
                                         rg_alloc_hint = of_nat ((run_start + unat count - start_bit)
                                           mod SMKFS_REGION_BLOCKS) \<rparr>]) \<rparr>)))"

section \<open>The linear fallback\<close>

text \<open>The bits of a found run are set one at a time; a failing transfer ends the loop.\<close>

fun linear_set :: "nat list \<Rightarrow> mount \<Rightarrow> bool \<times> mount" where
  "linear_set [] m = (True, m)"
| "linear_set (idx # is) m =
     (let b = sb_bitmap_start (sb m) + of_nat (idx div (SMKFS_BLOCK_SIZE * 8))
      in case read_block m b of
           (Inl e, m1) \<Rightarrow> (False, m1)
         | (Inr buf, m1) \<Rightarrow>
             (case write_block m1 b (set_bit_in (idx mod (SMKFS_BLOCK_SIZE * 8) div 8) (idx mod 8) buf) of
                (st, m2) \<Rightarrow> if st \<noteq> OK then (False, m2) else linear_set is m2))"

definition linear_take :: "nat \<Rightarrow> u32 \<Rightarrow> mount \<Rightarrow> u64 \<times> mount" where
  "linear_take run_start count m =
     (let first = sb_data_start (sb m) + of_nat run_start
      in case linear_set [run_start..<run_start + unat count] m of
           (False, m1) \<Rightarrow> (0, m1)
         | (True, m1) \<Rightarrow>
             let l = journal_log_alloc (add_free_blocks (- ucast count) m1) first count;
                 m2 = (if fst l \<noteq> OK then clear_all first (unat count) (snd l) else snd l)
             in (if fst l \<noteq> OK then 0 else first,
                 fold (\<lambda>b. region_claim (of_nat b)) [run_start..<run_start + unat count] m2))"

fun linear_scan :: "u32 \<Rightarrow> nat list \<Rightarrow> nat \<Rightarrow> nat \<Rightarrow> mount \<Rightarrow> u64 \<times> mount" where
  "linear_scan count [] run_start run_len m = (0, m)"
| "linear_scan count (bb # bbs) run_start run_len m =
     (case read_block m (sb_bitmap_start (sb m) + of_nat bb) of
        (Inl e, m1) \<Rightarrow> (0, m1)
      | (Inr buf, m1) \<Rightarrow>
          (case find_run (\<lambda>b. bit (buf ! (b mod (SMKFS_BLOCK_SIZE * 8) div 8)) (b mod 8)) (unat count)
                  [bb * (SMKFS_BLOCK_SIZE * 8)..<
                     min (bb * (SMKFS_BLOCK_SIZE * 8) + SMKFS_BLOCK_SIZE * 8) (unat (data_blocks m))]
                  run_start run_len of
             Inr start \<Rightarrow> linear_take start count m1
           | Inl (run_start1, run_len1) \<Rightarrow> linear_scan count bbs run_start1 run_len1 m1))"

definition bitmap_alloc_range_linear :: "mount \<Rightarrow> u32 \<Rightarrow> u64 \<times> mount" where
  "bitmap_alloc_range_linear m count =
     (if count = 0 then (0, m)
      else if \<not> heap_ok m then (0, m)
      else linear_scan count [0..<unat (sb_bitmap_length (sb m))] 0 0 m)"

section \<open>The public allocators\<close>

text \<open>\<open>hint\<close> maps the region that was used to the one where the next search starts.\<close>

fun region_search :: "(u32 \<Rightarrow> u32) \<Rightarrow> u32 \<Rightarrow> u32 \<Rightarrow> nat list \<Rightarrow> mount \<Rightarrow> u64 \<times> mount" where
  "region_search hint start count [] m = bitmap_alloc_range_linear m count"
| "region_search hint start count (r # rs) m =
     (let region = (start + of_nat r) mod region_count m
      in if rg_free_count (the (regions m) ! unat region) \<ge> count
         then (case bitmap_alloc_in_region m region count of
                 (block, m1) \<Rightarrow>
                   if block \<noteq> 0 then (block, m1\<lparr> alloc_hint_region := hint region \<rparr>)
                   else region_search hint start count rs m1)
         else region_search hint start count rs m)"

definition bitmap_alloc :: "mount \<Rightarrow> u64 \<times> mount" where
  "bitmap_alloc m =
     (if regions m = None then bitmap_alloc_range_linear m 1
      else region_search (\<lambda>r. r) (alloc_hint_region m) 1 [0..<unat (region_count m)] m)"

definition bitmap_alloc_range :: "mount \<Rightarrow> u32 \<Rightarrow> u64 \<times> mount" where
  "bitmap_alloc_range m count =
     (if count = 0 then (0, m)
      else if count = 1 then bitmap_alloc m
      else if regions m \<noteq> None \<and> unat count \<le> SMKFS_REGION_BLOCKS
      then region_search (\<lambda>r. (r + 1) mod region_count m) (alloc_hint_region m) count
             [0..<unat (region_count m)] m
      else bitmap_alloc_range_linear m count)"

text \<open>
  \<open>bitmap_free_range\<close>: blocks below the data area are skipped, the journal is told the
  start of the range and the number of bits that were set in it.
\<close>

fun free_loop :: "u64 \<Rightarrow> nat list \<Rightarrow> u32 \<Rightarrow> mount \<Rightarrow> (status + u32) \<times> mount" where
  "free_loop start [] freed m = (Inr freed, m)"
| "free_loop start (i # is) freed m =
     (let block = start + of_nat i
      in if block < sb_data_start (sb m) then free_loop start is freed m
         else
           let idx = block - sb_data_start (sb m);
               b = sb_bitmap_start (sb m) + idx div of_nat (SMKFS_BLOCK_SIZE * 8)
           in bindE (orE (read_block m b) ERR_IO) (\<lambda>buf m1.
                if bit (buf ! bm_byte idx) (bm_bit idx)
                then thenE (orS (write_block (region_release idx m1) b
                                   (clear_bit_in (bm_byte idx) (bm_bit idx) buf)) ERR_IO)
                       (free_loop start is (freed + 1))
                else thenE (orS (write_block m1 b buf) ERR_IO) (free_loop start is freed)))"

definition bitmap_free_range :: "mount \<Rightarrow> u64 \<Rightarrow> u32 \<Rightarrow> status \<times> mount" where
  "bitmap_free_range m start count =
     (if count = 0 then (ERR_INVAL, m)
      else if \<not> heap_ok m then (ERR_NOMEM, m)
      else bindS (free_loop start [0..<unat count] 0 m) (\<lambda>freed m1.
        if freed > 0
        then (case journal_log_free m1 start freed of
                (st, m2) \<Rightarrow>
                  if st \<noteq> OK then (ERR_JOURNAL, set_all start (unat freed) m2)
                  else (OK, add_free_blocks (ucast freed) m2))
        else (OK, m1)))"

section \<open>The bitmap as a set of used blocks\<close>

text \<open>
  \<open>used m i\<close> is what the bitmap says of the \<open>i\<close>-th data block. The layout of the volume
  (\<open>layout_eq\<close>) is the part of the superblock that the allocator does not change, and
  \<open>keeps\<close> that it touches no block outside the journal and the bitmap.
\<close>

definition used :: "mount \<Rightarrow> nat \<Rightarrow> bool" where
  "used m i \<longleftrightarrow> bit (block_view m (sb_bitmap_start (sb m) + of_nat (i div 32768))
     ! (i mod 32768 div 8)) (i mod 8)"

definition ndata :: "mount \<Rightarrow> nat" where
  "ndata m = unat (data_blocks m)"

definition layout_eq :: "superblock \<Rightarrow> superblock \<Rightarrow> bool" where
  "layout_eq s t \<longleftrightarrow> sb_total_blocks t = sb_total_blocks s \<and> sb_sector_size t = sb_sector_size s \<and>
     sb_mrt_start t = sb_mrt_start s \<and> sb_mrt_length t = sb_mrt_length s \<and>
     sb_mrt_capacity t = sb_mrt_capacity s \<and> sb_journal_start t = sb_journal_start s \<and>
     sb_journal_length t = sb_journal_length s \<and> sb_bitmap_start t = sb_bitmap_start s \<and>
     sb_bitmap_length t = sb_bitmap_length s \<and> sb_data_start t = sb_data_start s \<and>
     sb_root_record_id t = sb_root_record_id s"

lemma layout_eq_refl [simp]: "layout_eq s s"
  by (simp add: layout_eq_def)

lemma layout_eq_trans: "layout_eq s t \<Longrightarrow> layout_eq t u \<Longrightarrow> layout_eq s u"
  by (simp add: layout_eq_def)

lemma unat_lt64: "unat (w :: u64) < 2 ^ 64"
  using unsigned_less [of w] by simp

lemma unat_lt32: "unat (w :: u32) < 2 ^ 32"
  using unsigned_less [of w] by simp

lemma geom_data:
  assumes "geom (sb m)"
  shows "ndata m = unat (sb_total_blocks (sb m)) - unat (sb_data_start (sb m))"
    and "ndata m \<le> unat (sb_bitmap_length (sb m)) * 32768"
    and "unat (sb_bitmap_length (sb m)) * 32768 < 2 ^ 64"
    and "i < ndata m \<Longrightarrow> unat (sb_data_start (sb m) + of_nat i) = unat (sb_data_start (sb m)) + i"
    and "i < ndata m \<Longrightarrow> blk_ok (sb_data_start (sb m) + of_nat i)"
proof -
  have le: "sb_data_start (sb m) \<le> sb_total_blocks (sb m)"
    using assms by (simp add: geom_def word_le_nat_alt)
  show n: "ndata m = unat (sb_total_blocks (sb m)) - unat (sb_data_start (sb m))"
    by (simp add: ndata_def data_blocks_def unat_sub_le le)
  show "ndata m \<le> unat (sb_bitmap_length (sb m)) * 32768"
    using assms n by (simp add: geom_def)
  have "unat (sb_bitmap_length (sb m)) \<le> 0x2000000" using assms by (simp add: geom_def)
  then show "unat (sb_bitmap_length (sb m)) * 32768 < 2 ^ 64" by simp
  assume i: "i < ndata m"
  then have small: "i < 0x2000000" using assms n by (auto simp: geom_def)
  then have u: "unat (of_nat i :: u64) = i" by (simp add: unat_of_nat_small)
  show d: "unat (sb_data_start (sb m) + of_nat i) = unat (sb_data_start (sb m)) + i"
    using assms i n u by (subst unat_add_small) (simp_all add: geom_def)
  show "blk_ok (sb_data_start (sb m) + of_nat i)"
    using assms i n d by (auto simp: blk_ok_unat geom_def)
qed

text \<open>The bitmap block of bit \<open>i\<close>, and bits of different blocks.\<close>

lemma bm_blk:
  assumes "geom (sb m)" "i < unat (sb_bitmap_length (sb m)) * 32768"
  shows "unat (sb_bitmap_start (sb m) + of_nat (i div 32768)) = unat (sb_bitmap_start (sb m)) + i div 32768"
    and "blk_ok (sb_bitmap_start (sb m) + of_nat (i div 32768))"
    and "sb_journal_start (sb m) + sb_journal_length (sb m) \<le> sb_bitmap_start (sb m) + of_nat (i div 32768)"
    and "sb_bitmap_start (sb m) + of_nat (i div 32768) < sb_mrt_start (sb m)"
    and "sb_bitmap_start (sb m) + of_nat (i div 32768) \<noteq> 0"
proof -
  have lt: "i div 32768 < unat (sb_bitmap_length (sb m))" using assms(2) by (simp add: less_mult_imp_div_less)
  then have "i div 32768 < 2 ^ 64" using unat_lt64 [of "sb_bitmap_length (sb m)"] by linarith
  then have u: "unat (of_nat (i div 32768) :: u64) = i div 32768" by (intro unat_of_nat_small) simp
  note B = bitmap_block [OF assms(1), of "of_nat (i div 32768)", unfolded u, OF lt]
  show un: "unat (sb_bitmap_start (sb m) + of_nat (i div 32768)) = unat (sb_bitmap_start (sb m)) + i div 32768"
    by (rule B(1))
  show "blk_ok (sb_bitmap_start (sb m) + of_nat (i div 32768))" by (rule B(2))
  show "sb_bitmap_start (sb m) + of_nat (i div 32768) < sb_mrt_start (sb m)"
    using B(3) by (simp add: word_less_nat_alt)
  have "unat (sb_journal_start (sb m) + sb_journal_length (sb m)) \<le> unat (sb_journal_start (sb m)) + unat (sb_journal_length (sb m))"
    by (simp add: unat_word_ariths)
  then show "sb_journal_start (sb m) + sb_journal_length (sb m) \<le> sb_bitmap_start (sb m) + of_nat (i div 32768)"
    using un assms(1) by (simp add: word_le_nat_alt geom_def)
  show "sb_bitmap_start (sb m) + of_nat (i div 32768) \<noteq> 0"
    using un assms(1) by (metis add_is_0 geom_def gr_implies_not0 le_zero_eq unat_0)
qed

lemma same_bit:
  fixes i j :: nat
  assumes "i div 32768 = j div 32768" "i mod 32768 div 8 = j mod 32768 div 8" "i mod 8 = j mod 8"
  shows "i = j"
proof -
  have "i mod 32768 mod 8 = i mod 8" "j mod 32768 mod 8 = j mod 8" by (simp_all add: mod_mod_cancel)
  then have "i mod 32768 = j mod 32768" using assms(2,3) by (metis div_mult_mod_eq)
  then show ?thesis using assms(1) by (metis div_mult_mod_eq)
qed

lemma used_off: "(i::nat) mod 32768 div 8 < 4096"
  by (simp add: less_mult_imp_div_less)

text \<open>The C code's positions, for an index given as a number.\<close>

lemma bm_pos:
  assumes "unat idx = i"
  shows "bm_block m idx = sb_bitmap_start (sb m) + of_nat (i div 32768)"
    and "bm_byte idx = i mod 32768 div 8" and "bm_bit idx = i mod 8"
    and "idx div 32768 = of_nat (i div 32768)"
proof -
  have "i div 32768 < 2 ^ 64" using unat_lt64 [of idx] assms by linarith
  then have u: "unat (of_nat (i div 32768) :: u64) = i div 32768" by (intro unat_of_nat_small) simp
  have "unat (idx div 8 div 4096) = i div 32768"
    by (simp add: unat_div assms flip: div_mult2_eq)
  then have "idx div 8 div 4096 = (of_nat (i div 32768) :: u64)"
    using u by (metis word_unat_eq_iff)
  then show "bm_block m idx = sb_bitmap_start (sb m) + of_nat (i div 32768)"
    by (simp add: bm_block_def)
  have "unat (idx div 32768) = i div 32768" by (simp add: unat_div assms)
  then show "idx div 32768 = (of_nat (i div 32768) :: u64)"
    using u by (metis word_unat_eq_iff)
  have "i div 8 mod 4096 = i mod 32768 div 8"
    using mod_mult2_eq [of i 8 4096] by (simp add: div_mult2_eq mod_mult2_eq)
  then show "bm_byte idx = i mod 32768 div 8"
    by (simp add: bm_byte_def unat_mod unat_div assms)
  show "bm_bit idx = i mod 8" by (simp add: bm_bit_def unat_mod assms)
qed


section \<open>What the allocator leaves alone\<close>

definition alloc_frame :: "mount \<Rightarrow> mount \<Rightarrow> bool" where
  "alloc_frame m m' \<longleftrightarrow> layout_eq (sb m) (sb m') \<and>
     sb_record_count (sb m') = sb_record_count (sb m) \<and>
     sb_next_record_id (sb m') = sb_next_record_id (sb m) \<and>
     sb_mrt_free_count (sb m') = sb_mrt_free_count (sb m) \<and>
     heap_ok m' = heap_ok m \<and> journal_in_transaction m' = journal_in_transaction m \<and>
     fd_table m' = fd_table m \<and> mounted m' = mounted m \<and> region_count m' = region_count m \<and>
     (regions m' = None) = (regions m = None) \<and>
     (\<forall>c. blk_ok c \<and> (c = 0 \<or> sb_mrt_start (sb m) \<le> c) \<longrightarrow> block_view m' c = block_view m c)"

lemma alloc_frame_refl [simp]: "alloc_frame m m"
  by (simp add: alloc_frame_def)

lemma alloc_frame_trans: "alloc_frame m m1 \<Longrightarrow> alloc_frame m1 m2 \<Longrightarrow> alloc_frame m m2"
  by (simp add: alloc_frame_def layout_eq_def)

lemma alloc_frameD:
  assumes "alloc_frame m m'"
  shows "layout_eq (sb m) (sb m')" "ndata m' = ndata m" "sb_bitmap_length (sb m') = sb_bitmap_length (sb m)"
    "sb_data_start (sb m') = sb_data_start (sb m)" "heap_ok m' = heap_ok m"
    "sb_bitmap_start (sb m') = sb_bitmap_start (sb m)"
    "journal_in_transaction m' = journal_in_transaction m"
    "region_count m' = region_count m" "(regions m' = None) = (regions m = None)"
    "data_blocks m' = data_blocks m"
  using assms by (auto simp: alloc_frame_def layout_eq_def ndata_def data_blocks_def)

lemma regions_id: "regions m = x \<Longrightarrow> m\<lparr> regions := x \<rparr> = m"
  by (cases m) simp

lemma region_claim_regions: obtains x where "region_claim idx m = m\<lparr> regions := x \<rparr>" "(x = None) = (regions m = None)"
proof
  show "region_claim idx m = m\<lparr> regions := regions (region_claim idx m) \<rparr>"
    by (simp add: region_claim_def Let_def regions_id split: option.split)
qed (simp add: region_claim_def Let_def split: option.split)

lemma region_release_regions: obtains x where "region_release idx m = m\<lparr> regions := x \<rparr>" "(x = None) = (regions m = None)"
proof
  show "region_release idx m = m\<lparr> regions := regions (region_release idx m) \<rparr>"
    by (simp add: region_release_def Let_def regions_id split: option.split)
qed (simp add: region_release_def Let_def split: option.split)

lemma add_free_blocks_simps [simp]:
  "block_view (add_free_blocks n m) = block_view m"
  "sound (add_free_blocks n m) = sound m"
  "vol_ok (add_free_blocks n m) = vol_ok m"
  "sb (add_free_blocks n m) = (sb m)\<lparr> sb_free_blocks := sb_free_blocks (sb m) + n \<rparr>"
  "regions (add_free_blocks n m) = regions m" "heap_ok (add_free_blocks n m) = heap_ok m"
  "journal_in_transaction (add_free_blocks n m) = journal_in_transaction m"
  "fd_table (add_free_blocks n m) = fd_table m" "mounted (add_free_blocks n m) = mounted m"
  "region_count (add_free_blocks n m) = region_count m"
  "journal_next_sequence (add_free_blocks n m) = journal_next_sequence m"
  "used (add_free_blocks n m) = used m" "ndata (add_free_blocks n m) = ndata m"
  by (auto simp: add_free_blocks_def sound_def vol_ok_def used_def fun_eq_iff ndata_def data_blocks_def)

lemma used_regions [simp]: "used (m\<lparr> regions := x \<rparr>) = used m"
  by (simp add: used_def fun_eq_iff)

lemma ndata_regions [simp]: "ndata (m\<lparr> regions := x \<rparr>) = ndata m" "data_blocks (m\<lparr> regions := x \<rparr>) = data_blocks m"
  by (simp_all add: ndata_def data_blocks_def)

text \<open>Two bit numbers whose bitmap blocks are the same block are in the same 32768 bits.\<close>

lemma bm_blk_eq:
  assumes "geom (sb m)" "i < unat (sb_bitmap_length (sb m)) * 32768" "j < unat (sb_bitmap_length (sb m)) * 32768"
  shows "sb_bitmap_start (sb m) + of_nat (i div 32768) = sb_bitmap_start (sb m) + of_nat (j div 32768)
    \<longleftrightarrow> i div 32768 = j div 32768"
  using bm_blk(1) [OF assms(1,2)] bm_blk(1) [OF assms(1,3)] by (metis add_left_cancel)

lemma used_write:
  assumes "geom (sb m)" "i < unat (sb_bitmap_length (sb m)) * 32768" "j < unat (sb_bitmap_length (sb m)) * 32768"
    and "sb_bitmap_start (sb m') = sb_bitmap_start (sb m)"
    and "\<And>c. blk_ok c \<Longrightarrow> block_view m' c =
      (if c = sb_bitmap_start (sb m) + of_nat (i div 32768) then buf else block_view m c)"
  shows "used m' j \<longleftrightarrow> (if j div 32768 = i div 32768
    then bit (buf ! (j mod 32768 div 8)) (j mod 8) else used m j)"
  using assms(5) [OF bm_blk(2) [OF assms(1,3)]] bm_blk_eq [OF assms(1,3,2)] assms(4)
  by (simp add: used_def)

lemma used_same:
  assumes "geom (sb m)" "j < unat (sb_bitmap_length (sb m)) * 32768"
    and "sb_bitmap_start (sb m') = sb_bitmap_start (sb m)"
    and "\<And>c. blk_ok c \<Longrightarrow> sb_journal_start (sb m) + sb_journal_length (sb m) \<le> c \<Longrightarrow>
      block_view m' c = block_view m c"
  shows "used m' j \<longleftrightarrow> used m j"
  using assms(4) [OF bm_blk(2,3) [OF assms(1,2)]] assms(3) by (simp add: used_def)

section \<open>Setting and clearing one bit\<close>

text \<open>
  The outcome of an operation that changes at most one bit: \<open>m'\<close> is a sound volume with the
  frame kept, \<open>P\<close> its bits and \<open>n\<close> added to the free count.
\<close>

definition bits_now :: "mount \<Rightarrow> (nat \<Rightarrow> bool) \<Rightarrow> u64 \<Rightarrow> mount \<Rightarrow> bool" where
  "bits_now m P n m' \<longleftrightarrow> sound m' \<and> alloc_frame m m' \<and>
     (\<forall>j < unat (sb_bitmap_length (sb m)) * 32768. used m' j \<longleftrightarrow> P j) \<and>
     sb_free_blocks (sb m') = sb_free_blocks (sb m) + n"

lemma bits_now_refl: "sound m \<Longrightarrow> bits_now m (used m) 0 m"
  by (simp add: bits_now_def)

lemma bits_now_trans:
  assumes "bits_now m P n m1" "bits_now m1 Q k m2"
    and "\<And>j. j < unat (sb_bitmap_length (sb m)) * 32768 \<Longrightarrow> Q j = R j"
  shows "bits_now m R (n + k) m2"
  using assms alloc_frame_trans [of m m1 m2]
  by (auto simp: bits_now_def alloc_frame_def layout_eq_def add.assoc)

lemma bits_now_cong:
  "bits_now m P n m' \<Longrightarrow> (\<And>j. j < unat (sb_bitmap_length (sb m)) * 32768 \<Longrightarrow> P j = Q j) \<Longrightarrow> n = k \<Longrightarrow> bits_now m Q k m'"
  by (simp add: bits_now_def)

lemma read_block_now:
  assumes "sound m" "blk_ok b"
  shows "bits_now m (used m) 0 (snd (read_block m b))"
    and "blk_ok c \<Longrightarrow> block_view (snd (read_block m b)) c = block_view m c"
proof -
  have i: "cache_inv m" using soundD(4) [OF assms(1)] .
  show v: "blk_ok c \<Longrightarrow> block_view (snd (read_block m b)) c = block_view m c" for c
    using cache.rd_view [OF i assms(2)] .
  have "used (snd (read_block m b)) j = used m j" if "j < unat (sb_bitmap_length (sb m)) * 32768" for j
    using v bm_blk(2) [OF vol_okD(3) [OF soundD(1) [OF assms(1)]] that] by (simp add: used_def)
  then show "bits_now m (used m) 0 (snd (read_block m b))"
    using sound_read_block(2) [OF assms] v by (simp add: bits_now_def alloc_frame_def)
qed

lemma bm_write_now:
  assumes "sound m" "i < unat (sb_bitmap_length (sb m)) * 32768" "length buf = 4096"
  defines "b \<equiv> sb_bitmap_start (sb m) + of_nat (i div 32768)"
  shows "fst (write_block m b buf) = OK"
    and "bits_now m (\<lambda>j. if j div 32768 = i div 32768 then bit (buf ! (j mod 32768 div 8)) (j mod 8) else used m j)
           0 (snd (write_block m b buf))"
proof -
  have g: "geom (sb m)" by (rule vol_okD(3) [OF soundD(1) [OF assms(1)]])
  note B = bm_blk [OF g assms(2), folded b_def]
  show ok: "fst (write_block m b buf) = OK" using sound_write_block(1) [OF assms(1) B(2) assms(3)] .
  have v: "blk_ok c \<Longrightarrow> block_view (snd (write_block m b buf)) c = (if c = b then buf else block_view m c)" for c
    using cache.wr_view [OF soundD(4) [OF assms(1)] B(2) _ assms(3)] ok by simp
  have "b < sb_mrt_start (sb m)" "b \<noteq> 0" using B(4,5) by simp_all
  then have "alloc_frame m (snd (write_block m b buf))"
    using v by (auto simp: alloc_frame_def)
  then show "bits_now m (\<lambda>j. if j div 32768 = i div 32768 then bit (buf ! (j mod 32768 div 8)) (j mod 8) else used m j)
           0 (snd (write_block m b buf))"
    using sound_write_block(2) [OF assms(1) B(2) assms(3)] used_write [OF g assms(2), of _ "snd (write_block m b buf)" buf] v
    by (simp add: bits_now_def b_def)
qed

lemma bit_write_now:
  assumes "sound m" "i < unat (sb_bitmap_length (sb m)) * 32768"
  defines "b \<equiv> sb_bitmap_start (sb m) + of_nat (i div 32768)"
  shows "bits_now m (\<lambda>j. j = i \<or> used m j) 0
           (snd (write_block m b (set_bit_in (i mod 32768 div 8) (i mod 8) (block_view m b))))"
    and "bits_now m (\<lambda>j. j \<noteq> i \<and> used m j) 0
           (snd (write_block m b (clear_bit_in (i mod 32768 div 8) (i mod 8) (block_view m b))))"
proof -
  have l: "length (block_view m b) = 4096"
    using cache.view_length soundD(4) [OF assms(1)] by simp
  have l1: "length (set_bit_in x y (block_view m b)) = 4096" "length (clear_bit_in x y (block_view m b)) = 4096" for x y
    using l by simp_all
  have off: "j mod 32768 div 8 < length (block_view m b)" for j :: nat
    using l used_off by simp
  have u: "j div 32768 = i div 32768 \<Longrightarrow> used m j = bit (block_view m b ! (j mod 32768 div 8)) (j mod 8)" for j
    by (simp add: used_def b_def)
  have same: "j div 32768 = i div 32768 \<Longrightarrow>
    (j mod 32768 div 8 = i mod 32768 div 8 \<and> j mod 8 = i mod 8) = (j = i)" for j
    using same_bit by blast
  show "bits_now m (\<lambda>j. j = i \<or> used m j) 0
           (snd (write_block m b (set_bit_in (i mod 32768 div 8) (i mod 8) (block_view m b))))"
    by (rule bits_now_cong [OF bm_write_now(2) [OF assms(1,2) l1(1), folded b_def]])
      (use same u in \<open>auto simp: bit_set_bit_in [OF off off]\<close>)
  show "bits_now m (\<lambda>j. j \<noteq> i \<and> used m j) 0
           (snd (write_block m b (clear_bit_in (i mod 32768 div 8) (i mod 8) (block_view m b))))"
    by (rule bits_now_cong [OF bm_write_now(2) [OF assms(1,2) l1(2), folded b_def]])
      (use same u in \<open>auto simp: bit_clear_bit_in [OF off off]\<close>)
qed


lemma bits_now_regions:
  "bits_now m P n m' \<Longrightarrow> (x = None) = (regions m' = None) \<Longrightarrow> bits_now m P n (m'\<lparr> regions := x \<rparr>)"
  by (simp add: bits_now_def alloc_frame_def)

lemma add_free_now: "sound m \<Longrightarrow> bits_now m (used m) n (add_free_blocks n m)"
  by (simp add: bits_now_def alloc_frame_def layout_eq_def)

lemma bits_nowD:
  assumes "bits_now m P n m'"
  shows "sound m'" "alloc_frame m m'" "j < unat (sb_bitmap_length (sb m)) * 32768 \<Longrightarrow> used m' j \<longleftrightarrow> P j"
    "sb_free_blocks (sb m') = sb_free_blocks (sb m) + n"
    "sb_bitmap_start (sb m') = sb_bitmap_start (sb m)" "sb_bitmap_length (sb m') = sb_bitmap_length (sb m)"
    "sb_data_start (sb m') = sb_data_start (sb m)" "ndata m' = ndata m" "(regions m' = None) = (regions m = None)"
    "heap_ok m' = heap_ok m" "region_count m' = region_count m"
  using assms alloc_frameD [of m m'] by (auto simp: bits_now_def)

lemma block_index:
  assumes "geom (sb m)" "i < ndata m"
  shows "\<not> sb_data_start (sb m) + of_nat i < sb_data_start (sb m)"
    and "unat (sb_data_start (sb m) + of_nat i - sb_data_start (sb m)) = i"
    and "i < unat (sb_bitmap_length (sb m)) * 32768"
proof -
  show "i < unat (sb_bitmap_length (sb m)) * 32768" using geom_data(2) [OF assms(1)] assms(2) by simp
  then have "i < 2 ^ 64" using geom_data(3) [OF assms(1)] by linarith
  then have "unat (of_nat i :: u64) = i" by (simp add: unat_of_nat_small)
  then show "unat (sb_data_start (sb m) + of_nat i - sb_data_start (sb m)) = i" by simp
  show "\<not> sb_data_start (sb m) + of_nat i < sb_data_start (sb m)"
    using geom_data(4) [OF assms] by (simp add: word_less_nat_alt)
qed

lemma read_block_pair:
  assumes "read_block m b = (r, m1)"
  shows "sb m1 = sb m" "journal_in_transaction m1 = journal_in_transaction m"
  using read_block_fields(3,5) [of m b] unfolding assms by (simp_all only: prod.sel)

lemma read_hit_now:
  assumes "sound m" "i < unat (sb_bitmap_length (sb m)) * 32768"
  defines "b \<equiv> sb_bitmap_start (sb m) + of_nat (i div 32768)"
  obtains m1 where "read_block m b = (Inr (block_view m1 b), m1)" "bits_now m (used m) 0 m1"
    "bit (block_view m1 b ! (i mod 32768 div 8)) (i mod 8) = used m i"
proof -
  have B: "blk_ok b" using bm_blk(2) [OF vol_okD(3) [OF soundD(1) [OF assms(1)]] assms(2)] by (simp add: b_def)
  let ?m1 = "snd (read_block m b)"
  have v: "block_view ?m1 b = block_view m b" using read_block_now(2) [OF assms(1) B B] .
  have "read_block m b = (Inr (block_view ?m1 b), ?m1)"
    using sound_read_block(1) [OF assms(1) B] v by (metis prod.collapse)
  moreover have "bit (block_view ?m1 b ! (i mod 32768 div 8)) (i mod 8) = used m i"
    using v by (simp add: used_def b_def)
  ultimately show thesis using that read_block_now(1) [OF assms(1) B] by blast
qed

lemma bitmap_set_sound:
  assumes "sound m" "i < ndata m"
  defines "r \<equiv> bitmap_set m (sb_data_start (sb m) + of_nat i)"
  shows "fst r = OK"
    and "bits_now m (\<lambda>j. j = i \<or> used m j) (if used m i then 0 else - 1) (snd r)"
proof -
  note I = block_index [OF vol_okD(3) [OF soundD(1) [OF assms(1)]] assms(2)]
  note P = bm_pos [OF I(2)]
  let ?b = "sb_bitmap_start (sb m) + of_nat (i div 32768)"
  obtain m1 where rd: "read_block m ?b = (Inr (block_view m1 ?b), m1)" and m1: "bits_now m (used m) 0 m1"
    and ub: "bit (block_view m1 ?b ! (i mod 32768 div 8)) (i mod 8) = used m i"
    using read_hit_now [OF assms(1) I(3)] by blast
  define idx where "idx = sb_data_start (sb m) + of_nat i - sb_data_start (sb m)"
  define m2 where "m2 = (if \<not> used m i then region_claim idx (add_free_blocks (- 1) m1) else m1)"
  obtain x where x: "region_claim idx (add_free_blocks (- 1) m1) = (add_free_blocks (- 1) m1)\<lparr> regions := x \<rparr>"
      "(x = None) = (regions (add_free_blocks (- 1) m1) = None)"
    by (rule region_claim_regions)
  have "bits_now m (used m) (0 + (- 1)) (add_free_blocks (- 1) m1)"
    using bits_now_trans [OF m1 add_free_now [OF bits_nowD(1) [OF m1]]] bits_nowD(3) [OF m1] by blast
  then have "bits_now m (used m) (- 1) (region_claim idx (add_free_blocks (- 1) m1))"
    using x by (simp add: bits_now_regions)
  then have m2: "bits_now m (used m) (if used m i then 0 else - 1) m2" using m1 by (simp add: m2_def)
  have v2: "block_view m2 = block_view m1" using x by (simp add: m2_def)
  let ?w = "write_block m2 ?b (set_bit_in (i mod 32768 div 8) (i mod 8) (block_view m1 ?b))"
  have "fst ?w = OK"
    using bm_write_now(1) [OF bits_nowD(1) [OF m2], of i] I(3) bits_nowD(5,6) [OF m2]
      cache.view_length [of m1 ?b] soundD(4) [OF bits_nowD(1) [OF m1]] by simp
  moreover have r: "r = orS ?w ERR_IO"
    using I(1) soundD(3) [OF assms(1)] rd ub P
    unfolding r_def bitmap_set_def Let_def idx_def [symmetric] by (simp add: m2_def idx_def [symmetric])
  ultimately show "fst r = OK" by (simp add: orS_def)
  have "bits_now m2 (\<lambda>j. j = i \<or> used m2 j) 0 (snd ?w)"
    using bit_write_now(1) [OF bits_nowD(1) [OF m2], of i] I(3) bits_nowD(5,6) [OF m2] v2 by simp
  then have "bits_now m (\<lambda>j. j = i \<or> used m j) ((if used m i then 0 else - 1) + 0) (snd ?w)"
    by (rule bits_now_trans [OF m2]) (simp add: bits_nowD(3) [OF m2])
  then show "bits_now m (\<lambda>j. j = i \<or> used m j) (if used m i then 0 else - 1) (snd r)"
    by (simp add: r)
qed

lemma bitmap_clear_sound:
  assumes "sound m" "i < ndata m"
  defines "r \<equiv> bitmap_clear m (sb_data_start (sb m) + of_nat i)"
  shows "fst r = OK"
    and "bits_now m (\<lambda>j. j \<noteq> i \<and> used m j) (if used m i then 1 else 0) (snd r)"
proof -
  note I = block_index [OF vol_okD(3) [OF soundD(1) [OF assms(1)]] assms(2)]
  note P = bm_pos [OF I(2)]
  let ?b = "sb_bitmap_start (sb m) + of_nat (i div 32768)"
  obtain m1 where rd: "read_block m ?b = (Inr (block_view m1 ?b), m1)" and m1: "bits_now m (used m) 0 m1"
    and ub: "bit (block_view m1 ?b ! (i mod 32768 div 8)) (i mod 8) = used m i"
    using read_hit_now [OF assms(1) I(3)] by blast
  define idx where "idx = sb_data_start (sb m) + of_nat i - sb_data_start (sb m)"
  define m2 where "m2 = (if used m i then region_release idx (add_free_blocks 1 m1) else m1)"
  obtain x where x: "region_release idx (add_free_blocks 1 m1) = (add_free_blocks 1 m1)\<lparr> regions := x \<rparr>"
      "(x = None) = (regions (add_free_blocks 1 m1) = None)"
    by (rule region_release_regions)
  have "bits_now m (used m) (0 + 1) (add_free_blocks 1 m1)"
    using bits_now_trans [OF m1 add_free_now [OF bits_nowD(1) [OF m1]]] bits_nowD(3) [OF m1] by blast
  then have "bits_now m (used m) 1 (region_release idx (add_free_blocks 1 m1))"
    using x by (simp add: bits_now_regions)
  then have m2: "bits_now m (used m) (if used m i then 1 else 0) m2" using m1 by (simp add: m2_def)
  have v2: "block_view m2 = block_view m1" using x by (simp add: m2_def)
  let ?w = "write_block m2 ?b (clear_bit_in (i mod 32768 div 8) (i mod 8) (block_view m1 ?b))"
  have "fst ?w = OK"
    using bm_write_now(1) [OF bits_nowD(1) [OF m2], of i] I(3) bits_nowD(5,6) [OF m2]
      cache.view_length [of m1 ?b] soundD(4) [OF bits_nowD(1) [OF m1]] by simp
  moreover have r: "r = orS ?w ERR_IO"
    using I(1) soundD(3) [OF assms(1)] rd ub P
    unfolding r_def bitmap_clear_def Let_def idx_def [symmetric] by (simp add: m2_def idx_def [symmetric])
  ultimately show "fst r = OK" by (simp add: orS_def)
  have "bits_now m2 (\<lambda>j. j \<noteq> i \<and> used m2 j) 0 (snd ?w)"
    using bit_write_now(2) [OF bits_nowD(1) [OF m2], of i] I(3) bits_nowD(5,6) [OF m2] v2 by simp
  then have "bits_now m (\<lambda>j. j \<noteq> i \<and> used m j) ((if used m i then 1 else 0) + 0) (snd ?w)"
    by (rule bits_now_trans [OF m2]) (simp add: bits_nowD(3) [OF m2])
  then show "bits_now m (\<lambda>j. j \<noteq> i \<and> used m j) (if used m i then 1 else 0) (snd r)"
    by (simp add: r)
qed

lemma bitmap_test_sound:
  assumes "sound m" "i < ndata m"
  shows "\<exists>m'. bitmap_test m (sb_data_start (sb m) + of_nat i) = (Inr (used m i), m') \<and> bits_now m (used m) 0 m'"
proof -
  note I = block_index [OF vol_okD(3) [OF soundD(1) [OF assms(1)]] assms(2)]
  note P = bm_pos [OF I(2)]
  obtain m1 where rd: "read_block m (sb_bitmap_start (sb m) + of_nat (i div 32768)) =
      (Inr (block_view m1 (sb_bitmap_start (sb m) + of_nat (i div 32768))), m1)"
    and m1: "bits_now m (used m) 0 m1"
    and ub: "bit (block_view m1 (sb_bitmap_start (sb m) + of_nat (i div 32768)) ! (i mod 32768 div 8)) (i mod 8) = used m i"
    using read_hit_now [OF assms(1) I(3)] by blast
  then show ?thesis using I(1) soundD(3) [OF assms(1)] P by (simp add: bitmap_test_def Let_def)
qed

text \<open>The undo of an allocation: the run's bits are cleared and counted.\<close>

lemma clear_all_sound:
  assumes "sound m" "s + n \<le> ndata m"
    and "\<And>j. s \<le> j \<Longrightarrow> j < s + n \<Longrightarrow> used m j"
  shows "bits_now m (\<lambda>j. \<not> (s \<le> j \<and> j < s + n) \<and> used m j) (of_nat n)
    (clear_all (sb_data_start (sb m) + of_nat s) n m)"
  using assms(2,3)
proof (induction n)
  case 0
  then show ?case using bits_now_refl [OF assms(1)] by (simp add: clear_all_def)
next
  case (Suc n)
  let ?m1 = "clear_all (sb_data_start (sb m) + of_nat s) n m"
  have m1: "bits_now m (\<lambda>j. \<not> (s \<le> j \<and> j < s + n) \<and> used m j) (of_nat n) ?m1"
    using Suc by simp
  have lt: "s + n < ndata ?m1" using Suc.prems(1) bits_nowD(8) [OF m1] by simp
  note C = bitmap_clear_sound(2) [OF bits_nowD(1) [OF m1] lt]
  have lt2: "s + n < unat (sb_bitmap_length (sb m)) * 32768"
    using block_index(3) [OF vol_okD(3) [OF soundD(1) [OF assms(1)]], of "s + n"] Suc.prems(1) by simp
  have "used ?m1 (s + n)" using Suc.prems(2) [of "s + n"] bits_nowD(3) [OF m1 lt2] by simp
  then have "bits_now ?m1 (\<lambda>j. j \<noteq> s + n \<and> used ?m1 j) 1
      (snd (bitmap_clear ?m1 (sb_data_start (sb m) + of_nat (s + n))))"
    using C bits_nowD(7) [OF m1] by simp
  moreover have "clear_all (sb_data_start (sb m) + of_nat s) (Suc n) m =
      snd (bitmap_clear ?m1 (sb_data_start (sb m) + of_nat (s + n)))"
    by (simp add: clear_all_def add.assoc)
  ultimately have "bits_now m (\<lambda>j. \<not> (s \<le> j \<and> j < s + Suc n) \<and> used m j) (of_nat n + 1)
      (clear_all (sb_data_start (sb m) + of_nat s) (Suc n) m)"
    using bits_nowD(3) [OF m1] by (auto intro!: bits_now_trans [OF m1])
  then show ?case by (simp add: add.commute)
qed

end
