(* ===== verification/BitmapAlloc.thy ===== *)
theory BitmapAlloc
  imports Bitmap
begin

text \<open>
  Correctness of the block allocator of \<^verbatim>\<open>fs/smkfs/bitmap.c\<close>: the scan for a run of free
  bits, the two allocators built on it with their undo paths, and the release of a range. The
  properties say that no used block is handed out, that space is found where there is some, and
  what a release clears and journals.
\<close>

section \<open>Journaling an allocation\<close>

definition can_log :: "mount \<Rightarrow> u32 \<Rightarrow> bool" where
  "can_log m count \<longleftrightarrow> journal_in_transaction m \<and> \<not> journal_is_full m \<and> unat count \<le> 4032"

lemma can_log_cong:
  "journal_in_transaction m' = journal_in_transaction m \<Longrightarrow>
   sb_journal_head (sb m') = sb_journal_head (sb m) \<Longrightarrow> sb_journal_tail (sb m') = sb_journal_tail (sb m) \<Longrightarrow>
   sb_journal_length (sb m') = sb_journal_length (sb m) \<Longrightarrow> can_log m' count = can_log m count"
  by (simp add: can_log_def journal_is_full_def journal_next_pos_def Let_def)

lemma log_now:
  assumes "sound m"
  shows "bits_now m (used m) 0 (snd (journal_write_entry m op t dl r None))"
    and "fst (journal_write_entry m op t dl r None) = OK \<longleftrightarrow> can_log m dl"
proof -
  let ?w = "journal_write_entry m op t dl r None"
  note W = journal_write_entry_sound [OF assms loggable_simps(1), of op t dl r]
  have we: "?w = (fst ?w, snd ?w)" by simp
  note V = journal_write_entry_spec(2) [OF soundD(1) [OF assms] loggable_simps(1) we]
  have g: "geom (sb m)" by (rule vol_okD(3) [OF soundD(1) [OF assms]])
  let ?slot = "sb_journal_start (sb m) + sb_journal_head (sb m)"
  note J = journal_block [OF g head_lt [OF soundD(1) [OF assms]]]
  have "?slot < sb_mrt_start (sb m)" using J(3) g by (auto simp: geom_def word_less_nat_alt)
  then have out: "c = 0 \<or> sb_mrt_start (sb m) \<le> c \<Longrightarrow> c \<noteq> ?slot" for c using J(4) by auto
  have sbm: "\<exists>h. sb (snd ?w) = (sb m)\<lparr> sb_journal_head := h \<rparr>"
    unfolding journal_write_entry_sb
    by (cases "fst ?w = OK") (auto intro: exI [of _ "sb_journal_head (sb m)"])
  then have fr: "alloc_frame m (snd ?w)"
    using V out by (auto simp: alloc_frame_def layout_eq_def)
  have "unat ?slot < unat (sb_bitmap_start (sb m))" by (rule J(3))
  then have "sb_bitmap_start (sb m) + of_nat (j div 32768) \<noteq> ?slot"
    if "j < unat (sb_bitmap_length (sb m)) * 32768" for j
    using bm_blk(1) [OF g that] by auto
  then have "used (snd ?w) j = used m j" if "j < unat (sb_bitmap_length (sb m)) * 32768" for j
    using V [OF bm_blk(2) [OF g that]] that alloc_frameD(6) [OF fr] by (simp add: used_def)
  then show "bits_now m (used m) 0 (snd ?w)"
    using W(1) fr sbm by (auto simp: bits_now_def)
  show "fst ?w = OK \<longleftrightarrow> can_log m dl"
    using W(2) by (auto simp: can_log_def)
qed


section \<open>Taking a run\<close>

text \<open>
  What an attempt to allocate \<open>count\<close> blocks may do: hand out a run that was free and
  is now used, with the free count reduced, or return 0 and leave the bitmap as it was.
\<close>

definition alloc_result :: "mount \<Rightarrow> u32 \<Rightarrow> u64 \<times> mount \<Rightarrow> bool" where
  "alloc_result m count rm \<longleftrightarrow>
     (fst rm \<noteq> 0 \<longrightarrow> (\<exists>s. fst rm = sb_data_start (sb m) + of_nat s \<and> s + unat count \<le> ndata m \<and>
        (\<forall>j. s \<le> j \<and> j < s + unat count \<longrightarrow> \<not> used m j) \<and>
        bits_now m (\<lambda>j. (s \<le> j \<and> j < s + unat count) \<or> used m j) (- ucast count) (snd rm))) \<and>
     (fst rm = 0 \<longrightarrow> bits_now m (used m) 0 (snd rm))"

lemma alloc_result_0: "bits_now m (used m) 0 m' \<Longrightarrow> alloc_result m count (0, m')"
  by (simp add: alloc_result_def)

lemma alloc_result_trans:
  assumes m1: "bits_now m (used m) 0 m1" and g: "geom (sb m)" and r: "alloc_result m1 count rm"
  shows "alloc_result m count rm"
proof (cases "fst rm = 0")
  case True
  then have "bits_now m1 (used m1) 0 (snd rm)" using r by (simp add: alloc_result_def)
  then have "bits_now m (used m) (0 + 0) (snd rm)"
    by (rule bits_now_trans [OF m1]) (simp add: bits_nowD(3) [OF m1])
  then show ?thesis using True by (simp add: alloc_result_def)
next
  case False
  then obtain s where s: "fst rm = sb_data_start (sb m1) + of_nat s" "s + unat count \<le> ndata m1"
    "\<And>j. s \<le> j \<Longrightarrow> j < s + unat count \<Longrightarrow> \<not> used m1 j"
    and b: "bits_now m1 (\<lambda>j. (s \<le> j \<and> j < s + unat count) \<or> used m1 j) (- ucast count) (snd rm)"
    using r by (auto simp: alloc_result_def)
  have "bits_now m (\<lambda>j. (s \<le> j \<and> j < s + unat count) \<or> used m j) (0 + (- ucast count)) (snd rm)"
    by (rule bits_now_trans [OF m1 b]) (simp add: bits_nowD(3) [OF m1])
  moreover have "\<not> used m j" if "s \<le> j" "j < s + unat count" for j
  proof -
    have "j < unat (sb_bitmap_length (sb m)) * 32768"
      using that s(2) bits_nowD(8) [OF m1] geom_data(2) [OF g] by simp
    then show ?thesis using s(3) [OF that] bits_nowD(3) [OF m1] by simp
  qed
  ultimately show ?thesis
    using False s bits_nowD(7,8) [OF m1] by (auto simp: alloc_result_def)
qed

text \<open>Journaling the run, and taking it back when the journal refuses.\<close>

lemma log_alloc_or_undo:
  assumes m1: "bits_now m (\<lambda>j. (s \<le> j \<and> j < s + unat count) \<or> used m j) 0 m1"
    and g: "sound m" and s: "s + unat count \<le> ndata m" "\<And>j. s \<le> j \<Longrightarrow> j < s + unat count \<Longrightarrow> \<not> used m j"
    and pos: "0 < unat count"
  defines "l \<equiv> journal_log_alloc (add_free_blocks (- ucast count) m1) (sb_data_start (sb m) + of_nat s) count"
  shows "alloc_result m count
      (if fst l \<noteq> OK then 0 else sb_data_start (sb m) + of_nat s,
       if fst l \<noteq> OK then clear_all (sb_data_start (sb m) + of_nat s) (unat count) (snd l) else snd l)"
    and "fst l = OK \<longleftrightarrow> can_log m1 count"
proof -
  let ?P = "\<lambda>j. (s \<le> j \<and> j < s + unat count) \<or> used m j"
  let ?f = "sb_data_start (sb m) + of_nat s"
  have gm: "geom (sb m)" by (rule vol_okD(3) [OF soundD(1) [OF g]])
  have a: "bits_now m ?P (0 + (- ucast count)) (add_free_blocks (- ucast count) m1)"
    by (rule bits_now_trans [OF m1 add_free_now [OF bits_nowD(1) [OF m1]]]) (simp add: bits_nowD(3) [OF m1])
  note L = log_now [OF bits_nowD(1) [OF a], of SMKFS_JOP_ALLOC ?f count 0, folded journal_log_alloc_def, folded l_def]
  have "can_log (add_free_blocks (- ucast count) m1) count = can_log m1 count"
    by (rule can_log_cong) simp_all
  then show "fst l = OK \<longleftrightarrow> can_log m1 count" using L(2) by simp
  have "bits_now m ?P ((0 + (- ucast count)) + 0) (snd l)"
    by (rule bits_now_trans [OF a L(1)]) (use bits_nowD(3) [OF a] in simp)
  then have b: "bits_now m ?P (- ucast count) (snd l)" by simp
  have nz: "?f \<noteq> 0"
  proof -
    have "s < ndata m" using s(1) pos by simp
    then have "0 < unat ?f" using geom_data(4) [OF gm] gm by (simp add: geom_def)
    then show ?thesis by auto
  qed
  have "bits_now m (used m) 0 (clear_all ?f (unat count) (snd l))"
  proof -
    have "bits_now (snd l) (\<lambda>j. \<not> (s \<le> j \<and> j < s + unat count) \<and> used (snd l) j) (of_nat (unat count))
        (clear_all (sb_data_start (sb (snd l)) + of_nat s) (unat count) (snd l))"
    proof (rule clear_all_sound [OF bits_nowD(1) [OF b]])
      show "s + unat count \<le> ndata (snd l)" using s(1) bits_nowD(8) [OF b] by simp
      fix j assume "s \<le> j" "j < s + unat count"
      moreover from this have "j < unat (sb_bitmap_length (sb m)) * 32768"
        using s(1) geom_data(2) [OF gm] by simp
      ultimately show "used (snd l) j" using bits_nowD(3) [OF b] by simp
    qed
    then have c: "bits_now (snd l) (\<lambda>j. \<not> (s \<le> j \<and> j < s + unat count) \<and> used (snd l) j) (ucast count)
        (clear_all ?f (unat count) (snd l))"
      using bits_nowD(7) [OF b] by simp
    have "bits_now m (used m) (- ucast count + ucast count) (clear_all ?f (unat count) (snd l))"
      by (rule bits_now_trans [OF b c]) (use bits_nowD(3) [OF b] s(2) in auto)
    then show ?thesis by simp
  qed
  then show "alloc_result m count
      (if fst l \<noteq> OK then 0 else sb_data_start (sb m) + of_nat s,
       if fst l \<noteq> OK then clear_all (sb_data_start (sb m) + of_nat s) (unat count) (snd l) else snd l)"
    using b s nz by (auto simp: alloc_result_def)
qed

lemma alloc_result_regions:
  assumes "alloc_result m count (r, m')" "(x = None) = (regions m' = None)"
  shows "alloc_result m count (r, m'\<lparr> regions := x \<rparr>)"
  using assms bits_now_regions [of m _ _ m' x] by (auto simp: alloc_result_def)

lemma linear_set_sound:
  assumes "sound m" "\<forall>i \<in> set is. i < unat (sb_bitmap_length (sb m)) * 32768"
  shows "fst (linear_set is m) \<and> bits_now m (\<lambda>j. j \<in> set is \<or> used m j) 0 (snd (linear_set is m)) \<and>
    sb (snd (linear_set is m)) = sb m \<and>
    journal_in_transaction (snd (linear_set is m)) = journal_in_transaction m"
  using assms
proof (induction "is" arbitrary: m)
  case Nil
  then show ?case by (simp add: bits_now_refl)
next
  case (Cons i js)
  note sm = Cons.prems(1) and lt = Cons.prems(2)
  let ?b = "sb_bitmap_start (sb m) + of_nat (i div 32768)"
  let ?w = "\<lambda>m1. write_block m1 ?b (set_bit_in (i mod 32768 div 8) (i mod 8) (block_view m1 ?b))"
    have i: "i < unat (sb_bitmap_length (sb m)) * 32768" using lt by simp
    obtain m1 where rd: "read_block m ?b = (Inr (block_view m1 ?b), m1)" and m1: "bits_now m (used m) 0 m1"
      using read_hit_now [OF sm i] by blast
    have sb1: "sb m1 = sb m" "journal_in_transaction m1 = journal_in_transaction m"
      using read_block_pair [OF rd] by simp_all
    have len: "length (set_bit_in (i mod 32768 div 8) (i mod 8) (block_view m1 ?b)) = 4096"
      using cache.view_length [of m1 ?b] soundD(4) [OF bits_nowD(1) [OF m1]] by simp
    have w: "fst (?w m1) = OK" "bits_now m1 (\<lambda>j. j = i \<or> used m1 j) 0 (snd (?w m1))"
      using bm_write_now(1) [OF bits_nowD(1) [OF m1], of i] bit_write_now(1) [OF bits_nowD(1) [OF m1], of i]
        i sb1 len by simp_all
    have m2: "bits_now m (\<lambda>j. j = i \<or> used m j) (0 + 0) (snd (?w m1))"
      by (rule bits_now_trans [OF m1 w(2)]) (simp add: bits_nowD(3) [OF m1])
    have js: "\<forall>i \<in> set js. i < unat (sb_bitmap_length (sb (snd (?w m1)))) * 32768"
      using lt sb1 by simp
    note IHs = Cons.IH [OF bits_nowD(1) [OF m2] js]
    note IH1 = IHs [THEN conjunct1] and IH2 = IHs [THEN conjunct2, THEN conjunct1]
      and IH3 = IHs [THEN conjunct2, THEN conjunct2, THEN conjunct1]
      and IH4 = IHs [THEN conjunct2, THEN conjunct2, THEN conjunct2]
    have eq: "linear_set (i # js) m = linear_set js (snd (?w m1))"
      using rd w(1) by (auto simp: Let_def split: prod.split)
    have "bits_now m (\<lambda>j. j \<in> set (i # js) \<or> used m j) ((0 + 0) + 0) (snd (linear_set js (snd (?w m1))))"
      by (rule bits_now_trans [OF m2 IH2]) (use bits_nowD(3) [OF m2] in auto)
    then have "bits_now m (\<lambda>j. j \<in> set (i # js) \<or> used m j) 0 (snd (linear_set js (snd (?w m1))))"
      by (simp only: add_0_left)
    moreover have "sb (snd (linear_set js (snd (?w m1)))) = sb m"
      "journal_in_transaction (snd (linear_set js (snd (?w m1)))) = journal_in_transaction m"
      unfolding IH3 IH4 using sb1 by (simp_all only: write_block_fields)
    ultimately show ?case unfolding eq using IH1 by blast
qed

lemma fold_claim_result:
  "alloc_result m count (r, m') \<Longrightarrow> alloc_result m count (r, fold (\<lambda>b. region_claim (f b)) bs m')"
proof (induction bs arbitrary: m')
  case Nil
  then show ?case by simp
next
  case (Cons b bs)
  obtain x where x: "region_claim (f b) m' = m'\<lparr> regions := x \<rparr>" "(x = None) = (regions m' = None)"
    by (rule region_claim_regions)
  have "alloc_result m count (r, m'\<lparr> regions := x \<rparr>)" using Cons.prems x(2) by (rule alloc_result_regions)
  then show ?case using Cons.IH x(1) by simp
qed

lemma linear_take_sound:
  assumes "sound m" "s + unat count \<le> ndata m" "\<And>j. s \<le> j \<Longrightarrow> j < s + unat count \<Longrightarrow> \<not> used m j"
    and "0 < unat count"
  shows "alloc_result m count (linear_take s count m)"
    and "can_log m count \<Longrightarrow> fst (linear_take s count m) \<noteq> 0"
proof -
  have g: "geom (sb m)" by (rule vol_okD(3) [OF soundD(1) [OF assms(1)]])
  let ?is = "[s..<s + unat count]"
  have lt: "\<forall>i \<in> set ?is. i < unat (sb_bitmap_length (sb m)) * 32768"
    using assms(2) geom_data(2) [OF g] by auto
  note SS = linear_set_sound [OF assms(1) lt]
  have S: "fst (linear_set ?is m)" "bits_now m (\<lambda>j. j \<in> set ?is \<or> used m j) 0 (snd (linear_set ?is m))"
    "sb (snd (linear_set ?is m)) = sb m"
    "journal_in_transaction (snd (linear_set ?is m)) = journal_in_transaction m"
    using SS by - (elim conjE, assumption)+
  obtain m1 where ls: "linear_set ?is m = (True, m1)" using S(1) by (metis prod.collapse)
  have m1: "bits_now m (\<lambda>j. (s \<le> j \<and> j < s + unat count) \<or> used m j) 0 m1"
    using S(2) ls by simp
  define l where "l = journal_log_alloc (add_free_blocks (- ucast count) m1) (sb_data_start (sb m) + of_nat s) count"
  note L = log_alloc_or_undo [OF m1 assms(1-4), folded l_def]
  define m2 where "m2 = (if fst l \<noteq> OK then clear_all (sb_data_start (sb m) + of_nat s) (unat count) (snd l) else snd l)"
  have eq: "linear_take s count m = (if fst l \<noteq> OK then 0 else sb_data_start (sb m) + of_nat s,
      fold (\<lambda>b. region_claim (of_nat b)) ?is m2)"
    unfolding linear_take_def Let_def ls l_def m2_def by simp
  show "alloc_result m count (linear_take s count m)"
    unfolding eq by (rule fold_claim_result [OF L(1) [folded m2_def]])
  have "0 < unat (sb_data_start (sb m) + of_nat s)"
    using geom_data(4) [OF g, of s] assms(2,4) g by (simp add: geom_def)
  then have "sb_data_start (sb m) + of_nat s \<noteq> 0" by auto
  moreover have "can_log m1 count = can_log m count"
    using S(3,4) ls by (intro can_log_cong) simp_all
  ultimately show "can_log m count \<Longrightarrow> fst (linear_take s count m) \<noteq> 0"
    using L(2) by (simp add: eq)
qed


section \<open>The linear scan is complete\<close>

lemma linear_scan_sound:
  assumes "sound m" "0 < unat count" "k + n = unat (sb_bitmap_length (sb m))"
    and "scan_inv (used m) (unat count) (min (k * 32768) (ndata m)) start len"
  shows "alloc_result m count (linear_scan count [k..<k + n] start len m)"
    and "can_log m count \<Longrightarrow> fst (linear_scan count [k..<k + n] start len m) = 0 \<Longrightarrow>
      s + unat count \<le> ndata m \<Longrightarrow> \<exists>j. s \<le> j \<and> j < s + unat count \<and> used m j"
proof -
  let ?goal = "\<lambda>m k n start len. alloc_result m count (linear_scan count [k..<k + n] start len m) \<and>
    (can_log m count \<longrightarrow> fst (linear_scan count [k..<k + n] start len m) = 0 \<longrightarrow>
      (\<forall>s. s + unat count \<le> ndata m \<longrightarrow> (\<exists>j. s \<le> j \<and> j < s + unat count \<and> used m j)))"
  have "?goal m k n start len" using assms(1,3,4)
  proof (induction n arbitrary: m k start len)
    case 0
    have "ndata m \<le> k * 32768"
      using geom_data(2) [OF vol_okD(3) [OF soundD(1) [OF 0(1)]]] 0(2) by simp
    then have "min (k * 32768) (ndata m) = ndata m" by simp
    then have "scan_inv (used m) (unat count) (ndata m) start len" using 0(3) by simp
    then show ?case
      using 0(1) by (simp add: alloc_result_0 bits_now_refl scan_inv_def)
  next
    case (Suc n)
    let ?b = "sb_bitmap_start (sb m) + of_nat k"
    let ?lo = "k * 32768" and ?hi = "min (k * 32768 + 32768) (ndata m)"
    have g: "geom (sb m)" by (rule vol_okD(3) [OF soundD(1) [OF Suc.prems(1)]])
    have kN: "k * 32768 < unat (sb_bitmap_length (sb m)) * 32768" using Suc.prems(2) by simp
    have kd: "k * 32768 div 32768 = k" by simp
    obtain m1 where rd: "read_block m ?b = (Inr (block_view m1 ?b), m1)" and m1: "bits_now m (used m) 0 m1"
      using read_hit_now [OF Suc.prems(1) kN] unfolding kd by blast
    have sb1: "sb m1 = sb m" "journal_in_transaction m1 = journal_in_transaction m"
      using read_block_pair [OF rd] by simp_all
    have vb: "block_view m1 ?b = block_view m ?b"
      using read_block_now(2) [OF Suc.prems(1), of ?b ?b] bm_blk(2) [OF g kN] rd unfolding kd by simp
    let ?v = "\<lambda>b. bit (block_view m1 ?b ! (b mod 32768 div 8)) (b mod 8)"
    have v: "?v j = used m j" if "?lo \<le> j" "j < ?hi" for j
    proof -
      have "j div 32768 = k" using that by (simp add: div_nat_eqI)
      then show ?thesis by (simp add: used_def vb)
    qed
    have u1: "used m1 j = used m j" if "j < unat (sb_bitmap_length (sb m)) * 32768" for j
      using bits_nowD(3) [OF m1 that] .
    have nd1: "ndata m1 = ndata m" using sb1 by (simp add: ndata_def data_blocks_def)
    have ndle: "ndata m \<le> unat (sb_bitmap_length (sb m)) * 32768" by (rule geom_data(2) [OF g])
    have cl: "can_log m1 count = can_log m count" by (rule can_log_cong) (simp_all add: sb1)
    have db: "unat (data_blocks m1) = ndata m" using nd1 by (simp add: ndata_def)
    have step: "linear_scan count [k..<k + Suc n] start len m =
      (case find_run ?v (unat count) [?lo..<?hi] start len of
             Inr s \<Rightarrow> linear_take s count m1
           | Inl (s1, l1) \<Rightarrow> linear_scan count [Suc k..<Suc k + n] s1 l1 m1)"
    proof -
      have upt: "[k..<k + Suc n] = k # [Suc k..<Suc k + n]" by (simp add: upt_conv_Cons del: upt_Suc)
      show ?thesis using rd unfolding upt ndata_def by (simp add: mult.commute del: upt_Suc split: sum.split prod.split)
    qed
    have scan: "scan_inv (used m) (unat count) (if ?lo \<le> ndata m then ?lo else ndata m) start len"
      using Suc.prems(3) by (simp add: min_def)
    show ?case
    proof (cases "find_run ?v (unat count) [?lo..<?hi] start len")
      case (Inr s)
      have le: "?lo \<le> ?hi"
      proof (rule ccontr)
        assume "\<not> ?thesis"
        then have e: "[?lo..<?hi] = []" by simp
        show False using Inr unfolding e by simp
      qed
      then have "scan_inv (used m) (unat count) ?lo start len" using scan by simp
      from find_run_spec(1) [OF this le v Inr]
      have s: "s + unat count \<le> ndata m" "\<And>j. s \<le> j \<Longrightarrow> j < s + unat count \<Longrightarrow> \<not> used m j" by auto
      have s1: "s + unat count \<le> ndata m1" "\<And>j. s \<le> j \<Longrightarrow> j < s + unat count \<Longrightarrow> \<not> used m1 j"
        using s u1 ndle nd1 by auto
      note T = linear_take_sound [OF bits_nowD(1) [OF m1] s1 assms(2)]
      have "alloc_result m count (linear_take s count m1)"
        by (rule alloc_result_trans [OF m1 g T(1)])
      then show ?thesis using T(2) cl unfolding step Inr by simp
    next
      case (Inl p)
      obtain s1 l1 where p: "p = (s1, l1)" by fastforce
      have inv1: "scan_inv (used m) (unat count) (min (Suc k * 32768) (ndata m)) s1 l1"
      proof (cases "?lo \<le> ndata m")
        case True
        then have "scan_inv (used m) (unat count) ?lo start len" "?lo \<le> ?hi" using scan by simp_all
        from find_run_spec(2) [OF this v] Inl p show ?thesis by (simp add: add.commute)
      next
        case False
        then have e: "[?lo..<?hi] = []" by simp
        have "s1 = start" "l1 = len" using Inl unfolding e p by simp_all
        then show ?thesis using False scan by (simp add: min_def)
      qed
      have "scan_inv (used m1) (unat count) a s1 l1 = scan_inv (used m) (unat count) a s1 l1" if "a \<le> ndata m" for a
        using u1 that ndle by (intro scan_inv_cong) simp
      then have "scan_inv (used m1) (unat count) (min (Suc k * 32768) (ndata m1)) s1 l1"
        using inv1 nd1 by simp
      then have G: "?goal m1 (Suc k) n s1 l1"
      proof (rule Suc.IH [OF bits_nowD(1) [OF m1], rotated])
        show "Suc k + n = unat (sb_bitmap_length (sb m1))" using Suc.prems(2) sb1 by simp
      qed
      have same: "used m1 j = used m j" if "j < s + unat count" "s + unat count \<le> ndata m" for j s
        using u1 [of j] that ndle by simp
      have "alloc_result m count (linear_scan count [Suc k..<Suc k + n] s1 l1 m1)"
        by (rule alloc_result_trans [OF m1 g conjunct1 [OF G]])
      moreover have "\<exists>j. s \<le> j \<and> j < s + unat count \<and> used m j"
        if "can_log m count" "fst (linear_scan count [Suc k..<Suc k + n] s1 l1 m1) = 0"
          "s + unat count \<le> ndata m" for s
        using conjunct2 [OF G, THEN mp, OF that(1) [folded cl], THEN mp, OF that(2), THEN spec, THEN mp,
            OF that(3) [folded nd1]] same that(3) by blast
      ultimately show ?thesis unfolding step Inl p sum.case prod.case by blast
    qed
  qed
  then show "alloc_result m count (linear_scan count [k..<k + n] start len m)"
    and "can_log m count \<Longrightarrow> fst (linear_scan count [k..<k + n] start len m) = 0 \<Longrightarrow>
      s + unat count \<le> ndata m \<Longrightarrow> \<exists>j. s \<le> j \<and> j < s + unat count \<and> used m j"
    by blast+
qed

lemma linear_sound:
  assumes "sound m" "0 < unat count"
  shows "alloc_result m count (bitmap_alloc_range_linear m count)"
    and "can_log m count \<Longrightarrow> fst (bitmap_alloc_range_linear m count) = 0 \<Longrightarrow>
      s + unat count \<le> ndata m \<Longrightarrow> \<exists>j. s \<le> j \<and> j < s + unat count \<and> used m j"
proof -
  have c: "count \<noteq> 0" using assms(2) by auto
  have inv: "scan_inv (used m) (unat count) (min (0 * 32768) (ndata m)) 0 0"
    using assms(2) by (simp add: scan_inv_start)
  note L = linear_scan_sound [OF assms _ inv, of "unat (sb_bitmap_length (sb m))"]
  show "alloc_result m count (bitmap_alloc_range_linear m count)"
    using L(1) c soundD(3) [OF assms(1)] by (simp add: bitmap_alloc_range_linear_def)
  show "can_log m count \<Longrightarrow> fst (bitmap_alloc_range_linear m count) = 0 \<Longrightarrow>
      s + unat count \<le> ndata m \<Longrightarrow> \<exists>j. s \<le> j \<and> j < s + unat count \<and> used m j"
    using L(2) [of s] c soundD(3) [OF assms(1)] by (simp add: bitmap_alloc_range_linear_def)
qed


section \<open>Allocation in a region\<close>

text \<open>A region's 256 bits are 32 bytes of one bitmap block.\<close>

lemma region_pos:
  fixes r b :: nat
  assumes "r * 256 \<le> b" "b < r * 256 + 256"
  shows "r * 256 div 8 div 4096 = b div 32768"
    and "r * 256 div 8 mod 4096 + (b div 8 - r * 256 div 8) = b mod 32768 div 8"
proof -
  define q t k where "q = r div 128" and "t = r mod 128" and "k = b - r * 256"
  have r: "r = 128 * q + t" and t: "t < 128" by (simp_all add: q_def t_def)
  have k: "b = r * 256 + k" "k < 256" using assms by (simp_all add: k_def)
  have b: "b = 32768 * q + (256 * t + k)" "256 * t + k < 32768" using r k t by simp_all
  have d: "b div 32768 = q" "b mod 32768 = 256 * t + k" using b by simp_all
  have e: "r * 256 div 8 = 32 * r" by simp
  have e2: "32 * r = 4096 * q + 32 * t" "32 * t < 4096" using r t by simp_all
  show "r * 256 div 8 div 4096 = b div 32768" unfolding e d(1) using e2 by simp
  have "32 * r mod 4096 = 32 * t" using e2 by simp
  moreover have "b div 8 - 32 * r = k div 8" using k by simp
  moreover have "(256 * t + k) div 8 = 32 * t + k div 8" by simp
  ultimately show "r * 256 div 8 mod 4096 + (b div 8 - r * 256 div 8) = b mod 32768 div 8"
    unfolding e d(2) by simp
qed

lemma fold_set_bits:
  assumes "length buf = 4096" "\<And>b. b \<in> set bs \<Longrightarrow> b div 32768 = q" "j div 32768 = q"
  shows "length (fold (\<lambda>b. set_bit_in (b mod 32768 div 8) (b mod 8)) bs buf) = 4096"
    and "bit (fold (\<lambda>b. set_bit_in (b mod 32768 div 8) (b mod 8)) bs buf ! (j mod 32768 div 8)) (j mod 8)
      \<longleftrightarrow> j \<in> set bs \<or> bit (buf ! (j mod 32768 div 8)) (j mod 8)"
proof -
  have "length (fold (\<lambda>b. set_bit_in (b mod 32768 div 8) (b mod 8)) bs buf) = 4096 \<and>
    (bit (fold (\<lambda>b. set_bit_in (b mod 32768 div 8) (b mod 8)) bs buf ! (j mod 32768 div 8)) (j mod 8)
      \<longleftrightarrow> j \<in> set bs \<or> bit (buf ! (j mod 32768 div 8)) (j mod 8))"
    using assms(1,2)
  proof (induction bs arbitrary: buf)
    case Nil
    then show ?case by simp
  next
    case (Cons b bs)
    let ?buf = "set_bit_in (b mod 32768 div 8) (b mod 8) buf"
    have l: "length ?buf = 4096" using Cons.prems(1) by simp
    have off: "x mod 32768 div 8 < length buf" for x :: nat using Cons.prems(1) used_off by simp
    have "bit (?buf ! (j mod 32768 div 8)) (j mod 8) \<longleftrightarrow> j = b \<or> bit (buf ! (j mod 32768 div 8)) (j mod 8)"
      using same_bit [of j b] assms(3) Cons.prems(2) [of b] by (auto simp: bit_set_bit_in [OF off off])
    then show ?case using Cons.IH [OF l] Cons.prems(2) by auto
  qed
  then show "length (fold (\<lambda>b. set_bit_in (b mod 32768 div 8) (b mod 8)) bs buf) = 4096"
    and "bit (fold (\<lambda>b. set_bit_in (b mod 32768 div 8) (b mod 8)) bs buf ! (j mod 32768 div 8)) (j mod 8)
      \<longleftrightarrow> j \<in> set bs \<or> bit (buf ! (j mod 32768 div 8)) (j mod 8)"
    by simp_all
qed

text \<open>What a result of 0 says: nothing was tried, or the journal cannot take the entry.\<close>

lemma alloc_in_region_sound:
  assumes "sound m" "0 < unat count" "regions m \<noteq> None"
  shows "alloc_result m count (bitmap_alloc_in_region m region count)"
    and "fst (bitmap_alloc_in_region m region count) = 0 \<Longrightarrow> can_log m count \<Longrightarrow>
      can_log (snd (bitmap_alloc_in_region m region count)) count"
proof -
  define r where "r = unat region"
  define e where "e = min (r * 256 + 256) (ndata m)"
  define off where "off = r * 256 div 8 mod 4096"
  have g: "geom (sb m)" by (rule vol_okD(3) [OF soundD(1) [OF assms(1)]])
  have nd: "unat (data_blocks m) = ndata m" by (simp add: ndata_def)
  have "alloc_result m count (bitmap_alloc_in_region m region count) \<and>
    (fst (bitmap_alloc_in_region m region count) = 0 \<longrightarrow> can_log m count \<longrightarrow>
      can_log (snd (bitmap_alloc_in_region m region count)) count)"
  proof (cases "e \<le> r * 256 \<or> rg_free_count (the (regions m) ! unat region) < count")
    case True
    then have "bitmap_alloc_in_region m region count = (0, m)"
      by (auto simp: bitmap_alloc_in_region_def Let_def nd e_def r_def)
    then show ?thesis using assms(1) by (simp add: alloc_result_0 bits_now_refl)
  next
    case False
    let ?b = "sb_bitmap_start (sb m) + of_nat (r * 256 div 32768)"
    have blk: "r * 256 div 8 div 4096 = r * 256 div 32768" by (rule region_pos(1)) simp_all
    have lt: "r * 256 < unat (sb_bitmap_length (sb m)) * 32768"
    proof -
      have "r * 256 < ndata m" using False by (auto simp: e_def)
      then show ?thesis using geom_data(2) [OF g] by linarith
    qed
    obtain m1 where rd: "read_block m ?b = (Inr (block_view m1 ?b), m1)" and m1: "bits_now m (used m) 0 m1"
      using read_hit_now [OF assms(1) lt] by blast
    have sb1: "sb m1 = sb m" "journal_in_transaction m1 = journal_in_transaction m"
      using read_block_pair [OF rd] by simp_all
    have cl: "can_log m1 count = can_log m count" by (rule can_log_cong) (simp_all add: sb1)
    define buf where "buf = block_view m1 ?b"
    have lb: "length buf = 4096" using cache.view_length [of m1 ?b] soundD(4) [OF bits_nowD(1) [OF m1]] by (simp add: buf_def)
    have pos: "off + (b div 8 - r * 256 div 8) = b mod 32768 div 8" "r * 256 div 32768 = b div 32768"
      if "r * 256 \<le> b" "b < r * 256 + 256" for b
      using region_pos [OF that] blk by (simp_all add: off_def)
    let ?fr = "find_run (\<lambda>b. bit (buf ! (off + (b div 8 - r * 256 div 8))) (b mod 8)) (unat count) [r * 256..<e] 0 0"
    have start: "bitmap_alloc_in_region m region count = (case ?fr of Inl _ \<Rightarrow> (0, m1)
       | Inr s \<Rightarrow>
          let result = sb_data_start (sb m1) + of_nat s
          in if result = 0 then (0, m1)
             else let buf1 = fold (\<lambda>b. set_bit_in (off + (b div 8 - r * 256 div 8)) (b mod 8)) [s..<s + unat count] buf
               in case write_block m1 ?b buf1 of (st, m2) \<Rightarrow>
                 if st \<noteq> OK then (0, m2)
                 else let l = journal_log_alloc (add_free_blocks (- ucast count) m2) result count;
                          m3 = (if fst l \<noteq> OK then clear_all result (unat count) (snd l) else snd l);
                          rs3 = the (regions m3); gg = rs3 ! unat region
                      in (if fst l \<noteq> OK then 0 else result,
                          m3\<lparr> regions := Some (rs3[unat region :=
                             \<lparr> rg_free_count = rg_free_count gg - count,
                               rg_alloc_hint = of_nat ((s + unat count - r * 256) mod 256) \<rparr>]) \<rparr>))"
    proof -
      have c: "(e \<le> r * 256) = False" "(rg_free_count (the (regions m) ! r) < count) = False" "heap_ok m = True"
        using False soundD(3) [OF assms(1)] by (simp_all add: r_def)
      show ?thesis
        unfolding bitmap_alloc_in_region_def Let_def nd r_def [symmetric] e_def [symmetric]
          off_def [symmetric] blk
        by (simp only: c if_False not_True_eq_False rd prod.case sum.case buf_def [symmetric])
    qed
    show ?thesis
    proof (cases ?fr)
      case (Inl x)
      then have "bitmap_alloc_in_region m region count = (0, m1)" unfolding start by simp
      then show ?thesis using m1 cl by (simp add: alloc_result_0)
    next
      case (Inr s)
      note R = find_run_window [OF assms(2) Inr]
      have s: "r * 256 \<le> s" "s + unat count \<le> e" using R by simp_all
      have in_r: "r * 256 \<le> j \<and> j < r * 256 + 256" if "s \<le> j" "j < s + unat count" for j
        using that s by (simp add: e_def)
      have sn: "s + unat count \<le> ndata m" using s by (simp add: e_def)
      have u: "\<not> used m j" if j: "s \<le> j" "j < s + unat count" for j
      proof -
        have "\<not> bit (buf ! (off + (j div 8 - r * 256 div 8))) (j mod 8)" using R j by blast
        moreover have "off + (j div 8 - r * 256 div 8) = j mod 32768 div 8"
          using in_r [OF j] by (intro pos(1)) auto
        ultimately have "\<not> bit (buf ! (j mod 32768 div 8)) (j mod 8)" by metis
        moreover have "j < unat (sb_bitmap_length (sb m)) * 32768"
          using j sn geom_data(2) [OF g] by simp
        ultimately show ?thesis
          using pos(2) [of j] in_r [OF j] bits_nowD(3) [OF m1, of j] sb1 by (simp add: used_def buf_def)
      qed
      let ?res = "sb_data_start (sb m1) + of_nat s"
      let ?bits = "[s..<s + unat count]"
      define buf1 where "buf1 = fold (\<lambda>b. set_bit_in (off + (b div 8 - r * 256 div 8)) (b mod 8)) ?bits buf"
      have buf1: "buf1 = fold (\<lambda>b. set_bit_in (b mod 32768 div 8) (b mod 8)) ?bits buf"
        unfolding buf1_def
      proof (rule fold_cong)
        fix b assume "b \<in> set ?bits"
        then show "set_bit_in (off + (b div 8 - r * 256 div 8)) (b mod 8) = set_bit_in (b mod 32768 div 8) (b mod 8)"
          using pos(1) [of b] in_r [of b] by (metis atLeastLessThan_iff set_upt)
      qed simp_all
      have q: "b div 32768 = r * 256 div 32768" if "b \<in> set ?bits" for b
        using pos(2) [of b] in_r [of b] that by simp
      have l1: "length buf1 = 4096" unfolding buf1 by (rule fold_set_bits(1) [OF lb q refl])
      have W: "fst (write_block m1 ?b buf1) = OK"
        "bits_now m1 (\<lambda>j. if j div 32768 = r * 256 div 32768 then bit (buf1 ! (j mod 32768 div 8)) (j mod 8) else used m1 j)
           0 (snd (write_block m1 ?b buf1))"
        using bm_write_now [OF bits_nowD(1) [OF m1], of "r * 256" buf1] lt l1 sb1 by simp_all
      obtain m2 where w: "write_block m1 ?b buf1 = (OK, m2)" using W(1) by (metis prod.collapse)
      have usedb: "bit (buf ! (j mod 32768 div 8)) (j mod 8) = used m1 j" if "j div 32768 = r * 256 div 32768" for j
        using that sb1 by (simp add: used_def buf_def)
      have "bits_now m (\<lambda>j. (s \<le> j \<and> j < s + unat count) \<or> used m j) (0 + 0) m2"
      proof (rule bits_now_trans [OF m1 W(2) [unfolded w prod.sel]])
        fix j assume j: "j < unat (sb_bitmap_length (sb m)) * 32768"
        show "(if j div 32768 = r * 256 div 32768 then bit (buf1 ! (j mod 32768 div 8)) (j mod 8) else used m1 j)
          = ((s \<le> j \<and> j < s + unat count) \<or> used m j)"
        proof (cases "j div 32768 = r * 256 div 32768")
          case True
          then show ?thesis
            using fold_set_bits(2) [of buf ?bits, OF lb q True] usedb [OF True] bits_nowD(3) [OF m1 j] by (simp add: buf1)
        next
          case False
          then have "\<not> (s \<le> j \<and> j < s + unat count)" using q [of j] by auto
          then show ?thesis using False bits_nowD(3) [OF m1 j] by auto
        qed
      qed
      then have m2: "bits_now m (\<lambda>j. (s \<le> j \<and> j < s + unat count) \<or> used m j) 0 m2" by simp
      define l where "l = journal_log_alloc (add_free_blocks (- ucast count) m2) (sb_data_start (sb m) + of_nat s) count"
      note L = log_alloc_or_undo [OF m2 assms(1) sn u assms(2), folded l_def]
      define m3 where "m3 = (if fst l \<noteq> OK then clear_all (sb_data_start (sb m) + of_nat s) (unat count) (snd l) else snd l)"
      have "0 < unat ?res" using geom_data(4) [OF g, of s] sn assms(2) g sb1 by (simp add: geom_def)
      then have nz: "?res \<noteq> 0" by auto
      define x where "x = Some ((the (regions m3))[unat region :=
                             \<lparr> rg_free_count = rg_free_count (the (regions m3) ! unat region) - count,
                               rg_alloc_hint = of_nat ((s + unat count - r * 256) mod 256) \<rparr>])"
      have eq: "bitmap_alloc_in_region m region count =
          (if fst l \<noteq> OK then 0 else sb_data_start (sb m) + of_nat s, m3\<lparr> regions := x \<rparr>)"
      proof -
        have nzF: "(sb_data_start (sb m) + of_nat s = 0) = False" using nz sb1 by simp
        show ?thesis
          unfolding start Inr Let_def sum.case buf1_def [symmetric]
          by (simp only: nzF if_False w prod.case simp_thms sb1 l_def [symmetric] m3_def [symmetric] x_def)
      qed
      have r3: "regions m3 \<noteq> None"
      proof -
        have A: "alloc_result m count (if fst l \<noteq> OK then 0 else sb_data_start (sb m) + of_nat s, m3)"
          using L(1) by (simp add: m3_def)
        then obtain P n where "bits_now m P n m3"
          by (cases "(if fst l \<noteq> OK then 0 else sb_data_start (sb m) + of_nat s) = 0")
            (auto simp: alloc_result_def)
        from bits_nowD(9) [OF this] show ?thesis using assms(3) by simp
      qed
      have sb2: "sb m2 = sb m1" "journal_in_transaction m2 = journal_in_transaction m1"
        using write_block_fields(3,5) [of m1 ?b buf1] unfolding w by (simp_all only: prod.sel)
      have "can_log m2 count = can_log m count" by (rule can_log_cong) (simp_all add: sb1 sb2)
      then have "can_log m count \<Longrightarrow> fst (bitmap_alloc_in_region m region count) \<noteq> 0"
        using L(2) nz sb1 by (simp add: eq)
      then show ?thesis
        using alloc_result_regions [OF L(1) [folded m3_def], of x] r3 unfolding eq by (auto simp: x_def)
    qed
  qed
  then show "alloc_result m count (bitmap_alloc_in_region m region count)"
    and "fst (bitmap_alloc_in_region m region count) = 0 \<Longrightarrow> can_log m count \<Longrightarrow>
      can_log (snd (bitmap_alloc_in_region m region count)) count" by blast+
qed


section \<open>The public allocators\<close>

lemma alloc_complete_trans:
  assumes m1: "bits_now m (used m) 0 m1" and g: "geom (sb m)" and s: "s + n \<le> ndata m"
    and "s + n \<le> ndata m1 \<Longrightarrow> \<exists>j. s \<le> j \<and> j < s + n \<and> used m1 j"
  shows "\<exists>j. s \<le> j \<and> j < s + n \<and> used m j"
proof -
  obtain j where j: "s \<le> j" "j < s + n" "used m1 j" using assms(4) s bits_nowD(8) [OF m1] by auto
  moreover from this have "j < unat (sb_bitmap_length (sb m)) * 32768"
    using s geom_data(2) [OF g] by simp
  ultimately show ?thesis using bits_nowD(3) [OF m1] by blast
qed

lemma bits_now_hint: "bits_now m P n m' \<Longrightarrow> bits_now m P n (m'\<lparr> alloc_hint_region := h \<rparr>)"
proof -
  have "used (m'\<lparr> alloc_hint_region := h \<rparr>) = used m'" by (simp add: used_def fun_eq_iff)
  then show "bits_now m P n m' \<Longrightarrow> bits_now m P n (m'\<lparr> alloc_hint_region := h \<rparr>)"
    by (simp add: bits_now_def alloc_frame_def)
qed

lemma region_search_sound:
  assumes "sound m" "0 < unat count" "regions m \<noteq> None"
  shows "alloc_result m count (region_search hint start count rs m)"
    and "can_log m count \<Longrightarrow> fst (region_search hint start count rs m) = 0 \<Longrightarrow>
      s + unat count \<le> ndata m \<Longrightarrow> \<exists>j. s \<le> j \<and> j < s + unat count \<and> used m j"
proof -
  let ?goal = "\<lambda>rs m. alloc_result m count (region_search hint start count rs m) \<and>
    (can_log m count \<longrightarrow> fst (region_search hint start count rs m) = 0 \<longrightarrow>
      (\<forall>s. s + unat count \<le> ndata m \<longrightarrow> (\<exists>j. s \<le> j \<and> j < s + unat count \<and> used m j)))"
  have "?goal rs m" using assms(1,3)
  proof (induction rs arbitrary: m)
    case Nil
    show ?case
      unfolding region_search.simps using linear_sound [OF Nil(1) assms(2)] by blast
  next
    case (Cons r rs)
    define region where "region = (start + of_nat r) mod region_count m"
    have g: "geom (sb m)" by (rule vol_okD(3) [OF soundD(1) [OF Cons.prems(1)]])
    show ?case
    proof (cases "count \<le> rg_free_count (the (regions m) ! unat region)")
      case False
      then have "region_search hint start count (r # rs) m = region_search hint start count rs m"
        by (simp add: Let_def region_def)
      then show ?thesis using Cons.IH [OF Cons.prems] by simp
    next
      case True
      obtain b m1 where r: "bitmap_alloc_in_region m region count = (b, m1)"
        by (cases "bitmap_alloc_in_region m region count")
      note A = alloc_in_region_sound [OF Cons.prems(1) assms(2) Cons.prems(2), of region, unfolded r prod.sel]
      show ?thesis
      proof (cases "b = 0")
        case False
        then have eq: "region_search hint start count (r # rs) m = (b, m1\<lparr> alloc_hint_region := hint region \<rparr>)"
          using True r by (simp add: Let_def region_def [symmetric])
        have "alloc_result m count (b, m1\<lparr> alloc_hint_region := hint region \<rparr>)"
          using A(1) False bits_now_hint [of m _ _ m1] by (auto simp: alloc_result_def)
        then show ?thesis unfolding eq using False by simp
      next
        case zero: True
        then have eq: "region_search hint start count (r # rs) m = region_search hint start count rs m1"
          using True r by (simp add: Let_def region_def [symmetric])
        have m1: "bits_now m (used m) 0 m1" using A(1) zero by (simp add: alloc_result_def)
        have r1: "regions m1 \<noteq> None" using bits_nowD(9) [OF m1] Cons.prems(2) by simp
        note IH = Cons.IH [OF bits_nowD(1) [OF m1] r1]
        have "alloc_result m count (region_search hint start count rs m1)"
          by (rule alloc_result_trans [OF m1 g conjunct1 [OF IH]])
        moreover have "\<exists>j. s \<le> j \<and> j < s + unat count \<and> used m j"
          if "can_log m count" "fst (region_search hint start count rs m1) = 0" "s + unat count \<le> ndata m" for s
          using conjunct2 [OF IH] A(2) that zero by (intro alloc_complete_trans [OF m1 g that(3)]) blast
        ultimately show ?thesis unfolding eq by blast
      qed
    qed
  qed
  then show "alloc_result m count (region_search hint start count rs m)"
    and "can_log m count \<Longrightarrow> fst (region_search hint start count rs m) = 0 \<Longrightarrow>
      s + unat count \<le> ndata m \<Longrightarrow> \<exists>j. s \<le> j \<and> j < s + unat count \<and> used m j"
    by blast+
qed

lemma bitmap_alloc_sound:
  assumes "sound m"
  shows "alloc_result m 1 (bitmap_alloc m)"
    and "can_log m 1 \<Longrightarrow> fst (bitmap_alloc m) = 0 \<Longrightarrow> s < ndata m \<Longrightarrow> used m s"
proof -
  have one: "0 < unat (1 :: u32)" by simp
  note L = linear_sound [OF assms one]
  note R = region_search_sound [OF assms one]
  show "alloc_result m 1 (bitmap_alloc m)"
    using L(1) R(1) by (cases "regions m = None") (simp_all add: bitmap_alloc_def)
  assume "can_log m 1" "fst (bitmap_alloc m) = 0" "s < ndata m"
  then have "\<exists>j. s \<le> j \<and> j < s + unat (1 :: u32) \<and> used m j"
  proof (cases "regions m = None")
    case True
    then show ?thesis
      using L(2) [of s] \<open>can_log m 1\<close> \<open>fst (bitmap_alloc m) = 0\<close> \<open>s < ndata m\<close> by (simp add: bitmap_alloc_def)
  next
    case False
    then have "bitmap_alloc m = region_search (\<lambda>r. r) (alloc_hint_region m) 1 [0..<unat (region_count m)] m"
      by (auto simp: bitmap_alloc_def)
    then show ?thesis
      using R(2) [OF False \<open>can_log m 1\<close>, of "\<lambda>r. r" "alloc_hint_region m" "[0..<unat (region_count m)]" s]
        \<open>fst (bitmap_alloc m) = 0\<close> \<open>s < ndata m\<close> by simp
  qed
  then show "used m s" by (auto simp: less_Suc_eq le_less)
qed

lemma bitmap_alloc_range_sound:
  assumes "sound m" "0 < unat count"
  shows "alloc_result m count (bitmap_alloc_range m count)"
    and "can_log m count \<Longrightarrow> fst (bitmap_alloc_range m count) = 0 \<Longrightarrow>
      s + unat count \<le> ndata m \<Longrightarrow> \<exists>j. s \<le> j \<and> j < s + unat count \<and> used m j"
proof -
  have c: "count \<noteq> 0" using assms(2) by auto
  note L = linear_sound [OF assms]
  note R = region_search_sound [OF assms]
  note B = bitmap_alloc_sound [OF assms(1)]
  have "alloc_result m count (bitmap_alloc_range m count) \<and>
    (can_log m count \<longrightarrow> fst (bitmap_alloc_range m count) = 0 \<longrightarrow> s + unat count \<le> ndata m \<longrightarrow>
      (\<exists>j. s \<le> j \<and> j < s + unat count \<and> used m j))"
  proof (cases "count = 1")
    case True
    then show ?thesis using B by (auto simp: bitmap_alloc_range_def intro: exI [of _ s])
  next
    case False
    show ?thesis
    proof (cases "regions m \<noteq> None \<and> unat count \<le> 256")
      case True
      then have "bitmap_alloc_range m count = region_search (\<lambda>r. (r + 1) mod region_count m)
          (alloc_hint_region m) count [0..<unat (region_count m)] m"
        using False c by (simp add: bitmap_alloc_range_def)
      then show ?thesis using R True by simp
    next
      case no: False
      then have "bitmap_alloc_range m count = bitmap_alloc_range_linear m count"
        using False c by (auto simp: bitmap_alloc_range_def)
      then show ?thesis using L by simp
    qed
  qed
  then show "alloc_result m count (bitmap_alloc_range m count)"
    and "can_log m count \<Longrightarrow> fst (bitmap_alloc_range m count) = 0 \<Longrightarrow>
      s + unat count \<le> ndata m \<Longrightarrow> \<exists>j. s \<le> j \<and> j < s + unat count \<and> used m j"
    by blast+
qed


section \<open>Releasing a range\<close>

lemma read_block_pair2:
  assumes "read_block m b = (r, m1)"
  shows "journal_next_sequence m1 = journal_next_sequence m"
  using read_block_fields(4) [of m b] unfolding assms by (simp_all only: prod.sel)

lemma region_release_simps [simp]:
  "sb (region_release idx m) = sb m" "block_view (region_release idx m) = block_view m"
  "journal_in_transaction (region_release idx m) = journal_in_transaction m"
  "journal_next_sequence (region_release idx m) = journal_next_sequence m"
  "used (region_release idx m) = used m"
  by (rule region_release_regions [of idx m]; simp)+

lemma bits_now_release: "bits_now m P n m' \<Longrightarrow> bits_now m P n (region_release idx m')"
  by (rule region_release_regions [of idx m']) (simp add: bits_now_regions)

text \<open>What a prefix of the loop has freed.\<close>

definition used_in :: "mount \<Rightarrow> nat \<Rightarrow> nat \<Rightarrow> nat" where
  "used_in m s n = length (filter (used m) [s..<s + n])"

lemma free_loop_sound:
  assumes "sound m" "s + (k + n) \<le> ndata m"
  shows "\<exists>m'. free_loop (sb_data_start (sb m) + of_nat s) [k..<k + n] freed m = (Inr (freed + of_nat (used_in m (s + k) n)), m') \<and>
    bits_now m (\<lambda>j. \<not> (s + k \<le> j \<and> j < s + (k + n)) \<and> used m j) 0 m' \<and>
    sb m' = sb m \<and> journal_in_transaction m' = journal_in_transaction m \<and>
    journal_next_sequence m' = journal_next_sequence m"
  using assms
proof (induction n arbitrary: k m freed)
  case 0
  then show ?case by (simp add: used_in_def bits_now_cong [OF bits_now_refl])
next
  case (Suc n)
  let ?i = "s + k"
  have g: "geom (sb m)" by (rule vol_okD(3) [OF soundD(1) [OF Suc.prems(1)]])
  have i: "?i < ndata m" using Suc.prems(2) by simp
  note I = block_index [OF g i]
  have blk: "sb_data_start (sb m) + of_nat s + of_nat k = sb_data_start (sb m) + of_nat ?i" by simp
  define idx where "idx = sb_data_start (sb m) + of_nat ?i - sb_data_start (sb m)"
  note P = bm_pos [OF I(2), folded idx_def]
  let ?b = "sb_bitmap_start (sb m) + of_nat (?i div 32768)"
  obtain m1 where rd: "read_block m ?b = (Inr (block_view m1 ?b), m1)" and m1: "bits_now m (used m) 0 m1"
    and ub: "bit (block_view m1 ?b ! (?i mod 32768 div 8)) (?i mod 8) = used m ?i"
    using read_hit_now [OF Suc.prems(1) I(3)] by blast
  note sb1 = read_block_pair [OF rd] read_block_pair2 [OF rd]
  have len: "length (block_view m1 ?b) = 4096" using cache.view_length soundD(4) [OF bits_nowD(1) [OF m1]] by simp
  define w where "w = (if used m ?i
     then write_block (region_release idx m1) ?b (clear_bit_in (?i mod 32768 div 8) (?i mod 8) (block_view m1 ?b))
     else write_block m1 ?b (block_view m1 ?b))"
  have w: "fst w = OK \<and> bits_now m (\<lambda>j. j \<noteq> ?i \<and> used m j) 0 (snd w) \<and> sb (snd w) = sb m \<and>
      journal_in_transaction (snd w) = journal_in_transaction m \<and> journal_next_sequence (snd w) = journal_next_sequence m"
  proof (cases "used m ?i")
    case True
    let ?m = "region_release idx m1"
    have m2: "bits_now m (used m) 0 ?m" by (rule bits_now_release [OF m1])
    have lt: "?i < unat (sb_bitmap_length (sb ?m)) * 32768" using I(3) sb1 by simp
    note C = bit_write_now(2) [OF bits_nowD(1) [OF m2] lt]
    have l: "length (clear_bit_in (?i mod 32768 div 8) (?i mod 8) (block_view m1 ?b)) = 4096" using len by simp
    note W = bm_write_now(1) [OF bits_nowD(1) [OF m2] lt l]
    have ws: "w = write_block ?m ?b (clear_bit_in (?i mod 32768 div 8) (?i mod 8) (block_view ?m ?b))"
      using True by (simp add: w_def)
    have "bits_now ?m (\<lambda>j. j \<noteq> ?i \<and> used ?m j) 0 (snd w)" using C sb1 unfolding ws by simp
    from bits_now_trans [OF m2 this, of "\<lambda>j. j \<noteq> ?i \<and> used m j"]
    have "bits_now m (\<lambda>j. j \<noteq> ?i \<and> used m j) 0 (snd w)" using bits_nowD(3) [OF m1] by simp
    moreover have "fst w = OK" using W sb1 unfolding ws by simp
    ultimately show ?thesis using sb1 by (simp add: ws)
  next
    case False
    have lt: "?i < unat (sb_bitmap_length (sb m1)) * 32768" using I(3) sb1 by simp
    note C = bm_write_now [OF bits_nowD(1) [OF m1] lt len]
    have ws: "w = write_block m1 ?b (block_view m1 ?b)" using False by (simp add: w_def)
    have "used m1 j = (if j div 32768 = ?i div 32768 then bit (block_view m1 ?b ! (j mod 32768 div 8)) (j mod 8) else used m1 j)" for j
      by (simp add: used_def sb1)
    then have "bits_now m1 (used m1) 0 (snd w)" using bits_now_cong [OF C(2), of "used m1"] sb1 unfolding ws by simp
    from bits_now_trans [OF m1 this, of "used m"]
    have "bits_now m (used m) 0 (snd w)" using bits_nowD(3) [OF m1] by simp
    then have "bits_now m (\<lambda>j. j \<noteq> ?i \<and> used m j) 0 (snd w)" using False by (elim bits_now_cong) auto
    moreover have "fst w = OK" using C(1) sb1 unfolding ws by simp
    ultimately show ?thesis using sb1 by (simp add: ws)
  qed
  then have w1: "fst w = OK" and w2: "bits_now m (\<lambda>j. j \<noteq> ?i \<and> used m j) 0 (snd w)" and w3: "sb (snd w) = sb m"
    "journal_in_transaction (snd w) = journal_in_transaction m" "journal_next_sequence (snd w) = journal_next_sequence m"
    by blast+
  let ?fr = "if used m ?i then freed + 1 else freed"
  have b32: "idx div (of_nat (4096 * 8)) = of_nat (?i div 32768)" using P(4) by simp
  have step: "free_loop (sb_data_start (sb m) + of_nat s) [k..<k + Suc n] freed m =
      free_loop (sb_data_start (sb m) + of_nat s) [Suc k..<Suc k + n] ?fr (snd w)"
  proof -
    have upt: "[k..<k + Suc n] = k # [Suc k..<Suc k + n]" by (simp add: upt_conv_Cons del: upt_Suc)
    show ?thesis
      unfolding upt free_loop.simps Let_def blk idx_def [symmetric] b32 P(2,3)
      using I(1) rd ub w1 by (auto simp: w_def thenE_def orS_def orE_def bindE_def)
  qed
  have nd: "s + (Suc k + n) \<le> ndata (snd w)" using Suc.prems(2) bits_nowD(8) [OF w2] by simp
  from Suc.IH [OF bits_nowD(1) [OF w2] nd, of ?fr]
  obtain m' where m': "free_loop (sb_data_start (sb m) + of_nat s) [Suc k..<Suc k + n] ?fr (snd w) =
      (Inr (?fr + of_nat (used_in (snd w) (s + Suc k) n)), m')"
    "bits_now (snd w) (\<lambda>j. \<not> (s + Suc k \<le> j \<and> j < s + (Suc k + n)) \<and> used (snd w) j) 0 m'"
    "sb m' = sb m" "journal_in_transaction m' = journal_in_transaction m"
    "journal_next_sequence m' = journal_next_sequence m"
    using w3 by auto
  have "bits_now m (\<lambda>j. \<not> (s + k \<le> j \<and> j < s + (k + Suc n)) \<and> used m j) (0 + 0) m'"
  proof (rule bits_now_trans [OF w2 m'(2)])
    fix j assume "j < unat (sb_bitmap_length (sb m)) * 32768"
    from bits_nowD(3) [OF w2 this]
    show "(\<not> (s + Suc k \<le> j \<and> j < s + (Suc k + n)) \<and> used (snd w) j) =
        (\<not> (s + k \<le> j \<and> j < s + (k + Suc n)) \<and> used m j)" by auto
  qed
  moreover have "?fr + of_nat (used_in (snd w) (s + Suc k) n) = freed + of_nat (used_in m (s + k) (Suc n))"
  proof -
    have "[s + k..<s + k + Suc n] = (s + k) # [s + Suc k..<s + Suc k + n]" by (simp add: upt_conv_Cons del: upt_Suc)
    moreover have "filter (used (snd w)) [s + Suc k..<s + Suc k + n] = filter (used m) [s + Suc k..<s + Suc k + n]"
    proof (rule filter_cong [OF refl])
      fix j assume "j \<in> set [s + Suc k..<s + Suc k + n]"
      then have "j \<noteq> ?i" "j < unat (sb_bitmap_length (sb m)) * 32768"
        using Suc.prems(2) geom_data(2) [OF g] by auto
      then show "used (snd w) j = used m j" using bits_nowD(3) [OF w2] by simp
    qed
    ultimately show ?thesis by (simp add: used_in_def del: upt_Suc)
  qed
  ultimately show ?case unfolding step using m' by simp
qed

lemma used_in_le: "used_in m s n \<le> n"
  unfolding used_in_def by (rule order_trans [OF length_filter_le]) simp

lemma bitmap_free_range_sound:
  assumes "sound m" "s + unat count \<le> ndata m" "0 < unat count" "can_log m (of_nat (used_in m s (unat count)))"
  defines "n \<equiv> used_in m s (unat count)"
  obtains m' where "bitmap_free_range m (sb_data_start (sb m) + of_nat s) count = (OK, m')"
    "bits_now m (\<lambda>j. \<not> (s \<le> j \<and> j < s + unat count) \<and> used m j) (of_nat n) m'"
    "0 < n \<Longrightarrow> block_view m' (sb_journal_start (sb m) + sb_journal_head (sb m)) =
      journal_entry_block (journal_next_sequence m) SMKFS_JOP_FREE (sb_data_start (sb m) + of_nat s) (of_nat n) 0 None"
proof -
  let ?start = "sb_data_start (sb m) + of_nat s"
  have c: "count \<noteq> 0" using assms(3) by auto
  obtain m1 where fl: "free_loop ?start [0..<unat count] 0 m = (Inr (of_nat n), m1)"
    and m1: "bits_now m (\<lambda>j. \<not> (s \<le> j \<and> j < s + unat count) \<and> used m j) 0 m1"
    and f1: "sb m1 = sb m" "journal_in_transaction m1 = journal_in_transaction m"
      "journal_next_sequence m1 = journal_next_sequence m"
    using free_loop_sound [OF assms(1), of s 0 "unat count" 0] assms(2) by (auto simp: n_def)
  have nle: "n \<le> unat count" by (simp add: n_def used_in_le)
  then have n32: "unat (of_nat n :: u32) = n"
    using unat_lt32 [of count] by (intro unat_of_nat_small) simp
  define l where "l = journal_log_free m1 ?start (of_nat n)"
  note L = log_now [OF bits_nowD(1) [OF m1], of SMKFS_JOP_FREE ?start "of_nat n" 0, folded journal_log_free_def, folded l_def]
  have "can_log m1 (of_nat n) = can_log m (of_nat n)" by (rule can_log_cong) (simp_all add: f1)
  then have ok: "fst l = OK" using L(2) assms(4) by (simp add: n_def)
  have bl: "bits_now m (\<lambda>j. \<not> (s \<le> j \<and> j < s + unat count) \<and> used m j) (0 + 0) (snd l)"
    by (rule bits_now_trans [OF m1 L(1)]) (use bits_nowD(3) [OF m1] in simp)
  let ?m' = "if 0 < n then add_free_blocks (of_nat n) (snd l) else m1"
  have eq: "bitmap_free_range m ?start count = (OK, ?m')"
  proof -
    have "(0 < (of_nat n :: u32)) = (0 < n)" using n32 by (metis unat_gt_0 neq0_conv unat_0 word_gt_0)
    moreover have "ucast (of_nat n :: u32) = (of_nat n :: u64)"
    proof -
      have "n < 2 ^ 64" using n32 unat_lt32 [of "of_nat n"] by simp
      then have "unat (of_nat n :: u64) = n" by (simp add: unat_of_nat_small)
      then show ?thesis using n32 by (simp add: word_unat_eq_iff unat_ucast_up)
    qed
    ultimately show ?thesis using c soundD(3) [OF assms(1)] fl ok
      by (auto simp: bitmap_free_range_def l_def split: prod.split)
  qed
  have "bits_now m (\<lambda>j. \<not> (s \<le> j \<and> j < s + unat count) \<and> used m j) ((0 + 0) + of_nat n)
      (add_free_blocks (of_nat n) (snd l))"
    by (rule bits_now_trans [OF bl add_free_now [OF bits_nowD(1) [OF bl]]]) (simp add: bits_nowD(3) [OF bl])
  then have b: "bits_now m (\<lambda>j. \<not> (s \<le> j \<and> j < s + unat count) \<and> used m j) (of_nat n) ?m'"
    using m1 by (cases "0 < n") simp_all
  have g: "geom (sb m)" by (rule vol_okD(3) [OF soundD(1) [OF assms(1)]])
  have v: "block_view ?m' (sb_journal_start (sb m) + sb_journal_head (sb m)) =
      journal_entry_block (journal_next_sequence m) SMKFS_JOP_FREE ?start (of_nat n) 0 None" if "0 < n"
  proof -
    have le: "journal_write_entry m1 SMKFS_JOP_FREE ?start (of_nat n) 0 None = (OK, snd l)"
      using ok by (simp add: l_def journal_log_free_def prod_eq_iff)
    have "blk_ok (sb_journal_start (sb m) + sb_journal_head (sb m))"
      using journal_block(2) [OF g head_lt [OF soundD(1) [OF assms(1)]]] .
    from journal_write_entry_spec(2) [OF soundD(1) [OF bits_nowD(1) [OF m1]] loggable_simps(1) le this]
    show ?thesis using that f1 by simp
  qed
  from that [OF eq b v] show thesis .
qed


section \<open>Properties\<close>

text \<open>The demonstration volume has 53 data blocks, all free.\<close>

lemma concat_replicate_map: "concat (map (\<lambda>i. replicate k x) [0..<n]) = replicate (n * k) x"
  by (induction n) (simp_all add: add.commute flip: replicate_add)

lemma demo_bitmap:
  "ndata demo_mount = 53" "sb_data_start (sb demo_mount) = 11" "\<not> used demo_mount i"
  "can_log demo_mount 3" "sb_bitmap_start (sb demo_mount) = 9" "block_view demo_mount b = replicate 4096 0"
proof -
  have d: "sb demo_mount = demo_sb" "drv demo_mount = drv blank_mount" "block_cache demo_mount = block_cache blank_mount"
    by (simp_all add: demo_mount_def)
  show "ndata demo_mount = 53" "sb_data_start (sb demo_mount) = 11" "sb_bitmap_start (sb demo_mount) = 9"
    unfolding ndata_def data_blocks_def d by (simp_all add: demo_sb_def)
  show "can_log demo_mount 3" using demo_journal by (simp add: can_log_def)
  have bv: "block_view demo_mount = block_view blank_mount"
    by (auto simp: fun_eq_iff block_view_def block_cache_hit_def disk_block_def d split: option.splits)
  have bl: "block_view blank_mount b = replicate 4096 0" for b
  proof -
    have "block_view blank_mount = disk_block \<lparr> drive_num = 0, mounted = True, sb = blank_sb, journal_next_sequence = 0,
       journal_in_transaction = False, journal_write_pos = 0, fd_table = [], regions = None,
       region_count = 0, alloc_hint_region = 0, block_cache = [],
       drv = \<lparr> connected = True, sector = \<lambda>_. replicate 512 0, rd_bad = \<lambda>_. False,
               wr_bad = \<lambda>_. False \<rparr>,
       heap_ok = True \<rparr>"
      unfolding blank_mount_def by (rule block_cache_init_inv(2)) (simp_all add: blank_sb_def)
    then show ?thesis using concat_replicate_map [of 512 "0 :: u8" 8] by (simp add: disk_block_def)
  qed
  have v: "block_view demo_mount b = replicate 4096 0" for b by (simp add: bv bl)
  show "block_view demo_mount b = replicate 4096 0" by (rule v)
  show "\<not> used demo_mount i" unfolding used_def v using used_off [of i] by simp
qed

text \<open>
  C8. The allocator never hands out a block in use. On a sound volume a non-zero result of
  \<open>bitmap_alloc_range\<close> is the start of a run of \<open>count\<close> data blocks that were all
  free, exactly these bits are now set and the free count is lower by \<open>count\<close>; a result
  of 0 leaves every bit and the free count as they were, the undo of an unjournaled
  allocation included. In both cases nothing outside the journal and the bitmap changes.
\<close>
theorem bitmap_alloc_range_safe:
  assumes "sound m" "0 < unat count" "bitmap_alloc_range m count = (r, m')"
  shows "sound m' \<and> alloc_frame m m' \<and>
    (r = 0 \<longrightarrow> (\<forall>j < unat (sb_bitmap_length (sb m)) * 32768. used m' j = used m j) \<and>
       sb_free_blocks (sb m') = sb_free_blocks (sb m)) \<and>
    (r \<noteq> 0 \<longrightarrow> (\<exists>s. r = sb_data_start (sb m) + of_nat s \<and> s + unat count \<le> ndata m \<and>
       (\<forall>j. s \<le> j \<and> j < s + unat count \<longrightarrow> \<not> used m j) \<and>
       (\<forall>j < unat (sb_bitmap_length (sb m)) * 32768.
          used m' j = ((s \<le> j \<and> j < s + unat count) \<or> used m j)) \<and>
       sb_free_blocks (sb m') = sb_free_blocks (sb m) - ucast count))"
  using bitmap_alloc_range_sound(1) [OF assms(1,2)] assms(3)
  by (auto simp: alloc_result_def bits_now_def)

theorem bitmap_alloc_range_safe_witness:
  "\<exists>r m'. bitmap_alloc_range demo_mount 3 = (r, m') \<and> sound m' \<and>
     (r \<noteq> 0 \<longrightarrow> sb_free_blocks (sb m') = 50)"
proof -
  obtain r m' where b: "bitmap_alloc_range demo_mount 3 = (r, m')" by fastforce
  have "sb_free_blocks (sb demo_mount) = 53" by (simp add: demo_mount_def demo_sb_def)
  then show ?thesis using bitmap_alloc_range_safe [OF demo_sound _ b] b by auto
qed

text \<open>
  C9. The allocator finds space where there is some: on a sound volume with a transaction
  open and room for one journal entry, for counts from 1 to 4032, \<open>bitmap_alloc_range\<close> returns 0
  only if every run of \<open>count\<close> consecutive data blocks contains a used one. The bound is that of
  the journal, which takes the count for the length of the data and refuses more than 4032.
\<close>
theorem bitmap_alloc_range_complete:
  assumes "sound m" "0 < unat count" "unat count \<le> 4032"
    and "journal_in_transaction m" "\<not> journal_is_full m"
    and "s + unat count \<le> ndata m" "\<And>j. s \<le> j \<Longrightarrow> j < s + unat count \<Longrightarrow> \<not> used m j"
  shows "fst (bitmap_alloc_range m count) \<noteq> 0"
  using bitmap_alloc_range_sound(2) [OF assms(1,2), of s] assms by (auto simp: can_log_def)

theorem bitmap_alloc_range_complete_witness: "fst (bitmap_alloc_range demo_mount 3) \<noteq> 0"
  using bitmap_alloc_range_complete [OF demo_sound, of 3 0] demo_journal(5,7) demo_bitmap by simp

text \<open>
  Single bits: on a sound volume, for the number of a data block, \<open>bitmap_set\<close> and
  \<open>bitmap_clear\<close> succeed and change that block's bit alone, \<open>bitmap_test\<close> reads it, and the
  free count moves by one exactly if the bit does.
\<close>
theorem bitmap_set_clear_test:
  assumes "sound m" "i < ndata m"
  defines "b \<equiv> sb_data_start (sb m) + of_nat i"
  shows "\<exists>m1 m2 m3. bitmap_set m b = (OK, m1) \<and> bitmap_clear m b = (OK, m2) \<and>
    bitmap_test m b = (Inr (used m i), m3) \<and> sound m1 \<and> sound m2 \<and> sound m3 \<and>
    (\<forall>j < ndata m. used m1 j = (j = i \<or> used m j) \<and> used m2 j = (j \<noteq> i \<and> used m j) \<and>
       used m3 j = used m j) \<and>
    sb_free_blocks (sb m1) = sb_free_blocks (sb m) - (if used m i then 0 else 1) \<and>
    sb_free_blocks (sb m2) = sb_free_blocks (sb m) + (if used m i then 1 else 0)"
proof -
  note S = bitmap_set_sound [OF assms(1,2), folded b_def]
  note C = bitmap_clear_sound [OF assms(1,2), folded b_def]
  obtain m3 where T: "bitmap_test m b = (Inr (used m i), m3)" "bits_now m (used m) 0 m3"
    using bitmap_test_sound [OF assms(1,2), folded b_def] by blast
  have le: "ndata m \<le> unat (sb_bitmap_length (sb m)) * 32768"
    using geom_data(2) vol_okD(3) soundD(1) assms(1) by blast
  have "bitmap_set m b = (OK, snd (bitmap_set m b))" "bitmap_clear m b = (OK, snd (bitmap_clear m b))"
    using S(1) C(1) by (simp_all add: prod_eq_iff)
  then show ?thesis
    using S(2) C(2) T le
    by (intro exI [of _ "snd (bitmap_set m b)"] exI [of _ "snd (bitmap_clear m b)"] exI [of _ m3])
      (auto simp: bits_now_def)
qed

theorem bitmap_set_clear_test_witness:
  "\<exists>m1. bitmap_set demo_mount 18 = (OK, m1) \<and> sb_free_blocks (sb m1) = 52 \<and> used m1 7"
proof -
  have f: "sb_free_blocks (sb demo_mount) = 53" by (simp add: demo_mount_def demo_sb_def)
  show ?thesis
    using bitmap_set_clear_test [OF demo_sound, of 7] demo_bitmap f by auto
qed

text \<open>
  C10. Releasing a range on a sound volume clears exactly the range's bits and adds the number
  of bits that were set to the free count. The journal entry it writes names the start of the
  range and that number: if a block of the range was free already, the entry describes a
  shorter range than the one whose bits were cleared.
\<close>
theorem bitmap_free_range_releases:
  assumes "sound m" "s + unat count \<le> ndata m" "0 < unat count"
    and "can_log m (of_nat (used_in m s (unat count)))"
  shows "\<exists>m'. bitmap_free_range m (sb_data_start (sb m) + of_nat s) count = (OK, m') \<and> sound m' \<and>
    alloc_frame m m' \<and>
    (\<forall>j < ndata m. used m' j = (\<not> (s \<le> j \<and> j < s + unat count) \<and> used m j)) \<and>
    sb_free_blocks (sb m') = sb_free_blocks (sb m) + of_nat (used_in m s (unat count)) \<and>
    (0 < used_in m s (unat count) \<longrightarrow>
       block_view m' (sb_journal_start (sb m) + sb_journal_head (sb m)) =
         journal_entry_block (journal_next_sequence m) SMKFS_JOP_FREE (sb_data_start (sb m) + of_nat s)
           (of_nat (used_in m s (unat count))) 0 None)"
proof -
  have le: "ndata m \<le> unat (sb_bitmap_length (sb m)) * 32768"
    using geom_data(2) vol_okD(3) soundD(1) assms(1) by blast
  from bitmap_free_range_sound [OF assms] obtain m' where
    "bitmap_free_range m (sb_data_start (sb m) + of_nat s) count = (OK, m')"
    "bits_now m (\<lambda>j. \<not> (s \<le> j \<and> j < s + unat count) \<and> used m j) (of_nat (used_in m s (unat count))) m'"
    "0 < used_in m s (unat count) \<Longrightarrow> block_view m' (sb_journal_start (sb m) + sb_journal_head (sb m)) =
      journal_entry_block (journal_next_sequence m) SMKFS_JOP_FREE (sb_data_start (sb m) + of_nat s)
        (of_nat (used_in m s (unat count))) 0 None" by blast
  then show ?thesis using le by (intro exI [of _ m']) (auto simp: bits_now_def)
qed

text \<open>The witness frees blocks 17 and 18 when only block 18 is used: the entry names block 17.\<close>

theorem bitmap_free_range_releases_witness:
  "\<exists>m1 m'. bitmap_set demo_mount 18 = (OK, m1) \<and> bitmap_free_range m1 17 2 = (OK, m') \<and>
     \<not> used m' 7 \<and> j_target_block (dec_journal_entry (block_view m' 1)) = 17 \<and>
     j_data_length (dec_journal_entry (block_view m' 1)) = 1"
proof -
  define m1 where "m1 = snd (bitmap_set demo_mount (11 + 7))"
  have seven: "(7::nat) < ndata demo_mount" by (simp add: demo_bitmap)
  note S = bitmap_set_sound [OF demo_sound seven, unfolded demo_bitmap(2), simplified]
  have s: "bitmap_set demo_mount 18 = (OK, m1)" using S(1) by (simp add: m1_def prod_eq_iff)
  have b: "bits_now demo_mount (\<lambda>j. j = 7 \<or> used demo_mount j) (- 1) m1"
    using S(2) demo_bitmap(3) by (simp add: m1_def)
  have N: "unat (sb_bitmap_length (sb demo_mount)) * 32768 = 32768"
    by (simp add: demo_mount_def demo_sb_def)
  have u: "used m1 6 = False" "used m1 7 = True"
    using bits_nowD(3) [OF b] demo_bitmap(3) N by simp_all
  then have n: "used_in m1 6 2 = 1" by (simp add: used_in_def upt_rec_numeral)
  have n1: "of_nat (used_in m1 6 2) = (1 :: u32)" by (simp add: n)
  have sbm: "sb m1 = (sb demo_mount)\<lparr> sb_free_blocks := sb_free_blocks (sb demo_mount) - 1 \<rparr>"
    "journal_in_transaction m1 = journal_in_transaction demo_mount"
  proof -
    have nine: "blk_ok 9" by (simp add: blk_ok_def)
    obtain m0 where rd: "read_block demo_mount 9 = (Inr (block_view demo_mount 9), m0)"
      using sound_read_block(1) [OF demo_sound nine] by (metis prod.collapse)
    have "\<not> bit (block_view demo_mount 9 ! 0) 7" using demo_bitmap(3) [of 7] demo_bitmap(5) by (simp add: used_def)
    then have m1: "m1 = snd (write_block (region_claim 7 (add_free_blocks (- 1) m0)) 9
        (set_bit_in 0 7 (block_view demo_mount 9)))"
      using rd soundD(3) [OF demo_sound] demo_bitmap(2,5)
      by (simp add: m1_def bitmap_set_def bm_block_def bm_byte_def bm_bit_def Let_def)
    obtain x where "region_claim 7 (add_free_blocks (- 1) m0) = (add_free_blocks (- 1) m0)\<lparr> regions := x \<rparr>"
      by (rule region_claim_regions)
    then show "sb m1 = (sb demo_mount)\<lparr> sb_free_blocks := sb_free_blocks (sb demo_mount) - 1 \<rparr>"
      "journal_in_transaction m1 = journal_in_transaction demo_mount"
      unfolding m1 using read_block_pair [OF rd] by simp_all
  qed
  have cl: "can_log m1 (of_nat (used_in m1 6 (unat (2 :: u32))))"
    using can_log_cong [of m1 demo_mount 1] demo_journal n1 sbm by (simp add: can_log_def)
  have d: "ndata m1 = 53" "sb_data_start (sb m1) = 11" "sb_journal_start (sb m1) = 1" "sb_journal_head (sb m1) = 0"
    using sbm demo_bitmap(1,2) demo_journal bits_nowD(8) [OF b] by simp_all
  obtain m' where m': "bitmap_free_range m1 17 2 = (OK, m')" "\<forall>j < 53. used m' j = (\<not> (6 \<le> j \<and> j < 8) \<and> used m1 j)"
    "block_view m' 1 = journal_entry_block (journal_next_sequence m1) SMKFS_JOP_FREE 17 1 0 None"
    using bitmap_free_range_releases [OF bits_nowD(1) [OF b], of 6 2] cl d n by auto
  have "\<not> used m' 7" using m'(2) by simp
  moreover have "unat (1 :: u32) \<le> 4032" by simp
  note R = journal_entry_block_read(4,6) [OF this loggable_simps(1), of "journal_next_sequence m1" SMKFS_JOP_FREE 17 0]
  ultimately show ?thesis using s m' R by auto
qed

end
