(* ===== verification/Mrt.thy ===== *)
theory Mrt
  imports BitmapAlloc
begin

text \<open>
  The master record table of \<^verbatim>\<open>fs/smkfs/mrt.c\<close>: blocks of 256 entries that map a record
  number to its block, its allocation flag and its generation. Every change of an entry is
  journaled if a transaction is open and taken back if the journal refuses it. The assertions
  on the entry size hold by the layout; the callers pass at least one block as length.
\<close>

section \<open>Entries in a block\<close>

definition mrt_get :: "bytes \<Rightarrow> nat \<Rightarrow> mrt_entry" where
  "mrt_get buf j = dec_mrt_entry (slice (16 * j) 16 buf)"

definition mrt_put :: "nat \<Rightarrow> mrt_entry \<Rightarrow> bytes \<Rightarrow> bytes" where
  "mrt_put j e buf = patch (16 * j) (enc_mrt_entry e) buf"

definition free_mrt_entry :: mrt_entry where
  "free_mrt_entry = \<lparr> m_physical_block = UINT64_MAX, m_flags = 0, m_reserved = 0, m_generation = 0 \<rparr>"

text \<open>The block that \<open>mrt_format\<close> writes, whatever its stack buffer held.\<close>

definition mrt_format_block :: "bytes \<Rightarrow> bytes" where
  "mrt_format_block buf = fold (\<lambda>j. mrt_put j free_mrt_entry) [0..<256] buf"

fun mrt_format_loop :: "u64 \<Rightarrow> nat list \<Rightarrow> bytes \<Rightarrow> mount \<Rightarrow> status \<times> mount" where
  "mrt_format_loop start [] buf m = (OK, m)"
| "mrt_format_loop start (i # is) buf m =
     (let buf1 = mrt_format_block buf
      in thenS (orS (write_block m (start + of_nat i) buf1) ERR_IO) (mrt_format_loop start is buf1))"

definition mrt_format :: "bytes \<Rightarrow> mount \<Rightarrow> u64 \<Rightarrow> u64 \<Rightarrow> status \<times> mount" where
  "mrt_format stack m start_block len = mrt_format_loop start_block [0..<unat len] stack m"

definition mrt_init :: "mount \<Rightarrow> u64 \<Rightarrow> u64 \<Rightarrow> status \<times> mount" where
  "mrt_init m start_block len =
     (OK, m\<lparr> sb := (sb m)\<lparr> sb_mrt_start := start_block, sb_mrt_length := len,
                           sb_mrt_capacity := len * 256 \<rparr> \<rparr>)"

definition mrt_allocated :: "mrt_entry \<Rightarrow> bool" where
  "mrt_allocated e \<longleftrightarrow> m_flags e AND SMKFS_MRTF_ALLOCATED \<noteq> 0"

section \<open>Operations\<close>

text \<open>
  The end that the three updates share: the changed block is written, the new entry journaled
  if a transaction is open, and the old entry put back if the journal refuses it.
\<close>

definition mrt_store :: "mount \<Rightarrow> u64 \<Rightarrow> nat \<Rightarrow> u64 \<Rightarrow> bytes \<Rightarrow> mrt_entry \<Rightarrow> status \<times> mount" where
  "mrt_store m block_id j record_id buf e =
     thenS (orS (write_block m block_id (mrt_put j e buf)) ERR_IO) (\<lambda>m1.
       if journal_in_transaction m1
       then (case journal_log_mrt_update m1 record_id e of
               (st, m2) \<Rightarrow>
                 if st \<noteq> OK
                 then (ERR_JOURNAL, snd (write_block m2 block_id (mrt_put j (mrt_get buf j) (mrt_put j e buf))))
                 else (OK, m2))
       else (OK, m1))"

definition mrt_candidate :: "nat \<Rightarrow> bytes \<Rightarrow> nat option" where
  "mrt_candidate i buf =
     find_idx (\<lambda>j. (of_nat (i * 256 + j) :: u64) \<noteq> 0 \<and> \<not> mrt_allocated (mrt_get buf j)) [0..<256]"

fun mrt_alloc_loop :: "nat list \<Rightarrow> mount \<Rightarrow> (status + u64 \<times> u32) \<times> mount" where
  "mrt_alloc_loop [] m = (Inl ERR_NOSPC, m)"
| "mrt_alloc_loop (i # is) m =
     (let block_id = sb_mrt_start (sb m) + of_nat i
      in bindE (orE (read_block m block_id) ERR_IO) (\<lambda>buf m1.
           case mrt_candidate i buf of
             None \<Rightarrow> mrt_alloc_loop is m1
           | Some j \<Rightarrow>
               let candidate = of_nat (i * 256 + j);
                   old = mrt_get buf j;
                   e = old\<lparr> m_flags := m_flags old OR SMKFS_MRTF_ALLOCATED,
                            m_physical_block := UINT64_MAX, m_generation := m_generation old + 1 \<rparr>
               in thenE (mrt_store m1 block_id j candidate buf e) (\<lambda>m2.
                    (Inr (candidate, m_generation e),
                     m2\<lparr> sb := (sb m2)\<lparr> sb_mrt_free_count := sb_mrt_free_count (sb m2) - 1 \<rparr> \<rparr>))))"

definition mrt_alloc_entry :: "mount \<Rightarrow> (status + u64 \<times> u32) \<times> mount" where
  "mrt_alloc_entry m = mrt_alloc_loop [0..<unat (sb_mrt_length (sb m))] m"

definition mrt_update_entry :: "mount \<Rightarrow> u64 \<Rightarrow> u64 \<Rightarrow> u16 \<Rightarrow> status \<times> mount" where
  "mrt_update_entry m record_id new_physical_block flags =
     (if record_id \<ge> sb_mrt_capacity (sb m) then (ERR_INVAL, m)
      else
        let block_id = sb_mrt_start (sb m) + record_id div 256;
            j = unat (record_id mod 256)
        in bindS (orE (read_block m block_id) ERR_IO) (\<lambda>buf m1.
             let old = mrt_get buf j
             in mrt_store m1 block_id j record_id buf
                  (old\<lparr> m_physical_block := new_physical_block, m_flags := m_flags old OR flags \<rparr>)))"

definition mrt_free_entry :: "mount \<Rightarrow> u64 \<Rightarrow> status \<times> mount" where
  "mrt_free_entry m record_id =
     (if record_id \<ge> sb_mrt_capacity (sb m) then (ERR_INVAL, m)
      else
        let block_id = sb_mrt_start (sb m) + record_id div 256;
            j = unat (record_id mod 256)
        in bindS (orE (read_block m block_id) ERR_IO) (\<lambda>buf m1.
             thenS (mrt_store m1 block_id j record_id buf
                      ((mrt_get buf j)\<lparr> m_physical_block := UINT64_MAX, m_flags := 0 \<rparr>)) (\<lambda>m2.
               (OK, m2\<lparr> sb := (sb m2)\<lparr> sb_mrt_free_count := sb_mrt_free_count (sb m2) + 1 \<rparr> \<rparr>))))"

definition mrt_resolve :: "mount \<Rightarrow> u64 \<Rightarrow> (status + u64 \<times> u16 \<times> u32) \<times> mount" where
  "mrt_resolve m record_id =
     (if record_id \<ge> sb_mrt_capacity (sb m) then (Inl ERR_INVAL, m)
      else bindE (orE (read_block m (sb_mrt_start (sb m) + record_id div 256)) ERR_IO) (\<lambda>buf m1.
        let e = mrt_get buf (unat (record_id mod 256))
        in if \<not> mrt_allocated e then (Inl ERR_NOTFOUND, m1)
           else if m_physical_block e = 0 \<or> m_physical_block e = UINT64_MAX then (Inl ERR_NOT_YET_BOUND, m1)
           else (Inr (m_physical_block e, m_flags e, m_generation e), m1)))"

section \<open>The table as a map\<close>

text \<open>\<open>mrt m i\<close> is the entry of record number \<open>i\<close> as the volume holds it.\<close>

definition mrt :: "mount \<Rightarrow> nat \<Rightarrow> mrt_entry" where
  "mrt m i = mrt_get (block_view m (sb_mrt_start (sb m) + of_nat (i div 256))) (i mod 256)"

definition mrt_count :: "mount \<Rightarrow> nat" where
  "mrt_count m = unat (sb_mrt_capacity (sb m))"

lemma mrt_get_put:
  assumes "length buf = 4096" "i < 256" "j < 256"
  shows "mrt_get (mrt_put i e buf) j = (if j = i then e else mrt_get buf j)"
proof (cases "j = i")
  case True
  then show ?thesis using assms by (simp add: mrt_get_def mrt_put_def)
next
  case False
  then have "16 * j + 16 \<le> 16 * i \<or> 16 * i + 16 \<le> 16 * j" by linarith
  then show ?thesis using assms False by (simp add: mrt_get_def mrt_put_def slice_patch_other)
qed

lemma length_mrt_put [simp]: "length buf = 4096 \<Longrightarrow> i < 256 \<Longrightarrow> length (mrt_put i e buf) = 4096"
  by (simp add: mrt_put_def)

lemma mrt_put_back:
  assumes "length buf = 4096" "i < 256"
  shows "mrt_put i (mrt_get buf i) (mrt_put i e buf) = buf"
proof -
  have "enc_mrt_entry (mrt_get buf i) = slice (16 * i) 16 buf"
    using assms by (simp add: mrt_get_def enc_dec_mrt_entry slice_slice)
  then show ?thesis
    using assms by (simp add: mrt_put_def patch_patch_same patch_slice_id)
qed

lemma mrt_block_of:
  assumes "geom (sb m)" "i < mrt_count m"
  shows "i div 256 < unat (sb_mrt_length (sb m))"
    and "blk_ok (sb_mrt_start (sb m) + of_nat (i div 256))"
    and "unat (sb_mrt_start (sb m) + of_nat (i div 256)) = unat (sb_mrt_start (sb m)) + i div 256"
    and "sb_mrt_start (sb m) \<le> sb_mrt_start (sb m) + of_nat (i div 256)"
    and "sb_mrt_start (sb m) + of_nat (i div 256) < sb_data_start (sb m)"
    and "i < 2 ^ 64"
proof -
  show lt: "i div 256 < unat (sb_mrt_length (sb m))"
    using assms by (simp add: mrt_count_def geom_def less_mult_imp_div_less)
  then have "i div 256 < 2 ^ 64" using unat_lt64 [of "sb_mrt_length (sb m)"] by linarith
  then have u: "unat (of_nat (i div 256) :: u64) = i div 256" by (intro unat_of_nat_small) simp
  note B = mrt_block [OF assms(1), of "of_nat (i div 256)", unfolded u, OF lt]
  show "blk_ok (sb_mrt_start (sb m) + of_nat (i div 256))"
    "unat (sb_mrt_start (sb m) + of_nat (i div 256)) = unat (sb_mrt_start (sb m)) + i div 256"
    by (rule B)+
  then show "sb_mrt_start (sb m) \<le> sb_mrt_start (sb m) + of_nat (i div 256)"
    "sb_mrt_start (sb m) + of_nat (i div 256) < sb_data_start (sb m)"
    using B(3) by (simp_all add: word_le_nat_alt word_less_nat_alt)
  show "i < 2 ^ 64" using assms(2) unat_lt64 [of "sb_mrt_capacity (sb m)"] by (simp add: mrt_count_def)
qed

text \<open>The C code's positions of a record number.\<close>

lemma mrt_pos:
  fixes rid :: u64
  assumes "unat rid = i"
  shows "rid div 256 = of_nat (i div 256)" "unat (rid mod 256) = i mod 256"
proof -
  have "i div 256 < 2 ^ 64" using unat_lt64 [of rid] assms by linarith
  then have "unat (of_nat (i div 256) :: u64) = i div 256" by (intro unat_of_nat_small) simp
  moreover have "unat (rid div 256) = i div 256" by (simp add: unat_div assms)
  ultimately show "rid div 256 = of_nat (i div 256)" by (metis word_unat_eq_iff)
  show "unat (rid mod 256) = i mod 256" by (simp add: unat_mod assms)
qed


section \<open>What the table's operations leave alone\<close>

definition mrt_frame :: "mount \<Rightarrow> mount \<Rightarrow> bool" where
  "mrt_frame m m' \<longleftrightarrow> layout_eq (sb m) (sb m') \<and>
     sb_free_blocks (sb m') = sb_free_blocks (sb m) \<and>
     sb_record_count (sb m') = sb_record_count (sb m) \<and>
     sb_next_record_id (sb m') = sb_next_record_id (sb m) \<and>
     heap_ok m' = heap_ok m \<and> journal_in_transaction m' = journal_in_transaction m \<and>
     fd_table m' = fd_table m \<and> mounted m' = mounted m \<and> regions m' = regions m \<and>
     (\<forall>c. blk_ok c \<and> (c = 0 \<or> (sb_bitmap_start (sb m) \<le> c \<and> c < sb_mrt_start (sb m)) \<or> sb_data_start (sb m) \<le> c)
        \<longrightarrow> block_view m' c = block_view m c)"

lemma mrt_frame_refl [simp]: "mrt_frame m m"
  by (simp add: mrt_frame_def)

lemma mrt_frame_trans: "mrt_frame m m1 \<Longrightarrow> mrt_frame m1 m2 \<Longrightarrow> mrt_frame m m2"
  by (simp add: mrt_frame_def layout_eq_def)

text \<open>\<open>mrt_now m f n m'\<close>: \<open>m'\<close> is a sound volume whose table is \<open>f\<close>, with \<open>n\<close> added to the free count.\<close>

definition mrt_now :: "mount \<Rightarrow> (nat \<Rightarrow> mrt_entry) \<Rightarrow> u64 \<Rightarrow> mount \<Rightarrow> bool" where
  "mrt_now m f n m' \<longleftrightarrow> sound m' \<and> mrt_frame m m' \<and> (\<forall>i < mrt_count m. mrt m' i = f i) \<and>
     sb_mrt_free_count (sb m') = sb_mrt_free_count (sb m) + n"

lemma mrt_now_refl: "sound m \<Longrightarrow> mrt_now m (mrt m) 0 m"
  by (simp add: mrt_now_def)

lemma mrt_nowD:
  assumes "mrt_now m f n m'"
  shows "sound m'" "mrt_frame m m'" "i < mrt_count m \<Longrightarrow> mrt m' i = f i" "mrt_count m' = mrt_count m"
    "sb_mrt_start (sb m') = sb_mrt_start (sb m)" "sb_mrt_length (sb m') = sb_mrt_length (sb m)"
    "sb_mrt_capacity (sb m') = sb_mrt_capacity (sb m)"
    "journal_in_transaction m' = journal_in_transaction m"
  using assms by (auto simp: mrt_now_def mrt_frame_def layout_eq_def mrt_count_def)

lemma mrt_now_trans:
  assumes "mrt_now m f n m1" "mrt_now m1 g k m2" "\<And>i. i < mrt_count m \<Longrightarrow> g i = h i"
  shows "mrt_now m h (n + k) m2"
  using assms(2,3) mrt_nowD(4) [OF assms(1)] assms(1) mrt_frame_trans [of m m1 m2]
  by (auto simp: mrt_now_def add.assoc)

lemma mrt_now_count:
  "mrt_now m f n m' \<Longrightarrow> mrt_now m f (n + k) (m'\<lparr> sb := (sb m')\<lparr> sb_mrt_free_count := sb_mrt_free_count (sb m') + k \<rparr> \<rparr>)"
  by (auto simp: mrt_now_def mrt_frame_def layout_eq_def sound_def vol_ok_def mrt_def add.assoc)

lemma mrt_blk_eq:
  assumes "geom (sb m)" "i < mrt_count m" "j < mrt_count m"
  shows "sb_mrt_start (sb m) + of_nat (i div 256) = sb_mrt_start (sb m) + of_nat (j div 256)
    \<longleftrightarrow> i div 256 = j div 256"
  using mrt_block_of(3) [OF assms(1,2)] mrt_block_of(3) [OF assms(1,3)] by (metis add_left_cancel)

text \<open>Reading a table block, writing one, and journaling.\<close>

lemma mrt_read_now:
  assumes "sound m" "blk_ok b"
  shows "mrt_now m (mrt m) 0 (snd (read_block m b))"
    and "fst (read_block m b) = Inr (block_view m b)"
    and "blk_ok c \<Longrightarrow> block_view (snd (read_block m b)) c = block_view m c"
proof -
  have v: "blk_ok c \<Longrightarrow> block_view (snd (read_block m b)) c = block_view m c" for c
    using cache.rd_view [OF soundD(4) [OF assms(1)] assms(2)] .
  show "fst (read_block m b) = Inr (block_view m b)" by (rule sound_read_block(1) [OF assms])
  show "blk_ok c \<Longrightarrow> block_view (snd (read_block m b)) c = block_view m c" by (rule v)
  have "mrt (snd (read_block m b)) i = mrt m i" if "i < mrt_count m" for i
    using v mrt_block_of(2) [OF vol_okD(3) [OF soundD(1) [OF assms(1)]] that] by (simp add: mrt_def)
  then show "mrt_now m (mrt m) 0 (snd (read_block m b))"
    using sound_read_block(2) [OF assms] v by (simp add: mrt_now_def mrt_frame_def)
qed

lemma mrt_write_now:
  assumes "sound m" "i < mrt_count m"
  defines "b \<equiv> sb_mrt_start (sb m) + of_nat (i div 256)"
  assumes "length buf = 4096" "\<forall>k < 256. k \<noteq> i mod 256 \<longrightarrow> mrt_get buf k = mrt_get (block_view m b) k"
  shows "fst (write_block m b buf) = OK"
    and "mrt_now m ((mrt m)(i := mrt_get buf (i mod 256))) 0 (snd (write_block m b buf))"
    and "blk_ok c \<Longrightarrow> block_view (snd (write_block m b buf)) c = (if c = b then buf else block_view m c)"
proof -
  have g: "geom (sb m)" by (rule vol_okD(3) [OF soundD(1) [OF assms(1)]])
  note B = mrt_block_of [OF g assms(2), folded b_def]
  show ok: "fst (write_block m b buf) = OK" using sound_write_block(1) [OF assms(1) B(2) assms(4)] .
  have v: "blk_ok c \<Longrightarrow> block_view (snd (write_block m b buf)) c = (if c = b then buf else block_view m c)" for c
    using cache.wr_view [OF soundD(4) [OF assms(1)] B(2) _ assms(4)] ok by simp
  then show "blk_ok c \<Longrightarrow> block_view (snd (write_block m b buf)) c = (if c = b then buf else block_view m c)" .
  have "0 < unat (sb_mrt_start (sb m))" using g by (auto simp: geom_def)
  then have b0: "b \<noteq> 0" using B(3) by (metis add_is_0 less_nat_zero_code unat_0)
  have "mrt_frame m (snd (write_block m b buf))"
    using v b0 B(4,5) by (auto simp: mrt_frame_def)
  moreover have "mrt (snd (write_block m b buf)) k = ((mrt m)(i := mrt_get buf (i mod 256))) k"
    if k: "k < mrt_count m" for k
  proof -
    have *: "mrt (snd (write_block m b buf)) k =
        mrt_get (if k div 256 = i div 256 then buf else block_view m (sb_mrt_start (sb m) + of_nat (k div 256))) (k mod 256)"
      using v [OF mrt_block_of(2) [OF g k]] mrt_blk_eq [OF g k assms(2)] by (simp add: mrt_def b_def)
    show ?thesis
    proof (cases "k div 256 = i div 256")
      case True
      then have "k mod 256 = i mod 256 \<longleftrightarrow> k = i" by (metis div_mult_mod_eq)
      then show ?thesis using True * assms(5) [rule_format, of "k mod 256"] by (auto simp: mrt_def b_def)
    next
      case False
      then show ?thesis using * by (auto simp: mrt_def)
    qed
  qed
  ultimately show "mrt_now m ((mrt m)(i := mrt_get buf (i mod 256))) 0 (snd (write_block m b buf))"
    using sound_write_block(2) [OF assms(1) B(2) assms(4)] by (simp add: mrt_now_def)
qed

lemma mrt_log_now:
  assumes "sound m" "journal_in_transaction m"
  shows "mrt_now m (mrt m) 0 (snd (journal_log_mrt_update m rid e))"
    and "fst (journal_log_mrt_update m rid e) = (if journal_is_full m then ERR_NOSPC else OK)"
    and "blk_ok c \<Longrightarrow> sb_bitmap_start (sb m) \<le> c \<Longrightarrow> block_view (snd (journal_log_mrt_update m rid e)) c = block_view m c"
proof -
  let ?w = "journal_log_mrt_update m rid e"
  have l: "loggable 16 (Some (enc_mrt_entry e))" by (simp add: loggable_def)
  note W = journal_write_entry_sound [OF assms(1) l, of SMKFS_JOP_MRT_UPDATE 0 rid, folded journal_log_mrt_update_def]
  have we: "journal_write_entry m SMKFS_JOP_MRT_UPDATE 0 16 rid (Some (enc_mrt_entry e)) = (fst ?w, snd ?w)"
    by (simp add: journal_log_mrt_update_def)
  note V = journal_write_entry_spec(2) [OF soundD(1) [OF assms(1)] l we]
  have g: "geom (sb m)" by (rule vol_okD(3) [OF soundD(1) [OF assms(1)]])
  let ?slot = "sb_journal_start (sb m) + sb_journal_head (sb m)"
  note J = journal_block [OF g head_lt [OF soundD(1) [OF assms(1)]]]
  have lt: "?slot < sb_bitmap_start (sb m)" using J(3) by (simp add: word_less_nat_alt)
  have le: "sb_bitmap_start (sb m) \<le> sb_mrt_start (sb m)" "sb_mrt_start (sb m) \<le> sb_data_start (sb m)"
    using g by (auto simp: geom_def word_le_nat_alt)
  then have out: "c = 0 \<or> sb_bitmap_start (sb m) \<le> c \<Longrightarrow> c \<noteq> ?slot" for c using J(4) lt by auto
  show v: "blk_ok c \<Longrightarrow> sb_bitmap_start (sb m) \<le> c \<Longrightarrow> block_view (snd ?w) c = block_view m c" for c
    using V out by auto
  have sbm: "\<exists>h. sb (snd ?w) = (sb m)\<lparr> sb_journal_head := h \<rparr>"
    unfolding journal_log_mrt_update_def journal_write_entry_sb
    by (cases "fst (journal_write_entry m SMKFS_JOP_MRT_UPDATE 0 16 rid (Some (enc_mrt_entry e))) = OK")
      (auto intro: exI [of _ "sb_journal_head (sb m)"])
  have "c = 0 \<Longrightarrow> block_view (snd ?w) c = block_view m c" for c using V out by auto
  moreover have "sb_data_start (sb m) \<le> c \<Longrightarrow> sb_bitmap_start (sb m) \<le> c" for c using le by auto
  ultimately have fr: "mrt_frame m (snd ?w)"
    using sbm v by (auto simp: mrt_frame_def layout_eq_def journal_log_mrt_update_def)
  have "mrt (snd ?w) i = mrt m i" if "i < mrt_count m" for i
    using v [OF mrt_block_of(2) [OF g that]] le mrt_block_of(4) [OF g that] sbm
    by (auto simp: mrt_def)
  then show "mrt_now m (mrt m) 0 (snd ?w)"
    using W(1) fr sbm by (auto simp: mrt_now_def)
  show "fst ?w = (if journal_is_full m then ERR_NOSPC else OK)"
    using W(2) assms(2) by auto
qed


section \<open>The shared end of the updates\<close>

definition mrt_refused :: "mount \<Rightarrow> bool" where
  "mrt_refused m \<longleftrightarrow> journal_in_transaction m \<and> journal_is_full m"

lemma mrt_refused_cong:
  "journal_in_transaction m' = journal_in_transaction m \<Longrightarrow> sb m' = sb m \<Longrightarrow> mrt_refused m' = mrt_refused m"
  by (simp add: mrt_refused_def journal_is_full_def journal_next_pos_def Let_def)

lemma mrt_store_sound:
  fixes rid :: u64 and e :: mrt_entry
  assumes "sound m" "i < mrt_count m"
  defines "b \<equiv> sb_mrt_start (sb m) + of_nat (i div 256)"
  defines "r \<equiv> mrt_store m b (i mod 256) rid (block_view m b) e"
  shows "fst r = (if mrt_refused m then ERR_JOURNAL else OK)"
    and "mrt_now m (if mrt_refused m then mrt m else (mrt m)(i := e)) 0 (snd r)"
proof -
  let ?j = "i mod 256"
  let ?buf = "mrt_put ?j e (block_view m b)"
  let ?m1 = "snd (write_block m b ?buf)"
  let ?m2 = "snd (journal_log_mrt_update ?m1 rid e)"
  have g: "geom (sb m)" by (rule vol_okD(3) [OF soundD(1) [OF assms(1)]])
  have l: "length (block_view m b) = 4096" using cache.view_length soundD(4) [OF assms(1)] by simp
  have j: "?j < 256" by simp
  have lb: "length ?buf = 4096" using l j by simp
  have oth: "\<forall>k < 256. k \<noteq> ?j \<longrightarrow> mrt_get ?buf k = mrt_get (block_view m b) k"
    using mrt_get_put [OF l j] by simp
  note W = mrt_write_now [OF assms(1,2), folded b_def, OF lb oth]
  have n1: "mrt_now m ((mrt m)(i := e)) 0 ?m1"
    using W(2) mrt_get_put [OF l j j, of e] by simp
  have sb1: "sb ?m1 = sb m" "journal_in_transaction ?m1 = journal_in_transaction m" by simp_all
  have full: "journal_is_full ?m1 = journal_is_full m"
    by (simp add: journal_is_full_def journal_next_pos_def Let_def)
  have unf: "r = (if journal_in_transaction m
       then (if fst (journal_log_mrt_update ?m1 rid e) \<noteq> OK
             then (ERR_JOURNAL, snd (write_block ?m2 b (block_view m b)))
             else (OK, ?m2))
       else (OK, ?m1))"
    using W(1) mrt_put_back [OF l j, of e]
    by (simp add: r_def mrt_store_def thenS_def orS_def split: prod.split)
  show "fst r = (if mrt_refused m then ERR_JOURNAL else OK)"
    using mrt_log_now(2) [OF mrt_nowD(1) [OF n1], where rid = rid and e = e] sb1 full
    by (simp add: unf mrt_refused_def)
  show "mrt_now m (if mrt_refused m then mrt m else (mrt m)(i := e)) 0 (snd r)"
  proof (cases "journal_in_transaction m")
    case False
    then show ?thesis using n1 by (simp add: unf mrt_refused_def)
  next
    case True
    note L = mrt_log_now [OF mrt_nowD(1) [OF n1], where rid = rid and e = e, unfolded sb1 full, OF True]
    have n2: "mrt_now m ((mrt m)(i := e)) (0 + 0) ?m2"
      by (rule mrt_now_trans [OF n1 L(1)]) (simp add: mrt_nowD(3) [OF n1])
    show ?thesis
    proof (cases "journal_is_full m")
      case False
      then show ?thesis using True n2 L(2) by (simp add: unf mrt_refused_def)
    next
      case full: True
      have b: "blk_ok b" "sb_bitmap_start (sb m) \<le> b"
        using mrt_block_of(2,4) [OF g assms(2), folded b_def] g by (auto simp: geom_def word_le_nat_alt)
      have "block_view ?m2 b = ?buf" using L(3) [OF b] W(3) [OF b(1)] by simp
      then have "\<forall>k < 256. k \<noteq> ?j \<longrightarrow> mrt_get (block_view m b) k = mrt_get (block_view ?m2 b) k"
        using oth by simp
      note W2 = mrt_write_now(2) [OF mrt_nowD(1) [OF n2], of i, unfolded mrt_nowD(4,5) [OF n2], OF assms(2),
          folded b_def, OF l this]
      have eq: "mrt_get (block_view m b) ?j = mrt m i" by (simp add: mrt_def b_def)
      have "mrt_now m (mrt m) (0 + 0 + 0) (snd (write_block ?m2 b (block_view m b)))"
        by (rule mrt_now_trans [OF n2 W2]) (simp add: eq mrt_nowD(3) [OF n2])
      then show ?thesis using True full L(2) by (simp add: unf mrt_refused_def)
    qed
  qed
qed

lemma mrt_lookup:
  fixes rid :: u64
  assumes "sound m" "unat rid < mrt_count m"
  defines "b \<equiv> sb_mrt_start (sb m) + rid div 256"
  obtains m1 where "read_block m b = (Inr (block_view m1 b), m1)" "mrt_now m (mrt m) 0 m1"
    "mrt_get (block_view m1 b) (unat (rid mod 256)) = mrt m (unat rid)" "mrt_refused m1 = mrt_refused m"
    "b = sb_mrt_start (sb m1) + of_nat (unat rid div 256)" "unat (rid mod 256) = unat rid mod 256"
    "unat rid < mrt_count m1" "sb m1 = sb m"
proof -
  note P = mrt_pos [of rid, OF refl]
  have B: "blk_ok b"
    using mrt_block_of(2) [OF vol_okD(3) [OF soundD(1) [OF assms(1)]] assms(2)] P(1) by (simp add: b_def)
  let ?m1 = "snd (read_block m b)"
  note R = mrt_read_now [OF assms(1) B]
  have "read_block m b = (Inr (block_view ?m1 b), ?m1)" using R(2) R(3) [OF B] by (metis prod.collapse)
  moreover have be: "b = sb_mrt_start (sb m) + of_nat (unat rid div 256)" unfolding b_def P(1) by (rule refl)
  have "mrt_get (block_view ?m1 b) (unat (rid mod 256)) = mrt m (unat rid)"
    unfolding R(3) [OF B] mrt_def P(2) be [symmetric] by (rule refl)
  moreover have "mrt_refused ?m1 = mrt_refused m" by (rule mrt_refused_cong) simp_all
  moreover have "b = sb_mrt_start (sb ?m1) + of_nat (unat rid div 256)" using be by simp
  moreover have "unat rid < mrt_count ?m1" using assms(2) mrt_nowD(4) [OF R(1)] by simp
  ultimately show thesis
    using that [OF _ R(1) _ _ _ P(2)] by simp
qed

section \<open>The operations on the table\<close>

lemma mrt_resolve_sound:
  assumes "sound m"
  shows "fst (mrt_resolve m rid) =
      (if unat rid \<ge> mrt_count m then Inl ERR_INVAL
       else let e = mrt m (unat rid) in
         if \<not> mrt_allocated e then Inl ERR_NOTFOUND
         else if m_physical_block e = 0 \<or> m_physical_block e = UINT64_MAX then Inl ERR_NOT_YET_BOUND
         else Inr (m_physical_block e, m_flags e, m_generation e))"
    and "mrt_now m (mrt m) 0 (snd (mrt_resolve m rid))"
proof -
  have *: "fst (mrt_resolve m rid) = (let e = mrt m (unat rid) in
         if \<not> mrt_allocated e then Inl ERR_NOTFOUND
         else if m_physical_block e = 0 \<or> m_physical_block e = UINT64_MAX then Inl ERR_NOT_YET_BOUND
         else Inr (m_physical_block e, m_flags e, m_generation e)) \<and> mrt_now m (mrt m) 0 (snd (mrt_resolve m rid))"
    if lt: "unat rid < mrt_count m"
  proof -
    obtain m1 where m1: "read_block m (sb_mrt_start (sb m) + rid div 256) =
        (Inr (block_view m1 (sb_mrt_start (sb m) + rid div 256)), m1)" "mrt_now m (mrt m) 0 m1"
      "mrt_get (block_view m1 (sb_mrt_start (sb m) + rid div 256)) (unat (rid mod 256)) = mrt m (unat rid)"
      using mrt_lookup [OF assms lt] by blast
    have "\<not> sb_mrt_capacity (sb m) \<le> rid" using lt by (simp add: mrt_count_def word_le_nat_alt)
    then show ?thesis using m1 by (simp add: mrt_resolve_def Let_def)
  qed
  show "fst (mrt_resolve m rid) =
      (if unat rid \<ge> mrt_count m then Inl ERR_INVAL
       else let e = mrt m (unat rid) in
         if \<not> mrt_allocated e then Inl ERR_NOTFOUND
         else if m_physical_block e = 0 \<or> m_physical_block e = UINT64_MAX then Inl ERR_NOT_YET_BOUND
         else Inr (m_physical_block e, m_flags e, m_generation e))"
    using * by (auto simp: mrt_resolve_def mrt_count_def word_le_nat_alt)
  show "mrt_now m (mrt m) 0 (snd (mrt_resolve m rid))"
    using * mrt_now_refl [OF assms] by (cases "unat rid < mrt_count m") (auto simp: mrt_resolve_def mrt_count_def word_le_nat_alt)
qed

lemma mrt_update_sound:
  assumes "sound m"
  shows "fst (mrt_update_entry m rid pb fl) =
      (if unat rid \<ge> mrt_count m then ERR_INVAL else if mrt_refused m then ERR_JOURNAL else OK)"
    and "mrt_now m (if fst (mrt_update_entry m rid pb fl) = OK
       then (mrt m)(unat rid := (mrt m (unat rid))\<lparr> m_physical_block := pb, m_flags := m_flags (mrt m (unat rid)) OR fl \<rparr>)
       else mrt m) 0 (snd (mrt_update_entry m rid pb fl))"
proof -
  let ?e = "(mrt m (unat rid))\<lparr> m_physical_block := pb, m_flags := m_flags (mrt m (unat rid)) OR fl \<rparr>"
  have *: "fst (mrt_update_entry m rid pb fl) = (if mrt_refused m then ERR_JOURNAL else OK) \<and>
      mrt_now m (if mrt_refused m then mrt m else (mrt m)(unat rid := ?e)) (0 + 0) (snd (mrt_update_entry m rid pb fl))"
    if lt: "unat rid < mrt_count m"
  proof -
    let ?b = "sb_mrt_start (sb m) + rid div 256"
    obtain m1 where rd: "read_block m ?b = (Inr (block_view m1 ?b), m1)" and m1: "mrt_now m (mrt m) 0 m1"
      and g: "mrt_get (block_view m1 ?b) (unat (rid mod 256)) = mrt m (unat rid)"
      and rf: "mrt_refused m1 = mrt_refused m" and b: "?b = sb_mrt_start (sb m1) + of_nat (unat rid div 256)"
      and j: "unat (rid mod 256) = unat rid mod 256" and lt1: "unat rid < mrt_count m1"
      using mrt_lookup [OF assms lt] by metis
    let ?s = "mrt_store m1 ?b (unat (rid mod 256)) rid (block_view m1 ?b) ?e"
    note S = mrt_store_sound [OF mrt_nowD(1) [OF m1] lt1, where rid = rid and e = ?e, folded b j, unfolded rf]
    have "\<not> sb_mrt_capacity (sb m) \<le> rid" using lt by (simp add: mrt_count_def word_le_nat_alt)
    then have u: "mrt_update_entry m rid pb fl = ?s" using rd g by (simp add: mrt_update_entry_def Let_def)
    have "mrt_now m (if mrt_refused m then mrt m else (mrt m)(unat rid := ?e)) (0 + 0) (snd ?s)"
      by (rule mrt_now_trans [OF m1 S(2)]) (simp add: mrt_nowD(3) [OF m1])
    then show ?thesis using S(1) u by simp
  qed
  show 1: "fst (mrt_update_entry m rid pb fl) =
      (if unat rid \<ge> mrt_count m then ERR_INVAL else if mrt_refused m then ERR_JOURNAL else OK)"
    using * by (auto simp: mrt_update_entry_def mrt_count_def word_le_nat_alt)
  show "mrt_now m (if fst (mrt_update_entry m rid pb fl) = OK then (mrt m)(unat rid := ?e) else mrt m) 0
      (snd (mrt_update_entry m rid pb fl))"
    using * 1 mrt_now_refl [OF assms]
    by (cases "unat rid < mrt_count m") (auto simp: mrt_update_entry_def mrt_count_def word_le_nat_alt)
qed

lemma mrt_free_sound:
  assumes "sound m"
  shows "fst (mrt_free_entry m rid) =
      (if unat rid \<ge> mrt_count m then ERR_INVAL else if mrt_refused m then ERR_JOURNAL else OK)"
    and "mrt_now m (if fst (mrt_free_entry m rid) = OK
       then (mrt m)(unat rid := (mrt m (unat rid))\<lparr> m_physical_block := UINT64_MAX, m_flags := 0 \<rparr>)
       else mrt m) (if fst (mrt_free_entry m rid) = OK then 1 else 0) (snd (mrt_free_entry m rid))"
proof -
  let ?e = "(mrt m (unat rid))\<lparr> m_physical_block := UINT64_MAX, m_flags := 0 \<rparr>"
  have *: "fst (mrt_free_entry m rid) = (if mrt_refused m then ERR_JOURNAL else OK) \<and>
      mrt_now m (if mrt_refused m then mrt m else (mrt m)(unat rid := ?e)) (if mrt_refused m then 0 else 1)
        (snd (mrt_free_entry m rid))"
    if lt: "unat rid < mrt_count m"
  proof -
    let ?b = "sb_mrt_start (sb m) + rid div 256"
    obtain m1 where rd: "read_block m ?b = (Inr (block_view m1 ?b), m1)" and m1: "mrt_now m (mrt m) 0 m1"
      and g: "mrt_get (block_view m1 ?b) (unat (rid mod 256)) = mrt m (unat rid)"
      and rf: "mrt_refused m1 = mrt_refused m" and b: "?b = sb_mrt_start (sb m1) + of_nat (unat rid div 256)"
      and j: "unat (rid mod 256) = unat rid mod 256" and lt1: "unat rid < mrt_count m1"
      using mrt_lookup [OF assms lt] by metis
    let ?s = "mrt_store m1 ?b (unat (rid mod 256)) rid (block_view m1 ?b) ?e"
    note S = mrt_store_sound [OF mrt_nowD(1) [OF m1] lt1, where rid = rid and e = ?e, folded b j, unfolded rf]
    have "\<not> sb_mrt_capacity (sb m) \<le> rid" using lt by (simp add: mrt_count_def word_le_nat_alt)
    then have u: "mrt_free_entry m rid = thenS ?s (\<lambda>m2.
        (OK, m2\<lparr> sb := (sb m2)\<lparr> sb_mrt_free_count := sb_mrt_free_count (sb m2) + 1 \<rparr> \<rparr>))"
      using rd g by (simp add: mrt_free_entry_def Let_def)
    have n: "mrt_now m (if mrt_refused m then mrt m else (mrt m)(unat rid := ?e)) (0 + 0) (snd ?s)"
      by (rule mrt_now_trans [OF m1 S(2)]) (simp add: mrt_nowD(3) [OF m1])
    show ?thesis using S(1) u n mrt_now_count [OF n, of 1] by (auto simp: thenS_def)
  qed
  show 1: "fst (mrt_free_entry m rid) =
      (if unat rid \<ge> mrt_count m then ERR_INVAL else if mrt_refused m then ERR_JOURNAL else OK)"
    using * by (auto simp: mrt_free_entry_def mrt_count_def word_le_nat_alt)
  show "mrt_now m (if fst (mrt_free_entry m rid) = OK then (mrt m)(unat rid := ?e) else mrt m)
      (if fst (mrt_free_entry m rid) = OK then 1 else 0) (snd (mrt_free_entry m rid))"
    using * 1 mrt_now_refl [OF assms]
    by (cases "unat rid < mrt_count m") (auto simp: mrt_free_entry_def mrt_count_def word_le_nat_alt)
qed


text \<open>
  The allocator hands out the lowest free record number above 0. The scan is described by the
  numbers it has passed: \<open>busy_below m k\<close> says that every number from 1 below \<open>k\<close> is in use.
\<close>

definition busy_below :: "mount \<Rightarrow> nat \<Rightarrow> bool" where
  "busy_below m k \<longleftrightarrow> (\<forall>i. 0 < i \<and> i < k \<and> i < mrt_count m \<longrightarrow> mrt_allocated (mrt m i))"

definition claimed :: "mrt_entry \<Rightarrow> mrt_entry" where
  "claimed e = e\<lparr> m_flags := m_flags e OR SMKFS_MRTF_ALLOCATED, m_physical_block := UINT64_MAX,
                 m_generation := m_generation e + 1 \<rparr>"

definition alloc_entry_result :: "mount \<Rightarrow> (status + u64 \<times> u32) \<times> mount \<Rightarrow> bool" where
  "alloc_entry_result m r \<longleftrightarrow>
     (case fst r of
        Inr (rid, gen) \<Rightarrow> 0 < rid \<and> unat rid < mrt_count m \<and> \<not> mrt_allocated (mrt m (unat rid)) \<and>
          busy_below m (unat rid) \<and> gen = m_generation (mrt m (unat rid)) + 1 \<and> \<not> mrt_refused m \<and>
          mrt_now m ((mrt m)(unat rid := claimed (mrt m (unat rid)))) (- 1) (snd r)
      | Inl e \<Rightarrow> mrt_now m (mrt m) 0 (snd r) \<and>
          (if mrt_refused m \<and> \<not> busy_below m (mrt_count m) then e = ERR_JOURNAL
           else e = ERR_NOSPC \<and> busy_below m (mrt_count m)))"

lemma mrt_candidate_Some:
  assumes "geom (sb m)" "i < unat (sb_mrt_length (sb m))"
    "mrt_candidate i (block_view m (sb_mrt_start (sb m) + of_nat i)) = Some j"
    "busy_below m (i * 256)"
  shows "j < 256" "0 < i * 256 + j" "i * 256 + j < mrt_count m" "\<not> mrt_allocated (mrt m (i * 256 + j))"
    "busy_below m (i * 256 + j)" "unat (of_nat (i * 256 + j) :: u64) = i * 256 + j"
proof -
  have C: "j < 256" "(of_nat (i * 256 + j) :: u64) \<noteq> 0"
      "\<not> mrt_allocated (mrt_get (block_view m (sb_mrt_start (sb m) + of_nat i)) j)"
    using find_idx_Some [OF assms(3) [unfolded mrt_candidate_def]] by auto
  show j: "j < 256" by (rule C(1))
  have cnt: "mrt_count m = unat (sb_mrt_length (sb m)) * 256" using assms(1) by (simp add: geom_def mrt_count_def)
  have "i * 256 + 256 \<le> unat (sb_mrt_length (sb m)) * 256" using assms(2) by simp
  then show lt: "i * 256 + j < mrt_count m" using j cnt by linarith
  show "0 < i * 256 + j"
  proof (rule ccontr)
    assume "\<not> 0 < i * 256 + j"
    then have z: "i * 256 + j = 0" by simp
    have "(of_nat (i * 256 + j) :: u64) = 0" unfolding z by simp
    then show False using C(2) by contradiction
  qed
  show "\<not> mrt_allocated (mrt m (i * 256 + j))" using C(3) j by (simp add: mrt_def)
  have "mrt_allocated (mrt m k)" if k: "0 < k" "k < i * 256 + j" "k < mrt_count m" for k
  proof (cases "k < i * 256")
    case True
    then show ?thesis using assms(4) k by (simp add: busy_below_def)
  next
    case False
    define l where "l = k - i * 256"
    then have l: "k = i * 256 + l" "l < j" using k(2) False by linarith+
    then have l256: "l < 256" using j by simp
    have "k < 2 ^ 64" using k(3) mrt_block_of(6) [OF assms(1)] by simp
    then have "unat (of_nat k :: u64) = k" by (simp add: unat_of_nat_small)
    then have "(of_nat k :: u64) \<noteq> 0" using k(1) by (metis less_numeral_extra(3) unat_0)
    then show ?thesis
      using find_idx_Some_least [OF assms(3) [unfolded mrt_candidate_def] l(2)] l l256 by (simp add: mrt_def)
  qed
  then show "busy_below m (i * 256 + j)" by (simp add: busy_below_def)
  show "unat (of_nat (i * 256 + j) :: u64) = i * 256 + j"
    using lt mrt_block_of(6) [OF assms(1) lt] by (intro unat_of_nat_small) simp
qed

lemma mrt_candidate_None:
  assumes "mrt_candidate i (block_view m (sb_mrt_start (sb m) + of_nat i)) = None" "busy_below m (i * 256)"
    "geom (sb m)"
  shows "busy_below m (Suc i * 256)"
proof -
  have "mrt_allocated (mrt m k)" if k: "0 < k" "k < Suc i * 256" "k < mrt_count m" for k
  proof (cases "k < i * 256")
    case True
    then show ?thesis using assms(2) k by (simp add: busy_below_def)
  next
    case False
    define l where "l = k - i * 256"
    then have l: "k = i * 256 + l" "l < 256" using k(2) False by simp_all
    have "k < 2 ^ 64" using k(3) mrt_block_of(6) [OF assms(3)] by simp
    then have "unat (of_nat k :: u64) = k" by (simp add: unat_of_nat_small)
    then have "(of_nat k :: u64) \<noteq> 0" using k(1) by (metis less_numeral_extra(3) unat_0)
    then show ?thesis
      using assms(1) [unfolded mrt_candidate_def find_idx_None, THEN bspec, of l] l by (simp add: mrt_def)
  qed
  then show ?thesis by (simp add: busy_below_def)
qed


lemma claimed_allocated [simp]: "mrt_allocated (claimed e)"
  by (simp add: mrt_allocated_def claimed_def word_ao_dist)

lemma busy_below_now:
  "mrt_now m (mrt m) n m' \<Longrightarrow> busy_below m' k = busy_below m k"
  using mrt_nowD(4) [of m "mrt m" n m'] mrt_nowD(3) [of m "mrt m" n m'] by (simp add: busy_below_def)

lemma mrt_alloc_loop_sound:
  assumes "sound m" "is = [k..<unat (sb_mrt_length (sb m))]" "busy_below m (k * 256)"
    "k \<le> unat (sb_mrt_length (sb m))"
  shows "alloc_entry_result m (mrt_alloc_loop is m)"
  using assms
proof (induction "is" arbitrary: m k)
  case Nil
  have "geom (sb m)" by (rule vol_okD(3) [OF soundD(1) [OF Nil(1)]])
  moreover have "k = unat (sb_mrt_length (sb m))" using Nil(2) [symmetric] Nil(4) by auto
  ultimately have "busy_below m (mrt_count m)"
    using Nil(3) by (simp add: geom_def mrt_count_def)
  then show ?case using mrt_now_refl [OF Nil(1)] by (simp add: alloc_entry_result_def)
next
  case (Cons i "is")
  let ?b = "sb_mrt_start (sb m) + of_nat i"
  have g: "geom (sb m)" by (rule vol_okD(3) [OF soundD(1) [OF Cons.prems(1)]])
  have ik: "i = k" "k < unat (sb_mrt_length (sb m))" "is = [Suc k..<unat (sb_mrt_length (sb m))]"
    using Cons.prems(2) [symmetric] unfolding upt_eq_Cons_conv by auto
  have i64: "i < 2 ^ 64" using ik unat_lt64 [of "sb_mrt_length (sb m)"] by linarith
  then have bk: "blk_ok ?b"
    using mrt_block(2) [OF g, of "of_nat i"] ik by (simp add: unat_of_nat_small)
  obtain m1 where rd: "read_block m ?b = (Inr (block_view m ?b), m1)"
    using mrt_read_now(2) [OF Cons.prems(1) bk] by (metis prod.collapse)
  note R = mrt_read_now [OF Cons.prems(1) bk, unfolded rd prod.sel]
  have rf: "mrt_refused m1 = mrt_refused m"
    using read_block_pair [OF rd] by (intro mrt_refused_cong) simp_all
  have bb: "busy_below m (i * 256)" using Cons.prems(3) ik by simp
  show ?case
  proof (cases "mrt_candidate i (block_view m ?b)")
    case None
    have b2: "busy_below m (Suc i * 256)" by (rule mrt_candidate_None [OF None bb g])
    have "alloc_entry_result m1 (mrt_alloc_loop is m1)"
      by (rule Cons.IH [OF mrt_nowD(1) [OF R(1)], of "Suc k"])
        (use ik b2 busy_below_now [OF R(1)] mrt_nowD(6) [OF R(1)] in simp_all)
    then have "alloc_entry_result m (mrt_alloc_loop is m1)"
      using mrt_nowD(3,4) [OF R(1)] busy_below_now [OF R(1)] rf
        mrt_now_trans [OF R(1), of "mrt m1" 0 _ "mrt m"]
        mrt_now_trans [OF R(1), of _ "- 1"]
      by (auto simp: alloc_entry_result_def split: sum.splits)
    then show ?thesis using None rd by (simp add: Let_def)
  next
    case (Some j)
    note C = mrt_candidate_Some [OF g _ Some bb]
    have il: "i < unat (sb_mrt_length (sb m))" using ik by simp
    note C = C [OF il]
    let ?i = "i * 256 + j"
    have dv: "?i div 256 = i" "?i mod 256 = j" using C(1) by simp_all
    have bv: "block_view m1 ?b = block_view m ?b" using R(3) [OF bk] .
    have old: "mrt_get (block_view m ?b) j = mrt m ?i" unfolding mrt_def dv by (rule refl)
    let ?s = "mrt_store m1 ?b j (of_nat ?i) (block_view m ?b) (claimed (mrt m ?i))"
    have lt1: "?i < mrt_count m1" using C(3) mrt_nowD(4) [OF R(1)] by simp
    note S = mrt_store_sound [OF mrt_nowD(1) [OF R(1)] lt1, where rid = "of_nat ?i" and e = "claimed (mrt m ?i)",
        unfolded dv rf mrt_nowD(5) [OF R(1)] bv]
    have nb: "\<not> busy_below m (mrt_count m)" using C(2-4) unfolding busy_below_def by blast
    have n: "mrt_now m (if mrt_refused m then mrt m else (mrt m)(?i := claimed (mrt m ?i))) (0 + 0) (snd ?s)"
      by (rule mrt_now_trans [OF R(1) S(2)]) (simp add: mrt_nowD(3) [OF R(1)])
    have u: "mrt_alloc_loop (i # is) m = thenE ?s (\<lambda>m2.
        (Inr (of_nat ?i, m_generation (mrt m ?i) + 1),
         m2\<lparr> sb := (sb m2)\<lparr> sb_mrt_free_count := sb_mrt_free_count (sb m2) - 1 \<rparr> \<rparr>))"
      using rd Some by (simp add: Let_def old claimed_def)
    show ?thesis
    proof (cases "mrt_refused m")
      case True
      then show ?thesis using S(1) n nb u by (simp add: thenE_def alloc_entry_result_def)
    next
      case False
      have "0 < (of_nat ?i :: u64)" using C(2,6) by (simp add: word_less_nat_alt del: of_nat_add of_nat_mult)
      then show ?thesis
        using False S(1) n C u mrt_now_count [OF n, of "- 1"]
        by (simp add: thenE_def alloc_entry_result_def del: of_nat_add of_nat_mult)
    qed
  qed
qed


lemma mrt_alloc_sound:
  assumes "sound m"
  shows "alloc_entry_result m (mrt_alloc_entry m)"
  unfolding mrt_alloc_entry_def
  by (rule mrt_alloc_loop_sound [OF assms refl]) (simp_all add: busy_below_def)

section \<open>Properties\<close>

text \<open>The table of the demonstration volume: 256 entries, all of them zero bytes.\<close>

lemma demo_mrt:
  "mrt_count demo_mount = 256" "\<not> mrt_refused demo_mount"
  "i < 256 \<Longrightarrow> \<not> mrt_allocated (mrt demo_mount i)" "i < 256 \<Longrightarrow> m_generation (mrt demo_mount i) = 0"
proof -
  show "mrt_count demo_mount = 256" by (simp add: mrt_count_def demo_mount_def demo_sb_def)
  show "\<not> mrt_refused demo_mount" using demo_journal by (simp add: mrt_refused_def)
  have bl: "block_view demo_mount b = replicate 4096 0" for b by (rule demo_bitmap(6))
  show "i < 256 \<Longrightarrow> \<not> mrt_allocated (mrt demo_mount i)" "i < 256 \<Longrightarrow> m_generation (mrt demo_mount i) = 0"
    by (simp_all add: mrt_def bl mrt_get_def dec_mrt_entry_def slice_def mrt_allocated_def)
qed

text \<open>
  C11. A record number is handed out to one record at a time. On a sound volume
  \<open>mrt_alloc_entry\<close> returns the lowest number above 0 whose entry is free, marks it
  allocated and unbound, advances its generation and lowers the free count; every other entry
  keeps its value. It fails with \<open>ERR_NOSPC\<close> exactly if no number is free, and with
  \<open>ERR_JOURNAL\<close> if an open transaction has no room for the change, and then the table
  is as it was, the write undone.
\<close>
theorem mrt_alloc_entry_lowest_free:
  assumes "sound m" "mrt_alloc_entry m = (r, m')"
  shows "sound m' \<and> mrt_frame m m' \<and>
    (case r of
       Inr (rid, gen) \<Rightarrow>
         0 < rid \<and> unat rid < mrt_count m \<and> \<not> mrt_allocated (mrt m (unat rid)) \<and>
         (\<forall>i. 0 < i \<and> i < unat rid \<longrightarrow> mrt_allocated (mrt m i)) \<and>
         mrt_allocated (mrt m' (unat rid)) \<and> m_physical_block (mrt m' (unat rid)) = UINT64_MAX \<and>
         m_generation (mrt m' (unat rid)) = m_generation (mrt m (unat rid)) + 1 \<and>
         gen = m_generation (mrt m' (unat rid)) \<and>
         (\<forall>i < mrt_count m. i \<noteq> unat rid \<longrightarrow> mrt m' i = mrt m i) \<and>
         sb_mrt_free_count (sb m') = sb_mrt_free_count (sb m) - 1
     | Inl e \<Rightarrow>
         (\<forall>i < mrt_count m. mrt m' i = mrt m i) \<and>
         sb_mrt_free_count (sb m') = sb_mrt_free_count (sb m) \<and>
         (e = ERR_NOSPC \<longleftrightarrow> (\<forall>i. 0 < i \<and> i < mrt_count m \<longrightarrow> mrt_allocated (mrt m i))) \<and>
         (e \<noteq> ERR_NOSPC \<longrightarrow> e = ERR_JOURNAL \<and> journal_in_transaction m \<and> journal_is_full m))"
proof (cases r)
  case (Inl e)
  then show ?thesis
    using mrt_alloc_sound [OF assms(1)] assms(2)
    by (auto simp: alloc_entry_result_def mrt_now_def busy_below_def mrt_refused_def split: if_splits)
next
  case (Inr p)
  obtain rid gen where p: "p = (rid, gen)" by (cases p)
  have A: "0 < rid" "unat rid < mrt_count m" "\<not> mrt_allocated (mrt m (unat rid))" "busy_below m (unat rid)"
    "gen = m_generation (mrt m (unat rid)) + 1"
    "mrt_now m ((mrt m)(unat rid := claimed (mrt m (unat rid)))) (- 1) m'"
    using mrt_alloc_sound [OF assms(1)] assms(2) Inr p by (simp_all add: alloc_entry_result_def)
  have "mrt m' (unat rid) = claimed (mrt m (unat rid))" using mrt_nowD(3) [OF A(6) A(2)] by simp
  moreover have "\<forall>i < mrt_count m. i \<noteq> unat rid \<longrightarrow> mrt m' i = mrt m i" using mrt_nowD(3) [OF A(6)] by simp
  moreover have "m_physical_block (claimed x) = UINT64_MAX" "m_generation (claimed x) = m_generation x + 1" for x
    by (simp_all add: claimed_def)
  ultimately show ?thesis
    using A Inr p mrt_nowD(1,2) [OF A(6)] by (auto simp: busy_below_def mrt_now_def)
qed

theorem mrt_alloc_entry_lowest_free_witness:
  "\<exists>m'. mrt_alloc_entry demo_mount = (Inr (1, 1), m') \<and> mrt_allocated (mrt m' 1)"
proof -
  obtain r m' where w: "mrt_alloc_entry demo_mount = (r, m')" by (cases "mrt_alloc_entry demo_mount")
  note T = mrt_alloc_entry_lowest_free [OF demo_sound w]
  show ?thesis
  proof (cases r)
    case (Inl e)
    have "\<not> (\<forall>i. 0 < i \<and> i < 256 \<longrightarrow> mrt_allocated (mrt demo_mount i))"
      using demo_mrt(3) [of 1] by (auto intro: exI [of _ 1])
    then show ?thesis using T Inl demo_mrt(1,2) by (simp add: mrt_refused_def)
  next
    case (Inr p)
    obtain rid gen where p: "p = (rid, gen)" by (cases p)
    have lt: "0 < unat rid" using T Inr p by (simp add: word_less_nat_alt)
    have "\<not> 1 < unat rid" using T Inr p demo_mrt(3) [of 1] by auto
    then have u: "unat rid = 1" using lt by linarith
    then have "rid = 1" by (metis unat_1 word_unat_eq_iff)
    then show ?thesis using T Inr p u w demo_mrt(4) [of 1] by simp
  qed
qed

text \<open>
  C12. What is recorded is what is found. After a successful \<open>mrt_update_entry\<close> with a
  block that is neither 0 nor the unbound mark, \<open>mrt_resolve\<close> of an allocated number
  returns that block, the flags with the new ones added and the generation of the entry;
  every other number resolves as before.
\<close>
theorem mrt_update_then_resolve:
  assumes "sound m" "mrt_update_entry m rid pb fl = (OK, m')" "pb \<noteq> 0" "pb \<noteq> UINT64_MAX"
    and "mrt_allocated (mrt m (unat rid))"
  shows "fst (mrt_resolve m' rid) =
      Inr (pb, m_flags (mrt m (unat rid)) OR fl, m_generation (mrt m (unat rid))) \<and>
    (\<forall>other. other \<noteq> rid \<longrightarrow> fst (mrt_resolve m' other) = fst (mrt_resolve m other)) \<and>
    sound m' \<and> mrt_frame m m'"
proof -
  let ?e = "(mrt m (unat rid))\<lparr> m_physical_block := pb, m_flags := m_flags (mrt m (unat rid)) OR fl \<rparr>"
  have n: "mrt_now m ((mrt m)(unat rid := ?e)) 0 m'"
    using mrt_update_sound(2) [OF assms(1), of rid pb fl] assms(2) by simp
  have lt: "unat rid < mrt_count m"
    using mrt_update_sound(1) [OF assms(1), of rid pb fl] assms(2) by (simp split: if_splits)
  have al: "mrt_allocated ?e"
    using assms(5) by (auto simp: mrt_allocated_def word_ao_dist or_eq_0_iff)
  have "mrt m' (unat rid) = ?e" using mrt_nowD(3) [OF n lt] by simp
  then have 1: "fst (mrt_resolve m' rid) = Inr (pb, m_flags (mrt m (unat rid)) OR fl, m_generation (mrt m (unat rid)))"
    using mrt_resolve_sound(1) [OF mrt_nowD(1) [OF n], of rid] lt al assms(3,4) mrt_nowD(4) [OF n] by simp
  have "fst (mrt_resolve m' other) = fst (mrt_resolve m other)" if "other \<noteq> rid" for other
  proof -
    have "unat other \<noteq> unat rid" using that by (simp add: word_unat_eq_iff)
    then have "unat other < mrt_count m \<Longrightarrow> mrt m' (unat other) = mrt m (unat other)"
      using mrt_nowD(3) [OF n] by simp
    then show ?thesis
      using mrt_resolve_sound(1) [OF mrt_nowD(1) [OF n], of other] mrt_resolve_sound(1) [OF assms(1), of other]
        mrt_nowD(4) [OF n] by (simp add: Let_def)
  qed
  then show ?thesis using 1 mrt_nowD(1,2) [OF n] by blast
qed

theorem mrt_update_then_resolve_witness:
  "\<exists>m1 m2. mrt_update_entry (demo_mount\<lparr> journal_in_transaction := False \<rparr>) 1 20 1 = (OK, m1) \<and>
     mrt_update_entry m1 1 30 0 = (OK, m2) \<and> fst (mrt_resolve m2 1) = Inr (30, 1, 0)"
proof -
  let ?m = "demo_mount\<lparr> journal_in_transaction := False \<rparr>"
  have s: "sound ?m" using demo_sound by simp
  have d: "mrt_count ?m = 256" "\<not> mrt_refused ?m" using demo_mrt(1) by (simp_all add: mrt_count_def mrt_refused_def)
  have e: "mrt ?m 1 = \<lparr> m_physical_block = 0, m_flags = 0, m_reserved = 0, m_generation = 0 \<rparr>"
    by (simp add: mrt_def demo_bitmap(6) mrt_get_def dec_mrt_entry_def slice_def)
  obtain m1 where m1: "mrt_update_entry ?m 1 20 1 = (OK, m1)"
    using mrt_update_sound(1) [OF s, of 1 20 1] d by (cases "mrt_update_entry ?m 1 20 1") simp
  note N1 = mrt_update_sound(2) [OF s, of 1 20 1, unfolded m1 prod.sel, simplified]
  have e1: "mrt m1 1 = \<lparr> m_physical_block = 20, m_flags = 1, m_reserved = 0, m_generation = 0 \<rparr>"
    using mrt_nowD(3) [OF N1, of 1] d e by simp
  have r1: "\<not> mrt_refused m1" using mrt_nowD(8) [OF N1] by (simp add: mrt_refused_def)
  have c1: "mrt_count m1 = 256" using mrt_nowD(4) [OF N1] d by simp
  obtain m2 where m2: "mrt_update_entry m1 1 30 0 = (OK, m2)"
    using mrt_update_sound(1) [OF mrt_nowD(1) [OF N1], of 1 30 0] c1 r1 by (cases "mrt_update_entry m1 1 30 0") simp
  show ?thesis
    using mrt_update_then_resolve [OF mrt_nowD(1) [OF N1] m2] e1 m1 m2 by (simp add: mrt_allocated_def)
qed

text \<open>
  A freed number can be told from its next use. Freeing a number and allocating again
  gives every number a generation that differs from the one it had when it was freed, so a
  reference that carries the old generation no longer matches (the generation is 32 bits wide
  and wraps, so this is about the next use and not about all later ones). Freeing clears the
  flags, unbinds the entry and raises the free count, after which the number resolves to
  \<open>ERR_NOTFOUND\<close>.
\<close>
theorem mrt_free_retires_generation:
  assumes "sound m" "mrt_free_entry m rid = (OK, m')"
  shows "sound m' \<and> mrt_frame m m' \<and> fst (mrt_resolve m' rid) = Inl ERR_NOTFOUND \<and>
    sb_mrt_free_count (sb m') = sb_mrt_free_count (sb m) + 1 \<and>
    (\<forall>gen m2. mrt_alloc_entry m' = (Inr (rid, gen), m2) \<longrightarrow> gen \<noteq> m_generation (mrt m (unat rid)))"
proof -
  have lt: "unat rid < mrt_count m"
    using mrt_free_sound(1) [OF assms(1), of rid] assms(2) by (simp split: if_splits)
  have n: "mrt_now m ((mrt m)(unat rid := (mrt m (unat rid))\<lparr> m_physical_block := UINT64_MAX, m_flags := 0 \<rparr>)) 1 m'"
    using mrt_free_sound(2) [OF assms(1), of rid] assms(2) by simp
  have e: "mrt m' (unat rid) = (mrt m (unat rid))\<lparr> m_physical_block := UINT64_MAX, m_flags := 0 \<rparr>"
    using mrt_nowD(3) [OF n lt] by simp
  have "fst (mrt_resolve m' rid) = Inl ERR_NOTFOUND"
    using mrt_resolve_sound(1) [OF mrt_nowD(1) [OF n], of rid] e lt mrt_nowD(4) [OF n] by (simp add: mrt_allocated_def)
  moreover have "gen \<noteq> m_generation (mrt m (unat rid))" if "mrt_alloc_entry m' = (Inr (rid, gen), m2)" for gen m2
    using mrt_alloc_sound [OF mrt_nowD(1) [OF n]] that e by (simp add: alloc_entry_result_def)
  ultimately show ?thesis using n by (auto simp: mrt_now_def)
qed

theorem mrt_free_retires_generation_witness:
  "\<exists>m'. mrt_free_entry demo_mount 7 = (OK, m') \<and> fst (mrt_resolve m' 7) = Inl ERR_NOTFOUND"
proof -
  obtain m' where w: "mrt_free_entry demo_mount 7 = (OK, m')"
    using mrt_free_sound(1) [OF demo_sound, of 7] demo_mrt(1,2) by (cases "mrt_free_entry demo_mount 7") simp
  show ?thesis using mrt_free_retires_generation [OF demo_sound w] w by blast
qed

end
