(* ===== verification/Logged.thy ===== *)
theory Logged
  imports Outcome Mrt
begin

text \<open>
  Blocks written under the journal, the step that records and tree nodes share. A chain of
  such steps is described by \<open>upd m n v m'\<close>: \<open>m'\<close> is a sound volume that differs from \<open>m\<close> in
  the content of blocks, which is \<open>v\<close> outside the journal, and in \<open>n\<close> more journal entries.
\<close>

section \<open>Frames\<close>

definition durable :: "mount \<Rightarrow> u64 \<Rightarrow> bool" where
  "durable m c \<longleftrightarrow> blk_ok c \<and> (c = 0 \<or> sb_bitmap_start (sb m) \<le> c)"

definition same_meta :: "mount \<Rightarrow> mount \<Rightarrow> bool" where
  "same_meta m m' \<longleftrightarrow> (\<exists>h. sb m' = (sb m)\<lparr> sb_journal_head := h \<rparr>) \<and> mounted m' = mounted m \<and>
     drive_num m' = drive_num m \<and> heap_ok m' = heap_ok m \<and>
     journal_in_transaction m' = journal_in_transaction m \<and> fd_table m' = fd_table m \<and>
     regions m' = regions m \<and> region_count m' = region_count m \<and> alloc_hint_region m' = alloc_hint_region m"

definition upd :: "mount \<Rightarrow> nat \<Rightarrow> (u64 \<Rightarrow> bytes) \<Rightarrow> mount \<Rightarrow> bool" where
  "upd m n v m' \<longleftrightarrow> sound m' \<and> same_meta m m' \<and> ring_used (sb m') = ring_used (sb m) + n \<and>
     (\<forall>c. durable m c \<longrightarrow> block_view m' c = v c)"

text \<open>The journal of an open transaction has space for \<open>n\<close> entries.\<close>

definition room :: "mount \<Rightarrow> nat \<Rightarrow> bool" where
  "room m n \<longleftrightarrow> journal_in_transaction m \<and> ring_used (sb m) + n < unat (sb_journal_length (sb m))"

lemma same_meta_refl [simp]: "same_meta m m"
  by (auto simp: same_meta_def intro: exI [of _ "sb_journal_head (sb m)"])

lemma same_meta_trans: "same_meta m m1 \<Longrightarrow> same_meta m1 m2 \<Longrightarrow> same_meta m m2"
  unfolding same_meta_def by (elim conjE exE, intro conjI exI) simp_all

lemma same_metaD:
  assumes "same_meta m m'"
  shows "durable m' = durable m" "mrt_count m' = mrt_count m" "sb_mrt_start (sb m') = sb_mrt_start (sb m)"
    "sb_data_start (sb m') = sb_data_start (sb m)" "sb_total_blocks (sb m') = sb_total_blocks (sb m)"
    "heap_ok m' = heap_ok m" "journal_in_transaction m' = journal_in_transaction m"
    "sb_journal_length (sb m') = sb_journal_length (sb m)" "mounted m' = mounted m"
    "sb_root_record_id (sb m') = sb_root_record_id (sb m)" "drive_num m' = drive_num m"
    "sb_bitmap_start (sb m') = sb_bitmap_start (sb m)" "fd_table m' = fd_table m"
    "sb_free_blocks (sb m') = sb_free_blocks (sb m)" "sb_bitmap_length (sb m') = sb_bitmap_length (sb m)"
  using assms by (auto simp: same_meta_def durable_def mrt_count_def fun_eq_iff)

lemma updD:
  assumes "upd m n v m'"
  shows "sound m'" "same_meta m m'" "ring_used (sb m') = ring_used (sb m) + n"
    "durable m c \<Longrightarrow> block_view m' c = v c"
  using assms by (simp_all add: upd_def)

lemma upd_refl: "sound m \<Longrightarrow> upd m 0 (block_view m) m"
  by (simp add: upd_def)

lemma upd_cong: "upd m n v m' \<Longrightarrow> (\<And>c. durable m c \<Longrightarrow> v c = w c) \<Longrightarrow> n = k \<Longrightarrow> upd m k w m'"
  by (simp add: upd_def)

lemma upd_trans:
  assumes "upd m n v m1" "upd m1 k w m2"
  shows "upd m (n + k) w m2"
  using assms same_metaD(1) [OF updD(2) [OF assms(1)]] same_meta_trans [of m m1 m2]
  by (simp add: upd_def)

text \<open>The common chains: a step that leaves the blocks as they are, before or after a write.\<close>

lemma upd_keep:
  assumes "upd m 0 (block_view m) m1" "upd m1 k (block_view m1) m2"
  shows "upd m k (block_view m) m2"
  by (rule upd_cong [OF upd_trans [OF assms]]) (simp_all add: updD(4) [OF assms(1)])

lemma upd_keep_write:
  assumes "upd m 0 (block_view m) m1" "upd m1 k ((block_view m1)(b := x)) m2"
  shows "upd m k ((block_view m)(b := x)) m2"
  by (rule upd_cong [OF upd_trans [OF assms]]) (simp_all add: updD(4) [OF assms(1)])

lemma upd_write_keep:
  assumes "upd m n ((block_view m)(b := x)) m1" "upd m1 0 (block_view m1) m2"
  shows "upd m n ((block_view m)(b := x)) m2"
  by (rule upd_cong [OF upd_trans [OF assms]]) (simp_all add: updD(4) [OF assms(1)])

lemma upd_write_write:
  assumes "upd m n ((block_view m)(b := x)) m1" "upd m1 k ((block_view m1)(c := y)) m2"
  shows "upd m (n + k) ((block_view m)(b := x, c := y)) m2"
  by (rule upd_cong [OF upd_trans [OF assms]]) (simp_all add: updD(4) [OF assms(1)])

lemma upd_room: "upd m n v m' \<Longrightarrow> room m (n + k) \<Longrightarrow> room m' k"
  using same_metaD(7,8) by (auto simp: upd_def room_def)

lemma room_mono: "room m n \<Longrightarrow> k \<le> n \<Longrightarrow> room m k"
  by (simp add: room_def)

lemma room_not_full:
  assumes "sound m" "room m n" "0 < n"
  shows "\<not> journal_is_full m"
  using ring_full_used [OF vol_okD(4) [OF soundD(1) [OF assms(1)]]] assms(2,3) unfolding room_def by linarith

section \<open>Reading\<close>

lemma cache_only_meta: "cache_only m m' \<Longrightarrow> same_meta m m'"
  by (auto simp: cache_only_def same_meta_def intro: exI [of _ "sb_journal_head (sb m)"])

lemma upd_read:
  assumes "sound m" "blk_ok b"
  obtains m1 where "read_block m b = (Inr (block_view m b), m1)" "upd m 0 (block_view m) m1"
proof -
  let ?m1 = "snd (read_block m b)"
  have "read_block m b = (Inr (block_view m b), ?m1)"
    using sound_read_block(1) [OF assms] by (metis prod.collapse)
  moreover have "upd m 0 (block_view m) ?m1"
    using sound_read_block(2) [OF assms] cache.rd_view [OF soundD(4) [OF assms(1)] assms(2)]
    by (auto simp: upd_def durable_def same_meta_def intro: exI [of _ "sb_journal_head (sb m)"])
  ultimately show thesis by (rule that)
qed

text \<open>The table's blocks lie in the durable part.\<close>

lemma mrt_durable:
  assumes "sound m" "i < mrt_count m"
  shows "durable m (sb_mrt_start (sb m) + of_nat (i div 256))"
proof -
  have g: "geom (sb m)" by (rule vol_okD(3) [OF soundD(1) [OF assms(1)]])
  show ?thesis
    using mrt_block_of(2,4) [OF g assms(2)] g by (auto simp: durable_def geom_def word_le_nat_alt)
qed

text \<open>Record \<open>rid\<close> is bound to the data block \<open>b\<close> in its generation \<open>g\<close>.\<close>

definition bound :: "mount \<Rightarrow> u64 \<Rightarrow> u64 \<Rightarrow> u32 \<Rightarrow> bool" where
  "bound m rid b g \<longleftrightarrow> unat rid < mrt_count m \<and> mrt_allocated (mrt m (unat rid)) \<and>
     m_physical_block (mrt m (unat rid)) = b \<and> m_generation (mrt m (unat rid)) = g \<and>
     b \<noteq> UINT64_MAX \<and> sb_data_start (sb m) \<le> b \<and> b < sb_total_blocks (sb m)"

lemma data_block:
  assumes "sound m" "sb_data_start (sb m) \<le> b" "b < sb_total_blocks (sb m)"
  shows "blk_ok b" "durable m b" "b \<noteq> 0"
    "i < mrt_count m \<Longrightarrow> sb_mrt_start (sb m) + of_nat (i div 256) \<noteq> b"
proof -
  have g: "geom (sb m)" by (rule vol_okD(3) [OF soundD(1) [OF assms(1)]])
  show b: "blk_ok b" using geom_total [OF g] assms(3) by (simp add: word_less_nat_alt)
  have "sb_bitmap_start (sb m) \<le> b" using g assms(2) by (auto simp: geom_def word_le_nat_alt)
  then show "durable m b" using b by (simp add: durable_def)
  show "b \<noteq> 0" using g assms(2) by (auto simp: geom_def word_le_nat_alt)
  show "i < mrt_count m \<Longrightarrow> sb_mrt_start (sb m) + of_nat (i div 256) \<noteq> b"
    using mrt_block_of(5) [OF g, of i] assms(2) by auto
qed

lemma boundD:
  assumes "sound m" "bound m rid b g"
  shows "blk_ok b" "durable m b" "b \<noteq> 0"
  using data_block [OF assms(1)] assms(2) by (auto simp: bound_def)

lemma mrt_upd:
  assumes "sound m" "upd m n v m'" "i < mrt_count m"
    "v (sb_mrt_start (sb m) + of_nat (i div 256)) = block_view m (sb_mrt_start (sb m) + of_nat (i div 256))"
  shows "mrt m' i = mrt m i"
  using assms updD(4) [OF assms(2) mrt_durable [OF assms(1,3)]] same_metaD(3) [OF updD(2) [OF assms(2)]]
  by (simp add: mrt_def)

lemma bound_upd:
  assumes "sound m" "upd m n v m'" "bound m rid b g"
    "v (sb_mrt_start (sb m) + of_nat (unat rid div 256)) =
       block_view m (sb_mrt_start (sb m) + of_nat (unat rid div 256))"
  shows "bound m' rid b g"
  using mrt_upd [OF assms(1,2) _ assms(4)] assms(3) same_metaD [OF updD(2) [OF assms(2)]]
  by (simp add: bound_def)

lemma bound_keep:
  assumes "sound m" "upd m n (block_view m) m'" "bound m rid b g"
  shows "bound m' rid b g"
  by (rule bound_upd [OF assms]) simp

lemma bound_write:
  assumes "sound m" "upd m n ((block_view m)(c := x)) m'" "bound m rid b g"
    "sb_data_start (sb m) \<le> c" "c < sb_total_blocks (sb m)"
  shows "bound m' rid b g"
  using data_block(4) [OF assms(1,4,5), of "unat rid"] assms(3)
  by (intro bound_upd [OF assms(1-3)]) (simp add: bound_def)

lemma upd_resolve:
  assumes "sound m" "bound m rid b g"
  obtains m1 fl where "mrt_resolve m rid = (Inr (b, fl, g), m1)" "upd m 0 (block_view m) m1"
proof -
  have lt: "unat rid < mrt_count m" using assms(2) by (simp add: bound_def)
  let ?t = "sb_mrt_start (sb m) + rid div 256"
  note P = mrt_pos [of rid, OF refl]
  have t: "?t = sb_mrt_start (sb m) + of_nat (unat rid div 256)" unfolding P(1) by (rule refl)
  have "blk_ok ?t" unfolding t using mrt_durable [OF assms(1) lt] by (simp add: durable_def)
  from upd_read [OF assms(1) this] obtain m1 where
    r: "read_block m ?t = (Inr (block_view m ?t), m1)" and u: "upd m 0 (block_view m) m1" .
  have e: "mrt_get (block_view m ?t) (unat (rid mod 256)) = mrt m (unat rid)"
    unfolding t P(2) mrt_def by (rule refl)
  have "\<not> sb_mrt_capacity (sb m) \<le> rid" using lt by (simp add: mrt_count_def word_le_nat_alt)
  then have "mrt_resolve m rid = (Inr (b, m_flags (mrt m (unat rid)), g), m1)"
    using assms(2) boundD(3) [OF assms] by (simp add: mrt_resolve_def r e Let_def bound_def)
  from that [OF this u] show thesis .
qed

section \<open>Writing\<close>

definition logged_write :: "mount \<Rightarrow> u64 \<Rightarrow> bytes option \<Rightarrow> bytes \<Rightarrow> u64 \<Rightarrow> status \<times> mount" where
  "logged_write m b old blk len =
     thenS (journal_log_write m b old (Some blk) len) (\<lambda>m3. orS (write_block m3 b blk) ERR_IO)"

lemma journal_log_write_upd:
  assumes "sound m" "length blk = 4096" "len \<le> 4096"
  shows "fst (journal_log_write m b old (Some blk) len) =
      (if \<not> journal_in_transaction m then ERR_JOURNAL else if journal_is_full m then ERR_NOSPC
       else if unat len > 4032 then ERR_TOO_BIG else OK)"
    and "upd m (if fst (journal_log_write m b old (Some blk) len) = OK then 1 else 0) (block_view m)
      (snd (journal_log_write m b old (Some blk) len))"
proof -
  let ?w = "journal_write_entry m SMKFS_JOP_WRITE b (ucast len) 0 (Some blk)"
  have len: "unat len \<le> 4096" using assms(3) by (simp add: word_le_nat_alt)
  then have u: "unat (ucast len :: u32) = unat len" by (simp add: unat_ucast take_bit_nat_eq_self)
  have l: "loggable (ucast len) (Some blk)" using len u assms(2) by simp
  have w: "journal_log_write m b old (Some blk) len = ?w" by (simp add: journal_log_write_def)
  note W = journal_write_entry_sound [OF assms(1) l, of SMKFS_JOP_WRITE b 0]
  show "fst (journal_log_write m b old (Some blk) len) =
      (if \<not> journal_in_transaction m then ERR_JOURNAL else if journal_is_full m then ERR_NOSPC
       else if unat len > 4032 then ERR_TOO_BIG else OK)"
    unfolding w W(2) u by (rule refl)
  have we: "?w = (fst ?w, snd ?w)" by simp
  note V = journal_write_entry_spec [OF soundD(1) [OF assms(1)] l we]
  have g: "geom (sb m)" by (rule vol_okD(3) [OF soundD(1) [OF assms(1)]])
  note J = journal_block [OF g head_lt [OF soundD(1) [OF assms(1)]]]
  have "durable m c \<Longrightarrow> c \<noteq> sb_journal_start (sb m) + sb_journal_head (sb m)" for c
    using J(3,4) by (auto simp: durable_def word_le_nat_alt)
  then have v: "durable m c \<Longrightarrow> block_view (snd ?w) c = block_view m c" for c
    using V(2) [of c] by (auto simp: durable_def)
  have sbw: "sb (snd ?w) = (if fst ?w = OK then (sb m)\<lparr> sb_journal_head := journal_next_pos m (sb_journal_head (sb m)) \<rparr> else sb m)"
    by (rule journal_write_entry_sb)
  have "same_meta m (snd ?w)"
    unfolding same_meta_def sbw by (cases "fst ?w = OK") (auto intro: exI [of _ "sb_journal_head (sb m)"])
  moreover have "ring_used (sb (snd ?w)) = ring_used (sb m) + (if fst ?w = OK then 1 else 0)"
    using V(3) ring_used_next [OF vol_okD(4) [OF soundD(1) [OF assms(1)]]] unfolding sbw by simp
  ultimately show "upd m (if fst (journal_log_write m b old (Some blk) len) = OK then 1 else 0) (block_view m)
      (snd (journal_log_write m b old (Some blk) len))"
    unfolding w upd_def using W(1) v by simp
qed

lemma logged_write_upd:
  assumes "sound m" "length blk = 4096" "len \<le> 4096" "blk_ok b"
  shows "fst (logged_write m b old blk len) =
      (if \<not> journal_in_transaction m then ERR_JOURNAL else if journal_is_full m then ERR_NOSPC
       else if unat len > 4032 then ERR_TOO_BIG else OK)"
    and "upd m (if fst (logged_write m b old blk len) = OK then 1 else 0)
      (if fst (logged_write m b old blk len) = OK then (block_view m)(b := blk) else block_view m)
      (snd (logged_write m b old blk len))"
proof -
  let ?j = "journal_log_write m b old (Some blk) len"
  note J = journal_log_write_upd [OF assms(1-3), where b = b and old = old]
  have s: "sound (snd ?j)" by (rule updD(1) [OF J(2)])
  note W = sound_write_block [OF s assms(4,2)]
  have lw: "logged_write m b old blk len = (if fst ?j = OK then (OK, snd (write_block (snd ?j) b blk)) else ?j)"
    using W(1) by (cases ?j) (simp add: logged_write_def thenS_def orS_def prod_eq_iff)
  show f: "fst (logged_write m b old blk len) =
      (if \<not> journal_in_transaction m then ERR_JOURNAL else if journal_is_full m then ERR_NOSPC
       else if unat len > 4032 then ERR_TOO_BIG else OK)"
    unfolding lw using J(1) by simp
  show "upd m (if fst (logged_write m b old blk len) = OK then 1 else 0)
      (if fst (logged_write m b old blk len) = OK then (block_view m)(b := blk) else block_view m)
      (snd (logged_write m b old blk len))"
  proof (cases "fst ?j = OK")
    case False
    then show ?thesis using J(2) by (simp add: lw)
  next
    case True
    have "upd (snd ?j) 0 ((block_view (snd ?j))(b := blk)) (snd (write_block (snd ?j) b blk))"
      using W cache.wr_view [OF soundD(4) [OF s] assms(4) _ assms(2)]
      by (auto simp: upd_def durable_def same_meta_def intro: exI [of _ "sb_journal_head (sb (snd ?j))"])
    from upd_trans [OF J(2) this] have "upd m 1 ((block_view m)(b := blk)) (snd (write_block (snd ?j) b blk))"
      using True by (auto elim!: upd_cong simp: updD(4) [OF J(2)])
    then show ?thesis using True by (simp add: lw)
  qed
qed

lemma logged_write_ok:
  assumes "sound m" "room m 1" "length blk = 4096" "unat len \<le> 4032" "blk_ok b"
  obtains m1 where "logged_write m b old blk len = (OK, m1)" "upd m 1 ((block_view m)(b := blk)) m1"
proof -
  have l: "len \<le> 4096" using assms(4) by (simp add: word_le_nat_alt)
  note L = logged_write_upd [OF assms(1,3) l assms(5), where old = old]
  have ok: "fst (logged_write m b old blk len) = OK"
    using room_not_full [OF assms(1,2)] assms(2,4) by (simp add: L(1) room_def)
  then show thesis using that [of "snd (logged_write m b old blk len)"] L(2) by (simp add: prod_eq_iff)
qed

end
