(* ===== verification/Attr.thy ===== *)
theory Attr
  imports Layout
begin

text \<open>
  The attributes of a record, \<^verbatim>\<open>fs/smkfs/attr.c\<close>: the registry of attribute types and the
  operations on a buffer that holds attributes one behind the other, each a 12-byte header and
  its data, up to a header of type END. The C code follows the lengths it finds without
  knowing where the buffer ends. A header that does not lie in the buffer, and a store behind
  its end, are undefined behaviour there and \<open>None\<close> here. Sizes (\<^verbatim>\<open>SIZE_T\<close>) are natural
  numbers, which agrees with the C code as long as they stay 24 below the largest value.
\<close>

section \<open>The registry\<close>

datatype attr_check = check_u16 | check_u64 | check_name | check_extents

definition attr_validate_u16 :: "bytes \<Rightarrow> nat \<Rightarrow> status" where
  "attr_validate_u16 data len = (if len = 2 then OK else ERR_INVAL)"

definition attr_validate_u64 :: "bytes \<Rightarrow> nat \<Rightarrow> status" where
  "attr_validate_u64 data len = (if len = 8 then OK else ERR_INVAL)"

definition attr_validate_name :: "bytes \<Rightarrow> nat \<Rightarrow> status" where
  "attr_validate_name data len =
     (if len = 0 \<or> len > SMKFS_NAME_LEN then ERR_INVAL
      else if data ! (len - 1) \<noteq> 0 then ERR_INVAL else OK)"

definition attr_validate_extents :: "bytes \<Rightarrow> nat \<Rightarrow> status" where
  "attr_validate_extents data len = (if len mod 20 = 0 then OK else ERR_INVAL)"

record attr_def =
  d_type :: u16
  d_name :: string
  d_flags :: u16
  d_fixed_size :: nat
  d_validate :: "attr_check option"

fun run_check :: "attr_check \<Rightarrow> bytes \<Rightarrow> nat \<Rightarrow> status" where
  "run_check check_u16 = attr_validate_u16"
| "run_check check_u64 = attr_validate_u64"
| "run_check check_name = attr_validate_name"
| "run_check check_extents = attr_validate_extents"

definition attr_registry :: "attr_def list" where
  "attr_registry =
     [\<lparr> d_type = SMKFS_ATTRT_END, d_name = ''END'', d_flags = SMKFS_ATTRF_UNIQUE OR SMKFS_ATTRF_REQUIRED,
        d_fixed_size = 0, d_validate = None \<rparr>,
      \<lparr> d_type = SMKFS_ATTRT_NAME, d_name = ''NAME'', d_flags = SMKFS_ATTRF_UNIQUE,
        d_fixed_size = 0, d_validate = Some check_name \<rparr>,
      \<lparr> d_type = SMKFS_ATTRT_DATA, d_name = ''DATA'', d_flags = SMKFS_ATTRF_UNIQUE,
        d_fixed_size = 8, d_validate = Some check_u64 \<rparr>,
      \<lparr> d_type = SMKFS_ATTRT_FSIZE, d_name = ''FSIZE'', d_flags = SMKFS_ATTRF_UNIQUE,
        d_fixed_size = 8, d_validate = Some check_u64 \<rparr>,
      \<lparr> d_type = SMKFS_ATTRT_PERMISSIONS, d_name = ''PERMISSIONS'', d_flags = SMKFS_ATTRF_UNIQUE,
        d_fixed_size = 2, d_validate = Some check_u16 \<rparr>,
      \<lparr> d_type = SMKFS_ATTRT_OWNER, d_name = ''OWNER'', d_flags = SMKFS_ATTRF_UNIQUE,
        d_fixed_size = 8, d_validate = Some check_u64 \<rparr>,
      \<lparr> d_type = SMKFS_ATTRT_TIMESTAMPS, d_name = ''TIMESTAMPS'', d_flags = SMKFS_ATTRF_UNIQUE,
        d_fixed_size = 0, d_validate = None \<rparr>,
      \<lparr> d_type = SMKFS_ATTRT_PARENT, d_name = ''PARENT'', d_flags = SMKFS_ATTRF_UNIQUE,
        d_fixed_size = 8, d_validate = Some check_u64 \<rparr>,
      \<lparr> d_type = SMKFS_ATTRT_EXTENTS, d_name = ''EXTENTS'', d_flags = 0,
        d_fixed_size = 0, d_validate = Some check_extents \<rparr>,
      \<lparr> d_type = SMKFS_ATTRT_SYMLINK, d_name = ''SYMLINK'', d_flags = SMKFS_ATTRF_UNIQUE,
        d_fixed_size = 0, d_validate = None \<rparr>,
      \<lparr> d_type = SMKFS_ATTRT_DEVICE, d_name = ''DEVICE'', d_flags = SMKFS_ATTRF_UNIQUE,
        d_fixed_size = 8, d_validate = Some check_u64 \<rparr>]"

definition smkfs_attr_lookup :: "u16 \<Rightarrow> attr_def option" where
  "smkfs_attr_lookup ty = find (\<lambda>d. d_type d = ty) attr_registry"

definition smkfs_attr_name :: "u16 \<Rightarrow> string" where
  "smkfs_attr_name ty = (case smkfs_attr_lookup ty of Some d \<Rightarrow> d_name d | None \<Rightarrow> ''UNKNOWN'')"

section \<open>Walking the buffer\<close>

definition attr_at :: "bytes \<Rightarrow> nat \<Rightarrow> attr_header" where
  "attr_at buf off = dec_attr_header (slice off 12 buf)"

text \<open>
  The walk without an early exit: \<open>f\<close> is the loop body, given the position and the header of
  an attribute, and the result holds the position of the terminator.
\<close>

function attr_walk :: "(nat \<Rightarrow> attr_header \<Rightarrow> 'a \<Rightarrow> 'a) \<Rightarrow> bytes \<Rightarrow> nat \<Rightarrow> 'a \<Rightarrow> ('a \<times> nat) option" where
  "attr_walk f buf off acc =
     (if off + 12 > length buf then None
      else
        let ah = attr_at buf off
        in if a_type ah = SMKFS_ATTRT_END then Some (acc, off)
           else attr_walk f buf (off + 12 + unat (a_length ah)) (f off ah acc))"
  by pat_completeness auto
termination by (relation "measure (\<lambda>(f, buf, off, acc). length buf - off)") auto

declare attr_walk.simps [simp del]

text \<open>A store into the buffer.\<close>

definition put_bytes :: "nat \<Rightarrow> bytes \<Rightarrow> bytes \<Rightarrow> bytes option" where
  "put_bytes off ys buf = (if off + length ys \<le> length buf then Some (patch off ys buf) else None)"

section \<open>The operations\<close>

text \<open>The result of a successful search is the position of the data and its length.\<close>

function find_attr_from :: "bytes \<Rightarrow> u16 \<Rightarrow> nat \<Rightarrow> (status + nat \<times> nat) option" where
  "find_attr_from buf ty off =
     (if off + 12 > length buf then None
      else
        let ah = attr_at buf off
        in if a_type ah = SMKFS_ATTRT_END then Some (Inl ERR_NOTFOUND)
           else if a_type ah = ty then Some (Inr (off + 12, unat (a_length ah)))
           else find_attr_from buf ty (off + 12 + unat (a_length ah)))"
  by pat_completeness auto
termination by (relation "measure (\<lambda>(buf, ty, off). length buf - off)") auto

declare find_attr_from.simps [simp del]

definition record_find_attr :: "bytes \<Rightarrow> u16 \<Rightarrow> (status + nat \<times> nat) option" where
  "record_find_attr attr_buf ty = find_attr_from attr_buf ty 0"

text \<open>
  Both removals note the last match, then move what follows it, terminator included, to its
  place; what is left behind the moved terminator stays in the buffer.
\<close>

definition last_match :: "(attr_header \<Rightarrow> bool) \<Rightarrow> nat \<Rightarrow> attr_header \<Rightarrow> (nat \<times> nat) option \<Rightarrow> (nat \<times> nat) option" where
  "last_match P off ah found = (if P ah then Some (off, 12 + unat (a_length ah)) else found)"

definition remove_match :: "(attr_header \<Rightarrow> bool) \<Rightarrow> bytes \<Rightarrow> bytes option" where
  "remove_match P buf =
     (case attr_walk (last_match P) buf 0 None of
        None \<Rightarrow> None
      | Some (None, ptr) \<Rightarrow> Some buf
      | Some (Some (found, found_len), ptr) \<Rightarrow>
          let tail = ptr + 12 - (found + found_len)
          in put_bytes found (slice (found + found_len) tail buf) buf)"

definition record_remove_attr :: "bytes \<Rightarrow> u16 \<Rightarrow> bytes option" where
  "record_remove_attr attr_buf ty = remove_match (\<lambda>ah. a_type ah = ty) attr_buf"

definition record_remove_attr_id :: "bytes \<Rightarrow> u16 \<Rightarrow> u32 \<Rightarrow> bytes option" where
  "record_remove_attr_id attr_buf ty attr_id =
     remove_match (\<lambda>ah. a_type ah = ty \<and> a_id ah = attr_id) attr_buf"

text \<open>\<open>(any_found, max_id)\<close> of the scan for a fresh id.\<close>

definition max_id_step :: "u16 \<Rightarrow> nat \<Rightarrow> attr_header \<Rightarrow> bool \<times> u32 \<Rightarrow> bool \<times> u32" where
  "max_id_step ty off ah am =
     (if a_type ah = ty
      then (True, if \<not> fst am \<or> a_id ah > snd am then a_id ah else snd am)
      else am)"

definition attr_terminator :: attr_header where
  "attr_terminator = \<lparr> a_type = SMKFS_ATTRT_END, a_flags = 0, a_id = 0, a_length = 0 \<rparr>"

definition record_add_attr :: "bytes \<Rightarrow> nat \<Rightarrow> u16 \<Rightarrow> bytes option \<Rightarrow> nat \<Rightarrow> (status \<times> bytes) option" where
  "record_add_attr attr_buf buf_size ty data data_len =
     (if data_len > 0 \<and> data = None then Some (ERR_INVAL, attr_buf)
      else if buf_size < 2 * 12 + data_len then Some (ERR_NOSPC, attr_buf)
      else case smkfs_attr_lookup ty of
        None \<Rightarrow> Some (ERR_INVAL, attr_buf)
      | Some d \<Rightarrow>
          (case (if d_flags d AND SMKFS_ATTRF_UNIQUE \<noteq> 0
                 then map_option (\<lambda>b. (b, 0)) (record_remove_attr attr_buf ty)
                 else map_option (\<lambda>((any_found, max_id), _). (attr_buf, if any_found then max_id + 1 else 0))
                        (attr_walk (max_id_step ty) attr_buf 0 (False, 0))) of
             None \<Rightarrow> None
           | Some (buf, new_id) \<Rightarrow>
               (case attr_walk (\<lambda>_ _ u. u) buf 0 () of
                  None \<Rightarrow> None
                | Some (_, ptr) \<Rightarrow>
                    let used = ptr + 12;
                        need = 12 + data_len + 12
                    in if used + need > buf_size then Some (ERR_NOSPC, buf)
                       else
                         let new_ah = \<lparr> a_type = ty, a_flags = 0, a_id = new_id, a_length = of_nat data_len \<rparr>;
                             bs = (case data of Some d \<Rightarrow> take data_len d | None \<Rightarrow> [])
                         in map_option (\<lambda>b. (OK, b))
                              (Option.bind (put_bytes ptr (enc_attr_header new_ah) buf) (\<lambda>b1.
                               Option.bind (put_bytes (ptr + 12) bs b1) (\<lambda>b2.
                               put_bytes (ptr + 12 + data_len) (enc_attr_header attr_terminator) b2))))))"

text \<open>
  The callback gets the attribute's id, its data and its length, and returns the value that
  ends the walk if it is not 0, with its context. An attribute that reaches past the end of
  the buffer is \<open>None\<close> as well.
\<close>

function iterate_from ::
  "bytes \<Rightarrow> u16 \<Rightarrow> (u32 \<Rightarrow> bytes \<Rightarrow> nat \<Rightarrow> 'c \<Rightarrow> int \<times> 'c) \<Rightarrow> nat \<Rightarrow> 'c \<Rightarrow> (int \<times> 'c) option" where
  "iterate_from buf ty cb off ctx =
     (if off + 12 > length buf then None
      else
        let ah = attr_at buf off;
            len = unat (a_length ah)
        in if a_type ah = SMKFS_ATTRT_END then Some (status_code OK, ctx)
           else if off + 12 + len > length buf then None
           else if a_type ah = ty
           then (case cb (a_id ah) (slice (off + 12) len buf) len ctx of
                   (r, ctx1) \<Rightarrow> if r \<noteq> 0 then Some (r, ctx1) else iterate_from buf ty cb (off + 12 + len) ctx1)
           else iterate_from buf ty cb (off + 12 + len) ctx)"
  by pat_completeness auto
termination by (relation "measure (\<lambda>(buf, ty, cb, off, ctx). length buf - off)") auto

declare iterate_from.simps [simp del]

definition record_iterate_attr ::
  "bytes \<Rightarrow> u16 \<Rightarrow> (u32 \<Rightarrow> bytes \<Rightarrow> nat \<Rightarrow> 'c \<Rightarrow> int \<times> 'c) \<Rightarrow> 'c \<Rightarrow> (int \<times> 'c) option" where
  "record_iterate_attr attr_buf ty cb ctx = iterate_from attr_buf ty cb 0 ctx"


section \<open>Buffers as lists of attributes\<close>

record attr =
  at_type :: u16
  at_flags :: u16
  at_id :: u32
  at_data :: bytes

definition attr_hdr :: "attr \<Rightarrow> attr_header" where
  "attr_hdr a = \<lparr> a_type = at_type a, a_flags = at_flags a, a_id = at_id a, a_length = of_nat (length (at_data a)) \<rparr>"

definition ser1 :: "attr \<Rightarrow> bytes" where
  "ser1 a = enc_attr_header (attr_hdr a) @ at_data a"

definition ser :: "attr list \<Rightarrow> bytes" where
  "ser as = concat (map ser1 as)"

definition wf_attr :: "attr \<Rightarrow> bool" where
  "wf_attr a \<longleftrightarrow> at_type a \<noteq> SMKFS_ATTRT_END \<and> length (at_data a) < 2 ^ 32"

text \<open>A terminator and whatever follows it.\<close>

definition term_at :: "bytes \<Rightarrow> bool" where
  "term_at t \<longleftrightarrow> 12 \<le> length t \<and> a_type (dec_attr_header t) = SMKFS_ATTRT_END"

definition holds :: "bytes \<Rightarrow> attr list \<Rightarrow> bool" where
  "holds buf as \<longleftrightarrow> (\<forall>a \<in> set as. wf_attr a) \<and> (\<exists>t. term_at t \<and> buf = ser as @ t)"

lemma ser_simps [simp]:
  "ser [] = []" "ser (a # as) = ser1 a @ ser as" "ser (as @ bs) = ser as @ ser bs"
  by (simp_all add: ser_def)

lemma length_ser1 [simp]: "length (ser1 a) = 12 + length (at_data a)"
  by (simp add: ser1_def)

lemma attr_hdr_simps [simp]:
  "a_type (attr_hdr a) = at_type a" "a_id (attr_hdr a) = at_id a"
  "wf_attr a \<Longrightarrow> unat (a_length (attr_hdr a)) = length (at_data a)"
  by (simp_all add: attr_hdr_def wf_attr_def unat_of_nat_small)

lemma attr_at_ser1 [simp]: "attr_at (pre @ ser1 a @ ys) (length pre) = attr_hdr a"
  by (simp add: attr_at_def slice_append2 ser1_def)

lemma attr_at_term [simp]: "term_at t \<Longrightarrow> a_type (attr_at (pre @ t) (length pre)) = SMKFS_ATTRT_END"
  by (simp add: attr_at_def slice_append2 slice_0 term_at_def)

fun walk_ref :: "(nat \<Rightarrow> attr_header \<Rightarrow> 'a \<Rightarrow> 'a) \<Rightarrow> nat \<Rightarrow> attr list \<Rightarrow> 'a \<Rightarrow> 'a" where
  "walk_ref f off [] acc = acc"
| "walk_ref f off (a # as) acc = walk_ref f (off + length (ser1 a)) as (f off (attr_hdr a) acc)"

lemma attr_walk_ser:
  assumes "\<forall>a \<in> set as. wf_attr a" "term_at t"
  shows "attr_walk f (pre @ ser as @ t) (length pre) acc =
    Some (walk_ref f (length pre) as acc, length pre + length (ser as))"
  using assms(1)
proof (induction "as" arbitrary: pre acc)
  case Nil
  then show ?case using assms(2) by (subst attr_walk.simps) (simp add: term_at_def)
next
  case (Cons a "as")
  have w: "wf_attr a" using Cons.prems by simp
  have "attr_walk f ((pre @ ser1 a) @ ser as @ t) (length (pre @ ser1 a)) (f (length pre) (attr_hdr a) acc) =
    Some (walk_ref f (length (pre @ ser1 a)) as (f (length pre) (attr_hdr a) acc), length (pre @ ser1 a) + length (ser as))"
    using Cons.prems by (intro Cons.IH) simp
  then show ?case
    using w by (subst attr_walk.simps) (simp add: wf_attr_def add.assoc Let_def)
qed

lemma holds_walk:
  assumes "holds buf as"
  shows "attr_walk f buf 0 acc = Some (walk_ref f 0 as acc, length (ser as))"
  using assms attr_walk_ser [of "as" _ f "[]"] by (auto simp: holds_def)

section \<open>Searching\<close>

lemma find_attr_ser:
  assumes "\<forall>a \<in> set as. wf_attr a" "term_at t"
  shows "find_attr_from (pre @ ser as @ t) ty (length pre) =
    Some (case find (\<lambda>a. at_type a = ty) as of
        None \<Rightarrow> Inl ERR_NOTFOUND
      | Some a \<Rightarrow> Inr (length pre + length (ser (takeWhile (\<lambda>a. at_type a \<noteq> ty) as)) + 12, length (at_data a)))"
  using assms(1)
proof (induction "as" arbitrary: pre)
  case Nil
  then show ?case using assms(2) by (subst find_attr_from.simps) (simp add: term_at_def)
next
  case (Cons a "as")
  have w: "wf_attr a" using Cons.prems by simp
  note IH = Cons.IH [of "pre @ ser1 a"]
  show ?case
  proof (cases "at_type a = ty")
    case True
    then show ?thesis
      using w by (subst find_attr_from.simps) (simp add: wf_attr_def Let_def)
  next
    case False
    then show ?thesis
      using w IH Cons.prems
      by (subst find_attr_from.simps) (simp add: wf_attr_def Let_def add.assoc cong: option.case_cong)
  qed
qed

lemma record_find_attr_holds:
  assumes "holds buf as"
  shows "record_find_attr buf ty = Some (case find (\<lambda>a. at_type a = ty) as of
        None \<Rightarrow> Inl ERR_NOTFOUND
      | Some a \<Rightarrow> Inr (length (ser (takeWhile (\<lambda>a. at_type a \<noteq> ty) as)) + 12, length (at_data a)))"
proof -
  obtain t where "term_at t" "buf = ser as @ t" "\<forall>a \<in> set as. wf_attr a"
    using assms by (auto simp: holds_def)
  then show ?thesis
    using find_attr_ser [of "as" t "[]" ty] by (simp add: record_find_attr_def cong: option.case_cong)
qed

lemma find_split:
  assumes "find P xs = Some a"
  shows "xs = takeWhile (\<lambda>x. \<not> P x) xs @ a # drop (Suc (length (takeWhile (\<lambda>x. \<not> P x) xs))) xs"
  using assms by (induction xs) (auto split: if_splits)

text \<open>The bytes that a successful search points at are the attribute's data.\<close>

lemma record_find_attr_data:
  assumes "holds buf as" "record_find_attr buf ty = Some (Inr (p, n))"
  shows "\<exists>a. find (\<lambda>a. at_type a = ty) as = Some a \<and> slice p n buf = at_data a"
proof -
  obtain a where a: "find (\<lambda>a. at_type a = ty) as = Some a"
    and p: "p = length (ser (takeWhile (\<lambda>a. at_type a \<noteq> ty) as)) + 12" "n = length (at_data a)"
    using record_find_attr_holds [OF assms(1), of ty] assms(2) by (auto split: option.splits)
  obtain t where t: "buf = ser as @ t" using assms(1) by (auto simp: holds_def)
  let ?as = "takeWhile (\<lambda>a. at_type a \<noteq> ty) as"
  obtain bs where "as = ?as @ a # bs" using find_split [OF a] by metis
  then have "ser as = ser ?as @ ser1 a @ ser bs" by (metis ser_simps(2,3))
  then have "slice p n buf = at_data a"
    by (simp add: t p slice_append2 ser1_def)
  then show ?thesis using a by blast
qed

section \<open>Removing\<close>

fun remove_last :: "('a \<Rightarrow> bool) \<Rightarrow> 'a list \<Rightarrow> 'a list" where
  "remove_last P [] = []"
| "remove_last P (x # xs) = (if P x \<and> \<not> list_ex P xs then xs else x # remove_last P xs)"

lemma remove_last_split:
  "list_ex P xs \<Longrightarrow> \<exists>ys x zs. xs = ys @ x # zs \<and> P x \<and> \<not> list_ex P zs \<and> remove_last P xs = ys @ zs"
proof (induction xs)
  case (Cons a xs)
  show ?case
  proof (cases "list_ex P xs")
    case True
    then obtain ys x zs where "xs = ys @ x # zs" "P x" "\<not> list_ex P zs" "remove_last P xs = ys @ zs"
      using Cons.IH by blast
    then have "a # xs = (a # ys) @ x # zs \<and> P x \<and> \<not> list_ex P zs \<and> remove_last P (a # xs) = (a # ys) @ zs" by simp
    then show ?thesis by blast
  next
    case False
    then have "a # xs = [] @ a # xs \<and> P a \<and> \<not> list_ex P xs \<and> remove_last P (a # xs) = [] @ xs" using Cons.prems by simp
    then show ?thesis by blast
  qed
qed simp

lemma remove_last_id: "\<not> list_ex P xs \<Longrightarrow> remove_last P xs = xs"
  by (induction xs) auto

lemma remove_last_snoc: "P x \<Longrightarrow> \<forall>y \<in> set xs. \<not> P y \<Longrightarrow> remove_last P (xs @ [x]) = xs"
  by (induction xs) auto

lemma set_remove_last: "set (remove_last P xs) \<subseteq> set xs"
  by (induction xs) auto

lemma find_append: "find P (xs @ ys) = (case find P xs of None \<Rightarrow> find P ys | Some x \<Rightarrow> Some x)"
  by (induction xs) auto

lemma find_remove_last_other:
  "(\<And>x. P x \<Longrightarrow> \<not> Q x) \<Longrightarrow> find Q (remove_last P xs) = find Q xs"
  by (induction xs) auto

lemma find_remove_last_same:
  "length (filter P xs) \<le> 1 \<Longrightarrow> find P (remove_last P xs) = None"
  by (induction xs) (auto simp: find_None_iff list_ex_iff filter_empty_conv split: if_splits)

lemma walk_ref_last_match_none:
  "\<not> list_ex (\<lambda>a. P (attr_hdr a)) as \<Longrightarrow> walk_ref (last_match P) off as acc = acc"
  by (induction "as" arbitrary: off acc) (simp_all add: last_match_def)

lemma walk_ref_append:
  "walk_ref f off (as @ bs) acc = walk_ref f (off + length (ser as)) bs (walk_ref f off as acc)"
  by (induction "as" arbitrary: off acc) (simp_all add: add.assoc)

lemma remove_match_holds:
  assumes "holds buf as"
  shows "\<exists>buf'. remove_match P buf = Some buf' \<and> holds buf' (remove_last (\<lambda>a. P (attr_hdr a)) as) \<and>
    length buf' = length buf"
proof (cases "list_ex (\<lambda>a. P (attr_hdr a)) as")
  case False
  then have "remove_match P buf = Some buf"
    using holds_walk [OF assms, of "last_match P"] walk_ref_last_match_none by (simp add: remove_match_def)
  then show ?thesis using assms remove_last_id [OF False] by simp
next
  case True
  then obtain ys x zs where as: "as = ys @ x # zs" "P (attr_hdr x)" "\<not> list_ex (\<lambda>a. P (attr_hdr a)) zs"
    and rl: "remove_last (\<lambda>a. P (attr_hdr a)) as = ys @ zs"
    using remove_last_split by blast
  obtain t where t: "term_at t" "buf = ser as @ t" and wf: "\<forall>a \<in> set as. wf_attr a"
    using assms by (auto simp: holds_def)
  have wx: "wf_attr x" using wf as by simp
  let ?f = "length (ser ys)" and ?l = "12 + length (at_data x)"
  have "walk_ref (last_match P) 0 as None = Some (?f, ?l)"
    using as wx by (simp add: walk_ref_append walk_ref_last_match_none last_match_def)
  then have w: "attr_walk (last_match P) buf 0 None = Some (Some (?f, ?l), length (ser as))"
    using holds_walk [OF assms, of "last_match P" None] by simp
  have buf: "buf = ser ys @ ser1 x @ ser zs @ t" using as t by simp
  have t12: "12 \<le> length t" using t by (simp add: term_at_def)
  let ?tail = "length (ser as) + 12 - (?f + ?l)"
  have tl: "?tail = length (ser zs) + 12" using as by simp
  have sl: "slice (?f + ?l) ?tail buf = ser zs @ take 12 t"
    unfolding tl buf by (simp add: slice_append2) (simp add: slice_def)
  have len: "?f + length (ser zs @ take 12 t) \<le> length buf" using buf t12 by simp
  let ?buf = "patch ?f (ser zs @ take 12 t) buf"
  have pb: "?buf = ser ys @ ser zs @ take 12 t @ drop (?f + length (ser zs) + 12) buf"
    using t12 by (simp add: patch_def buf min_def)
  have "remove_match P buf = Some ?buf"
    using w len sl by (simp add: remove_match_def Let_def put_bytes_def)
  moreover have "holds ?buf (ys @ zs)"
  proof -
    have "term_at (take 12 t @ drop (?f + length (ser zs) + 12) buf)"
      using t t12 by (simp add: term_at_def dec_attr_header_def slice_def min_def)
    then show ?thesis using wf as unfolding pb holds_def by auto
  qed
  ultimately show ?thesis using rl len by auto
qed


section \<open>Adding\<close>

definition unique_type :: "u16 \<Rightarrow> bool" where
  "unique_type ty \<longleftrightarrow> (\<exists>d. smkfs_attr_lookup ty = Some d \<and> d_flags d AND SMKFS_ATTRF_UNIQUE \<noteq> 0)"

text \<open>The id that a new attribute of a type gets: 0, or one more than the largest in use.\<close>

definition fresh_id :: "u16 \<Rightarrow> attr list \<Rightarrow> u32" where
  "fresh_id ty as =
     (case filter (\<lambda>a. at_type a = ty) as of
        [] \<Rightarrow> 0
      | a # bs \<Rightarrow> foldl (\<lambda>m b. max m (at_id b)) (at_id a) bs + 1)"

lemma walk_ref_max_id:
  "walk_ref (max_id_step ty) off as (found, m) =
     (found \<or> (\<exists>a \<in> set as. at_type a = ty),
      if found then foldl (\<lambda>m b. max m (at_id b)) m (filter (\<lambda>a. at_type a = ty) as)
      else (case filter (\<lambda>a. at_type a = ty) as of [] \<Rightarrow> m
            | a # bs \<Rightarrow> foldl (\<lambda>m b. max m (at_id b)) (at_id a) bs))"
proof (induction "as" arbitrary: off found m)
  case (Cons a "as")
  have "max m (at_id a) = (if at_id a > m then at_id a else m)"
    by (auto simp: max_def word_less_nat_alt word_le_nat_alt word_unat_eq_iff)
  then have "max_id_step ty off (attr_hdr a) (found, m) =
      (if at_type a = ty then (True, if found then max m (at_id a) else at_id a) else (found, m))"
    by (simp add: max_id_step_def)
  then show ?case by (auto simp: Cons.IH split: list.split)
qed simp

lemma walk_ref_unit: "walk_ref (\<lambda>_ _ u. u) off as x = x"
  by (induction "as" arbitrary: off) simp_all

lemma attr_lookup_nonzero: "smkfs_attr_lookup ty = Some d \<Longrightarrow> ty \<noteq> 0 \<Longrightarrow> d_type d = ty"
  by (auto simp: smkfs_attr_lookup_def find_Some_iff)

definition kept :: "u16 \<Rightarrow> attr list \<Rightarrow> attr list" where
  "kept ty as = (if unique_type ty then remove_last (\<lambda>a. at_type a = ty) as else as)"

definition new_attr :: "u16 \<Rightarrow> attr list \<Rightarrow> bytes \<Rightarrow> attr" where
  "new_attr ty as data =
     \<lparr> at_type = ty, at_flags = 0, at_id = (if unique_type ty then 0 else fresh_id ty as), at_data = data \<rparr>"

lemma put_at_end:
  assumes "holds buf as" "wf_attr a" "length (ser as) + 24 + length (at_data a) \<le> length buf"
  shows "\<exists>buf'. Option.bind (put_bytes (length (ser as)) (enc_attr_header (attr_hdr a)) buf) (\<lambda>b1.
      Option.bind (put_bytes (length (ser as) + 12) (at_data a) b1) (\<lambda>b2.
        put_bytes (length (ser as) + 12 + length (at_data a)) (enc_attr_header attr_terminator) b2)) = Some buf' \<and>
    holds buf' (as @ [a]) \<and> length buf' = length buf"
proof -
  obtain t where t: "term_at t" "buf = ser as @ t" and wf: "\<forall>a \<in> set as. wf_attr a"
    using assms(1) by (auto simp: holds_def)
  let ?p = "length (ser as)" and ?n = "length (at_data a)"
  let ?h = "enc_attr_header (attr_hdr a)" and ?e = "enc_attr_header attr_terminator"
  have lt: "24 + ?n \<le> length t" using assms(3) t by simp
  have b1: "put_bytes ?p ?h buf = Some (ser as @ ?h @ drop 12 t)"
    using lt by (simp add: put_bytes_def t patch_def)
  have b2: "put_bytes (?p + 12) (at_data a) (ser as @ ?h @ drop 12 t) =
      Some (ser as @ ?h @ at_data a @ drop (12 + ?n) t)"
    using lt by (simp add: put_bytes_def patch_def add.commute)
  have b3: "put_bytes (?p + 12 + ?n) ?e (ser as @ ?h @ at_data a @ drop (12 + ?n) t) =
      Some (ser as @ ?h @ at_data a @ ?e @ drop (24 + ?n) t)"
    using lt by (simp add: put_bytes_def patch_def add.commute)
  have "term_at (?e @ drop (24 + ?n) t)" by (simp add: term_at_def) (simp add: attr_terminator_def)
  then have "holds (ser as @ ?h @ at_data a @ ?e @ drop (24 + ?n) t) (as @ [a])"
    using wf assms(2) by (auto simp: holds_def ser1_def)
  then show ?thesis using b1 b2 b3 lt by (auto simp: t)
qed

lemma record_add_attr_holds:
  assumes "holds buf as" "smkfs_attr_lookup ty = Some d" "ty \<noteq> SMKFS_ATTRT_END"
    "length data < 2 ^ 32" "buf_size \<le> length buf"
  shows "\<exists>buf' st. record_add_attr buf buf_size ty (Some data) (length data) = Some (st, buf') \<and>
    length buf' = length buf \<and>
    (if buf_size < 24 + length data then st = ERR_NOSPC \<and> buf' = buf
     else if length (ser (kept ty as)) + 36 + length data > buf_size
     then st = ERR_NOSPC \<and> holds buf' (kept ty as)
     else st = OK \<and> holds buf' (kept ty as @ [new_attr ty as data]))"
proof (cases "buf_size < 24 + length data")
  case True
  then show ?thesis by (simp add: record_add_attr_def)
next
  case False
  let ?sel = "if d_flags d AND SMKFS_ATTRF_UNIQUE \<noteq> 0
                 then map_option (\<lambda>b. (b, 0)) (record_remove_attr buf ty)
                 else map_option (\<lambda>((any_found, max_id), _). (buf, if any_found then max_id + 1 else 0))
                        (attr_walk (max_id_step ty) buf 0 (False, 0))"
  have uq: "unique_type ty \<longleftrightarrow> d_flags d AND SMKFS_ATTRF_UNIQUE \<noteq> 0"
    using assms(2) by (simp add: unique_type_def)
  obtain b where b: "?sel = Some (b, at_id (new_attr ty as data))" "holds b (kept ty as)" "length b = length buf"
  proof (cases "unique_type ty")
    case True
    obtain b where "record_remove_attr buf ty = Some b" "holds b (remove_last (\<lambda>a. at_type a = ty) as)" "length b = length buf"
      using remove_match_holds [OF assms(1), of "\<lambda>ah. a_type ah = ty"] by (auto simp: record_remove_attr_def)
    then show ?thesis using that True uq by (simp add: kept_def new_attr_def)
  next
    case False
    have "filter (\<lambda>a. at_type a = ty) as = [] \<longleftrightarrow> \<not> (\<exists>a \<in> set as. at_type a = ty)" by (auto simp: filter_empty_conv)
    then have "?sel = Some (buf, fresh_id ty as)"
      using False uq holds_walk [OF assms(1), of "max_id_step ty" "(False, 0)"]
      by (auto simp: walk_ref_max_id fresh_id_def split: list.split)
    then show ?thesis using that False assms(1) by (simp add: kept_def new_attr_def)
  qed
  let ?a = "new_attr ty as data"
  have na: "wf_attr ?a" "at_data ?a = data" "attr_hdr ?a = \<lparr> a_type = ty, a_flags = 0, a_id = at_id ?a, a_length = of_nat (length data) \<rparr>"
    using assms(3,4) by (simp_all add: new_attr_def wf_attr_def attr_hdr_def)
  let ?p = "length (ser (kept ty as))"
  have end_at: "attr_walk (\<lambda>_ _ u. u) b 0 () = Some ((), ?p)"
    using holds_walk [OF b(2), of "\<lambda>_ _ u. u" "()"] by simp
  have unf: "record_add_attr buf buf_size ty (Some data) (length data) =
      (if ?p + 12 + (12 + length data + 12) > buf_size then Some (ERR_NOSPC, b)
       else map_option (\<lambda>b. (OK, b))
         (Option.bind (put_bytes ?p (enc_attr_header (attr_hdr ?a)) b) (\<lambda>b1.
          Option.bind (put_bytes (?p + 12) (at_data ?a) b1) (\<lambda>b2.
            put_bytes (?p + 12 + length (at_data ?a)) (enc_attr_header attr_terminator) b2))))"
    using False end_at unfolding record_add_attr_def assms(2) na(2,3) by (simp add: b(1) Let_def)
  show ?thesis
  proof (cases "?p + 36 + length data > buf_size")
    case True
    then show ?thesis using False unf b by simp
  next
    case le: False
    then have "?p + 24 + length (at_data ?a) \<le> length b" using assms(5) b(3) na(2) by simp
    from put_at_end [OF b(2) na(1) this] obtain b' where
      "Option.bind (put_bytes ?p (enc_attr_header (attr_hdr ?a)) b) (\<lambda>b1.
          Option.bind (put_bytes (?p + 12) (at_data ?a) b1) (\<lambda>b2.
            put_bytes (?p + 12 + length (at_data ?a)) (enc_attr_header attr_terminator) b2)) = Some b'"
      "holds b' (kept ty as @ [?a])" "length b' = length b" by blast
    then show ?thesis using False le unf b(3) by simp
  qed
qed

section \<open>Iterating\<close>

fun iterate_ref :: "u16 \<Rightarrow> (u32 \<Rightarrow> bytes \<Rightarrow> nat \<Rightarrow> 'c \<Rightarrow> int \<times> 'c) \<Rightarrow> attr list \<Rightarrow> 'c \<Rightarrow> int \<times> 'c" where
  "iterate_ref ty cb [] ctx = (0, ctx)"
| "iterate_ref ty cb (a # as) ctx =
     (if at_type a = ty
      then (case cb (at_id a) (at_data a) (length (at_data a)) ctx of
              (r, ctx1) \<Rightarrow> if r \<noteq> 0 then (r, ctx1) else iterate_ref ty cb as ctx1)
      else iterate_ref ty cb as ctx)"

lemma iterate_ser:
  assumes "\<forall>a \<in> set as. wf_attr a" "term_at t"
  shows "iterate_from (pre @ ser as @ t) ty cb (length pre) ctx = Some (iterate_ref ty cb as ctx)"
  using assms(1)
proof (induction "as" arbitrary: pre ctx)
  case Nil
  then show ?case using assms(2) by (subst iterate_from.simps) (simp add: term_at_def)
next
  case (Cons a "as")
  have w: "wf_attr a" using Cons.prems by simp
  have sl: "slice (length pre + 12) (length (at_data a)) (pre @ ser1 a @ ser as @ t) = at_data a"
    by (simp add: slice_append2 ser1_def)
  have IH: "iterate_from (pre @ ser1 a @ ser as @ t) ty cb (length pre + 12 + length (at_data a)) ctx' =
      Some (iterate_ref ty cb as ctx')" for ctx'
    using Cons.IH [of "pre @ ser1 a" ctx'] Cons.prems by (simp add: add.assoc)
  have "at_type a \<noteq> 0" using w by (simp add: wf_attr_def)
  then show ?case
    using w IH by (subst iterate_from.simps) (simp add: Let_def sl split: prod.split)
qed

lemma record_iterate_holds:
  assumes "holds buf as"
  shows "record_iterate_attr buf ty cb ctx = Some (iterate_ref ty cb as ctx)"
  using assms iterate_ser [of "as" _ "[]" ty cb ctx] by (auto simp: holds_def record_iterate_attr_def)


section \<open>Properties\<close>

definition count_type :: "u16 \<Rightarrow> attr list \<Rightarrow> nat" where
  "count_type ty as = length (filter (\<lambda>a. at_type a = ty) as)"

lemma add_ok_holds:
  assumes "holds buf as" "ty \<noteq> SMKFS_ATTRT_END" "length data < 2 ^ 32" "buf_size \<le> length buf"
    "record_add_attr buf buf_size ty (Some data) (length data) = Some (OK, buf')"
  shows "holds buf' (kept ty as @ [new_attr ty as data])" "length buf' = length buf"
proof -
  obtain d where d: "smkfs_attr_lookup ty = Some d"
    using assms(5) by (cases "smkfs_attr_lookup ty") (auto simp: record_add_attr_def split: if_splits)
  show "holds buf' (kept ty as @ [new_attr ty as data])" "length buf' = length buf"
    using record_add_attr_holds [OF assms(1) d assms(2-4)] assms(5) by (auto split: if_splits)
qed

lemma filter_remove_last: "length (filter P (remove_last P xs)) = length (filter P xs) - 1"
proof (cases "list_ex P xs")
  case True
  then show ?thesis using remove_last_split [OF True] by auto
next
  case False
  then have "filter P xs = []" by (auto simp: list_ex_iff filter_empty_conv)
  then show ?thesis by (simp add: remove_last_id [OF False])
qed

lemma filter_remove_last_other: "(\<And>x. P x \<Longrightarrow> \<not> Q x) \<Longrightarrow> filter Q (remove_last P xs) = filter Q xs"
  by (induction xs) auto

text \<open>
  C15. What is added is what is found. If a buffer holds at most one attribute of a UNIQUE type
  and \<open>record_add_attr\<close> succeeds, \<open>record_find_attr\<close> finds exactly the data that was
  added, the buffer still holds a well-formed list with one attribute of that type, its size is
  unchanged, and a search for any other type finds the same data as before or nothing as before.
\<close>
theorem attr_add_then_find:
  assumes "holds buf as" "unique_type ty" "ty \<noteq> SMKFS_ATTRT_END" "count_type ty as \<le> 1"
    "length data < 2 ^ 32" "buf_size \<le> length buf"
    "record_add_attr buf buf_size ty (Some data) (length data) = Some (OK, buf')"
  shows "(\<exists>p. record_find_attr buf' ty = Some (Inr (p, length data)) \<and> slice p (length data) buf' = data) \<and>
    (\<exists>as'. holds buf' as' \<and> count_type ty as' = 1) \<and> length buf' = length buf \<and>
    (\<forall>other p n. other \<noteq> ty \<and> record_find_attr buf other = Some (Inr (p, n)) \<longrightarrow>
       (\<exists>q. record_find_attr buf' other = Some (Inr (q, n)) \<and> slice q n buf' = slice p n buf)) \<and>
    (\<forall>other. other \<noteq> ty \<longrightarrow>
       (record_find_attr buf' other = Some (Inl ERR_NOTFOUND)) = (record_find_attr buf other = Some (Inl ERR_NOTFOUND)))"
proof -
  let ?as = "kept ty as @ [new_attr ty as data]"
  note H = add_ok_holds [OF assms(1,3,5,6,7)]
  have k: "kept ty as = remove_last (\<lambda>a. at_type a = ty) as" using assms(2) by (simp add: kept_def)
  have fn: "find (\<lambda>a. at_type a = ty) (kept ty as) = None"
    unfolding k using assms(4) by (intro find_remove_last_same) (simp add: count_type_def)
  then have f: "find (\<lambda>a. at_type a = ty) ?as = Some (new_attr ty as data)"
    by (simp add: find_append new_attr_def)
  have fo: "find (\<lambda>a. at_type a = other) ?as = find (\<lambda>a. at_type a = other) as" if "other \<noteq> ty" for other
  proof -
    have "find (\<lambda>a. at_type a = other) (kept ty as) = find (\<lambda>a. at_type a = other) as"
      unfolding k using that by (intro find_remove_last_other) auto
    then show ?thesis using that
      by (simp add: find_append new_attr_def split: option.split)
  qed
  obtain p where p: "record_find_attr buf' ty = Some (Inr (p, length data))"
    using record_find_attr_holds [OF H(1), of ty] f by (simp add: new_attr_def)
  have "slice p (length data) buf' = data"
    using record_find_attr_data [OF H(1) p] f by (simp add: new_attr_def)
  moreover have "count_type ty ?as = 1"
    using fn by (auto simp: count_type_def new_attr_def find_None_iff filter_empty_conv)
  moreover have "\<exists>q. record_find_attr buf' other = Some (Inr (q, n)) \<and> slice q n buf' = slice p n buf"
    if o: "other \<noteq> ty" "record_find_attr buf other = Some (Inr (p, n))" for other p n
  proof -
    obtain a where a: "find (\<lambda>a. at_type a = other) as = Some a" "slice p n buf = at_data a"
      using record_find_attr_data [OF assms(1) o(2)] by blast
    have n: "n = length (at_data a)" using record_find_attr_holds [OF assms(1), of other] o(2) a by simp
    obtain q where q: "record_find_attr buf' other = Some (Inr (q, n))"
      using record_find_attr_holds [OF H(1), of other] fo [OF o(1)] a n by simp
    then show ?thesis using record_find_attr_data [OF H(1) q] fo [OF o(1)] a by auto
  qed
  moreover have "(record_find_attr buf' other = Some (Inl ERR_NOTFOUND)) = (record_find_attr buf other = Some (Inl ERR_NOTFOUND))"
    if "other \<noteq> ty" for other
    using record_find_attr_holds [OF H(1), of other] record_find_attr_holds [OF assms(1), of other] fo [OF that]
    by (simp split: option.split)
  ultimately show ?thesis using p H by blast
qed

text \<open>A buffer of 60 bytes with one DATA attribute.\<close>

definition demo_attr :: attr where
  "demo_attr = \<lparr> at_type = SMKFS_ATTRT_DATA, at_flags = 0, at_id = 0, at_data = replicate 8 7 \<rparr>"

definition demo_attrs :: bytes where
  "demo_attrs = ser [demo_attr] @ enc_attr_header attr_terminator @ replicate 28 0"

lemma demo_attrs_holds: "holds demo_attrs [demo_attr]" "length demo_attrs = 60"
proof -
  have "term_at (enc_attr_header attr_terminator @ replicate 28 0)"
    by (simp add: term_at_def) (simp add: attr_terminator_def)
  then show "holds demo_attrs [demo_attr]"
    by (auto simp: holds_def demo_attrs_def wf_attr_def demo_attr_def)
  show "length demo_attrs = 60" by (simp add: demo_attrs_def demo_attr_def)
qed

lemma demo_lookup:
  "smkfs_attr_lookup SMKFS_ATTRT_DATA = Some \<lparr> d_type = SMKFS_ATTRT_DATA, d_name = ''DATA'',
     d_flags = SMKFS_ATTRF_UNIQUE, d_fixed_size = 8, d_validate = Some check_u64 \<rparr>"
  "smkfs_attr_lookup SMKFS_ATTRT_EXTENTS = Some \<lparr> d_type = SMKFS_ATTRT_EXTENTS, d_name = ''EXTENTS'',
     d_flags = 0, d_fixed_size = 0, d_validate = Some check_extents \<rparr>"
  "unique_type SMKFS_ATTRT_DATA" "\<not> unique_type SMKFS_ATTRT_EXTENTS"
  by (simp_all add: smkfs_attr_lookup_def attr_registry_def unique_type_def)

theorem attr_add_then_find_witness:
  "\<exists>buf' p. record_add_attr demo_attrs 60 SMKFS_ATTRT_DATA (Some (replicate 2 1)) 2 = Some (OK, buf') \<and>
     record_find_attr buf' SMKFS_ATTRT_DATA = Some (Inr (p, 2)) \<and> slice p 2 buf' = replicate 2 1"
proof -
  obtain buf' where a: "record_add_attr demo_attrs 60 SMKFS_ATTRT_DATA (Some (replicate 2 1)) 2 = Some (OK, buf')"
    using record_add_attr_holds [OF demo_attrs_holds(1) demo_lookup(1), of "replicate 2 1" 60] demo_attrs_holds(2) demo_lookup(3)
    by (auto simp: kept_def demo_attr_def)
  show ?thesis
    using attr_add_then_find [OF demo_attrs_holds(1) demo_lookup(3), of "replicate 2 1" 60 buf'] a demo_attrs_holds(2)
    by (simp add: count_type_def)
qed

text \<open>
  A failed replacement loses the old value. \<open>record_add_attr\<close> removes the existing
  attribute of a UNIQUE type before it checks for space: if the new value then does not fit, it
  returns \<open>ERR_NOSPC\<close> and the type is no longer in the buffer, though the caller was told
  that nothing was stored.
\<close>
theorem attr_add_nospc_drops_old:
  assumes "holds buf as" "unique_type ty" "ty \<noteq> SMKFS_ATTRT_END" "count_type ty as \<le> 1"
    "length data < 2 ^ 32" "buf_size \<le> length buf" "24 + length data \<le> buf_size"
    "record_add_attr buf buf_size ty (Some data) (length data) = Some (ERR_NOSPC, buf')"
  shows "record_find_attr buf' ty = Some (Inl ERR_NOTFOUND)"
proof -
  obtain d where d: "smkfs_attr_lookup ty = Some d" using assms(2) by (auto simp: unique_type_def)
  have "holds buf' (remove_last (\<lambda>a. at_type a = ty) as)"
    using record_add_attr_holds [OF assms(1) d assms(3,5,6)] assms(2,7,8) by (auto simp: kept_def split: if_splits)
  moreover have "find (\<lambda>a. at_type a = ty) (remove_last (\<lambda>a. at_type a = ty) as) = None"
    using assms(4) by (intro find_remove_last_same) (simp add: count_type_def)
  ultimately show ?thesis using record_find_attr_holds by fastforce
qed

theorem attr_add_nospc_drops_old_witness:
  "record_find_attr demo_attrs SMKFS_ATTRT_DATA = Some (Inr (12, 8)) \<and>
   (\<exists>buf'. record_add_attr demo_attrs 60 SMKFS_ATTRT_DATA (Some (replicate 30 1)) 30 = Some (ERR_NOSPC, buf') \<and>
     record_find_attr buf' SMKFS_ATTRT_DATA = Some (Inl ERR_NOTFOUND))"
proof -
  obtain buf' where a: "record_add_attr demo_attrs 60 SMKFS_ATTRT_DATA (Some (replicate 30 1)) 30 = Some (ERR_NOSPC, buf')"
    using record_add_attr_holds [OF demo_attrs_holds(1) demo_lookup(1), of "replicate 30 1" 60] demo_attrs_holds(2) demo_lookup(3)
    by (auto simp: kept_def demo_attr_def)
  have "record_find_attr demo_attrs SMKFS_ATTRT_DATA = Some (Inr (12, 8))"
    using record_find_attr_holds [OF demo_attrs_holds(1), of SMKFS_ATTRT_DATA] by (simp add: demo_attr_def)
  then show ?thesis
    using attr_add_nospc_drops_old [OF demo_attrs_holds(1) demo_lookup(3), of "replicate 30 1" 60 buf'] a demo_attrs_holds(2)
    by (simp add: count_type_def)
qed

text \<open>
  Removal takes one attribute, the last of its type. On every buffer that holds an
  attribute list \<open>record_remove_attr\<close> succeeds within the buffer, removes the last
  attribute of the type and keeps all others in order; with two or more attributes of the type
  a search still finds the first.
\<close>
theorem attr_remove_last_of_type:
  assumes "holds buf as"
  shows "\<exists>buf'. record_remove_attr buf ty = Some buf' \<and> length buf' = length buf \<and>
    holds buf' (remove_last (\<lambda>a. at_type a = ty) as) \<and>
    (\<forall>other. other \<noteq> ty \<longrightarrow> filter (\<lambda>a. at_type a = other) (remove_last (\<lambda>a. at_type a = ty) as) =
       filter (\<lambda>a. at_type a = other) as) \<and>
    count_type ty (remove_last (\<lambda>a. at_type a = ty) as) = count_type ty as - 1 \<and>
    (2 \<le> count_type ty as \<longrightarrow> (\<exists>p n. record_find_attr buf' ty = Some (Inr (p, n))))"
proof -
  obtain buf' where b: "record_remove_attr buf ty = Some buf'" "length buf' = length buf"
    "holds buf' (remove_last (\<lambda>a. at_type a = ty) as)"
    using remove_match_holds [OF assms, of "\<lambda>ah. a_type ah = ty"] by (auto simp: record_remove_attr_def)
  have c: "count_type ty (remove_last (\<lambda>a. at_type a = ty) as) = count_type ty as - 1"
    unfolding count_type_def by (rule filter_remove_last)
  have "\<exists>p n. record_find_attr buf' ty = Some (Inr (p, n))" if "2 \<le> count_type ty as"
  proof -
    have "count_type ty (remove_last (\<lambda>a. at_type a = ty) as) \<noteq> 0" using c that by simp
    then have "find (\<lambda>a. at_type a = ty) (remove_last (\<lambda>a. at_type a = ty) as) \<noteq> None"
      by (auto simp: count_type_def find_None_iff filter_empty_conv)
    then show ?thesis using record_find_attr_holds [OF b(3), of ty] by auto
  qed
  moreover have "filter (\<lambda>a. at_type a = other) (remove_last (\<lambda>a. at_type a = ty) as) =
       filter (\<lambda>a. at_type a = other) as" if "other \<noteq> ty" for other
    using that by (intro filter_remove_last_other) auto
  ultimately show ?thesis using b c by auto
qed

theorem attr_remove_last_of_type_witness:
  "\<exists>buf'. record_remove_attr demo_attrs SMKFS_ATTRT_DATA = Some buf' \<and> holds buf' []"
  using attr_remove_last_of_type [OF demo_attrs_holds(1), of SMKFS_ATTRT_DATA] by (auto simp: demo_attr_def)

text \<open>
  Attribute ids come back. Adding an attribute of a type that may occur several times,
  removing it by the id it got and adding another one gives the second the id of the first:
  the id is one more than the largest in the buffer, so ids are reused across a cycle of
  removal and addition, against the comment in the code.
\<close>
theorem attr_id_reused:
  assumes "holds buf as" "smkfs_attr_lookup ty = Some d" "\<not> unique_type ty" "ty \<noteq> SMKFS_ATTRT_END"
    "length x < 2 ^ 32" "length y < 2 ^ 32" "buf_size \<le> length buf"
    "\<forall>a \<in> set as. at_type a = ty \<longrightarrow> at_id a \<noteq> fresh_id ty as"
    "record_add_attr buf buf_size ty (Some x) (length x) = Some (OK, buf1)"
    "record_remove_attr_id buf1 ty (fresh_id ty as) = Some buf2"
    "record_add_attr buf2 buf_size ty (Some y) (length y) = Some (OK, buf3)"
  shows "\<exists>new. holds buf1 (as @ [new]) \<and> at_data new = x \<and> at_id new = fresh_id ty as \<and> holds buf2 as \<and>
    (\<exists>new'. holds buf3 (as @ [new']) \<and> at_data new' = y \<and> at_id new' = at_id new)"
proof -
  have k: "kept ty as = as" using assms(3) by (simp add: kept_def)
  note H1 = add_ok_holds [OF assms(1,4,5,7,9), unfolded k]
  let ?P = "\<lambda>a. at_type a = ty \<and> at_id a = fresh_id ty as"
  have "remove_last ?P (as @ [new_attr ty as x]) = as"
    by (rule remove_last_snoc) (use assms(3,8) in \<open>auto simp: new_attr_def\<close>)
  then have H2: "holds buf2 as" "length buf2 = length buf1"
    using remove_match_holds [OF H1(1), of "\<lambda>ah. a_type ah = ty \<and> a_id ah = fresh_id ty as"] assms(10)
    by (auto simp: record_remove_attr_id_def)
  have "buf_size \<le> length buf2" using H1(2) H2(2) assms(7) by simp
  note H3 = add_ok_holds [OF H2(1) assms(4,6) this assms(11), unfolded k]
  show ?thesis
    using H1(1) H2(1) H3(1) assms(3) by (intro exI [of _ "new_attr ty as x"]) (auto simp: new_attr_def)
qed

theorem attr_id_reused_witness:
  "\<exists>buf1 buf2 buf3 new new'.
     record_add_attr demo_attrs 60 SMKFS_ATTRT_EXTENTS (Some [1]) 1 = Some (OK, buf1) \<and>
     record_remove_attr_id buf1 SMKFS_ATTRT_EXTENTS 0 = Some buf2 \<and>
     record_add_attr buf2 60 SMKFS_ATTRT_EXTENTS (Some [2]) 1 = Some (OK, buf3) \<and>
     holds buf1 [demo_attr, new] \<and> holds buf3 [demo_attr, new'] \<and> at_id new = 0 \<and> at_id new' = 0"
proof -
  have fr: "fresh_id SMKFS_ATTRT_EXTENTS [demo_attr] = 0" by (simp add: fresh_id_def demo_attr_def)
  have k: "kept SMKFS_ATTRT_EXTENTS as = as" for "as" using demo_lookup(4) by (simp add: kept_def)
  have sz: "length (ser [demo_attr]) = 20" by (simp add: demo_attr_def)
  have l2: "(60 :: nat) \<le> length demo_attrs" using demo_attrs_holds(2) by simp
  have add: "\<exists>b'. record_add_attr b 60 SMKFS_ATTRT_EXTENTS (Some [v]) 1 = Some (OK, b') \<and> length b' = 60"
    if "holds b [demo_attr]" "length b = 60" for b and v :: u8
    using record_add_attr_holds [OF that(1) demo_lookup(2), of "[v]" 60] that(2) sz k by auto
  obtain buf1 where b1: "record_add_attr demo_attrs 60 SMKFS_ATTRT_EXTENTS (Some [1]) 1 = Some (OK, buf1)"
    and l1: "length buf1 = 60" using add demo_attrs_holds by blast
  have H1: "holds buf1 [demo_attr, new_attr SMKFS_ATTRT_EXTENTS [demo_attr] [1]]"
    using add_ok_holds(1) [OF demo_attrs_holds(1) _ _ l2, of SMKFS_ATTRT_EXTENTS "[1]" buf1] b1 k by simp
  let ?P = "\<lambda>a. at_type a = SMKFS_ATTRT_EXTENTS \<and> at_id a = 0"
  have rl: "remove_last ?P [demo_attr, new_attr SMKFS_ATTRT_EXTENTS [demo_attr] [1]] = [demo_attr]"
    using fr demo_lookup(4) by (simp add: new_attr_def demo_attr_def)
  obtain buf2 where b2: "record_remove_attr_id buf1 SMKFS_ATTRT_EXTENTS 0 = Some buf2" "holds buf2 [demo_attr]" "length buf2 = 60"
    using remove_match_holds [OF H1, of "\<lambda>ah. a_type ah = SMKFS_ATTRT_EXTENTS \<and> a_id ah = 0"] rl l1
    by (auto simp: record_remove_attr_id_def)
  obtain buf3 where b3: "record_add_attr buf2 60 SMKFS_ATTRT_EXTENTS (Some [2]) 1 = Some (OK, buf3)"
    using add b2 by blast
  have "\<forall>a \<in> set [demo_attr]. at_type a = SMKFS_ATTRT_EXTENTS \<longrightarrow> at_id a \<noteq> fresh_id SMKFS_ATTRT_EXTENTS [demo_attr]"
    by (simp add: demo_attr_def)
  from attr_id_reused [OF demo_attrs_holds(1) demo_lookup(2,4) _ _ _ l2 this, of "[1]" "[2]" buf1 buf2 buf3]
  have "\<exists>new. holds buf1 ([demo_attr] @ [new]) \<and> at_data new = [1] \<and> at_id new = 0 \<and> holds buf2 [demo_attr] \<and>
    (\<exists>new'. holds buf3 ([demo_attr] @ [new']) \<and> at_data new' = [2] \<and> at_id new' = at_id new)"
    using b1 b2 b3 fr by simp
  then obtain new new' where "holds buf1 [demo_attr, new]" "at_id new = 0" "holds buf3 [demo_attr, new']" "at_id new' = 0"
    by auto
  then show ?thesis
    using b1 b2 b3 by (intro exI [of _ buf1] exI [of _ buf2] exI [of _ buf3] exI [of _ new] exI [of _ new']) simp
qed

text \<open>
  Iteration visits the attributes of a type in the order of the buffer, passes each one's
  id and data to the callback, stops at the first non-zero result and returns it, and returns
  0 if there is none.
\<close>
theorem attr_iterate_in_order:
  assumes "holds buf as"
  shows "record_iterate_attr buf ty cb ctx = Some (iterate_ref ty cb as ctx)"
  by (rule record_iterate_holds [OF assms])

theorem attr_iterate_in_order_witness:
  "record_iterate_attr demo_attrs SMKFS_ATTRT_DATA (\<lambda>i d n ctx. (5, ctx @ d)) [] = Some (5, replicate 8 7)"
  unfolding attr_iterate_in_order [OF demo_attrs_holds(1)] by (simp add: demo_attr_def)

end
