(* ===== verification/Records.thy ===== *)
theory Records
  imports Logged Attr
begin

text \<open>
  Records, \<^verbatim>\<open>fs/smkfs/record.c\<close> and \<^verbatim>\<open>fs/smkfs/extent.c\<close>: a record is one block, its
  56-byte header followed by its attributes, found through the master record table. \<open>stk\<close> stands
  for what the stack buffers of a function hold before they are filled; a record whose
  attributes end within its length is read independently of it.
\<close>

section \<open>Reading and writing\<close>

text \<open>The length of the header's terminator is counted as well.\<close>

definition attr_buf_total_len :: "bytes \<Rightarrow> nat option" where
  "attr_buf_total_len attr_buf =
     map_option (\<lambda>(total, ptr). total + 12 + unat (a_length (attr_at attr_buf ptr)))
       (attr_walk (\<lambda>off ah total. total + 12 + unat (a_length ah)) attr_buf 0 0)"

text \<open>The result is the record header and the buffer, of which \<open>attr_len\<close> bytes were filled.\<close>

definition record_read :: "mount \<Rightarrow> u64 \<Rightarrow> bytes \<Rightarrow> (status + smk_record \<times> bytes) \<times> mount" where
  "record_read m record_id attr_buf =
     (if \<not> heap_ok m then (Inl ERR_NOMEM, m)
      else bindE (mrt_resolve m record_id) (\<lambda>(phys_block, _, generation) m1.
        bindE (orE (read_block m1 phys_block) ERR_IO) (\<lambda>block m2.
          let rec = dec_smk_record block;
              len = unat (h_length (r_header rec))
          in if header_validate (r_header rec) SMKFS_ST_RECORD \<noteq> OK then (Inl ERR_CORRUPT, m2)
             else if len < 56 then (Inl ERR_CORRUPT, m2)
             else if header_checksum_verify (r_header rec) block len \<noteq> OK then (Inl ERR_CORRUPT, m2)
             else if r_generation rec \<noteq> generation then (Inl ERR_CORRUPT, m2)
             else
               let attr_len = (if len - 56 > length attr_buf then length attr_buf else len - 56)
               in (Inr (rec, patch 0 (slice 56 attr_len block) attr_buf), m2))))"

text \<open>The bounded search for the terminator in \<open>record_write\<close>.\<close>

function attr_extent :: "bytes \<Rightarrow> nat \<Rightarrow> (status + nat) option" where
  "attr_extent buf off =
     (if off + 12 > length buf then None
      else
        let ah = attr_at buf off
        in if a_type ah = SMKFS_ATTRT_END then Some (Inr (off + 12))
           else
             let off1 = off + 12 + unat (a_length ah)
             in if off1 > SMKFS_BLOCK_SIZE - 56 then Some (Inl ERR_TOO_BIG) else attr_extent buf off1)"
  by pat_completeness auto
termination by (relation "measure (\<lambda>(buf, off). length buf - off)") auto

declare attr_extent.simps [simp del]

definition record_image :: "smk_record \<Rightarrow> bytes \<Rightarrow> nat \<Rightarrow> bytes" where
  "record_image rec attr_buf attr_len =
     (let total_len = 56 + attr_len;
          wrec = rec\<lparr> r_header := (r_header rec)\<lparr> h_length := of_nat total_len \<rparr> \<rparr>
      in header_checksum_update
           (patch 56 (take attr_len attr_buf) (patch 0 (enc_smk_record wrec) (replicate SMKFS_BLOCK_SIZE 0)))
           total_len)"

definition record_write :: "mount \<Rightarrow> u64 \<Rightarrow> smk_record \<Rightarrow> bytes \<Rightarrow> (status \<times> mount) option" where
  "record_write m record_id rec attr_buf =
     (case attr_extent attr_buf 0 of
        None \<Rightarrow> None
      | Some (Inl e) \<Rightarrow> Some (e, m)
      | Some (Inr attr_len) \<Rightarrow> Some (
          if 56 + attr_len > SMKFS_BLOCK_SIZE then (ERR_TOO_BIG, m)
          else if \<not> heap_ok m then (ERR_NOMEM, m)
          else bindS (mrt_resolve m record_id) (\<lambda>(phys_block, _, _) m1.
            case read_block m1 phys_block of
              (r, m2) \<Rightarrow>
                let old_block = (case r of Inl _ \<Rightarrow> replicate SMKFS_BLOCK_SIZE 0 | Inr b \<Rightarrow> b);
                    block = record_image rec attr_buf attr_len
                in thenS (journal_log_write m2 phys_block (Some old_block) (Some block) (of_nat (56 + attr_len)))
                     (\<lambda>m3. orS (write_block m3 phys_block block) ERR_IO))))"

text \<open>
  \<open>record_alloc\<close> builds the header on the stack; the fields that it does not set, the
  reserved ones, keep what was there.
\<close>

definition new_record :: "bytes \<Rightarrow> u64 \<Rightarrow> u16 \<Rightarrow> u32 \<Rightarrow> smk_record" where
  "new_record stk logical_id object_type generation =
     (dec_smk_record stk)
       \<lparr> r_header := header_init (r_header (dec_smk_record stk)) SMKFS_ST_RECORD (56 + 12) 0,
         r_record_id := logical_id, r_object_type := object_type, r_attr_count := 0,
         r_link_count := 1, r_generation := generation \<rparr>"

definition record_alloc :: "bytes \<Rightarrow> mount \<Rightarrow> u16 \<Rightarrow> (u64 \<times> mount) option" where
  "record_alloc stk m object_type =
     (case mrt_alloc_entry m of
        (Inl _, m1) \<Rightarrow> Some (0, m1)
      | (Inr (logical_id, generation), m1) \<Rightarrow>
          (case bitmap_alloc m1 of
             (block, m2) \<Rightarrow>
               if block = 0 then Some (0, snd (mrt_free_entry m2 logical_id))
               else (case mrt_update_entry m2 logical_id block SMKFS_MRTF_ALLOCATED of
                 (st, m3) \<Rightarrow>
                   if st \<noteq> OK then Some (0, snd (mrt_free_entry (snd (bitmap_clear m3 block)) logical_id))
                   else Option.bind (record_write m3 logical_id (new_record stk logical_id object_type generation)
                                       (enc_attr_header attr_terminator)) (\<lambda>(st, m4).
                     if st \<noteq> OK then Some (0, snd (mrt_free_entry (snd (bitmap_clear m4 block)) logical_id))
                     else Some (logical_id,
                       m4\<lparr> sb := (sb m4)\<lparr> sb_record_count := sb_record_count (sb m4) + 1 \<rparr> \<rparr>)))))"

section \<open>Extents\<close>

text \<open>The contexts of the callbacks: what \<^verbatim>\<open>found\<close> and its companions hold.\<close>

definition extent_resolve_cb :: "u64 \<Rightarrow> u32 \<Rightarrow> bytes \<Rightarrow> nat \<Rightarrow> extent option \<Rightarrow> int \<times> extent option" where
  "extent_resolve_cb block attr_id data len c =
     (if len \<noteq> 20 then (0, c)
      else
        let ext = dec_extent data
        in if block \<ge> e_logical_offset ext \<and> block < e_logical_offset ext + ucast (e_block_count ext)
           then (1, Some ext) else (0, c))"

definition extent_resolve :: "bytes \<Rightarrow> mount \<Rightarrow> u64 \<Rightarrow> u64 \<Rightarrow> ((status + extent) \<times> mount) option" where
  "extent_resolve stk m record_id logical_block =
     bindX (Some (record_read m record_id (take (SMKFS_BLOCK_SIZE - 56) stk))) (\<lambda>(rec, attr_buf) m1.
       map_option (\<lambda>(_, c). (case c of Some e \<Rightarrow> Inr e | None \<Rightarrow> Inl ERR_NOTFOUND, m1))
         (record_iterate_attr attr_buf SMKFS_ATTRT_EXTENTS (extent_resolve_cb logical_block) None))"

definition extent_merge_cb ::
  "u64 \<Rightarrow> u64 \<Rightarrow> u32 \<Rightarrow> u32 \<Rightarrow> bytes \<Rightarrow> nat \<Rightarrow> (u32 \<times> extent) option \<Rightarrow> int \<times> (u32 \<times> extent) option" where
  "extent_merge_cb logical_block physical_block count attr_id data len c =
     (if len \<noteq> 20 then (0, c)
      else
        let ext = dec_extent data
        in if e_logical_offset ext + ucast (e_block_count ext) = logical_block \<and>
              e_physical_block ext + ucast (e_block_count ext) = physical_block
           then (1, Some (attr_id, \<lparr> e_logical_offset = e_logical_offset ext,
                                     e_physical_block = e_physical_block ext,
                                     e_block_count = e_block_count ext + count \<rparr>))
           else if logical_block + ucast count = e_logical_offset ext \<and>
                   physical_block + ucast count = e_physical_block ext
           then (1, Some (attr_id, \<lparr> e_logical_offset = logical_block,
                                     e_physical_block = physical_block,
                                     e_block_count = count + e_block_count ext \<rparr>))
           else (0, c))"

text \<open>The attributes counted up to the terminator, as a 16-bit number.\<close>

definition count_attrs :: "bytes \<Rightarrow> u16 option" where
  "count_attrs attr_buf = map_option fst (attr_walk (\<lambda>off ah n. n + 1) attr_buf 0 0)"

definition extent_add :: "mount \<Rightarrow> u64 \<Rightarrow> u64 \<Rightarrow> u64 \<Rightarrow> u32 \<Rightarrow> (status \<times> mount) option" where
  "extent_add m record_id logical_block physical_block count =
     bindO (Some (mrt_resolve m record_id)) (\<lambda>(phys_block, _, _) m1.
       bindO (otherX (Some (read_block m1 phys_block)) ERR_IO) (\<lambda>block m2.
         let rec = dec_smk_record block;
             attr_buf = drop 56 block
         in Option.bind (record_iterate_attr attr_buf SMKFS_ATTRT_EXTENTS
                           (extent_merge_cb logical_block physical_block count) None) (\<lambda>(_, c).
            Option.bind
              (case c of
                 Some (matched_id, merged) \<Rightarrow>
                   Option.bind (record_remove_attr_id attr_buf SMKFS_ATTRT_EXTENTS matched_id) (\<lambda>b.
                     record_add_attr b (SMKFS_BLOCK_SIZE - 56) SMKFS_ATTRT_EXTENTS (Some (enc_extent merged)) 20)
               | None \<Rightarrow>
                   record_add_attr attr_buf (SMKFS_BLOCK_SIZE - 56) SMKFS_ATTRT_EXTENTS
                     (Some (enc_extent \<lparr> e_logical_offset = logical_block, e_physical_block = physical_block,
                                         e_block_count = count \<rparr>)) 20)
              (\<lambda>(st, attr_buf1).
                 if st \<noteq> OK then Some (ERR_NOSPC, m2)
                 else Option.bind (count_attrs attr_buf1) (\<lambda>n.
                   record_write m2 record_id (rec\<lparr> r_attr_count := n \<rparr>) attr_buf1)))))"

definition extent_remove_cb :: "u32 \<Rightarrow> bytes \<Rightarrow> nat \<Rightarrow> extent list \<Rightarrow> int \<times> extent list" where
  "extent_remove_cb attr_id data len c =
     (if len \<noteq> 20 then (0, c) else if length c \<ge> 32 then (0, c) else (0, c @ [dec_extent data]))"

definition free_extents :: "extent list \<Rightarrow> mount \<Rightarrow> mount" where
  "free_extents exts m = fold (\<lambda>e m. snd (bitmap_free_range m (e_physical_block e) (e_block_count e))) exts m"

definition extent_remove_all :: "mount \<Rightarrow> u64 \<Rightarrow> mount option" where
  "extent_remove_all m record_id =
     (case mrt_resolve m record_id of
        (Inl _, m1) \<Rightarrow> Some m1
      | (Inr (phys_block, _, _), m1) \<Rightarrow>
          (case read_block m1 phys_block of
             (Inl _, m2) \<Rightarrow> Some m2
           | (Inr block, m2) \<Rightarrow>
               let rec = dec_smk_record block;
                   attr_buf = drop 56 block
               in Option.bind (record_iterate_attr attr_buf SMKFS_ATTRT_EXTENTS extent_remove_cb []) (\<lambda>(_, exts).
                  Option.bind (record_remove_attr attr_buf SMKFS_ATTRT_EXTENTS) (\<lambda>attr_buf1.
                  Option.bind (count_attrs attr_buf1) (\<lambda>n.
                  Option.bind (attr_buf_total_len attr_buf1) (\<lambda>total.
                  map_option snd
                    (record_write (free_extents exts m2) record_id
                       (rec\<lparr> r_attr_count := n,
                             r_header := (r_header rec)\<lparr> h_length := of_nat (56 + total) \<rparr> \<rparr>) attr_buf1)))))))"

section \<open>Freeing a record\<close>

definition record_free :: "mount \<Rightarrow> u64 \<Rightarrow> mount option" where
  "record_free m record_id =
     (case mrt_resolve m record_id of
        (Inl _, m1) \<Rightarrow> Some m1
      | (Inr (phys_block, _, _), m1) \<Rightarrow>
          Option.bind (extent_remove_all m1 record_id) (\<lambda>m2.
          Option.bind
            (case read_block m2 phys_block of
               (Inl _, m3) \<Rightarrow> Some m3
             | (Inr block, m3) \<Rightarrow>
                 let rec = dec_smk_record block;
                     attr_buf = drop 56 block
                 in Option.bind (attr_buf_total_len attr_buf) (\<lambda>total.
                    map_option snd
                      (record_write m3 record_id
                         (rec\<lparr> r_header := (r_header rec)
                                 \<lparr> h_flags := h_flags (r_header rec) OR SMKFS_FLA_DELETED,
                                   h_length := of_nat (56 + total) \<rparr> \<rparr>) attr_buf)))
            (\<lambda>m4.
               let m5 = snd (bitmap_free_range m4 phys_block 1);
                   m6 = snd (mrt_free_entry m5 record_id)
               in Some (if sb_record_count (sb m6) > 0
                        then m6\<lparr> sb := (sb m6)\<lparr> sb_record_count := sb_record_count (sb m6) - 1 \<rparr> \<rparr>
                        else m6))))"

end
