(* ===== verification/RecordSpec.thy ===== *)
theory RecordSpec
  imports Records
begin

text \<open>
  What a record holds: \<open>record_is m rid rec as\<close> says that record \<open>rid\<close> is bound to a data
  block whose content validates, verifies and carries the entry's generation, that \<open>rec\<close> is its
  header and \<open>as\<close> its list of attributes. The operations on records are stated over it.
\<close>

section \<open>The image of a record\<close>

lemma attr_extent_ser:
  assumes "\<forall>a \<in> set as. wf_attr a" "term_at t" "length pre + length (ser as) \<le> 4040"
  shows "attr_extent (pre @ ser as @ t) (length pre) = Some (Inr (length pre + length (ser as) + 12))"
  using assms(1,3)
proof (induction "as" arbitrary: pre)
  case Nil
  then show ?case using assms(2) by (subst attr_extent.simps) (simp add: term_at_def)
next
  case (Cons a "as")
  have w: "wf_attr a" using Cons.prems by simp
  have "attr_extent ((pre @ ser1 a) @ ser as @ t) (length (pre @ ser1 a)) =
      Some (Inr (length (pre @ ser1 a) + length (ser as) + 12))"
    using Cons.prems by (intro Cons.IH) simp_all
  then show ?case
    using w Cons.prems(2) by (subst attr_extent.simps) (simp add: wf_attr_def Let_def add.assoc)
qed

lemma attr_extent_holds:
  assumes "holds buf as" "length (ser as) \<le> 4040"
  shows "attr_extent buf 0 = Some (Inr (length (ser as) + 12))"
  using assms attr_extent_ser [of "as" _ "[]"] by (auto simp: holds_def)

text \<open>The first bytes of a buffer that holds a list, terminator included, hold it too.\<close>

lemma holds_prefix:
  assumes "holds buf as" "length (ser as) + 12 \<le> n"
  shows "holds (take n buf @ ys) as" "length (ser as) + 12 \<le> length buf"
proof -
  obtain t where t: "term_at t" "buf = ser as @ t" "\<forall>a \<in> set as. wf_attr a"
    using assms(1) by (auto simp: holds_def)
  have "term_at (take (n - length (ser as)) t @ ys)"
    using t(1) assms(2) by (auto simp: term_at_def dec_attr_header_def slice_def)
  then show "holds (take n buf @ ys) as" using t assms(2) by (auto simp: holds_def)
  show "length (ser as) + 12 \<le> length buf" using t(1,2) by (simp add: term_at_def)
qed

definition stamped :: "smk_record \<Rightarrow> nat \<Rightarrow> u32 \<Rightarrow> smk_record" where
  "stamped rec n c = rec\<lparr> r_header := (r_header rec)\<lparr> h_length := of_nat n, h_checksum := c \<rparr> \<rparr>"

lemma r_header_dec: "r_header (dec_smk_record bs) = dec_header bs"
  by (simp add: dec_smk_record_def)

lemma record_image_read:
  assumes "wf_smk_record rec" "56 + n \<le> 4096" "n \<le> length buf"
  defines "blk \<equiv> record_image rec buf n"
  shows "length blk = 4096"
    and "\<exists>c. dec_smk_record blk = stamped rec (56 + n) c"
    and "header_checksum_verify (r_header (dec_smk_record blk)) blk (56 + n) = OK"
    and "slice 56 n blk = take n buf"
proof -
  define wrec where "wrec = rec\<lparr> r_header := (r_header rec)\<lparr> h_length := of_nat (56 + n) \<rparr> \<rparr>"
  have wf: "wf_smk_record wrec" using assms(1) by (simp add: wrec_def wf_smk_record_def wf_header_def)
  define b where "b = enc_smk_record wrec @ take n buf @ replicate (4040 - n) 0"
  have lb: "length b = 4096" using wf assms(2,3) by (simp add: b_def)
  have "patch 0 (enc_smk_record wrec) (replicate 4096 0) = enc_smk_record wrec @ replicate 4040 0"
    using wf by (simp add: patch_def)
  moreover have "patch 56 (take n buf) (enc_smk_record wrec @ replicate 4040 0) = b"
    using wf assms(2,3) by (simp add: patch_def b_def)
  ultimately have blk: "blk = header_checksum_update b (56 + n)"
    unfolding blk_def record_image_def Let_def wrec_def [symmetric] by simp
  show "length blk = 4096" using lb by (simp add: blk)
  have d: "dec_smk_record b = wrec" unfolding b_def using wf by simp
  then have hd: "dec_header b = r_header wrec" using r_header_dec [of b] by simp
  define c where "c = checksum_compute (patch 16 (le_bytes 4 (0 :: u32)) b) (56 + n)"
  have hb: "dec_header blk = (r_header wrec)\<lparr> h_checksum := c \<rparr>"
    using dec_header_update [of b "56 + n"] lb hd by (simp add: blk c_def)
  have "dec_smk_record blk = (dec_smk_record b)\<lparr> r_header := dec_header blk \<rparr>"
    using lb by (simp add: dec_smk_record_def blk slice_update_other)
  then have "dec_smk_record blk = stamped rec (56 + n) c"
    unfolding d hb by (simp add: wrec_def stamped_def)
  then show "\<exists>c. dec_smk_record blk = stamped rec (56 + n) c" by blast
  show "header_checksum_verify (r_header (dec_smk_record blk)) blk (56 + n) = OK"
    using header_update_verify [of "56 + n" b] lb assms(2) by (simp add: blk r_header_dec)
  have "slice 56 n blk = slice 56 n b" using lb by (simp add: blk slice_update_other)
  also have "\<dots> = take n buf" using wf assms(3) by (simp add: b_def slice_append2)
  finally show "slice 56 n blk = take n buf" .
qed

section \<open>Records on the volume\<close>

definition record_block :: "bytes \<Rightarrow> u32 \<Rightarrow> smk_record \<Rightarrow> attr list \<Rightarrow> bool" where
  "record_block blk g rec as \<longleftrightarrow> dec_smk_record blk = rec \<and>
     header_validate (r_header rec) SMKFS_ST_RECORD = OK \<and> r_generation rec = g \<and>
     unat (h_length (r_header rec)) = 68 + length (ser as) \<and> length (ser as) \<le> 4028 \<and>
     header_checksum_verify (r_header rec) blk (68 + length (ser as)) = OK \<and> holds (drop 56 blk) as"

definition record_is :: "mount \<Rightarrow> u64 \<Rightarrow> smk_record \<Rightarrow> attr list \<Rightarrow> bool" where
  "record_is m rid rec as \<longleftrightarrow> (\<exists>b g. bound m rid b g \<and> record_block (block_view m b) g rec as)"

lemma record_is_keep:
  assumes "sound m" "upd m n (block_view m) m'" "record_is m rid rec as"
  shows "record_is m' rid rec as"
  using assms(3) bound_keep [OF assms(1,2)] updD(4) [OF assms(2)] boundD(2) [OF assms(1)]
  by (fastforce simp: record_is_def)

lemma record_read_is:
  assumes "sound m" "record_is m rid rec as" "length buf = 4040"
  obtains m1 out where "record_read m rid buf = (Inr (rec, out), m1)" "upd m 0 (block_view m) m1"
    "holds out as" "length out = 4040"
proof -
  obtain b g where b: "bound m rid b g" "record_block (block_view m b) g rec as"
    using assms(2) by (auto simp: record_is_def)
  obtain m1 fl where r1: "mrt_resolve m rid = (Inr (b, fl, g), m1)" and u1: "upd m 0 (block_view m) m1"
    using upd_resolve [OF assms(1) b(1)] by blast
  obtain m2 where r2: "read_block m1 b = (Inr (block_view m1 b), m2)" and u2: "upd m1 0 (block_view m1) m2"
    using upd_read [OF updD(1) [OF u1] boundD(1) [OF assms(1) b(1)]] .
  have v: "block_view m1 b = block_view m b"
    by (rule updD(4) [OF u1 boundD(2) [OF assms(1) b(1)]])
  let ?n = "length (ser as) + 12"
  let ?out = "patch 0 (slice 56 ?n (block_view m b)) buf"
  have h: "holds (drop 56 (block_view m b)) as" and n: "?n \<le> 4040"
    using b(2) by (simp_all add: record_block_def)
  have lv: "length (block_view m b) = 4096" using cache.view_length soundD(4) [OF assms(1)] by simp
  have out: "?out = take ?n (drop 56 (block_view m b)) @ drop ?n buf"
    using n lv assms(3) by (simp add: patch_def slice_def)
  have "record_read m rid buf = (Inr (rec, ?out), m2)"
    using b(2) soundD(3) [OF assms(1)] n assms(3)
    by (auto simp: record_read_def r1 r2 v record_block_def Let_def add.commute)
  moreover have "holds ?out as" unfolding out using holds_prefix(1) [OF h, of ?n] by simp
  moreover have "length ?out = 4040" using n lv assms(3) by simp
  ultimately show thesis using that upd_keep [OF u1 u2] by blast
qed

lemma record_write_is:
  assumes "sound m" "bound m rid b (r_generation rec)" "room m 1" "holds buf as"
    "length (ser as) \<le> 3964" "wf_smk_record rec" "header_validate (r_header rec) SMKFS_ST_RECORD = OK"
  obtains m1 c where "record_write m rid rec buf = Some (OK, m1)"
    "upd m 1 ((block_view m)(b := record_image rec buf (length (ser as) + 12))) m1"
    "bound m1 rid b (r_generation rec)" "record_is m1 rid (stamped rec (68 + length (ser as)) c) as"
proof -
  let ?n = "length (ser as) + 12"
  let ?blk = "record_image rec buf ?n"
  have n: "56 + ?n \<le> 4096" "?n \<le> length buf" using assms(5) holds_prefix(2) [OF assms(4) order_refl] by simp_all
  note I = record_image_read [OF assms(6) n]
  obtain m1 fl where r1: "mrt_resolve m rid = (Inr (b, fl, r_generation rec), m1)" and u1: "upd m 0 (block_view m) m1"
    using upd_resolve [OF assms(1,2)] by blast
  have bo: "blk_ok b" by (rule boundD(1) [OF assms(1,2)])
  obtain m2 where r2: "read_block m1 b = (Inr (block_view m1 b), m2)" and u2: "upd m1 0 (block_view m1) m2"
    using upd_read [OF updD(1) [OF u1] bo] .
  have u12: "upd m 0 (block_view m) m2" by (rule upd_keep [OF u1 u2])
  have "room m2 1" using upd_room [OF u12] assms(3) by simp
  moreover have "unat (of_nat (56 + ?n) :: u64) \<le> 4032"
  proof -
    have "unat (of_nat (56 + ?n) :: u64) = 56 + ?n" using n(1) by (intro unat_of_nat_small) simp
    then show ?thesis using assms(5) by linarith
  qed
  ultimately obtain m3 where w: "logged_write m2 b (Some (block_view m1 b)) ?blk (of_nat (56 + ?n)) = (OK, m3)"
    and u3: "upd m2 1 ((block_view m2)(b := ?blk)) m3"
    using logged_write_ok [OF updD(1) [OF u12] _ I(1) _ bo] by metis
  have u: "upd m 1 ((block_view m)(b := ?blk)) m3" by (rule upd_keep_write [OF u12 u3])
  have rw: "record_write m rid rec buf = Some (OK, m3)"
    using attr_extent_holds [OF assms(4)] assms(5) n soundD(3) [OF assms(1)] w
    by (simp add: record_write_def r1 r2 Let_def logged_write_def del: of_nat_add)
  have bd: "bound m3 rid b (r_generation rec)"
    using bound_write [OF assms(1) u assms(2)] assms(2) by (simp add: bound_def)
  obtain c where c: "dec_smk_record ?blk = stamped rec (56 + ?n) c" using I(2) by blast
  have hl: "unat (h_length (r_header (stamped rec (56 + ?n) c))) = 68 + length (ser as)"
  proof -
    have "unat (of_nat (56 + ?n) :: u32) = 56 + ?n" using n(1) by (intro unat_of_nat_small) simp
    then show ?thesis by (simp add: stamped_def del: of_nat_add)
  qed
  have "drop 56 ?blk = slice 56 ?n ?blk @ drop ?n (drop 56 ?blk)"
    unfolding slice_def by (rule append_take_drop_id [symmetric])
  note D = this [unfolded I(4)]
  have "holds (drop 56 ?blk) as" by (subst D) (rule holds_prefix(1) [OF assms(4) order_refl])
  have v: "block_view m3 b = ?blk"
    using updD(4) [OF u boundD(2) [OF assms(1,2)]] by simp
  have "record_block (block_view m3 b) (r_generation rec) (stamped rec (68 + length (ser as)) c) as"
    unfolding v using c I(3) hl assms(5,7) \<open>holds (drop 56 ?blk) as\<close>
    by (simp add: record_block_def stamped_def header_validate_def add.commute split: if_splits)
  then have "record_is m3 rid (stamped rec (68 + length (ser as)) c) as"
    using bd unfolding record_is_def by blast
  from that [OF rw u bd this] show thesis .
qed

text \<open>A list that fits the block but not a journal entry is refused before anything changes.\<close>

lemma record_write_too_long:
  assumes "sound m" "bound m rid b g" "room m 1" "holds buf as"
    "3964 < length (ser as)" "length (ser as) \<le> 4028" "wf_smk_record rec"
  obtains m1 where "record_write m rid rec buf = Some (ERR_TOO_BIG, m1)" "upd m 0 (block_view m) m1"
proof -
  let ?n = "length (ser as) + 12"
  let ?blk = "record_image rec buf ?n"
  have n: "56 + ?n \<le> 4096" "?n \<le> length buf"
    using assms(6) holds_prefix(2) [OF assms(4) order_refl] by simp_all
  obtain m1 fl where r1: "mrt_resolve m rid = (Inr (b, fl, g), m1)" and u1: "upd m 0 (block_view m) m1"
    using upd_resolve [OF assms(1,2)] by blast
  obtain m2 where r2: "read_block m1 b = (Inr (block_view m1 b), m2)" and u2: "upd m1 0 (block_view m1) m2"
    using upd_read [OF updD(1) [OF u1] boundD(1) [OF assms(1,2)]] .
  have u12: "upd m 0 (block_view m) m2" by (rule upd_keep [OF u1 u2])
  have un: "unat (of_nat (56 + ?n) :: u64) = 56 + ?n" using n(1) by (intro unat_of_nat_small) simp
  have "(of_nat (56 + ?n) :: u64) \<le> 4096" using n(1) un by (simp add: word_le_nat_alt del: of_nat_add)
  note J = journal_log_write_upd [OF updD(1) [OF u12] record_image_read(1) [OF assms(7) n] this,
      where b = b and old = "Some (block_view m1 b)"]
  have rm: "room m2 1" using upd_room [OF u12] assms(3) by simp
  then have f: "fst (journal_log_write m2 b (Some (block_view m1 b)) (Some ?blk) (of_nat (56 + ?n))) = ERR_TOO_BIG"
    unfolding J(1) un using assms(5) room_not_full [OF updD(1) [OF u12] rm] by (simp add: room_def)
  have "record_write m rid rec buf = Some (ERR_TOO_BIG, snd (journal_log_write m2 b (Some (block_view m1 b)) (Some ?blk) (of_nat (56 + ?n))))"
    using attr_extent_holds [OF assms(4)] assms(6) n soundD(3) [OF assms(1)] f
    by (simp add: record_write_def r1 r2 Let_def thenS_def prod_eq_iff split: prod.split del: of_nat_add)
  then show thesis using that upd_keep [OF u12] J(2) f by simp
qed

section \<open>Properties\<close>

text \<open>The demonstration volume with record 1 bound to block 12.\<close>

definition demo_bound :: mount where
  "demo_bound = snd (write_block demo_mount 10 (mrt_put 1
     \<lparr> m_physical_block = 12, m_flags = SMKFS_MRTF_ALLOCATED, m_reserved = 0, m_generation = 7 \<rparr>
     (replicate 4096 0)))"

lemma demo_bound:
  "sound demo_bound" "bound demo_bound 1 12 7" "room demo_bound 5" "upd demo_bound 0 (block_view demo_bound) demo_bound"
proof -
  let ?e = "\<lparr> m_physical_block = 12, m_flags = SMKFS_MRTF_ALLOCATED, m_reserved = 0, m_generation = 7 \<rparr> :: mrt_entry"
  let ?buf = "mrt_put 1 ?e (replicate 4096 0)"
  have l: "length (replicate 4096 (0 :: u8)) = 4096" "length ?buf = 4096" by simp_all
  have st: "sb_mrt_start (sb demo_mount) = 10" "sb_data_start (sb demo_mount) = 11" "sb_total_blocks (sb demo_mount) = 64"
    by (simp_all add: demo_mount_def demo_sb_def)
  have i: "1 < mrt_count demo_mount" using demo_mrt(1) by simp
  have o: "\<forall>k < 256. k \<noteq> 1 mod 256 \<longrightarrow> mrt_get ?buf k =
      mrt_get (block_view demo_mount (sb_mrt_start (sb demo_mount) + of_nat (1 div 256))) k"
    using mrt_get_put [OF l(1), of 1] by (simp add: demo_bitmap(6))
  note W = mrt_write_now [OF demo_sound i l(2) o, simplified st]
  show s: "sound demo_bound" using mrt_nowD(1) [OF W(2)] by (simp add: demo_bound_def)
  have "mrt demo_bound 1 = ?e"
    using mrt_nowD(3) [OF W(2) i] mrt_get_put [OF l(1), of 1 1 ?e] by (simp add: demo_bound_def)
  moreover have "sb demo_bound = sb demo_mount" "journal_in_transaction demo_bound" "mrt_count demo_bound = 256"
    using demo_journal(5) demo_mrt(1) by (simp_all add: demo_bound_def mrt_count_def)
  ultimately show "bound demo_bound 1 12 7" "room demo_bound 5"
    using st demo_journal(4,6) by (simp_all add: bound_def mrt_allocated_def room_def)
  show "upd demo_bound 0 (block_view demo_bound) demo_bound" by (rule upd_refl [OF s])
qed

definition demo_record :: smk_record where
  "demo_record = new_record (replicate 56 0) 1 SMKFS_ROT_FILE 7"

lemma demo_record:
  "wf_smk_record demo_record" "header_validate (r_header demo_record) SMKFS_ST_RECORD = OK"
  "r_generation demo_record = 7" "r_object_type demo_record = SMKFS_ROT_FILE"
proof -
  have "wf_smk_record (dec_smk_record (replicate 56 0))" by simp
  then show "wf_smk_record demo_record"
    by (simp add: demo_record_def new_record_def wf_smk_record_def)
qed (simp_all add: demo_record_def new_record_def)

text \<open>
  C16. What is written into a record is what is read from it. In a transaction with space for
  one journal entry, on a sound volume, \<open>record_write\<close> of a header of the generation that the
  table holds and of a buffer with a list of attributes succeeds; a later \<open>record_read\<close>
  passes every check and returns the header, with the length and checksum that the write
  computed, and a buffer that holds the same attributes. No block but the record's own and the
  journal's changes, and the table binds every record as before.
\<close>
theorem record_write_then_read:
  assumes "sound m" "bound m rid b (r_generation rec)" "room m 1" "holds buf as"
    "length (ser as) \<le> 3964" "wf_smk_record rec" "header_validate (r_header rec) SMKFS_ST_RECORD = OK"
    "length buf2 = 4040"
  shows "\<exists>m1 m2 rec2 buf3. record_write m rid rec buf = Some (OK, m1) \<and>
    record_read m1 rid buf2 = (Inr (rec2, buf3), m2) \<and> sound m1 \<and> sound m2 \<and> holds buf3 as \<and>
    rec2 = rec\<lparr> r_header := (r_header rec)\<lparr> h_length := of_nat (68 + length (ser as)),
                                            h_checksum := h_checksum (r_header rec2) \<rparr> \<rparr> \<and>
    (\<forall>c. durable m c \<and> c \<noteq> b \<longrightarrow> block_view m2 c = block_view m c) \<and>
    (\<forall>r c g. bound m r c g \<longrightarrow> bound m2 r c g)"
proof -
  obtain m1 c where w: "record_write m rid rec buf = Some (OK, m1)"
    and u: "upd m 1 ((block_view m)(b := record_image rec buf (length (ser as) + 12))) m1"
    and r: "record_is m1 rid (stamped rec (68 + length (ser as)) c) as"
    using record_write_is [OF assms(1-7)] by metis
  obtain m2 out where rd: "record_read m1 rid buf2 = (Inr (stamped rec (68 + length (ser as)) c, out), m2)"
    and u2: "upd m1 0 (block_view m1) m2" and h: "holds out as"
    using record_read_is [OF updD(1) [OF u] r assms(8)] by metis
  have u12: "upd m 1 ((block_view m)(b := record_image rec buf (length (ser as) + 12))) m2"
    by (rule upd_write_keep [OF u u2])
  have "bound m2 r' c' g'" if "bound m r' c' g'" for r' c' g'
    using bound_write [OF assms(1) u12 that] assms(2) by (simp add: bound_def)
  then show ?thesis
    using w rd h updD(1) [OF u] updD(1,4) [OF u12] by (auto simp: stamped_def)
qed

theorem record_write_then_read_witness:
  "\<exists>m1 m2 rec2 buf3. record_write demo_bound 1 demo_record demo_attrs = Some (OK, m1) \<and>
    record_read m1 1 (replicate 4040 9) = (Inr (rec2, buf3), m2) \<and> holds buf3 [demo_attr] \<and>
    r_object_type rec2 = SMKFS_ROT_FILE"
proof -
  have l: "length (ser [demo_attr]) \<le> 3964" "length (replicate 4040 (9 :: u8)) = 4040" "room demo_bound 1"
    using room_mono [OF demo_bound(3), of 1] by (simp_all add: demo_attr_def)
  have b: "bound demo_bound 1 12 (r_generation demo_record)" using demo_bound(2) demo_record(3) by simp
  from record_write_then_read [OF demo_bound(1) b l(3) demo_attrs_holds(1) l(1) demo_record(1,2) l(2)]
  obtain m1 m2 rec2 buf3 where "record_write demo_bound 1 demo_record demo_attrs = Some (OK, m1)"
    "record_read m1 1 (replicate 4040 9) = (Inr (rec2, buf3), m2)" "holds buf3 [demo_attr]"
    "rec2 = demo_record\<lparr> r_header := (r_header demo_record)\<lparr> h_length := of_nat (68 + length (ser [demo_attr])),
                                            h_checksum := h_checksum (r_header rec2) \<rparr> \<rparr>"
    by blast
  moreover from this(4) have "r_object_type rec2 = SMKFS_ROT_FILE"
    using demo_record(4) by (metis smk_record.select_convs(3) smk_record.surjective smk_record.update_convs(1))
  ultimately show ?thesis by blast
qed

text \<open>
  The block is larger than what a record can use. A list of attributes that fits the block
  with its header, but not the 4032 bytes of a journal entry, is refused by \<open>record_write\<close> with
  \<open>ERR_TOO_BIG\<close> and nothing changes, although \<open>record_add_attr\<close> fills the buffer up to the
  block's end: 64 bytes of every record can be added to but never stored.
\<close>
theorem record_write_journal_limit:
  assumes "sound m" "bound m rid b g" "room m 1" "holds buf as"
    "3964 < length (ser as)" "length (ser as) \<le> 4028" "wf_smk_record rec"
  shows "\<exists>m1. record_write m rid rec buf = Some (ERR_TOO_BIG, m1) \<and> sound m1 \<and>
    (\<forall>c. durable m c \<longrightarrow> block_view m1 c = block_view m c)"
  using record_write_too_long [OF assms] updD(1,4) by metis

theorem record_write_journal_limit_witness:
  "\<exists>m1. record_write demo_bound 1 demo_record
      (ser [\<lparr> at_type = SMKFS_ATTRT_NAME, at_flags = 0, at_id = 0, at_data = replicate 4000 0 \<rparr>] @
       enc_attr_header attr_terminator) = Some (ERR_TOO_BIG, m1)"
proof -
  let ?a = "\<lparr> at_type = SMKFS_ATTRT_NAME, at_flags = 0, at_id = 0, at_data = replicate 4000 0 \<rparr> :: attr"
  have "term_at (enc_attr_header attr_terminator)"
    using length_enc_attr_header by (simp add: term_at_def) (simp add: attr_terminator_def)
  then have h: "holds (ser [?a] @ enc_attr_header attr_terminator) [?a]"
    unfolding holds_def wf_attr_def by (auto simp del: ser_simps)
  have l: "3964 < length (ser [?a])" "length (ser [?a]) \<le> 4028" "room demo_bound 1"
    using room_mono [OF demo_bound(3), of 1] by simp_all
  show ?thesis
    using record_write_journal_limit [OF demo_bound(1,2) l(3) h l(1,2) demo_record(1)] by blast
qed

end
