(* ===== verification/ExtentSpec.thy ===== *)
theory ExtentSpec
  imports RecordSpec
begin

text \<open>
  Extents as a map from the blocks of a stream to the blocks of the volume. \<open>exts as\<close> are
  the extents in a list of attributes, \<open>emap\<close> is the map that they stand for, and \<open>ext_ok\<close>
  what \<open>extent_add\<close> keeps of them: ids that tell them apart and ranges that do not overlap.
\<close>

section \<open>The map\<close>

definition is_ext :: "attr \<Rightarrow> bool" where
  "is_ext a \<longleftrightarrow> at_type a = SMKFS_ATTRT_EXTENTS \<and> length (at_data a) = 20"

definition ext :: "attr \<Rightarrow> extent" where
  "ext a = dec_extent (at_data a)"

definition exts :: "attr list \<Rightarrow> extent list" where
  "exts as = map ext (filter is_ext as)"

definition covers :: "extent \<Rightarrow> u64 \<Rightarrow> bool" where
  "covers e x \<longleftrightarrow> e_logical_offset e \<le> x \<and> x < e_logical_offset e + ucast (e_block_count e)"

definition ext_at :: "extent \<Rightarrow> u64 \<Rightarrow> u64" where
  "ext_at e x = e_physical_block e + (x - e_logical_offset e)"

definition emap :: "extent list \<Rightarrow> u64 \<rightharpoonup> u64" where
  "emap es x = map_option (\<lambda>e. ext_at e x) (find (\<lambda>e. covers e x) es)"

lemma exts_simps [simp]:
  "exts [] = []" "exts (a # as) = (if is_ext a then ext a # exts as else exts as)"
  "exts (as @ bs) = exts as @ exts bs"
  by (simp_all add: exts_def)

lemma iterate_resolve:
  "iterate_ref SMKFS_ATTRT_EXTENTS (extent_resolve_cb x) as None =
     (case find (\<lambda>e. covers e x) (exts as) of None \<Rightarrow> (0, None) | Some e \<Rightarrow> (1, Some e))"
  by (induction "as") (auto simp: extent_resolve_cb_def is_ext_def ext_def covers_def Let_def)

lemma extent_resolve_is:
  assumes "sound m" "record_is m rid rec as" "4040 \<le> length stk"
  obtains m1 where "extent_resolve stk m rid x =
      Some (case find (\<lambda>e. covers e x) (exts as) of None \<Rightarrow> Inl ERR_NOTFOUND | Some e \<Rightarrow> Inr e, m1)"
    "upd m 0 (block_view m) m1"
proof -
  have l: "length (take 4040 stk) = 4040" using assms(3) by simp
  obtain m1 out where r: "record_read m rid (take 4040 stk) = (Inr (rec, out), m1)"
    and u: "upd m 0 (block_view m) m1" and h: "holds out as"
    using record_read_is [OF assms(1,2) l] by blast
  have "extent_resolve stk m rid x =
      Some (case find (\<lambda>e. covers e x) (exts as) of None \<Rightarrow> Inl ERR_NOTFOUND | Some e \<Rightarrow> Inr e, m1)"
    by (simp add: extent_resolve_def r record_iterate_holds [OF h] iterate_resolve split: option.split)
  from that [OF this u] show thesis .
qed

section \<open>Well-formed extents\<close>

definition ext_wf :: "extent \<Rightarrow> bool" where
  "ext_wf e \<longleftrightarrow> unat (e_logical_offset e) + unat (e_block_count e) < 2 ^ 32"

definition ext_ok :: "attr list \<Rightarrow> bool" where
  "ext_ok as \<longleftrightarrow> (\<forall>a \<in> set as. at_type a = SMKFS_ATTRT_EXTENTS \<longrightarrow> is_ext a) \<and>
     distinct (map at_id (filter is_ext as)) \<and>
     (\<forall>a \<in> set as. is_ext a \<longrightarrow> ext_wf (ext a)) \<and>
     (\<forall>a \<in> set as. \<forall>b \<in> set as. is_ext a \<and> is_ext b \<and> at_id a \<noteq> at_id b \<longrightarrow>
        (\<forall>x. \<not> (covers (ext a) x \<and> covers (ext b) x)))"

lemma covers_unat:
  "ext_wf e \<Longrightarrow> covers e x \<longleftrightarrow> unat (e_logical_offset e) \<le> unat x \<and>
     unat x < unat (e_logical_offset e) + unat (e_block_count e)"
  by (simp add: covers_def ext_wf_def word_le_nat_alt word_less_nat_alt unat_add_small unat_ucast_up)

lemma distinct_ids:
  "distinct (map at_id (filter P as)) \<Longrightarrow> a \<in> set as \<Longrightarrow> b \<in> set as \<Longrightarrow> P a \<Longrightarrow> P b \<Longrightarrow>
   at_id a = at_id b \<Longrightarrow> a = b"
  by (auto simp: distinct_map dest: inj_onD)

text \<open>With disjoint ranges the map does not depend on the order of the extents.\<close>

lemma emap_set:
  assumes "ext_ok as"
  shows "emap (exts as) x = Some p \<longleftrightarrow> (\<exists>a \<in> set as. is_ext a \<and> covers (ext a) x \<and> p = ext_at (ext a) x)"
proof
  assume "emap (exts as) x = Some p"
  then obtain e where "find (\<lambda>e. covers e x) (exts as) = Some e" "p = ext_at e x" by (auto simp: emap_def)
  then have "e \<in> set (exts as)" "covers e x" "p = ext_at e x" by (auto simp: find_Some_iff)
  then show "\<exists>a \<in> set as. is_ext a \<and> covers (ext a) x \<and> p = ext_at (ext a) x" by (auto simp: exts_def)
next
  assume "\<exists>a \<in> set as. is_ext a \<and> covers (ext a) x \<and> p = ext_at (ext a) x"
  then obtain a where a: "a \<in> set as" "is_ext a" "covers (ext a) x" "p = ext_at (ext a) x" by blast
  then have "find (\<lambda>e. covers e x) (exts as) \<noteq> None" by (auto simp: find_None_iff exts_def)
  then obtain e where e: "find (\<lambda>e. covers e x) (exts as) = Some e" by blast
  then have "e \<in> set (exts as)" "covers e x" by (auto simp: find_Some_iff)
  then obtain b where b: "b \<in> set as" "is_ext b" "e = ext b" "covers (ext b) x" by (auto simp: exts_def)
  have "at_id a = at_id b" using assms a b unfolding ext_ok_def by blast
  then have "a = b" using assms a b distinct_ids unfolding ext_ok_def by blast
  then show "emap (exts as) x = Some p" using e a b by (simp add: emap_def)
qed

lemma emap_none: "emap (exts as) x = None \<longleftrightarrow> (\<forall>a \<in> set as. is_ext a \<longrightarrow> \<not> covers (ext a) x)"
  by (auto simp: emap_def find_None_iff exts_def)

section \<open>Adding\<close>

definition merged :: "u64 \<Rightarrow> u64 \<Rightarrow> u32 \<Rightarrow> extent \<Rightarrow> extent option" where
  "merged lb pb n e =
     (if e_logical_offset e + ucast (e_block_count e) = lb \<and> e_physical_block e + ucast (e_block_count e) = pb
      then Some (e\<lparr> e_block_count := e_block_count e + n \<rparr>)
      else if lb + ucast n = e_logical_offset e \<and> pb + ucast n = e_physical_block e
      then Some \<lparr> e_logical_offset = lb, e_physical_block = pb, e_block_count = n + e_block_count e \<rparr>
      else None)"

lemma iterate_merge:
  "iterate_ref SMKFS_ATTRT_EXTENTS (extent_merge_cb lb pb n) as None =
     (case find (\<lambda>a. is_ext a \<and> merged lb pb n (ext a) \<noteq> None) as of
        None \<Rightarrow> (0, None) | Some a \<Rightarrow> (1, Some (at_id a, the (merged lb pb n (ext a)))))"
  by (induction "as") (auto simp: extent_merge_cb_def merged_def is_ext_def ext_def Let_def)

lemma merged_covers:
  assumes "merged lb pb n e = Some e'" "ext_wf e" "unat lb + unat n < 2 ^ 32"
  shows "ext_wf e'" "covers e' x \<longleftrightarrow> covers e x \<or> (unat lb \<le> unat x \<and> unat x < unat lb + unat n)"
    "covers e x \<Longrightarrow> ext_at e' x = ext_at e x"
    "unat lb \<le> unat x \<Longrightarrow> unat x < unat lb + unat n \<Longrightarrow> ext_at e' x = pb + (x - lb)"
proof -
  have we: "unat (e_logical_offset e) + unat (e_block_count e) < 2 ^ 32" using assms(2) by (simp add: ext_wf_def)
  have E: "unat (e_logical_offset e + ucast (e_block_count e)) = unat (e_logical_offset e) + unat (e_block_count e)"
    using we by (subst unat_add_small) (simp_all add: unat_ucast_up)
  have L: "unat (lb + ucast n) = unat lb + unat n"
    using assms(3) by (subst unat_add_small) (simp_all add: unat_ucast_up)
  consider (fwd) "unat lb = unat (e_logical_offset e) + unat (e_block_count e)"
      "pb = e_physical_block e + ucast (e_block_count e)" "lb = e_logical_offset e + ucast (e_block_count e)"
      "e' = e\<lparr> e_block_count := e_block_count e + n \<rparr>"
    | (bwd) "unat (e_logical_offset e) = unat lb + unat n" "e_logical_offset e = lb + ucast n"
      "e_physical_block e = pb + ucast n"
      "e' = \<lparr> e_logical_offset = lb, e_physical_block = pb, e_block_count = n + e_block_count e \<rparr>"
    using assms(1) E L by (auto simp: merged_def split: if_splits)
  then have "ext_wf e' \<and> (covers e' x \<longleftrightarrow> covers e x \<or> (unat lb \<le> unat x \<and> unat x < unat lb + unat n)) \<and>
    ext_at e' x = ext_at e x \<and> ext_at e' x = pb + (x - lb)"
  proof cases
    case fwd
    have "unat (e_block_count e + n) = unat (e_block_count e) + unat n"
      using fwd(1) assms(3) we by (intro unat_add_small) simp
    then have w: "ext_wf e'" using fwd assms(3) by (simp add: ext_wf_def)
    show ?thesis
      using w assms(2) fwd \<open>unat (e_block_count e + n) = _\<close>
      by (auto simp: covers_unat ext_at_def)
  next
    case bwd
    have "unat (n + e_block_count e) = unat n + unat (e_block_count e)"
      using bwd(1) assms(3) we by (intro unat_add_small) simp
    then have w: "ext_wf e'" using bwd we by (simp add: ext_wf_def)
    show ?thesis
      using w assms(2) bwd \<open>unat (n + e_block_count e) = _\<close>
      by (auto simp: covers_unat ext_at_def)
  qed
  then show "ext_wf e'" "covers e' x \<longleftrightarrow> covers e x \<or> (unat lb \<le> unat x \<and> unat x < unat lb + unat n)"
    "covers e x \<Longrightarrow> ext_at e' x = ext_at e x"
    "unat lb \<le> unat x \<Longrightarrow> unat x < unat lb + unat n \<Longrightarrow> ext_at e' x = pb + (x - lb)"
    by blast+
qed

text \<open>The lists that \<open>extent_add\<close> makes of a well-formed one.\<close>

lemma ext_ok_remove:
  assumes "ext_ok (ys @ a # zs)" "is_ext a"
  shows "ext_ok (ys @ zs)" "b \<in> set (ys @ zs) \<Longrightarrow> is_ext b \<Longrightarrow> at_id b \<noteq> at_id a"
proof -
  have d: "distinct (map at_id (filter is_ext (ys @ a # zs)))" using assms(1) by (simp add: ext_ok_def)
  then have "distinct (map at_id (filter is_ext (ys @ zs)))" using assms(2) by auto
  moreover have "set (ys @ zs) \<subseteq> set (ys @ a # zs)" by auto
  ultimately show "ext_ok (ys @ zs)" using assms(1) unfolding ext_ok_def by (meson subsetD)
  show "b \<in> set (ys @ zs) \<Longrightarrow> is_ext b \<Longrightarrow> at_id b \<noteq> at_id a"
    using d assms(2) by (auto simp: image_iff)
qed

lemma ext_ok_add:
  assumes "ext_ok as" "is_ext a" "ext_wf (ext a)" "\<And>b. b \<in> set as \<Longrightarrow> is_ext b \<Longrightarrow> at_id b \<noteq> at_id a"
    and "\<And>b x. b \<in> set as \<Longrightarrow> is_ext b \<Longrightarrow> covers (ext b) x \<Longrightarrow> \<not> covers (ext a) x"
  shows "ext_ok (as @ [a])"
proof -
  have "at_id a \<notin> at_id ` {b \<in> set as. is_ext b}" using assms(4) by fastforce
  then have "distinct (map at_id (filter is_ext (as @ [a])))" using assms(1) by (simp add: ext_ok_def)
  moreover have "\<forall>b \<in> set (as @ [a]). at_type b = SMKFS_ATTRT_EXTENTS \<longrightarrow> is_ext b"
    "\<forall>b \<in> set (as @ [a]). is_ext b \<longrightarrow> ext_wf (ext b)"
    using assms(1-3) by (auto simp: ext_ok_def)
  moreover have "\<not> (covers (ext b) x \<and> covers (ext c) x)"
    if "b \<in> set (as @ [a])" "c \<in> set (as @ [a])" "is_ext b" "is_ext c" "at_id b \<noteq> at_id c" for b c x
  proof (cases "b = a \<or> c = a")
    case True
    then show ?thesis using that assms(5) by auto
  next
    case False
    then show ?thesis using that assms(1) by (simp add: ext_ok_def)
  qed
  ultimately show ?thesis unfolding ext_ok_def by blast
qed

lemma foldl_max_ids:
  "foldl (\<lambda>m b. max m (at_id b)) k as \<in> insert k (at_id ` set as)"
  "k \<le> foldl (\<lambda>m b. max m (at_id b)) k as" "b \<in> set as \<Longrightarrow> at_id b \<le> foldl (\<lambda>m b. max m (at_id b)) k as"
proof (induction "as" arbitrary: k)
  case (Cons a "as")
  { case 1 show ?case using Cons.IH(1) [of "max k (at_id a)"] by (auto simp: max_def split: if_splits) }
  { case 2 show ?case using Cons.IH(2) [of "max k (at_id a)"] by simp }
  { case 3 then show ?case using Cons.IH(2,3) [of "max k (at_id a)"] by auto }
qed auto

lemma fresh_id_fresh:
  assumes "\<forall>a \<in> set as. at_type a = ty \<longrightarrow> at_id a \<noteq> - 1" "b \<in> set as" "at_type b = ty"
  shows "at_id b \<noteq> fresh_id ty as"
proof -
  obtain c cs where f: "filter (\<lambda>a. at_type a = ty) as = c # cs"
    using assms(2,3) by (cases "filter (\<lambda>a. at_type a = ty) as") (auto simp: filter_empty_conv)
  then have s: "insert c (set cs) = {a \<in> set as. at_type a = ty}" by (metis list.set(2) set_filter)
  let ?k = "foldl (\<lambda>m b. max m (at_id b)) (at_id c) cs"
  have "?k \<in> insert (at_id c) (at_id ` set cs)" by (rule foldl_max_ids)
  then have "?k \<noteq> - 1" using assms(1) s by auto
  then have "unat ?k \<noteq> 2 ^ 32 - 1"
    using word_unat_eq_iff [of ?k "- 1"] by (simp add: unsigned_minus_1_eq_mask mask_eq_exp_minus_1)
  then have "unat ?k + 1 < 2 ^ 32" using unat_lt32 [of ?k] by linarith
  then have "unat (?k + 1) = unat ?k + 1" by (subst unat_add_small) simp_all
  then have "?k < ?k + 1" by (simp add: word_less_nat_alt)
  moreover have "b \<in> insert c (set cs)" using s assms(2,3) by auto
  then have "at_id b \<le> ?k" using foldl_max_ids(2,3) by auto
  moreover have "fresh_id ty as = ?k + 1" by (simp add: fresh_id_def f)
  ultimately show ?thesis by auto
qed

lemma length_ser_remove: "length (ser (remove_last P as)) \<le> length (ser as)"
  by (induction "as") auto

text \<open>A list with one extent replaced or added, by \<open>extent_add\<close>.\<close>

definition put_ext :: "extent \<Rightarrow> attr list \<Rightarrow> attr list" where
  "put_ext e as = as @ [new_attr SMKFS_ATTRT_EXTENTS as (enc_extent e)]"

definition ext_added :: "u64 \<Rightarrow> u64 \<Rightarrow> u32 \<Rightarrow> attr list \<Rightarrow> attr list" where
  "ext_added lb pb n as =
     (case find (\<lambda>a. is_ext a \<and> merged lb pb n (ext a) \<noteq> None) as of
        None \<Rightarrow> put_ext \<lparr> e_logical_offset = lb, e_physical_block = pb, e_block_count = n \<rparr> as
      | Some a \<Rightarrow> put_ext (the (merged lb pb n (ext a)))
          (remove_last (\<lambda>b. at_type b = SMKFS_ATTRT_EXTENTS \<and> at_id b = at_id a) as))"

lemma put_ext_new:
  "is_ext (new_attr SMKFS_ATTRT_EXTENTS as (enc_extent e))" "ext (new_attr SMKFS_ATTRT_EXTENTS as (enc_extent e)) = e"
  "at_id (new_attr SMKFS_ATTRT_EXTENTS as (enc_extent e)) = fresh_id SMKFS_ATTRT_EXTENTS as"
  "length (ser1 (new_attr SMKFS_ATTRT_EXTENTS as (enc_extent e))) = 32"
  using demo_lookup(4) by (simp_all add: is_ext_def new_attr_def ext_def)

text \<open>The list is well-formed again, and its map has the new range.\<close>

definition in_range :: "u64 \<Rightarrow> u32 \<Rightarrow> u64 \<Rightarrow> bool" where
  "in_range lb n x \<longleftrightarrow> unat lb \<le> unat x \<and> unat x < unat lb + unat n"

lemma put_ext_map:
  assumes "ext_ok as" "\<forall>a \<in> set as. at_type a = SMKFS_ATTRT_EXTENTS \<longrightarrow> at_id a \<noteq> - 1" "ext_wf e"
    and "\<forall>b \<in> set as. is_ext b \<longrightarrow> (\<forall>x. covers (ext b) x \<longrightarrow> \<not> covers e x)"
  shows "ext_ok (put_ext e as)"
    and "emap (exts (put_ext e as)) x = (if covers e x then Some (ext_at e x) else emap (exts as) x)"
proof -
  let ?a = "new_attr SMKFS_ATTRT_EXTENTS as (enc_extent e)"
  have f: "at_id b \<noteq> at_id ?a" if "b \<in> set as" "is_ext b" for b
    using fresh_id_fresh [OF assms(2) that(1)] that(2) by (simp add: put_ext_new is_ext_def)
  show ok: "ext_ok (put_ext e as)"
    unfolding put_ext_def
    by (rule ext_ok_add [OF assms(1)]) (use f assms(3,4) in \<open>simp_all add: put_ext_new\<close>)
  have "emap (exts (put_ext e as)) x = Some p \<longleftrightarrow>
      (if covers e x then Some (ext_at e x) else emap (exts as) x) = Some p" for p
    unfolding emap_set [OF ok] using emap_set [OF assms(1), of x p] assms(4)
    by (auto simp: put_ext_def put_ext_new)
  then show "emap (exts (put_ext e as)) x = (if covers e x then Some (ext_at e x) else emap (exts as) x)"
    by (metis option.exhaust)
qed

lemma ext_added_map:
  assumes ok: "ext_ok as" and id: "\<forall>a \<in> set as. at_type a = SMKFS_ATTRT_EXTENTS \<longrightarrow> at_id a \<noteq> - 1"
    and fit: "unat lb + unat n < 2 ^ 32" and free: "\<And>x. in_range lb n x \<Longrightarrow> emap (exts as) x = None"
  shows "ext_ok (ext_added lb pb n as)"
    and "emap (exts (ext_added lb pb n as)) x = (if in_range lb n x then Some (pb + (x - lb)) else emap (exts as) x)"
    and "length (ser (ext_added lb pb n as)) \<le> length (ser as) + 32"
proof -
  let ?P = "\<lambda>a. is_ext a \<and> merged lb pb n (ext a) \<noteq> None"
  have nc: "\<not> covers (ext b) x" if "b \<in> set as" "is_ext b" "in_range lb n x" for b x
    using free [OF that(3)] that(1,2) unfolding emap_none by blast
  have "ext_ok (ext_added lb pb n as) \<and>
    emap (exts (ext_added lb pb n as)) x = (if in_range lb n x then Some (pb + (x - lb)) else emap (exts as) x) \<and>
    length (ser (ext_added lb pb n as)) \<le> length (ser as) + 32"
  proof (cases "find ?P as")
    case None
    let ?e = "\<lparr> e_logical_offset = lb, e_physical_block = pb, e_block_count = n \<rparr>"
    have w: "ext_wf ?e" using fit by (simp add: ext_wf_def)
    have c: "covers ?e x \<longleftrightarrow> in_range lb n x" for x using covers_unat [OF w, of x] by (simp add: in_range_def)
    have "\<forall>b \<in> set as. is_ext b \<longrightarrow> (\<forall>x. covers (ext b) x \<longrightarrow> \<not> covers ?e x)" using nc c by blast
    note P = put_ext_map [OF ok id w this]
    show ?thesis
      using P(1) P(2) [where x = x] None c by (simp add: ext_added_def ext_at_def) (simp add: put_ext_def put_ext_new del: length_ser1)
  next
    case (Some a)
    then have a: "a \<in> set as" "is_ext a" and "merged lb pb n (ext a) \<noteq> None" by (auto simp: find_Some_iff)
    then obtain e where e: "merged lb pb n (ext a) = Some e" by blast
    let ?Q = "\<lambda>b. at_type b = SMKFS_ATTRT_EXTENTS \<and> at_id b = at_id a"
    have "list_ex ?Q as" using a by (auto simp: list_ex_iff is_ext_def)
    then obtain ys b zs where s: "as = ys @ b # zs" "?Q b" "remove_last ?Q as = ys @ zs"
      using remove_last_split by blast
    have "is_ext b" using s(1,2) ok by (auto simp: ext_ok_def)
    moreover from this have "b = a"
      using distinct_ids [of is_ext as b a] ok a s(1,2) by (simp add: ext_ok_def)
    ultimately have sa: "as = ys @ a # zs" using s(1) by simp
    let ?as = "ys @ zs"
    have ok1: "ext_ok ?as" and ida: "\<And>b. b \<in> set ?as \<Longrightarrow> is_ext b \<Longrightarrow> at_id b \<noteq> at_id a"
      using ext_ok_remove [OF ok [unfolded sa] a(2)] by blast+
    have id1: "\<forall>a \<in> set ?as. at_type a = SMKFS_ATTRT_EXTENTS \<longrightarrow> at_id a \<noteq> - 1" using id sa by auto
    have wa: "ext_wf (ext a)" using ok a by (simp add: ext_ok_def)
    note M = merged_covers [OF e wa fit]
    have dis: "\<not> covers (ext b) y" if "b \<in> set ?as" "is_ext b" "covers (ext a) y" for b y
    proof -
      have "b \<in> set as" using that(1) sa by auto
      then show ?thesis using ok a that ida [OF that(1,2)] unfolding ext_ok_def by blast
    qed
    have "\<not> covers e y" if b: "b \<in> set ?as" "is_ext b" "covers (ext b) y" for b y
    proof -
      have "b \<in> set as" using b(1) sa by auto
      then show ?thesis using M(2) [of y] dis [OF b(1,2)] nc [of b y] b by (auto simp: in_range_def)
    qed
    then have "\<forall>b \<in> set ?as. is_ext b \<longrightarrow> (\<forall>y. covers (ext b) y \<longrightarrow> \<not> covers e y)" by blast
    note P = put_ext_map [OF ok1 id1 M(1) this]
    have "emap (exts as) y = (if covers (ext a) y then Some (ext_at (ext a) y) else emap (exts ?as) y)" for y
    proof -
      have "emap (exts as) y = Some p \<longleftrightarrow>
          (if covers (ext a) y then Some (ext_at (ext a) y) else emap (exts ?as) y) = Some p" for p
        unfolding emap_set [OF ok] using emap_set [OF ok1, of y p] dis [of _ y] a(2) by (auto simp: sa)
      then show ?thesis by (metis option.exhaust)
    qed
    then have "emap (exts (put_ext e ?as)) x = (if in_range lb n x then Some (pb + (x - lb)) else emap (exts as) x)"
      using P(2) [where x = x] M(2) [of x] M(3) [of x] M(4) [of x] by (auto simp: in_range_def)
    moreover have "ext_added lb pb n as = put_ext e ?as"
      using Some e s(3) by (simp add: ext_added_def)
    moreover have "length (ser (put_ext e ?as)) \<le> length (ser as) + 32"
      unfolding put_ext_def by (simp add: put_ext_new sa del: length_ser1)
    ultimately show ?thesis using P(1) by simp
  qed
  then show "ext_ok (ext_added lb pb n as)"
    "emap (exts (ext_added lb pb n as)) x = (if in_range lb n x then Some (pb + (x - lb)) else emap (exts as) x)"
    "length (ser (ext_added lb pb n as)) \<le> length (ser as) + 32"
    by blast+
qed

section \<open>On the volume\<close>

lemma count_attrs_holds: "holds buf as \<Longrightarrow> count_attrs buf = Some (of_nat (length as))"
proof -
  assume h: "holds buf as"
  have "walk_ref (\<lambda>off ah n. n + 1) off as k = k + of_nat (length as)" for off and k :: u16
    by (induction "as" arbitrary: off k) (simp_all add: add.assoc add.commute)
  then show ?thesis by (simp add: count_attrs_def holds_walk [OF h])
qed

lemma kept_ext [simp]: "kept SMKFS_ATTRT_EXTENTS as = as"
  using demo_lookup(4) by (simp add: kept_def)

lemma add_ext_holds:
  assumes "holds buf as" "length (ser as) + 56 \<le> n" "n \<le> length buf"
  obtains buf' where "record_add_attr buf n SMKFS_ATTRT_EXTENTS (Some (enc_extent e)) 20 = Some (OK, buf')"
    "holds buf' (put_ext e as)" "length buf' = length buf"
proof -
  have "length (enc_extent e) < 2 ^ 32" by simp
  from record_add_attr_holds [OF assms(1) demo_lookup(2) _ this assms(3)] assms(2)
  show thesis using that by (auto simp: put_ext_def split: if_splits)
qed

lemma record_is_data:
  assumes "sound m" "record_is m rid rec as"
  obtains b where "bound m rid b (r_generation rec)" "dec_smk_record (block_view m b) = rec"
    "holds (drop 56 (block_view m b)) as" "length (drop 56 (block_view m b)) = 4040" "wf_smk_record rec"
    "header_validate (r_header rec) SMKFS_ST_RECORD = OK" "durable m b" "blk_ok b"
    "sb_data_start (sb m) \<le> b" "b < sb_total_blocks (sb m)"
proof -
  obtain b g where b: "bound m rid b g" "record_block (block_view m b) g rec as"
    using assms(2) by (auto simp: record_is_def)
  have l: "length (block_view m b) = 4096" using cache.view_length soundD(4) [OF assms(1)] by simp
  have d: "dec_smk_record (block_view m b) = rec" "r_generation rec = g"
    using b(2) by (simp_all add: record_block_def)
  have "wf_smk_record rec" using wf_dec_smk_record [of "block_view m b"] l d(1) by simp
  then show thesis
    using that [of b] b l d boundD [OF assms(1) b(1)] by (simp add: record_block_def bound_def)
qed

lemma extent_add_is:
  assumes "sound m" "record_is m rid rec as" "room m 1" "ext_ok as"
    "\<forall>a \<in> set as. at_type a = SMKFS_ATTRT_EXTENTS \<longrightarrow> at_id a \<noteq> - 1" "length (ser as) \<le> 3932"
    "unat lb + unat n < 2 ^ 32" "\<And>x. in_range lb n x \<Longrightarrow> emap (exts as) x = None"
  obtains m1 rec' b img where "extent_add m rid lb pb n = Some (OK, m1)"
    "record_is m1 rid rec' (ext_added lb pb n as)" "r_object_type rec' = r_object_type rec"
    "upd m 1 ((block_view m)(b := img)) m1" "bound m rid b (r_generation rec)" "r_generation rec' = r_generation rec"
proof -
  obtain b where b: "bound m rid b (r_generation rec)" "dec_smk_record (block_view m b) = rec"
    "holds (drop 56 (block_view m b)) as" "length (drop 56 (block_view m b)) = 4040" "wf_smk_record rec"
    "header_validate (r_header rec) SMKFS_ST_RECORD = OK" "blk_ok b"
    using record_is_data [OF assms(1,2)] by metis
  obtain m1 fl where r1: "mrt_resolve m rid = (Inr (b, fl, r_generation rec), m1)" and u1: "upd m 0 (block_view m) m1"
    using upd_resolve [OF assms(1) b(1)] by blast
  obtain m2 where r2: "read_block m1 b = (Inr (block_view m1 b), m2)" and u2: "upd m1 0 (block_view m1) m2"
    using upd_read [OF updD(1) [OF u1] b(7)] .
  have v: "block_view m1 b = block_view m b"
    by (rule updD(4) [OF u1 boundD(2) [OF assms(1) b(1)]])
  have u12: "upd m 0 (block_view m) m2" by (rule upd_keep [OF u1 u2])
  let ?buf = "drop 56 (block_view m b)" and ?as = "ext_added lb pb n as"
  let ?P = "\<lambda>a. is_ext a \<and> merged lb pb n (ext a) \<noteq> None"
  note A = ext_added_map [OF assms(4,5,7,8)]
  have len: "length (ser ?as) \<le> 3964" using A(3) [where pb = pb] assms(6) by simp
  obtain buf' where add: "(case snd (case find ?P as of None \<Rightarrow> (0 :: int, None) | Some a \<Rightarrow> (1, Some (at_id a, the (merged lb pb n (ext a)))))
      of Some (i, e) \<Rightarrow> Option.bind (record_remove_attr_id ?buf SMKFS_ATTRT_EXTENTS i) (\<lambda>b.
             record_add_attr b 4040 SMKFS_ATTRT_EXTENTS (Some (enc_extent e)) 20)
       | None \<Rightarrow> record_add_attr ?buf 4040 SMKFS_ATTRT_EXTENTS
             (Some (enc_extent \<lparr> e_logical_offset = lb, e_physical_block = pb, e_block_count = n \<rparr>)) 20) = Some (OK, buf')"
    "holds buf' ?as"
  proof (cases "find ?P as")
    case None
    have l: "length (ser as) + 56 \<le> 4040" "4040 \<le> length ?buf" using assms(6) b(4) by simp_all
    obtain buf' where "record_add_attr ?buf 4040 SMKFS_ATTRT_EXTENTS
        (Some (enc_extent \<lparr> e_logical_offset = lb, e_physical_block = pb, e_block_count = n \<rparr>)) 20 = Some (OK, buf')"
      "holds buf' (put_ext \<lparr> e_logical_offset = lb, e_physical_block = pb, e_block_count = n \<rparr> as)"
      using add_ext_holds [OF b(3) l] by blast
    then show ?thesis using that None by (simp add: ext_added_def)
  next
    case (Some a)
    let ?as1 = "remove_last (\<lambda>b. at_type b = SMKFS_ATTRT_EXTENTS \<and> at_id b = at_id a) as"
    obtain b1 where b1: "record_remove_attr_id ?buf SMKFS_ATTRT_EXTENTS (at_id a) = Some b1" "holds b1 ?as1" "length b1 = 4040"
      using remove_match_holds [OF b(3), of "\<lambda>ah. a_type ah = SMKFS_ATTRT_EXTENTS \<and> a_id ah = at_id a"] b(4)
      by (auto simp: record_remove_attr_id_def)
    have "length (ser ?as1) \<le> length (ser as)"
      by (rule length_ser_remove)
    then have l: "length (ser ?as1) + 56 \<le> 4040" "4040 \<le> length b1" using assms(6) b1(3) by simp_all
    obtain buf' where "record_add_attr b1 4040 SMKFS_ATTRT_EXTENTS
        (Some (enc_extent (the (merged lb pb n (ext a))))) 20 = Some (OK, buf')"
      "holds buf' (put_ext (the (merged lb pb n (ext a))) ?as1)"
      using add_ext_holds [OF b1(2) l] by blast
    then show ?thesis using that Some b1(1) by (simp add: ext_added_def)
  qed
  have bd2: "bound m2 rid b (r_generation (rec\<lparr> r_attr_count := of_nat (length ?as) \<rparr>))"
    using bound_keep [OF assms(1) u12 b(1)] by simp
  have rm2: "room m2 1" using upd_room [OF u12] assms(3) by simp
  have wf: "wf_smk_record (rec\<lparr> r_attr_count := of_nat (length ?as) \<rparr>)"
    "header_validate (r_header (rec\<lparr> r_attr_count := of_nat (length ?as) \<rparr>)) SMKFS_ST_RECORD = OK"
    using b(5,6) by (simp_all add: wf_smk_record_def)
  obtain m3 c where w: "record_write m2 rid (rec\<lparr> r_attr_count := of_nat (length ?as) \<rparr>) buf' = Some (OK, m3)"
    and u3: "upd m2 1 ((block_view m2)(b := record_image (rec\<lparr> r_attr_count := of_nat (length ?as) \<rparr>) buf' (length (ser ?as) + 12))) m3"
    and ri: "record_is m3 rid (stamped (rec\<lparr> r_attr_count := of_nat (length ?as) \<rparr>) (68 + length (ser ?as)) c) ?as"
    using record_write_is [OF updD(1) [OF u12] bd2 rm2 add(2) len wf] by metis
  have "extent_add m rid lb pb n = Some (OK, m3)"
  proof (cases "find ?P as")
    case None
    then show ?thesis
      using add(1) w by (simp add: extent_add_def r1 r2 v b(2) record_iterate_holds [OF b(3)] iterate_merge
        count_attrs_holds [OF add(2)] Let_def)
  next
    case (Some a)
    then show ?thesis
      using add(1) w by (auto simp: extent_add_def r1 r2 v b(2) record_iterate_holds [OF b(3)] iterate_merge
        count_attrs_holds [OF add(2)] Let_def bind_eq_Some_conv)
  qed
  then show thesis
    using that [OF _ ri _ upd_keep_write [OF u12 u3] b(1)] by (simp add: stamped_def)
qed

section \<open>Properties\<close>

text \<open>The demonstration volume with record 1 written: one attribute, no extent.\<close>

definition demo_stored :: mount where
  "demo_stored = snd (the (record_write demo_bound 1 demo_record demo_attrs))"

lemma demo_stored:
  obtains rec where "sound demo_stored" "record_is demo_stored 1 rec [demo_attr]" "room demo_stored 4"
    "r_object_type rec = SMKFS_ROT_FILE"
proof -
  have b: "bound demo_bound 1 12 (r_generation demo_record)" using demo_bound(2) demo_record(3) by simp
  have l: "length (ser [demo_attr]) \<le> 3964" "room demo_bound 1" "room demo_bound (1 + 4)"
    using demo_bound(3) room_mono [OF demo_bound(3), of 1] by (simp_all add: demo_attr_def)
  obtain m1 c where "record_write demo_bound 1 demo_record demo_attrs = Some (OK, m1)"
    and u: "upd demo_bound 1 ((block_view demo_bound)(12 := record_image demo_record demo_attrs (length (ser [demo_attr]) + 12))) m1"
    and r: "record_is m1 1 (stamped demo_record (68 + length (ser [demo_attr])) c) [demo_attr]"
    using record_write_is [OF demo_bound(1) b l(2) demo_attrs_holds(1) l(1) demo_record(1,2)] by metis
  then have "demo_stored = m1" by (simp add: demo_stored_def)
  moreover have "r_object_type (stamped demo_record n c) = SMKFS_ROT_FILE" for n
    using demo_record(4) by (simp add: stamped_def)
  ultimately show thesis using that updD(1) [OF u] r upd_room [OF u l(3)] by simp
qed

lemma demo_ext_ok:
  "ext_ok [demo_attr]" "\<forall>a \<in> set [demo_attr]. at_type a = SMKFS_ATTRT_EXTENTS \<longrightarrow> at_id a \<noteq> - 1"
  "length (ser [demo_attr]) \<le> 3932" "exts [demo_attr] = []"
  by (simp_all add: ext_ok_def is_ext_def demo_attr_def)

text \<open>
  C17. Resolving a block of a stream finds the first extent, in the order of the record's
  attributes, whose range contains it, and fails with \<open>ERR_NOTFOUND\<close> exactly when no extent
  does; extents whose payload has the wrong size do not take part. The volume is only read.
\<close>
theorem extent_resolve_finds:
  assumes "sound m" "record_is m rid rec as" "4040 \<le> length stk"
  shows "\<exists>m1. extent_resolve stk m rid x =
      Some (case find (\<lambda>e. covers e x) (exts as) of None \<Rightarrow> Inl ERR_NOTFOUND | Some e \<Rightarrow> Inr e, m1) \<and>
    sound m1 \<and> record_is m1 rid rec as \<and> (\<forall>c. durable m c \<longrightarrow> block_view m1 c = block_view m c)"
proof -
  obtain m1 where "extent_resolve stk m rid x =
      Some (case find (\<lambda>e. covers e x) (exts as) of None \<Rightarrow> Inl ERR_NOTFOUND | Some e \<Rightarrow> Inr e, m1)"
    and u: "upd m 0 (block_view m) m1" using extent_resolve_is [OF assms] .
  then show ?thesis using updD(1,4) [OF u] record_is_keep [OF assms(1) u assms(2)] by auto
qed

theorem extent_resolve_finds_witness:
  "\<exists>m1. extent_resolve (replicate 4040 0) demo_stored 1 3 = Some (Inl ERR_NOTFOUND, m1)"
proof -
  obtain rec where r: "sound demo_stored" "record_is demo_stored 1 rec [demo_attr]" using demo_stored by blast
  have l: "4040 \<le> length (replicate 4040 (0 :: u8))" by simp
  show ?thesis using extent_resolve_finds [OF r l, of 3, unfolded demo_ext_ok(4)] by auto
qed

text \<open>
  C18. Adding an extent extends the stream's map. When the stream's extents are well-formed
  and do not overlap and the new range is unmapped, \<open>extent_add\<close> either adds an attribute or
  merges the range into a neighbour; either way the record afterwards maps the new range to the
  new blocks, every other block of the stream as before, and is well-formed again. Only the
  record's own block changes, and the record keeps its type and generation.
\<close>
theorem extent_add_extends:
  assumes "sound m" "record_is m rid rec as" "room m 1" "ext_ok as"
    "\<forall>a \<in> set as. at_type a = SMKFS_ATTRT_EXTENTS \<longrightarrow> at_id a \<noteq> - 1" "length (ser as) \<le> 3932"
    "unat lb + unat n < 2 ^ 32" "\<forall>x. in_range lb n x \<longrightarrow> emap (exts as) x = None"
  shows "\<exists>m1 rec' as' b. extent_add m rid lb pb n = Some (OK, m1) \<and> sound m1 \<and> record_is m1 rid rec' as' \<and>
    ext_ok as' \<and> emap (exts as') = (\<lambda>x. if in_range lb n x then Some (pb + (x - lb)) else emap (exts as) x) \<and>
    r_object_type rec' = r_object_type rec \<and> r_generation rec' = r_generation rec \<and>
    bound m rid b (r_generation rec) \<and> (\<forall>c. durable m c \<and> c \<noteq> b \<longrightarrow> block_view m1 c = block_view m c)"
proof -
  have f: "\<And>x. in_range lb n x \<Longrightarrow> emap (exts as) x = None" using assms(8) by blast
  obtain m1 rec' b img where a: "extent_add m rid lb pb n = Some (OK, m1)"
    "record_is m1 rid rec' (ext_added lb pb n as)" "r_object_type rec' = r_object_type rec"
    and u: "upd m 1 ((block_view m)(b := img)) m1"
    and b: "bound m rid b (r_generation rec)" "r_generation rec' = r_generation rec"
    using extent_add_is [OF assms(1-7) f, where pb = pb] by metis
  note M = ext_added_map [OF assms(4,5,7) f]
  have "emap (exts (ext_added lb pb n as)) =
      (\<lambda>x. if in_range lb n x then Some (pb + (x - lb)) else emap (exts as) x)"
    by (rule ext) (rule M(2))
  then show ?thesis using a b M(1) updD(1,4) [OF u] by (intro exI [of _ m1] exI [of _ rec'] exI [of _ "ext_added lb pb n as"] exI [of _ b]) simp
qed

theorem extent_add_extends_witness:
  "\<exists>m1 rec' as'. extent_add demo_stored 1 2 30 4 = Some (OK, m1) \<and> record_is m1 1 rec' as' \<and>
    emap (exts as') 5 = Some 33 \<and> emap (exts as') 6 = None \<and> ext_ok as'"
proof -
  obtain rec where r: "sound demo_stored" "record_is demo_stored 1 rec [demo_attr]" "room demo_stored 4" using demo_stored by blast
  have n: "unat (2 :: u64) + unat (4 :: u32) < 2 ^ 32" "\<forall>x. in_range 2 4 x \<longrightarrow> emap (exts [demo_attr]) x = None"
    using demo_ext_ok(4) by (simp_all add: emap_def)
  have "room demo_stored 1" by (rule room_mono [OF r(3)]) simp
  from extent_add_extends [OF r(1,2) this demo_ext_ok(1-3) n, of 30]
  obtain m1 rec' as' where "extent_add demo_stored 1 2 30 4 = Some (OK, m1)" "record_is m1 1 rec' as'" "ext_ok as'"
    and e: "emap (exts as') = (\<lambda>x. if in_range 2 4 x then Some (30 + (x - 2)) else emap (exts [demo_attr]) x)" by blast
  moreover have "emap (exts as') 5 = Some 33" "emap (exts as') 6 = None"
    unfolding e using demo_ext_ok(4) by (simp_all add: in_range_def emap_def)
  ultimately show ?thesis by blast
qed

end
