(* ===== verification/CString.thy ===== *)
theory CString
  imports Prelude "HOL-Library.List_Lexorder"
begin
text \<open>
  The string functions of \<^verbatim>\<open>lib/string.c\<close> on buffers of bytes. A buffer stands for the memory
  from a pointer on; one without a NUL byte is taken to end in one.
\<close>

definition hd0 :: "bytes \<Rightarrow> u8" where
  "hd0 s = (case s of [] \<Rightarrow> 0 | b # _ \<Rightarrow> b)"

text \<open>The C string in a buffer.\<close>

definition cstr :: "bytes \<Rightarrow> bytes" where
  "cstr s = takeWhile (\<lambda>b. b \<noteq> 0) s"

fun strcmp :: "bytes \<Rightarrow> bytes \<Rightarrow> int" where
  "strcmp [] s2 = - uint (hd0 s2)"
| "strcmp (a # s1) s2 =
     (if a \<noteq> 0 \<and> a = hd0 s2 then strcmp s1 (tl s2) else uint a - uint (hd0 s2))"

fun strncmp :: "bytes \<Rightarrow> bytes \<Rightarrow> nat \<Rightarrow> int" where
  "strncmp s1 s2 0 = 0"
| "strncmp s1 s2 (Suc n) =
     (if hd0 s1 \<noteq> 0 \<and> hd0 s1 = hd0 s2 then strncmp (tl s1) (tl s2) n else uint (hd0 s1) - uint (hd0 s2))"

fun strlen :: "bytes \<Rightarrow> nat" where
  "strlen [] = 0"
| "strlen (b # s) = (if b \<noteq> 0 then Suc (strlen s) else 0)"

fun strnlen :: "bytes \<Rightarrow> nat \<Rightarrow> nat" where
  "strnlen s 0 = 0"
| "strnlen s (Suc n) = (if hd0 s \<noteq> 0 then Suc (strnlen (tl s) n) else 0)"

text \<open>The bytes that \<open>strncpy\<close> stores: exactly \<open>n\<close> of them.\<close>

fun strncpy :: "bytes \<Rightarrow> nat \<Rightarrow> bytes" where
  "strncpy src 0 = []"
| "strncpy src (Suc n) = (if hd0 src \<noteq> 0 then hd0 src # strncpy (tl src) n else replicate (Suc n) 0)"

text \<open>\<open>strchr\<close> and \<open>strrchr\<close> return the position that the pointer stands for.\<close>

fun strchr :: "bytes \<Rightarrow> u8 \<Rightarrow> nat option" where
  "strchr [] c = None"
| "strchr (b # s) c = (if b = 0 then None else if b = c then Some 0 else map_option Suc (strchr s c))"

fun strchrnul :: "bytes \<Rightarrow> u8 \<Rightarrow> nat" where
  "strchrnul [] c = 0"
| "strchrnul (b # s) c = (if b = 0 then 0 else if b = c then 0 else Suc (strchrnul s c))"

fun strrchr_loop :: "bytes \<Rightarrow> u8 \<Rightarrow> nat \<Rightarrow> nat option \<Rightarrow> nat option" where
  "strrchr_loop [] c i last1 = last1"
| "strrchr_loop (b # s) c i last1 =
     (if b = 0 then last1 else strrchr_loop s c (Suc i) (if b = c then Some i else last1))"

definition strrchr :: "bytes \<Rightarrow> u8 \<Rightarrow> nat option" where
  "strrchr s c = strrchr_loop s c 0 None"

fun memcmp :: "bytes \<Rightarrow> bytes \<Rightarrow> nat \<Rightarrow> int" where
  "memcmp a b 0 = 0"
| "memcmp a b (Suc n) = (if hd0 a \<noteq> hd0 b then uint (hd0 a) - uint (hd0 b) else memcmp (tl a) (tl b) n)"

text \<open>\<open>atoi\<close>, whose result is an unsigned 32-bit number.\<close>

fun atoi_loop :: "u32 \<Rightarrow> bytes \<Rightarrow> u32" where
  "atoi_loop result [] = result"
| "atoi_loop result (b # s) =
     (if 48 \<le> b \<and> b \<le> 57 then atoi_loop (result * 10 + (ucast b - 48)) s else result)"

definition atoi :: "bytes \<Rightarrow> u32" where
  "atoi str = atoi_loop 0 str"


section \<open>The order of strings\<close>

text \<open>
  \<open>strcmp\<close> is the lexicographic order of the strings in the buffers, with unsigned bytes, so
  whatever is sorted or searched with it is sorted and searched in a linear order.
\<close>

lemma cstr_simps [simp]:
  "cstr [] = []" "cstr (b # s) = (if b = 0 then [] else b # cstr s)"
  by (simp_all add: cstr_def)

lemma cstr_no_nul: "0 \<notin> set (cstr s)"
  by (auto simp: cstr_def dest: set_takeWhileD)

lemma cstr_id: "0 \<notin> set s \<Longrightarrow> cstr (s @ 0 # t) = s" "0 \<notin> set s \<Longrightarrow> cstr s = s"
  by (induction s) simp_all

lemma cstr_Nil_iff: "cstr s = [] \<longleftrightarrow> hd0 s = 0"
  by (cases s) (simp_all add: hd0_def)

lemma cstr_step: "cstr s = (if hd0 s = 0 then [] else hd0 s # cstr (tl s))"
  by (cases s) (simp_all add: hd0_def)

lemma strcmp_both: "(strcmp s t = 0 \<longleftrightarrow> cstr s = cstr t) \<and> (strcmp s t < 0 \<longleftrightarrow> cstr s < cstr t)"
proof (induction s arbitrary: t)
  case Nil
  show ?case using cstr_step [of t] by (auto simp: less_le unsigned_eq_0_iff)
next
  case (Cons a s)
  have eq: "uint a = uint (hd0 t) \<longleftrightarrow> a = hd0 t" by (rule word_uint_eq_iff [symmetric])
  have gt: "0 < uint (hd0 t) \<longleftrightarrow> uint (hd0 t) \<noteq> 0" using uint_ge_0 [of "hd0 t"] by linarith
  show ?case
    using Cons.IH [of "tl t"] cstr_step [of t] eq gt
    by (cases "a = 0"; cases "hd0 t = 0") (auto simp: word_less_def)
qed

lemma strcmp_sgn: "strcmp s t = 0 \<longleftrightarrow> cstr s = cstr t" "strcmp s t < 0 \<longleftrightarrow> cstr s < cstr t"
  using strcmp_both by blast+

lemma strcmp_le: "strcmp s t \<le> 0 \<longleftrightarrow> cstr s \<le> cstr t"
  using strcmp_sgn [of s t] by (auto simp: less_le)

lemma strlen_cstr: "strlen s = length (cstr s)"
  by (induction s) simp_all

lemma strncpy_length [simp]: "length (strncpy s n) = n"
  by (induction n arbitrary: s) simp_all

lemma cstr_replicate_0 [simp]: "cstr (replicate n 0 @ t) = (if n = 0 then cstr t else [])"
  by (cases n) simp_all

lemma cstr_strncpy: "cstr (strncpy s n @ 0 # t) = take n (cstr s)"
proof (induction n arbitrary: s)
  case (Suc n)
  then show ?case using cstr_step [of s] by simp
qed simp

end
