(* ===== verification/Btree.thy ===== *)
theory Btree
  imports Outcome BitmapAlloc CString
begin

text \<open>
  The B+ tree of \<^verbatim>\<open>fs/smkfs/btree.c\<close>. A node in memory is its header, its 15 entries and the
  80 bytes behind them; leaf and index entries have one layout, an 8-byte value (record number
  or child block) and a 256-byte key. Descents follow the block numbers that they find, so they
  are partial functions: \<open>None\<close> is a descent that does not end. \<^verbatim>\<open>memmove\<close> and \<^verbatim>\<open>memcpy\<close>
  of entries are \<open>patch\<close> and \<open>slice\<close> on the list of entries. A name without a NUL in its 256
  bytes, which nothing here writes, ends with its field.
\<close>

abbreviation (input) BTR_MAX :: nat where "BTR_MAX \<equiv> 15"
abbreviation (input) BTR_MIN :: nat where "BTR_MIN \<equiv> 7"

section \<open>Nodes\<close>

record node =
  nh :: node_header
  slots :: "btree_slot list"
  ntail :: bytes

definition dec_node :: "bytes \<Rightarrow> node" where
  "dec_node raw =
     \<lparr> nh = dec_node_header raw,
       slots = map (\<lambda>i. dec_btree_slot (slice (56 + 264 * i) 264 raw)) [0..<BTR_MAX],
       ntail = drop 4016 raw \<rparr>"

definition enc_node :: "node \<Rightarrow> bytes" where
  "enc_node n = enc_node_header (nh n) @ concat (map enc_btree_slot (slots n)) @ ntail n"

abbreviation key_count :: "node \<Rightarrow> nat" where
  "key_count n \<equiv> unat (n_key_count (nh n))"

abbreviation is_leaf :: "node \<Rightarrow> bool" where
  "is_leaf n \<equiv> n_flags (nh n) AND SMKFS_BTN_LEAF \<noteq> 0"

abbreviation set_count :: "nat \<Rightarrow> node \<Rightarrow> node" where
  "set_count k n \<equiv> n\<lparr> nh := (nh n)\<lparr> n_key_count := of_nat k \<rparr> \<rparr>"

abbreviation set_slots :: "btree_slot list \<Rightarrow> node \<Rightarrow> node" where
  "set_slots ss n \<equiv> n\<lparr> slots := ss \<rparr>"

definition btree_entry_size :: "u32 \<Rightarrow> nat" where
  "btree_entry_size fl = (if fl AND SMKFS_BTN_LEAF \<noteq> 0 then 264 else 264)"

definition btree_key_at :: "node \<Rightarrow> nat \<Rightarrow> bytes" where
  "btree_key_at n i = s_name (slots n ! i)"

definition btree_key_copy :: "bytes \<Rightarrow> bytes" where
  "btree_key_copy src = strncpy src (SMKFS_NAME_LEN - 1) @ [0]"

definition zero_slot :: btree_slot where
  "zero_slot = \<lparr> s_value = 0, s_name = replicate 256 0 \<rparr>"

definition new_slot :: "bytes \<Rightarrow> u64 \<Rightarrow> btree_slot" where
  "new_slot key value = \<lparr> s_value = value, s_name = btree_key_copy key \<rparr>"

definition btree_format :: "u32 \<Rightarrow> u64 \<Rightarrow> node" where
  "btree_format fl parent =
     (let n = dec_node (replicate SMKFS_BLOCK_SIZE 0)
      in n\<lparr> nh := (nh n)\<lparr> n_header := header_init (n_header (nh n)) SMKFS_ST_BTREE_NODE 56 fl,
                          n_parent_block := parent, n_flags := fl, n_key_count := 0, n_right_sibling := 0 \<rparr> \<rparr>)"

section \<open>Loading and storing\<close>

definition btree_load :: "mount \<Rightarrow> u64 \<Rightarrow> (status + node) \<times> mount" where
  "btree_load m block =
     (if block = 0 then (Inl ERR_INVAL, m)
      else bindE (orE (read_block m block) ERR_IO) (\<lambda>raw m1.
        let n = dec_node raw;
            h = n_header (nh n);
            len = unat (h_length h)
        in if header_validate h SMKFS_ST_BTREE_NODE \<noteq> OK then (Inl ERR_CORRUPT, m1)
           else if len < 56 \<or> len > SMKFS_BLOCK_SIZE then (Inl ERR_CORRUPT, m1)
           else if header_checksum_verify h raw len \<noteq> OK then (Inl ERR_CORRUPT, m1)
           else if key_count n > BTR_MAX then (Inl ERR_CORRUPT, m1)
           else if len - 56 < key_count n * btree_entry_size (n_flags (nh n)) then (Inl ERR_CORRUPT, m1)
           else (Inr n, m1)))"

text \<open>The block that \<open>btree_store\<close> writes for a node.\<close>

definition node_image :: "node \<Rightarrow> bytes" where
  "node_image n =
     (let len = 56 + key_count n * btree_entry_size (n_flags (nh n));
          n1 = n\<lparr> nh := (nh n)\<lparr> n_header := (n_header (nh n))\<lparr> h_length := of_nat len \<rparr> \<rparr> \<rparr>
      in header_checksum_update (enc_node n1) len)"

definition btree_store :: "mount \<Rightarrow> u64 \<Rightarrow> node \<Rightarrow> status \<times> mount" where
  "btree_store m block n =
     (if block = 0 then (ERR_INVAL, m)
      else if \<not> heap_ok m then (ERR_NOMEM, m)
      else case read_block m block of
        (r, m1) \<Rightarrow>
          let old_raw = (case r of Inl _ \<Rightarrow> replicate SMKFS_BLOCK_SIZE 0 | Inr b \<Rightarrow> b);
              raw = node_image n;
              len = of_nat (56 + key_count n * btree_entry_size (n_flags (nh n)))
          in thenS (journal_log_write m1 block (Some old_raw) (Some raw) len) (\<lambda>m2.
               orS (write_block m2 block raw) ERR_IO))"

definition btree_set_parent :: "mount \<Rightarrow> u64 \<Rightarrow> u64 \<Rightarrow> status \<times> mount" where
  "btree_set_parent m block parent =
     (if \<not> heap_ok m then (ERR_NOMEM, m)
      else bindS (btree_load m block) (\<lambda>n m1.
        btree_store m1 block (n\<lparr> nh := (nh n)\<lparr> n_parent_block := parent \<rparr> \<rparr>)))"

fun set_parents :: "u64 list \<Rightarrow> u64 \<Rightarrow> mount \<Rightarrow> status \<times> mount" where
  "set_parents [] parent m = (OK, m)"
| "set_parents (b # bs) parent m = thenS (btree_set_parent m b parent) (set_parents bs parent)"

definition btree_leaf_lower_bound :: "node \<Rightarrow> bytes \<Rightarrow> nat" where
  "btree_leaf_lower_bound n key =
     length (takeWhile (\<lambda>s. strcmp (s_name s) key < 0) (take (key_count n) (slots n)))"

definition btree_index_child :: "node \<Rightarrow> bytes \<Rightarrow> nat" where
  "btree_index_child n key =
     length (takeWhile (\<lambda>s. strcmp (s_name s) key \<le> 0) (drop 1 (take (key_count n) (slots n))))"

text \<open>The node header and the payload that are copied out.\<close>

definition btree_node_read :: "mount \<Rightarrow> u64 \<Rightarrow> nat \<Rightarrow> (status + node_header \<times> bytes) \<times> mount" where
  "btree_node_read m block payload_size =
     (if block = 0 then (Inl ERR_INVAL, m)
      else if \<not> heap_ok m then (Inl ERR_NOMEM, m)
      else bindE (btree_load m block) (\<lambda>n m1.
        let payload_len = unat (h_length (n_header (nh n))) - 56
        in if payload_len > 0 \<and> payload_len > payload_size then (Inl ERR_TOO_BIG, m1)
           else (Inr (nh n, slice 56 payload_len (enc_node n)), m1)))"

definition btree_node_write :: "mount \<Rightarrow> u64 \<Rightarrow> node_header \<Rightarrow> bytes \<Rightarrow> status \<times> mount" where
  "btree_node_write m block_id h payload =
     (if block_id = 0 then (ERR_INVAL, m)
      else if length payload \<noteq> unat (n_key_count h) * btree_entry_size (n_flags h) then (ERR_INVAL, m)
      else if \<not> heap_ok m then (ERR_NOMEM, m)
      else btree_store m block_id
             (dec_node (patch 56 payload (patch 0 (enc_node_header h) (replicate SMKFS_BLOCK_SIZE 0)))))"

section \<open>Searching\<close>

definition leaf_lookup :: "node \<Rightarrow> bytes \<Rightarrow> status + u64" where
  "leaf_lookup n key =
     (let pos = btree_leaf_lower_bound n key
      in if pos < key_count n \<and> strcmp (s_name (slots n ! pos)) key = 0
         then Inr (s_value (slots n ! pos)) else Inl ERR_NOTFOUND)"

partial_function (option) search_from :: "bytes \<Rightarrow> u64 \<Rightarrow> mount \<Rightarrow> ((status + u64) \<times> mount) option" where
  "search_from key block m =
     (case btree_load m block of
        (Inl e, m1) \<Rightarrow> Some (Inl e, m1)
      | (Inr n, m1) \<Rightarrow>
          if is_leaf n then Some (leaf_lookup n key, m1)
          else if key_count n = 0 then Some (Inl ERR_CORRUPT, m1)
          else search_from key (s_value (slots n ! btree_index_child n key)) m1)"

definition btree_search :: "mount \<Rightarrow> u64 \<Rightarrow> bytes \<Rightarrow> ((status + u64) \<times> mount) option" where
  "btree_search m root_block key =
     (if root_block = 0 then Some (Inl ERR_INVAL, m)
      else if \<not> heap_ok m then Some (Inl ERR_NOMEM, m)
      else search_from key root_block m)"

section \<open>Inserting\<close>

text \<open>
  A split is the new right neighbour and its low key, \<open>None\<close> if the node did not split. The
  entries with the new one at its place are \<open>tmp\<close> of both split routines.
\<close>

type_synonym split = "(u64 \<times> bytes) option"

definition insert_slot :: "nat \<Rightarrow> btree_slot \<Rightarrow> node \<Rightarrow> btree_slot list" where
  "insert_slot pos s n = take pos (slots n) @ s # slice pos (key_count n - pos) (slots n)"

text \<open>The two halves: the left node keeps its block and its stale upper entries.\<close>

definition split_left :: "btree_slot list \<Rightarrow> node \<Rightarrow> node" where
  "split_left tmp n =
     (let left_count = length tmp div 2
      in set_count left_count (set_slots (patch 0 (take left_count tmp) (slots n)) n))"

definition split_right :: "btree_slot list \<Rightarrow> node \<Rightarrow> node" where
  "split_right tmp n =
     (let left_count = length tmp div 2
      in set_count (length tmp - left_count) (set_slots (patch 0 (drop left_count tmp) (slots n)) n))"

definition btree_leaf_split_insert ::
  "mount \<Rightarrow> u64 \<Rightarrow> node \<Rightarrow> nat \<Rightarrow> bytes \<Rightarrow> u64 \<Rightarrow> (status + split) \<times> mount" where
  "btree_leaf_split_insert m block n pos key value =
     (if \<not> heap_ok m then (Inl ERR_NOMEM, m)
      else
        let tmp = insert_slot pos (new_slot key value) n
        in case bitmap_alloc m of
          (right_block, m1) \<Rightarrow>
            if right_block = 0 then (Inl ERR_NOSPC, m1)
            else
              let r0 = btree_format SMKFS_BTN_LEAF (n_parent_block (nh n));
                  r1 = split_right tmp (r0\<lparr> nh := (nh r0)\<lparr> n_right_sibling := n_right_sibling (nh n) \<rparr> \<rparr>);
                  l1 = split_left tmp n;
                  l2 = l1\<lparr> nh := (nh l1)\<lparr> n_right_sibling := right_block \<rparr> \<rparr>
              in thenE (thenS (btree_store m1 block l2) (\<lambda>m2. btree_store m2 right_block r1)) (\<lambda>m3.
                   (Inr (Some (right_block, btree_key_copy (s_name (slots r1 ! 0)))), m3)))"

definition btree_leaf_insert :: "mount \<Rightarrow> u64 \<Rightarrow> node \<Rightarrow> bytes \<Rightarrow> u64 \<Rightarrow> (status + split) \<times> mount" where
  "btree_leaf_insert m block n key value =
     (let pos = btree_leaf_lower_bound n key
      in if pos < key_count n \<and> strcmp (s_name (slots n ! pos)) key = 0
         then thenE (btree_store m block
                (set_slots ((slots n)[pos := (slots n ! pos)\<lparr> s_value := value \<rparr>]) n)) (\<lambda>m1. (Inr None, m1))
         else if key_count n \<ge> BTR_MAX
         then btree_leaf_split_insert m block n pos key value
         else thenE (btree_store m block
                (set_count (key_count n + 1)
                  (set_slots (patch 0 (insert_slot pos (new_slot key value) n) (slots n)) n)))
                (\<lambda>m1. (Inr None, m1)))"

definition btree_index_split_insert ::
  "mount \<Rightarrow> u64 \<Rightarrow> node \<Rightarrow> nat \<Rightarrow> bytes \<Rightarrow> u64 \<Rightarrow> (status + split) \<times> mount" where
  "btree_index_split_insert m block n pos sep right_block =
     (if \<not> heap_ok m then (Inl ERR_NOMEM, m)
      else
        let tmp = insert_slot pos (new_slot sep right_block) n
        in case bitmap_alloc m of
          (new_block, m1) \<Rightarrow>
            if new_block = 0 then (Inl ERR_NOSPC, m1)
            else
              let l1 = split_left tmp n;
                  r1 = split_right tmp (btree_format (n_flags (nh n) AND NOT SMKFS_BTN_ROOT) (n_parent_block (nh n)))
              in thenE (thenS (set_parents (map s_value (drop (length tmp div 2) tmp)) new_block m1) (\<lambda>m2.
                        thenS (btree_store m2 block l1) (\<lambda>m3. btree_store m3 new_block r1))) (\<lambda>m4.
                   (Inr (Some (new_block, btree_key_copy (s_name (slots r1 ! 0)))), m4)))"

text \<open>The part of \<open>btree_index_insert\<close> after the descent: the child's split is absorbed.\<close>

definition btree_index_absorb ::
  "mount \<Rightarrow> u64 \<Rightarrow> node \<Rightarrow> nat \<Rightarrow> bytes \<Rightarrow> split \<Rightarrow> (status + split) \<times> mount" where
  "btree_index_absorb m block n child_idx key child_split =
     (let fix_fence = (strcmp key (s_name (slots n ! child_idx)) < 0);
          n1 = (if fix_fence
                then set_slots ((slots n)[child_idx := (slots n ! child_idx)\<lparr> s_name := btree_key_copy key \<rparr>]) n
                else n)
      in case child_split of
           None \<Rightarrow> if fix_fence then thenE (btree_store m block n1) (\<lambda>m1. (Inr None, m1)) else (Inr None, m)
         | Some (right_block, sep) \<Rightarrow>
             let pos = btree_leaf_lower_bound n1 sep
             in if key_count n1 \<ge> BTR_MAX
                then btree_index_split_insert m block n1 pos sep right_block
                else thenE (btree_store m block
                       (set_count (key_count n1 + 1)
                         (set_slots (patch 0 (insert_slot pos (new_slot sep right_block) n1) (slots n1)) n1)))
                       (\<lambda>m1. (Inr None, m1)))"

partial_function (option) btree_insert_rec ::
  "bytes \<Rightarrow> u64 \<Rightarrow> u64 \<Rightarrow> mount \<Rightarrow> ((status + split) \<times> mount) option" where
  "btree_insert_rec key value block m =
     (if \<not> heap_ok m then Some (Inl ERR_NOMEM, m)
      else case btree_load m block of
        (Inl e, m1) \<Rightarrow> Some (Inl e, m1)
      | (Inr n, m1) \<Rightarrow>
          if is_leaf n then Some (btree_leaf_insert m1 block n key value)
          else
            let child_idx = btree_index_child n key
            in Option.bind (btree_insert_rec key value (s_value (slots n ! child_idx)) m1) (\<lambda>(r, m2).
                 case r of
                   Inl e \<Rightarrow> Some (Inl e, m2)
                 | Inr child_split \<Rightarrow> Some (btree_index_absorb m2 block n child_idx key child_split)))"

definition btree_first_leaf :: "mount \<Rightarrow> bytes \<Rightarrow> u64 \<Rightarrow> (status + u64) \<times> mount" where
  "btree_first_leaf m key value =
     (case bitmap_alloc m of
        (new_block, m1) \<Rightarrow>
          if new_block = 0 then (Inl ERR_NOSPC, m1)
          else if \<not> heap_ok m1 then (Inl ERR_NOMEM, m1)
          else
            let n = btree_format (SMKFS_BTN_LEAF OR SMKFS_BTN_ROOT) 0
            in thenE (btree_store m1 new_block
                 (set_count 1 (set_slots ((slots n)[0 := new_slot key value]) n))) (\<lambda>m2.
                 (Inr new_block, m2)))"

definition btree_grow :: "mount \<Rightarrow> u64 \<Rightarrow> u64 \<Rightarrow> bytes \<Rightarrow> (status + u64) \<times> mount" where
  "btree_grow m root_block right_block sep =
     (case bitmap_alloc m of
        (new_block, m1) \<Rightarrow>
          if new_block = 0 then (Inl ERR_NOSPC, m1)
          else if \<not> heap_ok m1 then (Inl ERR_NOMEM, m1)
          else bindE (btree_load m1 root_block) (\<lambda>n m2.
            let left_low = btree_key_copy (btree_key_at n 0);
                fl = n_flags (nh n) AND NOT SMKFS_BTN_ROOT;
                old = n\<lparr> nh := (nh n)\<lparr> n_flags := fl, n_header := (n_header (nh n))\<lparr> h_flags := fl \<rparr>,
                                        n_parent_block := new_block \<rparr> \<rparr>;
                r = btree_format SMKFS_BTN_ROOT 0;
                root = set_count 2 (set_slots ((slots r)[0 := new_slot left_low root_block,
                                                         1 := new_slot sep right_block]) r)
            in thenE (thenS (btree_store m2 root_block old) (\<lambda>m3.
                      thenS (btree_set_parent m3 right_block new_block) (\<lambda>m4.
                        btree_store m4 new_block root))) (\<lambda>m5. (Inr new_block, m5))))"

text \<open>The result is the root after the insertion.\<close>

definition btree_insert :: "mount \<Rightarrow> u64 \<Rightarrow> bytes \<Rightarrow> u64 \<Rightarrow> ((status + u64) \<times> mount) option" where
  "btree_insert m root_block key value =
     (if hd0 key = 0 then Some (Inl ERR_INVAL, m)
      else if strlen key > SMKFS_BTR_MAX_KEY then Some (Inl ERR_TOO_BIG, m)
      else if root_block = 0 then Some (btree_first_leaf m key value)
      else bindX (btree_insert_rec key value root_block m) (\<lambda>split m1.
        case split of
          None \<Rightarrow> Some (Inr root_block, m1)
        | Some (right_block, sep) \<Rightarrow> Some (btree_grow m1 root_block right_block sep)))"

section \<open>Deleting\<close>

text \<open>
  \<open>btree_fix_underflow\<close> returns the parent's image as well, which its caller stores. The
  four cases: an entry borrowed from the left sibling, one from the right, the child merged
  into the left sibling, the right sibling merged into the child.
\<close>

definition parent_key :: "nat \<Rightarrow> bytes \<Rightarrow> node \<Rightarrow> node" where
  "parent_key i key p = set_slots ((slots p)[i := (slots p ! i)\<lparr> s_name := btree_key_copy key \<rparr>]) p"

definition drop_slot :: "nat \<Rightarrow> node \<Rightarrow> node" where
  "drop_slot i p =
     set_count (key_count p - 1)
       (set_slots (patch i (slice (i + 1) (key_count p - i - 1) (slots p)) (slots p)) p)"

definition move_parent :: "bool \<Rightarrow> u64 \<Rightarrow> u64 \<Rightarrow> mount \<Rightarrow> status \<times> mount" where
  "move_parent leaf moved parent m = (if \<not> leaf then btree_set_parent m moved parent else (OK, m))"

definition borrow_left :: "mount \<Rightarrow> node \<Rightarrow> nat \<Rightarrow> u64 \<Rightarrow> u64 \<Rightarrow> node \<Rightarrow> node \<Rightarrow> (status + node) \<times> mount" where
  "borrow_left m p child_idx left_block child_block c s =
     (let c1 = set_count (key_count c + 1)
                 (set_slots (patch 0 [slots s ! (key_count s - 1)]
                    (patch 1 (take (key_count c) (slots c)) (slots c))) c);
          s1 = set_count (key_count s - 1) s
      in thenE (thenS (move_parent (is_leaf c) (s_value (slots c1 ! 0)) child_block m) (\<lambda>m1.
                thenS (btree_store m1 left_block s1) (\<lambda>m2. btree_store m2 child_block c1)))
           (\<lambda>m3. (Inr (parent_key child_idx (btree_key_at c1 0) p), m3)))"

definition borrow_right :: "mount \<Rightarrow> node \<Rightarrow> nat \<Rightarrow> u64 \<Rightarrow> u64 \<Rightarrow> node \<Rightarrow> node \<Rightarrow> (status + node) \<times> mount" where
  "borrow_right m p child_idx right_block child_block c s =
     (let c1 = set_count (key_count c + 1) (set_slots (patch (key_count c) [slots s ! 0] (slots c)) c);
          s1 = set_count (key_count s - 1)
                 (set_slots (patch 0 (slice 1 (key_count s - 1) (slots s)) (slots s)) s)
      in thenE (thenS (move_parent (is_leaf c) (s_value (slots c1 ! key_count c)) child_block m) (\<lambda>m1.
                thenS (btree_store m1 child_block c1) (\<lambda>m2. btree_store m2 right_block s1)))
           (\<lambda>m3. (Inr (parent_key (child_idx + 1) (btree_key_at s1 0) p), m3)))"

text \<open>\<open>merge_nodes\<close> appends the entries of \<open>r\<close> to the node \<open>l\<close>, which survives.\<close>

definition merge_nodes :: "bool \<Rightarrow> node \<Rightarrow> node \<Rightarrow> node" where
  "merge_nodes leaf l r =
     (let l1 = set_count (key_count l + key_count r)
                 (set_slots (patch (key_count l) (take (key_count r) (slots r)) (slots l)) l)
      in if leaf then l1\<lparr> nh := (nh l1)\<lparr> n_right_sibling := n_right_sibling (nh r) \<rparr> \<rparr> else l1)"

definition btree_merge ::
  "mount \<Rightarrow> node \<Rightarrow> nat \<Rightarrow> bool \<Rightarrow> u64 \<Rightarrow> node \<Rightarrow> u64 \<Rightarrow> node \<Rightarrow> (status + node) \<times> mount" where
  "btree_merge m p gone leaf left_block l right_block r =
     thenE (if leaf then (OK, m) else set_parents (map s_value (take (key_count r) (slots r))) left_block m) (\<lambda>m1.
       thenE (btree_store (snd (bitmap_free_range m1 right_block 1)) left_block (merge_nodes leaf l r)) (\<lambda>m2.
         (Inr (drop_slot gone p), m2)))"

definition btree_fix_underflow :: "mount \<Rightarrow> node \<Rightarrow> nat \<Rightarrow> (status + node) \<times> mount" where
  "btree_fix_underflow m p child_idx =
     (let child_block = s_value (slots p ! child_idx);
          left_block = (if child_idx > 0 then s_value (slots p ! (child_idx - 1)) else 0);
          right_block = (if child_idx + 1 < key_count p then s_value (slots p ! (child_idx + 1)) else 0)
      in if left_block = 0 \<and> right_block = 0 then (Inl ERR_CORRUPT, m)
         else if \<not> heap_ok m then (Inl ERR_NOMEM, m)
         else bindE (btree_load m child_block) (\<lambda>c m1.
           let try_right = (\<lambda>m2.
                 if right_block \<noteq> 0
                 then bindE (btree_load m2 right_block) (\<lambda>s m3.
                   if key_count s > BTR_MIN then borrow_right m3 p child_idx right_block child_block c s
                   else if left_block \<noteq> 0
                   then bindE (btree_load m3 left_block) (\<lambda>l m4.
                     btree_merge m4 p child_idx (is_leaf c) left_block l child_block c)
                   else bindE (btree_load m3 right_block) (\<lambda>r m4.
                     btree_merge m4 p (child_idx + 1) (is_leaf c) child_block c right_block r))
                 else bindE (btree_load m2 left_block) (\<lambda>l m3.
                   btree_merge m3 p child_idx (is_leaf c) left_block l child_block c))
           in if left_block \<noteq> 0
              then bindE (btree_load m1 left_block) (\<lambda>s m2.
                if key_count s > BTR_MIN then borrow_left m2 p child_idx left_block child_block c s
                else try_right m2)
              else try_right m1))"

definition btree_refresh_fence :: "mount \<Rightarrow> node \<Rightarrow> nat \<Rightarrow> (status + node) \<times> mount" where
  "btree_refresh_fence m p child_idx =
     (if \<not> heap_ok m then (Inl ERR_NOMEM, m)
      else bindE (btree_load m (s_value (slots p ! child_idx))) (\<lambda>c m1.
        (Inr (if key_count c > 0 then parent_key child_idx (btree_key_at c 0) p else p), m1)))"

text \<open>The result is whether the node has too few entries now.\<close>

definition btree_leaf_delete :: "mount \<Rightarrow> u64 \<Rightarrow> node \<Rightarrow> bytes \<Rightarrow> bool \<Rightarrow> (status + bool) \<times> mount" where
  "btree_leaf_delete m block n key is_root =
     (let pos = btree_leaf_lower_bound n key
      in if pos \<ge> key_count n \<or> strcmp (s_name (slots n ! pos)) key \<noteq> 0 then (Inl ERR_NOTFOUND, m)
         else
           let k = key_count n - 1;
               n1 = drop_slot pos n;
               n2 = set_slots ((slots n1)[k := zero_slot]) n1
           in thenE (btree_store m block n2) (\<lambda>m1. (Inr (\<not> is_root \<and> k < BTR_MIN), m1)))"

definition btree_index_delete ::
  "mount \<Rightarrow> u64 \<Rightarrow> node \<Rightarrow> bytes \<Rightarrow> bool \<Rightarrow> nat \<Rightarrow> bool \<Rightarrow> (status + bool) \<times> mount" where
  "btree_index_delete m block n key is_root child_idx child_underflow =
     (let child_block = s_value (slots n ! child_idx)
      in bindE (if child_underflow then btree_fix_underflow m n child_idx else (Inr n, m)) (\<lambda>n1 m1.
         let stale = (child_idx < key_count n1 \<and> s_value (slots n1 ! child_idx) = child_block \<and>
                      strcmp key (s_name (slots n1 ! child_idx)) = 0)
         in bindE (if stale then btree_refresh_fence m1 n1 child_idx else (Inr n1, m1)) (\<lambda>n2 m2.
            thenE (if child_underflow \<or> stale then btree_store m2 block n2 else (OK, m2)) (\<lambda>m3.
              (Inr (\<not> is_root \<and> key_count n2 < BTR_MIN), m3)))))"

partial_function (option) btree_delete_rec ::
  "bytes \<Rightarrow> u64 \<Rightarrow> bool \<Rightarrow> mount \<Rightarrow> ((status + bool) \<times> mount) option" where
  "btree_delete_rec key block is_root m =
     (if \<not> heap_ok m then Some (Inl ERR_NOMEM, m)
      else case btree_load m block of
        (Inl e, m1) \<Rightarrow> Some (Inl e, m1)
      | (Inr n, m1) \<Rightarrow>
          if is_leaf n then Some (btree_leaf_delete m1 block n key is_root)
          else if key_count n = 0 then Some (Inl ERR_CORRUPT, m1)
          else
            let child_idx = btree_index_child n key
            in Option.bind (btree_delete_rec key (s_value (slots n ! child_idx)) False m1) (\<lambda>(r, m2).
                 case r of
                   Inl e \<Rightarrow> Some (Inl e, m2)
                 | Inr child_underflow \<Rightarrow>
                     Some (btree_index_delete m2 block n key is_root child_idx child_underflow)))"

definition btree_promote :: "mount \<Rightarrow> u64 \<Rightarrow> u64 \<Rightarrow> (status + u64) \<times> mount" where
  "btree_promote m root_block child =
     (if \<not> heap_ok m then (Inl ERR_NOMEM, m)
      else bindE (btree_load m child) (\<lambda>c m1.
        let fl = n_flags (nh c) OR SMKFS_BTN_ROOT;
            c1 = c\<lparr> nh := (nh c)\<lparr> n_flags := fl, n_header := (n_header (nh c))\<lparr> h_flags := fl \<rparr>,
                                    n_parent_block := 0 \<rparr> \<rparr>
        in thenE (btree_store m1 child c1) (\<lambda>m2. (Inr child, snd (bitmap_free_range m2 root_block 1)))))"

definition btree_delete :: "mount \<Rightarrow> u64 \<Rightarrow> bytes \<Rightarrow> ((status + u64) \<times> mount) option" where
  "btree_delete m root_block key =
     (if root_block = 0 then Some (Inl ERR_INVAL, m)
      else bindX (btree_delete_rec key root_block True m) (\<lambda>_ m1.
        Some (if \<not> heap_ok m1 then (Inl ERR_NOMEM, m1)
              else bindE (btree_load m1 root_block) (\<lambda>n m2.
                if \<not> is_leaf n \<and> key_count n = 1
                then btree_promote m2 root_block (s_value (slots n ! 0))
                else (Inr root_block, m2)))))"

section \<open>Iterating\<close>

partial_function (option) leftmost_leaf :: "u64 \<Rightarrow> mount \<Rightarrow> ((status + u64) \<times> mount) option" where
  "leftmost_leaf block m =
     (case btree_load m block of
        (Inl e, m1) \<Rightarrow> Some (Inl e, m1)
      | (Inr n, m1) \<Rightarrow>
          if is_leaf n then Some (Inr block, m1)
          else if key_count n = 0 then Some (Inl ERR_CORRUPT, m1)
          else leftmost_leaf (s_value (slots n ! 0)) m1)"

text \<open>A callback that returns a value other than 0 ends the walk with that value.\<close>

fun visit_slots :: "(bytes \<Rightarrow> u64 \<Rightarrow> 'c \<Rightarrow> int \<times> 'c) \<Rightarrow> btree_slot list \<Rightarrow> 'c \<Rightarrow> int \<times> 'c" where
  "visit_slots cb [] ctx = (0, ctx)"
| "visit_slots cb (s # ss) ctx =
     (case cb (s_name s) (s_value s) ctx of (r, ctx1) \<Rightarrow> if r \<noteq> 0 then (r, ctx1) else visit_slots cb ss ctx1)"

partial_function (option) leaf_chain ::
  "(bytes \<Rightarrow> u64 \<Rightarrow> 'c \<Rightarrow> int \<times> 'c) \<Rightarrow> u64 \<Rightarrow> 'c \<Rightarrow> mount \<Rightarrow> (int \<times> 'c \<times> mount) option" where
  "leaf_chain cb block ctx m =
     (if block = 0 then Some (status_code OK, ctx, m)
      else case btree_load m block of
        (Inl e, m1) \<Rightarrow> Some (status_code e, ctx, m1)
      | (Inr n, m1) \<Rightarrow>
          if \<not> is_leaf n then Some (status_code ERR_CORRUPT, ctx, m1)
          else (case visit_slots cb (take (key_count n) (slots n)) ctx of
             (r, ctx1) \<Rightarrow>
               if r \<noteq> 0 then Some (r, ctx1, m1)
               else leaf_chain cb (n_right_sibling (nh n)) ctx1 m1))"

definition btree_iterate ::
  "mount \<Rightarrow> u64 \<Rightarrow> (bytes \<Rightarrow> u64 \<Rightarrow> 'c \<Rightarrow> int \<times> 'c) \<Rightarrow> 'c \<Rightarrow> (int \<times> 'c \<times> mount) option" where
  "btree_iterate m root_block cb ctx =
     (if root_block = 0 then Some (status_code ERR_INVAL, ctx, m)
      else if \<not> heap_ok m then Some (status_code ERR_NOMEM, ctx, m)
      else Option.bind (leftmost_leaf root_block m) (\<lambda>(r, m1).
        case r of
          Inl e \<Rightarrow> Some (status_code e, ctx, m1)
        | Inr block \<Rightarrow> leaf_chain cb block ctx m1))"

end
