(* ===== verification/NodeSpec.thy ===== *)
theory NodeSpec
  imports Btree Logged
begin

text \<open>
  Nodes of the B+ tree as sorted lists. \<open>nview blk\<close> is what a block holds if \<open>btree_load\<close>
  accepts it: whether it is a leaf, its entries, with their keys as strings, and its right
  neighbour. Storing a node puts its view on the disk, and the operations on the arrays
  of entries are operations on these lists.
\<close>

section \<open>Nodes and their bytes\<close>

definition wf_node :: "node \<Rightarrow> bool" where
  "wf_node n \<longleftrightarrow> wf_node_header (nh n) \<and> length (slots n) = 15 \<and> list_all wf_btree_slot (slots n) \<and>
     length (ntail n) = 80"

lemma length_concat_slots:
  "list_all wf_btree_slot ss \<Longrightarrow> length (concat (map enc_btree_slot ss)) = 264 * length ss"
  by (induction ss) simp_all

lemma slice_concat_slots:
  "list_all wf_btree_slot ss \<Longrightarrow> i < length ss \<Longrightarrow>
   slice (264 * i) 264 (concat (map enc_btree_slot ss) @ t) = enc_btree_slot (ss ! i)"
proof (induction ss arbitrary: i)
  case (Cons s ss)
  then show ?case by (cases i) (simp_all add: slice_append2)
qed simp

lemma length_enc_node [simp]: "wf_node n \<Longrightarrow> length (enc_node n) = 4096"
  by (simp add: enc_node_def wf_node_def length_concat_slots)

lemma dec_enc_node [simp]: "wf_node n \<Longrightarrow> dec_node (enc_node n) = n"
proof -
  assume w: "wf_node n"
  let ?e = "concat (map enc_btree_slot (slots n)) @ ntail n"
  have e: "enc_node n = enc_node_header (nh n) @ ?e" by (simp add: enc_node_def)
  have lh: "length (enc_node_header (nh n)) = 56" using w by (simp add: wf_node_def)
  have "dec_btree_slot (slice (56 + 264 * i) 264 (enc_node n)) = slots n ! i" if "i < 15" for i
  proof -
    have "slice (56 + 264 * i) 264 (enc_node n) = enc_btree_slot (slots n ! i)"
      using w that lh slice_concat_slots [of "slots n" i "ntail n"] by (simp add: e slice_append2 wf_node_def)
    then show ?thesis using w that by (simp add: wf_node_def list_all_length)
  qed
  then have "map (\<lambda>i. dec_btree_slot (slice (56 + 264 * i) 264 (enc_node n))) [0..<15] = slots n"
    using w by (intro nth_equalityI) (simp_all add: wf_node_def)
  moreover have "drop 4016 (enc_node n) = ntail n"
    using w lh length_concat_slots [of "slots n"] by (simp add: e wf_node_def)
  moreover have "dec_node_header (enc_node n) = nh n" using w by (simp add: e wf_node_def)
  ultimately show ?thesis by (simp add: dec_node_def)
qed

lemma wf_dec_node [simp]: "length raw = 4096 \<Longrightarrow> wf_node (dec_node raw)"
  by (auto simp: wf_node_def dec_node_def list_all_length intro!: wf_dec_btree_slot)

section \<open>Blocks that load\<close>

definition node_ok :: "node \<Rightarrow> bool" where
  "node_ok n \<longleftrightarrow> wf_node n \<and> header_validate (n_header (nh n)) SMKFS_ST_BTREE_NODE = OK \<and> key_count n \<le> 15"

definition node_block :: "bytes \<Rightarrow> node \<Rightarrow> bool" where
  "node_block blk n \<longleftrightarrow> dec_node blk = n \<and> length blk = 4096 \<and>
     header_validate (n_header (nh n)) SMKFS_ST_BTREE_NODE = OK \<and> key_count n \<le> 15 \<and>
     unat (h_length (n_header (nh n))) \<le> 4096 \<and> 56 + key_count n * 264 \<le> unat (h_length (n_header (nh n))) \<and>
     header_checksum_verify (n_header (nh n)) blk (unat (h_length (n_header (nh n)))) = OK"

lemma node_blockD: "node_block blk n \<Longrightarrow> node_ok n" "node_block blk n \<Longrightarrow> dec_node blk = n"
  using wf_dec_node by (auto simp: node_block_def node_ok_def)

lemma entry_size [simp]: "btree_entry_size fl = 264"
  by (simp add: btree_entry_size_def)

definition restamp :: "node \<Rightarrow> u32 \<Rightarrow> node" where
  "restamp n c = n\<lparr> nh := (nh n)\<lparr> n_header := (n_header (nh n))
     \<lparr> h_length := of_nat (56 + key_count n * 264), h_checksum := c \<rparr> \<rparr> \<rparr>"

lemma nh_dec_node: "nh (dec_node raw) = dec_node_header raw" "n_header (dec_node_header raw) = dec_header raw"
  by (simp_all add: dec_node_def dec_node_header_def)

lemma node_image_block:
  assumes "node_ok n"
  shows "\<exists>c. node_block (node_image n) (restamp n c)"
proof -
  let ?len = "56 + key_count n * 264"
  define n1 where "n1 = n\<lparr> nh := (nh n)\<lparr> n_header := (n_header (nh n))\<lparr> h_length := of_nat ?len \<rparr> \<rparr> \<rparr>"
  have w: "wf_node n1" using assms by (simp add: node_ok_def wf_node_def n1_def wf_node_header_def wf_header_def)
  define b where "b = enc_node n1"
  have lb: "length b = 4096" using w by (simp add: b_def)
  have img: "node_image n = header_checksum_update b ?len"
    unfolding node_image_def Let_def n1_def b_def by simp
  have len: "?len \<le> 4016" using assms by (simp add: node_ok_def)
  have d: "dec_node b = n1" using w by (simp add: b_def)
  then have hd: "dec_header b = n_header (nh n1)" using nh_dec_node by metis
  define c where "c = checksum_compute (patch 16 (le_bytes 4 (0 :: u32)) b) ?len"
  have hi: "dec_header (node_image n) = (n_header (nh n1))\<lparr> h_checksum := c \<rparr>"
    using dec_header_update [of b ?len] lb hd by (simp add: img c_def)
  have li: "length (node_image n) = 4096" using lb by (simp add: img)
  have sl: "slice a k (node_image n) = slice a k b" if "20 \<le> a" for a k
    using slice_update_other [of b a k ?len] lb that by (simp add: img)
  have tl: "drop 4016 (node_image n) = drop 4016 b"
    using sl [of 4016 80] lb li by (simp add: slice_def)
  have "dec_node_header (node_image n) = (dec_node_header b)\<lparr> n_header := dec_header (node_image n) \<rparr>"
    by (simp add: dec_node_header_def sl)
  then have "dec_node (node_image n) = (dec_node b)\<lparr> nh := (dec_node_header b)\<lparr> n_header := dec_header (node_image n) \<rparr> \<rparr>"
    using tl by (simp add: dec_node_def sl)
  moreover have "dec_node_header b = nh n1" using d nh_dec_node(1) by metis
  ultimately have dn: "dec_node (node_image n) = restamp n c"
    unfolding d hi by (simp add: n1_def restamp_def)
  have lw: "unat (of_nat ?len :: u32) = ?len" using len by (intro unat_of_nat_small) simp
  then have hl: "unat (h_length (n_header (nh (restamp n c)))) = ?len" by (simp add: restamp_def)
  have "n_header (nh (restamp n c)) = dec_header (node_image n)"
    using dn nh_dec_node by metis
  moreover have "header_checksum_verify (dec_header (node_image n)) (node_image n) ?len = OK"
    using header_update_verify [of ?len b] lb len by (simp add: img)
  ultimately have "header_checksum_verify (n_header (nh (restamp n c))) (node_image n) ?len = OK" by simp
  moreover have "header_validate (n_header (nh (restamp n c))) SMKFS_ST_BTREE_NODE = OK"
    using assms by (simp add: node_ok_def restamp_def header_validate_def split: if_splits)
  moreover have "key_count (restamp n c) = key_count n" by (simp add: restamp_def)
  ultimately have "node_block (node_image n) (restamp n c)"
    unfolding node_block_def hl using dn li len assms by (simp add: node_ok_def)
  then show ?thesis by blast
qed

lemma btree_load_is:
  assumes "sound m" "blk_ok b" "b \<noteq> 0" "node_block (block_view m b) n"
  obtains m1 where "btree_load m b = (Inr n, m1)" "upd m 0 (block_view m) m1"
proof -
  obtain m1 where r: "read_block m b = (Inr (block_view m b), m1)" and u: "upd m 0 (block_view m) m1"
    using upd_read [OF assms(1,2)] .
  have "btree_load m b = (Inr n, m1)"
    using assms(3,4) by (auto simp: btree_load_def r node_block_def Let_def)
  then show thesis using that u by blast
qed

text \<open>A block that does not hold a node is refused, whatever it holds.\<close>

lemma btree_load_refuses:
  assumes "sound m" "blk_ok b" "b \<noteq> 0" "\<not> node_block (block_view m b) (dec_node (block_view m b))"
  shows "fst (btree_load m b) = Inl ERR_CORRUPT"
proof -
  obtain m1 where r: "read_block m b = (Inr (block_view m b), m1)" using upd_read [OF assms(1,2)] by metis
  have "length (block_view m b) = 4096" using cache.view_length soundD(4) [OF assms(1)] by simp
  then show ?thesis using assms(3,4) by (auto simp: btree_load_def r node_block_def Let_def)
qed

lemma btree_store_is:
  assumes "sound m" "room m 1" "blk_ok b" "b \<noteq> 0" "node_ok n"
  obtains m1 where "btree_store m b n = (OK, m1)" "upd m 1 ((block_view m)(b := node_image n)) m1"
proof -
  obtain m1 where r: "read_block m b = (Inr (block_view m b), m1)" and u: "upd m 0 (block_view m) m1"
    using upd_read [OF assms(1,3)] .
  let ?len = "56 + key_count n * 264"
  have l: "?len \<le> 4032" using assms(5) by (simp add: node_ok_def)
  then have "unat (of_nat ?len :: u64) = ?len" by (intro unat_of_nat_small) simp
  then have ul: "unat (of_nat ?len :: u64) \<le> 4032" using l by linarith
  have li: "length (node_image n) = 4096" using node_image_block [OF assms(5)] by (auto simp: node_block_def)
  have "room m1 1" using upd_room [OF u] assms(2) by simp
  from logged_write_ok [OF updD(1) [OF u] this li ul assms(3)]
  obtain m2 where w: "logged_write m1 b (Some (block_view m b)) (node_image n) (of_nat ?len) = (OK, m2)"
    and u2: "upd m1 1 ((block_view m1)(b := node_image n)) m2" .
  have "btree_store m b n = (OK, m2)"
    using assms(4) soundD(3) [OF assms(1)] w by (simp add: btree_store_def r logged_write_def Let_def)
  then show thesis using that upd_keep_write [OF u u2] by blast
qed

section \<open>The view of a node\<close>

type_synonym entry = "bytes \<times> u64"
type_synonym view = "bool \<times> entry list \<times> u64"

definition entries :: "node \<Rightarrow> entry list" where
  "entries n = map (\<lambda>s. (cstr (s_name s), s_value s)) (take (key_count n) (slots n))"

definition node_view :: "node \<Rightarrow> view" where
  "node_view n = (is_leaf n, entries n, n_right_sibling (nh n))"

definition nview :: "bytes \<Rightarrow> view option" where
  "nview blk = (if node_block blk (dec_node blk) then Some (node_view (dec_node blk)) else None)"

lemma nview_Some: "nview blk = Some x \<longleftrightarrow> (\<exists>n. node_block blk n \<and> node_view n = x)"
  by (auto simp: nview_def node_block_def)

lemma node_view_restamp [simp]: "node_view (restamp n c) = node_view n"
  by (simp add: node_view_def restamp_def entries_def)

lemma nview_image: "node_ok n \<Longrightarrow> nview (node_image n) = Some (node_view n)"
  using node_image_block [of n] by (force simp: nview_Some)

lemma length_entries: "node_ok n \<Longrightarrow> length (entries n) = key_count n"
  by (simp add: entries_def node_ok_def wf_node_def)

lemma entries_nth: "node_ok n \<Longrightarrow> i < key_count n \<Longrightarrow> entries n ! i = (cstr (s_name (slots n ! i)), s_value (slots n ! i))"
  by (simp add: entries_def node_ok_def wf_node_def)

section \<open>Positions\<close>

definition below :: "bytes \<Rightarrow> entry list \<Rightarrow> nat" where
  "below k es = length (takeWhile (\<lambda>e. fst e < k) es)"

lemma length_takeWhile_map: "length (takeWhile P (map f xs)) = length (takeWhile (P \<circ> f) xs)"
  by (simp add: takeWhile_map)

lemma lower_bound_is: "btree_leaf_lower_bound n key = below (cstr key) (entries n)"
  by (simp add: btree_leaf_lower_bound_def below_def entries_def length_takeWhile_map comp_def strcmp_sgn(2))

lemma index_child_is:
  "btree_index_child n key = length (takeWhile (\<lambda>e. fst e \<le> cstr key) (tl (entries n)))"
  by (simp add: btree_index_child_def entries_def length_takeWhile_map comp_def strcmp_le
      drop_Suc drop_map flip: map_tl)

abbreviation sorted_keys :: "(bytes \<times> 'a) list \<Rightarrow> bool" where
  "sorted_keys es \<equiv> sorted_wrt (<) (map fst es)"

lemma below_le: "below k es \<le> length es"
  by (simp add: below_def length_takeWhile_le)

lemma below_split:
  assumes "sorted_keys es"
  shows "\<forall>e \<in> set (take (below k es) es). fst e < k" "\<forall>e \<in> set (drop (below k es) es). k \<le> fst e"
proof -
  have t: "take (below k es) es = takeWhile (\<lambda>e. fst e < k) es"
    unfolding below_def by (metis takeWhile_eq_take)
  then show "\<forall>e \<in> set (take (below k es) es). fst e < k" by (auto dest: set_takeWhileD)
  have d: "drop (below k es) es = dropWhile (\<lambda>e. fst e < k) es"
    unfolding below_def by (metis dropWhile_eq_drop)
  show "\<forall>e \<in> set (drop (below k es) es). k \<le> fst e"
  proof (cases "dropWhile (\<lambda>e. fst e < k) es")
    case Nil
    show ?thesis unfolding d unfolding Nil by simp
  next
    case (Cons x xs)
    then have "\<not> fst x < k" using hd_dropWhile [of "\<lambda>e. fst e < k" es] by auto
    moreover have "sorted_keys (takeWhile (\<lambda>e. fst e < k) es @ x # xs)"
      unfolding Cons [symmetric] using assms by simp
    then have "\<forall>e \<in> set xs. fst x < fst e" by (simp add: sorted_wrt_append)
    ultimately show ?thesis unfolding d Cons by auto
  qed
qed

lemma below_append:
  assumes "\<forall>e \<in> set A. fst e < k" "B = [] \<or> k \<le> fst (hd B)"
  shows "below k (A @ B) = length A"
proof -
  have "takeWhile (\<lambda>e. fst e < k) B = []" using assms(2) by (cases B) (auto simp: not_less)
  then show ?thesis using assms(1) by (simp add: below_def takeWhile_append)
qed

text \<open>Insertion into a sorted list, and what it does to the map that the list stands for.\<close>

definition put :: "bytes \<Rightarrow> u64 \<Rightarrow> entry list \<Rightarrow> entry list" where
  "put k v es =
     (let p = below k es
      in take p es @ (k, v) # drop (if p < length es \<and> fst (es ! p) = k then Suc p else p) es)"

lemma map_of_sorted:
  assumes "sorted_keys es"
  shows "map_of es k = (let p = below k es in if p < length es \<and> fst (es ! p) = k then Some (snd (es ! p)) else None)"
proof -
  let ?p = "below k es"
  note S = below_split [OF assms, of k]
  have e: "es = take ?p es @ drop ?p es" by simp
  have t: "map_of (take ?p es) k = None" using S(1) by (force simp: map_of_eq_None_iff)
  have d: "map_of es k = map_of (drop ?p es) k"
    by (subst e) (simp add: map_add_def t split: option.split del: append_take_drop_id)
  show ?thesis
  proof (cases "?p < length es")
    case False
    then show ?thesis using d by (simp add: Let_def)
  next
    case True
    then have c: "drop ?p es = es ! ?p # drop (Suc ?p) es" by (simp add: Cons_nth_drop_Suc)
    have "sorted_keys (drop ?p es)" using assms by (metis drop_map sorted_wrt_drop)
    then have "\<forall>e \<in> set (drop (Suc ?p) es). fst (es ! ?p) < fst e" unfolding c by simp
    moreover have "k \<le> fst (es ! ?p)" using S(2) unfolding c by simp
    ultimately have "map_of (drop (Suc ?p) es) k = None"
      by (force simp: map_of_eq_None_iff)
    then show ?thesis using d True unfolding c by (cases "es ! ?p") (auto simp: Let_def)
  qed
qed

lemma leaf_lookup_is:
  assumes "node_ok n" "sorted_keys (entries n)"
  shows "leaf_lookup n key = (case map_of (entries n) (cstr key) of None \<Rightarrow> Inl ERR_NOTFOUND | Some v \<Rightarrow> Inr v)"
  using assms by (cases "below (cstr key) (entries n) < key_count n")
    (auto simp: leaf_lookup_def lower_bound_is map_of_sorted Let_def length_entries entries_nth strcmp_sgn(1))

lemma put_sorted:
  assumes "sorted_keys es"
  shows "sorted_keys (put k v es)" "set (put k v es) \<subseteq> insert (k, v) (set es)"
    "fst ` set (put k v es) = insert k (fst ` set es)" "map_of (put k v es) = (map_of es)(k \<mapsto> v)" "put k v es \<noteq> []"
proof -
  let ?p = "below k es"
  let ?q = "if ?p < length es \<and> fst (es ! ?p) = k then Suc ?p else ?p"
  note S = below_split [OF assms, of k]
  have pq: "put k v es = take ?p es @ (k, v) # drop ?q es" by (simp add: put_def Let_def)
  have qd: "drop ?q es = drop (?q - ?p) (drop ?p es)" by simp
  have gt: "\<forall>e \<in> set (drop ?q es). k < fst e"
  proof (cases "?p < length es")
    case False
    then show ?thesis by simp
  next
    case True
    then have c: "drop ?p es = es ! ?p # drop (Suc ?p) es" by (simp add: Cons_nth_drop_Suc)
    have "sorted_keys (drop ?p es)" using assms by (metis drop_map sorted_wrt_drop)
    then have "\<forall>e \<in> set (drop (Suc ?p) es). fst (es ! ?p) < fst e" unfolding c by simp
    moreover have "k \<le> fst (es ! ?p)" using S(2) unfolding c by simp
    ultimately have "fst (es ! ?p) = k \<or> (\<forall>e \<in> set (drop ?p es). k < fst e)" unfolding c by auto
    then show ?thesis using \<open>\<forall>e \<in> set (drop (Suc ?p) es). fst (es ! ?p) < fst e\<close> True by auto
  qed
  have srt: "sorted_keys (take ?p es)" "sorted_keys (drop ?q es)"
    using assms by (metis take_map sorted_wrt_take, metis drop_map sorted_wrt_drop)
  show s: "sorted_keys (put k v es)"
    unfolding pq using srt S(1) gt by (force simp: sorted_wrt_append)
  show "put k v es \<noteq> []" unfolding pq by simp
  show "set (put k v es) \<subseteq> insert (k, v) (set es)"
    unfolding pq by (auto dest: in_set_takeD in_set_dropD)
  have D: "insert k (fst ` set (drop ?q es)) = insert k (fst ` set (drop ?p es))"
  proof (cases "?p < length es \<and> fst (es ! ?p) = k")
    case True
    then have c: "drop ?p es = es ! ?p # drop (Suc ?p) es" by (simp add: Cons_nth_drop_Suc)
    show ?thesis using True unfolding c by simp
  qed auto
  have "fst ` set (put k v es) = fst ` set (take ?p es) \<union> insert k (fst ` set (drop ?q es))"
    unfolding pq by (simp add: image_Un del: drop_drop)
  also have "\<dots> = insert k (fst ` (set (take ?p es) \<union> set (drop ?p es)))" unfolding D by blast
  also have "set (take ?p es) \<union> set (drop ?p es) = set es" by (metis append_take_drop_id set_append)
  finally show "fst ` set (put k v es) = insert k (fst ` set es)" .
  show "map_of (put k v es) = (map_of es)(k \<mapsto> v)"
  proof
    fix x
    have "map_of (take ?p es) k = None" using S(1) by (force simp: map_of_eq_None_iff)
    moreover have "x \<noteq> k \<Longrightarrow> map_of (drop ?q es) x = map_of (drop ?p es) x"
    proof (cases "?p < length es \<and> fst (es ! ?p) = k")
      case True
      then have c: "drop ?p es = es ! ?p # drop (Suc ?p) es" by (simp add: Cons_nth_drop_Suc)
      assume "x \<noteq> k"
      then show ?thesis using True unfolding c by (cases "es ! ?p") auto
    qed auto
    moreover have "map_of es x = (map_of (drop ?p es) ++ map_of (take ?p es)) x"
      by (metis append_take_drop_id map_of_append)
    ultimately show "map_of (put k v es) x = ((map_of es)(k \<mapsto> v)) x"
      unfolding pq by (auto simp: map_add_def split: option.split)
  qed
qed

text \<open>Insertion into one of several lists, between what is smaller and what is larger.\<close>

lemma put_append:
  assumes "\<forall>e \<in> set A. fst e < k" "\<forall>e \<in> set B. k < fst e" "sorted_keys xs"
  shows "put k v (A @ xs @ B) = A @ put k v xs @ B"
proof -
  let ?p = "below k xs"
  note S = below_split [OF assms(3), of k]
  have "\<forall>e \<in> set (A @ take ?p xs). fst e < k" using assms(1) S(1) by auto
  moreover have "drop ?p xs @ B = [] \<or> k \<le> fst (hd (drop ?p xs @ B))"
  proof (cases "drop ?p xs @ B")
    case (Cons x ys)
    then have "x \<in> set (drop ?p xs) \<union> set B" by (metis list.set_intros(1) set_append)
    then have "k \<le> fst x" using S(2) assms(2) by auto
    then show ?thesis unfolding Cons by simp
  qed simp
  ultimately have "below k ((A @ take ?p xs) @ drop ?p xs @ B) = length (A @ take ?p xs)"
    by (rule below_append)
  then have b: "below k (A @ xs @ B) = length A + ?p"
    using below_le [of k xs] by (simp flip: append_assoc) (simp add: append_assoc)
  have "(length A + ?p < length (A @ xs @ B) \<and> fst ((A @ xs @ B) ! (length A + ?p)) = k) =
    (?p < length xs \<and> fst (xs ! ?p) = k)"
  proof (cases "?p < length xs")
    case True
    then show ?thesis by (simp add: nth_append)
  next
    case False
    then have "?p = length xs" using below_le [of k xs] by simp
    then show ?thesis using assms(2) by (cases B) (auto simp: nth_append)
  qed
  then show ?thesis using below_le [of k xs] unfolding put_def b by (simp add: Let_def)
qed

section \<open>Operations on the array of entries\<close>

definition ent :: "btree_slot \<Rightarrow> entry" where
  "ent s = (cstr (s_name s), s_value s)"

definition fill :: "btree_slot list \<Rightarrow> node \<Rightarrow> node" where
  "fill ts n = set_count (length ts) (set_slots (patch 0 ts (slots n)) n)"

abbreviation used_slots :: "node \<Rightarrow> btree_slot list" where
  "used_slots n \<equiv> take (key_count n) (slots n)"

lemma entries_ent: "entries n = map ent (used_slots n)"
  by (simp add: entries_def ent_def)

lemma node_okD:
  assumes "node_ok n"
  shows "list_all wf_btree_slot (slots n)" "length (slots n) = 15" "key_count n \<le> 15"
    "length (used_slots n) = key_count n" "list_all wf_btree_slot (used_slots n)"
  using assms by (auto simp: node_ok_def wf_node_def list_all_iff dest: in_set_takeD)

lemma node_ok_slots: "node_ok n \<Longrightarrow> length ss = 15 \<Longrightarrow> list_all wf_btree_slot ss \<Longrightarrow> node_ok (set_slots ss n)"
  by (simp add: node_ok_def wf_node_def)

lemma fill_is:
  assumes "node_ok n" "length ts \<le> 15" "list_all wf_btree_slot ts"
  shows "node_ok (fill ts n)" "entries (fill ts n) = map ent ts" "used_slots (fill ts n) = ts"
    "key_count (fill ts n) = length ts" "is_leaf (fill ts n) = is_leaf n"
    "n_right_sibling (nh (fill ts n)) = n_right_sibling (nh n)"
proof -
  have u: "unat (of_nat (length ts) :: u32) = length ts" using assms(2) by (intro unat_of_nat_small) simp
  note N = node_okD [OF assms(1)]
  have "list_all wf_btree_slot (patch 0 ts (slots n))"
    using N(1) assms(3) by (auto simp: patch_def list_all_iff dest: in_set_dropD)
  then show "node_ok (fill ts n)"
    using assms N u by (simp add: fill_def node_ok_def wf_node_def wf_node_header_def)
  show us: "used_slots (fill ts n) = ts" using u by (simp add: fill_def patch_def)
  show "entries (fill ts n) = map ent ts" unfolding entries_ent us ..
  show "key_count (fill ts n) = length ts" using u by (simp add: fill_def)
  show "is_leaf (fill ts n) = is_leaf n" "n_right_sibling (nh (fill ts n)) = n_right_sibling (nh n)"
    by (simp_all add: fill_def)
qed

lemma new_slot_wf [simp]: "wf_btree_slot (new_slot key v)"
  by (simp add: new_slot_def wf_btree_slot_def btree_key_copy_def)

lemma cstr_key_copy: "cstr (btree_key_copy key) = take 255 (cstr key)"
  by (simp add: btree_key_copy_def cstr_strncpy)

lemma ent_new_slot: "length (cstr key) \<le> 255 \<Longrightarrow> ent (new_slot key v) = (cstr key, v)"
  by (simp add: ent_def new_slot_def cstr_key_copy)

text \<open>The entries with a new one: \<open>memmove\<close> of what follows it and the store.\<close>

lemma insert_slot_is:
  assumes "node_ok n" "pos \<le> key_count n" "wf_btree_slot s"
  shows "insert_slot pos s n = take pos (used_slots n) @ s # drop pos (used_slots n)"
    "length (insert_slot pos s n) = Suc (key_count n)" "list_all wf_btree_slot (insert_slot pos s n)"
    "map ent (insert_slot pos s n) = take pos (entries n) @ ent s # drop pos (entries n)"
proof -
  show i: "insert_slot pos s n = take pos (used_slots n) @ s # drop pos (used_slots n)"
    using assms(2) by (simp add: insert_slot_def slice_def drop_take min_absorb1)
  show "length (insert_slot pos s n) = Suc (key_count n)"
    unfolding i using node_okD(2,3) [OF assms(1)] assms(2) by simp
  show "list_all wf_btree_slot (insert_slot pos s n)"
    unfolding i using node_okD(5) [OF assms(1)] assms(3)
    by (auto simp: list_all_iff simp del: take_take drop_take dest: in_set_takeD in_set_dropD)
  show "map ent (insert_slot pos s n) = take pos (entries n) @ ent s # drop pos (entries n)"
    unfolding i entries_ent by (simp add: take_map drop_map)
qed

lemma set_slot_is:
  assumes "node_ok n" "i < key_count n" "wf_btree_slot s"
  shows "node_ok (set_slots ((slots n)[i := s]) n)"
    "entries (set_slots ((slots n)[i := s]) n) = (entries n)[i := ent s]"
proof -
  have "list_all wf_btree_slot ((slots n)[i := s])"
    using node_okD(1) [OF assms(1)] assms(3) set_update_subset_insert [of "slots n" i s] by (auto simp: list_all_iff)
  then show "node_ok (set_slots ((slots n)[i := s]) n)"
    using node_okD(2) [OF assms(1)] by (intro node_ok_slots [OF assms(1)]) simp_all
  show "entries (set_slots ((slots n)[i := s]) n) = (entries n)[i := ent s]"
    by (simp add: entries_ent take_update_swap map_update)
qed

lemma split_is_fill:
  "split_left tmp n = fill (take (length tmp div 2) tmp) n"
  "split_right tmp n = fill (drop (length tmp div 2) tmp) n"
  by (simp_all add: split_left_def split_right_def fill_def Let_def min_absorb2)

lemma btree_format_is:
  "node_ok (btree_format fl p)" "n_flags (nh (btree_format fl p)) = fl" "entries (btree_format fl p) = []"
  "n_right_sibling (nh (btree_format fl p)) = 0" "key_count (btree_format fl p) = 0"
proof -
  have "wf_node (dec_node (replicate SMKFS_BLOCK_SIZE 0))" by (rule wf_dec_node) simp
  then show "node_ok (btree_format fl p)"
    by (simp add: btree_format_def node_ok_def wf_node_def wf_node_header_def wf_header_def header_init_def header_validate_def Let_def SMKFS_MAGIC_def)
qed (simp_all add: btree_format_def entries_def Let_def)

text \<open>Changes of header fields that the view does not show, or shows as expected.\<close>

lemma node_ok_header [simp]:
  "node_ok (n\<lparr> nh := (nh n)\<lparr> n_parent_block := p \<rparr> \<rparr>) = node_ok n"
  "node_ok (n\<lparr> nh := (nh n)\<lparr> n_right_sibling := s \<rparr> \<rparr>) = node_ok n"
  "node_ok (n\<lparr> nh := (nh n)\<lparr> n_flags := fl, n_header := (n_header (nh n))\<lparr> h_flags := fl \<rparr>,
     n_parent_block := p \<rparr> \<rparr>) = node_ok n"
  by (simp_all add: node_ok_def wf_node_def wf_node_header_def wf_header_def header_validate_def)

lemma entries_header [simp]:
  "entries (n\<lparr> nh := (nh n)\<lparr> n_parent_block := p \<rparr> \<rparr>) = entries n"
  "entries (n\<lparr> nh := (nh n)\<lparr> n_right_sibling := s \<rparr> \<rparr>) = entries n"
  "entries (n\<lparr> nh := (nh n)\<lparr> n_flags := fl, n_header := (n_header (nh n))\<lparr> h_flags := fl \<rparr>,
     n_parent_block := p \<rparr> \<rparr>) = entries n"
  by (simp_all add: entries_def)

end
