(* ===== verification/TreeSpec.thy ===== *)
theory TreeSpec
  imports NodeSpec
begin

text \<open>
  Directories as sorted lists. A \<open>tree\<close> is what the nodes reachable from a root describe:
  \<open>on_disk\<close> says that the volume holds it, \<open>tree_ok\<close> is the search-tree invariant, and
  \<open>flat\<close> is the sorted list of names and record numbers that it stands for. A search is a lookup
  in that list, and an iteration a walk over it.
\<close>

section \<open>Trees\<close>

datatype tree = Leaf u64 "entry list" | Node u64 "(bytes \<times> tree) list"

fun root :: "tree \<Rightarrow> u64" where
  "root (Leaf b es) = b"
| "root (Node b cs) = b"

fun flat :: "tree \<Rightarrow> entry list" where
  "flat (Leaf b es) = es"
| "flat (Node b cs) = concat (map (\<lambda>c. flat (snd c)) cs)"

fun blocks :: "tree \<Rightarrow> u64 list" where
  "blocks (Leaf b es) = [b]"
| "blocks (Node b cs) = b # concat (map (\<lambda>c. blocks (snd c)) cs)"

fun leaves :: "tree \<Rightarrow> u64 list" where
  "leaves (Leaf b es) = [b]"
| "leaves (Node b cs) = concat (map (\<lambda>c. leaves (snd c)) cs)"

fun height :: "tree \<Rightarrow> nat" where
  "height (Leaf b es) = 0"
| "height (Node b cs) = Suc (foldr max (map (\<lambda>c. height (snd c)) cs) 0)"

fun on_disk :: "(u64 \<Rightarrow> view option) \<Rightarrow> tree \<Rightarrow> bool" where
  "on_disk w (Leaf b es) \<longleftrightarrow> (\<exists>s. w b = Some (True, es, s))"
| "on_disk w (Node b cs) \<longleftrightarrow> (\<exists>s. w b = Some (False, map (\<lambda>c. (fst c, root (snd c))) cs, s)) \<and>
     (\<forall>c \<in> set cs. on_disk w (snd c))"

text \<open>A child's fence is a lower bound of its keys; they lie below the next fence.\<close>

definition fenced :: "(bytes \<times> tree) list \<Rightarrow> bool" where
  "fenced cs \<longleftrightarrow> sorted_wrt (\<lambda>c d. fst c < fst d \<and> (\<forall>e \<in> set (flat (snd c)). fst e < fst d)) cs \<and>
     (\<forall>c \<in> set cs. flat (snd c) \<noteq> [] \<and> length (fst c) \<le> 255 \<and> (\<forall>e \<in> set (flat (snd c)). fst c \<le> fst e))"

fun tree_ok :: "tree \<Rightarrow> bool" where
  "tree_ok (Leaf b es) \<longleftrightarrow> sorted_keys es \<and> (\<forall>e \<in> set es. length (fst e) \<le> 255)"
| "tree_ok (Node b cs) \<longleftrightarrow> cs \<noteq> [] \<and> fenced cs \<and> (\<forall>c \<in> set cs. tree_ok (snd c))"

lemma root_in_blocks: "root t \<in> set (blocks t)"
  by (cases t) simp_all

lemma leaves_in_blocks: "set (leaves t) \<subseteq> set (blocks t)"
  by (induction t rule: flat.induct) fastforce+

lemma leaves_nonempty: "tree_ok t \<Longrightarrow> leaves t \<noteq> []"
proof (induction t rule: flat.induct)
  case (2 b cs)
  then obtain c where "c \<in> set cs" by (cases cs) auto
  moreover from this have "leaves (snd c) \<noteq> []" using 2 by auto
  ultimately show ?case by (auto simp: concat_eq_Nil_conv)
qed simp

lemma height_child: "c \<in> set cs \<Longrightarrow> height (snd c) < height (Node b cs)"
proof -
  have "c \<in> set cs \<Longrightarrow> height (snd c) \<le> foldr max (map (\<lambda>c. height (snd c)) cs) 0"
    by (induction cs) auto
  then show "c \<in> set cs \<Longrightarrow> height (snd c) < height (Node b cs)" by simp
qed

lemma on_disk_cong:
  "\<forall>b \<in> set (blocks t). w b = w' b \<Longrightarrow> on_disk w t = on_disk w' t"
  by (induction t rule: flat.induct) auto

lemma fenced_append:
  "fenced (A @ B) \<longleftrightarrow> fenced A \<and> fenced B \<and>
     (\<forall>c \<in> set A. \<forall>d \<in> set B. fst c < fst d \<and> (\<forall>e \<in> set (flat (snd c)). fst e < fst d))"
  by (auto simp: fenced_def sorted_wrt_append)

lemma fenced_Cons:
  "fenced (c # B) \<longleftrightarrow> fenced B \<and> flat (snd c) \<noteq> [] \<and> length (fst c) \<le> 255 \<and>
     (\<forall>e \<in> set (flat (snd c)). fst c \<le> fst e) \<and>
     (\<forall>d \<in> set B. fst c < fst d \<and> (\<forall>e \<in> set (flat (snd c)). fst e < fst d))"
  by (auto simp: fenced_def)

lemma fenced_Nil [simp]: "fenced []"
  by (simp add: fenced_def)

lemma fenced_flat_sorted:
  "fenced cs \<Longrightarrow> \<forall>c \<in> set cs. sorted_keys (flat (snd c)) \<Longrightarrow> sorted_keys (concat (map (\<lambda>c. flat (snd c)) cs))"
proof (induction cs)
  case (Cons c cs)
  have "fst e < fst e'" if "e \<in> set (flat (snd c))" "d \<in> set cs" "e' \<in> set (flat (snd d))" for e d e'
  proof -
    have "fst e < fst d" "fst d \<le> fst e'" using Cons.prems(1) that by (auto simp: fenced_def)
    then show ?thesis by (rule less_le_trans)
  qed
  then show ?case using Cons by (auto simp: fenced_Cons sorted_wrt_append)
qed simp

lemma flat_sorted: "tree_ok t \<Longrightarrow> sorted_keys (flat t)"
  by (induction t rule: flat.induct) (auto intro!: fenced_flat_sorted)

lemma flat_short: "tree_ok t \<Longrightarrow> e \<in> set (flat t) \<Longrightarrow> length (fst e) \<le> 255"
  by (induction t rule: flat.induct) auto

text \<open>The child that the fences choose for a key.\<close>

lemma chosen_child:
  assumes "fenced cs" "cs \<noteq> []"
  obtains A c B where "cs = A @ c # B" "length (takeWhile (\<lambda>c. fst c \<le> k) (tl cs)) = length A"
    "\<forall>d \<in> set A. \<forall>e \<in> set (flat (snd d)). fst e < k" "\<forall>d \<in> set B. k < fst d"
    "\<forall>d \<in> set B. \<forall>e \<in> set (flat (snd d)). k < fst e" "A \<noteq> [] \<Longrightarrow> fst c \<le> k"
proof -
  obtain c0 ds where cs: "cs = c0 # ds" using assms(2) by (cases cs) auto
  let ?T = "takeWhile (\<lambda>c. fst c \<le> k) ds" and ?D = "dropWhile (\<lambda>c. fst c \<le> k) ds"
  have ne: "c0 # ?T \<noteq> []" by simp
  define A c where "A = butlast (c0 # ?T)" and "c = last (c0 # ?T)"
  have s: "cs = A @ c # ?D" unfolding A_def c_def cs by (metis append.assoc append_Cons append_Nil append_butlast_last_id ne takeWhile_dropWhile_id)
  have l: "length A = length ?T" by (simp add: A_def)
  have f: "fenced (A @ c # ?D)" using assms(1) s by simp
  have ck: "fst c \<le> k" if "A \<noteq> []"
  proof -
    have "?T \<noteq> []" using that by (auto simp: A_def)
    then have "c \<in> set ?T" by (simp add: c_def)
    then show ?thesis by (auto dest: set_takeWhileD)
  qed
  have a: "fst e < k" if "d \<in> set A" "e \<in> set (flat (snd d))" for d e
  proof -
    have "fst e < fst c" using f that by (auto simp: fenced_append)
    moreover have "A \<noteq> []" using that(1) by auto
    ultimately show ?thesis using ck by auto
  qed
  have b: "k < fst d" if "d \<in> set ?D" for d
  proof (cases ?D)
    case Nil
    show ?thesis using that unfolding Nil by simp
  next
    case (Cons x xs)
    then have "k < fst x" using hd_dropWhile [of "\<lambda>c. fst c \<le> k" ds] by (auto simp: not_le)
    moreover have "fst x \<le> fst d" using f that unfolding Cons by (auto simp: fenced_append fenced_Cons)
    ultimately show ?thesis by auto
  qed
  have "k < fst e" if "d \<in> set ?D" "e \<in> set (flat (snd d))" for d e
    using b [OF that(1)] f that by (auto simp: fenced_append fenced_def intro: less_le_trans)
  then show thesis using that [OF s _ _ _ _ ck] l a b by (simp add: cs)
qed

lemma map_of_chosen:
  assumes "\<forall>d \<in> set A. \<forall>e \<in> set (flat (snd d)). fst e < k" "\<forall>d \<in> set B. \<forall>e \<in> set (flat (snd d)). k < fst e"
  shows "map_of (flat (Node b (A @ c # B))) k = map_of (flat (snd c)) k"
proof -
  have "map_of (concat (map (\<lambda>c. flat (snd c)) A)) k = None" "map_of (concat (map (\<lambda>c. flat (snd c)) B)) k = None"
    using assms by (force simp: map_of_eq_None_iff)+
  then show ?thesis by (auto simp: map_add_def split: option.split)
qed

section \<open>Searching\<close>

definition data :: "mount \<Rightarrow> u64 \<Rightarrow> bool" where
  "data m b \<longleftrightarrow> sb_data_start (sb m) \<le> b \<and> b < sb_total_blocks (sb m)"

definition view_at :: "mount \<Rightarrow> u64 \<Rightarrow> view option" where
  "view_at m b = nview (block_view m b)"

lemma dataD:
  assumes "sound m" "data m b"
  shows "blk_ok b" "durable m b" "b \<noteq> 0"
  using data_block [OF assms(1)] assms(2) by (auto simp: data_def)

lemma upd_view: "sound m \<Longrightarrow> upd m n (block_view m) m' \<Longrightarrow> data m b \<Longrightarrow> view_at m' b = view_at m b"
  using updD(4) dataD(2) by (simp add: view_at_def)

lemma upd_data: "upd m n v m' \<Longrightarrow> data m' = data m"
  using same_metaD(4,5) updD(2) by (fastforce simp: data_def)

lemma load_view:
  assumes "sound m" "data m b" "view_at m b = Some x"
  obtains n m1 where "btree_load m b = (Inr n, m1)" "upd m 0 (block_view m) m1" "node_ok n" "node_view n = x"
    "node_block (block_view m b) n"
proof -
  obtain n where n: "node_block (block_view m b) n" "node_view n = x"
    using assms(3) by (auto simp: view_at_def nview_Some)
  from btree_load_is [OF assms(1) dataD(1,3) [OF assms(1,2)] n(1)]
  obtain m1 where "btree_load m b = (Inr n, m1)" "upd m 0 (block_view m) m1" .
  from that [OF this node_blockD(1) [OF n(1)] n(2,1)] show thesis .
qed

text \<open>What \<open>view_at\<close> shows, said of the node.\<close>

lemma node_viewD: "node_view n = (l, es, s) \<Longrightarrow> is_leaf n = l \<and> entries n = es \<and> n_right_sibling (nh n) = s"
  by (simp add: node_view_def)

lemma child_of_node:
  assumes "node_ok n" "entries n = map (\<lambda>c. (fst c, root (snd c))) (A @ c # B)"
  shows "s_value (slots n ! length A) = root (snd c)" "cstr (s_name (slots n ! length A)) = fst c"
    "key_count n = length A + Suc (length B)" "length A < key_count n"
proof -
  show k: "key_count n = length A + Suc (length B)" using length_entries [OF assms(1)] assms(2) by simp
  then show "length A < key_count n" by simp
  then show "s_value (slots n ! length A) = root (snd c)" "cstr (s_name (slots n ! length A)) = fst c"
    using entries_nth [OF assms(1), of "length A"] assms(2) by (simp_all add: nth_append)
qed

lemma index_child_chosen:
  assumes "entries n = map (\<lambda>c. (fst c, root (snd c))) cs"
  shows "btree_index_child n key = length (takeWhile (\<lambda>c. fst c \<le> cstr key) (tl cs))"
  by (simp add: index_child_is assms map_tl [symmetric] length_takeWhile_map comp_def)

lemma search_from_is:
  assumes "sound m" "on_disk (view_at m) t" "tree_ok t" "\<forall>b \<in> set (blocks t). data m b"
  obtains m1 where "search_from key (root t) m =
      Some (case map_of (flat t) (cstr key) of None \<Rightarrow> Inl ERR_NOTFOUND | Some v \<Rightarrow> Inr v, m1)"
    "upd m 0 (block_view m) m1"
proof -
  have "\<exists>m1. search_from key (root t) m =
      Some (case map_of (flat t) (cstr key) of None \<Rightarrow> Inl ERR_NOTFOUND | Some v \<Rightarrow> Inr v, m1) \<and>
    upd m 0 (block_view m) m1" if "sound m" "on_disk (view_at m) t" "tree_ok t" "\<forall>b \<in> set (blocks t). data m b" for m
    using that
  proof (induction t arbitrary: m rule: flat.induct)
    case (1 b es)
    then obtain s where v: "view_at m b = Some (True, es, s)" by auto
    have db: "data m b" using 1(4) by simp
    obtain n m1 where l: "btree_load m b = (Inr n, m1)" "upd m 0 (block_view m) m1" "node_ok n"
      "node_view n = (True, es, s)" by (rule load_view [OF 1(1) db v])
    have "search_from key b m = Some (leaf_lookup n key, m1)"
      using node_viewD [OF l(4)] by (subst search_from.simps) (simp add: l(1))
    then show ?case using 1(3) l(2) leaf_lookup_is [OF l(3), of key] node_viewD [OF l(4)] by simp
  next
    case (2 b cs)
    obtain s where v: "view_at m b = Some (False, map (\<lambda>c. (fst c, root (snd c))) cs, s)" using 2(3) by auto
    have db: "data m b" using 2(5) by simp
    obtain n m1 where l: "btree_load m b = (Inr n, m1)" "upd m 0 (block_view m) m1" "node_ok n"
      "node_view n = (False, map (\<lambda>c. (fst c, root (snd c))) cs, s)"
      by (rule load_view [OF 2(2) db v])
    have en: "entries n = map (\<lambda>c. (fst c, root (snd c))) cs" "\<not> is_leaf n" using node_viewD [OF l(4)] by auto
    obtain A c B where c: "cs = A @ c # B" "length (takeWhile (\<lambda>c. fst c \<le> cstr key) (tl cs)) = length A"
      "\<forall>d \<in> set A. \<forall>e \<in> set (flat (snd d)). fst e < cstr key"
      "\<forall>d \<in> set B. \<forall>e \<in> set (flat (snd d)). cstr key < fst e"
      using chosen_child [of cs "cstr key"] 2(4) by (metis tree_ok.simps(2))
    have ic: "btree_index_child n key = length A" using index_child_chosen [OF en(1)] c(2) by simp
    note C = child_of_node [OF l(3) en(1) [unfolded c(1)]]
    have dm: "data m1 = data m" by (rule upd_data [OF l(2)])
    have v1: "on_disk (view_at m1) (snd c)"
    proof -
      have "\<forall>b \<in> set (blocks (snd c)). view_at m1 b = view_at m b"
        using upd_view [OF 2(2) l(2)] 2(5) c(1) by auto
      then show ?thesis using on_disk_cong [of "snd c" "view_at m1" "view_at m"] 2(3) c(1) by auto
    qed
    have "\<exists>m2. search_from key (root (snd c)) m1 =
        Some (case map_of (flat (snd c)) (cstr key) of None \<Rightarrow> Inl ERR_NOTFOUND | Some v \<Rightarrow> Inr v, m2) \<and>
      upd m1 0 (block_view m1) m2"
      using 2(4,5) c(1) by (intro 2(1) [OF _ updD(1) [OF l(2)] v1]) (auto simp: dm)
    then obtain m2 where m2: "search_from key (root (snd c)) m1 =
        Some (case map_of (flat (snd c)) (cstr key) of None \<Rightarrow> Inl ERR_NOTFOUND | Some v \<Rightarrow> Inr v, m2)"
      "upd m1 0 (block_view m1) m2" by blast
    have "search_from key b m = search_from key (root (snd c)) m1"
      using en(2) C(1,4) ic by (subst search_from.simps) (simp add: l(1))
    then show ?case using m2 upd_keep [OF l(2) m2(2)] map_of_chosen [OF c(3,4)] c(1) by auto
  qed
  then show thesis using that assms by blast
qed

section \<open>The chain of leaves\<close>

fun chain :: "(u64 \<Rightarrow> view option) \<Rightarrow> u64 list \<Rightarrow> u64 \<Rightarrow> bool" where
  "chain w [] nxt \<longleftrightarrow> True"
| "chain w (b # bs) nxt \<longleftrightarrow> (\<exists>es. w b = Some (True, es, hd (bs @ [nxt]))) \<and> chain w bs nxt"

lemma chain_append: "chain w (as @ bs) nxt \<longleftrightarrow> chain w as (hd (bs @ [nxt])) \<and> chain w bs nxt"
proof (induction "as")
  case (Cons a "as")
  then show ?case by (cases "as") auto
qed simp

lemma chain_cong: "\<forall>b \<in> set bs. w b = w' b \<Longrightarrow> chain w bs nxt = chain w' bs nxt"
  by (induction bs) auto

definition ents :: "(u64 \<Rightarrow> view option) \<Rightarrow> u64 \<Rightarrow> entry list" where
  "ents w b = (case w b of Some (l, es, s) \<Rightarrow> es | None \<Rightarrow> [])"

lemma flat_leaves: "on_disk w t \<Longrightarrow> flat t = concat (map (ents w) (leaves t))"
proof (induction t rule: flat.induct)
  case (2 b cs)
  have "concat (map (\<lambda>c. flat (snd c)) cs) = concat (map (\<lambda>c. concat (map (ents w) (leaves (snd c)))) cs)"
    by (rule arg_cong [where f = concat], rule map_cong) (use 2 in auto)
  moreover have "concat (map (ents w) (concat xss)) = concat (map (\<lambda>xs. concat (map (ents w) xs)) xss)" for xss
    by (induction xss) simp_all
  ultimately show ?case by (simp add: comp_def)
qed (auto simp: ents_def)

lemma ents_cong: "\<forall>b \<in> set bs. w b = w' b \<Longrightarrow> concat (map (ents w) bs) = concat (map (ents w') bs)"
  by (induction bs) (simp_all add: ents_def)

text \<open>The callback in order over a list of entries, up to the first result other than 0.\<close>

fun visit :: "(bytes \<Rightarrow> u64 \<Rightarrow> 'c \<Rightarrow> int \<times> 'c) \<Rightarrow> entry list \<Rightarrow> 'c \<Rightarrow> int \<times> 'c" where
  "visit cb [] ctx = (0, ctx)"
| "visit cb (e # es) ctx =
     (case cb (fst e) (snd e) ctx of (r, ctx1) \<Rightarrow> if r \<noteq> 0 then (r, ctx1) else visit cb es ctx1)"

lemma visit_append:
  "visit cb (xs @ ys) ctx = (case visit cb xs ctx of (r, ctx1) \<Rightarrow> if r \<noteq> 0 then (r, ctx1) else visit cb ys ctx1)"
  by (induction xs arbitrary: ctx) (auto split: prod.split)

lemma visit_slots_is: "visit_slots (\<lambda>s. cb (cstr s)) ss ctx = visit cb (map ent ss) ctx"
  by (induction ss arbitrary: ctx) (auto simp: ent_def split: prod.split)

lemma leaf_chain_is:
  assumes "sound m" "chain (view_at m) bs 0" "\<forall>b \<in> set bs. data m b"
  shows "\<exists>m1. leaf_chain (\<lambda>s. cb (cstr s)) (hd (bs @ [0])) ctx m =
      Some (fst (visit cb (concat (map (ents (view_at m)) bs)) ctx), snd (visit cb (concat (map (ents (view_at m)) bs)) ctx), m1) \<and>
    upd m 0 (block_view m) m1"
  using assms
proof (induction bs arbitrary: m ctx)
  case Nil
  then show ?case using upd_refl by (subst leaf_chain.simps) simp
next
  case (Cons b bs)
  then obtain es where v: "view_at m b = Some (True, es, hd (bs @ [0]))" by auto
  have db: "data m b" using Cons.prems(3) by simp
  obtain n m1 where l: "btree_load m b = (Inr n, m1)" "upd m 0 (block_view m) m1" "node_ok n"
    "node_view n = (True, es, hd (bs @ [0]))" by (rule load_view [OF Cons.prems(1) db v])
  note N = node_viewD [OF l(4)]
  have vs: "visit_slots (\<lambda>s. cb (cstr s)) (used_slots n) ctx = visit cb es ctx"
    using visit_slots_is [of cb "used_slots n" ctx] N entries_ent [of n] by simp
  have e: "ents (view_at m) b = es" by (simp add: ents_def v)
  obtain r ctx1 where rc: "visit cb es ctx = (r, ctx1)" by fastforce
  have nz: "b \<noteq> 0" using dataD(3) [OF Cons.prems(1) db] .
  have step: "leaf_chain (\<lambda>s. cb (cstr s)) b ctx m =
      (if r \<noteq> 0 then Some (r, ctx1, m1) else leaf_chain (\<lambda>s. cb (cstr s)) (hd (bs @ [0])) ctx1 m1)"
    using N nz by (subst leaf_chain.simps) (simp add: l(1) vs rc)
  show ?case
  proof (cases "r = 0")
    case False
    then show ?thesis using step l(2) by (simp add: e visit_append rc)
  next
    case True
    have eq: "\<forall>c \<in> set bs. view_at m1 c = view_at m c"
      using upd_view [OF Cons.prems(1) l(2)] Cons.prems(3) by simp
    have "chain (view_at m1) bs 0" using Cons.prems(2) chain_cong [OF eq] by simp
    moreover have "\<forall>b \<in> set bs. data m1 b" using Cons.prems(3) upd_data [OF l(2)] by simp
    moreover note ents_cong [OF eq]
    ultimately show ?thesis
      using Cons.IH [OF updD(1) [OF l(2)], of ctx1] step True upd_keep [OF l(2)] by (auto simp: e visit_append rc)
  qed
qed

lemma leftmost_leaf_is:
  assumes "sound m" "on_disk (view_at m) t" "tree_ok t" "\<forall>b \<in> set (blocks t). data m b"
  shows "\<exists>m1. leftmost_leaf (root t) m = Some (Inr (hd (leaves t)), m1) \<and> upd m 0 (block_view m) m1"
  using assms
proof (induction t arbitrary: m rule: flat.induct)
  case (1 b es)
  then obtain s where v: "view_at m b = Some (True, es, s)" by auto
  have db: "data m b" using 1(4) by simp
  obtain n m1 where l: "btree_load m b = (Inr n, m1)" "upd m 0 (block_view m) m1" "node_ok n"
    "node_view n = (True, es, s)" by (rule load_view [OF 1(1) db v])
  then show ?case using node_viewD [OF l(4)] by (subst leftmost_leaf.simps) simp
next
  case (2 b cs)
  obtain s where v: "view_at m b = Some (False, map (\<lambda>c. (fst c, root (snd c))) cs, s)" using 2(3) by auto
  have db: "data m b" using 2(5) by simp
  obtain n m1 where l: "btree_load m b = (Inr n, m1)" "upd m 0 (block_view m) m1" "node_ok n"
    "node_view n = (False, map (\<lambda>c. (fst c, root (snd c))) cs, s)" by (rule load_view [OF 2(2) db v])
  obtain c ds where cs: "cs = [] @ c # ds" using 2(4) by (cases cs) auto
  have en: "entries n = map (\<lambda>c. (fst c, root (snd c))) ([] @ c # ds)" "\<not> is_leaf n"
    using node_viewD [OF l(4)] cs by auto
  note C = child_of_node [OF l(3) en(1)]
  have v1: "on_disk (view_at m1) (snd c)"
  proof -
    have "\<forall>b \<in> set (blocks (snd c)). view_at m1 b = view_at m b"
      using upd_view [OF 2(2) l(2)] 2(5) cs by auto
    then show ?thesis using on_disk_cong [of "snd c" "view_at m1" "view_at m"] 2(3) cs by auto
  qed
  have "\<exists>m2. leftmost_leaf (root (snd c)) m1 = Some (Inr (hd (leaves (snd c))), m2) \<and> upd m1 0 (block_view m1) m2"
    using 2(4,5) cs by (intro 2(1) [OF _ updD(1) [OF l(2)] v1]) (auto simp: upd_data [OF l(2)])
  then obtain m2 where m2: "leftmost_leaf (root (snd c)) m1 = Some (Inr (hd (leaves (snd c))), m2)"
    "upd m1 0 (block_view m1) m2" by blast
  have "leftmost_leaf b m = leftmost_leaf (root (snd c)) m1"
    using en(2) C(1,4) by (subst leftmost_leaf.simps) (simp add: l(1))
  moreover have "leaves (snd c) \<noteq> []" using leaves_nonempty 2(4) cs by auto
  ultimately show ?case using m2 upd_keep [OF l(2) m2(2)] cs by auto
qed

section \<open>Trees of a volume\<close>

definition index_of :: "mount \<Rightarrow> u64 \<Rightarrow> nat" where
  "index_of m b = unat b - unat (sb_data_start (sb m))"

definition tree_in :: "mount \<Rightarrow> tree \<Rightarrow> bool" where
  "tree_in m t \<longleftrightarrow> on_disk (view_at m) t \<and> tree_ok t \<and> distinct (blocks t) \<and> chain (view_at m) (leaves t) 0 \<and>
     (\<forall>b \<in> set (blocks t). data m b \<and> used m (index_of m b))"

lemma tree_inD:
  assumes "tree_in m t"
  shows "on_disk (view_at m) t" "tree_ok t" "distinct (blocks t)" "chain (view_at m) (leaves t) 0"
    "\<forall>b \<in> set (blocks t). data m b" "\<forall>b \<in> set (blocks t). used m (index_of m b)"
  using assms by (simp_all add: tree_in_def)

lemma btree_search_is:
  assumes "sound m" "tree_in m t"
  obtains m1 where "btree_search m (root t) key =
      Some (case map_of (flat t) (cstr key) of None \<Rightarrow> Inl ERR_NOTFOUND | Some v \<Rightarrow> Inr v, m1)"
    "upd m 0 (block_view m) m1"
proof -
  note T = tree_inD [OF assms(2)]
  have "root t \<noteq> 0" using dataD(3) [OF assms(1)] T(5) root_in_blocks by blast
  moreover obtain m1 where "search_from key (root t) m =
      Some (case map_of (flat t) (cstr key) of None \<Rightarrow> Inl ERR_NOTFOUND | Some v \<Rightarrow> Inr v, m1)"
    "upd m 0 (block_view m) m1" by (rule search_from_is [OF assms(1) T(1,2,5)])
  ultimately show thesis using that soundD(3) [OF assms(1)] by (simp add: btree_search_def)
qed

lemma btree_iterate_is:
  assumes "sound m" "tree_in m t"
  obtains m1 where "btree_iterate m (root t) (\<lambda>s. cb (cstr s)) ctx =
      Some (fst (visit cb (flat t) ctx), snd (visit cb (flat t) ctx), m1)" "upd m 0 (block_view m) m1"
proof -
  note T = tree_inD [OF assms(2)]
  have r0: "root t \<noteq> 0" using dataD(3) [OF assms(1)] T(5) root_in_blocks by blast
  obtain m1 where l: "leftmost_leaf (root t) m = Some (Inr (hd (leaves t)), m1)" "upd m 0 (block_view m) m1"
    using leftmost_leaf_is [OF assms(1) T(1,2,5)] by blast
  have dl: "\<forall>b \<in> set (leaves t). data m b" using T(5) leaves_in_blocks by blast
  then have eq: "\<forall>b \<in> set (leaves t). view_at m1 b = view_at m b" using upd_view [OF assms(1) l(2)] by simp
  have ch: "chain (view_at m1) (leaves t) 0" using T(4) chain_cong [OF eq] by simp
  have d1: "\<forall>b \<in> set (leaves t). data m1 b" using dl upd_data [OF l(2)] by simp
  have fl: "concat (map (ents (view_at m1)) (leaves t)) = flat t"
    using flat_leaves [OF T(1)] ents_cong [OF eq] by simp
  have hd: "hd (leaves t @ [0]) = hd (leaves t)" using leaves_nonempty [OF T(2)] by simp
  obtain m2 where "leaf_chain (\<lambda>s. cb (cstr s)) (hd (leaves t)) ctx m1 =
      Some (fst (visit cb (flat t) ctx), snd (visit cb (flat t) ctx), m2)" "upd m1 0 (block_view m1) m2"
    using leaf_chain_is [OF updD(1) [OF l(2)] ch d1, of cb ctx, unfolded fl hd] by blast
  then show thesis using that l upd_keep [OF l(2)] r0 soundD(3) [OF assms(1)] by (simp add: btree_iterate_def)
qed

end
