(* ===== verification/TreeStep.thy ===== *)
theory TreeStep
  imports TreeSpec
begin

text \<open>
  Chains of the steps that change a tree: storing nodes, allocating blocks.
  \<open>step m n f U m'\<close>: \<open>m'\<close> is a sound volume with at most \<open>n\<close> more journal entries, on which the
  data blocks in the domain of \<open>f\<close> hold the nodes that \<open>f\<close> says, all others, the table of
  records and the superblock's block are as before, and exactly the blocks of \<open>U\<close> have been
  allocated.
\<close>

section \<open>Allocation and the journal\<close>

definition ring :: "mount \<Rightarrow> u64 \<times> u64 \<times> u64" where
  "ring m = (sb_journal_head (sb m), sb_journal_tail (sb m), sb_journal_length (sb m))"

definition ring_next :: "mount \<Rightarrow> u64 \<times> u64 \<times> u64" where
  "ring_next m = (journal_next_pos m (sb_journal_head (sb m)), sb_journal_tail (sb m), sb_journal_length (sb m))"

lemma ring_next_cong: "ring m' = ring m \<Longrightarrow> ring_next m' = ring_next m"
  by (simp add: ring_def ring_next_def journal_next_pos_def)

lemma ring_simps [simp]:
  "ring (region_claim i m) = ring m" "ring (region_release i m) = ring m" "ring (add_free_blocks k m) = ring m"
  "ring (m\<lparr> regions := x \<rparr>) = ring m" "ring (m\<lparr> alloc_hint_region := h \<rparr>) = ring m"
  "ring (snd (read_block m b)) = ring m" "ring (snd (write_block m b v)) = ring m"
  by (simp_all add: ring_def region_claim_def region_release_def add_free_blocks_def Let_def split: option.split)

lemma ring_io:
  "read_block m x = (y, m1) \<Longrightarrow> ring m1 = ring m" "write_block m x v = (st, m1) \<Longrightarrow> ring m1 = ring m"
  using ring_simps(6) [of m x] ring_simps(7) [of m x v] by simp_all

lemma ring_clear [simp]: "ring (snd (bitmap_clear m b)) = ring m"
  by (auto simp: bitmap_clear_def Let_def bindS_def orE_def orS_def ring_io
      split: prod.splits sum.splits if_splits dest: ring_io)

lemma ring_clear_all [simp]: "ring (clear_all b n m) = ring m"
proof -
  have "ring (fold (\<lambda>j m. snd (bitmap_clear m (b + of_nat j))) js m) = ring m" for js
    by (induction js arbitrary: m) simp_all
  then show ?thesis by (simp add: clear_all_def)
qed

lemma ring_claim_all [simp]: "ring (fold (\<lambda>b. region_claim (f b)) js m) = ring m"
  by (induction js arbitrary: m) simp_all

lemma ring_linear_set: "ring (snd (linear_set js m)) = ring m"
proof (induction js arbitrary: m)
  case (Cons j js)
  then show ?case by (auto simp: Let_def split: prod.splits sum.splits dest!: ring_io)
qed simp

lemma ring_log: "ring (snd (journal_log_alloc m b c)) = (if fst (journal_log_alloc m b c) = OK then ring_next m else ring m)"
  unfolding journal_log_alloc_def using journal_write_entry_sb [of m SMKFS_JOP_ALLOC b c 0 None]
  by (simp add: ring_def ring_next_def)

lemma ring_log_add:
  "ring m2 = ring m \<Longrightarrow> ring (snd (journal_log_alloc (add_free_blocks k m2) b c)) =
     (if fst (journal_log_alloc (add_free_blocks k m2) b c) = OK then ring_next m else ring m)"
  using ring_next_cong [of "add_free_blocks k m2" m] by (simp add: ring_log)

lemma ring_alloc_in_region:
  "ring (snd (bitmap_alloc_in_region m region count)) =
     (if fst (bitmap_alloc_in_region m region count) = 0 then ring m else ring_next m)"
proof -
  have r: "ring (snd (write_block (snd (read_block m b)) x v)) = ring m" for b x v by simp
  note L = ring_log_add [OF r]
  show ?thesis
    unfolding bitmap_alloc_in_region_def Let_def case_prod_unfold
    by (auto simp: L split: sum.split)
qed

lemma ring_linear_take: "fst (linear_take s count m) \<noteq> 0 \<Longrightarrow> ring (snd (linear_take s count m)) = ring_next m"
proof -
  obtain ok m1 where l: "linear_set [s..<s + unat count] m = (ok, m1)" by fastforce
  then have "ring m1 = ring m" using ring_linear_set [of "[s..<s + unat count]" m] by simp
  note L = ring_log_add [OF this]
  show "fst (linear_take s count m) \<noteq> 0 \<Longrightarrow> ring (snd (linear_take s count m)) = ring_next m"
    using l L by (cases ok) (auto simp: linear_take_def Let_def split: if_splits)
qed

lemma ring_linear_scan:
  "fst (linear_scan count bbs s k m) \<noteq> 0 \<Longrightarrow> ring (snd (linear_scan count bbs s k m)) = ring_next m"
proof (induction bbs arbitrary: s k m)
  case (Cons bb bbs)
  obtain r m1 where rd: "read_block m (sb_bitmap_start (sb m) + of_nat bb) = (r, m1)" by fastforce
  have n: "ring_next m1 = ring_next m" by (rule ring_next_cong [OF ring_io(1) [OF rd]])
  show ?case using Cons.prems Cons.IH [of _ _ m1] ring_linear_take [of _ count m1]
    by (auto simp: rd n split: sum.splits prod.splits)
qed simp

lemma ring_linear: "fst (bitmap_alloc_range_linear m count) \<noteq> 0 \<Longrightarrow> ring (snd (bitmap_alloc_range_linear m count)) = ring_next m"
  using ring_linear_scan by (auto simp: bitmap_alloc_range_linear_def split: if_splits)

lemma ring_region_search:
  "fst (region_search hint start count rs m) \<noteq> 0 \<Longrightarrow> ring (snd (region_search hint start count rs m)) = ring_next m"
proof (induction rs arbitrary: m)
  case Nil
  then show ?case using ring_linear by simp
next
  case (Cons r rs)
  let ?g = "(start + of_nat r) mod region_count m"
  obtain b m1 where al: "bitmap_alloc_in_region m ?g count = (b, m1)" by fastforce
  have R: "ring m1 = (if b = 0 then ring m else ring_next m)" using ring_alloc_in_region [of m ?g count] by (simp add: al)
  have e: "region_search hint start count (r # rs) m =
      (if rg_free_count (the (regions m) ! unat ?g) \<ge> count
       then (if b \<noteq> 0 then (b, m1\<lparr> alloc_hint_region := hint ?g \<rparr>) else region_search hint start count rs m1)
       else region_search hint start count rs m)"
    by (simp only: region_search.simps Let_def al prod.case)
  show ?case
  proof (cases "rg_free_count (the (regions m) ! unat ?g) \<ge> count \<and> b = 0")
    case True
    then have "ring m1 = ring m" using R by simp
    then have "ring_next m1 = ring_next m" by (rule ring_next_cong)
    moreover have "region_search hint start count (r # rs) m = region_search hint start count rs m1" using True e by simp
    ultimately show ?thesis using Cons.IH [of m1] Cons.prems by metis
  next
    case False
    then show ?thesis using e R Cons.IH [of m] Cons.prems
      by (cases "rg_free_count (the (regions m) ! unat ?g) \<ge> count") simp_all
  qed
qed

lemma ring_alloc: "fst (bitmap_alloc m) \<noteq> 0 \<Longrightarrow> ring (snd (bitmap_alloc m)) = ring_next m"
  using ring_region_search ring_linear by (auto simp: bitmap_alloc_def split: if_splits)

section \<open>Steps\<close>

definition meta_eq :: "mount \<Rightarrow> mount \<Rightarrow> bool" where
  "meta_eq m m' \<longleftrightarrow> layout_eq (sb m) (sb m') \<and> sb_record_count (sb m') = sb_record_count (sb m) \<and>
     sb_next_record_id (sb m') = sb_next_record_id (sb m) \<and>
     sb_mrt_free_count (sb m') = sb_mrt_free_count (sb m) \<and>
     heap_ok m' = heap_ok m \<and> journal_in_transaction m' = journal_in_transaction m \<and>
     fd_table m' = fd_table m \<and> mounted m' = mounted m"

lemma meta_eq_refl [simp]: "meta_eq m m"
  by (simp add: meta_eq_def)

lemma meta_eq_trans: "meta_eq m m1 \<Longrightarrow> meta_eq m1 m2 \<Longrightarrow> meta_eq m m2"
  by (auto simp: meta_eq_def intro: layout_eq_trans)

lemma meta_eqD:
  assumes "meta_eq m m'"
  shows "data m' = data m" "ndata m' = ndata m" "index_of m' = index_of m" "heap_ok m' = heap_ok m"
    "journal_in_transaction m' = journal_in_transaction m" "sb_journal_length (sb m') = sb_journal_length (sb m)"
    "sb_data_start (sb m') = sb_data_start (sb m)" "sb_mrt_start (sb m') = sb_mrt_start (sb m)"
    "sb_bitmap_start (sb m') = sb_bitmap_start (sb m)" "sb_bitmap_length (sb m') = sb_bitmap_length (sb m)"
  using assms by (auto simp: meta_eq_def layout_eq_def data_def ndata_def data_blocks_def index_of_def fun_eq_iff)

lemma same_meta_eq: "same_meta m m' \<Longrightarrow> meta_eq m m'"
  by (auto simp: same_meta_def meta_eq_def layout_eq_def)

lemma alloc_meta_eq: "alloc_frame m m' \<Longrightarrow> meta_eq m m'"
  by (simp add: alloc_frame_def meta_eq_def)

text \<open>The blocks that are not bitmap or journal.\<close>

definition stable :: "mount \<Rightarrow> u64 \<Rightarrow> bool" where
  "stable m c \<longleftrightarrow> blk_ok c \<and> (c = 0 \<or> sb_mrt_start (sb m) \<le> c)"

definition step :: "mount \<Rightarrow> nat \<Rightarrow> (u64 \<rightharpoonup> view) \<Rightarrow> nat set \<Rightarrow> mount \<Rightarrow> bool" where
  "step m n f U m' \<longleftrightarrow> sound m' \<and> meta_eq m m' \<and> ring_used (sb m') \<le> ring_used (sb m) + n \<and>
     (\<forall>c \<in> dom f. data m c) \<and>
     (\<forall>c. stable m c \<and> f c = None \<longrightarrow> block_view m' c = block_view m c) \<and>
     (\<forall>c x. stable m c \<and> f c = Some x \<longrightarrow> view_at m' c = Some x) \<and>
     (\<forall>i < ndata m. used m' i \<longleftrightarrow> i \<in> U \<or> used m i) \<and> U \<subseteq> {i. i < ndata m \<and> \<not> used m i}"

lemma stepD:
  assumes "step m n f U m'"
  shows "sound m'" "meta_eq m m'" "ring_used (sb m') \<le> ring_used (sb m) + n" "\<forall>c \<in> dom f. data m c"
    "i < ndata m \<Longrightarrow> used m' i \<longleftrightarrow> i \<in> U \<or> used m i" "U \<subseteq> {i. i < ndata m \<and> \<not> used m i}"
    "stable m c \<Longrightarrow> f c = None \<Longrightarrow> block_view m' c = block_view m c"
    "stable m c \<Longrightarrow> f c = Some x \<Longrightarrow> view_at m' c = Some x"
  using assms unfolding step_def by blast+

lemma data_stable: "sound m \<Longrightarrow> data m c \<Longrightarrow> stable m c"
proof -
  assume s: "sound m" and d: "data m c"
  have "geom (sb m)" by (rule vol_okD(3) [OF soundD(1) [OF s]])
  then have "sb_mrt_start (sb m) \<le> c" using d by (auto simp: geom_def data_def word_le_nat_alt)
  then show "stable m c" using dataD(1) [OF s d] by (simp add: stable_def)
qed

lemma step_view: "sound m \<Longrightarrow> step m n f U m' \<Longrightarrow> data m c \<Longrightarrow> view_at m' c = (view_at m ++ f) c"
  using stepD(7,8) [of m n f U m' c] data_stable [of m c]
  by (cases "f c") (auto simp: view_at_def map_add_def)

lemma step_refl: "sound m \<Longrightarrow> step m 0 Map.empty {} m"
  by (simp add: step_def)

lemma step_mono: "step m n f U m' \<Longrightarrow> n \<le> k \<Longrightarrow> step m k f U m'"
  by (auto simp: step_def)

lemma step_trans:
  assumes "step m n f U m1" "step m1 k g W m2"
  shows "step m (n + k) (f ++ g) (U \<union> W) m2"
proof -
  note A = stepD [OF assms(1)] and B = stepD [OF assms(2)] and M = meta_eqD [OF stepD(2) [OF assms(1)]]
  have st: "stable m1 = stable m" using M(8) by (simp add: stable_def fun_eq_iff)
  have n: "block_view m2 c = block_view m c" if "stable m c" "(f ++ g) c = None" for c
    using A(7) [of c] B(7) [of c] that st by (auto simp: map_add_None)
  have v: "view_at m2 c = Some x" if "stable m c" "(f ++ g) c = Some x" for c x
    using A(8) [of c x] B(7) [of c] B(8) [of c x] that st by (auto simp: map_add_Some_iff view_at_def)
  have "used m2 i \<longleftrightarrow> i \<in> U \<union> W \<or> used m i" if "i < ndata m" for i
    using A(5) [OF that] B(5) [of i] that M(2) by auto
  moreover have "U \<union> W \<subseteq> {i. i < ndata m \<and> \<not> used m i}"
    using A(5,6) B(6) M(2) by auto
  moreover have "\<forall>c \<in> dom (f ++ g). data m c" using A(4) B(4) M(1) by auto
  ultimately show ?thesis
    using A(3) B(1,3) meta_eq_trans [OF A(2) B(2)] n v unfolding step_def by force
qed

text \<open>The journal has space for \<open>n\<close> entries after what a step has used.\<close>

lemma step_room: "step m n f U m' \<Longrightarrow> room m (n + k) \<Longrightarrow> room m' k"
  using meta_eqD(5,6) [of m m'] by (auto simp: step_def room_def)

definition free :: "mount \<Rightarrow> nat" where
  "free m = card {i. i < ndata m \<and> \<not> used m i}"

lemma step_free:
  assumes "step m n f U m'"
  shows "free m' + card U = free m" "finite U"
proof -
  have fin: "finite {i. i < ndata m \<and> \<not> used m i}" by simp
  have e: "{i. i < ndata m' \<and> \<not> used m' i} = {i. i < ndata m \<and> \<not> used m i} - U"
    using stepD(5) [OF assms] meta_eqD(2) [OF stepD(2) [OF assms]] by auto
  show "finite U" using finite_subset [OF stepD(6) [OF assms] fin] .
  then show "free m' + card U = free m"
    unfolding free_def e using card_Diff_subset [OF _ stepD(6) [OF assms]] card_mono [OF fin stepD(6) [OF assms]] by simp
qed

section \<open>The steps of the tree's operations\<close>

lemma upd_step:
  assumes "sound m" "upd m n (block_view m) m'"
  shows "step m n Map.empty {} m'"
proof -
  have g: "geom (sb m)" by (rule vol_okD(3) [OF soundD(1) [OF assms(1)]])
  have v: "block_view m' c = block_view m c" if "durable m c" for c using updD(4) [OF assms(2) that] .
  have st: "stable m c \<Longrightarrow> durable m c" for c
    using g by (auto simp: stable_def durable_def geom_def word_le_nat_alt)
  have "used m' i = used m i" if "i < ndata m" for i
  proof -
    have "i < unat (sb_bitmap_length (sb m)) * 32768" using geom_data(2) [OF g] that by simp
    note B = bm_blk [OF g this]
    have "sb_bitmap_start (sb m) \<le> sb_bitmap_start (sb m) + of_nat (i div 32768)" using B(1) by (simp add: word_le_nat_alt)
    then have "durable m (sb_bitmap_start (sb m) + of_nat (i div 32768))" using B(2) by (simp add: durable_def)
    then show ?thesis using v same_metaD(12) [OF updD(2) [OF assms(2)]] by (simp add: used_def)
  qed
  then show ?thesis
    using updD [OF assms(2)] v st same_meta_eq by (simp add: step_def)
qed

lemma load_step:
  assumes "sound m" "data m b" "view_at m b = Some x"
  obtains n m1 where "btree_load m b = (Inr n, m1)" "step m 0 Map.empty {} m1" "node_ok n" "node_view n = x"
  using load_view [OF assms] upd_step [OF assms(1)] by metis

lemma store_step:
  assumes "sound m" "data m b" "room m 1" "node_ok n"
  obtains m1 where "btree_store m b n = (OK, m1)" "step m 1 [b \<mapsto> node_view n] {} m1"
proof -
  note D = dataD [OF assms(1,2)]
  obtain m1 where st: "btree_store m b n = (OK, m1)" and u: "upd m 1 ((block_view m)(b := node_image n)) m1"
    by (rule btree_store_is [OF assms(1,3) D(1,3) assms(4)])
  have g: "geom (sb m)" by (rule vol_okD(3) [OF soundD(1) [OF assms(1)]])
  have std: "stable m c \<Longrightarrow> durable m c" for c
    using g by (auto simp: stable_def durable_def geom_def word_le_nat_alt)
  have v: "block_view m1 c = (if c = b then node_image n else block_view m c)" if "durable m c" for c
    using updD(4) [OF u that] by simp
  have "used m1 i = used m i" if "i < ndata m" for i
  proof -
    have "i < unat (sb_bitmap_length (sb m)) * 32768" using geom_data(2) [OF g] that by simp
    note B = bm_blk [OF g this]
    have "sb_bitmap_start (sb m) \<le> sb_bitmap_start (sb m) + of_nat (i div 32768)" using B(1) by (simp add: word_le_nat_alt)
    then have "durable m (sb_bitmap_start (sb m) + of_nat (i div 32768))" using B(2) by (simp add: durable_def)
    moreover have "sb_bitmap_start (sb m) + of_nat (i div 32768) \<noteq> b"
      using B(4) assms(2) g by (auto simp: data_def geom_def word_le_nat_alt word_less_nat_alt)
    ultimately show ?thesis using v same_metaD(12) [OF updD(2) [OF u]] by (simp add: used_def)
  qed
  moreover have "view_at m1 b = Some (node_view n)" using v [OF D(2)] nview_image [OF assms(4)] by (simp add: view_at_def)
  ultimately have "step m 1 [b \<mapsto> node_view n] {} m1"
    using updD [OF u] v std same_meta_eq assms(2) by (auto simp: step_def)
  with that st show thesis by blast
qed

lemma index_of_data:
  assumes "sound m" "i < ndata m"
  shows "index_of m (sb_data_start (sb m) + of_nat i) = i" "data m (sb_data_start (sb m) + of_nat i)"
proof -
  have g: "geom (sb m)" by (rule vol_okD(3) [OF soundD(1) [OF assms(1)]])
  note I = block_index [OF g assms(2)]
  have le: "sb_data_start (sb m) \<le> sb_data_start (sb m) + of_nat i" using I(1) by simp
  show ix: "index_of m (sb_data_start (sb m) + of_nat i) = i"
    unfolding index_of_def using I(2) unat_sub_le [OF le] by simp
  have "ndata m = unat (sb_total_blocks (sb m)) - unat (sb_data_start (sb m))" using geom_data(1) [OF g] .
  then show "data m (sb_data_start (sb m) + of_nat i)"
    using le ix assms(2) by (simp add: data_def index_of_def word_less_nat_alt word_le_nat_alt)
qed

lemma index_of_inj: "data m b \<Longrightarrow> data m c \<Longrightarrow> index_of m b = index_of m c \<Longrightarrow> b = c"
  by (auto simp: data_def index_of_def word_le_nat_alt word_unat_eq_iff)

lemma alloc_step:
  assumes "sound m" "room m 1" "0 < free m"
  obtains b m1 where "bitmap_alloc m = (b, m1)" "b \<noteq> 0" "step m 1 Map.empty {index_of m b} m1" "data m b"
    "index_of m b < ndata m" "\<not> used m (index_of m b)"
proof -
  have one: "0 < unat (1 :: u32)" by simp
  have al: "bitmap_alloc_range m 1 = bitmap_alloc m" by (simp add: bitmap_alloc_range_def)
  note A = bitmap_alloc_range_sound [OF assms(1) one, unfolded al]
  have cl: "can_log m 1" using room_not_full [OF assms(1,2)] assms(2) by (simp add: can_log_def room_def)
  have "{i. i < ndata m \<and> \<not> used m i} \<noteq> {}" using assms(3) unfolding free_def by (metis card.empty less_irrefl)
  then obtain i where i: "i < ndata m" "\<not> used m i" by blast
  have nz: "fst (bitmap_alloc m) \<noteq> 0"
  proof
    assume "fst (bitmap_alloc m) = 0"
    from A(2) [OF cl this, of i] i show False by (auto simp: less_Suc_eq_le)
  qed
  obtain b m1 where bm: "bitmap_alloc m = (b, m1)" by fastforce
  obtain s where s: "b = sb_data_start (sb m) + of_nat s" "s < ndata m" "\<not> used m s"
    and bn: "bits_now m (\<lambda>j. (s \<le> j \<and> j < s + unat (1 :: u32)) \<or> used m j) (- ucast (1 :: u32)) m1"
    using A(1) nz bm by (auto simp: alloc_result_def)
  have ix: "index_of m b = s" "data m b" unfolding s(1) using index_of_data [OF assms(1) s(2)] by auto
  have le: "ndata m \<le> unat (sb_bitmap_length (sb m)) * 32768"
    using geom_data(2) vol_okD(3) soundD(1) assms(1) by blast
  have "used m1 j \<longleftrightarrow> j = s \<or> used m j" if "j < ndata m" for j
    using bits_nowD(3) [OF bn, of j] that le by auto
  moreover have "ring m1 = ring_next m" using ring_alloc [of m] nz bm by simp
  then have "ring_used (sb m1) = Suc (ring_used (sb m))"
    using ring_used_next [OF vol_okD(4) [OF soundD(1) [OF assms(1)]] room_not_full [OF assms(1,2)]]
    by (simp add: ring_def ring_next_def ring_used_def)
  moreover have "block_view m1 c = block_view m c" if "stable m c" for c
    using bits_nowD(2) [OF bn] that by (simp add: alloc_frame_def stable_def)
  ultimately have "step m 1 Map.empty {index_of m b} m1"
    using bits_nowD(1,2) [OF bn] alloc_meta_eq s(2,3) by (auto simp: step_def ix)
  with that [OF bm] show thesis using nz bm ix s by simp
qed

lemma parent_step:
  assumes "sound m" "data m b" "view_at m b = Some x" "room m 1"
  obtains m1 where "btree_set_parent m b p = (OK, m1)" "step m 1 [b \<mapsto> x] {} m1"
proof -
  obtain n m1 where l: "btree_load m b = (Inr n, m1)" "step m 0 Map.empty {} m1" "node_ok n" "node_view n = x"
    by (rule load_step [OF assms(1-3)])
  let ?n = "n\<lparr> nh := (nh n)\<lparr> n_parent_block := p \<rparr> \<rparr>"
  have d: "data m1 b" using assms(2) meta_eqD(1) [OF stepD(2) [OF l(2)]] by simp
  have r: "room m1 1" using step_room [OF l(2), of 1] assms(4) by simp
  have ok: "node_ok ?n" using l(3) by simp
  obtain m2 where s: "btree_store m1 b ?n = (OK, m2)" "step m1 1 [b \<mapsto> node_view ?n] {} m2"
    by (rule store_step [OF stepD(1) [OF l(2)] d r ok])
  have "node_view ?n = x" using l(4) by (simp add: node_view_def)
  then have "step m 1 [b \<mapsto> x] {} m2" using step_trans [OF l(2) s(2)] by simp
  moreover have "btree_set_parent m b p = (OK, m2)"
    using soundD(3) [OF assms(1)] l(1) s(1) by (simp add: btree_set_parent_def bindS_def)
  ultimately show thesis using that by blast
qed

lemma parents_step:
  assumes "sound m" "\<forall>b \<in> set bs. data m b \<and> view_at m b \<noteq> None" "room m (length bs)"
  shows "\<exists>f m1. set_parents bs p m = (OK, m1) \<and> step m (length bs) f {} m1 \<and> f \<subseteq>\<^sub>m view_at m \<and> dom f \<subseteq> set bs"
  using assms
proof (induction bs arbitrary: m)
  case Nil
  then show ?case using step_refl by auto
next
  case (Cons b bs)
  obtain x where x: "view_at m b = Some x" using Cons.prems(2) by auto
  have db: "data m b" using Cons.prems(2) by simp
  have r1: "room m 1" by (rule room_mono [OF Cons.prems(3)]) simp
  obtain m1 where s: "btree_set_parent m b p = (OK, m1)" "step m 1 [b \<mapsto> x] {} m1"
    by (rule parent_step [OF Cons.prems(1) db x r1])
  have v1: "view_at m1 c = view_at m c" if "data m c" for c
    using step_view [OF Cons.prems(1) s(2) that] x by (auto simp: map_add_def)
  note M = meta_eqD [OF stepD(2) [OF s(2)]]
  have "\<forall>b \<in> set bs. data m1 b \<and> view_at m1 b \<noteq> None" using Cons.prems(2) v1 M(1) by simp
  moreover have "room m1 (length bs)" using step_room [OF s(2), of "length bs"] Cons.prems(3) by simp
  ultimately obtain f m2 where f: "set_parents bs p m1 = (OK, m2)" "step m1 (length bs) f {} m2"
    "f \<subseteq>\<^sub>m view_at m1" "dom f \<subseteq> set bs"
    using Cons.IH [OF stepD(1) [OF s(2)]] by blast
  have "step m (length (b # bs)) ([b \<mapsto> x] ++ f) {} m2" using step_trans [OF s(2) f(2)] by simp
  moreover have "f \<subseteq>\<^sub>m view_at m"
    unfolding map_le_def
  proof
    fix c assume c: "c \<in> dom f"
    then have "data m c" using f(4) Cons.prems(2) by auto
    then show "f c = view_at m c" using f(3) c v1 by (auto simp: map_le_def)
  qed
  then have "[b \<mapsto> x] ++ f \<subseteq>\<^sub>m view_at m"
    using x by (auto simp: map_le_def map_add_def dom_def split: option.splits)
  moreover have "dom ([b \<mapsto> x] ++ f) \<subseteq> set (b # bs)" using f(4) by auto
  moreover have "set_parents (b # bs) p m = (OK, m2)" using s(1) f(1) by (simp add: thenS_def)
  ultimately show ?case by blast
qed

end
