(* ===== verification/TreeGrow.thy ===== *)
theory TreeGrow
  imports TreeStep
begin

text \<open>
  Insertion into the B+ tree, splits included. \<open>grown\<close> is what an insertion below a node
  leaves to its caller: the changed subtree, perhaps a new right neighbour with its fence, and
  together the list with the new entry. The caller absorbs both, splits itself, or, at the root,
  grows the tree.
\<close>

section \<open>Children\<close>

abbreviation flats :: "(bytes \<times> tree) list \<Rightarrow> entry list" where
  "flats cs \<equiv> concat (map (\<lambda>c. flat (snd c)) cs)"

abbreviation bls :: "(bytes \<times> tree) list \<Rightarrow> u64 list" where
  "bls cs \<equiv> concat (map (\<lambda>c. blocks (snd c)) cs)"

abbreviation lvs :: "(bytes \<times> tree) list \<Rightarrow> u64 list" where
  "lvs cs \<equiv> concat (map (\<lambda>c. leaves (snd c)) cs)"

abbreviation links :: "(bytes \<times> tree) list \<Rightarrow> entry list" where
  "links cs \<equiv> map (\<lambda>c. (fst c, root (snd c))) cs"

abbreviation held :: "mount \<Rightarrow> u64 \<Rightarrow> bool" where
  "held m b \<equiv> data m b \<and> used m (index_of m b)"

definition fresh :: "mount \<Rightarrow> nat set \<Rightarrow> u64 set" where
  "fresh m U = {b. data m b \<and> index_of m b \<in> U}"

definition sub_in :: "mount \<Rightarrow> tree \<Rightarrow> bool" where
  "sub_in m t \<longleftrightarrow> on_disk (view_at m) t \<and> tree_ok t \<and> distinct (blocks t) \<and> (\<forall>b \<in> set (blocks t). held m b)"

definition forest :: "mount \<Rightarrow> (bytes \<times> tree) list \<Rightarrow> bool" where
  "forest m cs \<longleftrightarrow> fenced cs \<and> distinct (bls cs) \<and> (\<forall>c \<in> set cs. on_disk (view_at m) (snd c) \<and> tree_ok (snd c)) \<and>
     (\<forall>b \<in> set (bls cs). held m b)"

lemma sub_in_Node:
  "sub_in m (Node b cs) \<longleftrightarrow> cs \<noteq> [] \<and> forest m cs \<and> (\<exists>s. view_at m b = Some (False, links cs, s)) \<and>
     held m b \<and> b \<notin> set (bls cs)"
  by (auto simp: sub_in_def forest_def)

lemma forest_sub: "forest m cs \<Longrightarrow> c \<in> set cs \<Longrightarrow> sub_in m (snd c)"
proof -
  assume f: "forest m cs" and c: "c \<in> set cs"
  obtain A B where "cs = A @ c # B" using split_list [OF c] by blast
  then show "sub_in m (snd c)" using f by (auto simp: forest_def sub_in_def)
qed

lemma held_index: "sound m \<Longrightarrow> data m b \<Longrightarrow> index_of m b < ndata m"
proof -
  assume s: "sound m" and d: "data m b"
  have g: "geom (sb m)" by (rule vol_okD(3) [OF soundD(1) [OF s]])
  show "index_of m b < ndata m"
    using geom_data(1) [OF g] d g by (auto simp: data_def index_of_def geom_def word_le_nat_alt word_less_nat_alt)
qed

lemma held_step:
  assumes "step m n f U m'" "held m b"
  shows "held m' b"
  using assms stepD(5) [OF assms(1), of "index_of m b"] meta_eqD(1-3) [OF stepD(2) [OF assms(1)]]
    held_index [OF stepD(1) [OF assms(1)], of b] by auto

lemma sub_step:
  assumes "step m n f U m'" "sub_in m t" "\<forall>b \<in> set (blocks t). view_at m' b = view_at m b"
  shows "sub_in m' t"
  using assms(2) on_disk_cong [OF assms(3)] held_step [OF assms(1)] by (auto simp: sub_in_def)

lemma forest_step:
  assumes "step m n f U m'" "forest m cs" "\<forall>b \<in> set (bls cs). view_at m' b = view_at m b"
  shows "forest m' cs"
proof -
  have "on_disk (view_at m') (snd c)" if "c \<in> set cs" for c
    using assms(2,3) that on_disk_cong [of "snd c" "view_at m'" "view_at m"] by (auto simp: forest_def)
  then show ?thesis using assms(2) held_step [OF assms(1)] by (auto simp: forest_def)
qed

lemma forest_append:
  "forest m (A @ B) \<longleftrightarrow> forest m A \<and> forest m B \<and> set (bls A) \<inter> set (bls B) = {} \<and>
     (\<forall>c \<in> set A. \<forall>d \<in> set B. fst c < fst d \<and> (\<forall>e \<in> set (flat (snd c)). fst e < fst d))"
  by (auto simp: forest_def fenced_append)

lemma forest_Cons: "forest m (c # B) \<Longrightarrow> forest m B"
  using forest_append [of m "[c]" B] by simp

lemma step_fresh: "step m n f U m' \<Longrightarrow> held m b \<Longrightarrow> b \<notin> fresh m U"
  using stepD(6) by (fastforce simp: fresh_def)

lemma room_left: "step m n f U m' \<Longrightarrow> room m k \<Longrightarrow> n + j \<le> k \<Longrightarrow> room m' j"
  by (rule step_room [of m n f U m']) (auto intro: room_mono)

definition grown :: "mount \<Rightarrow> mount \<Rightarrow> nat set \<Rightarrow> tree \<Rightarrow> bytes \<Rightarrow> u64 \<Rightarrow> tree \<Rightarrow> (bytes \<times> tree) list \<Rightarrow> bool" where
  "grown m m' U t k v t1 new \<longleftrightarrow>
     (\<forall>k0. length k0 \<le> 255 \<and> (\<forall>e \<in> set (flat t1). k0 \<le> fst e) \<longrightarrow> forest m' ((k0, t1) # new)) \<and>
     flats ((k, t1) # new) = put k v (flat t) \<and> root t1 = root t \<and>
     set (bls ((k, t1) # new)) \<subseteq> set (blocks t) \<union> fresh m U \<and>
     (\<forall>nxt. chain (view_at m) (leaves t) nxt \<longrightarrow> chain (view_at m') (lvs ((k, t1) # new)) nxt) \<and>
     hd (leaves t1) = hd (leaves t)"


text \<open>A child that has grown is put back among its siblings, its fence lowered if need be.\<close>

lemma forest_replace:
  assumes st: "step m n f U m'" and fo: "forest m (A @ c # B)" and df: "dom f \<subseteq> set (blocks (snd c)) \<union> fresh m U"
    and gr: "grown m m' U (snd c) k v t1 new" and sm: "sound m"
    and A: "\<forall>d \<in> set A. \<forall>e \<in> set (flat (snd d)). fst e < k" and B: "\<forall>d \<in> set B. k < fst d"
    and k: "A \<noteq> [] \<Longrightarrow> fst c \<le> k" "length k \<le> 255"
  defines "cs \<equiv> A @ (min k (fst c), t1) # new @ B"
  shows "forest m' cs" "flats cs = put k v (flats (A @ c # B))"
    "set (bls cs) \<subseteq> set (bls (A @ c # B)) \<union> fresh m U"
    "chain (view_at m) (lvs (A @ c # B)) nxt \<Longrightarrow> chain (view_at m') (lvs cs) nxt"
    "hd (lvs cs) = hd (lvs (A @ c # B))"
proof -
  have F: "fenced (A @ c # B)" and ok: "tree_ok (snd c)" using fo by (auto simp: forest_def)
  note G = gr [unfolded grown_def]
  have P: "flat t1 @ flats new = put k v (flat (snd c))" using G by simp
  have so: "sorted_keys (flat (snd c))" by (rule flat_sorted [OF ok])
  note PS = put_sorted [OF so, of k v]
  have keys: "\<forall>e \<in> set (flat t1 @ flats new). fst e = k \<or> fst e \<in> fst ` set (flat (snd c))"
  proof
    fix e assume "e \<in> set (flat t1 @ flats new)"
    then have "fst e \<in> fst ` set (put k v (flat (snd c)))" unfolding P by simp
    then show "fst e = k \<or> fst e \<in> fst ` set (flat (snd c))" unfolding PS(3) by simp
  qed
  have ck: "\<forall>e \<in> set (flat (snd c)). fst c \<le> fst e" "length (fst c) \<le> 255" using F by (auto simp: fenced_append fenced_Cons)
  have low: "\<forall>e \<in> set (flat t1 @ flats new). min k (fst c) \<le> fst e"
    using keys ck(1) by (fastforce simp: min_le_iff_disj)
  have high: "fst e < fst d" if "e \<in> set (flat t1 @ flats new)" "d \<in> set B" for e d
  proof -
    have "fst x < fst d" if "x \<in> set (flat (snd c))" for x
      using F that \<open>d \<in> set B\<close> by (auto simp: fenced_append fenced_Cons)
    moreover have "fst e = k \<or> fst e \<in> fst ` set (flat (snd c))" using keys that(1) by blast
    ultimately show ?thesis using B that(2) by auto
  qed
  have la: "fst d < min k (fst c) \<and> (\<forall>e \<in> set (flat (snd d)). fst e < min k (fst c))" if "d \<in> set A" for d
  proof -
    have "A \<noteq> []" using that by auto
    then have "min k (fst c) = fst c" using k(1) by (simp add: min_def)
    then show ?thesis using F that by (auto simp: fenced_append)
  qed
  have "\<forall>e \<in> set (flat t1). min k (fst c) \<le> fst e" using low by simp
  moreover have "length (min k (fst c)) \<le> 255" using ck(2) k(2) by (simp add: min_def)
  ultimately have mid: "forest m' ((min k (fst c), t1) # new)" using G [THEN conjunct1] by blast
  have fm: "fenced ((min k (fst c), t1) # new)" using mid by (simp add: forest_def)
  have nf: "fst x \<le> fst e \<and> flat (snd x) \<noteq> []" if "x \<in> set new" "e \<in> set (flat (snd x))" for x e
    using fm that by (auto simp: fenced_def)
  have nx: "\<exists>e. e \<in> set (flat (snd x))" if "x \<in> set ((min k (fst c), t1) # new)" for x
    using fm that unfolding fenced_def by (metis list.set_sel(1))
  have fo_le: "fst x \<le> fst e" if "x \<in> set ((min k (fst c), t1) # new)" "e \<in> set (flat (snd x))" for x e
    using fm that by (auto simp: fenced_def)
  have fences: "fenced cs"
  proof -
    have ab: "\<forall>x \<in> set ((min k (fst c), t1) # new). \<forall>d \<in> set B. fst x < fst d \<and> (\<forall>e \<in> set (flat (snd x)). fst e < fst d)"
    proof (intro ballI)
      fix x d assume x: "x \<in> set ((min k (fst c), t1) # new)" and d: "d \<in> set B"
      then have h: "fst e < fst d" if "e \<in> set (flat (snd x))" for e using high [OF _ d, of e] that by auto
      obtain e where e: "e \<in> set (flat (snd x))" using nx [OF x] by blast
      have "fst x < fst d" using fo_le [OF x e] h [OF e] by (rule le_less_trans)
      then show "fst x < fst d \<and> (\<forall>e \<in> set (flat (snd x)). fst e < fst d)" using h by blast
    qed
    have aa: "\<forall>d \<in> set A. \<forall>x \<in> set (((min k (fst c), t1) # new) @ B). fst d < fst x \<and> (\<forall>e \<in> set (flat (snd d)). fst e < fst x)"
    proof (intro ballI)
      fix d x assume d: "d \<in> set A" and x: "x \<in> set (((min k (fst c), t1) # new) @ B)"
      have "min k (fst c) \<le> fst x"
      proof (cases "x \<in> set B")
        case True
        then have "k < fst x" using B by blast
        then show ?thesis by (simp add: min_le_iff_disj less_imp_le)
      next
        case False
        then have "x = (min k (fst c), t1) \<or> x \<in> set new" using x by auto
        then show ?thesis using fm by (auto simp: fenced_Cons less_imp_le)
      qed
      then show "fst d < fst x \<and> (\<forall>e \<in> set (flat (snd d)). fst e < fst x)"
        using la [OF d] by (blast intro: less_le_trans)
    qed
    have "fenced (((min k (fst c), t1) # new) @ B)"
      unfolding fenced_append using fm ab F by (simp add: fenced_append fenced_Cons)
    moreover have "fenced A" using F by (simp add: fenced_append)
    ultimately have "fenced (A @ ((min k (fst c), t1) # new) @ B)" unfolding fenced_append [of A] using aa by blast
    then show ?thesis by (simp add: cs_def)
  qed
  have hm: "\<forall>b \<in> set (bls (A @ c # B)). held m b" using fo by (simp add: forest_def)
  have dis: "distinct (bls (A @ c # B))" using fo by (simp add: forest_def)
  have out: "b \<notin> set (blocks (snd c)) \<union> fresh m U" "held m b" if "b \<in> set (bls A) \<union> set (bls B)" for b
  proof -
    show h: "held m b" using hm that by auto
    have "b \<notin> set (blocks (snd c))" using dis that by auto
    then show "b \<notin> set (blocks (snd c)) \<union> fresh m U" using step_fresh [OF st h] by blast
  qed
  have sv: "view_at m' b = view_at m b" if "b \<in> set (bls A) \<union> set (bls B)" for b
  proof -
    have "f b = None" using df out(1) [OF that] by auto
    then show ?thesis using step_view [OF sm st] out(2) [OF that] by (simp add: map_add_def)
  qed
  have nb: "set (bls ((k, t1) # new)) \<subseteq> set (blocks (snd c)) \<union> fresh m U" using G by blast
  have disj: "set (bls ((k, t1) # new)) \<inter> (set (bls A) \<union> set (bls B)) = {}"
    using nb out(1) by blast
  have "forest m A" "forest m B" using fo forest_Cons [of m c B] by (simp_all add: forest_append)
  then have AB: "forest m' A" "forest m' B" using sv by (auto intro!: forest_step [OF st])
  have dj: "set (bls A) \<inter> set (bls B) = {}" using dis by auto
  have "distinct (bls cs)"
    using mid AB disj dj unfolding forest_def cs_def by (simp add: Int_Un_distrib Int_Un_distrib2 Int_commute)
  then show "forest m' cs" using mid fences AB unfolding forest_def cs_def by auto
  have "\<forall>e \<in> set (flats A). fst e < k" using A by auto
  moreover have "\<forall>e \<in> set (flats B). k < fst e"
  proof
    fix e assume "e \<in> set (flats B)"
    then obtain d where d: "d \<in> set B" "e \<in> set (flat (snd d))" by auto
    have "k < fst d" using B d(1) by blast
    also have "fst d \<le> fst e" using F d by (auto simp: fenced_def fenced_append)
    finally show "k < fst e" .
  qed
  ultimately have "put k v (flats A @ flat (snd c) @ flats B) = flats A @ put k v (flat (snd c)) @ flats B"
    using so by (rule put_append)
  moreover have "flats cs = flats A @ (flat t1 @ flats new) @ flats B" by (simp add: cs_def)
  ultimately show "flats cs = put k v (flats (A @ c # B))" unfolding P by simp
  show "set (bls cs) \<subseteq> set (bls (A @ c # B)) \<union> fresh m U" using nb by (auto simp: cs_def)
  have la': "lvs cs = lvs A @ lvs ((k, t1) # new) @ lvs B" by (simp add: cs_def)
  have ne: "leaves t1 \<noteq> []" using mid leaves_nonempty by (auto simp: forest_def)
  have nc: "leaves (snd c) \<noteq> []" by (rule leaves_nonempty [OF ok])
  have hd1: "hd (leaves t1) = hd (leaves (snd c))" using G by simp
  show "hd (lvs cs) = hd (lvs (A @ c # B))"
    using hd1 ne nc by (simp add: cs_def hd_append del: concat_eq_Nil_conv)
  assume ch: "chain (view_at m) (lvs (A @ c # B)) nxt"
  have lb: "\<forall>b \<in> set (lvs A) \<union> set (lvs B). view_at m' b = view_at m b"
    using sv leaves_in_blocks by fastforce
  have "chain (view_at m) (lvs A) (hd (leaves (snd c)))" "chain (view_at m) (leaves (snd c)) (hd (lvs B @ [nxt]))"
    "chain (view_at m) (lvs B) nxt"
    using ch nc by (simp_all add: chain_append)
  then have "chain (view_at m') (lvs A) (hd (leaves (snd c)))"
    "chain (view_at m') (lvs ((k, t1) # new)) (hd (lvs B @ [nxt]))" "chain (view_at m') (lvs B) nxt"
    using G lb chain_cong [of "lvs A" "view_at m'" "view_at m"] chain_cong [of "lvs B" "view_at m'" "view_at m"] by auto
  moreover define X where "X = lvs ((k, t1) # new)"
  moreover have "X \<noteq> []" "hd X = hd (leaves (snd c))" using ne hd1 by (simp_all add: X_def)
  ultimately show "chain (view_at m') (lvs cs) nxt"
    unfolding la' X_def [symmetric] by (simp add: chain_append)
qed

section \<open>Leaves\<close>

lemma put_short: "sorted_keys es \<Longrightarrow> \<forall>e \<in> set es. length (fst e) \<le> 255 \<Longrightarrow> length k \<le> 255 \<Longrightarrow>
    \<forall>e \<in> set (put k v es). length (fst e) \<le> 255"
  using put_sorted(2) [of es k v] by auto

lemma fresh_held: "step m n f U m1 \<Longrightarrow> b \<in> fresh m U \<Longrightarrow> held m1 b"
  using stepD(5,6) [of m n f U m1] meta_eqD(1,3) [of m m1] stepD(2) [of m n f U m1] by (fastforce simp: fresh_def)

lemma grown_leaf:
  assumes st: "step m n f U m1" and t: "sub_in m (Leaf b es)" and k: "length k \<le> 255"
    and v0: "view_at m b = Some (True, es, s)" and v1: "view_at m1 b = Some (True, put k v es, s)"
  shows "grown m m1 U (Leaf b es) k v (Leaf b (put k v es)) []"
proof -
  have es: "sorted_keys es" "\<forall>e \<in> set es. length (fst e) \<le> 255" "held m b" using t by (auto simp: sub_in_def)
  show ?thesis
    using put_sorted(1,5) [OF es(1), of k v] put_short [OF es(1,2) k, of v] v0 v1 held_step [OF st es(3)]
    by (auto simp: grown_def forest_def fenced_def)
qed

lemma grown_leaf_split:
  assumes st: "step m n f U m1" and t: "sub_in m (Leaf b es)" and k: "length k \<le> 255"
    and v0: "view_at m b = Some (True, es, s)" and b': "b' \<in> fresh m U"
    and j: "0 < j" "j < length (put k v es)"
    and v1: "view_at m1 b = Some (True, take j (put k v es), b')" "view_at m1 b' = Some (True, drop j (put k v es), s)"
  shows "grown m m1 U (Leaf b es) k v (Leaf b (take j (put k v es)))
    [(fst (put k v es ! j), Leaf b' (drop j (put k v es)))]"
proof -
  define P where "P = put k v es"
  have es: "sorted_keys es" "\<forall>e \<in> set es. length (fst e) \<le> 255" "held m b" using t by (auto simp: sub_in_def)
  have sp: "sorted_keys P" unfolding P_def by (rule put_sorted(1) [OF es(1)])
  have sh: "\<forall>e \<in> set P. length (fst e) \<le> 255" unfolding P_def by (rule put_short [OF es(1,2) k])
  have jl: "j < length P" using j(2) by (simp add: P_def)
  have d: "drop j P = P ! j # drop (Suc j) P" using jl by (simp add: Cons_nth_drop_Suc)
  have "P = take j P @ drop j P" by simp
  then have s2: "sorted_keys (take j P @ drop j P)" using sp by simp
  have lr: "\<forall>x \<in> set (take j P). \<forall>y \<in> set (drop j P). fst x < fst y"
    using s2 unfolding map_append sorted_wrt_append by auto
  have sd: "sorted_keys (take j P)" "sorted_keys (drop j P)" using s2 unfolding map_append sorted_wrt_append by auto
  have low: "\<forall>y \<in> set (drop j P). fst (P ! j) \<le> fst y" using sd(2) unfolding d by (auto simp: less_imp_le)
  have ne: "take j P \<noteq> []" "drop j P \<noteq> []" using j(1) jl by auto
  have lx: "fst x < fst (P ! j)" if "x \<in> set (take j P)" for x using lr that d by simp
  have shj: "length (fst (P ! j)) \<le> 255" using sh jl by simp
  have sht: "\<forall>e \<in> set (take j P). length (fst e) \<le> 255" "\<forall>e \<in> set (drop j P). length (fst e) \<le> 255"
    using sh by (auto dest: in_set_takeD in_set_dropD)
  have hb: "held m1 b" by (rule held_step [OF st es(3)])
  have hb': "held m1 b'" by (rule fresh_held [OF st b'])
  have bb: "b' \<noteq> b" using step_fresh [OF st es(3)] b' by blast
  have "forest m1 [(k0, Leaf b (take j P)), (fst (P ! j), Leaf b' (drop j P))]"
    if k0: "length k0 \<le> 255" "\<forall>e \<in> set (take j P). k0 \<le> fst e" for k0
  proof -
    obtain x where x: "x \<in> set (take j P)" using ne(1) by (meson last_in_set)
    then have "k0 < fst (P ! j)" using k0(2) lx [OF x] by (blast intro: le_less_trans)
    then show ?thesis
      using k0 lx ne low shj sht sd v1 hb hb' bb unfolding forest_def fenced_def P_def [symmetric]
      by (simp add: P_def [symmetric])
  qed
  then show ?thesis
    using v0 v1 b' by (simp add: grown_def P_def)
qed

text \<open>What a split returns, against the new neighbour.\<close>

definition split_is :: "split \<Rightarrow> (bytes \<times> tree) list \<Rightarrow> bool" where
  "split_is split new \<longleftrightarrow> (case split of None \<Rightarrow> new = []
     | Some (rb, sep) \<Rightarrow> \<exists>T. new = [(cstr sep, T)] \<and> root T = rb)"

lemma put_eq:
  "p = below k es \<Longrightarrow> p < length es \<Longrightarrow> fst (es ! p) = k \<Longrightarrow> es[p := (k, v)] = put k v es"
  "p = below k es \<Longrightarrow> \<not> (p < length es \<and> fst (es ! p) = k) \<Longrightarrow> take p es @ (k, v) # drop p es = put k v es"
  by (auto simp: put_def Let_def upd_conv_take_nth_drop)

lemma leaf_insert_is:
  assumes sm: "sound m" and t: "sub_in m (Leaf b es)" and n: "node_ok n" "node_view n = (True, es, s)"
    and v0: "view_at m b = Some (True, es, s)" and key: "length (cstr key) \<le> 255" and rm: "room m 3" and fr: "0 < free m"
  shows "\<exists>split m1 f U t1 new. btree_leaf_insert m b n key v = (Inr split, m1) \<and> step m 3 f U m1 \<and> card U \<le> 1 \<and>
    dom f \<subseteq> {b} \<union> fresh m U \<and> grown m m1 U (Leaf b es) (cstr key) v t1 new \<and> split_is split new"
proof -
  let ?k = "cstr key"
  define p where "p = below ?k es"
  note N = node_viewD [OF n(2)]
  have en: "entries n = es" and le: "length es = key_count n" using N length_entries [OF n(1)] by auto
  have lb: "btree_leaf_lower_bound n key = p" using lower_bound_is [of n key] en by (simp add: p_def)
  have pl: "p \<le> key_count n" using below_le [of ?k es] le by (simp add: p_def)
  have db: "data m b" "held m b" using t by (auto simp: sub_in_def)
  have r1: "room m 1" by (rule room_mono [OF rm]) simp
  have cond: "(p < key_count n \<and> strcmp (s_name (slots n ! p)) key = 0) = (p < length es \<and> fst (es ! p) = ?k)"
    using entries_nth [OF n(1), of p] en le by (auto simp: strcmp_sgn)
  have one: "\<exists>split m1 f U t1 new. thenE (btree_store m b n') (\<lambda>m1. (Inr None, m1)) = (Inr split, m1) \<and> step m 3 f U m1 \<and>
      card U \<le> 1 \<and> dom f \<subseteq> {b} \<union> fresh m U \<and> grown m m1 U (Leaf b es) ?k v t1 new \<and> split_is split new"
    if n': "node_ok n'" "node_view n' = (True, put ?k v es, s)" for n'
  proof -
    obtain m1 where st: "btree_store m b n' = (OK, m1)" "step m 1 [b \<mapsto> node_view n'] {} m1"
      by (rule store_step [OF sm db(1) r1 n'(1)])
    have v1: "view_at m1 b = Some (True, put ?k v es, s)" using step_view [OF sm st(2) db(1)] n'(2) by simp
    have "step m 3 [b \<mapsto> node_view n'] {} m1" using step_mono [OF st(2)] by simp
    moreover note grown_leaf [OF st(2) t key v0 v1]
    moreover have "thenE (btree_store m b n') (\<lambda>m1. (Inr None, m1)) = (Inr None, m1)" using st(1) by (simp add: thenE_def)
    ultimately show ?thesis
      by (intro exI [of _ None] exI [of _ m1] exI [of _ "[b \<mapsto> node_view n']"] exI [of _ "{}"]
          exI [of _ "Leaf b (put ?k v es)"] exI [of _ "[]"]) (simp add: split_is_def)
  qed
  let ?tmp = "insert_slot p (new_slot key v) n"
  note I = insert_slot_is [OF n(1) pl, of "new_slot key v", OF new_slot_wf]
  have it: "map ent ?tmp = put ?k v es" if "\<not> (p < length es \<and> fst (es ! p) = ?k)"
    using I(4) ent_new_slot [OF key] put_eq(2) [OF p_def that, of v] en by simp
  consider (found) "p < length es \<and> fst (es ! p) = ?k" | (space) "\<not> (p < length es \<and> fst (es ! p) = ?k)" "key_count n < 15"
    | (full) "\<not> (p < length es \<and> fst (es ! p) = ?k)" "\<not> key_count n < 15" by blast
  then show ?thesis
  proof cases
    case found
    let ?n' = "set_slots ((slots n)[p := (slots n ! p)\<lparr> s_value := v \<rparr>]) n"
    have pk: "p < key_count n" using found le by simp
    have wf: "wf_btree_slot ((slots n ! p)\<lparr> s_value := v \<rparr>)"
      using node_okD(1,2,3) [OF n(1)] pk by (simp add: list_all_length wf_btree_slot_def)
    have "ent ((slots n ! p)\<lparr> s_value := v \<rparr>) = (?k, v)"
      using entries_nth [OF n(1) pk] en found by (simp add: ent_def)
    then have "entries ?n' = put ?k v es"
      using set_slot_is(2) [OF n(1) pk wf] en put_eq(1) [OF p_def, of v] found by simp
    then have "node_ok ?n' \<and> node_view ?n' = (True, put ?k v es, s)"
      using set_slot_is(1) [OF n(1) pk wf] N by (simp add: node_view_def)
    moreover have "btree_leaf_insert m b n key v = thenE (btree_store m b ?n') (\<lambda>m1. (Inr None, m1))"
      unfolding btree_leaf_insert_def Let_def lb cond using found by simp
    ultimately show ?thesis using one [of ?n'] by simp
  next
    case space
    have eq: "set_count (key_count n + 1) (set_slots (patch 0 ?tmp (slots n)) n) = fill ?tmp n"
      using I(2) by (simp add: fill_def)
    have lt: "length ?tmp \<le> 15" using I(2) space(2) by simp
    note F = fill_is [OF n(1) lt I(3)]
    have "node_view (fill ?tmp n) = (True, put ?k v es, s)"
      using F it [OF space(1)] N by (simp add: node_view_def)
    moreover have "btree_leaf_insert m b n key v = thenE (btree_store m b (fill ?tmp n)) (\<lambda>m1. (Inr None, m1))"
      unfolding btree_leaf_insert_def Let_def lb eq cond using space by auto
    ultimately show ?thesis using one [of "fill ?tmp n"] F(1) by simp
  next
    case full
    let ?P = "put ?k v es"
    have k15: "key_count n = 15" using full(2) node_okD(3) [OF n(1)] by simp
    have lt: "length ?tmp = 16" using I(2) k15 by simp
    have mt: "map ent ?tmp = ?P" by (rule it [OF full(1)])
    then have lP: "length ?P = 16" using lt by (metis length_map)
    obtain b' m1 where al: "bitmap_alloc m = (b', m1)" "b' \<noteq> 0" and s1: "step m 1 Map.empty {index_of m b'} m1"
      and d': "data m b'" by (rule alloc_step [OF sm r1 fr])
    have f': "b' \<in> fresh m {index_of m b'}" using d' by (simp add: fresh_def)
    have bb: "b' \<noteq> b" using step_fresh [OF s1 db(2)] f' by blast
    let ?r0 = "btree_format SMKFS_BTN_LEAF (n_parent_block (nh n))"
    define r0 where "r0 = ?r0\<lparr> nh := (nh ?r0)\<lparr> n_right_sibling := n_right_sibling (nh n) \<rparr> \<rparr>"
    have r0: "node_ok r0" "is_leaf r0" "n_right_sibling (nh r0) = s"
      using btree_format_is(1,2) N by (simp_all add: r0_def)
    define r where "r = split_right ?tmp r0"
    define l where "l = (split_left ?tmp n)\<lparr> nh := (nh (split_left ?tmp n))\<lparr> n_right_sibling := b' \<rparr> \<rparr>"
    have wf: "list_all wf_btree_slot (take 8 ?tmp)" "list_all wf_btree_slot (drop 8 ?tmp)"
      using I(3) by (auto simp: list_all_iff dest: in_set_takeD in_set_dropD)
    have len: "length (take 8 ?tmp) \<le> 15" "length (drop 8 ?tmp) \<le> 15" using lt by simp_all
    note L = fill_is [OF n(1) len(1) wf(1)] and R = fill_is [OF r0(1) len(2) wf(2)]
    have re: "r = fill (drop 8 ?tmp) r0" unfolding r_def split_is_fill lt by simp
    have le': "l = (fill (take 8 ?tmp) n)\<lparr> nh := (nh (fill (take 8 ?tmp) n))\<lparr> n_right_sibling := b' \<rparr> \<rparr>"
      unfolding l_def split_is_fill lt by simp
    have lv: "node_ok l" "node_view l = (True, take 8 ?P, b')"
      using L N mt unfolding le' by (simp_all add: node_view_def take_map [symmetric])
    have rv: "node_ok r" "node_view r = (True, drop 8 ?P, s)"
      using R r0 mt unfolding re by (simp_all add: node_view_def drop_map [symmetric])
    note M1 = meta_eqD [OF stepD(2) [OF s1]]
    have d1: "data m1 b" "room m1 1" using db(1) M1(1) room_left [OF s1 rm] by simp_all
    obtain m2 where s2: "btree_store m1 b l = (OK, m2)" "step m1 1 [b \<mapsto> node_view l] {} m2"
      by (rule store_step [OF stepD(1) [OF s1] d1 lv(1)])
    have s12: "step m 2 [b \<mapsto> node_view l] {index_of m b'} m2" using step_trans [OF s1 s2(2)] by (simp add: numeral_2_eq_2)
    have d2: "data m2 b'" "room m2 1" using d' meta_eqD(1) [OF stepD(2) [OF s12]] room_left [OF s12 rm] by simp_all
    obtain m3 where s3: "btree_store m2 b' r = (OK, m3)" "step m2 1 [b' \<mapsto> node_view r] {} m3"
      by (rule store_step [OF stepD(1) [OF s12] d2 rv(1)])
    have st: "step m 3 ([b \<mapsto> node_view l] ++ [b' \<mapsto> node_view r]) {index_of m b'} m3"
      using step_trans [OF s12 s3(2)] by (simp add: numeral_3_eq_3 numeral_2_eq_2)
    have v1: "view_at m3 b = Some (True, take 8 ?P, b')" "view_at m3 b' = Some (True, drop 8 ?P, s)"
      using step_view [OF sm st db(1)] step_view [OF sm st d'] bb lv(2) rv(2) by (simp_all add: map_add_def)
    have G: "grown m m3 {index_of m b'} (Leaf b es) ?k v (Leaf b (take 8 ?P)) [(fst (?P ! 8), Leaf b' (drop 8 ?P))]"
      by (rule grown_leaf_split [OF st t key v0 f' _ _ v1]) (simp_all add: lP)
    have sep: "cstr (btree_key_copy (s_name (slots r ! 0))) = fst (?P ! 8)"
    proof -
      have "key_count r = 8" using R(4) lt by (simp add: re)
      then have "entries r ! 0 = (cstr (s_name (slots r ! 0)), s_value (slots r ! 0))"
        by (intro entries_nth [OF rv(1)]) simp
      moreover have "entries r = drop 8 ?P" using rv(2) by (simp add: node_view_def)
      ultimately have c: "cstr (s_name (slots r ! 0)) = fst (?P ! 8)" using lP by simp
      have "?P ! 8 \<in> set ?P" using lP by simp
      then have "length (fst (?P ! 8)) \<le> 255" using put_short [of es ?k v] t key by (auto simp: sub_in_def)
      then show ?thesis by (simp add: cstr_key_copy c)
    qed
    have "btree_leaf_insert m b n key v = (Inr (Some (b', btree_key_copy (s_name (slots r ! 0)))), m3)"
      unfolding btree_leaf_insert_def Let_def lb cond btree_leaf_split_insert_def al prod.case
        r0_def [symmetric] r_def [symmetric] l_def [symmetric]
      using full soundD(3) [OF sm] al(2) s2(1) s3(1) by (auto simp: thenE_def thenS_def)
    moreover have "dom ([b \<mapsto> node_view l] ++ [b' \<mapsto> node_view r]) \<subseteq> {b} \<union> fresh m {index_of m b'}"
      using f' by auto
    moreover have "split_is (Some (b', btree_key_copy (s_name (slots r ! 0)))) [(fst (?P ! 8), Leaf b' (drop 8 ?P))]"
      using sep by (simp add: split_is_def)
    ultimately show ?thesis using st G
      by (intro exI [of _ "Some (b', btree_key_copy (s_name (slots r ! 0)))"] exI [of _ m3]
          exI [of _ "[b \<mapsto> node_view l] ++ [b' \<mapsto> node_view r]"] exI [of _ "{index_of m b'}"]
          exI [of _ "Leaf b (take 8 ?P)"] exI [of _ "[(fst (?P ! 8), Leaf b' (drop 8 ?P))]"]) simp
  qed
qed

section \<open>Inner nodes\<close>

text \<open>
  The children of a node after the insertion into one of them, with the volume that the insertion
  left. The two ways to store them make the node grow.
\<close>

definition regrown ::
  "mount \<Rightarrow> mount \<Rightarrow> (u64 \<rightharpoonup> view) \<Rightarrow> nat set \<Rightarrow> u64 \<Rightarrow> (bytes \<times> tree) list \<Rightarrow> bytes \<Rightarrow> u64 \<Rightarrow> (bytes \<times> tree) list \<Rightarrow> bool" where
  "regrown m m2 f U b cs0 k v cs \<longleftrightarrow> sound m \<and> sub_in m (Node b cs0) \<and> (\<exists>n. step m n f U m2) \<and>
     dom f \<subseteq> set (bls cs0) \<union> fresh m U \<and> forest m2 cs \<and> cs \<noteq> [] \<and> flats cs = put k v (flats cs0) \<and>
     set (bls cs) \<subseteq> set (bls cs0) \<union> fresh m U \<and>
     (\<forall>nxt. chain (view_at m) (lvs cs0) nxt \<longrightarrow> chain (view_at m2) (lvs cs) nxt) \<and> hd (lvs cs) = hd (lvs cs0)"

lemma regrownD:
  assumes "regrown m m2 f U b cs0 k v cs"
  shows "sound m2" "b \<notin> set (bls cs)" "held m2 b" "data m2 = data m" "index_of m2 = index_of m"
    "view_at m2 b = view_at m b" "\<forall>x \<in> set (bls cs). held m2 x" "fenced cs" "flats cs \<noteq> []"
proof -
  obtain n where st: "step m n f U m2" and t: "sub_in m (Node b cs0)" and df: "dom f \<subseteq> set (bls cs0) \<union> fresh m U"
    and sm: "sound m" and fo: "forest m2 cs" and fl: "flats cs = put k v (flats cs0)"
    and bl: "set (bls cs) \<subseteq> set (bls cs0) \<union> fresh m U"
    using assms by (auto simp: regrown_def)
  show "sound m2" by (rule stepD(1) [OF st])
  have h: "held m b" "b \<notin> set (bls cs0)" using t by (auto simp: sub_in_Node)
  have nf: "b \<notin> fresh m U" by (rule step_fresh [OF st h(1)])
  show "b \<notin> set (bls cs)" using bl h(2) nf by blast
  show "held m2 b" by (rule held_step [OF st h(1)])
  show "data m2 = data m" "index_of m2 = index_of m" using meta_eqD(1,3) [OF stepD(2) [OF st]] .
  have "f b = None" using df h(2) nf by blast
  then show "view_at m2 b = view_at m b" using step_view [OF sm st] h(1) by (simp add: map_add_def)
  show "\<forall>x \<in> set (bls cs). held m2 x" "fenced cs" using fo by (simp_all add: forest_def)
  have "tree_ok (Node b cs0)" using t by (simp add: sub_in_def)
  then show "flats cs \<noteq> []" using put_sorted(5) [OF flat_sorted, of "Node b cs0" k v] fl by simp
qed

lemma fresh_trans: "step m n f U m2 \<Longrightarrow> fresh m2 W \<subseteq> fresh m (U \<union> W)" "fresh m U \<subseteq> fresh m (U \<union> W)"
  using meta_eqD(1,3) [OF stepD(2), of m n f U m2] by (auto simp: fresh_def)

lemma grown_node:
  assumes r: "regrown m m2 f U b cs0 k v cs" and st: "step m2 n g W m3"
    and v: "\<forall>x \<in> set (bls cs). view_at m3 x = view_at m2 x" and vb: "view_at m3 b = Some (False, links cs, s)"
  shows "grown m m3 (U \<union> W) (Node b cs0) k v (Node b cs) []"
proof -
  note R = regrownD [OF r] and D = r [unfolded regrown_def]
  have f3: "forest m3 cs" using D by (auto intro: forest_step [OF st _ v])
  have "forest m3 [(k0, Node b cs)]" if "length k0 \<le> 255" "\<forall>e \<in> set (flats cs). k0 \<le> fst e" for k0
    using that f3 vb R(2,9) held_step [OF st R(3)] D by (auto simp: forest_def fenced_def)
  moreover have "set (b # bls cs) \<subseteq> set (b # bls cs0) \<union> fresh m (U \<union> W)"
    using D by (auto simp: fresh_def)
  moreover have "chain (view_at m3) (lvs cs) nxt" if "chain (view_at m) (lvs cs0) nxt" for nxt
  proof -
    have "\<forall>x \<in> set (lvs cs). view_at m3 x = view_at m2 x" using v leaves_in_blocks by fastforce
    from chain_cong [OF this] show ?thesis using D that by blast
  qed
  ultimately show ?thesis using D by (simp add: grown_def)
qed

lemma flats_ne: "fenced cs \<Longrightarrow> cs \<noteq> [] \<Longrightarrow> flats cs \<noteq> []"
  by (cases cs) (auto simp: fenced_Cons)

lemma lvs_ne: "forest m cs \<Longrightarrow> cs \<noteq> [] \<Longrightarrow> lvs cs \<noteq> []"
  by (cases cs) (auto simp: forest_def leaves_nonempty)

lemma forest_fences: "forest m (L @ c # R) \<Longrightarrow> x \<in> set L \<Longrightarrow> e \<in> set (flat (snd x)) \<Longrightarrow> fst e < fst c"
  by (auto simp: forest_append)

lemma grown_node_split:
  assumes r: "regrown m m2 f U b cs0 k v (L @ c # R)" and L: "L \<noteq> []" and st: "step m2 n g W m3" and b': "b' \<in> fresh m2 W"
    and v: "\<forall>x \<in> set (bls (L @ c # R)). view_at m3 x = view_at m2 x"
    and vb: "view_at m3 b = Some (False, links L, s)" "view_at m3 b' = Some (False, links (c # R), s')"
  shows "grown m m3 (U \<union> W) (Node b cs0) k v (Node b L) [(fst c, Node b' (c # R))]"
proof -
  note Q = regrownD [OF r] and D = r [unfolded regrown_def]
  have f2: "forest m2 (L @ c # R)" using D by blast
  have f3: "forest m3 (L @ c # R)" by (rule forest_step [OF st f2 v])
  have h3: "held m3 b" "held m3 b'" using held_step [OF st Q(3)] fresh_held [OF st b'] by blast+
  have nb: "b' \<noteq> b" "b' \<notin> set (bls (L @ c # R))"
    using step_fresh [OF st] Q(3,7) b' by blast+
  have fl: "flats L \<noteq> []" "flats (c # R) \<noteq> []"
    using L f2 flats_ne [of L] flats_ne [of "c # R"] unfolding forest_def fenced_append by blast+
  have lt: "\<forall>e \<in> set (flats L). fst e < fst c" using forest_fences [OF f2] by auto
  have fc: "length (fst c) \<le> 255" "\<forall>e \<in> set (flats (c # R)). fst c \<le> fst e"
  proof -
    have F: "fenced (c # R)" using f2 by (simp add: forest_def fenced_append)
    show "length (fst c) \<le> 255" using F by (simp add: fenced_Cons)
    show "\<forall>e \<in> set (flats (c # R)). fst c \<le> fst e"
    proof
      fix e assume "e \<in> set (flats (c # R))"
      then obtain d where d: "d \<in> set (c # R)" "e \<in> set (flat (snd d))" unfolding set_concat set_map by blast
      have "fst c \<le> fst d" using F d(1) by (auto simp: fenced_Cons)
      also have "fst d \<le> fst e" using F d unfolding fenced_def by blast
      finally show "fst c \<le> fst e" .
    qed
  qed
  have "forest m3 ((k0, Node b L) # [(fst c, Node b' (c # R))])" if k0: "length k0 \<le> 255" "\<forall>e \<in> set (flats L). k0 \<le> fst e" for k0
  proof -
    obtain e where e: "e \<in> set (flats L)" using fl(1) by (meson last_in_set)
    then have "k0 < fst c" using k0(2) lt by (blast intro: le_less_trans)
    moreover have fL: "forest m3 L" "forest m3 (c # R)" "set (bls L) \<inter> set (bls (c # R)) = {}"
      using f3 by (auto simp: forest_append)
    moreover have "tree_ok (Node b L)" "tree_ok (Node b' (c # R))" using fL L by (simp_all add: forest_def)
    moreover have "on_disk (view_at m3) (Node b L)" "on_disk (view_at m3) (Node b' (c # R))"
      using fL vb by (simp_all add: forest_def)
    moreover have "distinct (blocks (Node b L) @ blocks (Node b' (c # R)))"
      using fL Q(2) nb by (auto simp: forest_def)
    moreover have "\<forall>x \<in> set (blocks (Node b L) @ blocks (Node b' (c # R))). held m3 x"
      using fL h3 by (auto simp: forest_def)
    moreover have "fenced [(k0, Node b L), (fst c, Node b' (c # R))]"
      using \<open>k0 < fst c\<close> k0 fl lt fc by (simp add: fenced_def)
    ultimately show ?thesis by (simp add: forest_def)
  qed
  moreover have "set (bls ((k, Node b L) # [(fst c, Node b' (c # R))])) \<subseteq> set (blocks (Node b cs0)) \<union> fresh m (U \<union> W)"
  proof -
    obtain j where "step m j f U m2" using D by blast
    then have "b' \<in> fresh m (U \<union> W)" using fresh_trans(1) b' by blast
    moreover have "set (bls (L @ c # R)) \<subseteq> set (bls cs0) \<union> fresh m (U \<union> W)" using D fresh_trans(2) by blast
    ultimately show ?thesis by auto
  qed
  moreover have "chain (view_at m3) (lvs (L @ c # R)) nxt" if "chain (view_at m) (lvs cs0) nxt" for nxt
  proof -
    have "\<forall>x \<in> set (lvs (L @ c # R)). view_at m3 x = view_at m2 x" using v leaves_in_blocks by fastforce
    from chain_cong [OF this] show ?thesis using D that by blast
  qed
  moreover have "hd (lvs L) = hd (lvs cs0)"
  proof -
    have "lvs L \<noteq> []" using L f3 lvs_ne forest_append by blast
    moreover have "hd (lvs (L @ c # R)) = hd (lvs cs0)" using D by blast
    ultimately show ?thesis by (simp add: hd_append del: concat_eq_Nil_conv)
  qed
  moreover have "flats (L @ c # R) = put k v (flats cs0)" using D by blast
  ultimately show ?thesis unfolding grown_def by simp
qed

end
