(* ===== verification/TreeAbsorb.thy ===== *)
theory TreeAbsorb
  imports TreeGrow
begin

text \<open>
  \<open>btree_insert\<close> as insertion into the sorted list of a tree, at every height: the step of an
  inner node that absorbs its child's split, the recursion, the root, and the operations on
  the whole tree.
\<close>

section \<open>The step of an inner node\<close>

text \<open>The node in memory with the child's fence lowered to the key, if the key is smaller.\<close>

definition fixed :: "node \<Rightarrow> nat \<Rightarrow> bytes \<Rightarrow> node" where
  "fixed n i key = (if strcmp key (s_name (slots n ! i)) < 0
     then set_slots ((slots n)[i := (slots n ! i)\<lparr> s_name := btree_key_copy key \<rparr>]) n else n)"

lemma fixed_is:
  assumes "node_ok n" "entries n = links (A @ c # B)" "length (cstr key) \<le> 255" "root t1 = root (snd c)"
  shows "node_ok (fixed n (length A) key)" "entries (fixed n (length A) key) = links (A @ (min (cstr key) (fst c), t1) # B)"
    "is_leaf (fixed n (length A) key) = is_leaf n" "n_right_sibling (nh (fixed n (length A) key)) = n_right_sibling (nh n)"
    "strcmp key (s_name (slots n ! length A)) < 0 \<longleftrightarrow> cstr key < fst c"
    "n_flags (nh (fixed n (length A) key)) = n_flags (nh n)"
proof -
  note C = child_of_node [OF assms(1,2)]
  show lt: "strcmp key (s_name (slots n ! length A)) < 0 \<longleftrightarrow> cstr key < fst c"
    using C(2) strcmp_sgn(2) by simp
  let ?s = "(slots n ! length A)\<lparr> s_name := btree_key_copy key \<rparr>"
  have wf: "wf_btree_slot ?s" by (simp add: wf_btree_slot_def btree_key_copy_def)
  have e: "ent ?s = (cstr key, root (snd c))" using C(1) assms(3) by (simp add: ent_def cstr_key_copy)
  note S = set_slot_is [OF assms(1) C(4) wf]
  show "node_ok (fixed n (length A) key)" using S(1) assms(1) by (simp add: fixed_def)
  show "entries (fixed n (length A) key) = links (A @ (min (cstr key) (fst c), t1) # B)"
    using S(2) e assms(2,4) lt
    by (cases "cstr key < fst c") (simp_all add: fixed_def list_update_append min_absorb1 min_absorb2 less_imp_le not_less)
  show "is_leaf (fixed n (length A) key) = is_leaf n" "n_flags (nh (fixed n (length A) key)) = n_flags (nh n)"
    "n_right_sibling (nh (fixed n (length A) key)) = n_right_sibling (nh n)" by (simp_all add: fixed_def)
qed

text \<open>The place of a new neighbour is right behind the child that it came from.\<close>

lemma new_place:
  assumes "fenced (A @ d # x # B)"
  shows "below (fst x) (links (A @ d # B)) = length A + 1"
proof -
  have "\<forall>e \<in> set (links (A @ [d])). fst e < fst x" using assms by (auto simp: fenced_append fenced_Cons)
  moreover have "links B = [] \<or> fst x \<le> fst (hd (links B))"
    using assms by (cases B) (auto simp: fenced_append fenced_Cons less_imp_le)
  ultimately have "below (fst x) (links (A @ [d]) @ links B) = length (links (A @ [d]))" by (rule below_append)
  then show ?thesis by simp
qed

lemma store_children:
  assumes r: "regrown m m2 f U b cs0 k v cs" and n: "node_ok n" "node_view n = (False, links cs, s)" and rm: "room m2 1"
  shows "\<exists>m3. btree_store m2 b n = (OK, m3) \<and> step m2 1 [b \<mapsto> node_view n] {} m3 \<and> grown m m3 U (Node b cs0) k v (Node b cs) []"
proof -
  note R = regrownD [OF r]
  have db: "data m2 b" using R(3) by simp
  obtain m3 where st: "btree_store m2 b n = (OK, m3)" "step m2 1 [b \<mapsto> node_view n] {} m3"
    by (rule store_step [OF R(1) db rm n(1)])
  have "\<forall>x \<in> set (bls cs). view_at m3 x = view_at m2 x"
    using step_view [OF R(1) st(2)] R(2,7) by (auto simp: map_add_def)
  moreover have "view_at m3 b = Some (False, links cs, s)" using step_view [OF R(1) st(2) db] n(2) by simp
  ultimately have "grown m m3 (U \<union> {}) (Node b cs0) k v (Node b cs) []" by (rule grown_node [OF r st(2)])
  then show ?thesis using st by auto
qed

text \<open>\<^verbatim>\<open>~SMKFS_BTN_ROOT\<close> is \<open>- 3\<close> as a word.\<close>

lemma and_not_root: "((x :: u32) AND - 3) AND 1 = x AND 1"
proof -
  have "- 3 AND 1 = (1 :: u32)" by simp
  then show ?thesis by (simp add: and.assoc)
qed

lemma on_disk_root: "on_disk w t \<Longrightarrow> w (root t) \<noteq> None"
  by (cases t) auto

lemma split_children:
  assumes r: "regrown m m2 f U b cs0 k v cs" and n: "node_ok n" "\<not> is_leaf n" "n_right_sibling (nh n) = s"
    and tmp: "map ent (insert_slot pos (new_slot sep rb) n) = links cs" "length (insert_slot pos (new_slot sep rb) n) = 16"
      "list_all wf_btree_slot (insert_slot pos (new_slot sep rb) n)"
    and rm: "room m2 11" and fr: "0 < free m2"
  shows "\<exists>split m3 g W L new. btree_index_split_insert m2 b n pos sep rb = (Inr split, m3) \<and> step m2 11 g W m3 \<and> card W \<le> 1 \<and>
    dom g \<subseteq> {b} \<union> set (bls cs) \<union> fresh m2 W \<and> grown m m3 (U \<union> W) (Node b cs0) k v (Node b L) new \<and>
    split_is split new"
proof -
  note Q = regrownD [OF r]
  let ?tmp = "insert_slot pos (new_slot sep rb) n"
  have "length (map ent ?tmp) = length (links cs)" unfolding tmp(1) ..
  then have lc: "length cs = 16" using tmp(2) by simp
  define L c R where "L = take 8 cs" and "c = cs ! 8" and "R = drop 9 cs"
  have dr: "drop 8 cs = c # R" and lL: "length L = 8"
    using lc Cons_nth_drop_Suc [of 8 cs] by (simp_all add: L_def c_def R_def)
  have cs: "cs = L @ c # R" unfolding dr [symmetric] L_def by simp
  have db: "data m2 b" using Q(3) by simp
  have r1: "room m2 1" by (rule room_mono [OF rm]) simp
  obtain b' m3 where al: "bitmap_alloc m2 = (b', m3)" "b' \<noteq> 0" and s1: "step m2 1 Map.empty {index_of m2 b'} m3"
    and d': "data m2 b'" by (rule alloc_step [OF Q(1) r1 fr])
  have f': "b' \<in> fresh m2 {index_of m2 b'}" using d' by (simp add: fresh_def)
  have nb: "b' \<noteq> b" "b' \<notin> set (bls cs)" using step_fresh [OF s1] f' Q(3,7) by blast+
  define r0 where "r0 = btree_format (n_flags (nh n) AND NOT SMKFS_BTN_ROOT) (n_parent_block (nh n))"
  have r0: "node_ok r0" "\<not> is_leaf r0" "n_right_sibling (nh r0) = 0"
    using btree_format_is(1,2,4) n(2) by (simp_all add: r0_def and_not_root)
  define l rr where "l = split_left ?tmp n" and "rr = split_right ?tmp r0"
  have wf: "list_all wf_btree_slot (take 8 ?tmp)" "list_all wf_btree_slot (drop 8 ?tmp)"
    using tmp(3) by (auto simp: list_all_iff dest: in_set_takeD in_set_dropD)
  have len: "length (take 8 ?tmp) \<le> 15" "length (drop 8 ?tmp) \<le> 15" using tmp(2) by simp_all
  note FL = fill_is [OF n(1) len(1) wf(1)] and FR = fill_is [OF r0(1) len(2) wf(2)]
  have le: "l = fill (take 8 ?tmp) n" "rr = fill (drop 8 ?tmp) r0" by (simp_all add: l_def rr_def split_is_fill tmp(2))
  have lv: "node_ok l" "node_view l = (False, links L, s)"
    using FL n tmp(1) unfolding le by (simp_all add: node_view_def L_def take_map [symmetric])
  have rv: "node_ok rr" "node_view rr = (False, links (c # R), 0)"
    using FR r0 tmp(1) unfolding le dr [symmetric] by (simp_all add: node_view_def drop_map [symmetric])
  let ?bs = "map s_value (drop 8 ?tmp)"
  have bs: "?bs = map (\<lambda>x. root (snd x)) (c # R)"
  proof -
    have "map s_value ?tmp = map snd (map ent ?tmp)" by (simp add: ent_def)
    then have "map s_value ?tmp = map (\<lambda>x. root (snd x)) cs" unfolding tmp(1) by simp
    then have "drop 8 (map s_value ?tmp) = drop 8 (map (\<lambda>x. root (snd x)) cs)" by simp
    then show ?thesis unfolding drop_map dr .
  qed
  have bsub: "set ?bs \<subseteq> set (bls cs)" unfolding bs using root_in_blocks by (fastforce simp: cs)
  have f2: "forest m2 cs" using r by (simp add: regrown_def)
  have v3: "view_at m3 x = view_at m2 x" if "data m2 x" for x using step_view [OF Q(1) s1 that] by simp
  note M3 = meta_eqD [OF stepD(2) [OF s1]]
  have "\<forall>x \<in> set ?bs. data m3 x \<and> view_at m3 x \<noteq> None"
  proof
    fix x assume x: "x \<in> set ?bs"
    then have dx: "data m2 x" using bsub Q(7) by blast
    obtain d where "d \<in> set (c # R)" "x = root (snd d)" using x unfolding bs set_map by blast
    then have "d \<in> set cs" "x = root (snd d)" by (auto simp: cs)
    moreover from this have "on_disk (view_at m2) (snd d)" using f2 by (simp add: forest_def)
    ultimately have "view_at m2 x \<noteq> None" using on_disk_root by simp
    then show "data m3 x \<and> view_at m3 x \<noteq> None" using v3 [OF dx] dx M3(1) by simp
  qed
  moreover have lb: "length ?bs = 8" using tmp(2) by simp
  moreover have "room m3 (length ?bs)" using room_left [OF s1 rm] lb by simp
  ultimately obtain pf m4 where p: "set_parents ?bs b' m3 = (OK, m4)" "step m3 8 pf {} m4" "pf \<subseteq>\<^sub>m view_at m3" "dom pf \<subseteq> set ?bs"
    using parents_step [OF stepD(1) [OF s1], of ?bs b'] by auto
  have s2: "step m2 9 pf {index_of m2 b'} m4" using step_trans [OF s1 p(2)] by simp
  have d4: "data m4 b" "room m4 1" using db meta_eqD(1) [OF stepD(2) [OF s2]] room_left [OF s2 rm] by simp_all
  obtain m5 where st5: "btree_store m4 b l = (OK, m5)" "step m4 1 [b \<mapsto> node_view l] {} m5"
    by (rule store_step [OF stepD(1) [OF s2] d4 lv(1)])
  have s3: "step m2 10 (pf ++ [b \<mapsto> node_view l]) {index_of m2 b'} m5" using step_trans [OF s2 st5(2)] by simp
  have d5: "data m5 b'" "room m5 1" using d' meta_eqD(1) [OF stepD(2) [OF s3]] room_left [OF s3 rm] by simp_all
  obtain m6 where st6: "btree_store m5 b' rr = (OK, m6)" "step m5 1 [b' \<mapsto> node_view rr] {} m6"
    by (rule store_step [OF stepD(1) [OF s3] d5 rv(1)])
  let ?g = "pf ++ [b \<mapsto> node_view l] ++ [b' \<mapsto> node_view rr]"
  have s4: "step m2 11 ?g {index_of m2 b'} m6" using step_trans [OF s3 st6(2)] by simp
  have vx: "view_at m6 x = view_at m2 x" if x: "x \<in> set (bls cs)" for x
  proof -
    have dx: "data m2 x" "x \<noteq> b" "x \<noteq> b'" using Q(2,7) nb x by auto
    have "pf x = None \<or> pf x = view_at m2 x"
    proof (cases "pf x")
      case (Some y)
      then have "pf x = view_at m3 x" using p(3) unfolding map_le_def by (blast intro: domI)
      then show ?thesis using v3 [OF dx(1)] by simp
    qed simp
    then show ?thesis using step_view [OF Q(1) s4 dx(1)] dx by (auto simp: map_add_def split: option.split)
  qed
  have vb: "view_at m6 b = Some (False, links L, s)" "view_at m6 b' = Some (False, links (c # R), 0)"
    using step_view [OF Q(1) s4 db] step_view [OF Q(1) s4 d'] nb lv(2) rv(2) by (simp_all add: map_add_def)
  have "L \<noteq> []" using lL by auto
  from grown_node_split [OF r [unfolded cs] this s4 f' _ vb] vx
  have G: "grown m m6 (U \<union> {index_of m2 b'}) (Node b cs0) k v (Node b L) [(fst c, Node b' (c # R))]" by (simp add: cs)
  have sep': "cstr (btree_key_copy (s_name (slots rr ! 0))) = fst c"
  proof -
    have "key_count rr = 8" using FR(4) tmp(2) by (simp add: le)
    then have "entries rr ! 0 = (cstr (s_name (slots rr ! 0)), s_value (slots rr ! 0))"
      by (intro entries_nth [OF rv(1)]) simp
    moreover have "entries rr = links (c # R)" using rv(2) by (simp add: node_view_def)
    moreover have "length (fst c) \<le> 255" using Q(8) by (simp add: cs fenced_append fenced_Cons)
    ultimately show ?thesis by (simp add: cstr_key_copy)
  qed
  have X: "btree_index_split_insert m2 b n pos sep rb = (Inr (Some (b', btree_key_copy (s_name (slots rr ! 0)))), m6)"
    unfolding btree_index_split_insert_def Let_def al prod.case tmp(2) l_def [symmetric] r0_def [symmetric] rr_def [symmetric]
    using soundD(3) [OF Q(1)] al(2) p(1) st5(1) st6(1) by (simp add: thenE_def thenS_def)
  have D: "dom ?g \<subseteq> {b} \<union> set (bls cs) \<union> fresh m2 {index_of m2 b'}"
  proof -
    have p': "dom pf \<subseteq> set (bls cs)" using p(4) bsub by (rule order_trans)
    have g: "dom ?g = {b'} \<union> ({b} \<union> dom pf)" by (simp only: dom_map_add) simp
    show ?thesis unfolding g using p' f' by (simp add: subset_iff)
  qed
  have S: "split_is (Some (b', btree_key_copy (s_name (slots rr ! 0)))) [(fst c, Node b' (c # R))]"
    using sep' by (simp add: split_is_def)
  show ?thesis by (intro exI conjI) (rule X, rule s4, simp, rule D, rule G, rule S)
qed

lemma absorb_is:
  assumes r: "regrown m m2 f U b (A @ c # B) (cstr key) v (A @ (min (cstr key) (fst c), t1) # new @ B)"
    and n: "node_ok n" "node_view n = (False, links (A @ c # B), s)" and v0: "view_at m b = Some (False, links (A @ c # B), s)"
    and rt: "root t1 = root (snd c)" and sp: "split_is csplit new"
    and key: "length (cstr key) \<le> 255" and rm: "room m2 11" and fr: "0 < free m2"
  shows "\<exists>split m3 g W t2 new2. btree_index_absorb m2 b n (length A) key csplit = (Inr split, m3) \<and> step m2 11 g W m3 \<and>
    card W \<le> 1 \<and> dom g \<subseteq> {b} \<union> set (bls (A @ (min (cstr key) (fst c), t1) # new @ B)) \<union> fresh m2 W \<and>
    grown m m3 (U \<union> W) (Node b (A @ c # B)) (cstr key) v t2 new2 \<and> split_is split new2"
proof -
  let ?c1 = "(min (cstr key) (fst c), t1)" and ?n1 = "fixed n (length A) key"
  note Q = regrownD [OF r]
  note N = node_viewD [OF n(2)]
  have en: "entries n = links (A @ c # B)" using N by simp
  note F = fixed_is [OF n(1) en key rt]
  have r1: "room m2 1" by (rule room_mono [OF rm]) simp
  have ab: "btree_index_absorb m2 b n (length A) key csplit =
      (case csplit of
         None \<Rightarrow> if cstr key < fst c then thenE (btree_store m2 b ?n1) (\<lambda>m1. (Inr None, m1)) else (Inr None, m2)
       | Some (right_block, sep) \<Rightarrow>
           let pos = btree_leaf_lower_bound ?n1 sep
           in if key_count ?n1 \<ge> BTR_MAX then btree_index_split_insert m2 b ?n1 pos sep right_block
              else thenE (btree_store m2 b (set_count (key_count ?n1 + 1)
                     (set_slots (patch 0 (insert_slot pos (new_slot sep right_block) ?n1) (slots ?n1)) ?n1)))
                     (\<lambda>m1. (Inr None, m1)))"
    unfolding btree_index_absorb_def Let_def fixed_def F(5) by (simp split: option.split prod.split)
  show ?thesis
  proof (cases csplit)
    case None
    then have new: "new = []" using sp by (simp add: split_is_def)
    have r': "regrown m m2 f U b (A @ c # B) (cstr key) v (A @ ?c1 # B)" using r new by simp
    show ?thesis
    proof (cases "cstr key < fst c")
      case True
      have nv: "node_view ?n1 = (False, links (A @ ?c1 # B), s)" using F(2-4) N by (simp add: node_view_def)
      obtain m3 where m3: "btree_store m2 b ?n1 = (OK, m3)" "step m2 1 [b \<mapsto> node_view ?n1] {} m3"
        "grown m m3 U (Node b (A @ c # B)) (cstr key) v (Node b (A @ ?c1 # B)) []"
        using store_children [OF r' F(1) nv r1] by blast
      have X: "btree_index_absorb m2 b n (length A) key csplit = (Inr None, m3)"
        unfolding ab using None True m3(1) by (simp add: thenE_def)
      have s: "step m2 11 [b \<mapsto> node_view ?n1] {} m3" using step_mono [OF m3(2)] by simp
      have G: "grown m m3 (U \<union> {}) (Node b (A @ c # B)) (cstr key) v (Node b (A @ ?c1 # B)) []" using m3(3) by simp
      show ?thesis by (intro exI conjI) (rule X, rule s, simp, simp, rule G, simp add: split_is_def)
    next
      case False
      then have "links (A @ ?c1 # B) = links (A @ c # B)" using rt by (simp add: min_absorb2 not_less)
      then have vb: "view_at m2 b = Some (False, links (A @ ?c1 # B), s)" using Q(6) v0 by simp
      have st: "step m2 11 Map.empty {} m2" using step_mono [OF step_refl [OF Q(1)]] by simp
      have G: "grown m m2 (U \<union> {}) (Node b (A @ c # B)) (cstr key) v (Node b (A @ ?c1 # B)) []"
        by (rule grown_node [OF r' st _ vb]) simp
      have X: "btree_index_absorb m2 b n (length A) key csplit = (Inr None, m2)" unfolding ab using None False by simp
      show ?thesis by (intro exI conjI) (rule X, rule st, simp, simp, rule G, simp add: split_is_def)
    qed
  next
    case (Some rs)
    obtain rb sep where rs: "rs = (rb, sep)" by fastforce
    then obtain T where T: "new = [(cstr sep, T)]" "root T = rb" using sp Some by (auto simp: split_is_def)
    note abS = ab [unfolded Some rs option.case prod.case Let_def]
    let ?cs = "A @ ?c1 # (cstr sep, T) # B"
    have r': "regrown m m2 f U b (A @ c # B) (cstr key) v ?cs" using r T(1) by simp
    have fe: "fenced ?cs" using Q(8) T(1) by simp
    have sl: "length (cstr sep) \<le> 255" using fe by (simp add: fenced_append fenced_Cons)
    let ?pos = "btree_leaf_lower_bound ?n1 sep"
    have pos: "?pos = length A + 1"
      using new_place [OF fe] F(2) by (simp add: lower_bound_is)
    have kc: "key_count ?n1 = length A + length B + 1" using length_entries [OF F(1)] F(2) by simp
    let ?tmp = "insert_slot ?pos (new_slot sep rb) ?n1"
    have pl: "?pos \<le> key_count ?n1" unfolding pos kc by simp
    note I = insert_slot_is [OF F(1) pl, of "new_slot sep rb", OF new_slot_wf]
    have "map ent ?tmp = take ?pos (entries ?n1) @ (cstr sep, rb) # drop ?pos (entries ?n1)"
      unfolding I(4) ent_new_slot [OF sl] ..
    also have "\<dots> = links ?cs" unfolding F(2) pos using T(2) by simp
    finally have tmp: "map ent ?tmp = links ?cs" .
    show ?thesis
    proof (cases "key_count ?n1 < 15")
      case True
      have lt: "length ?tmp \<le> 15" using I(2) True by simp
      note FL = fill_is [OF F(1) lt I(3)]
      have eq: "set_count (key_count ?n1 + 1) (set_slots (patch 0 ?tmp (slots ?n1)) ?n1) = fill ?tmp ?n1"
        using I(2) by (simp add: fill_def)
      have nv: "node_view (fill ?tmp ?n1) = (False, links ?cs, s)" using FL F tmp N by (simp add: node_view_def)
      obtain m3 where m3: "btree_store m2 b (fill ?tmp ?n1) = (OK, m3)" "step m2 1 [b \<mapsto> node_view (fill ?tmp ?n1)] {} m3"
        "grown m m3 U (Node b (A @ c # B)) (cstr key) v (Node b ?cs) []"
        using store_children [OF r' FL(1) nv r1] by blast
      have X: "btree_index_absorb m2 b n (length A) key csplit = (Inr None, m3)"
        unfolding Some rs unfolding abS eq using True m3(1) by (simp add: thenE_def)
      have s: "step m2 11 [b \<mapsto> node_view (fill ?tmp ?n1)] {} m3" using step_mono [OF m3(2)] by simp
      have G: "grown m m3 (U \<union> {}) (Node b (A @ c # B)) (cstr key) v (Node b ?cs) []" using m3(3) by simp
      show ?thesis by (intro exI conjI) (rule X, rule s, simp, simp, rule G, simp add: split_is_def)
    next
      case False
      then have "key_count ?n1 = 15" using node_okD(3) [OF F(1)] by simp
      then have "length ?tmp = 16" using I(2) by simp
      from split_children [OF r' F(1) _ _ tmp this I(3) rm fr, of s] F(3,4) N
      obtain split m3 g W L new2 where m3: "btree_index_split_insert m2 b ?n1 ?pos sep rb = (Inr split, m3)"
        "step m2 11 g W m3" "card W \<le> 1" "dom g \<subseteq> {b} \<union> set (bls ?cs) \<union> fresh m2 W"
        "grown m m3 (U \<union> W) (Node b (A @ c # B)) (cstr key) v (Node b L) new2" "split_is split new2" by auto
      have X: "btree_index_absorb m2 b n (length A) key csplit = (Inr split, m3)"
        unfolding Some rs unfolding abS using False m3(1) by simp
      have D: "dom g \<subseteq> {b} \<union> set (bls (A @ ?c1 # new @ B)) \<union> fresh m2 W" using m3(4) T(1) by simp
      show ?thesis by (intro exI conjI) (rule X, rule m3(2), rule m3(3), rule D, rule m3(5), rule m3(6))
    qed
  qed
qed

end
