(* ===== verification/TreeInsert.thy ===== *)
theory TreeInsert
  imports TreeAbsorb
begin

text \<open>
  The recursion of \<open>btree_insert\<close> at every height, the growth at the root, and the properties
  of the operations on a whole tree: search, insertion and iteration against the sorted list
  \<open>flat t\<close>.
\<close>

section \<open>The recursion\<close>

text \<open>Loading the root of a tree changes nothing that matters to it.\<close>

lemma load_same:
  assumes "sound m" "step m 0 Map.empty {} m1"
  shows "data m x \<Longrightarrow> view_at m1 x = view_at m x" "fresh m1 U = fresh m U" "free m1 = free m"
    "sub_in m t \<Longrightarrow> sub_in m1 t"
proof -
  show v: "data m x \<Longrightarrow> view_at m1 x = view_at m x" for x using step_view [OF assms] by simp
  show "fresh m1 U = fresh m U" using meta_eqD(1,3) [OF stepD(2) [OF assms(2)]] by (simp add: fresh_def)
  show "free m1 = free m" using step_free(1) [OF assms(2)] by simp
  show "sub_in m1 t" if "sub_in m t"
  proof (rule sub_step [OF assms(2) that], rule ballI)
    fix b assume "b \<in> set (blocks t)"
    with that have "data m b" by (simp add: sub_in_def)
    then show "view_at m1 b = view_at m b" by (rule v)
  qed
qed

lemma grown_base:
  assumes "sound m" "step m 0 Map.empty {} m1" "sub_in m t" "grown m1 m2 U t k v t1 new"
  shows "grown m m2 U t k v t1 new"
proof -
  have "\<forall>x \<in> set (leaves t). view_at m1 x = view_at m x"
    using load_same(1) [OF assms(1,2)] assms(3) leaves_in_blocks by (auto simp: sub_in_def)
  from chain_cong [OF this] show ?thesis
    using assms(4) load_same(2) [OF assms(1,2)] unfolding grown_def by metis
qed

definition insert_result :: "mount \<Rightarrow> tree \<Rightarrow> bytes \<Rightarrow> u64 \<Rightarrow> ((status + split) \<times> mount) option \<Rightarrow> bool" where
  "insert_result m t key v r \<longleftrightarrow> (\<exists>split m1 f U t1 new. r = Some (Inr split, m1) \<and> step m (3 + 11 * height t) f U m1 \<and>
     card U \<le> Suc (height t) \<and> dom f \<subseteq> set (blocks t) \<union> fresh m U \<and> grown m m1 U t (cstr key) v t1 new \<and> split_is split new)"

lemma insert_result_base:
  assumes "sound m" "step m 0 Map.empty {} m1" "sub_in m t" "insert_result m1 t key v r"
  shows "insert_result m t key v r"
proof -
  obtain split m2 f U t1 new where r: "r = Some (Inr split, m2)" "step m1 (3 + 11 * height t) f U m2"
    "card U \<le> Suc (height t)" "dom f \<subseteq> set (blocks t) \<union> fresh m1 U" "grown m1 m2 U t (cstr key) v t1 new" "split_is split new"
    using assms(4) by (auto simp: insert_result_def)
  have "step m (3 + 11 * height t) f U m2" using step_trans [OF assms(2) r(2)] by simp
  moreover have "dom f \<subseteq> set (blocks t) \<union> fresh m U" using r(4) load_same(2) [OF assms(1,2)] by simp
  ultimately show ?thesis using r grown_base [OF assms(1-3) r(5)] unfolding insert_result_def by blast
qed

lemma card_two: "card U \<le> a \<Longrightarrow> card W \<le> b \<Longrightarrow> card (U \<union> W) \<le> a + b"
  using card_Un_le [of U W] by linarith

lemma insert_rec_is:
  assumes "sound m" "sub_in m t" "room m (3 + 11 * height t)" "height t < free m" "length (cstr key) \<le> 255"
  shows "insert_result m t key v (btree_insert_rec key v (root t) m)"
  using assms(1-4)
proof (induction t arbitrary: m rule: flat.induct)
  case (1 b es)
  have "on_disk (view_at m) (Leaf b es)" "data m b" using 1(2) by (simp_all add: sub_in_def)
  then obtain s where v0: "view_at m b = Some (True, es, s)" and db: "data m b" by auto
  obtain n m1 where l: "btree_load m b = (Inr n, m1)" "step m 0 Map.empty {} m1" "node_ok n" "node_view n = (True, es, s)"
    by (rule load_step [OF 1(1) db v0])
  note S = load_same [OF 1(1) l(2)]
  have sb: "sub_in m1 (Leaf b es)" by (rule S(4) [OF 1(2)])
  have v1: "view_at m1 b = Some (True, es, s)" using S(1) [OF db] v0 by simp
  have "room m1 3" using room_left [OF l(2) 1(3), of 3] by simp
  from leaf_insert_is [OF stepD(1) [OF l(2)] sb l(3,4) v1 assms(5) this, of v] 1(4) S(3)
  obtain split m2 f U t1 new where i: "btree_leaf_insert m1 b n key v = (Inr split, m2)" "step m1 3 f U m2" "card U \<le> 1"
    "dom f \<subseteq> {b} \<union> fresh m1 U" "grown m1 m2 U (Leaf b es) (cstr key) v t1 new" "split_is split new" by auto
  have "btree_insert_rec key v b m = Some (btree_leaf_insert m1 b n key v)"
    using soundD(3) [OF 1(1)] node_viewD [OF l(4)] by (subst btree_insert_rec.simps) (simp add: l(1))
  then have "btree_insert_rec key v (root (Leaf b es)) m = Some (Inr split, m2)" using i(1) by simp
  moreover have "insert_result m1 (Leaf b es) key v (Some (Inr split, m2))"
    unfolding insert_result_def using i(2-6) by (intro exI conjI) (rule refl, simp, simp, simp, assumption, assumption)
  ultimately show ?case using insert_result_base [OF 1(1) l(2) 1(2)] by simp
next
  case (2 b cs)
  let ?k = "cstr key"
  obtain s where v0: "view_at m b = Some (False, links cs, s)" and db: "data m b" and ne: "cs \<noteq> []"
    using 2(3) by (auto simp: sub_in_Node)
  obtain n m1 where l: "btree_load m b = (Inr n, m1)" "step m 0 Map.empty {} m1" "node_ok n" "node_view n = (False, links cs, s)"
    by (rule load_step [OF 2(2) db v0])
  note S = load_same [OF 2(2) l(2)]
  have sb: "sub_in m1 (Node b cs)" by (rule S(4) [OF 2(3)])
  have s1: "sound m1" by (rule stepD(1) [OF l(2)])
  have v1: "view_at m1 b = Some (False, links cs, s)" using S(1) [OF db] v0 by simp
  have fo: "forest m1 cs" using sb by (simp add: sub_in_Node)
  then have fe: "fenced cs" by (simp add: forest_def)
  obtain A c B where c: "cs = A @ c # B" "length (takeWhile (\<lambda>c. fst c \<le> ?k) (tl cs)) = length A"
    "\<forall>d \<in> set A. \<forall>e \<in> set (flat (snd d)). fst e < ?k" "\<forall>d \<in> set B. ?k < fst d" "A \<noteq> [] \<Longrightarrow> fst c \<le> ?k"
    using chosen_child [OF fe ne] by metis
  have en: "entries n = links (A @ c # B)" and nl: "\<not> is_leaf n" using node_viewD [OF l(4)] c(1) by auto
  have ic: "btree_index_child n key = length A" using index_child_chosen [OF en] c(2) by (simp add: c(1))
  note C = child_of_node [OF l(3) en]
  have cin: "c \<in> set cs" by (simp add: c(1))
  have sc: "sub_in m1 (snd c)" by (rule forest_sub [OF fo cin])
  have h: "height (snd c) < height (Node b cs)" by (rule height_child [OF cin])
  have rm1: "room m1 (3 + 11 * height (Node b cs))" by (rule room_left [OF l(2) 2(4)]) simp
  have rmc: "room m1 (3 + 11 * height (snd c))" by (rule room_mono [OF rm1]) (use h in simp)
  have frc: "height (snd c) < free m1" using h 2(5) S(3) by simp
  have "insert_result m1 (snd c) key v (btree_insert_rec key v (root (snd c)) m1)"
    by (rule 2(1) [OF cin s1 sc rmc frc])
  then obtain csplit m2 f U t1 new where i: "btree_insert_rec key v (root (snd c)) m1 = Some (Inr csplit, m2)"
    "step m1 (3 + 11 * height (snd c)) f U m2" "card U \<le> Suc (height (snd c))" "dom f \<subseteq> set (blocks (snd c)) \<union> fresh m1 U"
    "grown m1 m2 U (snd c) ?k v t1 new" "split_is csplit new" by (auto simp: insert_result_def)
  let ?cs' = "A @ (min ?k (fst c), t1) # new @ B"
  note FR = forest_replace [OF i(2) fo [unfolded c(1)] i(4,5) s1 c(3,4) c(5) assms(5)]
  have rg: "regrown m1 m2 f U b (A @ c # B) ?k v ?cs'"
    unfolding regrown_def
  proof (intro conjI)
    show "sub_in m1 (Node b (A @ c # B))" using sb c(1) by simp
    show "\<exists>n. step m1 n f U m2" using i(2) by blast
    show "dom f \<subseteq> set (bls (A @ c # B)) \<union> fresh m1 U" using i(4) by auto
    show "\<forall>nxt. chain (view_at m1) (lvs (A @ c # B)) nxt \<longrightarrow> chain (view_at m2) (lvs ?cs') nxt" using FR(4) by blast
  qed (use s1 FR(1,2,3,5) in simp_all)
  have rm2: "room m2 11" by (rule room_left [OF i(2) rm1]) (use h in simp)
  have fr2: "0 < free m2" using step_free(1) [OF i(2)] i(3) h 2(5) S(3) by linarith
  have rt: "root t1 = root (snd c)" using i(5) by (simp add: grown_def)
  obtain split m3 g W t2 new2 where ab: "btree_index_absorb m2 b n (length A) key csplit = (Inr split, m3)" "step m2 11 g W m3"
    "card W \<le> 1" "dom g \<subseteq> {b} \<union> set (bls ?cs') \<union> fresh m2 W" "grown m1 m3 (U \<union> W) (Node b (A @ c # B)) ?k v t2 new2"
    "split_is split new2"
    using absorb_is [OF rg l(3) l(4) [unfolded c(1)] v1 [unfolded c(1)] rt i(6) assms(5) rm2 fr2] by blast
  have "btree_insert_rec key v b m = Some (Inr split, m3)"
    using soundD(3) [OF 2(2)] nl C(1) i(1) ab(1) by (subst btree_insert_rec.simps) (simp add: l(1) ic)
  moreover have "insert_result m1 (Node b cs) key v (Some (Inr split, m3))"
    unfolding insert_result_def
  proof (intro exI conjI)
    show "step m1 (3 + 11 * height (Node b cs)) (f ++ g) (U \<union> W) m3"
      by (rule step_mono [OF step_trans [OF i(2) ab(2)]]) (use h in simp)
    show "card (U \<union> W) \<le> Suc (height (Node b cs))"
      using card_two [OF i(3) ab(3)] h by simp
    have "fresh m2 W \<subseteq> fresh m1 (U \<union> W)" "fresh m1 U \<subseteq> fresh m1 (U \<union> W)"
      by (rule fresh_trans(1) [OF i(2)], rule fresh_trans(2))
    moreover have "set (bls ?cs') \<subseteq> set (bls cs) \<union> fresh m1 U" using FR(3) by (simp add: c(1))
    moreover have "set (blocks (snd c)) \<subseteq> set (bls cs)" by (auto simp: c(1))
    ultimately show "dom (f ++ g) \<subseteq> set (blocks (Node b cs)) \<union> fresh m1 (U \<union> W)"
      using i(4) ab(4) unfolding dom_map_add blocks.simps list.set by blast
    show "grown m1 m3 (U \<union> W) (Node b cs) (cstr key) v t2 new2" using ab(5) c(1) by simp
  qed (rule refl, rule ab(6))
  ultimately show ?case using insert_result_base [OF 2(2) l(2) 2(3)] by simp
qed

section \<open>The root\<close>

lemma sub_in_tree: "tree_in m t \<longleftrightarrow> sub_in m t \<and> chain (view_at m) (leaves t) 0"
  by (auto simp: tree_in_def sub_in_def)

text \<open>A whole tree that did not split at the root.\<close>

lemma grown_whole:
  assumes "grown m m1 U t k v t1 []" "chain (view_at m) (leaves t) 0"
  shows "tree_in m1 t1" "flat t1 = put k v (flat t)" "root t1 = root t"
proof -
  note G = assms(1) [unfolded grown_def]
  have "forest m1 [([], t1)]" using G by simp
  then show "tree_in m1 t1" using G assms(2) by (simp add: sub_in_tree forest_def sub_in_def)
  show "flat t1 = put k v (flat t)" "root t1 = root t" using G by simp_all
qed

text \<open>The first name of a node is at most every name below it.\<close>

lemma first_fence:
  assumes "tree_ok t" "flat t \<noteq> []" "view_at m (root t) = Some (l, es, s)" "on_disk (view_at m) t"
  shows "es \<noteq> []" "length (fst (hd es)) \<le> 255" "\<forall>e \<in> set (flat t). fst (hd es) \<le> fst e"
proof -
  have "es \<noteq> [] \<and> length (fst (hd es)) \<le> 255 \<and> (\<forall>e \<in> set (flat t). fst (hd es) \<le> fst e)"
  proof (cases t)
    case (Leaf b xs)
    then have "xs = es" using assms(3,4) by simp
    then show ?thesis using assms(1,2) Leaf by (cases es) (auto simp: less_imp_le)
  next
    case (Node b cs)
    then have es: "es = links cs" using assms(3,4) by simp
    obtain c ds where cs: "cs = c # ds" using assms(1) Node by (cases cs) auto
    have F: "fenced (c # ds)" using assms(1) Node cs by simp
    have "fst c \<le> fst e" if d: "d \<in> set (c # ds)" "e \<in> set (flat (snd d))" for d e
    proof -
      have "fst c \<le> fst d" using F d(1) by (auto simp: fenced_Cons)
      also have "fst d \<le> fst e" using F d unfolding fenced_def by blast
      finally show ?thesis .
    qed
    then show ?thesis using F Node es cs by (auto simp: fenced_Cons)
  qed
  then show "es \<noteq> []" "length (fst (hd es)) \<le> 255" "\<forall>e \<in> set (flat t). fst (hd es) \<le> fst e" by simp_all
qed

lemma btree_grow_is:
  assumes sm: "sound m" and fo: "\<forall>k0. length k0 \<le> 255 \<and> (\<forall>e \<in> set (flat t1). k0 \<le> fst e) \<longrightarrow> forest m [(k0, t1), (cstr sep, T)]"
    and ch: "chain (view_at m) (leaves t1 @ leaves T) 0" and rm: "room m 4" and fr: "0 < free m"
  shows "\<exists>m' t' g W. btree_grow m (root t1) (root T) sep = (Inr (root t'), m') \<and> step m 4 g W m' \<and>
    dom g \<subseteq> set (blocks t1) \<union> set (blocks T) \<union> fresh m W \<and> tree_in m' t' \<and> flat t' = flat t1 @ flat T"
proof -
  have f0: "forest m [([], t1), (cstr sep, T)]" using fo by simp
  have s1: "sub_in m t1" and sT: "sub_in m T"
    using forest_sub [OF f0, of "([], t1)"] forest_sub [OF f0, of "(cstr sep, T)"] by simp_all
  have dj: "set (blocks t1) \<inter> set (blocks T) = {}" using f0 by (auto simp: forest_def)
  have d1: "data m (root t1)" and dT: "data m (root T)" and ne: "root t1 \<noteq> root T"
    using s1 sT root_in_blocks [of t1] root_in_blocks [of T] dj by (auto simp: sub_in_def)
  have o1: "on_disk (view_at m) t1" "tree_ok t1" and oT: "on_disk (view_at m) T" using s1 sT by (simp_all add: sub_in_def)
  obtain l es s where v1: "view_at m (root t1) = Some (l, es, s)" using on_disk_root [OF o1(1)] by auto
  obtain xT where vT: "view_at m (root T) = Some xT" using on_disk_root [OF oT] by blast
  have fl: "flat t1 \<noteq> []" using f0 by (simp add: forest_def fenced_Cons)
  note low = first_fence [OF o1(2) fl v1 o1(1)]
  have r1: "room m 1" by (rule room_mono [OF rm]) simp
  obtain b' m1 where al: "bitmap_alloc m = (b', m1)" "b' \<noteq> 0" and st1: "step m 1 Map.empty {index_of m b'} m1" and d': "data m b'"
    by (rule alloc_step [OF sm r1 fr])
  have bn: "b' \<notin> set (blocks t1) \<union> set (blocks T)"
    using step_fresh [OF st1] d' s1 sT by (auto simp: fresh_def sub_in_def)
  then have nb: "b' \<noteq> root t1" "b' \<noteq> root T" using root_in_blocks by blast+
  have e1: "data m1 = data m" by (rule meta_eqD(1) [OF stepD(2) [OF st1]])
  have w1: "view_at m1 x = view_at m x" if "data m x" for x using step_view [OF sm st1 that] by simp
  have dd: "data m1 (root t1)" "view_at m1 (root t1) = Some (l, es, s)" using d1 e1 w1 v1 by simp_all
  obtain n m2 where ld: "btree_load m1 (root t1) = (Inr n, m2)" "step m1 0 Map.empty {} m2" "node_ok n" "node_view n = (l, es, s)"
    by (rule load_step [OF stepD(1) [OF st1] dd])
  have st2: "step m 1 Map.empty {index_of m b'} m2" using step_trans [OF st1 ld(2)] by simp
  define fl where "fl = n_flags (nh n) AND NOT SMKFS_BTN_ROOT"
  define old where "old = n\<lparr> nh := (nh n)\<lparr> n_flags := fl, n_header := (n_header (nh n))\<lparr> h_flags := fl \<rparr>, n_parent_block := b' \<rparr> \<rparr>"
  have ov: "node_ok old" "node_view old = (l, es, s)"
    using ld(3,4) unfolding old_def by (simp_all add: node_view_def fl_def and_not_root)
  have k0: "0 < key_count n" "cstr (btree_key_at n 0) = fst (hd es)"
  proof -
    have en: "entries n = es" using node_viewD [OF ld(4)] by simp
    show k: "0 < key_count n" using length_entries [OF ld(3)] en low(1) by (cases "key_count n") auto
    show "cstr (btree_key_at n 0) = fst (hd es)"
      using entries_nth [OF ld(3) k] en low(1) by (simp add: btree_key_at_def hd_conv_nth)
  qed
  define k where "k = btree_key_copy (btree_key_at n 0)"
  have ck: "cstr k = fst (hd es)" using k0(2) low(2) by (simp add: k_def cstr_key_copy)
  define r0 where "r0 = btree_format SMKFS_BTN_ROOT 0"
  have r0: "node_ok r0" "\<not> is_leaf r0" "n_right_sibling (nh r0) = 0" using btree_format_is(1,2,4) by (simp_all add: r0_def)
  let ?ts = "[new_slot k (root t1), new_slot sep (root T)]"
  have F1: "length ?ts \<le> 15" "list_all wf_btree_slot ?ts" by simp_all
  note FL = fill_is [OF r0(1) F1]
  have rt: "set_count 2 (set_slots ((slots r0)[0 := new_slot k (root t1), 1 := new_slot sep (root T)]) r0) = fill ?ts r0"
  proof -
    have "length (slots r0) = Suc (Suc 13)" using node_okD(2) [OF r0(1)] by simp
    then obtain x y zs where "slots r0 = x # y # zs" unfolding length_Suc_conv by blast
    then show ?thesis by (simp add: fill_def patch_def)
  qed
  have fo': "forest m [(fst (hd es), t1), (cstr sep, T)]" using fo low by simp
  then have sl: "length (cstr sep) \<le> 255" by (simp add: forest_def fenced_Cons)
  have nv: "node_view (fill ?ts r0) = (False, [(fst (hd es), root t1), (cstr sep, root T)], 0)"
    using FL r0 ck low(2) sl by (simp add: node_view_def ent_new_slot)
  have d2: "data m2 (root t1)" "room m2 1" using d1 meta_eqD(1) [OF stepD(2) [OF st2]] room_left [OF st2 rm] by simp_all
  obtain m3 where so: "btree_store m2 (root t1) old = (OK, m3)" "step m2 1 [root t1 \<mapsto> node_view old] {} m3"
    by (rule store_step [OF stepD(1) [OF st2] d2 ov(1)])
  have st3: "step m 2 [root t1 \<mapsto> node_view old] {index_of m b'} m3" using step_trans [OF st2 so(2)] by (simp add: numeral_2_eq_2)
  have vT3: "view_at m3 (root T) = Some xT" using step_view [OF sm st3 dT] ne vT by simp
  have d3: "data m3 (root T)" "room m3 1" using dT meta_eqD(1) [OF stepD(2) [OF st3]] room_left [OF st3 rm] by simp_all
  obtain m4 where sp: "btree_set_parent m3 (root T) b' = (OK, m4)" "step m3 1 [root T \<mapsto> xT] {} m4"
    by (rule parent_step [OF stepD(1) [OF st3] d3(1) vT3 d3(2)])
  have st4: "step m 3 ([root t1 \<mapsto> node_view old] ++ [root T \<mapsto> xT]) {index_of m b'} m4"
    using step_trans [OF st3 sp(2)] by simp
  have d4: "data m4 b'" "room m4 1" using d' meta_eqD(1) [OF stepD(2) [OF st4]] room_left [OF st4 rm] by simp_all
  obtain m5 where sn: "btree_store m4 b' (fill ?ts r0) = (OK, m5)" "step m4 1 [b' \<mapsto> node_view (fill ?ts r0)] {} m5"
    by (rule store_step [OF stepD(1) [OF st4] d4 FL(1)])
  let ?g = "[root t1 \<mapsto> node_view old] ++ [root T \<mapsto> xT] ++ [b' \<mapsto> node_view (fill ?ts r0)]"
  have st5: "step m 4 ?g {index_of m b'} m5" using step_trans [OF st4 sn(2)] by simp
  have vx: "view_at m5 x = view_at m x" if "x \<in> set (blocks t1) \<union> set (blocks T)" for x
  proof -
    have "data m x" "x \<noteq> b'" using that s1 sT bn by (auto simp: sub_in_def)
    then show ?thesis using step_view [OF sm st5] ov(2) v1 vT by (auto simp: map_add_def)
  qed
  have vb: "view_at m5 b' = Some (False, [(fst (hd es), root t1), (cstr sep, root T)], 0)"
    using step_view [OF sm st5 d'] nv by (simp add: map_add_def)
  let ?t = "Node b' [(fst (hd es), t1), (cstr sep, T)]"
  have "\<forall>x \<in> set (bls [(fst (hd es), t1), (cstr sep, T)]). view_at m5 x = view_at m x" using vx by simp
  then have f5: "forest m5 [(fst (hd es), t1), (cstr sep, T)]" by (rule forest_step [OF st5 fo'])
  have hb: "held m5 b'" using fresh_held [OF st5] d' by (simp add: fresh_def)
  have "sub_in m5 ?t" using f5 vb hb bn unfolding sub_in_Node by simp
  moreover have "chain (view_at m5) (leaves ?t) 0"
  proof -
    have "\<forall>x \<in> set (leaves t1 @ leaves T). view_at m5 x = view_at m x" using vx leaves_in_blocks by fastforce
    from chain_cong [OF this] show ?thesis using ch by simp
  qed
  ultimately have t5: "tree_in m5 ?t" by (simp add: sub_in_tree)
  have X: "btree_grow m (root t1) (root T) sep = (Inr (root ?t), m5)"
    unfolding btree_grow_def al prod.case Let_def
    using al(2) soundD(3) [OF stepD(1) [OF st1]] ld(1) so(1) [unfolded old_def, unfolded fl_def] sp(1) sn(1) [folded rt]
    by (simp add: thenE_def thenS_def bindE_def k_def [symmetric] r0_def [symmetric])
  have D: "dom ?g \<subseteq> set (blocks t1) \<union> set (blocks T) \<union> fresh m {index_of m b'}"
    using d' root_in_blocks [of t1] root_in_blocks [of T] by (simp add: fresh_def)
  show ?thesis by (intro exI conjI) (rule X, rule st5, rule D, rule t5, simp)
qed

section \<open>The whole tree\<close>

text \<open>
  What an index root stands for: root 0 for the empty directory, or the root of a tree in the
  volume. \<open>index_cost\<close> bounds the journal slots that an insertion uses, \<open>3\<close> for the leaf and
  \<open>11\<close> for each level that splits, and \<open>4\<close> for a new root.
\<close>

definition holds_dir :: "mount \<Rightarrow> u64 \<Rightarrow> nat \<Rightarrow> entry list \<Rightarrow> bool" where
  "holds_dir m r h es \<longleftrightarrow> (r = 0 \<and> es = []) \<or> (\<exists>t. tree_in m t \<and> root t = r \<and> height t = h \<and> flat t = es)"

definition index_cost :: "u64 \<Rightarrow> nat \<Rightarrow> nat" where
  "index_cost r h = (if r = 0 then 2 else 7 + 11 * h)"

lemma first_leaf_is:
  assumes sm: "sound m" and rm: "room m 2" and fr: "0 < free m" and key: "length (cstr key) \<le> 255"
  obtains r m' x where "btree_first_leaf m key v = (Inr r, m')" "step m 2 [r \<mapsto> x] {index_of m r} m'" "r \<noteq> 0" "data m r"
    "tree_in m' (Leaf r [(cstr key, v)])"
proof -
  have r1: "room m 1" by (rule room_mono [OF rm]) simp
  obtain b' m1 where al: "bitmap_alloc m = (b', m1)" "b' \<noteq> 0" and st1: "step m 1 Map.empty {index_of m b'} m1" and d': "data m b'"
    by (rule alloc_step [OF sm r1 fr])
  define n where "n = btree_format (SMKFS_BTN_LEAF OR SMKFS_BTN_ROOT) 0"
  have n: "node_ok n" "is_leaf n" "n_right_sibling (nh n) = 0"
    using btree_format_is(1,2,4) by (simp_all add: n_def)
  have F1: "length [new_slot key v] \<le> 15" "list_all wf_btree_slot [new_slot key v]" by simp_all
  note FL = fill_is [OF n(1) F1]
  have eq: "set_count 1 (set_slots ((slots n)[0 := new_slot key v]) n) = fill [new_slot key v] n"
  proof -
    have "length (slots n) = Suc 14" using node_okD(2) [OF n(1)] by simp
    then obtain x zs where "slots n = x # zs" unfolding length_Suc_conv by blast
    then show ?thesis by (simp add: fill_def patch_def)
  qed
  have nv: "node_view (fill [new_slot key v] n) = (True, [(cstr key, v)], 0)"
    using FL n key by (simp add: node_view_def ent_new_slot)
  have d1: "data m1 b'" "room m1 1" using d' meta_eqD(1) [OF stepD(2) [OF st1]] room_left [OF st1 rm] by simp_all
  obtain m2 where so: "btree_store m1 b' (fill [new_slot key v] n) = (OK, m2)"
    "step m1 1 [b' \<mapsto> node_view (fill [new_slot key v] n)] {} m2"
    by (rule store_step [OF stepD(1) [OF st1] d1 FL(1)])
  have st2: "step m 2 [b' \<mapsto> node_view (fill [new_slot key v] n)] {index_of m b'} m2"
    using step_trans [OF st1 so(2)] by (simp add: numeral_2_eq_2)
  have vb: "view_at m2 b' = Some (True, [(cstr key, v)], 0)" using step_view [OF sm st2 d'] nv by simp
  have hb: "held m2 b'" using fresh_held [OF st2] d' by (simp add: fresh_def)
  have t: "tree_in m2 (Leaf b' [(cstr key, v)])" using vb hb key by (simp add: tree_in_def)
  have X: "btree_first_leaf m key v = (Inr b', m2)"
    unfolding btree_first_leaf_def al prod.case Let_def n_def [symmetric] eq
    using al(2) soundD(3) [OF stepD(1) [OF st1]] so(1) by (simp add: thenE_def)
  show thesis by (rule that [OF X st2 al(2) d' t])
qed

lemma key_cstr:
  "cstr key \<noteq> [] \<Longrightarrow> length (cstr key) \<le> 255 \<Longrightarrow> hd0 key \<noteq> 0 \<and> \<not> strlen key > SMKFS_BTR_MAX_KEY"
  using cstr_step [of key] by (auto simp: strlen_cstr)

lemma insert_tree_is:
  assumes sm: "sound m" and t: "tree_in m t" and rm: "room m (7 + 11 * height t)" and fr: "Suc (height t) < free m"
    and key: "cstr key \<noteq> []" "length (cstr key) \<le> 255"
  shows "\<exists>t' m' f U. btree_insert m (root t) key v = Some (Inr (root t'), m') \<and> step m (7 + 11 * height t) f U m' \<and>
    dom f \<subseteq> set (blocks t) \<union> fresh m U \<and> tree_in m' t' \<and> flat t' = put (cstr key) v (flat t)"
proof -
  note k = key_cstr [OF key]
  have r0: "root t \<noteq> 0" using dataD(3) [OF sm] root_in_blocks t by (auto simp: tree_in_def)
  have si: "sub_in m t" and ch: "chain (view_at m) (leaves t) 0" using t by (simp_all add: sub_in_tree)
  have r3: "room m (3 + 11 * height t)" by (rule room_mono [OF rm]) simp
  have frh: "height t < free m" using fr by simp
  have "insert_result m t key v (btree_insert_rec key v (root t) m)"
    by (rule insert_rec_is [OF sm si r3 frh key(2)])
  then obtain split m1 f U t1 new where i: "btree_insert_rec key v (root t) m = Some (Inr split, m1)"
    "step m (3 + 11 * height t) f U m1" "card U \<le> Suc (height t)" "dom f \<subseteq> set (blocks t) \<union> fresh m U"
    "grown m m1 U t (cstr key) v t1 new" "split_is split new"
    by (auto simp: insert_result_def)
  show ?thesis
  proof (cases split)
    case None
    then have nw: "new = []" using i(6) by (simp add: split_is_def)
    note W = grown_whole [OF i(5) [unfolded nw] ch]
    have X: "btree_insert m (root t) key v = Some (Inr (root t1), m1)"
      using i(1) None r0 k W(3) by (simp add: btree_insert_def bindX_def)
    have s: "step m (7 + 11 * height t) f U m1" by (rule step_mono [OF i(2)]) simp
    show ?thesis by (intro exI conjI) (rule X, rule s, rule i(4), rule W(1), rule W(2))
  next
    case (Some rs)
    obtain rb sep where rs: "rs = (rb, sep)" by fastforce
    then obtain T where T: "new = [(cstr sep, T)]" "root T = rb" using i(6) Some by (auto simp: split_is_def)
    note G = i(5) [unfolded grown_def T(1)]
    have fo: "\<forall>k0. length k0 \<le> 255 \<and> (\<forall>e \<in> set (flat t1). k0 \<le> fst e) \<longrightarrow> forest m1 [(k0, t1), (cstr sep, T)]"
      and c1: "chain (view_at m1) (leaves t1 @ leaves T) 0" and rt: "root t1 = root t"
      and fl: "flat t1 @ flat T = put (cstr key) v (flat t)"
      and bl: "set (blocks t1) \<union> set (blocks T) \<subseteq> set (blocks t) \<union> fresh m U"
      using G ch by simp_all
    have r4: "room m1 4" by (rule room_left [OF i(2) rm]) simp
    have f1: "0 < free m1" using step_free(1) [OF i(2)] i(3) fr by linarith
    obtain m' t' g W where g: "btree_grow m1 (root t1) (root T) sep = (Inr (root t'), m')" "step m1 4 g W m'"
      "dom g \<subseteq> set (blocks t1) \<union> set (blocks T) \<union> fresh m1 W" "tree_in m' t'" "flat t' = flat t1 @ flat T"
      using btree_grow_is [OF stepD(1) [OF i(2)] fo c1 r4 f1] by blast
    have X: "btree_insert m (root t) key v = Some (Inr (root t'), m')"
      using i(1) Some rs r0 k g(1) rt T(2) by (simp add: btree_insert_def bindX_def)
    have s: "step m (7 + 11 * height t) (f ++ g) (U \<union> W) m'" by (rule step_mono [OF step_trans [OF i(2) g(2)]]) simp
    have D: "dom (f ++ g) \<subseteq> set (blocks t) \<union> fresh m (U \<union> W)"
      unfolding dom_map_add using i(4) g(3) bl fresh_trans(1) [OF i(2), of W] fresh_trans(2) [of m U W] by blast
    show ?thesis by (intro exI conjI) (rule X, rule s, rule D, rule g(4), simp add: g(5) fl)
  qed
qed

lemma btree_insert_is:
  assumes sm: "sound m" and d: "holds_dir m r h es" and rm: "room m (index_cost r h)" and fr: "Suc h < free m"
    and key: "cstr key \<noteq> []" "length (cstr key) \<le> 255"
  shows "\<exists>r' h' m'. btree_insert m r key v = Some (Inr r', m') \<and> sound m' \<and> meta_eq m m' \<and> holds_dir m' r' h' (put (cstr key) v es)"
proof (cases "r = 0")
  case True
  have "\<not> (\<exists>t. tree_in m t \<and> root t = r)" using True dataD(3) [OF sm] root_in_blocks by (auto simp: tree_in_def)
  then have es: "es = []" using d by (auto simp: holds_dir_def)
  have r2: "room m 2" using rm True by (simp add: index_cost_def)
  have f0: "0 < free m" using fr by simp
  obtain r' m' x where i: "btree_first_leaf m key v = (Inr r', m')" "step m 2 [r' \<mapsto> x] {index_of m r'} m'"
    "tree_in m' (Leaf r' [(cstr key, v)])" by (rule first_leaf_is [OF sm r2 f0 key(2)])
  have "holds_dir m' r' 0 [(cstr key, v)]"
    unfolding holds_dir_def using i(3) by (intro disjI2 exI [of _ "Leaf r' [(cstr key, v)]"]) simp
  moreover have "put (cstr key) v [] = [(cstr key, v)]" by (simp add: put_def below_def)
  moreover have "btree_insert m r key v = Some (btree_first_leaf m key v)"
    using True key_cstr [OF key] by (simp add: btree_insert_def)
  ultimately show ?thesis unfolding es using i(1) stepD(1,2) [OF i(2)] by metis
next
  case False
  then obtain t where t: "tree_in m t" "root t = r" "height t = h" "flat t = es" using d by (auto simp: holds_dir_def)
  have rm': "room m (7 + 11 * height t)" using rm False t(3) by (simp add: index_cost_def)
  have fr': "Suc (height t) < free m" using fr t(3) by simp
  obtain t' m' f U where i: "btree_insert m (root t) key v = Some (Inr (root t'), m')" "step m (7 + 11 * height t) f U m'"
    "tree_in m' t'" "flat t' = put (cstr key) v (flat t)"
    using insert_tree_is [OF sm t(1) rm' fr' key, of v] by blast
  have "holds_dir m' (root t') (height t') (put (cstr key) v es)"
    unfolding holds_dir_def using i(3,4) t(4) by (intro disjI2 exI [of _ t']) simp
  then show ?thesis using i(1) stepD(1,2) [OF i(2)] t(2) by blast
qed

text \<open>A tree that shares no block with what a step writes.\<close>

lemma tree_frame:
  assumes "sound m" "step m n f U m'" "tree_in m t2" "dom f \<subseteq> B \<union> fresh m U" "set (blocks t2) \<inter> B = {}"
  shows "tree_in m' t2"
proof -
  have si: "sub_in m t2" and ch: "chain (view_at m) (leaves t2) 0" using assms(3) by (simp_all add: sub_in_tree)
  have eq: "view_at m' b = view_at m b" if b: "b \<in> set (blocks t2)" for b
  proof -
    have h: "held m b" using si b by (simp add: sub_in_def)
    then have "b \<notin> fresh m U" by (rule step_fresh [OF assms(2)])
    then have "f b = None" using assms(4,5) b by blast
    then show ?thesis using step_view [OF assms(1,2)] h by (simp add: map_add_def)
  qed
  have "sub_in m' t2" by (rule sub_step [OF assms(2) si]) (simp add: eq)
  moreover have "chain (view_at m') (leaves t2) 0"
    using chain_cong [of "leaves t2" "view_at m'" "view_at m" 0] leaves_in_blocks [of t2] eq ch by blast
  ultimately show ?thesis by (simp add: sub_in_tree)
qed

end
