(* ===== verification/TreeProps.thy ===== *)
theory TreeProps
  imports TreeInsert
begin

text \<open>
  The properties of the B+ tree under a directory: search, insertion and iteration against the
  sorted list of names, and concrete trees on which they are evaluated.
\<close>

section \<open>Concrete trees\<close>

text \<open>The state after a commit, in which the journal's ring is empty again.\<close>

definition rewound :: "mount \<Rightarrow> mount" where
  "rewound m = m\<lparr> sb := (sb m)\<lparr> sb_journal_tail := sb_journal_head (sb m) \<rparr> \<rparr>"

lemma rewound:
  assumes "sound m" "meta_eq demo_mount m"
  shows "sound (rewound m)" "room (rewound m) 7" "tree_in (rewound m) t = tree_in m t" "free (rewound m) = free m"
    "meta_eq demo_mount (rewound m)"
proof -
  have "vol_ok m" "sb_journal_head (sb m) < sb_journal_length (sb m)" using soundD(1) [OF assms(1)] head_lt by auto
  then have "vol_ok (rewound m)" by (simp add: rewound_def vol_ok_tail)
  then show "sound (rewound m)" using assms(1) by (simp add: rewound_def sound_def)
  have v: "view_at (rewound m) = view_at m" "data (rewound m) = data m" "used (rewound m) = used m"
    "index_of (rewound m) = index_of m" "ndata (rewound m) = ndata m"
    by (simp_all add: fun_eq_iff rewound_def view_at_def data_def used_def index_of_def ndata_def data_blocks_def)
  show "tree_in (rewound m) t = tree_in m t" "free (rewound m) = free m"
    unfolding tree_in_def free_def v by (rule refl)+
  show "room (rewound m) 7"
    using meta_eqD(5,6) [OF assms(2)] demo_journal by (simp add: room_def rewound_def ring_used_def)
  show "meta_eq demo_mount (rewound m)" using assms(2) by (auto simp: rewound_def meta_eq_def layout_eq_def)
qed

lemma demo_room: "room demo_mount 7" "free demo_mount = 53"
  using demo_journal demo_bitmap by (simp_all add: room_def free_def)

lemma first_tree:
  assumes "sound m" "meta_eq demo_mount m" "1 < free m" "length (cstr key) \<le> 255" "cstr key \<noteq> []"
  obtains r m' where "btree_insert (rewound m) 0 key v = Some (Inr r, m')" "sound m'" "meta_eq demo_mount m'"
    "free m' = free m - 1" "tree_in m' (Leaf r [(cstr key, v)])"
    "\<forall>t. tree_in m t \<longrightarrow> tree_in m' t \<and> r \<notin> set (blocks t)"
proof -
  have r2: "room (rewound m) 2" by (rule room_mono [OF rewound(2) [OF assms(1,2)]]) simp
  have f: "0 < free (rewound m)" using rewound(4) [OF assms(1,2)] assms(3) by simp
  have sm: "sound (rewound m)" by (rule rewound(1) [OF assms(1,2)])
  obtain r m' x where i: "btree_first_leaf (rewound m) key v = (Inr r, m')" "step (rewound m) 2 [r \<mapsto> x] {index_of (rewound m) r} m'"
    "data (rewound m) r" "tree_in m' (Leaf r [(cstr key, v)])" by (rule first_leaf_is [OF sm r2 f assms(4)])
  have fr: "r \<in> fresh (rewound m) {index_of (rewound m) r}" using i(3) by (simp add: fresh_def)
  have "tree_in m' t \<and> r \<notin> set (blocks t)" if "tree_in m t" for t
  proof -
    have t: "tree_in (rewound m) t" using that rewound(3) [OF assms(1,2)] by simp
    have "tree_in m' t" by (rule tree_frame [OF sm i(2) t, of "{}"]) (use fr in simp_all)
    moreover have "r \<notin> set (blocks t)" using step_fresh [OF i(2)] fr t by (auto simp: tree_in_def)
    ultimately show ?thesis ..
  qed
  moreover have "btree_insert (rewound m) 0 key v = Some (Inr r, m')"
    using i(1) key_cstr [OF assms(5,4)] by (simp add: btree_insert_def)
  moreover have "free m' = free m - 1" using step_free(1) [OF i(2)] rewound(4) [OF assms(1,2)] by simp
  moreover have "meta_eq demo_mount m'"
    by (rule meta_eq_trans [OF rewound(5) [OF assms(1,2)] stepD(2) [OF i(2)]])
  ultimately show thesis using that [OF _ stepD(1) [OF i(2)] _ _ i(4)] by blast
qed

text \<open>A directory of one name, and a second one beside it.\<close>

definition demo_dir :: "mount \<times> u64" where
  "demo_dir = (case btree_insert (rewound demo_mount) 0 [98, 0] 42 of Some (Inr r, m) \<Rightarrow> (m, r) | _ \<Rightarrow> (demo_mount, 0))"

definition demo_dirs :: "mount \<times> u64" where
  "demo_dirs = (case btree_insert (rewound (fst demo_dir)) 0 [97, 0] 7 of Some (Inr r, m) \<Rightarrow> (rewound m, r) | _ \<Rightarrow> demo_dir)"

lemma demo_dirs:
  "sound (fst demo_dirs)" "room (fst demo_dirs) 7" "free (fst demo_dirs) = 51"
  "tree_in (fst demo_dirs) (Leaf (snd demo_dir) [([98], 42)])" "tree_in (fst demo_dirs) (Leaf (snd demo_dirs) [([97], 7)])"
  "snd demo_dirs \<noteq> snd demo_dir" "data (fst demo_dirs) = data demo_mount"
proof -
  have k: "length (cstr [98 :: u8, 0]) \<le> 255" "cstr [98 :: u8, 0] \<noteq> []" "length (cstr [97 :: u8, 0]) \<le> 255" "cstr [97 :: u8, 0] \<noteq> []"
    by simp_all
  have f: "1 < free demo_mount" using demo_room by simp
  obtain r m where a: "btree_insert (rewound demo_mount) 0 [98, 0] 42 = Some (Inr r, m)" "sound m" "meta_eq demo_mount m"
    "free m = free demo_mount - 1" "tree_in m (Leaf r [(cstr [98, 0], 42)])"
    by (rule first_tree [OF demo_sound meta_eq_refl f k(1,2)])
  have d1: "demo_dir = (m, r)" using a(1) by (simp add: demo_dir_def)
  have f1: "1 < free m" using a(4) demo_room by simp
  obtain q n where b: "btree_insert (rewound m) 0 [97, 0] 7 = Some (Inr q, n)" "sound n" "meta_eq demo_mount n"
    "free n = free m - 1" "tree_in n (Leaf q [(cstr [97, 0], 7)])"
    "\<forall>t. tree_in m t \<longrightarrow> tree_in n t \<and> q \<notin> set (blocks t)"
    by (rule first_tree [OF a(2,3) f1 k(3,4)])
  have d2: "demo_dirs = (rewound n, q)" using b(1) by (simp add: demo_dirs_def d1)
  note R = rewound [OF b(2,3)]
  have "tree_in n (Leaf r [(cstr [98, 0], 42)])" "q \<noteq> r" using b(6) a(5) by auto
  then show "sound (fst demo_dirs)" "room (fst demo_dirs) 7" "free (fst demo_dirs) = 51"
    "tree_in (fst demo_dirs) (Leaf (snd demo_dir) [([98], 42)])" "tree_in (fst demo_dirs) (Leaf (snd demo_dirs) [([97], 7)])"
    "snd demo_dirs \<noteq> snd demo_dir" "data (fst demo_dirs) = data demo_mount"
    using R(1,2,4) R(3) b(4,5) a(4) demo_room(2) meta_eqD(1) [OF R(5)] by (simp_all add: d1 d2)
qed

section \<open>Properties\<close>

text \<open>
  C21. A search ends, and it is a lookup in the sorted list of the directory: for every tree of any
  height that the volume holds, \<open>btree_search\<close> returns the record number that the list gives
  for the name, or not-found if the list has no such name, and changes no block.
\<close>
theorem btree_search_finds:
  assumes "sound m" "tree_in m t"
  shows "\<exists>m'. btree_search m (root t) key =
      Some (case map_of (flat t) (cstr key) of None \<Rightarrow> Inl ERR_NOTFOUND | Some v \<Rightarrow> Inr v, m') \<and>
    sound m' \<and> (\<forall>c. durable m c \<longrightarrow> block_view m' c = block_view m c)"
  using btree_search_is [OF assms, of key] updD(1,4) by metis

theorem btree_search_finds_witness:
  "(\<exists>m'. btree_search (fst demo_dirs) (snd demo_dir) [98, 0, 5] = Some (Inr 42, m')) \<and>
   (\<exists>m'. btree_search (fst demo_dirs) (snd demo_dir) [97, 0] = Some (Inl ERR_NOTFOUND, m'))"
  using btree_search_finds [OF demo_dirs(1,4), of "[98, 0, 5]"] btree_search_finds [OF demo_dirs(1,4), of "[97, 0]"] by auto

text \<open>
  C19. Insertion refines insertion into a sorted list: it ends with success, at every height and
  with every combination of splits, and the index it leaves, under the root that it returns,
  holds exactly the old list with the new name put in its place, or with the value replaced
  if the name was there. The volume stays well-formed. It needs a name of 1 to 255
  bytes, two free blocks more than the tree has levels, and \<open>index_cost\<close> free slots in the
  journal.
\<close>
theorem btree_insert_refines:
  assumes "sound m" "holds_dir m r h es" "room m (index_cost r h)" "Suc h < free m"
    "cstr key \<noteq> []" "length (cstr key) \<le> 255"
  shows "\<exists>r' h' m'. btree_insert m r key v = Some (Inr r', m') \<and> sound m' \<and>
    holds_dir m' r' h' (put (cstr key) v es)"
  using btree_insert_is [OF assms, of v] by blast

lemma holds_demo:
  "holds_dir (fst demo_dirs) (snd demo_dir) 0 [([98], 42)]" "room (fst demo_dirs) (index_cost r 0)" "Suc 0 < free (fst demo_dirs)"
proof -
  show "holds_dir (fst demo_dirs) (snd demo_dir) 0 [([98], 42)]"
    unfolding holds_dir_def using demo_dirs(4) by (intro disjI2 exI [of _ "Leaf (snd demo_dir) [([98], 42)]"]) simp
  show "room (fst demo_dirs) (index_cost r 0)" by (rule room_mono [OF demo_dirs(2)]) (simp add: index_cost_def)
  show "Suc 0 < free (fst demo_dirs)" using demo_dirs(3) by simp
qed

theorem btree_insert_refines_witness:
  "\<exists>r' h' m'. btree_insert (fst demo_dirs) (snd demo_dir) [97, 98, 0] 9 = Some (Inr r', m') \<and>
     holds_dir m' r' h' [([97, 98], 9), ([98], 42)]"
proof -
  have "put [97, 98] 9 [([98], 42)] = [([97, 98], 9), ([98], 42)]" by (simp add: put_def below_def)
  then show ?thesis using btree_insert_refines [OF demo_dirs(1) holds_demo, of "[97, 98, 0]" 9] by auto
qed

text \<open>
  C20. What was inserted is found, and what was there before is found as before: after an
  insertion a search for the name gives the new value, and a search for any other name gives
  what the old list gives.
\<close>
theorem btree_insert_then_search:
  assumes "sound m" "tree_in m t" "room m (7 + 11 * height t)" "Suc (height t) < free m"
    "cstr key \<noteq> []" "length (cstr key) \<le> 255"
  shows "\<exists>r' m' m''. btree_insert m (root t) key v = Some (Inr r', m') \<and>
    btree_search m' r' key' = Some (if cstr key' = cstr key then Inr v
      else case map_of (flat t) (cstr key') of None \<Rightarrow> Inl ERR_NOTFOUND | Some w \<Rightarrow> Inr w, m'')"
proof -
  obtain t' m' f U where i: "btree_insert m (root t) key v = Some (Inr (root t'), m')" "step m (7 + 11 * height t) f U m'"
    "tree_in m' t'" "flat t' = put (cstr key) v (flat t)" using insert_tree_is [OF assms, of v] by blast
  have mo: "map_of (flat t') = (map_of (flat t))(cstr key \<mapsto> v)"
    unfolding i(4) by (rule put_sorted(4) [OF flat_sorted [OF tree_inD(2) [OF assms(2)]]])
  obtain m'' where s: "btree_search m' (root t') key' =
      Some (case map_of (flat t') (cstr key') of None \<Rightarrow> Inl ERR_NOTFOUND | Some w \<Rightarrow> Inr w, m'')"
    by (rule btree_search_is [OF stepD(1) [OF i(2)] i(3)])
  have e: "(case map_of (flat t') (cstr key') of None \<Rightarrow> Inl ERR_NOTFOUND | Some w \<Rightarrow> Inr w) =
    (if cstr key' = cstr key then Inr v else case map_of (flat t) (cstr key') of None \<Rightarrow> Inl ERR_NOTFOUND | Some w \<Rightarrow> Inr w)"
    unfolding mo by simp
  show ?thesis by (intro exI conjI) (rule i(1), rule s [unfolded e])
qed

theorem btree_insert_then_search_witness:
  "\<exists>r' m' m''. btree_insert (fst demo_dirs) (snd demo_dir) [97, 98, 0] 9 = Some (Inr r', m') \<and>
     btree_search m' r' [98, 0] = Some (Inr 42, m'')"
  using btree_insert_then_search [OF demo_dirs(1,4), of "[97, 98, 0]" 9 "[98, 0]"] demo_dirs(2,3) by simp

text \<open>
  C22. An iteration calls the callback on the entries in the order of their names, each one
  once, until the callback asks to stop: the walk along the leaves' sibling links is the walk
  over the sorted list, at every height.
\<close>
theorem btree_iterate_in_order:
  assumes "sound m" "tree_in m t"
  shows "sorted_wrt (<) (map fst (flat t)) \<and>
    (\<exists>m'. btree_iterate m (root t) (\<lambda>name. cb (cstr name)) ctx =
      Some (fst (visit cb (flat t) ctx), snd (visit cb (flat t) ctx), m') \<and> sound m')"
  using btree_iterate_is [OF assms, of cb ctx] updD(1) flat_sorted [OF tree_inD(2) [OF assms(2)]] by metis

theorem btree_iterate_in_order_witness:
  "\<exists>m'. btree_iterate (fst demo_dirs) (snd demo_dir) (\<lambda>name v acc. (0, acc @ [(cstr name, v)])) [] =
     Some (0, [([98], 42)], m')"
  using btree_iterate_in_order [OF demo_dirs(1,4), of "\<lambda>k v acc. (0, acc @ [(k, v)])" "[]"] by auto

text \<open>
  C23. An insertion into one directory leaves every other directory as it is: a tree that
  shares no block with the one inserted into is still in the volume, with the same entries
  and the same blocks, whatever was allocated and split.
\<close>
theorem btree_insert_frame:
  assumes "sound m" "tree_in m t" "room m (7 + 11 * height t)" "Suc (height t) < free m"
    "cstr key \<noteq> []" "length (cstr key) \<le> 255" "tree_in m t2" "set (blocks t2) \<inter> set (blocks t) = {}"
  shows "\<exists>r' m'. btree_insert m (root t) key v = Some (Inr r', m') \<and> tree_in m' t2"
proof -
  obtain t' m' f U where i: "btree_insert m (root t) key v = Some (Inr (root t'), m')" "step m (7 + 11 * height t) f U m'"
    "dom f \<subseteq> set (blocks t) \<union> fresh m U" using insert_tree_is [OF assms(1-6), of v] by blast
  show ?thesis using i(1) tree_frame [OF assms(1) i(2) assms(7) i(3) assms(8)] by blast
qed

theorem btree_insert_frame_witness:
  "\<exists>r' m'. btree_insert (fst demo_dirs) (snd demo_dir) [97, 98, 0] 9 = Some (Inr r', m') \<and>
     tree_in m' (Leaf (snd demo_dirs) [([97], 7)])"
  using btree_insert_frame [OF demo_dirs(1,4) _ _ _ _ demo_dirs(5), of "[97, 98, 0]" 9] demo_dirs(2,3,6) by simp

text \<open>
  A node that is stored is read back: after \<open>btree_store\<close> the checks of \<open>btree_load\<close> pass
  (type, magic, version, key count, length, checksum) and the node returned is the one stored,
  with the length and the checksum that the store computed.
\<close>
theorem btree_store_load:
  assumes "sound m" "room m 1" "data m b" "node_ok n"
  shows "\<exists>m1 m2 c. btree_store m b n = (OK, m1) \<and> btree_load m1 b = (Inr (restamp n c), m2) \<and>
    node_view (restamp n c) = node_view n \<and> sound m2"
proof -
  note D = dataD [OF assms(1,3)]
  obtain m1 where st: "btree_store m b n = (OK, m1)" and u: "upd m 1 ((block_view m)(b := node_image n)) m1"
    by (rule btree_store_is [OF assms(1,2) D(1,3) assms(4)])
  obtain c where "node_block (node_image n) (restamp n c)" using node_image_block [OF assms(4)] by blast
  moreover have "block_view m1 b = node_image n" using updD(4) [OF u D(2)] by simp
  ultimately have "node_block (block_view m1 b) (restamp n c)" by simp
  from btree_load_is [OF updD(1) [OF u] D(1,3) this] obtain m2 where "btree_load m1 b = (Inr (restamp n c), m2)"
    "upd m1 0 (block_view m1) m2" .
  then show ?thesis using st updD(1) by auto
qed

theorem btree_store_load_witness:
  "\<exists>m1 m2 c. btree_store (fst demo_dirs) 20 (btree_format SMKFS_BTN_LEAF 0) = (OK, m1) \<and>
     btree_load m1 20 = (Inr (restamp (btree_format SMKFS_BTN_LEAF 0) c), m2)"
proof -
  have "sound (fst demo_dirs)" "room (fst demo_dirs) 1" using demo_dirs(1) room_mono [OF demo_dirs(2)] by auto
  moreover have "data (fst demo_dirs) 20" unfolding demo_dirs(7) by (simp add: data_def demo_mount_def demo_sb_def)
  ultimately show ?thesis using btree_store_load [OF _ _ _ btree_format_is(1), of "fst demo_dirs" 20 SMKFS_BTN_LEAF 0] by blast
qed

end
