(* ===== verification/JournalReplay.thy ===== *)
theory JournalReplay
  imports Mrt
begin

text \<open>
  Recovery, the rest of \<^verbatim>\<open>fs/smkfs/journal.c\<close>: the first pass over the ring looks for the
  last committed sequence number, the second redoes every entry up to it. The loops run from
  \<open>sb_journal_tail\<close> until they meet \<open>sb_journal_head\<close>, which nothing in the code bounds, so they
  are partial functions with \<open>None\<close> for a loop that does not end. \<open>junk\<close> stands for the 64 bytes
  of the stack behind the buffer: a redone WRITE copies a whole block from offset 64 of it.
\<close>

section \<open>Redoing one entry\<close>

definition journal_redo_entry :: "mount \<Rightarrow> journal_entry \<Rightarrow> bytes option \<Rightarrow> status \<times> mount" where
  "journal_redo_entry m ent payload =
     (if j_operation ent = SMKFS_JOP_WRITE then
        (if j_data_length ent = 0 then (OK, m)
         else orS (write_block m (j_target_block ent) (take SMKFS_BLOCK_SIZE (the payload))) ERR_IO)
      else if j_operation ent = SMKFS_JOP_ALLOC then
        (OK, set_all (j_target_block ent) (unat (j_data_length ent)) m)
      else if j_operation ent = SMKFS_JOP_FREE then
        (OK, clear_all (j_target_block ent) (unat (j_data_length ent)) m)
      else if j_operation ent = SMKFS_JOP_COMMIT \<or> j_operation ent = SMKFS_JOP_CHECKPOINT then (OK, m)
      else if j_operation ent = SMKFS_JOP_MRT_UPDATE then
        (if j_data_length ent \<noteq> 16 \<or> payload = None then (ERR_CORRUPT, m)
         else if j_record_id ent \<ge> sb_mrt_capacity (sb m) then (ERR_CORRUPT, m)
         else
           let block_id = sb_mrt_start (sb m) + j_record_id ent div 256;
               entry_id = unat (j_record_id ent mod 256)
           in bindS (orE (read_block m block_id) ERR_IO) (\<lambda>buf m1.
                orS (write_block m1 block_id (mrt_put entry_id (dec_mrt_entry (the payload)) buf)) ERR_IO))
      else (ERR_CORRUPT, m))"

text \<open>What both passes ask of a slot: it can be read and holds an entry that validates.\<close>

definition entry_valid :: "bytes \<Rightarrow> bool" where
  "entry_valid buf \<longleftrightarrow>
     header_validate (dec_header buf) SMKFS_ST_JOURNAL_ENT = OK \<and>
     header_checksum_verify (dec_header buf) buf (unat (h_length (dec_header buf))) = OK"

definition replay_read :: "mount \<Rightarrow> u64 \<Rightarrow> (status + bytes) \<times> mount" where
  "replay_read m pos =
     bindE (orE (read_block m (sb_journal_start (sb m) + pos)) ERR_IO) (\<lambda>buf m1.
       if \<not> entry_valid buf then (Inl ERR_CORRUPT, m1) else (Inr buf, m1))"

section \<open>The two passes\<close>

text \<open>\<open>(last, found)\<close> are \<^verbatim>\<open>last_commit_seq\<close> and \<^verbatim>\<open>found_commit\<close>.\<close>

definition commit_seen :: "journal_entry \<Rightarrow> u64 \<times> bool \<Rightarrow> u64 \<times> bool" where
  "commit_seen ent lf =
     (if j_operation ent = SMKFS_JOP_COMMIT \<and> j_sequence ent \<ge> fst lf then (j_sequence ent, True) else lf)"

partial_function (option) replay_scan ::
  "u64 \<Rightarrow> u64 \<times> bool \<Rightarrow> mount \<Rightarrow> ((status + u64 \<times> bool) \<times> mount) option" where
  "replay_scan pos lf m =
     (if pos = sb_journal_head (sb m) then Some (Inr lf, m)
      else case replay_read m pos of
          (Inl e, m1) \<Rightarrow> Some (Inl e, m1)
        | (Inr buf, m1) \<Rightarrow>
            replay_scan (journal_next_pos m1 pos) (commit_seen (dec_journal_entry buf) lf) m1)"

definition redo_slot :: "bytes \<Rightarrow> u64 \<Rightarrow> bytes \<Rightarrow> mount \<Rightarrow> status \<times> mount" where
  "redo_slot junk last_commit_seq buf m =
     (let ent = dec_journal_entry buf
      in if j_sequence ent \<le> last_commit_seq
         then journal_redo_entry m ent
                (if j_data_length ent > 0 then Some (drop 64 buf @ junk) else None)
         else (OK, m))"

partial_function (option) replay_redo :: "bytes \<Rightarrow> u64 \<Rightarrow> u64 \<Rightarrow> mount \<Rightarrow> (status \<times> mount) option" where
  "replay_redo junk last_commit_seq pos m =
     (if pos = sb_journal_head (sb m) then Some (OK, m)
      else case replay_read m pos of
          (Inl e, m1) \<Rightarrow> Some (e, m1)
        | (Inr buf, m1) \<Rightarrow>
            (case redo_slot junk last_commit_seq buf m1 of
               (st, m2) \<Rightarrow>
                 if st \<noteq> OK then Some (st, m2)
                 else replay_redo junk last_commit_seq (journal_next_pos m2 pos) m2))"

definition replay_clean :: "mount \<Rightarrow> status \<times> mount" where
  "replay_clean m =
     (OK, snd (block_cache_flush
       (m\<lparr> sb := (sb m)\<lparr> sb_journal_tail := sb_journal_head (sb m) \<rparr>,
           journal_write_pos := sb_journal_head (sb m),
           journal_next_sequence := sb_journal_sequence (sb m) \<rparr>)))"

definition journal_replay :: "bytes \<Rightarrow> mount \<Rightarrow> (status \<times> mount) option" where
  "journal_replay junk m =
     (if sb_journal_head (sb m) = sb_journal_tail (sb m)
      then Some (OK, m\<lparr> journal_next_sequence := sb_journal_sequence (sb m),
                        journal_write_pos := sb_journal_head (sb m) \<rparr>)
      else case replay_scan (sb_journal_tail (sb m)) (0, False) m of
          None \<Rightarrow> None
        | Some (Inl e, m1) \<Rightarrow> Some (e, m1)
        | Some (Inr (seq, found), m1) \<Rightarrow>
            if \<not> found then Some (replay_clean m1)
            else (case replay_redo junk seq (sb_journal_tail (sb m1)) m1 of
                None \<Rightarrow> None
              | Some (st, m2) \<Rightarrow> if st \<noteq> OK then Some (st, m2) else Some (replay_clean m2)))"

section \<open>The way round the ring\<close>

definition ring_dist :: "mount \<Rightarrow> u64 \<Rightarrow> nat" where
  "ring_dist m pos = (unat (sb_journal_head (sb m)) + unat (sb_journal_length (sb m)) - unat pos)
     mod unat (sb_journal_length (sb m))"

lemma ring_dist_tail: "ring_dist m (sb_journal_tail (sb m)) = ring_used (sb m)"
  by (simp add: ring_dist_def ring_used_def)

lemma ring_dist_step:
  assumes "ring_ok (sb m)" "pos < sb_journal_length (sb m)"
  shows "ring_dist m pos = 0 \<longleftrightarrow> pos = sb_journal_head (sb m)"
    and "pos \<noteq> sb_journal_head (sb m) \<Longrightarrow> ring_dist m pos = Suc (ring_dist m (journal_next_pos m pos))"
proof -
  let ?n = "unat (sb_journal_length (sb m))" and ?h = "unat (sb_journal_head (sb m))"
  have h: "?h < ?n" using assms(1) by (simp add: ring_ok_def word_less_nat_alt)
  have p: "unat pos < ?n" using assms(2) by (simp add: word_less_nat_alt)
  have d: "(?h + ?n - q) mod ?n = (if q \<le> ?h then ?h - q else ?h + ?n - q)" if "q < ?n" for q
    using that h by (auto simp: le_mod_geq not_le)
  have e: "pos = sb_journal_head (sb m) \<longleftrightarrow> unat pos = ?h" by (simp add: word_unat_eq_iff)
  show "ring_dist m pos = 0 \<longleftrightarrow> pos = sb_journal_head (sb m)"
    using d [OF p] p e by (auto simp: ring_dist_def)
  have s: "unat (journal_next_pos m pos) = (if Suc (unat pos) = ?n then 0 else Suc (unat pos))"
    using unat_next_pos [OF assms(2)] p by simp
  have s2: "unat (journal_next_pos m pos) < ?n" using s p by auto
  show "pos \<noteq> sb_journal_head (sb m) \<Longrightarrow> ring_dist m pos = Suc (ring_dist m (journal_next_pos m pos))"
    unfolding ring_dist_def d [OF p] d [OF s2] using s p h e by auto
qed

lemma ring_dist_cong:
  "sb_journal_head (sb m') = sb_journal_head (sb m) \<Longrightarrow> sb_journal_length (sb m') = sb_journal_length (sb m) \<Longrightarrow>
   ring_dist m' pos = ring_dist m pos"
  by (simp add: ring_dist_def)

text \<open>The slots from a position to the head, in the order of the walk.\<close>

fun ring_walk :: "mount \<Rightarrow> u64 \<Rightarrow> nat \<Rightarrow> u64 list" where
  "ring_walk m pos 0 = []"
| "ring_walk m pos (Suc n) = pos # ring_walk m (journal_next_pos m pos) n"

definition ring_slots :: "mount \<Rightarrow> u64 list" where
  "ring_slots m = map ((+) (sb_journal_start (sb m))) (ring_walk m (sb_journal_tail (sb m)) (ring_used (sb m)))"

lemma journal_next_pos_cong: "sb_journal_length (sb m') = sb_journal_length (sb m) \<Longrightarrow> journal_next_pos m' = journal_next_pos m"
  by (simp add: journal_next_pos_def fun_eq_iff)

lemma ring_walk_cong: "sb_journal_length (sb m') = sb_journal_length (sb m) \<Longrightarrow> ring_walk m' pos n = ring_walk m pos n"
proof (induction n arbitrary: pos)
  case (Suc n)
  then show ?case using journal_next_pos_cong [OF Suc.prems] by simp
qed simp

section \<open>What recovery keeps of the superblock\<close>

definition same_ring :: "mount \<Rightarrow> mount \<Rightarrow> bool" where
  "same_ring m m' \<longleftrightarrow> sb_journal_head (sb m') = sb_journal_head (sb m) \<and>
     sb_journal_tail (sb m') = sb_journal_tail (sb m) \<and> sb_journal_length (sb m') = sb_journal_length (sb m)"

lemma same_ring_refl [simp]: "same_ring m m"
  by (simp add: same_ring_def)

lemma same_ring_trans: "same_ring m m1 \<Longrightarrow> same_ring m1 m2 \<Longrightarrow> same_ring m m2"
  by (simp add: same_ring_def)

lemma same_ring_fields [simp]:
  "same_ring m (snd (read_block m1 b)) = same_ring m m1"
  "same_ring m (snd (write_block m1 b v)) = same_ring m m1"
  "same_ring m (snd (block_cache_flush m1)) = same_ring m m1"
  "same_ring m (region_claim i m1) = same_ring m m1" "same_ring m (region_release i m1) = same_ring m m1"
  "same_ring m (add_free_blocks n m1) = same_ring m m1"
  by (simp_all add: same_ring_def region_claim_def region_release_def Let_def split: option.splits)

lemma same_ring_bit:
  assumes "same_ring m m1"
  shows "same_ring m (snd (bitmap_set m1 b))" "same_ring m (snd (bitmap_clear m1 b))"
  using assms by (auto simp: bitmap_set_def bitmap_clear_def Let_def intro!: bindS_inv [where P = "same_ring m"])

lemma same_ring_all:
  assumes "same_ring m m1"
  shows "same_ring m (set_all b n m1)" "same_ring m (clear_all b n m1)"
  using assms by (induction n) (simp_all add: set_all_def clear_all_def same_ring_bit)

lemma same_ring_redo: "same_ring m (snd (journal_redo_entry m e p))"
  by (auto simp: journal_redo_entry_def Let_def same_ring_all intro!: bindS_inv [where P = "same_ring m"])

lemma same_ring_redo_slot: "same_ring m (snd (redo_slot junk s buf m))"
  by (simp add: redo_slot_def Let_def same_ring_redo)

lemma same_ring_replay_read: "same_ring m (snd (replay_read m pos))"
  by (auto simp: replay_read_def intro!: bindE_inv [where P = "same_ring m"])

lemma ring_step:
  assumes "ring_ok (sb m)" "pos < sb_journal_length (sb m)" "pos \<noteq> sb_journal_head (sb m)" "same_ring m m1"
  shows "ring_ok (sb m1)" "journal_next_pos m1 pos < sb_journal_length (sb m1)"
    "ring_dist m pos = Suc (ring_dist m1 (journal_next_pos m1 pos))"
proof -
  have s: "sb_journal_head (sb m1) = sb_journal_head (sb m)" "sb_journal_tail (sb m1) = sb_journal_tail (sb m)"
    "sb_journal_length (sb m1) = sb_journal_length (sb m)"
    using assms(4) by (simp_all add: same_ring_def)
  show "ring_ok (sb m1)" using assms(1) s by (simp add: ring_ok_def)
  show "journal_next_pos m1 pos < sb_journal_length (sb m1)"
    using s ring_ok_pos [OF assms(1)] by (intro next_pos_lt) simp
  show "ring_dist m pos = Suc (ring_dist m1 (journal_next_pos m1 pos))"
    unfolding ring_dist_cong [OF s(1,3)] journal_next_pos_cong [OF s(3)]
    by (rule ring_dist_step(2) [OF assms(1-3)])
qed

section \<open>The passes end\<close>

lemma replay_scan_returns:
  assumes "ring_ok (sb m)" "pos < sb_journal_length (sb m)"
  shows "\<exists>r m1. replay_scan pos lf m = Some (r, m1) \<and> same_ring m m1"
  using assms
proof (induction "ring_dist m pos" arbitrary: m pos lf)
  case 0
  then have "pos = sb_journal_head (sb m)" using ring_dist_step(1) by metis
  then show ?case by (simp add: replay_scan.simps)
next
  case (Suc n)
  then have ne: "pos \<noteq> sb_journal_head (sb m)" using ring_dist_step(1) by (metis Zero_not_Suc)
  obtain r m1 where rd: "replay_read m pos = (r, m1)" by (cases "replay_read m pos")
  have s: "same_ring m m1" using same_ring_replay_read [of m pos] rd by simp
  show ?case
  proof (cases r)
    case (Inl e)
    then show ?thesis using ne rd s by (subst replay_scan.simps) simp
  next
    case (Inr buf)
    note R = ring_step [OF Suc.prems ne s]
    have "n = ring_dist m1 (journal_next_pos m1 pos)" using Suc.hyps(2) R(3) by simp
    then obtain r2 m2 where "replay_scan (journal_next_pos m1 pos) (commit_seen (dec_journal_entry buf) lf) m1 = Some (r2, m2)"
      "same_ring m1 m2"
      using Suc.hyps(1) R(1,2) by blast
    then show ?thesis
      using ne rd Inr same_ring_trans [OF s] by (subst replay_scan.simps) auto
  qed
qed

lemma replay_redo_returns:
  assumes "ring_ok (sb m)" "pos < sb_journal_length (sb m)"
  shows "\<exists>r. replay_redo junk s pos m = Some r"
  using assms
proof (induction "ring_dist m pos" arbitrary: m pos)
  case 0
  then have "pos = sb_journal_head (sb m)" using ring_dist_step(1) by metis
  then show ?case by (simp add: replay_redo.simps)
next
  case (Suc n)
  then have ne: "pos \<noteq> sb_journal_head (sb m)" using ring_dist_step(1) by (metis Zero_not_Suc)
  obtain r m1 where rd: "replay_read m pos = (r, m1)" by (cases "replay_read m pos")
  have s1: "same_ring m m1" using same_ring_replay_read [of m pos] rd by simp
  show ?case
  proof (cases r)
    case (Inl e)
    then show ?thesis using ne rd by (subst replay_redo.simps) simp
  next
    case (Inr buf)
    obtain st m2 where re: "redo_slot junk s buf m1 = (st, m2)" by (cases "redo_slot junk s buf m1")
    have "same_ring m1 m2" using same_ring_redo_slot [of m1 junk s buf] re by simp
    then have s2: "same_ring m m2" by (rule same_ring_trans [OF s1])
    note R = ring_step [OF Suc.prems ne s2]
    have "n = ring_dist m2 (journal_next_pos m2 pos)" using Suc.hyps(2) R(3) by simp
    then obtain r2 where "replay_redo junk s (journal_next_pos m2 pos) m2 = Some r2"
      using Suc.hyps(1) R(1,2) by blast
    then show ?thesis using ne rd Inr re by (subst replay_redo.simps) auto
  qed
qed

section \<open>The first pass on a sound volume\<close>

text \<open>
  The reference: fold the contents of the slots, \<open>None\<close> as soon as one is not a valid entry.
\<close>

fun scan_blocks :: "bytes list \<Rightarrow> u64 \<times> bool \<Rightarrow> (u64 \<times> bool) option" where
  "scan_blocks [] lf = Some lf"
| "scan_blocks (b # bs) lf =
     (if entry_valid b then scan_blocks bs (commit_seen (dec_journal_entry b) lf) else None)"

definition same_blocks :: "mount \<Rightarrow> mount \<Rightarrow> bool" where
  "same_blocks m m' \<longleftrightarrow> sound m' \<and> sb m' = sb m \<and> journal_in_transaction m' = journal_in_transaction m \<and>
     (\<forall>c. blk_ok c \<longrightarrow> block_view m' c = block_view m c)"

lemma same_blocks_trans: "same_blocks m m1 \<Longrightarrow> same_blocks m1 m2 \<Longrightarrow> same_blocks m m2"
  by (simp add: same_blocks_def)

lemma same_blocks_read: "sound m \<Longrightarrow> blk_ok b \<Longrightarrow> same_blocks m (snd (read_block m b))"
  using mrt_read_now(3) sound_read_block(2) by (simp add: same_blocks_def)

lemma replay_scan_spec:
  assumes "sound m" "pos < sb_journal_length (sb m)" "ring_dist m pos = n"
  shows "\<exists>m1. replay_scan pos lf m =
      Some (case scan_blocks (map (\<lambda>p. block_view m (sb_journal_start (sb m) + p)) (ring_walk m pos n)) lf of
              None \<Rightarrow> Inl ERR_CORRUPT | Some lf' \<Rightarrow> Inr lf', m1) \<and> same_blocks m m1"
  using assms
proof (induction n arbitrary: m pos lf)
  case 0
  then have "pos = sb_journal_head (sb m)"
    using ring_dist_step(1) vol_okD(4) soundD(1) by metis
  then show ?case using 0 by (simp add: replay_scan.simps same_blocks_def)
next
  case (Suc n)
  have ring: "ring_ok (sb m)" and g: "geom (sb m)" using vol_okD(3,4) [OF soundD(1) [OF Suc.prems(1)]] by simp_all
  have ne: "pos \<noteq> sb_journal_head (sb m)" using ring_dist_step(1) [OF ring Suc.prems(2)] Suc.prems(3) by auto
  let ?b = "sb_journal_start (sb m) + pos"
  have b: "blk_ok ?b" by (rule journal_block(2) [OF g Suc.prems(2)])
  obtain m1 where rd: "read_block m ?b = (Inr (block_view m ?b), m1)"
    using sound_read_block(1) [OF Suc.prems(1) b] by (metis prod.collapse)
  have s1: "same_blocks m m1" using same_blocks_read [OF Suc.prems(1) b] rd by simp
  then have sb1: "sb m1 = sb m" and snd1: "sound m1" by (simp_all add: same_blocks_def)
  have R: "replay_read m pos = (if entry_valid (block_view m ?b) then Inr (block_view m ?b) else Inl ERR_CORRUPT, m1)"
    using rd by (simp add: replay_read_def)
  have np: "journal_next_pos m1 = journal_next_pos m" using sb1 by (intro journal_next_pos_cong) simp
  have d: "ring_dist m1 (journal_next_pos m pos) = n"
    using ring_dist_step(2) [OF ring Suc.prems(2) ne] Suc.prems(3) sb1 by (simp add: ring_dist_def)
  have lt: "journal_next_pos m pos < sb_journal_length (sb m1)"
    using next_pos_lt [of m pos] ring_ok_pos [OF ring] sb1 by simp
  have walk: "ring_walk m1 q k = ring_walk m q k" for q k using sb1 by (intro ring_walk_cong) simp
  have slots: "map (\<lambda>p. block_view m1 (sb_journal_start (sb m) + p)) (ring_walk m (journal_next_pos m pos) n) =
      map (\<lambda>p. block_view m (sb_journal_start (sb m) + p)) (ring_walk m (journal_next_pos m pos) n)"
  proof (rule map_cong [OF refl])
    fix p assume "p \<in> set (ring_walk m (journal_next_pos m pos) n)"
    then have "p < sb_journal_length (sb m)"
      using next_pos_lt [OF ring_ok_pos [OF ring]]
    proof (induction n arbitrary: pos)
      case (Suc k)
      then show ?case by (cases "p = journal_next_pos m pos") simp_all
    qed simp
    then have "blk_ok (sb_journal_start (sb m) + p)" by (rule journal_block(2) [OF g])
    then show "block_view m1 (sb_journal_start (sb m) + p) = block_view m (sb_journal_start (sb m) + p)"
      using s1 by (simp add: same_blocks_def)
  qed
  show ?case
  proof (cases "entry_valid (block_view m ?b)")
    case False
    then show ?thesis using R ne s1 by (subst replay_scan.simps) simp
  next
    case True
    obtain m2 where "replay_scan (journal_next_pos m pos) (commit_seen (dec_journal_entry (block_view m ?b)) lf) m1 =
        Some (case scan_blocks (map (\<lambda>p. block_view m1 (sb_journal_start (sb m1) + p))
                (ring_walk m1 (journal_next_pos m pos) n)) (commit_seen (dec_journal_entry (block_view m ?b)) lf) of
              None \<Rightarrow> Inl ERR_CORRUPT | Some lf' \<Rightarrow> Inr lf', m2)" "same_blocks m1 m2"
      using Suc.IH [OF snd1 lt d] by blast
    then show ?thesis
      using R ne True np same_blocks_trans [OF s1] slots by (subst replay_scan.simps) (simp add: sb1 walk)
  qed
qed


section \<open>The effect of a redone entry\<close>

lemma set_all_sound:
  assumes "sound m" "s + n \<le> ndata m"
  shows "\<exists>k. bits_now m (\<lambda>j. (s \<le> j \<and> j < s + n) \<or> used m j) k (set_all (sb_data_start (sb m) + of_nat s) n m)"
  using assms(2)
proof (induction n)
  case 0
  have "set_all b 0 m = m" for b by (simp add: set_all_def)
  moreover have "bits_now m (\<lambda>j. (s \<le> j \<and> j < s + 0) \<or> used m j) 0 m"
    by (rule bits_now_cong [OF bits_now_refl [OF assms(1)] _ refl]) auto
  ultimately show ?case by auto
next
  case (Suc n)
  let ?m1 = "set_all (sb_data_start (sb m) + of_nat s) n m"
  obtain k where m1: "bits_now m (\<lambda>j. (s \<le> j \<and> j < s + n) \<or> used m j) k ?m1" using Suc by auto
  have lt: "s + n < ndata ?m1" using Suc.prems bits_nowD(8) [OF m1] by simp
  have eq: "set_all (sb_data_start (sb m) + of_nat s) (Suc n) m =
      snd (bitmap_set ?m1 (sb_data_start (sb ?m1) + of_nat (s + n)))"
    using bits_nowD(7) [OF m1] by (simp add: set_all_def add.assoc)
  show ?case
    unfolding eq
    by (rule exI, rule bits_now_trans [OF m1 bitmap_set_sound(2) [OF bits_nowD(1) [OF m1] lt]])
      (use bits_nowD(3) [OF m1] in auto)
qed

lemma clear_all_bits:
  assumes "sound m" "s + n \<le> ndata m"
  shows "\<exists>k. bits_now m (\<lambda>j. \<not> (s \<le> j \<and> j < s + n) \<and> used m j) k (clear_all (sb_data_start (sb m) + of_nat s) n m)"
  using assms(2)
proof (induction n)
  case 0
  have "clear_all b 0 m = m" for b by (simp add: clear_all_def)
  then show ?case using bits_now_cong [OF bits_now_refl [OF assms(1)] _ refl] by (auto intro!: exI [of _ 0])
next
  case (Suc n)
  let ?m1 = "clear_all (sb_data_start (sb m) + of_nat s) n m"
  obtain k where m1: "bits_now m (\<lambda>j. \<not> (s \<le> j \<and> j < s + n) \<and> used m j) k ?m1" using Suc by auto
  have lt: "s + n < ndata ?m1" using Suc.prems bits_nowD(8) [OF m1] by simp
  have eq: "clear_all (sb_data_start (sb m) + of_nat s) (Suc n) m =
      snd (bitmap_clear ?m1 (sb_data_start (sb ?m1) + of_nat (s + n)))"
    using bits_nowD(7) [OF m1] by (simp add: clear_all_def add.assoc)
  show ?case
    unfolding eq
    by (rule exI, rule bits_now_trans [OF m1 bitmap_clear_sound(2) [OF bits_nowD(1) [OF m1] lt]])
      (use bits_nowD(3) [OF m1] in auto)
qed

text \<open>A slot that the journal writer filled: it validates, and redoing it is redoing its fields.\<close>

lemma redo_logged:
  assumes "unat dlen \<le> 4032" "loggable dlen payload" "seq \<le> last_seq"
  shows "redo_slot junk last_seq (journal_entry_block seq op target dlen rid payload) m =
      journal_redo_entry m (dec_journal_entry (journal_entry_block seq op target dlen rid payload))
        (if dlen > 0 then Some (drop 64 (journal_entry_block seq op target dlen rid payload) @ junk) else None)"
    and "entry_valid (journal_entry_block seq op target dlen rid payload)"
proof -
  note R = journal_entry_block_read [OF assms(1,2), where seq = seq and op = op and target = target and rid = rid]
  show "redo_slot junk last_seq (journal_entry_block seq op target dlen rid payload) m =
      journal_redo_entry m (dec_journal_entry (journal_entry_block seq op target dlen rid payload))
        (if dlen > 0 then Some (drop 64 (journal_entry_block seq op target dlen rid payload) @ junk) else None)"
    using R(3,6) assms(3) by (simp add: redo_slot_def Let_def)
  have "j_header (dec_journal_entry b) = dec_header b" for b
    by (simp add: dec_journal_entry_def)
  then show "entry_valid (journal_entry_block seq op target dlen rid payload)"
    using R(1,2) by (simp add: entry_valid_def)
qed

lemma redo_mrt_sound:
  assumes "sound m" "unat rid < mrt_count m" "j_operation ent = SMKFS_JOP_MRT_UPDATE"
    "j_data_length ent = 16" "j_record_id ent = rid" "dec_mrt_entry p = e"
  shows "fst (journal_redo_entry m ent (Some p)) = OK"
    and "mrt_now m ((mrt m)(unat rid := e)) 0 (snd (journal_redo_entry m ent (Some p)))"
proof -
  let ?b = "sb_mrt_start (sb m) + rid div 256"
  obtain m1 where rd: "read_block m ?b = (Inr (block_view m1 ?b), m1)" and m1: "mrt_now m (mrt m) 0 m1"
    and b: "?b = sb_mrt_start (sb m1) + of_nat (unat rid div 256)"
    and j: "unat (rid mod 256) = unat rid mod 256" and lt1: "unat rid < mrt_count m1"
    using mrt_lookup [OF assms(1,2)] by metis
  let ?buf = "mrt_put (unat rid mod 256) e (block_view m1 ?b)"
  have l: "length (block_view m1 ?b) = 4096" using cache.view_length soundD(4) [OF mrt_nowD(1) [OF m1]] by simp
  have i: "unat rid mod 256 < 256" by simp
  have oth: "\<forall>k < 256. k \<noteq> unat rid mod 256 \<longrightarrow> mrt_get ?buf k = mrt_get (block_view m1 ?b) k"
    using mrt_get_put [OF l i] by simp
  note W = mrt_write_now [OF mrt_nowD(1) [OF m1] lt1, folded b, OF length_mrt_put [OF l i] oth]
  have "\<not> sb_mrt_capacity (sb m) \<le> rid" using assms(2) by (simp add: mrt_count_def word_le_nat_alt)
  then have u: "journal_redo_entry m ent (Some p) = orS (write_block m1 ?b ?buf) ERR_IO"
    using rd assms(3-6) j by (simp add: journal_redo_entry_def Let_def)
  show "fst (journal_redo_entry m ent (Some p)) = OK" using W(1) by (simp add: u orS_def)
  have "mrt_get ?buf (unat rid mod 256) = e" using mrt_get_put [OF l i i, of e] by simp
  then have "mrt_now m ((mrt m)(unat rid := e)) (0 + 0) (snd (write_block m1 ?b ?buf))"
    by (intro mrt_now_trans [OF m1 W(2)]) (simp add: mrt_nowD(3) [OF m1])
  then show "mrt_now m ((mrt m)(unat rid := e)) 0 (snd (journal_redo_entry m ent (Some p)))"
    by (simp add: u)
qed

section \<open>Properties\<close>

text \<open>
  C13. Recovery ends. If head and tail lie within the ring, both passes of
  \<open>journal_replay\<close> meet the head, whatever the slots hold, whatever the redone entries write
  and whichever sectors fail.
\<close>
theorem journal_replay_returns:
  assumes "ring_ok (sb m)"
  shows "\<exists>st m'. journal_replay junk m = Some (st, m')"
proof (cases "sb_journal_head (sb m) = sb_journal_tail (sb m)")
  case True
  then show ?thesis by (simp add: journal_replay_def)
next
  case False
  have t: "sb_journal_tail (sb m) < sb_journal_length (sb m)" using assms by (simp add: ring_ok_def)
  obtain r m1 where s: "replay_scan (sb_journal_tail (sb m)) (0, False) m = Some (r, m1)" "same_ring m m1"
    using replay_scan_returns [OF assms t] by blast
  show ?thesis
  proof (cases r)
    case (Inl e)
    then show ?thesis using False s by (simp add: journal_replay_def)
  next
    case (Inr lf)
    have "ring_ok (sb m1)" "sb_journal_tail (sb m1) < sb_journal_length (sb m1)"
      using s(2) assms t by (simp_all add: same_ring_def ring_ok_def)
    then obtain st m2 where "replay_redo junk (fst lf) (sb_journal_tail (sb m1)) m1 = Some (st, m2)"
      using replay_redo_returns by fast
    then show ?thesis using False s Inr by (cases lf) (simp add: journal_replay_def replay_clean_def)
  qed
qed

theorem journal_replay_returns_witness:
  "\<exists>st m'. journal_replay [] (demo_mount\<lparr> sb := demo_sb\<lparr> sb_journal_head := 5 \<rparr> \<rparr>) = Some (st, m')"
  by (rule journal_replay_returns)
    (simp add: ring_ok_def demo_sb_def blank_sb_def dec_superblock_def slice_def)

text \<open>
  Nothing uncommitted is redone, and nothing at all from a damaged journal. On a sound
  volume with a non-empty ring whose slots all hold valid entries, none of them a COMMIT,
  \<open>journal_replay\<close> succeeds, leaves every block of the volume as it was and empties the
  ring. If a slot fails validation it returns \<open>ERR_CORRUPT\<close> and changes no block and no
  field of the superblock, also when committed transactions stand before the damage.
\<close>
theorem journal_replay_discards:
  assumes "sound m" "sb_journal_head (sb m) \<noteq> sb_journal_tail (sb m)"
    and "(\<exists>b \<in> set (ring_slots m). \<not> entry_valid (block_view m b)) \<or>
      (\<forall>b \<in> set (ring_slots m). j_operation (dec_journal_entry (block_view m b)) \<noteq> SMKFS_JOP_COMMIT)"
  shows "\<exists>st m'. journal_replay junk m = Some (st, m') \<and> sound m' \<and>
    (\<forall>c. blk_ok c \<longrightarrow> block_view m' c = block_view m c) \<and>
    (if \<forall>b \<in> set (ring_slots m). entry_valid (block_view m b)
     then st = OK \<and> ring_used (sb m') = 0 \<and> sb_journal_head (sb m') = sb_journal_head (sb m)
     else st = ERR_CORRUPT \<and> sb m' = sb m)"
proof -
  let ?bs = "map (block_view m) (ring_slots m)"
  have ring: "ring_ok (sb m)" using vol_okD(4) [OF soundD(1) [OF assms(1)]] .
  then have t: "sb_journal_tail (sb m) < sb_journal_length (sb m)" by (simp add: ring_ok_def)
  obtain m1 where s: "replay_scan (sb_journal_tail (sb m)) (0, False) m =
      Some (case scan_blocks ?bs (0, False) of None \<Rightarrow> Inl ERR_CORRUPT | Some lf' \<Rightarrow> Inr lf', m1)"
    and m1: "same_blocks m m1"
    using replay_scan_spec [OF assms(1) t ring_dist_tail] by (auto simp: ring_slots_def o_def)
  have none: "scan_blocks bs lf = None \<longleftrightarrow> (\<exists>b \<in> set bs. \<not> entry_valid b)" for bs lf
    by (induction bs arbitrary: lf) simp_all
  have nocommit: "(\<forall>b \<in> set bs. entry_valid b \<and> j_operation (dec_journal_entry b) \<noteq> SMKFS_JOP_COMMIT) \<Longrightarrow>
      scan_blocks bs lf = Some lf" for bs lf
    by (induction bs arbitrary: lf) (simp_all add: commit_seen_def)
  show ?thesis
  proof (cases "\<forall>b \<in> set (ring_slots m). entry_valid (block_view m b)")
    case False
    then have "scan_blocks ?bs (0, False) = None" by (simp add: none)
    then have "journal_replay junk m = Some (ERR_CORRUPT, m1)"
      using s assms(2) by (simp add: journal_replay_def)
    then show ?thesis using m1 False by (auto simp: same_blocks_def)
  next
    case True
    then have "scan_blocks ?bs (0, False) = Some (0, False)" using assms(3) by (intro nocommit) auto
    then have r: "journal_replay junk m = Some (replay_clean m1)"
      using s assms(2) by (simp add: journal_replay_def)
    let ?mc = "m1\<lparr> sb := (sb m1)\<lparr> sb_journal_tail := sb_journal_head (sb m1) \<rparr>,
           journal_write_pos := sb_journal_head (sb m1), journal_next_sequence := sb_journal_sequence (sb m1) \<rparr>"
    have m1s: "sound m1" and sb1: "sb m1 = sb m" using m1 by (simp_all add: same_blocks_def)
    have h: "sb_journal_head (sb m1) < sb_journal_length (sb m1)" using ring sb1 by (simp add: ring_ok_def)
    have "sound (m1\<lparr> sb := (sb m1)\<lparr> sb_journal_tail := sb_journal_head (sb m1) \<rparr> \<rparr>)"
      using sound_sb [OF m1s vol_ok_tail [OF soundD(1) [OF m1s] h]] .
    then have mc: "sound ?mc" by simp
    have fe: "block_cache_flush ?mc = (fst (block_cache_flush ?mc), snd (block_cache_flush ?mc))" by simp
    have "blk_ok c \<Longrightarrow> block_view (snd (block_cache_flush ?mc)) c = block_view m c" for c
      using block_cache_flush_spec(4) [OF soundD(4) [OF mc] fe] m1 by (simp add: same_blocks_def)
    then show ?thesis
      using r sound_flush(2) [OF mc] True sb1
      by (simp add: replay_clean_def ring_used_def)
  qed
qed

text \<open>A journal that holds one entry of an uncommitted transaction.\<close>

theorem journal_replay_discards_witness:
  "\<exists>st m'. journal_replay [] (snd (write_block (demo_mount\<lparr> sb := demo_sb\<lparr> sb_journal_head := 1 \<rparr> \<rparr>) 1
      (journal_entry_block 0 SMKFS_JOP_ALLOC 20 3 0 None))) = Some (st, m') \<and> st = OK"
proof -
  let ?start = "demo_mount\<lparr> sb := demo_sb\<lparr> sb_journal_head := 1 \<rparr> \<rparr>"
  let ?b = "journal_entry_block 0 SMKFS_JOP_ALLOC 20 3 0 None"
  let ?m = "snd (write_block ?start 1 ?b)"
  have dsb: "sb demo_mount = demo_sb" by (simp add: demo_mount_def)
  have lt: "1 < sb_journal_length (sb demo_mount)" using demo_journal(4) by (simp add: word_less_nat_alt)
  have s0: "sound ?start"
    using sound_sb [OF demo_sound vol_ok_head [OF soundD(1) [OF demo_sound] lt]] dsb by simp
  have ok: "blk_ok 1" by (simp add: blk_ok_def)
  have len: "length ?b = 4096" by (rule length_journal_entry_block) simp_all
  note W = sound_write_block [OF s0 ok len]
  have v: "block_view ?m 1 = ?b" using cache.wr_view [OF soundD(4) [OF s0] ok ok len] W(1) by simp
  have j: "sb_journal_head (sb ?m) = 1" "sb_journal_tail (sb ?m) = 0" "sb_journal_start (sb ?m) = 1"
    "sb_journal_length (sb ?m) = 8"
    using demo_journal dsb by simp_all
  have slots: "ring_slots ?m = [1]"
    by (simp only: ring_slots_def ring_used_def j) simp
  have val: "entry_valid ?b" "j_operation (dec_journal_entry ?b) = SMKFS_JOP_ALLOC"
    using redo_logged(2) [of 3 None 0 0] journal_entry_block_read(5) [of 3 None] by simp_all
  have "(\<exists>b \<in> set (ring_slots ?m). \<not> entry_valid (block_view ?m b)) \<or>
      (\<forall>b \<in> set (ring_slots ?m). j_operation (dec_journal_entry (block_view ?m b)) \<noteq> SMKFS_JOP_COMMIT)"
    using val v by (simp only: slots) simp
  moreover have "sb_journal_head (sb ?m) \<noteq> sb_journal_tail (sb ?m)" unfolding j by simp
  ultimately obtain st m' where "journal_replay [] ?m = Some (st, m')"
    "(if \<forall>b \<in> set (ring_slots ?m). entry_valid (block_view ?m b) then st = OK \<and> ring_used (sb m') = 0 \<and>
       sb_journal_head (sb m') = sb_journal_head (sb ?m) else st = ERR_CORRUPT \<and> sb m' = sb ?m)"
    using journal_replay_discards [OF W(2), of "[]"] by blast
  moreover have "\<forall>b \<in> set (ring_slots ?m). entry_valid (block_view ?m b)" using val v by (simp only: slots) simp
  ultimately show ?thesis by simp
qed

lemma redo_both:
  assumes "sound m" "seq \<le> last_seq"
  shows "unat rid < mrt_count m \<Longrightarrow>
      (let b = journal_entry_block seq SMKFS_JOP_MRT_UPDATE 0 16 rid (Some (enc_mrt_entry e));
           r = redo_slot junk last_seq b m
       in entry_valid b \<and> fst r = OK \<and> sound (snd r) \<and> mrt_frame m (snd r) \<and>
          (\<forall>i < mrt_count m. mrt (snd r) i = (if i = unat rid then e else mrt m i)))"
    and "s + unat n \<le> ndata m \<Longrightarrow> unat n \<le> 4032 \<Longrightarrow>
      (let b = journal_entry_block seq (if alloc then SMKFS_JOP_ALLOC else SMKFS_JOP_FREE)
                 (sb_data_start (sb m) + of_nat s) n 0 None;
           r = redo_slot junk last_seq b m
       in entry_valid b \<and> fst r = OK \<and> sound (snd r) \<and> alloc_frame m (snd r) \<and>
          (\<forall>j < unat (sb_bitmap_length (sb m)) * 32768.
             used (snd r) j = (if s \<le> j \<and> j < s + unat n then alloc else used m j)))"
proof -
  assume rid: "unat rid < mrt_count m"
  let ?b = "journal_entry_block seq SMKFS_JOP_MRT_UPDATE 0 16 rid (Some (enc_mrt_entry e))"
  have l: "unat (16 :: u32) \<le> 4032" "loggable 16 (Some (enc_mrt_entry e))" by (simp_all add: loggable_def)
  note R = journal_entry_block_read [OF l, where seq = seq and op = SMKFS_JOP_MRT_UPDATE and target = 0 and rid = rid]
  note D = redo_logged(1) [OF l assms(2), where junk = junk and op = SMKFS_JOP_MRT_UPDATE and target = 0 and rid = rid and m = m]
  have "slice 64 16 ?b = enc_mrt_entry e" using R(8) by simp
  moreover have "take 16 (drop 64 ?b @ junk) = slice 64 16 ?b"
    using length_journal_entry_block [OF l, where seq = seq and op = SMKFS_JOP_MRT_UPDATE and target = 0 and rid = rid]
    by (simp add: slice_def)
  then have "dec_mrt_entry (drop 64 ?b @ junk) = dec_mrt_entry (slice 64 16 ?b)"
    using dec_mrt_entry_take [of 16 "drop 64 ?b @ junk"] by simp
  ultimately have p: "dec_mrt_entry (drop 64 ?b @ junk) = e" by simp
  note M = redo_mrt_sound [OF assms(1) rid R(5,6,7) p]
  show "let b = journal_entry_block seq SMKFS_JOP_MRT_UPDATE 0 16 rid (Some (enc_mrt_entry e));
           r = redo_slot junk last_seq b m
       in entry_valid b \<and> fst r = OK \<and> sound (snd r) \<and> mrt_frame m (snd r) \<and>
          (\<forall>i < mrt_count m. mrt (snd r) i = (if i = unat rid then e else mrt m i))"
    using D redo_logged(2) [OF l assms(2)] M mrt_nowD [OF M(2)] by (simp add: Let_def)
next
  assume n: "s + unat n \<le> ndata m" "unat n \<le> 4032"
  let ?op = "if alloc then SMKFS_JOP_ALLOC else SMKFS_JOP_FREE"
  let ?t = "sb_data_start (sb m) + of_nat s"
  note R = journal_entry_block_read [OF n(2) loggable_simps(1), where seq = seq and op = ?op and target = ?t and rid = 0]
  note D = redo_logged(1) [OF n(2) loggable_simps(1) assms(2), where junk = junk and op = ?op and target = ?t and rid = 0 and m = m]
  obtain k where k: "bits_now m (\<lambda>j. if s \<le> j \<and> j < s + unat n then alloc else used m j) k
      (if alloc then set_all ?t (unat n) m else clear_all ?t (unat n) m)"
    using set_all_sound [OF assms(1) n(1)] clear_all_bits [OF assms(1) n(1)]
    by (cases alloc) (force elim: bits_now_cong)+
  have "journal_redo_entry m (dec_journal_entry (journal_entry_block seq ?op ?t n 0 None)) q =
      (OK, if alloc then set_all ?t (unat n) m else clear_all ?t (unat n) m)" for q
    unfolding journal_redo_entry_def R(4,5,6) by simp
  then show "let b = journal_entry_block seq ?op ?t n 0 None; r = redo_slot junk last_seq b m
       in entry_valid b \<and> fst r = OK \<and> sound (snd r) \<and> alloc_frame m (snd r) \<and>
          (\<forall>j < unat (sb_bitmap_length (sb m)) * 32768.
             used (snd r) j = (if s \<le> j \<and> j < s + unat n then alloc else used m j))"
    using D redo_logged(2) [OF n(2) loggable_simps(1) assms(2)] bits_nowD(1-3) [OF k] by (simp add: Let_def)
qed

text \<open>
  C14. Redoing reproduces what was logged. The block that the journal writer made for a change
  of a table entry validates, and redoing it on any sound volume sets exactly that entry to the
  logged value; the block made for an allocation sets exactly the bits of its range, and the
  one for a release clears them. Redoing twice is redoing once, since the result does not
  depend on the old entry or bits.
\<close>
theorem journal_redo_logged:
  assumes "sound m" "seq \<le> last_seq"
  shows "(unat rid < mrt_count m \<longrightarrow>
      (let b = journal_entry_block seq SMKFS_JOP_MRT_UPDATE 0 16 rid (Some (enc_mrt_entry e));
           r = redo_slot junk last_seq b m
       in entry_valid b \<and> fst r = OK \<and> sound (snd r) \<and> mrt_frame m (snd r) \<and>
          (\<forall>i < mrt_count m. mrt (snd r) i = (if i = unat rid then e else mrt m i)))) \<and>
    (s + unat n \<le> ndata m \<and> unat n \<le> 4032 \<longrightarrow>
      (let b = journal_entry_block seq (if alloc then SMKFS_JOP_ALLOC else SMKFS_JOP_FREE)
                 (sb_data_start (sb m) + of_nat s) n 0 None;
           r = redo_slot junk last_seq b m
       in entry_valid b \<and> fst r = OK \<and> sound (snd r) \<and> alloc_frame m (snd r) \<and>
          (\<forall>j < unat (sb_bitmap_length (sb m)) * 32768.
             used (snd r) j = (if s \<le> j \<and> j < s + unat n then alloc else used m j))))"
  using redo_both [OF assms] by blast

theorem journal_redo_logged_witness:
  "mrt (snd (redo_slot [] 5 (journal_entry_block 4 SMKFS_JOP_MRT_UPDATE 0 16 7 (Some (enc_mrt_entry free_mrt_entry)))
      demo_mount)) 7 = free_mrt_entry \<and>
   used (snd (redo_slot [] 5 (journal_entry_block 4 SMKFS_JOP_ALLOC (11 + 2) 3 0 None) demo_mount)) 4"
proof -
  have "(4 :: u64) \<le> 5" by simp
  note T = journal_redo_logged [OF demo_sound this]
  have "mrt (snd (redo_slot [] 5 (journal_entry_block 4 SMKFS_JOP_MRT_UPDATE 0 16 7 (Some (enc_mrt_entry free_mrt_entry)))
      demo_mount)) 7 = free_mrt_entry"
    using T [of 7 free_mrt_entry "[]"] demo_mrt(1) by (simp add: Let_def)
  moreover have "unat (sb_bitmap_length (sb demo_mount)) = 1" by (simp add: demo_mount_def demo_sb_def)
  ultimately show ?thesis
    using T [where s = 2 and n = 3 and alloc = True and junk = "[]"] demo_bitmap(1,2) by (simp add: Let_def)
qed

end
