(* ===== verification/Dir.thy ===== *)
theory Dir
  imports Records Btree JournalReplay
begin

text \<open>
  Directories and paths, \<^verbatim>\<open>fs/smkfs/dir.c\<close> and \<^verbatim>\<open>fs/smkfs/path.c\<close>: a directory is a record
  whose DATA attribute is the root block of a B+ tree from names to record numbers. The
  operations that change a directory run in a transaction of their own. \<open>stk\<close> stands for
  what the buffers on the stack and from \<^verbatim>\<open>malloc\<close> hold before they are filled. A path is the
  buffer of its characters.
\<close>

abbreviation (input) ATTR_SPACE :: nat where "ATTR_SPACE \<equiv> 4040"

text \<open>\<^verbatim>\<open>*(ULONGLONG *)attr\<close>, the 8 bytes at the data of the first attribute of a type.\<close>

definition attr_u64 :: "bytes \<Rightarrow> u16 \<Rightarrow> (status + u64) option" where
  "attr_u64 attr_buf ty =
     (case record_find_attr attr_buf ty of
        None \<Rightarrow> None
      | Some (Inl e) \<Rightarrow> Some (Inl e)
      | Some (Inr (p, n)) \<Rightarrow>
          if p + 8 \<le> length attr_buf then Some (Inr (le_word (slice p 8 attr_buf))) else None)"

text \<open>\<^verbatim>\<open>header.length = sizeof(_SMKFS_RECORD) + attr_buf_total_len(attr_buf)\<close>.\<close>

definition with_length :: "smk_record \<Rightarrow> bytes \<Rightarrow> smk_record option" where
  "with_length rec attr_buf =
     map_option (\<lambda>total. rec\<lparr> r_header := (r_header rec)\<lparr> h_length := of_nat (56 + total) \<rparr> \<rparr>)
       (attr_buf_total_len attr_buf)"

text \<open>An error inside a transaction: it is aborted and \<open>e\<close> returned.\<close>

definition orAbort :: "(status \<times> mount) option \<Rightarrow> (status \<Rightarrow> status) \<Rightarrow> (mount \<Rightarrow> (status \<times> mount) option) \<Rightarrow> (status \<times> mount) option" where
  "orAbort r e f = Option.bind r (\<lambda>(st, m). if st = OK then f m else Some (e st, snd (journal_abort m)))"

definition bindAbort ::
  "((status + 'a) \<times> mount) option \<Rightarrow> (status \<Rightarrow> status) \<Rightarrow> ('a \<Rightarrow> mount \<Rightarrow> (status \<times> mount) option) \<Rightarrow> (status \<times> mount) option" where
  "bindAbort r e f = Option.bind r (\<lambda>(x, m).
     case x of Inl st \<Rightarrow> Some (e st, snd (journal_abort m)) | Inr a \<Rightarrow> f a m)"

definition begin_tx :: "mount \<Rightarrow> (mount \<Rightarrow> (status \<times> mount) option) \<Rightarrow> (status \<times> mount) option" where
  "begin_tx m f = thenO (otherO (Some (journal_start_transaction m)) ERR_JOURNAL) f"

definition commit_tx :: "mount \<Rightarrow> (status \<times> mount) option" where
  "commit_tx m = otherO (Some (journal_commit m)) ERR_JOURNAL"

section \<open>Names and paths\<close>

definition smkfs_lookup_by_name :: "bytes \<Rightarrow> mount \<Rightarrow> u64 \<Rightarrow> bytes \<Rightarrow> ((status + u64) \<times> mount) option" where
  "smkfs_lookup_by_name stk m dir_record name =
     (if \<not> mounted m then Some (Inl ERR_INVAL, m)
      else bindX (otherX (Some (record_read m dir_record (take ATTR_SPACE stk))) ERR_IO) (\<lambda>(rec, attr_buf) m1.
        if r_object_type rec \<noteq> SMKFS_ROT_DIR then Some (Inl ERR_INVAL, m1)
        else Option.bind (attr_u64 attr_buf SMKFS_ATTRT_DATA) (\<lambda>d.
          case d of
            Inl _ \<Rightarrow> Some (Inl ERR_NOTFOUND, m1)
          | Inr root_block \<Rightarrow> btree_search m1 root_block name)))"

definition char_at :: "bytes \<Rightarrow> nat \<Rightarrow> u8" where
  "char_at path i = (if i < length path then path ! i else 0)"

text \<open>\<^verbatim>\<open>':'\<close> is 58, \<^verbatim>\<open>'/'\<close> is 47, \<^verbatim>\<open>'A'\<close> is 65.\<close>

definition path_validate :: "bytes \<Rightarrow> status" where
  "path_validate path = (if char_at path 1 \<noteq> 58 \<or> char_at path 2 \<noteq> 47 then ERR_INVAL else OK)"

text \<open>The next component: at most 255 characters up to a slash or the end.\<close>

definition next_name :: "bytes \<Rightarrow> bytes" where
  "next_name p = take (SMKFS_NAME_LEN - 1) (takeWhile (\<lambda>b. b \<noteq> 0 \<and> b \<noteq> 47) p)"

lemma next_name_progress:
  assumes "hd0 (dropWhile (\<lambda>b. b = 47) p) \<noteq> 0"
  shows "length (drop (length (next_name (dropWhile (\<lambda>b. b = 47) p))) (dropWhile (\<lambda>b. b = 47) p)) < length p"
proof (cases "dropWhile (\<lambda>b. b = 47) p")
  case Nil
  show ?thesis using assms unfolding Nil by (simp add: hd0_def)
next
  case (Cons b q)
  then have "b \<noteq> 47" by (simp add: dropWhile_eq_Cons_conv)
  moreover have "b \<noteq> 0" using assms unfolding Cons by (simp add: hd0_def)
  moreover have "length (b # q) \<le> length p" using length_dropWhile_le [of "\<lambda>b. b = 47" p] unfolding Cons .
  ultimately show ?thesis unfolding Cons by (simp add: next_name_def)
qed

function path_walk :: "bytes \<Rightarrow> bytes \<Rightarrow> u64 \<Rightarrow> mount \<Rightarrow> ((status + u64) \<times> mount) option" where
  "path_walk stk p current m =
     (let p1 = dropWhile (\<lambda>b. b = 47) p
      in if hd0 p1 = 0 then Some (Inr current, m)
         else
           let name = next_name p1
           in bindX (otherX (smkfs_lookup_by_name stk m current name) ERR_NOTFOUND)
                (path_walk stk (drop (length name) p1)))"
  by pat_completeness auto
termination
  by (relation "measure (\<lambda>(stk, p, current, m). length p)")
    (simp_all add: next_name_progress del: length_drop)

declare path_walk.simps [simp del]

definition path_lookup :: "bytes \<Rightarrow> mount \<Rightarrow> bytes \<Rightarrow> ((status + u64) \<times> mount) option" where
  "path_lookup stk m path =
     (if path_validate path \<noteq> OK then Some (Inl ERR_INVAL, m)
      else if char_at path 0 - 65 \<noteq> drive_num m then Some (Inl ERR_INVAL, m)
      else path_walk stk (drop 3 path) (sb_root_record_id (sb m)) m)"

text \<open>The parent directory and the last component.\<close>

definition path_split :: "bytes \<Rightarrow> mount \<Rightarrow> bytes \<Rightarrow> ((status + u64 \<times> bytes) \<times> mount) option" where
  "path_split stk m path =
     (case strrchr path 47 of
        None \<Rightarrow>
          (if strlen (drop 3 path) \<ge> SMKFS_NAME_LEN then Some (Inl ERR_TOO_BIG, m)
           else Some (Inr (sb_root_record_id (sb m), cstr (drop 3 path)), m))
      | Some i \<Rightarrow>
          if i = 2 then
            (if strlen (drop 3 path) \<ge> SMKFS_NAME_LEN then Some (Inl ERR_TOO_BIG, m)
             else Some (Inr (sb_root_record_id (sb m), cstr (drop 3 path)), m))
          else if i \<ge> SMKFS_PATH_LEN then Some (Inl ERR_TOO_BIG, m)
          else if \<not> heap_ok m then Some (Inl ERR_NOMEM, m)
          else bindX (otherX (path_lookup stk m (take i path)) ERR_NOTFOUND) (\<lambda>parent m1.
            if strlen (drop (i + 1) path) \<ge> SMKFS_NAME_LEN then Some (Inl ERR_TOO_BIG, m1)
            else Some (Inr (parent, cstr (drop (i + 1) path)), m1)))"

section \<open>Creating a record\<close>

definition empty_leaf :: bytes where
  "empty_leaf =
     (let n = dec_node (replicate SMKFS_BLOCK_SIZE 0);
          h = header_init (n_header (nh n)) SMKFS_ST_BTREE_NODE 56 (SMKFS_BTN_LEAF OR SMKFS_BTN_ROOT)
      in header_checksum_update
           (enc_node (n\<lparr> nh := \<lparr> n_header = h, n_parent_block = 0, n_flags = SMKFS_BTN_LEAF,
                                 n_key_count = 0, n_right_sibling = 0 \<rparr> \<rparr>)) 56)"

text \<open>Every failure ends in \<open>ERR_IO\<close>; \<open>give_up\<close> releases what was taken so far.\<close>

definition give_up :: "u64 \<Rightarrow> u64 \<Rightarrow> mount \<Rightarrow> ((status + 'a) \<times> mount) option" where
  "give_up btree_root new_id m =
     map_option (\<lambda>m1. (Inl ERR_IO, m1))
       (record_free (if btree_root \<noteq> 0 then snd (bitmap_clear m btree_root) else m) new_id)"

definition make_dir_root :: "mount \<Rightarrow> u16 \<Rightarrow> u64 \<Rightarrow> ((status + u64) \<times> mount) option" where
  "make_dir_root m object_type new_id =
     (if object_type \<noteq> SMKFS_ROT_DIR then Some (Inr 0, m)
      else if \<not> heap_ok m then give_up 0 new_id m
      else case bitmap_alloc m of
        (btree_root, m1) \<Rightarrow>
          if btree_root = 0 then give_up 0 new_id m1
          else (case write_block m1 btree_root empty_leaf of
            (st, m2) \<Rightarrow> if st \<noteq> OK then give_up btree_root new_id m2 else Some (Inr btree_root, m2)))"

definition new_attrs :: "u64 \<Rightarrow> u64 \<Rightarrow> bytes option" where
  "new_attrs parent_dir btree_root =
     Option.bind (record_add_attr (patch 0 (enc_attr_header attr_terminator) (replicate ATTR_SPACE 0)) ATTR_SPACE
                    SMKFS_ATTRT_PARENT (Some (le_bytes 8 parent_dir)) 8) (\<lambda>(_, b).
       if btree_root \<noteq> 0
       then map_option snd (record_add_attr b ATTR_SPACE SMKFS_ATTRT_DATA (Some (le_bytes 8 btree_root)) 8)
       else Some b)"

definition create_entry ::
  "bytes \<Rightarrow> mount \<Rightarrow> u16 \<Rightarrow> u64 \<Rightarrow> bytes \<Rightarrow> u64 \<Rightarrow> u32 \<Rightarrow> u64 \<Rightarrow> ((status + u64) \<times> mount) option" where
  "create_entry stk m object_type parent_dir name new_id new_gen btree_root =
     (case record_read m parent_dir (take ATTR_SPACE stk) of
        (Inl _, m1) \<Rightarrow> give_up btree_root new_id m1
      | (Inr (parent_rec, parent_attr), m1) \<Rightarrow>
          Option.bind (attr_u64 parent_attr SMKFS_ATTRT_DATA) (\<lambda>d.
          case d of
            Inl _ \<Rightarrow> give_up btree_root new_id m1
          | Inr parent_btree \<Rightarrow>
              Option.bind (btree_insert m1 parent_btree name new_id) (\<lambda>(r, m2).
              case r of
                Inl _ \<Rightarrow> give_up btree_root new_id m2
              | Inr new_root \<Rightarrow>
                  Option.bind (new_attrs parent_dir btree_root) (\<lambda>new_attr.
                  Option.bind (with_length ((new_record stk new_id object_type new_gen)
                                  \<lparr> r_attr_count := (if btree_root \<noteq> 0 then 2 else 1) \<rparr>) new_attr) (\<lambda>new_rec.
                  Option.bind (record_write m2 new_id new_rec new_attr) (\<lambda>(st, m3).
                    if st \<noteq> OK then give_up btree_root new_id m3
                    else
                      Option.bind (record_add_attr parent_attr ATTR_SPACE SMKFS_ATTRT_DATA
                                     (Some (le_bytes 8 new_root)) 8) (\<lambda>(_, parent_attr1).
                      Option.bind (with_length parent_rec parent_attr1) (\<lambda>parent_rec1.
                      Option.bind (record_write m3 parent_dir parent_rec1 parent_attr1) (\<lambda>(st2, m4).
                        if st2 \<noteq> OK then give_up 0 new_id m4 else Some (Inr new_id, m4))))))))))"

definition create_body :: "bytes \<Rightarrow> mount \<Rightarrow> u16 \<Rightarrow> u64 \<Rightarrow> bytes \<Rightarrow> ((status + u64) \<times> mount) option" where
  "create_body stk m object_type parent_dir name =
     (if \<not> mounted m then Some (Inl ERR_IO, m)
      else Option.bind (record_alloc stk m object_type) (\<lambda>(new_id, m1).
        if new_id = 0 then Some (Inl ERR_IO, m1)
        else case mrt_resolve m1 new_id of
          (Inl _, m2) \<Rightarrow> Some (Inl ERR_IO, m2)
        | (Inr (_, _, new_gen), m2) \<Rightarrow>
            bindX (make_dir_root m2 object_type new_id)
              (\<lambda>btree_root m3. create_entry stk m3 object_type parent_dir name new_id new_gen btree_root)))"

definition smkfs_create_record :: "bytes \<Rightarrow> mount \<Rightarrow> u16 \<Rightarrow> u64 \<Rightarrow> bytes \<Rightarrow> ((status + u64) \<times> mount) option" where
  "smkfs_create_record stk m object_type parent_dir name =
     thenX (otherO (Some (journal_start_transaction m)) ERR_JOURNAL) (\<lambda>m1.
       if \<not> heap_ok m1 then Some (Inl ERR_NOMEM, snd (journal_commit m1))
       else Option.bind (create_body stk m1 object_type parent_dir name) (\<lambda>(r, m2).
         case r of
           Inr new_id \<Rightarrow> Some (Inr new_id, snd (journal_commit m2))
         | Inl _ \<Rightarrow> Some (Inl ERR_IO, snd (journal_abort m2))))"

section \<open>Deleting and renaming\<close>

text \<open>
  The part that deletion and renaming share: the entry \<open>name\<close> leaves the tree of the
  directory \<open>parent_dir\<close>, and the directory's record is written with the tree's new root.
\<close>

definition remove_entry :: "bytes \<Rightarrow> mount \<Rightarrow> u64 \<Rightarrow> bytes \<Rightarrow> (mount \<Rightarrow> (status \<times> mount) option) \<Rightarrow> (status \<times> mount) option" where
  "remove_entry stk m parent_dir name f =
     bindAbort (Some (record_read m parent_dir (take ATTR_SPACE stk))) (\<lambda>_. ERR_IO) (\<lambda>(parent_rec, parent_attr) m1.
       bindAbort (map_option (\<lambda>d. (d, m1)) (attr_u64 parent_attr SMKFS_ATTRT_DATA)) (\<lambda>_. ERR_NOTFOUND) (\<lambda>parent_btree m2.
         bindAbort (btree_delete m2 parent_btree name) (\<lambda>e. e) (\<lambda>new_root m3.
           Option.bind (record_add_attr parent_attr ATTR_SPACE SMKFS_ATTRT_DATA (Some (le_bytes 8 new_root)) 8) (\<lambda>(st, parent_attr1).
             orAbort (Some (st, m3)) (\<lambda>_. ERR_NOSPC) (\<lambda>m4.
               Option.bind (with_length parent_rec parent_attr1) (\<lambda>parent_rec1.
                 orAbort (record_write m4 parent_dir parent_rec1 parent_attr1) (\<lambda>_. ERR_IO) f))))))"

text \<open>The directory is read again into the 64 entries of \<^verbatim>\<open>entries\<close>, 16896 bytes.\<close>

definition dir_not_empty :: "mount \<Rightarrow> smk_record \<Rightarrow> bytes \<Rightarrow> (bool \<times> mount) option" where
  "dir_not_empty m rec attr_buf =
     (if r_object_type rec \<noteq> SMKFS_ROT_DIR then Some (False, m)
      else map_option (\<lambda>d.
        case d of
          Inl _ \<Rightarrow> (False, m)
        | Inr dir_btree \<Rightarrow>
            (case btree_node_read m dir_btree (64 * 264) of
               (Inl _, m1) \<Rightarrow> (False, m1)
             | (Inr (h, _), m1) \<Rightarrow> (n_key_count h > 0, m1))) (attr_u64 attr_buf SMKFS_ATTRT_DATA))"

definition smkfs_delete_record :: "bytes \<Rightarrow> mount \<Rightarrow> u64 \<Rightarrow> bytes \<Rightarrow> u64 \<Rightarrow> (status \<times> mount) option" where
  "smkfs_delete_record stk m parent_dir name record_id =
     (if \<not> mounted m \<or> record_id = 0 then Some (ERR_INVAL, m)
      else bindO (otherX (Some (record_read m record_id (take ATTR_SPACE stk))) ERR_IO) (\<lambda>(rec, attr_buf) m1.
        Option.bind (dir_not_empty m1 rec attr_buf) (\<lambda>(full, m2).
          if full then Some (ERR_NOTEMPTY, m2)
          else begin_tx m2 (\<lambda>m3.
            remove_entry stk m3 parent_dir name (\<lambda>m4.
              let links = (if r_link_count rec = 0 then 1 else r_link_count rec) - 1
              in if links = 0
                 then Option.bind (record_free m4 record_id) commit_tx
                 else orAbort (record_write m4 record_id (rec\<lparr> r_link_count := links \<rparr>) attr_buf) (\<lambda>_. ERR_IO) commit_tx)))))"

definition insert_entry :: "bytes \<Rightarrow> mount \<Rightarrow> u64 \<Rightarrow> bytes \<Rightarrow> u64 \<Rightarrow> (mount \<Rightarrow> (status \<times> mount) option) \<Rightarrow> (status \<times> mount) option" where
  "insert_entry stk m parent_dir name record_id f =
     bindAbort (Some (record_read m parent_dir (take ATTR_SPACE stk))) (\<lambda>_. ERR_IO) (\<lambda>(parent_rec, parent_attr) m1.
       bindAbort (map_option (\<lambda>d. (d, m1)) (attr_u64 parent_attr SMKFS_ATTRT_DATA)) (\<lambda>_. ERR_NOTFOUND) (\<lambda>parent_btree m2.
         bindAbort (btree_insert m2 parent_btree name record_id) (\<lambda>_. ERR_NOSPC) (\<lambda>new_root m3.
           Option.bind (record_add_attr parent_attr ATTR_SPACE SMKFS_ATTRT_DATA (Some (le_bytes 8 new_root)) 8) (\<lambda>(st, parent_attr1).
             orAbort (Some (st, m3)) (\<lambda>_. ERR_NOSPC) (\<lambda>m4.
               Option.bind (with_length parent_rec parent_attr1) (\<lambda>parent_rec1.
                 orAbort (record_write m4 parent_dir parent_rec1 parent_attr1) (\<lambda>_. ERR_IO) f))))))"

definition smkfs_rename :: "bytes \<Rightarrow> mount \<Rightarrow> u64 \<Rightarrow> bytes \<Rightarrow> u64 \<Rightarrow> bytes \<Rightarrow> u64 \<Rightarrow> (status \<times> mount) option" where
  "smkfs_rename stk m old_parent old_name new_parent new_name record_id =
     (if \<not> mounted m \<or> record_id = 0 then Some (ERR_INVAL, m)
      else bindO (otherX (Some (record_read m record_id (take ATTR_SPACE stk))) ERR_IO) (\<lambda>(rec, rec_attr_buf) m1.
        begin_tx m1 (\<lambda>m2.
          remove_entry stk m2 old_parent old_name (\<lambda>m3.
            insert_entry stk m3 new_parent new_name record_id (\<lambda>m4.
              Option.bind (record_add_attr rec_attr_buf ATTR_SPACE SMKFS_ATTRT_PARENT
                             (Some (le_bytes 8 new_parent)) 8) (\<lambda>(st, rec_attr_buf1).
                orAbort (Some (st, m4)) (\<lambda>_. ERR_NOSPC) (\<lambda>m5.
                  Option.bind (with_length rec rec_attr_buf1) (\<lambda>rec1.
                    orAbort (record_write m5 record_id rec1 rec_attr_buf1) (\<lambda>_. ERR_IO) commit_tx))))))))"

section \<open>Listing a directory\<close>

definition readdir_cb :: "nat \<Rightarrow> bytes \<Rightarrow> u64 \<Rightarrow> (bytes \<times> u64) list \<Rightarrow> int \<times> (bytes \<times> u64) list" where
  "readdir_cb max_entries key value c =
     (if length c \<ge> max_entries then (1, c)
      else (0, c @ [(strncpy key (SMKFS_NAME_LEN - 1) @ [0], value)]))"

definition smkfs_readdir :: "bytes \<Rightarrow> mount \<Rightarrow> bytes \<Rightarrow> nat \<Rightarrow> ((status + (bytes \<times> u64) list) \<times> mount) option" where
  "smkfs_readdir stk m path max_entries =
     (if \<not> mounted m then Some (Inl ERR_INVAL, m)
      else if path_validate path \<noteq> OK then Some (Inl ERR_INVAL, m)
      else bindX (otherX (path_lookup stk m path) ERR_NOTFOUND) (\<lambda>dir_record m1.
        bindX (otherX (Some (record_read m1 dir_record (take ATTR_SPACE stk))) ERR_IO) (\<lambda>(rec, attr_buf) m2.
          if r_object_type rec \<noteq> SMKFS_ROT_DIR then Some (Inl ERR_INVAL, m2)
          else Option.bind (attr_u64 attr_buf SMKFS_ATTRT_DATA) (\<lambda>d.
            case d of
              Inl _ \<Rightarrow> Some (Inl ERR_NOTFOUND, m2)
            | Inr btree_root \<Rightarrow>
                map_option (\<lambda>(_, c, m3). (Inr c, m3))
                  (btree_iterate m2 btree_root (readdir_cb max_entries) [])))))"

end
