(* ===== verification/Inode.thy ===== *)
theory Inode
  imports Dir
begin

text \<open>
  \<^verbatim>\<open>fs/smkfs/inode.c\<close> and \<^verbatim>\<open>fs/smkfs/link.c\<close>: reading and changing single attributes of a record,
  by its number or its path, and hard links. A pointer that the code checks for NULL is an
  \<open>option\<close>; the other buffers of the callers are taken to be there.
\<close>

section \<open>Attributes of a record\<close>

definition smkfs_getattr :: "mount \<Rightarrow> u64 \<Rightarrow> bytes option \<Rightarrow> (status + smk_record \<times> bytes) \<times> mount" where
  "smkfs_getattr m record_id attr_buf =
     (case attr_buf of
        None \<Rightarrow> (Inl ERR_INVAL, m)
      | Some buf \<Rightarrow>
          if \<not> mounted m \<or> record_id = 0 then (Inl ERR_INVAL, m) else record_read m record_id buf)"

definition smkfs_setattr :: "bytes \<Rightarrow> mount \<Rightarrow> u64 \<Rightarrow> u16 \<Rightarrow> bytes option \<Rightarrow> nat \<Rightarrow> (status \<times> mount) option" where
  "smkfs_setattr stk m record_id attr_type data len =
     (if \<not> mounted m \<or> data = None \<or> record_id = 0 then Some (ERR_INVAL, m)
      else bindO (otherX (Some (record_read m record_id (take ATTR_SPACE stk))) ERR_IO) (\<lambda>(rec, attr_buf) m1.
        begin_tx m1 (\<lambda>m2.
          Option.bind (record_add_attr attr_buf ATTR_SPACE attr_type data len) (\<lambda>(st, attr_buf1).
            orAbort (Some (st, m2)) (\<lambda>_. ERR_NOSPC) (\<lambda>m3.
              Option.bind (count_attrs attr_buf1) (\<lambda>n.
              Option.bind (with_length (rec\<lparr> r_attr_count := n \<rparr>) attr_buf1) (\<lambda>rec1.
                orAbort (record_write m3 record_id rec1 attr_buf1) (\<lambda>e. e) commit_tx)))))))"

definition smkfs_stat :: "bytes \<Rightarrow> mount \<Rightarrow> bytes \<Rightarrow> bytes option \<Rightarrow> ((status + smk_record \<times> bytes) \<times> mount) option" where
  "smkfs_stat stk m path attr_buf =
     (if \<not> mounted m \<or> attr_buf = None \<or> path_validate path \<noteq> OK then Some (Inl ERR_INVAL, m)
      else bindX (otherX (path_lookup stk m path) ERR_NOTFOUND) (\<lambda>record_id m1.
        Some (smkfs_getattr m1 record_id attr_buf)))"

definition smkfs_chmod :: "bytes \<Rightarrow> mount \<Rightarrow> bytes \<Rightarrow> u16 \<Rightarrow> (status \<times> mount) option" where
  "smkfs_chmod stk m path permissions =
     (if \<not> mounted m \<or> path_validate path \<noteq> OK then Some (ERR_INVAL, m)
      else bindO (otherX (path_lookup stk m path) ERR_NOTFOUND) (\<lambda>record_id m1.
        smkfs_setattr stk m1 record_id SMKFS_ATTRT_PERMISSIONS (Some (le_bytes 2 permissions)) 2))"

definition smkfs_chown :: "bytes \<Rightarrow> mount \<Rightarrow> bytes \<Rightarrow> u32 \<Rightarrow> u32 \<Rightarrow> (status \<times> mount) option" where
  "smkfs_chown stk m path uid gid =
     (let owner = push_bit 32 (ucast uid) OR ucast gid :: u64
      in if \<not> mounted m \<or> path_validate path \<noteq> OK then Some (ERR_INVAL, m)
         else bindO (otherX (path_lookup stk m path) ERR_NOTFOUND) (\<lambda>record_id m1.
           smkfs_setattr stk m1 record_id SMKFS_ATTRT_OWNER (Some (le_bytes 8 owner)) 8))"

section \<open>Hard links\<close>

text \<open>
  Every failure of \<open>smkfs_link\<close> aborts, also before it has begun a transaction of its own. The
  result of the attribute's replacement is not looked at, nor that of the commit.
\<close>

definition link_body :: "bytes \<Rightarrow> mount \<Rightarrow> u64 \<Rightarrow> smk_record \<Rightarrow> bytes \<Rightarrow> u64 \<Rightarrow> bytes \<Rightarrow> (status \<times> mount) option" where
  "link_body stk m existing_id rec attr_buf new_parent new_name =
     bindAbort (Some (record_read m new_parent (take ATTR_SPACE stk))) (\<lambda>_. ERR_IO) (\<lambda>(parent_rec, parent_attr) m1.
       bindAbort (map_option (\<lambda>d. (d, m1)) (attr_u64 parent_attr SMKFS_ATTRT_DATA)) (\<lambda>_. ERR_NOTFOUND) (\<lambda>parent_btree m2.
         bindAbort (btree_insert m2 parent_btree new_name existing_id) (\<lambda>_. ERR_NOSPC) (\<lambda>new_root m3.
           Option.bind (record_add_attr parent_attr ATTR_SPACE SMKFS_ATTRT_DATA (Some (le_bytes 8 new_root)) 8) (\<lambda>(_, parent_attr1).
             orAbort (record_write m3 new_parent parent_rec parent_attr1) (\<lambda>_. ERR_IO) (\<lambda>m4.
               orAbort (record_write m4 existing_id (rec\<lparr> r_link_count := r_link_count rec + 1 \<rparr>) attr_buf) (\<lambda>_. ERR_IO) (\<lambda>m5.
                 Some (OK, snd (journal_commit m5))))))))"

definition smkfs_link :: "bytes \<Rightarrow> mount \<Rightarrow> bytes \<Rightarrow> bytes \<Rightarrow> (status \<times> mount) option" where
  "smkfs_link stk m existing_path new_path =
     (if \<not> mounted m \<or> path_validate existing_path \<noteq> OK \<or> path_validate new_path \<noteq> OK
      then Some (ERR_INVAL, snd (journal_abort m))
      else bindAbort (path_lookup stk m existing_path) (\<lambda>_. ERR_NOTFOUND) (\<lambda>existing_id m1.
        bindAbort (Some (record_read m1 existing_id (take ATTR_SPACE stk))) (\<lambda>_. ERR_IO) (\<lambda>(rec, attr_buf) m2.
          if r_object_type rec = SMKFS_ROT_DIR then Some (ERR_INVAL, snd (journal_abort m2))
          else Option.bind (path_lookup stk m2 new_path) (\<lambda>(r, m3).
            case r of
              Inr _ \<Rightarrow> Some (ERR_EXISTS, snd (journal_abort m3))
            | Inl _ \<Rightarrow>
                bindAbort (path_split stk m3 new_path) (\<lambda>_. ERR_INVAL) (\<lambda>(new_parent, new_name) m4.
                  orAbort (Some (journal_start_transaction m4)) (\<lambda>_. ERR_JOURNAL) (\<lambda>m5.
                    link_body stk m5 existing_id rec attr_buf new_parent new_name))))))"

definition smkfs_unlink :: "bytes \<Rightarrow> mount \<Rightarrow> bytes \<Rightarrow> (status \<times> mount) option" where
  "smkfs_unlink stk m path =
     (if \<not> mounted m \<or> path_validate path \<noteq> OK then Some (ERR_INVAL, m)
      else bindO (otherX (path_lookup stk m path) ERR_NOTFOUND) (\<lambda>record_id m1.
        bindO (otherX (path_split stk m1 path) ERR_INVAL) (\<lambda>(parent_id, name) m2.
          bindO (otherX (Some (record_read m2 record_id (take ATTR_SPACE stk))) ERR_IO) (\<lambda>(rec, attr_buf) m3.
            if r_object_type rec = SMKFS_ROT_DIR then Some (ERR_INVAL, m3)
            else smkfs_delete_record stk m3 parent_id name record_id))))"

end
