(* ===== verification/Debug.thy ===== *)
theory Debug
  imports Dir
begin

text \<open>
  \<^verbatim>\<open>fs/smkfs/debug.c\<close> and \<open>btree_dump_recursive\<close>. The text on the console is not modelled,
  but what the dumps do to the mount is, because \<open>smkfs_mount\<close> and \<open>smkfs_open\<close> call them: they
  read blocks through the cache and walk an attribute list without a bound. \<open>printk_size\<close> is
  modelled by the numbers that it prints.
\<close>

section \<open>Sizes\<close>

text \<open>The loop, its unit counted down from 5: the number, the last remainder and the unit.\<close>

fun size_loop :: "nat \<Rightarrow> u64 \<Rightarrow> u64 \<Rightarrow> nat \<Rightarrow> u64 \<times> u64 \<times> nat" where
  "size_loop 0 whole remainder un = (whole, remainder, un)"
| "size_loop (Suc k) whole remainder un =
     (if whole \<ge> 1024 then size_loop k (whole div 1024) (whole mod 1024) (Suc un)
      else (whole, remainder, un))"

text \<open>The whole part, the decimal where one is printed, and the index of the unit.\<close>

definition printk_size :: "u64 \<Rightarrow> u64 \<times> u64 option \<times> nat" where
  "printk_size n =
     (case size_loop 5 n 0 0 of
        (whole, remainder, un) \<Rightarrow>
          if un = 0 then (whole, None, un)
          else
            let decimal = (remainder * 10 + 512) div 1024
            in if decimal = 10 then
                 (let whole1 = whole + 1
                  in if whole1 \<ge> 1024 \<and> un < 5 then (whole1 div 1024, Some 0, un + 1)
                     else (whole1, Some 0, un))
               else (whole, Some decimal, un))"

section \<open>Dumps\<close>

definition smkfs_dump_superblock :: "mount \<Rightarrow> status" where
  "smkfs_dump_superblock m = (if \<not> mounted m then ERR_INVAL else OK)"

definition smkfs_dump_record :: "mount \<Rightarrow> u64 \<Rightarrow> (status \<times> mount) option" where
  "smkfs_dump_record m record_id =
     (if \<not> mounted m then Some (ERR_INVAL, m)
      else bindO (Some (mrt_resolve m record_id)) (\<lambda>(phys_block, _, _) m1.
        bindO (otherX (Some (read_block m1 phys_block)) ERR_IO) (\<lambda>block m2.
          let rec = dec_smk_record block
          in if header_validate (r_header rec) SMKFS_ST_RECORD \<noteq> OK then Some (ERR_CORRUPT, m2)
             else map_option (\<lambda>_. (OK, m2)) (attr_walk (\<lambda>off ah u. u) (drop 56 block) 0 ()))))"

definition smkfs_dump_journal :: "mount \<Rightarrow> status \<times> mount" where
  "smkfs_dump_journal m =
     (if \<not> mounted m then (ERR_INVAL, m)
      else (OK, fold (\<lambda>i m. snd (read_block m (sb_journal_start (sb m) + of_nat i)))
                  [0..<unat (sb_journal_length (sb m))] m))"

text \<open>The calls that are still to come, in order, stand in the list of blocks.\<close>

partial_function (option) btree_dump_recursive :: "u64 list \<Rightarrow> mount \<Rightarrow> mount option" where
  "btree_dump_recursive blocks m =
     (case blocks of
        [] \<Rightarrow> Some m
      | block # todo \<Rightarrow>
          if block = 0 \<or> \<not> heap_ok m then btree_dump_recursive todo m
          else (case btree_load m block of
             (Inl e, m1) \<Rightarrow> btree_dump_recursive todo m1
           | (Inr n, m1) \<Rightarrow>
               if is_leaf n then btree_dump_recursive todo m1
               else btree_dump_recursive (map s_value (take (key_count n) (slots n)) @ todo) m1))"

definition smkfs_dump_btree :: "mount \<Rightarrow> u64 \<Rightarrow> (status \<times> mount) option" where
  "smkfs_dump_btree m root_block =
     (if \<not> mounted m then Some (ERR_INVAL, m)
      else map_option (\<lambda>m1. (OK, m1)) (btree_dump_recursive [root_block] m))"

definition smkfs_strerror :: "status \<Rightarrow> string" where
  "smkfs_strerror err =
     (case err of
        OK \<Rightarrow> ''OK''
      | ERR_IO \<Rightarrow> ''I/O error''
      | ERR_NOMEM \<Rightarrow> ''out of memory''
      | ERR_NOTFOUND \<Rightarrow> ''not found''
      | ERR_EXISTS \<Rightarrow> ''already exists''
      | ERR_NOSPC \<Rightarrow> ''no space left''
      | ERR_INVAL \<Rightarrow> ''invalid argument''
      | ERR_CORRUPT \<Rightarrow> ''filesystem corrupt''
      | ERR_NOTEMPTY \<Rightarrow> ''directory not empty''
      | ERR_ROFS \<Rightarrow> ''read-only filesystem''
      | ERR_JOURNAL \<Rightarrow> ''journal error''
      | ERR_TOO_BIG \<Rightarrow> ''too big''
      | ERR_NOT_YET_BOUND \<Rightarrow> ''MRT entry not yet bound'')"

end
