(* ===== verification/File.thy ===== *)
theory File
  imports Debug
begin

text \<open>
  \<^verbatim>\<open>fs/smkfs/file.c\<close>: byte ranges of a file's stream, truncation, holes, and the table of open
  files. The stream is cut into blocks; an extent of the record maps a run of them to the
  volume, and a block that no extent maps reads as zeros. \<^verbatim>\<open>SIZE_T\<close> has the 32 bits of the
  default build, offsets have 64. The result of \<open>smkfs_read\<close> is the bytes that it has put
  into the caller's buffer.
\<close>

section \<open>Blocks\<close>

definition block_read_byte :: "bytes \<Rightarrow> mount \<Rightarrow> u64 \<Rightarrow> u64 \<Rightarrow> nat \<Rightarrow> nat \<Rightarrow> ((status + bytes) \<times> mount) option" where
  "block_read_byte stk m record_id lblock offset len =
     (if \<not> heap_ok m then Some (Inl ERR_NOMEM, m)
      else if offset + len > SMKFS_BLOCK_SIZE then Some (Inl ERR_INVAL, m)
      else if len = 0 then Some (Inr [], m)
      else Option.bind (extent_resolve stk m record_id lblock) (\<lambda>(r, m1).
        case r of
          Inl _ \<Rightarrow> Some (Inr (replicate len 0), m1)
        | Inr ext \<Rightarrow>
            bindX (otherX (Some (read_block m1 (e_physical_block ext + (lblock - e_logical_offset ext)))) ERR_IO)
              (\<lambda>block m2. Some (Inr (slice offset len block), m2))))"

definition block_write_byte ::
  "bytes \<Rightarrow> mount \<Rightarrow> u64 \<Rightarrow> u64 \<Rightarrow> nat \<Rightarrow> bytes \<Rightarrow> (status \<times> mount) option" where
  "block_write_byte stk m record_id lblock offset src =
     (let put = (\<lambda>m phys block. Some (orS (write_block m phys (patch offset src block)) ERR_IO))
      in if \<not> heap_ok m then Some (ERR_NOMEM, m)
      else if offset + length src > SMKFS_BLOCK_SIZE then Some (ERR_INVAL, m)
      else if src = [] then Some (OK, m)
      else Option.bind (extent_resolve stk m record_id lblock) (\<lambda>(r, m1).
        case r of
          Inr ext \<Rightarrow>
            (let phys = e_physical_block ext + (lblock - e_logical_offset ext)
             in bindO (otherX (Some (read_block m1 phys)) ERR_IO) (\<lambda>block m2. put m2 phys block))
        | Inl _ \<Rightarrow>
            (case bitmap_alloc m1 of
               (phys, m2) \<Rightarrow>
                 if phys = 0 then Some (ERR_NOSPC, m2)
                 else Option.bind (extent_add m2 record_id lblock phys 1) (\<lambda>(st, m3).
                   if st \<noteq> OK then Some (ERR_NOSPC, snd (bitmap_clear m3 phys))
                   else put m3 phys (replicate SMKFS_BLOCK_SIZE 0)))))"

section \<open>Reading and writing a stream\<close>

text \<open>The part of the range from \<open>done1\<close> on that lies in one block: offset there, and length.\<close>

definition chunk_off :: "u64 \<Rightarrow> nat \<Rightarrow> nat" where
  "chunk_off offset done1 = unat ((offset + of_nat done1) mod 4096)"

definition chunk_len :: "u64 \<Rightarrow> nat \<Rightarrow> nat \<Rightarrow> nat" where
  "chunk_len offset len done1 = min (len - done1) (SMKFS_BLOCK_SIZE - chunk_off offset done1)"

lemma chunk_off_lt: "chunk_off offset d < 4096"
  using unsigned_less [of "(offset + of_nat d) mod 4096"] by (simp add: chunk_off_def unat_mod)

lemma chunk_len_pos: "d < len \<Longrightarrow> 0 < chunk_len offset len d"
  using chunk_off_lt [of offset d] by (simp add: chunk_len_def)

function read_loop ::
  "bytes \<Rightarrow> u64 \<Rightarrow> u64 \<Rightarrow> nat \<Rightarrow> nat \<Rightarrow> bytes \<Rightarrow> mount \<Rightarrow> ((status + bytes) \<times> mount) option" where
  "read_loop stk record_id offset to_read done1 out m =
     (if done1 \<ge> to_read then Some (Inr out, m)
      else
        let n = chunk_len offset to_read done1
        in bindX (block_read_byte stk m record_id ((offset + of_nat done1) div 4096) (chunk_off offset done1) n)
             (\<lambda>data. read_loop stk record_id offset to_read (done1 + n) (out @ data)))"
  by pat_completeness auto
termination
  by (relation "measure (\<lambda>(stk, record_id, offset, to_read, done1, out, m). to_read - done1)")
    (auto intro!: diff_less_mono2 simp: chunk_len_pos)

declare read_loop.simps [simp del]

text \<open>The FSIZE attribute, 0 where there is none.\<close>

definition stored_size :: "bytes \<Rightarrow> u64 option" where
  "stored_size attr_buf =
     map_option (\<lambda>r. case r of Inl _ \<Rightarrow> 0 | Inr n \<Rightarrow> n) (attr_u64 attr_buf SMKFS_ATTRT_FSIZE)"

definition smkfs_read ::
  "bytes \<Rightarrow> mount \<Rightarrow> u64 \<Rightarrow> u64 \<Rightarrow> u32 \<Rightarrow> bool \<Rightarrow> ((status + bytes) \<times> mount) option" where
  "smkfs_read stk m record_id offset len buf =
     (if \<not> mounted m \<or> \<not> buf \<or> record_id = 0 then Some (Inl ERR_INVAL, m)
      else bindX (otherX (Some (record_read m record_id (take ATTR_SPACE stk))) ERR_IO) (\<lambda>(rec, attr_buf) m1.
        if r_object_type rec \<noteq> SMKFS_ROT_FILE then Some (Inl ERR_INVAL, m1)
        else Option.bind (stored_size attr_buf) (\<lambda>file_size.
          if offset \<ge> file_size then Some (Inr [], m1)
          else
            let to_read = (if offset + ucast len > file_size then ucast (file_size - offset) else len)
            in read_loop stk record_id offset (unat to_read) 0 [] m1)))"

function write_loop ::
  "bytes \<Rightarrow> u64 \<Rightarrow> u64 \<Rightarrow> bytes \<Rightarrow> nat \<Rightarrow> nat \<Rightarrow> mount \<Rightarrow> (status \<times> mount) option" where
  "write_loop stk record_id offset src len done1 m =
     (if done1 \<ge> len then Some (OK, m)
      else
        let n = chunk_len offset len done1
        in orAbort (block_write_byte stk m record_id ((offset + of_nat done1) div 4096) (chunk_off offset done1)
                      (slice done1 n src)) (\<lambda>e. e)
             (write_loop stk record_id offset src len (done1 + n)))"
  by pat_completeness auto
termination
  by (relation "measure (\<lambda>(stk, record_id, offset, src, len, done1, m). len - done1)")
    (auto intro!: diff_less_mono2 simp: chunk_len_pos)

declare write_loop.simps [simp del]

text \<open>
  The size is stored last; where the attribute does not fit, the transaction is committed all
  the same. A source buffer shorter than \<open>len\<close> would be read behind its end.
\<close>

definition write_size :: "bytes \<Rightarrow> mount \<Rightarrow> u64 \<Rightarrow> u64 \<Rightarrow> (mount \<Rightarrow> (status \<times> mount) option) \<Rightarrow> (status \<times> mount) option" where
  "write_size stk m record_id new_size f =
     bindAbort (Some (record_read m record_id (take ATTR_SPACE stk))) (\<lambda>_. ERR_IO) (\<lambda>(final_rec, final_attr) m1.
       Option.bind (record_add_attr final_attr ATTR_SPACE SMKFS_ATTRT_FSIZE (Some (le_bytes 8 new_size)) 8) (\<lambda>(st, final_attr1).
         if st = OK
         then orAbort (record_write m1 record_id (final_rec\<lparr> r_attr_count := r_attr_count final_rec + 1 \<rparr>) final_attr1)
                (\<lambda>_. ERR_IO) f
         else f m1))"

definition smkfs_write ::
  "bytes \<Rightarrow> mount \<Rightarrow> u64 \<Rightarrow> u64 \<Rightarrow> u32 \<Rightarrow> bytes option \<Rightarrow> ((status + u32) \<times> mount) option" where
  "smkfs_write stk m record_id offset len buf =
     (case buf of
        None \<Rightarrow> Some (Inl ERR_INVAL, m)
      | Some src \<Rightarrow>
          if \<not> mounted m \<or> record_id = 0 then Some (Inl ERR_INVAL, m)
          else if length src < unat len then None
          else bindX (otherX (Some (record_read m record_id (take ATTR_SPACE stk))) ERR_IO) (\<lambda>(rec, attr_buf) m1.
            if r_object_type rec \<noteq> SMKFS_ROT_FILE then Some (Inl ERR_INVAL, m1)
            else Option.bind (stored_size attr_buf) (\<lambda>file_size.
              let new_size = (if offset + ucast len < file_size then file_size else offset + ucast len)
              in thenX (begin_tx m1 (\<lambda>m2.
                   thenO (write_loop stk record_id offset src (unat len) 0 m2) (\<lambda>m3.
                     if new_size \<noteq> file_size then write_size stk m3 record_id new_size commit_tx
                     else commit_tx m3))) (\<lambda>m4. Some (Inr len, m4)))))"

section \<open>Truncation\<close>

definition truncate_collect_cb :: "u32 \<Rightarrow> bytes \<Rightarrow> nat \<Rightarrow> extent list \<Rightarrow> int \<times> extent list" where
  "truncate_collect_cb attr_id data len c =
     (if len \<noteq> 20 then (0, c) else if length c \<ge> 32 then (0, c) else (0, c @ [dec_extent data]))"

text \<open>The loop that strips the extents from the buffer.\<close>

partial_function (option) strip_extents :: "bytes \<Rightarrow> bytes option" where
  "strip_extents attr_buf =
     (case record_find_attr attr_buf SMKFS_ATTRT_EXTENTS of
        None \<Rightarrow> None
      | Some (Inl _) \<Rightarrow> Some attr_buf
      | Some (Inr _) \<Rightarrow> Option.bind (record_remove_attr attr_buf SMKFS_ATTRT_EXTENTS) strip_extents)"

definition add_extent_attr :: "bytes \<Rightarrow> extent \<Rightarrow> (status \<times> bytes) option" where
  "add_extent_attr attr_buf e = record_add_attr attr_buf ATTR_SPACE SMKFS_ATTRT_EXTENTS (Some (enc_extent e)) 20"

text \<open>An extent is put back, then the rest follows; a full buffer aborts.\<close>

definition keep_extent ::
  "extent \<Rightarrow> bytes \<Rightarrow> mount \<Rightarrow> (bytes \<Rightarrow> mount \<Rightarrow> ((status + bytes) \<times> mount) option) \<Rightarrow> ((status + bytes) \<times> mount) option" where
  "keep_extent e attr_buf m f =
     Option.bind (add_extent_attr attr_buf e) (\<lambda>(st, b).
       if st \<noteq> OK then Some (Inl ERR_NOSPC, snd (journal_abort m)) else f b m)"

definition e_end :: "extent \<Rightarrow> u64" where
  "e_end e = e_logical_offset e + ucast (e_block_count e)"

fun truncate_extents :: "u64 \<Rightarrow> extent list \<Rightarrow> bytes \<Rightarrow> mount \<Rightarrow> ((status + bytes) \<times> mount) option" where
  "truncate_extents new_blocks [] attr_buf m = Some (Inr attr_buf, m)"
| "truncate_extents new_blocks (e # es) attr_buf m =
     (if e_logical_offset e \<ge> new_blocks
      then truncate_extents new_blocks es attr_buf
             (snd (bitmap_free_range m (e_physical_block e) (e_block_count e)))
      else if e_end e > new_blocks then
        (let keep = new_blocks - e_logical_offset e
         in keep_extent (e\<lparr> e_block_count := ucast keep \<rparr>) attr_buf
              (snd (bitmap_free_range m (e_physical_block e + keep) (e_block_count e - ucast keep)))
              (truncate_extents new_blocks es))
      else keep_extent e attr_buf m (truncate_extents new_blocks es))"

definition truncate_body ::
  "bytes \<Rightarrow> u64 \<Rightarrow> u64 \<Rightarrow> mount \<Rightarrow> ((status + bytes) \<times> mount) option" where
  "truncate_body attr_buf old_size new_size m =
     (let old_blocks = (old_size + 4096 - 1) div 4096;
          new_blocks = (new_size + 4096 - 1) div 4096
      in if new_size < old_size \<and> new_blocks < old_blocks
         then Option.bind (record_iterate_attr attr_buf SMKFS_ATTRT_EXTENTS truncate_collect_cb []) (\<lambda>(_, exts).
              Option.bind (strip_extents attr_buf) (\<lambda>b. truncate_extents new_blocks exts b m))
         else Some (Inr attr_buf, m))"

definition smkfs_truncate :: "bytes \<Rightarrow> mount \<Rightarrow> u64 \<Rightarrow> u64 \<Rightarrow> (status \<times> mount) option" where
  "smkfs_truncate stk m record_id new_size =
     (if \<not> mounted m \<or> record_id = 0 then Some (ERR_INVAL, m)
      else bindO (otherX (Some (record_read m record_id (take ATTR_SPACE stk))) ERR_IO) (\<lambda>(rec, attr_buf) m1.
        if r_object_type rec \<noteq> SMKFS_ROT_FILE then Some (ERR_INVAL, m1)
        else Option.bind (stored_size attr_buf) (\<lambda>old_size.
          if new_size = old_size then Some (OK, m1)
          else begin_tx m1 (\<lambda>m2.
            bindO (truncate_body attr_buf old_size new_size m2) (\<lambda>b m3.
              Option.bind (record_remove_attr b SMKFS_ATTRT_FSIZE) (\<lambda>b1.
              Option.bind (record_add_attr b1 ATTR_SPACE SMKFS_ATTRT_FSIZE (Some (le_bytes 8 new_size)) 8) (\<lambda>(st, b2).
                orAbort (Some (st, m3)) (\<lambda>_. ERR_NOSPC) (\<lambda>m4.
                  Option.bind (with_length rec b2) (\<lambda>rec1.
                    orAbort (record_write m4 record_id rec1 b2) (\<lambda>e. e) commit_tx)))))))))"

section \<open>Holes\<close>

definition punc_collect_cb :: "u32 \<Rightarrow> bytes \<Rightarrow> nat \<Rightarrow> extent list \<Rightarrow> int \<times> extent list" where
  "punc_collect_cb attr_id data len c =
     (if len \<noteq> 20 then (0, c) else if length c \<ge> 32 then (0, c) else (0, c @ [dec_extent data]))"

text \<open>
  One extent against the hole: kept, dropped, cut in two, cut at its tail or at its head; the
  sixth alternative of the code, none of the five, does nothing.
\<close>

fun punch_extents :: "u64 \<Rightarrow> u64 \<Rightarrow> extent list \<Rightarrow> bytes \<Rightarrow> mount \<Rightarrow> ((status + bytes) \<times> mount) option" where
  "punch_extents hole_start hole_end [] attr_buf m = Some (Inr attr_buf, m)"
| "punch_extents hole_start hole_end (e # es) attr_buf m =
     (let ext_start = e_logical_offset e;
          ext_end = e_end e;
          rest = punch_extents hole_start hole_end es
      in if ext_end \<le> hole_start \<or> ext_start \<ge> hole_end then keep_extent e attr_buf m rest
         else if ext_start \<ge> hole_start \<and> ext_end \<le> hole_end
         then rest attr_buf (snd (bitmap_free_range m (e_physical_block e) (e_block_count e)))
         else if ext_start < hole_start \<and> ext_end > hole_end then
           (let left_cnt = hole_start - ext_start;
                hole_cnt = hole_end - hole_start;
                right_cnt = ext_end - hole_end
            in keep_extent (e\<lparr> e_block_count := ucast left_cnt \<rparr>) attr_buf m (\<lambda>b m1.
                 keep_extent \<lparr> e_logical_offset = hole_end,
                               e_physical_block = e_physical_block e + left_cnt + hole_cnt,
                               e_block_count = ucast right_cnt \<rparr> b
                   (snd (bitmap_free_range m1 (e_physical_block e + left_cnt) (ucast hole_cnt))) rest))
         else if ext_start < hole_start \<and> ext_end \<le> hole_end then
           (let keep_cnt = hole_start - ext_start;
                free_cnt = ext_end - hole_start
            in keep_extent (e\<lparr> e_block_count := ucast keep_cnt \<rparr>) attr_buf m (\<lambda>b m1.
                 rest b (snd (bitmap_free_range m1 (e_physical_block e + keep_cnt) (ucast free_cnt)))))
         else if ext_start \<ge> hole_start \<and> ext_end > hole_end then
           (let free_cnt = hole_end - ext_start;
                keep_cnt = ext_end - hole_end
            in keep_extent \<lparr> e_logical_offset = hole_end, e_physical_block = e_physical_block e + free_cnt,
                             e_block_count = ucast keep_cnt \<rparr> attr_buf
                 (snd (bitmap_free_range m (e_physical_block e) (ucast free_cnt))) rest)
         else rest attr_buf m)"

definition smkfs_punc_hole :: "bytes \<Rightarrow> mount \<Rightarrow> u64 \<Rightarrow> u64 \<Rightarrow> u32 \<Rightarrow> (status \<times> mount) option" where
  "smkfs_punc_hole stk m record_id offset len =
     (if \<not> mounted m \<or> record_id = 0 \<or> len = 0 then Some (ERR_INVAL, m)
      else bindO (otherX (Some (record_read m record_id (take ATTR_SPACE stk))) ERR_IO) (\<lambda>(rec, attr_buf) m1.
        if r_object_type rec \<noteq> SMKFS_ROT_FILE then Some (ERR_INVAL, m1)
        else Option.bind (stored_size attr_buf) (\<lambda>file_size.
          if offset \<ge> file_size then Some (OK, m1)
          else
            let len1 = (if offset + ucast len > file_size then ucast (file_size - offset) else len);
                hole_start = offset div 4096;
                hole_end = (offset + ucast len1 + 4096 - 1) div 4096
            in begin_tx m1 (\<lambda>m2.
                 Option.bind (record_iterate_attr attr_buf SMKFS_ATTRT_EXTENTS punc_collect_cb []) (\<lambda>(_, exts).
                 Option.bind (strip_extents attr_buf) (\<lambda>b.
                   bindO (punch_extents hole_start hole_end exts b m2) (\<lambda>b1 m3.
                     Option.bind (with_length rec b1) (\<lambda>rec1.
                       orAbort (record_write m3 record_id rec1 b1) (\<lambda>e. e) commit_tx))))))))"

end
