(* ===== verification/Files.thy ===== *)
theory Files
  imports File
begin

text \<open>
  The second half of \<^verbatim>\<open>fs/smkfs/file.c\<close>: the operations on paths and the 16 file descriptors
  of a mount. The results of the descriptor operations are 32-bit \<^verbatim>\<open>LONG\<close>s, negative for an
  error.
\<close>

section \<open>Files and directories by path\<close>

definition set_permissions :: "bytes \<Rightarrow> mount \<Rightarrow> u64 \<Rightarrow> u16 \<Rightarrow> (status \<times> mount) option" where
  "set_permissions stk m record_id permissions =
     begin_tx m (\<lambda>m1.
       bindAbort (Some (record_read m1 record_id (take ATTR_SPACE stk))) (\<lambda>_. ERR_IO) (\<lambda>(rec, attr_buf) m2.
         Option.bind (record_add_attr attr_buf ATTR_SPACE SMKFS_ATTRT_PERMISSIONS (Some (le_bytes 2 permissions)) 2) (\<lambda>(st, attr_buf1).
           orAbort (Some (st, m2)) (\<lambda>_. ERR_NOSPC) (\<lambda>m3.
             Option.bind (with_length (rec\<lparr> r_attr_count := r_attr_count rec + 1 \<rparr>) attr_buf1) (\<lambda>rec1.
               orAbort (record_write m3 record_id rec1 attr_buf1) (\<lambda>e. e) commit_tx)))))"

definition smkfs_create_file :: "bytes \<Rightarrow> mount \<Rightarrow> bytes \<Rightarrow> u16 \<Rightarrow> (status \<times> mount) option" where
  "smkfs_create_file stk m path permissions =
     (if \<not> mounted m \<or> path_validate path \<noteq> OK then Some (ERR_INVAL, m)
      else bindO (otherX (path_split stk m path) ERR_NOTFOUND) (\<lambda>(parent, name) m1.
        bindO (otherX (smkfs_create_record stk m1 SMKFS_ROT_FILE parent name) ERR_NOSPC) (\<lambda>record_id m2.
          set_permissions stk m2 record_id permissions)))"

definition smkfs_delete_file :: "bytes \<Rightarrow> mount \<Rightarrow> bytes \<Rightarrow> (status \<times> mount) option" where
  "smkfs_delete_file stk m path =
     (if \<not> mounted m \<or> path_validate path \<noteq> OK then Some (ERR_INVAL, m)
      else bindO (otherX (path_lookup stk m path) ERR_NOTFOUND) (\<lambda>record_id m1.
        bindO (otherX (path_split stk m1 path) ERR_INVAL) (\<lambda>(parent_id, name) m2.
          smkfs_delete_record stk m2 parent_id name record_id)))"

definition smkfs_mkdir :: "bytes \<Rightarrow> mount \<Rightarrow> bytes \<Rightarrow> (status \<times> mount) option" where
  "smkfs_mkdir stk m path =
     (if \<not> mounted m \<or> path_validate path \<noteq> OK then Some (ERR_INVAL, m)
      else bindO (otherX (path_split stk m path) ERR_NOTFOUND) (\<lambda>(parent, name) m1.
        bindO (smkfs_create_record stk m1 SMKFS_ROT_DIR parent name) (\<lambda>_ m2. Some (OK, m2))))"

definition smkfs_rmdir :: "bytes \<Rightarrow> mount \<Rightarrow> bytes \<Rightarrow> (status \<times> mount) option" where
  "smkfs_rmdir stk m path =
     (if \<not> mounted m \<or> path_validate path \<noteq> OK then Some (ERR_INVAL, m)
      else bindO (otherX (path_lookup stk m path) ERR_NOTFOUND) (\<lambda>record_id m1.
        bindO (otherX (path_split stk m1 path) ERR_INVAL) (\<lambda>(parent_id, name) m2.
          smkfs_delete_record stk m2 parent_id name record_id)))"

section \<open>File descriptors\<close>

abbreviation (input) SMKFS_O_CREATE :: u32 where "SMKFS_O_CREATE \<equiv> 4"
abbreviation (input) SMKFS_O_APPEND :: u32 where "SMKFS_O_APPEND \<equiv> 16"

definition valid_fd :: "mount \<Rightarrow> int \<Rightarrow> bool" where
  "valid_fd m fd \<longleftrightarrow> 0 \<le> fd \<and> fd < int SMKFS_FD_MAX \<and> fd_used (fd_table m ! nat fd)"

definition set_fd :: "nat \<Rightarrow> fd \<Rightarrow> mount \<Rightarrow> mount" where
  "set_fd i d m = m\<lparr> fd_table := (fd_table m)[i := d] \<rparr>"

text \<open>The size of the file, 0 where its record or the attribute cannot be read.\<close>

definition fd_size :: "bytes \<Rightarrow> mount \<Rightarrow> u64 \<Rightarrow> (u64 \<times> mount) option" where
  "fd_size stk m record_id =
     (case record_read m record_id (take ATTR_SPACE stk) of
        (Inl _, m1) \<Rightarrow> Some (0, m1)
      | (Inr (rec, attr_buf), m1) \<Rightarrow> map_option (\<lambda>n. (n, m1)) (stored_size attr_buf))"

definition open_record :: "bytes \<Rightarrow> mount \<Rightarrow> bytes \<Rightarrow> u32 \<Rightarrow> ((status + u64) \<times> mount) option" where
  "open_record stk m path fl =
     Option.bind (path_lookup stk m path) (\<lambda>(r, m1).
       case r of
         Inr record_id \<Rightarrow> Some (Inr record_id, m1)
       | Inl _ \<Rightarrow>
           if fl AND SMKFS_O_CREATE \<noteq> 0
           then thenX (otherO (smkfs_create_file stk m1 path 0x0180) ERR_NOSPC) (\<lambda>m2.
                  otherX (path_lookup stk m2 path) ERR_NOTFOUND)
           else Some (Inl ERR_NOTFOUND, m1))"

definition smkfs_open :: "bytes \<Rightarrow> mount \<Rightarrow> bytes \<Rightarrow> u32 \<Rightarrow> (int \<times> mount) option" where
  "smkfs_open stk m path fl =
     (if \<not> mounted m \<or> path_validate path \<noteq> OK then Some (status_code ERR_INVAL, m)
      else Option.bind (open_record stk m path fl) (\<lambda>(r, m1).
        case r of
          Inl e \<Rightarrow> Some (status_code e, m1)
        | Inr record_id \<Rightarrow>
            alwaysO (smkfs_dump_record m1 record_id) (\<lambda>m2.
              case find_idx (\<lambda>d. \<not> fd_used d) (fd_table m2) of
                None \<Rightarrow> Some (status_code ERR_NOSPC, m2)
              | Some i \<Rightarrow>
                  let d = \<lparr> fd_used = True, fd_record_id = record_id, fd_offset = 0, fd_flags = fl \<rparr>;
                      m3 = set_fd i d m2
                  in if fl AND SMKFS_O_APPEND \<noteq> 0
                     then map_option (\<lambda>(n, m4). (int i, set_fd i (d\<lparr> fd_offset := n \<rparr>) m4))
                            (fd_size stk m3 record_id)
                     else Some (int i, m3))))"

definition smkfs_close :: "mount \<Rightarrow> int \<Rightarrow> status \<times> mount" where
  "smkfs_close m fd =
     (if \<not> valid_fd m fd then (ERR_INVAL, m)
      else (OK, set_fd (nat fd) \<lparr> fd_used = False, fd_record_id = 0, fd_offset = 0, fd_flags = 0 \<rparr> m))"

text \<open>The offset moves by the result where that is positive.\<close>

definition advance_fd :: "nat \<Rightarrow> int \<Rightarrow> mount \<Rightarrow> mount" where
  "advance_fd i ret m =
     (if ret > 0
      then set_fd i ((fd_table m ! i)\<lparr> fd_offset := fd_offset (fd_table m ! i) + of_int ret \<rparr>) m
      else m)"

definition smkfs_read_file :: "bytes \<Rightarrow> mount \<Rightarrow> int \<Rightarrow> bool \<Rightarrow> u32 \<Rightarrow> (int \<times> bytes \<times> mount) option" where
  "smkfs_read_file stk m fd buf len =
     (if \<not> valid_fd m fd \<or> \<not> buf then Some (status_code ERR_INVAL, [], m)
      else
        let d = fd_table m ! nat fd
        in map_option (\<lambda>(r, m1).
             case r of
               Inl e \<Rightarrow> (status_code e, [], m1)
             | Inr out \<Rightarrow>
                 let ret = sint (of_nat (length out) :: u32)
                 in (ret, out, advance_fd (nat fd) ret m1))
             (smkfs_read stk m (fd_record_id d) (fd_offset d) len buf))"

definition smkfs_write_file :: "bytes \<Rightarrow> mount \<Rightarrow> int \<Rightarrow> bytes option \<Rightarrow> u32 \<Rightarrow> (int \<times> mount) option" where
  "smkfs_write_file stk m fd buf len =
     (if \<not> valid_fd m fd \<or> buf = None then Some (status_code ERR_INVAL, m)
      else
        let d = fd_table m ! nat fd
        in map_option (\<lambda>(r, m1).
             case r of
               Inl e \<Rightarrow> (status_code e, m1)
             | Inr n \<Rightarrow> (sint n, advance_fd (nat fd) (sint n) m1))
             (smkfs_write stk m (fd_record_id d) (fd_offset d) len buf))"

text \<open>The sum of two \<^verbatim>\<open>LONGLONG\<close>s; C leaves its overflow undefined.\<close>

definition add_ll :: "u64 \<Rightarrow> u64 \<Rightarrow> u64 option" where
  "add_ll a b = (let s = sint a + sint b in if - (2 ^ 63) \<le> s \<and> s < 2 ^ 63 then Some (of_int s) else None)"

definition seek_base :: "bytes \<Rightarrow> mount \<Rightarrow> fd \<Rightarrow> int \<Rightarrow> ((status + u64) \<times> mount) option" where
  "seek_base stk m d whence =
     (if whence = 2 then map_option (\<lambda>(n, m1). (Inr n, m1)) (fd_size stk m (fd_record_id d))
      else if whence = 1 then Some (Inr (fd_offset d), m)
      else if whence = 0 then Some (Inr 0, m)
      else Some (Inl ERR_INVAL, m))"

definition smkfs_seek :: "bytes \<Rightarrow> mount \<Rightarrow> int \<Rightarrow> u64 \<Rightarrow> int \<Rightarrow> (int \<times> mount) option" where
  "smkfs_seek stk m fd offset whence =
     (if \<not> valid_fd m fd then Some (status_code ERR_INVAL, m)
      else
        let i = nat fd; d = fd_table m ! i
        in Option.bind (seek_base stk m d whence) (\<lambda>(r, m1).
             case r of
               Inl e \<Rightarrow> Some (status_code e, m1)
             | Inr base \<Rightarrow>
                 map_option (\<lambda>new_offset.
                   if sint new_offset < 0 then (status_code ERR_INVAL, m1)
                   else (sint (ucast new_offset :: u32), set_fd i (d\<lparr> fd_offset := new_offset \<rparr>) m1))
                   (add_ll base offset)))"

definition smkfs_ftruncate :: "bytes \<Rightarrow> mount \<Rightarrow> int \<Rightarrow> u64 \<Rightarrow> (status \<times> mount) option" where
  "smkfs_ftruncate stk m fd new_size =
     (if \<not> valid_fd m fd then Some (ERR_INVAL, m)
      else smkfs_truncate stk m (fd_record_id (fd_table m ! nat fd)) new_size)"

end
