(* ===== verification/Super.thy ===== *)
theory Super
  imports Files
begin

text \<open>
  \<^verbatim>\<open>fs/smkfs/super.c\<close>: mounting, unmounting, formatting and checking a volume. \<open>smkfs_mkfs\<close>
  and \<open>smkfs_fsck\<close> work on a mount context of their own, so that what remains of them is the
  drive. \<open>heap\<close> says whether the kernel heap serves them.
\<close>

definition shut_down :: "mount \<Rightarrow> mount" where
  "shut_down m = block_cache_shutdown (bitmap_shutdown m)"

section \<open>Mounting\<close>

text \<open>What the mount prints about the root directory, by its reads.\<close>

definition dump_root :: "bytes \<Rightarrow> mount \<Rightarrow> mount option" where
  "dump_root junk m =
     (if \<not> heap_ok m then Some m
      else case record_read m (sb_root_record_id (sb m)) (take ATTR_SPACE junk) of
        (Inl _, m1) \<Rightarrow> Some m1
      | (Inr (root_rec, root_attr), m1) \<Rightarrow>
          Option.bind (attr_u64 root_attr SMKFS_ATTRT_DATA) (\<lambda>r.
            case r of
              Inl _ \<Rightarrow> Some m1
            | Inr root_block \<Rightarrow> map_option snd (smkfs_dump_btree m1 root_block)))"

text \<open>Without a cache the first read would follow a NULL pointer.\<close>

definition smkfs_mount :: "bytes \<Rightarrow> u8 \<Rightarrow> mount \<Rightarrow> (status \<times> mount) option" where
  "smkfs_mount stk drive mnt =
     (if mounted mnt then Some (ERR_INVAL, mnt)
      else
        let m = block_cache_init (mnt\<lparr> drive_num := drive, sb := (sb mnt)\<lparr> sb_sector_size := 512 \<rparr> \<rparr>)
        in if block_cache m = [] then None
           else case read_block m 0 of
             (Inl _, m1) \<Rightarrow> Some (ERR_IO, shut_down m1)
           | (Inr block, m1) \<Rightarrow>
               let s = dec_superblock block;
                   m2 = m1\<lparr> sb := s \<rparr>
               in if header_validate (sb_header s) SMKFS_ST_SUPERBLOCK \<noteq> OK then Some (ERR_CORRUPT, shut_down m2)
                  else if header_checksum_verify (sb_header s) block (unat (h_length (sb_header s))) \<noteq> OK
                  then Some (ERR_CORRUPT, shut_down m2)
                  else thenO (journal_replay stk m2) (\<lambda>m3.
                    case bitmap_init_regions m3 of
                      (st, m4) \<Rightarrow>
                        if st \<noteq> OK then Some (ERR_NOMEM, shut_down m4)
                        else
                          let m5 = m4\<lparr> sb := (sb m4)\<lparr> sb_mount_count := sb_mount_count (sb m4) + 1,
                                                       sb_last_mount_time := 0,
                                                       sb_flags := sb_flags (sb m4) AND NOT SMKFS_SBF_CLEAN \<rparr>,
                                        mounted := True \<rparr>
                          in map_option (\<lambda>m6. (OK, m6)) (dump_root stk m5)))"

definition smkfs_unmount :: "mount \<Rightarrow> status \<times> mount" where
  "smkfs_unmount m =
     (if \<not> mounted m then (ERR_INVAL, m)
      else
        let m1 = snd (journal_checkpoint m);
            m2 = m1\<lparr> sb := (sb m1)\<lparr> sb_mount_count := sb_mount_count (sb m1) - 1,
                                     sb_flags := sb_flags (sb m1) OR SMKFS_SBF_CLEAN,
                                     sb_last_mount_time := 0 \<rparr> \<rparr>
        in case write_block m2 0 (superblock_block (sb m2)) of
             (st, m3) \<Rightarrow>
               if st \<noteq> OK then (ERR_IO, shut_down (m3\<lparr> mounted := False \<rparr>))
               else (OK, (shut_down (snd (block_cache_flush m3)))\<lparr> mounted := False \<rparr>))"

definition smkfs_sync :: "mount \<Rightarrow> status \<times> mount" where
  "smkfs_sync m = (if \<not> mounted m then (ERR_INVAL, m) else orS (journal_checkpoint m) ERR_IO)"

section \<open>Checking\<close>

text \<open>The context that \<^verbatim>\<open>memset\<close> and \<open>block_cache_init\<close> make.\<close>

definition zero_mount :: "u8 \<Rightarrow> bool \<Rightarrow> drive \<Rightarrow> mount" where
  "zero_mount dn heap d =
     \<lparr> drive_num = dn, mounted = False, sb = dec_superblock (replicate 320 0), journal_next_sequence = 0,
       journal_in_transaction = False, journal_write_pos = 0,
       fd_table = replicate SMKFS_FD_MAX \<lparr> fd_used = False, fd_record_id = 0, fd_offset = 0, fd_flags = 0 \<rparr>,
       regions = None, region_count = 0, alloc_hint_region = 0, block_cache = [], drv = d, heap_ok = heap \<rparr>"

definition drop_mount :: "status \<times> mount \<Rightarrow> status \<times> drive" where
  "drop_mount r = (fst r, drv (block_cache_shutdown (snd r)))"

text \<open>
  The checks after the header: the number of errors found and the superblock to store. A record
  table that does not resolve the root ends the check.
\<close>

definition fsck_root :: "superblock \<Rightarrow> nat \<Rightarrow> mount \<Rightarrow> status \<times> mount" where
  "fsck_root check_sb errors m =
     bindS (mrt_resolve m (sb_root_record_id check_sb)) (\<lambda>(phys_block, _, _) m1.
       case bitmap_test m1 phys_block of
         (r, m2) \<Rightarrow>
           let errors1 = (if r \<noteq> Inr True then errors + 1 else errors)
           in if errors1 > 0 then (ERR_CORRUPT, snd (write_block m2 0 (superblock_block check_sb)))
              else (OK, m2))"

definition fsck_body :: "mount \<Rightarrow> status \<times> mount" where
  "fsck_body m =
     bindS (orE (read_block m 0) ERR_IO) (\<lambda>block m1.
       let check_sb = dec_superblock block;
           m2 = m1\<lparr> sb := check_sb \<rparr>
       in if header_validate (sb_header check_sb) SMKFS_ST_SUPERBLOCK \<noteq> OK then (ERR_CORRUPT, m2)
          else
            let e1 = (if header_checksum_verify (sb_header check_sb) block (unat (h_length (sb_header check_sb))) \<noteq> OK
                      then 1 else 0)
            in if sb_total_blocks check_sb = 0 \<or> sb_data_start check_sb \<ge> sb_total_blocks check_sb
               then (ERR_CORRUPT, m2)
               else if sb_free_blocks check_sb > sb_total_blocks check_sb - sb_data_start check_sb
               then fsck_root (check_sb\<lparr> sb_free_blocks := sb_total_blocks check_sb - sb_data_start check_sb \<rparr>) (e1 + 1) m2
               else fsck_root check_sb e1 m2)"

definition smkfs_fsck :: "u8 \<Rightarrow> bool \<Rightarrow> drive \<Rightarrow> status \<times> drive" where
  "smkfs_fsck dn heap d =
     (if \<not> heap then (ERR_NOMEM, d)
      else
        let m = zero_mount dn heap d
        in drop_mount (fsck_body (block_cache_init (m\<lparr> sb := (sb m)\<lparr> sb_sector_size := 512 \<rparr> \<rparr>))))"

section \<open>Formatting\<close>

text \<open>The lengths of bitmap, journal and record table for a number of blocks.\<close>

definition mkfs_bitmap_blocks :: "u64 \<Rightarrow> u64" where
  "mkfs_bitmap_blocks total_blocks = max 1 ((total_blocks + 4096 * 8 - 1) div (4096 * 8))"

definition mkfs_journal_blocks :: "u64 \<Rightarrow> u64" where
  "mkfs_journal_blocks total_blocks =
     (let bitmap_blocks = mkfs_bitmap_blocks total_blocks;
          j0 = total_blocks div 64 + 8;
          j1 = (if j0 \<ge> total_blocks - 1 - bitmap_blocks then total_blocks - 1 - bitmap_blocks - 1 else j0)
      in if j1 < 8 then 8 else j1)"

definition mkfs_mrt_blocks :: "u64 \<Rightarrow> u64" where
  "mkfs_mrt_blocks total_blocks = max 1 ((total_blocks + 256 - 1) div 256)"

definition mkfs_sb :: "u64 \<Rightarrow> u64 \<Rightarrow> superblock \<Rightarrow> superblock" where
  "mkfs_sb total_blocks sector_size s =
     (let bitmap_blocks = mkfs_bitmap_blocks total_blocks;
          journal_blocks = mkfs_journal_blocks total_blocks;
          mrt_blocks = mkfs_mrt_blocks total_blocks
      in s\<lparr> sb_header := header_init (sb_header s) SMKFS_ST_SUPERBLOCK 320 0,
            sb_total_blocks := total_blocks,
            sb_free_blocks := total_blocks - 1 - bitmap_blocks - journal_blocks - mrt_blocks,
            sb_sector_size := sector_size,
            sb_record_count := 0, sb_next_record_id := 1, sb_root_record_id := 0,
            sb_journal_start := 1, sb_journal_length := journal_blocks,
            sb_journal_head := 0, sb_journal_tail := 0, sb_journal_sequence := 1,
            sb_bitmap_start := 1 + journal_blocks, sb_bitmap_length := bitmap_blocks,
            sb_alloc_meta_start := 0, sb_alloc_meta_length := 0,
            sb_data_start := 1 + bitmap_blocks + journal_blocks + mrt_blocks,
            sb_block_size := 4096, sb_flags := SMKFS_SBF_CLEAN,
            sb_uuid := replicate 16 0, sb_volume_name := replicate 64 0,
            sb_creation_time := 0, sb_last_mount_time := 0, sb_mount_count := 0, sb_max_mount_count := 0 \<rparr>)"

fun zero_blocks :: "u64 \<Rightarrow> nat list \<Rightarrow> mount \<Rightarrow> status \<times> mount" where
  "zero_blocks start [] m = (OK, m)"
| "zero_blocks start (i # is) m =
     thenS (orS (write_block m (start + of_nat i) (replicate SMKFS_BLOCK_SIZE 0)) ERR_IO) (zero_blocks start is)"

text \<open>The empty root node: leaf and root in the flags of its header and of the node.\<close>

definition mkfs_root_node :: bytes where
  "mkfs_root_node =
     (let n = dec_node (replicate SMKFS_BLOCK_SIZE 0);
          fl = SMKFS_BTN_LEAF OR SMKFS_BTN_ROOT
      in header_checksum_update
           (enc_node (n\<lparr> nh := \<lparr> n_header = header_init (n_header (nh n)) SMKFS_ST_BTREE_NODE 56 fl,
                                 n_parent_block = 0, n_flags = fl, n_key_count = 0,
                                 n_right_sibling = 0 \<rparr> \<rparr>)) 56)"

definition mkfs_root_dir :: "bytes \<Rightarrow> mount \<Rightarrow> u64 \<Rightarrow> u64 \<Rightarrow> (mount \<Rightarrow> (status \<times> mount) option) \<Rightarrow> (status \<times> mount) option" where
  "mkfs_root_dir stk m root_id btree_root f =
     bindAbort (Some (record_read m root_id (take ATTR_SPACE stk))) (\<lambda>_. ERR_IO) (\<lambda>(root_rec, attr_buf) m1.
       Option.bind (record_add_attr attr_buf ATTR_SPACE SMKFS_ATTRT_DATA (Some (le_bytes 8 btree_root)) 8) (\<lambda>(st, attr_buf1).
         orAbort (Some (st, m1)) (\<lambda>_. ERR_NOSPC) (\<lambda>m2.
           Option.bind (with_length (root_rec\<lparr> r_attr_count := r_attr_count root_rec + 1 \<rparr>) attr_buf1) (\<lambda>root_rec1.
             orAbort (record_write m2 root_id root_rec1 attr_buf1) (\<lambda>_. ERR_IO) f))))"

definition mkfs_root :: "bytes \<Rightarrow> mount \<Rightarrow> (status \<times> mount) option" where
  "mkfs_root stk m =
     (case bitmap_alloc m of
        (btree_root, m1) \<Rightarrow>
          if btree_root = 0 then Some (ERR_NOSPC, snd (journal_abort m1))
          else orAbort (Some (write_block m1 btree_root mkfs_root_node)) (\<lambda>_. ERR_IO) (\<lambda>m2.
            Option.bind (record_alloc stk m2 SMKFS_ROT_DIR) (\<lambda>(root_id, m3).
              if root_id = 0 then Some (ERR_NOSPC, snd (journal_abort m3))
              else mkfs_root_dir stk m3 root_id btree_root (\<lambda>m4.
                thenO (commit_tx (m4\<lparr> sb := (sb m4)\<lparr> sb_root_record_id := root_id \<rparr> \<rparr>)) (\<lambda>m5.
                  Some (orS (write_block m5 0 (superblock_block (sb m5))) ERR_IO))))))"

definition mkfs_body :: "bytes \<Rightarrow> mount \<Rightarrow> u64 \<Rightarrow> u64 \<Rightarrow> (status \<times> mount) option" where
  "mkfs_body stk m0 total_blocks sector_size =
     (let m = m0\<lparr> sb := mkfs_sb total_blocks sector_size (sb m0) \<rparr>;
          mrt_start = 1 + mkfs_journal_blocks total_blocks + mkfs_bitmap_blocks total_blocks;
          mrt_blocks = mkfs_mrt_blocks total_blocks
      in thenO (otherO (Some (mrt_init m mrt_start mrt_blocks)) ERR_INVAL) (\<lambda>m1.
         let m2 = m1\<lparr> sb := (sb m1)\<lparr> sb_mrt_free_count := sb_mrt_capacity (sb m1) - 1 \<rparr> \<rparr>
         in thenO (Some (zero_blocks 1 [0..<unat (mkfs_journal_blocks total_blocks)] m2)) (\<lambda>m3.
            thenO (Some (zero_blocks (sb_bitmap_start (sb m3)) [0..<unat (mkfs_bitmap_blocks total_blocks)] m3)) (\<lambda>m4.
            thenO (otherO (Some (mrt_format stk m4 mrt_start mrt_blocks)) ERR_IO) (\<lambda>m5.
            begin_tx m5 (mkfs_root stk))))))"

definition smkfs_mkfs :: "bytes \<Rightarrow> u8 \<Rightarrow> u64 \<Rightarrow> u64 \<Rightarrow> bool \<Rightarrow> drive \<Rightarrow> (status \<times> drive) option" where
  "smkfs_mkfs stk dn total_blocks sector_size heap d =
     (if \<not> heap then Some (ERR_NOMEM, d)
      else
        let m = block_cache_init (zero_mount dn heap d)
        in if total_blocks < 16 then Some (drop_mount (ERR_INVAL, m))
           else map_option (\<lambda>(st, m1).
             if st \<noteq> OK then drop_mount (st, m1)
             else
               let m2 = snd (block_cache_flush m1);
                   d2 = snd (smkfs_fsck dn heap (drv m2))
               in drop_mount (OK, m2\<lparr> drv := d2 \<rparr>)) (mkfs_body stk m total_blocks sector_size))"

end
