(* ===== verification/Pmm.thy ===== *)
theory Pmm
  imports Runs
begin

text \<open>
  The physical memory manager, \<^verbatim>\<open>mm/pmm.c\<close>, on x86-64: one bit per frame of 4096 bytes, single
  frames, runs, aligned runs and runs at a given place, the regions that start-up reserves and
  releases, and the walk over the boot loader's tags that finds the memory. The statics of the
  file are the record \<open>pmm\<close>. The allocators run under a spinlock, so one call is one step.
  Frame numbers below \<open>total_frames\<close>, which is less than \<open>2 ^ 52\<close>, are natural numbers in the
  loops; sizes, addresses and counters keep their width.
\<close>

section \<open>State\<close>

record framebuffer_info =
  fb_addr :: u64
  fb_pitch :: u32
  fb_width :: u32
  fb_height :: u32
  fb_bpp :: u8
  fb_type :: u8
  fb_valid :: u8
  fb_red_pos :: u8
  fb_red_size :: u8
  fb_green_pos :: u8
  fb_green_size :: u8
  fb_blue_pos :: u8
  fb_blue_size :: u8

record boot_info =
  bi_magic :: u32
  bi_mb_info :: u64
  bi_total_ram :: u64
  bi_total_frames :: u64
  bi_kernel_start :: u64
  bi_kernel_end :: u64
  bi_valid :: bool
  bi_fb :: framebuffer_info
  bi_rsdp_addr :: u64

record pmm =
  pm_boot_info :: boot_info
  pm_bitmap :: bytes
  total_frames :: u64
  used_frames :: u64
  bitmap_size :: u64
  total_ram :: u64
  g_mmap_tag :: u64
  g_rsdp_copy :: bytes

definition FRAME_SIZE :: u64 where [simp]: "FRAME_SIZE = 4096"
definition FRAME_SIZE_SHIFT :: nat where [simp]: "FRAME_SIZE_SHIFT = 12"
definition FRAME_SIZE_MASK :: u64 where [simp]: "FRAME_SIZE_MASK = 4095"
definition PMM_MIN_MEMORY :: u64 where [simp]: "PMM_MIN_MEMORY = 4 * 1024 * 1024"
definition PHYS_ADDR_INVALID :: u64 where [simp]: "PHYS_ADDR_INVALID = 0"
definition VGA_MEM_PHYS :: u64 where [simp]: "VGA_MEM_PHYS = 0xB8000"

section \<open>The bitmap\<close>

definition pmm_bitmap_set :: "nat \<Rightarrow> pmm \<Rightarrow> pmm" where
  "pmm_bitmap_set frame p = p\<lparr> pm_bitmap := set_bit_in (frame div 8) (frame mod 8) (pm_bitmap p) \<rparr>"

definition pmm_bitmap_clear :: "nat \<Rightarrow> pmm \<Rightarrow> pmm" where
  "pmm_bitmap_clear frame p = p\<lparr> pm_bitmap := clear_bit_in (frame div 8) (frame mod 8) (pm_bitmap p) \<rparr>"

definition pmm_bitmap_test :: "pmm \<Rightarrow> nat \<Rightarrow> bool" where
  "pmm_bitmap_test p frame = bit (pm_bitmap p ! (frame div 8)) (frame mod 8)"

text \<open>
  The first free frame, \<open>None\<close> for \<^verbatim>\<open>(PFN_T)-1\<close>. The inner loop leaves the function at the first
  free bit, and also at a bit that is no frame.
\<close>

fun free_in_byte :: "pmm \<Rightarrow> nat \<Rightarrow> nat list \<Rightarrow> nat option option" where
  "free_in_byte p i [] = None"
| "free_in_byte p i (j # js) =
     (let frame = i * 8 + j
      in if frame \<ge> unat (total_frames p) then Some None
         else if \<not> bit (pm_bitmap p ! i) j then Some (Some frame)
         else free_in_byte p i js)"

fun free_in_bytes :: "pmm \<Rightarrow> nat list \<Rightarrow> nat option" where
  "free_in_bytes p [] = None"
| "free_in_bytes p (i # is) =
     (if pm_bitmap p ! i = 0xFF then free_in_bytes p is
      else case free_in_byte p i [0..<8] of
             Some r \<Rightarrow> r
           | None \<Rightarrow> free_in_bytes p is)"

definition find_first_free :: "pmm \<Rightarrow> nat option" where
  "find_first_free p = free_in_bytes p [0..<unat (bitmap_size p)]"

definition find_first_free_n :: "pmm \<Rightarrow> u32 \<Rightarrow> nat option" where
  "find_first_free_n p count =
     (if count = 0 then None
      else if count = 1 then find_first_free p
      else case find_run (pmm_bitmap_test p) (unat count) [0..<unat (total_frames p)] 0 0 of
             Inr run_start \<Rightarrow> Some run_start
           | Inl _ \<Rightarrow> None)"

text \<open>One round of the loops that mark frames, and the loops themselves.\<close>

definition mark_used :: "nat \<Rightarrow> pmm \<Rightarrow> pmm" where
  "mark_used i p =
     (if \<not> pmm_bitmap_test p i then (pmm_bitmap_set i p)\<lparr> used_frames := used_frames p + 1 \<rparr> else p)"

definition mark_free :: "nat \<Rightarrow> pmm \<Rightarrow> pmm" where
  "mark_free i p =
     (if pmm_bitmap_test p i then (pmm_bitmap_clear i p)\<lparr> used_frames := used_frames p - 1 \<rparr> else p)"

definition take_frame :: "nat \<Rightarrow> pmm \<Rightarrow> pmm" where
  "take_frame i p = (pmm_bitmap_set i p)\<lparr> used_frames := used_frames p + 1 \<rparr>"

definition take_frames :: "nat \<Rightarrow> nat \<Rightarrow> pmm \<Rightarrow> pmm" where
  "take_frames f n p = fold take_frame [f..<f + n] p"

section \<open>Regions\<close>

definition first_frame :: "u64 \<Rightarrow> nat" where
  "first_frame start = unat (drop_bit FRAME_SIZE_SHIFT start)"

definition end_frame :: "u64 \<Rightarrow> u64 \<Rightarrow> nat" where
  "end_frame start len = unat (drop_bit FRAME_SIZE_SHIFT (start + len + FRAME_SIZE_MASK))"

definition pmm_reserve_region :: "u64 \<Rightarrow> u64 \<Rightarrow> pmm \<Rightarrow> pmm" where
  "pmm_reserve_region start len p =
     (if len = 0 then p
      else fold mark_used [first_frame start..<min (end_frame start len) (unat (total_frames p))] p)"

definition pmm_unreserve_region :: "u64 \<Rightarrow> u64 \<Rightarrow> pmm \<Rightarrow> pmm" where
  "pmm_unreserve_region start len p =
     (if len = 0 then p
      else fold mark_free [first_frame start..<min (end_frame start len) (unat (total_frames p))] p)"

definition pmm_is_region_free :: "pmm \<Rightarrow> u64 \<Rightarrow> u64 \<Rightarrow> int" where
  "pmm_is_region_free p start len =
     (if len = 0 then - 1
      else if end_frame start len > unat (total_frames p) then - 1
      else if \<exists>i \<in> set [first_frame start..<end_frame start len]. pmm_bitmap_test p i then - 1
      else 0)"

section \<open>Frames\<close>

definition frame_addr :: "nat \<Rightarrow> u64" where
  "frame_addr frame = push_bit FRAME_SIZE_SHIFT (of_nat frame)"

definition pmm_alloc_frame :: "pmm \<Rightarrow> u64 \<times> pmm" where
  "pmm_alloc_frame p =
     (case find_first_free p of
        None \<Rightarrow> (PHYS_ADDR_INVALID, p)
      | Some frame \<Rightarrow> (frame_addr frame, take_frame frame p))"

definition pmm_alloc_frames :: "u32 \<Rightarrow> pmm \<Rightarrow> u64 \<times> pmm" where
  "pmm_alloc_frames count p =
     (case find_first_free_n p count of
        None \<Rightarrow> (PHYS_ADDR_INVALID, p)
      | Some frame \<Rightarrow> (frame_addr frame, take_frames frame (unat count) p))"

definition pmm_free_frame :: "u64 \<Rightarrow> pmm \<Rightarrow> pmm" where
  "pmm_free_frame frame p =
     (if frame = 0 then p
      else if first_frame frame \<ge> unat (total_frames p) then p
      else mark_free (first_frame frame) p)"

definition pmm_free_frames :: "u64 \<Rightarrow> u32 \<Rightarrow> pmm \<Rightarrow> pmm" where
  "pmm_free_frames frame count p =
     (if frame = 0 \<or> count = 0 then p
      else if drop_bit FRAME_SIZE_SHIFT frame + ucast count > total_frames p then p
      else fold mark_free [first_frame frame..<first_frame frame + unat count] p)"

record pmm_stats =
  st_total_frames :: u64
  st_used_frames :: u64
  st_free_frames :: u64
  st_reserved_frames :: u64

definition pmm_get_stats :: "pmm \<Rightarrow> pmm_stats" where
  "pmm_get_stats p =
     \<lparr> st_total_frames = total_frames p, st_used_frames = used_frames p,
       st_free_frames = total_frames p - used_frames p, st_reserved_frames = used_frames p \<rparr>"

definition pmm_get_rsdp :: "pmm \<Rightarrow> u64" where
  "pmm_get_rsdp p = bi_rsdp_addr (pm_boot_info p)"

definition pmm_get_total_frames :: "pmm \<Rightarrow> u64" where
  "pmm_get_total_frames p = total_frames p"

definition pmm_get_free_frames :: "pmm \<Rightarrow> u64" where
  "pmm_get_free_frames p = total_frames p - used_frames p"

definition pmm_get_total_ram :: "pmm \<Rightarrow> u64" where
  "pmm_get_total_ram p = total_ram p"

definition pmm_set_kernel_end :: "u64 \<Rightarrow> pmm \<Rightarrow> pmm" where
  "pmm_set_kernel_end e p = p\<lparr> pm_boot_info := (pm_boot_info p)\<lparr> bi_kernel_end := e \<rparr> \<rparr>"

text \<open>
  Aligned runs. \<open>skip_used\<close> is the inner loop that looks for a free frame; a run with a used
  frame in it sends the outer loop behind that frame.
\<close>

fun skip_used :: "pmm \<Rightarrow> nat list \<Rightarrow> nat \<Rightarrow> nat" where
  "skip_used p [] i = i"
| "skip_used p (j # js) i = (if pmm_bitmap_test p j then skip_used p js (j + 1) else j)"

fun first_used :: "pmm \<Rightarrow> nat list \<Rightarrow> nat option" where
  "first_used p [] = None"
| "first_used p (f # fs) = (if pmm_bitmap_test p f then Some f else first_used p fs)"

definition align_up :: "nat \<Rightarrow> u32 \<Rightarrow> u64" where
  "align_up i align_frames = (of_nat i + ucast align_frames - 1) AND NOT (ucast align_frames - 1)"

lemma first_used_in: "first_used p fs = Some f \<Longrightarrow> f \<in> set fs"
  by (induction fs) (auto split: if_splits)

partial_function (option) aligned_loop :: "u32 \<Rightarrow> u32 \<Rightarrow> pmm \<Rightarrow> nat \<Rightarrow> (u64 \<times> pmm) option" where
  "aligned_loop count align_frames p i =
     (if i < unat (total_frames p) then
        let i1 = skip_used p [i..<unat (total_frames p)] i
        in if i1 \<ge> unat (total_frames p) then Some (PHYS_ADDR_INVALID, p)
           else
             let aligned = align_up i1 align_frames
             in if aligned + ucast count > total_frames p then Some (PHYS_ADDR_INVALID, p)
                else case first_used p [unat aligned..<unat aligned + unat count] of
                       Some f \<Rightarrow> aligned_loop count align_frames p (f + 1)
                     | None \<Rightarrow> Some (push_bit FRAME_SIZE_SHIFT aligned, take_frames (unat aligned) (unat count) p)
      else Some (PHYS_ADDR_INVALID, p))"

definition pmm_alloc_aligned :: "u32 \<Rightarrow> u32 \<Rightarrow> pmm \<Rightarrow> (u64 \<times> pmm) option" where
  "pmm_alloc_aligned count align_frames p =
     (if count = 0 \<or> align_frames = 0 then Some (PHYS_ADDR_INVALID, p)
      else if align_frames AND (align_frames - 1) \<noteq> 0 then Some (PHYS_ADDR_INVALID, p)
      else if align_frames = 1 then Some (pmm_alloc_frames count p)
      else aligned_loop count align_frames p 0)"

definition pmm_alloc_at :: "u64 \<Rightarrow> u32 \<Rightarrow> pmm \<Rightarrow> int \<times> pmm" where
  "pmm_alloc_at addr count p =
     (let start_frame = first_frame addr
      in if drop_bit FRAME_SIZE_SHIFT addr + ucast count > total_frames p then (- 1, p)
         else case first_used p [start_frame..<start_frame + unat count] of
                Some _ \<Rightarrow> (- 1, p)
              | None \<Rightarrow> (0, take_frames start_frame (unat count) p))"

section \<open>What the boot loader says\<close>

text \<open>
  Physical memory before paging, a byte per address. The tags of a Multiboot2 information block
  follow each other at multiples of eight; nothing but an end tag ends the walk.
\<close>

type_synonym memory = "u64 \<Rightarrow> u8"

definition mem_bytes :: "memory \<Rightarrow> u64 \<Rightarrow> nat \<Rightarrow> bytes" where
  "mem_bytes mem a n = map (\<lambda>i. mem (a + of_nat i)) [0..<n]"

definition rd32 :: "memory \<Rightarrow> u64 \<Rightarrow> u32" where
  "rd32 mem a = le_word (mem_bytes mem a 4)"

definition rd64 :: "memory \<Rightarrow> u64 \<Rightarrow> u64" where
  "rd64 mem a = le_word (mem_bytes mem a 8)"

definition MB2_BOOT_MAGIC :: u32 where [simp]: "MB2_BOOT_MAGIC = 0x36d76289"
definition MB2_TAG_END :: u32 where [simp]: "MB2_TAG_END = 0"
definition MB2_TAG_BASIC_MEM :: u32 where [simp]: "MB2_TAG_BASIC_MEM = 4"
definition MB2_TAG_MMAP :: u32 where [simp]: "MB2_TAG_MMAP = 6"
definition MB2_TAG_FRAMEBUFFER :: u32 where [simp]: "MB2_TAG_FRAMEBUFFER = 8"
definition MB2_TAG_ACPI_OLD :: u32 where [simp]: "MB2_TAG_ACPI_OLD = 14"
definition MB2_TAG_ACPI_NEW :: u32 where [simp]: "MB2_TAG_ACPI_NEW = 15"
definition MB2_MMAP_AVAILABLE :: u32 where [simp]: "MB2_MMAP_AVAILABLE = 1"

definition tag_type :: "memory \<Rightarrow> u64 \<Rightarrow> u32" where
  "tag_type mem tag = rd32 mem tag"

definition tag_size :: "memory \<Rightarrow> u64 \<Rightarrow> u32" where
  "tag_size mem tag = rd32 mem (tag + 4)"

definition next_tag :: "memory \<Rightarrow> u64 \<Rightarrow> u64" where
  "next_tag mem tag = tag + ucast ((tag_size mem tag + 7) AND NOT 7)"

text \<open>An entry of the memory map: base, length and type.\<close>

definition e_base :: "memory \<Rightarrow> u64 \<Rightarrow> u64" where "e_base mem e = rd64 mem e"
definition e_len :: "memory \<Rightarrow> u64 \<Rightarrow> u64" where "e_len mem e = rd64 mem (e + 8)"
definition e_type :: "memory \<Rightarrow> u64 \<Rightarrow> u32" where "e_type mem e = rd32 mem (e + 16)"

definition mmap_entry_size :: "memory \<Rightarrow> u64 \<Rightarrow> u32" where
  "mmap_entry_size mem tag = rd32 mem (tag + 8)"

partial_function (option) mmap_sum :: "memory \<Rightarrow> u64 \<Rightarrow> u32 \<Rightarrow> u32 \<Rightarrow> u64 \<Rightarrow> u64 option" where
  "mmap_sum mem mmap remaining offset ram =
     (if offset + mmap_entry_size mem mmap \<le> remaining then
        let e = mmap + 16 + ucast offset
        in mmap_sum mem mmap remaining (offset + mmap_entry_size mem mmap)
             (if e_type mem e = MB2_MMAP_AVAILABLE then ram + e_len mem e else ram)
      else Some ram)"

record early =
  ea_ram :: u64
  ea_has_mmap :: bool
  ea_pmm :: pmm

definition upd_boot :: "(boot_info \<Rightarrow> boot_info) \<Rightarrow> early \<Rightarrow> early" where
  "upd_boot f s = s\<lparr> ea_pmm := (ea_pmm s)\<lparr> pm_boot_info := f (pm_boot_info (ea_pmm s)) \<rparr> \<rparr>"

definition fb_tag :: "memory \<Rightarrow> u64 \<Rightarrow> framebuffer_info \<Rightarrow> framebuffer_info" where
  "fb_tag mem tag fb =
     (let f1 = fb\<lparr> fb_addr := rd64 mem (tag + 8), fb_pitch := rd32 mem (tag + 16), fb_width := rd32 mem (tag + 20),
                   fb_height := rd32 mem (tag + 24), fb_bpp := mem (tag + 28), fb_type := mem (tag + 29),
                   fb_valid := 1 \<rparr>
      in if mem (tag + 29) = 1
         then f1\<lparr> fb_red_pos := mem (tag + 32), fb_red_size := mem (tag + 33),
                  fb_green_pos := mem (tag + 34), fb_green_size := mem (tag + 35),
                  fb_blue_pos := mem (tag + 36), fb_blue_size := mem (tag + 37) \<rparr>
         else f1)"

text \<open>One tag of \<open>kernel_early_init\<close>. \<open>rsdp_buf\<close> is the address of the static copy of the RSDP.\<close>

definition early_tag :: "u64 \<Rightarrow> memory \<Rightarrow> u64 \<Rightarrow> early \<Rightarrow> early option" where
  "early_tag rsdp_buf mem tag s =
     (if tag_type mem tag = MB2_TAG_MMAP then
        if mmap_entry_size mem tag < 24 then Some s
        else map_option (\<lambda>ram. s\<lparr> ea_ram := ram, ea_has_mmap := True, ea_pmm := (ea_pmm s)\<lparr> g_mmap_tag := tag \<rparr> \<rparr>)
               (mmap_sum mem tag (tag_size mem tag - 16) 0 (ea_ram s))
      else if tag_type mem tag = MB2_TAG_BASIC_MEM then
        Some (if \<not> ea_has_mmap s
              then s\<lparr> ea_ram := (ucast (rd32 mem (tag + 8)) + ucast (rd32 mem (tag + 12))) * 1024 \<rparr> else s)
      else if tag_type mem tag = MB2_TAG_FRAMEBUFFER then
        Some (upd_boot (\<lambda>b. b\<lparr> bi_fb := fb_tag mem tag (bi_fb b) \<rparr>) s)
      else if tag_type mem tag = MB2_TAG_ACPI_NEW \<or> tag_type mem tag = MB2_TAG_ACPI_OLD then
        let rsdp_len = tag_size mem tag - 8;
            rsdp_len1 = (if rsdp_len > 36 then 36 else rsdp_len)
        in Some (if tag_type mem tag = MB2_TAG_ACPI_NEW \<or> bi_rsdp_addr (pm_boot_info (ea_pmm s)) = 0
                 then upd_boot (\<lambda>b. b\<lparr> bi_rsdp_addr := rsdp_buf \<rparr>)
                        (s\<lparr> ea_pmm := (ea_pmm s)\<lparr> g_rsdp_copy :=
                              patch 0 (mem_bytes mem (tag + 8) (unat rsdp_len1)) (g_rsdp_copy (ea_pmm s)) \<rparr> \<rparr>)
                 else s)
      else Some s)"

partial_function (option) early_tags :: "u64 \<Rightarrow> memory \<Rightarrow> u64 \<Rightarrow> early \<Rightarrow> early option" where
  "early_tags rsdp_buf mem tag s =
     (if tag_type mem tag = MB2_TAG_END then Some s
      else Option.bind (early_tag rsdp_buf mem tag s) (early_tags rsdp_buf mem (next_tag mem tag)))"

definition zero_fb :: framebuffer_info where
  "zero_fb = \<lparr> fb_addr = 0, fb_pitch = 0, fb_width = 0, fb_height = 0, fb_bpp = 0, fb_type = 0, fb_valid = 0,
     fb_red_pos = 0, fb_red_size = 0, fb_green_pos = 0, fb_green_size = 0, fb_blue_pos = 0, fb_blue_size = 0 \<rparr>"

definition zero_boot_info :: boot_info where
  "zero_boot_info = \<lparr> bi_magic = 0, bi_mb_info = 0, bi_total_ram = 0, bi_total_frames = 0, bi_kernel_start = 0,
     bi_kernel_end = 0, bi_valid = False, bi_fb = zero_fb, bi_rsdp_addr = 0 \<rparr>"

definition kernel_early_init :: "u64 \<Rightarrow> memory \<Rightarrow> u32 \<Rightarrow> u64 \<Rightarrow> pmm \<Rightarrow> (int \<times> pmm) option" where
  "kernel_early_init rsdp_buf mem magic mb_info p =
     (let p1 = p\<lparr> pm_boot_info := zero_boot_info\<lparr> bi_magic := magic \<rparr> \<rparr>
      in if magic \<noteq> MB2_BOOT_MAGIC then Some (1, p1)
         else map_option (\<lambda>s.
           let ram = (if ea_ram s = 0 then 16 * 1024 * 1024 else ea_ram s);
               p2 = (ea_pmm s)\<lparr> total_ram := ram \<rparr>
           in if ram < PMM_MIN_MEMORY then (2, p2)
              else (0, p2\<lparr> pm_boot_info := (pm_boot_info p2)
                             \<lparr> bi_mb_info := mb_info, bi_total_ram := ram, bi_valid := True \<rparr> \<rparr>))
           (early_tags rsdp_buf mem (mb_info + 8) \<lparr> ea_ram = 0, ea_has_mmap = False, ea_pmm = p1 \<rparr>))"

text \<open>Whether an address lies in no entry of the map, of whatever type; a size of 0 is a fault.\<close>

definition is_physical_address_mmio :: "memory \<Rightarrow> pmm \<Rightarrow> u64 \<Rightarrow> int option" where
  "is_physical_address_mmio mem p phys_addr =
     (let tag = g_mmap_tag p
      in if tag = 0 then Some 1
         else if mmap_entry_size mem tag = 0 then None
         else
           let num_entries = (tag_size mem tag - 16) div mmap_entry_size mem tag
           in Some (if \<exists>i \<in> set [0..<unat num_entries].
                         let e = tag + 16 + ucast (of_nat i * mmap_entry_size mem tag)
                         in phys_addr \<ge> e_base mem e \<and> phys_addr < e_base mem e + e_len mem e
                    then 0 else 1))"

text \<open>The first memory map releases its regions and ends the walk. \<open>None\<close> is a division by zero.\<close>

definition unreserve_entry :: "memory \<Rightarrow> u64 \<Rightarrow> nat \<Rightarrow> pmm \<Rightarrow> pmm" where
  "unreserve_entry mem mmap i p =
     (let e = mmap + 16 + ucast (of_nat i * mmap_entry_size mem mmap)
      in if e_type mem e = MB2_MMAP_AVAILABLE then pmm_unreserve_region (e_base mem e) (e_len mem e) p else p)"

partial_function (option) init_tags :: "memory \<Rightarrow> u64 \<Rightarrow> pmm \<Rightarrow> (bool \<times> pmm) option" where
  "init_tags mem tag p =
     (if tag_type mem tag = MB2_TAG_END then Some (False, p)
      else if tag_type mem tag = MB2_TAG_MMAP then
        if mmap_entry_size mem tag = 0 then None
        else let num = (tag_size mem tag - 16) div mmap_entry_size mem tag
             in Some (True, fold (unreserve_entry mem tag) [0..<unat num] p)
      else init_tags mem (next_tag mem tag) p)"

definition page_up :: "u64 \<Rightarrow> u64" where
  "page_up a = (a + FRAME_SIZE - 1) AND NOT (FRAME_SIZE - 1)"

definition pmm_placement :: "memory \<Rightarrow> u64 \<Rightarrow> pmm \<Rightarrow> u64" where
  "pmm_placement mem kernel_phys_end p =
     (let placement = page_up kernel_phys_end;
          mb_info = bi_mb_info (pm_boot_info p)
      in if mb_info \<noteq> 0
         then max (page_up (mb_info + ucast (rd32 mem mb_info))) placement
         else placement)"

definition pmm_init :: "memory \<Rightarrow> u64 \<Rightarrow> pmm \<Rightarrow> (int \<times> pmm) option" where
  "pmm_init mem kernel_phys_end p =
     (let valid = bi_valid (pm_boot_info p);
          p1 = (if \<not> valid then p\<lparr> total_ram := 16 * 1024 * 1024 \<rparr> else p);
          p2 = p1\<lparr> total_frames := drop_bit FRAME_SIZE_SHIFT (total_ram p1) \<rparr>;
          p3 = (if total_frames p2 = 0
                then p2\<lparr> total_ram := 16 * 1024 * 1024,
                         total_frames := drop_bit FRAME_SIZE_SHIFT (16 * 1024 * 1024) \<rparr>
                else p2);
          p4 = p3\<lparr> bitmap_size := drop_bit 3 (total_frames p3 + 7) \<rparr>;
          placement = pmm_placement mem kernel_phys_end p4;
          p5 = p4\<lparr> pm_bitmap := replicate (unat (bitmap_size p4)) 0xFF, used_frames := total_frames p4 \<rparr>
      in map_option (\<lambda>p6.
           let p7 = pmm_reserve_region 0 0x00100000 p6;
               kernel_end = placement + bitmap_size p7;
               p8 = pmm_reserve_region 0x00100000 (kernel_end - 0x00100000) p7;
               p9 = pmm_reserve_region VGA_MEM_PHYS FRAME_SIZE p8
           in (0, p9\<lparr> pm_boot_info := (pm_boot_info p9)\<lparr> bi_total_frames := total_frames p9,
                                                          bi_kernel_end := kernel_end \<rparr> \<rparr>))
         (if valid \<and> bi_mb_info (pm_boot_info p5) \<noteq> 0
          then map_option (\<lambda>(found_mmap, q).
                 if \<not> found_mmap then pmm_unreserve_region 0x00100000 (total_ram q - 0x100000) q else q)
                 (init_tags mem (bi_mb_info (pm_boot_info p5) + 8) p5)
          else Some (pmm_unreserve_region 0x00100000 (15 * 1024 * 1024) p5)))"

end
