(* ===== verification/PmmSpec.thy ===== *)
theory PmmSpec
  imports Pmm
begin

text \<open>
  The frame allocator against the set of free frames, \<open>frees\<close>: what each operation does to it,
  the counter of used frames, and what is found when there is something to find.
\<close>

section \<open>The free frames\<close>

abbreviation nframes :: "pmm \<Rightarrow> nat" where
  "nframes p \<equiv> unat (total_frames p)"

definition frees :: "pmm \<Rightarrow> nat set" where
  "frees p = {f. f < nframes p \<and> \<not> pmm_bitmap_test p f}"

definition pmm_ok :: "pmm \<Rightarrow> bool" where
  "pmm_ok p \<longleftrightarrow> length (pm_bitmap p) = unat (bitmap_size p) \<and> unat (bitmap_size p) = (nframes p + 7) div 8 \<and>
     nframes p < 2 ^ 52 \<and> used_frames p = of_nat (nframes p - card (frees p))"

text \<open>The state after frames have changed hands: the free ones are \<open>A\<close>, all else is as it was.\<close>

definition frames_now :: "pmm \<Rightarrow> nat set \<Rightarrow> pmm \<Rightarrow> bool" where
  "frames_now p A p' \<longleftrightarrow> pmm_ok p' \<and> frees p' = A \<and> (\<exists>b u. p' = p\<lparr> pm_bitmap := b, used_frames := u \<rparr>)"

lemma frees_finite [simp]: "finite (frees p)"
  by (simp add: frees_def)

lemma frees_card: "card (frees p) \<le> nframes p"
  using card_mono [of "{..<nframes p}" "frees p"] by (auto simp: frees_def)

lemma pmm_okD:
  assumes "pmm_ok p"
  shows "length (pm_bitmap p) = unat (bitmap_size p)" "unat (bitmap_size p) = (nframes p + 7) div 8"
    "nframes p < 2 ^ 52" "used_frames p = of_nat (nframes p - card (frees p))"
  using assms by (simp_all add: pmm_ok_def)

lemma frames_now_refl: "pmm_ok p \<Longrightarrow> frames_now p (frees p) p"
  by (auto simp: frames_now_def intro!: exI [of _ "pm_bitmap p"] exI [of _ "used_frames p"])

lemma frames_nowD:
  assumes "frames_now p A p'"
  shows "pmm_ok p'" "frees p' = A" "total_frames p' = total_frames p" "bitmap_size p' = bitmap_size p"
    "pm_boot_info p' = pm_boot_info p" "total_ram p' = total_ram p"
  using assms by (auto simp: frames_now_def)

lemma frames_now_trans: "frames_now p A p1 \<Longrightarrow> frames_now p1 B p2 \<Longrightarrow> frames_now p B p2"
  by (force simp: frames_now_def)

lemma frame_in_bitmap:
  assumes "pmm_ok p" "f < nframes p"
  shows "f div 8 < length (pm_bitmap p)"
  using assms pmm_okD(1,2) [OF assms(1)] by linarith

lemma bit_place: "(f::nat) div 8 = g div 8 \<and> f mod 8 = g mod 8 \<longleftrightarrow> f = g"
  by (metis div_mult_mod_eq)

lemma test_set:
  assumes "pmm_ok p" "f < nframes p" "g < nframes p"
  shows "pmm_bitmap_test (pmm_bitmap_set g p) f \<longleftrightarrow> f = g \<or> pmm_bitmap_test p f"
    "pmm_bitmap_test (pmm_bitmap_clear g p) f \<longleftrightarrow> f \<noteq> g \<and> pmm_bitmap_test p f"
proof -
  note F = frame_in_bitmap [OF assms(1,2)] and G = frame_in_bitmap [OF assms(1,3)]
  show "pmm_bitmap_test (pmm_bitmap_set g p) f \<longleftrightarrow> f = g \<or> pmm_bitmap_test p f"
    using bit_set_bit_in [OF G F] bit_place [of f g] by (auto simp: pmm_bitmap_test_def pmm_bitmap_set_def)
  show "pmm_bitmap_test (pmm_bitmap_clear g p) f \<longleftrightarrow> f \<noteq> g \<and> pmm_bitmap_test p f"
    using bit_clear_bit_in [OF G F] bit_place [of f g] by (auto simp: pmm_bitmap_test_def pmm_bitmap_clear_def)
qed

lemma test_used_frames [simp]: "pmm_bitmap_test (p\<lparr> used_frames := u \<rparr>) = pmm_bitmap_test p"
  by (simp add: pmm_bitmap_test_def fun_eq_iff)

lemma take_frame_now:
  assumes "pmm_ok p" "f \<in> frees p"
  shows "frames_now p (frees p - {f}) (take_frame f p)"
proof -
  have f: "f < nframes p" using assms(2) by (simp add: frees_def)
  let ?p = "take_frame f p"
  have t: "total_frames ?p = total_frames p" "bitmap_size ?p = bitmap_size p" "length (pm_bitmap ?p) = length (pm_bitmap p)"
    by (simp_all add: take_frame_def pmm_bitmap_set_def)
  have fr: "frees ?p = frees p - {f}"
    using test_set(1) [OF assms(1) _ f] t(1) by (auto simp: frees_def take_frame_def pmm_bitmap_set_def pmm_bitmap_test_def)
  have c: "card (frees p) = Suc (card (frees p - {f}))" using card_Suc_Diff1 [OF frees_finite assms(2)] by simp
  have "used_frames ?p = of_nat (nframes p - card (frees p)) + 1"
    using pmm_okD(4) [OF assms(1)] by (simp add: take_frame_def pmm_bitmap_set_def)
  also have "\<dots> = of_nat (Suc (nframes p - card (frees p)))" by simp
  also have "Suc (nframes p - card (frees p)) = nframes p - card (frees ?p)" using c fr frees_card [of p] by simp
  finally have "pmm_ok ?p" using assms(1) t by (simp add: pmm_ok_def)
  then show ?thesis using fr by (auto simp: frames_now_def take_frame_def pmm_bitmap_set_def)
qed

lemma mark_used_now:
  assumes "pmm_ok p" "f < nframes p"
  shows "frames_now p (frees p - {f}) (mark_used f p)"
proof (cases "pmm_bitmap_test p f")
  case True
  then have "frees p - {f} = frees p" by (auto simp: frees_def)
  then show ?thesis using True frames_now_refl [OF assms(1)] by (simp add: mark_used_def)
next
  case False
  then have "mark_used f p = take_frame f p" "f \<in> frees p"
    using assms(2) by (simp_all add: mark_used_def take_frame_def frees_def pmm_bitmap_set_def)
  then show ?thesis using take_frame_now [OF assms(1)] by simp
qed

lemma mark_free_now:
  assumes "pmm_ok p" "f < nframes p"
  shows "frames_now p (insert f (frees p)) (mark_free f p)"
proof (cases "pmm_bitmap_test p f")
  case False
  then have "insert f (frees p) = frees p" using assms(2) by (auto simp: frees_def)
  then show ?thesis using False frames_now_refl [OF assms(1)] by (simp add: mark_free_def)
next
  case True
  let ?p = "mark_free f p"
  have e: "?p = (pmm_bitmap_clear f p)\<lparr> used_frames := used_frames p - 1 \<rparr>" using True by (simp add: mark_free_def)
  have t: "total_frames ?p = total_frames p" "bitmap_size ?p = bitmap_size p" "length (pm_bitmap ?p) = length (pm_bitmap p)"
    by (simp_all add: e pmm_bitmap_clear_def)
  have fr: "frees ?p = insert f (frees p)"
    using test_set(2) [OF assms(1) _ assms(2)] t(1) assms(2)
    by (auto simp: frees_def e pmm_bitmap_clear_def pmm_bitmap_test_def)
  have nf: "f \<notin> frees p" using True by (simp add: frees_def)
  have lt: "card (frees p) < nframes p"
  proof -
    have "insert f (frees p) \<subseteq> {..<nframes p}" using assms(2) by (auto simp: frees_def)
    from card_mono [OF _ this] nf show ?thesis by simp
  qed
  have "used_frames ?p = of_nat (nframes p - card (frees p)) - 1"
    using pmm_okD(4) [OF assms(1)] by (simp add: e pmm_bitmap_clear_def)
  also have "\<dots> = of_nat (nframes p - Suc (card (frees p)))"
  proof -
    have "nframes p - card (frees p) = Suc (nframes p - Suc (card (frees p)))" using lt by simp
    then show ?thesis by (metis add_diff_cancel_left' of_nat_Suc)
  qed
  finally have "pmm_ok ?p" using assms(1) t fr nf by (simp add: pmm_ok_def)
  then show ?thesis using fr by (auto simp: frames_now_def e pmm_bitmap_clear_def)
qed

lemma fold_used_now:
  "pmm_ok p \<Longrightarrow> \<forall>f \<in> set fs. f < nframes p \<Longrightarrow> frames_now p (frees p - set fs) (fold mark_used fs p)"
proof (induction fs arbitrary: p)
  case Nil
  then show ?case using frames_now_refl by simp
next
  case (Cons f fs)
  have a: "frames_now p (frees p - {f}) (mark_used f p)" using Cons.prems by (intro mark_used_now) simp_all
  note A = frames_nowD [OF a]
  have "frames_now (mark_used f p) (frees (mark_used f p) - set fs) (fold mark_used fs (mark_used f p))"
    using Cons.prems A by (intro Cons.IH) simp_all
  moreover have "frees p - {f} - set fs = frees p - set (f # fs)" by auto
  ultimately show ?case using frames_now_trans [OF a] A(2) by simp
qed

lemma fold_free_now:
  "pmm_ok p \<Longrightarrow> \<forall>f \<in> set fs. f < nframes p \<Longrightarrow> frames_now p (frees p \<union> set fs) (fold mark_free fs p)"
proof (induction fs arbitrary: p)
  case Nil
  then show ?case using frames_now_refl by simp
next
  case (Cons f fs)
  have a: "frames_now p (insert f (frees p)) (mark_free f p)" using Cons.prems by (intro mark_free_now) simp_all
  note A = frames_nowD [OF a]
  have "frames_now (mark_free f p) (frees (mark_free f p) \<union> set fs) (fold mark_free fs (mark_free f p))"
    using Cons.prems A by (intro Cons.IH) simp_all
  from frames_now_trans [OF a this] show ?case using A(2) by simp
qed

lemma fold_take_now:
  "pmm_ok p \<Longrightarrow> distinct fs \<Longrightarrow> set fs \<subseteq> frees p \<Longrightarrow> frames_now p (frees p - set fs) (fold take_frame fs p)"
proof (induction fs arbitrary: p)
  case Nil
  then show ?case using frames_now_refl by simp
next
  case (Cons f fs)
  have a: "frames_now p (frees p - {f}) (take_frame f p)" using Cons.prems by (intro take_frame_now) simp_all
  note A = frames_nowD [OF a]
  have "frames_now (take_frame f p) (frees (take_frame f p) - set fs) (fold take_frame fs (take_frame f p))"
    using Cons.prems A by (intro Cons.IH) auto
  moreover have "frees p - {f} - set fs = frees p - set (f # fs)" by auto
  ultimately show ?case using frames_now_trans [OF a] A(2) by simp
qed

lemma take_frames_now:
  "pmm_ok p \<Longrightarrow> {f..<f + n} \<subseteq> frees p \<Longrightarrow> frames_now p (frees p - {f..<f + n}) (take_frames f n p)"
  using fold_take_now [of p "[f..<f + n]"] by (simp add: take_frames_def)

section \<open>Finding frames\<close>

lemma frees_byte: "pmm_ok p \<Longrightarrow> j < 8 \<Longrightarrow> pmm_bitmap_test p (i * 8 + j) = bit (pm_bitmap p ! i) j"
  by (simp add: pmm_bitmap_test_def)

lemma free_in_byte_is:
  assumes "j \<le> 8"
  shows "case free_in_byte p i [j..<8] of
      None \<Rightarrow> \<forall>l. j \<le> l \<and> l < 8 \<longrightarrow> i * 8 + l \<notin> frees p
    | Some None \<Rightarrow> (\<forall>l. j \<le> l \<and> l < 8 \<longrightarrow> i * 8 + l \<notin> frees p) \<and> nframes p \<le> i * 8 + 7
    | Some (Some f) \<Rightarrow> f \<in> frees p \<and> i * 8 + j \<le> f \<and> (\<forall>l. j \<le> l \<and> i * 8 + l < f \<longrightarrow> i * 8 + l \<notin> frees p)"
  using assms
proof (induction "8 - j" arbitrary: j)
  case 0
  then have "j = 8" by simp
  then show ?case by auto
next
  case (Suc n)
  then have j: "j < 8" "[j..<8] = j # [Suc j..<8]" by (simp_all add: upt_conv_Cons)
  have t: "pmm_bitmap_test p (i * 8 + j) = bit (pm_bitmap p ! i) j" using j(1) by (simp add: pmm_bitmap_test_def)
  show ?case
  proof (cases "i * 8 + j \<ge> nframes p")
    case True
    then show ?thesis using j by (auto simp: Let_def frees_def)
  next
    case inside: False
    show ?thesis
    proof (cases "bit (pm_bitmap p ! i) j")
      case False
      then show ?thesis using j inside t by (auto simp: Let_def frees_def)
    next
      case True
      have ih: "case free_in_byte p i [Suc j..<8] of
          None \<Rightarrow> \<forall>l. Suc j \<le> l \<and> l < 8 \<longrightarrow> i * 8 + l \<notin> frees p
        | Some None \<Rightarrow> (\<forall>l. Suc j \<le> l \<and> l < 8 \<longrightarrow> i * 8 + l \<notin> frees p) \<and> nframes p \<le> i * 8 + 7
        | Some (Some f) \<Rightarrow> f \<in> frees p \<and> i * 8 + Suc j \<le> f \<and> (\<forall>l. Suc j \<le> l \<and> i * 8 + l < f \<longrightarrow> i * 8 + l \<notin> frees p)"
        using Suc j(1) by (intro Suc.hyps(1)) simp_all
      have e: "free_in_byte p i [j..<8] = free_in_byte p i [Suc j..<8]" using j inside True by (simp add: Let_def)
      have nj: "i * 8 + j \<notin> frees p" using True t by (simp add: frees_def)
      have st: "l = j \<or> Suc j \<le> l" if "j \<le> l" for l using that by auto
      show ?thesis unfolding e using ih nj st by (fastforce split: option.splits)
    qed
  qed
qed

lemma free_in_bytes_is:
  assumes "pmm_ok p" "\<forall>f \<in> frees p. a * 8 \<le> f" "a \<le> unat (bitmap_size p)"
  shows "case free_in_bytes p [a..<unat (bitmap_size p)] of
      None \<Rightarrow> frees p = {}
    | Some f \<Rightarrow> f \<in> frees p \<and> (\<forall>g \<in> frees p. f \<le> g)"
  using assms(2,3)
proof (induction "unat (bitmap_size p) - a" arbitrary: a)
  case 0
  then have "a = unat (bitmap_size p)" by simp
  then have "\<forall>f \<in> frees p. nframes p \<le> f" using 0 pmm_okD(2) [OF assms(1)] by fastforce
  then have "frees p = {}" by (auto simp: frees_def)
  then show ?case using 0 by simp
next
  case (Suc n)
  then have a: "a < unat (bitmap_size p)" "[a..<unat (bitmap_size p)] = a # [Suc a..<unat (bitmap_size p)]"
    by (simp_all add: upt_conv_Cons)
  have up: "\<forall>f \<in> frees p. Suc a * 8 \<le> f" if "\<forall>l < 8. a * 8 + l \<notin> frees p"
  proof
    fix f assume f: "f \<in> frees p"
    show "Suc a * 8 \<le> f"
    proof (rule ccontr)
      assume "\<not> Suc a * 8 \<le> f"
      then have "f - a * 8 < 8" "a * 8 + (f - a * 8) = f" using Suc.prems(1) f by auto
      then show False using that f by metis
    qed
  qed
  have ih: "case free_in_bytes p [Suc a..<unat (bitmap_size p)] of
      None \<Rightarrow> frees p = {}
    | Some f \<Rightarrow> f \<in> frees p \<and> (\<forall>g \<in> frees p. f \<le> g)" if "\<forall>l < 8. a * 8 + l \<notin> frees p"
    using Suc a(1) up [OF that] by (intro Suc.hyps(1)) simp_all
  show ?case
  proof (cases "pm_bitmap p ! a = 0xFF")
    case True
    have "\<forall>l < 8. a * 8 + l \<notin> frees p"
    proof safe
      fix l :: nat assume "l < 8" "a * 8 + l \<in> frees p"
      moreover have "bit (0xFF :: u8) l" if "l < 8" for l
      proof -
        have "(0xFF :: u8) = - 1" by simp
        show ?thesis unfolding \<open>(0xFF :: u8) = - 1\<close> using that by (simp only: bit_minus_1_iff) simp
      qed
      ultimately show False using True frees_byte [OF assms(1), of l a] by (simp add: frees_def)
    qed
    from ih [OF this] show ?thesis using True a(2) by simp
  next
    case False
    have "0 \<le> (8::nat)" by simp
    note B = free_in_byte_is [OF this, where p = p and i = a]
    show ?thesis
    proof (cases "free_in_byte p a [0..<8]")
      case None
      then have "\<forall>l < 8. a * 8 + l \<notin> frees p" using B by simp
      from ih [OF this] show ?thesis using False None a(2) by simp
    next
      case (Some r)
      show ?thesis
      proof (cases r)
        case None
        then have "\<forall>l < 8. a * 8 + l \<notin> frees p" and n: "nframes p \<le> a * 8 + 7" using B Some by simp_all
        from up [OF this(1)] n have "frees p = {}" by (fastforce simp: frees_def)
        then show ?thesis using False Some None a(2) by simp
      next
        case (Some f)
        have f: "f \<in> frees p" "a * 8 \<le> f" "\<forall>l. a * 8 + l < f \<longrightarrow> a * 8 + l \<notin> frees p"
          using B \<open>free_in_byte p a [0..<8] = Some r\<close> Some by simp_all
        have "f \<le> g" if g: "g \<in> frees p" for g
        proof (rule ccontr)
          assume "\<not> f \<le> g"
          moreover have "a * 8 + (g - a * 8) = g" using Suc.prems(1) g by simp
          ultimately show False using f(3) g by (metis not_le)
        qed
        then show ?thesis using False \<open>free_in_byte p a [0..<8] = Some r\<close> Some f(1) a(2) by simp
      qed
    qed
  qed
qed

lemma find_first_free_is:
  assumes "pmm_ok p"
  shows "find_first_free p = None \<longleftrightarrow> frees p = {}"
    "find_first_free p = Some f \<Longrightarrow> f \<in> frees p \<and> (\<forall>g \<in> frees p. f \<le> g)"
  using free_in_bytes_is [OF assms, of 0] by (auto simp: find_first_free_def split: option.splits)

lemma find_first_free_n_is:
  assumes "pmm_ok p"
  shows "find_first_free_n p count = Some s \<Longrightarrow> 0 < unat count \<and> {s..<s + unat count} \<subseteq> frees p"
    "find_first_free_n p count = None \<Longrightarrow> count \<noteq> 0 \<Longrightarrow> \<not> {s..<s + unat count} \<subseteq> frees p"
proof -
  note F = find_first_free_is [OF assms]
  have one: "unat count = 1" if "count = 1" using that by simp
  have sc: "scan_inv (pmm_bitmap_test p) (unat count) 0 0 0" if "count \<noteq> 0"
    using that by (intro scan_inv_start) (simp add: unat_gt_0)
  note R = find_run_spec [OF sc le0 refl, where b = "nframes p"]
  show "0 < unat count \<and> {s..<s + unat count} \<subseteq> frees p" if s: "find_first_free_n p count = Some s"
  proof (cases "count = 0 \<or> count = 1")
    case True
    then show ?thesis using s F(2) one by (auto simp: find_first_free_n_def split: if_splits)
  next
    case False
    then have "find_run (pmm_bitmap_test p) (unat count) [0..<nframes p] 0 0 = Inr s"
      using s by (auto simp: find_first_free_n_def split: sum.splits)
    then show ?thesis using R(1) False by (fastforce simp: frees_def unat_gt_0)
  qed
  show "\<not> {s..<s + unat count} \<subseteq> frees p" if n: "find_first_free_n p count = None" and c: "count \<noteq> 0"
  proof (cases "count = 1")
    case True
    then show ?thesis using n F(1) one by (auto simp: find_first_free_n_def)
  next
    case False
    then obtain st l where "find_run (pmm_bitmap_test p) (unat count) [0..<nframes p] 0 0 = Inl (st, l)"
      using n c by (auto simp: find_first_free_n_def split: sum.splits)
    then have i: "scan_inv (pmm_bitmap_test p) (unat count) (nframes p) st l" using R(2) c by blast
    show ?thesis
    proof
      assume sub: "{s..<s + unat count} \<subseteq> frees p"
      have "0 < unat count" using c by (simp add: unat_gt_0)
      then have "s + unat count - 1 \<in> {s..<s + unat count}" by simp
      then have "s + unat count - 1 \<in> frees p" using sub by blast
      then have "s + unat count \<le> nframes p" by (auto simp: frees_def)
      then obtain j where "s \<le> j" "j < s + unat count" "pmm_bitmap_test p j" using i unfolding scan_inv_def by blast
      then show False using sub by (auto simp: frees_def)
    qed
  qed
qed

text \<open>Addresses of frames.\<close>

lemma frame_addr_is:
  assumes "f < 2 ^ 52"
  shows "unat (frame_addr f) = 4096 * f" "first_frame (frame_addr f) = f" "frame_addr f = 0 \<longleftrightarrow> f = 0"
proof -
  have l: "4096 * f < 2 ^ 64" using assms by simp
  have e: "frame_addr f = of_nat (4096 * f)" by (simp add: frame_addr_def push_bit_eq_mult)
  show u: "unat (frame_addr f) = 4096 * f" unfolding e by (rule unat_of_nat_small) (use l in simp)
  show "first_frame (frame_addr f) = f" using u by (simp add: first_frame_def drop_bit_eq_div unat_div)
  show "frame_addr f = 0 \<longleftrightarrow> f = 0" using u by (simp add: unat_eq_0 [symmetric])
qed

section \<open>Allocating and releasing\<close>

lemma run_frame: "pmm_ok p \<Longrightarrow> f \<in> frees p \<Longrightarrow> f < 2 ^ 52"
  using pmm_okD(3) [of p] by (simp add: frees_def)

lemma run_start: "0 < n \<Longrightarrow> {s..<s + n} \<subseteq> A \<Longrightarrow> (s::nat) \<in> A"
  by auto

lemma alloc_frame_is:
  assumes "pmm_ok p"
  shows "frees p = {} \<Longrightarrow> pmm_alloc_frame p = (0, p)"
    "frees p \<noteq> {} \<Longrightarrow> \<exists>f p'. pmm_alloc_frame p = (frame_addr f, p') \<and> f \<in> frees p \<and> (\<forall>g \<in> frees p. f \<le> g) \<and>
       frames_now p (frees p - {f}) p'"
proof -
  note F = find_first_free_is [OF assms]
  show "frees p = {} \<Longrightarrow> pmm_alloc_frame p = (0, p)" using F(1) by (simp add: pmm_alloc_frame_def)
  assume "frees p \<noteq> {}"
  then obtain f where f: "find_first_free p = Some f" using F(1) by auto
  then show "\<exists>f p'. pmm_alloc_frame p = (frame_addr f, p') \<and> f \<in> frees p \<and> (\<forall>g \<in> frees p. f \<le> g) \<and>
       frames_now p (frees p - {f}) p'"
    using F(2) [OF f] take_frame_now [OF assms, of f] by (auto simp: pmm_alloc_frame_def)
qed

lemma alloc_frames_is:
  assumes "pmm_ok p"
  shows "(pmm_alloc_frames count p = (0, p) \<and> (count \<noteq> 0 \<longrightarrow> (\<forall>s. \<not> {s..<s + unat count} \<subseteq> frees p))) \<or>
    (\<exists>s p'. pmm_alloc_frames count p = (frame_addr s, p') \<and> 0 < unat count \<and> {s..<s + unat count} \<subseteq> frees p \<and>
       frames_now p (frees p - {s..<s + unat count}) p')"
proof (cases "find_first_free_n p count")
  case None
  then show ?thesis using find_first_free_n_is(2) [OF assms None] by (simp add: pmm_alloc_frames_def)
next
  case (Some s)
  then show ?thesis
    using find_first_free_n_is(1) [OF assms Some] take_frames_now [OF assms] by (auto simp: pmm_alloc_frames_def)
qed

lemma free_frame_is:
  assumes "pmm_ok p" "f < nframes p" "f \<noteq> 0"
  shows "frames_now p (insert f (frees p)) (pmm_free_frame (frame_addr f) p)"
  using mark_free_now [OF assms(1,2)] frame_addr_is [of f] pmm_okD(3) [OF assms(1)] assms(2,3)
  by (simp add: pmm_free_frame_def)

lemma frame_sum:
  assumes "pmm_ok p" "f < 2 ^ 52"
  shows "(drop_bit FRAME_SIZE_SHIFT (frame_addr f) + ucast (count :: u32) > total_frames p) = (f + unat count > nframes p)"
proof -
  have c: "unat count < 2 ^ 32" using unsigned_less [of count] by simp
  have d: "drop_bit FRAME_SIZE_SHIFT (frame_addr f) = (of_nat f :: u64)"
    using frame_addr_is(2) [OF assms(2)] assms(2) by (simp add: word_unat_eq_iff first_frame_def unat_of_nat_small)
  have "unat ((of_nat f :: u64) + ucast count) = f + unat count"
    using assms(2) c by (subst unat_add_small) (simp_all add: unat_of_nat_small unat_ucast_up)
  then show ?thesis unfolding d by (simp add: word_less_nat_alt)
qed

lemma free_frames_is:
  assumes "pmm_ok p" "f + unat count \<le> nframes p" "f \<noteq> 0" "count \<noteq> 0"
  shows "frames_now p (frees p \<union> {f..<f + unat count}) (pmm_free_frames (frame_addr f) count p)"
proof -
  have f: "f < 2 ^ 52" using pmm_okD(3) [OF assms(1)] assms(2) by simp
  have "\<forall>g \<in> set [f..<f + unat count]. g < nframes p" using assms(2) by auto
  from fold_free_now [OF assms(1) this]
  have "frames_now p (frees p \<union> {f..<f + unat count}) (fold mark_free [f..<f + unat count] p)" by simp
  moreover have "pmm_free_frames (frame_addr f) count p = fold mark_free [f..<f + unat count] p"
    using frame_sum [OF assms(1) f, of count] frame_addr_is [OF f] assms(2-4) by (simp add: pmm_free_frames_def)
  ultimately show ?thesis by simp
qed

lemma first_used_is:
  "first_used p fs = None \<longleftrightarrow> (\<forall>f \<in> set fs. \<not> pmm_bitmap_test p f)"
  "first_used p fs = Some f \<Longrightarrow> f \<in> set fs \<and> pmm_bitmap_test p f"
  by (induction fs) (auto split: if_splits)

lemma first_used_run:
  "s + n \<le> nframes p \<Longrightarrow> first_used p [s..<s + n] = None \<longleftrightarrow> {s..<s + n} \<subseteq> frees p"
  by (auto simp: first_used_is(1) frees_def)

lemma alloc_at_is:
  assumes "pmm_ok p" "s < 2 ^ 52"
  shows "if s + unat count \<le> nframes p \<and> {s..<s + unat count} \<subseteq> frees p
    then \<exists>p'. pmm_alloc_at (frame_addr s) count p = (0, p') \<and> frames_now p (frees p - {s..<s + unat count}) p'
    else pmm_alloc_at (frame_addr s) count p = (- 1, p)"
  using frame_sum [OF assms, of count] first_used_run [of s "unat count" p] take_frames_now [OF assms(1), of s "unat count"]
    frame_addr_is(2) [OF assms(2)]
  by (auto simp: pmm_alloc_at_def Let_def not_less split: option.split)

section \<open>Aligned runs\<close>

lemma skip_used_is:
  "i \<le> n \<Longrightarrow> i \<le> skip_used p [i..<n] i \<and> skip_used p [i..<n] i \<le> n \<and>
    (\<forall>f. i \<le> f \<and> f < skip_used p [i..<n] i \<longrightarrow> pmm_bitmap_test p f)"
proof (induction "n - i" arbitrary: i)
  case (Suc k)
  then have i: "i < n" "[i..<n] = i # [Suc i..<n]" by (simp_all add: upt_conv_Cons)
  have "Suc i \<le> skip_used p [Suc i..<n] (Suc i) \<and> skip_used p [Suc i..<n] (Suc i) \<le> n \<and>
    (\<forall>f. Suc i \<le> f \<and> f < skip_used p [Suc i..<n] (Suc i) \<longrightarrow> pmm_bitmap_test p f)"
    using Suc i(1) by (intro Suc.hyps(1)) simp_all
  moreover have "f = i \<or> Suc i \<le> f" if "i \<le> f" for f using that by auto
  ultimately show ?case using i by auto
qed auto

text \<open>The test for a power of two.\<close>

lemma pred_div: "(x::nat) mod m \<noteq> 0 \<Longrightarrow> (x - 1) div m = x div m"
proof -
  assume r: "x mod m \<noteq> 0"
  show ?thesis
  proof (cases "m = 0")
    case False
    have "x - 1 = (x mod m - 1) + x div m * m" using div_mult_mod_eq [of x m] r by linarith
    moreover have "x mod m - 1 < m" using False by (simp add: less_imp_diff_less)
    ultimately show ?thesis using False by simp
  qed simp
qed

lemma even_div_power: "(x::nat) mod 2 ^ j = 0 \<Longrightarrow> k < j \<Longrightarrow> even (x div 2 ^ k)"
proof -
  assume x: "x mod 2 ^ j = 0" and k: "k < j"
  have "2 ^ Suc k dvd (2 :: nat) ^ j" by (rule le_imp_power_dvd) (use k in simp)
  also have "2 ^ j dvd x" using x by (simp add: dvd_eq_mod_eq_0)
  finally obtain q where "x = 2 ^ Suc k * q" by (rule dvdE)
  then have "x = 2 ^ k * (2 * q)" by simp
  then have "x div 2 ^ k = 2 * q" by (metis nonzero_mult_div_cancel_left power_not_zero zero_neq_numeral)
  then show ?thesis by simp
qed

lemma bit_unat: "bit (w :: 'a::len word) n = odd (unat w div 2 ^ n)"
proof -
  have "bit w n = bit (unat w) n" using bit_imp_le_length [of w n] by (auto simp: bit_unsigned_iff)
  then show ?thesis using bit_iff_odd [of "unat w" n] by simp
qed

lemma power_of_two:
  fixes a :: u32
  assumes "a \<noteq> 0" "a AND (a - 1) = 0"
  obtains k where "k < 32" "a = 2 ^ k"
proof -
  obtain k where k: "bit a k" "\<forall>j < k. \<not> bit a j"
  proof -
    obtain n where "bit a n" using assms(1) by (metis bit_eq_iff bit_0_eq bot_apply bot_bool_def)
    then have "bit a (LEAST n. bit a n)" "\<forall>j < (LEAST n. bit a n). \<not> bit a j" by (auto intro: LeastI dest: not_less_Least)
    then show thesis by (rule that)
  qed
  have one: "unat (a - 1) = unat a - 1" using assms(1) by (simp add: unat_minus_one)
  have "j = k" if j: "bit a j" for j
  proof (rule ccontr)
    assume "j \<noteq> k"
    then have kj: "k < j" using k(2) j by (metis linorder_neqE_nat)
    have "unat a mod 2 ^ j \<noteq> 0" using even_div_power [OF _ kj] k(1) by (auto simp: bit_unat)
    then have "(unat a - 1) div 2 ^ j = unat a div 2 ^ j" by (rule pred_div)
    then have "bit (a - 1) j" unfolding bit_unat one using j bit_unat [of a j] by simp
    then have "bit (a AND (a - 1)) j" unfolding bit_and_iff using j by blast
    then show False unfolding assms(2) by simp
  qed
  with k(1) have iff: "bit a j \<longleftrightarrow> j = k" for j by blast
  have l: "k < 32" using bit_imp_le_length [OF k(1)] by simp
  have "a = 2 ^ k"
  proof (rule bit_word_eqI)
    fix n
    show "bit a n = bit (2 ^ k :: u32) n" unfolding iff using l by (auto simp: bit_exp_iff)
  qed
  then show thesis using that bit_imp_le_length [OF k(1)] by simp
qed

end
