(* ===== verification/Paging.thy ===== *)
theory Paging
  imports PmmSpec
begin

text \<open>
  The page tables of x86-64, \<^verbatim>\<open>mm/paging.c\<close>: the boot-time maps, built through physical addresses,
  and \<open>map_page\<close>, \<open>unmap_page\<close> and \<open>virt_to_phys\<close>, which reach the tables through the recursive
  slot. An access through a virtual address goes through \<open>translate\<close>, the four-level walk that the
  processor makes from CR3; \<open>None\<close> is a page fault or a halt. The translation
  caches are not modelled: a walk always sees the tables as they are, so \<^verbatim>\<open>invlpg\<close> does nothing.
  Physical memory is a function from the addresses of its 8-byte words.
\<close>

section \<open>Entries and addresses\<close>

record paging =
  frames :: pmm
  phys :: "u64 \<Rightarrow> u64"
  cr3 :: u64
  root_phys :: u64
  identity_map_size :: u64

definition PAGE_SIZE :: u64 where [simp]: "PAGE_SIZE = 4096"
definition PAGE_MASK :: u64 where [simp]: "PAGE_MASK = 0xFFF"
definition PAGE_PRESENT :: u64 where [simp]: "PAGE_PRESENT = 1"
definition PAGE_WRITABLE :: u64 where [simp]: "PAGE_WRITABLE = 2"
definition PAGE_HUGE :: u64 where [simp]: "PAGE_HUGE = 0x80"
definition PAGE_NX :: u64 where [simp]: "PAGE_NX = 0x8000000000000000"
definition PAGE_FLAG_MASK :: u64 where [simp]: "PAGE_FLAG_MASK = 0x8000000000000FFF"
definition HUGE_2M :: u64 where [simp]: "HUGE_2M = 0x200000"
definition KERNEL_VIRT_BASE :: u64 where [simp]: "KERNEL_VIRT_BASE = 0xFFFFFFFF80000000"
definition DIRECT_MAP_BASE :: u64 where [simp]: "DIRECT_MAP_BASE = 0xFFFF800000000000"
definition DIRECT_MAP_SIZE :: u64 where [simp]: "DIRECT_MAP_SIZE = 0x0000400000000000"
definition RECURSIVE_PML4_INDEX :: nat where [simp]: "RECURSIVE_PML4_INDEX = 510"
definition RECURSIVE_PT_BASE :: u64 where [simp]: "RECURSIVE_PT_BASE = 0xFFFFFF0000000000"
definition RECURSIVE_PD_BASE :: u64 where [simp]: "RECURSIVE_PD_BASE = 0xFFFFFF7F80000000"
definition RECURSIVE_PDPT_BASE :: u64 where [simp]: "RECURSIVE_PDPT_BASE = 0xFFFFFF7FBFC00000"
definition RECURSIVE_PML4_BASE :: u64 where [simp]: "RECURSIVE_PML4_BASE = 0xFFFFFF7FBFDFE000"

lemma recursive_bases:
  "RECURSIVE_PT_BASE = 0xFFFF000000000000 OR push_bit 39 510"
  "RECURSIVE_PD_BASE = RECURSIVE_PT_BASE OR push_bit 30 510"
  "RECURSIVE_PDPT_BASE = RECURSIVE_PD_BASE OR push_bit 21 510"
  "RECURSIVE_PML4_BASE = RECURSIVE_PDPT_BASE OR push_bit 12 510"
  by (simp_all add: push_bit_eq_mult)

definition PTE_ADDR :: "u64 \<Rightarrow> u64" where
  "PTE_ADDR e = e AND 0x000FFFFFFFFFF000"

definition pte_present :: "u64 \<Rightarrow> bool" where
  "pte_present e \<longleftrightarrow> e AND PAGE_PRESENT \<noteq> 0"

definition pte_huge :: "u64 \<Rightarrow> bool" where
  "pte_huge e \<longleftrightarrow> e AND PAGE_HUGE \<noteq> 0"

definition IDX_PML4 :: "u64 \<Rightarrow> nat" where "IDX_PML4 v = unat (drop_bit 39 v AND 0x1FF)"
definition IDX_PDPT :: "u64 \<Rightarrow> nat" where "IDX_PDPT v = unat (drop_bit 30 v AND 0x1FF)"
definition IDX_PD :: "u64 \<Rightarrow> nat" where "IDX_PD v = unat (drop_bit 21 v AND 0x1FF)"
definition IDX_PT :: "u64 \<Rightarrow> nat" where "IDX_PT v = unat (drop_bit 12 v AND 0x1FF)"

text \<open>Entry \<open>i\<close> of a table, by the address of the table.\<close>

definition entry_at :: "u64 \<Rightarrow> nat \<Rightarrow> u64" where
  "entry_at table i = table + 8 * of_nat i"

definition PDPT_VIRT :: "nat \<Rightarrow> u64" where
  "PDPT_VIRT i4 = RECURSIVE_PDPT_BASE + of_nat i4 * PAGE_SIZE"

definition PD_VIRT_AT :: "nat \<Rightarrow> nat \<Rightarrow> u64" where
  "PD_VIRT_AT i4 i3 = RECURSIVE_PD_BASE + push_bit 21 (of_nat i4) + of_nat i3 * PAGE_SIZE"

definition PT_VIRT_AT :: "nat \<Rightarrow> nat \<Rightarrow> nat \<Rightarrow> u64" where
  "PT_VIRT_AT i4 i3 i2 = RECURSIVE_PT_BASE + push_bit 30 (of_nat i4) + push_bit 21 (of_nat i3) + of_nat i2 * PAGE_SIZE"

section \<open>The processor's walk\<close>

definition translate :: "paging \<Rightarrow> u64 \<Rightarrow> u64 option" where
  "translate s v =
     (let e4 = phys s (entry_at (PTE_ADDR (cr3 s)) (IDX_PML4 v))
      in if \<not> pte_present e4 \<or> pte_huge e4 then None
         else let e3 = phys s (entry_at (PTE_ADDR e4) (IDX_PDPT v))
         in if \<not> pte_present e3 then None
            else if pte_huge e3 then Some ((PTE_ADDR e3 AND NOT 0x3FFFFFFF) OR (v AND 0x3FFFFFFF))
            else let e2 = phys s (entry_at (PTE_ADDR e3) (IDX_PD v))
            in if \<not> pte_present e2 then None
               else if pte_huge e2 then Some ((PTE_ADDR e2 AND NOT 0x1FFFFF) OR (v AND 0x1FFFFF))
               else let e1 = phys s (entry_at (PTE_ADDR e2) (IDX_PT v))
               in if \<not> pte_present e1 then None
                  else Some (PTE_ADDR e1 OR (v AND 0xFFF)))"

definition put_word :: "u64 \<Rightarrow> u64 \<Rightarrow> paging \<Rightarrow> paging" where
  "put_word pa x s = s\<lparr> phys := (phys s)(pa := x) \<rparr>"

definition zero_frame :: "u64 \<Rightarrow> paging \<Rightarrow> paging" where
  "zero_frame pa s = s\<lparr> phys := (\<lambda>a. if a AND NOT PAGE_MASK = pa AND NOT PAGE_MASK then 0 else phys s a) \<rparr>"

definition read_pte :: "paging \<Rightarrow> u64 \<Rightarrow> u64 option" where
  "read_pte s va = map_option (phys s) (translate s va)"

definition write_pte :: "u64 \<Rightarrow> u64 \<Rightarrow> paging \<Rightarrow> paging option" where
  "write_pte va x s = map_option (\<lambda>pa. put_word pa x s) (translate s va)"

definition zero_page :: "u64 \<Rightarrow> paging \<Rightarrow> paging option" where
  "zero_page va s = map_option (\<lambda>pa. zero_frame pa s) (translate s va)"

definition alloc_table :: "paging \<Rightarrow> u64 \<times> paging" where
  "alloc_table s = (case pmm_alloc_frame (frames s) of (frame, p) \<Rightarrow> (frame, s\<lparr> frames := p \<rparr>))"

section \<open>Through the recursive slot\<close>

definition ensure_table :: "u64 \<Rightarrow> u64 \<Rightarrow> paging \<Rightarrow> (int \<times> paging) option" where
  "ensure_table slot table_virt s =
     Option.bind (read_pte s slot) (\<lambda>e.
       if pte_present e then Some (if pte_huge e then - 1 else 0, s)
       else case alloc_table s of
         (frame, s1) \<Rightarrow>
           if frame = 0 then Some (- 1, s1)
           else Option.bind (write_pte slot (frame OR PAGE_PRESENT OR PAGE_WRITABLE) s1) (\<lambda>s2.
                map_option (Pair 0) (zero_page table_virt s2)))"

text \<open>What follows if a call returned 0.\<close>

definition then_ok :: "(int \<times> paging) option \<Rightarrow> (paging \<Rightarrow> (int \<times> paging) option) \<Rightarrow> (int \<times> paging) option" where
  "then_ok r f = Option.bind r (\<lambda>(st, s). if st \<noteq> 0 then Some (- 1, s) else f s)"

definition map_page :: "u64 \<Rightarrow> u64 \<Rightarrow> u64 \<Rightarrow> paging \<Rightarrow> (int \<times> paging) option" where
  "map_page pa virt flags s =
     (if pa AND PAGE_MASK \<noteq> 0 then Some (- 1, s)
      else if virt AND PAGE_MASK \<noteq> 0 then Some (- 1, s)
      else
        let i4 = IDX_PML4 virt; i3 = IDX_PDPT virt; i2 = IDX_PD virt; i1 = IDX_PT virt
        in then_ok (ensure_table (entry_at RECURSIVE_PML4_BASE i4) (PDPT_VIRT i4) s) (\<lambda>s1.
           then_ok (ensure_table (entry_at (PDPT_VIRT i4) i3) (PD_VIRT_AT i4 i3) s1) (\<lambda>s2.
           then_ok (ensure_table (entry_at (PD_VIRT_AT i4 i3) i2) (PT_VIRT_AT i4 i3 i2) s2) (\<lambda>s3.
           map_option (Pair 0)
             (write_pte (entry_at (PT_VIRT_AT i4 i3 i2) i1)
                (PTE_ADDR pa OR PAGE_PRESENT OR (flags AND PAGE_FLAG_MASK)) s3)))))"

definition unmap_page :: "u64 \<Rightarrow> paging \<Rightarrow> paging option" where
  "unmap_page virt s =
     (let i4 = IDX_PML4 virt; i3 = IDX_PDPT virt; i2 = IDX_PD virt; i1 = IDX_PT virt
      in Option.bind (read_pte s (entry_at RECURSIVE_PML4_BASE i4)) (\<lambda>e4.
         if \<not> pte_present e4 then Some s
         else Option.bind (read_pte s (entry_at (PDPT_VIRT i4) i3)) (\<lambda>e3.
         if \<not> pte_present e3 then Some s
         else Option.bind (read_pte s (entry_at (PD_VIRT_AT i4 i3) i2)) (\<lambda>e2.
         if \<not> pte_present e2 \<or> pte_huge e2 then Some s
         else write_pte (entry_at (PT_VIRT_AT i4 i3 i2) i1) 0 s))))"

definition virt_to_phys :: "u64 \<Rightarrow> paging \<Rightarrow> u64 option" where
  "virt_to_phys virt s =
     (let i4 = IDX_PML4 virt; i3 = IDX_PDPT virt; i2 = IDX_PD virt; i1 = IDX_PT virt
      in Option.bind (read_pte s (entry_at RECURSIVE_PML4_BASE i4)) (\<lambda>e4.
         if \<not> pte_present e4 then Some PHYS_ADDR_INVALID
         else Option.bind (read_pte s (entry_at (PDPT_VIRT i4) i3)) (\<lambda>e3.
         if \<not> pte_present e3 then Some PHYS_ADDR_INVALID
         else Option.bind (read_pte s (entry_at (PD_VIRT_AT i4 i3) i2)) (\<lambda>e2.
         if \<not> pte_present e2 then Some PHYS_ADDR_INVALID
         else if pte_huge e2 then Some (PTE_ADDR e2 OR (virt AND (HUGE_2M - 1)))
         else Option.bind (read_pte s (entry_at (PT_VIRT_AT i4 i3 i2) i1)) (\<lambda>e.
         if \<not> pte_present e then Some PHYS_ADDR_INVALID
         else Some (PTE_ADDR e OR (virt AND PAGE_MASK)))))))"

section \<open>At boot\<close>

text \<open>Tables are reached by their physical addresses, which the boot loader maps one to one.\<close>

definition boot_ensure :: "u64 \<Rightarrow> paging \<Rightarrow> int \<times> paging" where
  "boot_ensure slot s =
     (if pte_present (phys s slot) then (0, s)
      else case alloc_table s of
        (frame, s1) \<Rightarrow>
          if frame = 0 then (- 1, s1)
          else (0, put_word slot (frame OR PAGE_PRESENT OR PAGE_WRITABLE) (zero_frame frame s1)))"

definition boot_map_2m :: "u64 \<Rightarrow> u64 \<Rightarrow> u64 \<Rightarrow> u64 \<Rightarrow> paging \<Rightarrow> int \<times> paging" where
  "boot_map_2m pml4 pa virt flags s =
     (case boot_ensure (entry_at pml4 (IDX_PML4 virt)) s of
        (st, s1) \<Rightarrow>
          if st \<noteq> 0 then (- 1, s1)
          else let pdpt = PTE_ADDR (phys s1 (entry_at pml4 (IDX_PML4 virt)))
          in case boot_ensure (entry_at pdpt (IDX_PDPT virt)) s1 of
            (st, s2) \<Rightarrow>
              if st \<noteq> 0 then (- 1, s2)
              else let pd = PTE_ADDR (phys s2 (entry_at pdpt (IDX_PDPT virt)))
              in (0, put_word (entry_at pd (IDX_PD virt))
                       ((pa AND NOT (HUGE_2M - 1)) OR PAGE_PRESENT OR PAGE_HUGE OR (flags AND PAGE_FLAG_MASK)) s2))"

definition boot_map_4k :: "u64 \<Rightarrow> u64 \<Rightarrow> u64 \<Rightarrow> u64 \<Rightarrow> paging \<Rightarrow> int \<times> paging" where
  "boot_map_4k pml4 pa virt flags s =
     (case boot_ensure (entry_at pml4 (IDX_PML4 virt)) s of
        (st, s1) \<Rightarrow>
          if st \<noteq> 0 then (- 1, s1)
          else let pdpt = PTE_ADDR (phys s1 (entry_at pml4 (IDX_PML4 virt)))
          in case boot_ensure (entry_at pdpt (IDX_PDPT virt)) s1 of
            (st, s2) \<Rightarrow>
              if st \<noteq> 0 then (- 1, s2)
              else let pd = PTE_ADDR (phys s2 (entry_at pdpt (IDX_PDPT virt)))
              in if pte_huge (phys s2 (entry_at pd (IDX_PD virt))) then (- 1, s2)
                 else case boot_ensure (entry_at pd (IDX_PD virt)) s2 of
                   (st, s3) \<Rightarrow>
                     if st \<noteq> 0 then (- 1, s3)
                     else let pt = PTE_ADDR (phys s3 (entry_at pd (IDX_PD virt)))
                     in (0, put_word (entry_at pt (IDX_PT virt))
                              (PTE_ADDR pa OR PAGE_PRESENT OR (flags AND PAGE_FLAG_MASK)) s3))"

partial_function (option) map_2m_loop :: "u64 \<Rightarrow> u64 \<Rightarrow> u64 \<Rightarrow> u64 \<Rightarrow> u64 \<Rightarrow> paging \<Rightarrow> (int \<times> paging) option" where
  "map_2m_loop pml4 flags last_v p v s =
     (if v < last_v then
        case boot_map_2m pml4 p v flags s of
          (st, s1) \<Rightarrow> if st \<noteq> 0 then Some (- 1, s1) else map_2m_loop pml4 flags last_v (p + HUGE_2M) (v + HUGE_2M) s1
      else Some (0, s))"

definition boot_map_range_2m :: "u64 \<Rightarrow> u64 \<Rightarrow> u64 \<Rightarrow> u64 \<Rightarrow> u64 \<Rightarrow> paging \<Rightarrow> (int \<times> paging) option" where
  "boot_map_range_2m pml4 pa virt len flags s =
     map_2m_loop pml4 flags ((virt + len + HUGE_2M - 1) AND NOT (HUGE_2M - 1))
       (pa AND NOT (HUGE_2M - 1)) (virt AND NOT (HUGE_2M - 1)) s"

partial_function (option) map_4k_loop :: "u64 \<Rightarrow> u64 \<Rightarrow> u64 \<Rightarrow> paging \<Rightarrow> (int \<times> paging) option" where
  "map_4k_loop pml4 phys_end p s =
     (if p < phys_end then
        case boot_map_4k pml4 p (KERNEL_VIRT_BASE + p) PAGE_WRITABLE s of
          (st, s1) \<Rightarrow> if st \<noteq> 0 then Some (- 1, s1) else map_4k_loop pml4 phys_end (p + PAGE_SIZE) s1
      else Some (0, s))"

definition identity_window :: "u64 \<Rightarrow> u64" where
  "identity_window ram =
     (let ident = (if ram > 0x100000000 then 0x100000000 else ram) AND NOT (HUGE_2M - 1)
      in if ident < HUGE_2M then HUGE_2M else ident)"

definition direct_map_length :: "u64 \<Rightarrow> u64" where
  "direct_map_length ram =
     ((if ram > DIRECT_MAP_SIZE then DIRECT_MAP_SIZE else ram) + HUGE_2M - 1) AND NOT (HUGE_2M - 1)"

text \<open>The symbols of the linker are parameters. The last lines round the end of the tables up.\<close>

definition paging_end_addr :: "u64 \<Rightarrow> u64 \<Rightarrow> u64" where
  "paging_end_addr root kernel_phys_end =
     (let kend = (kernel_phys_end + PAGE_MASK) AND NOT PAGE_MASK;
          paging_end = (if root + PAGE_SIZE < kend then kend else root + PAGE_SIZE)
      in (paging_end + 4096 - 1) AND NOT 4096)"

definition paging_init :: "u64 \<Rightarrow> u64 \<Rightarrow> paging \<Rightarrow> (int \<times> paging) option" where
  "paging_init kernel_phys_start kernel_phys_end s =
     (case alloc_table s of
        (root, s0) \<Rightarrow>
          if root = 0 then Some (- 1, s0\<lparr> root_phys := root \<rparr>)
          else
            let s1 = zero_frame root (s0\<lparr> root_phys := root \<rparr>);
                ram = pmm_get_total_ram (frames s1);
                ident = identity_window ram
            in then_ok (boot_map_range_2m root 0 0 ident PAGE_WRITABLE s1) (\<lambda>s2.
               then_ok (boot_map_range_2m root 0 DIRECT_MAP_BASE (direct_map_length ram) (PAGE_WRITABLE OR PAGE_NX)
                          (s2\<lparr> identity_map_size := ident \<rparr>)) (\<lambda>s3.
               then_ok (map_4k_loop root ((kernel_phys_end + PAGE_MASK) AND NOT PAGE_MASK) kernel_phys_start s3) (\<lambda>s4.
               let s5 = (put_word (entry_at root RECURSIVE_PML4_INDEX) (root OR PAGE_PRESENT OR PAGE_WRITABLE) s4)\<lparr> cr3 := root \<rparr>
               in Option.bind (read_pte s5 (entry_at RECURSIVE_PML4_BASE RECURSIVE_PML4_INDEX)) (\<lambda>e.
                  if \<not> pte_present e then None
                  else Some (0, s5\<lparr> frames := pmm_set_kernel_end (paging_end_addr root kernel_phys_end) (frames s5) \<rparr>))))))"

definition paging_get_identity_size :: "paging \<Rightarrow> u64" where
  "paging_get_identity_size s = identity_map_size s"

end
