(* ===== verification/PagingSpec.thy ===== *)
theory PagingSpec
  imports Paging
begin

text \<open>
  The page tables as a map from paths to entries. A path is the list of indices that lead from
  the top-level table to a table, the last one first; \<open>entry s p i\<close> is entry \<open>i\<close> of the table at
  the end of path \<open>p\<close>, 0 if there is none. \<open>tables_ok\<close> says that the tables form a tree of
  frames that are in use, with the recursive slot at its top.
\<close>

section \<open>Virtual addresses\<close>

lemma and_mask_unat: "unat (x AND mask n :: 'a::len word) = unat x mod 2 ^ n"
  unfolding take_bit_eq_mask [symmetric] unsigned_take_bit_eq by (rule take_bit_eq_mod)

lemma masks: "(0x1FF :: u64) = mask 9" "(0xFFF :: u64) = mask 12" "(0x1FFFFF :: u64) = mask 21" "(0x3FFFFFFF :: u64) = mask 30"
  by (simp_all add: mask_eq_exp_minus_1)

definition vaddr :: "nat \<Rightarrow> nat \<Rightarrow> nat \<Rightarrow> nat \<Rightarrow> nat \<Rightarrow> nat \<Rightarrow> nat" where
  "vaddr h i4 i3 i2 i1 off = ((((h * 512 + i4) * 512 + i3) * 512 + i2) * 512 + i1) * 4096 + off"

lemma div_place: "i < (b::nat) \<Longrightarrow> (x * b + i) div b = x" "i < b \<Longrightarrow> (x * b + i) mod b = i"
  by simp_all

lemma idx_unat:
  "IDX_PML4 v = unat v div 4096 div 512 div 512 div 512 mod 512" "IDX_PDPT v = unat v div 4096 div 512 div 512 mod 512"
  "IDX_PD v = unat v div 4096 div 512 mod 512" "IDX_PT v = unat v div 4096 mod 512" "unat (v AND 0xFFF) = unat v mod 4096"
  unfolding IDX_PML4_def IDX_PDPT_def IDX_PD_def IDX_PT_def masks and_mask_unat
  by (simp_all add: drop_bit_eq_div unat_div div_mult2_eq [symmetric])

lemma idx_vaddr:
  assumes "unat v = vaddr h i4 i3 i2 i1 off" "i4 < 512" "i3 < 512" "i2 < 512" "i1 < 512" "off < 4096"
  shows "IDX_PML4 v = i4" "IDX_PDPT v = i3" "IDX_PD v = i2" "IDX_PT v = i1" "unat (v AND 0xFFF) = off"
  unfolding idx_unat assms(1) vaddr_def by (simp_all only: div_place assms(2-6))

lemma idx_lt: "IDX_PML4 v < 512" "IDX_PDPT v < 512" "IDX_PD v < 512" "IDX_PT v < 512"
  by (simp_all add: idx_unat)

text \<open>The virtual address of entry \<open>i\<close> of the table at the end of a path.\<close>

fun slot_va :: "nat list \<Rightarrow> nat \<Rightarrow> u64" where
  "slot_va [] i = entry_at RECURSIVE_PML4_BASE i"
| "slot_va [i4] i = entry_at (PDPT_VIRT i4) i"
| "slot_va [i3, i4] i = entry_at (PD_VIRT_AT i4 i3) i"
| "slot_va (i2 # i3 # i4 # p) i = entry_at (PT_VIRT_AT i4 i3 i2) i"

lemma vaddr_lt: "i4 < 512 \<Longrightarrow> i3 < 512 \<Longrightarrow> i2 < 512 \<Longrightarrow> i1 < 512 \<Longrightarrow> i < 512 \<Longrightarrow> vaddr 65535 i4 i3 i2 i1 (8 * i) < 2 ^ 64"
  by (simp add: vaddr_def)

lemma slot_va_unat:
  assumes "i4 < 512" "i3 < 512" "i2 < 512" "i < 512"
  shows "unat (slot_va [] i) = vaddr 65535 510 510 510 510 (8 * i)"
    "unat (slot_va [i4] i) = vaddr 65535 510 510 510 i4 (8 * i)"
    "unat (slot_va [i3, i4] i) = vaddr 65535 510 510 i4 i3 (8 * i)"
    "unat (slot_va [i2, i3, i4] i) = vaddr 65535 510 i4 i3 i2 (8 * i)"
proof -
  have w: "slot_va [] i = of_nat (vaddr 65535 510 510 510 510 (8 * i))"
    "slot_va [i4] i = of_nat (vaddr 65535 510 510 510 i4 (8 * i))"
    "slot_va [i3, i4] i = of_nat (vaddr 65535 510 510 i4 i3 (8 * i))"
    "slot_va [i2, i3, i4] i = of_nat (vaddr 65535 510 i4 i3 i2 (8 * i))"
    by (simp_all add: vaddr_def entry_at_def PDPT_VIRT_def PD_VIRT_AT_def PT_VIRT_AT_def push_bit_eq_mult algebra_simps)
  show "unat (slot_va [] i) = vaddr 65535 510 510 510 510 (8 * i)"
    "unat (slot_va [i4] i) = vaddr 65535 510 510 510 i4 (8 * i)"
    "unat (slot_va [i3, i4] i) = vaddr 65535 510 510 i4 i3 (8 * i)"
    "unat (slot_va [i2, i3, i4] i) = vaddr 65535 510 i4 i3 i2 (8 * i)"
    unfolding w using assms by (simp_all add: unat_of_nat_small vaddr_lt [simplified])
qed

section \<open>Tables and entries\<close>

definition table_addr :: "u64 \<Rightarrow> bool" where
  "table_addr t \<longleftrightarrow> PTE_ADDR t = t"

fun node :: "paging \<Rightarrow> nat list \<Rightarrow> u64 option" where
  "node s [] = Some (cr3 s)"
| "node s (i # p) = (case node s p of None \<Rightarrow> None
     | Some t \<Rightarrow> let e = phys s (entry_at t i) in if pte_present e \<and> \<not> pte_huge e then Some (PTE_ADDR e) else None)"

definition entry :: "paging \<Rightarrow> nat list \<Rightarrow> nat \<Rightarrow> u64" where
  "entry s p i = (case node s p of None \<Rightarrow> 0 | Some t \<Rightarrow> phys s (entry_at t i))"

lemma absent [simp]: "\<not> pte_present 0" "\<not> pte_huge 0"
  by (simp_all add: pte_present_def pte_huge_def)

lemma node_entry: "node s (i # p) = (let e = entry s p i in if pte_present e \<and> \<not> pte_huge e then Some (PTE_ADDR e) else None)"
  by (simp add: entry_def split: option.split)

definition valid :: "nat list \<Rightarrow> bool" where
  "valid p \<longleftrightarrow> length p \<le> 3 \<and> (\<forall>i \<in> set p. i < 512) \<and> (p \<noteq> [] \<longrightarrow> last p \<noteq> 510)"

definition rec_slot :: "paging \<Rightarrow> bool" where
  "rec_slot s \<longleftrightarrow> table_addr (cr3 s) \<and>
     (let e = phys s (entry_at (cr3 s) 510) in pte_present e \<and> \<not> pte_huge e \<and> PTE_ADDR e = cr3 s)"

definition tables_ok :: "paging \<Rightarrow> bool" where
  "tables_ok s \<longleftrightarrow> pmm_ok (frames s) \<and> 0 \<notin> frees (frames s) \<and> rec_slot s \<and>
     (\<forall>p t. valid p \<and> node s p = Some t \<longrightarrow> first_frame t \<notin> frees (frames s)) \<and>
     (\<forall>p q t. valid p \<and> valid q \<and> node s p = Some t \<and> node s q = Some t \<longrightarrow> p = q)"

lemma tables_okD:
  assumes "tables_ok s"
  shows "pmm_ok (frames s)" "0 \<notin> frees (frames s)" "rec_slot s"
    "valid p \<Longrightarrow> node s p = Some t \<Longrightarrow> first_frame t \<notin> frees (frames s)"
    "valid p \<Longrightarrow> valid q \<Longrightarrow> node s p = Some t \<Longrightarrow> node s q = Some t \<Longrightarrow> p = q"
  using assms unfolding tables_ok_def by blast+

lemma tables_okI:
  assumes "pmm_ok (frames s)" "0 \<notin> frees (frames s)" "rec_slot s"
    "\<And>p t. valid p \<Longrightarrow> node s p = Some t \<Longrightarrow> first_frame t \<notin> frees (frames s)"
    "\<And>p q t. valid p \<Longrightarrow> valid q \<Longrightarrow> node s p = Some t \<Longrightarrow> node s q = Some t \<Longrightarrow> p = q"
  shows "tables_ok s"
  using assms unfolding tables_ok_def by blast

lemma table_addr_PTE [simp]: "table_addr (PTE_ADDR e)"
  by (simp add: table_addr_def PTE_ADDR_def and.assoc)

lemma rec_slotD: "rec_slot s \<Longrightarrow> table_addr (cr3 s)"
  by (simp add: rec_slot_def)

lemma node_table: "rec_slot s \<Longrightarrow> node s p = Some t \<Longrightarrow> table_addr t"
  by (cases p) (auto simp: rec_slotD Let_def split: option.splits if_splits)

text \<open>Entries of tables do not overlap.\<close>

lemma table_low:
  assumes "table_addr t"
  shows "t AND 0xFFF = 0" "unat t mod 4096 = 0" "unat t < 2 ^ 52"
proof -
  have e: "t = t AND 0x000FFFFFFFFFF000" using assms by (simp add: table_addr_def PTE_ADDR_def)
  have "t AND 0xFFF = t AND (0x000FFFFFFFFFF000 AND 0xFFF)" by (subst e) (simp only: and.assoc)
  then show l: "t AND 0xFFF = 0" by simp
  show "unat t mod 4096 = 0" using idx_unat(5) [of t] l by simp
  have "(0x000FFFFFFFFFF000 :: u64) = 0x000FFFFFFFFFF000 AND mask 52" by (simp add: mask_eq_exp_minus_1)
  then have "t AND 0x000FFFFFFFFFF000 = t AND (0x000FFFFFFFFFF000 AND mask 52)" by (rule arg_cong)
  also have "\<dots> = (t AND 0x000FFFFFFFFFF000) AND mask 52" by (simp only: and.assoc)
  finally have "t = t AND mask 52" by (simp only: e [symmetric])
  then have "unat t = unat t mod 2 ^ 52" using and_mask_unat [of t 52] by simp
  then show "unat t < 2 ^ 52" using mod_less_divisor [of "2 ^ 52" "unat t"] by simp
qed

lemma entry_at_unat: "table_addr t \<Longrightarrow> i < 512 \<Longrightarrow> unat (entry_at t i) = unat t + 8 * i"
proof -
  assume t: "table_addr t" and i: "i < 512"
  have e: "(8 * of_nat i :: u64) = of_nat (8 * i)" by simp
  have u: "unat (8 * of_nat i :: u64) = 8 * i" unfolding e by (rule unat_of_nat_small) (use i in simp)
  show ?thesis using table_low(3) [OF t] i u by (simp add: entry_at_def unat_add_small)
qed

lemma entry_page: "table_addr t \<Longrightarrow> i < 512 \<Longrightarrow> entry_at t i AND NOT 0xFFF = t"
proof -
  assume t: "table_addr t" and i: "i < 512"
  have "x AND NOT 0xFFF = push_bit 12 (drop_bit 12 x)" for x :: u64
    unfolding masks by (rule bit_word_eqI) (auto simp: bit_and_iff bit_not_iff bit_mask_iff bit_push_bit_iff bit_drop_bit_eq)
  then have e: "x AND NOT 0xFFF = x div 4096 * 4096" for x :: u64 by (simp add: push_bit_eq_mult drop_bit_eq_div)
  have "entry_at t i div 4096 = t div 4096"
  proof -
    have "unat (entry_at t i) div 4096 = unat t div 4096"
      using table_low(2) [OF t] entry_at_unat [OF t i] i by (auto elim!: dvdE simp flip: dvd_eq_mod_eq_0)
    then show ?thesis by (simp add: word_unat_eq_iff unat_div)
  qed
  moreover have "t div 4096 * 4096 = t"
    using e [of t] table_low(1) [OF t] by (metis (no_types, lifting) and.right_neutral bit.conj_disj_distrib bit.disj_cancel_right or.right_neutral or.commute)
  ultimately show ?thesis using e by simp
qed

lemma entry_at_inj: "table_addr t \<Longrightarrow> table_addr u \<Longrightarrow> i < 512 \<Longrightarrow> j < 512 \<Longrightarrow> entry_at t i = entry_at u j \<longleftrightarrow> t = u \<and> i = j"
  using entry_page [of t i] entry_page [of u j] entry_at_unat [of t i] entry_at_unat [of u j] by auto

section \<open>Reaching a table through the recursive slot\<close>

lemma unat_8: "i < 512 \<Longrightarrow> unat (8 * of_nat i :: u64) = 8 * i"
proof -
  assume i: "i < 512"
  have e: "(8 * of_nat i :: u64) = of_nat (8 * i)" by simp
  show ?thesis unfolding e by (rule unat_of_nat_small) (use i in simp)
qed

lemma low_or: "table_addr t \<Longrightarrow> i < 512 \<Longrightarrow> unat (v AND 0xFFF) = 8 * i \<Longrightarrow> t OR (v AND 0xFFF) = entry_at t i"
proof -
  assume t: "table_addr t" and i: "i < 512" and v: "unat (v AND 0xFFF) = 8 * i"
  have "t AND (v AND 0xFFF) = (t AND 0xFFF) AND v" by (simp only: ac_simps)
  then have "t AND (v AND 0xFFF) = 0" using table_low(1) [OF t] by simp
  then have "t OR (v AND 0xFFF) = t + (v AND 0xFFF)" by (simp add: disjunctive_add_eq_or)
  moreover have "v AND 0xFFF = 8 * of_nat i" using v unat_8 [OF i] by (simp add: word_unat_eq_iff)
  ultimately show ?thesis by (simp add: entry_at_def)
qed

lemma valid_Cons: "valid (i # p) \<Longrightarrow> valid p \<and> i < 512 \<and> (p = [] \<longrightarrow> i \<noteq> 510) \<and> length p \<le> 2"
  by (auto simp: valid_def)

lemma present_huge_mono: "node s (i # p) = Some t \<Longrightarrow> \<exists>u. node s p = Some u \<and> pte_present (phys s (entry_at u i)) \<and>
    \<not> pte_huge (phys s (entry_at u i)) \<and> t = PTE_ADDR (phys s (entry_at u i))"
  by (auto simp: Let_def split: option.splits if_splits)

text \<open>The walk of the processor to the slot of a table that exists ends at its entry.\<close>

lemma rec_walk:
  assumes r: "rec_slot s" and v: "valid p" and n: "node s p = Some t" and i: "i < 512"
  shows "translate s (slot_va p i) = Some (entry_at t i)"
proof -
  have R: "pte_present (phys s (entry_at (cr3 s) 510))" "\<not> pte_huge (phys s (entry_at (cr3 s) 510))"
    "PTE_ADDR (phys s (entry_at (cr3 s) 510)) = cr3 s" "PTE_ADDR (cr3 s) = cr3 s"
    using r by (auto simp: rec_slot_def Let_def table_addr_def)
  have T: "table_addr t" by (rule node_table [OF r n])
  have i8: "8 * i < 4096" using i by simp
  consider "p = []" | i4 where "p = [i4]" | i3 i4 where "p = [i3, i4]" | i2 i3 i4 where "p = [i2, i3, i4]"
    using v by (auto simp: valid_def length_Suc_conv le_Suc_eq numeral_3_eq_3)
  then show ?thesis
  proof cases
    case 1
    have u: "unat (slot_va p i) = vaddr 65535 510 510 510 510 (8 * i)" using slot_va_unat(1) [of 0 0 0 i] i 1 by simp
    note X = idx_vaddr [OF u _ _ _ _ i8, simplified]
    have "t = cr3 s" using n 1 by simp
    then show ?thesis using low_or [OF T i X(5)] R by (simp add: translate_def X Let_def)
  next
    case 2
    have j: "i4 < 512" using v 2 by (simp add: valid_def)
    have u: "unat (slot_va p i) = vaddr 65535 510 510 510 i4 (8 * i)" using slot_va_unat(2) [OF j _ _ i, of 0 0] 2 by simp
    note X = idx_vaddr [OF u _ _ _ j i8, simplified]
    have E: "pte_present (phys s (entry_at (cr3 s) i4))" "t = PTE_ADDR (phys s (entry_at (cr3 s) i4))"
      using present_huge_mono [OF n [unfolded 2]] by auto
    show ?thesis using low_or [OF T i X(5)] R E by (simp add: translate_def X Let_def)
  next
    case 3
    have j: "i4 < 512" "i3 < 512" using v 3 by (simp_all add: valid_def)
    have u: "unat (slot_va p i) = vaddr 65535 510 510 i4 i3 (8 * i)" using slot_va_unat(3) [OF j _ i, of 0] 3 by simp
    note X = idx_vaddr [OF u _ _ j i8, simplified]
    obtain t3 where E: "node s [i4] = Some t3" "pte_present (phys s (entry_at t3 i3))" "t = PTE_ADDR (phys s (entry_at t3 i3))"
      using present_huge_mono [OF n [unfolded 3]] by auto
    have F: "pte_present (phys s (entry_at (cr3 s) i4))" "\<not> pte_huge (phys s (entry_at (cr3 s) i4))" "t3 = PTE_ADDR (phys s (entry_at (cr3 s) i4))"
      using present_huge_mono [OF E(1)] by auto
    show ?thesis using low_or [OF T i X(5)] R E F by (simp add: translate_def X Let_def)
  next
    case 4
    have j: "i4 < 512" "i3 < 512" "i2 < 512" using v 4 by (simp_all add: valid_def)
    have u: "unat (slot_va p i) = vaddr 65535 510 i4 i3 i2 (8 * i)" using slot_va_unat(4) [OF j i] 4 by simp
    note X = idx_vaddr [OF u _ j i8, simplified]
    obtain t2 where D: "node s [i3, i4] = Some t2" "pte_present (phys s (entry_at t2 i2))" "\<not> pte_huge (phys s (entry_at t2 i2))"
      "t = PTE_ADDR (phys s (entry_at t2 i2))"
      using present_huge_mono [OF n [unfolded 4]] by auto
    obtain t3 where E: "node s [i4] = Some t3" "pte_present (phys s (entry_at t3 i3))" "\<not> pte_huge (phys s (entry_at t3 i3))"
      "t2 = PTE_ADDR (phys s (entry_at t3 i3))"
      using present_huge_mono [OF D(1)] by auto
    have F: "pte_present (phys s (entry_at (cr3 s) i4))" "\<not> pte_huge (phys s (entry_at (cr3 s) i4))" "t3 = PTE_ADDR (phys s (entry_at (cr3 s) i4))"
      using present_huge_mono [OF E(1)] by auto
    show ?thesis using low_or [OF T i X(5)] R D E F by (simp add: translate_def X Let_def)
  qed
qed

text \<open>A translation is a walk over the map of entries.\<close>

definition walk :: "(nat list \<Rightarrow> nat \<Rightarrow> u64) \<Rightarrow> u64 \<Rightarrow> u64 option" where
  "walk E v =
     (let i4 = IDX_PML4 v; i3 = IDX_PDPT v; i2 = IDX_PD v; i1 = IDX_PT v;
          e4 = E [] i4; e3 = E [i4] i3; e2 = E [i3, i4] i2; e1 = E [i2, i3, i4] i1
      in if \<not> pte_present e4 \<or> pte_huge e4 \<or> \<not> pte_present e3 then None
         else if pte_huge e3 then Some ((PTE_ADDR e3 AND NOT 0x3FFFFFFF) OR (v AND 0x3FFFFFFF))
         else if \<not> pte_present e2 then None
         else if pte_huge e2 then Some ((PTE_ADDR e2 AND NOT 0x1FFFFF) OR (v AND 0x1FFFFF))
         else if \<not> pte_present e1 then None
         else Some (PTE_ADDR e1 OR (v AND 0xFFF)))"

lemma translate_walk: "rec_slot s \<Longrightarrow> translate s v = walk (entry s) v"
  by (simp add: translate_def walk_def entry_def Let_def rec_slot_def table_addr_def)

section \<open>Writing an entry\<close>

lemma node_put_short:
  assumes "tables_ok s" "valid p" "node s p = Some t" "i < 512" "valid q" "length q \<le> length p"
  shows "node (put_word (entry_at t i) x s) q = node s q"
  using assms(5,6)
proof (induction q)
  case (Cons j q)
  note V = valid_Cons [OF Cons.prems(1)]
  have ih: "node (put_word (entry_at t i) x s) q = node s q" using Cons V by simp
  show ?case
  proof (cases "node s q")
    case (Some u)
    have "q \<noteq> p" using Cons.prems(2) by auto
    then have "u \<noteq> t" using tables_okD(5) [OF assms(1)] V assms(2,3) Some by blast
    moreover have "table_addr u" "table_addr t" using node_table [OF tables_okD(3) [OF assms(1)]] Some assms(3) by blast+
    ultimately have "entry_at u j \<noteq> entry_at t i" using entry_at_inj V assms(4) by blast
    then show ?thesis using ih Some by (simp add: put_word_def)
  qed (use ih in simp)
qed (simp add: put_word_def)

lemma rec_slot_put:
  assumes "tables_ok s" "valid p" "node s p = Some t" "i < 512" "p = [] \<longrightarrow> i \<noteq> 510"
  shows "rec_slot (put_word (entry_at t i) x s)"
proof -
  have r: "rec_slot s" by (rule tables_okD(3) [OF assms(1)])
  have T: "table_addr t" "table_addr (cr3 s)" using node_table [OF r assms(3)] rec_slotD [OF r] by simp_all
  have "t = cr3 s \<longrightarrow> p = []" using tables_okD(5) [OF assms(1,2), of "[]"] assms(3) by (auto simp: valid_def)
  then have "entry_at (cr3 s) 510 \<noteq> entry_at t i" using entry_at_inj [OF T(2,1), of 510 i] assms(4,5) by auto
  then show ?thesis using r by (simp add: rec_slot_def put_word_def)
qed

text \<open>An entry that leads to no table, before and after: nothing but the entry changes.\<close>

lemma node_put_leaf:
  assumes "tables_ok s" "valid p" "node s p = Some t" "i < 512" "length p = 3" "valid q"
  shows "node (put_word (entry_at t i) x s) q = node s q"
  using node_put_short [OF assms(1-4,6)] assms(5,6) by (simp add: valid_def)

lemma entry_put_leaf:
  assumes "tables_ok s" "valid p" "node s p = Some t" "i < 512" "length p = 3" "valid q" "j < 512"
  shows "entry (put_word (entry_at t i) x s) q j = (if q = p \<and> j = i then x else entry s q j)"
proof (cases "node s q")
  case None
  then show ?thesis using node_put_leaf [OF assms(1-6)] assms(3) by (auto simp: entry_def)
next
  case (Some u)
  have T: "table_addr t" "table_addr u" using node_table [OF tables_okD(3) [OF assms(1)]] Some assms(3) by blast+
  have "u = t \<longleftrightarrow> q = p" using tables_okD(5) [OF assms(1,2,6,3)] Some assms(3) by auto
  then have "entry_at u j = entry_at t i \<longleftrightarrow> q = p \<and> j = i" using entry_at_inj [OF T(2,1) assms(7,4)] by simp
  then show ?thesis using node_put_leaf [OF assms(1-6), of x] Some by (auto simp: entry_def put_word_def)
qed

lemma tables_put_leaf:
  assumes "tables_ok s" "valid p" "node s p = Some t" "i < 512" "length p = 3"
  shows "tables_ok (put_word (entry_at t i) x s)"
proof -
  note D = tables_okD [OF assms(1)] and N = node_put_leaf [OF assms]
  have f: "frames (put_word (entry_at t i) x s) = frames s" by (simp add: put_word_def)
  show ?thesis
  proof (rule tables_okI)
    show "rec_slot (put_word (entry_at t i) x s)" using assms by (intro rec_slot_put) auto
  next
    fix p q u assume "valid p" "valid q" "node (put_word (entry_at t i) x s) p = Some u" "node (put_word (entry_at t i) x s) q = Some u"
    then show "p = q" using D(5) N by simp
  qed (use D N f in simp_all)
qed

section \<open>A new table\<close>

text \<open>Physical addresses have 52 bits.\<close>

definition ram_ok :: "paging \<Rightarrow> bool" where
  "ram_ok s \<longleftrightarrow> nframes (frames s) \<le> 2 ^ 40"

lemma frame_table:
  assumes "tables_ok s" "ram_ok s" "f \<in> frees (frames s)"
  shows "table_addr (frame_addr f)" "first_frame (frame_addr f) = f" "frame_addr f \<noteq> 0"
    "valid q \<Longrightarrow> node s q = Some u \<Longrightarrow> u \<noteq> frame_addr f"
proof -
  have f: "f < 2 ^ 40" "f \<noteq> 0" using assms(2,3) tables_okD(2) [OF assms(1)] by (auto simp: ram_ok_def frees_def intro: gr0I)
  then have f52: "f < 2 ^ 52" by simp
  show ff: "first_frame (frame_addr f) = f" "frame_addr f \<noteq> 0" using frame_addr_is [OF f52] f(2) by simp_all
  show "valid q \<Longrightarrow> node s q = Some u \<Longrightarrow> u \<noteq> frame_addr f" using tables_okD(4) [OF assms(1)] assms(3) ff(1) by metis
  have m: "(0x000FFFFFFFFFF000 :: u64) = push_bit 12 (mask 40)" by (simp add: mask_eq_exp_minus_1 push_bit_eq_mult)
  have t: "take_bit 40 (of_nat f :: u64) = of_nat f"
  proof -
    have "unat (take_bit 40 (of_nat f :: u64)) = f" using f(1) by (simp add: unsigned_take_bit_eq unat_of_nat_small take_bit_nat_eq_self)
    then show ?thesis using f(1) by (simp add: word_unat_eq_iff unat_of_nat_small)
  qed
  have "PTE_ADDR (frame_addr f) = push_bit 12 (of_nat f AND mask 40)"
    unfolding PTE_ADDR_def frame_addr_def m FRAME_SIZE_SHIFT_def
    by (rule bit_word_eqI) (auto simp: bit_and_iff bit_push_bit_iff bit_mask_iff)
  also have "of_nat f AND mask 40 = (of_nat f :: u64)" using t by (simp add: take_bit_eq_mask)
  finally show "table_addr (frame_addr f)" by (simp add: table_addr_def frame_addr_def)
qed

lemma table_pte:
  assumes "table_addr t"
  shows "PTE_ADDR (t OR PAGE_PRESENT OR PAGE_WRITABLE) = t" "pte_present (t OR PAGE_PRESENT OR PAGE_WRITABLE)"
    "\<not> pte_huge (t OR PAGE_PRESENT OR PAGE_WRITABLE)"
proof -
  have t: "t AND 0x000FFFFFFFFFF000 = t" using assms by (simp add: table_addr_def PTE_ADDR_def)
  have "(t OR 1 OR 2) AND 0x000FFFFFFFFFF000 = t AND 0x000FFFFFFFFFF000 OR (1 OR 2) AND 0x000FFFFFFFFFF000"
    by (simp only: bit.conj_disj_distrib2)
  then show "PTE_ADDR (t OR PAGE_PRESENT OR PAGE_WRITABLE) = t" by (simp add: PTE_ADDR_def t)
  have b: "bit (t OR 1 OR 2) 0" by (simp add: bit_or_iff)
  have "bit ((t OR 1 OR 2) AND 1) 0" using b by (simp add: bit_and_iff)
  then show "pte_present (t OR PAGE_PRESENT OR PAGE_WRITABLE)" by (auto simp: pte_present_def)
  have "(t OR 1 OR 2) AND 0x80 = t AND 0x80" by (simp add: bit.conj_disj_distrib2)
  also have "t AND 0x80 = t AND (0xFFF AND 0x80)" by simp
  also have "\<dots> = (t AND 0xFFF) AND 0x80" by (simp only: and.assoc)
  finally show "\<not> pte_huge (t OR PAGE_PRESENT OR PAGE_WRITABLE)" using table_low(1) [OF assms] by (simp add: pte_huge_def)
qed

lemma node_frames [simp]: "node (s\<lparr> frames := p \<rparr>) q = node s q"
  by (induction q) (simp_all add: Let_def split: option.split)

lemma page_of_table: "table_addr t \<Longrightarrow> t AND NOT 0xFFF = t"
  using entry_page [of t 0] by (simp add: entry_at_def)

text \<open>The frame \<open>fr\<close> becomes the table below entry \<open>i\<close> of the table at \<open>p\<close>.\<close>

definition install :: "u64 \<Rightarrow> u64 \<Rightarrow> pmm \<Rightarrow> paging \<Rightarrow> paging" where
  "install slot fr p s = zero_frame fr (put_word slot (fr OR PAGE_PRESENT OR PAGE_WRITABLE) (s\<lparr> frames := p \<rparr>))"

lemma install_is:
  assumes ok: "tables_ok s" and ram: "ram_ok s" and v: "valid (i # p)" and n: "node s p = Some t"
    and np: "\<not> pte_present (entry s p i)" and f: "f \<in> frees (frames s)" and fn: "frames_now (frames s) (frees (frames s) - {f}) pm"
  defines "F \<equiv> frame_addr f" and "s2 \<equiv> install (entry_at t i) (frame_addr f) pm s"
  shows "tables_ok s2" "node s2 (i # p) = Some F" "frames s2 = pm" "ram_ok s2"
    "valid q \<Longrightarrow> node s2 q = (if q = i # p then Some F else node s q)"
    "valid q \<Longrightarrow> j < 512 \<Longrightarrow> entry s2 q j = (if q = p \<and> j = i then F OR PAGE_PRESENT OR PAGE_WRITABLE else entry s q j)"
proof -
  note D = tables_okD [OF ok] and V = valid_Cons [OF v] and FT = frame_table [OF ok ram f, folded F_def]
  have vp: "valid p" and i: "i < 512" using V by auto
  note P = table_pte [OF FT(1)]
  have T: "table_addr t" by (rule node_table [OF D(3) n])
  have tF: "t \<noteq> F" using FT(4) [OF vp n] .
  have old: "node s (i # p) = None" unfolding node_entry using np by (simp add: Let_def)
  have pF: "F AND - 4096 = F" using page_of_table [OF FT(1)] by simp
  have ph: "phys s2 a = (if a AND NOT 0xFFF = F then 0 else if a = entry_at t i then F OR PAGE_PRESENT OR PAGE_WRITABLE else phys s a)" for a
    by (simp add: s2_def install_def zero_frame_def put_word_def pF F_def [symmetric] del: PAGE_PRESENT_def PAGE_WRITABLE_def)
  have c2: "cr3 s2 = cr3 s" by (simp add: s2_def install_def zero_frame_def put_word_def)
  show fr2: "frames s2 = pm" by (simp add: s2_def install_def zero_frame_def put_word_def)
  have at: "phys s2 (entry_at u j) = (if u = t \<and> j = i then F OR PAGE_PRESENT OR PAGE_WRITABLE else phys s (entry_at u j))"
    if "table_addr u" "u \<noteq> F" "j < 512" for u j
    using that entry_page [of u j] entry_at_inj [OF that(1) T that(3) i] by (simp add: ph del: PAGE_PRESENT_def PAGE_WRITABLE_def)
  have inF: "phys s2 (entry_at F j) = 0" if "j < 512" for j using entry_page [OF FT(1) that] by (simp add: ph)
  have nd: "node s2 q = (if q = i # p then Some F else node s q)" if "valid q" for q
    using that
  proof (induction q)
    case (Cons j q)
    note W = valid_Cons [OF Cons.prems]
    have ih: "node s2 q = (if q = i # p then Some F else node s q)" using Cons.IH W by blast
    show ?case
    proof (cases "q = i # p")
      case True
      then show ?thesis using ih inF [of j] W old by (simp add: Let_def)
    next
      case False
      show ?thesis
      proof (cases "node s q")
        case None
        then have "j # q \<noteq> i # p" using n by auto
        then show ?thesis using None ih False by auto
      next
        case (Some u)
        have u: "table_addr u" "u \<noteq> F" using node_table [OF D(3) Some] FT(4) [OF _ Some] W by blast+
        have vq: "valid q" using W by simp
        have ut: "u = t \<longleftrightarrow> q = p" using D(5) [OF vp vq n] Some n by auto
        have lhs: "node s2 (j # q) = (let e = phys s2 (entry_at u j) in if pte_present e \<and> \<not> pte_huge e then Some (PTE_ADDR e) else None)"
          using ih False Some by simp
        show ?thesis
        proof (cases "q = p \<and> j = i")
          case True
          then show ?thesis unfolding lhs using at [OF u, of j] ut W P by (simp add: Let_def)
        next
          case nq: False
          then have "phys s2 (entry_at u j) = phys s (entry_at u j)" using at [OF u, of j] ut W by auto
          then show ?thesis unfolding lhs using Some nq by auto
        qed
      qed
    qed
  qed (simp add: c2)
  then show "valid q \<Longrightarrow> node s2 q = (if q = i # p then Some F else node s q)" for q .
  show ni: "node s2 (i # p) = Some F" using nd [OF v] by simp
  show "entry s2 q j = (if q = p \<and> j = i then F OR PAGE_PRESENT OR PAGE_WRITABLE else entry s q j)" if q: "valid q" "j < 512" for q j
  proof (cases "q = i # p")
    case True
    have "entry s2 q j = 0" unfolding entry_def True ni using inF [OF q(2)] by simp
    moreover have "entry s q j = 0" unfolding entry_def True old by simp
    ultimately show ?thesis using True by simp
  next
    case False
    show ?thesis
    proof (cases "node s q")
      case None
      then show ?thesis using nd [OF q(1)] False n by (auto simp: entry_def)
    next
      case (Some u)
      have u: "table_addr u" "u \<noteq> F" using node_table [OF D(3) Some] FT(4) [OF q(1) Some] by blast+
      have "u = t \<longleftrightarrow> q = p" using D(5) [OF vp q(1) n] Some n by auto
      then show ?thesis using nd [OF q(1)] False Some at [OF u q(2)] by (simp add: entry_def del: PAGE_PRESENT_def PAGE_WRITABLE_def)
    qed
  qed
  have fr: "frees pm = frees (frames s) - {f}" "pmm_ok pm" "total_frames pm = total_frames (frames s)" using frames_nowD [OF fn] by auto
  show "ram_ok s2" using ram by (simp add: ram_ok_def fr2 fr(3))
  show "tables_ok s2"
  proof (rule tables_okI)
    show "pmm_ok (frames s2)" "0 \<notin> frees (frames s2)" using fr D(2) by (simp_all add: fr2)
    have "valid []" by (simp add: valid_def)
    then have rF: "cr3 s \<noteq> F" using FT(4) [of "[]"] by simp
    have "cr3 s = t \<longrightarrow> i \<noteq> 510" using D(5) [OF vp \<open>valid []\<close> n] V by auto
    then have "phys s2 (entry_at (cr3 s) 510) = phys s (entry_at (cr3 s) 510)"
      using at [OF rec_slotD [OF D(3)] rF, of 510] by auto
    then show "rec_slot s2" using D(3) by (simp add: rec_slot_def c2)
  next
    fix q u assume q: "valid q" "node s2 q = Some u"
    show "first_frame u \<notin> frees (frames s2)"
      using nd [OF q(1)] q D(4) FT(2) by (auto simp: fr2 fr(1) split: if_splits)
  next
    fix q r u assume q: "valid q" "valid r" "node s2 q = Some u" "node s2 r = Some u"
    have Q: "if q = i # p then u = F else node s q = Some u" using nd [OF q(1)] q(3) by (cases "q = i # p") (simp_all del: node.simps)
    have R: "if r = i # p then u = F else node s r = Some u" using nd [OF q(2)] q(4) by (cases "r = i # p") (simp_all del: node.simps)
    show "q = r"
    proof (cases "u = F")
      case True
      then have "q = i # p" "r = i # p" using Q R FT(4) q(1,2) by (metis (full_types))+
      then show ?thesis by simp
    next
      case False
      then have "node s q = Some u" "node s r = Some u" using Q R by (simp_all only: split: if_splits)
      then show ?thesis by (rule D(5) [OF q(1,2)])
    qed
  qed
qed

lemma translate_frames [simp]: "translate (s\<lparr> frames := p \<rparr>) v = translate s v"
  by (simp add: translate_def Let_def)

lemma ensure_table_is:
  assumes ok: "tables_ok s" and ram: "ram_ok s" and v: "valid (i # p)" and n: "node s p = Some t"
  shows "ensure_table (slot_va p i) (slot_va (i # p) 0) s =
    (if pte_present (entry s p i) then Some (if pte_huge (entry s p i) then - 1 else 0, s)
     else case pmm_alloc_frame (frames s) of
       (F, pm) \<Rightarrow> if F = 0 then Some (- 1, s\<lparr> frames := pm \<rparr>) else Some (0, install (entry_at t i) F pm s))"
proof -
  note D = tables_okD [OF ok] and V = valid_Cons [OF v]
  have vp: "valid p" and i: "i < 512" using V by auto
  have tr: "translate s (slot_va p i) = Some (entry_at t i)" by (rule rec_walk [OF D(3) vp n i])
  have e: "phys s (entry_at t i) = entry s p i" using n by (simp add: entry_def)
  obtain F pm where al: "pmm_alloc_frame (frames s) = (F, pm)" by fastforce
  show ?thesis
  proof (cases "\<not> pte_present (entry s p i) \<and> F \<noteq> 0")
    case False
    then show ?thesis using tr e al by (auto simp: ensure_table_def read_pte_def alloc_table_def)
  next
    case True
    have "frees (frames s) \<noteq> {}" using alloc_frame_is(1) [OF D(1)] al True by auto
    then obtain f where f: "F = frame_addr f" "f \<in> frees (frames s)" using alloc_frame_is(2) [OF D(1)] al by auto
    note FT = frame_table [OF ok ram f(2), folded f(1)]
    define s1 where "s1 = put_word (entry_at t i) (F OR PAGE_PRESENT OR PAGE_WRITABLE) s"
    have r1: "rec_slot s1" unfolding s1_def using V by (intro rec_slot_put [OF ok vp n i]) auto
    have n1: "node s1 p = Some t" unfolding s1_def using node_put_short [OF ok vp n i vp] n by simp
    have "phys s1 (entry_at t i) = F OR PAGE_PRESENT OR PAGE_WRITABLE" by (simp add: s1_def put_word_def)
    then have "node s1 (i # p) = Some F" using n1 table_pte [OF FT(1)] by (simp add: Let_def del: PAGE_PRESENT_def PAGE_WRITABLE_def)
    from rec_walk [OF r1 v this, of 0] have t1: "translate s1 (slot_va (i # p) 0) = Some F" by (simp add: entry_at_def)
    have "put_word (entry_at t i) (F OR PAGE_PRESENT OR PAGE_WRITABLE) (s\<lparr> frames := pm \<rparr>) = s1\<lparr> frames := pm \<rparr>"
      by (simp add: s1_def put_word_def)
    then show ?thesis using True tr e al t1
      by (simp add: ensure_table_def read_pte_def alloc_table_def write_pte_def zero_page_def install_def)
  qed
qed

end
