(* ===== verification/PmmProps.thy ===== *)
theory PmmProps
  imports PmmSpec
begin

text \<open>
  Properties of the frame allocator: aligned runs, start-up, and what any sequence of
  allocations and releases keeps.
\<close>

section \<open>Aligned runs\<close>

lemma unat_pow: "k < LENGTH('a) \<Longrightarrow> unat (2 ^ k :: 'a::len word) = 2 ^ k"
proof -
  assume k: "k < LENGTH('a)"
  have "(2 ^ k :: 'a word) = of_nat (2 ^ k)" by simp
  moreover have "(2::nat) ^ k < 2 ^ LENGTH('a)" using k by simp
  ultimately show ?thesis by (simp only: unat_of_nat_small)
qed

lemma align_up_is:
  assumes "k < 32" "a = (2 :: u32) ^ k" "i < 2 ^ 52"
  shows "unat (align_up i a) = (i + 2 ^ k - 1) div 2 ^ k * 2 ^ k"
proof -
  have ua: "unat a = 2 ^ k" using assms(1,2) by (simp add: unat_pow)
  have l: "2 ^ k < (2::nat) ^ 32" by (rule power_strict_increasing [OF assms(1)]) simp
  have ca: "(ucast a :: u64) = 2 ^ k"
    using ua unat_pow [of k, where 'a = 64] assms(1) by (simp add: word_unat_eq_iff unat_ucast_up)
  let ?x = "of_nat i + 2 ^ k - 1 :: u64"
  have ux: "unat ?x = i + 2 ^ k - 1"
  proof -
    have "1 \<le> i + 2 ^ k" using zero_less_power [of "2::nat" k] by linarith
    then have "?x = of_nat (i + 2 ^ k - 1)" by (simp add: of_nat_diff del: One_nat_def)
    moreover have "i + 2 ^ k - 1 < 2 ^ 64" using assms(3) l by simp
    moreover have "unat (of_nat (i + 2 ^ k - 1) :: u64) = i + 2 ^ k - 1"
      by (rule unat_of_nat_small) (use calculation(2) in simp)
    ultimately show ?thesis by simp
  qed
  have "align_up i a = push_bit k (drop_bit k ?x)"
  proof (rule bit_word_eqI)
    fix n assume "n < LENGTH(64)"
    have m: "(2 ^ k - 1 :: u64) = mask k" by (simp add: mask_eq_exp_minus_1)
    show "bit (align_up i a) n = bit (push_bit k (drop_bit k ?x)) n"
      unfolding align_up_def ca m using \<open>n < LENGTH(64)\<close>
      by (auto simp: bit_and_iff bit_not_iff bit_mask_iff bit_push_bit_iff bit_drop_bit_eq)
  qed
  then have e: "align_up i a = ?x div 2 ^ k * 2 ^ k" by (simp add: push_bit_eq_mult drop_bit_eq_div)
  have p: "unat (2 ^ k :: u64) = 2 ^ k" using unat_pow [of k, where 'a = 64] assms(1) by simp
  have d: "unat (?x div 2 ^ k) = unat ?x div 2 ^ k" by (simp add: unat_div p)
  have "unat ?x div 2 ^ k * 2 ^ k < 2 ^ 64"
    using unsigned_less [of ?x] by (intro le_less_trans [OF div_times_less_eq_dividend]) simp
  then have "unat (align_up i a) = unat ?x div 2 ^ k * 2 ^ k"
    unfolding e by (subst unat_mult_lem [THEN iffD1]) (simp_all add: d p)
  then show ?thesis unfolding ux .
qed

text \<open>The loop stops at the lowest aligned run, or behind the last frame where one could start.\<close>

definition aligned_run :: "nat \<Rightarrow> nat \<Rightarrow> pmm \<Rightarrow> nat \<Rightarrow> bool" where
  "aligned_run k n p s \<longleftrightarrow> 2 ^ k dvd s \<and> {s..<s + n} \<subseteq> frees p"

lemma aligned_loop_is:
  assumes "pmm_ok p" "k < 32" "a = 2 ^ k" "count \<noteq> 0" "\<forall>s. aligned_run k (unat count) p s \<longrightarrow> i \<le> s"
  shows "(\<exists>s. aligned_loop count a p i = Some (frame_addr s, take_frames s (unat count) p) \<and> aligned_run k (unat count) p s \<and>
      (\<forall>t. aligned_run k (unat count) p t \<longrightarrow> s \<le> t)) \<or>
    (aligned_loop count a p i = Some (0, p) \<and> (\<forall>s. \<not> aligned_run k (unat count) p s))"
  using assms(5)
proof (induction "nframes p - i" arbitrary: i rule: less_induct)
  case less
  let ?n = "unat count" and ?N = "nframes p"
  have n0: "0 < ?n" using assms(4) by (simp add: unat_gt_0)
  have start: "s \<in> frees p" "s + ?n \<le> ?N" if "aligned_run k ?n p s" for s
  proof -
    have "{s..<s + ?n} \<subseteq> frees p" using that by (simp add: aligned_run_def)
    moreover have "s \<in> {s..<s + ?n}" "s + ?n - 1 \<in> {s..<s + ?n}" using n0 by auto
    ultimately have "s \<in> frees p" "s + ?n - 1 \<in> frees p" by blast+
    then show "s \<in> frees p" "s + ?n \<le> ?N" by (auto simp: frees_def)
  qed
  show ?case
  proof (cases "i < ?N")
    case False
    then have "\<not> aligned_run k ?n p s" for s using less.prems start [of s] by (fastforce simp: frees_def)
    then show ?thesis using False by (subst aligned_loop.simps) simp
  next
    case True
    define i1 where "i1 = skip_used p [i..<?N] i"
    have i1: "i \<le> i1" "i1 \<le> ?N" "\<forall>f. i \<le> f \<and> f < i1 \<longrightarrow> pmm_bitmap_test p f"
      using skip_used_is [of i ?N p] True by (simp_all add: i1_def)
    have lo1: "i1 \<le> s" if "aligned_run k ?n p s" for s
      using i1(3) less.prems that start(1) [OF that] by (fastforce simp: frees_def not_le)
    show ?thesis
    proof (cases "i1 \<ge> ?N")
      case False
      define al where "al = unat (align_up i1 a)"
      have i52: "i1 < 2 ^ 52" using i1(2) pmm_okD(3) [OF assms(1)] by simp
      have al: "al = (i1 + 2 ^ k - 1) div 2 ^ k * 2 ^ k" unfolding al_def by (rule align_up_is [OF assms(2,3) i52])
      have ge: "i1 \<le> al"
      proof -
        have "i1 + 2 ^ k - 1 < al + 2 ^ k"
          unfolding al using dividend_less_div_times [of "2 ^ k" "i1 + 2 ^ k - 1"] by simp
        then show ?thesis by simp
      qed
      have lo2: "al \<le> s" if r: "aligned_run k ?n p s" for s
      proof -
        obtain q where q: "s = 2 ^ k * q" using r by (auto simp: aligned_run_def)
        have "i1 + 2 ^ k - 1 < (q + 1) * 2 ^ k" 
        proof -
          have "0 < (2::nat) ^ k" "i1 \<le> 2 ^ k * q" using lo1 [OF r] q by simp_all
          then show ?thesis unfolding distrib_right mult_1 mult.commute [of q] by linarith
        qed
        then have "(i1 + 2 ^ k - 1) div 2 ^ k < q + 1" by (simp add: less_mult_imp_div_less)
        then show ?thesis unfolding al q by (simp add: mult.commute)
      qed
      have alN: "al \<le> 2 ^ 52 + 2 ^ 32"
      proof -
        have "al \<le> i1 + 2 ^ k - 1" unfolding al by simp
        moreover have "(2::nat) ^ k < 2 ^ 32" by (rule power_strict_increasing [OF assms(2)]) simp
        ultimately show ?thesis using i52 by simp
      qed
      have cl: "unat count < 2 ^ 32" using unsigned_less [of count] by simp
      have sum: "(align_up i1 a + ucast count > total_frames p) = (al + ?n > ?N)"
      proof -
        have "unat (align_up i1 a + ucast count) = al + ?n"
          using alN cl by (subst unat_add_small) (simp_all add: al_def unat_ucast_up)
        then show ?thesis by (simp add: word_less_nat_alt)
      qed
      have step: "aligned_loop count a p i =
          (if al + ?n > ?N then Some (0, p)
           else case first_used p [al..<al + ?n] of
                  Some f \<Rightarrow> aligned_loop count a p (f + 1)
                | None \<Rightarrow> Some (push_bit FRAME_SIZE_SHIFT (align_up i1 a), take_frames al ?n p))"
        using True False sum by (subst aligned_loop.simps) (simp add: Let_def i1_def [symmetric] al_def [symmetric] split: option.split)
      show ?thesis
      proof (cases "al + ?n > ?N")
        case True
        then have "\<not> aligned_run k ?n p s" for s using lo2 start(2) by fastforce
        then show ?thesis using step True by simp
      next
        case fits: False
        then have fit: "al + ?n \<le> ?N" by simp
        show ?thesis
        proof (cases "first_used p [al..<al + ?n]")
          case None
          then have "{al..<al + ?n} \<subseteq> frees p" using first_used_run [OF fit] by blast
          then have r: "aligned_run k ?n p al" unfolding aligned_run_def al by simp
          have "push_bit FRAME_SIZE_SHIFT (align_up i1 a) = frame_addr al"
            by (simp add: frame_addr_def al_def)
          then show ?thesis using step fits None r lo2 by auto
        next
          case (Some f)
          then have f: "al \<le> f" "f < al + ?n" "pmm_bitmap_test p f" using first_used_is(2) [OF Some] by auto
          have lo3: "f + 1 \<le> s" if r: "aligned_run k ?n p s" for s
          proof (rule ccontr)
            assume "\<not> f + 1 \<le> s"
            then have "f \<in> {s..<s + ?n}" using lo2 [OF r] f(2) by simp
            then have "f \<in> frees p" using r unfolding aligned_run_def by blast
            then show False using f(3) by (simp add: frees_def)
          qed
          have "?N - (f + 1) < ?N - i" using f(1) ge i1(1) True by simp
          from less.hyps [OF this] lo3 show ?thesis using step fits Some by simp
        qed
      qed
    next
      case over: True
      then have "\<not> aligned_run k ?n p s" for s using lo1 start [of s] by (fastforce simp: frees_def)
      then show ?thesis using True over by (subst aligned_loop.simps) (simp add: Let_def i1_def [symmetric])
    qed
  qed
qed

lemma alloc_aligned_is:
  assumes "pmm_ok p" "count \<noteq> 0" "k < 32" "a = 2 ^ k"
  shows "(\<exists>s p'. pmm_alloc_aligned count a p = Some (frame_addr s, p') \<and> aligned_run k (unat count) p s \<and>
      frames_now p (frees p - {s..<s + unat count}) p') \<or>
    (pmm_alloc_aligned count a p = Some (0, p) \<and> (\<forall>s. \<not> aligned_run k (unat count) p s))"
proof -
  have a0: "a \<noteq> 0" using unat_pow [of k, where 'a = 32] assms(3,4) by (auto simp: unat_eq_0 [symmetric])
  have pw: "a AND (a - 1) = 0"
  proof (rule bit_word_eqI)
    fix n
    have "a - 1 = mask k" unfolding assms(4) by (simp add: mask_eq_exp_minus_1)
    then show "bit (a AND (a - 1)) n = bit (0 :: u32) n"
      unfolding assms(4) by (auto simp: bit_and_iff bit_mask_iff bit_exp_iff)
  qed
  show ?thesis
  proof (cases "a = 1")
    case True
    then have k: "k = 0" using unat_pow [of k, where 'a = 32] assms(3,4) by (cases k) auto
    show ?thesis
      using alloc_frames_is [OF assms(1), of count] a0 pw True assms(2)
      by (auto simp: pmm_alloc_aligned_def aligned_run_def k)
  next
    case False
    have "pmm_alloc_aligned count a p = aligned_loop count a p 0"
      using a0 pw False assms(2) by (simp add: pmm_alloc_aligned_def)
    moreover have "\<forall>s. aligned_run k (unat count) p s \<longrightarrow> 0 \<le> s" by simp
    note aligned_loop_is [OF assms(1,3,4,2) this]
    moreover have "frames_now p (frees p - {s..<s + unat count}) (take_frames s (unat count) p)"
      if "aligned_run k (unat count) p s" for s
      using take_frames_now [OF assms(1)] that by (simp add: aligned_run_def)
    ultimately show ?thesis by metis
  qed
qed

section \<open>Regions and start-up\<close>

lemma unreserve_is:
  assumes "pmm_ok p"
  shows "frames_now p (frees p \<union> (if len = 0 then {} else {first_frame s..<min (end_frame s len) (nframes p)})) (pmm_unreserve_region s len p)"
  using fold_free_now [OF assms, of "[first_frame s..<min (end_frame s len) (nframes p)]"] frames_now_refl [OF assms]
  by (simp add: pmm_unreserve_region_def)

lemma reserve_is:
  assumes "pmm_ok p"
  shows "frames_now p (frees p - (if len = 0 then {} else {first_frame s..<min (end_frame s len) (nframes p)})) (pmm_reserve_region s len p)"
  using fold_used_now [OF assms, of "[first_frame s..<min (end_frame s len) (nframes p)]"] frames_now_refl [OF assms]
  by (simp add: pmm_reserve_region_def)

lemma unreserve_ok: "pmm_ok p \<Longrightarrow> \<exists>A. frames_now p A (pmm_unreserve_region s len p)"
  using unreserve_is by blast

text \<open>A well-formed information block: the walk meets an end tag or a map with an entry size.\<close>

inductive tags_end :: "memory \<Rightarrow> u64 \<Rightarrow> bool" for mem :: memory where
  at_end: "tag_type mem tag = MB2_TAG_END \<Longrightarrow> tags_end mem tag"
| at_map: "tag_type mem tag = MB2_TAG_MMAP \<Longrightarrow> mmap_entry_size mem tag \<noteq> 0 \<Longrightarrow> tags_end mem tag"
| at_next: "tag_type mem tag \<noteq> MB2_TAG_END \<Longrightarrow> tag_type mem tag \<noteq> MB2_TAG_MMAP \<Longrightarrow> tags_end mem (next_tag mem tag) \<Longrightarrow>
    tags_end mem tag"

lemma unreserve_entries:
  "pmm_ok p \<Longrightarrow> \<exists>A. frames_now p A (fold (unreserve_entry mem tag) is p)"
proof (induction "is" arbitrary: p)
  case Nil
  then show ?case using frames_now_refl by auto
next
  case (Cons i "is")
  have "\<exists>A. frames_now p A (unreserve_entry mem tag i p)"
    using unreserve_ok [OF Cons.prems] frames_now_refl [OF Cons.prems] by (auto simp: unreserve_entry_def Let_def)
  then obtain A where a: "frames_now p A (unreserve_entry mem tag i p)" ..
  obtain B where "frames_now (unreserve_entry mem tag i p) B (fold (unreserve_entry mem tag) is (unreserve_entry mem tag i p))"
    using Cons.IH [OF frames_nowD(1) [OF a]] ..
  from frames_now_trans [OF a this] show ?case by auto
qed

lemma init_tags_is:
  assumes "tags_end mem tag" "pmm_ok p"
  shows "\<exists>found A q. init_tags mem tag p = Some (found, q) \<and> frames_now p A q"
  using assms(1)
proof induction
  case (at_end tag)
  then show ?case using frames_now_refl [OF assms(2)] by (subst init_tags.simps) auto
next
  case (at_map tag)
  then show ?case using unreserve_entries [OF assms(2)] by (subst init_tags.simps) (auto simp: Let_def)
next
  case (at_next tag)
  then show ?case by (subst init_tags.simps) auto
qed

text \<open>The state before any region is released: every frame is taken.\<close>

lemma blank_bitmap:
  assumes "length (pm_bitmap p) = unat (bitmap_size p)" "bitmap_size p = drop_bit 3 (total_frames p + 7)"
    "pm_bitmap p = replicate (unat (bitmap_size p)) 0xFF" "used_frames p = total_frames p" "nframes p < 2 ^ 52"
  shows "pmm_ok p" "frees p = {}"
proof -
  have n7: "unat (total_frames p + 7) = nframes p + 7" using assms(5) by (subst unat_add_small) simp_all
  have bs: "unat (bitmap_size p) = (nframes p + 7) div 8" unfolding assms(2) by (simp add: drop_bit_eq_div unat_div n7)
  have "pmm_bitmap_test p f" if "f < nframes p" for f
  proof -
    have "f div 8 < unat (bitmap_size p)" using that bs by linarith
    then have "pm_bitmap p ! (f div 8) = - 1" using assms(3) by simp
    then show ?thesis by (simp add: pmm_bitmap_test_def)
  qed
  then show f: "frees p = {}" by (auto simp: frees_def)
  show "pmm_ok p" using assms(1,4,5) bs f by (simp add: pmm_ok_def)
qed

lemma shift_small: "unat (drop_bit 12 (x :: u64)) < 2 ^ 52"
proof -
  have "unat x < 2 ^ 64" using unsigned_less [of x] by simp
  then show ?thesis by (simp add: drop_bit_eq_div unat_div)
qed

lemma end_frame_is:
  assumes "unat (start + len) + 4095 < 2 ^ 64"
  shows "end_frame start len = (unat (start + len) + 4095) div 4096"
proof -
  have "unat (start + len + 4095) = unat (start + len) + 4095" using assms by (subst unat_add_small) simp_all
  then show ?thesis by (simp add: end_frame_def drop_bit_eq_div unat_div)
qed

lemma pmm_init_is:
  assumes "bi_valid (pm_boot_info p) \<and> bi_mb_info (pm_boot_info p) \<noteq> 0 \<longrightarrow> tags_end mem (bi_mb_info (pm_boot_info p) + 8)"
    "unat (pmm_placement mem ke p) < 2 ^ 63"
  shows "\<exists>p'. pmm_init mem ke p = Some (0, p') \<and> pmm_ok p' \<and> 0 < nframes p' \<and>
    (\<forall>f \<in> frees p'. 256 \<le> f \<and> unat (pmm_placement mem ke p) + unat (bitmap_size p') \<le> f * 4096)"
proof -
  define p1 where "p1 = (if \<not> bi_valid (pm_boot_info p) then p\<lparr> total_ram := 16 * 1024 * 1024 \<rparr> else p)"
  define p2 where "p2 = p1\<lparr> total_frames := drop_bit FRAME_SIZE_SHIFT (total_ram p1) \<rparr>"
  define p3 where "p3 = (if total_frames p2 = 0 then p2\<lparr> total_ram := 16 * 1024 * 1024,
    total_frames := drop_bit FRAME_SIZE_SHIFT (16 * 1024 * 1024) \<rparr> else p2)"
  define p4 where "p4 = p3\<lparr> bitmap_size := drop_bit 3 (total_frames p3 + 7) \<rparr>"
  define p5 where "p5 = p4\<lparr> pm_bitmap := replicate (unat (bitmap_size p4)) 0xFF, used_frames := total_frames p4 \<rparr>"
  have bi: "pm_boot_info p5 = pm_boot_info p" "pm_boot_info p4 = pm_boot_info p"
    by (simp_all add: p5_def p4_def p3_def p2_def p1_def)
  have pl: "pmm_placement mem ke p4 = pmm_placement mem ke p" by (simp add: pmm_placement_def bi)
  have n: "nframes p5 < 2 ^ 52" "0 < nframes p5"
    using shift_small [of "total_ram p1"] by (auto simp: p5_def p4_def p3_def p2_def unat_gt_0)
  have b5: "bitmap_size p5 = drop_bit 3 (total_frames p5 + 7)" "used_frames p5 = total_frames p5"
    "pm_bitmap p5 = replicate (unat (bitmap_size p5)) 0xFF" by (simp_all add: p5_def p4_def)
  note ok5 = blank_bitmap(1) [OF _ b5(1,3,2) n(1)]
  have ok: "pmm_ok p5" by (rule ok5) (simp add: b5(3))
  let ?m = "if bi_valid (pm_boot_info p) \<and> bi_mb_info (pm_boot_info p5) \<noteq> 0
    then map_option (\<lambda>(found_mmap, q). if \<not> found_mmap then pmm_unreserve_region 0x00100000 (total_ram q - 0x100000) q else q)
      (init_tags mem (bi_mb_info (pm_boot_info p5) + 8) p5)
    else Some (pmm_unreserve_region 0x00100000 (15 * 1024 * 1024) p5)"
  obtain A p6 where p6: "?m = Some p6" "frames_now p5 A p6"
  proof (cases "bi_valid (pm_boot_info p) \<and> bi_mb_info (pm_boot_info p5) \<noteq> 0")
    case True
    then have "tags_end mem (bi_mb_info (pm_boot_info p5) + 8)" using assms(1) bi(1) by simp
    from init_tags_is [OF this ok] obtain found B q
      where q: "init_tags mem (bi_mb_info (pm_boot_info p5) + 8) p5 = Some (found, q)" "frames_now p5 B q" by blast
    obtain C where "frames_now q C (pmm_unreserve_region 0x00100000 (total_ram q - 0x100000) q)"
      using unreserve_ok [OF frames_nowD(1) [OF q(2)]] by blast
    from frames_now_trans [OF q(2) this] show thesis using that q True by (cases found) auto
  next
    case False
    moreover obtain B where "frames_now p5 B (pmm_unreserve_region 0x00100000 (15 * 1024 * 1024) p5)"
      using unreserve_ok [OF ok] by blast
    ultimately show thesis using that by (auto simp: if_not_P)
  qed
  note N6 = frames_nowD [OF p6(2)]
  define p7 where "p7 = pmm_reserve_region 0 0x00100000 p6"
  define kend where "kend = pmm_placement mem ke p + bitmap_size p7"
  define p8 where "p8 = pmm_reserve_region 0x00100000 (kend - 0x00100000) p7"
  define p9 where "p9 = pmm_reserve_region VGA_MEM_PHYS FRAME_SIZE p8"
  have r7: "frames_now p6 (frees p6 - {0..<min 256 (nframes p6)}) p7"
    using reserve_is [OF N6(1), of "0x00100000" 0] by (simp add: p7_def first_frame_def end_frame_def)
  note N7 = frames_nowD [OF r7]
  note r8 = reserve_is [OF N7(1), of "kend - 0x00100000" "0x00100000", folded p8_def]
  note N8 = frames_nowD [OF r8]
  note r9 = reserve_is [OF N8(1), of FRAME_SIZE VGA_MEM_PHYS, folded p9_def]
  note N9 = frames_nowD [OF r9]
  have bs: "bitmap_size p9 = bitmap_size p5" "bitmap_size p7 = bitmap_size p5" "total_frames p9 = total_frames p5"
    "total_frames p7 = total_frames p5" using N6 N7 N8 N9 by simp_all
  have bsz: "unat (bitmap_size p5) \<le> 2 ^ 52" using pmm_okD(2,3) [OF ok] by simp
  have uk: "unat kend = unat (pmm_placement mem ke p) + unat (bitmap_size p5)"
    unfolding kend_def bs(2) using assms(2) bsz by (subst unat_add_small) simp_all
  have e: "end_frame 0x00100000 (kend - 0x00100000) = (unat kend + 4095) div 4096"
    using end_frame_is [of "0x00100000" "kend - 0x00100000"] uk assms(2) bsz by simp
  have "256 \<le> f \<and> unat kend \<le> f * 4096" if f: "f \<in> frees p9" for f
  proof -
    have f8: "f \<in> frees p8" using f unfolding N9(2) by blast
    then have f7: "f \<in> frees p7" unfolding N8(2) by blast
    then have fn: "f < nframes p7" by (simp add: frees_def)
    have "f \<notin> {0..<min 256 (nframes p6)}" using f7 unfolding N7(2) by blast
    then have lo: "256 \<le> f" using fn N7(3) by simp
    have "unat kend \<le> f * 4096"
    proof (cases "kend = 0x00100000")
      case True
      then show ?thesis using lo by simp
    next
      case False
      have "f \<notin> {256..<min ((unat kend + 4095) div 4096) (nframes p7)}"
        using f8 N8(2) False e by (auto simp: first_frame_def)
      then have "(unat kend + 4095) div 4096 \<le> f" using lo fn by simp
      then show ?thesis by linarith
    qed
    then show ?thesis using lo by simp
  qed
  then have fin: "\<forall>f \<in> frees p9. 256 \<le> f \<and> unat (pmm_placement mem ke p) + unat (bitmap_size p9) \<le> f * 4096"
    by (simp add: uk bs)
  let ?r = "p9\<lparr> pm_boot_info := (pm_boot_info p9)\<lparr> bi_total_frames := total_frames p9, bi_kernel_end := kend \<rparr> \<rparr>"
  have fr: "frees ?r = frees p9" by (simp add: frees_def pmm_bitmap_test_def)
  have "pmm_ok ?r" using N9(1) fr by (simp add: pmm_ok_def)
  moreover have "pmm_init mem ke p = Some (0, ?r)"
    unfolding pmm_init_def Let_def p1_def [symmetric] p2_def [symmetric] p3_def [symmetric] p4_def [symmetric]
    by (simp only: pl flip: p5_def) (simp add: p6(1) [simplified] p7_def [symmetric] kend_def [symmetric] p8_def [symmetric] p9_def [symmetric] del: VGA_MEM_PHYS_def FRAME_SIZE_def)
  ultimately show ?thesis using fin fr bs n(2) by auto
qed

section \<open>Frames change hands\<close>

text \<open>
  A step of the kernel: one of the allocators, or the release of frames that the kernel holds.
  The second component is the set of frames it holds.
\<close>

inductive pmm_step :: "pmm \<times> nat set \<Rightarrow> pmm \<times> nat set \<Rightarrow> bool" where
  one: "pmm_alloc_frame p = (a, p') \<Longrightarrow> pmm_step (p, H) (p', if a = 0 then H else insert (first_frame a) H)"
| run: "pmm_alloc_frames n p = (a, p') \<Longrightarrow>
    pmm_step (p, H) (p', if a = 0 then H else H \<union> {first_frame a..<first_frame a + unat n})"
| aligned: "pmm_alloc_aligned n al p = Some (a, p') \<Longrightarrow>
    pmm_step (p, H) (p', if a = 0 then H else H \<union> {first_frame a..<first_frame a + unat n})"
| place: "s < 2 ^ 52 \<Longrightarrow> pmm_alloc_at (frame_addr s) n p = (st, p') \<Longrightarrow>
    pmm_step (p, H) (p', if st = 0 then H \<union> {s..<s + unat n} else H)"
| release: "f \<in> H \<Longrightarrow> pmm_step (p, H) (pmm_free_frame (frame_addr f) p, H - {f})"
| release_run: "{f..<f + unat n} \<subseteq> H \<Longrightarrow> n \<noteq> 0 \<Longrightarrow>
    pmm_step (p, H) (pmm_free_frames (frame_addr f) n p, H - {f..<f + unat n})"

definition pmm_inv :: "nat set \<Rightarrow> pmm \<times> nat set \<Rightarrow> bool" where
  "pmm_inv A s \<longleftrightarrow> pmm_ok (fst s) \<and> snd s \<inter> frees (fst s) = {} \<and> snd s \<union> frees (fst s) = A"

lemma pmm_inv_take:
  assumes "pmm_inv A (p, H)" "frames_now p (frees p - R) p'" "R \<subseteq> frees p"
  shows "pmm_inv A (p', H \<union> R)"
  using assms frames_nowD(1,2) [OF assms(2)] by (auto simp: pmm_inv_def)

lemma pmm_inv_give:
  assumes "pmm_inv A (p, H)" "frames_now p (frees p \<union> R) p'" "R \<subseteq> H"
  shows "pmm_inv A (p', H - R)"
  using assms frames_nowD(1,2) [OF assms(2)] by (auto simp: pmm_inv_def)

lemma held_frames:
  assumes "pmm_inv A (p, H)" "0 \<notin> A" "\<forall>f \<in> A. f < nframes p"
  shows "f \<in> H \<Longrightarrow> f \<noteq> 0 \<and> f < nframes p" "f \<in> frees p \<Longrightarrow> f \<noteq> 0 \<and> f < 2 ^ 52"
  using assms run_frame [of p f] by (auto simp: pmm_inv_def intro: gr0I)

lemma alloc_aligned_refused:
  "al AND (al - 1) \<noteq> 0 \<or> n = 0 \<or> al = 0 \<Longrightarrow> pmm_alloc_aligned n al p = Some (0, p)"
  by (auto simp: pmm_alloc_aligned_def)

lemma pmm_step_inv:
  assumes "pmm_step s s'" "pmm_inv A s" "0 \<notin> A" "\<forall>f \<in> A. f < nframes (fst s)"
  shows "pmm_inv A s' \<and> total_frames (fst s') = total_frames (fst s)"
  using assms
proof cases
  case (one p a p' H)
  have ok: "pmm_ok p" and inv: "pmm_inv A (p, H)" using assms(2) one by (simp_all add: pmm_inv_def)
  note H = held_frames [OF inv assms(3)]
  show ?thesis
  proof (cases "frees p = {}")
    case True
    then show ?thesis using one alloc_frame_is(1) [OF ok True] inv by simp
  next
    case False
    then obtain f where f: "a = frame_addr f" "f \<in> frees p" "frames_now p (frees p - {f}) p'"
      using alloc_frame_is(2) [OF ok] one(3) by auto
    have "f \<noteq> 0 \<and> f < 2 ^ 52" using H(2) [OF _ f(2)] assms(4) one(1) by simp
    then show ?thesis
      using pmm_inv_take [OF inv f(3)] f frames_nowD(3) [OF f(3)] one(1,2) frame_addr_is [of f] by simp
  qed
next
  case (run n p a p' H)
  have ok: "pmm_ok p" and inv: "pmm_inv A (p, H)" using assms(2) run by (simp_all add: pmm_inv_def)
  note H = held_frames [OF inv assms(3)]
  from alloc_frames_is [OF ok, of n] show ?thesis
  proof
    assume "pmm_alloc_frames n p = (0, p) \<and> (n \<noteq> 0 \<longrightarrow> (\<forall>s. \<not> {s..<s + unat n} \<subseteq> frees p))"
    then show ?thesis using run inv by simp
  next
    assume "\<exists>s p'. pmm_alloc_frames n p = (frame_addr s, p') \<and> 0 < unat n \<and> {s..<s + unat n} \<subseteq> frees p \<and>
       frames_now p (frees p - {s..<s + unat n}) p'"
    then obtain s where f: "a = frame_addr s" "0 < unat n" "{s..<s + unat n} \<subseteq> frees p" "frames_now p (frees p - {s..<s + unat n}) p'"
      using run(3) by auto
    have "s \<noteq> 0 \<and> s < 2 ^ 52" using H(2) [OF _ run_start [OF f(2,3)]] assms(4) run(1) by simp
    then show ?thesis
      using pmm_inv_take [OF inv f(4,3)] f(1) frames_nowD(3) [OF f(4)] run(1,2) frame_addr_is [of s] by simp
  qed
next
  case (aligned n al p a p' H)
  have ok: "pmm_ok p" and inv: "pmm_inv A (p, H)" using assms(2) aligned by (simp_all add: pmm_inv_def)
  note H = held_frames [OF inv assms(3)]
  show ?thesis
  proof (cases "al AND (al - 1) \<noteq> 0 \<or> n = 0 \<or> al = 0")
    case True
    then show ?thesis using aligned alloc_aligned_refused [OF True, of p] inv by simp
  next
    case False
    then obtain k where k: "k < 32" "al = 2 ^ k" using power_of_two [of al] by auto
    have n0: "n \<noteq> 0" using False by simp
    from alloc_aligned_is [OF ok n0 k] show ?thesis
    proof
      assume "pmm_alloc_aligned n al p = Some (0, p) \<and> (\<forall>s. \<not> aligned_run k (unat n) p s)"
      then show ?thesis using aligned inv by simp
    next
      assume "\<exists>s p'. pmm_alloc_aligned n al p = Some (frame_addr s, p') \<and> aligned_run k (unat n) p s \<and>
        frames_now p (frees p - {s..<s + unat n}) p'"
      then obtain s where f: "a = frame_addr s" "{s..<s + unat n} \<subseteq> frees p" "frames_now p (frees p - {s..<s + unat n}) p'"
        using aligned(3) by (auto simp: aligned_run_def)
      have "0 < unat n" using n0 by (simp add: unat_gt_0)
      then have "s \<noteq> 0 \<and> s < 2 ^ 52" using H(2) [OF _ run_start [OF _ f(2)]] assms(4) aligned(1) by simp
      then show ?thesis
        using pmm_inv_take [OF inv f(3,2)] f(1) frames_nowD(3) [OF f(3)] aligned(1,2) frame_addr_is [of s] by simp
    qed
  qed
next
  case (place s0 n p st p' H)
  have ok: "pmm_ok p" and inv: "pmm_inv A (p, H)" using assms(2) place by (simp_all add: pmm_inv_def)
  show ?thesis
  proof (cases "s0 + unat n \<le> nframes p \<and> {s0..<s0 + unat n} \<subseteq> frees p")
    case True
    then have "st = 0" and fn: "frames_now p (frees p - {s0..<s0 + unat n}) p'"
      using alloc_at_is [OF ok place(3), of n] place(4) by auto
    then show ?thesis using pmm_inv_take [OF inv fn] True frames_nowD(3) [OF fn] place(1,2) by simp
  next
    case False
    then have "pmm_alloc_at (frame_addr s0) n p = (- 1, p)" using alloc_at_is [OF ok place(3), of n] by argo
    then show ?thesis using place inv by simp
  qed
next
  case (release f H p)
  have ok: "pmm_ok p" and inv: "pmm_inv A (p, H)" using assms(2) release by (simp_all add: pmm_inv_def)
  have h: "f \<noteq> 0" "f < nframes p" using held_frames(1) [OF inv assms(3) _ release(3)] assms(4) release(1) by simp_all
  have fn: "frames_now p (frees p \<union> {f}) (pmm_free_frame (frame_addr f) p)" using free_frame_is [OF ok h(2,1)] by simp
  show ?thesis using pmm_inv_give [OF inv fn] frames_nowD(3) [OF fn] release by simp
next
  case (release_run f n H p)
  have ok: "pmm_ok p" and inv: "pmm_inv A (p, H)" using assms(2) release_run by (simp_all add: pmm_inv_def)
  note H = held_frames(1) [OF inv assms(3)]
  have n0: "0 < unat n" using release_run(4) by (simp add: unat_gt_0)
  then have "f \<in> {f..<f + unat n}" "f + unat n - 1 \<in> {f..<f + unat n}" by auto
  then have "f \<in> H" "f + unat n - 1 \<in> H" using release_run(3) by blast+
  then have b: "f \<noteq> 0" "f + unat n \<le> nframes p" using H assms(4) release_run(1) n0 by fastforce+
  note fn = free_frames_is [OF ok b(2,1) release_run(4)]
  show ?thesis using pmm_inv_give [OF inv fn release_run(3)] frames_nowD(3) [OF fn] release_run(1,2) by simp
qed

section \<open>Properties\<close>

text \<open>Sixteen frames, of which the first and the twelfth are taken.\<close>

definition demo_frames :: pmm where
  "demo_frames = \<lparr> pm_boot_info = zero_boot_info, pm_bitmap = [0x01, 0x08], total_frames = 16, used_frames = 2,
     bitmap_size = 2, total_ram = 65536, g_mmap_tag = 0, g_rsdp_copy = replicate 36 0 \<rparr>"

lemma demo_frames:
  "frees demo_frames = {1..<11} \<union> {12..<16}" "pmm_ok demo_frames" "nframes demo_frames = 16"
proof -
  show n: "nframes demo_frames = 16" by (simp add: demo_frames_def)
  have "list_all (\<lambda>f. pmm_bitmap_test demo_frames f = (f = 0 \<or> f = 11)) [0..<16]" by code_simp
  then have "pmm_bitmap_test demo_frames f = (f = 0 \<or> f = 11)" if "f < 16" for f using that by (simp add: list_all_iff)
  then show f: "frees demo_frames = {1..<11} \<union> {12..<16}" using n by (auto simp: frees_def)
  have "card (frees demo_frames) = 14" unfolding f by (subst card_Un_disjoint) auto
  then show "pmm_ok demo_frames" by (simp add: pmm_ok_def n) (simp add: demo_frames_def)
qed

text \<open>
  C24. Frames are conserved. Whatever sequence of the four allocators and the two releases runs,
  successes and refusals alike, the frames in the kernel's hands and the free ones are disjoint
  and together are the frames that were free at the beginning: none is handed out twice, none
  is lost, and a frame that was reserved stays reserved. The counter of used frames is at every
  moment the number of set bits.
\<close>
theorem pmm_conserves_frames:
  assumes "pmm_ok p" "0 \<notin> frees p" "pmm_step\<^sup>*\<^sup>* (p, {}) (p', H)"
  shows "H \<inter> frees p' = {} \<and> H \<union> frees p' = frees p \<and> pmm_ok p' \<and>
    unat (used_frames p') = nframes p - card (frees p')"
proof -
  have "pmm_inv (frees p) s \<and> total_frames (fst s) = total_frames p" if "pmm_step\<^sup>*\<^sup>* (p, {}) s" for s
    using that
  proof induction
    case base
    then show ?case using assms(1) by (simp add: pmm_inv_def)
  next
    case (step s s')
    have "\<forall>f \<in> frees p. f < nframes (fst s)" using step(3) by (simp add: frees_def)
    then show ?case using pmm_step_inv [OF step(2)] step(3) assms(2) by auto
  qed
  from this [OF assms(3)] have inv: "pmm_inv (frees p) (p', H)" "total_frames p' = total_frames p" by simp_all
  have "nframes p' - card (frees p') < 2 ^ 64" using unsigned_less [of "total_frames p'"] by (intro le_less_trans [OF diff_le_self]) simp
  then have "unat (used_frames p') = nframes p' - card (frees p')"
    using pmm_okD(4) [of p'] inv(1) by (simp add: pmm_inv_def unat_of_nat_small)
  then show ?thesis using inv by (simp add: pmm_inv_def)
qed

theorem pmm_conserves_frames_witness:
  "\<exists>p. pmm_alloc_frames 3 demo_frames = (0x1000, p) \<and> frees p = {4..<11} \<union> {12..<16} \<and> unat (used_frames p) = 5"
proof -
  obtain p where p: "pmm_alloc_frames 3 demo_frames = (0x1000, p)"
    by (simp add: pmm_alloc_frames_def find_first_free_n_def demo_frames_def pmm_bitmap_test_def upt_rec frame_addr_def push_bit_eq_mult)
  have s: "pmm_step\<^sup>*\<^sup>* (demo_frames, {}) (p, {} \<union> {first_frame 0x1000..<first_frame 0x1000 + unat (3 :: u32)})"
    using pmm_step.run [OF p, of "{}"] by (intro r_into_rtranclp) simp
  have "first_frame 0x1000 = 1" by (simp add: first_frame_def)
  then have s': "pmm_step\<^sup>*\<^sup>* (demo_frames, {}) (p, {1, 2, 3})" using s by (simp add: atLeastLessThan_nat_numeral insert_commute)
  have z: "0 \<notin> frees demo_frames" by (simp add: demo_frames)
  note C = pmm_conserves_frames [OF demo_frames(2) z s']
  have "frees p = ({1..<11} \<union> {12..<16}) - {1, 2, 3}" using C unfolding demo_frames(1) by blast
  also have "\<dots> = {4..<11} \<union> {12..<16}" by auto
  finally have f: "frees p = {4..<11} \<union> {12..<16}" .
  have "card (frees p) = 11" unfolding f by (subst card_Un_disjoint) auto
  then show ?thesis using p f C demo_frames(3) by simp
qed

text \<open>
  C25. The aligned allocator ends, and finds what there is. For every power of two
  as the alignment its search loop returns: with the address of a run of free frames that
  starts at a multiple of the alignment, which is then taken and nothing else, or with 0 and
  nothing changed, and then no such run exists.
\<close>
theorem pmm_alloc_aligned_finds:
  assumes "pmm_ok p" "0 \<notin> frees p" "count \<noteq> 0" "al \<noteq> 0" "al AND (al - 1) = 0"
  shows "\<exists>a p'. pmm_alloc_aligned count al p = Some (a, p') \<and>
    (if a = 0 then p' = p \<and> (\<forall>s. unat al dvd s \<longrightarrow> \<not> {s..<s + unat count} \<subseteq> frees p)
     else unat al dvd first_frame a \<and> {first_frame a..<first_frame a + unat count} \<subseteq> frees p \<and> pmm_ok p' \<and>
       frees p' = frees p - {first_frame a..<first_frame a + unat count})"
proof -
  obtain k where k: "k < 32" "al = 2 ^ k" by (rule power_of_two [OF assms(4,5)])
  have ua: "unat al = 2 ^ k" using unat_pow [of k, where 'a = 32] k by simp
  have n: "0 < unat count" using assms(3) by (simp add: unat_gt_0)
  from alloc_aligned_is [OF assms(1,3) k] show ?thesis
  proof
    assume "\<exists>s p'. pmm_alloc_aligned count al p = Some (frame_addr s, p') \<and> aligned_run k (unat count) p s \<and>
      frames_now p (frees p - {s..<s + unat count}) p'"
    then obtain s p' where s: "pmm_alloc_aligned count al p = Some (frame_addr s, p')" "2 ^ k dvd s" "{s..<s + unat count} \<subseteq> frees p"
      "frames_now p (frees p - {s..<s + unat count}) p'" by (auto simp: aligned_run_def)
    have "s \<in> frees p" by (rule run_start [OF n s(3)])
    then have "s < 2 ^ 52" "s \<noteq> 0" using run_frame [OF assms(1)] assms(2) by (auto intro: gr0I)
    then show ?thesis using s frames_nowD(1,2) [OF s(4)] frame_addr_is [of s] by (auto simp: ua)
  next
    assume "pmm_alloc_aligned count al p = Some (0, p) \<and> (\<forall>s. \<not> aligned_run k (unat count) p s)"
    then show ?thesis by (auto simp: ua aligned_run_def)
  qed
qed

theorem pmm_alloc_aligned_finds_witness:
  "\<exists>a p. pmm_alloc_aligned 3 4 demo_frames = Some (a, p) \<and> a \<noteq> 0 \<and> 4 dvd first_frame a"
proof -
  have z: "0 \<notin> frees demo_frames" "(3 :: u32) \<noteq> 0" "(4 :: u32) \<noteq> 0" "(4 :: u32) AND (4 - 1) = 0" by (simp_all add: demo_frames)
  have r: "4 dvd (4 :: nat)" "{4..<4 + unat (3 :: u32)} \<subseteq> frees demo_frames" by (auto simp: demo_frames)
  obtain a p where a: "pmm_alloc_aligned 3 4 demo_frames = Some (a, p)"
    "if a = 0 then p = demo_frames \<and> (\<forall>s. unat (4 :: u32) dvd s \<longrightarrow> \<not> {s..<s + unat (3 :: u32)} \<subseteq> frees demo_frames)
     else unat (4 :: u32) dvd first_frame a \<and> {first_frame a..<first_frame a + unat (3 :: u32)} \<subseteq> frees demo_frames \<and> pmm_ok p \<and>
       frees p = frees demo_frames - {first_frame a..<first_frame a + unat (3 :: u32)}"
    using pmm_alloc_aligned_finds [OF demo_frames(2) z] by blast
  have u: "unat (4 :: u32) = 4" by simp
  have "a \<noteq> 0" using a(2) r unfolding u by presburger
  then show ?thesis using a by simp
qed

text \<open>
  C26. Start-up leaves the kernel alone. For every information block whose tags end,
  whatever regions it declares available, \<open>pmm_init\<close> returns, the bitmap and its counter agree,
  and no frame that the allocator may hand out lies in the first megabyte or below the end of
  the kernel image, the boot information and the bitmap itself.
\<close>
theorem pmm_init_protects_kernel:
  assumes "bi_valid (pm_boot_info p) \<and> bi_mb_info (pm_boot_info p) \<noteq> 0 \<longrightarrow> tags_end mem (bi_mb_info (pm_boot_info p) + 8)"
    "unat (pmm_placement mem ke p) < 2 ^ 63"
  shows "\<exists>p'. pmm_init mem ke p = Some (0, p') \<and> pmm_ok p' \<and>
    (\<forall>f \<in> frees p'. 256 \<le> f \<and> unat (pmm_placement mem ke p) + unat (bitmap_size p') \<le> f * 4096)"
  using pmm_init_is [OF assms] by blast

theorem pmm_init_protects_kernel_witness:
  "\<exists>p'. pmm_init (\<lambda>_. 0) 0x00234567 demo_frames = Some (0, p') \<and> pmm_ok p' \<and>
    (\<forall>f \<in> frees p'. 0x00235000 + unat (bitmap_size p') \<le> f * 4096)"
proof -
  have p: "pmm_placement (\<lambda>_. 0) 0x00234567 demo_frames = 0x00235000"
    by (simp add: pmm_placement_def demo_frames_def zero_boot_info_def page_up_def)
  have v: "\<not> bi_valid (pm_boot_info demo_frames)" by (simp add: demo_frames_def zero_boot_info_def)
  show ?thesis 
    using pmm_init_protects_kernel [where p = demo_frames and mem = "\<lambda>_. 0" and ke = "0x00234567", unfolded p] v by auto
qed

end
