(* ===== verification/PagingProps.thy ===== *)
theory PagingProps
  imports PagingSpec PmmProps
begin

text \<open>
  Mapping, unmapping and looking up pages, against the processor's translation.
\<close>

section \<open>Walks over changed entries\<close>

definition page_of :: "u64 \<Rightarrow> nat \<times> nat \<times> nat \<times> nat" where
  "page_of v = (IDX_PML4 v, IDX_PDPT v, IDX_PD v, IDX_PT v)"

lemma walk_valid:
  "IDX_PML4 v \<noteq> 510 \<Longrightarrow> valid []" "IDX_PML4 v \<noteq> 510 \<Longrightarrow> valid [IDX_PML4 v]"
  "IDX_PML4 v \<noteq> 510 \<Longrightarrow> valid [IDX_PDPT v, IDX_PML4 v]" "IDX_PML4 v \<noteq> 510 \<Longrightarrow> valid [IDX_PD v, IDX_PDPT v, IDX_PML4 v]"
  by (simp_all add: valid_def idx_lt)

text \<open>A new table without entries translates nothing.\<close>

lemma walk_new:
  assumes E': "\<forall>q j. valid q \<and> j < 512 \<longrightarrow> E' q j = (if q = p \<and> j = i then x else E q j)"
    and old: "\<not> pte_present (E p i)" and x: "pte_present x" "\<not> pte_huge x" and zero: "\<forall>j < 512. E (i # p) j = 0"
    and p: "length p \<le> 2" and v: "IDX_PML4 v \<noteq> 510"
  shows "walk E' v = walk E v"
proof -
  note W = walk_valid [OF v] and L = idx_lt
  have e4: "E' [] (IDX_PML4 v) = (if [] = p \<and> IDX_PML4 v = i then x else E [] (IDX_PML4 v))" using E' W(1) L by blast
  have e3: "E' [IDX_PML4 v] (IDX_PDPT v) = (if [IDX_PML4 v] = p \<and> IDX_PDPT v = i then x else E [IDX_PML4 v] (IDX_PDPT v))"
    using E' W(2) L by blast
  have e2: "E' [IDX_PDPT v, IDX_PML4 v] (IDX_PD v) =
      (if [IDX_PDPT v, IDX_PML4 v] = p \<and> IDX_PD v = i then x else E [IDX_PDPT v, IDX_PML4 v] (IDX_PD v))" using E' W(3) L by blast
  have e1: "E' [IDX_PD v, IDX_PDPT v, IDX_PML4 v] (IDX_PT v) = E [IDX_PD v, IDX_PDPT v, IDX_PML4 v] (IDX_PT v)"
    using E' W(4) L p by auto
  consider "p = []" | a where "p = [a]" | a b where "p = [b, a]"
    using p by (auto simp: length_Suc_conv le_Suc_eq numeral_2_eq_2)
  then show ?thesis
  proof cases
    case 1
    then show ?thesis using old x zero L e4 e3 e2 e1 by (cases "IDX_PML4 v = i") (auto simp: walk_def Let_def)
  next
    case 2
    then show ?thesis using old x zero L e4 e3 e2 e1
      by (cases "[IDX_PML4 v] = p \<and> IDX_PDPT v = i") (auto simp: walk_def Let_def)
  next
    case 3
    then show ?thesis using old x zero L e4 e3 e2 e1
      by (cases "[IDX_PDPT v, IDX_PML4 v] = p \<and> IDX_PD v = i") (auto simp: walk_def Let_def)
  qed
qed

text \<open>An entry of a page table decides its page, and no other.\<close>

lemma walk_leaf:
  assumes E': "\<forall>q j. valid q \<and> j < 512 \<longrightarrow> E' q j = (if q = [i2, i3, i4] \<and> j = i1 then x else E q j)"
    and up: "pte_present (E [] i4)" "\<not> pte_huge (E [] i4)" "pte_present (E [i4] i3)" "\<not> pte_huge (E [i4] i3)"
      "pte_present (E [i3, i4] i2)" "\<not> pte_huge (E [i3, i4] i2)" and v: "IDX_PML4 v \<noteq> 510"
  shows "walk E' v = (if page_of v = (i4, i3, i2, i1) then if pte_present x then Some (PTE_ADDR x OR (v AND 0xFFF)) else None
    else walk E v)"
proof -
  note W = walk_valid [OF v] and L = idx_lt
  have e: "E' [] (IDX_PML4 v) = E [] (IDX_PML4 v)" "E' [IDX_PML4 v] (IDX_PDPT v) = E [IDX_PML4 v] (IDX_PDPT v)"
    "E' [IDX_PDPT v, IDX_PML4 v] (IDX_PD v) = E [IDX_PDPT v, IDX_PML4 v] (IDX_PD v)"
    "E' [IDX_PD v, IDX_PDPT v, IDX_PML4 v] (IDX_PT v) = (if page_of v = (i4, i3, i2, i1) then x
       else E [IDX_PD v, IDX_PDPT v, IDX_PML4 v] (IDX_PT v))"
    using E' W L by (auto simp: page_of_def)
  show ?thesis
  proof (cases "page_of v = (i4, i3, i2, i1)")
    case True
    then have "IDX_PML4 v = i4" "IDX_PDPT v = i3" "IDX_PD v = i2" "IDX_PT v = i1" by (simp_all add: page_of_def)
    then show ?thesis using True e up by (simp add: walk_def Let_def)
  qed (simp add: walk_def Let_def e)
qed

section \<open>Mapping\<close>

text \<open>The tables of \<open>s'\<close> are those of \<open>s\<close>, and new ones in frames that were free.\<close>

definition grown :: "paging \<Rightarrow> paging \<Rightarrow> bool" where
  "grown s s' \<longleftrightarrow> frees (frames s') \<subseteq> frees (frames s) \<and> total_frames (frames s') = total_frames (frames s) \<and>
     (\<forall>q u. valid q \<and> node s' q = Some u \<longrightarrow> node s q = Some u \<or> first_frame u \<in> frees (frames s)) \<and>
     (\<forall>q j. valid q \<and> length q \<le> 2 \<and> j < 512 \<and> pte_huge (entry s' q j) \<longrightarrow> pte_huge (entry s q j))"

lemma grown_refl: "grown s s"
  by (simp add: grown_def)

lemma grownD:
  assumes "grown s s'"
  shows "frees (frames s') \<subseteq> frees (frames s)" "total_frames (frames s') = total_frames (frames s)"
    "valid q \<Longrightarrow> node s' q = Some u \<Longrightarrow> node s q = Some u \<or> first_frame u \<in> frees (frames s)"
    "valid q \<Longrightarrow> length q \<le> 2 \<Longrightarrow> j < 512 \<Longrightarrow> pte_huge (entry s' q j) \<Longrightarrow> pte_huge (entry s q j)"
  using assms unfolding grown_def by blast+

lemma grownI:
  assumes "frees (frames s') \<subseteq> frees (frames s)" "total_frames (frames s') = total_frames (frames s)"
    "\<And>q u. valid q \<Longrightarrow> node s' q = Some u \<Longrightarrow> node s q = Some u \<or> first_frame u \<in> frees (frames s)"
    "\<And>q j. valid q \<Longrightarrow> length q \<le> 2 \<Longrightarrow> j < 512 \<Longrightarrow> pte_huge (entry s' q j) \<Longrightarrow> pte_huge (entry s q j)"
  shows "grown s s'"
  using assms unfolding grown_def by blast

lemma grown_trans: "grown s s1 \<Longrightarrow> grown s1 s2 \<Longrightarrow> grown s s2"
  by (rule grownI) (metis grownD(1) subset_iff, metis grownD(2), metis grownD(1,3) subset_iff, metis grownD(4))

lemma ensure_step:
  assumes ok: "tables_ok s" "ram_ok s" and v: "valid (i # p)" and n: "node s p = Some t"
  obtains st s' where "ensure_table (slot_va p i) (slot_va (i # p) 0) s = Some (st, s')" "tables_ok s'" "ram_ok s'"
    "\<forall>v. IDX_PML4 v \<noteq> 510 \<longrightarrow> translate s' v = translate s v"
    "st = 0 \<Longrightarrow> pte_present (entry s' p i) \<and> \<not> pte_huge (entry s' p i)"
    "\<forall>q j. valid q \<and> j < 512 \<and> (q, j) \<noteq> (p, i) \<longrightarrow> entry s' q j = entry s q j"
    "card (frees (frames s)) \<le> Suc (card (frees (frames s')))"
    "\<not> (pte_present (entry s p i) \<and> pte_huge (entry s p i)) \<Longrightarrow> frees (frames s) \<noteq> {} \<Longrightarrow> st = 0"
    "grown s s'"
proof -
  note D = tables_okD [OF ok(1)] and E = ensure_table_is [OF ok v n]
  show thesis
  proof (cases "pte_present (entry s p i)")
    case True
    show thesis by (rule that [of "if pte_huge (entry s p i) then - 1 else 0" s]) (use True E ok grown_refl in \<open>auto split: if_splits\<close>)
  next
    case np: False
    show thesis
    proof (cases "frees (frames s) = {}")
      case True
      then have "s\<lparr> frames := frames s \<rparr> = s" by simp
      then have "ensure_table (slot_va p i) (slot_va (i # p) 0) s = Some (- 1, s)"
        using E np alloc_frame_is(1) [OF D(1) True] by simp
      from that [OF this ok] show thesis using True grown_refl by simp
    next
      case False
      then obtain f pm where f: "pmm_alloc_frame (frames s) = (frame_addr f, pm)" "f \<in> frees (frames s)"
        "frames_now (frames s) (frees (frames s) - {f}) pm" using alloc_frame_is(2) [OF D(1)] by auto
      note FT = frame_table [OF ok f(2)] and I = install_is [OF ok v n np f(2,3)]
      let ?s = "install (entry_at t i) (frame_addr f) pm s"
      have en: "ensure_table (slot_va p i) (slot_va (i # p) 0) s = Some (0, ?s)" using E np f(1) FT(3) by simp
      have "node s (i # p) = None" unfolding node_entry using np by (simp add: Let_def)
      then have zero: "\<forall>j < 512. entry s (i # p) j = 0" by (simp add: entry_def del: node.simps)
      have ent: "\<forall>q j. valid q \<and> j < 512 \<longrightarrow> entry ?s q j = (if q = p \<and> j = i then frame_addr f OR PAGE_PRESENT OR PAGE_WRITABLE else entry s q j)"
        using I(6) by blast
      have tr: "\<forall>v. IDX_PML4 v \<noteq> 510 \<longrightarrow> translate ?s v = translate s v"
        using walk_new [OF ent np table_pte(2,3) [OF FT(1)] zero] valid_Cons [OF v]
        by (simp add: translate_walk D(3) tables_okD(3) [OF I(1)])
      have vp: "valid p" "i < 512" using valid_Cons [OF v] by auto
      have "entry ?s p i = frame_addr f OR PAGE_PRESENT OR PAGE_WRITABLE" using ent vp by simp
      then have pr: "pte_present (entry ?s p i) \<and> \<not> pte_huge (entry ?s p i)" using table_pte(2,3) [OF FT(1)] by simp
      have keep: "\<forall>q j. valid q \<and> j < 512 \<and> (q, j) \<noteq> (p, i) \<longrightarrow> entry ?s q j = entry s q j" using ent by auto
      have cd: "card (frees (frames s)) \<le> Suc (card (frees (frames ?s)))"
        using frames_nowD(2) [OF f(3)] f(2) by (simp add: I(3) card_Diff_singleton)
      have nd: "grown s ?s"
      proof (rule grownI)
        show "frees (frames ?s) \<subseteq> frees (frames s)" "total_frames (frames ?s) = total_frames (frames s)"
          using frames_nowD [OF f(3)] by (auto simp: I(3))
        show "node s q = Some u \<or> first_frame u \<in> frees (frames s)" if "valid q" "node ?s q = Some u" for q u
          using I(5) [OF that(1)] that(2) FT(2) f(2) by (auto simp del: node.simps split: if_splits)
        show "pte_huge (entry s q j)" if "valid q" "j < 512" "pte_huge (entry ?s q j)" for q j
          using ent that table_pte(3) [OF FT(1)] by (auto split: if_splits)
      qed
      show thesis by (rule that [OF en I(1,4) tr pr keep cd _ nd]) simp
    qed
  qed
qed

definition no_huge :: "paging \<Rightarrow> u64 \<Rightarrow> bool" where
  "no_huge s v \<longleftrightarrow> (let i4 = IDX_PML4 v; i3 = IDX_PDPT v; i2 = IDX_PD v
     in \<not> pte_huge (entry s [] i4) \<and> \<not> pte_huge (entry s [i4] i3) \<and> \<not> pte_huge (entry s [i3, i4] i2))"

lemma no_huge_grown: "grown s s' \<Longrightarrow> IDX_PML4 v \<noteq> 510 \<Longrightarrow> no_huge s v \<Longrightarrow> no_huge s' v"
  using grownD(4) [of s s' "[]"] grownD(4) [of s s' "[IDX_PML4 v]"] grownD(4) [of s s' "[IDX_PDPT v, IDX_PML4 v]"] walk_valid [of v] idx_lt [of v]
  by (auto simp: no_huge_def Let_def)

lemma pte_of_page:
  assumes "PTE_ADDR pa = pa"
  shows "pte_present (PTE_ADDR pa OR PAGE_PRESENT OR fl)" "PTE_ADDR (PTE_ADDR pa OR PAGE_PRESENT OR (flags AND PAGE_FLAG_MASK)) = pa"
proof -
  have "bit (PTE_ADDR pa OR 1 OR fl) 0" by (simp add: bit_or_iff)
  then have "bit ((PTE_ADDR pa OR 1 OR fl) AND 1) 0" by (simp add: bit_and_iff)
  then show "pte_present (PTE_ADDR pa OR PAGE_PRESENT OR fl)" by (auto simp: pte_present_def)
  have f: "(flags AND 0x8000000000000FFF) AND 0x000FFFFFFFFFF000 = (0 :: u64)" by (simp add: and.assoc)
  have "PTE_ADDR (pa OR 1 OR (flags AND 0x8000000000000FFF)) = PTE_ADDR pa OR PTE_ADDR 1 OR PTE_ADDR (flags AND 0x8000000000000FFF)"
    by (simp only: PTE_ADDR_def bit.conj_disj_distrib2)
  then show "PTE_ADDR (PTE_ADDR pa OR PAGE_PRESENT OR (flags AND PAGE_FLAG_MASK)) = pa"
    using f assms by (simp add: PTE_ADDR_def)
qed

text \<open>The three tables on the way to a page, made where they are missing.\<close>

lemma slot_va_0: "slot_va [i4] 0 = PDPT_VIRT i4" "slot_va [i3, i4] 0 = PD_VIRT_AT i4 i3" "slot_va [i2, i3, i4] 0 = PT_VIRT_AT i4 i3 i2"
  by (simp_all add: entry_at_def)

lemma next_node:
  "pte_present (entry s p i) \<Longrightarrow> \<not> pte_huge (entry s p i) \<Longrightarrow> node s (i # p) = Some (PTE_ADDR (entry s p i))"
  unfolding node_entry by (simp add: Let_def)

definition path_open :: "paging \<Rightarrow> u64 \<Rightarrow> bool" where
  "path_open s v \<longleftrightarrow> (let i4 = IDX_PML4 v; i3 = IDX_PDPT v; i2 = IDX_PD v
     in (pte_present (entry s [] i4) \<and> \<not> pte_huge (entry s [] i4)) \<and>
        (pte_present (entry s [i4] i3) \<and> \<not> pte_huge (entry s [i4] i3)) \<and>
        (pte_present (entry s [i3, i4] i2) \<and> \<not> pte_huge (entry s [i3, i4] i2)))"

lemma path_openD:
  assumes "path_open s v"
  shows "pte_present (entry s [] (IDX_PML4 v))" "\<not> pte_huge (entry s [] (IDX_PML4 v))"
    "pte_present (entry s [IDX_PML4 v] (IDX_PDPT v))" "\<not> pte_huge (entry s [IDX_PML4 v] (IDX_PDPT v))"
    "pte_present (entry s [IDX_PDPT v, IDX_PML4 v] (IDX_PD v))" "\<not> pte_huge (entry s [IDX_PDPT v, IDX_PML4 v] (IDX_PD v))"
    "node s [IDX_PD v, IDX_PDPT v, IDX_PML4 v] = Some (PTE_ADDR (entry s [IDX_PDPT v, IDX_PML4 v] (IDX_PD v)))"
  using assms next_node unfolding path_open_def Let_def by blast+

abbreviation leaf_va :: "u64 \<Rightarrow> u64" where
  "leaf_va virt \<equiv> entry_at (PT_VIRT_AT (IDX_PML4 virt) (IDX_PDPT virt) (IDX_PD virt)) (IDX_PT virt)"

lemma write_leaf:
  assumes ok: "tables_ok s" and po: "path_open s virt" and hv: "IDX_PML4 virt \<noteq> 510"
  obtains s' where
    "write_pte (leaf_va virt) x s = Some s'"
    "tables_ok s'" "frames s' = frames s" "path_open s' virt" "entry s' [IDX_PD virt, IDX_PDPT virt, IDX_PML4 virt] (IDX_PT virt) = x"
    "\<forall>v. IDX_PML4 v \<noteq> 510 \<longrightarrow> translate s' v =
      (if page_of v = page_of virt then if pte_present x then Some (PTE_ADDR x OR (v AND 0xFFF)) else None else translate s v)"
    "grown s s'"
proof -
  note W = walk_valid(4) [OF hv] and L = idx_lt [of virt] and P = path_openD [OF po] and R = tables_okD(3) [OF ok]
  let ?p = "[IDX_PD virt, IDX_PDPT virt, IDX_PML4 virt]"
  obtain t where t: "node s ?p = Some t" using P(7) by blast
  let ?s = "put_word (entry_at t (IDX_PT virt)) x s"
  have E: "\<forall>q j. valid q \<and> j < 512 \<longrightarrow> entry ?s q j = (if q = ?p \<and> j = IDX_PT virt then x else entry s q j)"
    using entry_put_leaf [OF ok W t L(4)] by simp
  have ok': "tables_ok ?s" by (rule tables_put_leaf [OF ok W t L(4)]) simp
  have wr: "write_pte (leaf_va virt) x s = Some ?s"
    using rec_walk [OF R W t L(4)] by (simp add: write_pte_def)
  have fr: "frames ?s = frames s" by (simp add: put_word_def)
  have "entry ?s [] (IDX_PML4 virt) = entry s [] (IDX_PML4 virt)"
    "entry ?s [IDX_PML4 virt] (IDX_PDPT virt) = entry s [IDX_PML4 virt] (IDX_PDPT virt)"
    "entry ?s [IDX_PDPT virt, IDX_PML4 virt] (IDX_PD virt) = entry s [IDX_PDPT virt, IDX_PML4 virt] (IDX_PD virt)"
    using E walk_valid [OF hv] L by simp_all
  then have po': "path_open ?s virt" using po by (simp add: path_open_def Let_def)
  have ent: "entry ?s ?p (IDX_PT virt) = x" using E W L(4) by (simp del: node.simps)
  have tr: "\<forall>v. IDX_PML4 v \<noteq> 510 \<longrightarrow> translate ?s v =
      (if page_of v = page_of virt then if pte_present x then Some (PTE_ADDR x OR (v AND 0xFFF)) else None else translate s v)"
    using walk_leaf [OF E P(1-6)]
    by (simp add: translate_walk R tables_okD(3) [OF ok'] page_of_def [of virt])
  have "grown s ?s"
  proof (rule grownI)
    show "node s q = Some u \<or> first_frame u \<in> frees (frames s)" if "valid q" "node ?s q = Some u" for q u
      using node_put_leaf [OF ok W t L(4), of q x] that by (simp del: node.simps)
    show "pte_huge (entry s q j)" if "valid q" "length q \<le> 2" "j < 512" "pte_huge (entry ?s q j)" for q j
      using E that by (auto split: if_splits)
  qed (simp_all add: fr)
  then show thesis by (rule that [OF wr ok' fr po' ent tr])
qed

text \<open>What follows once the three tables are there.\<close>

definition with_tables :: "u64 \<Rightarrow> (paging \<Rightarrow> (int \<times> paging) option) \<Rightarrow> paging \<Rightarrow> (int \<times> paging) option" where
  "with_tables virt f s =
     (let i4 = IDX_PML4 virt; i3 = IDX_PDPT virt; i2 = IDX_PD virt
      in then_ok (ensure_table (entry_at RECURSIVE_PML4_BASE i4) (PDPT_VIRT i4) s) (\<lambda>s1.
         then_ok (ensure_table (entry_at (PDPT_VIRT i4) i3) (PD_VIRT_AT i4 i3) s1) (\<lambda>s2.
         then_ok (ensure_table (entry_at (PD_VIRT_AT i4 i3) i2) (PT_VIRT_AT i4 i3 i2) s2) f)))"

lemma map_page_with:
  "pa AND 0xFFF = 0 \<Longrightarrow> virt AND 0xFFF = 0 \<Longrightarrow> map_page pa virt flags s = with_tables virt
     (\<lambda>s3. map_option (Pair 0) (write_pte (leaf_va virt) (PTE_ADDR pa OR PAGE_PRESENT OR (flags AND PAGE_FLAG_MASK)) s3)) s"
  by (simp add: map_page_def with_tables_def Let_def)

lemma with_tables_is:
  assumes ok: "tables_ok s" "ram_ok s" and hv: "IDX_PML4 virt \<noteq> 510"
  obtains st :: int and s' where
    "with_tables virt f s = (if st = 0 then f s' else Some (- 1, s'))"
    "tables_ok s'" "ram_ok s'" "\<forall>v. IDX_PML4 v \<noteq> 510 \<longrightarrow> translate s' v = translate s v"
    "st = 0 \<Longrightarrow> path_open s' virt" "no_huge s virt \<Longrightarrow> 3 \<le> card (frees (frames s)) \<Longrightarrow> st = 0" "grown s s'"
    "card (frees (frames s)) \<le> card (frees (frames s')) + 3"
proof -
  define i4 i3 i2 where "i4 = IDX_PML4 virt" and "i3 = IDX_PDPT virt" and "i2 = IDX_PD virt"
  note idx = this
  have wt: "with_tables virt f s =
      then_ok (ensure_table (entry_at RECURSIVE_PML4_BASE i4) (PDPT_VIRT i4) s) (\<lambda>s1.
      then_ok (ensure_table (entry_at (PDPT_VIRT i4) i3) (PD_VIRT_AT i4 i3) s1) (\<lambda>s2.
      then_ok (ensure_table (entry_at (PD_VIRT_AT i4 i3) i2) (PT_VIRT_AT i4 i3 i2) s2) f))"
    by (simp add: with_tables_def Let_def idx)
  note W = walk_valid [OF hv, folded idx]
  obtain st1 s1 where A: "ensure_table (entry_at RECURSIVE_PML4_BASE i4) (PDPT_VIRT i4) s = Some (st1, s1)" "tables_ok s1" "ram_ok s1"
    "\<forall>v. IDX_PML4 v \<noteq> 510 \<longrightarrow> translate s1 v = translate s v"
    "st1 = 0 \<Longrightarrow> pte_present (entry s1 [] i4) \<and> \<not> pte_huge (entry s1 [] i4)"
    "\<forall>q j. valid q \<and> j < 512 \<and> (q, j) \<noteq> ([], i4) \<longrightarrow> entry s1 q j = entry s q j"
    "card (frees (frames s)) \<le> Suc (card (frees (frames s1)))"
    "\<not> (pte_present (entry s [] i4) \<and> pte_huge (entry s [] i4)) \<Longrightarrow> frees (frames s) \<noteq> {} \<Longrightarrow> st1 = 0" "grown s s1"
    by (rule ensure_step [OF ok W(2), unfolded slot_va_0 slot_va.simps(1)]) (simp, blast)
  have ne3: "frees (frames s) \<noteq> {}" if "3 \<le> card (frees (frames s))" using that by auto
  show thesis
  proof (cases "st1 = 0")
    case False
    show thesis
    proof (rule that [of st1 s1])
      show "no_huge s virt \<Longrightarrow> 3 \<le> card (frees (frames s)) \<Longrightarrow> st1 = 0"
        using A(8) ne3 by (simp add: no_huge_def Let_def idx)
      show "tables_ok s1" "ram_ok s1" "\<forall>v. IDX_PML4 v \<noteq> 510 \<longrightarrow> translate s1 v = translate s v" "grown s s1" using A by blast+
      show "card (frees (frames s)) \<le> card (frees (frames s1)) + 3" using A(7) by simp
    qed (use False A(1) wt in \<open>simp_all add: then_ok_def\<close>)
  next
    case st1: True
    note E1 = A(5) [OF st1]
    have n1: "node s1 [i4] = Some (PTE_ADDR (entry s1 [] i4))" using next_node E1 by blast
    obtain st2 s2 where B: "ensure_table (entry_at (PDPT_VIRT i4) i3) (PD_VIRT_AT i4 i3) s1 = Some (st2, s2)" "tables_ok s2" "ram_ok s2"
      "\<forall>v. IDX_PML4 v \<noteq> 510 \<longrightarrow> translate s2 v = translate s1 v"
      "st2 = 0 \<Longrightarrow> pte_present (entry s2 [i4] i3) \<and> \<not> pte_huge (entry s2 [i4] i3)"
      "\<forall>q j. valid q \<and> j < 512 \<and> (q, j) \<noteq> ([i4], i3) \<longrightarrow> entry s2 q j = entry s1 q j"
      "card (frees (frames s1)) \<le> Suc (card (frees (frames s2)))"
      "\<not> (pte_present (entry s1 [i4] i3) \<and> pte_huge (entry s1 [i4] i3)) \<Longrightarrow> frees (frames s1) \<noteq> {} \<Longrightarrow> st2 = 0" "grown s1 s2"
      by (rule ensure_step [OF A(2,3) W(3) n1, unfolded slot_va_0, unfolded slot_va.simps]) blast
    have L: "i4 < 512" "i3 < 512" "i2 < 512" by (simp_all add: idx idx_lt)
    have tr2: "\<forall>v. IDX_PML4 v \<noteq> 510 \<longrightarrow> translate s2 v = translate s v" using A(4) B(4) by simp
    have s3i: "entry s1 [i4] i3 = entry s [i4] i3" using A(6) W(2) L by blast
    have ne: "frees (frames s) \<noteq> {} \<and> frees (frames s1) \<noteq> {}" if "3 \<le> card (frees (frames s))" using that A(7) by auto
    show thesis
    proof (cases "st2 = 0")
      case False
      show thesis
      proof (rule that [of st2 s2])
        show "no_huge s virt \<Longrightarrow> 3 \<le> card (frees (frames s)) \<Longrightarrow> st2 = 0"
          using B(8) s3i ne by (auto simp: no_huge_def Let_def idx)
        show "tables_ok s2" "ram_ok s2" "\<forall>v. IDX_PML4 v \<noteq> 510 \<longrightarrow> translate s2 v = translate s v" "grown s s2"
          using B(2,3) tr2 grown_trans [OF A(9) B(9)] by blast+
        show "card (frees (frames s)) \<le> card (frees (frames s2)) + 3" using A(7) B(7) by simp
      qed (use wt False st1 A(1) B(1) in \<open>simp_all add: then_ok_def\<close>)
    next
      case st2: True
      note E2 = B(5) [OF st2]
      have n2: "node s2 [i3, i4] = Some (PTE_ADDR (entry s2 [i4] i3))" using next_node E2 by blast
      obtain st3 s3 where C: "ensure_table (entry_at (PD_VIRT_AT i4 i3) i2) (PT_VIRT_AT i4 i3 i2) s2 = Some (st3, s3)" "tables_ok s3" "ram_ok s3"
        "\<forall>v. IDX_PML4 v \<noteq> 510 \<longrightarrow> translate s3 v = translate s2 v"
        "st3 = 0 \<Longrightarrow> pte_present (entry s3 [i3, i4] i2) \<and> \<not> pte_huge (entry s3 [i3, i4] i2)"
        "\<forall>q j. valid q \<and> j < 512 \<and> (q, j) \<noteq> ([i3, i4], i2) \<longrightarrow> entry s3 q j = entry s2 q j"
        "\<not> (pte_present (entry s2 [i3, i4] i2) \<and> pte_huge (entry s2 [i3, i4] i2)) \<Longrightarrow> frees (frames s2) \<noteq> {} \<Longrightarrow> st3 = 0" "grown s2 s3"
        "card (frees (frames s2)) \<le> Suc (card (frees (frames s3)))"
        by (rule ensure_step [OF B(2,3) W(4) n2, unfolded slot_va_0, unfolded slot_va.simps]) blast
      have e: "entry s2 [i3, i4] i2 = entry s [i3, i4] i2" "entry s3 [i4] i3 = entry s2 [i4] i3" "entry s3 [] i4 = entry s1 [] i4"
        using A(6) B(6) C(6) W L by auto
      show thesis
      proof (rule that [of st3 s3])
        have "frees (frames s2) \<noteq> {}" if "3 \<le> card (frees (frames s))"
        proof
          assume "frees (frames s2) = {}"
          then show False using that A(7) B(7) by simp
        qed
        then show "no_huge s virt \<Longrightarrow> 3 \<le> card (frees (frames s)) \<Longrightarrow> st3 = 0"
          using C(7) e(1) by (simp add: no_huge_def Let_def idx)
        show "st3 = 0 \<Longrightarrow> path_open s3 virt" using C(5) E1 E2 e by (simp add: path_open_def Let_def flip: idx)
        show "tables_ok s3" "ram_ok s3" "\<forall>v. IDX_PML4 v \<noteq> 510 \<longrightarrow> translate s3 v = translate s v" "grown s s3"
          using C(2-4) tr2 grown_trans [OF grown_trans [OF A(9) B(9)] C(8)] by auto
        show "card (frees (frames s)) \<le> card (frees (frames s3)) + 3" using A(7) B(7) C(9) by simp
      qed (use wt st1 st2 A(1) B(1) C(1) in \<open>simp_all add: then_ok_def\<close>)
    qed
  qed
qed

lemma page_low: "PTE_ADDR pa = pa \<Longrightarrow> pa AND 0xFFF = 0"
  using table_low(1) [of pa] by (simp add: table_addr_def)

lemma map_page_is:
  assumes ok: "tables_ok s" "ram_ok s" and hv: "IDX_PML4 virt \<noteq> 510" "virt AND 0xFFF = 0" and pa: "PTE_ADDR pa = pa"
  obtains st s' where "map_page pa virt flags s = Some (st, s')" "tables_ok s'" "ram_ok s'" "grown s s'"
    "\<forall>v. IDX_PML4 v \<noteq> 510 \<longrightarrow> translate s' v = (if st = 0 \<and> page_of v = page_of virt then Some (pa OR (v AND 0xFFF)) else translate s v)"
    "st = 0 \<Longrightarrow> path_open s' virt" "no_huge s virt \<Longrightarrow> 3 \<le> card (frees (frames s)) \<Longrightarrow> st = 0"
    "card (frees (frames s)) \<le> card (frees (frames s')) + 3"
proof -
  let ?x = "PTE_ADDR pa OR PAGE_PRESENT OR (flags AND PAGE_FLAG_MASK)"
  obtain st :: int and s1 where P: "with_tables virt (\<lambda>s3. map_option (Pair 0) (write_pte (leaf_va virt) ?x s3)) s =
      (if st = 0 then map_option (Pair 0) (write_pte (leaf_va virt) ?x s1) else Some (- 1, s1))"
    "tables_ok s1" "ram_ok s1" "\<forall>v. IDX_PML4 v \<noteq> 510 \<longrightarrow> translate s1 v = translate s v"
    "st = 0 \<Longrightarrow> path_open s1 virt" "no_huge s virt \<Longrightarrow> 3 \<le> card (frees (frames s)) \<Longrightarrow> st = 0" "grown s s1"
    "card (frees (frames s)) \<le> card (frees (frames s1)) + 3"
    by (rule with_tables_is [OF ok hv(1), where f = "\<lambda>s3. map_option (Pair 0) (write_pte (leaf_va virt) ?x s3)"]) blast
  note mp = map_page_with [OF page_low [OF pa] hv(2), of flags s, unfolded P(1)]
  show thesis
  proof (cases "st = 0")
    case False
    show thesis by (rule that [of "- 1" s1]) (use False mp P in simp_all)
  next
    case True
    obtain s2 where L: "write_pte (leaf_va virt) ?x s1 = Some s2"
      "tables_ok s2" "frames s2 = frames s1" "path_open s2 virt"
      "\<forall>v. IDX_PML4 v \<noteq> 510 \<longrightarrow> translate s2 v =
        (if page_of v = page_of virt then if pte_present ?x then Some (PTE_ADDR ?x OR (v AND 0xFFF)) else None else translate s1 v)"
      "grown s1 s2"
      by (rule write_leaf [OF P(2) P(5) [OF True] hv(1)]) blast
    have tr: "\<forall>v. IDX_PML4 v \<noteq> 510 \<longrightarrow> translate s2 v = (if (0::int) = 0 \<and> page_of v = page_of virt then Some (pa OR (v AND 0xFFF)) else translate s v)"
      using L(5) P(4) pte_of_page [OF pa] by (simp del: PAGE_PRESENT_def PAGE_FLAG_MASK_def)
    show thesis
      by (rule that [of 0 s2]) (use L P(3,8) True mp tr grown_trans [OF P(7) L(6)] in \<open>simp_all add: ram_ok_def\<close>)
  qed
qed

section \<open>Unmapping and looking up\<close>

lemma read_slot:
  assumes "tables_ok s" "valid p" "node s p = Some t" "i < 512"
  shows "read_pte s (slot_va p i) = Some (entry s p i)"
  using rec_walk [OF tables_okD(3) [OF assms(1)] assms(2-4)] assms(3) by (simp add: read_pte_def entry_def)

text \<open>No entry above a page directory maps a huge page; those of a page directory are aligned.\<close>

definition huge_ok :: "paging \<Rightarrow> u64 \<Rightarrow> bool" where
  "huge_ok s v \<longleftrightarrow> (let i4 = IDX_PML4 v; i3 = IDX_PDPT v; e2 = entry s [i3, i4] (IDX_PD v)
     in \<not> pte_huge (entry s [] i4) \<and> \<not> pte_huge (entry s [i4] i3) \<and>
        (pte_huge e2 \<longrightarrow> PTE_ADDR e2 AND NOT 0x1FFFFF = PTE_ADDR e2))"

lemma no_huge_ok: "no_huge s v \<Longrightarrow> huge_ok s v"
  by (simp add: no_huge_def huge_ok_def Let_def)

lemma read_path:
  assumes ok: "tables_ok s" and hv: "IDX_PML4 v \<noteq> 510" and h: "huge_ok s v"
  defines "i4 \<equiv> IDX_PML4 v" and "i3 \<equiv> IDX_PDPT v" and "i2 \<equiv> IDX_PD v" and "i1 \<equiv> IDX_PT v"
  shows "read_pte s (entry_at RECURSIVE_PML4_BASE i4) = Some (entry s [] i4)"
    "pte_present (entry s [] i4) \<Longrightarrow> read_pte s (entry_at (PDPT_VIRT i4) i3) = Some (entry s [i4] i3)"
    "pte_present (entry s [] i4) \<Longrightarrow> pte_present (entry s [i4] i3) \<Longrightarrow>
      read_pte s (entry_at (PD_VIRT_AT i4 i3) i2) = Some (entry s [i3, i4] i2)"
    "pte_present (entry s [] i4) \<Longrightarrow> pte_present (entry s [i4] i3) \<Longrightarrow> pte_present (entry s [i3, i4] i2) \<Longrightarrow>
      \<not> pte_huge (entry s [i3, i4] i2) \<Longrightarrow> read_pte s (entry_at (PT_VIRT_AT i4 i3 i2) i1) = Some (entry s [i2, i3, i4] i1)"
proof -
  note W = walk_valid [OF hv, folded i4_def i3_def i2_def] and L = idx_lt [of v, folded i4_def i3_def i2_def i1_def]
  have H: "\<not> pte_huge (entry s [] i4)" "\<not> pte_huge (entry s [i4] i3)" using h by (simp_all add: huge_ok_def Let_def i4_def i3_def)
  note R = read_slot [OF ok, unfolded slot_va.simps]
  show "read_pte s (entry_at RECURSIVE_PML4_BASE i4) = Some (entry s [] i4)"
    using read_slot [OF ok W(1) _ L(1)] by simp
  assume p4: "pte_present (entry s [] i4)"
  have n4: "node s [i4] = Some (PTE_ADDR (entry s [] i4))" by (rule next_node [OF p4 H(1)])
  show "read_pte s (entry_at (PDPT_VIRT i4) i3) = Some (entry s [i4] i3)"
    using read_slot [OF ok W(2) n4 L(2)] by simp
  assume p3: "pte_present (entry s [i4] i3)"
  have n3: "node s [i3, i4] = Some (PTE_ADDR (entry s [i4] i3))" by (rule next_node [OF p3 H(2)])
  show "read_pte s (entry_at (PD_VIRT_AT i4 i3) i2) = Some (entry s [i3, i4] i2)"
    using read_slot [OF ok W(3) n3 L(3)] by simp
  assume p2: "pte_present (entry s [i3, i4] i2)" "\<not> pte_huge (entry s [i3, i4] i2)"
  have n2: "node s [i2, i3, i4] = Some (PTE_ADDR (entry s [i3, i4] i2))" by (rule next_node [OF p2])
  show "read_pte s (entry_at (PT_VIRT_AT i4 i3 i2) i1) = Some (entry s [i2, i3, i4] i1)"
    using read_slot [OF ok W(4) n2 L(4)] by simp
qed

lemma virt_to_phys_is:
  assumes ok: "tables_ok s" and hv: "IDX_PML4 v \<noteq> 510" and h: "huge_ok s v"
  shows "virt_to_phys v s = Some (case translate s v of None \<Rightarrow> PHYS_ADDR_INVALID | Some pa \<Rightarrow> pa)"
proof -
  note R = read_path [OF assms]
  have H: "\<not> pte_huge (entry s [] (IDX_PML4 v))" "\<not> pte_huge (entry s [IDX_PML4 v] (IDX_PDPT v))"
    "pte_huge (entry s [IDX_PDPT v, IDX_PML4 v] (IDX_PD v)) \<Longrightarrow>
      PTE_ADDR (entry s [IDX_PDPT v, IDX_PML4 v] (IDX_PD v)) AND NOT 0x1FFFFF = PTE_ADDR (entry s [IDX_PDPT v, IDX_PML4 v] (IDX_PD v))"
    using h by (simp_all add: huge_ok_def Let_def)
  have T: "translate s v = walk (entry s) v" by (rule translate_walk [OF tables_okD(3) [OF ok]])
  consider "\<not> pte_present (entry s [] (IDX_PML4 v))"
    | "pte_present (entry s [] (IDX_PML4 v))" "\<not> pte_present (entry s [IDX_PML4 v] (IDX_PDPT v))"
    | "pte_present (entry s [] (IDX_PML4 v))" "pte_present (entry s [IDX_PML4 v] (IDX_PDPT v))"
      "\<not> pte_present (entry s [IDX_PDPT v, IDX_PML4 v] (IDX_PD v)) \<or> pte_huge (entry s [IDX_PDPT v, IDX_PML4 v] (IDX_PD v))"
    | "pte_present (entry s [] (IDX_PML4 v))" "pte_present (entry s [IDX_PML4 v] (IDX_PDPT v))"
      "pte_present (entry s [IDX_PDPT v, IDX_PML4 v] (IDX_PD v))" "\<not> pte_huge (entry s [IDX_PDPT v, IDX_PML4 v] (IDX_PD v))"
    by blast
  then show ?thesis
  proof cases
    case 1
    then show ?thesis unfolding virt_to_phys_def Let_def R(1) T walk_def using H by simp
  next
    case 2
    then show ?thesis unfolding virt_to_phys_def Let_def R(1) T walk_def using H R(2) by simp
  next
    case 3
    then show ?thesis unfolding virt_to_phys_def Let_def R(1) T walk_def using H R(2,3) by auto
  next
    case 4
    then show ?thesis unfolding virt_to_phys_def Let_def R(1) T walk_def using H R(2,3,4) by simp
  qed
qed

lemma unmap_page_is:
  assumes ok: "tables_ok s" and hv: "IDX_PML4 virt \<noteq> 510" and h: "no_huge s virt"
  obtains s' where "unmap_page virt s = Some s'" "tables_ok s'" "frames s' = frames s" "grown s s'"
    "\<forall>v. IDX_PML4 v \<noteq> 510 \<longrightarrow> translate s' v = (if page_of v = page_of virt then None else translate s v)"
proof -
  note R = read_path [OF ok hv no_huge_ok [OF h]]
  have H: "\<not> pte_huge (entry s [] (IDX_PML4 virt))" "\<not> pte_huge (entry s [IDX_PML4 virt] (IDX_PDPT virt))"
    "\<not> pte_huge (entry s [IDX_PDPT virt, IDX_PML4 virt] (IDX_PD virt))"
    using h by (simp_all add: no_huge_def Let_def)
  show thesis
  proof (cases "path_open s virt")
    case True
    note P = path_openD [OF True]
    obtain s' where L: "write_pte (leaf_va virt) 0 s = Some s'" "tables_ok s'" "frames s' = frames s" "grown s s'"
      "\<forall>v. IDX_PML4 v \<noteq> 510 \<longrightarrow> translate s' v = (if page_of v = page_of virt then if pte_present 0 then Some (PTE_ADDR 0 OR (v AND 0xFFF)) else None else translate s v)"
      by (rule write_leaf [OF ok True hv]) blast
    have "unmap_page virt s = Some s'" using P(1,3,5,6) R(1-3) L(1) by (simp add: unmap_page_def Let_def)
    then show thesis by (rule that) (use L in simp_all)
  next
    case False
    then have N: "\<not> (pte_present (entry s [] (IDX_PML4 virt)) \<and> pte_present (entry s [IDX_PML4 virt] (IDX_PDPT virt)) \<and>
        pte_present (entry s [IDX_PDPT virt, IDX_PML4 virt] (IDX_PD virt)))"
      using H by (simp add: path_open_def Let_def)
    have u: "unmap_page virt s = Some s"
      using N R(1-3) H by (cases "pte_present (entry s [] (IDX_PML4 virt))"; cases "pte_present (entry s [IDX_PML4 virt] (IDX_PDPT virt))")
        (simp_all add: unmap_page_def Let_def)
    have "translate s v = None" if "page_of v = page_of virt" for v
      using that N H by (auto simp: translate_walk [OF tables_okD(3) [OF ok]] walk_def Let_def page_of_def)
    then show thesis by (intro that [OF u ok refl grown_refl]) simp
  qed
qed

section \<open>Properties\<close>

text \<open>A small machine: frame 11 holds the top-level table, empty but for its recursive slot.\<close>

definition demo_paging :: paging where
  "demo_paging = \<lparr> frames = demo_frames, phys = (\<lambda>a. if a = entry_at 0xB000 510 then 0xB003 else 0),
     cr3 = 0xB000, root_phys = 0xB000, identity_map_size = 0x200000 \<rparr>"

lemma demo_table: "table_addr 0xB000" "first_frame 0xB000 = 11"
  by (simp_all add: table_addr_def PTE_ADDR_def first_frame_def)

lemma demo_entry: "i < 512 \<Longrightarrow> i \<noteq> 510 \<Longrightarrow> phys demo_paging (entry_at 0xB000 i) = 0"
  using entry_at_inj [OF demo_table(1) demo_table(1), of i 510] by (simp add: demo_paging_def)

lemma demo_node: "valid p \<Longrightarrow> node demo_paging p = Some t \<Longrightarrow> p = [] \<and> t = 0xB000"
proof (induction p arbitrary: t)
  case (Cons i q)
  then have "q = []" "node demo_paging q = Some 0xB000" "i < 512" "i \<noteq> 510"
    using valid_Cons [OF Cons.prems(1)] present_huge_mono [OF Cons.prems(2)] by auto
  then show ?case using Cons.prems(2) demo_entry by (simp add: Let_def)
qed (simp add: demo_paging_def)

lemma demo_paging_ok: "tables_ok demo_paging" "ram_ok demo_paging" "frees (frames demo_paging) = {1..<11} \<union> {12..<16}"
proof -
  have f: "frames demo_paging = demo_frames" by (simp add: demo_paging_def)
  show "ram_ok demo_paging" "frees (frames demo_paging) = {1..<11} \<union> {12..<16}" using demo_frames by (simp_all add: ram_ok_def f)
  have r: "rec_slot demo_paging"
    using demo_table(1) by (simp add: rec_slot_def demo_paging_def pte_present_def pte_huge_def PTE_ADDR_def)
  show "tables_ok demo_paging"
  proof (rule tables_okI)
    show "pmm_ok (frames demo_paging)" "0 \<notin> frees (frames demo_paging)" "rec_slot demo_paging"
      using demo_frames r by (simp_all add: f)
    show "first_frame t \<notin> frees (frames demo_paging)" if "valid p" "node demo_paging p = Some t" for p t
      using demo_node [OF that] demo_table(2) demo_frames by (simp add: f)
    show "p = q" if "valid p" "valid q" "node demo_paging p = Some t" "node demo_paging q = Some t" for p q t
      using demo_node [OF that(1,3)] demo_node [OF that(2,4)] by simp
  qed
qed

lemma demo_three: "3 \<le> card (frees (frames demo_paging))"
  using card_mono [of "frees (frames demo_paging)" "{1, 2, 3}"] by (simp add: demo_paging_ok(3))

lemma demo_no_huge: "IDX_PML4 v \<noteq> 510 \<Longrightarrow> no_huge demo_paging v"
proof -
  assume v: "IDX_PML4 v \<noteq> 510"
  have "node demo_paging q = None" if "valid q" "q \<noteq> []" for q using demo_node [OF that(1)] that(2) by (cases "node demo_paging q") auto
  then have "entry demo_paging q i = 0" if "valid q" "q \<noteq> []" for q i using that by (simp add: entry_def)
  moreover have "entry demo_paging [] (IDX_PML4 v) = 0" using demo_entry [OF idx_lt(1) v] by (simp add: entry_def demo_paging_def)
  ultimately show ?thesis using walk_valid [OF v] by (simp add: no_huge_def Let_def)
qed

text \<open>
  C27. \<open>map_page\<close> of a page outside the recursive slot either fails, and then no address translates
  differently, or makes every address of the page translate into the frame, and changes the
  translation of no other address, those of the recursive slot left out. It does not fail if no huge page is in the way and three frames
  are free. The tables stay a tree of frames in use, and the processor never faults on the way.
\<close>

theorem map_page_translates:
  assumes "tables_ok s" "ram_ok s" "IDX_PML4 virt \<noteq> 510" "virt AND 0xFFF = 0" "PTE_ADDR pa = pa"
  shows "\<exists>st s'. map_page pa virt flags s = Some (st, s') \<and> tables_ok s' \<and>
    (\<forall>v. IDX_PML4 v \<noteq> 510 \<longrightarrow>
       translate s' v = (if st = 0 \<and> page_of v = page_of virt then Some (pa OR (v AND 0xFFF)) else translate s v)) \<and>
    (no_huge s virt \<and> 3 \<le> card (frees (frames s)) \<longrightarrow> st = 0)"
  by (rule map_page_is [OF assms, of flags]) blast

theorem map_page_translates_witness:
  "\<exists>s'. map_page 0x5000 0xFFFF910000000000 2 demo_paging = Some (0, s') \<and> translate s' 0xFFFF910000000123 = Some 0x5123"
proof -
  have "IDX_PML4 0xFFFF910000000000 \<noteq> 510" "(0xFFFF910000000000 :: u64) AND 0xFFF = 0" "PTE_ADDR 0x5000 = 0x5000"
    by (simp_all add: IDX_PML4_def drop_bit_eq_div PTE_ADDR_def)
  from map_page_translates [OF demo_paging_ok(1,2) this, of 2]
  obtain st s' where m: "map_page 0x5000 0xFFFF910000000000 2 demo_paging = Some (st, s')"
    "\<forall>v. IDX_PML4 v \<noteq> 510 \<longrightarrow> translate s' v = (if st = 0 \<and> page_of v = page_of 0xFFFF910000000000
       then Some (0x5000 OR (v AND 0xFFF)) else translate demo_paging v)"
    "no_huge demo_paging 0xFFFF910000000000 \<and> 3 \<le> card (frees (frames demo_paging)) \<longrightarrow> st = 0" by blast
  have h: "no_huge demo_paging 0xFFFF910000000000" by (rule demo_no_huge) (simp add: IDX_PML4_def drop_bit_eq_div)
  then have "st = 0" using m(3) demo_three by simp
  moreover have "IDX_PML4 0xFFFF910000000123 \<noteq> 510" "page_of 0xFFFF910000000123 = page_of 0xFFFF910000000000"
    by (simp_all add: page_of_def IDX_PML4_def IDX_PDPT_def IDX_PD_def IDX_PT_def drop_bit_eq_div)
  ultimately show ?thesis using m by simp
qed

text \<open>
  C28. Mapping a page and unmapping it again: in between, \<open>virt_to_phys\<close> gives the frame for every
  address of the page; at the end the page translates to nothing, and every other address outside
  the recursive slot as it did before.
\<close>

theorem map_unmap_page:
  assumes "tables_ok s" "ram_ok s" "IDX_PML4 virt \<noteq> 510" "virt AND 0xFFF = 0" "PTE_ADDR pa = pa"
    "map_page pa virt flags s = Some (0, s1)"
  shows "(\<forall>v. page_of v = page_of virt \<longrightarrow> virt_to_phys v s1 = Some (pa OR (v AND 0xFFF))) \<and>
    (\<exists>s2. unmap_page virt s1 = Some s2 \<and> tables_ok s2 \<and> frames s2 = frames s1 \<and>
      (\<forall>v. IDX_PML4 v \<noteq> 510 \<longrightarrow> translate s2 v = (if page_of v = page_of virt then None else translate s v)))"
proof -
  obtain st s' where M: "map_page pa virt flags s = Some (st, s')" "tables_ok s'"
    "\<forall>v. IDX_PML4 v \<noteq> 510 \<longrightarrow> translate s' v = (if st = 0 \<and> page_of v = page_of virt then Some (pa OR (v AND 0xFFF)) else translate s v)"
    "st = 0 \<Longrightarrow> path_open s' virt"
    by (rule map_page_is [OF assms(1-5), of flags]) blast
  have e: "st = 0" "s' = s1" using M(1) assms(6) by simp_all
  have nh: "no_huge s1 virt" using M(4) e by (simp add: path_open_def no_huge_def Let_def)
  have "virt_to_phys v s1 = Some (pa OR (v AND 0xFFF))" if v: "page_of v = page_of virt" for v
  proof -
    have i: "IDX_PML4 v = IDX_PML4 virt" "IDX_PDPT v = IDX_PDPT virt" "IDX_PD v = IDX_PD virt" using v by (simp_all add: page_of_def)
    have "huge_ok s1 v" using nh by (simp add: no_huge_def huge_ok_def Let_def i)
    then show ?thesis using virt_to_phys_is [OF M(2), of v] M(3) v i(1) assms(3) e by simp
  qed
  moreover obtain s2 where "unmap_page virt s1 = Some s2" "tables_ok s2" "frames s2 = frames s1"
    "\<forall>v. IDX_PML4 v \<noteq> 510 \<longrightarrow> translate s2 v = (if page_of v = page_of virt then None else translate s1 v)"
    by (rule unmap_page_is [OF M(2) [unfolded e] assms(3) nh]) blast
  ultimately show ?thesis using M(3) e by auto
qed

theorem map_unmap_page_witness:
  "\<exists>s1 s2. map_page 0x5000 0xFFFF910000000000 2 demo_paging = Some (0, s1) \<and> unmap_page 0xFFFF910000000000 s1 = Some s2 \<and>
     virt_to_phys 0xFFFF910000000000 s1 = Some 0x5000 \<and> translate s2 0xFFFF910000000000 = None"
proof -
  have a: "IDX_PML4 0xFFFF910000000000 \<noteq> 510" "(0xFFFF910000000000 :: u64) AND 0xFFF = 0" "PTE_ADDR 0x5000 = 0x5000"
    by (simp_all add: IDX_PML4_def drop_bit_eq_div PTE_ADDR_def)
  have "no_huge demo_paging 0xFFFF910000000000" by (rule demo_no_huge [OF a(1)])
  moreover note demo_three
  moreover obtain st s1 where m: "map_page 0x5000 0xFFFF910000000000 2 demo_paging = Some (st, s1)"
    "no_huge demo_paging 0xFFFF910000000000 \<Longrightarrow> 3 \<le> card (frees (frames demo_paging)) \<Longrightarrow> st = 0"
    by (rule map_page_is [OF demo_paging_ok(1,2) a, of 2]) blast
  ultimately have m0: "map_page 0x5000 0xFFFF910000000000 2 demo_paging = Some (0, s1)" by simp
  from map_unmap_page [OF demo_paging_ok(1,2) a m0] m0 a(1) show ?thesis by auto
qed

text \<open>
  \<open>virt_to_phys\<close> agrees with the processor: outside the recursive slot, with no page larger
  than 2 MiB and those of 2 MiB aligned, it returns what the walk from CR3 gives, and the invalid
  address where the processor would fault.
\<close>

theorem virt_to_phys_walks:
  assumes "tables_ok s" "IDX_PML4 v \<noteq> 510" "huge_ok s v"
  shows "virt_to_phys v s = Some (case translate s v of None \<Rightarrow> PHYS_ADDR_INVALID | Some pa \<Rightarrow> pa)"
  by (rule virt_to_phys_is [OF assms])

theorem virt_to_phys_walks_witness:
  "virt_to_phys 0x1234 demo_paging = Some PHYS_ADDR_INVALID \<and> translate demo_paging 0x1234 = None"
proof -
  have i: "IDX_PML4 0x1234 = 0" by (simp add: IDX_PML4_def drop_bit_eq_div)
  have "phys demo_paging (entry_at 0xB000 0) = 0" by (rule demo_entry) simp_all
  moreover have "PTE_ADDR (cr3 demo_paging) = 0xB000" by (simp add: demo_paging_def PTE_ADDR_def)
  ultimately have t: "translate demo_paging 0x1234 = None" by (simp add: translate_def i)
  have "huge_ok demo_paging 0x1234" by (rule no_huge_ok [OF demo_no_huge]) (simp add: i)
  from virt_to_phys_walks [OF demo_paging_ok(1) _ this] t i show ?thesis by simp
qed

end
