(* ===== verification/Heap.thy ===== *)
theory Heap
  imports PagingProps
begin

text \<open>
  The kernel heap, \<^verbatim>\<open>mm/heap.c\<close>: an arena of 32 MiB that \<open>sbrk\<close> commits page by page, and a list
  of blocks, each behind a header of 32 bytes, that \<open>malloc\<close> searches for the first fit. The
  headers are a store from their addresses, the bytes behind them a second one; the invariant of
  \<open>HeapSpec\<close> shows that all of them lie between \<open>heap_base\<close> and \<open>heap_break\<close> and do not overlap. Every
  operation runs under the lock of the heap. Pointers are addresses, 0 is \<^verbatim>\<open>NULL\<close>; a signed
  increment is kept in its two's complement, which adds alike. \<open>None\<close> is a fault, a panic or a
  loop that does not end.
\<close>

section \<open>State\<close>

definition BLOCK_SIZE :: u64 where [simp]: "BLOCK_SIZE = 32"
definition HEAP_VIRT_BASE :: u64 where [simp]: "HEAP_VIRT_BASE = 0xFFFF910000000000"
definition HEAP_SIZE :: u64 where [simp]: "HEAP_SIZE = 0x2000000"
definition HEAP_INITIAL_PAGES :: u64 where [simp]: "HEAP_INITIAL_PAGES = 8"
definition SBRK_FAILED :: u64 where [simp]: "SBRK_FAILED = - 1"

record block =
  blk_size :: u64
  blk_next :: u64
  blk_free :: bool

record heap =
  hp_paging :: paging
  heap_base :: u64
  heap_end :: u64
  heap_break :: u64
  head :: u64
  blocks :: "u64 \<Rightarrow> block"
  payload :: "u64 \<Rightarrow> u8"

definition ALIGN16 :: "u64 \<Rightarrow> u64" where
  "ALIGN16 x = (x + 15) AND NOT 15"

definition put_block :: "u64 \<Rightarrow> block \<Rightarrow> heap \<Rightarrow> heap" where
  "put_block a b h = h\<lparr> blocks := (blocks h)(a := b) \<rparr>"

section \<open>Growing the arena\<close>

partial_function (option) commit_loop :: "u64 \<Rightarrow> u64 \<Rightarrow> heap \<Rightarrow> (int \<times> heap) option" where
  "commit_loop target_end page h =
     (if page < target_end then
        case pmm_alloc_frame (frames (hp_paging h)) of
          (frame, p) \<Rightarrow>
            let s1 = (hp_paging h)\<lparr> frames := p \<rparr>
            in if frame = 0 then Some (- 1, h\<lparr> hp_paging := s1 \<rparr>)
               else Option.bind (map_page frame page (PAGE_WRITABLE OR PAGE_NX) s1) (\<lambda>(st, s2).
                 if st \<noteq> 0
                 then Some (- 1, h\<lparr> hp_paging := s2\<lparr> frames := pmm_free_frame frame (frames s2) \<rparr> \<rparr>)
                 else commit_loop target_end (page + PAGE_SIZE)
                        (h\<lparr> hp_paging := s2, heap_end := page + PAGE_SIZE \<rparr>))
      else Some (0, h))"

definition heap_commit_to :: "u64 \<Rightarrow> heap \<Rightarrow> (int \<times> heap) option" where
  "heap_commit_to target_end h = commit_loop target_end (heap_end h) h"

definition heap_init :: "heap \<Rightarrow> (int \<times> heap) option" where
  "heap_init h =
     (let h1 = h\<lparr> heap_base := HEAP_VIRT_BASE, heap_end := HEAP_VIRT_BASE, heap_break := HEAP_VIRT_BASE \<rparr>
      in Option.bind (heap_commit_to (heap_base h1 + HEAP_INITIAL_PAGES * PAGE_SIZE) h1) (\<lambda>(ok, h2).
           if ok \<noteq> 0 then None else Some (0, h2)))"

definition sbrk_locked :: "u64 \<Rightarrow> heap \<Rightarrow> (u64 \<times> heap) option" where
  "sbrk_locked increment h =
     (let prev_break = heap_break h;
          new_break = heap_break h + increment
      in if increment = 0 then Some (prev_break, h)
         else if new_break < heap_base h then Some (SBRK_FAILED, h)
         else if new_break > heap_base h + HEAP_SIZE then Some (SBRK_FAILED, h)
         else if new_break > heap_end h then
           Option.bind (heap_commit_to ((new_break + PAGE_SIZE - 1) AND NOT (PAGE_SIZE - 1)) h) (\<lambda>(st, h1).
             if st \<noteq> 0 then Some (SBRK_FAILED, h1)
             else Some (prev_break, h1\<lparr> heap_break := new_break \<rparr>))
         else Some (prev_break, h\<lparr> heap_break := new_break \<rparr>))"

definition sbrk :: "u64 \<Rightarrow> heap \<Rightarrow> (u64 \<times> heap) option" where
  "sbrk increment h = sbrk_locked increment h"

section \<open>Allocation\<close>

text \<open>
  The search along the list: \<open>Inr\<close> is the first free block that is large enough, \<open>Inl\<close> the last
  block of the list if there is none.
\<close>

partial_function (option) first_fit :: "u64 \<Rightarrow> heap \<Rightarrow> u64 \<Rightarrow> (u64 + u64) option" where
  "first_fit need h current =
     (let b = blocks h current
      in if blk_free b \<and> blk_size b \<ge> need then Some (Inr current)
         else if blk_next b = 0 then Some (Inl current)
         else first_fit need h (blk_next b))"

definition place :: "u64 \<Rightarrow> u64 \<Rightarrow> heap \<Rightarrow> heap" where
  "place need current h =
     (let b = blocks h current;
          leftover = blk_size b - need
      in if leftover > BLOCK_SIZE + 8 then
           let new_block = current + BLOCK_SIZE + need
           in put_block current (b\<lparr> blk_size := need, blk_free := False, blk_next := new_block \<rparr>)
                (put_block new_block \<lparr> blk_size = leftover - BLOCK_SIZE, blk_next = blk_next b, blk_free = True \<rparr> h)
         else put_block current (b\<lparr> blk_free := False \<rparr>) h)"

definition malloc :: "u64 \<Rightarrow> heap \<Rightarrow> (u64 \<times> heap) option" where
  "malloc size0 h =
     (if size0 = 0 then Some (0, h)
      else
        let sz = ALIGN16 size0
        in if head h = 0 then
             Option.bind (sbrk_locked (BLOCK_SIZE + sz) h) (\<lambda>(allocated, h1).
               if allocated = SBRK_FAILED then Some (0, h1)
               else Some (heap_base h1 + BLOCK_SIZE,
                      put_block (heap_base h1) \<lparr> blk_size = sz, blk_next = 0, blk_free = False \<rparr>
                        (h1\<lparr> head := heap_base h1 \<rparr>)))
           else Option.bind (first_fit sz h (head h)) (\<lambda>r. case r of
             Inr current \<Rightarrow> Some (current + BLOCK_SIZE, place sz current h)
           | Inl current \<Rightarrow>
               let next_addr = current + BLOCK_SIZE + blk_size (blocks h current)
               in Option.bind (sbrk_locked (BLOCK_SIZE + sz) h) (\<lambda>(alloc, h1).
                    if alloc = SBRK_FAILED \<or> alloc \<noteq> next_addr then Some (0, h1)
                    else Some (next_addr + BLOCK_SIZE,
                      put_block current ((blocks h1 current)\<lparr> blk_next := next_addr \<rparr>)
                        (put_block next_addr \<lparr> blk_size = sz, blk_next = 0, blk_free = False \<rparr> h1)))))"

section \<open>Release\<close>

text \<open>The block whose \<open>next\<close> is \<open>block\<close>, 0 if there is none.\<close>

partial_function (option) find_prev :: "u64 \<Rightarrow> heap \<Rightarrow> u64 \<Rightarrow> u64 option" where
  "find_prev block h prev =
     (if prev \<noteq> 0 \<and> blk_next (blocks h prev) \<noteq> block then find_prev block h (blk_next (blocks h prev))
      else Some prev)"

definition absorb_next :: "u64 \<Rightarrow> heap \<Rightarrow> heap" where
  "absorb_next a h =
     (let b = blocks h a; nb = blocks h (blk_next b)
      in put_block a (b\<lparr> blk_size := blk_size b + (BLOCK_SIZE + blk_size nb), blk_next := blk_next nb \<rparr>) h)"

definition join_next :: "u64 \<Rightarrow> heap \<Rightarrow> heap" where
  "join_next a h =
     (let next = blk_next (blocks h a)
      in if next \<noteq> 0 \<and> blk_free (blocks h next) then absorb_next a h else h)"

definition join_prev :: "u64 \<Rightarrow> u64 \<Rightarrow> heap \<Rightarrow> heap" where
  "join_prev block prev h =
     (if prev \<noteq> 0 \<and> blk_free (blocks h prev)
      then let pb = blocks h prev; b = blocks h block
           in put_block prev (pb\<lparr> blk_size := blk_size pb + (BLOCK_SIZE + blk_size b), blk_next := blk_next b \<rparr>) h
      else h)"

definition hfree :: "u64 \<Rightarrow> heap \<Rightarrow> heap option" where
  "hfree ptr h =
     (if ptr = 0 then Some h
      else if ptr AND 0xF \<noteq> 0 then Some h
      else
        let block = ptr - BLOCK_SIZE
        in if block < heap_base h \<or> block \<ge> heap_end h then Some h
           else if blk_free (blocks h block) then Some h
           else
             let h1 = put_block block ((blocks h block)\<lparr> blk_free := True \<rparr>) h;
                 h2 = join_next block h1
             in map_option (\<lambda>prev. join_prev block prev h2) (find_prev block h2 (head h2)))"

section \<open>Derived allocators\<close>

definition memset :: "u64 \<Rightarrow> u8 \<Rightarrow> u64 \<Rightarrow> heap \<Rightarrow> heap" where
  "memset ptr c n h = h\<lparr> payload := (\<lambda>a. if a - ptr < n then c else payload h a) \<rparr>"

definition memcpy :: "u64 \<Rightarrow> u64 \<Rightarrow> u64 \<Rightarrow> heap \<Rightarrow> heap" where
  "memcpy dst src n h = h\<lparr> payload := (\<lambda>a. if a - dst < n then payload h (src + (a - dst)) else payload h a) \<rparr>"

definition calloc :: "u64 \<Rightarrow> u64 \<Rightarrow> heap \<Rightarrow> (u64 \<times> heap) option" where
  "calloc num each h =
     (if num = 0 \<or> each = 0 then Some (0, h)
      else if (- 1) div num < each then Some (0, h)
      else
        let total = num * each
        in map_option (\<lambda>(ptr, h1). (ptr, if ptr \<noteq> 0 then memset ptr 0 total h1 else h1)) (malloc total h))"

definition shrink :: "u64 \<Rightarrow> u64 \<Rightarrow> heap \<Rightarrow> heap" where
  "shrink new_size block h =
     (let b = blocks h block;
          leftover = blk_size b - new_size
      in if leftover > BLOCK_SIZE + 16 then
           let new_block = block + BLOCK_SIZE + new_size
           in join_next new_block
                (put_block block (b\<lparr> blk_size := new_size, blk_next := new_block \<rparr>)
                   (put_block new_block \<lparr> blk_size = leftover - BLOCK_SIZE, blk_next = blk_next b, blk_free = True \<rparr> h))
         else h)"

definition realloc :: "u64 \<Rightarrow> u64 \<Rightarrow> heap \<Rightarrow> (u64 \<times> heap) option" where
  "realloc ptr size0 h =
     (if ptr = 0 then malloc size0 h
      else if size0 = 0 then map_option (Pair 0) (hfree ptr h)
      else
        let new_size = ALIGN16 size0;
            block = ptr - BLOCK_SIZE
        in if block < heap_base h \<or> block \<ge> heap_end h then Some (0, h)
           else
             let b = blocks h block; nb = blocks h (blk_next b);
                 combined = blk_size b + BLOCK_SIZE + blk_size nb
             in if blk_size b \<ge> new_size then Some (ptr, shrink new_size block h)
                else if blk_next b \<noteq> 0 \<and> blk_free nb \<and> combined \<ge> new_size
                then Some (ptr, put_block block (b\<lparr> blk_size := combined, blk_next := blk_next nb \<rparr>) h)
                else Option.bind (malloc new_size h) (\<lambda>(new_ptr, h1).
                  if new_ptr = 0 then Some (0, h1)
                  else map_option (Pair new_ptr) (hfree ptr (memcpy new_ptr ptr (blk_size b) h1))))"

end
