(* ===== verification/Arena.thy ===== *)
theory Arena
  imports PagingProps
begin

text \<open>
  Regions of at most 32 MiB at the start of a top-level slot, as the mapping window and the kernel
  heap are: which entries their pages have, and when two addresses lie in the same page.
\<close>

definition arena_at :: "nat \<Rightarrow> u64 \<Rightarrow> nat \<Rightarrow> bool" where
  "arena_at i4 v k \<longleftrightarrow> i4 < 512 \<and> k < 2 ^ 25 \<and> unat v = vaddr 65535 i4 0 0 0 0 + k"

lemma arena_idx:
  assumes "arena_at i4 v k"
  shows "IDX_PML4 v = i4" "IDX_PDPT v = 0" "IDX_PD v = k div 4096 div 512" "IDX_PT v = k div 4096 mod 512"
    "unat (v AND 0xFFF) = k mod 4096"
proof -
  have k: "k < 2 ^ 25" "i4 < 512" using assms by (simp_all add: arena_at_def)
  have "k div 4096 < 8192" using k(1) by simp
  then have b: "k div 4096 div 512 < 512" by simp
  have split: "vaddr 65535 i4 0 0 0 0 + ((a * 512 + c) * 4096 + d) = vaddr 65535 i4 0 a c d" for a c d by (simp add: vaddr_def)
  have "k = (k div 4096 div 512 * 512 + k div 4096 mod 512) * 4096 + k mod 4096" by simp
  then have u: "unat v = vaddr 65535 i4 0 (k div 4096 div 512) (k div 4096 mod 512) (k mod 4096)"
    using assms split [of "k div 4096 div 512" "k div 4096 mod 512" "k mod 4096"] unfolding arena_at_def by simp
  note X = idx_vaddr [OF u k(2) _ b]
  show "IDX_PML4 v = i4" "IDX_PDPT v = 0" "IDX_PD v = k div 4096 div 512" "IDX_PT v = k div 4096 mod 512"
    "unat (v AND 0xFFF) = k mod 4096" by (rule X; simp)+
qed

lemma arena_page:
  assumes "arena_at i4 v k" "arena_at i4 w l"
  shows "page_of v = page_of w \<longleftrightarrow> k div 4096 = l div 4096"
proof -
  have "k div 4096 = l div 4096" if "k div 4096 div 512 = l div 4096 div 512" "k div 4096 mod 512 = l div 4096 mod 512"
    using that by (metis div_mult_mod_eq)
  then show ?thesis using arena_idx [OF assms(1)] arena_idx [OF assms(2)] by (auto simp: page_of_def)
qed

text \<open>Page \<open>j\<close> of the region that starts at \<open>base\<close>.\<close>

definition arena_page_va :: "u64 \<Rightarrow> nat \<Rightarrow> u64" where
  "arena_page_va base j = base + of_nat j * PAGE_SIZE"

lemma arena_offset:
  assumes "arena_at i4 base 0" "k < 2 ^ 25"
  shows "arena_at i4 (base + of_nat k) k"
proof -
  have b: "unat base = vaddr 65535 i4 0 0 0 0" "i4 < 512" using assms(1) by (simp_all add: arena_at_def)
  have k: "unat (of_nat k :: u64) = k" by (rule unat_of_nat_small) (use assms(2) in simp)
  have "unat base + k < 2 ^ 64" using b assms(2) by (simp add: vaddr_def)
  then have "unat (base + of_nat k) = unat base + k" using k by (simp add: unat_add_small)
  then show ?thesis using b assms(2) by (simp add: arena_at_def)
qed

lemma arena_page_at:
  assumes "arena_at i4 base 0" "j < 8192"
  shows "arena_at i4 (arena_page_va base j) (4096 * j)" "arena_page_va base j AND 0xFFF = 0"
proof -
  have "arena_page_va base j = base + of_nat (4096 * j)" by (simp add: arena_page_va_def)
  then show a: "arena_at i4 (arena_page_va base j) (4096 * j)" using arena_offset [OF assms(1), of "4096 * j"] assms(2) by simp
  show "arena_page_va base j AND 0xFFF = 0" using arena_idx(5) [OF a] by (simp add: word_unat_eq_iff)
qed

lemma arena_page_unat:
  assumes "arena_at i4 base 0" "j \<le> 8192"
  shows "unat (arena_page_va base j) = unat base + 4096 * j"
proof -
  have b: "unat base = vaddr 65535 i4 0 0 0 0" "i4 < 512" using assms(1) by (simp_all add: arena_at_def)
  have e: "arena_page_va base j = base + of_nat (4096 * j)" by (simp add: arena_page_va_def)
  have k: "unat (of_nat (4096 * j) :: u64) = 4096 * j" by (rule unat_of_nat_small) (use assms(2) in simp)
  have "unat base + 4096 * j < 2 ^ 64" using b assms(2) by (simp add: vaddr_def)
  then show ?thesis unfolding e using k by (simp add: unat_add_small)
qed

lemma arena_pages_eq:
  assumes "arena_at i4 base 0" "i < 8192" "j < 8192"
  shows "page_of (arena_page_va base i) = page_of (arena_page_va base j) \<longleftrightarrow> i = j"
  using arena_page [OF arena_page_at(1) [OF assms(1,2)] arena_page_at(1) [OF assms(1,3)]] by simp

end
