(* ===== verification/HeapCommit.thy ===== *)
theory HeapCommit
  imports Heap Arena
begin

text \<open>
  What backs the arena of the heap: every committed page translates to a frame of its own that is
  in use and holds no table, and no operation on the arena changes a translation outside of it.
\<close>

abbreviation heap_page :: "nat \<Rightarrow> u64" where
  "heap_page \<equiv> arena_page_va HEAP_VIRT_BASE"

lemma heap_arena: "arena_at 290 HEAP_VIRT_BASE 0"
  by (simp add: arena_at_def vaddr_def)

definition backed :: "paging \<Rightarrow> nat \<Rightarrow> (nat \<Rightarrow> nat) \<Rightarrow> bool" where
  "backed s n fr \<longleftrightarrow> tables_ok s \<and> ram_ok s \<and> inj_on fr {..<n} \<and> (\<forall>j < n. translate s (heap_page j) = Some (frame_addr (fr j)) \<and>
     fr j < nframes (frames s) \<and> fr j \<notin> frees (frames s) \<and> (\<forall>q u. valid q \<and> node s q = Some u \<longrightarrow> first_frame u \<noteq> fr j))"

lemma backedD:
  assumes "backed s n fr"
  shows "tables_ok s" "ram_ok s" "inj_on fr {..<n}" "j < n \<Longrightarrow> translate s (heap_page j) = Some (frame_addr (fr j))"
    "j < n \<Longrightarrow> fr j < nframes (frames s)" "j < n \<Longrightarrow> fr j \<notin> frees (frames s)"
    "j < n \<Longrightarrow> valid q \<Longrightarrow> node s q = Some u \<Longrightarrow> first_frame u \<noteq> fr j"
  using assms unfolding backed_def by blast+

lemma backedI:
  assumes "tables_ok s" "ram_ok s" "inj_on fr {..<n}" "\<And>j. j < n \<Longrightarrow> translate s (heap_page j) = Some (frame_addr (fr j))"
    "\<And>j. j < n \<Longrightarrow> fr j < nframes (frames s)" "\<And>j. j < n \<Longrightarrow> fr j \<notin> frees (frames s)"
    "\<And>j q u. j < n \<Longrightarrow> valid q \<Longrightarrow> node s q = Some u \<Longrightarrow> first_frame u \<noteq> fr j"
  shows "backed s n fr"
  using assms unfolding backed_def by blast

text \<open>Outside the arena nothing is translated differently.\<close>

definition same_outside :: "paging \<Rightarrow> paging \<Rightarrow> bool" where
  "same_outside s s' \<longleftrightarrow> (\<forall>v. IDX_PML4 v \<noteq> 510 \<and> IDX_PML4 v \<noteq> 290 \<longrightarrow> translate s' v = translate s v)"

lemma same_outside_refl: "same_outside s s"
  by (simp add: same_outside_def)

lemma same_outside_trans: "same_outside s s1 \<Longrightarrow> same_outside s1 s2 \<Longrightarrow> same_outside s s2"
  by (simp add: same_outside_def)

text \<open>A frame changes hands between the allocator and the kernel.\<close>

lemma tables_ok_frames:
  assumes "tables_ok s" "frames_now (frames s) A p" "0 \<notin> A" "\<forall>q u. valid q \<and> node s q = Some u \<longrightarrow> first_frame u \<notin> A"
  shows "tables_ok (s\<lparr> frames := p \<rparr>)"
proof (rule tables_okI)
  note N = frames_nowD [OF assms(2)] and D = tables_okD [OF assms(1)]
  show "pmm_ok (frames (s\<lparr> frames := p \<rparr>))" "0 \<notin> frees (frames (s\<lparr> frames := p \<rparr>))" "rec_slot (s\<lparr> frames := p \<rparr>)"
    using N D(3) assms(3) by (simp_all add: rec_slot_def)
  show "first_frame t \<notin> frees (frames (s\<lparr> frames := p \<rparr>))" if "valid q" "node (s\<lparr> frames := p \<rparr>) q = Some t" for q t
    using assms(4) that N(2) by (simp del: node.simps)
  show "p' = q" if "valid p'" "valid q" "node (s\<lparr> frames := p \<rparr>) p' = Some t" "node (s\<lparr> frames := p \<rparr>) q = Some t" for p' q t
    using D(5) [of p' q t] that by (simp del: node.simps)
qed

lemma entry_frames [simp]: "entry (s\<lparr> frames := p \<rparr>) q i = entry s q i" "no_huge (s\<lparr> frames := p \<rparr>) v = no_huge s v"
proof -
  show e: "entry (s\<lparr> frames := p \<rparr>) q i = entry s q i" for q i by (simp add: entry_def split: option.split)
  show "no_huge (s\<lparr> frames := p \<rparr>) v = no_huge s v" by (simp add: no_huge_def e)
qed

lemma commit_page:
  assumes b: "backed s n fr" and n: "n < 8192" and a: "pmm_alloc_frame (frames s) = (F, p)" and F: "F \<noteq> 0"
  obtains st s2 where "map_page F (heap_page n) flags (s\<lparr> frames := p \<rparr>) = Some (st, s2)" "same_outside s s2"
    "st = 0 \<Longrightarrow> \<exists>fr'. backed s2 (Suc n) fr' \<and> (\<forall>j < n. fr' j = fr j)"
    "st \<noteq> 0 \<Longrightarrow> backed (s2\<lparr> frames := pmm_free_frame F (frames s2) \<rparr>) n fr"
    "no_huge s (heap_page n) \<Longrightarrow> 4 \<le> card (frees (frames s)) \<Longrightarrow> st = 0"
    "card (frees (frames s)) \<le> card (frees (frames s2)) + 4" "\<forall>v. IDX_PML4 v \<noteq> 510 \<and> no_huge s v \<longrightarrow> no_huge s2 v"
proof -
  note B = backedD [OF b] and D = tables_okD [OF B(1)]
  have "frees (frames s) \<noteq> {}" using alloc_frame_is(1) [OF D(1)] a F by auto
  then obtain f where f: "F = frame_addr f" "f \<in> frees (frames s)" "frames_now (frames s) (frees (frames s) - {f}) p"
    using alloc_frame_is(2) [OF D(1)] a by auto
  note N = frames_nowD [OF f(3)] and FT = frame_table [OF B(1,2) f(2), folded f(1)]
  let ?s = "s\<lparr> frames := p \<rparr>"
  have ok: "tables_ok ?s" by (rule tables_ok_frames [OF B(1) f(3)]) (use D(2,4) in auto)
  have ram: "ram_ok ?s" using B(2) N(3) by (simp add: ram_ok_def)
  have pa: "PTE_ADDR F = F" using FT(1) by (simp add: table_addr_def)
  note P = arena_page_at [OF heap_arena n]
  have i4: "IDX_PML4 (heap_page n) \<noteq> 510" using arena_idx(1) [OF P(1)] by simp
  obtain st s2 where M: "map_page F (heap_page n) flags ?s = Some (st, s2)" "tables_ok s2" "ram_ok s2" "grown ?s s2"
    "\<forall>v. IDX_PML4 v \<noteq> 510 \<longrightarrow> translate s2 v = (if st = 0 \<and> page_of v = page_of (heap_page n) then Some (F OR (v AND 0xFFF)) else translate ?s v)"
    "no_huge ?s (heap_page n) \<Longrightarrow> 3 \<le> card (frees (frames ?s)) \<Longrightarrow> st = 0"
    "card (frees (frames ?s)) \<le> card (frees (frames s2)) + 3"
    by (rule map_page_is [OF ok ram i4 P(2) pa, of flags]) blast
  have live: "no_huge s (heap_page n) \<Longrightarrow> 4 \<le> card (frees (frames s)) \<Longrightarrow> st = 0"
    using M(6) N(2) f(2) by (simp add: card_Diff_singleton)
  have cd: "card (frees (frames s)) \<le> card (frees (frames s2)) + 4"
    using M(7) N(2) f(2) by (simp add: card_Diff_singleton)
  have nh: "\<forall>v. IDX_PML4 v \<noteq> 510 \<and> no_huge s v \<longrightarrow> no_huge s2 v" using no_huge_grown [OF M(4)] by simp
  have so: "same_outside s s2"
    using M(5) arena_idx(1) [OF P(1)] by (auto simp: same_outside_def page_of_def)
  have G: "frees (frames s2) \<subseteq> frees (frames s) - {f}" "nframes (frames s2) = nframes (frames s)"
    "\<forall>q u. valid q \<and> node s2 q = Some u \<longrightarrow> node s q = Some u \<or> first_frame u \<in> frees (frames s) - {f}"
    using grownD(1-3) [OF M(4)] N(2,3) by (simp_all del: node.simps)
  have fn: "f < nframes (frames s)" "f \<noteq> 0" using f(2) D(2) by (auto simp: frees_def intro: gr0I)
  have nf: "first_frame u \<noteq> f" if "valid q" "node s2 q = Some u" for q u
    using spec [OF spec [OF G(3), of q], of u] D(4) [OF that(1), of u] f(2) that by (auto simp del: node.simps)
  have tr: "translate s2 (heap_page j) = (if st = 0 \<and> j = n then Some F else translate s (heap_page j))" if "j \<le> n" for j
  proof -
    have j: "j < 8192" using that n by simp
    note Q = arena_page_at [OF heap_arena j]
    show ?thesis using M(5) arena_idx(1) [OF Q(1)] arena_pages_eq [OF heap_arena j n] Q(2) by (cases "j = n") simp_all
  qed
  have old: "first_frame u \<noteq> fr j" if that: "j < n" "valid q" "node s2 q = Some u" for j q u
  proof -
    have "node s q = Some u \<or> first_frame u \<in> frees (frames s) - {f}" using G(3) that(2,3) by (simp del: node.simps)
    then show ?thesis
    proof
      assume "node s q = Some u"
      then show ?thesis by (rule B(7) [OF that(1,2)])
    next
      assume "first_frame u \<in> frees (frames s) - {f}"
      then show ?thesis using B(6) [OF that(1)] by auto
    qed
  qed
  have fj: "fr j \<noteq> f" "fr j \<notin> frees (frames s2)" if "j < n" for j using B(6) [OF that] f(2) G(1) by auto
  show thesis
  proof (rule that [OF M(1) so])
    assume st: "st = 0"
    let ?fr = "fr(n := f)"
    have "backed s2 (Suc n) ?fr"
    proof (rule backedI)
      have "inj_on ?fr (insert n {..<n})" using B(3) fj(1) by (auto simp: inj_on_def)
      then show "inj_on ?fr {..<Suc n}" by (simp add: lessThan_Suc)
      show "translate s2 (heap_page j) = Some (frame_addr (?fr j))" if "j < Suc n" for j
        using tr [of j] that st f(1) B(4) by (cases "j = n") auto
      show "?fr j < nframes (frames s2)" if "j < Suc n" for j using that fn(1) B(5) [of j] G(2) by (cases "j = n") auto
      show "?fr j \<notin> frees (frames s2)" if "j < Suc n" for j using that fj(2) [of j] G(1) by (cases "j = n") auto
      show "first_frame u \<noteq> ?fr j" if "j < Suc n" "valid q" "node s2 q = Some u" for j q u
        using old [of j q u] nf that by (cases "j = n") auto
    qed (use M in simp_all)
    then show "\<exists>fr'. backed s2 (Suc n) fr' \<and> (\<forall>j < n. fr' j = fr j)" by (intro exI [of _ ?fr]) simp
  next
    assume st: "st \<noteq> 0"
    have fnow: "frames_now (frames s2) (insert f (frees (frames s2))) (pmm_free_frame F (frames s2))"
      unfolding f(1) using free_frame_is [OF tables_okD(1) [OF M(2)]] fn G(2) by simp
    note N2 = frames_nowD [OF fnow]
    let ?s2 = "s2\<lparr> frames := pmm_free_frame F (frames s2) \<rparr>"
    show "backed ?s2 n fr"
    proof (rule backedI)
      show "tables_ok ?s2"
        by (rule tables_ok_frames [OF M(2) fnow]) (use tables_okD(2,4) [OF M(2)] fn(2) nf in auto)
      show "ram_ok ?s2" using M(3) N2(3) by (simp add: ram_ok_def)
      show "translate ?s2 (heap_page j) = Some (frame_addr (fr j))" if "j < n" for j using tr [of j] that st B(4) by simp
      show "fr j < nframes (frames ?s2)" if "j < n" for j using B(5) [OF that] G(2) N2(3) by simp
      show "fr j \<notin> frees (frames ?s2)" if "j < n" for j using fj [OF that] N2(2) by simp
      show "first_frame u \<noteq> fr j" if "j < n" "valid q" "node ?s2 q = Some u" for j q u
        using old [of j q u] that by (simp del: node.simps)
    qed (use B(3) in simp)
  qed (fact live cd nh)+
qed

text \<open>A run of the loop, whether or not it gets where it wants to.\<close>

lemma commit_loop_is:
  assumes "backed (hp_paging h) n fr" "n \<le> m" "m \<le> 8192" "heap_end h = heap_page n"
  obtains st s n' fr' where
    "commit_loop (heap_page m) (heap_page n) h = Some (st, h\<lparr> hp_paging := s, heap_end := heap_page n' \<rparr>)"
    "backed s n' fr'" "n \<le> n'" "n' \<le> m" "st = 0 \<longleftrightarrow> n' = m" "\<forall>j < n. fr' j = fr j" "same_outside (hp_paging h) s"
    "\<forall>j < 8192. no_huge (hp_paging h) (heap_page j) \<Longrightarrow> 4 * (m - n) \<le> card (frees (frames (hp_paging h))) \<Longrightarrow> n' = m"
proof -
  have "\<exists>st s n' fr'. commit_loop (heap_page m) (heap_page n) h = Some (st, h\<lparr> hp_paging := s, heap_end := heap_page n' \<rparr>) \<and>
    backed s n' fr' \<and> n \<le> n' \<and> n' \<le> m \<and> (st = 0 \<longleftrightarrow> n' = m) \<and> (\<forall>j < n. fr' j = fr j) \<and> same_outside (hp_paging h) s \<and>
    ((\<forall>j < 8192. no_huge (hp_paging h) (heap_page j)) \<and> 4 * (m - n) \<le> card (frees (frames (hp_paging h))) \<longrightarrow> n' = m)"
    using assms
  proof (induction "m - n" arbitrary: n h fr)
    case 0
    then have nm: "n = m" by simp
    have "commit_loop (heap_page m) (heap_page n) h = Some (0, h)" unfolding nm by (subst commit_loop.simps) simp
    moreover have "h = h\<lparr> hp_paging := hp_paging h, heap_end := heap_page m \<rparr>" using 0 nm by simp
    ultimately show ?case using 0 nm same_outside_refl by (metis le_refl)
  next
    case (Suc k)
    have n: "n < m" "n < 8192" using Suc.hyps(2) Suc.prems(3) by simp_all
    have lt: "heap_page n < heap_page m"
      using arena_page_unat [OF heap_arena] n Suc.prems(3) by (simp add: word_less_nat_alt)
    have nx: "heap_page n + PAGE_SIZE = heap_page (Suc n)" by (simp add: arena_page_va_def algebra_simps)
    obtain F p where a: "pmm_alloc_frame (frames (hp_paging h)) = (F, p)" by fastforce
    note B = backedD [OF Suc.prems(1)] and D = tables_okD [OF backedD(1) [OF Suc.prems(1)]]
    show ?case
    proof (cases "F = 0")
      case True
      have "frees (frames (hp_paging h)) = {}"
      proof (rule ccontr)
        assume ne: "frees (frames (hp_paging h)) \<noteq> {}"
        then obtain f where "F = frame_addr f" "f \<in> frees (frames (hp_paging h))" using alloc_frame_is(2) [OF D(1)] a by auto
        then show False using frame_table(3) [OF B(1,2)] True by simp
      qed
      note none = this
      then have "p = frames (hp_paging h)" using alloc_frame_is(1) [OF D(1)] a by simp
      then have "commit_loop (heap_page m) (heap_page n) h = Some (- 1, h\<lparr> hp_paging := hp_paging h, heap_end := heap_page n \<rparr>)"
        using lt a True Suc.prems(4) by (subst commit_loop.simps) simp
      then show ?thesis using n Suc.prems same_outside_refl none
        by (intro exI [of _ "- 1"] exI [of _ "hp_paging h"] exI [of _ n] exI [of _ fr]) auto
    next
      case False
      obtain st s2 where M: "map_page F (heap_page n) (PAGE_WRITABLE OR PAGE_NX) ((hp_paging h)\<lparr> frames := p \<rparr>) = Some (st, s2)"
        "same_outside (hp_paging h) s2" "st = 0 \<Longrightarrow> \<exists>fr'. backed s2 (Suc n) fr' \<and> (\<forall>j < n. fr' j = fr j)"
        "st \<noteq> 0 \<Longrightarrow> backed (s2\<lparr> frames := pmm_free_frame F (frames s2) \<rparr>) n fr"
        "no_huge (hp_paging h) (heap_page n) \<Longrightarrow> 4 \<le> card (frees (frames (hp_paging h))) \<Longrightarrow> st = 0"
        "card (frees (frames (hp_paging h))) \<le> card (frees (frames s2)) + 4" "\<forall>v. IDX_PML4 v \<noteq> 510 \<and> no_huge (hp_paging h) v \<longrightarrow> no_huge s2 v"
        by (rule commit_page [OF Suc.prems(1) n(2) a False]) blast
      show ?thesis
      proof (cases "st = 0")
        case False
        let ?s = "s2\<lparr> frames := pmm_free_frame F (frames s2) \<rparr>"
        have "commit_loop (heap_page m) (heap_page n) h = Some (- 1, h\<lparr> hp_paging := ?s, heap_end := heap_page n \<rparr>)"
          using lt a \<open>F \<noteq> 0\<close> M(1) False Suc.prems(4) by (subst commit_loop.simps) (simp del: PAGE_WRITABLE_def PAGE_NX_def)
        moreover have "same_outside (hp_paging h) ?s" using M(2) by (simp add: same_outside_def)
        moreover have "\<not> ((\<forall>j < 8192. no_huge (hp_paging h) (heap_page j)) \<and> 4 * (m - n) \<le> card (frees (frames (hp_paging h))))"
        proof
          assume R: "(\<forall>j < 8192. no_huge (hp_paging h) (heap_page j)) \<and> 4 * (m - n) \<le> card (frees (frames (hp_paging h)))"
          have "1 \<le> m - n" using n(1) by simp
          then have "4 \<le> card (frees (frames (hp_paging h)))" using R by linarith
          then show False using M(5) R n(2) False by blast
        qed
        ultimately show ?thesis using n M(4) [OF False]
          by (intro exI [of _ "- 1"] exI [of _ ?s] exI [of _ n] exI [of _ fr]) auto
      next
        case True
        let ?h = "h\<lparr> hp_paging := s2, heap_end := heap_page (Suc n) \<rparr>"
        obtain fr' where fr': "backed s2 (Suc n) fr'" "\<forall>j < n. fr' j = fr j" using M(3) [OF True] by blast
        have "\<exists>st s n' fr''. commit_loop (heap_page m) (heap_page (Suc n)) ?h = Some (st, ?h\<lparr> hp_paging := s, heap_end := heap_page n' \<rparr>) \<and>
          backed s n' fr'' \<and> Suc n \<le> n' \<and> n' \<le> m \<and> (st = 0 \<longleftrightarrow> n' = m) \<and> (\<forall>j < Suc n. fr'' j = fr' j) \<and> same_outside (hp_paging ?h) s \<and>
          ((\<forall>j < 8192. no_huge (hp_paging ?h) (heap_page j)) \<and> 4 * (m - Suc n) \<le> card (frees (frames (hp_paging ?h))) \<longrightarrow> n' = m)"
          by (rule Suc.hyps(1)) (use Suc.hyps(2) Suc.prems(3) n fr'(1) in simp_all)
        then obtain st1 s n' fr'' where R: "commit_loop (heap_page m) (heap_page (Suc n)) ?h = Some (st1, ?h\<lparr> hp_paging := s, heap_end := heap_page n' \<rparr>)"
          "backed s n' fr''" "Suc n \<le> n'" "n' \<le> m" "st1 = 0 \<longleftrightarrow> n' = m" "\<forall>j < Suc n. fr'' j = fr' j" "same_outside (hp_paging ?h) s"
          "(\<forall>j < 8192. no_huge (hp_paging ?h) (heap_page j)) \<and> 4 * (m - Suc n) \<le> card (frees (frames (hp_paging ?h))) \<longrightarrow> n' = m" by blast
        have so2: "same_outside s2 s" and R8: "(\<forall>j < 8192. no_huge s2 (heap_page j)) \<and> 4 * (m - Suc n) \<le> card (frees (frames s2)) \<longrightarrow> n' = m"
          using R(7,8) by simp_all
        have lv: "n' = m" if "\<forall>j < 8192. no_huge (hp_paging h) (heap_page j)" "4 * (m - n) \<le> card (frees (frames (hp_paging h)))"
        proof -
          have "IDX_PML4 (heap_page j) \<noteq> 510" if "j < 8192" for j using arena_idx(1) [OF arena_page_at(1) [OF heap_arena that]] by simp
          then have "\<forall>j < 8192. no_huge s2 (heap_page j)" using M(7) that(1) by blast
          moreover have "4 * (m - Suc n) \<le> card (frees (frames s2))" using M(6) that(2) n(1) by linarith
          ultimately show ?thesis using R8 by blast
        qed
        have "commit_loop (heap_page m) (heap_page n) h = commit_loop (heap_page m) (heap_page (Suc n)) ?h"
          using lt a \<open>F \<noteq> 0\<close> M(1) True nx by (subst commit_loop.simps) (simp del: PAGE_WRITABLE_def PAGE_NX_def PAGE_SIZE_def)
        then show ?thesis using R(1-6) fr'(2) same_outside_trans [OF M(2) so2] lv
          by (intro exI [of _ st1] exI [of _ s] exI [of _ n'] exI [of _ fr'']) auto
      qed
    qed
  qed
  then show thesis using that by blast
qed

end
