(* ===== verification/HeapSpec.thy ===== *)
theory HeapSpec
  imports HeapCommit
begin

text \<open>
  The heap against the list of its blocks, \<open>(size, free)\<close> in the order of their addresses: they
  tile the arena up to \<open>heap_break\<close>, and no two neighbours are free.
\<close>

section \<open>Addresses in the arena\<close>

definition adr :: "nat \<Rightarrow> u64" where
  "adr k = HEAP_VIRT_BASE + of_nat k"

abbreviation HB :: nat where
  "HB \<equiv> 0xFFFF910000000000"

lemma adr_unat: "k < 2 ^ 46 \<Longrightarrow> unat (adr k) = HB + k"
proof -
  assume k: "k < 2 ^ 46"
  have e: "adr k = of_nat (HB + k)" by (simp add: adr_def)
  show ?thesis unfolding e by (rule unat_of_nat_small) (use k in simp)
qed

lemma adr_eq: "k < 2 ^ 46 \<Longrightarrow> l < 2 ^ 46 \<Longrightarrow> adr k = adr l \<longleftrightarrow> k = l"
  using adr_unat by (metis add_left_cancel)

lemma adr_nonzero: "k < 2 ^ 46 \<Longrightarrow> adr k \<noteq> 0"
  using adr_unat [of k] by auto

lemma adr_less: "k < 2 ^ 46 \<Longrightarrow> l < 2 ^ 46 \<Longrightarrow> adr k < adr l \<longleftrightarrow> k < l"
  using adr_unat by (simp add: word_less_nat_alt)

lemma adr_plus: "adr k + of_nat d = adr (k + d)" "adr k + 32 = adr (k + 32)" "adr 0 = HEAP_VIRT_BASE"
  by (simp_all add: adr_def)

lemma heap_page_adr: "heap_page n = adr (4096 * n)" "arena_page_va 0xFFFF910000000000 n = adr (4096 * n)"
  by (simp_all add: arena_page_va_def adr_def)

lemma page_down: "x AND NOT 0xFFF = x div 4096 * (4096 :: u64)"
proof -
  have "x AND NOT 0xFFF = push_bit 12 (drop_bit 12 x)"
    unfolding masks by (rule bit_word_eqI) (auto simp: bit_and_iff bit_not_iff bit_mask_iff bit_push_bit_iff bit_drop_bit_eq)
  then show ?thesis by (simp add: push_bit_eq_mult drop_bit_eq_div)
qed

lemma adr_page_up:
  assumes "k < 2 ^ 45"
  shows "(adr k + PAGE_SIZE - 1) AND NOT (PAGE_SIZE - 1) = heap_page ((k + 4095) div 4096)"
proof -
  have k: "k + 4095 < 2 ^ 46" using assms by simp
  have a: "adr k + PAGE_SIZE - 1 = adr (k + 4095)" by (simp add: adr_def)
  have "(HB + (k + 4095)) div 4096 = HB div 4096 + (k + 4095) div 4096"
    using div_plus_div_distrib_dvd_left [of 4096 HB "k + 4095"] by simp
  then have d: "unat (adr (k + 4095) div 4096) = HB div 4096 + (k + 4095) div 4096"
    using adr_unat [OF k] by (simp add: unat_div)
  have "adr (k + 4095) div 4096 = of_nat (HB div 4096 + (k + 4095) div 4096)"
    unfolding d [symmetric] by simp
  then have "adr (k + 4095) div 4096 * 4096 = of_nat (HB div 4096 * 4096 + (k + 4095) div 4096 * 4096)"
    by (simp add: algebra_simps)
  then have "adr (k + 4095) div 4096 * 4096 = heap_page ((k + 4095) div 4096)" by (simp add: heap_page_adr adr_def mult.commute)
  then show ?thesis unfolding a using page_down [of "adr (k + 4095)"] by simp
qed

section \<open>The arena\<close>

definition arena_is :: "heap \<Rightarrow> nat \<Rightarrow> bool" where
  "arena_is h w \<longleftrightarrow> heap_base h = HEAP_VIRT_BASE \<and> heap_break h = adr w \<and>
     (\<exists>n fr. n \<le> 8192 \<and> heap_end h = heap_page n \<and> w \<le> 4096 * n \<and> backed (hp_paging h) n fr)"

definition committed :: "heap \<Rightarrow> nat" where
  "committed h = unat (heap_end h) - HB"

lemma arena_isD:
  assumes "arena_is h w"
  shows "heap_base h = HEAP_VIRT_BASE" "heap_break h = adr w" "w \<le> 2 ^ 25" "w \<le> committed h" "committed h \<le> 2 ^ 25"
    "heap_end h = adr (committed h)"
proof -
  obtain n fr where n: "n \<le> 8192" "heap_end h = heap_page n" "w \<le> 4096 * n" using assms by (auto simp: arena_is_def)
  then show "w \<le> 2 ^ 25" by simp
  have "unat (heap_end h) = HB + 4096 * n" unfolding n(2) heap_page_adr(1) by (rule adr_unat) (use n(1) in simp)
  then have c: "committed h = 4096 * n" by (simp add: committed_def)
  then show "w \<le> committed h" "committed h \<le> 2 ^ 25" "heap_end h = adr (committed h)" using n by (simp_all add: heap_page_adr)
qed (use assms in \<open>simp_all add: arena_is_def\<close>)

text \<open>
  When \<open>sbrk\<close> certainly succeeds: the increment fits into what is committed, or it fits into the
  arena, no huge page is in the way, and four frames are free for each new page, one for the page
  and three for its tables.
\<close>

definition room :: "heap \<Rightarrow> nat \<Rightarrow> nat \<Rightarrow> bool" where
  "room h w d \<longleftrightarrow> w + d \<le> committed h \<or>
     w + d \<le> 2 ^ 25 \<and> (\<forall>j < 8192. no_huge (hp_paging h) (heap_page j)) \<and>
     4 * ((w + d - committed h + 4095) div 4096) \<le> card (frees (frames (hp_paging h)))"

lemma sbrk_locked_is:
  assumes a: "arena_is h w" and d: "0 < d" "d + w < 2 ^ 64"
  obtains r s e b where "sbrk_locked (of_nat d) h = Some (r, h\<lparr> hp_paging := s, heap_end := e, heap_break := b \<rparr>)"
    "r = SBRK_FAILED \<and> arena_is (h\<lparr> hp_paging := s, heap_end := e, heap_break := b \<rparr>) w \<or>
     r = adr w \<and> w + d \<le> 2 ^ 25 \<and> arena_is (h\<lparr> hp_paging := s, heap_end := e, heap_break := b \<rparr>) (w + d)"
    "same_outside (hp_paging h) s" "room h w d \<Longrightarrow> r = adr w"
proof -
  note A = arena_isD [OF a]
  obtain n fr where n: "n \<le> 8192" "heap_end h = heap_page n" "w \<le> 4096 * n" "backed (hp_paging h) n fr"
    using a by (auto simp: arena_is_def)
  have c: "committed h = 4096 * n" using A(5,6) n(1,2) adr_eq [of "committed h" "4096 * n"] by (simp add: heap_page_adr)
  have keep: "h\<lparr> hp_paging := hp_paging h, heap_end := heap_end h, heap_break := b \<rparr> = h\<lparr> heap_break := b \<rparr>"
    "h\<lparr> heap_break := heap_break h \<rparr> = h" for b by simp_all
  have d0: "(of_nat d :: u64) \<noteq> 0" using d unat_of_nat_small [of d, where 'a = 64] by auto
  have nb: "heap_break h + of_nat d = adr (w + d)" using A(2) by (simp add: adr_plus)
  show thesis
  proof (cases "w + d \<le> 2 ^ 25")
    case False
    have big: "adr (w + d) < heap_base h \<or> heap_base h + HEAP_SIZE < adr (w + d)"
    proof (cases "w + d < 2 ^ 46")
      case True
      then have "adr (2 ^ 25) < adr (w + d)" using False by (simp add: adr_less)
      then show ?thesis using A(1) by (simp add: adr_def)
    next
      case wide: False
      show ?thesis
      proof (cases "HB + (w + d) < 2 ^ 64")
        case True
        have "adr (w + d) = of_nat (HB + (w + d))" by (simp add: adr_def)
        then have "unat (adr (w + d)) = HB + (w + d)" using unat_of_nat_small [of "HB + (w + d)", where 'a = 64] True by simp
        then have "unat (HEAP_VIRT_BASE + HEAP_SIZE) < unat (adr (w + d))" using wide by simp
        then show ?thesis using A(1) by (simp add: word_less_nat_alt)
      next
        case over: False
        have "adr (w + d) = of_nat (HB + (w + d) - 2 ^ 64)"
        proof -
          have "(of_nat (HB + (w + d)) :: u64) = of_nat (HB + (w + d) - 2 ^ 64) + of_nat (2 ^ 64)"
            unfolding of_nat_add [symmetric] using over by (metis le_add_diff_inverse2 not_less)
          moreover have "(of_nat (2 ^ 64) :: u64) = 0" by simp
          ultimately show ?thesis by (simp add: adr_def)
        qed
        then have "unat (adr (w + d)) = HB + (w + d) - 2 ^ 64"
          using unat_of_nat_small [of "HB + (w + d) - 2 ^ 64", where 'a = 64] d(2) by simp
        then have "unat (adr (w + d)) < unat HEAP_VIRT_BASE" using d(2) by simp
        then show ?thesis using A(1) by (simp add: word_less_nat_alt)
      qed
    qed
    have "sbrk_locked (of_nat d) h = Some (SBRK_FAILED, h)"
      unfolding sbrk_locked_def Let_def nb using big d0 by (auto simp del: HEAP_SIZE_def)
    then show thesis
      by (intro that [where r = SBRK_FAILED and s = "hp_paging h" and e = "heap_end h" and b = "heap_break h"])
        (use keep a same_outside_refl False A(4,5) in \<open>simp_all add: room_def\<close>)
  next
    case fits: True
    have lo: "\<not> adr (w + d) < heap_base h" using adr_less [of "w + d" 0] fits A(1) by (simp add: adr_plus)
    have hi: "\<not> heap_base h + HEAP_SIZE < adr (w + d)"
      using adr_less [of "2 ^ 25" "w + d"] fits A(1) by (simp add: adr_def)
    show thesis
    proof (cases "w + d \<le> committed h")
      case True
      then have "\<not> heap_end h < adr (w + d)" using adr_less [of "committed h" "w + d"] A(5,6) fits by simp
      then have r: "sbrk_locked (of_nat d) h = Some (adr w, h\<lparr> heap_break := adr (w + d) \<rparr>)"
        unfolding sbrk_locked_def Let_def nb using lo hi d0 A(2) by simp
      have "arena_is (h\<lparr> heap_break := adr (w + d) \<rparr>) (w + d)"
        unfolding arena_is_def by (intro conjI exI [of _ n] exI [of _ fr]) (use True n c A(1) in simp_all)
      then show thesis
        by (intro that [where r = "adr w" and s = "hp_paging h" and e = "heap_end h" and b = "adr (w + d)"])
          (use r fits same_outside_refl keep in simp_all)
    next
      case False
      then have gt: "heap_end h < adr (w + d)" using adr_less [of "committed h" "w + d"] A(5,6) fits by simp
      define m where "m = (w + d + 4095) div 4096"
      have m: "w + d \<le> 4096 * m" "4096 * m < w + d + 4096"
        unfolding m_def using div_mult_mod_eq [of "w + d + 4095" 4096] mod_less_divisor [of 4096 "w + d + 4095"] by linarith+
      have nm: "n \<le> m" "m \<le> 8192" using m fits False c by simp_all
      have tgt: "(adr (w + d) + PAGE_SIZE - 1) AND NOT (PAGE_SIZE - 1) = heap_page m"
        unfolding m_def by (rule adr_page_up) (use fits in simp)
      obtain st s n' fr' where C: "commit_loop (heap_page m) (heap_page n) h = Some (st, h\<lparr> hp_paging := s, heap_end := heap_page n' \<rparr>)"
        "backed s n' fr'" "n \<le> n'" "n' \<le> m" "st = 0 \<longleftrightarrow> n' = m" "same_outside (hp_paging h) s"
        "\<forall>j < 8192. no_huge (hp_paging h) (heap_page j) \<Longrightarrow> 4 * (m - n) \<le> card (frees (frames (hp_paging h))) \<Longrightarrow> n' = m"
        by (rule commit_loop_is [OF n(4) nm n(2)]) blast
      have hc: "heap_commit_to (heap_page m) h = Some (st, h\<lparr> hp_paging := s, heap_end := heap_page n' \<rparr>)"
        using C(1) n(2) by (simp add: heap_commit_to_def)
      have r: "sbrk_locked (of_nat d) h = (if st \<noteq> 0 then Some (SBRK_FAILED, h\<lparr> hp_paging := s, heap_end := heap_page n' \<rparr>)
          else Some (adr w, h\<lparr> hp_paging := s, heap_end := heap_page n', heap_break := adr (w + d) \<rparr>))"
        unfolding sbrk_locked_def Let_def nb tgt using lo hi d0 A(2) gt hc by (simp del: PAGE_SIZE_def)
      show thesis
      proof (cases "st = 0")
        case True
        have "arena_is (h\<lparr> hp_paging := s, heap_end := heap_page n', heap_break := adr (w + d) \<rparr>) (w + d)"
          unfolding arena_is_def by (intro conjI exI [of _ n'] exI [of _ fr']) (use A(1) C nm m True in simp_all)
        then show thesis
          by (intro that [where r = "adr w" and s = s and e = "heap_page n'" and b = "adr (w + d)"]) (use r True fits C(6) in simp_all)
      next
        case bad: False
        let ?h = "h\<lparr> hp_paging := s, heap_end := heap_page n', heap_break := heap_break h \<rparr>"
        have no_room: "\<not> room h w d"
        proof
          assume R: "room h w d"
          have "(w + d + 4095) div 4096 = ((w + d - 4096 * n + 4095) + n * 4096) div 4096" using False c by simp
          then have "m - n = (w + d - committed h + 4095) div 4096" unfolding m_def c by simp
          then show False using C(5,7) R False bad by (auto simp: room_def)
        qed
        have "w \<le> 4096 * n'" "n' \<le> 8192" using n(3) C(3,4) nm(2) by linarith+
        then have "arena_is ?h w" unfolding arena_is_def using A(1,2) C(2) by (intro conjI exI [of _ n'] exI [of _ fr']) simp_all
        then show thesis
          by (intro that [where r = SBRK_FAILED and s = s and e = "heap_page n'" and b = "heap_break h"]) (use r bad no_room C(6) in simp_all)
      qed
    qed
  qed
qed

end
