(* ===== verification/HeapList.thy ===== *)
theory HeapList
  imports HeapSpec
begin

text \<open>
  The blocks of the heap as a list of \<open>(size, free)\<close> in the order of their addresses, what the
  searches along the links find in terms of the list, and what writing headers does to it.
\<close>

section \<open>Segments of the list\<close>

type_synonym chunk = "nat \<times> bool"

fun width :: "chunk list \<Rightarrow> nat" where
  "width [] = 0"
| "width ((n, f) # xs) = 32 + n + width xs"

text \<open>The headers of \<open>xs\<close> from offset \<open>k\<close> on; the last one links to \<open>e\<close>.\<close>

fun seg :: "(u64 \<Rightarrow> block) \<Rightarrow> nat \<Rightarrow> chunk list \<Rightarrow> u64 \<Rightarrow> bool" where
  "seg B k [] e = True"
| "seg B k ((n, f) # xs) e =
     (B (adr k) = \<lparr> blk_size = of_nat n, blk_next = (if xs = [] then e else adr (k + 32 + n)), blk_free = f \<rparr> \<and>
      seg B (k + 32 + n) xs e)"

lemma width_append [simp]: "width (xs @ ys) = width xs + width ys"
  by (induction xs rule: width.induct) simp_all

lemma width_zero: "width xs = 0 \<longleftrightarrow> xs = []"
  by (cases xs rule: width.cases) simp_all

lemma seg_append:
  "seg B k (xs @ ys) e \<longleftrightarrow> seg B k xs (if ys = [] then e else adr (k + width xs)) \<and> seg B (k + width xs) ys e"
  by (induction xs arbitrary: k rule: width.induct) (auto simp: ac_simps)

lemma seg_put:
  assumes "k + width xs \<le> 2 ^ 45" "a < 2 ^ 45" "a < k \<or> k + width xs \<le> a"
  shows "seg (B(adr a := b)) k xs e = seg B k xs e"
  using assms
proof (induction xs arbitrary: k rule: width.induct)
  case (2 n f xs)
  have "k < 2 ^ 46" "a < 2 ^ 46" "k \<noteq> a" using 2(2-4) by auto
  then have ne: "adr k \<noteq> adr a" by (simp add: adr_eq)
  have "seg (B(adr a := b)) (k + 32 + n) xs e = seg B (k + 32 + n) xs e"
    by (rule "2.IH") (use 2(2-4) in auto)
  moreover have "(B(adr a := b)) (adr k) = B (adr k)" using ne by simp
  ultimately show ?case by (simp only: seg.simps)
qed simp

lemma adr_valid: "k < 2 ^ 46 \<Longrightarrow> adr k \<noteq> SBRK_FAILED"
  using adr_unat [of k] by (auto simp: unsigned_minus_1_eq_mask mask_eq_exp_minus_1)

text \<open>The header of a block in the middle, and of its successor.\<close>

lemma seg_at:
  assumes "seg B k (pre @ (n, f) # post) e"
  shows "B (adr (k + width pre)) = \<lparr> blk_size = of_nat n,
      blk_next = (if post = [] then e else adr (k + width pre + 32 + n)), blk_free = f \<rparr>"
  using assms by (simp add: seg_append)

section \<open>Searching\<close>

definition fits :: "u64 \<Rightarrow> chunk \<Rightarrow> bool" where
  "fits need c \<longleftrightarrow> snd c \<and> need \<le> of_nat (fst c)"

lemma first_fit_is:
  assumes "seg (blocks h) k xs 0" "xs \<noteq> []" "k + width xs \<le> 2 ^ 45"
  shows "first_fit need h (adr k) = Some
    (if \<exists>c \<in> set xs. fits need c then Inr (adr (k + width (takeWhile (\<lambda>c. \<not> fits need c) xs)))
     else Inl (adr (k + width (butlast xs))))"
  using assms
proof (induction xs arbitrary: k rule: width.induct)
  case (2 n f xs)
  have B: "blocks h (adr k) = \<lparr> blk_size = of_nat n, blk_next = (if xs = [] then 0 else adr (k + 32 + n)), blk_free = f \<rparr>"
    "seg (blocks h) (k + 32 + n) xs 0" using 2(2) by simp_all
  show ?case
  proof (cases "fits need (n, f)")
    case True
    then show ?thesis using B(1) by (subst first_fit.simps) (simp add: fits_def)
  next
    case False
    show ?thesis
    proof (cases "xs = []")
      case True
      then show ?thesis using False B(1) by (subst first_fit.simps) (auto simp: fits_def)
    next
      case ne: False
      have nz: "adr (k + 32 + n) \<noteq> 0" by (rule adr_nonzero) (use 2(4) in simp)
      have "first_fit need h (adr k) = first_fit need h (adr (k + 32 + n))"
        using False ne nz B(1) by (subst first_fit.simps) (auto simp: fits_def)
      also have "\<dots> = Some (if \<exists>c \<in> set xs. fits need c then Inr (adr (k + 32 + n + width (takeWhile (\<lambda>c. \<not> fits need c) xs)))
          else Inl (adr (k + 32 + n + width (butlast xs))))"
        by (rule "2.IH") (use 2(4) B(2) ne in simp_all)
      finally show ?thesis using False ne by (simp add: ac_simps)
    qed
  qed
qed simp

lemma find_prev_none:
  assumes "seg (blocks h) k xs 0" "k + width xs \<le> 2 ^ 45" "a \<le> k"
  shows "find_prev (adr a) h (if xs = [] then 0 else adr k) = Some 0"
  using assms
proof (induction xs arbitrary: k rule: width.induct)
  case 1
  then show ?case by (subst find_prev.simps) simp
next
  case (2 n f xs)
  have B: "blk_next (blocks h (adr k)) = (if xs = [] then 0 else adr (k + 32 + n))" "seg (blocks h) (k + 32 + n) xs 0"
    using 2(2) by simp_all
  have nz: "adr k \<noteq> 0" "adr a \<noteq> 0" by (rule adr_nonzero; use 2(3,4) in simp)+
  have "adr (k + 32 + n) \<noteq> adr a" using 2(3,4) by (subst adr_eq) auto
  then have ne: "blk_next (blocks h (adr k)) \<noteq> adr a" using B(1) nz(2) by auto
  have "find_prev (adr a) h (adr k) = find_prev (adr a) h (if xs = [] then 0 else adr (k + 32 + n))"
    using nz(1) ne B(1) by (subst find_prev.simps) simp
  also have "\<dots> = Some 0" by (rule "2.IH") (use B(2) 2(3,4) in simp_all)
  finally show ?case by simp
qed

lemma find_prev_is:
  assumes "seg (blocks h) k (pre @ c # post) 0" "k + width (pre @ c # post) \<le> 2 ^ 45"
  shows "find_prev (adr (k + width pre)) h (adr k) = Some (if pre = [] then 0 else adr (k + width (butlast pre)))"
proof (cases "pre = []")
  case True
  then show ?thesis using find_prev_none [OF assms(1,2), of k] by simp
next
  case False
  then show ?thesis using assms
  proof (induction pre arbitrary: k rule: width.induct)
    case (2 n f xs)
    have B: "blk_next (blocks h (adr k)) = adr (k + 32 + n)" "seg (blocks h) (k + 32 + n) (xs @ c # post) 0"
      using 2(3) by simp_all
    have nz: "adr k \<noteq> 0" by (rule adr_nonzero) (use 2(4) in simp)
    show ?case
    proof (cases "xs = []")
      case True
      then show ?thesis using nz B(1) by (subst find_prev.simps) (simp add: ac_simps)
    next
      case False
      then have "0 < width xs" using width_zero [of xs] by simp
      then have "adr (k + 32 + n) \<noteq> adr (k + width ((n, f) # xs))" using 2(4) by (subst adr_eq) auto
      then have "find_prev (adr (k + width ((n, f) # xs))) h (adr k) = find_prev (adr (k + width ((n, f) # xs))) h (adr (k + 32 + n))"
        using nz B(1) by (subst find_prev.simps) simp
      also have "\<dots> = find_prev (adr (k + 32 + n + width xs)) h (adr (k + 32 + n))" by (simp add: ac_simps)
      also have "\<dots> = Some (if xs = [] then 0 else adr (k + 32 + n + width (butlast xs)))"
        by (rule "2.IH" [OF False B(2)]) (use 2(4) in simp)
      finally show ?thesis using False by (simp add: ac_simps)
    qed
  qed simp
qed

section \<open>Changing the list\<close>

lemma of_nat_sizes:
  "of_nat (n - r) = of_nat n - (of_nat r :: u64)" if "r \<le> n"
  using that by (rule of_nat_diff)

lemma seg_replace:
  assumes "seg B k (pre @ cs @ post) e" "seg B' (k + width pre) ys (if post = [] then e else adr (k + width pre + width ys))"
    "width ys = width cs" "ys \<noteq> []" "cs \<noteq> []" "k + width (pre @ cs @ post) \<le> 2 ^ 45"
    "\<And>a. (\<forall>j. k + width pre \<le> j \<and> j < k + width pre + width cs \<longrightarrow> a \<noteq> adr j) \<Longrightarrow> B' a = B a"
  shows "seg B' k (pre @ ys @ post) e"
proof -
  have same: "seg B' l zs e' = seg B l zs e'" if "l + width zs \<le> 2 ^ 45" "l + width zs \<le> k + width pre \<or> k + width pre + width cs \<le> l" for l zs e'
    using that
  proof (induction zs arbitrary: l rule: width.induct)
    case (2 n f zs)
    have l46: "l < 2 ^ 46" using 2(2) by simp
    have "\<forall>j. k + width pre \<le> j \<and> j < k + width pre + width cs \<longrightarrow> adr l \<noteq> adr j"
    proof (intro allI impI)
      fix j assume j: "k + width pre \<le> j \<and> j < k + width pre + width cs"
      have "j < 2 ^ 46" using j assms(6) by simp
      moreover have "l \<noteq> j" using j 2(3) by auto
      ultimately show "adr l \<noteq> adr j" using adr_eq l46 by blast
    qed
    then have "B' (adr l) = B (adr l)" by (rule assms(7))
    moreover have "seg B' (l + 32 + n) zs e' = seg B (l + 32 + n) zs e'"
      by (rule "2.IH") (use 2(2,3) in auto)
    ultimately show ?case by simp
  qed simp
  have S: "seg B k pre (adr (k + width pre))" "seg B (k + width pre + width cs) post e"
    using assms(1,5) by (simp_all add: seg_append ac_simps)
  have "seg B' k pre (adr (k + width pre))" using S(1) same [of k pre] assms(6) by simp
  moreover have "seg B' (k + width pre + width cs) post e"
    using S(2) same [of "k + width pre + width cs" post] assms(6) by (simp add: ac_simps)
  ultimately show ?thesis using assms(2,3,4) by (simp add: seg_append ac_simps split: if_splits)
qed

section \<open>The heap as a list\<close>

definition heap_shape :: "heap \<Rightarrow> chunk list \<Rightarrow> bool" where
  "heap_shape h xs \<longleftrightarrow> arena_is h (width xs) \<and> head h = (if xs = [] then 0 else adr 0) \<and> seg (blocks h) 0 xs 0 \<and>
     (\<forall>c \<in> set xs. 16 dvd fst c)"

definition tidy :: "chunk list \<Rightarrow> bool" where
  "tidy xs \<longleftrightarrow> successively (\<lambda>c d. \<not> (snd c \<and> snd d)) xs"

definition heap_is :: "heap \<Rightarrow> chunk list \<Rightarrow> bool" where
  "heap_is h xs \<longleftrightarrow> heap_shape h xs \<and> tidy xs"

lemma arena_is_cong [simp]:
  "arena_is (h\<lparr> blocks := B \<rparr>) w = arena_is h w" "arena_is (h\<lparr> payload := P \<rparr>) w = arena_is h w"
  "arena_is (h\<lparr> head := a \<rparr>) w = arena_is h w"
  by (simp_all add: arena_is_def)

lemma heap_shapeD:
  assumes "heap_shape h xs"
  shows "arena_is h (width xs)" "head h = (if xs = [] then 0 else adr 0)" "seg (blocks h) 0 xs 0" "c \<in> set xs \<Longrightarrow> 16 dvd fst c"
    "width xs \<le> 2 ^ 25"
  using assms arena_isD(3) by (auto simp: heap_shape_def)

lemma width_dvd: "\<forall>c \<in> set xs. 16 dvd fst c \<Longrightarrow> 16 dvd width xs"
  by (induction xs rule: width.induct) auto

lemma shape_replace:
  assumes "heap_shape h (pre @ cs @ post)" "seg B' (width pre) ys (if post = [] then 0 else adr (width pre + width ys))"
    "width ys = width cs" "ys \<noteq> []" "cs \<noteq> []" "\<forall>c \<in> set ys. 16 dvd fst c"
    "\<And>a. (\<forall>j. width pre \<le> j \<and> j < width pre + width cs \<longrightarrow> a \<noteq> adr j) \<Longrightarrow> B' a = blocks h a"
  shows "heap_shape (h\<lparr> blocks := B' \<rparr>) (pre @ ys @ post)"
proof -
  note H = heap_shapeD [OF assms(1)]
  have "seg B' 0 (pre @ ys @ post) 0"
    by (rule seg_replace [OF H(3) _ assms(3,4,5)]) (use assms(2,7) H(5) in auto)
  then show ?thesis using H assms(3-6) by (auto simp: heap_shape_def)
qed

end
