(* ===== verification/HeapOps.thy ===== *)
theory HeapOps
  imports HeapList
begin

text \<open>
  Allocation and release as operations on the list of blocks.
\<close>

section \<open>Sizes\<close>

definition up16 :: "nat \<Rightarrow> nat" where
  "up16 n = (n + 15) div 16 * 16"

lemma up16: "16 dvd up16 n" "n \<le> up16 n" "up16 n < n + 16"
  unfolding up16_def using div_mult_mod_eq [of "n + 15" 16] mod_less_divisor [of 16 "n + 15"] by (simp, linarith+)

lemma up16_id: "16 dvd n \<Longrightarrow> up16 n = n"
  by (auto simp: up16_def elim!: dvdE)

lemma up16_mono: "n \<le> m \<Longrightarrow> 16 dvd m \<Longrightarrow> up16 n \<le> m"
  using up16_id [of m] by (metis add_le_mono1 div_le_mono mult_le_mono1 up16_def)

lemma ALIGN16_div: "ALIGN16 x = (x + 15) div 16 * 16"
proof -
  have m: "(15 :: u64) = mask 4" by (simp add: mask_eq_exp_minus_1)
  have "y AND NOT 15 = push_bit 4 (drop_bit 4 y)" for y :: u64
    unfolding m by (rule bit_word_eqI) (auto simp: bit_and_iff bit_not_iff bit_mask_iff bit_push_bit_iff bit_drop_bit_eq)
  then show ?thesis unfolding ALIGN16_def by (simp add: push_bit_eq_mult drop_bit_eq_div)
qed

lemma ALIGN16_is:
  assumes "unat x + 15 < 2 ^ 64"
  shows "ALIGN16 x = of_nat (up16 (unat x))"
proof -
  have "unat (x + 15) = unat x + 15" using assms by (subst unat_add_small) simp_all
  then have d: "unat ((x + 15) div 16) = (unat x + 15) div 16" by (simp add: unat_div)
  have "(x + 15) div 16 = of_nat ((unat x + 15) div 16)" unfolding d [symmetric] by simp
  then show ?thesis unfolding ALIGN16_div up16_def by simp
qed

lemma small_unat: "n < 2 ^ 46 \<Longrightarrow> unat (of_nat n :: u64) = n"
  by (rule unat_of_nat_small) simp

lemma of_nat_less: "n < 2 ^ 46 \<Longrightarrow> m < 2 ^ 46 \<Longrightarrow> of_nat n < (of_nat m :: u64) \<longleftrightarrow> n < m"
  "n < 2 ^ 46 \<Longrightarrow> m < 2 ^ 46 \<Longrightarrow> of_nat n \<le> (of_nat m :: u64) \<longleftrightarrow> n \<le> m"
  by (simp_all add: word_less_nat_alt word_le_nat_alt small_unat)

lemma ALIGN16_small: "0 < unat x \<Longrightarrow> unat x + 2 ^ 26 \<le> 2 ^ 64 \<Longrightarrow>
    x \<noteq> 0 \<and> ALIGN16 x = of_nat (up16 (unat x)) \<and> 16 dvd up16 (unat x) \<and> up16 (unat x) + 2 ^ 25 + 32 < 2 ^ 64"
  using ALIGN16_is [of x] up16 [of "unat x"] by auto

lemma ALIGN16_wraps:
  assumes "2 ^ 64 \<le> unat x + 15"
  shows "ALIGN16 x = 0" "x \<noteq> 0"
proof -
  have b: "unat x < 2 ^ 64" using unsigned_less [of x] by simp
  have "(unat x + 15) mod 2 ^ 64 = unat x + 15 - 2 ^ 64" using assms b le_mod_geq [of "2 ^ 64" "unat x + 15"] by simp
  then have "unat (x + 15) = unat x + 15 - 2 ^ 64" by (simp add: unat_word_ariths)
  then have "unat (x + 15) < 16" using b by simp
  then have "(x + 15) div 16 = 0" by (simp add: word_unat_eq_iff unat_div)
  then show "ALIGN16 x = 0" by (simp add: ALIGN16_div)
  show "x \<noteq> 0" using assms by auto
qed

section \<open>The first fit\<close>

lemma split_fit:
  assumes "\<exists>c \<in> set xs. fits need c"
  obtains n post where "xs = takeWhile (\<lambda>c. \<not> fits need c) xs @ (n, True) # post" "need \<le> of_nat n"
proof -
  let ?P = "\<lambda>c. \<not> fits need c"
  have "dropWhile ?P xs \<noteq> []" using assms by (simp add: dropWhile_eq_Nil_conv)
  then obtain c post where d: "dropWhile ?P xs = c # post" by (cases "dropWhile ?P xs") auto
  then have "fits need c" using hd_dropWhile [of ?P xs] by simp
  then have c: "c = (fst c, True)" "need \<le> of_nat (fst c)" by (auto simp: fits_def prod_eq_iff)
  have "xs = takeWhile ?P xs @ (fst c, True) # post" using takeWhile_dropWhile_id [of ?P xs] d c(1) by metis
  then show thesis using c(2) that by blast
qed

text \<open>What becomes of a block of size \<open>n\<close> of which \<open>r\<close> bytes are kept, if \<open>t\<close> is the threshold.\<close>

definition split_chunk :: "nat \<Rightarrow> nat \<Rightarrow> nat \<Rightarrow> chunk list" where
  "split_chunk t r n = (if n - r > t then [(r, False), (n - r - 32, True)] else [(n, False)])"

lemma split_chunk_simps:
  "32 \<le> t \<Longrightarrow> r \<le> n \<Longrightarrow> width (split_chunk t r n) = width [(n, f)]" "split_chunk t r n \<noteq> []"
  "16 dvd n \<Longrightarrow> 16 dvd r \<Longrightarrow> c \<in> set (split_chunk t r n) \<Longrightarrow> 16 dvd fst c"
  unfolding split_chunk_def by (auto split: if_splits intro!: dvd_diff_nat)

text \<open>A block is cut: the header of the rest, then the header of the block.\<close>

lemma cut_block:
  assumes H: "heap_shape h (pre @ (n, f) # post)" and r: "r \<le> n" "16 dvd r" "32 < n - r"
  shows "heap_shape (h\<lparr> blocks := (blocks h)(adr (width pre + 32 + r) := \<lparr> blk_size = of_nat (n - r) - 32,
        blk_next = (if post = [] then 0 else adr (width pre + 32 + n)), blk_free = True \<rparr>,
      adr (width pre) := \<lparr> blk_size = of_nat r, blk_next = adr (width pre + 32 + r), blk_free = False \<rparr>) \<rparr>)
    (pre @ [(r, False), (n - r - 32, True)] @ post)"
proof (rule shape_replace [where cs = "[(n, f)]"])
  note D = heap_shapeD [OF H]
  have w: "width pre + 32 + n \<le> 2 ^ 25" using D(5) by simp
  let ?a = "adr (width pre)" and ?b = "adr (width pre + 32 + r)"
  let ?B = "(blocks h)(?b := \<lparr> blk_size = of_nat (n - r) - 32,
        blk_next = (if post = [] then 0 else adr (width pre + 32 + n)), blk_free = True \<rparr>,
      ?a := \<lparr> blk_size = of_nat r, blk_next = ?b, blk_free = False \<rparr>)"
  have ne: "?b \<noteq> ?a" using w r by (subst adr_eq) auto
  have s: "(of_nat (n - r) - 32 :: u64) = of_nat (n - r - 32)" using r(3) of_nat_diff [of 32 "n - r", where 'a = u64] by simp
  have e: "width pre + 32 + r + 32 + (n - r - 32) = width pre + 32 + n" using r by simp
  show "seg ?B (width pre) [(r, False), (n - r - 32, True)] (if post = [] then 0 else adr (width pre + width [(r, False), (n - r - 32, True)]))"
    using ne s e r by (simp add: ac_simps)
  show "\<forall>c \<in> set [(r, False), (n - r - 32, True)]. 16 dvd fst c" using D(4) [of "(n, f)"] r by (auto intro!: dvd_diff_nat)
  fix a assume a: "\<forall>j. width pre \<le> j \<and> j < width pre + width [(n, f)] \<longrightarrow> a \<noteq> adr j"
  have "a \<noteq> ?a" "a \<noteq> ?b" using a r by auto
  then show "?B a = blocks h a" by simp
qed (use H r in simp_all)

text \<open>A flag is set or cleared, a size grows over what follows.\<close>

lemma put_head:
  assumes H: "heap_shape h (pre @ cs @ post)" and w: "32 + n = width cs" "16 dvd n" "cs \<noteq> []"
  shows "heap_shape (h\<lparr> blocks := (blocks h)(adr (width pre) := \<lparr> blk_size = of_nat n,
      blk_next = (if post = [] then 0 else adr (width pre + 32 + n)), blk_free = f \<rparr>) \<rparr>) (pre @ [(n, f)] @ post)"
proof (rule shape_replace [where cs = cs])
  have "width pre + width [(n, f)] = width pre + 32 + n" by simp
  then show "seg ((blocks h)(adr (width pre) := \<lparr> blk_size = of_nat n,
      blk_next = (if post = [] then 0 else adr (width pre + 32 + n)), blk_free = f \<rparr>)) (width pre) [(n, f)]
      (if post = [] then 0 else adr (width pre + width [(n, f)]))" by (simp add: add.assoc)
  fix a assume a: "\<forall>j. width pre \<le> j \<and> j < width pre + width cs \<longrightarrow> a \<noteq> adr j"
  have "width cs \<noteq> 0" using w(3) width_zero by simp
  then have "a \<noteq> adr (width pre)" using a by auto
  then show "((blocks h)(adr (width pre) := \<lparr> blk_size = of_nat n,
      blk_next = (if post = [] then 0 else adr (width pre + 32 + n)), blk_free = f \<rparr>)) a = blocks h a" by simp
qed (use H w in \<open>simp_all add: ac_simps\<close>)

lemma place_is:
  assumes H: "heap_shape h (pre @ (n, True) # post)" and r: "r \<le> n" "16 dvd r"
  shows "\<exists>B. place (of_nat r) (adr (width pre)) h = h\<lparr> blocks := B \<rparr> \<and>
    heap_shape (h\<lparr> blocks := B \<rparr>) (pre @ split_chunk 40 r n @ post)"
proof -
  note D = heap_shapeD [OF H]
  have w: "width pre + 32 + n \<le> 2 ^ 25" using D(5) by simp
  have hd: "blocks h (adr (width pre)) = \<lparr> blk_size = of_nat n, blk_next = (if post = [] then 0 else adr (width pre + 32 + n)), blk_free = True \<rparr>"
    using seg_at [OF D(3)] by simp
  have lo: "(of_nat n :: u64) - of_nat r = of_nat (n - r)" using r(1) by simp
  have th: "(40 < (of_nat (n - r) :: u64)) = (40 < n - r)" using of_nat_less(1) [of 40 "n - r"] w by simp
  have nb: "adr (width pre) + 32 + of_nat r = adr (width pre + 32 + r)" by (simp add: adr_plus)
  show ?thesis
  proof (cases "40 < n - r")
    case True
    then have "32 < n - r" by simp
    from cut_block [OF H r this] True show ?thesis
      unfolding place_def Let_def hd block.simps BLOCK_SIZE_def lo nb put_block_def split_chunk_def
      by (intro exI conjI) (use th in simp_all)
  next
    case False
    have "heap_shape (h\<lparr> blocks := (blocks h)(adr (width pre) := \<lparr> blk_size = of_nat n,
        blk_next = (if post = [] then 0 else adr (width pre + 32 + n)), blk_free = False \<rparr>) \<rparr>) (pre @ [(n, False)] @ post)"
      by (rule put_head [where cs = "[(n, True)]"]) (use H D(4) [of "(n, True)"] in simp_all)
    with False show ?thesis
      unfolding place_def Let_def hd block.simps BLOCK_SIZE_def lo put_block_def split_chunk_def
      by (intro exI conjI) (use th in simp_all)
  qed
qed

section \<open>Neighbours\<close>

lemma tidy_append: "tidy (xs @ ys) \<longleftrightarrow> tidy xs \<and> tidy ys \<and> (xs = [] \<or> ys = [] \<or> \<not> (snd (last xs) \<and> snd (hd ys)))"
  unfolding tidy_def successively_append_iff by simp

lemma tidy_simps [simp]: "tidy []" "tidy [c]" "tidy (c # d # xs) \<longleftrightarrow> \<not> (snd c \<and> snd d) \<and> tidy (d # xs)"
  by (simp_all add: tidy_def)

lemma tidy_take: "tidy (pre @ (n, True) # post) \<Longrightarrow> tidy (pre @ split_chunk t r n @ post)"
  by (cases post) (auto simp: tidy_append split_chunk_def)

lemma tidy_snoc: "tidy xs \<Longrightarrow> tidy (xs @ [(r, False)])"
  by (simp add: tidy_append)

section \<open>Allocation\<close>

lemma malloc_is:
  assumes H: "heap_is h xs" and x0: "x \<noteq> 0" and al: "ALIGN16 x = of_nat r" and r: "16 dvd r" "r + 2 ^ 25 + 32 < 2 ^ 64"
  obtains (fit) pre n post B where "xs = pre @ (n, True) # post" "r \<le> n" "malloc x h = Some (adr (width pre + 32), h\<lparr> blocks := B \<rparr>)"
      "heap_is (h\<lparr> blocks := B \<rparr>) (pre @ split_chunk 40 r n @ post)"
  | (full) h' where "\<forall>c \<in> set xs. snd c \<longrightarrow> fst c < r" "malloc x h = Some (0, h')" "heap_is h' xs" "payload h' = payload h"
      "same_outside (hp_paging h) (hp_paging h')" "\<not> room h (width xs) (32 + r)"
  | (grow) h' where "\<forall>c \<in> set xs. snd c \<longrightarrow> fst c < r" "malloc x h = Some (adr (width xs + 32), h')" "heap_is h' (xs @ [(r, False)])"
      "payload h' = payload h" "same_outside (hp_paging h) (hp_paging h')"
proof -
  have S: "heap_shape h xs" and T: "tidy xs" using H by (simp_all add: heap_is_def)
  note D = heap_shapeD [OF S]
  have r64: "32 + r + width xs < 2 ^ 64" using r D(5) by simp
  have inc: "32 + of_nat r = (of_nat (32 + r) :: u64)" by simp
  obtain q sp e b where K: "sbrk_locked (of_nat (32 + r)) h = Some (q, h\<lparr> hp_paging := sp, heap_end := e, heap_break := b \<rparr>)"
    "q = SBRK_FAILED \<and> arena_is (h\<lparr> hp_paging := sp, heap_end := e, heap_break := b \<rparr>) (width xs) \<or>
     q = adr (width xs) \<and> width xs + (32 + r) \<le> 2 ^ 25 \<and> arena_is (h\<lparr> hp_paging := sp, heap_end := e, heap_break := b \<rparr>) (width xs + (32 + r))"
    "same_outside (hp_paging h) sp" "room h (width xs) (32 + r) \<Longrightarrow> q = adr (width xs)"
    by (rule sbrk_locked_is [OF D(1), of "32 + r"]) (use r64 in simp, use r64 in simp, blast)
  let ?h = "h\<lparr> hp_paging := sp, heap_end := e, heap_break := b \<rparr>"
  have nv: "adr (width xs) \<noteq> SBRK_FAILED" by (rule adr_valid) (use D(5) in simp)
  have failed: "heap_is ?h xs" if "q = SBRK_FAILED" using that K(2) nv S T by (auto simp: heap_is_def heap_shape_def)
  have short: "\<not> room h (width xs) (32 + r)" if "q = SBRK_FAILED" using K(4) nv that by auto
  show thesis
  proof (cases "xs = []")
    case True
    have m: "malloc x h = (if q = SBRK_FAILED then Some (0, ?h) else Some (heap_base ?h + BLOCK_SIZE,
        put_block (heap_base ?h) \<lparr> blk_size = of_nat r, blk_next = 0, blk_free = False \<rparr> (?h\<lparr> head := heap_base ?h \<rparr>)))"
      using x0 al K(1) True D(2) inc by (simp add: malloc_def del: SBRK_FAILED_def of_nat_add)
    show thesis
    proof (cases "q = SBRK_FAILED")
      case f: True
      show thesis by (rule full [of ?h]) (use True m f failed K(3) short in simp_all)
    next
      case False
      let ?g = "put_block (heap_base ?h) \<lparr> blk_size = of_nat r, blk_next = 0, blk_free = False \<rparr> (?h\<lparr> head := heap_base ?h \<rparr>)"
      have hb: "heap_base ?h = adr 0" using arena_isD(1) [OF D(1)] by (simp add: adr_plus)
      have "arena_is ?h (32 + r)" using False K(2) True by simp
      then have "heap_is ?g [(r, False)]"
        using r(1) hb by (simp add: heap_is_def heap_shape_def put_block_def)
      then show thesis by (intro grow [of ?g]) (use True m False hb K(3) in \<open>simp_all add: put_block_def adr_def\<close>)
    qed
  next
    case ne: False
    have hd0: "head h = adr 0" "adr 0 \<noteq> 0" using D(2) ne adr_nonzero [of 0] by simp_all
    have ff: "first_fit (of_nat r) h (adr 0) = Some (if \<exists>c \<in> set xs. fits (of_nat r) c then
        Inr (adr (width (takeWhile (\<lambda>c. \<not> fits (of_nat r) c) xs))) else Inl (adr (width (butlast xs))))"
      using first_fit_is [OF D(3) ne, of "of_nat r"] D(5) by simp
    show thesis
    proof (cases "\<exists>c \<in> set xs. fits (of_nat r) c")
      case True
      obtain n post where F: "xs = takeWhile (\<lambda>c. \<not> fits (of_nat r) c) xs @ (n, True) # post" "(of_nat r :: u64) \<le> of_nat n"
        by (rule split_fit [OF True])
      define pre where "pre = takeWhile (\<lambda>c. \<not> fits (of_nat r) c) xs"
      note F' = F [folded pre_def]
      have w: "width pre + 32 + n \<le> 2 ^ 25" using D(5) by (subst (asm) F'(1)) simp
      have rn: "r \<le> n"
      proof -
        have n: "unat (of_nat n :: u64) = n" by (rule small_unat) (use w in simp)
        have "unat (of_nat r :: u64) = r" by (rule unat_of_nat_small) (use r64 in simp)
        then show ?thesis using F'(2) n by (simp add: word_le_nat_alt)
      qed
      obtain B where B: "place (of_nat r) (adr (width pre)) h = h\<lparr> blocks := B \<rparr>" "heap_shape (h\<lparr> blocks := B \<rparr>) (pre @ split_chunk 40 r n @ post)"
        using place_is [OF S [unfolded F'(1)] rn r(1)] by blast
      have "malloc x h = Some (adr (width pre + 32), h\<lparr> blocks := B \<rparr>)"
        using x0 al hd0 ff True B(1) by (simp add: malloc_def adr_plus pre_def del: SBRK_FAILED_def)
      moreover have "heap_is (h\<lparr> blocks := B \<rparr>) (pre @ split_chunk 40 r n @ post)"
        using B(2) tidy_take T [unfolded F'(1)] by (simp add: heap_is_def)
      ultimately show thesis using fit [OF F'(1) rn] by blast
    next
      case none: False
      have small: "\<forall>c \<in> set xs. snd c \<longrightarrow> fst c < r"
      proof (intro ballI impI, rule ccontr)
        fix c assume c: "c \<in> set xs" "snd c" "\<not> fst c < r"
        obtain p1 p2 where "xs = p1 @ c # p2" using c(1) by (meson split_list)
        then have "fst c \<le> 2 ^ 25" using D(5) by (cases c) simp
        then have "(of_nat r :: u64) \<le> of_nat (fst c)" using c(3) by (subst of_nat_less(2)) simp_all
        then show False using none c(1,2) by (auto simp: fits_def)
      qed
      obtain pre n f where X: "xs = pre @ [(n, f)]" using ne by (metis append_butlast_last_id prod.exhaust)
      have la: "blocks h (adr (width pre)) = \<lparr> blk_size = of_nat n, blk_next = 0, blk_free = f \<rparr>"
        using seg_at [of "blocks h" 0 pre n f "[]" 0] D(3) X by simp
      have nx: "adr (width pre) + 32 + of_nat n = adr (width xs)" using X by (simp add: adr_plus add.assoc)
      have m: "malloc x h = (if q = SBRK_FAILED \<or> q \<noteq> adr (width xs) then Some (0, ?h) else Some (adr (width xs) + 32,
          put_block (adr (width pre)) (\<lparr> blk_size = of_nat n, blk_next = adr (width xs), blk_free = f \<rparr>)
            (put_block (adr (width xs)) \<lparr> blk_size = of_nat r, blk_next = 0, blk_free = False \<rparr> ?h)))"
        using x0 al hd0 ff none K(1) nx la X inc nv by (simp add: malloc_def Let_def del: SBRK_FAILED_def of_nat_add)
      show thesis
      proof (cases "q = SBRK_FAILED")
        case True
        show thesis by (rule full [of ?h]) (use small m True failed K(3) short in simp_all)
      next
        case False
        then have q: "q = adr (width xs)" "width xs + (32 + r) \<le> 2 ^ 25" "arena_is ?h (width xs + (32 + r))" using K(2) by auto
        let ?g = "put_block (adr (width pre)) (\<lparr> blk_size = of_nat n, blk_next = adr (width xs), blk_free = f \<rparr>)
            (put_block (adr (width xs)) \<lparr> blk_size = of_nat r, blk_next = 0, blk_free = False \<rparr> ?h)"
        have wx: "width xs = width pre + (32 + n)" using X by simp
        have ned: "adr (width xs) \<noteq> adr (width pre)" using q(2) wx by (subst adr_eq) auto
        have "seg (blocks h) 0 pre (adr (width pre))" using D(3) X by (simp add: seg_append)
        then have "seg (blocks ?g) 0 pre (adr (width pre))"
          using seg_put [of 0 pre "width pre" "(blocks h)(adr (width xs) := \<lparr> blk_size = of_nat r, blk_next = 0, blk_free = False \<rparr>)"]
            seg_put [of 0 pre "width xs" "blocks h"] q(2) wx by (simp add: put_block_def)
        then have "seg (blocks ?g) 0 (pre @ [(n, f), (r, False)]) 0"
          using ned wx by (simp add: seg_append put_block_def ac_simps)
        then have "seg (blocks ?g) 0 (xs @ [(r, False)]) 0" using X by simp
        then have "heap_is ?g (xs @ [(r, False)])"
          using q(3) D(2,4) ne r(1) tidy_snoc [OF T] by (auto simp: heap_is_def heap_shape_def put_block_def ac_simps)
        then show thesis by (intro grow [of ?g]) (use small m False q K(3) in \<open>simp_all add: put_block_def adr_plus\<close>)
      qed
    qed
  qed
qed

end
