(* ===== verification/HeapFree.thy ===== *)
theory HeapFree
  imports HeapOps
begin

text \<open>
  Release with its merges, and reallocation in place, on the list of blocks.
\<close>

section \<open>Merging\<close>

lemma absorb_next_is:
  assumes H: "heap_shape h (pre @ (n, f) # (m, g) # post)"
  shows "\<exists>B. absorb_next (adr (width pre)) h = h\<lparr> blocks := B \<rparr> \<and> heap_shape (h\<lparr> blocks := B \<rparr>) (pre @ (n + 32 + m, f) # post)"
proof -
  note D = heap_shapeD [OF H]
  have b1: "blocks h (adr (width pre)) = \<lparr> blk_size = of_nat n, blk_next = adr (width pre + 32 + n), blk_free = f \<rparr>"
    using seg_at [OF D(3)] by simp
  have b2: "blocks h (adr (width pre + 32 + n)) = \<lparr> blk_size = of_nat m,
      blk_next = (if post = [] then 0 else adr (width pre + 32 + (n + 32 + m))), blk_free = g \<rparr>"
    using seg_at [of "blocks h" 0 "pre @ [(n, f)]" m g post 0] D(3) by (simp add: ac_simps)
  have s: "(of_nat n :: u64) + (32 + of_nat m) = of_nat (n + 32 + m)" by simp
  have "heap_shape (h\<lparr> blocks := (blocks h)(adr (width pre) := \<lparr> blk_size = of_nat (n + 32 + m),
      blk_next = (if post = [] then 0 else adr (width pre + 32 + (n + 32 + m))), blk_free = f \<rparr>) \<rparr>) (pre @ [(n + 32 + m, f)] @ post)"
    by (rule put_head [where cs = "[(n, f), (m, g)]"]) (use H D(4) [of "(n, f)"] D(4) [of "(m, g)"] in auto)
  then show ?thesis unfolding absorb_next_def Let_def b1 block.simps b2 put_block_def BLOCK_SIZE_def s
    by (intro exI conjI) (rule refl, simp)
qed

lemma adr_aligned: "16 dvd k \<Longrightarrow> k < 2 ^ 46 \<Longrightarrow> adr k AND 0xF = 0"
proof -
  assume k: "16 dvd k" "k < 2 ^ 46"
  have m: "(0xF :: u64) = mask 4" by (simp add: mask_eq_exp_minus_1)
  have "unat (adr k AND mask 4) = (HB + k) mod 16" unfolding and_mask_unat adr_unat [OF k(2)] by simp
  also have "\<dots> = 0" using k(1) by (auto elim!: dvdE)
  finally show ?thesis unfolding m by (simp add: word_unat_eq_iff)
qed

lemma block_of_ptr: "adr (k + 32) - BLOCK_SIZE = adr k"
  by (simp add: adr_def)

lemma ptr_ok:
  assumes "heap_shape h (pre @ (n, f) # post)"
  shows "adr (width pre + 32) \<noteq> 0" "adr (width pre + 32) AND 0xF = 0" "\<not> adr (width pre) < heap_base h" "\<not> heap_end h \<le> adr (width pre)"
proof -
  note D = heap_shapeD [OF assms] and A = arena_isD [OF heap_shapeD(1) [OF assms]]
  have w: "width pre + 32 \<le> 2 ^ 25" "width pre < committed h" using D(5) A(4) by simp_all
  have "16 dvd width pre" by (rule width_dvd) (use D(4) in auto)
  then have "16 dvd width pre + 32" by simp
  then show "adr (width pre + 32) AND 0xF = 0" by (rule adr_aligned) (use w in simp)
  show "adr (width pre + 32) \<noteq> 0" by (rule adr_nonzero) (use w in simp)
  show "\<not> adr (width pre) < heap_base h" using adr_less [of "width pre" 0] w A(1) by (simp add: adr_plus)
  show "\<not> heap_end h \<le> adr (width pre)" using adr_less [of "width pre" "committed h"] w A(5,6) by (simp add: not_le)
qed

section \<open>Release\<close>

fun merge_next :: "nat \<Rightarrow> chunk list \<Rightarrow> nat \<times> chunk list" where
  "merge_next n ((m, True) # post) = (n + 32 + m, post)"
| "merge_next n post = (n, post)"

definition merge_prev :: "chunk list \<Rightarrow> nat \<Rightarrow> chunk list \<Rightarrow> chunk list" where
  "merge_prev pre n post =
     (if pre \<noteq> [] \<and> snd (last pre) then butlast pre @ (fst (last pre) + 32 + n, True) # post else pre @ (n, True) # post)"

lemma merge_tidy:
  assumes "tidy (pre @ (n, False) # post)" "merge_next n post = (n1, post1)"
  shows "tidy (merge_prev pre n1 post1)"
proof -
  have T: "tidy pre" "tidy post" using assms(1) by (cases post; auto simp: tidy_append)+
  have p1: "tidy post1" "post1 = [] \<or> \<not> snd (hd post1)"
    using assms(2) T(2) by (induction n post rule: merge_next.induct) (auto simp: tidy_def successively_Cons)
  have "tidy ((n2, True) # post1)" for n2 using p1 by (cases post1) auto
  moreover have "tidy (butlast pre)" "butlast pre = [] \<or> \<not> snd (last (butlast pre))" if "pre \<noteq> []" "snd (last pre)"
    using T(1) that tidy_append [of "butlast pre" "[last pre]"] by auto
  ultimately show ?thesis using T(1) by (auto simp: merge_prev_def tidy_append)
qed

lemma merge_next_step:
  assumes "heap_shape h (pre @ (n, True) # post)" "merge_next n post = (n1, post1)"
  shows "\<exists>B. join_next (adr (width pre)) h = h\<lparr> blocks := B \<rparr> \<and> heap_shape (h\<lparr> blocks := B \<rparr>) (pre @ (n1, True) # post1)"
proof -
  note D = heap_shapeD [OF assms(1)]
  have b1: "blk_next (blocks h (adr (width pre))) = (if post = [] then 0 else adr (width pre + 32 + n))"
    using seg_at [OF D(3)] by simp
  have keep: "h = h\<lparr> blocks := blocks h \<rparr>" by simp
  show ?thesis
  proof (cases post)
    case Nil
    then show ?thesis using assms b1 by (intro exI [of _ "blocks h"]) (simp add: join_next_def)
  next
    case (Cons c ps)
    obtain m g where c: "c = (m, g)" by fastforce
    have b2: "blk_free (blocks h (adr (width pre + 32 + n))) = g"
      using seg_at [of "blocks h" 0 "pre @ [(n, True)]" m g ps 0] D(3) Cons c by (simp add: ac_simps)
    have nz: "adr (width pre + 32 + n) \<noteq> 0" by (rule adr_nonzero) (use D(5) in simp)
    show ?thesis
    proof (cases g)
      case True
      then show ?thesis using absorb_next_is [of h pre n True m g ps] assms Cons c b1 b2 nz by (auto simp: join_next_def)
    next
      case False
      then show ?thesis using assms b1 b2 Cons c by (intro exI [of _ "blocks h"]) (simp add: join_next_def)
    qed
  qed
qed

lemma hfree_is:
  assumes H: "heap_is h (pre @ (n, False) # post)" and m: "merge_next n post = (n1, post1)"
  shows "\<exists>B. hfree (adr (width pre + 32)) h = Some (h\<lparr> blocks := B \<rparr>) \<and> heap_is (h\<lparr> blocks := B \<rparr>) (merge_prev pre n1 post1)"
proof -
  have S: "heap_shape h (pre @ (n, False) # post)" and T: "tidy (pre @ (n, False) # post)" using H by (simp_all add: heap_is_def)
  note D = heap_shapeD [OF S] and P = ptr_ok [OF S]
  let ?a = "adr (width pre)"
  have b: "blocks h ?a = \<lparr> blk_size = of_nat n, blk_next = (if post = [] then 0 else adr (width pre + 32 + n)), blk_free = False \<rparr>"
    using seg_at [OF D(3)] by simp
  define h1 where "h1 = put_block ?a ((blocks h ?a)\<lparr> blk_free := True \<rparr>) h"
  have h1: "h1 = h\<lparr> blocks := (blocks h)(?a := \<lparr> blk_size = of_nat n, blk_next = (if post = [] then 0 else adr (width pre + 32 + n)), blk_free = True \<rparr>) \<rparr>"
    unfolding h1_def b put_block_def by simp
  have "heap_shape h1 (pre @ [(n, True)] @ post)" unfolding h1
    by (rule put_head [where cs = "[(n, False)]"]) (use S D(4) [of "(n, False)"] in simp_all)
  then have "heap_shape h1 (pre @ (n, True) # post)" by simp
  from merge_next_step [OF this m]
  obtain B2 where B2: "join_next ?a h1 = h1\<lparr> blocks := B2 \<rparr>"
    "heap_shape (h1\<lparr> blocks := B2 \<rparr>) (pre @ (n1, True) # post1)" by blast
  define h2 where "h2 = h1\<lparr> blocks := B2 \<rparr>"
  have e2: "h2 = h\<lparr> blocks := B2 \<rparr>" by (simp add: h2_def h1)
  note D2 = heap_shapeD [OF B2(2) [folded h2_def]]
  have hd2: "head h2 = adr 0" using D2(2) by simp
  have fp: "find_prev ?a h2 (head h2) = Some (if pre = [] then 0 else adr (width (butlast pre)))"
    unfolding hd2 using find_prev_is [of h2 0 pre "(n1, True)" post1] D2(3,5) by simp
  have fr: "hfree (adr (width pre + 32)) h = map_option (\<lambda>prev. join_prev ?a prev h2) (find_prev ?a h2 (head h2))"
    using P b unfolding hfree_def Let_def block_of_ptr h1_def [symmetric] B2(1) h2_def [symmetric] by simp
  show ?thesis
  proof (cases "pre = []")
    case True
    then show ?thesis unfolding fr fp using B2(2) merge_tidy [OF T m] e2 h2_def
      by (intro exI [of _ B2]) (simp add: heap_is_def merge_prev_def join_prev_def)
  next
    case False
    then obtain qs q g where pre: "pre = qs @ [(q, g)]" by (metis append_butlast_last_id prod.exhaust)
    have bp: "blocks h2 (adr (width qs)) = \<lparr> blk_size = of_nat q, blk_next = ?a, blk_free = g \<rparr>"
      using seg_at [of "blocks h2" 0 qs q g "(n1, True) # post1" 0] D2(3) pre by (simp add: add.assoc)
    have bb: "blocks h2 ?a = \<lparr> blk_size = of_nat n1, blk_next = (if post1 = [] then 0 else adr (width pre + 32 + n1)), blk_free = True \<rparr>"
      using seg_at [OF D2(3)] by simp
    have nz: "adr (width qs) \<noteq> 0" by (rule adr_nonzero) (use D2(5) pre in simp)
    show ?thesis
    proof (cases g)
      case g: False
      then show ?thesis unfolding fr fp using B2(2) merge_tidy [OF T m] e2 h2_def pre bp
        by (intro exI [of _ B2]) (simp add: heap_is_def merge_prev_def join_prev_def)
    next
      case g: True
      have s: "(of_nat q :: u64) + (BLOCK_SIZE + of_nat n1) = of_nat (q + 32 + n1)" by simp
      let ?B = "B2(adr (width qs) := \<lparr> blk_size = of_nat (q + 32 + n1), blk_next = (if post1 = [] then 0 else adr (width qs + 32 + (q + 32 + n1))), blk_free = True \<rparr>)"
      have "heap_shape (h2\<lparr> blocks := (blocks h2)(adr (width qs) := \<lparr> blk_size = of_nat (q + 32 + n1),
          blk_next = (if post1 = [] then 0 else adr (width qs + 32 + (q + 32 + n1))), blk_free = True \<rparr>) \<rparr>) (qs @ [(q + 32 + n1, True)] @ post1)"
        by (rule put_head [where cs = "[(q, g), (n1, True)]"])
          (use B2(2) h2_def pre D2(4) [of "(q, g)"] D2(4) [of "(n1, True)"] in \<open>simp_all add: pre\<close>)
      then have sh: "heap_shape (h\<lparr> blocks := ?B \<rparr>) (merge_prev pre n1 post1)"
        using pre g by (simp add: merge_prev_def e2)
      have "hfree (adr (width pre + 32)) h = Some (h\<lparr> blocks := ?B \<rparr>)"
        unfolding fr fp using False pre nz bp bb g s by (simp add: join_prev_def Let_def put_block_def e2 add.assoc)
      then show ?thesis using sh merge_tidy [OF T m] by (intro exI [of _ ?B]) (simp add: heap_is_def)
    qed
  qed
qed

end
