(* ===== verification/HeapLive.thy ===== *)
theory HeapLive
  imports HeapFree
begin

text \<open>
  What a user of the heap knows: the set of live allocations, as pairs of an offset in the arena
  and a size. Every operation is described by what it does to that set.
\<close>

section \<open>Live blocks\<close>

fun live :: "nat \<Rightarrow> chunk list \<Rightarrow> (nat \<times> nat) set" where
  "live k [] = {}"
| "live k ((n, f) # xs) = (if f then {} else {(k + 32, n)}) \<union> live (k + 32 + n) xs"

lemma live_append: "live k (xs @ ys) = live k xs \<union> live (k + width xs) ys"
  by (induction xs arbitrary: k rule: width.induct) (auto simp: ac_simps)

lemma live_bounds: "(l, m) \<in> live k xs \<Longrightarrow> k + 32 \<le> l \<and> l + m \<le> k + width xs"
proof (induction xs arbitrary: k rule: width.induct)
  case (2 n f xs)
  show ?case
  proof (cases "(l, m) \<in> live (k + 32 + n) xs")
    case True
    then show ?thesis using "2.IH" [of "k + 32 + n"] by simp
  next
    case False
    then show ?thesis using 2(2) by (auto split: if_splits)
  qed
qed simp

lemma live_split: "(l, m) \<in> live k xs \<Longrightarrow> \<exists>pre post. xs = pre @ (m, False) # post \<and> l = k + width pre + 32"
proof (induction xs arbitrary: k rule: width.induct)
  case (2 n f xs)
  show ?case
  proof (cases "(l, m) \<in> live (k + 32 + n) xs")
    case True
    then obtain pre post where "xs = pre @ (m, False) # post" "l = k + 32 + n + width pre + 32" using "2.IH" by blast
    then show ?thesis by (intro exI [of _ "(n, f) # pre"] exI [of _ post]) simp
  next
    case False
    then show ?thesis using 2(2) by (intro exI [of _ "[]"] exI [of _ xs]) (auto split: if_splits)
  qed
qed simp

definition apart :: "nat \<times> nat \<Rightarrow> nat \<times> nat \<Rightarrow> bool" where
  "apart a b \<longleftrightarrow> fst a + snd a + 32 \<le> fst b \<or> fst b + snd b + 32 \<le> fst a"

lemma live_apart: "a \<in> live k xs \<Longrightarrow> b \<in> live k xs \<Longrightarrow> a = b \<or> apart a b"
proof (induction xs arbitrary: k rule: width.induct)
  case (2 n f xs)
  have lo: "k + 32 + n + 32 \<le> fst c" if "c \<in> live (k + 32 + n) xs" for c
    using that live_bounds [of "fst c" "snd c" "k + 32 + n" xs] by simp
  let ?c = "(k + 32, n)" and ?R = "live (k + 32 + n) xs"
  have "apart ?c c" "apart c ?c" if "c \<in> ?R" for c using lo [OF that] by (simp_all add: apart_def)
  moreover have "a = ?c \<or> a \<in> ?R" "b = ?c \<or> b \<in> ?R" using 2(2,3) by (auto split: if_splits)
  ultimately show ?case using "2.IH" [of "k + 32 + n"] by blast
qed simp

text \<open>The allocation of a block in the middle, and its end.\<close>

lemma live_middle:
  "live 0 (pre @ cs @ post) = live 0 pre \<union> live (width pre) cs \<union> live (width pre + width cs) post"
  by (simp add: live_append ac_simps Un_assoc)

lemma live_fresh:
  assumes "a \<in> live 0 (pre @ cs @ post)" "a \<notin> live (width pre) cs" "width pre + 32 \<le> l" "l + m \<le> width pre + width cs"
  shows "apart (l, m) a"
proof -
  consider "a \<in> live 0 pre" | "a \<in> live (width pre + width cs) post" using assms(1,2) unfolding live_middle by blast
  then show ?thesis
  proof cases
    case 1
    then show ?thesis using live_bounds [of "fst a" "snd a" 0 pre] assms(3) by (simp add: apart_def)
  next
    case 2
    then show ?thesis using live_bounds [of "fst a" "snd a" "width pre + width cs" post] assms(4) by (simp add: apart_def)
  qed
qed

section \<open>The invariant\<close>

definition heap_inv :: "heap \<Rightarrow> (nat \<times> nat) set \<Rightarrow> bool" where
  "heap_inv h L \<longleftrightarrow> (\<exists>xs. heap_is h xs \<and> live 0 xs = L)"

lemma heap_invI: "heap_is h xs \<Longrightarrow> live 0 xs = L \<Longrightarrow> heap_inv h L"
  by (auto simp: heap_inv_def)

lemma heap_inv_live:
  assumes "heap_inv h L" "(k, n) \<in> L"
  shows "16 dvd k" "16 dvd n" "32 \<le> k" "k + n \<le> committed h" "committed h \<le> 2 ^ 25"
proof -
  obtain xs where xs: "heap_is h xs" "live 0 xs = L" using assms(1) by (auto simp: heap_inv_def)
  have S: "heap_shape h xs" using xs(1) by (simp add: heap_is_def)
  note D = heap_shapeD [OF S] and A = arena_isD [OF heap_shapeD(1) [OF S]]
  obtain pre post where p: "xs = pre @ (n, False) # post" "k = width pre + 32" using live_split assms(2) xs(2) by fastforce
  have "16 dvd width pre" by (rule width_dvd) (use D(4) p(1) in auto)
  then show "16 dvd k" "16 dvd n" using D(4) [of "(n, False)"] p by auto
  show "32 \<le> k" "k + n \<le> committed h" using p A(4) by simp_all
  show "committed h \<le> 2 ^ 25" by (rule A(5))
qed

lemma heap_inv_apart: "heap_inv h L \<Longrightarrow> a \<in> L \<Longrightarrow> b \<in> L \<Longrightarrow> a = b \<or> apart a b"
  unfolding heap_inv_def using live_apart by blast

lemma heap_inv_payload [simp]: "heap_inv (h\<lparr> payload := P \<rparr>) L = heap_inv h L"
  by (simp add: heap_inv_def heap_is_def heap_shape_def)

section \<open>The operations on the live set\<close>

lemma malloc_inv:
  assumes I: "heap_inv h L" and A: "x \<noteq> 0" "ALIGN16 x = of_nat r" "16 dvd r" "r + 2 ^ 25 + 32 < 2 ^ 64"
  obtains p h' where "malloc x h = Some (p, h')" "payload h' = payload h" "same_outside (hp_paging h) (hp_paging h')"
    "p = 0 \<and> heap_inv h' L \<or> (\<exists>k n. p = adr k \<and> r \<le> n \<and> (\<forall>a \<in> L. apart (k, n) a) \<and> heap_inv h' (insert (k, n) L) \<and>
       k + n \<le> 2 ^ 25 \<and> 32 \<le> k)"
proof -
  obtain xs where xs: "heap_is h xs" "live 0 xs = L" using I by (auto simp: heap_inv_def)
  have S: "heap_shape h xs" using xs(1) by (simp add: heap_is_def)
  note W = heap_shapeD(5) [OF S]
  show thesis
  proof (cases rule: malloc_is [OF xs(1) A, case_names fit full grow])
    case (fit pre n post B)
    have w: "width pre + 32 + n \<le> 2 ^ 25" using W fit(1) by simp
    obtain n1 rest where sp: "split_chunk 40 r n = (n1, False) # rest" "r \<le> n1" "n1 \<le> n" "live k rest = {}" for k
      using fit(2) by (cases "40 < n - r") (auto simp: split_chunk_def)
    have wd: "width (split_chunk 40 r n) = width [(n, True)]" by (rule split_chunk_simps) (use fit(2) in simp_all)
    have L: "live 0 pre \<union> live (width pre + (32 + n)) post = L"
      using xs(2) unfolding fit(1) by (simp add: live_append add.assoc)
    have lv: "live 0 (pre @ split_chunk 40 r n @ post) = insert (width pre + 32, n1) L"
      unfolding live_middle wd using sp L by auto
    have ap: "\<forall>a \<in> L. apart (width pre + 32, n1) a"
    proof
      fix a assume a: "a \<in> L"
      then have "a \<in> live 0 (pre @ [(n, True)] @ post)" using xs(2) fit(1) by simp
      then show "apart (width pre + 32, n1) a" by (rule live_fresh) (use sp(3) in simp_all)
    qed
    have "heap_inv (h\<lparr> blocks := B \<rparr>) (insert (width pre + 32, n1) L)" by (rule heap_invI [OF fit(4) lv])
    then show thesis using that [OF fit(3)] sp(2,3) ap w same_outside_refl by force
  next
    case (full h')
    then show thesis using that [OF full(2)] heap_invI [OF full(3) xs(2)] by blast
  next
    case (grow h')
    have lv: "live 0 (xs @ [(r, False)]) = insert (width xs + 32, r) L" using xs(2) by (simp add: live_append)
    have ap: "\<forall>a \<in> L. apart (width xs + 32, r) a"
    proof
      fix a assume "a \<in> L"
      then show "apart (width xs + 32, r) a" using live_bounds [of "fst a" "snd a" 0 xs] xs(2) by (simp add: apart_def)
    qed
    have "heap_shape h' (xs @ [(r, False)])" using grow(3) by (simp add: heap_is_def)
    then have "width xs + 32 + r \<le> 2 ^ 25" using heap_shapeD(5) by fastforce
    then show thesis using that [OF grow(2,4,5)] heap_invI [OF grow(3) lv] ap by force
  qed
qed

text \<open>A free block of at least \<open>m\<close> bytes serves every request of up to \<open>m\<close> bytes.\<close>

lemma malloc_reuses:
  assumes H: "heap_is h xs" and A: "x \<noteq> 0" "ALIGN16 x = of_nat r" "16 dvd r" "r + 2 ^ 25 + 32 < 2 ^ 64"
    and c: "(m, True) \<in> set xs" "r \<le> m"
  shows "\<exists>p h'. malloc x h = Some (p, h') \<and> p \<noteq> 0"
proof (cases rule: malloc_is [OF H A, case_names fit full grow])
  case (fit pre n post B)
  have "heap_shape h xs" using H by (simp add: heap_is_def)
  then have "adr (width pre + 32) \<noteq> 0" using heap_shapeD(5) [of h xs] fit(1) by (intro adr_nonzero) simp
  then show ?thesis using fit(3) by blast
qed (use c in force)+

lemma merge_next_is: "merge_next n post = (n1, post1) \<Longrightarrow> n \<le> n1 \<and> width ((n1, True) # post1) = width ((n, True) # post) \<and>
    live (k + 32 + n1) post1 = live (k + 32 + n) post"
  by (induction n post rule: merge_next.induct) (auto simp: ac_simps)

lemma merge_prev_is:
  "live 0 (merge_prev pre n post) = live 0 pre \<union> live (width pre + 32 + n) post"
  "\<exists>m \<ge> n. (m, True) \<in> set (merge_prev pre n post)"
proof -
  have P: "live 0 pre = live 0 (butlast pre)" "width pre = width (butlast pre) + 32 + fst (last pre)" if "pre \<noteq> [] \<and> snd (last pre)"
  proof -
    have p: "pre = butlast pre @ [(fst (last pre), True)]" using that by (metis append_butlast_last_id prod.collapse)
    have "live 0 pre = live 0 (butlast pre @ [(fst (last pre), True)])" using p by simp
    then show "live 0 pre = live 0 (butlast pre)" unfolding live_append by simp
    have "width pre = width (butlast pre @ [(fst (last pre), True)])" using p by simp
    then show "width pre = width (butlast pre) + 32 + fst (last pre)" by simp
  qed
  show "live 0 (merge_prev pre n post) = live 0 pre \<union> live (width pre + 32 + n) post"
  proof (cases "pre \<noteq> [] \<and> snd (last pre)")
    case True
    have w: "width (butlast pre) + (32 + (fst (last pre) + 32 + n)) = width pre + 32 + n" using P(2) [OF True] by simp
    have "live 0 (merge_prev pre n post) = live 0 (butlast pre) \<union> live (width (butlast pre) + (32 + (fst (last pre) + 32 + n))) post"
      using True by (simp add: merge_prev_def live_append add.assoc)
    then show ?thesis unfolding w P(1) [OF True] .
  next
    case False
    then show ?thesis by (auto simp: merge_prev_def live_append)
  qed
  have "(fst (last pre) + 32 + n, True) \<in> set (merge_prev pre n post)" if "pre \<noteq> [] \<and> snd (last pre)"
    using that by (simp add: merge_prev_def)
  moreover have "(n, True) \<in> set (merge_prev pre n post)" if "\<not> (pre \<noteq> [] \<and> snd (last pre))"
    using that by (auto simp: merge_prev_def)
  ultimately show "\<exists>m \<ge> n. (m, True) \<in> set (merge_prev pre n post)" by (meson le_add2 le_refl)
qed

lemma hfree_inv:
  assumes I: "heap_inv h L" and l: "(k, n) \<in> L"
  obtains B xs m where "hfree (adr k) h = Some (h\<lparr> blocks := B \<rparr>)" "heap_inv (h\<lparr> blocks := B \<rparr>) (L - {(k, n)})"
    "heap_is (h\<lparr> blocks := B \<rparr>) xs" "(m, True) \<in> set xs" "n \<le> m"
proof -
  obtain xs where xs: "heap_is h xs" "live 0 xs = L" using I by (auto simp: heap_inv_def)
  obtain pre post where p: "xs = pre @ (n, False) # post" "k = width pre + 32" using live_split [of k n 0 xs] l xs(2) by auto
  obtain n1 post1 where m: "merge_next n post = (n1, post1)" by fastforce
  note M = merge_next_is [OF m, of "width pre"]
  obtain B where B: "hfree (adr k) h = Some (h\<lparr> blocks := B \<rparr>)" "heap_is (h\<lparr> blocks := B \<rparr>) (merge_prev pre n1 post1)"
    using hfree_is [OF xs(1) [unfolded p(1)] m] p(2) by blast
  have L: "L = insert (k, n) (live 0 pre \<union> live (width pre + 32 + n) post)"
    using xs(2) p by (auto simp: live_append ac_simps)
  have "(k, n) \<notin> live 0 pre" "(k, n) \<notin> live (width pre + 32 + n) post"
    using live_bounds [of k n 0 pre] live_bounds [of k n "width pre + 32 + n" post] p(2) by auto
  then have "live 0 (merge_prev pre n1 post1) = L - {(k, n)}" unfolding merge_prev_is(1) using L M by auto
  moreover obtain m where "n1 \<le> m" "(m, True) \<in> set (merge_prev pre n1 post1)" using merge_prev_is(2) by blast
  ultimately show thesis using that [OF B(1) heap_invI [OF B(2)] B(2)] M by auto
qed

end
