(* ===== verification/HeapRealloc.thy ===== *)
theory HeapRealloc
  imports HeapLive
begin

text \<open>
  Reallocation and zeroed allocation: what becomes of the live blocks and of the bytes in them.
\<close>

section \<open>Copying\<close>

lemma adr_diff: "a - adr k = of_nat (l - k)" if "a = adr l" "k \<le> l"
  using that by (simp add: adr_def of_nat_diff)

lemma adr_in:
  assumes "k < 2 ^ 45" "l < 2 ^ 45" "n < 2 ^ 45"
  shows "adr l - adr k < of_nat n \<longleftrightarrow> k \<le> l \<and> l < k + n"
proof (cases "k \<le> l")
  case True
  have e: "adr l - adr k = of_nat (l - k)" by (rule adr_diff [OF refl True])
  have "(of_nat (l - k) < (of_nat n :: u64)) = (l - k < n)" by (rule of_nat_less(1)) (use assms in simp_all)
  then show ?thesis unfolding e using True by auto
next
  case False
  have "adr l < adr k" using False assms by (simp add: adr_less)
  then have "unat (adr l - adr k) = 2 ^ 64 + unat (adr l) - unat (adr k)" by (simp add: unat_sub_if_size word_size word_less_nat_alt)
  also have "\<dots> = 2 ^ 64 + l - k" using assms by (simp add: adr_unat)
  finally have "n < unat (adr l - adr k)" using assms by simp
  then have "\<not> adr l - adr k < of_nat n" using small_unat [of n] assms(3) by (simp add: word_less_nat_alt)
  then show ?thesis using False by simp
qed

lemma memcpy_payload:
  assumes "k < 2 ^ 45" "j < 2 ^ 45" "l < 2 ^ 45" "n < 2 ^ 45"
  shows "payload (memcpy (adr k) (adr j) (of_nat n) h) (adr l) = (if k \<le> l \<and> l < k + n then payload h (adr (j + (l - k))) else payload h (adr l))"
proof (cases "k \<le> l \<and> l < k + n")
  case True
  have "adr l - adr k = of_nat (l - k)" by (rule adr_diff [OF refl]) (use True in simp)
  then have "adr j + (adr l - adr k) = adr (j + (l - k))" by (simp only: adr_plus(1))
  then show ?thesis using True adr_in [OF assms(1,3,4)] by (simp add: memcpy_def)
next
  case False
  then have "\<not> adr l - adr k < of_nat n" using adr_in [OF assms(1,3,4)] by blast
  then show ?thesis unfolding if_not_P [OF False] memcpy_def by simp
qed

section \<open>In place\<close>

lemma shrink_is:
  assumes H: "heap_is h (pre @ (n, False) # post)" and r: "r \<le> n" "16 dvd r"
  shows "\<exists>B m post1. shrink (of_nat r) (adr (width pre)) h = h\<lparr> blocks := B \<rparr> \<and> heap_is (h\<lparr> blocks := B \<rparr>) (pre @ (m, False) # post1) \<and>
    r \<le> m \<and> m \<le> n \<and> live (width pre + 32 + m) post1 = live (width pre + 32 + n) post"
proof -
  have S: "heap_shape h (pre @ (n, False) # post)" and T: "tidy (pre @ (n, False) # post)" using H by (simp_all add: heap_is_def)
  note D = heap_shapeD [OF S]
  have w: "width pre + 32 + n \<le> 2 ^ 25" using D(5) by simp
  have hd: "blocks h (adr (width pre)) = \<lparr> blk_size = of_nat n, blk_next = (if post = [] then 0 else adr (width pre + 32 + n)), blk_free = False \<rparr>"
    using seg_at [OF D(3)] by simp
  have lo: "(of_nat n :: u64) - of_nat r = of_nat (n - r)" using r(1) by simp
  have th: "(48 < (of_nat (n - r) :: u64)) = (48 < n - r)" using of_nat_less(1) [of 48 "n - r"] w by simp
  have nb: "adr (width pre) + 32 + of_nat r = adr (width pre + 32 + r)" by (simp add: adr_plus)
  show ?thesis
  proof (cases "48 < n - r")
    case False
    then have "shrink (of_nat r) (adr (width pre)) h = h" by (simp add: shrink_def hd lo th)
    then show ?thesis using H r by (intro exI [of _ "blocks h"] exI [of _ n] exI [of _ post]) simp
  next
    case True
    define g where "g = h\<lparr> blocks := (blocks h)(adr (width pre + 32 + r) := \<lparr> blk_size = of_nat (n - r) - 32,
        blk_next = (if post = [] then 0 else adr (width pre + 32 + n)), blk_free = True \<rparr>,
      adr (width pre) := \<lparr> blk_size = of_nat r, blk_next = adr (width pre + 32 + r), blk_free = False \<rparr>) \<rparr>"
    have cut: "heap_shape g ((pre @ [(r, False)]) @ (n - r - 32, True) # post)"
      unfolding g_def using cut_block [OF S r] True by simp
    obtain n1 post1 where m: "merge_next (n - r - 32) post = (n1, post1)" by fastforce
    have wp: "width (pre @ [(r, False)]) = width pre + 32 + r" by simp
    obtain B where B: "join_next (adr (width pre + 32 + r)) g = g\<lparr> blocks := B \<rparr>"
      "heap_shape (g\<lparr> blocks := B \<rparr>) ((pre @ [(r, False)]) @ (n1, True) # post1)"
      using merge_next_step [OF cut m] unfolding wp by blast
    have "tidy ((pre @ [(r, False)]) @ (n - r - 32, False) # post)" using T by (cases post) (auto simp: tidy_append)
    from merge_tidy [OF this m] have ty: "tidy ((pre @ [(r, False)]) @ (n1, True) # post1)" by (simp add: merge_prev_def)
    have sh: "shrink (of_nat r) (adr (width pre)) h = join_next (adr (width pre + 32 + r)) g"
      unfolding shrink_def Let_def hd block.simps BLOCK_SIZE_def lo nb put_block_def g_def using True th by simp
    have gb: "g\<lparr> blocks := B \<rparr> = h\<lparr> blocks := B \<rparr>" by (simp add: g_def)
    have e: "width pre + 32 + r + 32 + (n - r - 32) = width pre + 32 + n" using True by simp
    have "live (width pre + 32 + r) ((n1, True) # post1) = live (width pre + 32 + n) post"
      using merge_next_is [OF m, of "width pre + 32 + r"] unfolding e by simp
    moreover have "heap_is (h\<lparr> blocks := B \<rparr>) (pre @ (r, False) # (n1, True) # post1)" using B(2) gb ty by (simp add: heap_is_def)
    moreover have "shrink (of_nat r) (adr (width pre)) h = h\<lparr> blocks := B \<rparr>" using sh B(1) gb by simp
    ultimately show ?thesis using r(1) by blast
  qed
qed

text \<open>The free block behind is taken over whole.\<close>

lemma take_next_is:
  assumes H: "heap_is h (pre @ (n, False) # (m, True) # post)"
  defines "b \<equiv> blocks h (adr (width pre))"
  defines "nb \<equiv> blocks h (blk_next b)"
  shows "blk_size b + BLOCK_SIZE + blk_size nb = of_nat (n + 32 + m)"
    "heap_is (put_block (adr (width pre)) (b\<lparr> blk_size := of_nat (n + 32 + m), blk_next := blk_next nb \<rparr>) h) (pre @ (n + 32 + m, False) # post)"
proof -
  have S: "heap_shape h (pre @ (n, False) # (m, True) # post)" and T: "tidy (pre @ (n, False) # (m, True) # post)" using H by (simp_all add: heap_is_def)
  note D = heap_shapeD [OF S]
  have b1: "b = \<lparr> blk_size = of_nat n, blk_next = adr (width pre + 32 + n), blk_free = False \<rparr>"
    unfolding b_def using seg_at [OF D(3)] by simp
  have b2: "nb = \<lparr> blk_size = of_nat m, blk_next = (if post = [] then 0 else adr (width pre + 32 + (n + 32 + m))), blk_free = True \<rparr>"
    unfolding nb_def b1 using seg_at [of "blocks h" 0 "pre @ [(n, False)]" m True post 0] D(3) by (simp add: ac_simps)
  show "blk_size b + BLOCK_SIZE + blk_size nb = of_nat (n + 32 + m)" by (simp add: b1 b2)
  have "heap_shape (h\<lparr> blocks := (blocks h)(adr (width pre) := \<lparr> blk_size = of_nat (n + 32 + m),
      blk_next = (if post = [] then 0 else adr (width pre + 32 + (n + 32 + m))), blk_free = False \<rparr>) \<rparr>) (pre @ [(n + 32 + m, False)] @ post)"
    by (rule put_head [where cs = "[(n, False), (m, True)]"]) (use S D(4) [of "(n, False)"] D(4) [of "(m, True)"] in auto)
  moreover have "tidy (pre @ (n + 32 + m, False) # post)" using T by (cases post) (auto simp: tidy_append)
  ultimately show "heap_is (put_block (adr (width pre)) (b\<lparr> blk_size := of_nat (n + 32 + m), blk_next := blk_next nb \<rparr>) h) (pre @ (n + 32 + m, False) # post)"
    by (simp add: heap_is_def b1 b2 put_block_def)
qed

section \<open>Reallocation\<close>

text \<open>The bytes of a block.\<close>

definition same_bytes :: "heap \<Rightarrow> nat \<Rightarrow> heap \<Rightarrow> nat \<Rightarrow> nat \<Rightarrow> bool" where
  "same_bytes h k h' k' n \<longleftrightarrow> (\<forall>i < n. payload h' (adr (k' + i)) = payload h (adr (k + i)))"

definition moved :: "heap \<Rightarrow> heap \<Rightarrow> (nat \<times> nat) set \<Rightarrow> nat \<times> nat \<Rightarrow> nat \<times> nat \<Rightarrow> bool" where
  "moved h h' L old new \<longleftrightarrow> heap_inv h' (insert new (L - {old})) \<and> (\<forall>a \<in> L - {old}. apart new a) \<and>
     same_bytes h (fst old) h' (fst new) (min (snd old) (snd new)) \<and> (\<forall>a \<in> L - {old}. same_bytes h (fst a) h' (fst a) (snd a))"

lemma apart_irrefl: "\<not> apart a a"
  by (simp add: apart_def)

lemma moved_in_place:
  assumes "heap_inv h L" "heap_is h' (pre @ (m, False) # post)" "payload h' = payload h"
    "L = insert (width pre + 32, n) (live 0 pre \<union> live (width pre + 32 + n) post0)" "live (width pre + 32 + m) post = live (width pre + 32 + n) post0"
  shows "moved h h' L (width pre + 32, n) (width pre + 32, m)"
proof -
  let ?R = "live 0 pre \<union> live (width pre + 32 + n) post0"
  have "(width pre + 32, n) \<notin> live 0 pre" "(width pre + 32, n) \<notin> live (width pre + 32 + n) post0"
    using live_bounds [of "width pre + 32" n 0 pre] live_bounds [of "width pre + 32" n "width pre + 32 + n" post0] by auto
  then have R: "L - {(width pre + 32, n)} = ?R" using assms(4) by auto
  have lv: "live 0 (pre @ (m, False) # post) = insert (width pre + 32, m) ?R"
    using assms(5) by (auto simp: live_append add.assoc)
  have "apart (width pre + 32, m) a" if "a \<in> ?R" for a
  proof -
    have "a \<in> live 0 pre \<or> a \<in> live (width pre + 32 + m) post" using that assms(5) by simp
    then show ?thesis using live_bounds [of "fst a" "snd a" 0 pre] live_bounds [of "fst a" "snd a" "width pre + 32 + m" post] by (auto simp: apart_def)
  qed
  then show ?thesis using heap_invI [OF assms(2) lv] R assms(3) by (simp add: moved_def same_bytes_def)
qed

lemma realloc_inv:
  assumes I: "heap_inv h L" and l: "(k, n) \<in> L" and A: "0 < unat x" "unat x + 2 ^ 26 \<le> 2 ^ 64"
  obtains p h' where "realloc (adr k) x h = Some (p, h')"
    "p = 0 \<and> heap_inv h' L \<and> payload h' = payload h \<or> (\<exists>k' m. p = adr k' \<and> unat x \<le> m \<and> moved h h' L (k, n) (k', m))"
proof -
  define r where "r = up16 (unat x)"
  have r: "x \<noteq> 0" "ALIGN16 x = of_nat r" "16 dvd r" "r + 2 ^ 25 + 32 < 2 ^ 64" using ALIGN16_small [OF A] by (simp_all add: r_def)
  have xr: "unat x \<le> r" unfolding r_def by (rule up16(2))
  obtain xs where xs: "heap_is h xs" "live 0 xs = L" using I by (auto simp: heap_inv_def)
  obtain pre post where p: "xs = pre @ (n, False) # post" "k = width pre + 32" using live_split [of k n 0 xs] l xs(2) by auto
  have H: "heap_is h (pre @ (n, False) # post)" using xs(1) p(1) by simp
  have S: "heap_shape h (pre @ (n, False) # post)" using H by (simp add: heap_is_def)
  note D = heap_shapeD [OF S] and P = ptr_ok [OF S]
  have w: "width pre + 32 + n \<le> 2 ^ 25" using D(5) by simp
  have L: "L = insert (width pre + 32, n) (live 0 pre \<union> live (width pre + 32 + n) post)"
    using xs(2) p by (auto simp: live_append ac_simps)
  let ?b = "blocks h (adr (width pre))"
  have b: "?b = \<lparr> blk_size = of_nat n, blk_next = (if post = [] then 0 else adr (width pre + 32 + n)), blk_free = False \<rparr>"
    using seg_at [OF D(3)] by simp
  have nu: "unat (of_nat n :: u64) = n" by (rule small_unat) (use w in simp)
  have ru: "unat (of_nat r :: u64) = r" by (rule unat_of_nat_small) (use r(4) in simp)
  have le: "((of_nat r :: u64) \<le> of_nat n) = (r \<le> n)" by (simp add: word_le_nat_alt nu ru)
  let ?nb = "blocks h (blk_next ?b)"
  let ?comb = "blk_size ?b + BLOCK_SIZE + blk_size ?nb"
  have re: "realloc (adr k) x h = (if of_nat r \<le> blk_size ?b then Some (adr k, shrink (of_nat r) (adr (width pre)) h)
      else if blk_next ?b \<noteq> 0 \<and> blk_free ?nb \<and> of_nat r \<le> ?comb
      then Some (adr k, put_block (adr (width pre)) (?b\<lparr> blk_size := ?comb, blk_next := blk_next ?nb \<rparr>) h)
      else Option.bind (malloc (of_nat r) h) (\<lambda>(new_ptr, h1). if new_ptr = 0 then Some (0, h1)
        else map_option (Pair new_ptr) (hfree (adr k) (memcpy new_ptr (adr k) (blk_size ?b) h1))))"
    using P r unfolding realloc_def Let_def p(2) block_of_ptr by simp
  show thesis
  proof (cases "r \<le> n")
    case True
    obtain B m post1 where B: "shrink (of_nat r) (adr (width pre)) h = h\<lparr> blocks := B \<rparr>" "heap_is (h\<lparr> blocks := B \<rparr>) (pre @ (m, False) # post1)"
      "r \<le> m" "m \<le> n" "live (width pre + 32 + m) post1 = live (width pre + 32 + n) post"
      using shrink_is [OF H True r(3)] by blast
    have "moved h (h\<lparr> blocks := B \<rparr>) L (k, n) (k, m)"
      unfolding p(2) by (rule moved_in_place [OF I B(2) _ L B(5)]) simp
    moreover have "realloc (adr k) x h = Some (adr k, h\<lparr> blocks := B \<rparr>)" unfolding re b using le True B(1) by simp
    ultimately show thesis using that [of "adr k" "h\<lparr> blocks := B \<rparr>"] B(3) xr le_trans by blast
  next
    case False
    show thesis
    proof (cases "blk_next ?b \<noteq> 0 \<and> blk_free ?nb \<and> of_nat r \<le> ?comb")
      case True
      then have "post \<noteq> []" using b by auto
      then obtain m g post1 where post: "post = (m, g) # post1" by (metis list.exhaust prod.exhaust)
      have "blocks h (adr (width pre + 32 + n)) = \<lparr> blk_size = of_nat m, blk_next = (if post1 = [] then 0 else adr (width pre + 32 + n + 32 + m)), blk_free = g \<rparr>"
        using seg_at [of "blocks h" 0 "pre @ [(n, False)]" m g post1 0] D(3) post by (simp add: ac_simps)
      then have g: "g" using True b post by simp
      have H1: "heap_is h (pre @ (n, False) # (m, True) # post1)" using H post g by simp
      note N = take_next_is [OF H1]
      let ?h = "put_block (adr (width pre)) (?b\<lparr> blk_size := of_nat (n + 32 + m), blk_next := blk_next ?nb \<rparr>) h"
      have wm: "n + 32 + m < 2 ^ 46" using D(5) post by simp
      have "of_nat r \<le> ?comb" using True by blast
      then have "unat (of_nat r :: u64) \<le> unat (of_nat (n + 32 + m) :: u64)" unfolding N(1) by (simp only: word_le_nat_alt)
      then have rm: "r \<le> n + 32 + m" unfolding ru small_unat [OF wm] .
      have lv: "live (width pre + 32 + (n + 32 + m)) post1 = live (width pre + 32 + n) post" using post g by (simp add: ac_simps)
      have "moved h ?h L (k, n) (k, n + 32 + m)"
        unfolding p(2) by (rule moved_in_place [OF I N(2) _ L lv]) (simp add: put_block_def)
      moreover have "realloc (adr k) x h = Some (adr k, ?h)" unfolding re using le False True b N(1) by simp
      ultimately show thesis using that [of "adr k" ?h] rm xr le_trans by blast
    next
      case no: False
      have A2: "(of_nat r :: u64) \<noteq> 0" "ALIGN16 (of_nat r) = of_nat r"
      proof -
        show "(of_nat r :: u64) \<noteq> 0" using ru xr A(1) by (metis le_zero_eq less_numeral_extra(3) unat_0)
        have "unat (of_nat r :: u64) + 15 < 2 ^ 64" using ru r(4) by simp
        from ALIGN16_is [OF this] show "ALIGN16 (of_nat r) = of_nat r" using ru up16_id [OF r(3)] by simp
      qed
      obtain q h1 where M: "malloc (of_nat r) h = Some (q, h1)" "payload h1 = payload h"
        "q = 0 \<and> heap_inv h1 L \<or> (\<exists>k' m. q = adr k' \<and> r \<le> m \<and> (\<forall>a \<in> L. apart (k', m) a) \<and> heap_inv h1 (insert (k', m) L) \<and>
           k' + m \<le> 2 ^ 25 \<and> 32 \<le> k')"
        by (rule malloc_inv [OF I A2 r(3,4)]) blast
      have re2: "realloc (adr k) x h = (if q = 0 then Some (0, h1) else map_option (Pair q) (hfree (adr k) (memcpy q (adr k) (of_nat n) h1)))"
      proof -
        have c1: "\<not> of_nat r \<le> blk_size ?b" using le False b by simp
        have bs: "blk_size ?b = of_nat n" by (simp add: b)
        show ?thesis unfolding re unfolding if_not_P [OF c1] if_not_P [OF no] unfolding bs by (simp add: M(1))
      qed
      show thesis
      proof (cases "q = 0")
        case True
        have "adr k' \<noteq> 0" if "k' + m \<le> 2 ^ 25" for k' m using that by (intro adr_nonzero) simp
        then have "heap_inv h1 L" using M(3) True by metis
        then show thesis using that [of 0 h1] re2 True M(2) by simp
      next
        case False
        then obtain k' m where Q: "q = adr k'" "r \<le> m" "\<forall>a \<in> L. apart (k', m) a" "heap_inv h1 (insert (k', m) L)" "k' + m \<le> 2 ^ 25"
          using M(3) by blast
        let ?c = "memcpy q (adr k) (of_nat n) h1"
        have k2: "k + n \<le> 2 ^ 25" using w p(2) by simp
        have pc: "payload ?c (adr i) = (if k' \<le> i \<and> i < k' + n then payload h (adr (k + (i - k'))) else payload h (adr i))" if "i < 2 ^ 45" for i
          unfolding Q(1) M(2) [symmetric] by (rule memcpy_payload) (use k2 Q(5) that in simp_all)
        have ci: "heap_inv ?c (insert (k', m) L)" using Q(4) by (simp add: memcpy_def)
        have "(k, n) \<in> insert (k', m) L" using l by simp
        then obtain B where B: "hfree (adr k) ?c = Some (?c\<lparr> blocks := B \<rparr>)" "heap_inv (?c\<lparr> blocks := B \<rparr>) (insert (k', m) L - {(k, n)})"
          by (rule hfree_inv [OF ci]) blast
        let ?h = "?c\<lparr> blocks := B \<rparr>"
        have "(k', m) \<noteq> (k, n)" using Q(3) l apart_irrefl by metis
        then have "insert (k', m) L - {(k, n)} = insert (k', m) (L - {(k, n)})" by blast
        then have inv: "heap_inv ?h (insert (k', m) (L - {(k, n)}))" using B(2) by simp
        have nm: "n < m" using Q(2) \<open>\<not> r \<le> n\<close> by simp
        have new: "same_bytes h k ?h k' (min n m)"
          unfolding same_bytes_def
        proof (intro allI impI)
          fix i assume i: "i < min n m"
          then have "payload ?c (adr (k' + i)) = payload h (adr (k + (k' + i - k')))" using pc [of "k' + i"] Q(5) nm by simp
          then show "payload ?h (adr (k' + i)) = payload h (adr (k + i))" by simp
        qed
        have old: "same_bytes h (fst a) ?h (fst a) (snd a)" if a: "a \<in> L" for a
          unfolding same_bytes_def
        proof (intro allI impI)
          fix i assume i: "i < snd a"
          have ap: "apart (k', m) a" using Q(3) a by blast
          have "fst a + snd a \<le> 2 ^ 25"
            using heap_inv_live(4,5) [OF I, of "fst a" "snd a"] a by simp
          then have "fst a + i < 2 ^ 45" using i by simp
          then have "payload ?c (adr (fst a + i)) = payload h (adr (fst a + i))"
            using pc [of "fst a + i"] ap i nm by (auto simp: apart_def)
          then show "payload ?h (adr (fst a + i)) = payload h (adr (fst a + i))" by simp
        qed
        have mv: "moved h ?h L (k, n) (k', m)" using inv new old Q(3) by (simp add: moved_def)
        have "realloc (adr k) x h = Some (q, ?h)" using re2 False B(1) by simp
        then show thesis using that [of q ?h] mv Q(1,2) xr le_trans by blast
      qed
    qed
  qed
qed

end
