(* ===== verification/HeapProps.thy ===== *)
theory HeapProps
  imports HeapRealloc
begin

text \<open>
  The properties of the kernel heap, from its start-up to sequences of calls, and what becomes of
  sizes at the end of their type.
\<close>

section \<open>Start-up\<close>

lemma heap_init_is:
  assumes "tables_ok (hp_paging h)" "ram_ok (hp_paging h)" "head h = 0"
  obtains (ok) h' where "heap_init h = Some (0, h')" "heap_inv h' {}" "committed h' = 8 * 4096" "heap_break h' = adr 0"
      "same_outside (hp_paging h) (hp_paging h')"
  | (panic) "heap_init h = None" "\<not> ((\<forall>j < 8192. no_huge (hp_paging h) (heap_page j)) \<and> 32 \<le> card (frees (frames (hp_paging h))))"
proof -
  let ?h = "h\<lparr> heap_base := HEAP_VIRT_BASE, heap_end := HEAP_VIRT_BASE, heap_break := HEAP_VIRT_BASE \<rparr>"
  have p0: "heap_page 0 = HEAP_VIRT_BASE" by (simp add: arena_page_va_def)
  have b: "backed (hp_paging ?h) 0 id" using assms(1,2) by (auto intro: backedI)
  have he: "heap_end ?h = heap_page 0" using p0 by simp
  obtain st s n' fr' where C: "commit_loop (heap_page 8) (heap_page 0) ?h = Some (st, ?h\<lparr> hp_paging := s, heap_end := heap_page n' \<rparr>)"
    "backed s n' fr'" "n' \<le> 8" "st = 0 \<longleftrightarrow> n' = 8" "same_outside (hp_paging ?h) s"
    "\<forall>j < 8192. no_huge (hp_paging ?h) (heap_page j) \<Longrightarrow> 4 * (8 - 0) \<le> card (frees (frames (hp_paging ?h))) \<Longrightarrow> n' = 8"
    by (rule commit_loop_is [OF b _ _ he, of 8]) (simp, simp, blast)
  have e8: "heap_page 8 = 0xFFFF910000008000" by (simp add: arena_page_va_def)
  have "heap_commit_to 0xFFFF910000008000 ?h = Some (st, ?h\<lparr> hp_paging := s, heap_end := heap_page n' \<rparr>)"
    using C(1) unfolding e8 p0 by (simp add: heap_commit_to_def)
  then have hi: "heap_init h = (if st \<noteq> 0 then None else Some (0, ?h\<lparr> hp_paging := s, heap_end := heap_page n' \<rparr>))"
    by (simp add: heap_init_def Let_def)
  show thesis
  proof (cases "st = 0")
    case True
    let ?g = "?h\<lparr> hp_paging := s, heap_end := heap_page n' \<rparr>"
    have n: "n' = 8" using C(4) True by simp
    have "arena_is ?g 0" unfolding arena_is_def
      by (intro conjI exI [of _ n'] exI [of _ fr']) (use C(2) n in \<open>simp_all add: adr_def\<close>)
    then have "heap_is ?g []" using assms(3) by (simp add: heap_is_def heap_shape_def)
    then have "heap_inv ?g {}" by (rule heap_invI) simp
    moreover have "committed ?g = 8 * 4096" using n by (simp add: committed_def arena_page_va_def)
    ultimately show thesis by (intro ok [of ?g]) (use hi True C(5) in \<open>simp_all add: adr_def\<close>)
  next
    case False
    then show thesis using panic hi C(4,6) by auto
  qed
qed

section \<open>Sequences of calls\<close>

text \<open>
  The heap and what its users hold: the pointers, each with the size that was asked for. Requests
  are at most 2^64 - 2^26, see \<open>malloc_size_wraps\<close> for what is above; a size of 0 asks \<open>realloc\<close> to
  release. Users write what they like into their blocks.
\<close>

inductive heap_step :: "heap \<times> (u64 \<rightharpoonup> nat) \<Rightarrow> heap \<times> (u64 \<rightharpoonup> nat) \<Rightarrow> bool" where
  step_malloc: "unat x + 2 ^ 26 \<le> 2 ^ 64 \<Longrightarrow> malloc x h = Some (p, h') \<Longrightarrow> heap_step (h, P) (h', if p = 0 then P else P(p \<mapsto> unat x))"
| step_calloc: "unat x * unat y + 2 ^ 26 \<le> 2 ^ 64 \<Longrightarrow> calloc x y h = Some (p, h') \<Longrightarrow>
    heap_step (h, P) (h', if p = 0 then P else P(p \<mapsto> unat x * unat y))"
| step_free: "p \<in> dom P \<Longrightarrow> hfree p h = Some h' \<Longrightarrow> heap_step (h, P) (h', P(p := None))"
| step_realloc: "p \<in> dom P \<Longrightarrow> 0 < unat x \<Longrightarrow> unat x + 2 ^ 26 \<le> 2 ^ 64 \<Longrightarrow> realloc p x h = Some (q, h') \<Longrightarrow>
    heap_step (h, P) (h', if q = 0 then P else P(p := None, q \<mapsto> unat x))"
| step_release: "p \<in> dom P \<Longrightarrow> realloc p 0 h = Some (q, h') \<Longrightarrow> heap_step (h, P) (h', P(p := None))"
| step_write: "heap_step (h, P) (h\<lparr> payload := Q \<rparr>, P)"

inductive_cases heap_stepE: "heap_step (h, P) (h', P')"

definition pointers :: "(nat \<times> nat) set \<Rightarrow> u64 set" where
  "pointers L = (\<lambda>a. adr (fst a)) ` L"

definition sized :: "(u64 \<rightharpoonup> nat) \<Rightarrow> (nat \<times> nat) set \<Rightarrow> bool" where
  "sized P L \<longleftrightarrow> dom P = pointers L \<and> (\<forall>a \<in> L. \<exists>m \<le> snd a. P (adr (fst a)) = Some m)"

definition held :: "heap \<times> (u64 \<rightharpoonup> nat) \<Rightarrow> bool" where
  "held s \<longleftrightarrow> (\<exists>L. heap_inv (fst s) L \<and> sized (snd s) L)"

lemma pointers_inj: "heap_inv h L \<Longrightarrow> inj_on (\<lambda>a. adr (fst a)) L"
proof (rule inj_onI)
  fix a b assume I: "heap_inv h L" "a \<in> L" "b \<in> L" "adr (fst a) = adr (fst b)"
  have "fst a \<le> 2 ^ 25" "fst b \<le> 2 ^ 25"
    using heap_inv_live(4,5) [OF I(1), of "fst a" "snd a"] heap_inv_live(4,5) [OF I(1), of "fst b" "snd b"] I(2,3) by simp_all
  then have "fst a = fst b" using I(4) adr_eq [of "fst a" "fst b"] by simp
  then show "a = b" using heap_inv_apart [OF I(1-3)] by (auto simp: apart_def)
qed

lemma pointers_remove: "heap_inv h L \<Longrightarrow> a \<in> L \<Longrightarrow> pointers (L - {a}) = pointers L - {adr (fst a)}"
  using inj_on_image_set_diff [OF pointers_inj, of h L L "{a}"] by (simp add: pointers_def)

lemma pointers_insert: "pointers (insert a L) = insert (adr (fst a)) (pointers L)"
  by (simp add: pointers_def)

lemma sized_insert:
  assumes "heap_inv h (insert (k, n) L)" "sized P L" "m \<le> n"
  shows "sized (P(adr k \<mapsto> m)) (insert (k, n) L)"
  unfolding sized_def
proof (intro conjI ballI)
  show "dom (P(adr k \<mapsto> m)) = pointers (insert (k, n) L)" using assms(2) by (simp add: sized_def pointers_insert)
  fix a assume a: "a \<in> insert (k, n) L"
  show "\<exists>m' \<le> snd a. (P(adr k \<mapsto> m)) (adr (fst a)) = Some m'"
  proof (cases "adr (fst a) = adr k")
    case True
    then have "a = (k, n)" using inj_onD [OF pointers_inj [OF assms(1)], of a "(k, n)"] a by simp
    then show ?thesis using assms(3) by simp
  next
    case False
    then show ?thesis using a assms(2) by (auto simp: sized_def)
  qed
qed

lemma sized_remove:
  assumes "heap_inv h L" "(k, n) \<in> L" "sized P L"
  shows "sized (P(adr k := None)) (L - {(k, n)})"
  unfolding sized_def
proof (intro conjI ballI)
  show "dom (P(adr k := None)) = pointers (L - {(k, n)})"
    using assms(3) pointers_remove [OF assms(1,2)] by (simp add: sized_def)
  fix a assume a: "a \<in> L - {(k, n)}"
  then have "adr (fst a) \<noteq> adr k" using inj_onD [OF pointers_inj [OF assms(1)], of a "(k, n)"] assms(2) by auto
  then show "\<exists>m' \<le> snd a. (P(adr k := None)) (adr (fst a)) = Some m'" using a assms(3) by (simp add: sized_def)
qed

lemma calloc_is:
  assumes "heap_inv h L" "unat x * unat y + 2 ^ 26 \<le> 2 ^ 64" "0 < unat x" "0 < unat y"
  obtains p h1 where "malloc (x * y) h = Some (p, h1)" "unat (x * y) = unat x * unat y"
    "calloc x y h = Some (p, if p \<noteq> 0 then memset p 0 (x * y) h1 else h1)" "payload h1 = payload h"
    "p = 0 \<and> heap_inv h1 L \<or> (\<exists>k n. p = adr k \<and> unat x * unat y \<le> n \<and> (\<forall>a \<in> L. apart (k, n) a) \<and> heap_inv h1 (insert (k, n) L) \<and> k + n \<le> 2 ^ 25)"
proof -
  have u: "unat (x * y) = unat x * unat y" using assms(2) by (subst unat_mult_lem [THEN iffD1]) simp_all
  have pos: "0 < unat (x * y)" "unat (x * y) + 2 ^ 26 \<le> 2 ^ 64" using assms u by simp_all
  note A = ALIGN16_small [OF pos]
  obtain p h1 where M: "malloc (x * y) h = Some (p, h1)" "payload h1 = payload h"
    "p = 0 \<and> heap_inv h1 L \<or> (\<exists>k n. p = adr k \<and> up16 (unat (x * y)) \<le> n \<and> (\<forall>a \<in> L. apart (k, n) a) \<and> heap_inv h1 (insert (k, n) L) \<and>
       k + n \<le> 2 ^ 25 \<and> 32 \<le> k)"
    by (rule malloc_inv [OF assms(1), of "x * y" "up16 (unat (x * y))"]) (use A in blast)+
  have "\<not> (- 1) div x < y"
  proof -
    have "unat x * unat y \<le> 2 ^ 64 - 1" using assms(2) by simp
    then have "unat y \<le> (2 ^ 64 - 1) div unat x" using assms(3) by (simp add: less_eq_div_iff_mult_less_eq mult.commute)
    then show ?thesis by (simp add: word_less_nat_alt unat_div unsigned_minus_1_eq_mask mask_eq_exp_minus_1)
  qed
  moreover have "x \<noteq> 0" "y \<noteq> 0" using assms(3,4) by auto
  ultimately have c: "calloc x y h = Some (p, if p \<noteq> 0 then memset p 0 (x * y) h1 else h1)" using M(1) by (simp add: calloc_def)
  have d: "p = 0 \<and> heap_inv h1 L \<or> (\<exists>k n. p = adr k \<and> unat x * unat y \<le> n \<and> (\<forall>a \<in> L. apart (k, n) a) \<and> heap_inv h1 (insert (k, n) L) \<and> k + n \<le> 2 ^ 25)"
    using M(3)
  proof
    assume "\<exists>k n. p = adr k \<and> up16 (unat (x * y)) \<le> n \<and> (\<forall>a \<in> L. apart (k, n) a) \<and> heap_inv h1 (insert (k, n) L) \<and> k + n \<le> 2 ^ 25 \<and> 32 \<le> k"
    then obtain k n where "p = adr k" "up16 (unat (x * y)) \<le> n" "\<forall>a \<in> L. apart (k, n) a" "heap_inv h1 (insert (k, n) L)" "k + n \<le> 2 ^ 25" by blast
    moreover have "unat x * unat y \<le> up16 (unat (x * y))" using up16(2) [of "unat (x * y)"] u by simp
    ultimately show ?thesis using le_trans by blast
  qed blast
  show thesis by (rule that [OF M(1) u c M(2) d])
qed

lemma realloc_releases:
  assumes "heap_inv h L" "(k, n) \<in> L"
  obtains B where "realloc (adr k) 0 h = Some (0, h\<lparr> blocks := B \<rparr>)" "heap_inv (h\<lparr> blocks := B \<rparr>) (L - {(k, n)})"
proof -
  obtain B where B: "hfree (adr k) h = Some (h\<lparr> blocks := B \<rparr>)" "heap_inv (h\<lparr> blocks := B \<rparr>) (L - {(k, n)})"
    by (rule hfree_inv [OF assms]) blast
  have "k \<le> 2 ^ 25" using heap_inv_live(4,5) [OF assms] by simp
  then have "adr k \<noteq> 0" by (intro adr_nonzero) simp
  then show thesis using that B by (simp add: realloc_def)
qed

lemma heap_step_held:
  assumes "heap_step s s'" "held s"
  shows "held s'"
  using assms
proof (induction rule: heap_step.induct)
  case (step_malloc x h p h' P)
  obtain L where L: "heap_inv h L" "sized P L" using step_malloc(3) by (auto simp: held_def)
  show ?case
  proof (cases "unat x = 0")
    case True
    then have "x = 0" by (simp add: unat_eq_zero)
    then show ?thesis using step_malloc by (auto simp: malloc_def)
  next
    case False
    then have A: "x \<noteq> 0 \<and> ALIGN16 x = of_nat (up16 (unat x)) \<and> 16 dvd up16 (unat x) \<and> up16 (unat x) + 2 ^ 25 + 32 < 2 ^ 64"
      using ALIGN16_small step_malloc(1) by blast
    obtain q g where M: "malloc x h = Some (q, g)"
      "q = 0 \<and> heap_inv g L \<or> (\<exists>k n. q = adr k \<and> up16 (unat x) \<le> n \<and> (\<forall>a \<in> L. apart (k, n) a) \<and> heap_inv g (insert (k, n) L) \<and>
         k + n \<le> 2 ^ 25 \<and> 32 \<le> k)"
      by (rule malloc_inv [OF L(1), of x "up16 (unat x)"]) (use A in blast)+
    have e: "q = p" "g = h'" using M(1) step_malloc(2) by simp_all
    show ?thesis
    proof (cases "p = 0")
      case True
      have "adr k \<noteq> 0" if "k + n \<le> 2 ^ 25" for k n using that by (intro adr_nonzero) simp
      then have "heap_inv h' L" using M(2) e True by metis
      then show ?thesis using L True by (auto simp: held_def)
    next
      case False
      then obtain k n where K: "p = adr k" "heap_inv h' (insert (k, n) L)" "up16 (unat x) \<le> n" using M(2) e by blast
      have "sized (P(p \<mapsto> unat x)) (insert (k, n) L)"
        unfolding K(1) by (rule sized_insert [OF K(2) L(2)]) (use K(3) up16(2) [of "unat x"] in simp)
      then show ?thesis using K(2) False by (auto simp: held_def)
    qed
  qed
next
  case (step_calloc x y h p h' P)
  obtain L where L: "heap_inv h L" "sized P L" using step_calloc(3) by (auto simp: held_def)
  show ?case
  proof (cases "unat x = 0 \<or> unat y = 0")
    case True
    then have "x = 0 \<or> y = 0" by (simp add: unat_eq_zero)
    then show ?thesis using step_calloc by (auto simp: calloc_def)
  next
    case False
    then have pos: "0 < unat x" "0 < unat y" by simp_all
    obtain q g where M: "calloc x y h = Some (q, if q \<noteq> 0 then memset q 0 (x * y) g else g)"
      "q = 0 \<and> heap_inv g L \<or> (\<exists>k n. q = adr k \<and> unat x * unat y \<le> n \<and> (\<forall>a \<in> L. apart (k, n) a) \<and> heap_inv g (insert (k, n) L) \<and> k + n \<le> 2 ^ 25)"
      by (rule calloc_is [OF L(1) step_calloc(1) pos]) blast
    have e: "q = p" "h' = (if p \<noteq> 0 then memset p 0 (x * y) g else g)" using M(1) step_calloc(2) by auto
    show ?thesis
    proof (cases "p = 0")
      case True
      have "adr k \<noteq> 0" if "k + n \<le> 2 ^ 25" for k n using that by (intro adr_nonzero) simp
      then have "heap_inv g L" using M(2) e True by metis
      then show ?thesis using L True e by (auto simp: held_def)
    next
      case False
      then obtain k n where K: "p = adr k" "heap_inv g (insert (k, n) L)" "unat x * unat y \<le> n" using M(2) e by blast
      have "sized (P(p \<mapsto> unat x * unat y)) (insert (k, n) L)" unfolding K(1) by (rule sized_insert [OF K(2) L(2) K(3)])
      then show ?thesis using K(2) False e by (auto simp: held_def memset_def)
    qed
  qed
next
  case (step_free p P h h')
  obtain L where L: "heap_inv h L" "sized P L" using step_free(3) by (auto simp: held_def)
  obtain k n where a: "(k, n) \<in> L" "p = adr k" using step_free(1) L(2) by (auto simp: sized_def pointers_def)
  obtain B where "hfree (adr k) h = Some (h\<lparr> blocks := B \<rparr>)" "heap_inv (h\<lparr> blocks := B \<rparr>) (L - {(k, n)})"
    by (rule hfree_inv [OF L(1) a(1)]) blast
  then show ?case using step_free(2) a(2) sized_remove [OF L(1) a(1) L(2)] by (auto simp: held_def)
next
  case (step_realloc p P x h q h')
  obtain L where L: "heap_inv h L" "sized P L" using step_realloc(5) by (auto simp: held_def)
  obtain k n where a: "(k, n) \<in> L" "p = adr k" using step_realloc(1) L(2) by (auto simp: sized_def pointers_def)
  obtain p' g where R: "realloc (adr k) x h = Some (p', g)"
    "p' = 0 \<and> heap_inv g L \<and> payload g = payload h \<or> (\<exists>k' m. p' = adr k' \<and> unat x \<le> m \<and> moved h g L (k, n) (k', m))"
    by (rule realloc_inv [OF L(1) a(1) step_realloc(2,3)]) blast
  have e: "p' = q" "g = h'" using R(1) step_realloc(4) a(2) by simp_all
  show ?case
  proof (cases "\<exists>k' m. q = adr k' \<and> unat x \<le> m \<and> moved h h' L (k, n) (k', m)")
    case True
    then obtain k' m where M: "q = adr k'" "unat x \<le> m" "moved h h' L (k, n) (k', m)" by blast
    have I: "heap_inv h' (insert (k', m) (L - {(k, n)}))" using M(3) by (simp add: moved_def)
    have "k' \<le> 2 ^ 25" using heap_inv_live(4,5) [OF I, of k' m] by simp
    then have "q \<noteq> 0" unfolding M(1) by (intro adr_nonzero) simp
    moreover have "sized (P(p := None, q \<mapsto> unat x)) (insert (k', m) (L - {(k, n)}))"
      unfolding M(1) a(2) by (rule sized_insert [OF I sized_remove [OF L(1) a(1) L(2)] M(2)])
    ultimately show ?thesis using I by (auto simp: held_def)
  next
    case False
    then have "q = 0" "heap_inv h' L" using R(2) e by blast+
    then show ?thesis using L by (auto simp: held_def)
  qed
next
  case (step_release p P h q h')
  obtain L where L: "heap_inv h L" "sized P L" using step_release(3) by (auto simp: held_def)
  obtain k n where a: "(k, n) \<in> L" "p = adr k" using step_release(1) L(2) by (auto simp: sized_def pointers_def)
  obtain B where B: "realloc (adr k) 0 h = Some (0, h\<lparr> blocks := B \<rparr>)" "heap_inv (h\<lparr> blocks := B \<rparr>) (L - {(k, n)})"
    by (rule realloc_releases [OF L(1) a(1)])
  then show ?case using step_release(2) a(2) sized_remove [OF L(1) a(1) L(2)] by (auto simp: held_def)
next
  case (step_write h P Q)
  then show ?case by (simp add: held_def)
qed

section \<open>Room\<close>

lemma heap_break_is: "heap_is h xs \<Longrightarrow> unat (heap_break h) - HB = width xs"
proof -
  assume "heap_is h xs"
  then have S: "heap_shape h xs" by (simp add: heap_is_def)
  have "heap_break h = adr (width xs)" by (rule arena_isD(2) [OF heap_shapeD(1) [OF S]])
  then show ?thesis using heap_shapeD(5) [OF S] adr_unat [of "width xs"] by simp
qed

lemma malloc_room:
  assumes I: "heap_inv h L" and A: "x \<noteq> 0" "ALIGN16 x = of_nat r" "16 dvd r" "r + 2 ^ 25 + 32 < 2 ^ 64"
    and room: "room h (unat (heap_break h) - HB) (32 + r)" and m: "malloc x h = Some (p, h')"
  shows "p \<noteq> 0"
proof -
  obtain xs where xs: "heap_is h xs" using I by (auto simp: heap_inv_def)
  have W: "width xs \<le> 2 ^ 25" using heap_shapeD(5) xs by (auto simp: heap_is_def)
  show ?thesis
  proof (cases rule: malloc_is [OF xs A, case_names fit full grow])
    case (fit pre n post B)
    have "adr (width pre + 32) \<noteq> 0" using W fit(1) by (intro adr_nonzero) simp
    then show ?thesis using fit(3) m by simp
  next
    case (full g)
    then show ?thesis using room heap_break_is [OF xs] by simp
  next
    case (grow g)
    have "adr (width xs + 32) \<noteq> 0" using W by (intro adr_nonzero) simp
    then show ?thesis using grow(2) m by simp
  qed
qed

section \<open>A machine with 64 frames\<close>

definition demo_frames64 :: pmm where
  "demo_frames64 = demo_frames\<lparr> pm_bitmap := [0x01, 0x08, 0, 0, 0, 0, 0, 0], total_frames := 64, bitmap_size := 8 \<rparr>"

lemma demo_frames64:
  "frees demo_frames64 = {1..<11} \<union> {12..<64}" "pmm_ok demo_frames64" "nframes demo_frames64 = 64" "card (frees demo_frames64) = 62"
proof -
  show n: "nframes demo_frames64 = 64" by (simp add: demo_frames64_def)
  have "list_all (\<lambda>f. pmm_bitmap_test demo_frames64 f = (f = 0 \<or> f = 11)) [0..<64]" by code_simp
  then have "pmm_bitmap_test demo_frames64 f = (f = 0 \<or> f = 11)" if "f < 64" for f using that by (simp add: list_all_iff)
  then show f: "frees demo_frames64 = {1..<11} \<union> {12..<64}" using n by (auto simp: frees_def)
  show c: "card (frees demo_frames64) = 62" unfolding f by (subst card_Un_disjoint) auto
  then show "pmm_ok demo_frames64" by (simp add: pmm_ok_def n) (simp add: demo_frames64_def demo_frames_def)
qed

definition demo_heap :: heap where
  "demo_heap = \<lparr> hp_paging = demo_paging\<lparr> frames := demo_frames64 \<rparr>, heap_base = 0, heap_end = 0, heap_break = 0, head = 0,
     blocks = (\<lambda>_. \<lparr> blk_size = 0, blk_next = 0, blk_free = False \<rparr>), payload = (\<lambda>_. 0) \<rparr>"

lemma demo_heap_ok: "tables_ok (hp_paging demo_heap)" "ram_ok (hp_paging demo_heap)" "head demo_heap = 0"
proof -
  let ?s = "demo_paging\<lparr> frames := demo_frames64 \<rparr>"
  have "tables_ok ?s"
  proof (rule tables_okI)
    show "pmm_ok (frames ?s)" "0 \<notin> frees (frames ?s)" using demo_frames64 by simp_all
    show "rec_slot ?s" using tables_okD(3) [OF demo_paging_ok(1)] by (simp add: rec_slot_def)
    show "first_frame t \<notin> frees (frames ?s)" if "valid p" "node ?s p = Some t" for p t
      using demo_node [of p t] that demo_table(2) demo_frames64(1) by (simp del: node.simps)
    show "p = q" if "valid p" "valid q" "node ?s p = Some t" "node ?s q = Some t" for p q t
      using demo_node [of p t] demo_node [of q t] that by (simp del: node.simps)
  qed
  then show "tables_ok (hp_paging demo_heap)" by (simp add: demo_heap_def)
  show "ram_ok (hp_paging demo_heap)" using demo_frames64(3) by (simp add: demo_heap_def ram_ok_def)
qed (simp add: demo_heap_def)

lemma demo_heap_init: "\<exists>h. heap_init demo_heap = Some (0, h) \<and> heap_inv h {} \<and> committed h = 32768 \<and> heap_break h = adr 0"
proof -
  have "no_huge (hp_paging demo_heap) (heap_page j)" if "j < 8192" for j
    using demo_no_huge [of "heap_page j"] arena_idx(1) [OF arena_page_at(1) [OF heap_arena that]] by (simp add: demo_heap_def)
  moreover have "32 \<le> card (frees (frames (hp_paging demo_heap)))" using demo_frames64(4) by (simp add: demo_heap_def)
  ultimately show ?thesis by (cases rule: heap_init_is [OF demo_heap_ok, case_names ok panic]) auto
qed

text \<open>A block of 112 bytes, allocated first.\<close>

lemma up16_100: "up16 100 = 112"
  by (simp add: up16_def)

lemma size_100: "(100 :: u64) \<noteq> 0" "ALIGN16 100 = of_nat 112" "16 dvd (112 :: nat)" "(112 :: nat) + 2 ^ 25 + 32 < 2 ^ 64"
  using ALIGN16_is [of 100] up16_100 by simp_all

lemma demo_malloc:
  obtains h0 h where "heap_init demo_heap = Some (0, h0)" "malloc 100 h0 = Some (adr 32, h)" "heap_inv h {(32, 112)}"
proof -
  obtain h0 where h0: "heap_init demo_heap = Some (0, h0)" "heap_inv h0 {}" "committed h0 = 32768" "heap_break h0 = adr 0" using demo_heap_init by blast
  obtain xs where xs: "heap_is h0 xs" using h0(2) by (auto simp: heap_inv_def)
  have "unat (heap_break h0) = HB" using h0(4) by (simp add: adr_def)
  then have "width xs = 0" using heap_break_is [OF xs] by simp
  then have e: "xs = []" by (simp add: width_zero)
  have r0: "room h0 (width xs) (32 + 112)" using h0(3) e by (simp add: room_def)
  show thesis
  proof (cases rule: malloc_is [OF xs size_100, case_names fit full grow])
    case (grow h)
    have G: "heap_is h [(112, False)]" using grow(3) e by simp
    have "heap_inv h {(32, 112)}" by (rule heap_invI [OF G]) simp
    then show thesis using that [OF h0(1), of h] grow(2) e by simp
  qed (use e r0 in simp_all)
qed

section \<open>Properties\<close>

text \<open>
  C29. The heap from start-up on. After \<open>heap_init\<close> and any sequence of allocations, zeroed
  allocations, releases and reallocations of held pointers, with requests of at most 2^64 - 2^26
  bytes, and writes into blocks, the pointers held are those of the live blocks of the arena; each
  live block is at least as large as the request it was returned for; the blocks are aligned to 16
  bytes, lie in committed pages, and any two of them are apart by at least a header; and every
  committed page of the arena is backed by a frame of its own that the frame allocator does not
  count as free.
\<close>

theorem heap_invariant:
  assumes "tables_ok (hp_paging h0)" "ram_ok (hp_paging h0)" "head h0 = 0" "heap_init h0 = Some (0, h)"
    "heap_step\<^sup>*\<^sup>* (h, Map.empty) (h', P)"
  shows "\<exists>L. dom P = pointers L \<and> (\<forall>a \<in> L. \<exists>m \<le> snd a. P (adr (fst a)) = Some m) \<and> (\<forall>a \<in> L. \<forall>b \<in> L. a = b \<or> apart a b) \<and>
    (\<forall>a \<in> L. 16 dvd fst a \<and> fst a + snd a \<le> committed h') \<and>
    (\<exists>n fr. heap_end h' = heap_page n \<and> committed h' = 4096 * n \<and> inj_on fr {..<n} \<and>
      (\<forall>j < n. translate (hp_paging h') (heap_page j) = Some (frame_addr (fr j)) \<and> fr j \<notin> frees (frames (hp_paging h'))))"
proof -
  have "heap_inv h {}" by (cases rule: heap_init_is [OF assms(1-3), case_names ok panic]) (use assms(4) in auto)
  then have "held (h, Map.empty)" by (auto simp: held_def sized_def pointers_def)
  with assms(5) have "held (h', P)" by (induction "(h', P)" arbitrary: h' P rule: rtranclp_induct) (auto intro: heap_step_held)
  then obtain L where L: "heap_inv h' L" "sized P L" by (auto simp: held_def)
  obtain xs where "heap_is h' xs" using L(1) by (auto simp: heap_inv_def)
  then obtain w where "arena_is h' w" by (auto simp: heap_is_def heap_shape_def)
  then obtain n fr where n: "n \<le> 8192" "heap_end h' = heap_page n" "backed (hp_paging h') n fr" by (auto simp: arena_is_def)
  have "unat (heap_page n) = HB + 4096 * n" using arena_page_unat [OF heap_arena n(1)] by simp
  then have c: "committed h' = 4096 * n" by (simp add: committed_def n(2))
  have "16 dvd fst a \<and> fst a + snd a \<le> committed h'" if "a \<in> L" for a
    using heap_inv_live(1,4) [OF L(1), of "fst a" "snd a"] that by simp
  then show ?thesis using L(2) n(2) c heap_inv_apart [OF L(1)] backedD(3,4,6) [OF n(3)] unfolding sized_def by blast
qed

theorem heap_invariant_witness:
  "\<exists>h0 h L. heap_init demo_heap = Some (0, h0) \<and> malloc 100 h0 = Some (adr 32, h) \<and> pointers L = {adr 32} \<and>
     (\<forall>a \<in> L. 100 \<le> snd a \<and> fst a + snd a \<le> committed h)"
proof -
  obtain h0 h where d: "heap_init demo_heap = Some (0, h0)" "malloc 100 h0 = Some (adr 32, h)" "heap_inv h {(32, 112)}"
    by (rule demo_malloc)
  have nz: "adr 32 \<noteq> 0" by (rule adr_nonzero) simp
  have "heap_step (h0, Map.empty) (h, [adr 32 \<mapsto> 100])" using step_malloc [OF _ d(2), of Map.empty] nz by simp
  then have st: "heap_step\<^sup>*\<^sup>* (h0, Map.empty) (h, [adr 32 \<mapsto> 100])" by simp
  from heap_invariant [OF demo_heap_ok d(1) st]
  obtain L where L: "{adr 32} = pointers L" "\<forall>a \<in> L. \<exists>m \<le> snd a. [adr 32 \<mapsto> 100] (adr (fst a)) = Some m"
    "\<forall>a \<in> L. 16 dvd fst a \<and> fst a + snd a \<le> committed h" by auto
  have "100 \<le> snd a" if "a \<in> L" for a using L(2) that by (fastforce split: if_splits)
  then show ?thesis using d(1,2) L(1,3) by blast
qed

text \<open>
  C30. What \<open>malloc\<close> gives for a size from 1 to 2^64 - 2^26. It returns, without a fault; it writes no byte of any block and maps
  nothing outside the arena. Either it returns NULL and the live blocks are what they were, or it
  returns a new block of at least the requested size, apart from every live one. It does not return
  NULL if the request fits behind the last block into committed pages, or into the arena with four
  free frames for each page that is missing.
\<close>

theorem malloc_allocates:
  assumes "heap_inv h L" "0 < unat x" "unat x + 2 ^ 26 \<le> 2 ^ 64"
  shows "\<exists>p h'. malloc x h = Some (p, h') \<and> payload h' = payload h \<and> same_outside (hp_paging h) (hp_paging h') \<and>
    (p = 0 \<and> heap_inv h' L \<or>
     (\<exists>k n. p = adr k \<and> unat x \<le> n \<and> (\<forall>a \<in> L. apart (k, n) a) \<and> heap_inv h' (insert (k, n) L))) \<and>
    (room h (unat (heap_break h) - HB) (32 + up16 (unat x)) \<longrightarrow> p \<noteq> 0)"
proof -
  have A: "x \<noteq> 0" "ALIGN16 x = of_nat (up16 (unat x))" "16 dvd up16 (unat x)" "up16 (unat x) + 2 ^ 25 + 32 < 2 ^ 64"
    using ALIGN16_small [OF assms(2,3)] by blast+
  obtain p h' where M: "malloc x h = Some (p, h')" "payload h' = payload h" "same_outside (hp_paging h) (hp_paging h')"
    "p = 0 \<and> heap_inv h' L \<or> (\<exists>k n. p = adr k \<and> up16 (unat x) \<le> n \<and> (\<forall>a \<in> L. apart (k, n) a) \<and> heap_inv h' (insert (k, n) L) \<and>
       k + n \<le> 2 ^ 25 \<and> 32 \<le> k)"
    by (rule malloc_inv [OF assms(1) A]) blast
  have "room h (unat (heap_break h) - HB) (32 + up16 (unat x)) \<longrightarrow> p \<noteq> 0" using malloc_room [OF assms(1) A _ M(1)] by blast
  moreover have "p = 0 \<and> heap_inv h' L \<or>
     (\<exists>k n. p = adr k \<and> unat x \<le> n \<and> (\<forall>a \<in> L. apart (k, n) a) \<and> heap_inv h' (insert (k, n) L))"
    using M(4) le_trans [OF up16(2)] by blast
  ultimately show ?thesis using M(1-3) by (intro exI conjI)
qed

theorem malloc_allocates_witness:
  "\<exists>h p h'. heap_init demo_heap = Some (0, h) \<and> malloc 100 h = Some (p, h') \<and> p \<noteq> 0"
proof -
  obtain h where h: "heap_init demo_heap = Some (0, h)" "heap_inv h {}" "committed h = 32768" "heap_break h = adr 0" using demo_heap_init by blast
  have "room h (unat (heap_break h) - HB) (32 + up16 (unat (100 :: u64)))" using h(3,4) up16_100 by (simp add: room_def adr_def)
  then show ?thesis using malloc_allocates [OF h(2), of 100] h(1) by auto
qed

text \<open>
  C31. Released memory is found again. Releasing a live block takes exactly that block from the live
  ones, keeps every byte, and leaves a free block, merged with its free neighbours, that serves
  every request of up to the released size.
\<close>

theorem free_then_malloc:
  assumes "heap_inv h L" "(k, n) \<in> L"
  shows "\<exists>h'. hfree (adr k) h = Some h' \<and> heap_inv h' (L - {(k, n)}) \<and> payload h' = payload h \<and> hp_paging h' = hp_paging h \<and>
    (\<forall>x. 0 < unat x \<and> unat x \<le> n \<longrightarrow> (\<exists>p h''. malloc x h' = Some (p, h'') \<and> p \<noteq> 0))"
proof -
  obtain B xs m where F: "hfree (adr k) h = Some (h\<lparr> blocks := B \<rparr>)" "heap_inv (h\<lparr> blocks := B \<rparr>) (L - {(k, n)})"
    "heap_is (h\<lparr> blocks := B \<rparr>) xs" "(m, True) \<in> set xs" "n \<le> m"
    by (rule hfree_inv [OF assms])
  have n: "n \<le> 2 ^ 25" "16 dvd n" using heap_inv_live(2,4,5) [OF assms] by simp_all
  have "\<exists>p h''. malloc x (h\<lparr> blocks := B \<rparr>) = Some (p, h'') \<and> p \<noteq> 0" if x: "0 < unat x \<and> unat x \<le> n" for x
  proof -
    have A: "x \<noteq> 0" "ALIGN16 x = of_nat (up16 (unat x))" "16 dvd up16 (unat x)" "up16 (unat x) + 2 ^ 25 + 32 < 2 ^ 64"
      using ALIGN16_small [of x] x n(1) by auto
    have "up16 (unat x) \<le> m" using up16_mono [of "unat x" n] x n(2) F(5) by simp
    from malloc_reuses [OF F(3) A F(4) this] show ?thesis .
  qed
  then show ?thesis using F(1,2) by (intro exI [of _ "h\<lparr> blocks := B \<rparr>"]) simp
qed

theorem free_then_malloc_witness:
  "\<exists>h0 h h' p h''. heap_init demo_heap = Some (0, h0) \<and> malloc 100 h0 = Some (adr 32, h) \<and> hfree (adr 32) h = Some h' \<and>
     malloc 112 h' = Some (p, h'') \<and> p \<noteq> 0"
proof -
  obtain h0 h where d: "heap_init demo_heap = Some (0, h0)" "malloc 100 h0 = Some (adr 32, h)" "heap_inv h {(32, 112)}"
    by (rule demo_malloc)
  from free_then_malloc [OF d(3), of 32 112]
  obtain h' where h': "hfree (adr 32) h = Some h'" "\<forall>x. 0 < unat x \<and> unat x \<le> 112 \<longrightarrow> (\<exists>p h''. malloc x h' = Some (p, h'') \<and> p \<noteq> 0)" by auto
  have "0 < unat (112 :: u64) \<and> unat (112 :: u64) \<le> 112" by simp
  then show ?thesis using d h' by blast
qed

text \<open>
  C32. \<open>realloc\<close> of a live block. For size 0 it releases exactly that block and returns NULL. For a
  size from 1 to 2^64 - 2^26 it either returns NULL and changes nothing that is live, or the new
  block, in the old place or another, has at least the new size, is apart from the other live ones
  and begins with the bytes of the old one, as many as fit; every other live block keeps its bytes.
\<close>

theorem realloc_keeps_bytes:
  assumes "heap_inv h L" "(k, n) \<in> L" "unat x + 2 ^ 26 \<le> 2 ^ 64"
  shows "\<exists>p h'. realloc (adr k) x h = Some (p, h') \<and>
    (if x = 0 then p = 0 \<and> heap_inv h' (L - {(k, n)}) \<and> payload h' = payload h
     else p = 0 \<and> heap_inv h' L \<and> payload h' = payload h \<or>
     (\<exists>k' m. p = adr k' \<and> unat x \<le> m \<and> heap_inv h' (insert (k', m) (L - {(k, n)})) \<and> (\<forall>a \<in> L - {(k, n)}. apart (k', m) a) \<and>
        same_bytes h k h' k' (min n m) \<and> (\<forall>a \<in> L - {(k, n)}. same_bytes h (fst a) h' (fst a) (snd a))))"
proof (cases "x = 0")
  case True
  obtain B where "realloc (adr k) 0 h = Some (0, h\<lparr> blocks := B \<rparr>)" "heap_inv (h\<lparr> blocks := B \<rparr>) (L - {(k, n)})"
    by (rule realloc_releases [OF assms(1,2)])
  then show ?thesis using True by (intro exI [of _ 0] exI [of _ "h\<lparr> blocks := B \<rparr>"]) simp
next
  case False
  then have "0 < unat x" by (simp add: unat_gt_0)
  then obtain p h' where "realloc (adr k) x h = Some (p, h')"
    "p = 0 \<and> heap_inv h' L \<and> payload h' = payload h \<or> (\<exists>k' m. p = adr k' \<and> unat x \<le> m \<and> moved h h' L (k, n) (k', m))"
    using realloc_inv [OF assms(1,2) _ assms(3)] by blast
  then show ?thesis using False unfolding moved_def fst_conv snd_conv if_not_P [OF False] by blast
qed

theorem realloc_keeps_bytes_witness:
  "\<exists>h0 h p h'. heap_init demo_heap = Some (0, h0) \<and> malloc 100 h0 = Some (adr 32, h) \<and> realloc (adr 32) 200 h = Some (p, h') \<and>
     (p = 0 \<or> (\<exists>k' m. p = adr k' \<and> 200 \<le> m \<and> heap_inv h' {(k', m)})) \<and> (\<exists>g. realloc (adr 32) 0 h = Some (0, g) \<and> heap_inv g {})"
proof -
  obtain h0 h where d: "heap_init demo_heap = Some (0, h0)" "malloc 100 h0 = Some (adr 32, h)" "heap_inv h {(32, 112)}"
    by (rule demo_malloc)
  obtain p h' where r: "realloc (adr 32) 200 h = Some (p, h')" "p = 0 \<or> (\<exists>k' m. p = adr k' \<and> 200 \<le> m \<and> heap_inv h' {(k', m)})"
    using realloc_keeps_bytes [OF d(3), of 32 112 200] by auto
  obtain g where "realloc (adr 32) 0 h = Some (0, g)" "heap_inv g {}" using realloc_keeps_bytes [OF d(3), of 32 112 0] by auto
  then show ?thesis using d r by blast
qed

text \<open>
  C33. \<open>calloc\<close> of positive numbers refuses a product that does not fit into 64 bits, and changes
  nothing then. For a product of at most 2^64 - 2^26 it returns; either it gives NULL and changes
  nothing that is live, or the block that it returns holds the product and its bytes are 0, and no
  live block loses a byte.
\<close>

theorem calloc_zeroes:
  assumes "heap_inv h L" "0 < unat x" "0 < unat y"
  shows "(2 ^ 64 \<le> unat x * unat y \<longrightarrow> calloc x y h = Some (0, h)) \<and>
    (unat x * unat y + 2 ^ 26 \<le> 2 ^ 64 \<longrightarrow> (\<exists>p h'. calloc x y h = Some (p, h') \<and>
      (p = 0 \<and> heap_inv h' L \<and> payload h' = payload h \<or>
       (\<exists>k n. p = adr k \<and> unat x * unat y \<le> n \<and> heap_inv h' (insert (k, n) L) \<and>
          (\<forall>i < unat x * unat y. payload h' (adr (k + i)) = 0) \<and> (\<forall>a \<in> L. same_bytes h (fst a) h' (fst a) (snd a))))))"
proof (intro conjI impI)
  assume big: "2 ^ 64 \<le> unat x * unat y"
  have "(2 ^ 64 - 1) div unat x < unat y" using big assms(2) by (simp add: div_less_iff_less_mult mult.commute)
  then have "(- 1) div x < y" by (simp add: word_less_nat_alt unat_div unsigned_minus_1_eq_mask mask_eq_exp_minus_1)
  then show "calloc x y h = Some (0, h)" by (simp add: calloc_def)
next
  assume small: "unat x * unat y + 2 ^ 26 \<le> 2 ^ 64"
  obtain p g where C: "unat (x * y) = unat x * unat y" "calloc x y h = Some (p, if p \<noteq> 0 then memset p 0 (x * y) g else g)" "payload g = payload h"
    "p = 0 \<and> heap_inv g L \<or> (\<exists>k n. p = adr k \<and> unat x * unat y \<le> n \<and> (\<forall>a \<in> L. apart (k, n) a) \<and> heap_inv g (insert (k, n) L) \<and> k + n \<le> 2 ^ 25)"
    by (rule calloc_is [OF assms(1) small assms(2,3)]) blast
  show "\<exists>p h'. calloc x y h = Some (p, h') \<and>
      (p = 0 \<and> heap_inv h' L \<and> payload h' = payload h \<or>
       (\<exists>k n. p = adr k \<and> unat x * unat y \<le> n \<and> heap_inv h' (insert (k, n) L) \<and>
          (\<forall>i < unat x * unat y. payload h' (adr (k + i)) = 0) \<and> (\<forall>a \<in> L. same_bytes h (fst a) h' (fst a) (snd a))))"
  proof (cases "p = 0")
    case True
    have "adr k \<noteq> 0" if "k + n \<le> 2 ^ 25" for k n using that by (intro adr_nonzero) simp
    then have "heap_inv g L" using C(4) True by metis
    then show ?thesis using C(2,3) True by auto
  next
    case False
    then obtain k n where K: "p = adr k" "unat x * unat y \<le> n" "\<forall>a \<in> L. apart (k, n) a" "heap_inv g (insert (k, n) L)" "k + n \<le> 2 ^ 25"
      using C(4) by blast
    let ?h = "memset p 0 (x * y) g"
    have xy: "x * y = of_nat (unat x * unat y)" unfolding C(1) [symmetric] by simp
    have pl: "payload ?h (adr l) = (if k \<le> l \<and> l < k + unat x * unat y then 0 else payload h (adr l))" if "l < 2 ^ 45" for l
    proof -
      have "(adr l - adr k < x * y) = (k \<le> l \<and> l < k + unat x * unat y)" unfolding xy by (rule adr_in) (use that K(2,5) in simp_all)
      then show ?thesis unfolding memset_def K(1) C(3) [symmetric] by simp
    qed
    have z: "payload ?h (adr (k + i)) = 0" if "i < unat x * unat y" for i using pl [of "k + i"] that K(2,5) by simp
    have old: "same_bytes h (fst a) ?h (fst a) (snd a)" if a: "a \<in> L" for a
      unfolding same_bytes_def
    proof (intro allI impI)
      fix i assume i: "i < snd a"
      have "fst a + snd a \<le> 2 ^ 25" using heap_inv_live(4,5) [OF assms(1), of "fst a" "snd a"] a by simp
      moreover have "apart (k, n) a" using K(3) a by blast
      ultimately show "payload ?h (adr (fst a + i)) = payload h (adr (fst a + i))"
        using pl [of "fst a + i"] i K(2) by (auto simp: apart_def)
    qed
    have "heap_inv ?h (insert (k, n) L)" using K(4) by (simp add: memset_def)
    then show ?thesis using C(2) False K(1,2) z old by auto
  qed
qed

theorem calloc_zeroes_witness:
  "\<exists>h. heap_init demo_heap = Some (0, h) \<and> calloc 0x100000000 0x100000000 h = Some (0, h) \<and> (\<exists>p h'. calloc 10 10 h = Some (p, h'))"
proof -
  obtain h where h: "heap_init demo_heap = Some (0, h)" "heap_inv h {}" using demo_heap_init by blast
  have "calloc 0x100000000 0x100000000 h = Some (0, h)" using calloc_zeroes [OF h(2), of "0x100000000" "0x100000000"] by simp
  moreover have "\<exists>p h'. calloc 10 10 h = Some (p, h')" using calloc_zeroes [OF h(2), of 10 10] by auto
  ultimately show ?thesis using h(1) by blast
qed

text \<open>
  C34. The sum in \<open>ALIGN16\<close> can wrap. For each of the 15 largest sizes, \<open>malloc\<close> takes the size to
  be 0: where there is room for a header it returns a pointer, to a block that lies in the arena of
  32 MiB and cannot hold what was asked for.
\<close>

theorem malloc_size_wraps:
  assumes "heap_inv h L" "2 ^ 64 \<le> unat x + 15" "room h (unat (heap_break h) - HB) 32"
  shows "\<exists>k n h'. malloc x h = Some (adr k, h') \<and> adr k \<noteq> 0 \<and> heap_inv h' (insert (k, n) L) \<and> n < unat x"
proof -
  have A: "x \<noteq> 0" "ALIGN16 x = of_nat 0" "16 dvd (0 :: nat)" "(0 :: nat) + 2 ^ 25 + 32 < 2 ^ 64" using ALIGN16_wraps [OF assms(2)] by simp_all
  obtain p h' where M: "malloc x h = Some (p, h')"
    "p = 0 \<and> heap_inv h' L \<or> (\<exists>k n. p = adr k \<and> 0 \<le> n \<and> (\<forall>a \<in> L. apart (k, n) a) \<and> heap_inv h' (insert (k, n) L) \<and> k + n \<le> 2 ^ 25 \<and> 32 \<le> k)"
    by (rule malloc_inv [OF assms(1) A]) blast
  have nz: "p \<noteq> 0" using malloc_room [OF assms(1) A _ M(1)] assms(3) by simp
  then obtain k n where "p = adr k" "heap_inv h' (insert (k, n) L)" "k + n \<le> 2 ^ 25" using M(2) by blast
  moreover have "n < unat x" if "k + n \<le> 2 ^ 25" for k n using that assms(2) by simp
  ultimately show ?thesis using M(1) nz by blast
qed

theorem malloc_size_wraps_witness:
  "\<exists>h k n h'. heap_init demo_heap = Some (0, h) \<and> malloc (- 1) h = Some (adr k, h') \<and> heap_inv h' {(k, n)} \<and> n < 2 ^ 64 - 1"
proof -
  obtain h where h: "heap_init demo_heap = Some (0, h)" "heap_inv h {}" "committed h = 32768" "heap_break h = adr 0" using demo_heap_init by blast
  have u: "unat (- 1 :: u64) = 2 ^ 64 - 1" by (simp add: unsigned_minus_1_eq_mask mask_eq_exp_minus_1)
  have r: "room h (unat (heap_break h) - HB) 32" using h(3,4) by (simp add: room_def adr_def)
  have "2 ^ 64 \<le> unat (- 1 :: u64) + 15" unfolding u by simp
  from malloc_size_wraps [OF h(2) this r] show ?thesis unfolding u using h(1) by blast
qed

end
