(* ===== verification/Vmm.thy ===== *)
theory Vmm
  imports PagingProps
begin

text \<open>
  The mapping window, \<^verbatim>\<open>mm/vmm.c\<close>: a bitmap of the 8192 pages of the window, a first-fit search
  for a run of them, and the two operations that map a physical range into the window and take it
  out again. Bits are set and cleared under the lock of the window, pages are mapped under the
  lock of the tables. \<open>None\<close> is a fault, or an access behind the bitmap.
\<close>

section \<open>State\<close>

definition VMM_WINDOW_BASE :: u64 where [simp]: "VMM_WINDOW_BASE = 0xFFFF900000000000"
definition VMM_WINDOW_SIZE :: u64 where [simp]: "VMM_WINDOW_SIZE = 0x2000000"
definition VMM_WINDOW_PAGES :: nat where [simp]: "VMM_WINDOW_PAGES = 8192"

lemma window_pages: "VMM_WINDOW_PAGES = unat (VMM_WINDOW_SIZE div PAGE_SIZE)"
  by simp

record vmm =
  vm_paging :: paging
  window_bitmap :: bytes

definition window_set :: "nat \<Rightarrow> vmm \<Rightarrow> vmm" where
  "window_set i v = v\<lparr> window_bitmap := set_bit_in (i div 8) (i mod 8) (window_bitmap v) \<rparr>"

definition window_clear :: "nat \<Rightarrow> vmm \<Rightarrow> vmm" where
  "window_clear i v = v\<lparr> window_bitmap := clear_bit_in (i div 8) (i mod 8) (window_bitmap v) \<rparr>"

definition window_test :: "vmm \<Rightarrow> nat \<Rightarrow> bool" where
  "window_test v i = bit (window_bitmap v ! (i div 8)) (i mod 8)"

definition find_free_run :: "u32 \<Rightarrow> vmm \<Rightarrow> nat option" where
  "find_free_run count v =
     (case find_run (window_test v) (unat count) [0..<VMM_WINDOW_PAGES] 0 0 of
        Inr run_start \<Rightarrow> Some run_start
      | Inl _ \<Rightarrow> None)"

definition vmm_init :: "vmm \<Rightarrow> vmm" where
  "vmm_init v = v\<lparr> window_bitmap := replicate ((VMM_WINDOW_PAGES + 7) div 8) 0 \<rparr>"

section \<open>Mapping\<close>

text \<open>
  The loop that maps page after page returns the number of the page that \<open>map_page\<close> refused, if
  it refused one. The undo takes the pages below it out again and clears their bits and its own.
\<close>

fun map_loop :: "u64 \<Rightarrow> u64 \<Rightarrow> u64 \<Rightarrow> nat list \<Rightarrow> paging \<Rightarrow> (nat option \<times> paging) option" where
  "map_loop phys_start virt_start flags [] s = Some (None, s)"
| "map_loop phys_start virt_start flags (i # is) s =
     Option.bind (map_page (phys_start + of_nat i * PAGE_SIZE) (virt_start + of_nat i * PAGE_SIZE) flags s) (\<lambda>(st, s1).
       if st \<noteq> 0 then Some (Some i, s1) else map_loop phys_start virt_start flags is s1)"

fun unmap_loop :: "u64 \<Rightarrow> nat list \<Rightarrow> paging \<Rightarrow> paging option" where
  "unmap_loop virt_start [] s = Some s"
| "unmap_loop virt_start (j # js) s =
     Option.bind (unmap_page (virt_start + of_nat j * PAGE_SIZE) s) (unmap_loop virt_start js)"

definition vmm_map_physical :: "u64 \<Rightarrow> u64 \<Rightarrow> u64 \<Rightarrow> vmm \<Rightarrow> (u64 \<times> vmm) option" where
  "vmm_map_physical phys_addr len flags v =
     (if len = 0 then Some (0, v)
      else
        let phys_start = phys_addr AND NOT (PAGE_SIZE - 1);
            phys_end = (phys_addr + len + PAGE_SIZE - 1) AND NOT (PAGE_SIZE - 1);
            pages = ucast ((phys_end - phys_start) div PAGE_SIZE) :: u32
        in case find_free_run pages v of
             None \<Rightarrow> Some (0, v)
           | Some start \<Rightarrow>
               let v1 = fold window_set [start..<start + unat pages] v;
                   virt_start = VMM_WINDOW_BASE + of_nat start * PAGE_SIZE
               in Option.bind (map_loop phys_start virt_start flags [0..<unat pages] (vm_paging v1)) (\<lambda>(refused, s).
                    case refused of
                      None \<Rightarrow> Some (virt_start + (phys_addr - phys_start), v1\<lparr> vm_paging := s \<rparr>)
                    | Some i \<Rightarrow>
                        map_option (\<lambda>s1. (0, fold window_clear [start..<start + i + 1] (v1\<lparr> vm_paging := s1 \<rparr>)))
                          (unmap_loop virt_start [0..<i] s)))"

definition vmm_unmap_physical :: "u64 \<Rightarrow> u64 \<Rightarrow> vmm \<Rightarrow> vmm option" where
  "vmm_unmap_physical virt len v =
     (if virt = 0 \<or> len = 0 then Some v
      else
        let va = virt AND NOT (PAGE_SIZE - 1);
            v_end = (virt + len + PAGE_SIZE - 1) AND NOT (PAGE_SIZE - 1)
        in if va < VMM_WINDOW_BASE \<or> v_end > VMM_WINDOW_BASE + VMM_WINDOW_SIZE then Some v
           else
             let start = unat (ucast ((va - VMM_WINDOW_BASE) div PAGE_SIZE) :: u32);
                 pages = unat (ucast ((v_end - va) div PAGE_SIZE) :: u32)
             in Option.bind (unmap_loop va [0..<pages] (vm_paging v)) (\<lambda>s.
                  if start + pages > VMM_WINDOW_PAGES then None
                  else Some (fold window_clear [start..<start + pages] (v\<lparr> vm_paging := s \<rparr>))))"

end
