(* ===== verification/VmmProps.thy ===== *)
theory VmmProps
  imports Vmm Arena
begin

text \<open>
  The mapping window against the processor's translation: the bitmap covers the pages that are
  mapped, a range that is mapped can be read at the returned address, and nothing else changes.
\<close>

section \<open>The bitmap\<close>

abbreviation window_page :: "nat \<Rightarrow> u64" where
  "window_page \<equiv> arena_page_va VMM_WINDOW_BASE"

lemma window_arena: "arena_at 288 VMM_WINDOW_BASE 0"
  by (simp add: arena_at_def vaddr_def)

lemma window_bits:
  assumes "length (window_bitmap v) = 1024" "i < 8192" "j < 8192"
  shows "window_test (window_set i v) j \<longleftrightarrow> j = i \<or> window_test v j" "window_test (window_clear i v) j \<longleftrightarrow> j \<noteq> i \<and> window_test v j"
proof -
  have l: "i div 8 < 1024" "j div 8 < 1024" using assms(2,3) by simp_all
  have "j div 8 = i div 8 \<and> j mod 8 = i mod 8 \<longleftrightarrow> j = i" by (rule bit_place)
  then show "window_test (window_set i v) j \<longleftrightarrow> j = i \<or> window_test v j" "window_test (window_clear i v) j \<longleftrightarrow> j \<noteq> i \<and> window_test v j"
    using assms(1) l by (auto simp: window_test_def window_set_def window_clear_def bit_set_bit_in bit_clear_bit_in)
qed

lemma window_bitmap_length [simp]:
  "length (window_bitmap (window_set i v)) = length (window_bitmap v)" "length (window_bitmap (window_clear i v)) = length (window_bitmap v)"
  "vm_paging (window_set i v) = vm_paging v" "vm_paging (window_clear i v) = vm_paging v"
  "window_test (v\<lparr> vm_paging := s \<rparr>) = window_test v" "length (window_bitmap (v\<lparr> vm_paging := s \<rparr>)) = length (window_bitmap v)"
  by (simp_all add: window_set_def window_clear_def window_test_def fun_eq_iff)

lemma window_folds:
  assumes "length (window_bitmap v) = 1024" "b \<le> 8192"
  shows "length (window_bitmap (fold window_set [a..<b] v)) = 1024" "length (window_bitmap (fold window_clear [a..<b] v)) = 1024"
    "vm_paging (fold window_set [a..<b] v) = vm_paging v" "vm_paging (fold window_clear [a..<b] v) = vm_paging v"
    "j < 8192 \<Longrightarrow> window_test (fold window_set [a..<b] v) j \<longleftrightarrow> a \<le> j \<and> j < b \<or> window_test v j"
    "j < 8192 \<Longrightarrow> window_test (fold window_clear [a..<b] v) j \<longleftrightarrow> \<not> (a \<le> j \<and> j < b) \<and> window_test v j"
proof -
  have "length (window_bitmap (fold window_set [a..<b] v)) = 1024 \<and> length (window_bitmap (fold window_clear [a..<b] v)) = 1024 \<and>
    vm_paging (fold window_set [a..<b] v) = vm_paging v \<and> vm_paging (fold window_clear [a..<b] v) = vm_paging v \<and>
    (\<forall>j < 8192. (window_test (fold window_set [a..<b] v) j \<longleftrightarrow> a \<le> j \<and> j < b \<or> window_test v j) \<and>
      (window_test (fold window_clear [a..<b] v) j \<longleftrightarrow> \<not> (a \<le> j \<and> j < b) \<and> window_test v j))"
    using assms(2)
  proof (induction b)
    case (Suc b)
    show ?case
    proof (cases "a \<le> b")
      case True
      then show ?thesis using Suc window_bits [of "fold window_set [a..<b] v" b] window_bits [of "fold window_clear [a..<b] v" b]
        by (auto simp: less_Suc_eq)
    next
      case False
      then show ?thesis using Suc by auto
    qed
  qed (use assms(1) in simp)
  then show "length (window_bitmap (fold window_set [a..<b] v)) = 1024" "length (window_bitmap (fold window_clear [a..<b] v)) = 1024"
    "vm_paging (fold window_set [a..<b] v) = vm_paging v" "vm_paging (fold window_clear [a..<b] v) = vm_paging v"
    "j < 8192 \<Longrightarrow> window_test (fold window_set [a..<b] v) j \<longleftrightarrow> a \<le> j \<and> j < b \<or> window_test v j"
    "j < 8192 \<Longrightarrow> window_test (fold window_clear [a..<b] v) j \<longleftrightarrow> \<not> (a \<le> j \<and> j < b) \<and> window_test v j"
    by blast+
qed

section \<open>The loops\<close>

text \<open>Whether an address is translated depends on its page alone.\<close>

lemma translate_page: "page_of v = page_of w \<Longrightarrow> translate s v = None \<longleftrightarrow> translate s w = None"
  by (simp add: page_of_def translate_def Let_def)

definition in_pages :: "nat \<Rightarrow> nat \<Rightarrow> nat \<Rightarrow> u64 \<Rightarrow> bool" where
  "in_pages start a b v \<longleftrightarrow> (\<exists>j. a \<le> j \<and> j < b \<and> page_of v = page_of (window_page (start + j)))"

lemma window_step: "VMM_WINDOW_BASE + of_nat start * PAGE_SIZE + of_nat i * PAGE_SIZE = window_page (start + i)"
  by (simp add: arena_page_va_def algebra_simps)

lemma arena_page_slot: "i < 8192 \<Longrightarrow> IDX_PML4 (window_page i) \<noteq> 510"
  using arena_idx(1) [OF arena_page_at(1) [OF window_arena]] by simp

lemma map_loop_is:
  assumes "tables_ok s" "ram_ok s" "start + n \<le> 8192" "\<forall>i < n. PTE_ADDR (ph + of_nat i * PAGE_SIZE) = ph + of_nat i * PAGE_SIZE" "i \<le> n"
  shows "\<exists>res s' e. map_loop ph (VMM_WINDOW_BASE + of_nat start * PAGE_SIZE) flags [i..<n] s = Some (res, s') \<and>
    tables_ok s' \<and> ram_ok s' \<and> grown s s' \<and> i \<le> e \<and> e \<le> n \<and> res = (if e = n then None else Some e) \<and>
    (\<forall>v. IDX_PML4 v \<noteq> 510 \<and> \<not> in_pages start i e v \<longrightarrow> translate s' v = translate s v) \<and>
    (\<forall>v j. i \<le> j \<and> j < e \<and> page_of v = page_of (window_page (start + j)) \<longrightarrow>
       translate s' v = Some (ph + of_nat j * PAGE_SIZE OR (v AND 0xFFF))) \<and>
    (\<forall>j. i \<le> j \<and> j < e \<longrightarrow> no_huge s' (window_page (start + j))) \<and>
    ((\<forall>j < n. no_huge s (window_page (start + j))) \<and> 3 * (n - i) \<le> card (frees (frames s)) \<longrightarrow> e = n)"
  using assms
proof (induction "n - i" arbitrary: i s)
  case 0
  then have "i = n" by simp
  then show ?case using 0 grown_refl by (intro exI [of _ None] exI [of _ s] exI [of _ n]) auto
next
  case (Suc k)
  have i: "i < n" "start + i < 8192" using Suc.hyps(2) Suc.prems(3) by simp_all
  then have up: "[i..<n] = i # [Suc i..<n]" by (simp add: upt_conv_Cons)
  note P = arena_page_at [OF window_arena i(2)]
  have hv: "IDX_PML4 (window_page (start + i)) \<noteq> 510" using arena_idx(1) [OF P(1)] by simp
  let ?p = "ph + of_nat i * PAGE_SIZE"
  have pa: "PTE_ADDR ?p = ?p" using Suc.prems(4) i(1) by blast
  obtain st s1 where M: "map_page ?p (window_page (start + i)) flags s = Some (st, s1)" "tables_ok s1" "ram_ok s1" "grown s s1"
    "\<forall>v. IDX_PML4 v \<noteq> 510 \<longrightarrow> translate s1 v = (if st = 0 \<and> page_of v = page_of (window_page (start + i)) then Some (?p OR (v AND 0xFFF)) else translate s v)"
    "st = 0 \<Longrightarrow> path_open s1 (window_page (start + i))"
    "no_huge s (window_page (start + i)) \<Longrightarrow> 3 \<le> card (frees (frames s)) \<Longrightarrow> st = 0"
    "card (frees (frames s)) \<le> card (frees (frames s1)) + 3"
    by (rule map_page_is [OF Suc.prems(1,2) hv P(2) pa, of flags]) blast
  have ml: "map_loop ph (VMM_WINDOW_BASE + of_nat start * PAGE_SIZE) flags [i..<n] s =
      (if st \<noteq> 0 then Some (Some i, s1) else map_loop ph (VMM_WINDOW_BASE + of_nat start * PAGE_SIZE) flags [Suc i..<n] s1)"
    unfolding up map_loop.simps window_step M(1) by simp
  show ?case
  proof (cases "st = 0")
    case False
    have "\<not> ((\<forall>j < n. no_huge s (window_page (start + j))) \<and> 3 * (n - i) \<le> card (frees (frames s)))"
    proof (rule notI)
      assume a: "(\<forall>j < n. no_huge s (window_page (start + j))) \<and> 3 * (n - i) \<le> card (frees (frames s))"
      have "1 \<le> n - i" using i(1) by simp
      then have "3 \<le> card (frees (frames s))" using a by linarith
      moreover have "no_huge s (window_page (start + i))" using a i(1) by blast
      ultimately show False using M(7) False by blast
    qed
    then show ?thesis unfolding ml using False M(1-5) i(1)
      by (intro exI [of _ "Some i"] exI [of _ s1] exI [of _ i]) (auto simp: in_pages_def)
  next
    case True
    have "\<exists>res s' e. map_loop ph (VMM_WINDOW_BASE + of_nat start * PAGE_SIZE) flags [Suc i..<n] s1 = Some (res, s') \<and>
      tables_ok s' \<and> ram_ok s' \<and> grown s1 s' \<and> Suc i \<le> e \<and> e \<le> n \<and> res = (if e = n then None else Some e) \<and>
      (\<forall>v. IDX_PML4 v \<noteq> 510 \<and> \<not> in_pages start (Suc i) e v \<longrightarrow> translate s' v = translate s1 v) \<and>
      (\<forall>v j. Suc i \<le> j \<and> j < e \<and> page_of v = page_of (window_page (start + j)) \<longrightarrow>
         translate s' v = Some (ph + of_nat j * PAGE_SIZE OR (v AND 0xFFF))) \<and>
      (\<forall>j. Suc i \<le> j \<and> j < e \<longrightarrow> no_huge s' (window_page (start + j))) \<and>
      ((\<forall>j < n. no_huge s1 (window_page (start + j))) \<and> 3 * (n - Suc i) \<le> card (frees (frames s1)) \<longrightarrow> e = n)"
      by (rule Suc.hyps(1)) (use Suc.hyps(2) Suc.prems(3,4) M(2,3) i(1) in simp_all)
    then obtain res s' e where R: "map_loop ph (VMM_WINDOW_BASE + of_nat start * PAGE_SIZE) flags [Suc i..<n] s1 = Some (res, s')"
      "tables_ok s'" "ram_ok s'" "grown s1 s'" "Suc i \<le> e" "e \<le> n" "res = (if e = n then None else Some e)"
      "\<forall>v. IDX_PML4 v \<noteq> 510 \<and> \<not> in_pages start (Suc i) e v \<longrightarrow> translate s' v = translate s1 v"
      "\<forall>v j. Suc i \<le> j \<and> j < e \<and> page_of v = page_of (window_page (start + j)) \<longrightarrow>
         translate s' v = Some (ph + of_nat j * PAGE_SIZE OR (v AND 0xFFF))"
      "\<forall>j. Suc i \<le> j \<and> j < e \<longrightarrow> no_huge s' (window_page (start + j))"
      "(\<forall>j < n. no_huge s1 (window_page (start + j))) \<and> 3 * (n - Suc i) \<le> card (frees (frames s1)) \<longrightarrow> e = n" by blast
    have pages: "in_pages start i e v \<longleftrightarrow> page_of v = page_of (window_page (start + i)) \<or> in_pages start (Suc i) e v" for v
      using R(5) unfolding in_pages_def by (metis Suc_le_eq le_eq_less_or_eq le_refl)
    have out: "translate s' v = translate s v" if v: "IDX_PML4 v \<noteq> 510" "\<not> in_pages start i e v" for v
    proof -
      have "\<not> in_pages start (Suc i) e v" "page_of v \<noteq> page_of (window_page (start + i))" using pages v(2) by blast+
      then show ?thesis using R(8) M(5) v(1) by simp
    qed
    have first: "translate s' v = Some (?p OR (v AND 0xFFF))" if v: "page_of v = page_of (window_page (start + i))" for v
    proof -
      have "\<not> in_pages start (Suc i) e v"
      proof
        assume "in_pages start (Suc i) e v"
        then obtain j where j: "Suc i \<le> j" "j < e" "page_of v = page_of (window_page (start + j))" by (auto simp: in_pages_def)
        have l: "start + j < 8192" using j(2) R(6) Suc.prems(3) by linarith
        have "start + i = start + j" by (rule arena_pages_eq [OF window_arena i(2) l, THEN iffD1]) (use v j(3) in simp)
        then show False using j(1) by simp
      qed
      moreover have "IDX_PML4 v \<noteq> 510" using v hv by (simp add: page_of_def)
      ultimately show ?thesis using R(8) M(5) True v by simp
    qed
    have nh: "no_huge s' (window_page (start + j))" if "i \<le> j" "j < e" for j
    proof (cases "j = i")
      case True
      have "no_huge s1 (window_page (start + i))" using M(6) \<open>st = 0\<close> by (simp add: path_open_def no_huge_def Let_def)
      then show ?thesis using no_huge_grown [OF R(4) hv] True by simp
    qed (use R(10) that in simp)
    have full: "e = n" if A: "\<forall>j < n. no_huge s (window_page (start + j))" "3 * (n - i) \<le> card (frees (frames s))"
    proof -
      have "no_huge s1 (window_page (start + j))" if "j < n" for j
        using no_huge_grown [OF M(4) arena_page_slot] A(1) that Suc.prems(3) by simp
      moreover have "3 * (n - Suc i) \<le> card (frees (frames s1))" using A(2) M(8) i(1) by simp
      ultimately show ?thesis using R(11) by blast
    qed
    show ?thesis unfolding ml
    proof (intro exI [of _ res] exI [of _ s'] exI [of _ e] conjI allI impI)
      fix v j assume j: "i \<le> j \<and> j < e \<and> page_of v = page_of (window_page (start + j))"
      show "translate s' v = Some (ph + of_nat j * PAGE_SIZE OR (v AND 0xFFF))"
      proof (cases "j = i")
        case True
        then show ?thesis using first j by blast
      next
        case False
        then show ?thesis using R(9) j by (metis Suc_leI le_neq_implies_less)
      qed
    qed (use True R(1-7) out nh full grown_trans [OF M(4) R(4)] in simp_all)
  qed
qed

lemma unmap_loop_is:
  assumes "tables_ok s" "start + n \<le> 8192" "\<forall>j < n. no_huge s (window_page (start + j))" "i \<le> n"
  shows "\<exists>s'. unmap_loop (VMM_WINDOW_BASE + of_nat start * PAGE_SIZE) [i..<n] s = Some s' \<and> tables_ok s' \<and> frames s' = frames s \<and>
    (\<forall>v. IDX_PML4 v \<noteq> 510 \<longrightarrow> translate s' v = (if in_pages start i n v then None else translate s v))"
  using assms
proof (induction "n - i" arbitrary: i s)
  case 0
  then show ?case by (auto simp: in_pages_def)
next
  case (Suc k)
  have i: "i < n" "start + i < 8192" using Suc.hyps(2) Suc.prems(2) by simp_all
  then have up: "[i..<n] = i # [Suc i..<n]" by (simp add: upt_conv_Cons)
  note P = arena_page_at [OF window_arena i(2)]
  have hv: "IDX_PML4 (window_page (start + i)) \<noteq> 510" using arena_idx(1) [OF P(1)] by simp
  have h: "no_huge s (window_page (start + i))" using Suc.prems(3) i(1) by blast
  obtain s1 where U: "unmap_page (window_page (start + i)) s = Some s1" "tables_ok s1" "frames s1 = frames s" "grown s s1"
    "\<forall>v. IDX_PML4 v \<noteq> 510 \<longrightarrow> translate s1 v = (if page_of v = page_of (window_page (start + i)) then None else translate s v)"
    by (rule unmap_page_is [OF Suc.prems(1) hv h]) blast
  have "\<forall>j < n. no_huge s1 (window_page (start + j))"
  proof (intro allI impI)
    fix j assume j: "j < n"
    then have "start + j < 8192" using Suc.prems(2) by simp
    then have "IDX_PML4 (window_page (start + j)) \<noteq> 510" using arena_idx(1) [OF arena_page_at(1) [OF window_arena]] by simp
    then show "no_huge s1 (window_page (start + j))" using no_huge_grown [OF U(4)] Suc.prems(3) j by blast
  qed
  then have "\<exists>s'. unmap_loop (VMM_WINDOW_BASE + of_nat start * PAGE_SIZE) [Suc i..<n] s1 = Some s' \<and> tables_ok s' \<and> frames s' = frames s1 \<and>
    (\<forall>v. IDX_PML4 v \<noteq> 510 \<longrightarrow> translate s' v = (if in_pages start (Suc i) n v then None else translate s1 v))"
    by (intro Suc.hyps(1)) (use Suc.hyps(2) Suc.prems(2) U(2) i(1) in simp_all)
  then obtain s' where R: "unmap_loop (VMM_WINDOW_BASE + of_nat start * PAGE_SIZE) [Suc i..<n] s1 = Some s'" "tables_ok s'" "frames s' = frames s1"
    "\<forall>v. IDX_PML4 v \<noteq> 510 \<longrightarrow> translate s' v = (if in_pages start (Suc i) n v then None else translate s1 v)" by blast
  have pages: "in_pages start i n v \<longleftrightarrow> page_of v = page_of (window_page (start + i)) \<or> in_pages start (Suc i) n v" for v
    using i(1) unfolding in_pages_def by (metis Suc_le_eq le_eq_less_or_eq le_refl)
  show ?case unfolding up unmap_loop.simps window_step U(1)
    by (intro exI [of _ s']) (use R U(3,5) pages in auto)
qed

section \<open>Mapping a range\<close>

definition vmm_ok :: "vmm \<Rightarrow> bool" where
  "vmm_ok v \<longleftrightarrow> tables_ok (vm_paging v) \<and> ram_ok (vm_paging v) \<and> length (window_bitmap v) = 1024 \<and>
     (\<forall>i < 8192. \<not> window_test v i \<longrightarrow> translate (vm_paging v) (window_page i) = None)"

text \<open>The pages that a range of bytes touches.\<close>

definition page_count :: "u64 \<Rightarrow> u64 \<Rightarrow> nat" where
  "page_count ph len = (unat ph + unat len + 4095) div 4096 - unat ph div 4096"

lemma and_not_page: "x AND NOT (PAGE_SIZE - 1) = x div 4096 * 4096"
proof -
  have m: "(4096 - 1 :: u64) = mask 12" by (simp add: mask_eq_exp_minus_1)
  have "x AND NOT (mask 12) = push_bit 12 (drop_bit 12 x)"
    by (rule bit_word_eqI) (auto simp: bit_and_iff bit_not_iff bit_mask_iff bit_push_bit_iff bit_drop_bit_eq)
  then show ?thesis unfolding PAGE_SIZE_def m by (simp add: push_bit_eq_mult drop_bit_eq_div)
qed

lemma unat_page_down: "unat (x AND NOT (PAGE_SIZE - 1)) = unat x div 4096 * 4096"
proof -
  have "unat x < 2 ^ LENGTH(64)" by (rule unsigned_less)
  then have l: "unat x div 4096 * 4096 < 2 ^ 64" using div_times_less_eq_dividend [of "unat x" 4096] by simp
  have "x div 4096 * 4096 = of_nat (unat x div 4096 * 4096)"
  proof -
    have "x div 4096 = of_nat (unat (x div 4096))" by simp
    also have "unat (x div 4096) = unat x div 4096" by (simp add: unat_div)
    finally show ?thesis by simp
  qed
  then show ?thesis unfolding and_not_page using unat_of_nat_small [of "unat x div 4096 * 4096", where 'a = 64] l by simp
qed

lemma unat_back: "unat (x :: u64) = n \<Longrightarrow> x = of_nat n"
  by auto

lemma range_pages:
  assumes "unat ph + unat len + 4095 < 2 ^ 52" "unat len < 2 ^ 43"
  defines "ps \<equiv> ph AND NOT (PAGE_SIZE - 1)"
  shows "unat (ucast ((((ph + len + PAGE_SIZE - 1) AND NOT (PAGE_SIZE - 1)) - ps) div PAGE_SIZE) :: u32) = page_count ph len"
    "unat ps = unat ph div 4096 * 4096" "unat (ph - ps) = unat ph mod 4096" "page_count ph len < 2 ^ 32"
proof -
  show ps: "unat ps = unat ph div 4096 * 4096" unfolding ps_def by (rule unat_page_down)
  have le: "ps \<le> ph" using ps by (simp add: word_le_nat_alt)
  show "unat (ph - ps) = unat ph mod 4096" using le ps by (simp add: unat_sub word_le_nat_alt minus_div_mult_eq_mod)
  have "unat (ph + len) = unat ph + unat len" using assms(1) by (simp add: unat_add_small)
  then have a: "unat (ph + len + 4095) = unat ph + unat len + 4095" using assms(1) by (simp add: unat_add_small)
  have e: "ph + len + PAGE_SIZE - 1 = ph + len + 4095" by simp
  let ?pe = "(ph + len + PAGE_SIZE - 1) AND NOT (PAGE_SIZE - 1)"
  have pe: "unat ?pe = (unat ph + unat len + 4095) div 4096 * 4096" unfolding unat_page_down e a ..
  have dm: "unat ph div 4096 \<le> (unat ph + unat len + 4095) div 4096" by (rule div_le_mono) simp
  then have "ps \<le> ?pe" using ps pe by (simp add: word_le_nat_alt)
  then have "unat (?pe - ps) = page_count ph len * 4096"
    using ps pe by (simp add: unat_sub word_le_nat_alt page_count_def diff_mult_distrib)
  then have d: "unat ((?pe - ps) div PAGE_SIZE) = page_count ph len" by (simp add: unat_div)
  have "page_count ph len \<le> (unat len + 8190) div 4096"
  proof -
    have "unat ph + unat len + 4095 \<le> unat ph div 4096 * 4096 + (unat len + 8190)"
      using div_mult_mod_eq [of "unat ph" 4096] mod_less_divisor [of 4096 "unat ph"] by linarith
    then have "(unat ph + unat len + 4095) div 4096 \<le> (unat ph div 4096 * 4096 + (unat len + 8190)) div 4096" by (rule div_le_mono)
    then show ?thesis by (simp add: page_count_def)
  qed
  also have "\<dots> < 2 ^ 32" using assms(2) by (simp add: div_less_iff_less_mult)
  finally show s: "page_count ph len < 2 ^ 32" .
  have "(2::nat) ^ LENGTH(32) = 2 ^ 32" by simp
  then show "unat (ucast ((?pe - ps) div PAGE_SIZE) :: u32) = page_count ph len"
    using d s by (simp add: unsigned_ucast_eq take_bit_nat_eq_self del: PAGE_SIZE_def)
qed

lemma find_free_run_is:
  assumes "find_free_run count v = Some start" "0 < unat count"
  shows "start + unat count \<le> 8192" "\<forall>j. start \<le> j \<and> j < start + unat count \<longrightarrow> \<not> window_test v j"
proof -
  have "find_run (window_test v) (unat count) [0..<8192] 0 0 = Inr start" using assms(1) by (auto simp: find_free_run_def split: sum.splits)
  from find_run_window [OF assms(2) this]
  show "start + unat count \<le> 8192" "\<forall>j. start \<le> j \<and> j < start + unat count \<longrightarrow> \<not> window_test v j" by simp_all
qed

lemma page_table_addr: "f < 2 ^ 40 \<Longrightarrow> PTE_ADDR (of_nat f * 4096) = of_nat f * 4096"
proof -
  assume f: "f < 2 ^ 40"
  have m: "(0x000FFFFFFFFFF000 :: u64) = push_bit 12 (mask 40)" by (simp add: mask_eq_exp_minus_1 push_bit_eq_mult)
  have "unat (take_bit 40 (of_nat f :: u64)) = f" using f by (simp add: unsigned_take_bit_eq unat_of_nat_small take_bit_nat_eq_self)
  then have t: "of_nat f AND mask 40 = (of_nat f :: u64)" using f by (simp add: word_unat_eq_iff unat_of_nat_small take_bit_eq_mask)
  have p: "of_nat f * 4096 = push_bit 12 (of_nat f :: u64)" by (simp add: push_bit_eq_mult)
  have "PTE_ADDR (push_bit 12 (of_nat f)) = push_bit 12 (of_nat f AND mask 40)"
    unfolding PTE_ADDR_def m by (rule bit_word_eqI) (auto simp: bit_and_iff bit_push_bit_iff bit_mask_iff)
  then show ?thesis unfolding p t .
qed

lemma page_or_low: "PTE_ADDR t = t \<Longrightarrow> t OR (a AND 0xFFF) = t + (a AND 0xFFF)"
proof -
  assume t: "PTE_ADDR t = t"
  have "t AND (a AND 0xFFF) = (t AND 0xFFF) AND a" by (simp only: ac_simps)
  then have "t AND (a AND 0xFFF) = 0" using table_low(1) [of t] t by (simp add: table_addr_def)
  then show ?thesis by (simp add: disjunctive_add_eq_or)
qed

text \<open>Byte \<open>k\<close> of the range, in page \<open>(off + k) div 4096\<close> of the run.\<close>

lemma range_byte:
  fixes ph len :: u64 and start k :: nat
  defines "off \<equiv> unat ph mod 4096"
  assumes "unat ph + unat len + 4095 < 2 ^ 52" "start + page_count ph len \<le> 8192" "k < unat len"
  defines "a \<equiv> VMM_WINDOW_BASE + of_nat start * PAGE_SIZE + of_nat off + of_nat k"
  shows "(off + k) div 4096 < page_count ph len" "page_of a = page_of (window_page (start + (off + k) div 4096))"
    "a AND 0xFFF = of_nat ((off + k) mod 4096)"
proof -
  have "unat ph + unat len + 4095 = off + unat len + 4095 + unat ph div 4096 * 4096" unfolding off_def by simp
  then have pc: "page_count ph len = (off + unat len + 4095) div 4096" unfolding page_count_def by simp
  have "off + unat len \<le> page_count ph len * 4096"
    unfolding pc using div_mult_mod_eq [of "off + unat len + 4095" 4096] mod_less_divisor [of 4096 "off + unat len + 4095"] by linarith
  then have b: "off + k < page_count ph len * 4096" using assms(4) by linarith
  then show j: "(off + k) div 4096 < page_count ph len" by (simp add: div_less_iff_less_mult)
  let ?m = "start * 4096 + (off + k)"
  have m: "?m < 2 ^ 25"
  proof -
    have "?m < start * 4096 + page_count ph len * 4096" using b by simp
    also have "\<dots> = (start + page_count ph len) * 4096" by simp
    also have "\<dots> \<le> 8192 * 4096" using assms(3) by (intro mult_le_mono) simp_all
    finally show ?thesis by simp
  qed
  have e: "a = VMM_WINDOW_BASE + of_nat ?m" by (simp add: a_def algebra_simps)
  have A: "arena_at 288 a ?m" unfolding e by (rule arena_offset [OF window_arena m])
  have sj: "start + (off + k) div 4096 < 8192" using j assms(3) by linarith
  have "?m div 4096 = start + (off + k) div 4096" by simp
  then show "page_of a = page_of (window_page (start + (off + k) div 4096))"
    using arena_page [OF A arena_page_at(1) [OF window_arena sj]] by simp
  have "unat (a AND 0xFFF) = (off + k) mod 4096" using arena_idx(5) [OF A] by simp
  moreover have "a AND 0xFFF = of_nat (unat (a AND 0xFFF))" by simp
  ultimately show "a AND 0xFFF = of_nat ((off + k) mod 4096)" by metis
qed

lemma window_ptr_nonzero:
  assumes "start < 8192" "off < 4096"
  shows "VMM_WINDOW_BASE + of_nat start * PAGE_SIZE + of_nat off \<noteq> 0"
proof -
  let ?m = "start * 4096 + off"
  have e: "VMM_WINDOW_BASE + of_nat start * PAGE_SIZE + of_nat off = VMM_WINDOW_BASE + of_nat ?m" by (simp add: algebra_simps)
  have "arena_at 288 (VMM_WINDOW_BASE + of_nat ?m) ?m" by (rule arena_offset [OF window_arena]) (use assms in simp)
  then have "unat (VMM_WINDOW_BASE + of_nat ?m) \<noteq> 0" by (simp add: arena_at_def vaddr_def)
  then show ?thesis unfolding e by (metis unsigned_0)
qed

lemma vmm_okD:
  assumes "vmm_ok v"
  shows "tables_ok (vm_paging v)" "ram_ok (vm_paging v)" "length (window_bitmap v) = 1024"
    "i < 8192 \<Longrightarrow> \<not> window_test v i \<Longrightarrow> translate (vm_paging v) (window_page i) = None"
  using assms unfolding vmm_ok_def by blast+

text \<open>The state in which the pages of the run are reserved, and the outcome of the loop over them.\<close>

lemma vmm_map_loop:
  assumes ok: "vmm_ok v" and R: "0 < unat len" "unat len < 2 ^ 43" "unat ph + unat len + 4095 < 2 ^ 52"
    and f: "find_free_run (of_nat (page_count ph len)) v = Some start" and n: "n = page_count ph len"
  defines "ps \<equiv> ph AND NOT (PAGE_SIZE - 1)" and "v1 \<equiv> fold window_set [start..<start + n] v"
  obtains s' e where "start + n \<le> 8192" "0 < n" "\<forall>j. start \<le> j \<and> j < start + n \<longrightarrow> \<not> window_test v j"
    "\<forall>j < n. PTE_ADDR (ps + of_nat j * PAGE_SIZE) = ps + of_nat j * PAGE_SIZE"
    "map_loop ps (VMM_WINDOW_BASE + of_nat start * PAGE_SIZE) flags [0..<n] (vm_paging v1) = Some (if e = n then None else Some e, s')"
    "tables_ok s'" "ram_ok s'" "e \<le> n"
    "\<forall>a. IDX_PML4 a \<noteq> 510 \<and> \<not> in_pages start 0 e a \<longrightarrow> translate s' a = translate (vm_paging v) a"
    "\<forall>a j. j < e \<and> page_of a = page_of (window_page (start + j)) \<longrightarrow> translate s' a = Some (ps + of_nat j * PAGE_SIZE OR (a AND 0xFFF))"
    "\<forall>j < e. no_huge s' (window_page (start + j))"
    "(\<forall>j < 8192. no_huge (vm_paging v) (window_page j)) \<and> 3 * n \<le> card (frees (frames (vm_paging v))) \<longrightarrow> e = n"
proof -
  note K = vmm_okD [OF ok]
  have "page_count ph len < 2 ^ 32" and pos: "0 < n"
  proof -
    show "page_count ph len < 2 ^ 32" by (rule range_pages(4) [OF R(3,2)])
    have "unat ph div 4096 * 4096 + 4096 \<le> unat ph + unat len + 4095" using R(1) div_times_less_eq_dividend [of "unat ph" 4096] by linarith
    then have "unat ph div 4096 + 1 \<le> (unat ph + unat len + 4095) div 4096" by (simp add: less_eq_div_iff_mult_less_eq)
    then show "0 < n" unfolding n page_count_def by simp
  qed
  then have u: "unat (of_nat (page_count ph len) :: u32) = n" using unat_of_nat_small [of "page_count ph len", where 'a = 32] n by simp
  have F: "start + n \<le> 8192" "\<forall>j. start \<le> j \<and> j < start + n \<longrightarrow> \<not> window_test v j"
    using find_free_run_is [OF f] u pos by simp_all
  have q: "ps = of_nat (unat ph div 4096) * 4096"
  proof -
    have "ps = of_nat (unat ps)" by simp
    also have "unat ps = unat ph div 4096 * 4096" unfolding ps_def by (rule range_pages(2) [OF R(3,2)])
    finally show ?thesis by simp
  qed
  have P: "PTE_ADDR (ps + of_nat j * PAGE_SIZE) = ps + of_nat j * PAGE_SIZE" if j: "j < n" for j
  proof -
    have e: "ps + of_nat j * PAGE_SIZE = of_nat (unat ph div 4096 + j) * 4096" unfolding q by (simp add: algebra_simps)
    have "unat ph div 4096 + n = (unat ph + unat len + 4095) div 4096" using pos unfolding n page_count_def by simp
    also have "\<dots> < 2 ^ 40" using R(3) by (simp add: div_less_iff_less_mult)
    finally show ?thesis unfolding e using j by (intro page_table_addr) simp
  qed
  have V: "vm_paging v1 = vm_paging v" unfolding v1_def by (rule window_folds(3) [OF K(3) F(1)])
  obtain res s' e where L: "map_loop ps (VMM_WINDOW_BASE + of_nat start * PAGE_SIZE) flags [0..<n] (vm_paging v) = Some (res, s')"
    "tables_ok s'" "ram_ok s'" "e \<le> n" "res = (if e = n then None else Some e)"
    "\<forall>a. IDX_PML4 a \<noteq> 510 \<and> \<not> in_pages start 0 e a \<longrightarrow> translate s' a = translate (vm_paging v) a"
    "\<forall>a j. 0 \<le> j \<and> j < e \<and> page_of a = page_of (window_page (start + j)) \<longrightarrow> translate s' a = Some (ps + of_nat j * PAGE_SIZE OR (a AND 0xFFF))"
    "\<forall>j. 0 \<le> j \<and> j < e \<longrightarrow> no_huge s' (window_page (start + j))"
    "(\<forall>j < n. no_huge (vm_paging v) (window_page (start + j))) \<and> 3 * (n - 0) \<le> card (frees (frames (vm_paging v))) \<longrightarrow> e = n"
    using map_loop_is [OF K(1,2) F(1), of ps 0 flags] P by blast
  have "(\<forall>j < 8192. no_huge (vm_paging v) (window_page j)) \<and> 3 * n \<le> card (frees (frames (vm_paging v))) \<longrightarrow> e = n"
    using L(9) F(1) by simp
  then show thesis using L F pos P V by (intro that [of e s']) simp_all
qed

text \<open>Which addresses are translated behind a run of free pages.\<close>

lemma free_run_none:
  assumes "vmm_ok v" "start + n \<le> 8192" "\<forall>j. start \<le> j \<and> j < start + n \<longrightarrow> \<not> window_test v j" "e \<le> n" "in_pages start 0 e a"
  shows "translate (vm_paging v) a = None"
proof -
  obtain j where j: "j < e" "page_of a = page_of (window_page (start + j))" using assms(5) by (auto simp: in_pages_def)
  have "translate (vm_paging v) (window_page (start + j)) = None"
    by (rule vmm_okD(4) [OF assms(1)]) (use j(1) assms(2-4) in auto)
  then show ?thesis using translate_page [OF j(2)] by blast
qed

lemma vmm_map_is:
  assumes ok: "vmm_ok v" and R: "0 < unat len" "unat len < 2 ^ 43" "unat ph + unat len + 4095 < 2 ^ 52"
  obtains (mapped) p v' where "vmm_map_physical ph len flags v = Some (p, v')" "p \<noteq> 0" "vmm_ok v'"
      "\<forall>k < unat len. translate (vm_paging v') (p + of_nat k) = Some (ph + of_nat k)"
      "\<forall>a. IDX_PML4 a \<noteq> 510 \<and> translate (vm_paging v) a \<noteq> None \<longrightarrow> translate (vm_paging v') a = translate (vm_paging v) a"
  | (refused) v' where "vmm_map_physical ph len flags v = Some (0, v')" "vmm_ok v'"
      "\<forall>a. IDX_PML4 a \<noteq> 510 \<longrightarrow> translate (vm_paging v') a = translate (vm_paging v) a"
      "find_free_run (of_nat (page_count ph len)) v = None \<or>
       \<not> ((\<forall>j < 8192. no_huge (vm_paging v) (window_page j)) \<and> 3 * page_count ph len \<le> card (frees (frames (vm_paging v))))"
proof -
  note K = vmm_okD [OF ok]
  let ?ps = "ph AND NOT (PAGE_SIZE - 1)" and ?n = "page_count ph len"
  note RP = range_pages [OF R(3,2)]
  have l0: "len \<noteq> 0" using R(1) by auto
  have un: "unat (of_nat ?n :: u32) = ?n" by (rule unat_of_nat_small) (use RP(4) in simp)
  have c: "ucast (((ph + len + PAGE_SIZE - 1 AND NOT (PAGE_SIZE - 1)) - ?ps) div PAGE_SIZE) = (of_nat ?n :: u32)"
    unfolding word_unat_eq_iff un by (rule RP(1))
  show thesis
  proof (cases "find_free_run (of_nat ?n) v")
    case None
    have "vmm_map_physical ph len flags v = Some (0, v)"
      unfolding vmm_map_physical_def Let_def c None using l0 by simp
    then show thesis using refused ok None by blast
  next
    case (Some start)
    let ?v1 = "fold window_set [start..<start + ?n] v" and ?vs = "VMM_WINDOW_BASE + of_nat start * PAGE_SIZE"
    obtain s' e where L: "start + ?n \<le> 8192" "0 < ?n" "\<forall>j. start \<le> j \<and> j < start + ?n \<longrightarrow> \<not> window_test v j"
      "\<forall>j < ?n. PTE_ADDR (?ps + of_nat j * PAGE_SIZE) = ?ps + of_nat j * PAGE_SIZE"
      "map_loop ?ps ?vs flags [0..<?n] (vm_paging ?v1) = Some (if e = ?n then None else Some e, s')"
      "tables_ok s'" "ram_ok s'" "e \<le> ?n"
      "\<forall>a. IDX_PML4 a \<noteq> 510 \<and> \<not> in_pages start 0 e a \<longrightarrow> translate s' a = translate (vm_paging v) a"
      "\<forall>a j. j < e \<and> page_of a = page_of (window_page (start + j)) \<longrightarrow> translate s' a = Some (?ps + of_nat j * PAGE_SIZE OR (a AND 0xFFF))"
      "\<forall>j < e. no_huge s' (window_page (start + j))"
      "(\<forall>j < 8192. no_huge (vm_paging v) (window_page j)) \<and> 3 * ?n \<le> card (frees (frames (vm_paging v))) \<longrightarrow> e = ?n"
      by (rule vmm_map_loop [OF ok R Some refl, of flags]) blast
    note W = window_folds [OF K(3) L(1)]
    have M: "vmm_map_physical ph len flags v = (case (if e = ?n then None else Some e) of
        None \<Rightarrow> Some (?vs + (ph - ?ps), ?v1\<lparr> vm_paging := s' \<rparr>)
      | Some i \<Rightarrow> map_option (\<lambda>s1. (0, fold window_clear [start..<start + i + 1] (?v1\<lparr> vm_paging := s1 \<rparr>))) (unmap_loop ?vs [0..<i] s'))"
      unfolding vmm_map_physical_def Let_def c Some un option.case L(5) bind.bind_lunit split using l0 by simp
    have bits: "window_test ?v1 j \<longleftrightarrow> start \<le> j \<and> j < start + ?n \<or> window_test v j" if "j < 8192" for j
      using W(5) [OF that] .
    show thesis
    proof (cases "e = ?n")
      case True
      let ?v' = "?v1\<lparr> vm_paging := s' \<rparr>" and ?p = "?vs + (ph - ?ps)"
      have off: "ph - ?ps = of_nat (unat ph mod 4096)" using RP(3) by (metis unat_back)
      have "translate s' (window_page j) = None" if j: "j < 8192" "\<not> window_test ?v1 j" for j
      proof -
        have "\<not> in_pages start 0 e (window_page j)"
        proof
          assume "in_pages start 0 e (window_page j)"
          then obtain i where i: "i < e" "page_of (window_page j) = page_of (window_page (start + i))" by (auto simp: in_pages_def)
          have "start + i < 8192" using i(1) L(1,8) by linarith
          then have "j = start + i" using arena_pages_eq [OF window_arena j(1), THEN iffD1] i(2) by blast
          then show False using j bits i(1) L(8) by simp
        qed
        then show ?thesis using L(9) arena_page_slot [OF j(1)] j bits K(4) by simp
      qed
      then have ok': "vmm_ok ?v'" using L(6,7) W(1) by (simp add: vmm_ok_def)
      have byte: "translate s' (?p + of_nat k) = Some (ph + of_nat k)" if k: "k < unat len" for k
      proof -
        let ?j = "(unat ph mod 4096 + k) div 4096" and ?l = "(unat ph mod 4096 + k) mod 4096"
        note B = range_byte [OF R(3) L(1) k]
        have "translate s' (?p + of_nat k) = Some (?ps + of_nat ?j * PAGE_SIZE OR ((?p + of_nat k) AND 0xFFF))"
          unfolding off using L(10) B(1,2) True by blast
        also have "?ps + of_nat ?j * PAGE_SIZE OR ((?p + of_nat k) AND 0xFFF) = ?ps + of_nat ?j * PAGE_SIZE + ((?p + of_nat k) AND 0xFFF)"
          by (rule page_or_low [OF L(4) [rule_format, OF B(1)]])
        also have "(?p + of_nat k) AND 0xFFF = of_nat ?l" unfolding off by (rule B(3))
        also have "?ps + of_nat ?j * PAGE_SIZE + of_nat ?l = ?ps + of_nat (?j * 4096 + ?l)"
          by (simp only: of_nat_add of_nat_mult of_nat_numeral PAGE_SIZE_def add.assoc)
        also have "?j * 4096 + ?l = unat ph mod 4096 + k" by (rule div_mult_mod_eq)
        also have "?ps + of_nat (unat ph mod 4096 + k) = ph + of_nat k" using off by (simp add: algebra_simps)
        finally show ?thesis .
      qed
      have nz: "?p \<noteq> 0" unfolding off by (rule window_ptr_nonzero) (use L(1,2) in simp_all)
      have old: "translate s' a = translate (vm_paging v) a" if "IDX_PML4 a \<noteq> 510" "translate (vm_paging v) a \<noteq> None" for a
      proof -
        have "\<not> in_pages start 0 e a"
        proof
          assume "in_pages start 0 e a"
          from free_run_none [OF ok L(1,3,8) this] that(2) show False by simp
        qed
        with that(1) L(9) show ?thesis by simp
      qed
      have m: "vmm_map_physical ph len flags v = Some (?p, ?v')" unfolding M using True by simp
      have pg: "vm_paging ?v' = s'" by simp
      show thesis
      proof (rule mapped [OF m nz ok'])
        show "\<forall>k < unat len. translate (vm_paging ?v') (?p + of_nat k) = Some (ph + of_nat k)" unfolding pg using byte by blast
        show "\<forall>a. IDX_PML4 a \<noteq> 510 \<and> translate (vm_paging v) a \<noteq> None \<longrightarrow> translate (vm_paging ?v') a = translate (vm_paging v) a"
          unfolding pg using old by blast
      qed
    next
      case False
      have le: "start + e + 1 \<le> start + ?n" "e < ?n" using False L(8) by simp_all
      obtain s1 where U: "unmap_loop ?vs [0..<e] s' = Some s1" "tables_ok s1" "frames s1 = frames s'"
        "\<forall>a. IDX_PML4 a \<noteq> 510 \<longrightarrow> translate s1 a = (if in_pages start 0 e a then None else translate s' a)"
        using unmap_loop_is [OF L(6), of start e 0] L(1,8,11) by auto
      let ?v' = "fold window_clear [start..<start + e + 1] (?v1\<lparr> vm_paging := s1 \<rparr>)"
      have l1: "length (window_bitmap (?v1\<lparr> vm_paging := s1 \<rparr>)) = 1024" "start + e + 1 \<le> 8192" using W(1) le L(1) by simp_all
      note C = window_folds [OF l1]
      have same: "translate s1 a = translate (vm_paging v) a" if "IDX_PML4 a \<noteq> 510" for a
        using that U(4) L(9) free_run_none [OF ok L(1,3,8)] by simp
      have pg: "vm_paging ?v' = s1" unfolding C(4) by simp
      have "translate s1 (window_page j) = None" if j: "j < 8192" "\<not> window_test ?v' j" for j
      proof -
        have "\<not> window_test v j"
        proof
          assume t: "window_test v j"
          have "window_test (?v1\<lparr> vm_paging := s1 \<rparr>) j" using t bits [OF j(1)] by simp
          then have "start \<le> j \<and> j < start + e + 1" using j(2) unfolding C(6) [OF j(1)] by blast
          then show False using L(3) t le by auto
        qed
        then show ?thesis using same [OF arena_page_slot [OF j(1)]] K(4) j(1) by simp
      qed
      then have "\<forall>j < 8192. \<not> window_test ?v' j \<longrightarrow> translate (vm_paging ?v') (window_page j) = None" unfolding pg by blast
      moreover have "ram_ok s1" using U(3) L(7) by (simp add: ram_ok_def)
      ultimately have "vmm_ok ?v'" using C(2) [of start] U(2) unfolding vmm_ok_def pg by blast
      moreover have "vmm_map_physical ph len flags v = Some (0, ?v')" unfolding M using False U(1) by simp
      ultimately show thesis using same pg L(12) False by (intro refused [of ?v']) auto
    qed
  qed
qed

section \<open>Property\<close>

definition demo_vmm :: vmm where
  "demo_vmm = \<lparr> vm_paging = demo_paging, window_bitmap = replicate 1024 0 \<rparr>"

lemma demo_vmm_ok: "vmm_ok demo_vmm"
proof -
  have "translate demo_paging (window_page i) = None" if "i < 8192" for i
  proof -
    have "phys demo_paging (entry_at 0xB000 (IDX_PML4 (window_page i))) = 0" by (rule demo_entry [OF idx_lt(1) arena_page_slot [OF that]])
    moreover have "PTE_ADDR (cr3 demo_paging) = 0xB000" by (simp add: demo_paging_def PTE_ADDR_def)
    ultimately show ?thesis by (simp add: translate_def Let_def)
  qed
  then show ?thesis using demo_paging_ok(1,2) by (simp add: vmm_ok_def demo_vmm_def)
qed

lemma demo_vmm_free: "find_free_run 1 demo_vmm = Some 0"
proof -
  have "[0..<VMM_WINDOW_PAGES] = 0 # [Suc 0..<VMM_WINDOW_PAGES]" by (rule upt_conv_Cons) simp
  moreover define rest where "rest = [Suc 0..<VMM_WINDOW_PAGES]"
  ultimately have e: "[0..<VMM_WINDOW_PAGES] = 0 # rest" by (simp only:)
  show ?thesis unfolding find_free_run_def e by (simp add: window_test_def demo_vmm_def)
qed

text \<open>
  C35. \<open>vmm_map_physical\<close> of a range of physical bytes, shorter than 2^43 and below the physical
  address 2^52 - 4095, returns without a fault. Either it returns NULL
  and every address translates as before, or byte \<open>k\<close> behind the pointer it returns translates to
  byte \<open>k\<close> of the range, for every byte of the range and without assuming that the range is
  aligned, and every address that was translated before still is, to the same place. It returns
  NULL only if the window has no free run of that many pages, a huge page is in the way or fewer
  than three frames for each page are free. Pages of the window that are not reserved stay
  unmapped. Addresses in the recursive slot, whose translations are the tables themselves, are left
  out. From 2^44 bytes on the code cuts the number of pages to 32 bits and maps less than it says.
\<close>

theorem vmm_map_physical_maps:
  assumes "vmm_ok v" "0 < unat len" "unat len < 2 ^ 43" "unat ph + unat len + 4095 < 2 ^ 52"
  shows "\<exists>p v'. vmm_map_physical ph len flags v = Some (p, v') \<and> vmm_ok v' \<and>
    (if p = 0 then \<forall>a. IDX_PML4 a \<noteq> 510 \<longrightarrow> translate (vm_paging v') a = translate (vm_paging v) a
     else (\<forall>k < unat len. translate (vm_paging v') (p + of_nat k) = Some (ph + of_nat k)) \<and>
       (\<forall>a. IDX_PML4 a \<noteq> 510 \<and> translate (vm_paging v) a \<noteq> None \<longrightarrow> translate (vm_paging v') a = translate (vm_paging v) a)) \<and>
    (find_free_run (of_nat (page_count ph len)) v \<noteq> None \<and> (\<forall>j < 8192. no_huge (vm_paging v) (window_page j)) \<and>
       3 * page_count ph len \<le> card (frees (frames (vm_paging v))) \<longrightarrow> p \<noteq> 0)"
proof (cases rule: vmm_map_is [OF assms, of flags, case_names mapped refused])
  case (mapped p v')
  then show ?thesis by (intro exI [of _ p] exI [of _ v']) simp
next
  case (refused v')
  then show ?thesis by (intro exI [of _ 0] exI [of _ v']) auto
qed

theorem vmm_map_physical_maps_witness:
  "\<exists>p v'. vmm_map_physical 0xFEB80123 16 2 demo_vmm = Some (p, v') \<and> p \<noteq> 0 \<and> translate (vm_paging v') p = Some 0xFEB80123"
proof -
  have "page_count 0xFEB80123 16 = 1" by (simp add: page_count_def)
  moreover have "no_huge (vm_paging demo_vmm) (window_page j)" if "j < 8192" for j
    using demo_no_huge [OF arena_page_slot [OF that]] by (simp add: demo_vmm_def)
  moreover have "3 \<le> card (frees (frames (vm_paging demo_vmm)))" using demo_three by (simp add: demo_vmm_def)
  moreover note vmm_map_physical_maps [OF demo_vmm_ok, of 16 "0xFEB80123" 2] demo_vmm_free
  ultimately obtain p v' where m: "vmm_map_physical 0xFEB80123 16 2 demo_vmm = Some (p, v')" "p \<noteq> 0"
    "\<forall>k < 16. translate (vm_paging v') (p + of_nat k) = Some (0xFEB80123 + of_nat k)" by auto
  have "translate (vm_paging v') p = Some 0xFEB80123" using m(3) [rule_format, of 0] by simp
  then show ?thesis using m(1,2) by blast
qed

end
