(* ===== verification/Sched.thy ===== *)
theory Sched
  imports Prelude
begin

text \<open>
  Tasks and the scheduler, \<^verbatim>\<open>arch/x86/common/scheduler.c\<close> and \<^verbatim>\<open>arch/x86/64/task.c\<close>: a FIFO of ready
  tasks for each of 32 priorities with a bitmap of those that are not empty, a timer wheel of 256
  buckets, and the wait queues that mutexes and semaphores block on. All lists are linked through
  the tasks themselves, so the state maps addresses to tasks and 0 is \<^verbatim>\<open>NULL\<close>. The fields of a task
  that only the context switch and the console use (registers, stack, name) are left out. The
  switch itself is the end of a step: what the next task does is another one. The arrays are
  functions of their index, which the code clamps or reduces; a \<open>None\<close> is a loop over a list that
  does not end, or a processor that halts.
\<close>

section \<open>Constants\<close>

definition TASK_MAX_TASKS :: nat where [simp]: "TASK_MAX_TASKS = 256"
definition TASK_NO_TIMEOUT :: u32 where [simp]: "TASK_NO_TIMEOUT = 0"
definition TASK_PRIO_IDLE :: u8 where [simp]: "TASK_PRIO_IDLE = 0"
definition TASK_PRIO_NORMAL :: u8 where [simp]: "TASK_PRIO_NORMAL = 8"
definition TASK_PRIO_ABOVE_NORM :: u8 where [simp]: "TASK_PRIO_ABOVE_NORM = 12"
definition TASK_PRIO_REALTIME :: u8 where [simp]: "TASK_PRIO_REALTIME = 16"
definition TASK_PRIO_CRITICAL :: u8 where [simp]: "TASK_PRIO_CRITICAL = 31"
definition TASK_NUM_PRIOS :: u8 where [simp]: "TASK_NUM_PRIOS = 32"
definition TIMER_WHEEL_SIZE :: u32 where [simp]: "TIMER_WHEEL_SIZE = 256"

section \<open>State\<close>

datatype task_state = TASK_READY | TASK_RUNNING | TASK_BLOCKED | TASK_SLEEPING | TASK_TERMINATED | TASK_ZOMBIE
datatype sched_class = SCHED_KERNEL | SCHED_LATENCY | SCHED_THROUGHPUT | SCHED_NORMAL
datatype wake_reason = WAKE_NONE | WAKE_SIGNALED | WAKE_TIMEOUT

record task =
  t_tid :: u32
  t_state :: task_state
  t_class :: sched_class
  base_prio :: u8
  cur_prio :: u8
  t_quantum :: u32
  quantum_max :: u32
  sleep_until :: u32
  t_next :: u64
  t_prev :: u64
  wait_next :: u64
  wait_prev :: u64
  wait_queue :: u64
  t_wake :: wake_reason
  timer_next :: u64
  timer_prev :: u64
  timer_bucket :: u32

record sched =
  tasks :: "u64 \<Rightarrow> task"
  ready_queue :: "nat \<Rightarrow> u64"
  ready_tail :: "nat \<Rightarrow> u64"
  ready_bitmap :: u32
  timer_wheel :: "nat \<Rightarrow> u64"
  tick_count :: u32
  queue_head :: "u64 \<Rightarrow> u64"
  queue_tail :: "u64 \<Rightarrow> u64"
  current_task :: u64
  next_tid :: u32
  task_table :: "u64 list"
  idle_task :: u64

definition upd_task :: "u64 \<Rightarrow> (task \<Rightarrow> task) \<Rightarrow> sched \<Rightarrow> sched" where
  "upd_task t f s = s\<lparr> tasks := (tasks s)(t := f (tasks s t)) \<rparr>"

text \<open>What \<^verbatim>\<open>memset\<close> leaves of a task: the first constructor of each enumeration is its 0.\<close>

definition zero_task :: task where
  "zero_task = \<lparr> t_tid = 0, t_state = TASK_READY, t_class = SCHED_KERNEL, base_prio = 0, cur_prio = 0, t_quantum = 0,
     quantum_max = 0, sleep_until = 0, t_next = 0, t_prev = 0, wait_next = 0, wait_prev = 0, wait_queue = 0,
     t_wake = WAKE_NONE, timer_next = 0, timer_prev = 0, timer_bucket = 0 \<rparr>"

section \<open>Ready queues\<close>

definition prio_of :: "task \<Rightarrow> nat" where
  "prio_of x = unat (if cur_prio x \<ge> TASK_NUM_PRIOS then TASK_NUM_PRIOS - 1 else cur_prio x)"

definition scheduler_add :: "u64 \<Rightarrow> sched \<Rightarrow> sched" where
  "scheduler_add t s =
     (if t = 0 then s
      else
        let prio = prio_of (tasks s t);
            tail = ready_tail s prio;
            s1 = upd_task t (\<lambda>x. x\<lparr> t_state := TASK_READY, t_next := 0, t_prev := tail \<rparr>) s;
            s2 = (if tail \<noteq> 0 then upd_task tail (\<lambda>x. x\<lparr> t_next := t \<rparr>) s1
                  else s1\<lparr> ready_queue := (ready_queue s1)(prio := t),
                           ready_bitmap := ready_bitmap s1 OR push_bit prio 1 \<rparr>)
        in s2\<lparr> ready_tail := (ready_tail s2)(prio := t) \<rparr>)"

definition scheduler_remove :: "u64 \<Rightarrow> sched \<Rightarrow> sched" where
  "scheduler_remove t s =
     (if t = 0 then s
      else if t_state (tasks s t) \<noteq> TASK_READY then s
      else
        let prio = prio_of (tasks s t);
            s1 = (if t_prev (tasks s t) \<noteq> 0 then upd_task (t_prev (tasks s t)) (\<lambda>x. x\<lparr> t_next := t_next (tasks s t) \<rparr>) s
                  else s\<lparr> ready_queue := (ready_queue s)(prio := t_next (tasks s t)) \<rparr>);
            s2 = (if t_next (tasks s1 t) \<noteq> 0 then upd_task (t_next (tasks s1 t)) (\<lambda>x. x\<lparr> t_prev := t_prev (tasks s1 t) \<rparr>) s1
                  else s1\<lparr> ready_tail := (ready_tail s1)(prio := t_prev (tasks s1 t)) \<rparr>);
            s3 = upd_task t (\<lambda>x. x\<lparr> t_next := 0, t_prev := 0 \<rparr>) s2
        in if ready_queue s3 prio = 0 then s3\<lparr> ready_bitmap := ready_bitmap s3 AND NOT (push_bit prio 1) \<rparr> else s3)"

text \<open>The number of the highest bit that is set, counted from 1.\<close>

definition fls :: "u32 \<Rightarrow> nat" where
  "fls w = (case List.find (bit w) (rev [0..<32]) of None \<Rightarrow> 0 | Some i \<Rightarrow> i + 1)"

lemma find_rev_upt: "List.find P (rev [0..<n]) = Some i \<Longrightarrow> P i \<and> i < n \<and> (\<forall>j < n. P j \<longrightarrow> j \<le> i)"
proof (induction n)
  case (Suc n)
  then show ?case by (cases "P n") (auto simp: less_Suc_eq)
qed simp

lemma fls_bit:
  assumes "w \<noteq> 0"
  shows "bit w (fls w - 1)" "fls w \<noteq> 0" "fls w \<le> 32" "bit w j \<Longrightarrow> j < fls w"
proof -
  obtain i where i: "bit w i" using assms by (auto simp: bit_eq_iff)
  have b: "bit w k \<Longrightarrow> k < 32" for k using bit_imp_le_length [of w k] by simp
  obtain k where k: "List.find (bit w) (rev [0..<32]) = Some k"
    using i b [OF i] by (cases "List.find (bit w) (rev [0..<32])") (auto simp: find_None_iff)
  then show "bit w (fls w - 1)" "fls w \<noteq> 0" "fls w \<le> 32" "bit w j \<Longrightarrow> j < fls w"
    using find_rev_upt [OF k] b [of j] by (auto simp: fls_def)
qed

lemma bit_one_at: "h < 32 \<Longrightarrow> bit (push_bit h 1 :: u32) i \<longleftrightarrow> i = h"
  by (auto simp: bit_exp_iff)

function scheduler_next :: "sched \<Rightarrow> u64 \<times> sched" where
  "scheduler_next s =
     (if ready_bitmap s = 0 then (ready_queue s (unat TASK_PRIO_IDLE), s)
      else
        let highest = fls (ready_bitmap s) - 1
        in if ready_queue s highest = 0
           then scheduler_next (s\<lparr> ready_bitmap := ready_bitmap s AND NOT (push_bit highest 1) \<rparr>)
           else (ready_queue s highest, s))"
  by pat_completeness auto
termination
proof (relation "measure (\<lambda>s. card {i. bit (ready_bitmap s) i})")
  fix s :: sched and h
  assume b: "ready_bitmap s \<noteq> 0" and h: "h = fls (ready_bitmap s) - 1"
  have "bit (ready_bitmap s) h" using fls_bit(1) [OF b] h by simp
  moreover have "h < 32" using fls_bit(2,3) [OF b] h by simp
  then have "bit (ready_bitmap s AND NOT (push_bit h 1)) i \<longleftrightarrow> bit (ready_bitmap s) i \<and> i \<noteq> h" for i
    using bit_imp_le_length [of "ready_bitmap s" i] by (auto simp: bit_and_iff bit_not_iff bit_one_at simp del: push_bit_of_1)
  ultimately have "{i. bit (ready_bitmap s AND NOT (push_bit h 1)) i} \<subset> {i. bit (ready_bitmap s) i}" by auto
  then show "(s\<lparr> ready_bitmap := ready_bitmap s AND NOT (push_bit h 1) \<rparr>, s) \<in> measure (\<lambda>s. card {i. bit (ready_bitmap s) i})"
    using psubset_card_mono [OF finite_bit_word] by simp
qed simp

declare scheduler_next.simps [simp del]

section \<open>Choosing the next task\<close>

definition schedule :: "sched \<Rightarrow> sched" where
  "schedule s =
     (let old = current_task s
      in case scheduler_next s of (next, s1) \<Rightarrow>
        if next = 0 then s1
        else if old = next then s1
        else
          let s2 = (if old \<noteq> 0 \<and> t_state (tasks s1 old) = TASK_RUNNING
                    then scheduler_add old (upd_task old (\<lambda>x. x\<lparr> t_state := TASK_READY \<rparr>) s1) else s1);
              s3 = scheduler_remove next s2
          in (upd_task next (\<lambda>x. x\<lparr> t_state := TASK_RUNNING \<rparr>) s3)\<lparr> current_task := next \<rparr>)"

definition task_yield :: "sched \<Rightarrow> sched" where
  "task_yield s =
     (let t = current_task s
      in schedule (if t \<noteq> 0 then upd_task t (\<lambda>x. x\<lparr> t_quantum := quantum_max x \<rparr>) s else s))"

text \<open>\<open>None\<close>: without a current task the processor halts.\<close>

definition task_exit :: "sched \<Rightarrow> sched option" where
  "task_exit s =
     (let t = current_task s
      in if t = 0 then None else Some (schedule (upd_task t (\<lambda>x. x\<lparr> t_state := TASK_ZOMBIE \<rparr>) s)))"

section \<open>Wait queues\<close>

definition task_queue_init :: "u64 \<Rightarrow> sched \<Rightarrow> sched" where
  "task_queue_init q s =
     (if q = 0 then s else s\<lparr> queue_head := (queue_head s)(q := 0), queue_tail := (queue_tail s)(q := 0) \<rparr>)"

definition task_queue_push :: "u64 \<Rightarrow> u64 \<Rightarrow> sched \<Rightarrow> sched" where
  "task_queue_push q t s =
     (if q = 0 \<or> t = 0 then s
      else
        let tail = queue_tail s q;
            s1 = upd_task t (\<lambda>x. x\<lparr> wait_next := 0, wait_prev := tail \<rparr>) s;
            s2 = (if tail \<noteq> 0 then upd_task tail (\<lambda>x. x\<lparr> wait_next := t \<rparr>) s1
                  else s1\<lparr> queue_head := (queue_head s1)(q := t) \<rparr>);
            s3 = s2\<lparr> queue_tail := (queue_tail s2)(q := t) \<rparr>
        in upd_task t (\<lambda>x. x\<lparr> wait_queue := q \<rparr>) s3)"

definition task_queue_remove :: "u64 \<Rightarrow> u64 \<Rightarrow> sched \<Rightarrow> sched" where
  "task_queue_remove q t s =
     (if q = 0 \<or> t = 0 then s
      else if wait_queue (tasks s t) \<noteq> q then s
      else
        let s1 = (if wait_prev (tasks s t) \<noteq> 0 then upd_task (wait_prev (tasks s t)) (\<lambda>x. x\<lparr> wait_next := wait_next (tasks s t) \<rparr>) s
                  else s\<lparr> queue_head := (queue_head s)(q := wait_next (tasks s t)) \<rparr>);
            s2 = (if wait_next (tasks s1 t) \<noteq> 0 then upd_task (wait_next (tasks s1 t)) (\<lambda>x. x\<lparr> wait_prev := wait_prev (tasks s1 t) \<rparr>) s1
                  else s1\<lparr> queue_tail := (queue_tail s1)(q := wait_prev (tasks s1 t)) \<rparr>)
        in upd_task t (\<lambda>x. x\<lparr> wait_next := 0, wait_prev := 0, wait_queue := 0 \<rparr>) s2)"

definition task_queue_pop :: "u64 \<Rightarrow> sched \<Rightarrow> u64 \<times> sched" where
  "task_queue_pop q s =
     (if q = 0 \<or> queue_head s q = 0 then (0, s) else (queue_head s q, task_queue_remove q (queue_head s q) s))"

section \<open>The timer wheel\<close>

definition timer_wheel_remove :: "u64 \<Rightarrow> sched \<Rightarrow> sched" where
  "timer_wheel_remove t s =
     (if t = 0 then s
      else if timer_bucket (tasks s t) \<ge> TIMER_WHEEL_SIZE then s
      else
        let bucket = unat (timer_bucket (tasks s t));
            s1 = (if timer_prev (tasks s t) \<noteq> 0 then upd_task (timer_prev (tasks s t)) (\<lambda>x. x\<lparr> timer_next := timer_next (tasks s t) \<rparr>) s
                  else s\<lparr> timer_wheel := (timer_wheel s)(bucket := timer_next (tasks s t)) \<rparr>);
            s2 = (if timer_next (tasks s1 t) \<noteq> 0
                  then upd_task (timer_next (tasks s1 t)) (\<lambda>x. x\<lparr> timer_prev := timer_prev (tasks s1 t) \<rparr>) s1 else s1)
        in upd_task t (\<lambda>x. x\<lparr> timer_next := 0, timer_prev := 0, timer_bucket := 0xFFFFFFFF \<rparr>) s2)"

definition timer_wheel_insert :: "u64 \<Rightarrow> u32 \<Rightarrow> sched \<Rightarrow> sched" where
  "timer_wheel_insert t timeout_ticks s0 =
     (if t = 0 then s0
      else
        let s = timer_wheel_remove t s0;
            bucket = (tick_count s + timeout_ticks) mod TIMER_WHEEL_SIZE;
            b = unat bucket;
            s1 = upd_task t (\<lambda>x. x\<lparr> timer_bucket := bucket, timer_next := timer_wheel s b, timer_prev := 0 \<rparr>) s;
            s2 = (if timer_wheel s1 b \<noteq> 0 then upd_task (timer_wheel s1 b) (\<lambda>x. x\<lparr> timer_prev := t \<rparr>) s1 else s1)
        in s2\<lparr> timer_wheel := (timer_wheel s2)(b := t) \<rparr>)"

definition wake_expired :: "u64 \<Rightarrow> sched \<Rightarrow> sched" where
  "wake_expired t s0 =
     (let s = timer_wheel_remove t s0
      in if t_state (tasks s t) = TASK_SLEEPING
         then scheduler_add t (upd_task t (\<lambda>x. x\<lparr> t_state := TASK_READY, sleep_until := 0 \<rparr>) s)
         else if t_state (tasks s t) = TASK_BLOCKED
         then
           let s1 = (if wait_queue (tasks s t) \<noteq> 0 then task_queue_remove (wait_queue (tasks s t)) t s else s)
           in scheduler_add t (upd_task t (\<lambda>x. x\<lparr> t_wake := WAKE_TIMEOUT, sleep_until := 0, t_state := TASK_READY \<rparr>) s1)
         else s)"

partial_function (option) wheel_loop :: "u64 \<Rightarrow> sched \<Rightarrow> sched option" where
  "wheel_loop t s =
     (if t = 0 then Some s
      else wheel_loop (timer_next (tasks s t))
             (if sleep_until (tasks s t) \<le> tick_count s then wake_expired t s else s))"

definition scheduler_timer_wheel_tick :: "sched \<Rightarrow> sched option" where
  "scheduler_timer_wheel_tick s = wheel_loop (timer_wheel s (unat (tick_count s mod TIMER_WHEEL_SIZE))) s"

definition scheduler_tick :: "sched \<Rightarrow> sched option" where
  "scheduler_tick s0 =
     map_option (\<lambda>s.
       let t = current_task s
       in if t = 0 then s
          else
            let s1 = (if t_quantum (tasks s t) > 0 then upd_task t (\<lambda>x. x\<lparr> t_quantum := t_quantum x - 1 \<rparr>) s else s)
            in if t_quantum (tasks s1 t) = 0 then schedule (upd_task t (\<lambda>x. x\<lparr> t_quantum := quantum_max x \<rparr>) s1) else s1)
       (scheduler_timer_wheel_tick s0)"

text \<open>Milliseconds to ticks of 10 ms, at least one; the sum wraps.\<close>

definition ms_ticks :: "u32 \<Rightarrow> u32" where
  "ms_ticks ms = (let ticks = (ms + 9) div 10 in if ticks = 0 then 1 else ticks)"

definition task_sleep :: "u32 \<Rightarrow> sched \<Rightarrow> sched" where
  "task_sleep ms s =
     (let t = current_task s
      in if t = 0 then s
         else
           let ticks = ms_ticks ms
           in schedule (timer_wheel_insert t ticks
                (upd_task t (\<lambda>x. x\<lparr> sleep_until := tick_count s + ticks, t_state := TASK_SLEEPING \<rparr>) s)))"

section \<open>Blocking and waking\<close>

text \<open>
  \<open>task_block_on\<close> up to the switch; its result is the \<open>t_wake\<close> of the task when it runs again, and
  \<open>WAKE_NONE\<close> at once if there is no current task.
\<close>

definition task_block_on :: "u64 \<Rightarrow> u32 \<Rightarrow> sched \<Rightarrow> sched" where
  "task_block_on q timeout_ms s =
     (let t = current_task s
      in if t = 0 then s
         else
           let ticks = (if timeout_ms \<noteq> TASK_NO_TIMEOUT then ms_ticks timeout_ms else 0);
               s1 = upd_task t (\<lambda>x. x\<lparr> t_state := TASK_BLOCKED, t_wake := WAKE_NONE,
                      sleep_until := if timeout_ms \<noteq> TASK_NO_TIMEOUT then tick_count s + ticks else 0 \<rparr>) s;
               s2 = task_queue_push q t s1
           in schedule (if ticks > 0 then timer_wheel_insert t ticks s2 else s2))"

definition task_wake_one :: "u64 \<Rightarrow> sched \<Rightarrow> sched" where
  "task_wake_one q s =
     (case task_queue_pop q s of (t, s1) \<Rightarrow>
        if t = 0 then s1
        else scheduler_add t
               (upd_task t (\<lambda>x. x\<lparr> t_wake := WAKE_SIGNALED, sleep_until := 0, t_state := TASK_READY \<rparr>)
                 (timer_wheel_remove t s1)))"

partial_function (option) task_wake_all_queue :: "u64 \<Rightarrow> sched \<Rightarrow> sched option" where
  "task_wake_all_queue q s =
     (if q = 0 \<or> queue_head s q = 0 then Some s
      else case task_queue_pop q s of (t, s1) \<Rightarrow>
        task_wake_all_queue q
          (scheduler_add t (upd_task t (\<lambda>x. x\<lparr> t_wake := WAKE_SIGNALED, sleep_until := 0, t_state := TASK_READY \<rparr>) s1)))"

definition task_boost_priority :: "u64 \<Rightarrow> u8 \<Rightarrow> sched \<Rightarrow> sched" where
  "task_boost_priority t prio s =
     (let new_prio = (if prio > TASK_PRIO_CRITICAL then TASK_PRIO_CRITICAL else prio)
      in if t = 0 then s
         else if base_prio (tasks s t) \<ge> TASK_PRIO_REALTIME then s
         else if new_prio \<le> base_prio (tasks s t) then s
         else
           let s1 = upd_task t (\<lambda>x. x\<lparr> cur_prio := new_prio \<rparr>) s
           in if t_state (tasks s1 t) = TASK_READY then scheduler_add t (scheduler_remove t s1) else s1)"

definition task_unboost_priority :: "u64 \<Rightarrow> sched \<Rightarrow> sched" where
  "task_unboost_priority t s =
     (if t = 0 then s
      else if cur_prio (tasks s t) = base_prio (tasks s t) then s
      else
        let s1 = upd_task t (\<lambda>x. x\<lparr> cur_prio := base_prio x \<rparr>) s
        in if t_state (tasks s1 t) = TASK_READY then scheduler_add t (scheduler_remove t s1) else s1)"

section \<open>The task table\<close>

definition task_find_free_slot :: "sched \<Rightarrow> nat option" where
  "task_find_free_slot s = List.find (\<lambda>i. task_table s ! i = 0) [0..<TASK_MAX_TASKS]"

definition task_find :: "u32 \<Rightarrow> sched \<Rightarrow> u64" where
  "task_find tid s = (case List.find (\<lambda>t. t \<noteq> 0 \<and> t_tid (tasks s t) = tid) (task_table s) of None \<Rightarrow> 0 | Some t \<Rightarrow> t)"

definition task_count :: "sched \<Rightarrow> nat" where
  "task_count s = length (filter (\<lambda>t. t \<noteq> 0) (task_table s))"

definition wake_sleeper :: "u64 \<Rightarrow> sched \<Rightarrow> sched" where
  "wake_sleeper t s =
     (if t \<noteq> 0 \<and> t_state (tasks s t) = TASK_SLEEPING
      then scheduler_add t (upd_task t (\<lambda>x. x\<lparr> t_state := TASK_READY, sleep_until := 0 \<rparr>) (timer_wheel_remove t s))
      else s)"

definition task_wake :: "u32 \<Rightarrow> sched \<Rightarrow> sched" where
  "task_wake tid s = wake_sleeper (task_find tid s) s"

definition task_wake_all :: "sched \<Rightarrow> sched" where
  "task_wake_all s = fold wake_sleeper (task_table s) s"

definition prio_to_quantum :: "u8 \<Rightarrow> u32" where
  "prio_to_quantum priority =
     (if priority \<ge> TASK_PRIO_REALTIME then 6
      else if priority \<ge> TASK_PRIO_ABOVE_NORM then 2
      else if priority \<ge> TASK_PRIO_NORMAL then 4
      else 8)"

text \<open>
  \<open>mem\<close> and \<open>stack\<close> are what the two calls of \<^verbatim>\<open>malloc\<close> return. The entry point is not \<^verbatim>\<open>NULL\<close>.
\<close>

definition task_create_arg_prio :: "u64 \<Rightarrow> u64 \<Rightarrow> u8 \<Rightarrow> sched \<Rightarrow> u64 \<times> sched" where
  "task_create_arg_prio mem stack priority0 s =
     (case task_find_free_slot s of
        None \<Rightarrow> (0, s)
      | Some slot \<Rightarrow>
          if mem = 0 then (0, s)
          else
            let priority = (if priority0 > TASK_PRIO_CRITICAL then TASK_PRIO_CRITICAL else priority0);
                s1 = (upd_task mem (\<lambda>_. zero_task\<lparr> t_tid := next_tid s, t_state := TASK_READY, t_class := SCHED_NORMAL,
                        base_prio := priority, cur_prio := priority, t_quantum := prio_to_quantum priority,
                        quantum_max := prio_to_quantum priority, sleep_until := 0, t_wake := WAKE_NONE \<rparr>) s)
                     \<lparr> next_tid := next_tid s + 1 \<rparr>
            in if stack = 0 then (0, s1)
               else (mem, scheduler_add mem (s1\<lparr> task_table := (task_table s1)[slot := mem] \<rparr>)))"

definition task_create :: "u64 \<Rightarrow> u64 \<Rightarrow> sched \<Rightarrow> u64 \<times> sched" where
  "task_create mem stack s = task_create_arg_prio mem stack TASK_PRIO_NORMAL s"

definition task_create_prio :: "u64 \<Rightarrow> u64 \<Rightarrow> u8 \<Rightarrow> sched \<Rightarrow> u64 \<times> sched" where
  "task_create_prio mem stack priority s = task_create_arg_prio mem stack priority s"

definition task_create_arg :: "u64 \<Rightarrow> u64 \<Rightarrow> sched \<Rightarrow> u64 \<times> sched" where
  "task_create_arg mem stack s = task_create_arg_prio mem stack TASK_PRIO_NORMAL s"

definition task_set_current :: "u64 \<Rightarrow> sched \<Rightarrow> sched" where
  "task_set_current t s = s\<lparr> current_task := t \<rparr>"

fun drop_entry :: "u64 \<Rightarrow> u64 list \<Rightarrow> u64 list" where
  "drop_entry t [] = []"
| "drop_entry t (x # xs) = (if x = t then 0 # xs else x # drop_entry t xs)"

definition task_destroy :: "u64 \<Rightarrow> sched \<Rightarrow> sched" where
  "task_destroy t s0 =
     (if t = 0 then s0
      else
        let s1 = timer_wheel_remove t (scheduler_remove t s0);
            s2 = (if wait_queue (tasks s1 t) \<noteq> 0 then task_queue_remove (wait_queue (tasks s1 t)) t s1 else s1)
        in s2\<lparr> task_table := drop_entry t (task_table s2) \<rparr>)"

definition reap_slot :: "nat \<Rightarrow> sched \<Rightarrow> sched" where
  "reap_slot i s =
     (let t = task_table s ! i
      in if t \<noteq> 0 \<and> t_state (tasks s t) = TASK_ZOMBIE \<and> t \<noteq> current_task s \<and> t \<noteq> ready_queue s (unat TASK_PRIO_IDLE)
         then task_destroy t s else s)"

definition scheduler_reap :: "sched \<Rightarrow> sched" where
  "scheduler_reap s = fold reap_slot [0..<TASK_MAX_TASKS] s"

text \<open>One round of the loop of the reaper task, up to the switch in \<open>task_sleep\<close>.\<close>

definition reaper_entry :: "sched \<Rightarrow> sched" where
  "reaper_entry s = task_sleep 50 (scheduler_reap s)"

section \<open>Start-up\<close>

text \<open>\<open>mi\<close>, \<open>si\<close> and \<open>mr\<close>, \<open>sr\<close> are the memory and the stacks of the idle task and of the reaper.\<close>

definition task_init :: "u64 \<Rightarrow> u64 \<Rightarrow> u64 \<Rightarrow> u64 \<Rightarrow> sched \<Rightarrow> sched" where
  "task_init mi si mr sr s0 =
     (let s = s0\<lparr> task_table := replicate TASK_MAX_TASKS 0, current_task := 0, next_tid := 1 \<rparr>
      in case task_create mi si s of (idle, s1) \<Rightarrow>
           let s2 = (if idle \<noteq> 0
                     then upd_task idle (\<lambda>x. x\<lparr> t_class := SCHED_KERNEL, base_prio := TASK_PRIO_IDLE, cur_prio := TASK_PRIO_IDLE,
                            t_quantum := 0xFFFFFFFF, quantum_max := 0xFFFFFFFF \<rparr>) s1 else s1)\<lparr> idle_task := idle \<rparr>
           in case task_create_arg_prio mr sr TASK_PRIO_CRITICAL s2 of (reaper, s3) \<Rightarrow>
                if reaper \<noteq> 0 then upd_task reaper (\<lambda>x. x\<lparr> t_class := SCHED_KERNEL \<rparr>) s3 else s3)"

definition scheduler_init :: "u64 \<Rightarrow> u64 \<Rightarrow> u64 \<Rightarrow> u64 \<Rightarrow> sched \<Rightarrow> sched" where
  "scheduler_init mi si mr sr s =
     task_init mi si mr sr
       (s\<lparr> ready_queue := (\<lambda>_. 0), ready_tail := (\<lambda>_. 0), ready_bitmap := 0, timer_wheel := (\<lambda>_. 0) \<rparr>)"

end
