(* ===== verification/SchedSpec.thy ===== *)
theory SchedSpec
  imports Sched
begin

text \<open>
  The lists of the scheduler against lists of tasks: doubly linked lists in general, the ready
  queues with their bitmap, and what adding, removing and choosing a task does to them.
\<close>

section \<open>Doubly linked lists\<close>

definition first0 :: "u64 list \<Rightarrow> u64" where
  "first0 xs = (case xs of [] \<Rightarrow> 0 | x # _ \<Rightarrow> x)"

definition last0 :: "u64 list \<Rightarrow> u64" where
  "last0 xs = (if xs = [] then 0 else last xs)"

lemma first0_simps [simp]: "first0 [] = 0" "first0 (x # xs) = x" "first0 (xs @ ys) = (if xs = [] then first0 ys else first0 xs)"
  by (cases xs; simp add: first0_def)+

lemma last0_simps [simp]: "last0 [] = 0" "last0 (xs @ [x]) = x" "last0 (xs @ ys) = (if ys = [] then last0 xs else last0 ys)"
    "last0 (x # xs) = (if xs = [] then x else last0 xs)"
  by (simp_all add: last0_def)

lemma first0_in: "xs \<noteq> [] \<Longrightarrow> first0 xs \<in> set xs"
  by (cases xs) simp_all

lemma last0_in: "xs \<noteq> [] \<Longrightarrow> last0 xs \<in> set xs"
  by (simp add: last0_def)

text \<open>Every split of the list shows the neighbours of an element.\<close>

definition dll :: "(u64 \<Rightarrow> u64) \<Rightarrow> (u64 \<Rightarrow> u64) \<Rightarrow> u64 list \<Rightarrow> bool" where
  "dll nx pv xs \<longleftrightarrow> distinct xs \<and> 0 \<notin> set xs \<and> (\<forall>ys x zs. xs = ys @ x # zs \<longrightarrow> pv x = last0 ys \<and> nx x = first0 zs)"

lemma dllD:
  assumes "dll nx pv xs"
  shows "distinct xs" "0 \<notin> set xs" "xs = ys @ x # zs \<Longrightarrow> pv x = last0 ys" "xs = ys @ x # zs \<Longrightarrow> nx x = first0 zs"
  using assms unfolding dll_def by blast+

lemma dllI:
  assumes "distinct xs" "0 \<notin> set xs" "\<And>ys x zs. xs = ys @ x # zs \<Longrightarrow> pv x = last0 ys \<and> nx x = first0 zs"
  shows "dll nx pv xs"
  using assms unfolding dll_def by blast

lemma dll_Nil [simp]: "dll nx pv []"
  by (simp add: dll_def)

lemma dll_hd0 [simp]: "dll nx pv xs \<Longrightarrow> first0 xs = 0 \<longleftrightarrow> xs = []" "dll nx pv xs \<Longrightarrow> last0 xs = 0 \<longleftrightarrow> xs = []"
  using first0_in [of xs] last0_in [of xs] dllD(2) [of nx pv xs] by (auto intro: ccontr)

lemma dll_cong:
  assumes "dll nx pv xs" "\<And>x. x \<in> set xs \<Longrightarrow> nx' x = nx x" "\<And>x. x \<in> set xs \<Longrightarrow> pv' x = pv x"
  shows "dll nx' pv' xs"
  by (rule dllI) (use dllD [OF assms(1)] assms(2,3) in auto)

lemma dll_append:
  assumes d: "dll nx pv xs" and t: "t \<notin> set xs" "t \<noteq> 0"
    and nx': "nx' t = 0" "\<And>x. x \<in> set xs \<Longrightarrow> nx' x = (if x = last0 xs then t else nx x)"
    and pv': "pv' t = last0 xs" "\<And>x. x \<in> set xs \<Longrightarrow> pv' x = pv x"
  shows "dll nx' pv' (xs @ [t])"
proof (rule dllI)
  note D = dllD [OF d]
  show "distinct (xs @ [t])" "0 \<notin> set (xs @ [t])" using D t by auto
  fix ys x zs assume e: "xs @ [t] = ys @ x # zs"
  show "pv' x = last0 ys \<and> nx' x = first0 zs"
  proof (cases zs rule: rev_cases)
    case Nil
    then have "xs = ys" "t = x" using e by simp_all
    then show ?thesis using Nil nx' pv' by simp_all
  next
    case (snoc zs' z)
    then have s: "xs = ys @ x # zs'" "z = t" using e by simp_all
    have l: "x = last0 xs \<longleftrightarrow> zs' = []" using s(1) D(1) last0_in [of zs'] by auto
    show ?thesis using D(3,4) [OF s(1)] nx'(2) [of x] pv'(2) [of x] s l snoc by simp
  qed
qed

lemma dll_front:
  assumes d: "dll nx pv xs" and t: "t \<notin> set xs" "t \<noteq> 0"
    and nx': "nx' t = first0 xs" "\<And>x. x \<in> set xs \<Longrightarrow> nx' x = nx x"
    and pv': "pv' t = 0" "\<And>x. x \<in> set xs \<Longrightarrow> pv' x = (if x = first0 xs then t else pv x)"
  shows "dll nx' pv' (t # xs)"
proof (rule dllI)
  note D = dllD [OF d]
  show "distinct (t # xs)" "0 \<notin> set (t # xs)" using D t by auto
  fix ys x zs assume e: "t # xs = ys @ x # zs"
  show "pv' x = last0 ys \<and> nx' x = first0 zs"
  proof (cases ys)
    case Nil
    then show ?thesis using e nx' pv' by auto
  next
    case (Cons y ys')
    then have s: "xs = ys' @ x # zs" "y = t" using e by simp_all
    have l: "x = first0 xs \<longleftrightarrow> ys' = []" using s(1) D(1) first0_in [of ys'] by auto
    show ?thesis using D(3,4) [OF s(1)] nx'(2) [of x] pv'(2) [of x] s l Cons by simp
  qed
qed

lemma dll_remove:
  assumes d: "dll nx pv (ys @ t # zs)"
    and nx': "\<And>x. x \<in> set ys \<union> set zs \<Longrightarrow> nx' x = (if x = last0 ys then first0 zs else nx x)"
    and pv': "\<And>x. x \<in> set ys \<union> set zs \<Longrightarrow> pv' x = (if x = first0 zs then last0 ys else pv x)"
  shows "dll nx' pv' (ys @ zs)"
proof (rule dllI)
  note D = dllD [OF d]
  show "distinct (ys @ zs)" "0 \<notin> set (ys @ zs)" using D by auto
  fix as x bs assume "ys @ zs = as @ x # bs"
  then consider us where "ys = as @ x # us" "bs = us @ zs" | us where "zs = us @ x # bs" "as = ys @ us"
    by (auto simp: append_eq_append_conv2 Cons_eq_append_conv append_eq_Cons_conv)
  then show "pv' x = last0 as \<and> nx' x = first0 bs"
  proof cases
    case 1
    have e: "ys @ t # zs = as @ x # (us @ t # zs)" using 1 by simp
    have "x = last0 ys \<longleftrightarrow> us = []" using 1 D(1) last0_in [of us] by auto
    moreover have "x \<noteq> first0 zs" using 1 D(1,2) first0_in [of zs] by (cases "zs = []") auto
    ultimately show ?thesis using D(3,4) [OF e] nx' [of x] pv' [of x] 1 by auto
  next
    case 2
    have e: "ys @ t # zs = (ys @ t # us) @ x # bs" using 2 by simp
    have "x = first0 zs \<longleftrightarrow> us = []" using 2 D(1) first0_in [of us] by auto
    moreover have "x \<noteq> last0 ys" using 2 D(1,2) last0_in [of ys] by (cases "ys = []") auto
    ultimately show ?thesis using D(3,4) [OF e] nx' [of x] pv' [of x] 2 by auto
  qed
qed

section \<open>Ready queues\<close>

definition ready_ok :: "sched \<Rightarrow> (nat \<Rightarrow> u64 list) \<Rightarrow> bool" where
  "ready_ok s R \<longleftrightarrow> (\<forall>p < 32. ready_queue s p = first0 (R p) \<and> ready_tail s p = last0 (R p) \<and> (bit (ready_bitmap s) p \<longleftrightarrow> R p \<noteq> []) \<and>
     dll (\<lambda>t. t_next (tasks s t)) (\<lambda>t. t_prev (tasks s t)) (R p) \<and>
     (\<forall>t \<in> set (R p). t_state (tasks s t) = TASK_READY \<and> prio_of (tasks s t) = p))"

definition queued :: "(nat \<Rightarrow> u64 list) \<Rightarrow> u64 set" where
  "queued R = (\<Union>p < 32. set (R p))"

lemma ready_okD:
  assumes "ready_ok s R" "p < 32"
  shows "ready_queue s p = first0 (R p)" "ready_tail s p = last0 (R p)" "bit (ready_bitmap s) p \<longleftrightarrow> R p \<noteq> []"
    "dll (\<lambda>t. t_next (tasks s t)) (\<lambda>t. t_prev (tasks s t)) (R p)"
    "t \<in> set (R p) \<Longrightarrow> t_state (tasks s t) = TASK_READY" "t \<in> set (R p) \<Longrightarrow> prio_of (tasks s t) = p"
  using assms unfolding ready_ok_def by blast+

lemma prio_lt [simp]: "prio_of x < 32"
  by (auto simp: prio_of_def word_le_nat_alt not_le)

text \<open>What a change of the tasks that keeps links, priority and state does not disturb.\<close>

lemma ready_ok_cong:
  assumes "ready_ok s R" "ready_queue s' = ready_queue s" "ready_tail s' = ready_tail s" "ready_bitmap s' = ready_bitmap s"
    "\<And>t. t \<in> queued R \<Longrightarrow> t_next (tasks s' t) = t_next (tasks s t) \<and> t_prev (tasks s' t) = t_prev (tasks s t) \<and>
       t_state (tasks s' t) = t_state (tasks s t) \<and> prio_of (tasks s' t) = prio_of (tasks s t)"
  shows "ready_ok s' R"
  unfolding ready_ok_def
proof (intro allI impI conjI ballI)
  fix p :: nat assume p: "p < 32"
  note D = ready_okD [OF assms(1) p]
  have q: "t \<in> queued R" if "t \<in> set (R p)" for t using that p by (auto simp: queued_def)
  show "ready_queue s' p = first0 (R p)" "ready_tail s' p = last0 (R p)" "bit (ready_bitmap s') p \<longleftrightarrow> R p \<noteq> []"
    using D assms(2-4) by simp_all
  show "dll (\<lambda>t. t_next (tasks s' t)) (\<lambda>t. t_prev (tasks s' t)) (R p)" by (rule dll_cong [OF D(4)]) (use assms(5) q in simp_all)
  show "t_state (tasks s' t) = TASK_READY" "prio_of (tasks s' t) = p" if "t \<in> set (R p)" for t
    using D(5,6) [OF that] assms(5) [OF q [OF that]] by simp_all
qed

text \<open>Operations on one queue leave the others alone: the lists of different priorities share no task.\<close>

lemma ready_apart: "ready_ok s R \<Longrightarrow> p < 32 \<Longrightarrow> q < 32 \<Longrightarrow> t \<in> set (R p) \<Longrightarrow> t \<in> set (R q) \<Longrightarrow> p = q"
  using ready_okD(6) by blast

definition links_kept :: "task \<Rightarrow> task \<Rightarrow> bool" where
  "links_kept x y \<longleftrightarrow> y\<lparr> t_next := t_next x, t_prev := t_prev x \<rparr> = x"

lemma links_keptD:
  assumes "links_kept x y"
  shows "t_state y = t_state x" "prio_of y = prio_of x" "cur_prio y = cur_prio x" "base_prio y = base_prio x" "t_quantum y = t_quantum x"
    "quantum_max y = quantum_max x" "sleep_until y = sleep_until x" "t_wake y = t_wake x" "wait_queue y = wait_queue x"
    "wait_next y = wait_next x" "wait_prev y = wait_prev x" "timer_next y = timer_next x" "timer_prev y = timer_prev x"
    "timer_bucket y = timer_bucket x" "t_tid y = t_tid x"
  using assms by (cases x; cases y; simp add: links_kept_def prio_of_def)+

lemma links_kept_refl [simp]: "links_kept x x" "links_kept x (x\<lparr> t_next := n \<rparr>)" "links_kept x (x\<lparr> t_prev := n \<rparr>)"
  "links_kept x (x\<lparr> t_next := n, t_prev := m \<rparr>)"
  by (simp_all add: links_kept_def)

lemma links_kept_trans: "links_kept x y \<Longrightarrow> links_kept y z \<Longrightarrow> links_kept x z"
  by (cases x; cases y; cases z; simp add: links_kept_def)

text \<open>What the operations on the ready queues do not touch.\<close>

definition same_rest :: "sched \<Rightarrow> sched \<Rightarrow> bool" where
  "same_rest s s' \<longleftrightarrow> timer_wheel s' = timer_wheel s \<and> tick_count s' = tick_count s \<and> queue_head s' = queue_head s \<and>
     queue_tail s' = queue_tail s \<and> current_task s' = current_task s \<and> next_tid s' = next_tid s \<and> task_table s' = task_table s"

lemma bit_two: "h < 32 \<Longrightarrow> bit (2 ^ h :: u32) i \<longleftrightarrow> i = h"
  using bit_one_at [of h i] by simp

lemma scheduler_add_is:
  assumes ok: "ready_ok s R" and t: "t \<noteq> 0" "t \<notin> queued R" and p: "p = prio_of (tasks s t)"
  shows "ready_ok (scheduler_add t s) (R(p := R p @ [t]))" "u \<noteq> t \<Longrightarrow> links_kept (tasks s u) (tasks (scheduler_add t s) u)"
    "links_kept ((tasks s t)\<lparr> t_state := TASK_READY \<rparr>) (tasks (scheduler_add t s) t)" "same_rest s (scheduler_add t s)"
proof -
  let ?s = "scheduler_add t s" and ?T = "last0 (R p)"
  have pl: "p < 32" by (simp add: p)
  note D = ready_okD [OF ok pl]
  have inq: "x \<in> set (R q) \<Longrightarrow> q < 32 \<Longrightarrow> x \<in> queued R" for x q by (auto simp: queued_def)
  have T: "?T = 0 \<longleftrightarrow> R p = []" using D(4) by simp
  have Tt: "?T \<noteq> t" using t last0_in [of "R p"] inq [OF _ pl, of t] T by (cases "R p = []") auto
  have x: "tasks ?s = (if R p = [] then id else (\<lambda>f. f(?T := (f ?T)\<lparr> t_next := t \<rparr>)))
      ((tasks s)(t := (tasks s t)\<lparr> t_state := TASK_READY, t_next := 0, t_prev := ?T \<rparr>))"
    using t(1) D(2) T by (simp add: scheduler_add_def Let_def upd_task_def p [symmetric])
  have tk: "tasks ?s t = (tasks s t)\<lparr> t_state := TASK_READY, t_next := 0, t_prev := ?T \<rparr>" using Tt by (simp add: x)
  have uk: "u \<noteq> t \<Longrightarrow> tasks ?s u = (if R p \<noteq> [] \<and> u = ?T then (tasks s u)\<lparr> t_next := t \<rparr> else tasks s u)" for u
    using Tt by (simp add: x)
  show l: "u \<noteq> t \<Longrightarrow> links_kept (tasks s u) (tasks ?s u)" for u by (simp add: uk)
  show "links_kept ((tasks s t)\<lparr> t_state := TASK_READY \<rparr>) (tasks ?s t)" unfolding tk by (simp add: links_kept_def)
  show "same_rest s ?s" by (simp add: same_rest_def scheduler_add_def Let_def upd_task_def)
  have Q: "ready_queue ?s = (if R p = [] then (ready_queue s)(p := t) else ready_queue s)" "ready_tail ?s = (ready_tail s)(p := t)"
    "ready_bitmap ?s = (if R p = [] then ready_bitmap s OR 2 ^ p else ready_bitmap s)"
    using t(1) D(2) T by (simp_all add: scheduler_add_def Let_def upd_task_def p [symmetric])
  show "ready_ok ?s (R(p := R p @ [t]))"
    unfolding ready_ok_def
  proof (intro allI impI conjI ballI)
    fix q :: nat assume q: "q < 32"
    note E = ready_okD [OF ok q]
    let ?R = "(R(p := R p @ [t])) q"
    show "ready_queue ?s q = first0 ?R" "ready_tail ?s q = last0 ?R" using D(1) E(1,2) Q(1,2) by auto
    show "bit (ready_bitmap ?s) q \<longleftrightarrow> ?R \<noteq> []" using D(3) E(3) Q(3) by (auto simp: bit_or_iff bit_two [OF pl])
    have st: "t_state (tasks ?s u) = TASK_READY" "prio_of (tasks ?s u) = q" if u: "u \<in> set ?R" for u
    proof -
      have "t_state (tasks ?s u) = TASK_READY \<and> prio_of (tasks ?s u) = q"
      proof (cases "u = t")
        case True
        then have "q = p" using u inq [OF _ q, of t] t(2) by (auto split: if_splits)
        then show ?thesis using True p by (simp add: tk prio_of_def)
      next
        case False
        then have "u \<in> set (R q)" using u by (auto split: if_splits)
        then show ?thesis using links_keptD(1,2) [OF l [OF False]] E(5,6) by simp
      qed
      then show "t_state (tasks ?s u) = TASK_READY" "prio_of (tasks ?s u) = q" by simp_all
    qed
    then show "u \<in> set ?R \<Longrightarrow> t_state (tasks ?s u) = TASK_READY" "u \<in> set ?R \<Longrightarrow> prio_of (tasks ?s u) = q" for u by blast+
    show "dll (\<lambda>u. t_next (tasks ?s u)) (\<lambda>u. t_prev (tasks ?s u)) ?R"
    proof (cases "q = p")
      case True
      have nt: "u \<noteq> t" if "u \<in> set (R p)" for u using that inq [OF _ pl] t(2) by blast
      have "dll (\<lambda>u. t_next (tasks ?s u)) (\<lambda>u. t_prev (tasks ?s u)) (R p @ [t])"
        by (rule dll_append [OF D(4)]) (use nt t uk tk in auto)
      then show ?thesis using True by simp
    next
      case False
      have nt: "u \<noteq> t \<and> \<not> (R p \<noteq> [] \<and> u = ?T)" if "u \<in> set (R q)" for u
        using that inq [OF _ q] t(2) last0_in [of "R p"] ready_apart [OF ok q pl] False by blast
      have "dll (\<lambda>u. t_next (tasks ?s u)) (\<lambda>u. t_prev (tasks ?s u)) (R q)"
        by (rule dll_cong [OF E(4)]) (use nt uk in auto)
      then show ?thesis using False by simp
    qed
  qed
qed

lemma scheduler_remove_is:
  assumes ok: "ready_ok s R" and pl: "p < 32" and t: "t \<in> set (R p)"
  shows "ready_ok (scheduler_remove t s) (R(p := remove1 t (R p)))" "u \<noteq> t \<Longrightarrow> links_kept (tasks s u) (tasks (scheduler_remove t s) u)"
    "tasks (scheduler_remove t s) t = (tasks s t)\<lparr> t_next := 0, t_prev := 0 \<rparr>" "same_rest s (scheduler_remove t s)"
proof -
  let ?s = "scheduler_remove t s"
  note D = ready_okD [OF ok pl]
  obtain ys zs where R: "R p = ys @ t # zs" using t by (auto simp: in_set_conv_decomp)
  note L = dllD [OF D(4)]
  have t0: "t \<noteq> 0" using L(2) t by auto
  have nb: "t_prev (tasks s t) = last0 ys" "t_next (tasks s t) = first0 zs" using L(3,4) [OF R] by simp_all
  have z: "last0 ys = 0 \<longleftrightarrow> ys = []" "first0 zs = 0 \<longleftrightarrow> zs = []" using L(2) R last0_in [of ys] first0_in [of zs] by (auto intro: ccontr)
  have ne: "last0 ys \<noteq> t" "first0 zs \<noteq> t" using L(1) R t0 last0_in [of ys] first0_in [of zs] by (cases "ys = []"; cases "zs = []"; auto)+
  have st: "t_state (tasks s t) = TASK_READY" "prio_of (tasks s t) = p" using D(5,6) [OF t] by simp_all
  have x: "tasks ?s = ((if zs = [] then id else (\<lambda>f. f(first0 zs := (f (first0 zs))\<lparr> t_prev := last0 ys \<rparr>)))
      ((if ys = [] then id else (\<lambda>f. f(last0 ys := (f (last0 ys))\<lparr> t_next := first0 zs \<rparr>))) (tasks s)))
      (t := (tasks s t)\<lparr> t_next := 0, t_prev := 0 \<rparr>)"
    using t0 st nb z ne by (cases "ys = []"; cases "zs = []"; simp add: scheduler_remove_def Let_def upd_task_def)
  show tk: "tasks ?s t = (tasks s t)\<lparr> t_next := 0, t_prev := 0 \<rparr>" by (simp add: x)
  have uk: "tasks ?s u = (if zs \<noteq> [] \<and> u = first0 zs then (tasks s u)\<lparr> t_prev := last0 ys \<rparr>
      else if ys \<noteq> [] \<and> u = last0 ys then (tasks s u)\<lparr> t_next := first0 zs \<rparr> else tasks s u)" if "u \<noteq> t" for u
  proof -
    have "\<not> (zs \<noteq> [] \<and> ys \<noteq> [] \<and> first0 zs = last0 ys)" using L(1) R last0_in [of ys] first0_in [of zs] by auto
    then show ?thesis using that by (auto simp: x)
  qed
  show l: "u \<noteq> t \<Longrightarrow> links_kept (tasks s u) (tasks ?s u)" for u by (simp add: uk)
  show "same_rest s ?s" by (simp add: same_rest_def scheduler_remove_def Let_def upd_task_def)
  have Q: "ready_queue ?s = (if ys = [] then (ready_queue s)(p := first0 zs) else ready_queue s)"
    "ready_tail ?s = (if zs = [] then (ready_tail s)(p := last0 ys) else ready_tail s)"
    "ready_bitmap ?s = (if ready_queue ?s p = 0 then ready_bitmap s AND NOT (2 ^ p) else ready_bitmap s)"
    using t0 st nb z ne by (simp_all add: scheduler_remove_def Let_def upd_task_def)
  have rm: "remove1 t (R p) = ys @ zs" using R L(1) by (simp add: remove1_append)
  show "ready_ok ?s (R(p := remove1 t (R p)))"
    unfolding ready_ok_def rm
  proof (intro allI impI conjI ballI)
    fix q :: nat assume q: "q < 32"
    note E = ready_okD [OF ok q]
    let ?R = "(R(p := ys @ zs)) q"
    show h: "ready_queue ?s q = first0 ?R" "ready_tail ?s q = last0 ?R" using D(1,2) E(1,2) Q(1,2) R by (auto split: if_splits)
    have "ready_queue ?s p = 0 \<longleftrightarrow> ys @ zs = []" using Q(1) D(1) R z L(2) by (cases ys) auto
    then show "bit (ready_bitmap ?s) q \<longleftrightarrow> ?R \<noteq> []" using D(3) E(3) Q(3) R by (auto simp: bit_and_iff bit_not_iff bit_two [OF pl] dest: bit_imp_le_length)
    show "t_state (tasks ?s u) = TASK_READY" "prio_of (tasks ?s u) = q" if u: "u \<in> set ?R" for u
    proof -
      have "u \<noteq> t" using u L(1) R ready_apart [OF ok q pl, of t] t by (auto split: if_splits)
      moreover have "u \<in> set (R q)" using u R by (auto split: if_splits)
      ultimately show "t_state (tasks ?s u) = TASK_READY" "prio_of (tasks ?s u) = q" using links_keptD(1,2) [OF l] E(5,6) by simp_all
    qed
    show "dll (\<lambda>u. t_next (tasks ?s u)) (\<lambda>u. t_prev (tasks ?s u)) ?R"
    proof (cases "q = p")
      case True
      have nt: "u \<noteq> t \<and> u \<noteq> 0" if "u \<in> set ys \<union> set zs" for u using that L(1,2) R by auto
      have "dll (\<lambda>u. t_next (tasks ?s u)) (\<lambda>u. t_prev (tasks ?s u)) (ys @ zs)"
      proof (rule dll_remove [OF D(4) [unfolded R]])
        fix u assume u: "u \<in> set ys \<union> set zs"
        have "\<not> (zs \<noteq> [] \<and> ys \<noteq> [] \<and> first0 zs = last0 ys)" using L(1) R last0_in [of ys] first0_in [of zs] by auto
        then show "t_next (tasks ?s u) = (if u = last0 ys then first0 zs else t_next (tasks s u))"
          "t_prev (tasks ?s u) = (if u = first0 zs then last0 ys else t_prev (tasks s u))"
          using nt [OF u] uk [of u] z by auto
      qed
      then show ?thesis using True by simp
    next
      case False
      have nt: "u \<noteq> t \<and> \<not> (ys \<noteq> [] \<and> u = last0 ys) \<and> \<not> (zs \<noteq> [] \<and> u = first0 zs)" if "u \<in> set (R q)" for u
        using ready_apart [OF ok q pl that] False R last0_in [of ys] first0_in [of zs] by auto
      have "dll (\<lambda>u. t_next (tasks ?s u)) (\<lambda>u. t_prev (tasks ?s u)) (R q)"
        by (rule dll_cong [OF E(4)]) (use nt uk in auto)
      then show ?thesis using False by simp
    qed
  qed
qed

text \<open>The highest priority with a ready task.\<close>

lemma scheduler_next_is:
  assumes ok: "ready_ok s R"
  shows "(\<forall>p < 32. R p = []) \<and> scheduler_next s = (0, s) \<or>
    (\<exists>p < 32. R p \<noteq> [] \<and> (\<forall>q < 32. p < q \<longrightarrow> R q = []) \<and> scheduler_next s = (hd (R p), s))"
proof (cases "ready_bitmap s = 0")
  case True
  then have "R p = []" if "p < 32" for p using ready_okD(3) [OF ok that] by simp
  moreover from this have "ready_queue s 0 = 0" using ready_okD(1) [OF ok, of 0] by simp
  ultimately show ?thesis using True by (simp add: scheduler_next.simps [of s])
next
  case False
  let ?h = "fls (ready_bitmap s) - 1"
  note F = fls_bit [OF False]
  have h: "?h < 32" using F(2,3) by simp
  have ne: "R ?h \<noteq> []" using ready_okD(3) [OF ok h] F(1) by blast
  have "ready_queue s ?h = hd (R ?h)" "ready_queue s ?h \<noteq> 0"
    using ready_okD(1,4) [OF ok h] ne by (auto simp: first0_def split: list.splits dest: dllD(2))
  moreover have "R q = []" if "q < 32" "?h < q" for q using ready_okD(3) [OF ok that(1)] F(4) [of q] that(2) by auto
  ultimately show ?thesis using False h ne by (intro disjI2 exI [of _ ?h]) (simp add: scheduler_next.simps [of s])
qed

section \<open>The switch\<close>

lemma same_rest_refl [simp]: "same_rest s s" "same_rest s (upd_task t f s)"
  by (simp_all add: same_rest_def upd_task_def)

lemma same_rest_trans: "same_rest a b \<Longrightarrow> same_rest b c \<Longrightarrow> same_rest a c"
  by (simp add: same_rest_def)

lemma ready_ok_upd:
  assumes "ready_ok s R" "t \<notin> queued R"
  shows "ready_ok (upd_task t f s) R"
  by (rule ready_ok_cong [OF assms(1)]) (use assms(2) in \<open>auto simp: upd_task_def\<close>)

text \<open>A running task goes to the end of its queue; every other one leaves the queues as they are.\<close>

definition requeue :: "sched \<Rightarrow> (nat \<Rightarrow> u64 list) \<Rightarrow> nat \<Rightarrow> u64 list" where
  "requeue s R =
     (let c = current_task s; p = prio_of (tasks s c)
      in if c \<noteq> 0 \<and> t_state (tasks s c) = TASK_RUNNING then R(p := R p @ [c]) else R)"

lemma queued_upd: "p < 32 \<Longrightarrow> queued (R(p := xs)) = (\<Union>q \<in> {..<32} - {p}. set (R q)) \<union> set xs"
  unfolding queued_def by (force split: if_splits)

lemma queued_append: "p < 32 \<Longrightarrow> queued (R(p := R p @ [c])) = insert c (queued R)"
  unfolding queued_def by (auto split: if_splits)

lemma requeue_step:
  assumes ok: "ready_ok s R" and c: "current_task s \<notin> queued R"
  defines "c \<equiv> current_task s"
  defines "s1 \<equiv> (if c \<noteq> 0 \<and> t_state (tasks s c) = TASK_RUNNING then scheduler_add c (upd_task c (\<lambda>x. x\<lparr> t_state := TASK_READY \<rparr>) s) else s)"
  shows "ready_ok s1 (requeue s R)" "same_rest s s1"
    "links_kept (if c \<noteq> 0 \<and> t_state (tasks s c) = TASK_RUNNING then (tasks s c)\<lparr> t_state := TASK_READY \<rparr> else tasks s c) (tasks s1 c)"
    "u \<noteq> c \<Longrightarrow> links_kept (tasks s u) (tasks s1 u)"
proof -
  let ?u = "upd_task c (\<lambda>x. x\<lparr> t_state := TASK_READY \<rparr>) s"
  have U: "ready_ok ?u R" by (rule ready_ok_upd [OF ok]) (use c in \<open>simp add: c_def\<close>)
  have p: "prio_of (tasks ?u c) = prio_of (tasks s c)" by (simp add: upd_task_def prio_of_def)
  have cq: "c \<notin> queued R" using c by (simp add: c_def)
  have "ready_ok (scheduler_add c ?u) (R(prio_of (tasks s c) := R (prio_of (tasks s c)) @ [c]))" if "c \<noteq> 0"
    by (rule scheduler_add_is(1) [OF U that cq p [symmetric]])
  then show "ready_ok s1 (requeue s R)" using ok by (simp add: s1_def requeue_def c_def Let_def)
  have "same_rest s (scheduler_add c ?u)" if "c \<noteq> 0"
    by (rule same_rest_trans [OF same_rest_refl(2) scheduler_add_is(4) [OF U that cq refl]])
  then show "same_rest s s1" unfolding s1_def by simp
  have "links_kept ((tasks ?u c)\<lparr> t_state := TASK_READY \<rparr>) (tasks (scheduler_add c ?u) c)" if "c \<noteq> 0"
    by (rule scheduler_add_is(3) [OF U that cq refl])
  moreover have "(tasks ?u c)\<lparr> t_state := TASK_READY \<rparr> = (tasks s c)\<lparr> t_state := TASK_READY \<rparr>" by (simp add: upd_task_def)
  ultimately show "links_kept (if c \<noteq> 0 \<and> t_state (tasks s c) = TASK_RUNNING then (tasks s c)\<lparr> t_state := TASK_READY \<rparr> else tasks s c) (tasks s1 c)"
    unfolding s1_def by simp
  assume u: "u \<noteq> c"
  have "links_kept (tasks ?u u) (tasks (scheduler_add c ?u) u)" if "c \<noteq> 0"
    by (rule scheduler_add_is(2) [OF U that cq refl u])
  moreover have "tasks ?u u = tasks s u" using u by (simp add: upd_task_def)
  ultimately show "links_kept (tasks s u) (tasks s1 u)" unfolding s1_def by simp
qed

lemma schedule_is:
  assumes ok: "ready_ok s R" and c: "current_task s \<notin> queued R"
  obtains (none) "\<forall>p < 32. R p = []" "schedule s = s"
  | (switch) p t ts where "p < 32" "R p = t # ts" "\<forall>q < 32. p < q \<longrightarrow> R q = []" "current_task (schedule s) = t"
      "ready_ok (schedule s) ((requeue s R)(p := tl (requeue s R p)))" "t \<notin> queued ((requeue s R)(p := tl (requeue s R p)))"
      "t_state (tasks (schedule s) t) = TASK_RUNNING" "t \<noteq> current_task s" "t \<noteq> 0"
      "same_rest (s\<lparr> current_task := t \<rparr>) (schedule s)"
      "\<And>u. u \<noteq> current_task s \<Longrightarrow> u \<noteq> t \<Longrightarrow> links_kept (tasks s u) (tasks (schedule s) u)"
      "links_kept ((tasks s t)\<lparr> t_state := TASK_RUNNING \<rparr>) (tasks (schedule s) t)"
      "links_kept (if current_task s \<noteq> 0 \<and> t_state (tasks s (current_task s)) = TASK_RUNNING
         then (tasks s (current_task s))\<lparr> t_state := TASK_READY \<rparr> else tasks s (current_task s)) (tasks (schedule s) (current_task s))"
  using scheduler_next_is [OF ok]
proof (elim disjE exE conjE)
  assume n: "\<forall>p < 32. R p = []" "scheduler_next s = (0, s)"
  then have "schedule s = s" by (simp add: schedule_def Let_def)
  with n(1) show thesis by (rule none)
next
  fix p assume p: "p < 32" "R p \<noteq> []" "\<forall>q < 32. p < q \<longrightarrow> R q = []" "scheduler_next s = (hd (R p), s)"
  obtain t ts where R: "R p = t # ts" using p(2) by (cases "R p") auto
  let ?c = "current_task s" and ?Q = "requeue s R"
  define s1 where "s1 = (if ?c \<noteq> 0 \<and> t_state (tasks s ?c) = TASK_RUNNING then scheduler_add ?c (upd_task ?c (\<lambda>x. x\<lparr> t_state := TASK_READY \<rparr>) s) else s)"
  note S1 = requeue_step [OF ok c, folded s1_def]
  have tq: "t \<in> queued R" using R p(1) by (auto simp: queued_def intro!: bexI [of _ p])
  then have tc: "t \<noteq> ?c" using c by auto
  have t0: "t \<noteq> 0" using dllD(2) [OF ready_okD(4) [OF ok p(1)]] R by auto
  have Q: "?Q p = t # tl (?Q p)" using R by (auto simp: requeue_def Let_def)
  then have tin: "t \<in> set (?Q p)" by (metis list.set_intros(1))
  have rm: "remove1 t (?Q p) = tl (?Q p)" by (subst Q) simp
  note S2 = scheduler_remove_is [OF S1(1) p(1) tin, unfolded rm]
  let ?s2 = "scheduler_remove t s1"
  have sch: "schedule s = (upd_task t (\<lambda>x. x\<lparr> t_state := TASK_RUNNING \<rparr>) ?s2)\<lparr> current_task := t \<rparr>"
    using p(4) R t0 tc by (simp add: schedule_def Let_def s1_def)
  have dist: "distinct (t # tl (?Q p))" using dllD(1) [OF ready_okD(4) [OF S1(1) p(1)]] Q by metis
  have tn: "t \<notin> queued (?Q(p := tl (?Q p)))"
    using dist ready_apart [OF S1(1) _ p(1) _ tin] by (auto simp: queued_upd [OF p(1)])
  have ok2: "ready_ok (schedule s) (?Q(p := tl (?Q p)))"
    unfolding sch by (rule ready_ok_cong [OF ready_ok_upd [OF S2(1) tn, of "\<lambda>x. x\<lparr> t_state := TASK_RUNNING \<rparr>"]]) simp_all
  have sr: "same_rest (s\<lparr> current_task := t \<rparr>) (schedule s)"
    using same_rest_trans [OF S1(2) S2(4)] unfolding sch by (simp add: same_rest_def upd_task_def)
  have ot: "links_kept (tasks s u) (tasks (schedule s) u)" if "u \<noteq> ?c" "u \<noteq> t" for u
    using links_kept_trans [OF S1(4) [OF that(1)] S2(2) [OF that(2)]] that(2) unfolding sch by (simp add: upd_task_def)
  have tt: "links_kept ((tasks s t)\<lparr> t_state := TASK_RUNNING \<rparr>) (tasks (schedule s) t)"
    using S1(4) [OF tc] S2(3) unfolding sch by (cases "tasks s t"; cases "tasks s1 t") (simp add: links_kept_def upd_task_def)
  have ct: "links_kept (if ?c \<noteq> 0 \<and> t_state (tasks s ?c) = TASK_RUNNING then (tasks s ?c)\<lparr> t_state := TASK_READY \<rparr> else tasks s ?c)
      (tasks (schedule s) ?c)"
    using links_kept_trans [OF S1(3) S2(2)] tc unfolding sch by (simp add: upd_task_def)
  show thesis
    by (rule switch [OF p(1) R p(3) _ ok2 tn _ tc t0 sr ot tt ct]) (simp_all add: sch upd_task_def)
qed

end
