(* ===== verification/SchedInv.thy ===== *)
theory SchedInv
  imports SchedSpec
begin

text \<open>
  The wait queues against lists of tasks, and what pushing and removing a task does to them.
\<close>

section \<open>Wait queues\<close>

definition wait_ok :: "sched \<Rightarrow> (u64 \<Rightarrow> u64 list) \<Rightarrow> bool" where
  "wait_ok s W \<longleftrightarrow> W 0 = [] \<and> (\<forall>q. q \<noteq> 0 \<longrightarrow> queue_head s q = first0 (W q) \<and> queue_tail s q = last0 (W q) \<and>
     dll (\<lambda>t. wait_next (tasks s t)) (\<lambda>t. wait_prev (tasks s t)) (W q) \<and>
     (\<forall>t \<in> set (W q). wait_queue (tasks s t) = q \<and> t_state (tasks s t) = TASK_BLOCKED)) \<and>
     (\<forall>t. wait_queue (tasks s t) \<noteq> 0 \<longrightarrow> t \<in> set (W (wait_queue (tasks s t))))"

definition waiting :: "(u64 \<Rightarrow> u64 list) \<Rightarrow> u64 set" where
  "waiting W = (\<Union>q. set (W q))"

lemma wait_okD:
  assumes "wait_ok s W"
  shows "W 0 = []" "q \<noteq> 0 \<Longrightarrow> queue_head s q = first0 (W q)" "q \<noteq> 0 \<Longrightarrow> queue_tail s q = last0 (W q)"
    "dll (\<lambda>t. wait_next (tasks s t)) (\<lambda>t. wait_prev (tasks s t)) (W q)"
    "t \<in> set (W q) \<Longrightarrow> wait_queue (tasks s t) = q" "t \<in> set (W q) \<Longrightarrow> t_state (tasks s t) = TASK_BLOCKED"
    "wait_queue (tasks s t) \<noteq> 0 \<Longrightarrow> t \<in> set (W (wait_queue (tasks s t)))"
proof -
  note W = assms [unfolded wait_ok_def]
  show z: "W 0 = []" by (rule W [THEN conjunct1])
  note P = W [THEN conjunct2, THEN conjunct1, THEN spec, of q]
  show "q \<noteq> 0 \<Longrightarrow> queue_head s q = first0 (W q)" "q \<noteq> 0 \<Longrightarrow> queue_tail s q = last0 (W q)" using P by simp_all
  show "dll (\<lambda>t. wait_next (tasks s t)) (\<lambda>t. wait_prev (tasks s t)) (W q)" using P z by (cases "q = 0") simp_all
  show "t \<in> set (W q) \<Longrightarrow> wait_queue (tasks s t) = q" "t \<in> set (W q) \<Longrightarrow> t_state (tasks s t) = TASK_BLOCKED"
    using P z by (cases "q = 0"; simp)+
  show "wait_queue (tasks s t) \<noteq> 0 \<Longrightarrow> t \<in> set (W (wait_queue (tasks s t)))"
    by (rule W [THEN conjunct2, THEN conjunct2, THEN spec, of t, THEN mp])
qed

lemma wait_apart: "wait_ok s W \<Longrightarrow> t \<in> set (W q) \<Longrightarrow> t \<in> set (W r) \<Longrightarrow> q = r"
  using wait_okD(5) by blast

lemma wait_okI:
  assumes "W 0 = []" "\<And>q. q \<noteq> 0 \<Longrightarrow> queue_head s q = first0 (W q)" "\<And>q. q \<noteq> 0 \<Longrightarrow> queue_tail s q = last0 (W q)"
    "\<And>q. dll (\<lambda>t. wait_next (tasks s t)) (\<lambda>t. wait_prev (tasks s t)) (W q)"
    "\<And>t q. t \<in> set (W q) \<Longrightarrow> wait_queue (tasks s t) = q" "\<And>t q. t \<in> set (W q) \<Longrightarrow> t_state (tasks s t) = TASK_BLOCKED"
    "\<And>t. wait_queue (tasks s t) \<noteq> 0 \<Longrightarrow> t \<in> set (W (wait_queue (tasks s t)))"
  shows "wait_ok s W"
  unfolding wait_ok_def using assms by blast

lemma wait_ok_cong:
  assumes ok: "wait_ok s W" and eq: "queue_head s' = queue_head s" "queue_tail s' = queue_tail s"
    "\<And>t. wait_next (tasks s' t) = wait_next (tasks s t) \<and> wait_prev (tasks s' t) = wait_prev (tasks s t) \<and> wait_queue (tasks s' t) = wait_queue (tasks s t)"
    "\<And>t. t \<in> waiting W \<Longrightarrow> t_state (tasks s' t) = TASK_BLOCKED"
  shows "wait_ok s' W"
proof (rule wait_okI)
  note D = wait_okD [OF ok]
  show "W 0 = []" by (rule D(1))
  show "q \<noteq> 0 \<Longrightarrow> queue_head s' q = first0 (W q)" "q \<noteq> 0 \<Longrightarrow> queue_tail s' q = last0 (W q)" for q using D(2,3) eq(1,2) by simp_all
  show "dll (\<lambda>t. wait_next (tasks s' t)) (\<lambda>t. wait_prev (tasks s' t)) (W q)" for q by (rule dll_cong [OF D(4)]) (simp_all add: eq(3))
  show "t \<in> set (W q) \<Longrightarrow> wait_queue (tasks s' t) = q" for t q using D(5) eq(3) by simp
  show "t \<in> set (W q) \<Longrightarrow> t_state (tasks s' t) = TASK_BLOCKED" for t q using eq(4) by (auto simp: waiting_def)
  show "wait_queue (tasks s' t) \<noteq> 0 \<Longrightarrow> t \<in> set (W (wait_queue (tasks s' t)))" for t using D(7) eq(3) by simp
qed

lemma task_queue_remove_is:
  assumes ok: "wait_ok s W" and t: "t \<in> set (W q)"
  shows "wait_ok (task_queue_remove q t s) (W(q := remove1 t (W q)))"
    "\<And>u. (tasks (task_queue_remove q t s) u)\<lparr> wait_next := 0, wait_prev := 0, wait_queue := 0 \<rparr> =
         (tasks s u)\<lparr> wait_next := 0, wait_prev := 0, wait_queue := 0 \<rparr>"
    "\<exists>H T X. task_queue_remove q t s = s\<lparr> queue_head := H, queue_tail := T, tasks := X \<rparr>"
proof -
  let ?s = "task_queue_remove q t s"
  have q: "q \<noteq> 0" using t wait_okD(1) [OF ok] by auto
  note D = wait_okD [OF ok]
  obtain ys zs where W: "W q = ys @ t # zs" using t by (auto simp: in_set_conv_decomp)
  note L = dllD [OF D(4) [of q]]
  have t0: "t \<noteq> 0" using L(2) t by auto
  have nb: "wait_prev (tasks s t) = last0 ys" "wait_next (tasks s t) = first0 zs" using L(3,4) [OF W] by simp_all
  have z: "last0 ys = 0 \<longleftrightarrow> ys = []" "first0 zs = 0 \<longleftrightarrow> zs = []" using L(2) W last0_in [of ys] first0_in [of zs] by (auto intro: ccontr)
  have ne: "last0 ys \<noteq> t" "first0 zs \<noteq> t" using L(1) W t0 last0_in [of ys] first0_in [of zs] by (cases "ys = []"; cases "zs = []"; auto)+
  have nh: "\<not> (zs \<noteq> [] \<and> ys \<noteq> [] \<and> first0 zs = last0 ys)" using L(1) W last0_in [of ys] first0_in [of zs] by auto
  have x: "tasks ?s = ((if zs = [] then id else (\<lambda>f. f(first0 zs := (f (first0 zs))\<lparr> wait_prev := last0 ys \<rparr>)))
      ((if ys = [] then id else (\<lambda>f. f(last0 ys := (f (last0 ys))\<lparr> wait_next := first0 zs \<rparr>))) (tasks s)))
      (t := (tasks s t)\<lparr> wait_next := 0, wait_prev := 0, wait_queue := 0 \<rparr>)"
    using t0 q nb z ne D(5) [OF t] by (cases "ys = []"; cases "zs = []"; simp add: task_queue_remove_def Let_def upd_task_def)
  have tk: "tasks ?s t = (tasks s t)\<lparr> wait_next := 0, wait_prev := 0, wait_queue := 0 \<rparr>" by (simp add: x)
  have uk: "tasks ?s u = (if zs \<noteq> [] \<and> u = first0 zs then (tasks s u)\<lparr> wait_prev := last0 ys \<rparr>
      else if ys \<noteq> [] \<and> u = last0 ys then (tasks s u)\<lparr> wait_next := first0 zs \<rparr> else tasks s u)" if "u \<noteq> t" for u
    using that nh by (auto simp: x)
  have wt: "wait_queue (tasks ?s t) = 0" by (simp add: tk)
  show "(tasks ?s u)\<lparr> wait_next := 0, wait_prev := 0, wait_queue := 0 \<rparr> = (tasks s u)\<lparr> wait_next := 0, wait_prev := 0, wait_queue := 0 \<rparr>" for u
    by (cases "u = t") (simp_all add: tk uk)
  have wu: "u \<noteq> t \<Longrightarrow> wait_queue (tasks ?s u) = wait_queue (tasks s u)" for u by (simp add: uk)
  have st: "t_state (tasks ?s u) = t_state (tasks s u)" for u by (cases "u = t") (simp_all add: tk uk)
  have Q: "queue_head ?s = (if ys = [] then (queue_head s)(q := first0 zs) else queue_head s)"
    "queue_tail ?s = (if zs = [] then (queue_tail s)(q := last0 ys) else queue_tail s)"
    using t0 q nb z ne D(5) [OF t] by (cases "ys = []"; cases "zs = []"; simp add: task_queue_remove_def Let_def upd_task_def)+
  show "\<exists>H T X. ?s = s\<lparr> queue_head := H, queue_tail := T, tasks := X \<rparr>"
    unfolding task_queue_remove_def Let_def upd_task_def by (cases s) auto
  have rm: "remove1 t (W q) = ys @ zs" using W L(1) by (simp add: remove1_append)
  have dl: "dll (\<lambda>u. wait_next (tasks ?s u)) (\<lambda>u. wait_prev (tasks ?s u)) ((W(q := remove1 t (W q))) r)" for r
  proof (cases "r = q")
    case True
    have nt: "u \<noteq> t \<and> u \<noteq> 0" if "u \<in> set ys \<union> set zs" for u using that L(1,2) W by auto
    have "dll (\<lambda>u. wait_next (tasks ?s u)) (\<lambda>u. wait_prev (tasks ?s u)) (ys @ zs)"
    proof (rule dll_remove [OF D(4) [of q, unfolded W]])
      fix u assume u: "u \<in> set ys \<union> set zs"
      show "wait_next (tasks ?s u) = (if u = last0 ys then first0 zs else wait_next (tasks s u))"
        "wait_prev (tasks ?s u) = (if u = first0 zs then last0 ys else wait_prev (tasks s u))"
        using nt [OF u] uk [of u] z nh by auto
    qed
    then show ?thesis using True rm by simp
  next
    case False
    have nt: "u \<noteq> t \<and> \<not> (ys \<noteq> [] \<and> u = last0 ys) \<and> \<not> (zs \<noteq> [] \<and> u = first0 zs)" if "u \<in> set (W r)" for u
      using wait_apart [OF ok that, of q] False W last0_in [of ys] first0_in [of zs] by auto
    have "dll (\<lambda>u. wait_next (tasks ?s u)) (\<lambda>u. wait_prev (tasks ?s u)) (W r)"
      by (rule dll_cong [OF D(4)]) (use nt uk in auto)
    then show ?thesis using False by simp
  qed
  have tn: "t \<notin> set ys \<union> set zs" using L(1) W by auto
  show "wait_ok ?s (W(q := remove1 t (W q)))"
  proof (rule wait_okI)
    show "(W(q := remove1 t (W q))) 0 = []" using q D(1) by simp
    have ht: "queue_head ?s r = first0 ((W(q := remove1 t (W q))) r) \<and> queue_tail ?s r = last0 ((W(q := remove1 t (W q))) r)" if "r \<noteq> 0" for r
    proof (cases "r = q")
      case True
      then show ?thesis
        using D(2,3) [OF q, unfolded W] Q rm by auto
    next
      case False
      then have "queue_head ?s r = queue_head s r" "queue_tail ?s r = queue_tail s r" unfolding Q by (simp_all split: if_split)
      then show ?thesis using False D(2,3) [OF that] by simp
    qed
    show "queue_head ?s r = first0 ((W(q := remove1 t (W q))) r)" "queue_tail ?s r = last0 ((W(q := remove1 t (W q))) r)" if "r \<noteq> 0" for r
      by (rule conjunct1 [OF ht [OF that]], rule conjunct2 [OF ht [OF that]])
    show "dll (\<lambda>u. wait_next (tasks ?s u)) (\<lambda>u. wait_prev (tasks ?s u)) ((W(q := remove1 t (W q))) r)" for r by (rule dl)
    have in_W: "u \<in> set (W r) \<and> u \<noteq> t" if "u \<in> set ((W(q := remove1 t (W q))) r)" for u r
    proof (cases "r = q")
      case True
      then have "u \<in> set (ys @ zs)" using that rm by simp
      then show ?thesis using tn W True by auto
    next
      case False
      then have u: "u \<in> set (W r)" using that by simp
      then have "u \<noteq> t" using wait_apart [OF ok t] False by blast
      then show ?thesis using u by blast
    qed
    show "wait_queue (tasks ?s u) = r" "t_state (tasks ?s u) = TASK_BLOCKED" if "u \<in> set ((W(q := remove1 t (W q))) r)" for u r
      using in_W [OF that] D(5,6) [of u r] wu st by simp_all
    show "u \<in> set ((W(q := remove1 t (W q))) (wait_queue (tasks ?s u)))" if "wait_queue (tasks ?s u) \<noteq> 0" for u
    proof -
      have ut: "u \<noteq> t" using that wt by auto
      then have "u \<in> set (W (wait_queue (tasks ?s u)))" using D(7) [of u] that wu by simp
      then show ?thesis using ut rm W by (cases "wait_queue (tasks ?s u) = q") auto
    qed
  qed
qed

lemma task_queue_push_is:
  assumes ok: "wait_ok s W" and t: "t \<noteq> 0" "t \<notin> waiting W" "t_state (tasks s t) = TASK_BLOCKED" and q: "q \<noteq> 0"
  shows "wait_ok (task_queue_push q t s) (W(q := W q @ [t]))"
    "\<And>u. (tasks (task_queue_push q t s) u)\<lparr> wait_next := 0, wait_prev := 0, wait_queue := 0 \<rparr> =
         (tasks s u)\<lparr> wait_next := 0, wait_prev := 0, wait_queue := 0 \<rparr>"
    "\<exists>H T X. task_queue_push q t s = s\<lparr> queue_head := H, queue_tail := T, tasks := X \<rparr>"
proof -
  let ?s = "task_queue_push q t s" and ?T = "last0 (W q)"
  note D = wait_okD [OF ok]
  have inq: "u \<in> set (W r) \<Longrightarrow> u \<in> waiting W" for u r by (auto simp: waiting_def)
  have T: "?T = 0 \<longleftrightarrow> W q = []" using D(4) [of q] by simp
  have Tt: "?T \<noteq> t" using t inq [of t q] last0_in [of "W q"] T by (cases "W q = []") auto
  have x: "tasks ?s = ((if W q = [] then id else (\<lambda>f. f(?T := (f ?T)\<lparr> wait_next := t \<rparr>))) (tasks s))
      (t := (tasks s t)\<lparr> wait_next := 0, wait_prev := ?T, wait_queue := q \<rparr>)"
    using t(1) q D(3) [OF q] T Tt by (cases "W q = []") (simp_all add: task_queue_push_def Let_def upd_task_def fun_upd_twist)
  have tk: "tasks ?s t = (tasks s t)\<lparr> wait_next := 0, wait_prev := ?T, wait_queue := q \<rparr>" by (simp add: x)
  have uk: "u \<noteq> t \<Longrightarrow> tasks ?s u = (if W q \<noteq> [] \<and> u = ?T then (tasks s u)\<lparr> wait_next := t \<rparr> else tasks s u)" for u
    by (simp add: x)
  show kept: "(tasks ?s u)\<lparr> wait_next := 0, wait_prev := 0, wait_queue := 0 \<rparr> = (tasks s u)\<lparr> wait_next := 0, wait_prev := 0, wait_queue := 0 \<rparr>" for u
    by (cases "u = t") (simp_all add: tk uk)
  show "\<exists>H T X. ?s = s\<lparr> queue_head := H, queue_tail := T, tasks := X \<rparr>"
    unfolding task_queue_push_def Let_def upd_task_def by (cases s) auto
  have Q: "queue_head ?s = (if W q = [] then (queue_head s)(q := t) else queue_head s)" "queue_tail ?s = (queue_tail s)(q := t)"
    using t(1) q D(3) [OF q] T by (simp_all add: task_queue_push_def Let_def upd_task_def)
  have st: "t_state (tasks ?s u) = t_state (tasks s u)" for u by (cases "u = t") (simp_all add: tk uk)
  have wq: "wait_queue (tasks ?s u) = (if u = t then q else wait_queue (tasks s u))" for u by (cases "u = t") (simp_all add: tk uk)
  have dl: "dll (\<lambda>u. wait_next (tasks ?s u)) (\<lambda>u. wait_prev (tasks ?s u)) ((W(q := W q @ [t])) r)" for r
  proof (cases "r = q")
    case True
    have nt: "u \<noteq> t" if "u \<in> set (W q)" for u using that inq t(2) by blast
    have "dll (\<lambda>u. wait_next (tasks ?s u)) (\<lambda>u. wait_prev (tasks ?s u)) (W q @ [t])"
      by (rule dll_append [OF D(4)]) (use nt t uk tk in auto)
    then show ?thesis using True by simp
  next
    case False
    have nt: "u \<noteq> t \<and> \<not> (W q \<noteq> [] \<and> u = ?T)" if "u \<in> set (W r)" for u
      using that inq t(2) last0_in [of "W q"] wait_apart [OF ok that, of q] False by blast
    have "dll (\<lambda>u. wait_next (tasks ?s u)) (\<lambda>u. wait_prev (tasks ?s u)) (W r)"
      by (rule dll_cong [OF D(4)]) (use nt uk in auto)
    then show ?thesis using False by simp
  qed
  show "wait_ok ?s (W(q := W q @ [t]))"
  proof (rule wait_okI)
    show "(W(q := W q @ [t])) 0 = []" using q D(1) by simp
    show "queue_head ?s r = first0 ((W(q := W q @ [t])) r)" "queue_tail ?s r = last0 ((W(q := W q @ [t])) r)" if "r \<noteq> 0" for r
      using D(2,3) [OF that] D(2) [OF q] Q by auto
    show "dll (\<lambda>u. wait_next (tasks ?s u)) (\<lambda>u. wait_prev (tasks ?s u)) ((W(q := W q @ [t])) r)" for r by (rule dl)
    show "wait_queue (tasks ?s u) = r" "t_state (tasks ?s u) = TASK_BLOCKED" if "u \<in> set ((W(q := W q @ [t])) r)" for u r
      using that D(5,6) [of u r] inq [of t r] t(2,3) by (auto simp: wq st split: if_splits)
    show "u \<in> set ((W(q := W q @ [t])) (wait_queue (tasks ?s u)))" if "wait_queue (tasks ?s u) \<noteq> 0" for u
      using that D(7) [of u] by (auto simp: wq split: if_splits)
  qed
qed

end
