(* ===== verification/SchedSteps.thy ===== *)
theory SchedSteps
  imports SchedInv
begin

text \<open>
  Every operation of the scheduler, other than a change of the priority of a task that is ready,
  keeps the ready queues and the wait queues well-formed and the running task out of them.
\<close>

section \<open>The invariant\<close>

text \<open>
  \<open>A\<close> is the memory that holds tasks. \<open>sched_mid\<close> holds inside the operations, where the current task
  has given up its state but not yet the processor.
\<close>

definition sched_mid :: "sched \<Rightarrow> u64 set \<Rightarrow> (nat \<Rightarrow> u64 list) \<Rightarrow> (u64 \<Rightarrow> u64 list) \<Rightarrow> bool" where
  "sched_mid s A R W \<longleftrightarrow> ready_ok s R \<and> wait_ok s W \<and> current_task s \<notin> queued R \<and>
     queued R \<union> waiting W \<subseteq> A \<and> current_task s \<in> insert 0 A \<and>
     (\<forall>t. t_state (tasks s t) = TASK_SLEEPING \<or> t_state (tasks s t) = TASK_BLOCKED \<longrightarrow> t \<in> A)"

definition cur_ok :: "sched \<Rightarrow> bool" where
  "cur_ok s \<longleftrightarrow> current_task s = 0 \<or> t_state (tasks s (current_task s)) = TASK_RUNNING"

definition sched_inv :: "sched \<Rightarrow> u64 set \<Rightarrow> bool" where
  "sched_inv s A \<longleftrightarrow> cur_ok s \<and> (\<exists>R W. sched_mid s A R W)"

lemma sched_midD:
  assumes "sched_mid s A R W"
  shows "ready_ok s R" "wait_ok s W" "current_task s \<notin> queued R" "t \<in> queued R \<Longrightarrow> t \<in> A" "t \<in> waiting W \<Longrightarrow> t \<in> A"
    "current_task s = 0 \<or> current_task s \<in> A" "t_state (tasks s t) = TASK_SLEEPING \<Longrightarrow> t \<in> A" "t_state (tasks s t) = TASK_BLOCKED \<Longrightarrow> t \<in> A"
  using assms unfolding sched_mid_def by blast+

lemma sched_midI:
  assumes "ready_ok s R" "wait_ok s W" "current_task s \<notin> queued R" "\<And>t. t \<in> queued R \<Longrightarrow> t \<in> A" "\<And>t. t \<in> waiting W \<Longrightarrow> t \<in> A"
    "current_task s = 0 \<or> current_task s \<in> A" "\<And>t. t_state (tasks s t) = TASK_SLEEPING \<Longrightarrow> t \<in> A" "\<And>t. t_state (tasks s t) = TASK_BLOCKED \<Longrightarrow> t \<in> A"
  shows "sched_mid s A R W"
  using assms unfolding sched_mid_def by blast

lemma mid_states:
  assumes "sched_mid s A R W"
  shows "t \<in> queued R \<Longrightarrow> t_state (tasks s t) = TASK_READY" "t \<in> waiting W \<Longrightarrow> t_state (tasks s t) = TASK_BLOCKED"
  using ready_okD(5) [OF sched_midD(1) [OF assms]] wait_okD(6) [OF sched_midD(2) [OF assms]] by (auto simp: queued_def waiting_def)

text \<open>Tasks agree in everything that the lists depend on.\<close>

definition core :: "task \<Rightarrow> task" where
  "core x = x\<lparr> t_class := SCHED_KERNEL, t_quantum := 0, quantum_max := 0, sleep_until := 0, t_wake := WAKE_NONE,
     timer_next := 0, timer_prev := 0, timer_bucket := 0 \<rparr>"

lemma coreD:
  assumes "core x = core y"
  shows "t_state x = t_state y" "prio_of x = prio_of y" "t_next x = t_next y" "t_prev x = t_prev y" "wait_next x = wait_next y"
    "wait_prev x = wait_prev y" "wait_queue x = wait_queue y" "cur_prio x = cur_prio y" "base_prio x = base_prio y" "t_tid x = t_tid y"
  using assms by (cases x; cases y; simp add: core_def prio_of_def)+

lemma core_upd [simp]: "core (x\<lparr> t_class := c \<rparr>) = core x" "core (x\<lparr> t_quantum := n \<rparr>) = core x" "core (x\<lparr> quantum_max := n \<rparr>) = core x"
  "core (x\<lparr> sleep_until := n \<rparr>) = core x" "core (x\<lparr> t_wake := w \<rparr>) = core x" "core (x\<lparr> timer_next := a \<rparr>) = core x"
  "core (x\<lparr> timer_prev := a \<rparr>) = core x" "core (x\<lparr> timer_bucket := n \<rparr>) = core x"
  by (simp_all add: core_def)

definition same_lists :: "sched \<Rightarrow> sched \<Rightarrow> bool" where
  "same_lists s s' \<longleftrightarrow> ready_queue s' = ready_queue s \<and> ready_tail s' = ready_tail s \<and> ready_bitmap s' = ready_bitmap s \<and>
     queue_head s' = queue_head s \<and> queue_tail s' = queue_tail s \<and> current_task s' = current_task s"

lemma mid_core:
  assumes m: "sched_mid s A R W" and l: "same_lists s s'" and c: "\<And>t. core (tasks s' t) = core (tasks s t)"
  shows "sched_mid s' A R W" "cur_ok s' = cur_ok s"
proof -
  note D = sched_midD [OF m] and C = coreD [OF c]
  show "sched_mid s' A R W"
  proof (rule sched_midI)
    show "ready_ok s' R" by (rule ready_ok_cong [OF D(1)]) (use l in \<open>simp_all add: same_lists_def C\<close>)
    show "wait_ok s' W" by (rule wait_ok_cong [OF D(2)]) (use l mid_states(2) [OF m] in \<open>simp_all add: same_lists_def C\<close>)
    show "current_task s' \<notin> queued R" "current_task s' = 0 \<or> current_task s' \<in> A" using D(3,6) l by (simp_all add: same_lists_def)
    show "t \<in> A" if "t_state (tasks s' t) = TASK_SLEEPING" for t using D(7) that by (simp add: C)
    show "t \<in> A" if "t_state (tasks s' t) = TASK_BLOCKED" for t using D(8) that by (simp add: C)
  qed (use D(4,5) in blast)+
  show "cur_ok s' = cur_ok s" using l by (simp add: cur_ok_def same_lists_def C)
qed

lemma timer_wheel_remove_lists:
  "same_lists s (timer_wheel_remove t s)" "core (tasks (timer_wheel_remove t s) u) = core (tasks s u)"
  "tick_count (timer_wheel_remove t s) = tick_count s" "task_table (timer_wheel_remove t s) = task_table s"
  by (simp_all add: timer_wheel_remove_def Let_def same_lists_def upd_task_def)

lemma timer_wheel_insert_lists:
  "same_lists s (timer_wheel_insert t n s)" "core (tasks (timer_wheel_insert t n s) u) = core (tasks s u)"
  using timer_wheel_remove_lists(1) [of s t] timer_wheel_remove_lists(2) [of t s] by (simp_all add: timer_wheel_insert_def Let_def same_lists_def upd_task_def)

text \<open>A task that is in no list and not running may take any state.\<close>

lemma mid_upd:
  assumes m: "sched_mid s A R W" and t: "t \<notin> queued R" "t \<notin> waiting W"
    and f: "wait_next (f (tasks s t)) = wait_next (tasks s t)" "wait_prev (f (tasks s t)) = wait_prev (tasks s t)"
      "wait_queue (f (tasks s t)) = wait_queue (tasks s t)"
    and a: "t \<in> A \<or> t_state (f (tasks s t)) \<noteq> TASK_SLEEPING \<and> t_state (f (tasks s t)) \<noteq> TASK_BLOCKED"
  shows "sched_mid (upd_task t f s) A R W"
proof -
  note D = sched_midD [OF m]
  show ?thesis
  proof (rule sched_midI)
    show "ready_ok (upd_task t f s) R" by (rule ready_ok_upd [OF D(1) t(1)])
    show "wait_ok (upd_task t f s) W"
      by (rule wait_ok_cong [OF D(2)]) (use mid_states(2) [OF m] t(2) f in \<open>auto simp: upd_task_def\<close>)
    show "current_task (upd_task t f s) \<notin> queued R" "current_task (upd_task t f s) = 0 \<or> current_task (upd_task t f s) \<in> A"
      using D(3,6) by (simp_all add: upd_task_def)
    show "u \<in> A" if "t_state (tasks (upd_task t f s) u) = TASK_SLEEPING" for u using D(7) [of u] that a by (auto simp: upd_task_def split: if_splits)
    show "u \<in> A" if "t_state (tasks (upd_task t f s) u) = TASK_BLOCKED" for u using D(8) [of u] that a by (auto simp: upd_task_def split: if_splits)
  qed (use D(4,5) in blast)+
qed

text \<open>The priority of a task that is not ready may change.\<close>

lemma mid_prio:
  assumes m: "sched_mid s A R W" and t: "t_state (tasks s t) \<noteq> TASK_READY"
  shows "sched_mid (upd_task t (\<lambda>x. x\<lparr> cur_prio := n \<rparr>) s) A R W" "cur_ok (upd_task t (\<lambda>x. x\<lparr> cur_prio := n \<rparr>) s) = cur_ok s"
proof -
  let ?s = "upd_task t (\<lambda>x. x\<lparr> cur_prio := n \<rparr>) s"
  note D = sched_midD [OF m]
  have "t \<notin> queued R" using mid_states(1) [OF m] t by blast
  then have r: "ready_ok ?s R" by (rule ready_ok_upd [OF D(1)])
  have f: "t_state (tasks ?s u) = t_state (tasks s u)" "current_task ?s = current_task s" for u by (simp_all add: upd_task_def)
  have w: "wait_ok ?s W" by (rule wait_ok_cong [OF D(2)]) (use mid_states(2) [OF m] in \<open>auto simp: upd_task_def\<close>)
  show "sched_mid ?s A R W" by (rule sched_midI [OF r w]) (use D(3-8) f in \<open>simp_all\<close>)
  show "cur_ok ?s = cur_ok s" by (simp add: cur_ok_def f)
qed

lemma in_set_tlD: "x \<in> set (tl xs) \<Longrightarrow> x \<in> set xs"
  by (cases xs) simp_all

section \<open>Adding and switching\<close>

lemma mid_add:
  assumes m: "sched_mid s A R W" and t: "t \<noteq> 0" "t \<notin> queued R" "t \<notin> waiting W" "t \<noteq> current_task s" "t \<in> A" and p: "p = prio_of (tasks s t)"
  shows "sched_mid (scheduler_add t s) A (R(p := R p @ [t])) W" "cur_ok (scheduler_add t s) = cur_ok s"
proof -
  note D = sched_midD [OF m] and S = scheduler_add_is [OF sched_midD(1) [OF m] t(1,2) p]
  have r: "current_task (scheduler_add t s) = current_task s" "queue_head (scheduler_add t s) = queue_head s" "queue_tail (scheduler_add t s) = queue_tail s"
    using S(4) by (simp_all add: same_rest_def)
  have w: "wait_next (tasks (scheduler_add t s) u) = wait_next (tasks s u) \<and> wait_prev (tasks (scheduler_add t s) u) = wait_prev (tasks s u) \<and>
      wait_queue (tasks (scheduler_add t s) u) = wait_queue (tasks s u)" for u
    using links_keptD(9-11) [OF S(2)] links_keptD(9-11) [OF S(3)] by (cases "u = t") simp_all
  have st: "t_state (tasks (scheduler_add t s) u) = (if u = t then TASK_READY else t_state (tasks s u))" for u
    using links_keptD(1) [OF S(2)] links_keptD(1) [OF S(3)] by simp
  have q: "queued (R(p := R p @ [t])) = insert t (queued R)" by (rule queued_append) (simp add: p)
  show "sched_mid (scheduler_add t s) A (R(p := R p @ [t])) W"
  proof (rule sched_midI)
    show "wait_ok (scheduler_add t s) W"
      by (rule wait_ok_cong [OF D(2) r(2,3) w]) (use t(3) mid_states(2) [OF m] st in auto)
    show "u \<in> A" if "u \<in> queued (R(p := R p @ [t]))" for u using that D(4) t(5) q by auto
    show "u \<in> A" if "t_state (tasks (scheduler_add t s) u) = TASK_SLEEPING" for u using D(7) [of u] that st t(5) by (auto split: if_splits)
    show "u \<in> A" if "t_state (tasks (scheduler_add t s) u) = TASK_BLOCKED" for u using D(8) [of u] that st t(5) by (auto split: if_splits)
  qed (use S(1) D(3,5,6) t(4) q r(1) in auto)
  show "cur_ok (scheduler_add t s) = cur_ok s" using t(4) r(1) st by (simp add: cur_ok_def)
qed

lemma schedule_mid:
  assumes m: "sched_mid s A R W" and c: "ready_bitmap s \<noteq> 0 \<or> cur_ok s"
  shows "sched_inv (schedule s) A"
proof -
  note D = sched_midD [OF m]
  show ?thesis
  proof (cases rule: schedule_is [OF D(1,3), case_names none switch])
    case none
    have "cur_ok s"
    proof (rule ccontr)
      assume "\<not> cur_ok s"
      then have b: "ready_bitmap s \<noteq> 0" using c by blast
      have "fls (ready_bitmap s) - 1 < 32" using fls_bit(2,3) [OF b] by simp
      then have "R (fls (ready_bitmap s) - 1) \<noteq> []" using ready_okD(3) [OF D(1)] fls_bit(1) [OF b] by blast
      then show False using none(1) \<open>fls (ready_bitmap s) - 1 < 32\<close> by blast
    qed
    then show ?thesis using m none(2) by (auto simp: sched_inv_def)
  next
    case (switch p t ts)
    let ?c = "current_task s" and ?s = "schedule s" and ?R = "(requeue s R)(p := tl (requeue s R p))"
    have tq: "t \<in> queued R" using switch(1,2) by (auto simp: queued_def intro!: bexI [of _ p])
    then have tr: "t_state (tasks s t) = TASK_READY" by (rule mid_states(1) [OF m])
    have r: "current_task ?s = t" "queue_head ?s = queue_head s" "queue_tail ?s = queue_tail s" using switch(4,10) by (simp_all add: same_rest_def)
    have w: "wait_next (tasks ?s u) = wait_next (tasks s u) \<and> wait_prev (tasks ?s u) = wait_prev (tasks s u) \<and> wait_queue (tasks ?s u) = wait_queue (tasks s u)" for u
      using links_keptD(9-11) [OF switch(11)] links_keptD(9-11) [OF switch(12)] links_keptD(9-11) [OF switch(13)]
      by (cases "u = t"; cases "u = ?c"; cases "?c \<noteq> 0 \<and> t_state (tasks s ?c) = TASK_RUNNING") auto
    have st: "t_state (tasks ?s u) = t_state (tasks s u) \<or> t_state (tasks ?s u) = TASK_READY \<or> t_state (tasks ?s u) = TASK_RUNNING" for u
      using links_keptD(1) [OF switch(11)] switch(7) links_keptD(1) [OF switch(13)]
      by (cases "u = t"; cases "u = ?c"; cases "?c \<noteq> 0 \<and> t_state (tasks s ?c) = TASK_RUNNING") auto
    have bl: "t_state (tasks ?s u) = TASK_BLOCKED" if u: "u \<in> waiting W" for u
    proof -
      have b: "t_state (tasks s u) = TASK_BLOCKED" by (rule mid_states(2) [OF m u])
      then have "u \<noteq> t" using tr by auto
      then show ?thesis using links_keptD(1) [OF switch(11) [of u]] links_keptD(1) [OF switch(13)] b by (cases "u = ?c") auto
    qed
    have qs: "queued (requeue s R) \<subseteq> insert ?c (queued R)" and c0: "?c = 0 \<Longrightarrow> requeue s R = R"
      by (auto simp: requeue_def Let_def queued_append)
    have sub: "queued ?R \<subseteq> queued (requeue s R)"
      using switch(1) in_set_tlD by (auto simp: queued_upd [OF switch(1)]) (auto simp: queued_def intro!: bexI [of _ p] dest: in_set_tlD)
    have "sched_mid ?s A ?R W"
    proof (rule sched_midI)
      show "wait_ok ?s W" by (rule wait_ok_cong [OF D(2) r(2,3) w bl])
      show "u \<in> A" if "u \<in> queued ?R" for u
      proof -
        have "u \<in> queued (requeue s R)" using that sub by blast
        then show ?thesis using qs c0 D(4,6) by (cases "?c = 0") auto
      qed
      show "u \<in> A" if "t_state (tasks ?s u) = TASK_SLEEPING" for u using st [of u] that D(7) by auto
      show "u \<in> A" if "t_state (tasks ?s u) = TASK_BLOCKED" for u using st [of u] that D(8) by auto
    qed (use switch(5,6) r(1) D(4,5) tq in auto)
    moreover have "cur_ok ?s" using switch(7) r(1) by (simp add: cur_ok_def)
    ultimately show ?thesis by (auto simp: sched_inv_def)
  qed
qed

section \<open>Entering and leaving wait queues\<close>

lemma mid_wait:
  assumes m: "sched_mid s A R W" and e: "\<exists>H T X. s' = s\<lparr> queue_head := H, queue_tail := T, tasks := X \<rparr>"
    and k: "\<And>u. (tasks s' u)\<lparr> wait_next := 0, wait_prev := 0, wait_queue := 0 \<rparr> = (tasks s u)\<lparr> wait_next := 0, wait_prev := 0, wait_queue := 0 \<rparr>"
    and w: "wait_ok s' W'" "\<And>u. u \<in> waiting W' \<Longrightarrow> u \<in> A"
  shows "sched_mid s' A R W'" "ready_bitmap s' = ready_bitmap s" "current_task s' = current_task s" "cur_ok s' = cur_ok s"
    "t_state (tasks s' v) = t_state (tasks s v)" "prio_of (tasks s' v) = prio_of (tasks s v)"
proof -
  note D = sched_midD [OF m]
  obtain H T X where s': "s' = s\<lparr> queue_head := H, queue_tail := T, tasks := X \<rparr>" using e by blast
  have f: "t_state (tasks s' u) = t_state (tasks s u)" "t_next (tasks s' u) = t_next (tasks s u)" "t_prev (tasks s' u) = t_prev (tasks s u)"
    "prio_of (tasks s' u) = prio_of (tasks s u)" for u
    using k [of u] by (cases "tasks s' u"; cases "tasks s u"; simp add: prio_of_def)+
  show "ready_bitmap s' = ready_bitmap s" "current_task s' = current_task s" by (simp_all add: s')
  then show "cur_ok s' = cur_ok s" by (simp add: cur_ok_def f)
  show "t_state (tasks s' v) = t_state (tasks s v)" "prio_of (tasks s' v) = prio_of (tasks s v)" by (rule f)+
  show "sched_mid s' A R W'"
  proof (rule sched_midI)
    show "ready_ok s' R" by (rule ready_ok_cong [OF D(1)]) (simp_all add: f, simp_all add: s')
    show "current_task s' \<notin> queued R" "current_task s' = 0 \<or> current_task s' \<in> A" using D(3,6) by (simp_all add: s')
  qed (use D(4,7,8) w f in auto)
qed

lemma mid_push:
  assumes m: "sched_mid s A R W" and t: "t \<noteq> 0" "t \<notin> waiting W" "t \<in> A" "t_state (tasks s t) = TASK_BLOCKED" and q: "q \<noteq> 0"
  shows "sched_mid (task_queue_push q t s) A R (W(q := W q @ [t]))" "ready_bitmap (task_queue_push q t s) = ready_bitmap s"
proof -
  note P = task_queue_push_is [OF sched_midD(2) [OF m] t(1,2,4) q]
  have sub: "u \<in> A" if "u \<in> waiting (W(q := W q @ [t]))" for u
    using that sched_midD(5) [OF m, of u] t(3) by (auto simp: waiting_def split: if_splits)
  show "sched_mid (task_queue_push q t s) A R (W(q := W q @ [t]))" "ready_bitmap (task_queue_push q t s) = ready_bitmap s"
    by (rule mid_wait [OF m P(3,2,1)], erule sub)+
qed

lemma mid_unqueue:
  assumes m: "sched_mid s A R W" and t: "t \<in> set (W q)"
  shows "sched_mid (task_queue_remove q t s) A R (W(q := remove1 t (W q)))" "cur_ok (task_queue_remove q t s) = cur_ok s"
    "current_task (task_queue_remove q t s) = current_task s" "t_state (tasks (task_queue_remove q t s) v) = t_state (tasks s v)"
    "prio_of (tasks (task_queue_remove q t s) v) = prio_of (tasks s v)" "t \<notin> waiting (W(q := remove1 t (W q)))"
proof -
  note P = task_queue_remove_is [OF sched_midD(2) [OF m] t]
  have sub: "u \<in> A" if "u \<in> waiting (W(q := remove1 t (W q)))" for u
    using that sched_midD(5) [OF m, of u] set_remove1_subset [of t "W q"] by (auto simp: waiting_def split: if_splits)
  show "sched_mid (task_queue_remove q t s) A R (W(q := remove1 t (W q)))" "cur_ok (task_queue_remove q t s) = cur_ok s"
    "current_task (task_queue_remove q t s) = current_task s" "t_state (tasks (task_queue_remove q t s) v) = t_state (tasks s v)"
    "prio_of (tasks (task_queue_remove q t s) v) = prio_of (tasks s v)"
    by (rule mid_wait [OF m P(3,2,1)], erule sub)+
  have "distinct (W q)" by (rule dllD(1) [OF wait_okD(4) [OF sched_midD(2) [OF m]]])
  then have "t \<notin> set (remove1 t (W q))" by simp
  then show "t \<notin> waiting (W(q := remove1 t (W q)))"
    using wait_apart [OF sched_midD(2) [OF m] t] by (auto simp: waiting_def split: if_splits)
qed

section \<open>Operations\<close>

lemma inv_schedule: "sched_inv s A \<Longrightarrow> sched_inv (schedule s) A"
  using schedule_mid by (auto simp: sched_inv_def)

lemma inv_core:
  assumes "sched_inv s A" "same_lists s s'" "\<And>t. core (tasks s' t) = core (tasks s t)"
  shows "sched_inv s' A"
  using mid_core [OF _ assms(2,3)] assms(1) unfolding sched_inv_def by blast

lemma same_lists_simps [simp]: "same_lists s s" "same_lists s (upd_task t f s)"
  by (simp_all add: same_lists_def upd_task_def)

lemma same_lists_trans: "same_lists a b \<Longrightarrow> same_lists b c \<Longrightarrow> same_lists a c"
  by (simp add: same_lists_def)

lemma inv_yield: "sched_inv s A \<Longrightarrow> sched_inv (task_yield s) A"
  unfolding task_yield_def Let_def by (intro inv_schedule) (auto intro: inv_core simp: upd_task_def same_lists_def)

text \<open>The current task leaves the processor for the state that \<open>f\<close> gives it.\<close>

lemma mid_leave:
  assumes m: "sched_mid s A R W" and c: "cur_ok s" "current_task s \<noteq> 0"
    and f: "wait_next (f (tasks s (current_task s))) = wait_next (tasks s (current_task s))"
      "wait_prev (f (tasks s (current_task s))) = wait_prev (tasks s (current_task s))"
      "wait_queue (f (tasks s (current_task s))) = wait_queue (tasks s (current_task s))"
  shows "sched_mid (upd_task (current_task s) f s) A R W" "current_task s \<notin> waiting W" "current_task s \<in> A"
proof -
  note D = sched_midD [OF m]
  show w: "current_task s \<notin> waiting W" using mid_states(2) [OF m, of "current_task s"] c by (auto simp: cur_ok_def)
  show a: "current_task s \<in> A" using D(6) c(2) by blast
  show "sched_mid (upd_task (current_task s) f s) A R W" by (rule mid_upd [OF m D(3) w, where f = f]) (use a f in blast)+
qed

lemma inv_exit: "sched_inv s A \<Longrightarrow> ready_bitmap s \<noteq> 0 \<Longrightarrow> task_exit s = Some s' \<Longrightarrow> sched_inv s' A"
proof -
  assume i: "sched_inv s A" "ready_bitmap s \<noteq> 0" "task_exit s = Some s'"
  then have c: "current_task s \<noteq> 0" "s' = schedule (upd_task (current_task s) (\<lambda>x. x\<lparr> t_state := TASK_ZOMBIE \<rparr>) s)"
    by (auto simp: task_exit_def Let_def split: if_splits)
  obtain R W where m: "sched_mid s A R W" "cur_ok s" using i(1) by (auto simp: sched_inv_def)
  have "sched_mid (upd_task (current_task s) (\<lambda>x. x\<lparr> t_state := TASK_ZOMBIE \<rparr>) s) A R W" by (rule mid_leave(1) [OF m c(1)]) simp_all
  then show ?thesis unfolding c(2) by (rule schedule_mid) (use i(2) in \<open>simp add: upd_task_def\<close>)
qed

lemma inv_sleep: "sched_inv s A \<Longrightarrow> ready_bitmap s \<noteq> 0 \<Longrightarrow> sched_inv (task_sleep ms s) A"
proof (cases "current_task s = 0")
  case False
  assume i: "sched_inv s A" "ready_bitmap s \<noteq> 0"
  obtain R W where m: "sched_mid s A R W" "cur_ok s" using i(1) by (auto simp: sched_inv_def)
  let ?u = "upd_task (current_task s) (\<lambda>x. x\<lparr> sleep_until := tick_count s + ms_ticks ms, t_state := TASK_SLEEPING \<rparr>) s"
  have "sched_mid ?u A R W" by (rule mid_leave(1) [OF m False]) simp_all
  then have "sched_mid (timer_wheel_insert (current_task s) (ms_ticks ms) ?u) A R W" by (rule mid_core(1) [OF _ timer_wheel_insert_lists])
  moreover have "ready_bitmap (timer_wheel_insert (current_task s) (ms_ticks ms) ?u) = ready_bitmap s"
    using timer_wheel_insert_lists(1) [of ?u "current_task s" "ms_ticks ms"] by (simp add: same_lists_def upd_task_def)
  ultimately show ?thesis using schedule_mid i(2) False by (simp add: task_sleep_def Let_def)
qed (simp add: task_sleep_def)

lemma inv_block:
  assumes i: "sched_inv s A" "ready_bitmap s \<noteq> 0" "q \<noteq> 0"
  shows "sched_inv (task_block_on q ms s) A"
proof (cases "current_task s = 0")
  case False
  obtain R W where m: "sched_mid s A R W" "cur_ok s" using i(1) by (auto simp: sched_inv_def)
  let ?c = "current_task s" and ?ticks = "if ms \<noteq> TASK_NO_TIMEOUT then ms_ticks ms else 0"
  let ?u = "upd_task ?c (\<lambda>x. x\<lparr> t_state := TASK_BLOCKED, t_wake := WAKE_NONE,
    sleep_until := if ms \<noteq> TASK_NO_TIMEOUT then tick_count s + ?ticks else 0 \<rparr>) s"
  have u: "sched_mid ?u A R W" by (rule mid_leave(1) [OF m False]) simp_all
  note L = mid_leave(2,3) [OF m False, of id, simplified]
  have b: "t_state (tasks ?u ?c) = TASK_BLOCKED" by (simp add: upd_task_def)
  let ?p = "task_queue_push q ?c ?u"
  note p = mid_push [OF u False L b i(3)]
  have bm: "ready_bitmap ?p \<noteq> 0" using i(2) p(2) by (simp add: upd_task_def)
  let ?w = "if 0 < ?ticks then timer_wheel_insert ?c ?ticks ?p else ?p"
  have "sched_mid ?w A R (W(q := W q @ [?c]))" using mid_core(1) [OF p(1) timer_wheel_insert_lists] p(1) by simp
  moreover have "ready_bitmap ?w \<noteq> 0" using timer_wheel_insert_lists(1) [of ?p ?c ?ticks] bm by (simp add: same_lists_def)
  ultimately have "sched_inv (schedule ?w) A" by (intro schedule_mid) blast+
  moreover have "task_block_on q ms s = schedule ?w" unfolding task_block_on_def Let_def by (simp only: False if_False)
  ultimately show ?thesis by (simp only:)
qed (use i in \<open>simp add: task_block_on_def\<close>)

end
