(* ===== verification/SchedWake.thy ===== *)
theory SchedWake
  imports SchedSteps
begin

text \<open>
  Waking, creating and destroying tasks keep the invariant, and with them every sequence of steps.
\<close>

section \<open>Waking\<close>

lemma mid_wake:
  assumes m: "sched_mid s A R W" and t: "t \<noteq> 0" "t \<notin> queued R" "t \<notin> waiting W" "t \<noteq> current_task s" "t \<in> A"
    and f: "wait_next (f (tasks s t)) = wait_next (tasks s t)" "wait_prev (f (tasks s t)) = wait_prev (tasks s t)"
      "wait_queue (f (tasks s t)) = wait_queue (tasks s t)"
  shows "\<exists>R. sched_mid (scheduler_add t (upd_task t f s)) A R W" "cur_ok (scheduler_add t (upd_task t f s)) = cur_ok s"
proof -
  have u: "sched_mid (upd_task t f s) A R W" by (rule mid_upd [OF m t(2,3), where f = f]) (use t(5) f in blast)+
  have c: "current_task (upd_task t f s) = current_task s" "cur_ok (upd_task t f s) = cur_ok s"
    using t(4) by (simp_all add: upd_task_def cur_ok_def)
  have t': "t \<noteq> current_task (upd_task t f s)" using t(4) c(1) by simp
  show "\<exists>R. sched_mid (scheduler_add t (upd_task t f s)) A R W" using mid_add(1) [OF u t(1-3) t' t(5) refl] by blast
  show "cur_ok (scheduler_add t (upd_task t f s)) = cur_ok s" using mid_add(2) [OF u t(1-3) t' t(5) refl] c(2) by simp
qed

text \<open>A sleeping task, and one that waits in no queue, is in no list.\<close>

lemma off_lists:
  assumes m: "sched_mid s A R W" "cur_ok s" and t: "t \<noteq> 0"
    and st: "t_state (tasks s t) = TASK_SLEEPING \<or> t_state (tasks s t) = TASK_BLOCKED \<and> wait_queue (tasks s t) = 0"
  shows "t \<notin> queued R" "t \<notin> waiting W" "t \<noteq> current_task s" "t \<in> A"
proof -
  note D = sched_midD [OF m(1)]
  show "t \<notin> queued R" using mid_states(1) [OF m(1)] st by auto
  show "t \<in> A" using D(7,8) st by blast
  show "t \<noteq> current_task s" using m(2) t st by (auto simp: cur_ok_def)
  show "t \<notin> waiting W"
  proof
    assume "t \<in> waiting W"
    then obtain q where q: "t \<in> set (W q)" by (auto simp: waiting_def)
    then have "q \<noteq> 0" "wait_queue (tasks s t) = q" using wait_okD(1,5) [OF D(2)] by auto
    moreover have "t_state (tasks s t) = TASK_BLOCKED" by (rule wait_okD(6) [OF D(2) q])
    ultimately show False using st by auto
  qed
qed

lemma inv_wake:
  assumes i: "sched_inv s A" and t: "t \<noteq> 0" "t_state (tasks s t) = TASK_SLEEPING \<or> t_state (tasks s t) = TASK_BLOCKED \<and> wait_queue (tasks s t) = 0"
    and f: "wait_next (f (tasks s t)) = wait_next (tasks s t)" "wait_prev (f (tasks s t)) = wait_prev (tasks s t)"
      "wait_queue (f (tasks s t)) = wait_queue (tasks s t)"
  shows "sched_inv (scheduler_add t (upd_task t f s)) A"
proof -
  obtain R W where m: "sched_mid s A R W" "cur_ok s" using i by (auto simp: sched_inv_def)
  note O = off_lists [OF m t]
  show ?thesis using mid_wake [OF m(1) t(1) O, of f] f m(2) by (auto simp: sched_inv_def)
qed

lemma inv_wake_sleeper:
  assumes i: "sched_inv s A"
  shows "sched_inv (wake_sleeper t s) A"
proof (cases "t \<noteq> 0 \<and> t_state (tasks s t) = TASK_SLEEPING")
  case True
  let ?r = "timer_wheel_remove t s"
  have r: "sched_inv ?r A" by (rule inv_core [OF i timer_wheel_remove_lists(1,2)])
  have "t_state (tasks ?r t) = TASK_SLEEPING" using True coreD(1) [OF timer_wheel_remove_lists(2)] by simp
  then show ?thesis using True inv_wake [OF r, of t "\<lambda>x. x\<lparr> t_state := TASK_READY, sleep_until := 0 \<rparr>"] by (simp add: wake_sleeper_def)
qed (use i in \<open>auto simp: wake_sleeper_def\<close>)

lemma inv_wake_all: "sched_inv s A \<Longrightarrow> sched_inv (task_wake_all s) A"
proof -
  have "sched_inv s A \<Longrightarrow> sched_inv (fold wake_sleeper xs s) A" for xs
    by (induction xs arbitrary: s) (auto intro: inv_wake_sleeper)
  then show "sched_inv s A \<Longrightarrow> sched_inv (task_wake_all s) A" by (simp add: task_wake_all_def)
qed

text \<open>A task that waits leaves its queue and is ready; \<open>f\<close> notes why.\<close>

lemma inv_unblock:
  assumes i: "sched_inv s A" and t: "wait_queue (tasks s t) = q" "q \<noteq> 0"
    and f: "\<And>x. wait_next (f x) = wait_next x \<and> wait_prev (f x) = wait_prev x \<and> wait_queue (f x) = wait_queue x"
  shows "sched_inv (scheduler_add t (upd_task t f (task_queue_remove q t s))) A"
proof -
  obtain R W where m: "sched_mid s A R W" "cur_ok s" using i by (auto simp: sched_inv_def)
  note D = sched_midD [OF m(1)]
  have tq: "t \<in> set (W q)" using wait_okD(7) [OF D(2), of t] t by simp
  have t0: "t \<noteq> 0" using dllD(2) [OF wait_okD(4) [OF D(2)]] tq by auto
  have tb: "t_state (tasks s t) = TASK_BLOCKED" by (rule wait_okD(6) [OF D(2) tq])
  note U = mid_unqueue [OF m(1) tq]
  have "t \<notin> queued R" using mid_states(1) [OF m(1)] tb by auto
  moreover have "t \<noteq> current_task s" using m(2) t0 tb by (auto simp: cur_ok_def)
  moreover have "t \<in> A" using D(8) tb by blast
  ultimately show ?thesis using mid_wake [OF U(1) t0 _ U(6), of f] U(2,3) f m(2) by (auto simp: sched_inv_def)
qed

lemma inv_wake_expired: "sched_inv s A \<Longrightarrow> t \<noteq> 0 \<Longrightarrow> sched_inv (wake_expired t s) A"
proof -
  assume i: "sched_inv s A" and t: "t \<noteq> 0"
  let ?r = "timer_wheel_remove t s"
  have r: "sched_inv ?r A" by (rule inv_core [OF i timer_wheel_remove_lists(1,2)])
  consider "t_state (tasks ?r t) = TASK_SLEEPING" | "t_state (tasks ?r t) = TASK_BLOCKED" "wait_queue (tasks ?r t) = 0"
    | "t_state (tasks ?r t) = TASK_BLOCKED" "wait_queue (tasks ?r t) \<noteq> 0" | "t_state (tasks ?r t) \<noteq> TASK_SLEEPING" "t_state (tasks ?r t) \<noteq> TASK_BLOCKED" by blast
  then show ?thesis
  proof cases
    case 1
    then show ?thesis using inv_wake [OF r t, of "\<lambda>x. x\<lparr> t_state := TASK_READY, sleep_until := 0 \<rparr>"] by (simp add: wake_expired_def Let_def)
  next
    case 2
    then show ?thesis using inv_wake [OF r t, of "\<lambda>x. x\<lparr> t_wake := WAKE_TIMEOUT, sleep_until := 0, t_state := TASK_READY \<rparr>"]
      by (simp add: wake_expired_def Let_def)
  next
    case 3
    then show ?thesis using inv_unblock [OF r refl 3(2), of "\<lambda>x. x\<lparr> t_wake := WAKE_TIMEOUT, sleep_until := 0, t_state := TASK_READY \<rparr>"]
      by (simp add: wake_expired_def Let_def)
  next
    case 4
    then show ?thesis using r by (simp add: wake_expired_def Let_def)
  qed
qed

lemma inv_wheel_loop:
  assumes "wheel_loop t s = Some s'" "sched_inv s A"
  shows "sched_inv s' A"
  using assms
proof (induction t s s' rule: wheel_loop.raw_induct [rotated 1, consumes 1, case_names step])
  case (step f t s s')
  show ?case
  proof (cases "t = 0")
    case False
    let ?s = "if sleep_until (tasks s t) \<le> tick_count s then wake_expired t s else s"
    have "f (timer_next (tasks s t)) ?s = Some s'" using step.hyps False by simp
    moreover have "sched_inv ?s A" using inv_wake_expired [OF step.prems False] step.prems by simp
    ultimately show ?thesis by (rule step.IH)
  qed (use step in simp)
qed

lemma inv_tick:
  assumes "scheduler_tick s = Some s'" "sched_inv s A"
  shows "sched_inv s' A"
proof -
  obtain v where v: "scheduler_timer_wheel_tick s = Some v" using assms(1) by (auto simp: scheduler_tick_def)
  have i: "sched_inv v A" using inv_wheel_loop assms(2) v by (auto simp: scheduler_timer_wheel_tick_def)
  let ?t = "current_task v"
  define s1 where "s1 = (if t_quantum (tasks v ?t) > 0 then upd_task ?t (\<lambda>x. x\<lparr> t_quantum := t_quantum x - 1 \<rparr>) v else v)"
  have 1: "sched_inv s1 A" by (rule inv_core [OF i]) (simp_all add: s1_def upd_task_def same_lists_def)
  have "sched_inv (upd_task ?t (\<lambda>x. x\<lparr> t_quantum := quantum_max x \<rparr>) s1) A" by (rule inv_core [OF 1]) (simp_all add: upd_task_def same_lists_def)
  then have 2: "sched_inv (schedule (upd_task ?t (\<lambda>x. x\<lparr> t_quantum := quantum_max x \<rparr>) s1)) A" by (rule inv_schedule)
  have "s' = (if ?t = 0 then v else if t_quantum (tasks s1 ?t) = 0 then schedule (upd_task ?t (\<lambda>x. x\<lparr> t_quantum := quantum_max x \<rparr>) s1) else s1)"
    using assms(1) unfolding scheduler_tick_def v option.map Let_def s1_def by (simp only: option.inject)
  then show ?thesis using i 1 2 by simp
qed

lemma head_waits: "sched_mid s A R W \<Longrightarrow> q \<noteq> 0 \<Longrightarrow> queue_head s q \<noteq> 0 \<Longrightarrow> wait_queue (tasks s (queue_head s q)) = q"
  using wait_okD(2,5) [OF sched_midD(2)] first0_in [of "W q"] by (metis first0_simps(1))

text \<open>The first task of the queue becomes ready, behind the others of its priority.\<close>

lemma wake_one_is:
  assumes m: "sched_mid s A R W" "cur_ok s" and q: "W q = t # ts"
  shows "sched_mid (task_wake_one q s) A (R(prio_of (tasks s t) := R (prio_of (tasks s t)) @ [t])) (W(q := ts))"
    "cur_ok (task_wake_one q s)" "t_state (tasks (task_wake_one q s) t) = TASK_READY" "t_wake (tasks (task_wake_one q s) t) = WAKE_SIGNALED"
proof -
  let ?f = "\<lambda>x. x\<lparr> t_wake := WAKE_SIGNALED, sleep_until := 0, t_state := TASK_READY \<rparr>"
  note D = sched_midD [OF m(1)]
  have q0: "q \<noteq> 0" using wait_okD(1) [OF D(2)] q by auto
  have h: "queue_head s q = t" using wait_okD(2) [OF D(2) q0] q by simp
  have tq: "t \<in> set (W q)" using q by simp
  have t0: "t \<noteq> 0" using dllD(2) [OF wait_okD(4) [OF D(2)]] tq by auto
  have tb: "t_state (tasks s t) = TASK_BLOCKED" by (rule wait_okD(6) [OF D(2) tq])
  have rm: "remove1 t (W q) = ts" using q by simp
  note U = mid_unqueue [OF m(1) tq, unfolded rm]
  let ?r = "timer_wheel_remove t (task_queue_remove q t s)"
  note M = mid_core [OF U(1) timer_wheel_remove_lists(1,2)]
  have c: "current_task ?r = current_task s"
    using timer_wheel_remove_lists(1) [of "task_queue_remove q t s" t] U(3) by (simp add: same_lists_def)
  have o: "t \<notin> queued R" "t \<noteq> current_task ?r" "t \<in> A"
    using mid_states(1) [OF m(1)] tb m(2) t0 c D(8) by (auto simp: cur_ok_def)
  have u: "sched_mid (upd_task t ?f ?r) A R (W(q := ts))" "t \<noteq> current_task (upd_task t ?f ?r)"
    using mid_upd [where f = ?f, OF M(1) o(1) U(6)] o(2,3) by (simp_all, simp add: upd_task_def)
  have p: "prio_of (tasks (upd_task t ?f ?r) t) = prio_of (tasks s t)"
  proof -
    have "prio_of (tasks (upd_task t ?f ?r) t) = prio_of (?f (tasks ?r t))" by (simp add: upd_task_def)
    also have "\<dots> = prio_of (tasks ?r t)" by (simp add: prio_of_def)
    also have "\<dots> = prio_of (tasks s t)" using coreD(2) [OF timer_wheel_remove_lists(2)] U(5) by simp
    finally show ?thesis .
  qed
  have e: "task_wake_one q s = scheduler_add t (upd_task t ?f ?r)" using h t0 q0 by (simp add: task_wake_one_def task_queue_pop_def)
  show "sched_mid (task_wake_one q s) A (R(prio_of (tasks s t) := R (prio_of (tasks s t)) @ [t])) (W(q := ts))"
    unfolding e by (rule mid_add(1) [OF u(1) t0 o(1) U(6) u(2) o(3) p [symmetric]])
  have "cur_ok (upd_task t ?f ?r)" using M(2) U(2) m(2) o(2) by (simp add: cur_ok_def upd_task_def)
  then show "cur_ok (task_wake_one q s)" unfolding e using mid_add(2) [OF u(1) t0 o(1) U(6) u(2) o(3) refl] by simp
  have "links_kept ((tasks (upd_task t ?f ?r) t)\<lparr> t_state := TASK_READY \<rparr>) (tasks (task_wake_one q s) t)"
    unfolding e by (rule scheduler_add_is(3) [OF sched_midD(1) [OF u(1)] t0 o(1) refl])
  from links_keptD(1,8) [OF this] show "t_state (tasks (task_wake_one q s) t) = TASK_READY" "t_wake (tasks (task_wake_one q s) t) = WAKE_SIGNALED"
    by (simp_all add: upd_task_def)
qed

lemma inv_wake_one:
  assumes i: "sched_inv s A"
  shows "sched_inv (task_wake_one q s) A"
proof -
  obtain R W where m: "sched_mid s A R W" "cur_ok s" using i by (auto simp: sched_inv_def)
  show ?thesis
  proof (cases "W q")
    case Nil
    then have "q = 0 \<or> queue_head s q = 0" using wait_okD(2) [OF sched_midD(2) [OF m(1)], of q] by auto
    then show ?thesis using i by (auto simp: task_wake_one_def task_queue_pop_def)
  next
    case (Cons t ts)
    show ?thesis using wake_one_is(1,2) [OF m Cons] by (auto simp: sched_inv_def)
  qed
qed

lemma inv_wake_queue:
  assumes "task_wake_all_queue q s = Some s'" "sched_inv s A"
  shows "sched_inv s' A"
  using assms
proof (induction q s s' rule: task_wake_all_queue.raw_induct [rotated 1, consumes 1, case_names step])
  case (step f q s s')
  show ?case
  proof (cases "q = 0 \<or> queue_head s q = 0")
    case True
    then show ?thesis using step by simp
  next
    case False
    obtain R W where m: "sched_mid s A R W" "cur_ok s" using step.prems by (auto simp: sched_inv_def)
    have w: "wait_queue (tasks s (queue_head s q)) = q" using head_waits [OF m(1)] False by blast
    have "sched_inv (scheduler_add (queue_head s q) (upd_task (queue_head s q)
        (\<lambda>x. x\<lparr> t_wake := WAKE_SIGNALED, sleep_until := 0, t_state := TASK_READY \<rparr>) (task_queue_remove q (queue_head s q) s))) A"
      by (rule inv_unblock [OF step.prems w]) (use False in simp_all)
    moreover have "f q (scheduler_add (queue_head s q) (upd_task (queue_head s q)
        (\<lambda>x. x\<lparr> t_wake := WAKE_SIGNALED, sleep_until := 0, t_state := TASK_READY \<rparr>) (task_queue_remove q (queue_head s q) s))) = Some s'"
      using step.hyps False by (simp add: task_queue_pop_def)
    ultimately show ?thesis by (rule step.IH [rotated])
  qed
qed

section \<open>Creating and destroying\<close>

lemma mid_fresh:
  assumes m: "sched_mid s A R W" and t: "t \<notin> A" "t \<noteq> 0" and x: "wait_queue x = 0" "t_state x = TASK_READY"
  shows "sched_mid (upd_task t (\<lambda>_. x) s) (insert t A) R W" "cur_ok (upd_task t (\<lambda>_. x) s) = cur_ok s" "t \<notin> queued R" "t \<notin> waiting W"
    "t \<noteq> current_task s"
proof -
  note D = sched_midD [OF m]
  show o: "t \<notin> queued R" "t \<notin> waiting W" "t \<noteq> current_task s" using D(4-6) t by auto
  show "cur_ok (upd_task t (\<lambda>_. x) s) = cur_ok s" using o(3) by (simp add: cur_ok_def upd_task_def)
  note Wd = wait_okD [OF D(2)]
  have ne: "u \<noteq> t" if "u \<in> set (W q)" for u q using that o(2) by (auto simp: waiting_def)
  show "sched_mid (upd_task t (\<lambda>_. x) s) (insert t A) R W"
  proof (rule sched_midI)
    show "ready_ok (upd_task t (\<lambda>_. x) s) R" by (rule ready_ok_upd [OF D(1) o(1)])
    show "wait_ok (upd_task t (\<lambda>_. x) s) W"
    proof (rule wait_okI)
      show "dll (\<lambda>u. wait_next (tasks (upd_task t (\<lambda>_. x) s) u)) (\<lambda>u. wait_prev (tasks (upd_task t (\<lambda>_. x) s) u)) (W q)" for q
        by (rule dll_cong [OF Wd(4)]) (use ne in \<open>auto simp: upd_task_def\<close>)
      show "u \<in> set (W (wait_queue (tasks (upd_task t (\<lambda>_. x) s) u)))" if "wait_queue (tasks (upd_task t (\<lambda>_. x) s) u) \<noteq> 0" for u
        using that Wd(7) [of u] x(1) by (cases "u = t") (simp_all add: upd_task_def)
    qed (use Wd(1-3,5,6) ne in \<open>simp_all add: upd_task_def\<close>)
    show "u \<in> insert t A" if "t_state (tasks (upd_task t (\<lambda>_. x) s) u) = TASK_SLEEPING" for u
      using that D(7) [of u] by (auto simp: upd_task_def split: if_splits)
    show "u \<in> insert t A" if "t_state (tasks (upd_task t (\<lambda>_. x) s) u) = TASK_BLOCKED" for u
      using that D(8) [of u] by (auto simp: upd_task_def split: if_splits)
  qed (use D(3-6) in \<open>auto simp: upd_task_def\<close>)
qed

lemma mid_grow: "sched_mid s A R W \<Longrightarrow> A \<subseteq> B \<Longrightarrow> sched_mid s B R W"
  unfolding sched_mid_def by blast

text \<open>Fields that no list depends on.\<close>

lemma mid_fields:
  "sched_mid (s\<lparr> next_tid := n \<rparr>) A R W = sched_mid s A R W" "sched_mid (s\<lparr> task_table := ts \<rparr>) A R W = sched_mid s A R W"
  "sched_mid (s\<lparr> tick_count := k \<rparr>) A R W = sched_mid s A R W" "cur_ok (s\<lparr> next_tid := n \<rparr>) = cur_ok s"
  "cur_ok (s\<lparr> task_table := ts \<rparr>) = cur_ok s" "cur_ok (s\<lparr> tick_count := k \<rparr>) = cur_ok s"
  by (simp_all add: sched_mid_def cur_ok_def ready_ok_def wait_ok_def)

lemma inv_create:
  assumes i: "sched_inv s A" and t: "mem \<notin> A" and c: "task_create_arg_prio mem stack prio s = (t, s')"
  shows "sched_inv s' (if t = 0 then A else insert mem A)"
proof -
  obtain R W where m: "sched_mid s A R W" "cur_ok s" using i by (auto simp: sched_inv_def)
  show ?thesis
  proof (cases "task_find_free_slot s = None \<or> mem = 0")
    case True
    then have "t = 0 \<and> s' = s" using c by (auto simp: task_create_arg_prio_def split: option.splits)
    then show ?thesis using i by simp
  next
    case False
    then obtain slot where slot: "task_find_free_slot s = Some slot" "mem \<noteq> 0" by auto
    define pr where "pr = (if prio > TASK_PRIO_CRITICAL then TASK_PRIO_CRITICAL else prio)"
    define x where "x = zero_task\<lparr> t_tid := next_tid s, t_state := TASK_READY, t_class := SCHED_NORMAL, base_prio := pr, cur_prio := pr,
      t_quantum := prio_to_quantum pr, quantum_max := prio_to_quantum pr, sleep_until := 0, t_wake := WAKE_NONE \<rparr>"
    let ?u = "(upd_task mem (\<lambda>_. x) s)\<lparr> next_tid := next_tid s + 1 \<rparr>"
    have x: "wait_queue x = 0" "t_state x = TASK_READY" by (simp_all add: x_def zero_task_def)
    note F = mid_fresh [OF m(1) t slot(2) x]
    have cr: "(t, s') = (if stack = 0 then (0, ?u) else (mem, scheduler_add mem (?u\<lparr> task_table := (task_table ?u)[slot := mem] \<rparr>)))"
      unfolding c [symmetric] task_create_arg_prio_def slot(1) option.case Let_def x_def pr_def by (simp only: slot(2) if_False)
    show ?thesis
    proof (cases "stack = 0")
      case True
      have "sched_mid (upd_task mem (\<lambda>_. x) s) A R W"
        unfolding sched_mid_def using F sched_midD [OF m(1)] sched_midD [OF F(1)] x(2) by (auto simp: upd_task_def split: if_splits)
      then show ?thesis using cr True m(2) F(2) by (auto simp: sched_inv_def mid_fields)
    next
      case False
      let ?v = "?u\<lparr> task_table := (task_table ?u)[slot := mem] \<rparr>"
      have v: "sched_mid ?v (insert mem A) R W" "cur_ok ?v" "mem \<noteq> current_task ?v"
        using F m(2) by (simp_all add: mid_fields, simp add: upd_task_def)
      have "sched_inv (scheduler_add mem ?v) (insert mem A)"
        using mid_add [OF v(1) slot(2) F(3,4) v(3) _ refl] v(2) by (auto simp: sched_inv_def)
      then show ?thesis using cr False slot(2) by simp
    qed
  qed
qed

text \<open>A zombie is in no list.\<close>

lemma inv_destroy:
  assumes i: "sched_inv s A" and t: "t_state (tasks s t) = TASK_ZOMBIE" "t \<noteq> current_task s"
  shows "sched_inv (task_destroy t s) (A - {t})" "task_destroy t s = s \<or> current_task (task_destroy t s) = current_task s"
proof -
  obtain R W where m: "sched_mid s A R W" "cur_ok s" using i by (auto simp: sched_inv_def)
  note D = sched_midD [OF m(1)]
  have q: "t \<notin> queued R" "t \<notin> waiting W" using mid_states [OF m(1), of t] t by auto
  have w: "wait_queue (tasks s t) = 0" using wait_okD(7) [OF D(2), of t] q(2) by (auto simp: waiting_def)
  let ?r = "timer_wheel_remove t s"
  have wr: "wait_queue (tasks ?r t) = 0" using coreD(7) [OF timer_wheel_remove_lists(2)] w by simp
  have e: "task_destroy t s = (if t = 0 then s else ?r\<lparr> task_table := drop_entry t (task_table ?r) \<rparr>)"
    using t(1) wr by (simp add: task_destroy_def scheduler_remove_def Let_def)
  have M: "sched_mid ?r A R W" "cur_ok ?r" using mid_core [OF m(1) timer_wheel_remove_lists(1,2)] m(2) by simp_all
  have st: "t_state (tasks ?r u) = t_state (tasks s u)" for u by (rule coreD(1) [OF timer_wheel_remove_lists(2)])
  have c: "current_task ?r = current_task s" using timer_wheel_remove_lists(1) [of s t] by (simp add: same_lists_def)
  show "task_destroy t s = s \<or> current_task (task_destroy t s) = current_task s" using e c by simp
  have drop: "sched_mid v (A - {t}) R W" if v: "sched_mid v A R W" "t_state (tasks v t) = TASK_ZOMBIE" "current_task v = current_task s" for v
    using v(2) t(2) q sched_midD [OF v(1)] v(3) unfolding sched_mid_def by auto
  show "sched_inv (task_destroy t s) (A - {t})"
    using drop [OF m(1)] drop [OF M(1)] t(1) st c m(2) M(2) unfolding e by (auto simp: sched_inv_def mid_fields)
qed

text \<open>A change of the priority of a task that is running, blocked or sleeping touches no list.\<close>

lemma inv_boost:
  assumes "sched_inv s A" "t_state (tasks s t) \<noteq> TASK_READY"
  shows "sched_inv (task_boost_priority t n s) A" "sched_inv (task_unboost_priority t s) A"
proof -
  have k: "sched_inv (upd_task t (\<lambda>x. x\<lparr> cur_prio := k \<rparr>) s) A" for k
    using assms(1) mid_prio [OF _ assms(2), where n = k] unfolding sched_inv_def by blast
  have r: "t_state (tasks (upd_task t f s) t) \<noteq> TASK_READY" if "\<And>x. t_state (f x) = t_state x" for f
    using assms(2) that by (simp add: upd_task_def)
  show "sched_inv (task_boost_priority t n s) A"
    using k assms(1) r [of "\<lambda>x. x\<lparr> cur_prio := if TASK_PRIO_CRITICAL < n then TASK_PRIO_CRITICAL else n \<rparr>"]
    by (simp add: task_boost_priority_def Let_def)
  have e: "upd_task t (\<lambda>x. x\<lparr> cur_prio := base_prio x \<rparr>) s = upd_task t (\<lambda>x. x\<lparr> cur_prio := base_prio (tasks s t) \<rparr>) s"
    by (simp add: upd_task_def)
  show "sched_inv (task_unboost_priority t s) A"
    using k [of "base_prio (tasks s t)"] assms(1) r [of "\<lambda>x. x\<lparr> cur_prio := base_prio x \<rparr>"]
    by (simp add: task_unboost_priority_def Let_def e)
qed

end
