(* ===== verification/Sync.thy ===== *)
theory Sync
  imports SchedWake
begin

text \<open>
  Spinlocks, mutexes and semaphores, \<^verbatim>\<open>sync/\<close>, on the one processor that the kernel drives. A call
  that may block is split where the processor switches: \<open>mutex_lock_try\<close> and \<open>sem_wait_try\<close> are one
  round of the loop up to the switch inside \<open>task_block_on\<close>, the \<open>resume\<close> operations are what the
  task does when it runs again, at once if \<open>schedule\<close> found no other task to switch to. The pointers
  to locks are not \<^verbatim>\<open>NULL\<close>. \<open>None\<close> is a spinlock that is taken, which spins with interrupts off
  and so for good, or the use of a task that is not there.
\<close>

section \<open>Spinlocks\<close>

definition spinlock_acquire :: "u32 \<Rightarrow> u32 option" where
  "spinlock_acquire v = (if v = 0 then Some 1 else None)"

definition spinlock_release :: "u32 \<Rightarrow> u32" where
  "spinlock_release v = 0"

section \<open>Mutexes\<close>

definition MUTEX_WAIT_FOREVER :: u32 where [simp]: "MUTEX_WAIT_FOREVER = 0xFFFFFFFF"

record mutex =
  m_locked :: bool
  m_owner :: u64
  owner_orig_prio :: u8
  m_lock :: u32
  m_waiters :: u64

datatype entry_result = Acquired | Waits

definition mutex_init :: "mutex \<Rightarrow> sched \<Rightarrow> mutex \<times> sched" where
  "mutex_init m s =
     (m\<lparr> m_locked := False, m_owner := 0, owner_orig_prio := 0, m_lock := 0 \<rparr>, task_queue_init (m_waiters m) s)"

definition take_mutex :: "u64 \<Rightarrow> sched \<Rightarrow> mutex \<Rightarrow> mutex" where
  "take_mutex self s m =
     m\<lparr> m_locked := True, m_owner := self,
        owner_orig_prio := if self \<noteq> 0 then base_prio (tasks s self) else owner_orig_prio m \<rparr>"

definition mutex_trylock :: "mutex \<Rightarrow> sched \<Rightarrow> (bool \<times> mutex) option" where
  "mutex_trylock m s =
     map_option (\<lambda>v.
       let m1 = (if \<not> m_locked m then take_mutex (current_task s) s m else m)
       in (\<not> m_locked m, m1\<lparr> m_lock := spinlock_release v \<rparr>))
     (spinlock_acquire (m_lock m))"

definition mutex_lock_try :: "u32 \<Rightarrow> mutex \<Rightarrow> sched \<Rightarrow> (entry_result \<times> mutex \<times> sched) option" where
  "mutex_lock_try timeout_ms m s =
     (let self = current_task s
      in Option.bind (spinlock_acquire (m_lock m)) (\<lambda>v.
           if \<not> m_locked m then Some (Acquired, (take_mutex self s m)\<lparr> m_lock := spinlock_release v \<rparr>, s)
           else if m_owner m = 0 \<or> self = 0 then None
           else
             let s1 = (if cur_prio (tasks s (m_owner m)) < cur_prio (tasks s self)
                       then task_boost_priority (m_owner m) (cur_prio (tasks s self)) s else s);
                 wait_ms = (if timeout_ms = MUTEX_WAIT_FOREVER then TASK_NO_TIMEOUT else timeout_ms)
             in Some (Waits, m\<lparr> m_lock := v \<rparr>, task_block_on (m_waiters m) wait_ms s1)))"

text \<open>\<open>None\<close>: the wait timed out and the call returns 0; otherwise the loop starts again.\<close>

definition mutex_lock_resume :: "u32 \<Rightarrow> mutex \<Rightarrow> sched \<Rightarrow> (entry_result \<times> mutex \<times> sched) option + mutex" where
  "mutex_lock_resume timeout_ms m s =
     (let m1 = m\<lparr> m_lock := spinlock_release (m_lock m) \<rparr>
      in if current_task s \<noteq> 0 \<and> t_wake (tasks s (current_task s)) = WAKE_TIMEOUT then Inr m1
         else Inl (mutex_lock_try timeout_ms m1 s))"

definition mutex_unlock :: "mutex \<Rightarrow> sched \<Rightarrow> (mutex \<times> sched) option" where
  "mutex_unlock m s =
     map_option (\<lambda>v.
       let s1 = (if m_owner m \<noteq> 0 \<and> cur_prio (tasks s (m_owner m)) \<noteq> owner_orig_prio m
                 then task_unboost_priority (m_owner m) s else s)
       in (m\<lparr> m_locked := False, m_owner := 0, owner_orig_prio := 0, m_lock := spinlock_release v \<rparr>, task_wake_one (m_waiters m) s1))
     (spinlock_acquire (m_lock m))"

section \<open>Semaphores\<close>

definition SEM_NO_TIMEOUT :: u32 where [simp]: "SEM_NO_TIMEOUT = 0"
definition SEM_WAIT_FOREVER :: u32 where [simp]: "SEM_WAIT_FOREVER = 0xFFFFFFFF"

record semaphore =
  s_units :: u32
  s_max_units :: u32
  s_lock :: u32
  s_waiters :: u64

definition sem_init :: "u32 \<Rightarrow> u32 \<Rightarrow> semaphore \<Rightarrow> sched \<Rightarrow> semaphore \<times> sched" where
  "sem_init initial_units max_units x s =
     (x\<lparr> s_units := initial_units, s_max_units := max_units, s_lock := 0 \<rparr>, task_queue_init (s_waiters x) s)"

definition sem_trywait :: "u32 \<Rightarrow> semaphore \<Rightarrow> (bool \<times> semaphore) option" where
  "sem_trywait units x =
     map_option (\<lambda>v.
       if s_units x \<ge> units then (True, x\<lparr> s_units := s_units x - units, s_lock := spinlock_release v \<rparr>)
       else (False, x\<lparr> s_lock := spinlock_release v \<rparr>))
     (spinlock_acquire (s_lock x))"

definition sem_wait_try :: "u32 \<Rightarrow> u32 \<Rightarrow> semaphore \<Rightarrow> sched \<Rightarrow> (entry_result \<times> semaphore \<times> sched) option" where
  "sem_wait_try units timeout_ms x s =
     map_option (\<lambda>v.
       if s_units x \<ge> units then (Acquired, x\<lparr> s_units := s_units x - units, s_lock := spinlock_release v \<rparr>, s)
       else
         let wait_ms = (if timeout_ms = SEM_WAIT_FOREVER then SEM_NO_TIMEOUT else timeout_ms)
         in (Waits, x\<lparr> s_lock := v \<rparr>, task_block_on (s_waiters x) wait_ms s))
     (spinlock_acquire (s_lock x))"

definition sem_wait_resume :: "u32 \<Rightarrow> u32 \<Rightarrow> semaphore \<Rightarrow> sched \<Rightarrow> (entry_result \<times> semaphore \<times> sched) option + semaphore" where
  "sem_wait_resume units timeout_ms x s =
     (let x1 = x\<lparr> s_lock := spinlock_release (s_lock x) \<rparr>
      in if current_task s \<noteq> 0 \<and> t_wake (tasks s (current_task s)) = WAKE_TIMEOUT then Inr x1
         else Inl (sem_wait_try units timeout_ms x1 s))"

partial_function (option) signal_loop :: "u32 \<Rightarrow> u64 \<Rightarrow> sched \<Rightarrow> sched option" where
  "signal_loop units q s = (if units > 0 \<and> queue_head s q \<noteq> 0 then signal_loop units q (task_wake_one q s) else Some s)"

definition sem_signal :: "u32 \<Rightarrow> semaphore \<Rightarrow> sched \<Rightarrow> (semaphore \<times> sched) option" where
  "sem_signal units x s =
     Option.bind (spinlock_acquire (s_lock x)) (\<lambda>v.
       let total = s_units x + units;
           n = (if total > s_max_units x then s_max_units x else total)
       in map_option (\<lambda>s1. (x\<lparr> s_units := n, s_lock := spinlock_release v \<rparr>, s1)) (signal_loop n (s_waiters x) s))"

end
