(* ===== verification/SchedProps.thy ===== *)
theory SchedProps
  imports Sync
begin

text \<open>
  The properties of the scheduler, of mutexes and of semaphores; and what a boost, a new task and
  the start-up do to the queues and the wheel.
\<close>

section \<open>Sequences of steps\<close>

text \<open>
  The scheduler and the memory that holds tasks. Memory for a new task is not in use; the current
  task gives up the processor only while another one is ready, as the idle task is meant to ensure.
  A change of the priority of a task that is ready is not a step: see \<open>boost_loses_tasks\<close>. Neither
  is the start-up, which changes the priority of the ready idle task: see \<open>idle_queued_as_normal\<close>.
\<close>

inductive sched_step :: "sched \<times> u64 set \<Rightarrow> sched \<times> u64 set \<Rightarrow> bool" where
  step_create: "mem \<notin> A \<Longrightarrow> task_create_arg_prio mem stack prio s = (t, s') \<Longrightarrow> sched_step (s, A) (s', if t = 0 then A else insert mem A)"
| step_yield: "sched_step (s, A) (task_yield s, A)"
| step_exit: "ready_bitmap s \<noteq> 0 \<Longrightarrow> task_exit s = Some s' \<Longrightarrow> sched_step (s, A) (s', A)"
| step_sleep: "ready_bitmap s \<noteq> 0 \<Longrightarrow> sched_step (s, A) (task_sleep ms s, A)"
| step_block: "ready_bitmap s \<noteq> 0 \<Longrightarrow> q \<noteq> 0 \<Longrightarrow> sched_step (s, A) (task_block_on q ms s, A)"
| step_wake: "sched_step (s, A) (task_wake tid s, A)"
| step_wake_all: "sched_step (s, A) (task_wake_all s, A)"
| step_signal: "sched_step (s, A) (task_wake_one q s, A)"
| step_broadcast: "task_wake_all_queue q s = Some s' \<Longrightarrow> sched_step (s, A) (s', A)"
| step_tick: "scheduler_tick (s\<lparr> tick_count := tick_count s + 1 \<rparr>) = Some s' \<Longrightarrow> sched_step (s, A) (s', A)"
| step_destroy: "t_state (tasks s t) = TASK_ZOMBIE \<Longrightarrow> t \<noteq> current_task s \<Longrightarrow> sched_step (s, A) (task_destroy t s, A - {t})"
| step_boost: "t_state (tasks s t) \<noteq> TASK_READY \<Longrightarrow> sched_step (s, A) (task_boost_priority t prio s, A)"
| step_unboost: "t_state (tasks s t) \<noteq> TASK_READY \<Longrightarrow> sched_step (s, A) (task_unboost_priority t s, A)"

inductive_cases sched_stepE: "sched_step (s, A) (s', A')"

lemma sched_step_inv: "sched_step x y \<Longrightarrow> sched_inv (fst x) (snd x) \<Longrightarrow> sched_inv (fst y) (snd y)"
proof (induction rule: sched_step.induct)
  case (step_create mem A stack prio s t s')
  then show ?case using inv_create by simp
next
  case (step_tick s s' A)
  have "sched_inv (s\<lparr> tick_count := tick_count s + 1 \<rparr>) A" using step_tick(2) by (simp add: sched_inv_def mid_fields)
  then show ?case using inv_tick [OF step_tick(1)] by simp
next
  case (step_yield s A)
  then show ?case by (simp only: fst_conv snd_conv inv_yield)
next
  case (step_exit s s' A)
  then show ?case using inv_exit [OF _ step_exit(1,2), of A] by (simp only: fst_conv snd_conv)
next
  case (step_sleep s A ms)
  then show ?case using inv_sleep [OF _ step_sleep(1), of A ms] by (simp only: fst_conv snd_conv)
next
  case (step_block s q A ms)
  then show ?case using inv_block [OF _ step_block(1,2), of A ms] by (simp only: fst_conv snd_conv)
next
  case (step_wake s A tid)
  then show ?case by (simp only: fst_conv snd_conv task_wake_def inv_wake_sleeper)
next
  case (step_wake_all s A)
  then show ?case by (simp only: fst_conv snd_conv inv_wake_all)
next
  case (step_signal s A q)
  then show ?case by (simp only: fst_conv snd_conv inv_wake_one)
next
  case (step_broadcast q s s' A)
  then show ?case using inv_wake_queue [OF step_broadcast(1), of A] by (simp only: fst_conv snd_conv)
next
  case (step_destroy s t A)
  then show ?case using inv_destroy(1) [OF _ step_destroy(1,2), of A] by (simp only: fst_conv snd_conv)
next
  case (step_boost s t A prio)
  then show ?case using inv_boost(1) [OF _ step_boost(1), of A prio] by (simp only: fst_conv snd_conv)
next
  case (step_unboost s t A)
  then show ?case using inv_boost(2) [OF _ step_unboost(1), of A] by (simp only: fst_conv snd_conv)
qed

text \<open>The reaper destroys zombies, one after the other.\<close>

lemma reap_steps: "\<exists>A'. sched_step\<^sup>*\<^sup>* (s, A) (scheduler_reap s, A')"
proof -
  have "\<exists>A'. sched_step\<^sup>*\<^sup>* (s, A) (fold reap_slot xs s, A')" for xs
  proof (induction xs arbitrary: s A)
    case (Cons i xs)
    have "\<exists>B. sched_step\<^sup>*\<^sup>* (s, A) (reap_slot i s, B)"
    proof (cases "reap_slot i s = s")
      case False
      then have "sched_step (s, A) (reap_slot i s, A - {task_table s ! i})"
        using step_destroy [of s "task_table s ! i" A] by (auto simp: reap_slot_def Let_def split: if_splits)
      then show ?thesis by blast
    qed auto
    then obtain B where "sched_step\<^sup>*\<^sup>* (s, A) (reap_slot i s, B)" by blast
    moreover obtain C where "sched_step\<^sup>*\<^sup>* (reap_slot i s, B) (fold reap_slot xs (reap_slot i s), C)" using Cons by blast
    ultimately show ?case by (auto intro: rtranclp_trans)
  qed auto
  then show ?thesis by (simp add: scheduler_reap_def)
qed

definition no_tasks :: "sched \<Rightarrow> bool" where
  "no_tasks s \<longleftrightarrow> tasks s = (\<lambda>_. zero_task) \<and> ready_queue s = (\<lambda>_. 0) \<and> ready_tail s = (\<lambda>_. 0) \<and> ready_bitmap s = 0 \<and>
     queue_head s = (\<lambda>_. 0) \<and> queue_tail s = (\<lambda>_. 0) \<and> current_task s = 0"

lemma no_tasks_inv: "no_tasks s \<Longrightarrow> sched_mid s {} (\<lambda>_. []) (\<lambda>_. []) \<and> cur_ok s"
  by (auto simp: no_tasks_def sched_mid_def cur_ok_def ready_ok_def wait_ok_def queued_def waiting_def zero_task_def)

section \<open>Semaphores\<close>

lemma signal_loop_is:
  assumes "sched_mid s A R W" "cur_ok s" "q \<noteq> 0" "units > 0"
  shows "\<exists>s' R'. signal_loop units q s = Some s' \<and> sched_mid s' A R' (W(q := [])) \<and> cur_ok s' \<and> queued R \<union> set (W q) \<subseteq> queued R'"
  using assms(1,2)
proof (induction "W q" arbitrary: s R W)
  case Nil
  have "queue_head s q = 0" using wait_okD(2) [OF sched_midD(2) [OF Nil.prems(1)] assms(3)] Nil.hyps [symmetric] by simp
  then have "signal_loop units q s = Some s" by (simp add: signal_loop.simps)
  moreover have "W(q := []) = W" using Nil.hyps by auto
  ultimately show ?case using Nil by (intro exI [of _ s] exI [of _ R]) simp
next
  case (Cons t ts)
  note D = sched_midD [OF Cons.prems(1)] and c = Cons.hyps(2) [symmetric]
  note K = wake_one_is [OF Cons.prems c]
  let ?R = "R(prio_of (tasks s t) := R (prio_of (tasks s t)) @ [t])"
  have h: "queue_head s q \<noteq> 0" using wait_okD(2) [OF D(2) assms(3)] c dllD(2) [OF wait_okD(4) [OF D(2)], of q] by auto
  have "\<exists>s' R'. signal_loop units q (task_wake_one q s) = Some s' \<and> sched_mid s' A R' ((W(q := ts))(q := [])) \<and> cur_ok s' \<and>
      queued ?R \<union> set ((W(q := ts)) q) \<subseteq> queued R'"
    by (rule Cons.hyps(1) [OF _ K(1,2)]) simp
  then obtain s' R' where s': "signal_loop units q (task_wake_one q s) = Some s'" "sched_mid s' A R' (W(q := []))" "cur_ok s'"
    "queued ?R \<union> set ts \<subseteq> queued R'" by auto
  have "queued ?R = insert t (queued R)" by (rule queued_append) simp
  then have "queued R \<union> set (W q) \<subseteq> queued R'" using s'(4) c by auto
  then show ?case using s' h assms(4) by (intro exI [of _ s'] exI [of _ R']) (simp add: signal_loop.simps [of units q s])
qed

section \<open>What breaks the queues\<close>

text \<open>
  A new task is in no bucket of the wheel, but the 0 in its \<open>timer_bucket\<close> says bucket 0. The first
  operation on its timer takes it out of there and empties the bucket: the tasks that sleep in it
  are not found again.
\<close>

lemma fresh_task_empties_bucket:
  assumes "task_create_arg_prio mem stack prio s = (t, s')" "t \<noteq> 0"
  shows "timer_wheel (timer_wheel_remove t s') 0 = 0"
proof -
  obtain slot where slot: "task_find_free_slot s = Some slot" using assms by (cases "task_find_free_slot s") (auto simp: task_create_arg_prio_def)
  have "mem \<noteq> 0" "stack \<noteq> 0" "t = mem" using assms slot by (auto simp: task_create_arg_prio_def Let_def split: if_splits)
  then have "timer_bucket (tasks s' t) = 0" "timer_prev (tasks s' t) = 0" "timer_next (tasks s' t) = 0"
    using assms slot by (auto simp: task_create_arg_prio_def Let_def scheduler_add_def upd_task_def zero_task_def split: if_splits)
  then show ?thesis using assms(2) by (simp add: timer_wheel_remove_def Let_def upd_task_def)
qed

text \<open>
  The idle task is queued with the normal priority before it gets its own. Once it runs it heads
  the queue of priority 8 for good: \<open>schedule\<close> finds it there, running, whenever no task of a higher
  priority is ready, and the tasks behind it never get the processor. No sound lists describe the state that
  the start-up leaves.
\<close>

lemma idle_queued_as_normal:
  assumes "mi \<noteq> 0" "si \<noteq> 0" "mr \<noteq> 0" "sr \<noteq> 0" "mi \<noteq> mr"
  shows "ready_queue (scheduler_init mi si mr sr s) 8 = mi" "prio_of (tasks (scheduler_init mi si mr sr s) mi) = 0"
    "\<not> ready_ok (scheduler_init mi si mr sr s) R"
proof -
  have f: "List.find (\<lambda>i. replicate 256 (0 :: u64) ! i = 0) [0..<256] = Some 0" by (simp add: upt_conv_Cons)
  have g: "List.find (\<lambda>i. (replicate 256 (0 :: u64))[0 := mi] ! i = 0) [0..<256] = Some 1" using assms(1) by (simp add: upt_conv_Cons)
  show q: "ready_queue (scheduler_init mi si mr sr s) 8 = mi" and p: "prio_of (tasks (scheduler_init mi si mr sr s) mi) = 0"
    using assms f g by (simp_all add: scheduler_init_def task_init_def task_create_def task_create_arg_prio_def task_find_free_slot_def Let_def
        scheduler_add_def upd_task_def prio_of_def zero_task_def)
  show "\<not> ready_ok (scheduler_init mi si mr sr s) R"
  proof
    assume ok: "ready_ok (scheduler_init mi si mr sr s) R"
    have "mi \<in> set (R 8)" using ready_okD(1) [OF ok, of 8] q assms(1) first0_in [of "R 8"] by (cases "R 8 = []") auto
    then show False using ready_okD(6) [OF ok, of 8 mi] p by simp
  qed
qed

lemma idle_keeps_processor:
  assumes "current_task s = i" "i \<noteq> 0" "ready_queue s 8 = i" "bit (ready_bitmap s) 8" "\<forall>p. 8 < p \<longrightarrow> \<not> bit (ready_bitmap s) p"
  shows "schedule s = s"
proof -
  have ne: "ready_bitmap s \<noteq> 0" using assms(4) by auto
  have "8 < fls (ready_bitmap s)" by (rule fls_bit(4) [OF ne assms(4)])
  moreover have "\<not> 8 < fls (ready_bitmap s) - 1" using fls_bit(1) [OF ne] assms(5) by blast
  ultimately have "fls (ready_bitmap s) - 1 = 8" by simp
  then have "scheduler_next s = (i, s)" using ne assms(2,3) by (simp add: scheduler_next.simps [of s])
  then show ?thesis using assms(1,2) by (simp add: schedule_def Let_def)
qed


text \<open>
  A wake-up never preempts: a tick switches tasks only when the quantum of the current one is used
  up. That of the idle task is 2^32 - 1 ticks, so the tasks that are woken while it runs wait for
  more than a year.
\<close>

lemma wake_expired_quantum: "current_task (wake_expired t s) = current_task s" "t_quantum (tasks (wake_expired t s) u) = t_quantum (tasks s u)"
proof -
  have r: "current_task (timer_wheel_remove t s) = current_task s \<and> t_quantum (tasks (timer_wheel_remove t s) u) = t_quantum (tasks s u)" for s
    by (simp add: timer_wheel_remove_def Let_def upd_task_def)
  have a: "current_task (scheduler_add t s) = current_task s \<and> t_quantum (tasks (scheduler_add t s) u) = t_quantum (tasks s u)" for s
    by (simp add: scheduler_add_def Let_def upd_task_def)
  have q: "current_task (task_queue_remove q t s) = current_task s \<and> t_quantum (tasks (task_queue_remove q t s) u) = t_quantum (tasks s u)" for q s
    by (simp add: task_queue_remove_def Let_def upd_task_def)
  have f: "current_task (upd_task t f s) = current_task s \<and> ((\<forall>x. t_quantum (f x) = t_quantum x) \<longrightarrow> t_quantum (tasks (upd_task t f s) u) = t_quantum (tasks s u))" for f s
    by (simp add: upd_task_def)
  show "current_task (wake_expired t s) = current_task s" "t_quantum (tasks (wake_expired t s) u) = t_quantum (tasks s u)"
    by (simp_all add: wake_expired_def Let_def r a q f)
qed

lemma wheel_loop_quantum:
  assumes "wheel_loop t s = Some s'"
  shows "current_task s' = current_task s \<and> t_quantum (tasks s' u) = t_quantum (tasks s u)"
  using assms
proof (induction t s s' rule: wheel_loop.raw_induct [rotated 1, consumes 1, case_names step])
  case (step f t s s')
  then show ?case
    by (cases "t = 0") (auto dest!: step.IH simp: wake_expired_quantum split: if_splits)
qed

lemma tick_keeps_processor:
  assumes "scheduler_tick s = Some s'" "1 < t_quantum (tasks s (current_task s))"
  shows "current_task s' = current_task s"
proof -
  obtain v where v: "scheduler_timer_wheel_tick s = Some v" using assms(1) by (auto simp: scheduler_tick_def)
  have q: "current_task v = current_task s" "t_quantum (tasks v (current_task s)) = t_quantum (tasks s (current_task s))"
    using wheel_loop_quantum v by (simp_all add: scheduler_timer_wheel_tick_def)
  have "t_quantum (tasks s (current_task s)) - 1 \<noteq> 0" "t_quantum (tasks s (current_task s)) \<noteq> 0" using assms(2) by auto
  then show ?thesis using assms(1) v q by (auto simp: scheduler_tick_def Let_def upd_task_def split: if_splits)
qed

section \<open>Properties\<close>

text \<open>
  C36. The lists of the scheduler stay sound. From the state without tasks (start-up leaves another
  one, see \<open>idle_queued_as_normal\<close>), whatever sequence follows of task creations, yields, exits,
  sleeps, blocks, wake-ups, ticks, destructions of zombies, and changes of the priority of tasks
  that are not ready, where a task gives up the processor only while another is ready, each ready
  queue is a doubly linked list without repetitions whose head and tail are
  recorded and whose bit in the bitmap says whether it is empty; so is each wait queue; its tasks
  are ready or blocked as they should be; no task is in two lists, and the current task is running
  and in none.
\<close>

theorem sched_lists_invariant:
  assumes "no_tasks s0" "sched_step\<^sup>*\<^sup>* (s0, {}) (s, A)"
  shows "\<exists>R W. ready_ok s R \<and> wait_ok s W \<and> queued R \<inter> waiting W = {} \<and> current_task s \<notin> queued R \<union> waiting W \<and>
    (current_task s \<noteq> 0 \<longrightarrow> t_state (tasks s (current_task s)) = TASK_RUNNING)"
proof -
  have "sched_inv (fst y) (snd y)" if "sched_step\<^sup>*\<^sup>* (s0, {}) y" for y
    using that
  proof induction
    case base
    show ?case using no_tasks_inv [OF assms(1)] by (auto simp: sched_inv_def)
  qed (rule sched_step_inv)
  then have "sched_inv s A" using assms(2) by fastforce
  then obtain R W where m: "sched_mid s A R W" and c: "cur_ok s" by (auto simp: sched_inv_def)
  note st = mid_states [OF m] and D = sched_midD [OF m]
  have w: "current_task s \<notin> waiting W"
  proof
    assume a: "current_task s \<in> waiting W"
    then have "current_task s \<noteq> 0" using dllD(2) [OF wait_okD(4) [OF D(2)]] by (auto simp: waiting_def) 
    then show False using c st(2) [OF a] by (simp add: cur_ok_def)
  qed
  have "False" if "t \<in> queued R" "t \<in> waiting W" for t using st(1) [OF that(1)] st(2) [OF that(2)] by simp
  then have "queued R \<inter> waiting W = {}" by blast
  moreover have "current_task s \<notin> queued R \<union> waiting W" using D(3) w by blast
  ultimately show ?thesis using D(1,2) c unfolding cur_ok_def by blast
qed

definition empty_sched :: sched where
  "empty_sched = \<lparr> tasks = (\<lambda>_. zero_task), ready_queue = (\<lambda>_. 0), ready_tail = (\<lambda>_. 0), ready_bitmap = 0, timer_wheel = (\<lambda>_. 0),
     tick_count = 0, queue_head = (\<lambda>_. 0), queue_tail = (\<lambda>_. 0), current_task = 0, next_tid = 1, task_table = replicate 256 0, idle_task = 0 \<rparr>"

definition one_task :: sched where
  "one_task = snd (task_create_arg_prio 4096 8192 8 empty_sched)"

lemma one_task_step: "sched_step (empty_sched, {}) (one_task, if fst (task_create_arg_prio 4096 8192 8 empty_sched) = 0 then {} else {4096})"
  unfolding one_task_def by (rule step_create [where stack = 8192 and prio = 8]) simp_all

lemma sched_lists_invariant_witness:
  "\<exists>R W. ready_ok (task_yield one_task) R \<and> wait_ok (task_yield one_task) W \<and> queued R \<inter> waiting W = {} \<and>
    current_task (task_yield one_task) \<notin> queued R \<union> waiting W \<and>
    (current_task (task_yield one_task) \<noteq> 0 \<longrightarrow> t_state (tasks (task_yield one_task) (current_task (task_yield one_task))) = TASK_RUNNING)"
proof -
  have "sched_step\<^sup>*\<^sup>* (empty_sched, {}) (task_yield one_task, if fst (task_create_arg_prio 4096 8192 8 empty_sched) = 0 then {} else {4096})"
    using one_task_step step_yield by (meson converse_rtranclp_into_rtranclp r_into_rtranclp)
  then show ?thesis by (rule sched_lists_invariant [rotated]) (simp add: no_tasks_def empty_sched_def)
qed

text \<open>
  C37. Scheduling is first in, first out among the tasks of the highest priority. If \<open>t\<close> is the
  first in the queue of the highest priority that has a ready task, then \<open>schedule\<close> makes it the
  current task, running and in no queue; the task that ran goes to the end of the queue of its
  priority if it is still running, and nothing else moves.
\<close>

theorem schedule_first_highest:
  assumes "ready_ok s R" "current_task s \<notin> queued R" "p < 32" "R p = t # ts" "\<forall>q < 32. p < q \<longrightarrow> R q = []"
  shows "current_task (schedule s) = t \<and> t_state (tasks (schedule s) t) = TASK_RUNNING \<and>
    ready_ok (schedule s) ((requeue s R)(p := tl (requeue s R p))) \<and> t \<notin> queued ((requeue s R)(p := tl (requeue s R p)))"
proof (cases rule: schedule_is [OF assms(1,2), case_names none switch])
  case none
  then show ?thesis using assms(3,4) by simp
next
  case (switch p' t' ts')
  have "p' = p"
  proof (rule linorder_cases [of p' p])
    assume "p' < p"
    then show ?thesis using switch(3) assms(3,4) by auto
  next
    assume "p < p'"
    then show ?thesis using switch(1,2) assms(5) by auto
  qed
  then have "t' = t" using switch(2) assms(4) by simp
  then show ?thesis using switch(4-7) \<open>p' = p\<close> by simp
qed


text \<open>Two tasks of priority 8 that are ready.\<close>

definition two_ready :: sched where
  "two_ready = scheduler_add 8192 (scheduler_add 4096 (upd_task 4096 (\<lambda>x. x\<lparr> cur_prio := 8 \<rparr>)
     (upd_task 8192 (\<lambda>x. x\<lparr> cur_prio := 8 \<rparr>) empty_sched)))"

lemma two_ready_ok: "ready_ok two_ready ((\<lambda>_. [])(8 := [4096, 8192]))" "current_task two_ready = 0"
proof -
  let ?s = "upd_task 4096 (\<lambda>x. x\<lparr> cur_prio := 8 \<rparr>) (upd_task 8192 (\<lambda>x. x\<lparr> cur_prio := 8 \<rparr>) empty_sched)"
  have e: "ready_ok ?s (\<lambda>_. [])" by (simp add: ready_ok_def empty_sched_def upd_task_def)
  have q0: "(4096 :: u64) \<notin> queued (\<lambda>_. [])" by (simp add: queued_def)
  have p: "8 = prio_of (tasks ?s 4096)" "8 = prio_of (tasks ?s 8192)" by (simp_all add: prio_of_def upd_task_def)
  note one = scheduler_add_is [OF e _ q0 p(1)]
  have q: "(8192 :: u64) \<notin> queued ((\<lambda>_. [])(8 := [] @ [4096]))" by (simp add: queued_def)
  have "8 = prio_of (tasks (scheduler_add 4096 ?s) 8192)" using one(2) [of 8192] p(2) links_keptD(2) by simp
  then show "ready_ok two_ready ((\<lambda>_. [])(8 := [4096, 8192]))"
    using scheduler_add_is(1) [OF one(1) _ q] by (simp add: two_ready_def)
  show "current_task two_ready = 0" by (simp add: two_ready_def scheduler_add_def Let_def upd_task_def empty_sched_def)
qed

lemma schedule_first_highest_witness:
  "current_task (schedule two_ready) = 4096 \<and> t_state (tasks (schedule two_ready) 4096) = TASK_RUNNING"
proof -
  have "current_task two_ready \<notin> queued ((\<lambda>_. [])(8 := [4096, 8192]))" by (simp add: two_ready_ok(2) queued_def)
  then show ?thesis using schedule_first_highest [OF two_ready_ok(1), of 8 4096 "[8192]"] by simp
qed

text \<open>
  C38. \<open>sem_signal\<close> with the spinlock of the semaphore free ends. The count becomes the sum of the
  old count and the units, modulo 2^32, or the maximum if the sum is larger; if it is not 0 then, all
  tasks in the wait queue become ready and the queue is empty, however few units there are; the
  lists of the scheduler stay sound. With the spinlock taken, as a task that blocked in \<open>sem_wait\<close>
  leaves it (\<open>waiter_keeps_spinlock\<close>), the call spins for good.
\<close>

theorem sem_signal_wakes_all:
  assumes "sched_mid s A R W" "cur_ok s" "s_waiters x \<noteq> 0"
    and "n = min (unat (s_max_units x)) ((unat (s_units x) + unat k) mod 2 ^ 32)"
  shows "(s_lock x \<noteq> 0 \<longrightarrow> sem_signal k x s = None) \<and>
    (s_lock x = 0 \<longrightarrow> (\<exists>s'. sem_signal k x s = Some (x\<lparr> s_units := of_nat n, s_lock := 0 \<rparr>, s') \<and> sched_inv s' A \<and>
      (n > 0 \<longrightarrow> queue_head s' (s_waiters x) = 0 \<and> (\<forall>t \<in> set (W (s_waiters x)). t_state (tasks s' t) = TASK_READY))))"
proof (intro conjI impI)
  show "s_lock x \<noteq> 0 \<Longrightarrow> sem_signal k x s = None" by (simp add: sem_signal_def spinlock_acquire_def)
next
  assume l: "s_lock x = 0"
  define u where "u = (if s_units x + k > s_max_units x then s_max_units x else s_units x + k)"
  have "unat (s_units x + k) = (unat (s_units x) + unat k) mod 2 ^ 32" by (simp add: unat_word_ariths)
  then have "n = unat u" by (simp add: assms(4) u_def word_less_nat_alt min_def)
  then have n: "of_nat n = u" "n > 0 \<longleftrightarrow> u > 0" by (simp_all add: word_less_nat_alt)
  obtain s' where s': "signal_loop u (s_waiters x) s = Some s'" "sched_inv s' A"
    "u > 0 \<Longrightarrow> queue_head s' (s_waiters x) = 0 \<and> (\<forall>t \<in> set (W (s_waiters x)). t_state (tasks s' t) = TASK_READY)"
  proof (cases "u > 0")
    case True
    obtain s' R' where s': "signal_loop u (s_waiters x) s = Some s'" "sched_mid s' A R' (W(s_waiters x := []))" "cur_ok s'"
      "queued R \<union> set (W (s_waiters x)) \<subseteq> queued R'" using signal_loop_is [OF assms(1-3) True] by blast
    have "queue_head s' (s_waiters x) = 0" using wait_okD(2) [OF sched_midD(2) [OF s'(2)] assms(3)] by simp
    moreover have "t_state (tasks s' t) = TASK_READY" if "t \<in> set (W (s_waiters x))" for t
      using mid_states(1) [OF s'(2)] s'(4) that by blast
    moreover have "sched_inv s' A" using s'(2,3) by (auto simp: sched_inv_def)
    ultimately show thesis using that s'(1) by blast
  next
    case False
    then have "signal_loop u (s_waiters x) s = Some s" by (simp add: signal_loop.simps)
    moreover have "sched_inv s A" using assms(1,2) by (auto simp: sched_inv_def)
    ultimately show thesis using that False by blast
  qed
  then show "\<exists>s'. sem_signal k x s = Some (x\<lparr> s_units := of_nat n, s_lock := 0 \<rparr>, s') \<and> sched_inv s' A \<and>
      (n > 0 \<longrightarrow> queue_head s' (s_waiters x) = 0 \<and> (\<forall>t \<in> set (W (s_waiters x)). t_state (tasks s' t) = TASK_READY))"
    using l n unfolding u_def by (simp add: sem_signal_def spinlock_acquire_def spinlock_release_def Let_def)
qed

definition one_waits :: sched where
  "one_waits = task_queue_push 64 4096 (upd_task 4096 (\<lambda>x. x\<lparr> t_state := TASK_BLOCKED \<rparr>) empty_sched)"

lemma one_waits_mid: "sched_mid one_waits {4096} (\<lambda>_. []) ((\<lambda>_. [])(64 := [4096]))" "cur_ok one_waits"
proof -
  let ?s = "upd_task 4096 (\<lambda>x. x\<lparr> t_state := TASK_BLOCKED \<rparr>) empty_sched"
  have e: "sched_mid empty_sched {} (\<lambda>_. []) (\<lambda>_. [])" using no_tasks_inv by (simp add: no_tasks_def empty_sched_def)
  have "sched_mid ?s {4096} (\<lambda>_. []) (\<lambda>_. [])"
    by (rule mid_upd [OF mid_grow [OF e]]) (simp_all add: queued_def waiting_def)
  then have "sched_mid one_waits {4096} (\<lambda>_. []) ((\<lambda>_. [])(64 := (\<lambda>_. []) 64 @ [4096]))"
    unfolding one_waits_def by (rule mid_push(1)) (simp_all add: waiting_def upd_task_def)
  then show "sched_mid one_waits {4096} (\<lambda>_. []) ((\<lambda>_. [])(64 := [4096]))" by simp
  show "cur_ok one_waits" by (simp add: one_waits_def cur_ok_def task_queue_push_def Let_def upd_task_def empty_sched_def)
qed

definition empty_sem :: semaphore where
  "empty_sem = \<lparr> s_units = 0, s_max_units = 5, s_lock = 0, s_waiters = 64 \<rparr>"

lemma sem_signal_wakes_all_witness:
  "\<exists>s'. sem_signal 3 empty_sem one_waits = Some (empty_sem\<lparr> s_units := 3 \<rparr>, s') \<and> queue_head s' 64 = 0 \<and>
    t_state (tasks s' 4096) = TASK_READY"
  using sem_signal_wakes_all [OF one_waits_mid, of empty_sem 3 3] by (auto simp: empty_sem_def)

text \<open>
  A mutex has one owner. Taking a free mutex makes the current task its owner; while it is
  locked, no \<open>mutex_trylock\<close> gets it and no round of \<open>mutex_lock\<close> does, and an unlock of the
  owner frees it again.
\<close>

lemma mutex_exclusion:
  assumes "m_lock m = 0" "\<not> m_locked m"
  shows "\<exists>m1. mutex_trylock m s = Some (True, m1) \<and> m_locked m1 \<and> m_owner m1 = current_task s \<and> m_lock m1 = 0 \<and>
    (\<forall>s'. mutex_trylock m1 s' = Some (False, m1) \<and> (\<forall>ms r. mutex_lock_try ms m1 s' = Some r \<longrightarrow> fst r = Waits) \<and>
      (\<exists>m2 s2. mutex_unlock m1 s' = Some (m2, s2) \<and> \<not> m_locked m2 \<and> m_owner m2 = 0 \<and> m_lock m2 = 0))"
  using assms by (cases m) (auto simp: mutex_trylock_def mutex_lock_try_def mutex_unlock_def take_mutex_def spinlock_acquire_def
      spinlock_release_def Let_def split: if_splits)

lemma mutex_exclusion_witness:
  "\<exists>m1. mutex_trylock \<lparr> m_locked = False, m_owner = 0, owner_orig_prio = 0, m_lock = 0, m_waiters = 64 \<rparr> two_ready = Some (True, m1) \<and>
    m_locked m1 \<and> m_owner m1 = 0"
  using mutex_exclusion [of "\<lparr> m_locked = False, m_owner = 0, owner_orig_prio = 0, m_lock = 0, m_waiters = 64 \<rparr>" two_ready] two_ready_ok(2)
  by auto

text \<open>
  C39. A task that waits for a mutex or a semaphore keeps its spinlock. It switches away inside
  \<open>task_block_on\<close> with the lock taken, so whichever task then calls unlock or signal, in whatever
  state of the scheduler, spins on it for good until the waiter runs again and releases it: only a
  timeout of the waiter can end the wait.
\<close>

theorem waiter_keeps_spinlock:
  assumes "mutex_lock_try ms m s = Some (Waits, m', s1)" "sem_wait_try k ms' x u = Some (Waits, x', u1)"
  shows "mutex_unlock m' s2 = None \<and> mutex_trylock m' s2 = None \<and> mutex_lock_try ms2 m' s2 = None \<and>
    sem_signal k2 x' s2 = None \<and> sem_trywait k2 x' = None \<and> sem_wait_try k2 ms2 x' s2 = None"
proof -
  have "m_lock m' \<noteq> 0" using assms(1) by (auto simp: mutex_lock_try_def Let_def spinlock_acquire_def bind_eq_Some_conv split: if_splits)
  moreover have "s_lock x' \<noteq> 0" using assms(2) by (auto simp: sem_wait_try_def Let_def spinlock_acquire_def split: if_splits)
  ultimately show ?thesis
    by (simp add: mutex_unlock_def mutex_trylock_def mutex_lock_try_def sem_signal_def sem_trywait_def sem_wait_try_def
        spinlock_acquire_def Let_def)
qed

lemma waiter_keeps_spinlock_witness:
  "mutex_unlock \<lparr> m_locked = True, m_owner = 8192, owner_orig_prio = 0, m_lock = 1, m_waiters = 64 \<rparr> two_ready = None \<and>
   sem_signal 1 (empty_sem\<lparr> s_lock := 1 \<rparr>) two_ready = None"
proof -
  let ?m = "\<lparr> m_locked = True, m_owner = 8192, owner_orig_prio = 0, m_lock = 0, m_waiters = 64 \<rparr>" and ?s = "schedule two_ready"
  have "current_task ?s = 4096" using schedule_first_highest_witness by blast
  then obtain s1 where "mutex_lock_try 0 ?m ?s = Some (Waits, ?m\<lparr> m_lock := 1 \<rparr>, s1)"
    by (simp add: mutex_lock_try_def spinlock_acquire_def Let_def)
  moreover obtain u1 where "sem_wait_try 2 0 empty_sem ?s = Some (Waits, empty_sem\<lparr> s_lock := 1 \<rparr>, u1)"
    by (simp add: sem_wait_try_def spinlock_acquire_def Let_def empty_sem_def)
  ultimately show ?thesis using waiter_keeps_spinlock [of 0 ?m ?s "?m\<lparr> m_lock := 1 \<rparr>" s1 2 0 empty_sem ?s "empty_sem\<lparr> s_lock := 1 \<rparr>" u1 two_ready 0 1]
    by simp
qed


text \<open>
  C40. A boost loses tasks. \<open>task_boost_priority\<close> changes the priority of the task before it takes the
  task out of the queue that it is in, so the removal works on the queue of the new priority. If
  \<open>t\<close> is the only task of its queue, then afterwards it is still the head of that queue and also
  the head and the tail of the queue of the new priority, where it has no successor: the tasks that
  were there are in no queue any more, and no sound lists describe the state.
\<close>

theorem boost_loses_tasks:
  assumes "ready_ok s R" "p < 32" "R p = [t]" "base_prio (tasks s t) < 16" "base_prio (tasks s t) < n" "n < 32" "unat n \<noteq> p"
    and "R (unat n) \<noteq> []"
  shows "let s' = task_boost_priority t n s
    in ready_queue s' (unat n) = t \<and> ready_tail s' (unat n) = t \<and> t_next (tasks s' t) = 0 \<and> ready_queue s' p = t \<and>
       t \<notin> set (R (unat n)) \<and> (\<nexists>R'. ready_ok s' R')"
proof -
  note D = ready_okD [OF assms(1,2)]
  have t: "t \<noteq> 0" "t_next (tasks s t) = 0" "t_prev (tasks s t) = 0" "t_state (tasks s t) = TASK_READY" "ready_queue s p = t"
    using D(1,5) dllD(2) [OF D(4)] dllD(3,4) [OF D(4), of "[]" t "[]"] assms(3) by auto
  let ?s = "task_boost_priority t n s"
  have n: "\<not> 31 < n" "\<not> n \<le> base_prio (tasks s t)" "\<not> 16 \<le> base_prio (tasks s t)" "\<not> 32 \<le> n"
    using assms(4-6) by (simp_all add: word_less_nat_alt word_le_nat_alt)
  have *: "ready_queue ?s (unat n) = t" "ready_tail ?s (unat n) = t" "t_next (tasks ?s t) = 0" "ready_queue ?s p = t"
    using t n assms(7) by (simp_all add: task_boost_priority_def Let_def scheduler_remove_def scheduler_add_def upd_task_def prio_of_def)
  have o: "t \<notin> set (R (unat n))"
  proof
    have "unat n < 32" using assms(6) by (simp add: word_less_nat_alt)
    moreover assume "t \<in> set (R (unat n))"
    ultimately have "prio_of (tasks s t) = unat n" using ready_okD(6) [OF assms(1)] by blast
    moreover have "prio_of (tasks s t) = p" using D(6) assms(3) by simp
    ultimately show False using assms(7) by simp
  qed
  have "False" if ok: "ready_ok ?s R'" for R'
  proof -
    have "unat n < 32" using assms(6) by (simp add: word_less_nat_alt)
    then have "t \<in> set (R' (unat n))"
      using ready_okD(1) [OF ok, of "unat n"] *(1) t(1) first0_in [of "R' (unat n)"] by (cases "R' (unat n) = []") auto
    moreover have "t \<in> set (R' p)"
      using ready_okD(1) [OF ok assms(2)] *(4) t(1) first0_in [of "R' p"] by (cases "R' p = []") auto
    ultimately show False using ready_okD(6) [OF ok] assms(2,7) \<open>unat n < 32\<close> by metis
  qed
  then show ?thesis using * o by (auto simp: Let_def)
qed

definition three_ready :: sched where
  "three_ready = scheduler_add 12288 (scheduler_add 4096 (upd_task 4096 (\<lambda>x. x\<lparr> cur_prio := 8, base_prio := 8 \<rparr>)
     (upd_task 12288 (\<lambda>x. x\<lparr> cur_prio := 10, base_prio := 10 \<rparr>) empty_sched)))"

lemma three_ready_ok: "ready_ok three_ready ((\<lambda>_. [])(8 := [4096], 10 := [12288]))" "base_prio (tasks three_ready 4096) = 8"
proof -
  let ?s = "upd_task 4096 (\<lambda>x. x\<lparr> cur_prio := 8, base_prio := 8 \<rparr>) (upd_task 12288 (\<lambda>x. x\<lparr> cur_prio := 10, base_prio := 10 \<rparr>) empty_sched)"
  have e: "ready_ok ?s (\<lambda>_. [])" by (simp add: ready_ok_def empty_sched_def upd_task_def)
  have q0: "(4096 :: u64) \<notin> queued (\<lambda>_. [])" by (simp add: queued_def)
  have p: "8 = prio_of (tasks ?s 4096)" "10 = prio_of (tasks ?s 12288)" by (simp_all add: prio_of_def upd_task_def)
  note one = scheduler_add_is [OF e _ q0 p(1)]
  have q: "(12288 :: u64) \<notin> queued ((\<lambda>_. [])(8 := [] @ [4096]))" by (simp add: queued_def)
  have "10 = prio_of (tasks (scheduler_add 4096 ?s) 12288)" using one(2) [of 12288] p(2) links_keptD(2) by simp
  then show "ready_ok three_ready ((\<lambda>_. [])(8 := [4096], 10 := [12288]))"
    using scheduler_add_is(1) [OF one(1) _ q] by (simp add: three_ready_def)
  show "base_prio (tasks three_ready 4096) = 8"
    by (simp add: three_ready_def scheduler_add_def Let_def upd_task_def empty_sched_def prio_of_def)
qed

lemma boost_loses_tasks_witness:
  "ready_queue (task_boost_priority 4096 10 three_ready) 10 = 4096 \<and> (\<nexists>R'. ready_ok (task_boost_priority 4096 10 three_ready) R')"
  using boost_loses_tasks [OF three_ready_ok(1), of 8 4096 10] three_ready_ok(2) by (simp add: Let_def)

end
