(* ===== verification/Spec2Isabelle.thy ===== *)
theory Spec2Isabelle
  imports ExtentSpec TreeProps Inode Super HeapProps VmmProps SchedProps
begin

text \<open>
  \<^bold>\<open>The core of the AmitX kernel: the file system SmKFS, memory management, scheduling.\<close> This
  development models \<^verbatim>\<open>src/fs/smkfs\<close>, \<^verbatim>\<open>src/mm\<close>, \<^verbatim>\<open>src/sync\<close> and the task code of
  \<^verbatim>\<open>src/arch/x86\<close>. SmKFS, the largest subsystem that is not hardware access, is a journaled file
  system with a write-back block cache, a block bitmap with a region cache, a table of records
  with generations, self-describing attributes, extents, B+ tree directories, file descriptors,
  and mount, format and check; every operation of every file of it is a definition, and the
  lower layers, from sector transfers to extents, and the insertion into the B+ tree with its
  searches are verified. Memory management is the allocator of physical frames, the four-level
  page tables, a window for mapping physical ranges, and the kernel heap. The scheduler keeps
  ready queues by priority, a timer wheel and the wait queues of mutexes and semaphores.

  \<^bold>\<open>How the parts call each other.\<close> In SmKFS, sectors (\<^verbatim>\<open>hw/ide.c\<close>) carry blocks (\<^verbatim>\<open>block.c\<close>), which the
  cache (\<^verbatim>\<open>bcache.c\<close>) keeps in 16 slots. The journal (\<^verbatim>\<open>journal.c\<close>) writes its entries
  through the cache and flushes it when it commits. The bitmap (\<^verbatim>\<open>bitmap.c\<close>) and the master
  record table (\<^verbatim>\<open>mrt.c\<close>) log their changes in it. A record (\<^verbatim>\<open>record.c\<close>) is a block that the
  table binds to a number; its attributes (\<^verbatim>\<open>attr.c\<close>) name it, give its size and list its
  extents (\<^verbatim>\<open>extent.c\<close>). A directory (\<^verbatim>\<open>dir.c\<close>) is a record with a B+ tree (\<^verbatim>\<open>btree.c\<close>) from
  names to record numbers; paths (\<^verbatim>\<open>path.c\<close>), links (\<^verbatim>\<open>link.c\<close>), inode attributes
  (\<^verbatim>\<open>inode.c\<close>), files (\<^verbatim>\<open>file.c\<close>) and the superblock operations (\<^verbatim>\<open>super.c\<close>) are built on it.
  The heap (\<^verbatim>\<open>heap.c\<close>) and the mapping window (\<^verbatim>\<open>vmm.c\<close>) change page tables (\<^verbatim>\<open>paging.c\<close>), which
  take their frames from the frame allocator (\<^verbatim>\<open>pmm.c\<close>). A new task (\<^verbatim>\<open>task.c\<close>) is two blocks of
  the heap; mutexes and semaphores (\<^verbatim>\<open>sync\<close>) block and wake tasks through the scheduler
  (\<^verbatim>\<open>scheduler.c\<close>). The file system, the memory and the tasks meet in the addresses that \<^verbatim>\<open>malloc\<close>
  returns, which are parameters where one of them uses it.

  \<^bold>\<open>The theories\<close>, in the order of the calls:
  \<^item> \<open>Prelude\<close>, \<open>Layout\<close>: machine integers, byte buffers, the packed structures of
    \<^verbatim>\<open>include/fs/smkfs.h\<close> with encoders and decoders proved inverse to each other, and the mount
    context (\<open>mount\<close>, which also holds the drive and whether the heap still serves requests).
  \<^item> \<open>Checksum\<close> (\<^verbatim>\<open>checksum.c\<close>): CRC-32C by table and bit by bit, header checksums.
  \<^item> \<open>Device\<close> (\<^verbatim>\<open>hw/ide.c\<close>, \<^verbatim>\<open>block.c\<close>, \<^verbatim>\<open>bcache.c\<close>): the cache implements the locale
    \<open>block_store\<close>, on a drive whose sectors fail as they like, and \<open>reliable_store\<close> on one
    without failures. All layers above reach blocks through these laws, with \<open>block_view m b\<close>
    the content of block \<open>b\<close>.
  \<^item> \<open>Effects\<close>, \<open>Outcome\<close>: the composition of fallible calls, with and without a loop that may
    not end, and the rules that carry invariants through it; the geometry of a volume.
  \<^item> \<open>Journal\<close>, \<open>JournalReplay\<close> (\<^verbatim>\<open>journal.c\<close>): the ring as slots between tail and head, the
    writer, commit, checkpoint and abort; the two recovery passes.
  \<^item> \<open>Bitmap\<close>, \<open>BitmapAlloc\<close> (\<^verbatim>\<open>bitmap.c\<close>): the operations, and the allocator against the set
    of used blocks.
  \<^item> \<open>Mrt\<close> (\<^verbatim>\<open>mrt.c\<close>): the table against a map from numbers to entries.
  \<^item> \<open>Attr\<close> (\<^verbatim>\<open>attr.c\<close>): the buffer operations against lists of attributes (\<open>holds buf as\<close>).
  \<^item> \<open>CString\<close> (\<^verbatim>\<open>lib/string.c\<close>): string comparison, copies, searches and number parsing.
  \<^item> \<open>Logged\<close>: the step \<open>log, then write\<close> that records and tree nodes share, and \<open>upd\<close>, the
    relation that describes chains of such steps.
  \<^item> \<open>Records\<close>, \<open>RecordSpec\<close>, \<open>ExtentSpec\<close> (\<^verbatim>\<open>record.c\<close>, \<^verbatim>\<open>extent.c\<close>): the operations, records
    against their header and list of attributes (\<open>record_is\<close>), extents against the map from
    a stream's blocks to the volume's (\<open>emap\<close>).
  \<^item> \<open>Btree\<close> (\<^verbatim>\<open>btree.c\<close>), \<open>Dir\<close> (\<^verbatim>\<open>dir.c\<close>, \<^verbatim>\<open>path.c\<close>), \<open>Debug\<close> (\<^verbatim>\<open>debug.c\<close>), \<open>Inode\<close> (\<^verbatim>\<open>inode.c\<close>,
    \<^verbatim>\<open>link.c\<close>), \<open>File\<close> and \<open>Files\<close> (\<^verbatim>\<open>file.c\<close>), \<open>Super\<close> (\<^verbatim>\<open>super.c\<close>): the operations.
  \<^item> \<open>NodeSpec\<close>, \<open>TreeSpec\<close>, \<open>TreeStep\<close>, \<open>TreeGrow\<close>, \<open>TreeAbsorb\<close>, \<open>TreeInsert\<close>, \<open>TreeProps\<close>: the B+
    tree of \<open>Btree\<close> against the sorted list of its names, node by node (\<open>nview\<close>), as a tree on the
    disk (\<open>on_disk\<close>, \<open>tree_ok\<close>), and through splits up to the root: search, iteration, insertion.
  \<^item> \<open>Runs\<close>: bitmaps, and the scan for a run of free bits that three allocators share.
  \<^item> \<open>Pmm\<close>, \<open>PmmSpec\<close>, \<open>PmmProps\<close> (\<^verbatim>\<open>mm/pmm.c\<close>): the frame allocator and its start-up from the boot
    loader's tags, against the set of free frames.
  \<^item> \<open>Paging\<close>, \<open>PagingSpec\<close>, \<open>PagingProps\<close> (\<^verbatim>\<open>mm/paging.c\<close>): the page tables in physical memory,
    against the walk of the processor (\<open>virt_to_phys\<close>), for tables that form a tree (\<open>tables_ok\<close>).
  \<^item> \<open>Arena\<close>, \<open>Vmm\<close>, \<open>VmmProps\<close> (\<^verbatim>\<open>mm/vmm.c\<close>): the mapping window.
  \<^item> \<open>Heap\<close>, \<open>HeapCommit\<close>, \<open>HeapSpec\<close>, \<open>HeapList\<close>, \<open>HeapOps\<close>, \<open>HeapFree\<close>, \<open>HeapLive\<close>, \<open>HeapRealloc\<close>,
    \<open>HeapProps\<close> (\<^verbatim>\<open>mm/heap.c\<close>): the operations, what backs the arena, the linked headers as a list of
    blocks that tile it, and on top of it the live allocations and their bytes.
  \<^item> \<open>Sched\<close>, \<open>SchedSpec\<close>, \<open>SchedInv\<close>, \<open>SchedSteps\<close>, \<open>SchedWake\<close> (\<^verbatim>\<open>arch/x86/common/scheduler.c\<close>,
    \<^verbatim>\<open>arch/x86/64/task.c\<close>): the operations on tasks, their linked lists against lists of tasks, and
    the invariant of ready queues and wait queues, which every operation keeps except a change of
    the priority of a task that is ready, as \<open>task_boost_priority\<close> and the start-up make it.
  \<^item> \<open>Sync\<close>, \<open>SchedProps\<close> (\<^verbatim>\<open>sync\<close>): spinlocks, mutexes, semaphores; sequences of scheduler steps.

  \<^bold>\<open>Conventions.\<close> A C function over the mount is a function from \<open>mount\<close> to its result and the
  mount it leaves; a \<^verbatim>\<open>SMKFS_STATUS\<close> with out parameters is \<open>status + 'a\<close>. Integers have
  their width, so sums and products wrap around as in C; byte counts and loop indices that
  cannot reach the end of their type are natural numbers, as the theories say. What a
  stack buffer or a block from \<^verbatim>\<open>malloc\<close> holds before it is written is a parameter (\<open>stk\<close>,
  \<open>junk\<close>). \<open>heap_ok\<close> decides every allocation of a mount's operations: the heap serves all
  of them or none. The drive (\<open>drv\<close>) fails on the sectors of \<open>rd_bad\<close> and \<open>wr_bad\<close>, which a
  run of the system does not change. \<open>None\<close> of an \<open>option\<close> result is a loop that does not end or
  a read or write behind a buffer, which C leaves undefined; the theorems on the operations
  show \<open>Some\<close>. Loops over arrays and blocks are recursions over lists of indices; loops that
  follow links on the disk (the two recovery passes, the descents and the leaf chain of
  the B+ tree) are partial functions. There is no fuel.

  \<^bold>\<open>What is assumed.\<close> In SmKFS, \<open>sound m\<close> is a mounted volume of 512-byte sectors that lies in the first
  128 GiB, with the regions of its superblock in order, a consistent cache, ring and
  region counts, and a drive without failing sectors. Properties on the cache and the
  sectors do without the last part. \<open>demo_mount\<close>, a volume of 64 blocks, and the mounts made
  from it by the operations are the concrete inputs of the witnesses.
  In memory management, each call is one step, as its spinlock makes it one; requests to the heap
  are at most 2^64 - 2^26 bytes and ranges to map shorter than 2^43, because the sums of the code
  wrap above (\<open>malloc_size_wraps\<close> shows one such case); the physical
  memory has at most 2^40 frames, the page tables are a tree of frames that the allocator
  counts as used, and the headers of the heap's blocks are a store of their own, by address,
  beside the bytes of the payloads: only the heap writes headers. In the scheduler a step ends
  where the processor switches tasks; the memory that a new task gets is in no use, the current
  task gives up the processor only while another one is ready, as the idle task is there to
  ensure, and the one processor that the kernel drives makes a spinlock that is taken a loop
  for good.

  \<^bold>\<open>Not modelled.\<close> Of SmKFS, console output (\<^verbatim>\<open>printk\<close>, the text of \<^verbatim>\<open>debug.c\<close>), the register
  protocol of the disk controller, and concurrency: the file system takes no locks and the
  kernel calls it from one thread. Of memory management, the two-level page tables of the i386
  build, which the preprocessor puts in the place of the ones modelled, the invalidation of
  TLB entries, which a walk of the tables does not see, and printed maps. Of the scheduler,
  registers, stacks and names of tasks, the context switch itself, which is assembly, and the
  i386 copy of the task code. The rest of the kernel is hardware access (drivers, interrupt and
  descriptor tables, CPU features, graphics), console programs (shell, editors, inspector), the
  loaders and the AMX interpreter, the older file system AMFS, which SmKFS replaces, and the
  vendored ACPICA.
\<close>

end
